(* ===== verification/Prelude.thy ===== *)
theory Prelude
  imports Main "HOL-Library.Word" "HOL-Library.Monad_Syntax"
begin

unbundle bit_operations_syntax

text \<open>
  Vocabulary shared by every theory of the development: machine integer types, the contract
  macros of \<open>Contracts.hpp\<close>, the bit-scan functions of the C++ standard library
  (\<open>std::countr_zero\<close>, \<open>std::countl_zero\<close>), and generic facts about lists and words.

  A function that evaluates a contract returns an \<open>option\<close>: \<open>None\<close> is the aborted process of
  the enforce mode. The components prove that their invariants rule \<open>None\<close> out, so
  the same theorems describe the profiles in which contracts are compiled out.
\<close>

named_theorems byte_simps \<open>evaluation of byte loads, stores and swaps\<close>
named_theorems contract_simps \<open>discharging contract checks\<close>
named_theorems wf_dests \<open>projections of component invariants\<close>

section \<open>Machine integers\<close>

type_synonym byte = "8 word"
type_synonym u16 = "16 word"
type_synonym u32 = "32 word"
type_synonym u64 = "64 word"

abbreviation int64_max :: int where "int64_max \<equiv> 9223372036854775807"
abbreviation int64_min :: int where "int64_min \<equiv> - 9223372036854775808"

text \<open>The unsigned 32-bit sentinel \<open>kNullIndex\<close> of \<open>Arena.hpp\<close>; slot indices are natural numbers.\<close>

definition kNullIndex :: nat where
  "kNullIndex = 4294967295"

section \<open>Contracts\<close>

definition mog_pre :: "bool \<Rightarrow> unit option" where
  "mog_pre c = (if c then Some () else None)"

lemma mog_pre_True [simp, contract_simps]: "mog_pre True = Some ()"
  by (simp add: mog_pre_def)

lemma mog_pre_False [simp]: "mog_pre False = None"
  by (simp add: mog_pre_def)

lemma bind_mog_pre [contract_simps]: "c \<Longrightarrow> Option.bind (mog_pre c) f = f ()"
  by simp

lemma bind_mog_pre_eq: "Option.bind (mog_pre c) f = (if c then f () else None)"
  by (simp add: mog_pre_def)

lemma bind_mog_pre_SomeD: "Option.bind (mog_pre c) f = Some x \<Longrightarrow> c \<and> f () = Some x"
  by (simp add: mog_pre_def split: if_splits)

section \<open>Bit scans\<close>

definition countr_zero :: "'a::len word \<Rightarrow> nat" where
  "countr_zero w = (case find (bit w) [0..<LENGTH('a)] of None \<Rightarrow> LENGTH('a) | Some n \<Rightarrow> n)"

definition countl_zero :: "'a::len word \<Rightarrow> nat" where
  "countl_zero w =
     (case find (bit w) (rev [0..<LENGTH('a)]) of None \<Rightarrow> LENGTH('a) | Some n \<Rightarrow> LENGTH('a) - 1 - n)"

lemma find_upt_Some:
  "find P [a..<b] = Some n \<longleftrightarrow> a \<le> n \<and> n < b \<and> P n \<and> (\<forall>m. a \<le> m \<and> m < n \<longrightarrow> \<not> P m)"
proof
  assume "find P [a..<b] = Some n"
  then obtain i where i: "i < b - a" "P (a + i)" "n = a + i" "\<forall>j<i. \<not> P (a + j)"
    by (auto simp: find_Some_iff)
  have "\<not> P m" if "a \<le> m" "m < n" for m
    using i(4)[rule_format, of "m - a"] that i(3) by auto
  with i show "a \<le> n \<and> n < b \<and> P n \<and> (\<forall>m. a \<le> m \<and> m < n \<longrightarrow> \<not> P m)"
    by auto
next
  assume a: "a \<le> n \<and> n < b \<and> P n \<and> (\<forall>m. a \<le> m \<and> m < n \<longrightarrow> \<not> P m)"
  then show "find P [a..<b] = Some n"
    unfolding find_Some_iff by (intro exI[of _ "n - a"]) auto
qed

lemma find_rev_upt_Some:
  "find P (rev [a..<b]) = Some n \<longleftrightarrow> a \<le> n \<and> n < b \<and> P n \<and> (\<forall>m. n < m \<and> m < b \<longrightarrow> \<not> P m)"
proof
  assume "find P (rev [a..<b]) = Some n"
  then obtain i where i: "i < b - a" "P (rev [a..<b] ! i)" "n = rev [a..<b] ! i"
      "\<forall>j<i. \<not> P (rev [a..<b] ! j)"
    by (auto simp: find_Some_iff)
  then have n: "n = b - 1 - i" by (simp add: rev_nth)
  have "\<not> P m" if "n < m" "m < b" for m
  proof -
    have "rev [a..<b] ! (b - 1 - m) = m" using that i(1) n by (simp add: rev_nth)
    moreover have "b - 1 - m < i" using that i(1) n by simp
    ultimately show ?thesis using i(4) by metis
  qed
  with i n show "a \<le> n \<and> n < b \<and> P n \<and> (\<forall>m. n < m \<and> m < b \<longrightarrow> \<not> P m)" by auto
next
  assume a: "a \<le> n \<and> n < b \<and> P n \<and> (\<forall>m. n < m \<and> m < b \<longrightarrow> \<not> P m)"
  have "rev [a..<b] ! (b - 1 - n) = n" using a by (subst rev_nth) auto
  moreover have "\<not> P (rev [a..<b] ! j)" if "j < b - 1 - n" for j
    using a that by (subst rev_nth) auto
  ultimately show "find P (rev [a..<b]) = Some n"
    unfolding find_Some_iff using a by (intro exI[of _ "b - 1 - n"]) auto
qed

lemma countr_zero_eqI:
  fixes w :: "'a::len word"
  assumes "bit w n" and "\<And>m. m < n \<Longrightarrow> \<not> bit w m"
  shows "countr_zero w = n"
proof -
  from assms(1) have "n < LENGTH('a)" by (rule bit_imp_le_length)
  with assms have "find (bit w) [0..<LENGTH('a)] = Some n" by (simp add: find_upt_Some)
  then show ?thesis by (simp add: countr_zero_def)
qed

lemma countr_zero_spec:
  fixes w :: "'a::len word"
  assumes "w \<noteq> 0"
  shows "countr_zero w < LENGTH('a)" and "bit w (countr_zero w)"
    and "\<And>m. m < countr_zero w \<Longrightarrow> \<not> bit w m"
proof -
  from assms obtain k where k: "bit w k" by (auto simp: bit_eq_iff)
  define n where "n = (LEAST k. bit w k)"
  have "bit w n" unfolding n_def using k by (rule LeastI)
  moreover have least: "\<And>m. m < n \<Longrightarrow> \<not> bit w m"
    unfolding n_def using not_less_Least by blast
  ultimately have "countr_zero w = n" by (intro countr_zero_eqI) auto
  with \<open>bit w n\<close> least show "countr_zero w < LENGTH('a)" "bit w (countr_zero w)"
    "\<And>m. m < countr_zero w \<Longrightarrow> \<not> bit w m"
    by (auto dest: bit_imp_le_length)
qed

text \<open>The index of the highest set bit, as the code computes it: width - 1 - \<open>countl_zero\<close>.\<close>

lemma countl_zero_spec:
  fixes w :: "'a::len word"
  assumes "w \<noteq> 0"
  shows "LENGTH('a) - 1 - countl_zero w < LENGTH('a)" and "bit w (LENGTH('a) - 1 - countl_zero w)"
    and "\<And>m. LENGTH('a) - 1 - countl_zero w < m \<Longrightarrow> \<not> bit w m"
    and "countl_zero w < LENGTH('a)"
proof -
  from assms obtain k where k: "bit w k" by (auto simp: bit_eq_iff)
  then have kl: "k < LENGTH('a)" by (rule bit_imp_le_length)
  have "find (bit w) (rev [0..<LENGTH('a)]) \<noteq> None"
    using k kl by (auto simp: find_None_iff)
  then obtain n where n: "find (bit w) (rev [0..<LENGTH('a)]) = Some n" by auto
  then have c: "countl_zero w = LENGTH('a) - 1 - n" by (simp add: countl_zero_def)
  from n have p: "n < LENGTH('a)" "bit w n" "\<forall>m. n < m \<and> m < LENGTH('a) \<longrightarrow> \<not> bit w m"
    by (auto simp: find_rev_upt_Some)
  from p(1) c have e: "LENGTH('a) - 1 - countl_zero w = n" by simp
  show "LENGTH('a) - 1 - countl_zero w < LENGTH('a)" and "bit w (LENGTH('a) - 1 - countl_zero w)"
    using e p by auto
  show "\<And>m. LENGTH('a) - 1 - countl_zero w < m \<Longrightarrow> \<not> bit w m"
    using e p by (auto dest: bit_imp_le_length)
  show "countl_zero w < LENGTH('a)" using c p(1) by auto
qed

section \<open>Lists read and written by index\<close>

lemma nth_list_update_if:
  "i < length xs \<Longrightarrow> xs[i := x] ! j = (if i = j then x else xs ! j)"
  by (simp add: nth_list_update)

lemma list_update_id' [simp]: "xs[i := xs ! i] = xs"
  by simp

text \<open>The ends of a list, or a default.\<close>

definition hd_or :: "'x \<Rightarrow> 'x list \<Rightarrow> 'x" where
  "hd_or d xs = (if xs = [] then d else hd xs)"

definition last_or :: "'x \<Rightarrow> 'x list \<Rightarrow> 'x" where
  "last_or d xs = (if xs = [] then d else last xs)"

lemma hd_or_simps [simp]: "hd_or d [] = d" "hd_or d (x # xs) = x"
  by (simp_all add: hd_or_def)

lemma hd_or_append [simp]: "hd_or d (xs @ ys) = hd_or (hd_or d ys) xs"
  by (cases xs) auto

lemma last_or_simps [simp]: "last_or d [] = d" "last_or d (x # xs) = last_or x xs"
  by (simp_all add: last_or_def)

lemma last_or_append [simp]: "last_or d (xs @ ys) = last_or (last_or d xs) ys"
  by (induction xs arbitrary: d) auto

lemma last_or_in: "xs \<noteq> [] \<Longrightarrow> last_or d xs \<in> set xs"
  by (simp add: last_or_def)

lemma hd_or_in: "xs \<noteq> [] \<Longrightarrow> hd_or d xs \<in> set xs"
  by (simp add: hd_or_def)

section \<open>Binary search\<close>

text \<open>\<open>std::lower_bound\<close>: bisection for the first element that is not before the searched one.\<close>

function lower_bound :: "('e \<Rightarrow> bool) \<Rightarrow> 'e list \<Rightarrow> nat \<Rightarrow> nat \<Rightarrow> nat" where
  "lower_bound before xs first len =
     (if len = 0 then first
      else let half = len div 2
           in if before (xs ! (first + half)) then lower_bound before xs (first + half + 1) (len - half - 1)
              else lower_bound before xs first half)"
  by pat_completeness auto
termination
  by (relation "measure (\<lambda>(_, _, _, len). len)") auto

declare lower_bound.simps [simp del]

lemma lower_bound_splits:
  assumes "sorted_wrt (\<lambda>x y. before y \<longrightarrow> before x) xs" and "first + len \<le> length xs"
    and "\<forall>k < first. before (xs ! k)" and "\<forall>k. first + len \<le> k \<and> k < length xs \<longrightarrow> \<not> before (xs ! k)"
  shows "lower_bound before xs first len \<le> length xs \<and> (\<forall>k < lower_bound before xs first len. before (xs ! k)) \<and>
    (\<forall>k. lower_bound before xs first len \<le> k \<and> k < length xs \<longrightarrow> \<not> before (xs ! k))"
  using assms
proof (induction before xs first len rule: lower_bound.induct)
  case (1 before xs first len)
  show ?case
  proof (cases "len = 0")
    case True
    then show ?thesis using "1.prems" by (simp add: lower_bound.simps)
  next
    case False
    then have half: "first + len div 2 < length xs" "len div 2 < len" using "1.prems"(2) by auto
    have mono: "before (xs ! b) \<Longrightarrow> before (xs ! a)" if "a \<le> b" "b < length xs" for a b
      using sorted_wrt_nth_less[OF "1.prems"(1), of a b] that by (cases "a = b") auto
    show ?thesis
    proof (cases "before (xs ! (first + len div 2))")
      case True
      have seen: "\<forall>k < first + len div 2 + 1. before (xs ! k)"
        using mono[OF _ half(1) True] by (auto simp: less_Suc_eq_le)
      have e: "first + len div 2 + 1 + (len - len div 2 - 1) = first + len" using half by linarith
      have eq: "lower_bound before xs first len = lower_bound before xs (first + len div 2 + 1) (len - len div 2 - 1)"
        using True False by (subst lower_bound.simps) (simp add: Let_def)
      show ?thesis unfolding eq
        by (rule "1.IH"(1)[OF False refl True "1.prems"(1) _ seen]) (simp only: e "1.prems"(2), unfold e, rule "1.prems"(4))
    next
      case upper: False
      have seen: "\<forall>k. first + len div 2 \<le> k \<and> k < length xs \<longrightarrow> \<not> before (xs ! k)"
        using mono upper by blast
      have eq: "lower_bound before xs first len = lower_bound before xs first (len div 2)"
        using upper False by (subst lower_bound.simps) (simp add: Let_def)
      show ?thesis unfolding eq
        by (rule "1.IH"(2)[OF False refl upper "1.prems"(1) _ "1.prems"(3) seen]) (use half in simp)
    qed
  qed
qed

lemma drop_first_after:
  "n \<le> length xs \<Longrightarrow> \<forall>k < n. before (xs ! k) \<Longrightarrow> (n < length xs \<Longrightarrow> \<not> before (xs ! n)) \<Longrightarrow> drop n xs = dropWhile before xs"
proof (induction xs arbitrary: n)
  case (Cons x xs)
  show ?case
  proof (cases n)
    case (Suc k)
    then have "drop k xs = dropWhile before xs" by (intro Cons.IH) (use Cons.prems in auto)
    then show ?thesis using Suc Cons.prems(2) by auto
  qed (use Cons.prems in simp)
qed simp

lemma lower_bound_drop:
  assumes "sorted_wrt (\<lambda>x y. before y \<longrightarrow> before x) xs"
  shows "drop (lower_bound before xs 0 (length xs)) xs = dropWhile before xs"
proof -
  have "0 + length xs \<le> length xs" "\<forall>k < 0. before (xs ! k)" "\<forall>k. 0 + length xs \<le> k \<and> k < length xs \<longrightarrow> \<not> before (xs ! k)" by auto
  from lower_bound_splits[OF assms this] show ?thesis by (intro drop_first_after) blast+
qed

lemma lower_bound_sorted:
  assumes "sorted (map f xs)"
  shows "drop (lower_bound (\<lambda>x. f x < t) xs 0 (length xs)) xs = dropWhile (\<lambda>x. f x < t) xs"
  by (rule lower_bound_drop) (use assms in \<open>auto simp: sorted_map elim!: sorted_wrt_mono_rel[rotated]\<close>)

section \<open>Powers of two\<close>

lemma and_pow2_minus_1: "(n::nat) AND (2 ^ k - 1) = n mod 2 ^ k"
  by (metis and.commute mask_eq_exp_minus_1 take_bit_eq_mask take_bit_eq_mod and.commute)

lemma and_63_nat: "(n::nat) AND 63 = n mod 64"
  using and_pow2_minus_1[of n 6] by simp

end
