(* ===== verification/FixedPoint.thy ===== *)
theory FixedPoint
  imports Prelude
begin

text \<open>
  Saturating 64-bit arithmetic (\<open>include/mog/polyfill/Saturating.hpp\<close>, the fallback used when
  the standard library has none) and the fixed-point \<open>Price\<close> and \<open>Qty\<close> of
  \<open>include/mog/Types.hpp\<close>. Both wrap one signed 64-bit field, which is an \<open>int\<close> here; what the
  width does to an operation is written out with \<open>fits64\<close>.
\<close>

section \<open>Saturating operations\<close>

definition fits64 :: "int \<Rightarrow> bool" where
  "fits64 r \<longleftrightarrow> int64_min \<le> r \<and> r \<le> int64_max"

definition clamp64 :: "int \<Rightarrow> int" where
  "clamp64 r = max int64_min (min int64_max r)"

definition add_sat :: "int \<Rightarrow> int \<Rightarrow> int" where
  "add_sat a b =
     (let r = a + b
      in if fits64 r then r
         else if (a > 0) = (b > 0) then (if a > 0 then int64_max else int64_min)
         else 0)"

definition sub_sat :: "int \<Rightarrow> int \<Rightarrow> int" where
  "sub_sat a b =
     (let r = a - b
      in if fits64 r then r
         else if b > 0 then int64_min else int64_max)"

definition mul_sat :: "int \<Rightarrow> int \<Rightarrow> int" where
  "mul_sat a b =
     (let r = a * b
      in if fits64 r then r
         else let negative = ((a > 0) \<noteq> (b > 0))
              in if negative then int64_min else int64_max)"

lemma fits64_clamp64 [simp]: "fits64 (clamp64 r)"
  by (auto simp: fits64_def clamp64_def)

lemma clamp64_id [simp]: "fits64 r \<Longrightarrow> clamp64 r = r"
  by (auto simp: fits64_def clamp64_def)

lemma add_sat_clamp:
  assumes "fits64 a" "fits64 b"
  shows "add_sat a b = clamp64 (a + b)"
  using assms by (auto simp: add_sat_def clamp64_def fits64_def Let_def)

lemma sub_sat_clamp:
  assumes "fits64 a" "fits64 b"
  shows "sub_sat a b = clamp64 (a - b)"
  using assms by (auto simp: sub_sat_def clamp64_def fits64_def Let_def)

lemma mul_sat_clamp:
  assumes "fits64 a" "fits64 b"
  shows "mul_sat a b = clamp64 (a * b)"
proof (cases "fits64 (a * b)")
  case True
  then show ?thesis by (simp add: mul_sat_def)
next
  case False
  then have nz: "a \<noteq> 0" "b \<noteq> 0" by (auto simp: fits64_def)
  show ?thesis
  proof (cases "(a > 0) \<noteq> (b > 0)")
    case True
    with nz have "a * b < 0" by (auto simp: mult_less_0_iff)
    with False True show ?thesis by (auto simp: mul_sat_def clamp64_def fits64_def Let_def)
  next
    case same: False
    with nz have "a * b > 0" by (auto simp: zero_less_mult_iff)
    with False same show ?thesis by (auto simp: mul_sat_def clamp64_def fits64_def Let_def)
  qed
qed

lemma clamp64_mono: "a \<le> b \<Longrightarrow> clamp64 a \<le> clamp64 b"
  by (simp add: clamp64_def)

section \<open>Price and quantity\<close>

type_synonym price = int
type_synonym qty = int

definition kPriceScale :: int where
  "kPriceScale = 10000"

definition kValueLimit :: int where
  "kValueLimit = 72057594037927936"

definition price_add :: "price \<Rightarrow> price \<Rightarrow> price" where
  "price_add ticks rhs = add_sat ticks rhs"

definition price_sub :: "price \<Rightarrow> price \<Rightarrow> price" where
  "price_sub ticks rhs = sub_sat ticks rhs"

definition price_mul :: "price \<Rightarrow> int \<Rightarrow> price" where
  "price_mul ticks factor = mul_sat ticks factor"

definition price_raw_add :: "price \<Rightarrow> price \<Rightarrow> price option" where
  "price_raw_add ticks rhs = do {
     mog_pre (ticks \<le> kValueLimit \<and> rhs \<le> kValueLimit);
     mog_pre (ticks \<ge> - kValueLimit \<and> rhs \<ge> - kValueLimit);
     Some (ticks + rhs)
   }"

definition price_raw_sub :: "price \<Rightarrow> price \<Rightarrow> price option" where
  "price_raw_sub ticks rhs = do {
     mog_pre (ticks \<le> kValueLimit \<and> rhs \<le> kValueLimit);
     mog_pre (ticks \<ge> - kValueLimit \<and> rhs \<ge> - kValueLimit);
     Some (ticks - rhs)
   }"

definition qty_add :: "qty \<Rightarrow> qty \<Rightarrow> qty" where
  "qty_add units rhs = add_sat units rhs"

definition qty_sub :: "qty \<Rightarrow> qty \<Rightarrow> qty" where
  "qty_sub units rhs = sub_sat units rhs"

definition qty_raw_sub_nonneg :: "qty \<Rightarrow> qty \<Rightarrow> qty option" where
  "qty_raw_sub_nonneg units rhs = do {
     mog_pre (rhs \<ge> 0);
     mog_pre (units \<ge> rhs);
     Some (units - rhs)
   }"

text \<open>
  The contract of the unchecked variants is what makes them agree with the saturating ones:
  within \<open>kValueLimit\<close> nothing saturates and nothing overflows.
\<close>

lemma price_raw_add_fits:
  assumes "price_raw_add a b = Some r"
  shows "fits64 r" and "r = price_add a b" and "r = a + b"
proof -
  from assms have b: "- kValueLimit \<le> a" "a \<le> kValueLimit" "- kValueLimit \<le> b" "b \<le> kValueLimit"
    and r: "r = a + b"
    by (auto simp: price_raw_add_def bind_mog_pre_eq split: if_splits)
  from b show f: "fits64 r" by (simp add: r fits64_def kValueLimit_def)
  from f show "r = price_add a b" by (simp add: r price_add_def add_sat_def)
  show "r = a + b" by (rule r)
qed

lemma price_raw_sub_fits:
  assumes "price_raw_sub a b = Some r"
  shows "fits64 r" and "r = price_sub a b" and "r = a - b"
proof -
  from assms have b: "- kValueLimit \<le> a" "a \<le> kValueLimit" "- kValueLimit \<le> b" "b \<le> kValueLimit"
    and r: "r = a - b"
    by (auto simp: price_raw_sub_def bind_mog_pre_eq split: if_splits)
  from b show f: "fits64 r" by (simp add: r fits64_def kValueLimit_def)
  from f show "r = price_sub a b" by (simp add: r price_sub_def sub_sat_def)
  show "r = a - b" by (rule r)
qed

lemma qty_raw_sub_nonneg_Some:
  "qty_raw_sub_nonneg u r = Some q \<longleftrightarrow> 0 \<le> r \<and> r \<le> u \<and> q = u - r"
  by (auto simp: qty_raw_sub_nonneg_def bind_mog_pre_eq)

end
