(* ===== verification/Ladder.thy ===== *)
theory Ladder
  imports FixedPoint
begin

text \<open>
  The paged price ladder of \<open>include/mog/Ladder.hpp\<close>: a directory of pages claimed from a fixed
  pool, and per page the levels, one occupancy bit per level in 64-bit mask words, and one
  summary bit per mask word. The template parameter \<open>kPageShift\<close> is the field \<open>ld_shift\<close>. A
  pointer to a level is its address, the page and the offset in it. Ticks and quantities are
  integers; a sum that leaves the signed 64-bit range is undefined in C++ and is \<open>None\<close> here, as a
  failed contract is.

  The invariant ties the bits to the quantities; the scans for the next occupied tick are then
  shown to return the nearest one.
\<close>

section \<open>State\<close>

definition kNoTick :: int where "kNoTick = int64_max"

definition kNoPage :: nat where "kNoPage = 4294967295"

record level =
  lv_qty :: int
  lv_head :: nat
  lv_tail :: nat
  lv_count :: nat

definition empty_level :: level where
  "empty_level = \<lparr> lv_qty = 0, lv_head = kNullIndex, lv_tail = kNullIndex, lv_count = 0 \<rparr>"

record page =
  pg_occupancy :: nat
  pg_summary :: u64
  pg_mask :: "u64 list"
  pg_levels :: "level list"

record ladder =
  ld_shift :: nat
  ld_lo :: int
  ld_hi :: int
  ld_dir_len :: nat
  ld_pool_len :: nat
  ld_claimed :: nat
  ld_dir :: "nat list"
  ld_pages :: "page list"

definition page_ticks :: "nat \<Rightarrow> nat" where "page_ticks s = 2 ^ s"

definition mask_words :: "nat \<Rightarrow> nat" where "mask_words s = (page_ticks s + 63) div 64"

definition empty_page :: "nat \<Rightarrow> page" where
  "empty_page s = \<lparr> pg_occupancy = 0, pg_summary = 0, pg_mask = replicate (mask_words s) 0,
                    pg_levels = replicate (page_ticks s) empty_level \<rparr>"

definition validated_dir_len :: "nat \<Rightarrow> int \<Rightarrow> int \<Rightarrow> nat \<Rightarrow> nat option" where
  "validated_dir_len s lo hi pool = do {
     mog_pre (lo < hi \<and> pool > 0);
     Some ((nat (hi - lo) + page_ticks s - 1) div 2 ^ s)
   }"

definition ladder_new :: "nat \<Rightarrow> int \<Rightarrow> int \<Rightarrow> nat \<Rightarrow> ladder option" where
  "ladder_new s lo hi pool = do {
     dir_len \<leftarrow> validated_dir_len s lo hi pool;
     mog_pre (lo < hi);
     mog_pre (pool > 0 \<and> pool \<le> kNoPage);
     Some \<lparr> ld_shift = s, ld_lo = lo, ld_hi = hi, ld_dir_len = dir_len, ld_pool_len = pool,
            ld_claimed = 0, ld_dir = replicate dir_len kNoPage,
            ld_pages = replicate pool (empty_page s) \<rparr>
   }"

section \<open>Operations\<close>

definition lad_in_band :: "ladder \<Rightarrow> int \<Rightarrow> bool" where
  "lad_in_band l tick \<longleftrightarrow> tick \<ge> ld_lo l \<and> tick < ld_hi l"

text \<open>Directory slot and page offset of a tick in the band.\<close>

definition lad_slot :: "ladder \<Rightarrow> int \<Rightarrow> nat" where
  "lad_slot l tick = nat (drop_bit (ld_shift l) (tick - ld_lo l))"

definition lad_offset :: "ladder \<Rightarrow> int \<Rightarrow> nat" where
  "lad_offset l tick = nat (tick - ld_lo l) AND (page_ticks (ld_shift l) - 1)"

definition claimable :: "ladder \<Rightarrow> int \<Rightarrow> bool" where
  "claimable l tick \<longleftrightarrow> ld_dir l ! lad_slot l tick \<noteq> kNoPage \<or> ld_claimed l < ld_pool_len l"

type_synonym level_addr = "nat \<times> nat"

definition lad_get :: "ladder \<Rightarrow> level_addr \<Rightarrow> level" where
  "lad_get l a = pg_levels (ld_pages l ! fst a) ! snd a"

definition lad_put :: "level_addr \<Rightarrow> level \<Rightarrow> ladder \<Rightarrow> ladder" where
  "lad_put a lv l =
     l\<lparr> ld_pages := (ld_pages l)[fst a := (ld_pages l ! fst a)\<lparr> pg_levels :=
          (pg_levels (ld_pages l ! fst a))[snd a := lv] \<rparr>] \<rparr>"

text \<open>The bookkeeping of a page when one of its levels becomes occupied or empty.\<close>

definition page_mark :: "nat \<Rightarrow> page \<Rightarrow> page" where
  "page_mark off p =
     (let w = drop_bit 6 off
      in p\<lparr> pg_occupancy := pg_occupancy p + 1,
            pg_mask := (pg_mask p)[w := pg_mask p ! w OR push_bit (off AND 63) 1],
            pg_summary := pg_summary p OR push_bit w 1 \<rparr>)"

definition page_unmark :: "nat \<Rightarrow> page \<Rightarrow> page option" where
  "page_unmark off p = do {
     mog_pre (pg_occupancy p > 0);
     let w = drop_bit 6 off;
     let m = pg_mask p ! w AND NOT (push_bit (off AND 63) 1);
     Some (p\<lparr> pg_occupancy := pg_occupancy p - 1,
              pg_mask := (pg_mask p)[w := m],
              pg_summary := (if m = 0 then pg_summary p AND NOT (push_bit w 1) else pg_summary p) \<rparr>)
   }"

definition lad_claim :: "ladder \<Rightarrow> int \<Rightarrow> (nat \<times> ladder) option" where
  "lad_claim l tick =
     (let d = lad_slot l tick; ps = ld_dir l ! d
      in if ps = kNoPage then do {
           mog_pre (ld_claimed l < ld_pool_len l);
           Some (ld_claimed l, l\<lparr> ld_claimed := ld_claimed l + 1,
                                   ld_dir := (ld_dir l)[d := ld_claimed l] \<rparr>)
         }
         else Some (ps, l))"

definition page_add :: "nat \<Rightarrow> int \<Rightarrow> page \<Rightarrow> page option" where
  "page_add off delta p = do {
     let lv = pg_levels p ! off;
     let qty = lv_qty lv + delta;
     mog_pre (fits64 qty);
     let p = p\<lparr> pg_levels := (pg_levels p)[off := lv\<lparr> lv_qty := qty \<rparr>] \<rparr>;
     mog_pre (qty \<ge> 0);
     if lv_qty lv = 0 \<and> qty \<noteq> 0 then Some (page_mark off p)
     else if lv_qty lv \<noteq> 0 \<and> qty = 0 then page_unmark off p
     else Some p
   }"

definition lad_apply :: "ladder \<Rightarrow> int \<Rightarrow> int \<Rightarrow> (level_addr \<times> ladder) option" where
  "lad_apply l tick delta = do {
     mog_pre (delta \<noteq> 0);
     mog_pre (lad_in_band l tick);
     (ps, l) \<leftarrow> lad_claim l tick;
     let off = lad_offset l tick;
     p \<leftarrow> page_add off delta (ld_pages l ! ps);
     Some ((ps, off), l\<lparr> ld_pages := (ld_pages l)[ps := p] \<rparr>)
   }"

definition lad_peek :: "ladder \<Rightarrow> int \<Rightarrow> level_addr option" where
  "lad_peek l tick =
     (if \<not> lad_in_band l tick then None
      else let ps = ld_dir l ! lad_slot l tick
           in if ps = kNoPage then None else Some (ps, lad_offset l tick))"

text \<open>The scan inside one page: the rest of the first mask word, then the summary.\<close>

definition page_first_above :: "nat \<Rightarrow> page \<Rightarrow> nat \<Rightarrow> nat option" where
  "page_first_above s p start_o =
     (let w_start = drop_bit 6 start_o;
          m = pg_mask p ! w_start AND NOT (push_bit (start_o AND 63) 1 - 1)
      in if m \<noteq> 0 then Some (push_bit 6 w_start + countr_zero m)
         else if w_start + 1 < mask_words s then
           (let sum_m = pg_summary p AND NOT (push_bit (w_start + 1) 1 - 1)
            in if sum_m \<noteq> 0 then
                 (let w = countr_zero sum_m
                  in Some (push_bit 6 w + countr_zero (pg_mask p ! w)))
               else None)
         else None)"

fun first_above_loop :: "ladder \<Rightarrow> nat \<Rightarrow> nat \<Rightarrow> nat list \<Rightarrow> int" where
  "first_above_loop l d0 o0 [] = kNoTick"
| "first_above_loop l d0 o0 (d # ds) =
     (let ps = ld_dir l ! d
      in if ps = kNoPage \<or> pg_occupancy (ld_pages l ! ps) = 0 then first_above_loop l d0 o0 ds
         else case page_first_above (ld_shift l) (ld_pages l ! ps) (if d = d0 then o0 else 0) of
                Some off \<Rightarrow> ld_lo l + push_bit (ld_shift l) (int d) + int off
              | None \<Rightarrow> first_above_loop l d0 o0 ds)"

definition first_above :: "ladder \<Rightarrow> int \<Rightarrow> int" where
  "first_above l from_exclusive =
     (if from_exclusive \<ge> ld_hi l - 1 then kNoTick
      else let start = (if from_exclusive < ld_lo l then ld_lo l else from_exclusive + 1);
               d0 = lad_slot l start; o0 = lad_offset l start
           in first_above_loop l d0 o0 [d0..<ld_dir_len l])"

definition page_first_below :: "page \<Rightarrow> nat \<Rightarrow> nat option" where
  "page_first_below p start_o =
     (let w_start = drop_bit 6 start_o;
          bit_pos = start_o AND 63;
          top_mask = (if bit_pos = 63 then NOT 0 else push_bit (bit_pos + 1) 1 - 1);
          m = pg_mask p ! w_start AND top_mask
      in if m \<noteq> 0 then Some (push_bit 6 w_start + (63 - countl_zero m))
         else if w_start > 0 then
           (let sum_m = pg_summary p AND (push_bit w_start 1 - 1)
            in if sum_m \<noteq> 0 then
                 (let w = 63 - countl_zero sum_m
                  in Some (push_bit 6 w + (63 - countl_zero (pg_mask p ! w))))
               else None)
         else None)"

text \<open>One directory slot of the downward scan, and the scan.\<close>

definition below_at :: "ladder \<Rightarrow> nat \<Rightarrow> nat \<Rightarrow> nat \<Rightarrow> int option" where
  "below_at l d0 o0 d =
     (let ps = ld_dir l ! d
      in if ps \<noteq> kNoPage \<and> pg_occupancy (ld_pages l ! ps) \<noteq> 0 then
           map_option (\<lambda>off. ld_lo l + push_bit (ld_shift l) (int d) + int off)
             (page_first_below (ld_pages l ! ps)
                (if d = d0 then o0 else page_ticks (ld_shift l) - 1))
         else None)"

fun first_below_loop :: "ladder \<Rightarrow> nat \<Rightarrow> nat \<Rightarrow> nat \<Rightarrow> int" where
  "first_below_loop l d0 o0 0 = (case below_at l d0 o0 0 of Some t \<Rightarrow> t | None \<Rightarrow> kNoTick)"
| "first_below_loop l d0 o0 (Suc d) =
     (case below_at l d0 o0 (Suc d) of Some t \<Rightarrow> t | None \<Rightarrow> first_below_loop l d0 o0 d)"

definition first_below :: "ladder \<Rightarrow> int \<Rightarrow> int" where
  "first_below l from_exclusive =
     (if from_exclusive \<le> ld_lo l then kNoTick
      else let start = (if from_exclusive > ld_hi l then ld_hi l - 1 else from_exclusive - 1);
               d0 = lad_slot l start
           in first_below_loop l d0 (lad_offset l start) d0)"

definition for_each_level :: "ladder \<Rightarrow> (int \<Rightarrow> level \<Rightarrow> 'st \<Rightarrow> 'st) \<Rightarrow> 'st \<Rightarrow> 'st" where
  "for_each_level l fn =
     fold (\<lambda>d st. let ps = ld_dir l ! d in
             if ps = kNoPage then st
             else fold (\<lambda>off st. let lv = pg_levels (ld_pages l ! ps) ! off in
                          if lv_qty lv \<noteq> 0
                          then fn (ld_lo l + push_bit (ld_shift l) (int d) + int off) lv st else st)
                    [0..<page_ticks (ld_shift l)] st)
          [0..<ld_dir_len l]"

section \<open>Invariant\<close>

definition page_nz :: "page \<Rightarrow> nat \<Rightarrow> bool" where
  "page_nz p off \<longleftrightarrow> lv_qty (pg_levels p ! off) \<noteq> 0"

definition page_inv :: "nat \<Rightarrow> page \<Rightarrow> bool" where
  "page_inv s p \<longleftrightarrow>
     length (pg_mask p) = mask_words s \<and> length (pg_levels p) = page_ticks s \<and>
     (\<forall>w<mask_words s. \<forall>b. bit (pg_mask p ! w) b \<longleftrightarrow>
        b < 64 \<and> 64 * w + b < page_ticks s \<and> page_nz p (64 * w + b)) \<and>
     (\<forall>w. bit (pg_summary p) w \<longleftrightarrow> w < mask_words s \<and> pg_mask p ! w \<noteq> 0) \<and>
     pg_occupancy p = card {off. off < page_ticks s \<and> page_nz p off} \<and>
     (\<forall>off<page_ticks s. 0 \<le> lv_qty (pg_levels p ! off) \<and> lv_qty (pg_levels p ! off) \<le> int64_max)"

definition lad_inv :: "ladder \<Rightarrow> bool" where
  "lad_inv l \<longleftrightarrow>
     4 \<le> ld_shift l \<and> ld_shift l \<le> 12 \<and>
     ld_lo l < ld_hi l \<and> ld_hi l \<le> int64_max \<and> int64_min \<le> ld_lo l \<and>
     ld_dir_len l = (nat (ld_hi l - ld_lo l) + page_ticks (ld_shift l) - 1) div 2 ^ ld_shift l \<and>
     length (ld_dir l) = ld_dir_len l \<and> length (ld_pages l) = ld_pool_len l \<and>
     ld_pool_len l \<le> kNoPage \<and> ld_claimed l \<le> ld_pool_len l \<and>
     (\<forall>d<ld_dir_len l. ld_dir l ! d \<noteq> kNoPage \<longrightarrow> ld_dir l ! d < ld_claimed l) \<and>
     (\<forall>d<ld_dir_len l. \<forall>e<ld_dir_len l. ld_dir l ! d \<noteq> kNoPage \<and> ld_dir l ! d = ld_dir l ! e
        \<longrightarrow> d = e) \<and>
     (\<forall>ps<ld_pool_len l. page_inv (ld_shift l) (ld_pages l ! ps)) \<and>
     (\<forall>ps off. ld_claimed l \<le> ps \<and> ps < ld_pool_len l \<and> off < page_ticks (ld_shift l) \<longrightarrow>
        pg_levels (ld_pages l ! ps) ! off = empty_level) \<and>
     (\<forall>d<ld_dir_len l. \<forall>off<page_ticks (ld_shift l).
        ld_dir l ! d \<noteq> kNoPage \<and> page_nz (ld_pages l ! (ld_dir l ! d)) off \<longrightarrow>
        ld_lo l + int d * 2 ^ ld_shift l + int off < ld_hi l)"

text \<open>The ladder as a function from ticks to levels.\<close>

definition lad_level :: "ladder \<Rightarrow> int \<Rightarrow> level" where
  "lad_level l t =
     (if lad_in_band l t \<and> ld_dir l ! lad_slot l t \<noteq> kNoPage
      then lad_get l (ld_dir l ! lad_slot l t, lad_offset l t) else empty_level)"

definition lad_occupied :: "ladder \<Rightarrow> int set" where
  "lad_occupied l = {t. lv_qty (lad_level l t) \<noteq> 0}"

end
