(* ===== verification/ProbeTable.thy ===== *)
theory ProbeTable
  imports Prelude
begin

text \<open>
  Open addressing with linear probing and backward-shift deletion, the algorithm behind the id
  table of \<open>include/mog/OrderBook.hpp\<close> and \<open>FlatOrderTable\<close> of \<open>include/mog/OUCH.hpp\<close>. A table is a list of
  entries, an entry a 64-bit reference (zero marks the empty slot) with its payload. The scan of
  a probe chain and the shift loop of an erase run until they meet an empty slot, so both are
  partial functions: the locale below proves that they return on every table the invariant
  admits, and what they do to the table read as a map.
\<close>

section \<open>The loops\<close>

type_synonym 'v entry = "u64 \<times> 'v"

definition next_slot :: "nat \<Rightarrow> nat \<Rightarrow> nat" where
  "next_slot cap i = (i + 1) AND (cap - 1)"

partial_function (option) probe_scan ::
  "nat \<Rightarrow> 'v entry list \<Rightarrow> u64 \<Rightarrow> nat \<Rightarrow> (nat \<times> 'v option) option" where
  "probe_scan cap es ref i =
     (if fst (es ! i) \<noteq> 0 then
        (if fst (es ! i) = ref then Some (i, Some (snd (es ! i)))
         else probe_scan cap es ref (next_slot cap i))
      else Some (i, None))"

definition home_in_gap :: "nat \<Rightarrow> nat \<Rightarrow> nat \<Rightarrow> bool" where
  "home_in_gap i j home = (if i < j then home > i \<and> home \<le> j else home > i \<or> home \<le> j)"

partial_function (option) shift_back ::
  "(u64 \<Rightarrow> nat) \<Rightarrow> nat \<Rightarrow> 'v entry list \<Rightarrow> nat \<Rightarrow> nat \<Rightarrow> 'v entry list option" where
  "shift_back home cap es i j0 =
     (let j = next_slot cap j0
      in if fst (es ! j) = 0 then Some (es[i := (0, snd (es ! i))])
         else if \<not> home_in_gap i j (home (fst (es ! j)))
         then shift_back home cap (es[i := es ! j]) j j
         else shift_back home cap es i j)"

section \<open>The table as a map, and its invariant\<close>

definition tbl_map :: "'v entry list \<Rightarrow> u64 \<rightharpoonup> 'v" where
  "tbl_map es = (\<lambda>k. if k = 0 then None else map_of es k)"

definition cdist :: "nat \<Rightarrow> nat \<Rightarrow> nat \<Rightarrow> nat" where
  "cdist cap a b = (if a \<le> b then b - a else b + cap - a)"

definition occ :: "'v entry list \<Rightarrow> nat \<Rightarrow> bool" where
  "occ es p \<longleftrightarrow> fst (es ! p) \<noteq> 0"

text \<open>
  Chains relative to a set of slots counted as occupied although they may not be (the hole of
  a running erase): every slot from an entry's home to the entry is counted as occupied.
\<close>

definition chain_ok :: "(u64 \<Rightarrow> nat) \<Rightarrow> nat \<Rightarrow> 'v entry list \<Rightarrow> nat set \<Rightarrow> nat \<Rightarrow> bool" where
  "chain_ok home cap es H p \<longleftrightarrow>
     (\<forall>q<cap. cdist cap (home (fst (es ! p))) q < cdist cap (home (fst (es ! p))) p
        \<longrightarrow> occ es q \<or> q \<in> H)"

definition keys_distinct :: "nat \<Rightarrow> 'v entry list \<Rightarrow> nat set \<Rightarrow> bool" where
  "keys_distinct cap es H \<longleftrightarrow>
     (\<forall>p<cap. \<forall>q<cap. p \<notin> H \<and> q \<notin> H \<and> occ es p \<and> fst (es ! p) = fst (es ! q) \<longrightarrow> p = q)"

definition tbl_inv :: "(u64 \<Rightarrow> nat) \<Rightarrow> nat \<Rightarrow> 'v entry list \<Rightarrow> bool" where
  "tbl_inv home cap es \<longleftrightarrow>
     length es = cap \<and> keys_distinct cap es {} \<and>
     (\<forall>p<cap. occ es p \<longrightarrow> chain_ok home cap es {} p) \<and> (\<exists>p<cap. \<not> occ es p)"

definition occupied :: "'v entry list \<Rightarrow> nat" where
  "occupied es = length (filter (\<lambda>e. fst e \<noteq> 0) es)"

lemma tbl_map_Some:
  assumes "length es = cap" and "keys_distinct cap es {}" and "k \<noteq> 0"
  shows "tbl_map es k = Some v \<longleftrightarrow> (\<exists>p<cap. es ! p = (k, v))"
proof
  assume "tbl_map es k = Some v"
  then have "(k, v) \<in> set es" using assms by (auto simp: tbl_map_def dest: map_of_SomeD)
  then show "\<exists>p<cap. es ! p = (k, v)" using assms(1) by (auto simp: in_set_conv_nth)
next
  assume "\<exists>p<cap. es ! p = (k, v)"
  then obtain p where p: "p < cap" "es ! p = (k, v)" by blast
  then have "(k, v) \<in> set es" using assms(1) by (metis nth_mem)
  then obtain w where w: "map_of es k = Some w" by (metis weak_map_of_SomeI)
  then obtain q where q: "q < cap" "es ! q = (k, w)"
    using assms(1) by (metis in_set_conv_nth map_of_SomeD)
  have "p = q" using assms(2,3) p q by (auto simp: keys_distinct_def occ_def)
  with p q w assms(3) show "tbl_map es k = Some v" by (simp add: tbl_map_def)
qed

lemma tbl_map_None:
  assumes "length es = cap" and "keys_distinct cap es {}" and "k \<noteq> 0"
  shows "tbl_map es k = None \<longleftrightarrow> (\<forall>p<cap. fst (es ! p) \<noteq> k)"
proof -
  have "tbl_map es k = None \<longleftrightarrow> (\<forall>v. \<forall>p<cap. es ! p \<noteq> (k, v))"
    using tbl_map_Some[OF assms] by (metis not_None_eq)
  then show ?thesis by (metis eq_fst_iff prod.collapse)
qed

lemma tbl_map_zero [simp]: "tbl_map es 0 = None"
  by (simp add: tbl_map_def)

lemma option_eq_all: "(\<And>w. a = Some w \<longleftrightarrow> b = Some w) \<Longrightarrow> a = b"
  by (metis option.exhaust)

lemma occupied_clear:
  "i < length es \<Longrightarrow> fst (es ! i) \<noteq> 0 \<Longrightarrow> occupied (es[i := (0, x)]) + 1 = occupied es"
  by (induction es arbitrary: i) (auto simp: occupied_def split: nat.splits)

lemma occupied_overwrite:
  "i < length es \<Longrightarrow> fst (es ! i) \<noteq> 0 \<Longrightarrow> fst x \<noteq> 0 \<Longrightarrow> occupied (es[i := x]) = occupied es"
  by (induction es arbitrary: i) (auto simp: occupied_def split: nat.splits)

locale probing =
  fixes home :: "u64 \<Rightarrow> nat" and cap :: nat
  assumes home_lt: "home r < cap"
    and cap_pow2: "\<exists>k. cap = 2 ^ k"
begin

lemma next_slot_eq: "i < cap \<Longrightarrow> next_slot cap i = (if i + 1 = cap then 0 else i + 1)"
  using cap_pow2 by (auto simp: next_slot_def and_pow2_minus_1[unfolded One_nat_def])

lemma next_slot_lt: "i < cap \<Longrightarrow> next_slot cap i < cap"
  by (auto simp: next_slot_eq)

lemma cdist_lt: "a < cap \<Longrightarrow> b < cap \<Longrightarrow> cdist cap a b < cap"
  by (auto simp: cdist_def)

lemma cdist_inj: "a < cap \<Longrightarrow> b < cap \<Longrightarrow> c < cap \<Longrightarrow> cdist cap a b = cdist cap a c \<Longrightarrow> b = c"
  by (auto simp: cdist_def split: if_splits)

lemma cdist_next:
  "a < cap \<Longrightarrow> b < cap \<Longrightarrow> next_slot cap b \<noteq> a \<Longrightarrow> cdist cap a (next_slot cap b) = cdist cap a b + 1"
  by (auto simp: cdist_def next_slot_eq split: if_splits)

lemma cdist_self [simp]: "cdist cap a a = 0"
  by (simp add: cdist_def)

text \<open>A scan meets the first empty slot or the key, whichever comes first.\<close>

lemma probe_scan_walk:
  assumes "e < cap" "\<not> occ es e" "i < cap"
    and "\<forall>q<cap. cdist cap h q < cdist cap h i \<longrightarrow> occ es q \<and> fst (es ! q) \<noteq> k"
    and "h < cap"
  shows "\<exists>s. s < cap \<and> cdist cap h i \<le> cdist cap h s \<and>
           (\<forall>q<cap. cdist cap h q < cdist cap h s \<longrightarrow> occ es q \<and> fst (es ! q) \<noteq> k) \<and>
           ((fst (es ! s) = k \<and> occ es s \<and> probe_scan cap es k i = Some (s, Some (snd (es ! s)))) \<or>
            (\<not> occ es s \<and> probe_scan cap es k i = Some (s, None)))"
  using assms
proof (induction "cdist cap h e - cdist cap h i" arbitrary: i rule: less_induct)
  case less
  note step = probe_scan.simps[of cap es k i]
  show ?case
  proof (cases "occ es i \<and> fst (es ! i) \<noteq> k")
    case False
    then show ?thesis using less.prems
      by (intro exI[of _ i]) (auto simp: step occ_def)
  next
    case True
    let ?n = "next_slot cap i"
    have ne: "e \<noteq> i" using True less.prems by auto
    have di: "cdist cap h i < cdist cap h e"
    proof (rule ccontr)
      assume "\<not> cdist cap h i < cdist cap h e"
      moreover have "cdist cap h e \<noteq> cdist cap h i" using cdist_inj less.prems ne by blast
      ultimately have "cdist cap h e < cdist cap h i" by simp
      then show False using less.prems by blast
    qed
    have nh: "?n \<noteq> h"
    proof
      assume "?n = h"
      then have "cdist cap h i = cap - 1" using less.prems(3,5)
        by (auto simp: cdist_def next_slot_eq split: if_splits)
      moreover have "cdist cap h e < cap" using cdist_lt less.prems by simp
      ultimately show False using di by simp
    qed
    have dn: "cdist cap h ?n = cdist cap h i + 1" using cdist_next less.prems nh by simp
    have "\<forall>q<cap. cdist cap h q < cdist cap h ?n \<longrightarrow> occ es q \<and> fst (es ! q) \<noteq> k"
      using less.prems(3-5) True dn by (metis cdist_inj less_Suc_eq Suc_eq_plus1)
    moreover have "cdist cap h e - cdist cap h ?n < cdist cap h e - cdist cap h i"
      using di dn by simp
    moreover have "probe_scan cap es k i = probe_scan cap es k ?n"
      using True by (simp add: step occ_def)
    ultimately show ?thesis
      using less.hyps[of ?n] less.prems next_slot_lt[of i] dn by (metis Suc_eq_plus1 Suc_leD)
  qed
qed

lemma probe_scan_correct:
  assumes inv: "tbl_inv home cap es" and k: "k \<noteq> 0"
  shows "\<exists>s<cap. probe_scan cap es k (home k) = Some (s, tbl_map es k) \<and>
           (tbl_map es k = None \<longrightarrow> \<not> occ es s) \<and>
           (tbl_map es k \<noteq> None \<longrightarrow> fst (es ! s) = k) \<and>
           (\<forall>q<cap. cdist cap (home k) q < cdist cap (home k) s \<longrightarrow> occ es q \<and> fst (es ! q) \<noteq> k)"
proof -
  from inv obtain e where e: "e < cap" "\<not> occ es e" and len: "length es = cap"
    and kd: "keys_distinct cap es {}"
    by (auto simp: tbl_inv_def)
  have "\<forall>q<cap. cdist cap (home k) q < cdist cap (home k) (home k) \<longrightarrow> occ es q \<and> fst (es ! q) \<noteq> k"
    by simp
  from probe_scan_walk[OF e home_lt this home_lt] obtain s where s: "s < cap"
    "\<forall>q<cap. cdist cap (home k) q < cdist cap (home k) s \<longrightarrow> occ es q \<and> fst (es ! q) \<noteq> k"
    "(fst (es ! s) = k \<and> occ es s \<and> probe_scan cap es k (home k) = Some (s, Some (snd (es ! s)))) \<or>
     (\<not> occ es s \<and> probe_scan cap es k (home k) = Some (s, None))" by blast
  show ?thesis
  proof (cases "occ es s")
    case True
    with s have "tbl_map es k = Some (snd (es ! s))"
      using tbl_map_Some[OF len kd k] by (metis prod.collapse)
    with s True show ?thesis by (intro exI[of _ s]) auto
  next
    case False
    have "tbl_map es k = None"
      unfolding tbl_map_None[OF len kd k]
    proof (intro allI impI notI)
      fix p assume p: "p < cap" "fst (es ! p) = k"
      then have "occ es p" using k by (simp add: occ_def)
      then have ch: "chain_ok home cap es {} p" using inv p by (simp add: tbl_inv_def)
      have "\<not> cdist cap (home k) s < cdist cap (home k) p"
        using ch False s(1) p by (auto simp: chain_ok_def)
      moreover have "p \<noteq> s" using \<open>occ es p\<close> False by auto
      ultimately have "cdist cap (home k) p < cdist cap (home k) s"
        using cdist_inj[OF home_lt[of k] p(1) s(1)] by linarith
      then show False using s(2) p by auto
    qed
    with s False show ?thesis by (intro exI[of _ s]) auto
  qed
qed

lemma insert_correct:
  assumes inv: "tbl_inv home cap es" and k: "k \<noteq> 0" and new: "tbl_map es k = None"
    and s: "s < cap" "\<not> occ es s"
    and path: "\<forall>q<cap. cdist cap (home k) q < cdist cap (home k) s \<longrightarrow> occ es q"
    and room: "\<exists>p<cap. p \<noteq> s \<and> \<not> occ es p"
  shows "tbl_inv home cap (es[s := (k, v)])" and "tbl_map (es[s := (k, v)]) = (tbl_map es)(k \<mapsto> v)"
proof -
  let ?es = "es[s := (k, v)]"
  from inv have len: "length es = cap" and kd: "keys_distinct cap es {}"
    and ch: "\<And>p. p < cap \<Longrightarrow> occ es p \<Longrightarrow> chain_ok home cap es {} p"
    by (auto simp: tbl_inv_def)
  from new have fresh: "\<forall>p<cap. fst (es ! p) \<noteq> k" using tbl_map_None[OF len kd k] by blast
  have nth: "?es ! p = (if p = s then (k, v) else es ! p)" for p
    using s(1) len by (simp add: nth_list_update)
  have occ': "occ ?es p \<longleftrightarrow> p = s \<or> occ es p" for p
    using k by (auto simp: occ_def nth)
  have kd': "keys_distinct cap ?es {}"
    using kd fresh s by (auto simp: keys_distinct_def occ' nth)
  have ch': "chain_ok home cap ?es {} p" if "p < cap" "occ ?es p" for p
  proof (cases "p = s")
    case True
    then show ?thesis using path by (auto simp: chain_ok_def occ' nth)
  next
    case False
    with that ch[of p] show ?thesis by (auto simp: chain_ok_def occ' nth)
  qed
  have "\<exists>p<cap. \<not> occ ?es p" using room by (auto simp: occ')
  with len kd' ch' show inv': "tbl_inv home cap ?es" by (simp add: tbl_inv_def)
  show "tbl_map ?es = (tbl_map es)(k \<mapsto> v)"
  proof
    fix r
    show "tbl_map ?es r = ((tbl_map es)(k \<mapsto> v)) r"
    proof (cases "r = 0")
      case True
      then show ?thesis using k by simp
    next
      case r: False
      have iff: "tbl_map ?es r = Some w \<longleftrightarrow> (\<exists>p<cap. ?es ! p = (r, w))" for w
        using tbl_map_Some[of ?es cap r w] kd' len r by simp
      show ?thesis
      proof (cases "r = k")
        case True
        then have "tbl_map ?es r = Some v" using iff[of v] s(1) nth[of s] by auto
        then show ?thesis using True by simp
      next
        case False
        have "(\<exists>p<cap. ?es ! p = (r, w)) \<longleftrightarrow> (\<exists>p<cap. es ! p = (r, w))" for w
          using False r s(2) by (metis fst_conv nth occ_def)
        then have "tbl_map ?es r = Some w \<longleftrightarrow> tbl_map es r = Some w" for w
          using iff[of w] tbl_map_Some[OF len kd r, of w] by simp
        then show ?thesis using False by (simp add: option_eq_all)
      qed
    qed
  qed
qed

text \<open>The slots an erase examines: the test of the code reads "the chain of this entry does not
  run through the hole".\<close>

lemma home_in_gap_iff:
  "i < cap \<Longrightarrow> j < cap \<Longrightarrow> h < cap \<Longrightarrow> i \<noteq> j \<Longrightarrow>
     home_in_gap i j h \<longleftrightarrow> \<not> cdist cap h i < cdist cap h j"
  by (auto simp: home_in_gap_def cdist_def)

lemma cdist_through:
  "i < cap \<Longrightarrow> j < cap \<Longrightarrow> p < cap \<Longrightarrow> h < cap \<Longrightarrow>
     cdist cap i j < cdist cap i p \<Longrightarrow> cdist cap h i < cdist cap h p \<Longrightarrow>
     cdist cap h j < cdist cap h p"
  by (auto simp: cdist_def split: if_splits)

lemma cdist_step_down:
  "j < cap \<Longrightarrow> e < cap \<Longrightarrow> j \<noteq> e \<Longrightarrow> cdist cap (next_slot cap j) e + 1 = cdist cap j e"
  by (auto simp: cdist_def next_slot_eq split: if_splits)

lemma cdist_between:
  "i < cap \<Longrightarrow> j < cap \<Longrightarrow> e < cap \<Longrightarrow> cdist cap i j < cdist cap i e \<Longrightarrow>
     next_slot cap j \<noteq> i \<and> cdist cap i (next_slot cap j) = cdist cap i j + 1 \<and>
     cdist cap i (next_slot cap j) \<le> cdist cap i e \<and> j \<noteq> e"
  by (auto simp: cdist_def next_slot_eq split: if_splits)

definition gap_inv :: "'v entry list \<Rightarrow> nat \<Rightarrow> nat \<Rightarrow> nat \<Rightarrow> bool" where
  "gap_inv es i j e \<longleftrightarrow> length es = cap \<and> i < cap \<and> j < cap \<and> e < cap \<and>
     \<not> occ es e \<and> occ es i \<and> keys_distinct cap es {i} \<and>
     (\<forall>p<cap. p \<noteq> i \<and> occ es p \<longrightarrow> chain_ok home cap es {} p) \<and>
     (\<forall>p<cap. occ es p \<and> 0 < cdist cap i p \<and> cdist cap i p \<le> cdist cap i j \<longrightarrow>
        \<not> cdist cap (home (fst (es ! p))) i < cdist cap (home (fst (es ! p))) p) \<and>
     cdist cap i j < cdist cap i e"

lemma gap_inv_finish:
  assumes g: "gap_inv es i j e" and j': "\<not> occ es (next_slot cap j)"
  shows "tbl_inv home cap (es[i := (0, x)])"
proof -
  let ?es = "es[i := (0, x)]" and ?n = "next_slot cap j"
  note g' = g[unfolded gap_inv_def]
  have nth: "?es ! p = (if p = i then (0, x) else es ! p)" for p
    using g' by (simp add: nth_list_update)
  have occ': "occ ?es p \<longleftrightarrow> p \<noteq> i \<and> occ es p" for p by (simp add: occ_def nth)
  have nlt: "?n < cap" using g' by (simp add: next_slot_lt)
  have dn: "cdist cap i ?n = cdist cap i j + 1" using cdist_between[of i j e] g' by simp
  have "chain_ok home cap ?es {} p" if p: "p < cap" "occ ?es p" for p
  proof -
    let ?h = "home (fst (es ! p))"
    have pi: "p \<noteq> i" and po: "occ es p" using p by (auto simp: occ')
    have ch: "chain_ok home cap es {} p" using g' p pi po by blast
    have "\<not> cdist cap ?h i < cdist cap ?h p"
    proof (cases "cdist cap i p \<le> cdist cap i j")
      case True
      moreover have "0 < cdist cap i p"
        using cdist_inj[of i p i] g' p pi by (cases "cdist cap i p") auto
      ultimately show ?thesis using g' p po by blast
    next
      case False
      have "p \<noteq> ?n" using po j' by blast
      then have "cdist cap i p \<noteq> cdist cap i ?n" using cdist_inj[of i p ?n] g' p nlt by blast
      then have "cdist cap i ?n < cdist cap i p" using False dn by linarith
      moreover have "i < cap" using g' by simp
      ultimately have "cdist cap ?h i < cdist cap ?h p \<Longrightarrow> cdist cap ?h ?n < cdist cap ?h p"
        using cdist_through[of i ?n p ?h] p(1) nlt home_lt by blast
      then show ?thesis using ch nlt j' unfolding chain_ok_def by blast
    qed
    then show ?thesis using ch pi unfolding chain_ok_def occ' by (auto simp: nth)
  qed
  moreover have "keys_distinct cap es {i}" using g' by blast
  then have "keys_distinct cap ?es {}" unfolding keys_distinct_def occ' nth
    by (auto simp: occ_def)
  moreover have "length ?es = cap" "e < cap" "\<not> occ ?es e" using g' by (auto simp: occ')
  ultimately show ?thesis unfolding tbl_inv_def by blast
qed

lemma gap_inv_skip:
  assumes g: "gap_inv es i j e" and o: "occ es (next_slot cap j)"
    and h: "home_in_gap i (next_slot cap j) (home (fst (es ! next_slot cap j)))"
  shows "gap_inv es i (next_slot cap j) e"
proof -
  let ?n = "next_slot cap j"
  note g' = g[unfolded gap_inv_def]
  have b: "?n \<noteq> i" "cdist cap i ?n = cdist cap i j + 1" "cdist cap i ?n \<le> cdist cap i e"
    using cdist_between[of i j e] g' by auto
  have nlt: "?n < cap" using g' by (simp add: next_slot_lt)
  have nh: "\<not> cdist cap (home (fst (es ! ?n))) i < cdist cap (home (fst (es ! ?n))) ?n"
    using h home_in_gap_iff[of i ?n] b g' nlt home_lt by metis
  have "?n \<noteq> e" using o g' by auto
  then have lt: "cdist cap i ?n < cdist cap i e"
    using b(3) cdist_inj[of i ?n e] g' nlt by (metis le_neq_implies_less)
  have "p = ?n \<or> cdist cap i p \<le> cdist cap i j" if "p < cap" "cdist cap i p \<le> cdist cap i ?n" for p
  proof -
    have "cdist cap i p = cdist cap i ?n \<Longrightarrow> p = ?n" using cdist_inj[of i p ?n] g' that nlt by blast
    then show ?thesis using that(2) b(2) by linarith
  qed
  then show ?thesis using g' nlt nh lt unfolding gap_inv_def by metis
qed

lemma gap_inv_move:
  assumes g: "gap_inv es i j e" and o: "occ es (next_slot cap j)"
    and h: "\<not> home_in_gap i (next_slot cap j) (home (fst (es ! next_slot cap j)))"
  shows "gap_inv (es[i := es ! next_slot cap j]) (next_slot cap j) (next_slot cap j) e"
proof -
  let ?n = "next_slot cap j"
  let ?es = "es[i := es ! ?n]" and ?h = "home (fst (es ! ?n))"
  note g' = g[unfolded gap_inv_def]
  have b: "?n \<noteq> i" using cdist_between[of i j e] g' by auto
  have nlt: "?n < cap" using g' by (simp add: next_slot_lt)
  have nth: "?es ! p = (if p = i then es ! ?n else es ! p)" for p
    using g' by (simp add: nth_list_update)
  have occ': "occ ?es p \<longleftrightarrow> occ es p" for p using g' o by (auto simp: occ_def nth)
  have thr: "cdist cap ?h i < cdist cap ?h ?n"
    using h home_in_gap_iff[of i ?n ?h] b g' nlt home_lt by metis
  have chn: "chain_ok home cap es {} ?n" using g' nlt o b by blast
  have "chain_ok home cap ?es {} p" if "p < cap" "p \<noteq> ?n" "occ es p" for p
  proof (cases "p = i")
    case True
    then show ?thesis using chn thr by (auto simp: chain_ok_def occ' nth)
  next
    case False
    then show ?thesis using g' that by (auto simp: chain_ok_def occ' nth)
  qed
  moreover have "keys_distinct cap ?es {?n}"
    unfolding keys_distinct_def
  proof (intro allI impI, elim conjE)
    fix p q assume p: "p < cap" "q < cap" "p \<notin> {?n}" "q \<notin> {?n}" "occ ?es p"
      "fst (?es ! p) = fst (?es ! q)"
    have inj: "a = c" if "a < cap" "c < cap" "a \<noteq> i" "c \<noteq> i" "occ es a"
      "fst (es ! a) = fst (es ! c)" for a c
      using g' that by (auto simp: keys_distinct_def)
    show "p = q"
      using p inj[of p q] inj[of ?n q] inj[of ?n p] b nlt o
      by (auto simp: nth occ' split: if_splits)
  qed
  moreover have "?n \<noteq> e" using o g' by auto
  then have "0 < cdist cap ?n e"
    using cdist_inj[of ?n e ?n] nlt g' by (cases "cdist cap ?n e") auto
  ultimately show ?thesis using g' nlt o unfolding gap_inv_def by (auto simp: occ')
qed

lemma shift_back_walk:
  assumes "gap_inv es i j e"
  shows "\<exists>es'. shift_back home cap es i j = Some es' \<and> tbl_inv home cap es' \<and>
     (\<forall>k v. k \<noteq> 0 \<longrightarrow> ((\<exists>p<cap. es' ! p = (k, v)) \<longleftrightarrow> (\<exists>p<cap. p \<noteq> i \<and> es ! p = (k, v)))) \<and>
     occupied es' + 1 = occupied es"
  using assms
proof (induction "cdist cap j e" arbitrary: es i j rule: less_induct)
  case less
  let ?n = "next_slot cap j"
  note g' = less.prems[unfolded gap_inv_def]
  note step = shift_back.simps[of home cap es i j, unfolded Let_def]
  have nlt: "?n < cap" using g' by (simp add: next_slot_lt)
  have b: "?n \<noteq> i" "j \<noteq> e" using cdist_between[of i j e] g' by auto
  have dec: "cdist cap ?n e < cdist cap j e" using cdist_step_down[of j e] g' b by simp
  consider (stop) "\<not> occ es ?n" | (skip) "occ es ?n" "home_in_gap i ?n (home (fst (es ! ?n)))"
    | (move) "occ es ?n" "\<not> home_in_gap i ?n (home (fst (es ! ?n)))" by blast
  then show ?case
  proof cases
    case stop
    let ?es = "es[i := (0, snd (es ! i))]"
    have "shift_back home cap es i j = Some ?es" using stop by (simp add: step occ_def)
    moreover have "tbl_inv home cap ?es" using gap_inv_finish[OF less.prems stop] .
    moreover have "(\<exists>p<cap. ?es ! p = (k, v)) \<longleftrightarrow> (\<exists>p<cap. p \<noteq> i \<and> es ! p = (k, v))"
      if "k \<noteq> 0" for k v using that g' by (auto simp: nth_list_update)
    moreover have "occupied ?es + 1 = occupied es" using g' occupied_clear[of i es] by (simp add: occ_def)
    ultimately show ?thesis by blast
  next
    case skip
    then have "shift_back home cap es i j = shift_back home cap es i ?n"
      by (simp add: step occ_def)
    with less.hyps[OF dec gap_inv_skip[OF less.prems skip]] show ?thesis by simp
  next
    case move
    let ?es = "es[i := es ! ?n]"
    have eq: "shift_back home cap es i j = shift_back home cap ?es ?n ?n"
      using move by (simp add: step occ_def)
    have "(\<exists>p<cap. p \<noteq> ?n \<and> ?es ! p = x) \<longleftrightarrow> (\<exists>p<cap. p \<noteq> i \<and> es ! p = x)" for x
    proof -
      have nth: "?es ! p = (if p = i then es ! ?n else es ! p)" for p
        using g' by (simp add: nth_list_update)
      show ?thesis unfolding nth using g' nlt b(1) by metis
    qed
    moreover have "occupied ?es = occupied es"
      using g' move occupied_overwrite[of i es "es ! ?n"] by (simp add: occ_def)
    ultimately show ?thesis
      using less.hyps[OF dec gap_inv_move[OF less.prems move]] by (simp add: eq)
  qed
qed

lemma erase_correct:
  assumes inv: "tbl_inv home cap es" and s: "s < cap" "es ! s = (k, v)" and k: "k \<noteq> 0"
  shows "\<exists>es'. shift_back home cap es s s = Some es' \<and> tbl_inv home cap es' \<and>
           tbl_map es' = (tbl_map es)(k := None) \<and> occupied es' + 1 = occupied es"
proof -
  from inv obtain e where e: "e < cap" "\<not> occ es e" and len: "length es = cap"
    and kd: "keys_distinct cap es {}" by (auto simp: tbl_inv_def)
  have o: "occ es s" using s k by (simp add: occ_def)
  have "0 < cdist cap s e" using cdist_inj[of s e s] e s o by (cases "cdist cap s e") auto
  moreover have "keys_distinct cap es {s}" using kd by (auto simp: keys_distinct_def)
  ultimately have "gap_inv es s s e"
    using inv e s o len by (auto simp: gap_inv_def tbl_inv_def)
  from shift_back_walk[OF this] obtain es' where es': "shift_back home cap es s s = Some es'"
    "tbl_inv home cap es'" "occupied es' + 1 = occupied es" and
    mem: "\<And>r w. r \<noteq> 0 \<Longrightarrow> (\<exists>p<cap. es' ! p = (r, w)) \<longleftrightarrow> (\<exists>p<cap. p \<noteq> s \<and> es ! p = (r, w))"
    by blast
  have len': "length es' = cap" and kd': "keys_distinct cap es' {}"
    using es'(2) by (auto simp: tbl_inv_def)
  have "tbl_map es' r = ((tbl_map es)(k := None)) r" for r
  proof (cases "r = 0")
    case False
    have uniq: "p = s" if "p < cap" "fst (es ! p) = k" for p
      using kd that s o by (auto simp: keys_distinct_def)
    have "tbl_map es' r = Some w \<longleftrightarrow> ((tbl_map es)(k := None)) r = Some w" for w
    proof -
      have "tbl_map es' r = Some w \<longleftrightarrow> (\<exists>p<cap. p \<noteq> s \<and> es ! p = (r, w))"
        using tbl_map_Some[OF len' kd' False] mem[OF False] by simp
      also have "\<dots> \<longleftrightarrow> r \<noteq> k \<and> (\<exists>p<cap. es ! p = (r, w))"
        using uniq s by (metis fst_conv)
      also have "\<dots> \<longleftrightarrow> ((tbl_map es)(k := None)) r = Some w"
        using tbl_map_Some[OF len kd False] by simp
      finally show ?thesis .
    qed
    then show ?thesis by (simp add: option_eq_all)
  qed simp
  with es' show ?thesis by blast
qed

lemma occupied_insert:
  assumes "s < length es" "\<not> occ es s" "k \<noteq> 0"
  shows "occupied (es[s := (k, v)]) = occupied es + 1"
  using occupied_clear[of s "es[s := (k, v)]" "snd (es ! s)"] assms
  by (cases "es ! s") (simp add: occ_def, metis list_update_id)

text \<open>A table at most half full has an empty slot, and one more after an insertion.\<close>

lemma room_of_load:
  assumes "length es = cap" "occupied es + 1 < cap"
  shows "\<exists>p<cap. p \<noteq> s \<and> \<not> occ es p"
proof (rule ccontr)
  assume "\<not> ?thesis"
  then have "{..<cap} - {s} \<subseteq> {p. p < cap \<and> occ es p}" by auto
  then have "card ({..<cap} - {s}) \<le> card {p. p < cap \<and> occ es p}" by (intro card_mono) auto
  then show False using assms
    by (auto simp: occupied_def length_filter_conv_card occ_def card_Diff_singleton_if split: if_splits)
qed

end

end
