(* ===== verification/Arena.thy ===== *)
theory Arena
  imports Prelude
begin

text \<open>
  The order arena of \<open>include/mog/Arena.hpp\<close>: a fixed block of slots, an intrusive free list, a
  watermark below which slots are constructed, and generational handles. The memory above the
  watermark is whatever the allocator returned (the argument \<open>raw\<close> of the constructor). An index
  is a natural number below \<open>kNullIndex\<close>, a generation a 32-bit word that wraps.

  The invariant says that the free list is a path through the released slots; \<open>arena_map\<close> is the
  arena as a map from live slots to their generation and value.
\<close>

section \<open>State and operations\<close>

record gen_handle =
  h_index :: nat
  h_generation :: u32

definition null_handle :: gen_handle where
  "null_handle = \<lparr> h_index = kNullIndex, h_generation = 0 \<rparr>"

definition is_null :: "gen_handle \<Rightarrow> bool" where
  "is_null h \<longleftrightarrow> h_index h = kNullIndex"

record 'a slot =
  s_value :: 'a
  s_generation :: u32
  s_free_next :: nat
  s_live :: bool

record 'a arena =
  ar_capacity :: nat
  ar_live :: nat
  ar_watermark :: nat
  ar_free_head :: nat
  ar_slots :: "'a slot list"

definition arena_new :: "nat \<Rightarrow> 'a slot list \<Rightarrow> 'a arena option" where
  "arena_new capacity raw = do {
     mog_pre (capacity > 0 \<and> capacity < kNullIndex);
     Some \<lparr> ar_capacity = capacity, ar_live = 0, ar_watermark = 0, ar_free_head = kNullIndex,
            ar_slots = take capacity raw \<rparr>
   }"

definition arena_acquire :: "'a \<Rightarrow> 'a arena \<Rightarrow> gen_handle \<times> 'a arena" where
  "arena_acquire v a =
     (let idx = ar_free_head a
      in if idx = kNullIndex then
           (if ar_watermark a \<ge> ar_capacity a then (null_handle, a)
            else
              (let idx = ar_watermark a
               in (\<lparr> h_index = idx, h_generation = 0 \<rparr>,
                   a\<lparr> ar_watermark := idx + 1, ar_live := ar_live a + 1,
                      ar_slots := (ar_slots a)[idx := \<lparr> s_value = v, s_generation = 0,
                                     s_free_next = kNullIndex, s_live = True \<rparr>] \<rparr>)))
         else
           (let s = ar_slots a ! idx
            in (\<lparr> h_index = idx, h_generation = s_generation s \<rparr>,
                a\<lparr> ar_free_head := s_free_next s, ar_live := ar_live a + 1,
                   ar_slots := (ar_slots a)[idx := s\<lparr> s_live := True, s_value := v \<rparr>] \<rparr>)))"

definition arena_valid :: "'a arena \<Rightarrow> gen_handle \<Rightarrow> bool" where
  "arena_valid a h =
     (if h_index h \<ge> ar_capacity a then False
      else let s = ar_slots a ! h_index h in s_live s \<and> s_generation s = h_generation h)"

definition arena_release :: "gen_handle \<Rightarrow> 'a arena \<Rightarrow> 'a arena option" where
  "arena_release h a = do {
     mog_pre (arena_valid a h);
     let s = ar_slots a ! h_index h;
     Some (a\<lparr> ar_slots := (ar_slots a)[h_index h := s\<lparr> s_live := False,
                            s_generation := s_generation s + 1, s_free_next := ar_free_head a \<rparr>],
              ar_free_head := h_index h, ar_live := ar_live a - 1 \<rparr>)
   }"

definition arena_at :: "'a arena \<Rightarrow> gen_handle \<Rightarrow> 'a option" where
  "arena_at a h = do { mog_pre (arena_valid a h); Some (s_value (ar_slots a ! h_index h)) }"

definition arena_at_index :: "'a arena \<Rightarrow> nat \<Rightarrow> 'a option" where
  "arena_at_index a i = do { mog_pre (i < ar_capacity a); Some (s_value (ar_slots a ! i)) }"

text \<open>A store through the reference that \<open>at\<close> and \<open>at_index\<close> return.\<close>

definition arena_put :: "nat \<Rightarrow> 'a \<Rightarrow> 'a arena \<Rightarrow> 'a arena option" where
  "arena_put i v a = do {
     mog_pre (i < ar_capacity a);
     Some (a\<lparr> ar_slots := (ar_slots a)[i := (ar_slots a ! i)\<lparr> s_value := v \<rparr>] \<rparr>)
   }"

definition arena_slot :: "'a arena \<Rightarrow> nat \<Rightarrow> 'a slot option" where
  "arena_slot a i = do { mog_pre (i < ar_capacity a); Some (ar_slots a ! i) }"

section \<open>Invariant and abstraction\<close>

fun free_path :: "'a slot list \<Rightarrow> nat \<Rightarrow> nat list \<Rightarrow> bool" where
  "free_path sl i [] \<longleftrightarrow> i = kNullIndex"
| "free_path sl i (x # xs) \<longleftrightarrow> i = x \<and> x \<noteq> kNullIndex \<and> free_path sl (s_free_next (sl ! x)) xs"

definition arena_free :: "'a arena \<Rightarrow> nat set" where
  "arena_free a = {i. i < ar_watermark a \<and> \<not> s_live (ar_slots a ! i)}"

definition arena_map :: "'a arena \<Rightarrow> nat \<rightharpoonup> u32 \<times> 'a" where
  "arena_map a i =
     (if i < ar_watermark a \<and> s_live (ar_slots a ! i)
      then Some (s_generation (ar_slots a ! i), s_value (ar_slots a ! i)) else None)"

definition arena_inv :: "'a arena \<Rightarrow> bool" where
  "arena_inv a \<longleftrightarrow>
     ar_capacity a < kNullIndex \<and> length (ar_slots a) = ar_capacity a \<and>
     ar_watermark a \<le> ar_capacity a \<and>
     (\<exists>fs. free_path (ar_slots a) (ar_free_head a) fs \<and> distinct fs \<and> set fs = arena_free a) \<and>
     ar_live a = card (dom (arena_map a))"

lemma free_path_cong:
  "(\<And>x. x \<in> set xs \<Longrightarrow> s_free_next (sl ! x) = s_free_next (sl' ! x)) \<Longrightarrow>
     free_path sl i xs = free_path sl' i xs"
  by (induction xs arbitrary: i) auto

lemma arena_map_dom: "dom (arena_map a) = {i. i < ar_watermark a \<and> s_live (ar_slots a ! i)}"
  by (auto simp: arena_map_def split: if_splits)

lemma finite_arena_map [simp, intro]: "finite (dom (arena_map a))"
  by (simp add: arena_map_dom)

lemma arena_split: "dom (arena_map a) \<union> arena_free a = {..<ar_watermark a}"
  "dom (arena_map a) \<inter> arena_free a = {}"
  by (auto simp: arena_map_dom arena_free_def)

lemma arena_inv_index:
  assumes "arena_inv a" and "arena_map a i = Some (g, v)"
  shows "i < ar_capacity a" "i < kNullIndex" "i < ar_watermark a"
  using assms by (auto simp: arena_inv_def arena_map_def split: if_splits)

lemma arena_valid_iff:
  assumes "arena_inv a" and "h_index h < ar_watermark a"
  shows "arena_valid a h \<longleftrightarrow> (\<exists>v. arena_map a (h_index h) = Some (h_generation h, v))"
  using assms by (auto simp: arena_valid_def arena_map_def arena_inv_def Let_def)

lemma arena_map_access:
  assumes "arena_inv a" and "arena_map a i = Some (g, v)"
  shows "arena_at_index a i = Some v" and "arena_at a \<lparr> h_index = i, h_generation = g \<rparr> = Some v"
    and "arena_valid a \<lparr> h_index = i, h_generation = g \<rparr>"
    and "\<exists>s. arena_slot a i = Some s \<and> s_generation s = g \<and> s_value s = v"
  using assms
  by (auto simp: arena_at_index_def arena_at_def arena_valid_def arena_slot_def arena_map_def
      arena_inv_def Let_def split: if_splits)

lemma arena_new_inv:
  assumes "arena_new capacity raw = Some a" and "capacity \<le> length raw"
  shows "arena_inv a" and "arena_map a = Map.empty"
  using assms
  by (auto simp: arena_new_def bind_mog_pre_eq arena_inv_def arena_free_def arena_map_def fun_eq_iff
      dom_def split: if_splits intro: exI[of _ "[]"])

lemma arena_full_iff:
  assumes "arena_inv a"
  shows "ar_live a \<le> ar_capacity a"
    and "ar_live a = ar_capacity a \<longleftrightarrow> ar_free_head a = kNullIndex \<and> ar_watermark a \<ge> ar_capacity a"
proof -
  from assms obtain fs where w: "ar_watermark a \<le> ar_capacity a"
    and fs: "free_path (ar_slots a) (ar_free_head a) fs" "set fs = arena_free a"
    and l: "ar_live a = card (dom (arena_map a))"
    by (auto simp: arena_inv_def)
  have fin: "finite (arena_free a)" by (simp add: arena_free_def)
  have c: "ar_live a + card (arena_free a) = ar_watermark a"
    using card_Un_disjoint[OF finite_arena_map fin arena_split(2)] l by (simp add: arena_split(1))
  then show "ar_live a \<le> ar_capacity a" using w by simp
  have "ar_free_head a = kNullIndex \<longleftrightarrow> fs = []" using fs(1) by (cases fs) auto
  also have "\<dots> \<longleftrightarrow> card (arena_free a) = 0" using fs(2) fin by auto
  finally show "ar_live a = ar_capacity a \<longleftrightarrow>
      ar_free_head a = kNullIndex \<and> ar_watermark a \<ge> ar_capacity a"
    using c w by auto
qed

section \<open>Functional correctness\<close>

lemma arena_acquire_full:
  assumes "arena_inv a" and "ar_live a = ar_capacity a"
  shows "arena_acquire v a = (null_handle, a)"
  using assms arena_full_iff[OF assms(1)] by (simp add: arena_acquire_def)

definition arena_gen :: "'a arena \<Rightarrow> nat \<Rightarrow> u32" where
  "arena_gen a i = (if i < ar_watermark a then s_generation (ar_slots a ! i) else 0)"

lemma arena_acquire_room:
  assumes inv: "arena_inv a" and room: "ar_live a < ar_capacity a"
    and acq: "arena_acquire v a = (h, a')"
  shows "arena_inv a' \<and> arena_map a (h_index h) = None \<and> h_index h < ar_capacity a \<and>
     h_generation h = arena_gen a (h_index h) \<and> arena_gen a' = arena_gen a \<and>
     arena_map a' = (arena_map a)(h_index h \<mapsto> (h_generation h, v)) \<and>
     ar_capacity a' = ar_capacity a \<and> ar_live a' = ar_live a + 1"
proof -
  from inv obtain fs where cap: "ar_capacity a < kNullIndex" and len: "length (ar_slots a) = ar_capacity a"
    and w: "ar_watermark a \<le> ar_capacity a"
    and fs: "free_path (ar_slots a) (ar_free_head a) fs" "distinct fs" "set fs = arena_free a"
    and live: "ar_live a = card (dom (arena_map a))"
    by (auto simp: arena_inv_def)
  have nth: "j < ar_capacity a \<Longrightarrow> (ar_slots a)[j := s] ! i = (if i = j then s else ar_slots a ! i)"
    for j s i using len by (simp add: nth_list_update)
  have card1: "card (dom ((arena_map a)(i \<mapsto> x))) = Suc (card (dom (arena_map a)))"
    if "arena_map a i = None" for i x
    using that by (simp add: domIff)
  show ?thesis
  proof (cases fs)
    case Nil
    then have hd: "ar_free_head a = kNullIndex" using fs by simp
    then have wc: "ar_watermark a < ar_capacity a"
      using room arena_full_iff(2)[OF inv] by (cases "ar_watermark a \<ge> ar_capacity a") auto
    let ?i = "ar_watermark a"
    have h: "h = \<lparr> h_index = ?i, h_generation = 0 \<rparr>"
      and a': "a' = a\<lparr> ar_watermark := ?i + 1, ar_live := ar_live a + 1,
                      ar_slots := (ar_slots a)[?i := \<lparr> s_value = v, s_generation = 0,
                                     s_free_next = kNullIndex, s_live = True \<rparr>] \<rparr>"
      using acq hd wc by (auto simp: arena_acquire_def Let_def)
    have none: "arena_map a ?i = None" by (simp add: arena_map_def)
    have m: "arena_map a' = (arena_map a)(?i \<mapsto> (0, v))"
      using wc by (auto simp: fun_eq_iff arena_map_def a' nth less_Suc_eq)
    have "arena_free a' = {}"
      using Nil fs(3) wc by (auto simp: arena_free_def a' nth less_Suc_eq)
    then have "arena_inv a'"
      using cap len wc live hd m card1[OF none]
      by (auto simp: arena_inv_def a' intro!: exI[of _ "[]"])
    moreover have "arena_gen a' = arena_gen a"
      using wc by (auto simp: fun_eq_iff arena_gen_def a' nth less_Suc_eq)
    ultimately show ?thesis using h m none wc by (simp add: a' arena_gen_def)
  next
    case (Cons i fs')
    then have hd: "ar_free_head a = i" "i \<noteq> kNullIndex" and i: "i \<in> arena_free a" using fs by auto
    then have iw: "i < ar_watermark a" and ic: "i < ar_capacity a" using w by (auto simp: arena_free_def)
    let ?s = "ar_slots a ! i"
    have h: "h = \<lparr> h_index = i, h_generation = s_generation ?s \<rparr>"
      and a': "a' = a\<lparr> ar_free_head := s_free_next ?s, ar_live := ar_live a + 1,
                   ar_slots := (ar_slots a)[i := ?s\<lparr> s_live := True, s_value := v \<rparr>] \<rparr>"
      using acq hd by (auto simp: arena_acquire_def Let_def)
    have none: "arena_map a i = None" using i by (auto simp: arena_map_def arena_free_def)
    have m: "arena_map a' = (arena_map a)(i \<mapsto> (s_generation ?s, v))"
      using iw ic by (auto simp: fun_eq_iff arena_map_def a' nth)
    have "arena_free a' = arena_free a - {i}"
      using iw ic by (auto simp: arena_free_def a' nth)
    then have set': "set fs' = arena_free a'" using Cons fs(2,3) by auto
    have "free_path (ar_slots a') (s_free_next ?s) fs'"
      using fs(1) Cons hd free_path_cong[of fs' "ar_slots a" "ar_slots a'"] ic
      by (auto simp: a' nth)
    then have "arena_inv a'"
      using cap len w live m card1[OF none] set' fs(2) Cons
      by (auto simp: arena_inv_def a' intro!: exI[of _ fs'])
    moreover have "arena_gen a' = arena_gen a"
      using iw ic by (auto simp: fun_eq_iff arena_gen_def a' nth)
    ultimately show ?thesis using h m none iw ic by (simp add: a' arena_gen_def)
  qed
qed

lemma arena_release_correct:
  assumes inv: "arena_inv a" and m: "arena_map a i = Some (g, v)"
  shows "\<exists>a'. arena_release \<lparr> h_index = i, h_generation = g \<rparr> a = Some a' \<and> arena_inv a' \<and>
     arena_map a' = (arena_map a)(i := None) \<and> arena_gen a' = (arena_gen a)(i := g + 1) \<and>
     ar_capacity a' = ar_capacity a \<and> ar_live a' + 1 = ar_live a"
proof -
  from inv obtain fs where cap: "ar_capacity a < kNullIndex" and len: "length (ar_slots a) = ar_capacity a"
    and w: "ar_watermark a \<le> ar_capacity a"
    and fs: "free_path (ar_slots a) (ar_free_head a) fs" "distinct fs" "set fs = arena_free a"
    and live: "ar_live a = card (dom (arena_map a))"
    by (auto simp: arena_inv_def)
  note ix = arena_inv_index[OF inv m]
  have s: "s_live (ar_slots a ! i)" "s_generation (ar_slots a ! i) = g"
    using m by (auto simp: arena_map_def split: if_splits)
  let ?a = "a\<lparr> ar_slots := (ar_slots a)[i := (ar_slots a ! i)\<lparr> s_live := False,
                            s_generation := s_generation (ar_slots a ! i) + 1,
                            s_free_next := ar_free_head a \<rparr>],
              ar_free_head := i, ar_live := ar_live a - 1 \<rparr>"
  have nth: "(ar_slots a)[i := s] ! j = (if j = i then s else ar_slots a ! j)" for s j
    using ix len by (simp add: nth_list_update)
  have rel: "arena_release \<lparr> h_index = i, h_generation = g \<rparr> a = Some ?a"
    using arena_map_access(3)[OF inv m] by (simp add: arena_release_def Let_def)
  have map': "arena_map ?a = (arena_map a)(i := None)"
    by (auto simp: fun_eq_iff arena_map_def nth)
  have notfree: "i \<notin> set fs" using fs(3) s by (simp add: arena_free_def)
  have free': "arena_free ?a = insert i (arena_free a)"
    using ix by (auto simp: arena_free_def nth)
  have "free_path (ar_slots a) j fs = free_path (ar_slots ?a) j fs" for j
    using notfree by (intro free_path_cong) (auto simp: nth)
  then have "free_path (ar_slots ?a) i (i # fs)" using fs(1) ix(2) by (simp add: nth)
  moreover have "card (dom (arena_map a)) > 0" using m by (auto simp: card_gt_0_iff)
  ultimately have "arena_inv ?a" "ar_live ?a + 1 = ar_live a"
    using cap len w live map' free' fs notfree m
    by (auto simp: arena_inv_def card_Diff_singleton_if intro!: exI[of _ "i # fs"])
  moreover have "arena_gen ?a = (arena_gen a)(i := g + 1)"
    using ix s by (auto simp: fun_eq_iff arena_gen_def nth)
  ultimately show ?thesis using rel map' by auto
qed

lemma arena_release_valid:
  assumes "arena_inv a" and "h_index h < ar_watermark a" and "arena_release h a = Some a'"
  shows "\<exists>v. arena_map a (h_index h) = Some (h_generation h, v)"
  using assms arena_valid_iff[OF assms(1,2)]
  by (auto simp: arena_release_def bind_mog_pre_eq split: if_splits)

lemma arena_put_correct:
  assumes inv: "arena_inv a" and m: "arena_map a i = Some (g, v)"
  shows "\<exists>a'. arena_put i w a = Some a' \<and> arena_inv a' \<and> arena_map a' = (arena_map a)(i \<mapsto> (g, w)) \<and>
     ar_capacity a' = ar_capacity a \<and> ar_live a' = ar_live a"
proof -
  note ix = arena_inv_index[OF inv m]
  let ?a = "a\<lparr> ar_slots := (ar_slots a)[i := (ar_slots a ! i)\<lparr> s_value := w \<rparr>] \<rparr>"
  have len: "length (ar_slots a) = ar_capacity a" using inv by (simp add: arena_inv_def)
  have nth: "(ar_slots a)[i := s] ! j = (if j = i then s else ar_slots a ! j)" for s j
    using ix len by (simp add: nth_list_update)
  have s: "s_live (ar_slots a ! i)" "s_generation (ar_slots a ! i) = g"
    using m by (auto simp: arena_map_def split: if_splits)
  have map': "arena_map ?a = (arena_map a)(i \<mapsto> (g, w))"
    using ix s by (auto simp: fun_eq_iff arena_map_def nth)
  have free': "arena_free ?a = arena_free a" by (auto simp: arena_free_def nth)
  have "free_path (ar_slots ?a) j xs = free_path (ar_slots a) j xs" for j xs
    by (rule free_path_cong) (auto simp: nth)
  moreover have "dom (arena_map ?a) = dom (arena_map a)" unfolding map' using m by auto
  ultimately have "arena_inv ?a" using inv free' by (simp add: arena_inv_def)
  then show ?thesis using map' ix by (simp add: arena_put_def)
qed

section \<open>Stale handles\<close>

text \<open>
  The interface of a generational store: a handle carries the generation of its slot, an
  acquisition keeps every generation and a release bumps one. A client only needs this to know
  how long a released handle stays rejected: until the slot was released \<open>2 ^ 32\<close> times.
\<close>

datatype 'v store_op = Acquire 'v | Release gen_handle

locale gen_store =
  fixes inv :: "'s \<Rightarrow> bool" and gen :: "'s \<Rightarrow> nat \<Rightarrow> u32" and owns :: "'s \<Rightarrow> nat set"
    and acquire :: "'v \<Rightarrow> 's \<Rightarrow> gen_handle \<times> 's" and release :: "gen_handle \<Rightarrow> 's \<Rightarrow> 's option"
  assumes acquire_law: "inv s \<Longrightarrow> acquire v s = (h, s') \<Longrightarrow> inv s' \<and> gen s' = gen s \<and> owns s \<subseteq> owns s'"
    and release_law: "inv s \<Longrightarrow> h_index h \<in> owns s \<Longrightarrow> release h s = Some s' \<Longrightarrow>
      inv s' \<and> gen s (h_index h) = h_generation h \<and>
      gen s' = (gen s)(h_index h := h_generation h + 1) \<and> owns s \<subseteq> owns s'"
begin

fun run :: "'v store_op list \<Rightarrow> 's \<Rightarrow> 's option" where
  "run [] s = Some s"
| "run (Acquire v # os) s = run os (snd (acquire v s))"
| "run (Release h # os) s =
     (if h_index h \<in> owns s then Option.bind (release h s) (run os) else None)"

definition releases :: "nat \<Rightarrow> 'v store_op list \<Rightarrow> nat" where
  "releases i os = length (filter (\<lambda>x. case x of Release h \<Rightarrow> h_index h = i | _ \<Rightarrow> False) os)"

lemma releases_simps [simp]:
  "releases i [] = 0" "releases i (Acquire v # os) = releases i os"
  "releases i (Release h # os) = (if h_index h = i then 1 else 0) + releases i os"
  by (auto simp: releases_def)

lemma run_gen:
  "inv s \<Longrightarrow> run os s = Some s' \<Longrightarrow>
     inv s' \<and> gen s' i = gen s i + of_nat (releases i os) \<and> owns s \<subseteq> owns s'"
proof (induction os s rule: run.induct)
  case (2 v os s)
  have l: "inv (snd (acquire v s)) \<and> gen (snd (acquire v s)) = gen s \<and> owns s \<subseteq> owns (snd (acquire v s))"
    using acquire_law[OF "2.prems"(1), of v "fst (acquire v s)" "snd (acquire v s)"] by simp
  with 2 show ?case by auto
next
  case (3 h os s)
  then obtain t where t: "release h s = Some t" "run os t = Some s'" "h_index h \<in> owns s"
    by (auto split: if_splits bind_splits)
  note l = release_law[OF "3.prems"(1) t(3,1)]
  have "inv s' \<and> gen s' i = gen t i + of_nat (releases i os) \<and> owns t \<subseteq> owns s'"
    using "3.IH"[OF t(3,1)] l t(2) by blast
  with l show ?case by auto
qed simp

lemma released_stays_stale:
  assumes "inv s" and "h_index h \<in> owns s" and "run (Release h # os) s = Some s'"
    and "releases (h_index h) os + 1 < 2 ^ 32"
  shows "gen s' (h_index h) \<noteq> h_generation h"
proof -
  obtain t where t: "release h s = Some t"
    using assms(2,3) by (auto split: bind_splits)
  note l = release_law[OF assms(1,2) t]
  have g: "gen s' (h_index h) = h_generation h + of_nat (releases (h_index h) os + 1)"
    using run_gen[OF assms(1,3), of "h_index h"] l by simp
  have "(of_nat (releases (h_index h) os + 1) :: u32) \<noteq> 0"
    using assms(4) unfolding word_of_nat_eq_0_iff by (auto dest: dvd_imp_le)
  then show ?thesis by (simp add: g)
qed

end

interpretation ga: gen_store arena_inv arena_gen "\<lambda>a. {..<ar_watermark a}" arena_acquire arena_release
proof
  fix a :: "'a arena" and v h a'
  assume a: "arena_inv a" "arena_acquire v a = (h, a')"
  show "arena_inv a' \<and> arena_gen a' = arena_gen a \<and> {..<ar_watermark a} \<subseteq> {..<ar_watermark a'}"
  proof (cases "ar_live a < ar_capacity a")
    case True
    moreover have "ar_watermark a \<le> ar_watermark a'"
      using a(2) by (auto simp: arena_acquire_def Let_def split: if_splits)
    ultimately show ?thesis using arena_acquire_room[OF a(1) _ a(2)] by auto
  next
    case False
    then have "ar_live a = ar_capacity a" using arena_full_iff(1)[OF a(1)] by simp
    then show ?thesis using a arena_acquire_full[OF a(1)] by auto
  qed
next
  fix a :: "'a arena" and h a'
  assume a: "arena_inv a" "h_index h \<in> {..<ar_watermark a}" "arena_release h a = Some a'"
  then obtain v where v: "arena_map a (h_index h) = Some (h_generation h, v)"
    using arena_release_valid by blast
  have surj: "\<lparr> h_index = h_index h, h_generation = h_generation h \<rparr> = h" by (cases h) simp
  have "ar_watermark a' = ar_watermark a"
    using a(3) by (auto simp: arena_release_def bind_mog_pre_eq Let_def split: if_splits)
  moreover have "arena_gen a (h_index h) = h_generation h"
    using v by (auto simp: arena_gen_def arena_map_def split: if_splits)
  ultimately show "arena_inv a' \<and> arena_gen a (h_index h) = h_generation h \<and>
      arena_gen a' = (arena_gen a)(h_index h := h_generation h + 1) \<and>
      {..<ar_watermark a} \<subseteq> {..<ar_watermark a'}"
    using arena_release_correct[OF a(1) v] a(3) unfolding surj by auto
qed

end
