(* ===== verification/IdTable.thy ===== *)
theory IdTable
  imports ProbeTable Arena
begin

text \<open>
  The order-reference table of \<open>include/mog/OrderBook.hpp\<close>: Fibonacci hashing into a power-of-two
  array of entries, linear probing, backward-shift deletion. The state is the part of
  \<open>OrderBook\<close> that the \<open>id_\<close> functions touch. The locale \<open>ref_table\<close> is what the book relies on: a
  map from references to handles, reached through the slot a lookup returned.
\<close>

section \<open>Sizing\<close>

fun floor_log2 :: "nat \<Rightarrow> nat" where
  "floor_log2 v = (if v div 2 \<noteq> 0 then 1 + floor_log2 (v div 2) else 0)"

declare floor_log2.simps [simp del]

text \<open>The doubling loop of \<open>round_pow2\<close>: \<open>p\<close> is \<open>2 ^ k\<close> after \<open>k\<close> rounds.\<close>

lemma less_pow2: "k < (2::nat) ^ k"
  by (rule less_exp)

function round_pow2_loop :: "nat \<Rightarrow> nat \<Rightarrow> nat" where
  "round_pow2_loop n k = (if 2 ^ k < n then round_pow2_loop n (k + 1) else 2 ^ k)"
  by pat_completeness auto

termination
proof (relation "measure (\<lambda>(n, k). n - k)")
  fix n k :: nat assume "2 ^ k < n"
  then have "k < n" using less_pow2[of k] by linarith
  then show "((n, k + 1), n, k) \<in> measure (\<lambda>(n, k). n - k)" by simp
qed simp

declare round_pow2_loop.simps [simp del]

definition round_pow2 :: "nat \<Rightarrow> nat option" where
  "round_pow2 n = do { mog_pre (n > 0); Some (round_pow2_loop n 0) }"

lemma floor_log2_pow2 [simp]: "floor_log2 (2 ^ k) = k"
proof (induction k)
  case (Suc k)
  then show ?case by (subst floor_log2.simps) simp
qed (simp add: floor_log2.simps)

lemma round_pow2_loop_le: "n \<le> round_pow2_loop n k \<and> (\<exists>j\<ge>k. round_pow2_loop n k = 2 ^ j)"
proof (induction n k rule: round_pow2_loop.induct)
  case (1 n k)
  show ?case
  proof (cases "2 ^ k < n")
    case True
    then show ?thesis using 1 by (subst (1 2) round_pow2_loop.simps) (auto dest: Suc_leD)
  next
    case False
    then show ?thesis by (subst (1 2) round_pow2_loop.simps) auto
  qed
qed

lemma round_pow2_loop_least: "2 ^ j \<ge> n \<Longrightarrow> k \<le> j \<Longrightarrow> round_pow2_loop n k \<le> 2 ^ j"
proof (induction n k rule: round_pow2_loop.induct)
  case (1 n k)
  show ?case
  proof (cases "2 ^ k < n")
    case True
    then have "k \<noteq> j" using 1(2) by auto
    then show ?thesis using True 1 by (subst round_pow2_loop.simps) simp
  next
    case False
    then show ?thesis using 1(3) by (subst round_pow2_loop.simps) simp
  qed
qed

section \<open>State and operations\<close>

record id_table =
  it_cap :: nat
  it_shift :: nat
  it_size :: nat
  it_entries :: "gen_handle entry list"

definition id_new :: "nat \<Rightarrow> id_table option" where
  "id_new arena_capacity = do {
     cap \<leftarrow> round_pow2 (arena_capacity * 2);
     Some \<lparr> it_cap = cap, it_shift = 64 - floor_log2 cap, it_size = 0,
            it_entries = replicate cap (0, null_handle) \<rparr>
   }"

definition probe_start :: "nat \<Rightarrow> u64 \<Rightarrow> nat" where
  "probe_start shift ref = unat (drop_bit shift (ref * 0x9E3779B97F4A7C15))"

definition id_find_slot :: "id_table \<Rightarrow> u64 \<Rightarrow> (nat \<times> gen_handle) option" where
  "id_find_slot t ref = do {
     mog_pre (ref \<noteq> 0);
     (i, found) \<leftarrow> probe_scan (it_cap t) (it_entries t) ref (probe_start (it_shift t) ref);
     Some (i, case found of Some h \<Rightarrow> h | None \<Rightarrow> null_handle)
   }"

definition id_find :: "id_table \<Rightarrow> u64 \<Rightarrow> gen_handle option" where
  "id_find t ref = map_option snd (id_find_slot t ref)"

definition id_insert_at :: "id_table \<Rightarrow> nat \<Rightarrow> u64 \<Rightarrow> gen_handle \<Rightarrow> id_table option" where
  "id_insert_at t slot ref h = do {
     mog_pre (ref \<noteq> 0 \<and> fst (it_entries t ! slot) = 0);
     let t = t\<lparr> it_entries := (it_entries t)[slot := (ref, h)], it_size := it_size t + 1 \<rparr>;
     mog_pre (it_size t * 2 \<le> it_cap t);
     Some t
   }"

definition id_insert :: "id_table \<Rightarrow> u64 \<Rightarrow> gen_handle \<Rightarrow> id_table option" where
  "id_insert t ref h = do {
     (slot, found) \<leftarrow> id_find_slot t ref;
     mog_pre (h_index found = kNullIndex);
     id_insert_at t slot ref h
   }"

definition id_erase_at :: "id_table \<Rightarrow> nat \<Rightarrow> id_table option" where
  "id_erase_at t slot = do {
     mog_pre (fst (it_entries t ! slot) \<noteq> 0);
     es \<leftarrow> shift_back (probe_start (it_shift t)) (it_cap t) (it_entries t) slot slot;
     Some (t\<lparr> it_entries := es, it_size := it_size t - 1 \<rparr>)
   }"

definition id_erase :: "id_table \<Rightarrow> u64 \<Rightarrow> id_table option" where
  "id_erase t ref = do {
     (slot, found) \<leftarrow> id_find_slot t ref;
     mog_pre (h_index found \<noteq> kNullIndex);
     id_erase_at t slot
   }"

section \<open>Invariant and abstraction\<close>

definition id_map :: "id_table \<Rightarrow> u64 \<rightharpoonup> gen_handle" where
  "id_map t = tbl_map (it_entries t)"

definition id_inv :: "id_table \<Rightarrow> bool" where
  "id_inv t \<longleftrightarrow>
     (\<exists>k\<ge>1. it_cap t = 2 ^ k \<and> it_shift t = 64 - k) \<and>
     tbl_inv (probe_start (it_shift t)) (it_cap t) (it_entries t) \<and>
     it_size t = occupied (it_entries t) \<and> it_size t * 2 \<le> it_cap t \<and>
     (\<forall>h \<in> ran (id_map t). h_index h \<noteq> kNullIndex)"

lemma probe_start_lt: "probe_start (64 - k) ref < 2 ^ k"
proof (cases "k \<le> 64")
  case True
  have "unat (ref * 0x9E3779B97F4A7C15) < 2 ^ k * 2 ^ (64 - k)"
    using unsigned_less[of "ref * 0x9E3779B97F4A7C15"] True by (simp flip: power_add)
  then show ?thesis
    unfolding probe_start_def unat_drop_bit_eq[unfolded drop_bit_eq_div[where 'a = nat]]
    by (rule less_mult_imp_div_less)
next
  case False
  have "unat (ref * 0x9E3779B97F4A7C15) < 2 ^ 64"
    using unsigned_less[of "ref * 0x9E3779B97F4A7C15"] by simp
  also have "(2::nat) ^ 64 \<le> 2 ^ k" using False by (intro power_increasing) auto
  finally show ?thesis using False by (simp add: probe_start_def)
qed

interpretation idp: probing "probe_start (64 - k)" "2 ^ k" for k :: nat
  by unfold_locales (auto simp: probe_start_lt)

lemma id_map_null: "id_inv t \<Longrightarrow> id_map t r = Some h \<Longrightarrow> h_index h \<noteq> kNullIndex"
  by (auto simp: id_inv_def ran_def)

lemma id_find_slot_correct:
  assumes inv: "id_inv t" and r: "r \<noteq> 0"
  shows "\<exists>s<it_cap t. id_find_slot t r = Some (s, case id_map t r of Some h \<Rightarrow> h | None \<Rightarrow> null_handle) \<and>
     (id_map t r = None \<longrightarrow> \<not> occ (it_entries t) s) \<and>
     (id_map t r \<noteq> None \<longrightarrow> fst (it_entries t ! s) = r) \<and>
     (\<forall>q<it_cap t. cdist (it_cap t) (probe_start (it_shift t) r) q <
        cdist (it_cap t) (probe_start (it_shift t) r) s \<longrightarrow> occ (it_entries t) q)"
proof -
  from inv obtain k where k: "it_cap t = 2 ^ k" "it_shift t = 64 - k" by (auto simp: id_inv_def)
  have "tbl_inv (probe_start (64 - k)) (2 ^ k) (it_entries t)" using inv k by (simp add: id_inv_def)
  from idp.probe_scan_correct[OF this r] show ?thesis
    using r by (auto simp: k id_find_slot_def id_map_def)
qed

lemma id_insert_at_correct:
  assumes inv: "id_inv t" and r: "r \<noteq> 0" and f: "id_find_slot t r = Some (s, f)" "id_map t r = None"
    and size: "(it_size t + 1) * 2 \<le> it_cap t" and h: "h_index h \<noteq> kNullIndex"
  shows "\<exists>t'. id_insert_at t s r h = Some t' \<and> id_inv t' \<and> id_map t' = (id_map t)(r \<mapsto> h) \<and>
     it_size t' = it_size t + 1 \<and> it_cap t' = it_cap t"
proof -
  from inv obtain k where k: "k \<ge> 1" "it_cap t = 2 ^ k" "it_shift t = 64 - k"
    by (auto simp: id_inv_def)
  let ?es = "it_entries t"
  have ti: "tbl_inv (probe_start (64 - k)) (2 ^ k) ?es" and occs: "it_size t = occupied ?es"
    using inv k by (simp_all add: id_inv_def)
  then have len: "length ?es = 2 ^ k" by (simp add: tbl_inv_def)
  from id_find_slot_correct[OF inv r] f k
  have s: "s < 2 ^ k" "\<not> occ ?es s"
    "\<forall>q<2 ^ k. cdist (2 ^ k) (probe_start (64 - k) r) q < cdist (2 ^ k) (probe_start (64 - k) r) s
       \<longrightarrow> occ ?es q" by auto
  have "occupied ?es + 1 < 2 ^ k" using size occs k by simp
  then have room: "\<exists>p<2 ^ k. p \<noteq> s \<and> \<not> occ ?es p" by (rule idp.room_of_load[OF len])
  have none: "tbl_map ?es r = None" using f(2) by (simp add: id_map_def)
  note ins = idp.insert_correct[OF ti r none s(1,2) s(3) room, of h]
  let ?t = "t\<lparr> it_entries := ?es[s := (r, h)], it_size := it_size t + 1 \<rparr>"
  have res: "id_insert_at t s r h = Some ?t"
    using r s(2) size by (simp add: id_insert_at_def occ_def)
  have m: "id_map ?t = (id_map t)(r \<mapsto> h)" using ins(2) by (simp add: id_map_def)
  have "occupied (?es[s := (r, h)]) = occupied ?es + 1"
    using s len r by (intro idp.occupied_insert) auto
  moreover have "\<forall>g \<in> ran (id_map ?t). h_index g \<noteq> kNullIndex"
    unfolding m using inv h f(2) by (auto simp: id_inv_def)
  ultimately have "id_inv ?t" using ins(1) k size occs by (auto simp: id_inv_def)
  with res m show ?thesis by auto
qed

lemma id_erase_at_correct:
  assumes inv: "id_inv t" and f: "id_find_slot t r = Some (s, f)" "id_map t r = Some h"
  shows "\<exists>t'. id_erase_at t s = Some t' \<and> id_inv t' \<and> id_map t' = (id_map t)(r := None) \<and>
     it_size t' + 1 = it_size t \<and> it_cap t' = it_cap t"
proof -
  have r: "r \<noteq> 0" using f(2) by (auto simp: id_map_def)
  from inv obtain k where k: "k \<ge> 1" "it_cap t = 2 ^ k" "it_shift t = 64 - k"
    by (auto simp: id_inv_def)
  let ?es = "it_entries t"
  have ti: "tbl_inv (probe_start (64 - k)) (2 ^ k) ?es" and occs: "it_size t = occupied ?es"
    using inv k by (simp_all add: id_inv_def)
  from id_find_slot_correct[OF inv r] f k
  have s: "s < 2 ^ k" "fst (?es ! s) = r" by auto
  have e: "?es ! s = (r, snd (?es ! s))" using s(2) by (metis prod.collapse)
  from idp.erase_correct[OF ti s(1) e r] obtain es' where es':
    "shift_back (probe_start (64 - k)) (2 ^ k) ?es s s = Some es'"
    "tbl_inv (probe_start (64 - k)) (2 ^ k) es'" "tbl_map es' = (tbl_map ?es)(r := None)"
    "occupied es' + 1 = occupied ?es" by blast
  let ?t = "t\<lparr> it_entries := es', it_size := it_size t - 1 \<rparr>"
  have res: "id_erase_at t s = Some ?t"
    using es'(1) s(2) r k by (simp add: id_erase_at_def)
  have m: "id_map ?t = (id_map t)(r := None)" using es'(3) by (simp add: id_map_def)
  have "\<forall>g \<in> ran (id_map ?t). h_index g \<noteq> kNullIndex"
    unfolding m using inv by (auto simp: id_inv_def ran_def split: if_splits)
  then have "id_inv ?t" using es' k occs inv by (auto simp: id_inv_def)
  with res m es'(4) occs show ?thesis by auto
qed

lemma id_new_correct:
  assumes "0 < c"
  shows "\<exists>t. id_new c = Some t \<and> id_inv t \<and> id_map t = Map.empty \<and> it_size t = 0 \<and> c * 2 \<le> it_cap t"
proof -
  obtain k where k: "round_pow2_loop (c * 2) 0 = 2 ^ k" "c * 2 \<le> 2 ^ k"
    using round_pow2_loop_le[of "c * 2" 0] by metis
  have k1: "k \<ge> 1" using k(2) assms by (cases k) auto
  let ?t = "\<lparr> it_cap = 2 ^ k, it_shift = 64 - k, it_size = 0,
              it_entries = replicate (2 ^ k) (0, null_handle) \<rparr>"
  have n: "id_new c = Some ?t" using assms k(1) by (simp add: id_new_def round_pow2_def)
  have m: "id_map ?t = Map.empty"
    by (auto simp: id_map_def tbl_map_def fun_eq_iff map_of_eq_None_iff)
  have "tbl_inv (probe_start (64 - k)) (2 ^ k) (it_entries ?t)"
    by (auto simp: tbl_inv_def keys_distinct_def occ_def intro: exI[of _ 0])
  moreover have "occupied (it_entries ?t) = 0" by (simp add: occupied_def)
  ultimately have "id_inv ?t" using k1 m by (auto simp: id_inv_def)
  with n m k(2) show ?thesis by auto
qed

section \<open>The interface\<close>

text \<open>
  A table of references as its clients use it. A slot is only meaningful right after the lookup
  that returned it, so an insertion or an erasure names the lookup.
\<close>

locale ref_table =
  fixes inv :: "'t \<Rightarrow> bool" and view :: "'t \<Rightarrow> u64 \<rightharpoonup> gen_handle" and size :: "'t \<Rightarrow> nat"
    and cap :: "'t \<Rightarrow> nat"
    and find_slot :: "'t \<Rightarrow> u64 \<Rightarrow> (nat \<times> gen_handle) option"
    and insert_at :: "'t \<Rightarrow> nat \<Rightarrow> u64 \<Rightarrow> gen_handle \<Rightarrow> 't option"
    and erase_at :: "'t \<Rightarrow> nat \<Rightarrow> 't option"
  assumes find_law: "inv t \<Longrightarrow> r \<noteq> 0 \<Longrightarrow>
      \<exists>s. find_slot t r = Some (s, case view t r of Some h \<Rightarrow> h | None \<Rightarrow> null_handle)"
    and insert_law: "inv t \<Longrightarrow> r \<noteq> 0 \<Longrightarrow> find_slot t r = Some (s, f) \<Longrightarrow> view t r = None \<Longrightarrow>
      (size t + 1) * 2 \<le> cap t \<Longrightarrow> h_index h \<noteq> kNullIndex \<Longrightarrow>
      \<exists>t'. insert_at t s r h = Some t' \<and> inv t' \<and> view t' = (view t)(r \<mapsto> h) \<and>
         size t' = size t + 1 \<and> cap t' = cap t"
    and erase_law: "inv t \<Longrightarrow> find_slot t r = Some (s, f) \<Longrightarrow> view t r = Some h \<Longrightarrow>
      \<exists>t'. erase_at t s = Some t' \<and> inv t' \<and> view t' = (view t)(r := None) \<and>
         size t' + 1 = size t \<and> cap t' = cap t"
    and view_zero: "view t 0 = None"
    and view_null: "inv t \<Longrightarrow> view t r = Some h \<Longrightarrow> h_index h \<noteq> kNullIndex"
begin

lemma find_present:
  "inv t \<Longrightarrow> view t r = Some h \<Longrightarrow> \<exists>s. find_slot t r = Some (s, h)"
  using find_law[of t r] view_zero[of t] by (cases "r = 0") auto

lemma find_absent:
  "inv t \<Longrightarrow> r \<noteq> 0 \<Longrightarrow> view t r = None \<Longrightarrow> \<exists>s. find_slot t r = Some (s, null_handle)"
  using find_law[of t r] by auto

lemma found_iff:
  assumes "inv t" and "r \<noteq> 0" and "find_slot t r = Some (s, f)"
  shows "h_index f \<noteq> kNullIndex \<longleftrightarrow> view t r = Some f" and "h_index f = kNullIndex \<longleftrightarrow> view t r = None"
  using find_law[OF assms(1,2)] assms(3) view_null[OF assms(1), of r]
  by (auto simp: null_handle_def split: option.splits)

text \<open>An insertion followed by an erasure of the same reference restores the map.\<close>

lemma insert_then_erase:
  assumes "inv t" "r \<noteq> 0" "view t r = None" "(size t + 1) * 2 \<le> cap t" "h_index h \<noteq> kNullIndex"
  shows "\<exists>s f t1 s' t2. find_slot t r = Some (s, f) \<and> insert_at t s r h = Some t1 \<and>
     find_slot t1 r = Some (s', h) \<and> erase_at t1 s' = Some t2 \<and> inv t2 \<and> view t2 = view t \<and>
     size t2 = size t"
proof -
  from find_absent[OF assms(1-3)] obtain s where s: "find_slot t r = Some (s, null_handle)" by blast
  from insert_law[OF assms(1,2) s assms(3-5)] obtain t1 where t1: "insert_at t s r h = Some t1"
    "inv t1" "view t1 = (view t)(r \<mapsto> h)" "size t1 = size t + 1" "cap t1 = cap t" by blast
  have v: "view t1 r = Some h" using t1 by simp
  from find_present[OF t1(2) v] obtain s' where s': "find_slot t1 r = Some (s', h)" by blast
  from erase_law[OF t1(2) s' v] obtain t2 where "erase_at t1 s' = Some t2" "inv t2"
    "view t2 = (view t1)(r := None)" "size t2 + 1 = size t1" by blast
  with s t1 s' assms(3) show ?thesis by (auto simp: fun_upd_idem)
qed

end

interpretation idt: ref_table id_inv id_map it_size it_cap id_find_slot id_insert_at id_erase_at
proof
  show "\<exists>s. id_find_slot t r = Some (s, case id_map t r of Some h \<Rightarrow> h | None \<Rightarrow> null_handle)"
    if "id_inv t" "r \<noteq> 0" for t r
    using id_find_slot_correct[OF that] by blast
  show "id_map t 0 = None" for t by (simp add: id_map_def)
qed (use id_insert_at_correct id_erase_at_correct id_map_null in blast)+

end
