(* ===== verification/Wire.thy ===== *)
theory Wire
  imports Prelude
begin

text \<open>
  Big-endian and little-endian loads and stores of \<open>include/mog/Wire.hpp\<close>. A buffer is the list
  of its bytes, a pointer \<open>p + k\<close> the list without its first \<open>k\<close> bytes. The compile-time
  constant \<open>kHostIsLittle\<close> is the argument \<open>le\<close> of every load and store, so that
  host independence is a statement. \<open>memcpy\<close> between an integer and its object
  representation is \<open>mem_load\<close> and \<open>mem_bytes\<close>.
\<close>

section \<open>Object representation of integers\<close>

fun le_word :: "byte list \<Rightarrow> 'a::len word" where
  "le_word [] = 0"
| "le_word (b # bs) = ucast b OR push_bit 8 (le_word bs)"

fun le_bytes :: "nat \<Rightarrow> 'a::len word \<Rightarrow> byte list" where
  "le_bytes 0 w = []"
| "le_bytes (Suc n) w = ucast w # le_bytes n (drop_bit 8 w)"

definition mem_load :: "bool \<Rightarrow> byte list \<Rightarrow> 'a::len word" where
  "mem_load le bs = le_word (if le then bs else rev bs)"

definition mem_bytes :: "bool \<Rightarrow> nat \<Rightarrow> 'a::len word \<Rightarrow> byte list" where
  "mem_bytes le n w = (if le then le_bytes n w else rev (le_bytes n w))"

definition byteswap :: "nat \<Rightarrow> 'a::len word \<Rightarrow> 'a word" where
  "byteswap n w = le_word (rev (le_bytes n w))"

lemma length_le_bytes [simp]: "length (le_bytes n w) = n"
  by (induction n arbitrary: w) auto

lemma length_mem_bytes [simp]: "length (mem_bytes le n w) = n"
  by (simp add: mem_bytes_def)

lemma bit_le_word:
  "bit (le_word bs :: 'a::len word) i \<longleftrightarrow>
     i < LENGTH('a) \<and> i div 8 < length bs \<and> bit (bs ! (i div 8)) (i mod 8)"
proof (induction bs arbitrary: i)
  case Nil
  then show ?case by simp
next
  case (Cons b bs)
  show ?case
  proof (cases "i < 8")
    case True
    then show ?thesis by (auto simp: bit_simps)
  next
    case False
    then have d: "i div 8 = Suc ((i - 8) div 8)" "i mod 8 = (i - 8) mod 8"
      by (simp_all add: div_if mod_if)
    have "\<not> bit b i" using False bit_imp_le_length[of b i] by auto
    with False Cons.IH[of "i - 8"] d show ?thesis
      by (auto simp: bit_simps)
  qed
qed

lemma nth_le_bytes: "j < n \<Longrightarrow> le_bytes n w ! j = ucast (drop_bit (8 * j) w)"
proof (induction n arbitrary: w j)
  case 0
  then show ?case by simp
next
  case (Suc n)
  then show ?case by (cases j) (auto simp: drop_bit_drop_bit add.commute)
qed

lemma bit_nth_le_bytes:
  "j < n \<Longrightarrow> bit (le_bytes n w ! j) i \<longleftrightarrow> i < 8 \<and> bit w (8 * j + i)"
  by (auto simp: nth_le_bytes bit_simps dest: bit_imp_le_length)

lemma le_word_le_bytes:
  fixes w :: "'a::len word"
  assumes "LENGTH('a) \<le> 8 * n"
  shows "le_word (le_bytes n w) = w"
proof (rule bit_word_eqI)
  fix i assume "i < LENGTH('a)"
  with assms have "i div 8 < n" by auto
  with \<open>i < LENGTH('a)\<close> show "bit (le_word (le_bytes n w) :: 'a word) i = bit w i"
    by (simp add: bit_le_word bit_nth_le_bytes)
qed

lemma le_bytes_le_word:
  assumes "length bs = n" and "8 * n \<le> LENGTH('a)"
  shows "le_bytes n (le_word bs :: 'a::len word) = bs"
proof (rule nth_equalityI)
  show "length (le_bytes n (le_word bs :: 'a word)) = length bs" using assms by simp
next
  fix j assume "j < length (le_bytes n (le_word bs :: 'a word))"
  then have j: "j < n" by simp
  show "le_bytes n (le_word bs :: 'a word) ! j = bs ! j"
  proof (rule bit_word_eqI)
    fix i assume i: "i < LENGTH(8)"
    then have "(8 * j + i) div 8 = j" "(8 * j + i) mod 8 = i" "8 * j + i < LENGTH('a)"
      using j assms by auto
    with i j assms show "bit (le_bytes n (le_word bs :: 'a word) ! j) i = bit (bs ! j) i"
      by (simp add: bit_nth_le_bytes bit_le_word)
  qed
qed

lemma le_bytes_byteswap:
  assumes "8 * n \<le> LENGTH('a)"
  shows "le_bytes n (byteswap n (w :: 'a::len word)) = rev (le_bytes n w)"
  unfolding byteswap_def using assms by (intro le_bytes_le_word) auto

lemma byteswap_le_word:
  assumes "length bs = n" and "8 * n \<le> LENGTH('a)"
  shows "byteswap n (le_word bs :: 'a::len word) = le_word (rev bs)"
  using assms by (simp add: byteswap_def le_bytes_le_word)

lemma byteswap_byteswap:
  assumes "8 * n = LENGTH('a)"
  shows "byteswap n (byteswap n (w :: 'a::len word)) = w"
  using assms by (simp add: byteswap_def[of n "byteswap n w"] le_bytes_byteswap le_word_le_bytes)

section \<open>Byte swaps\<close>

definition swap16 :: "u16 \<Rightarrow> u16" where
  "swap16 v = byteswap 2 v"

definition swap32 :: "u32 \<Rightarrow> u32" where
  "swap32 v = byteswap 4 v"

definition swap64 :: "u64 \<Rightarrow> u64" where
  "swap64 v = byteswap 8 v"

section \<open>Loads\<close>

definition load_be16 :: "bool \<Rightarrow> byte list \<Rightarrow> u16" where
  "load_be16 le p = (let raw = mem_load le (take 2 p) in if le then swap16 raw else raw)"

definition load_be32 :: "bool \<Rightarrow> byte list \<Rightarrow> u32" where
  "load_be32 le p = (let raw = mem_load le (take 4 p) in if le then swap32 raw else raw)"

definition load_be64 :: "bool \<Rightarrow> byte list \<Rightarrow> u64" where
  "load_be64 le p = (let raw = mem_load le (take 8 p) in if le then swap64 raw else raw)"

definition load_le16 :: "bool \<Rightarrow> byte list \<Rightarrow> u16" where
  "load_le16 le p = (let raw = mem_load le (take 2 p) in if le then raw else swap16 raw)"

definition load_le32 :: "bool \<Rightarrow> byte list \<Rightarrow> u32" where
  "load_le32 le p = (let raw = mem_load le (take 4 p) in if le then raw else swap32 raw)"

definition load_le64 :: "bool \<Rightarrow> byte list \<Rightarrow> u64" where
  "load_le64 le p = (let raw = mem_load le (take 8 p) in if le then raw else swap64 raw)"

text \<open>
  The six bytes are copied over the first six bytes of a zeroed 64-bit integer, so
  the other two are zero wherever they lie.
\<close>

definition load_be48 :: "bool \<Rightarrow> byte list \<Rightarrow> u64" where
  "load_be48 le p =
     (let v = mem_load le (take 6 p @ [0, 0])
      in if le then drop_bit 16 (swap64 v) else drop_bit 16 v)"

section \<open>Stores\<close>

definition store_be16 :: "bool \<Rightarrow> u16 \<Rightarrow> byte list" where
  "store_be16 le v = (let raw = (if le then swap16 v else v) in mem_bytes le 2 raw)"

definition store_be32 :: "bool \<Rightarrow> u32 \<Rightarrow> byte list" where
  "store_be32 le v = (let raw = (if le then swap32 v else v) in mem_bytes le 4 raw)"

definition store_be64 :: "bool \<Rightarrow> u64 \<Rightarrow> byte list" where
  "store_be64 le v = (let raw = (if le then swap64 v else v) in mem_bytes le 8 raw)"

definition store_be48 :: "bool \<Rightarrow> u64 \<Rightarrow> byte list" where
  "store_be48 le v =
     (let raw = (if le then swap64 (push_bit 16 v) else push_bit 16 v)
      in take 6 (mem_bytes le 8 raw))"

section \<open>The big-endian value, independent of the host\<close>

abbreviation be_word :: "byte list \<Rightarrow> 'a::len word" where
  "be_word bs \<equiv> le_word (rev bs)"

abbreviation be_bytes :: "nat \<Rightarrow> 'a::len word \<Rightarrow> byte list" where
  "be_bytes n w \<equiv> rev (le_bytes n w)"

lemma load_be16_value: "2 \<le> length p \<Longrightarrow> load_be16 le p = be_word (take 2 p)"
  by (simp add: load_be16_def mem_load_def swap16_def byteswap_le_word)

lemma load_be32_value: "4 \<le> length p \<Longrightarrow> load_be32 le p = be_word (take 4 p)"
  by (simp add: load_be32_def mem_load_def swap32_def byteswap_le_word)

lemma load_be64_value: "8 \<le> length p \<Longrightarrow> load_be64 le p = be_word (take 8 p)"
  by (simp add: load_be64_def mem_load_def swap64_def byteswap_le_word)

lemma load_le16_value: "2 \<le> length p \<Longrightarrow> load_le16 le p = le_word (take 2 p)"
  by (simp add: load_le16_def mem_load_def swap16_def byteswap_le_word)

lemma load_le32_value: "4 \<le> length p \<Longrightarrow> load_le32 le p = le_word (take 4 p)"
  by (simp add: load_le32_def mem_load_def swap32_def byteswap_le_word)

lemma load_le64_value: "8 \<le> length p \<Longrightarrow> load_le64 le p = le_word (take 8 p)"
  by (simp add: load_le64_def mem_load_def swap64_def byteswap_le_word)

lemma drop_bit_16_be_word:
  "length bs = 6 \<Longrightarrow> drop_bit 16 (le_word (0 # 0 # bs) :: u64) = le_word bs"
  by (rule bit_word_eqI) (auto simp: bit_simps bit_le_word dest: bit_imp_le_length)

lemma load_be48_value: "6 \<le> length p \<Longrightarrow> load_be48 le p = be_word (take 6 p)"
  using drop_bit_16_be_word[of "rev (take 6 p)"]
  by (simp add: load_be48_def mem_load_def swap64_def byteswap_le_word)

lemmas load_be_values =
  load_be16_value load_be32_value load_be64_value load_be48_value

lemma store_be16_value: "store_be16 le v = be_bytes 2 v"
  by (simp add: store_be16_def mem_bytes_def swap16_def le_bytes_byteswap)

lemma store_be32_value: "store_be32 le v = be_bytes 4 v"
  by (simp add: store_be32_def mem_bytes_def swap32_def le_bytes_byteswap)

lemma store_be64_value: "store_be64 le v = be_bytes 8 v"
  by (simp add: store_be64_def mem_bytes_def swap64_def le_bytes_byteswap)

lemma take_6_be_bytes_push: "take 6 (be_bytes 8 (push_bit 16 v)) = be_bytes 6 (v :: u64)"
proof (rule nth_equalityI)
  show "length (take 6 (be_bytes 8 (push_bit 16 v))) = length (be_bytes 6 v)" by simp
next
  fix j assume "j < length (take 6 (be_bytes 8 (push_bit 16 v)))"
  then have j: "j < 6" by simp
  show "take 6 (be_bytes 8 (push_bit 16 v)) ! j = be_bytes 6 v ! j"
  proof (rule bit_word_eqI)
    fix i assume "i < LENGTH(8)"
    with j have "i < 8" "8 * (7 - j) + i = 8 * (5 - j) + i + 16" "8 * (7 - j) + i < 64" by auto
    with j show "bit (take 6 (be_bytes 8 (push_bit 16 v)) ! j) i = bit (be_bytes 6 v ! j) i"
      by (simp add: rev_nth bit_nth_le_bytes bit_simps)
  qed
qed

lemma store_be48_value: "store_be48 le v = be_bytes 6 v"
  using take_6_be_bytes_push[of v]
  by (simp add: store_be48_def mem_bytes_def swap64_def le_bytes_byteswap)

lemmas store_be_values =
  store_be16_value store_be32_value store_be64_value store_be48_value

lemma le_word_le_bytes_48: "v < 2 ^ 48 \<Longrightarrow> le_word (le_bytes 6 v) = (v :: u64)"
proof (rule bit_word_eqI)
  fix i assume v: "v < 2 ^ 48" and i: "i < LENGTH(64)"
  have "\<not> bit v i" if "48 \<le> i"
  proof -
    have "unat v < 2 ^ 48" using v by (simp add: word_less_nat_alt)
    then have "take_bit 48 (unat v) = unat v" by (rule take_bit_nat_eq_self)
    then have "\<not> bit (unat v) i" using that by (metis bit_take_bit_iff not_le)
    with i show ?thesis by (simp add: bit_unsigned_iff)
  qed
  moreover have "i div 8 < 6 \<longleftrightarrow> i < 48" by auto
  ultimately show "bit (le_word (le_bytes 6 v) :: u64) i = bit v i"
    using i by (cases "i < 48") (simp_all add: bit_le_word bit_nth_le_bytes)
qed

section \<open>Round trips\<close>

lemma length_store_be [simp]:
  "length (store_be16 le v2) = 2" "length (store_be32 le v4) = 4"
  "length (store_be64 le v8) = 8" "length (store_be48 le v6) = 6"
  by (simp_all add: store_be_values)

text \<open>A value stored on one host is read back on any other, whatever follows it in the buffer.\<close>

lemma load_store_be16 [byte_simps]: "load_be16 le (store_be16 le' v @ rest) = v"
  by (simp add: load_be16_value store_be16_value le_word_le_bytes)

lemma load_store_be32 [byte_simps]: "load_be32 le (store_be32 le' v @ rest) = v"
  by (simp add: load_be32_value store_be32_value le_word_le_bytes)

lemma load_store_be64 [byte_simps]: "load_be64 le (store_be64 le' v @ rest) = v"
  by (simp add: load_be64_value store_be64_value le_word_le_bytes)

lemma load_store_be48 [byte_simps]:
  "v < 2 ^ 48 \<Longrightarrow> load_be48 le (store_be48 le' v @ rest) = v"
  by (simp add: load_be48_value store_be48_value le_word_le_bytes_48)

lemma store_load_be16 [byte_simps]: "2 \<le> length p \<Longrightarrow> store_be16 le (load_be16 le' p) = take 2 p"
  by (simp add: load_be16_value store_be16_value le_bytes_le_word)

lemma store_load_be32 [byte_simps]: "4 \<le> length p \<Longrightarrow> store_be32 le (load_be32 le' p) = take 4 p"
  by (simp add: load_be32_value store_be32_value le_bytes_le_word)

lemma store_load_be64 [byte_simps]: "8 \<le> length p \<Longrightarrow> store_be64 le (load_be64 le' p) = take 8 p"
  by (simp add: load_be64_value store_be64_value le_bytes_le_word)

lemma store_load_be48 [byte_simps]: "6 \<le> length p \<Longrightarrow> store_be48 le (load_be48 le' p) = take 6 p"
  by (simp add: load_be48_value store_be48_value le_bytes_le_word)

text \<open>
  The two halves of a 32-bit load are the two 16-bit loads: the parser reads locate and tracking
  with one load.
\<close>

lemma ucast_load_be32_high:
  assumes "4 \<le> length p"
  shows "ucast (drop_bit 16 (load_be32 le p)) = load_be16 le' p"
proof (rule bit_word_eqI)
  fix i assume "i < LENGTH(16)"
  moreover have "(i + 16) div 8 = i div 8 + 2" "(i + 16) mod 8 = i mod 8" by (simp_all add: div_add mod_add_eq[symmetric, of i 16])
  ultimately show "bit (ucast (drop_bit 16 (load_be32 le p)) :: u16) i = bit (load_be16 le' p) i"
    using assms by (auto simp: load_be_values bit_simps bit_le_word rev_nth add.commute)
qed

lemma ucast_load_be32_low:
  assumes "4 \<le> length p"
  shows "ucast (load_be32 le p AND 0xFFFF) = load_be16 le' (drop 2 p)"
proof (rule bit_word_eqI)
  fix i assume i: "i < LENGTH(16)"
  have m: "(0xFFFF :: u32) = mask 16" by (simp add: mask_eq_exp_minus_1)
  show "bit (ucast (load_be32 le p AND 0xFFFF) :: u16) i = bit (load_be16 le' (drop 2 p)) i"
  proof -
    have "i div 8 < 2" "3 - i div 8 = Suc (Suc (Suc 0 - i div 8))" using i by auto
    then show ?thesis using i assms unfolding m
      by (auto simp: load_be_values bit_simps bit_le_word rev_nth)
  qed
qed

end
