(* ===== verification/ItchCodec.thy ===== *)
theory ItchCodec
  imports Wire FixedPoint
begin

text \<open>
  The ITCH 5.0 subset of \<open>include/mog/Types.hpp\<close>: sides, symbols, the packed wire structs, the
  decoded messages, and the scalar reference codecs. A packed struct is a record of its raw
  fields; \<open>memcpy\<close> from and to the stream is one function per struct, at the offsets the
  source asserts. Characters are bytes. The union \<open>Message\<close> with its \<open>type\<close> tag is the
  datatype \<open>message\<close>, one constructor per tag.
\<close>

section \<open>Wire characters\<close>

abbreviation ch_A :: byte where "ch_A \<equiv> 0x41"
abbreviation ch_B :: byte where "ch_B \<equiv> 0x42"
abbreviation ch_C :: byte where "ch_C \<equiv> 0x43"
abbreviation ch_D :: byte where "ch_D \<equiv> 0x44"
abbreviation ch_E :: byte where "ch_E \<equiv> 0x45"
abbreviation ch_F :: byte where "ch_F \<equiv> 0x46"
abbreviation ch_N :: byte where "ch_N \<equiv> 0x4E"
abbreviation ch_S :: byte where "ch_S \<equiv> 0x53"
abbreviation ch_U :: byte where "ch_U \<equiv> 0x55"
abbreviation ch_X :: byte where "ch_X \<equiv> 0x58"
abbreviation ch_Y :: byte where "ch_Y \<equiv> 0x59"
abbreviation ch_qmark :: byte where "ch_qmark \<equiv> 0x3F"
abbreviation ch_space :: byte where "ch_space \<equiv> 0x20"

text \<open>\<open>BadSide\<close> is the value \<open>static_cast<Side>('?')\<close>, outside the enumerators.\<close>

datatype side = Buy | Sell | BadSide

fun to_wire :: "side \<Rightarrow> byte" where
  "to_wire Buy = ch_B"
| "to_wire Sell = ch_S"
| "to_wire BadSide = ch_qmark"

definition side_from_wire :: "byte \<Rightarrow> side" where
  "side_from_wire c = (if c = ch_B then Buy else if c = ch_S then Sell else BadSide)"

datatype decode_error = Truncated | UnknownType | InvalidSide | InvalidSymbol

fun decode_error_text :: "decode_error \<Rightarrow> string" where
  "decode_error_text Truncated = ''truncated''"
| "decode_error_text UnknownType = ''unknown_type''"
| "decode_error_text InvalidSide = ''invalid_side''"
| "decode_error_text InvalidSymbol = ''invalid_symbol''"

section \<open>Symbols\<close>

type_synonym symbol = "byte list"

fun symbol_len :: "symbol \<Rightarrow> nat \<Rightarrow> nat" where
  "symbol_len s 0 = 0"
| "symbol_len s (Suc len) =
     (if s ! len = ch_space \<or> s ! len = 0 then symbol_len s len else Suc len)"

definition symbol_view :: "symbol \<Rightarrow> byte list" where
  "symbol_view s = take (symbol_len s 8) s"

definition symbol_fill :: "byte list \<Rightarrow> symbol" where
  "symbol_fill text = (let n = min (length text) 8 in take n text @ replicate (8 - n) ch_space)"

definition symbol_from :: "byte list \<Rightarrow> symbol option" where
  "symbol_from text = do { mog_pre (length text \<le> 8); Some (symbol_fill text) }"

lemma length_symbol_fill [simp]: "length (symbol_fill t) = 8"
  by (simp add: symbol_fill_def Let_def)

lemma symbol_fill_id [simp]: "length s = 8 \<Longrightarrow> symbol_fill s = s"
  by (simp add: symbol_fill_def)

lemma symbol_len_le: "symbol_len s n \<le> n"
  by (induction n) auto

lemma symbol_len_blank:
  "(\<And>j. k \<le> j \<Longrightarrow> j < k + m \<Longrightarrow> s ! j = ch_space) \<Longrightarrow> symbol_len s (k + m) = symbol_len s k"
  by (induction m) auto

lemma symbol_view_from:
  assumes "length t \<le> 8" and "t \<noteq> [] \<Longrightarrow> last t \<noteq> ch_space \<and> last t \<noteq> 0"
  shows "map_option symbol_view (symbol_from t) = Some t"
proof -
  let ?s = "symbol_fill t"
  have s: "?s = t @ replicate (8 - length t) ch_space"
    using assms(1) by (simp add: symbol_fill_def Let_def min_def)
  have "symbol_len ?s (length t + (8 - length t)) = symbol_len ?s (length t)"
    by (rule symbol_len_blank) (auto simp: s nth_append)
  moreover have "symbol_len ?s (length t) = length t"
  proof (cases t rule: rev_cases)
    case Nil
    then show ?thesis by simp
  next
    case (snoc xs x)
    then have "?s ! length xs = x" unfolding s by (simp add: nth_append)
    with snoc assms(2) show ?thesis by simp
  qed
  ultimately have "symbol_view ?s = t"
    using assms(1) by (simp add: symbol_view_def s)
  then show ?thesis using assms(1) by (simp add: symbol_from_def)
qed

section \<open>Wire structs\<close>

text \<open>A field of \<open>n\<close> bytes at offset \<open>k\<close>, as the host reads it.\<close>

definition raw_field :: "bool \<Rightarrow> nat \<Rightarrow> nat \<Rightarrow> byte list \<Rightarrow> 'a::len word" where
  "raw_field le k n bs = mem_load le (take n (drop k bs))"

record wire_header =
  w_type :: byte
  w_locate_be :: u16
  w_tracking_be :: u16
  w_ts_be :: "byte list"

record wire_add_order = 
  wa_header :: wire_header
  wa_order_ref_be :: u64
  wa_buy_sell :: byte
  wa_shares_be :: u32
  wa_stock :: "byte list"
  wa_price_be :: u32

record wire_add_order_attribution =
  wf_base :: wire_add_order
  wf_attribution :: "byte list"

record wire_order_executed =
  we_header :: wire_header
  we_order_ref_be :: u64
  we_executed_shares_be :: u32
  we_match_number_be :: u64

record wire_order_executed_with_price =
  wc_header :: wire_header
  wc_order_ref_be :: u64
  wc_executed_shares_be :: u32
  wc_match_number_be :: u64
  wc_printable :: byte
  wc_execution_price_be :: u32

record wire_order_cancel =
  wx_header :: wire_header
  wx_order_ref_be :: u64
  wx_cancelled_shares_be :: u32

record wire_order_delete =
  wd_header :: wire_header
  wd_order_ref_be :: u64

record wire_order_replace =
  wu_header :: wire_header
  wu_original_order_ref_be :: u64
  wu_new_order_ref_be :: u64
  wu_shares_be :: u32
  wu_price_be :: u32

definition kHeaderSize :: nat where "kHeaderSize = 11"
definition kAddOrderSize :: nat where "kAddOrderSize = 36"
definition kAddOrderAttributionSize :: nat where "kAddOrderAttributionSize = 40"
definition kOrderExecutedSize :: nat where "kOrderExecutedSize = 31"
definition kOrderExecutedWithPriceSize :: nat where "kOrderExecutedWithPriceSize = 36"
definition kOrderCancelSize :: nat where "kOrderCancelSize = 23"
definition kOrderDeleteSize :: nat where "kOrderDeleteSize = 19"
definition kOrderReplaceSize :: nat where "kOrderReplaceSize = 35"

lemmas wire_sizes = kHeaderSize_def kAddOrderSize_def kAddOrderAttributionSize_def
  kOrderExecutedSize_def kOrderExecutedWithPriceSize_def kOrderCancelSize_def
  kOrderDeleteSize_def kOrderReplaceSize_def

subsection \<open>Reading a struct out of the stream\<close>

definition read_header :: "bool \<Rightarrow> byte list \<Rightarrow> wire_header" where
  "read_header le bs =
     \<lparr>w_type = bs ! 0, w_locate_be = raw_field le 1 2 bs, w_tracking_be = raw_field le 3 2 bs,
      w_ts_be = take 6 (drop 5 bs)\<rparr>"

definition read_add_order :: "bool \<Rightarrow> byte list \<Rightarrow> wire_add_order" where
  "read_add_order le bs =
     \<lparr>wa_header = read_header le bs, wa_order_ref_be = raw_field le 11 8 bs,
      wa_buy_sell = bs ! 19, wa_shares_be = raw_field le 20 4 bs,
      wa_stock = take 8 (drop 24 bs), wa_price_be = raw_field le 32 4 bs\<rparr>"

definition read_add_order_attribution :: "bool \<Rightarrow> byte list \<Rightarrow> wire_add_order_attribution" where
  "read_add_order_attribution le bs =
     \<lparr>wf_base = read_add_order le bs, wf_attribution = take 4 (drop 36 bs)\<rparr>"

definition read_order_executed :: "bool \<Rightarrow> byte list \<Rightarrow> wire_order_executed" where
  "read_order_executed le bs =
     \<lparr>we_header = read_header le bs, we_order_ref_be = raw_field le 11 8 bs,
      we_executed_shares_be = raw_field le 19 4 bs, we_match_number_be = raw_field le 23 8 bs\<rparr>"

definition read_order_executed_with_price ::
  "bool \<Rightarrow> byte list \<Rightarrow> wire_order_executed_with_price" where
  "read_order_executed_with_price le bs =
     \<lparr>wc_header = read_header le bs, wc_order_ref_be = raw_field le 11 8 bs,
      wc_executed_shares_be = raw_field le 19 4 bs, wc_match_number_be = raw_field le 23 8 bs,
      wc_printable = bs ! 31, wc_execution_price_be = raw_field le 32 4 bs\<rparr>"

definition read_order_cancel :: "bool \<Rightarrow> byte list \<Rightarrow> wire_order_cancel" where
  "read_order_cancel le bs =
     \<lparr>wx_header = read_header le bs, wx_order_ref_be = raw_field le 11 8 bs,
      wx_cancelled_shares_be = raw_field le 19 4 bs\<rparr>"

definition read_order_delete :: "bool \<Rightarrow> byte list \<Rightarrow> wire_order_delete" where
  "read_order_delete le bs =
     \<lparr>wd_header = read_header le bs, wd_order_ref_be = raw_field le 11 8 bs\<rparr>"

definition read_order_replace :: "bool \<Rightarrow> byte list \<Rightarrow> wire_order_replace" where
  "read_order_replace le bs =
     \<lparr>wu_header = read_header le bs, wu_original_order_ref_be = raw_field le 11 8 bs,
      wu_new_order_ref_be = raw_field le 19 8 bs, wu_shares_be = raw_field le 27 4 bs,
      wu_price_be = raw_field le 31 4 bs\<rparr>"

lemmas read_defs = read_header_def read_add_order_def read_add_order_attribution_def
  read_order_executed_def read_order_executed_with_price_def read_order_cancel_def
  read_order_delete_def read_order_replace_def

subsection \<open>Writing a struct to the stream\<close>

definition write_header :: "bool \<Rightarrow> wire_header \<Rightarrow> byte list" where
  "write_header le h =
     [w_type h] @ mem_bytes le 2 (w_locate_be h) @ mem_bytes le 2 (w_tracking_be h) @ w_ts_be h"

definition write_add_order :: "bool \<Rightarrow> wire_add_order \<Rightarrow> byte list" where
  "write_add_order le b =
     write_header le (wa_header b) @ mem_bytes le 8 (wa_order_ref_be b) @ [wa_buy_sell b] @
     mem_bytes le 4 (wa_shares_be b) @ wa_stock b @ mem_bytes le 4 (wa_price_be b)"

definition write_add_order_attribution :: "bool \<Rightarrow> wire_add_order_attribution \<Rightarrow> byte list" where
  "write_add_order_attribution le b = write_add_order le (wf_base b) @ wf_attribution b"

definition write_order_executed :: "bool \<Rightarrow> wire_order_executed \<Rightarrow> byte list" where
  "write_order_executed le b =
     write_header le (we_header b) @ mem_bytes le 8 (we_order_ref_be b) @
     mem_bytes le 4 (we_executed_shares_be b) @ mem_bytes le 8 (we_match_number_be b)"

definition write_order_executed_with_price ::
  "bool \<Rightarrow> wire_order_executed_with_price \<Rightarrow> byte list" where
  "write_order_executed_with_price le b =
     write_header le (wc_header b) @ mem_bytes le 8 (wc_order_ref_be b) @
     mem_bytes le 4 (wc_executed_shares_be b) @ mem_bytes le 8 (wc_match_number_be b) @
     [wc_printable b] @ mem_bytes le 4 (wc_execution_price_be b)"

definition write_order_cancel :: "bool \<Rightarrow> wire_order_cancel \<Rightarrow> byte list" where
  "write_order_cancel le b =
     write_header le (wx_header b) @ mem_bytes le 8 (wx_order_ref_be b) @
     mem_bytes le 4 (wx_cancelled_shares_be b)"

definition write_order_delete :: "bool \<Rightarrow> wire_order_delete \<Rightarrow> byte list" where
  "write_order_delete le b = write_header le (wd_header b) @ mem_bytes le 8 (wd_order_ref_be b)"

definition write_order_replace :: "bool \<Rightarrow> wire_order_replace \<Rightarrow> byte list" where
  "write_order_replace le b =
     write_header le (wu_header b) @ mem_bytes le 8 (wu_original_order_ref_be b) @
     mem_bytes le 8 (wu_new_order_ref_be b) @ mem_bytes le 4 (wu_shares_be b) @
     mem_bytes le 4 (wu_price_be b)"

lemmas write_defs = write_header_def write_add_order_def write_add_order_attribution_def
  write_order_executed_def write_order_executed_with_price_def write_order_cancel_def
  write_order_delete_def write_order_replace_def

section \<open>Decoded messages\<close>

record itch_header =
  h_locate :: u16
  h_tracking :: u16
  h_ts_ns :: u64

record add_order_msg =
  ao_header :: itch_header
  ao_order_ref :: u64
  ao_side :: side
  ao_shares :: qty
  ao_stock :: symbol
  ao_price :: price

record add_order_attribution_msg =
  af_header :: itch_header
  af_order_ref :: u64
  af_side :: side
  af_shares :: qty
  af_stock :: symbol
  af_price :: price
  af_attribution :: "byte list"

record order_executed_msg =
  oe_header :: itch_header
  oe_order_ref :: u64
  oe_executed_shares :: qty
  oe_match_number :: u64

record order_executed_with_price_msg =
  oc_header :: itch_header
  oc_order_ref :: u64
  oc_executed_shares :: qty
  oc_match_number :: u64
  oc_printable :: bool
  oc_execution_price :: price

record order_cancel_msg =
  ox_header :: itch_header
  ox_order_ref :: u64
  ox_cancelled_shares :: qty

record order_delete_msg =
  od_header :: itch_header
  od_order_ref :: u64

record order_replace_msg =
  ou_header :: itch_header
  ou_original_order_ref :: u64
  ou_new_order_ref :: u64
  ou_shares :: qty
  ou_price :: price

datatype message =
    AddOrder add_order_msg
  | AddOrderAttribution add_order_attribution_msg
  | OrderExecuted order_executed_msg
  | OrderExecutedWithPrice order_executed_with_price_msg
  | OrderCancel order_cancel_msg
  | OrderDelete order_delete_msg
  | OrderReplace order_replace_msg

fun msg_type :: "message \<Rightarrow> byte" where
  "msg_type (AddOrder _) = ch_A"
| "msg_type (AddOrderAttribution _) = ch_F"
| "msg_type (OrderExecuted _) = ch_E"
| "msg_type (OrderExecutedWithPrice _) = ch_C"
| "msg_type (OrderCancel _) = ch_X"
| "msg_type (OrderDelete _) = ch_D"
| "msg_type (OrderReplace _) = ch_U"

fun msg_header :: "message \<Rightarrow> itch_header" where
  "msg_header (AddOrder v) = ao_header v"
| "msg_header (AddOrderAttribution v) = af_header v"
| "msg_header (OrderExecuted v) = oe_header v"
| "msg_header (OrderExecutedWithPrice v) = oc_header v"
| "msg_header (OrderCancel v) = ox_header v"
| "msg_header (OrderDelete v) = od_header v"
| "msg_header (OrderReplace v) = ou_header v"

section \<open>Reference decoders\<close>

text \<open>
  The reference codecs swap every multi-byte field, whatever the host: they read the struct
  natively and assume a little-endian machine.
\<close>

definition decode_header :: "bool \<Rightarrow> wire_header \<Rightarrow> itch_header" where
  "decode_header le h =
     \<lparr>h_locate = swap16 (w_locate_be h), h_tracking = swap16 (w_tracking_be h),
      h_ts_ns = load_be48 le (w_ts_be h)\<rparr>"

definition check_and_wrap :: "'m \<Rightarrow> byte \<Rightarrow> decode_error + 'm" where
  "check_and_wrap msg wire_side =
     (if wire_side \<noteq> ch_B \<and> wire_side \<noteq> ch_S then Inl InvalidSide else Inr msg)"

definition decode_add_order :: "bool \<Rightarrow> byte list \<Rightarrow> decode_error + add_order_msg" where
  "decode_add_order le buf =
     (if length buf < kAddOrderSize then Inl Truncated
      else let body = read_add_order le buf
           in check_and_wrap
                \<lparr>ao_header = decode_header le (wa_header body),
                 ao_order_ref = swap64 (wa_order_ref_be body),
                 ao_side = side_from_wire (wa_buy_sell body),
                 ao_shares = uint (swap32 (wa_shares_be body)),
                 ao_stock = symbol_fill (wa_stock body),
                 ao_price = uint (swap32 (wa_price_be body))\<rparr>
                (wa_buy_sell body))"

definition decode_add_order_attribution ::
  "bool \<Rightarrow> byte list \<Rightarrow> decode_error + add_order_attribution_msg" where
  "decode_add_order_attribution le buf =
     (if length buf < kAddOrderAttributionSize then Inl Truncated
      else let body = read_add_order_attribution le buf; base = wf_base body
           in check_and_wrap
                \<lparr>af_header = decode_header le (wa_header base),
                 af_order_ref = swap64 (wa_order_ref_be base),
                 af_side = side_from_wire (wa_buy_sell base),
                 af_shares = uint (swap32 (wa_shares_be base)),
                 af_stock = symbol_fill (wa_stock base),
                 af_price = uint (swap32 (wa_price_be base)),
                 af_attribution = wf_attribution body\<rparr>
                (wa_buy_sell base))"

definition decode_order_executed :: "bool \<Rightarrow> byte list \<Rightarrow> decode_error + order_executed_msg" where
  "decode_order_executed le buf =
     (if length buf < kOrderExecutedSize then Inl Truncated
      else let body = read_order_executed le buf
           in Inr \<lparr>oe_header = decode_header le (we_header body),
                   oe_order_ref = swap64 (we_order_ref_be body),
                   oe_executed_shares = uint (swap32 (we_executed_shares_be body)),
                   oe_match_number = swap64 (we_match_number_be body)\<rparr>)"

definition decode_order_executed_with_price ::
  "bool \<Rightarrow> byte list \<Rightarrow> decode_error + order_executed_with_price_msg" where
  "decode_order_executed_with_price le buf =
     (if length buf < kOrderExecutedWithPriceSize then Inl Truncated
      else let body = read_order_executed_with_price le buf
           in Inr \<lparr>oc_header = decode_header le (wc_header body),
                   oc_order_ref = swap64 (wc_order_ref_be body),
                   oc_executed_shares = uint (swap32 (wc_executed_shares_be body)),
                   oc_match_number = swap64 (wc_match_number_be body),
                   oc_printable = (wc_printable body = ch_Y),
                   oc_execution_price = uint (swap32 (wc_execution_price_be body))\<rparr>)"

definition decode_order_cancel :: "bool \<Rightarrow> byte list \<Rightarrow> decode_error + order_cancel_msg" where
  "decode_order_cancel le buf =
     (if length buf < kOrderCancelSize then Inl Truncated
      else let body = read_order_cancel le buf
           in Inr \<lparr>ox_header = decode_header le (wx_header body),
                   ox_order_ref = swap64 (wx_order_ref_be body),
                   ox_cancelled_shares = uint (swap32 (wx_cancelled_shares_be body))\<rparr>)"

definition decode_order_delete :: "bool \<Rightarrow> byte list \<Rightarrow> decode_error + order_delete_msg" where
  "decode_order_delete le buf =
     (if length buf < kOrderDeleteSize then Inl Truncated
      else let body = read_order_delete le buf
           in Inr \<lparr>od_header = decode_header le (wd_header body),
                   od_order_ref = swap64 (wd_order_ref_be body)\<rparr>)"

definition decode_order_replace :: "bool \<Rightarrow> byte list \<Rightarrow> decode_error + order_replace_msg" where
  "decode_order_replace le buf =
     (if length buf < kOrderReplaceSize then Inl Truncated
      else let body = read_order_replace le buf
           in Inr \<lparr>ou_header = decode_header le (wu_header body),
                   ou_original_order_ref = swap64 (wu_original_order_ref_be body),
                   ou_new_order_ref = swap64 (wu_new_order_ref_be body),
                   ou_shares = uint (swap32 (wu_shares_be body)),
                   ou_price = uint (swap32 (wu_price_be body))\<rparr>)"

definition decode_message :: "bool \<Rightarrow> byte list \<Rightarrow> decode_error + message" where
  "decode_message le buf =
     (if length buf < kHeaderSize then Inl Truncated
      else let type = buf ! 0
           in if type = ch_A then map_sum id AddOrder (decode_add_order le buf)
              else if type = ch_F then
                map_sum id AddOrderAttribution (decode_add_order_attribution le buf)
              else if type = ch_E then map_sum id OrderExecuted (decode_order_executed le buf)
              else if type = ch_C then
                map_sum id OrderExecutedWithPrice (decode_order_executed_with_price le buf)
              else if type = ch_X then map_sum id OrderCancel (decode_order_cancel le buf)
              else if type = ch_D then map_sum id OrderDelete (decode_order_delete le buf)
              else if type = ch_U then map_sum id OrderReplace (decode_order_replace le buf)
              else Inl UnknownType)"

lemmas decode_defs = decode_add_order_def decode_add_order_attribution_def
  decode_order_executed_def decode_order_executed_with_price_def decode_order_cancel_def
  decode_order_delete_def decode_order_replace_def

section \<open>Reference encoders\<close>

definition store_header :: "bool \<Rightarrow> byte \<Rightarrow> itch_header \<Rightarrow> wire_header" where
  "store_header le type hdr =
     \<lparr>w_type = type, w_locate_be = swap16 (h_locate hdr), w_tracking_be = swap16 (h_tracking hdr),
      w_ts_be = store_be48 le (h_ts_ns hdr)\<rparr>"

definition encode_add_order :: "bool \<Rightarrow> add_order_msg \<Rightarrow> byte list" where
  "encode_add_order le m =
     write_add_order le
       \<lparr>wa_header = store_header le ch_A (ao_header m), wa_order_ref_be = swap64 (ao_order_ref m),
        wa_buy_sell = to_wire (ao_side m), wa_shares_be = swap32 (word_of_int (ao_shares m)),
        wa_stock = ao_stock m, wa_price_be = swap32 (word_of_int (ao_price m))\<rparr>"

definition encode_add_order_attribution :: "bool \<Rightarrow> add_order_attribution_msg \<Rightarrow> byte list" where
  "encode_add_order_attribution le m =
     write_add_order_attribution le
       \<lparr>wf_base =
          \<lparr>wa_header = store_header le ch_F (af_header m), wa_order_ref_be = swap64 (af_order_ref m),
           wa_buy_sell = to_wire (af_side m), wa_shares_be = swap32 (word_of_int (af_shares m)),
           wa_stock = af_stock m, wa_price_be = swap32 (word_of_int (af_price m))\<rparr>,
        wf_attribution = af_attribution m\<rparr>"

definition encode_order_executed :: "bool \<Rightarrow> order_executed_msg \<Rightarrow> byte list" where
  "encode_order_executed le m =
     write_order_executed le
       \<lparr>we_header = store_header le ch_E (oe_header m), we_order_ref_be = swap64 (oe_order_ref m),
        we_executed_shares_be = swap32 (word_of_int (oe_executed_shares m)),
        we_match_number_be = swap64 (oe_match_number m)\<rparr>"

definition encode_order_executed_with_price ::
  "bool \<Rightarrow> order_executed_with_price_msg \<Rightarrow> byte list" where
  "encode_order_executed_with_price le m =
     write_order_executed_with_price le
       \<lparr>wc_header = store_header le ch_C (oc_header m), wc_order_ref_be = swap64 (oc_order_ref m),
        wc_executed_shares_be = swap32 (word_of_int (oc_executed_shares m)),
        wc_match_number_be = swap64 (oc_match_number m),
        wc_printable = (if oc_printable m then ch_Y else ch_N),
        wc_execution_price_be = swap32 (word_of_int (oc_execution_price m))\<rparr>"

definition encode_order_cancel :: "bool \<Rightarrow> order_cancel_msg \<Rightarrow> byte list" where
  "encode_order_cancel le m =
     write_order_cancel le
       \<lparr>wx_header = store_header le ch_X (ox_header m), wx_order_ref_be = swap64 (ox_order_ref m),
        wx_cancelled_shares_be = swap32 (word_of_int (ox_cancelled_shares m))\<rparr>"

definition encode_order_delete :: "bool \<Rightarrow> order_delete_msg \<Rightarrow> byte list" where
  "encode_order_delete le m =
     write_order_delete le
       \<lparr>wd_header = store_header le ch_D (od_header m), wd_order_ref_be = swap64 (od_order_ref m)\<rparr>"

definition encode_order_replace :: "bool \<Rightarrow> order_replace_msg \<Rightarrow> byte list" where
  "encode_order_replace le m =
     write_order_replace le
       \<lparr>wu_header = store_header le ch_U (ou_header m),
        wu_original_order_ref_be = swap64 (ou_original_order_ref m),
        wu_new_order_ref_be = swap64 (ou_new_order_ref m),
        wu_shares_be = swap32 (word_of_int (ou_shares m)),
        wu_price_be = swap32 (word_of_int (ou_price m))\<rparr>"

lemmas encode_defs = encode_add_order_def encode_add_order_attribution_def
  encode_order_executed_def encode_order_executed_with_price_def encode_order_cancel_def
  encode_order_delete_def encode_order_replace_def

text \<open>The encoder of the active union member; the source has one encoder per struct.\<close>

fun encode_message :: "bool \<Rightarrow> message \<Rightarrow> byte list" where
  "encode_message le (AddOrder v) = encode_add_order le v"
| "encode_message le (AddOrderAttribution v) = encode_add_order_attribution le v"
| "encode_message le (OrderExecuted v) = encode_order_executed le v"
| "encode_message le (OrderExecutedWithPrice v) = encode_order_executed_with_price le v"
| "encode_message le (OrderCancel v) = encode_order_cancel le v"
| "encode_message le (OrderDelete v) = encode_order_delete le v"
| "encode_message le (OrderReplace v) = encode_order_replace le v"

end
