(* ===== verification/OrderBook.thy ===== *)
theory OrderBook
  imports Ladder IdTable ItchCodec
begin

text \<open>
  The limit order book of \<open>include/mog/OrderBook.hpp\<close>: orders in the arena, one paged ladder per
  side, an intrusive FIFO queue per level linked through the orders, the reference table, and the
  cached best prices. An operation takes the optional list of level deltas (the out-pointer) and
  returns the tick it reports, the deltas and the book; \<open>None\<close> is a failed contract.
\<close>

section \<open>State\<close>

record order =
  o_ref :: u64
  o_qty :: int
  o_price :: int
  o_prev :: nat
  o_next :: nat
  o_side :: byte

datatype book_error = UnknownOrder | DuplicateRef | OverExecute | BadQty | OutOfBand | ArenaFull
  | EmptyLevel | PageExhausted | ZeroRef

fun book_error_code :: "book_error \<Rightarrow> byte" where
  "book_error_code UnknownOrder = 1"
| "book_error_code DuplicateRef = 2"
| "book_error_code OverExecute = 3"
| "book_error_code BadQty = 4"
| "book_error_code OutOfBand = 5"
| "book_error_code ArenaFull = 6"
| "book_error_code EmptyLevel = 7"
| "book_error_code PageExhausted = 8"
| "book_error_code ZeroRef = 9"

fun book_error_text :: "book_error \<Rightarrow> string" where
  "book_error_text UnknownOrder = ''unknown_order''"
| "book_error_text DuplicateRef = ''duplicate_ref''"
| "book_error_text OverExecute = ''over_execute''"
| "book_error_text BadQty = ''bad_qty''"
| "book_error_text OutOfBand = ''out_of_band''"
| "book_error_text EmptyLevel = ''empty_level''"
| "book_error_text ArenaFull = ''arena_full''"
| "book_error_text PageExhausted = ''page_exhausted''"
| "book_error_text ZeroRef = ''zero_ref''"

datatype book_event_kind = Added | Reduced | Removed | Replaced

fun event_code :: "book_event_kind \<Rightarrow> byte" where
  "event_code Added = 0"
| "event_code Reduced = 1"
| "event_code Removed = 2"
| "event_code Replaced = 3"

definition kTickError :: byte where "kTickError = 0xFF"

record book_tick =
  bt_price_ticks :: int
  bt_qty :: u32
  bt_kind :: byte
  bt_side :: byte
  bt_error :: byte

definition tick_ok :: "book_tick \<Rightarrow> bool" where
  "tick_ok t \<longleftrightarrow> bt_kind t \<noteq> kTickError"

definition tick_error :: "book_error \<Rightarrow> book_tick" where
  "tick_error e = \<lparr> bt_price_ticks = 0, bt_qty = 0, bt_kind = kTickError, bt_side = 0,
                    bt_error = book_error_code e \<rparr>"

definition book_event :: "book_event_kind \<Rightarrow> int \<Rightarrow> int \<Rightarrow> side \<Rightarrow> book_tick" where
  "book_event k ticks qty s = \<lparr> bt_price_ticks = ticks, bt_qty = word_of_int qty,
     bt_kind = event_code k, bt_side = to_wire s, bt_error = 0 \<rparr>"

text \<open>A level delta carries the signed 32-bit truncation of the quantity (\<open>SnapshotRing.hpp\<close>).\<close>

record level_delta =
  ld_price_ticks :: int
  ld_qty_delta :: int
  ld_side :: byte

definition to_int32 :: "int \<Rightarrow> int" where
  "to_int32 q = sint (word_of_int q :: u32)"

type_synonym deltas = "level_delta list option"

text \<open>\<open>emplace_back\<close> on the \<open>inplace_vector<LevelDelta, 3>\<close> behind the out-pointer.\<close>

definition emit_delta :: "level_delta \<Rightarrow> deltas \<Rightarrow> deltas option" where
  "emit_delta d ds = (case ds of None \<Rightarrow> Some None
     | Some xs \<Rightarrow> do { mog_pre (length xs < 3); Some (Some (xs @ [d])) })"

record book =
  bk_arena :: "order arena"
  bk_bid :: ladder
  bk_ask :: ladder
  bk_ids :: id_table
  bk_best_bid :: int
  bk_best_ask :: int

definition int32_max :: int where "int32_max = 2147483647"

definition book_new :: "nat \<Rightarrow> order slot list \<Rightarrow> nat \<Rightarrow> int \<Rightarrow> int \<Rightarrow> nat \<Rightarrow> book option" where
  "book_new arena_capacity raw s lo hi pool = do {
     ar \<leftarrow> arena_new arena_capacity raw;
     bid \<leftarrow> ladder_new s lo hi pool;
     ask \<leftarrow> ladder_new s lo hi pool;
     ids \<leftarrow> id_new arena_capacity;
     mog_pre (hi \<le> int32_max);
     Some \<lparr> bk_arena = ar, bk_bid = bid, bk_ask = ask, bk_ids = ids,
            bk_best_bid = kNoTick, bk_best_ask = kNoTick \<rparr>
   }"

definition ladder_for :: "side \<Rightarrow> book \<Rightarrow> ladder" where
  "ladder_for s bk = (if s = Buy then bk_bid bk else bk_ask bk)"

definition set_ladder :: "side \<Rightarrow> ladder \<Rightarrow> book \<Rightarrow> book" where
  "set_ladder s l bk = (if s = Buy then bk\<lparr> bk_bid := l \<rparr> else bk\<lparr> bk_ask := l \<rparr>)"

section \<open>Queries\<close>

definition live_orders :: "book \<Rightarrow> nat" where
  "live_orders bk = ar_live (bk_arena bk)"

definition qty_at :: "book \<Rightarrow> side \<Rightarrow> int \<Rightarrow> int" where
  "qty_at bk s price = (case lad_peek (ladder_for s bk) price of
     Some a \<Rightarrow> lv_qty (lad_get (ladder_for s bk) a) | None \<Rightarrow> 0)"

definition remaining_of :: "book \<Rightarrow> u64 \<Rightarrow> int option" where
  "remaining_of bk ref = do {
     h \<leftarrow> id_find (bk_ids bk) ref;
     if h_index h = kNullIndex \<or> \<not> arena_valid (bk_arena bk) h then Some 0
     else map_option o_qty (arena_at (bk_arena bk) h)
   }"

definition remaining_of_handle :: "book \<Rightarrow> gen_handle \<Rightarrow> int option" where
  "remaining_of_handle bk h = do {
     mog_pre (arena_valid (bk_arena bk) h);
     map_option o_qty (arena_at (bk_arena bk) h)
   }"

definition side_of :: "book \<Rightarrow> u64 \<Rightarrow> byte option" where
  "side_of bk ref = do {
     h \<leftarrow> id_find (bk_ids bk) ref;
     if h_index h = kNullIndex \<or> \<not> arena_valid (bk_arena bk) h then Some ch_qmark
     else map_option o_side (arena_at (bk_arena bk) h)
   }"

text \<open>The walk of a queue: the visitor is a function on its own state.\<close>

partial_function (option) level_walk ::
  "order arena \<Rightarrow> (nat \<Rightarrow> order \<Rightarrow> 'st \<Rightarrow> 'st) \<Rightarrow> nat \<Rightarrow> 'st \<Rightarrow> 'st option" where
  "level_walk ar fn idx st =
     (if idx \<noteq> kNullIndex then
        Option.bind (arena_at_index ar idx) (\<lambda>ord. level_walk ar fn (o_next ord) (fn idx ord st))
      else Some st)"

definition for_each_in_level ::
  "book \<Rightarrow> side \<Rightarrow> int \<Rightarrow> (u64 \<Rightarrow> int \<Rightarrow> 'st \<Rightarrow> 'st) \<Rightarrow> 'st \<Rightarrow> 'st option" where
  "for_each_in_level bk s price fn st =
     (case lad_peek (ladder_for s bk) price of None \<Rightarrow> Some st
      | Some a \<Rightarrow> level_walk (bk_arena bk) (\<lambda>_ ord. fn (o_ref ord) (o_qty ord))
                   (lv_head (lad_get (ladder_for s bk) a)) st)"

definition for_each_in_level_idx ::
  "book \<Rightarrow> side \<Rightarrow> int \<Rightarrow> (nat \<Rightarrow> u64 \<Rightarrow> int \<Rightarrow> 'st \<Rightarrow> 'st) \<Rightarrow> 'st \<Rightarrow> 'st option" where
  "for_each_in_level_idx bk s price fn st =
     (case lad_peek (ladder_for s bk) price of None \<Rightarrow> Some st
      | Some a \<Rightarrow> level_walk (bk_arena bk) (\<lambda>idx ord. fn idx (o_ref ord) (o_qty ord))
                   (lv_head (lad_get (ladder_for s bk) a)) st)"

definition front_ref :: "book \<Rightarrow> side \<Rightarrow> int \<Rightarrow> u64 option" where
  "front_ref bk s price =
     (case lad_peek (ladder_for s bk) price of None \<Rightarrow> Some 0
      | Some a \<Rightarrow>
          (let hd = lv_head (lad_get (ladder_for s bk) a)
           in if hd = kNullIndex then Some 0
              else map_option o_ref (arena_at_index (bk_arena bk) hd)))"

definition book_in_band :: "book \<Rightarrow> int \<Rightarrow> bool" where
  "book_in_band bk tick = lad_in_band (bk_bid bk) tick"

definition next_price_below :: "book \<Rightarrow> side \<Rightarrow> int \<Rightarrow> int" where
  "next_price_below bk s tick = first_below (ladder_for s bk) tick"

definition next_price_above :: "book \<Rightarrow> side \<Rightarrow> int \<Rightarrow> int" where
  "next_price_above bk s tick = first_above (ladder_for s bk) tick"

definition for_each_l2 :: "book \<Rightarrow> (side \<Rightarrow> int \<Rightarrow> int \<Rightarrow> 'st \<Rightarrow> 'st) \<Rightarrow> 'st \<Rightarrow> 'st" where
  "for_each_l2 bk fn st =
     for_each_level (bk_ask bk) (\<lambda>tick lv. fn Sell tick (lv_qty lv))
       (for_each_level (bk_bid bk) (\<lambda>tick lv. fn Buy tick (lv_qty lv)) st)"

section \<open>Queue links\<close>

definition push_tail :: "level \<Rightarrow> nat \<Rightarrow> order arena \<Rightarrow> (level \<times> order arena) option" where
  "push_tail lv idx ar = do {
     ord \<leftarrow> arena_at_index ar idx;
     ar \<leftarrow> arena_put idx (ord\<lparr> o_prev := lv_tail lv, o_next := kNullIndex \<rparr>) ar;
     (lv, ar) \<leftarrow> (if lv_tail lv \<noteq> kNullIndex then do {
                    t \<leftarrow> arena_at_index ar (lv_tail lv);
                    ar \<leftarrow> arena_put (lv_tail lv) (t\<lparr> o_next := idx \<rparr>) ar;
                    Some (lv, ar)
                  } else Some (lv\<lparr> lv_head := idx \<rparr>, ar));
     Some (lv\<lparr> lv_tail := idx, lv_count := lv_count lv + 1 \<rparr>, ar)
   }"

definition unlink :: "level \<Rightarrow> nat \<Rightarrow> order arena \<Rightarrow> (level \<times> order arena) option" where
  "unlink lv idx ar = do {
     ord \<leftarrow> arena_at_index ar idx;
     (lv, ar) \<leftarrow> (if o_prev ord \<noteq> kNullIndex then do {
                    p \<leftarrow> arena_at_index ar (o_prev ord);
                    ar \<leftarrow> arena_put (o_prev ord) (p\<lparr> o_next := o_next ord \<rparr>) ar;
                    Some (lv, ar)
                  } else Some (lv\<lparr> lv_head := o_next ord \<rparr>, ar));
     (lv, ar) \<leftarrow> (if o_next ord \<noteq> kNullIndex then do {
                    n \<leftarrow> arena_at_index ar (o_next ord);
                    ar \<leftarrow> arena_put (o_next ord) (n\<lparr> o_prev := o_prev ord \<rparr>) ar;
                    Some (lv, ar)
                  } else Some (lv\<lparr> lv_tail := o_prev ord \<rparr>, ar));
     Some (lv\<lparr> lv_count := lv_count lv - 1 \<rparr>, ar)
   }"

section \<open>Operations\<close>

type_synonym book_result = "(book_tick \<times> deltas \<times> book) option"

definition book_add :: "u64 \<Rightarrow> side \<Rightarrow> int \<Rightarrow> int \<Rightarrow> deltas \<Rightarrow> book \<Rightarrow> book_result" where
  "book_add ref s qty price ds bk =
     (if ref = 0 then Some (tick_error ZeroRef, ds, bk)
      else if qty \<le> 0 then Some (tick_error BadQty, ds, bk)
      else if \<not> book_in_band bk price then Some (tick_error OutOfBand, ds, bk)
      else if \<not> claimable (ladder_for s bk) price then Some (tick_error PageExhausted, ds, bk)
      else do {
        (slot, found) \<leftarrow> id_find_slot (bk_ids bk) ref;
        if h_index found \<noteq> kNullIndex then Some (tick_error DuplicateRef, ds, bk)
        else (let (h, ar) = arena_acquire \<lparr> o_ref = ref, o_qty = qty, o_price = price,
                              o_prev = kNullIndex, o_next = kNullIndex, o_side = to_wire s \<rparr>
                              (bk_arena bk)
              in if is_null h then Some (tick_error ArenaFull, ds, bk)
                 else do {
                   ids \<leftarrow> id_insert_at (bk_ids bk) slot ref h;
                   (a, l) \<leftarrow> lad_apply (ladder_for s bk) price qty;
                   (lv, ar) \<leftarrow> push_tail (lad_get l a) (h_index h) ar;
                   let bk = (set_ladder s (lad_put a lv l) bk)\<lparr> bk_arena := ar, bk_ids := ids \<rparr>;
                   let bk = (if s = Buy
                             then (if bk_best_bid bk = kNoTick \<or> price > bk_best_bid bk
                                   then bk\<lparr> bk_best_bid := price \<rparr> else bk)
                             else (if bk_best_ask bk = kNoTick \<or> price < bk_best_ask bk
                                   then bk\<lparr> bk_best_ask := price \<rparr> else bk));
                   ds \<leftarrow> emit_delta \<lparr> ld_price_ticks = price, ld_qty_delta = to_int32 qty,
                                      ld_side = to_wire s \<rparr> ds;
                   Some (book_event Added price qty s, ds, bk)
                 })
      })"

definition book_reduce ::
  "gen_handle \<Rightarrow> int \<Rightarrow> book_event_kind \<Rightarrow> deltas \<Rightarrow> nat \<Rightarrow> book \<Rightarrow> book_result" where
  "book_reduce h qty partial_kind ds slot_hint bk = do {
     ord \<leftarrow> arena_at_index (bk_arena bk) (h_index h);
     mog_pre (qty > 0 \<and> qty \<le> o_qty ord);
     let ref = o_ref ord;
     let ticks = o_price ord;
     let s = (if o_side ord = ch_B then Buy else Sell);
     ar \<leftarrow> arena_put (h_index h) (ord\<lparr> o_qty := o_qty ord - qty \<rparr>) (bk_arena bk);
     let emptied = (o_qty ord - qty = 0);
     (a, l) \<leftarrow> lad_apply (ladder_for s bk) ticks (- qty);
     (l, ar, ids) \<leftarrow>
       (if emptied then do {
          (lv, ar) \<leftarrow> unlink (lad_get l a) (h_index h) ar;
          let l = lad_put a lv l;
          ar \<leftarrow> arena_release h ar;
          ids \<leftarrow> (if slot_hint \<noteq> kNullIndex then id_erase_at (bk_ids bk) slot_hint
                  else id_erase (bk_ids bk) ref);
          Some (l, ar, ids)
        } else do {
          mog_pre (o_qty ord - qty > 0);
          Some (l, ar, bk_ids bk)
        });
     let bk = (set_ladder s l bk)\<lparr> bk_arena := ar, bk_ids := ids \<rparr>;
     ds \<leftarrow> emit_delta \<lparr> ld_price_ticks = ticks, ld_qty_delta = to_int32 (- qty),
                        ld_side = to_wire s \<rparr> ds;
     let level_empty = (lv_qty (lad_get l a) = 0);
     mog_pre (\<not> level_empty \<or> emptied);
     let bk = (if level_empty then
                 (if s = Buy \<and> bk_best_bid bk = ticks
                  then bk\<lparr> bk_best_bid := first_below l (bk_best_bid bk) \<rparr>
                  else if s = Sell \<and> bk_best_ask bk = ticks
                  then bk\<lparr> bk_best_ask := first_above l (bk_best_ask bk) \<rparr>
                  else bk)
               else bk);
     Some (book_event (if emptied then Removed else partial_kind) ticks qty s, ds, bk)
   }"

definition book_execute :: "u64 \<Rightarrow> int \<Rightarrow> deltas \<Rightarrow> book \<Rightarrow> book_result" where
  "book_execute ref qty ds bk =
     (if qty \<le> 0 then Some (tick_error BadQty, ds, bk)
      else do {
        (slot, h) \<leftarrow> id_find_slot (bk_ids bk) ref;
        if h_index h = kNullIndex then Some (tick_error UnknownOrder, ds, bk)
        else do {
          ord \<leftarrow> arena_at (bk_arena bk) h;
          if qty > o_qty ord then Some (tick_error OverExecute, ds, bk)
          else book_reduce h qty Reduced ds slot bk
        }
      })"

definition book_cancel :: "u64 \<Rightarrow> int \<Rightarrow> deltas \<Rightarrow> book \<Rightarrow> book_result" where
  "book_cancel ref qty ds bk = book_execute ref qty ds bk"

text \<open>The second component is the reference stored through \<open>victim\<close>, if any.\<close>

definition book_execute_front ::
  "side \<Rightarrow> int \<Rightarrow> int \<Rightarrow> deltas \<Rightarrow> book \<Rightarrow> (u64 option \<times> book_tick \<times> deltas \<times> book) option" where
  "book_execute_front s price qty ds bk =
     (if qty \<le> 0 then Some (None, tick_error BadQty, ds, bk)
      else
        (case lad_peek (ladder_for s bk) price of
           None \<Rightarrow> Some (None, tick_error EmptyLevel, ds, bk)
         | Some a \<Rightarrow>
             (let head_idx = lv_head (lad_get (ladder_for s bk) a)
              in if head_idx = kNullIndex then Some (None, tick_error EmptyLevel, ds, bk)
                 else do {
                   head_o \<leftarrow> arena_at_index (bk_arena bk) head_idx;
                   sl \<leftarrow> arena_slot (bk_arena bk) head_idx;
                   let direct = \<lparr> h_index = head_idx, h_generation = s_generation sl \<rparr>;
                   (_, check) \<leftarrow> id_find_slot (bk_ids bk) (o_ref head_o);
                   mog_pre (check = direct);
                   _ \<leftarrow> arena_at (bk_arena bk) direct;
                   r \<leftarrow> book_reduce direct qty Reduced ds kNullIndex bk;
                   Some (Some (o_ref head_o), r)
                 })))"

definition book_remove :: "u64 \<Rightarrow> deltas \<Rightarrow> book \<Rightarrow> book_result" where
  "book_remove ref ds bk = do {
     (slot, h) \<leftarrow> id_find_slot (bk_ids bk) ref;
     if h_index h = kNullIndex then Some (tick_error UnknownOrder, ds, bk)
     else do {
       ord \<leftarrow> arena_at (bk_arena bk) h;
       book_reduce h (o_qty ord) Removed ds slot bk
     }
   }"

fun push_deltas :: "level_delta list \<Rightarrow> deltas \<Rightarrow> deltas option" where
  "push_deltas [] ds = Some ds"
| "push_deltas (d # staged) ds = Option.bind (emit_delta d ds) (push_deltas staged)"

definition book_replace :: "u64 \<Rightarrow> u64 \<Rightarrow> int \<Rightarrow> int \<Rightarrow> deltas \<Rightarrow> book \<Rightarrow> book_result" where
  "book_replace orig_ref new_ref new_qty new_price ds bk =
     (if new_qty \<le> 0 then Some (tick_error BadQty, ds, bk)
      else if \<not> book_in_band bk new_price then Some (tick_error OutOfBand, ds, bk)
      else do {
        oh \<leftarrow> id_find (bk_ids bk) orig_ref;
        if h_index oh = kNullIndex then Some (tick_error UnknownOrder, ds, bk)
        else do {
          ord \<leftarrow> arena_at (bk_arena bk) oh;
          let orig_side = (if o_side ord = ch_B then Buy else Sell);
          if \<not> claimable (ladder_for orig_side bk) new_price
          then Some (tick_error PageExhausted, ds, bk)
          else do {
            dup \<leftarrow> (if orig_ref \<noteq> new_ref
                    then map_option (\<lambda>h. h_index h \<noteq> kNullIndex) (id_find (bk_ids bk) new_ref)
                    else Some False);
            if dup then Some (tick_error DuplicateRef, ds, bk)
            else do {
              (removed, staged, bk) \<leftarrow> book_remove orig_ref (Some []) bk;
              mog_pre (tick_ok removed);
              ds \<leftarrow> push_deltas (the staged) ds;
              (added, ds, bk) \<leftarrow> book_add new_ref orig_side new_qty new_price ds bk;
              mog_pre (tick_ok added);
              Some (added\<lparr> bt_kind := event_code Replaced, bt_error := 0 \<rparr>, ds, bk)
            }
          }
        }
      })"

fun book_apply :: "message \<Rightarrow> deltas \<Rightarrow> book \<Rightarrow> book_result" where
  "book_apply (AddOrder m) ds bk =
     book_add (ao_order_ref m) (ao_side m) (ao_shares m) (ao_price m) ds bk"
| "book_apply (AddOrderAttribution m) ds bk =
     book_add (af_order_ref m) (af_side m) (af_shares m) (af_price m) ds bk"
| "book_apply (OrderExecuted m) ds bk = book_execute (oe_order_ref m) (oe_executed_shares m) ds bk"
| "book_apply (OrderExecutedWithPrice m) ds bk =
     book_execute (oc_order_ref m) (oc_executed_shares m) ds bk"
| "book_apply (OrderCancel m) ds bk = book_cancel (ox_order_ref m) (ox_cancelled_shares m) ds bk"
| "book_apply (OrderDelete m) ds bk = book_remove (od_order_ref m) ds bk"
| "book_apply (OrderReplace m) ds bk =
     book_replace (ou_original_order_ref m) (ou_new_order_ref m) (ou_shares m) (ou_price m) ds bk"

section \<open>Audit\<close>

text \<open>The walk of one queue in \<open>check_fifos\<close>: index, \<open>prev\<close>, the sum, \<open>walked\<close> and the flag.\<close>

partial_function (option) check_walk ::
  "order arena \<Rightarrow> byte \<Rightarrow> int \<Rightarrow> nat \<Rightarrow> nat \<Rightarrow> int \<Rightarrow> nat \<Rightarrow> bool \<Rightarrow> (nat \<times> int \<times> nat \<times> bool) option" where
  "check_walk ar sc tick n prev qsum walked ok =
     (if n \<noteq> kNullIndex then
        Option.bind (arena_at_index ar n) (\<lambda>ord.
          let ok1 = (ok \<and> o_side ord = sc \<and> o_price ord = tick \<and> o_qty ord > 0 \<and> o_prev ord = prev)
          in check_walk ar sc tick (o_next ord) n (qsum + o_qty ord) (walked + 1)
               (ok1 \<and> walked + 1 \<le> ar_capacity ar))
      else Some (prev, qsum, walked, ok))"

definition check_level :: "order arena \<Rightarrow> byte \<Rightarrow> int \<Rightarrow> level \<Rightarrow> bool \<Rightarrow> bool option" where
  "check_level ar sc tick lv ok = do {
     (prev, qsum, walked, ok) \<leftarrow> check_walk ar sc tick (lv_head lv) kNullIndex 0 0 ok;
     Some (ok \<and> prev = lv_tail lv \<and> walked = lv_count lv \<and> qsum = lv_qty lv \<and> lv_qty lv > 0)
   }"

definition check_fifos :: "book \<Rightarrow> side \<Rightarrow> bool option" where
  "check_fifos bk s =
     for_each_level (ladder_for s bk)
       (\<lambda>tick lv st. Option.bind st (check_level (bk_arena bk) (to_wire s) tick lv)) (Some True)"

definition brute_best :: "book \<Rightarrow> side \<Rightarrow> int" where
  "brute_best bk s =
     for_each_level (ladder_for s bk)
       (\<lambda>tick _ best. if s = Buy then (if best = kNoTick \<or> tick > best then tick else best)
                      else if best = kNoTick \<or> tick < best then tick else best) kNoTick"

text \<open>The loop over the table: the number of occupied entries, or \<open>None\<close> for the early return.\<close>

fun audit_table :: "order arena \<Rightarrow> gen_handle entry list \<Rightarrow> nat \<Rightarrow> nat option" where
  "audit_table ar [] used = Some used"
| "audit_table ar ((ref, h) # es) used =
     (if ref = 0 then audit_table ar es used
      else if \<not> arena_valid ar h \<or> map_option o_ref (arena_at ar h) \<noteq> Some ref then None
      else audit_table ar es (used + 1))"

definition book_audit :: "book \<Rightarrow> bool option" where
  "book_audit bk = do {
     bids \<leftarrow> check_fifos bk Buy;
     fifos \<leftarrow> (if \<not> bids then Some False else check_fifos bk Sell);
     if \<not> fifos then Some False
     else if bk_best_bid bk \<noteq> brute_best bk Buy \<or> bk_best_ask bk \<noteq> brute_best bk Sell then Some False
     else (case audit_table (bk_arena bk) (it_entries (bk_ids bk)) 0 of
             None \<Rightarrow> Some False
           | Some used \<Rightarrow> Some (used = ar_live (bk_arena bk)))
   }"

end
