(* ===== verification/BookQueue.thy ===== *)
theory BookQueue
  imports OrderBook
begin

text \<open>
  The intrusive queue of a level: a doubly linked list through the orders of the arena,
  represented by the list of its slot indices. Appending at the tail and unlinking anywhere are
  proved to be the corresponding list operations, to keep every order's data, and to leave
  orders outside the queue alone.
\<close>

type_synonym store = "nat \<rightharpoonup> u32 \<times> order"

section \<open>Linked lists in the store\<close>

text \<open>\<open>dll m p xs n\<close>: the nodes \<open>xs\<close> are linked in order, between \<open>p\<close> and \<open>n\<close>.\<close>

fun dll :: "store \<Rightarrow> nat \<Rightarrow> nat list \<Rightarrow> nat \<Rightarrow> bool" where
  "dll m p [] n \<longleftrightarrow> True"
| "dll m p (x # xs) n \<longleftrightarrow>
     (\<exists>g ord. m x = Some (g, ord) \<and> o_prev ord = p \<and> o_next ord = hd_or n xs) \<and> dll m x xs n"

lemma dll_append [simp]: "dll m p (xs @ ys) n \<longleftrightarrow> dll m p xs (hd_or n ys) \<and> dll m (last_or p xs) ys n"
  by (induction xs arbitrary: p) auto

lemma dll_live: "dll m p xs n \<Longrightarrow> x \<in> set xs \<Longrightarrow> \<exists>g ord. m x = Some (g, ord)"
  by (induction xs arbitrary: p) auto

lemma dll_cong: "(\<And>x. x \<in> set xs \<Longrightarrow> m x = m' x) \<Longrightarrow> dll m p xs n = dll m' p xs n"
  by (induction xs arbitrary: p) auto

lemma dll_links_cong:
  assumes "\<And>x. x \<in> set xs \<Longrightarrow> map_option (\<lambda>(g, ord). (o_prev ord, o_next ord)) (m x) =
      map_option (\<lambda>(g, ord). (o_prev ord, o_next ord)) (m' x)"
  shows "dll m p xs n = dll m' p xs n"
  using assms
proof (induction xs arbitrary: p)
  case (Cons x xs)
  have "(\<exists>g ord. m x = Some (g, ord) \<and> o_prev ord = p \<and> o_next ord = hd_or n xs) \<longleftrightarrow>
      (\<exists>g ord. m' x = Some (g, ord) \<and> o_prev ord = p \<and> o_next ord = hd_or n xs)"
    using Cons.prems[of x] by (cases "m x"; cases "m' x") auto
  with Cons show ?case by simp
qed simp

definition fifo :: "store \<Rightarrow> level \<Rightarrow> nat list \<Rightarrow> bool" where
  "fifo m lv xs \<longleftrightarrow>
     lv_head lv = hd_or kNullIndex xs \<and> lv_tail lv = last_or kNullIndex xs \<and>
     lv_count lv = length xs \<and> distinct xs \<and> dll m kNullIndex xs kNullIndex"

text \<open>Two stores with the same orders up to their links.\<close>

definition odata :: "u32 \<times> order \<Rightarrow> u32 \<times> u64 \<times> int \<times> int \<times> byte" where
  "odata x = (fst x, o_ref (snd x), o_qty (snd x), o_price (snd x), o_side (snd x))"

definition same_data :: "store \<Rightarrow> store \<Rightarrow> bool" where
  "same_data m m' \<longleftrightarrow> (\<forall>i. map_option odata (m' i) = map_option odata (m i))"

lemma same_data_refl [simp]: "same_data m m"
  by (simp add: same_data_def)

lemma same_data_trans: "same_data a b \<Longrightarrow> same_data b c \<Longrightarrow> same_data a c"
  by (simp add: same_data_def)

lemma same_data_upd:
  "m i = Some (g, ord) \<Longrightarrow> odata (g, ord') = odata (g, ord) \<Longrightarrow> same_data m (m(i \<mapsto> (g, ord')))"
  by (simp add: same_data_def)

lemma same_data_Some:
  assumes "same_data m m'" and "m i = Some (g, ord)"
  shows "\<exists>ord'. m' i = Some (g, ord') \<and> o_ref ord' = o_ref ord \<and> o_qty ord' = o_qty ord \<and>
     o_price ord' = o_price ord \<and> o_side ord' = o_side ord"
proof -
  have "map_option odata (m' i) = Some (odata (g, ord))" using assms by (simp add: same_data_def)
  then obtain x where "m' i = Some x" "odata x = odata (g, ord)" by auto
  then show ?thesis by (cases x) (simp add: odata_def)
qed

lemma same_data_dom: "same_data m m' \<Longrightarrow> dom m' = dom m"
  unfolding same_data_def dom_def by (metis map_option_is_None)

lemma same_data_sym: "same_data m m' \<Longrightarrow> same_data m' m"
  by (simp add: same_data_def)

section \<open>Append and unlink\<close>

lemma link_next:
  assumes "arena_inv ar" and "i \<noteq> kNullIndex \<Longrightarrow> \<exists>g ord. arena_map ar i = Some (g, ord)"
    and "i = kNullIndex \<Longrightarrow> arena_map ar i = None"
  shows "\<exists>ar' lv'. (if i \<noteq> kNullIndex then do {
                    t \<leftarrow> arena_at_index ar i;
                    ar \<leftarrow> arena_put i (t\<lparr> o_next := x \<rparr>) ar;
                    Some (lv, ar)
                  } else Some (lv\<lparr> lv_head := x \<rparr>, ar)) = Some (lv', ar') \<and>
     arena_inv ar' \<and> ar_capacity ar' = ar_capacity ar \<and> ar_live ar' = ar_live ar \<and>
     arena_map ar' = (\<lambda>j. if j = i then map_option (\<lambda>(g, ord). (g, ord\<lparr> o_next := x \<rparr>)) (arena_map ar i)
                          else arena_map ar j) \<and>
     lv' = (if i \<noteq> kNullIndex then lv else lv\<lparr> lv_head := x \<rparr>)"
proof (cases "i = kNullIndex")
  case False
  then obtain g ord where o: "arena_map ar i = Some (g, ord)" using assms(2) by blast
  from arena_put_correct[OF assms(1) o, of "ord\<lparr> o_next := x \<rparr>"] arena_map_access(1)[OF assms(1) o]
  show ?thesis using False o by (auto simp: fun_eq_iff)
qed (use assms in \<open>auto simp: fun_eq_iff\<close>)

lemma link_prev:
  assumes "arena_inv ar" and "i \<noteq> kNullIndex \<Longrightarrow> \<exists>g ord. arena_map ar i = Some (g, ord)"
    and "i = kNullIndex \<Longrightarrow> arena_map ar i = None"
  shows "\<exists>ar' lv'. (if i \<noteq> kNullIndex then do {
                    t \<leftarrow> arena_at_index ar i;
                    ar \<leftarrow> arena_put i (t\<lparr> o_prev := x \<rparr>) ar;
                    Some (lv, ar)
                  } else Some (lv\<lparr> lv_tail := x \<rparr>, ar)) = Some (lv', ar') \<and>
     arena_inv ar' \<and> ar_capacity ar' = ar_capacity ar \<and> ar_live ar' = ar_live ar \<and>
     arena_map ar' = (\<lambda>j. if j = i then map_option (\<lambda>(g, ord). (g, ord\<lparr> o_prev := x \<rparr>)) (arena_map ar i)
                          else arena_map ar j) \<and>
     lv' = (if i \<noteq> kNullIndex then lv else lv\<lparr> lv_tail := x \<rparr>)"
proof (cases "i = kNullIndex")
  case False
  then obtain g ord where o: "arena_map ar i = Some (g, ord)" using assms(2) by blast
  from arena_put_correct[OF assms(1) o, of "ord\<lparr> o_prev := x \<rparr>"] arena_map_access(1)[OF assms(1) o]
  show ?thesis using False o by (auto simp: fun_eq_iff)
qed (use assms in \<open>auto simp: fun_eq_iff\<close>)

lemma arena_null_unmapped [simp]: "arena_inv ar \<Longrightarrow> arena_map ar kNullIndex = None"
  using arena_inv_index(2)[of ar kNullIndex] by (cases "arena_map ar kNullIndex") auto

lemma push_tail_correct:
  assumes inv: "arena_inv ar" and f: "fifo (arena_map ar) lv xs"
    and i: "arena_map ar i = Some (g, ord)" "i \<notin> set xs"
  shows "\<exists>lv' ar'. push_tail lv i ar = Some (lv', ar') \<and> arena_inv ar' \<and>
     ar_capacity ar' = ar_capacity ar \<and> ar_live ar' = ar_live ar \<and>
     fifo (arena_map ar') lv' (xs @ [i]) \<and> lv_qty lv' = lv_qty lv \<and>
     same_data (arena_map ar) (arena_map ar') \<and>
     (\<forall>j. j \<notin> insert i (set xs) \<longrightarrow> arena_map ar' j = arena_map ar j)"
proof -
  let ?t = "last_or kNullIndex xs"
  have t: "lv_tail lv = ?t" using f by (simp add: fifo_def)
  have ti: "?t \<noteq> i" using i last_or_in[of xs kNullIndex] arena_null_unmapped[OF inv] by (cases "xs = []") auto
  from arena_put_correct[OF inv i(1), of "ord\<lparr> o_prev := ?t, o_next := kNullIndex \<rparr>"]
  obtain ar1 where a1: "arena_put i (ord\<lparr> o_prev := ?t, o_next := kNullIndex \<rparr>) ar = Some ar1"
    "arena_inv ar1" "arena_map ar1 = (arena_map ar)(i \<mapsto> (g, ord\<lparr> o_prev := ?t, o_next := kNullIndex \<rparr>))"
    "ar_capacity ar1 = ar_capacity ar" "ar_live ar1 = ar_live ar" by blast
  have tl: "\<exists>g ord. arena_map ar1 ?t = Some (g, ord)" if "?t \<noteq> kNullIndex"
  proof -
    have "?t \<in> set xs" using that last_or_in[of xs] by (cases "xs = []") auto
    then show ?thesis using f a1(3) ti by (auto simp: fifo_def dest: dll_live)
  qed
  from link_next[OF a1(2) tl, of i lv] obtain ar2 where a2:
    "(if ?t \<noteq> kNullIndex then do { t \<leftarrow> arena_at_index ar1 ?t;
        ar \<leftarrow> arena_put ?t (t\<lparr> o_next := i \<rparr>) ar1; Some (lv, ar) }
      else Some (lv\<lparr> lv_head := i \<rparr>, ar1)) =
       Some (if ?t \<noteq> kNullIndex then lv else lv\<lparr> lv_head := i \<rparr>, ar2)"
    "arena_inv ar2" "ar_capacity ar2 = ar_capacity ar1" "ar_live ar2 = ar_live ar1"
    "arena_map ar2 = (\<lambda>j. if j = ?t then map_option (\<lambda>(g, ord). (g, ord\<lparr> o_next := i \<rparr>)) (arena_map ar1 ?t)
                          else arena_map ar1 j)"
    using arena_null_unmapped[OF a1(2)] by auto
  let ?lv0 = "if ?t \<noteq> kNullIndex then lv else lv\<lparr> lv_head := i \<rparr>"
  let ?lv = "?lv0\<lparr> lv_tail := i, lv_count := lv_count ?lv0 + 1 \<rparr>"
  have res: "push_tail lv i ar = Some (?lv, ar2)"
    by (simp only: push_tail_def t arena_map_access(1)[OF inv i(1)] a1(1) a2(1) Option.bind.simps prod.case)
  have outside: "\<forall>j. j \<notin> insert i (set xs) \<longrightarrow> arena_map ar2 j = arena_map ar j"
  proof (intro allI impI)
    fix j assume "j \<notin> insert i (set xs)"
    then show "arena_map ar2 j = arena_map ar j"
      using last_or_in[of xs kNullIndex] arena_null_unmapped[OF inv]
      by (cases "xs = []") (auto simp: a2(5) a1(3))
  qed
  have same: "same_data (arena_map ar) (arena_map ar2)"
    using i(1) by (auto simp: same_data_def a2(5) a1(3) odata_def option.map_comp comp_def split_beta
        intro!: option.map_cong)
  have "fifo (arena_map ar2) ?lv (xs @ [i])"
  proof (cases xs rule: rev_cases)
    case Nil
    then show ?thesis using f i a2(5) a1(3) ti arena_null_unmapped[OF inv] by (auto simp: fifo_def)
  next
    case (snoc ys z)
    then have tz: "?t = z" by simp
    have dis: "distinct ys" "z \<notin> set ys" "i \<notin> set ys" "i \<noteq> z" using f i(2) snoc by (auto simp: fifo_def)
    have d: "dll (arena_map ar) kNullIndex ys z" "dll (arena_map ar) (last_or kNullIndex ys) [z] kNullIndex"
      using f snoc by (auto simp: fifo_def)
    have "arena_map ar x = arena_map ar2 x" if "x \<in> set ys" for x
      using that dis by (auto simp: a2(5) a1(3) tz)
    then have "dll (arena_map ar2) kNullIndex ys z" using d(1) dll_cong by blast
    moreover have "z \<noteq> kNullIndex" using d(2) arena_null_unmapped[OF inv] by auto
    ultimately show ?thesis using f d(2) dis i snoc by (auto simp: fifo_def a2(5) a1(3))
  qed
  then show ?thesis using res a2 a1 outside same by auto
qed

lemma unlink_correct:
  assumes inv: "arena_inv ar" and f: "fifo (arena_map ar) lv (ys @ i # zs)"
  shows "\<exists>lv' ar'. unlink lv i ar = Some (lv', ar') \<and> arena_inv ar' \<and>
     ar_capacity ar' = ar_capacity ar \<and> ar_live ar' = ar_live ar \<and>
     fifo (arena_map ar') lv' (ys @ zs) \<and> lv_qty lv' = lv_qty lv \<and>
     same_data (arena_map ar) (arena_map ar') \<and>
     (\<forall>j. j \<notin> set (ys @ zs) \<longrightarrow> arena_map ar' j = arena_map ar j)"
proof -
  let ?m = "arena_map ar" and ?p = "last_or kNullIndex ys" and ?n = "hd_or kNullIndex zs"
  have dis: "distinct ys" "distinct zs" "i \<notin> set ys" "i \<notin> set zs" "set ys \<inter> set zs = {}"
    and d: "dll ?m kNullIndex ys i" "dll ?m i zs kNullIndex"
    using f by (auto simp: fifo_def)
  from f obtain g ord where o: "?m i = Some (g, ord)" "o_prev ord = ?p" "o_next ord = ?n"
    by (auto simp: fifo_def)
  have pin: "?p \<noteq> kNullIndex \<Longrightarrow> ys \<noteq> [] \<and> ?p \<in> set ys" using last_or_in[of ys] by (cases "ys = []") auto
  have nin: "?n \<noteq> kNullIndex \<Longrightarrow> zs \<noteq> [] \<and> ?n \<in> set zs" using hd_or_in[of zs] by (cases "zs = []") auto
  have ysn: "ys \<noteq> [] \<Longrightarrow> ?p \<noteq> kNullIndex"
    using dll_live[OF d(1) last_or_in[of ys kNullIndex]] arena_null_unmapped[OF inv] by auto
  have zsn: "zs \<noteq> [] \<Longrightarrow> ?n \<noteq> kNullIndex"
    using dll_live[OF d(2) hd_or_in[of zs kNullIndex]] arena_null_unmapped[OF inv] by auto
  have pl: "\<exists>g ord. ?m ?p = Some (g, ord)" if "?p \<noteq> kNullIndex" using pin[OF that] dll_live[OF d(1)] by blast
  from link_next[OF inv pl, of ?n lv] obtain ar1 where a1:
    "(if ?p \<noteq> kNullIndex then do { t \<leftarrow> arena_at_index ar ?p;
        ar \<leftarrow> arena_put ?p (t\<lparr> o_next := ?n \<rparr>) ar; Some (lv, ar) }
      else Some (lv\<lparr> lv_head := ?n \<rparr>, ar)) =
       Some (if ?p \<noteq> kNullIndex then lv else lv\<lparr> lv_head := ?n \<rparr>, ar1)"
    "arena_inv ar1" "ar_capacity ar1 = ar_capacity ar" "ar_live ar1 = ar_live ar"
    "arena_map ar1 = (\<lambda>j. if j = ?p then map_option (\<lambda>(g, ord). (g, ord\<lparr> o_next := ?n \<rparr>)) (?m ?p) else ?m j)"
    using arena_null_unmapped[OF inv] by auto
  let ?lv1 = "if ?p \<noteq> kNullIndex then lv else lv\<lparr> lv_head := ?n \<rparr>"
  have pn: "?p \<noteq> ?n" if "?n \<noteq> kNullIndex" using pin nin[OF that] dis(5) that
    by (cases "?p = kNullIndex") auto
  have nl: "\<exists>g ord. arena_map ar1 ?n = Some (g, ord)" if "?n \<noteq> kNullIndex"
    using nin[OF that] dll_live[OF d(2)] pn[OF that] by (auto simp: a1(5))
  from link_prev[OF a1(2) nl, of ?p ?lv1] obtain ar2 where a2:
    "(if ?n \<noteq> kNullIndex then do { t \<leftarrow> arena_at_index ar1 ?n;
        ar \<leftarrow> arena_put ?n (t\<lparr> o_prev := ?p \<rparr>) ar1; Some (?lv1, ar) }
      else Some (?lv1\<lparr> lv_tail := ?p \<rparr>, ar1)) =
       Some (if ?n \<noteq> kNullIndex then ?lv1 else ?lv1\<lparr> lv_tail := ?p \<rparr>, ar2)"
    "arena_inv ar2" "ar_capacity ar2 = ar_capacity ar1" "ar_live ar2 = ar_live ar1"
    "arena_map ar2 = (\<lambda>j. if j = ?n then map_option (\<lambda>(g, ord). (g, ord\<lparr> o_prev := ?p \<rparr>)) (arena_map ar1 ?n)
        else arena_map ar1 j)"
    using arena_null_unmapped[OF a1(2)] by auto
  let ?lv2 = "if ?n \<noteq> kNullIndex then ?lv1 else ?lv1\<lparr> lv_tail := ?p \<rparr>"
  let ?lv = "?lv2\<lparr> lv_count := lv_count ?lv2 - 1 \<rparr>"
  have res: "unlink lv i ar = Some (?lv, ar2)"
    by (simp only: unlink_def arena_map_access(1)[OF inv o(1)] o(2,3) a1(1) a2(1) Option.bind.simps prod.case)
  have m2: "arena_map ar2 j = ?m j" if "j \<noteq> ?p" "j \<noteq> ?n" for j
    using that by (simp add: a2(5) a1(5))
  have outside: "arena_map ar2 j = ?m j" if "j \<notin> set (ys @ zs)" for j
  proof (cases "j = kNullIndex")
    case True
    then show ?thesis using arena_null_unmapped[OF inv] arena_null_unmapped[OF a2(2)] by simp
  next
    case False
    then show ?thesis using that pin nin by (intro m2) auto
  qed
  have same: "same_data ?m (arena_map ar2)"
    by (auto simp: same_data_def a2(5) a1(5) odata_def option.map_comp comp_def split_beta
        intro!: option.map_cong)
  have dy: "dll (arena_map ar2) kNullIndex ys ?n"
  proof (cases ys rule: rev_cases)
    case (snoc us u)
    then have pu: "?p = u" by simp
    have "u \<noteq> ?n" using pn ysn snoc pu by (cases "?n = kNullIndex") auto
    have "\<And>x. x \<in> set us \<Longrightarrow> ?m x = arena_map ar2 x"
    proof -
      fix x assume x: "x \<in> set us"
      then have "x \<noteq> kNullIndex" using dll_live[OF d(1), of x] arena_null_unmapped[OF inv] snoc by auto
      then have "x \<noteq> ?p" "x \<noteq> ?n" using dis snoc nin x by (auto simp: pu)
      then show "?m x = arena_map ar2 x" using m2 by simp
    qed
    then have "dll (arena_map ar2) kNullIndex us u"
      using d(1) dll_cong[of us ?m "arena_map ar2"] snoc by auto
    moreover have "\<exists>g ord. arena_map ar2 u = Some (g, ord) \<and> o_prev ord = last_or kNullIndex us \<and> o_next ord = ?n"
      using d(1) snoc \<open>u \<noteq> ?n\<close> by (auto simp: a2(5) a1(5) pu)
    ultimately show ?thesis by (simp add: snoc)
  qed simp
  have dz: "dll (arena_map ar2) ?p zs kNullIndex"
  proof (cases zs)
    case (Cons w ws)
    then have nw: "?n = w" by simp
    have "w \<noteq> ?p" using pn zsn Cons by auto
    have "\<And>x. x \<in> set ws \<Longrightarrow> ?m x = arena_map ar2 x"
    proof -
      fix x assume x: "x \<in> set ws"
      then have "x \<noteq> kNullIndex" using dll_live[OF d(2), of x] arena_null_unmapped[OF inv] Cons by auto
      then have "x \<noteq> ?p" "x \<noteq> ?n" using dis Cons pin x by auto
      then show "?m x = arena_map ar2 x" using m2 by simp
    qed
    then have "dll (arena_map ar2) w ws kNullIndex"
      using d(2) dll_cong[of ws ?m "arena_map ar2"] Cons by auto
    moreover have "\<exists>g ord. arena_map ar2 w = Some (g, ord) \<and> o_prev ord = ?p \<and> o_next ord = hd_or kNullIndex ws"
      using d(2) Cons \<open>w \<noteq> ?p\<close> by (auto simp: a2(5) a1(5) nw)
    ultimately show ?thesis by (simp add: Cons)
  qed simp
  have "fifo (arena_map ar2) ?lv (ys @ zs)"
  proof -
    have "lv_head ?lv = hd_or ?n ys"
      using f ysn by (cases "ys = []") (auto simp: fifo_def hd_or_def)
    moreover have "lv_tail ?lv = last_or ?p zs"
      using f zsn by (cases "zs = []") (auto simp: fifo_def last_or_def)
    ultimately show ?thesis using f dy dz dis by (auto simp: fifo_def)
  qed
  then show ?thesis using res a1 a2 outside same by auto
qed

end
