(* ===== verification/LadderScan.thy ===== *)
theory LadderScan
  imports Ladder
begin

text \<open>
  The scans of one page: the mask words and the summary word of a page that satisfies its
  invariant find the same offset as a linear search of its levels, upwards and downwards, and
  marking, unmarking and adding keep the page invariant.
\<close>

section \<open>Masks\<close>

lemma word_size_64: "LENGTH(64) = 64" by simp

lemma low_mask: "(push_bit n 1 - 1 :: u64) = mask n"
  by (simp add: mask_eq_exp_minus_1 push_bit_eq_mult)

lemma bit_low_mask: "bit (push_bit n 1 - 1 :: u64) b \<longleftrightarrow> b < 64 \<and> b < n"
  unfolding low_mask by (simp add: bit_mask_iff)

lemma bit_high_mask: "bit (NOT (push_bit n 1 - 1) :: u64) b \<longleftrightarrow> b < 64 \<and> n \<le> b"
  unfolding bit_not_iff bit_low_mask by auto

lemma bit_single: "bit (push_bit n 1 :: u64) b \<longleftrightarrow> b < 64 \<and> b = n"
  unfolding bit_push_bit_iff bit_1_iff by auto

lemma bit_top_mask:
  assumes "n < 64"
  shows "bit (if n = 63 then NOT 0 else push_bit (n + 1) 1 - 1 :: u64) b \<longleftrightarrow> b < 64 \<and> b \<le> n"
proof (cases "n = 63")
  case True
  then show ?thesis by (auto simp: bit_not_iff)
next
  case False
  then show ?thesis unfolding if_not_P[OF False] bit_low_mask by auto
qed

lemma word_nz_bit: "(w :: u64) \<noteq> 0 \<Longrightarrow> \<exists>b<64. bit w b"
  by (rule ccontr) (auto intro!: bit_word_eqI)

lemma div_64_eq: "64 * w \<le> k \<Longrightarrow> k < 64 * w + 64 \<Longrightarrow> k div 64 = (w::nat)"
  by (rule div_nat_eqI) auto

lemma word_less: "w < q \<Longrightarrow> c < 64 \<Longrightarrow> 64 * w + c < 64 * (q::nat)"
  by simp

lemma div_64_le: "k < 64 * w + 64 \<Longrightarrow> k div 64 \<le> (w::nat)"
  using less_mult_imp_div_less[of k "w + 1" 64] by simp

lemma page_bit:
  assumes "page_inv s p" and "off < page_ticks s"
  shows "bit (pg_mask p ! (off div 64)) (off mod 64) \<longleftrightarrow> page_nz p off"
proof -
  have "off div 64 < mask_words s" using assms(2) by (simp add: mask_words_def)
  then show ?thesis using assms by (auto simp: page_inv_def)
qed

lemma shift_6: "drop_bit 6 (off::nat) = off div 64" "push_bit 6 (w::nat) = 64 * w"
  by (simp_all add: drop_bit_eq_div push_bit_eq_mult)

text \<open>What a mask word and the summary say about offsets.\<close>

lemma page_word_bit:
  assumes "page_inv s p" and "w < mask_words s"
  shows "bit (pg_mask p ! w) b \<longleftrightarrow> b < 64 \<and> 64 * w + b < page_ticks s \<and> page_nz p (64 * w + b)"
  using assms by (simp add: page_inv_def)

lemma page_word_zero:
  assumes "page_inv s p" and "off < page_ticks s" and "pg_mask p ! (off div 64) = 0"
  shows "\<not> page_nz p off"
  using page_bit[OF assms(1,2)] assms(3) by simp

lemma page_summary_bit:
  assumes "page_inv s p"
  shows "bit (pg_summary p) w \<longleftrightarrow> w < mask_words s \<and> pg_mask p ! w \<noteq> 0"
  using assms by (simp add: page_inv_def)

section \<open>The scans are linear searches\<close>

lemma page_first_above_find:
  assumes inv: "page_inv s p" and o: "start_o < page_ticks s"
  shows "page_first_above s p start_o = find (page_nz p) [start_o..<page_ticks s]"
proof -
  let ?w = "start_o div 64" and ?b = "start_o mod 64"
  let ?m = "pg_mask p ! ?w AND NOT (push_bit ?b 1 - 1)"
  let ?sum = "pg_summary p AND NOT (push_bit (?w + 1) 1 - 1)"
  have wl: "?w < mask_words s" using o by (simp add: mask_words_def)
  have mb: "bit ?m b \<longleftrightarrow> b < 64 \<and> ?b \<le> b \<and> 64 * ?w + b < page_ticks s \<and> page_nz p (64 * ?w + b)" for b
    unfolding bit_and_iff bit_high_mask page_word_bit[OF inv wl] by auto
  have sb: "bit ?sum w \<longleftrightarrow> w < 64 \<and> ?w < w \<and> w < mask_words s \<and> pg_mask p ! w \<noteq> 0" for w
    unfolding bit_and_iff bit_high_mask page_summary_bit[OF inv] by auto
  have split: "off = 64 * (off div 64) + off mod 64" for off :: nat by simp
  show ?thesis
  proof (cases "?m = 0")
    case False
    define c where "c = countr_zero ?m"
    from countr_zero_spec[OF False] have c: "bit ?m c" "\<And>k. k < c \<Longrightarrow> \<not> bit ?m k"
      by (auto simp: c_def)
    have "page_first_above s p start_o = Some (64 * ?w + c)"
      using False by (simp only: page_first_above_def Let_def shift_6 and_63_nat c_def if_True not_False_eq_True)
    moreover have "find (page_nz p) [start_o..<page_ticks s] = Some (64 * ?w + c)"
      unfolding find_upt_Some
    proof (intro conjI allI impI)
      have "?b \<le> c" using c(1) mb[of c] by blast
      then show "start_o \<le> 64 * ?w + c" using split[of start_o] by linarith
      fix k assume k: "start_o \<le> k \<and> k < 64 * ?w + c"
      have "c < 64" using c(1) mb[of c] by blast
      then have "k div 64 = ?w" using k split[of start_o] by (intro div_64_eq) linarith+
      then have k1: "k = 64 * ?w + k mod 64" using split[of k] by simp
      then have k': "k = 64 * ?w + k mod 64" "?b \<le> k mod 64" "k mod 64 < c"
        using k split[of start_o] by linarith+
      then show "\<not> page_nz p k"
        using c(2)[of "k mod 64"] mb[of "k mod 64"] c(1) mb[of c] by auto
    qed (use c(1) mb[of c] in auto)
    ultimately show ?thesis by simp
  next
    case m0: True
    have none: "\<not> page_nz p k" if "start_o \<le> k" "k < page_ticks s" "k div 64 = ?w" for k
    proof -
      have "\<not> bit ?m (k mod 64)" using m0 by simp
      moreover have "bit ?m (k mod 64) \<longleftrightarrow> page_nz p k \<and> ?b \<le> k mod 64"
        unfolding bit_and_iff bit_high_mask that(3)[symmetric] page_bit[OF inv that(2)] by simp
      moreover have "k = 64 * ?w + k mod 64" using that(3) split[of k] by simp
      then have "?b \<le> k mod 64" using that(1) split[of start_o] by linarith
      ultimately show ?thesis by blast
    qed
    show ?thesis
    proof (cases "?w + 1 < mask_words s \<and> ?sum \<noteq> 0")
      case True
      define w where "w = countr_zero ?sum"
      from countr_zero_spec[of ?sum] True have w: "bit ?sum w" "\<And>k. k < w \<Longrightarrow> \<not> bit ?sum k"
        by (auto simp: w_def)
      then have ww: "?w < w" "w < mask_words s" "w < 64" and wz: "pg_mask p ! w \<noteq> 0"
        using sb by blast+
      define c where "c = countr_zero (pg_mask p ! w)"
      from countr_zero_spec[OF wz] have c: "bit (pg_mask p ! w) c" "\<And>k. k < c \<Longrightarrow> \<not> bit (pg_mask p ! w) k"
        by (auto simp: c_def)
      note wb = page_word_bit[OF inv ww(2)]
      have "page_first_above s p start_o = Some (64 * w + c)"
        using m0 True
        by (simp only: page_first_above_def Let_def shift_6 and_63_nat c_def w_def if_True if_False
            not_False_eq_True not_True_eq_False simp_thms)
      moreover have "find (page_nz p) [start_o..<page_ticks s] = Some (64 * w + c)"
        unfolding find_upt_Some
      proof (intro conjI allI impI)
        show "start_o \<le> 64 * w + c"
          using word_less[OF ww(1), of "start_o mod 64"] split[of start_o] by simp
        fix k assume k: "start_o \<le> k \<and> k < 64 * w + c"
        have cl: "c < 64" "64 * w + c < page_ticks s" using c(1) wb by blast+
        then have kp: "k < page_ticks s" using k by linarith
        have "k div 64 \<le> w" using k cl(1) by (intro div_64_le) linarith
        consider "k div 64 = ?w" | "?w < k div 64" "k div 64 < w" | "k div 64 = w" "k div 64 \<noteq> ?w"
          using \<open>k div 64 \<le> w\<close> k by (metis div_le_mono le_neq_implies_less)
        then show "\<not> page_nz p k"
        proof cases
          case 1
          then show ?thesis using none k kp by blast
        next
          case 2
          then have "\<not> bit ?sum (k div 64)" "k div 64 < 64" "k div 64 < mask_words s"
            using w(2) ww by auto
          then have "pg_mask p ! (k div 64) = 0" using sb[of "k div 64"] 2 by blast
          then show ?thesis using page_word_zero[OF inv kp] by blast
        next
          case 3
          then have "k mod 64 < c" "k = 64 * w + k mod 64" using k split[of k] by auto
          then show ?thesis using c(2)[of "k mod 64"] wb[of "k mod 64"] kp by auto
        qed
      qed (use c(1) wb[of c] in auto)
      ultimately show ?thesis by simp
    next
      case no: False
      have "page_first_above s p start_o = None"
        using m0 no by (simp only: page_first_above_def Let_def shift_6 and_63_nat) auto
      moreover have "find (page_nz p) [start_o..<page_ticks s] = None"
        unfolding find_None_iff
      proof (intro notI, elim exE conjE)
        fix k assume "k \<in> set [start_o..<page_ticks s]" "page_nz p k"
        then have k: "start_o \<le> k" "k < page_ticks s" "page_nz p k" by auto
        then have kw: "k div 64 \<noteq> ?w" using none by blast
        have kl: "k div 64 < mask_words s" using k by (simp add: mask_words_def)
        have kz: "pg_mask p ! (k div 64) \<noteq> 0" using page_word_zero[OF inv k(2)] k(3) by blast
        have "?w < k div 64" using kw k(1) by (metis div_le_mono le_neq_implies_less)
        moreover have "k div 64 < 64"
          using page_summary_bit[OF inv, of "k div 64"] kl kz by (metis bit_imp_le_length word_size_64)
        ultimately have "bit ?sum (k div 64)" using sb kl kz by blast
        then show False using no \<open>?w < k div 64\<close> kl by auto
      qed
      ultimately show ?thesis by simp
    qed
  qed
qed

lemma page_first_below_find:
  assumes inv: "page_inv s p" and o: "start_o < page_ticks s"
  shows "page_first_below p start_o = find (page_nz p) (rev [0..<Suc start_o])"
proof -
  let ?w = "start_o div 64" and ?b = "start_o mod 64"
  let ?top = "if ?b = 63 then NOT 0 else push_bit (?b + 1) 1 - 1 :: u64"
  let ?m = "pg_mask p ! ?w AND ?top"
  let ?sum = "pg_summary p AND (push_bit ?w 1 - 1)"
  have wl: "?w < mask_words s" using o by (simp add: mask_words_def)
  have mb: "bit ?m b \<longleftrightarrow> b < 64 \<and> b \<le> ?b \<and> 64 * ?w + b < page_ticks s \<and> page_nz p (64 * ?w + b)" for b
    unfolding bit_and_iff bit_top_mask[OF mod_less_divisor[OF zero_less_numeral]]
      page_word_bit[OF inv wl] by auto
  have sb: "bit ?sum w \<longleftrightarrow> w < 64 \<and> w < ?w \<and> w < mask_words s \<and> pg_mask p ! w \<noteq> 0" for w
    unfolding bit_and_iff bit_low_mask page_summary_bit[OF inv] by auto
  have split: "off = 64 * (off div 64) + off mod 64" for off :: nat by simp
  show ?thesis
  proof (cases "?m = 0")
    case False
    define c where "c = 63 - countl_zero ?m"
    from countl_zero_spec[OF False] have c: "bit ?m c" "\<And>k. c < k \<Longrightarrow> \<not> bit ?m k"
      by (auto simp: c_def)
    have cb: "c \<le> ?b" "c < 64" "page_nz p (64 * ?w + c)" using c(1) mb[of c] by blast+
    have "page_first_below p start_o = Some (64 * ?w + c)"
      using False by (simp only: page_first_below_def Let_def shift_6 and_63_nat c_def if_True not_False_eq_True)
    moreover have "find (page_nz p) (rev [0..<Suc start_o]) = Some (64 * ?w + c)"
      unfolding find_rev_upt_Some
    proof (intro conjI allI impI)
      show "64 * ?w + c < Suc start_o" using cb(1) split[of start_o] by linarith
      fix k assume k: "64 * ?w + c < k \<and> k < Suc start_o"
      have kw: "k div 64 = ?w" using k split[of start_o] mod_less_divisor[of 64 start_o]
        by (intro div_64_eq) linarith+
      then have k': "k = 64 * ?w + k mod 64" using split[of k] by simp
      then have "k mod 64 \<le> ?b" "c < k mod 64" using k split[of start_o] by linarith+
      then show "\<not> page_nz p k"
        using c(2)[of "k mod 64"] mb[of "k mod 64"] k' k o by auto
    qed (use cb in auto)
    ultimately show ?thesis by simp
  next
    case m0: True
    have none: "\<not> page_nz p k" if "k \<le> start_o" "k div 64 = ?w" for k
    proof -
      have "\<not> bit ?m (k mod 64)" using m0 by simp
      moreover have kp: "k < page_ticks s" using that(1) o by simp
      have "bit ?m (k mod 64) \<longleftrightarrow> page_nz p k \<and> k mod 64 \<le> ?b"
        unfolding bit_and_iff bit_top_mask[OF mod_less_divisor[OF zero_less_numeral]]
          that(2)[symmetric] page_bit[OF inv kp] by simp
      moreover have "k = 64 * ?w + k mod 64" using that(2) split[of k] by simp
      then have "k mod 64 \<le> ?b" using that(1) split[of start_o] by linarith
      ultimately show ?thesis by blast
    qed
    show ?thesis
    proof (cases "?w > 0 \<and> ?sum \<noteq> 0")
      case True
      define w where "w = 63 - countl_zero ?sum"
      from countl_zero_spec[of ?sum] True have w: "bit ?sum w" "\<And>k. w < k \<Longrightarrow> \<not> bit ?sum k"
        by (auto simp: w_def)
      then have ww: "w < ?w" "w < mask_words s" "w < 64" and wz: "pg_mask p ! w \<noteq> 0"
        using sb by blast+
      define c where "c = 63 - countl_zero (pg_mask p ! w)"
      from countl_zero_spec[OF wz] have c: "bit (pg_mask p ! w) c" "\<And>k. c < k \<Longrightarrow> \<not> bit (pg_mask p ! w) k"
        by (auto simp: c_def)
      note wb = page_word_bit[OF inv ww(2)]
      have cl: "c < 64" "page_nz p (64 * w + c)" using c(1) wb by blast+
      have "page_first_below p start_o = Some (64 * w + c)"
        using m0 True
        by (simp only: page_first_below_def Let_def shift_6 and_63_nat c_def w_def if_True if_False
            not_False_eq_True not_True_eq_False simp_thms)
      moreover have "find (page_nz p) (rev [0..<Suc start_o]) = Some (64 * w + c)"
        unfolding find_rev_upt_Some
      proof (intro conjI allI impI)
        have "64 * w + c < 64 * ?w" using word_less[OF ww(1) cl(1)] .
        also have "\<dots> \<le> start_o" by simp
        finally show "64 * w + c < Suc start_o" by simp
        fix k assume k: "64 * w + c < k \<and> k < Suc start_o"
        then have kp: "k < page_ticks s" using o by linarith
        have "w \<le> k div 64" using k by linarith
        have "k div 64 \<le> ?w" using k by (simp add: div_le_mono)
        consider "k div 64 = ?w" | "w < k div 64" "k div 64 < ?w" | "k div 64 = w" "k div 64 \<noteq> ?w"
          using \<open>w \<le> k div 64\<close> \<open>k div 64 \<le> ?w\<close> by linarith
        then show "\<not> page_nz p k"
        proof cases
          case 1
          then show ?thesis using none k by auto
        next
          case 2
          then have "\<not> bit ?sum (k div 64)" using w(2) by blast
          moreover have kl: "k div 64 < mask_words s" using kp by (simp add: mask_words_def)
          moreover have "k div 64 < 64 \<or> pg_mask p ! (k div 64) = 0"
            using page_summary_bit[OF inv, of "k div 64"] kl by (metis bit_imp_le_length word_size_64)
          ultimately have "pg_mask p ! (k div 64) = 0" using sb[of "k div 64"] 2 by blast
          then show ?thesis using page_word_zero[OF inv kp] by blast
        next
          case 3
          then have k': "k = 64 * w + k mod 64" using split[of k] by simp
          then have "c < k mod 64" using k by linarith
          then show ?thesis using c(2)[of "k mod 64"] wb[of "k mod 64"] kp k' by auto
        qed
      qed (use cl in auto)
      ultimately show ?thesis by simp
    next
      case no: False
      have "page_first_below p start_o = None"
        using m0 no by (simp only: page_first_below_def Let_def shift_6 and_63_nat) auto
      moreover have "find (page_nz p) (rev [0..<Suc start_o]) = None"
        unfolding find_None_iff
      proof (intro notI, elim exE conjE)
        fix k assume "k \<in> set (rev [0..<Suc start_o])" "page_nz p k"
        then have k: "k \<le> start_o" "k < page_ticks s" "page_nz p k" using o by auto
        then have kw: "k div 64 \<noteq> ?w" using none by blast
        have kl: "k div 64 < mask_words s" using k by (simp add: mask_words_def)
        have kz: "pg_mask p ! (k div 64) \<noteq> 0" using page_word_zero[OF inv k(2)] k(3) by blast
        have lt: "k div 64 < ?w" using kw k(1) by (metis div_le_mono le_neq_implies_less)
        moreover have "k div 64 < 64"
          using page_summary_bit[OF inv, of "k div 64"] kl kz by (metis bit_imp_le_length word_size_64)
        ultimately have "bit ?sum (k div 64)" using sb kl kz by blast
        then show False using no lt by auto
      qed
      ultimately show ?thesis by simp
    qed
  qed
qed

text \<open>
  Changing the quantity of one level of a page keeps the page invariant: the mask bit, the
  summary bit and the occupancy count follow the quantity across zero.
\<close>

lemma mask_words_le:
  assumes "s \<le> 12"
  shows "mask_words s \<le> 64"
proof -
  have "(2::nat) ^ s \<le> 2 ^ 12" using assms by (intro power_increasing) auto
  then show ?thesis by (simp add: mask_words_def page_ticks_def)
qed

lemma offset_eq_iff: "b < 64 \<Longrightarrow> 64 * w + b = off \<longleftrightarrow> w = off div 64 \<and> b = off mod (64::nat)"
  by auto

lemma page_ticks_pos [simp]: "0 < page_ticks s"
  by (simp add: page_ticks_def)

lemma page_inv_marked:
  assumes inv: "page_inv s p" and off: "off < page_ticks s" and s: "s \<le> 12"
    and z: "\<not> page_nz p off"
    and lv: "lv_qty lv > 0" "lv_qty lv \<le> int64_max"
  shows "page_inv s (page_mark off (p\<lparr> pg_levels := (pg_levels p)[off := lv] \<rparr>))"
proof -
  let ?p = "page_mark off (p\<lparr> pg_levels := (pg_levels p)[off := lv] \<rparr>)"
  let ?w = "off div 64"
  have lenm: "length (pg_mask p) = mask_words s" and lenl: "length (pg_levels p) = page_ticks s"
    and occ: "pg_occupancy p = card {off. off < page_ticks s \<and> page_nz p off}"
    using inv by (auto simp: page_inv_def)
  have wl: "?w < mask_words s" using off by (simp add: mask_words_def)
  have w64: "?w < 64" using wl mask_words_le[OF s] by simp
  have nz: "page_nz ?p o' \<longleftrightarrow> o' = off \<or> page_nz p o'" for o'
    using lv off lenl by (auto simp: page_nz_def page_mark_def Let_def nth_list_update)
  have mask: "pg_mask ?p ! w = (if w = ?w then pg_mask p ! w OR push_bit (off mod 64) 1 else pg_mask p ! w)"
    if "w < mask_words s" for w
    using that lenm by (simp add: page_mark_def Let_def shift_6 and_63_nat nth_list_update)
  have bits: "bit (pg_mask ?p ! w) b \<longleftrightarrow> b < 64 \<and> 64 * w + b < page_ticks s \<and> page_nz ?p (64 * w + b)"
    if "w < mask_words s" for w b
    unfolding mask[OF that] nz if_distrib[of "\<lambda>x. bit x b"] bit_or_iff bit_single
      page_word_bit[OF inv that] using offset_eq_iff[of b w off] off by auto
  have m0: "pg_mask ?p ! ?w \<noteq> 0"
    using bits[OF wl, of "off mod 64"] off nz by (metis bit_0_eq bot_apply bot_bool_def div_mult_mod_eq
        mod_less_divisor mult.commute zero_less_numeral)
  have "pg_summary ?p = pg_summary p OR push_bit ?w 1"
    by (simp add: page_mark_def Let_def shift_6)
  then have sb: "bit (pg_summary ?p) w \<longleftrightarrow>
      (w < mask_words s \<and> pg_mask p ! w \<noteq> 0) \<or> (w < 64 \<and> w = ?w)" for w
    by (simp only: bit_or_iff bit_single page_summary_bit[OF inv])
  have summ: "bit (pg_summary ?p) w \<longleftrightarrow> w < mask_words s \<and> pg_mask ?p ! w \<noteq> 0" for w
    unfolding sb using m0 wl w64 mask[of w] by (cases "w = ?w") auto
  have "{o'. o' < page_ticks s \<and> page_nz ?p o'} = insert off {o'. o' < page_ticks s \<and> page_nz p o'}"
    using off by (auto simp: nz)
  then have "pg_occupancy ?p = card {o'. o' < page_ticks s \<and> page_nz ?p o'}"
    using z occ by (simp add: page_mark_def Let_def)
  moreover have "0 \<le> lv_qty (pg_levels ?p ! o') \<and> lv_qty (pg_levels ?p ! o') \<le> int64_max" if "o' < page_ticks s" for o'
    using inv that lv lenl off by (auto simp: page_inv_def page_mark_def Let_def nth_list_update)
  ultimately show ?thesis
    unfolding page_inv_def using bits summ lenm lenl by (auto simp: page_mark_def Let_def)
qed

lemma page_inv_unmarked:
  assumes inv: "page_inv s p" and off: "off < page_ticks s" and s: "s \<le> 12"
    and z: "page_nz p off"
    and lv: "lv_qty lv = 0"
  shows "\<exists>p'. page_unmark off (p\<lparr> pg_levels := (pg_levels p)[off := lv] \<rparr>) = Some p' \<and>
     page_inv s p' \<and> pg_levels p' = (pg_levels p)[off := lv]"
proof -
  let ?w = "off div 64"
  let ?m = "pg_mask p ! ?w AND NOT (push_bit (off mod 64) 1)"
  have lenm: "length (pg_mask p) = mask_words s" and lenl: "length (pg_levels p) = page_ticks s"
    and occ: "pg_occupancy p = card {off. off < page_ticks s \<and> page_nz p off}"
    using inv by (auto simp: page_inv_def)
  have occ0: "pg_occupancy p > 0" using occ off z by (auto simp: card_gt_0_iff)
  let ?p = "p\<lparr> pg_levels := (pg_levels p)[off := lv], pg_occupancy := pg_occupancy p - 1,
               pg_mask := (pg_mask p)[?w := ?m],
               pg_summary := (if ?m = 0 then pg_summary p AND NOT (push_bit ?w 1) else pg_summary p) \<rparr>"
  have res: "page_unmark off (p\<lparr> pg_levels := (pg_levels p)[off := lv] \<rparr>) = Some ?p"
    using occ0 by (simp add: page_unmark_def Let_def shift_6 and_63_nat)
  have wl: "?w < mask_words s" using off by (simp add: mask_words_def)
  have nz: "page_nz ?p o' \<longleftrightarrow> o' \<noteq> off \<and> page_nz p o'" for o'
    using lv off lenl by (auto simp: page_nz_def nth_list_update)
  have mask: "pg_mask ?p ! w = (if w = ?w then ?m else pg_mask p ! w)" if "w < mask_words s" for w
    using that lenm by (simp add: nth_list_update)
  have mb: "bit ?m b \<longleftrightarrow> bit (pg_mask p ! ?w) b \<and> b \<noteq> off mod 64" for b
    unfolding bit_and_iff bit_not_iff bit_single using bit_imp_le_length by fastforce
  have bits: "bit (pg_mask ?p ! w) b \<longleftrightarrow> b < 64 \<and> 64 * w + b < page_ticks s \<and> page_nz ?p (64 * w + b)"
    if "w < mask_words s" for w b
    unfolding mask[OF that] nz if_distrib[of "\<lambda>x. bit x b"] mb
      page_word_bit[OF inv that] page_word_bit[OF inv wl] using offset_eq_iff[of b w off] by auto
  have "bit (pg_summary ?p) w \<longleftrightarrow> w < mask_words s \<and> pg_mask ?p ! w \<noteq> 0" for w
  proof (cases "w < mask_words s")
    case True
    have "?m \<noteq> 0 \<Longrightarrow> pg_mask p ! ?w \<noteq> 0" by auto
    moreover have "w < 64" using True mask_words_le[OF s] by simp
    moreover have "bit (pg_summary ?p) w \<longleftrightarrow> pg_mask p ! w \<noteq> 0 \<and> (?m = 0 \<longrightarrow> w \<noteq> ?w)"
    proof (cases "?m = 0")
      case True
      then have "pg_summary ?p = pg_summary p AND NOT (push_bit ?w 1)" by simp
      then show ?thesis using \<open>w < 64\<close> True \<open>w < mask_words s\<close>
        by (simp only: bit_and_iff bit_not_iff bit_single page_summary_bit[OF inv]) auto
    next
      case False
      then have "pg_summary ?p = pg_summary p" by simp
      then show ?thesis using False \<open>w < mask_words s\<close> by (simp only: page_summary_bit[OF inv]) auto
    qed
    ultimately show ?thesis using True mask[OF True] by (cases "w = ?w") auto
  next
    case False
    then show ?thesis using page_summary_bit[OF inv, of w] by (auto simp: bit_and_iff)
  qed
  moreover have "{o'. o' < page_ticks s \<and> page_nz ?p o'} = {o'. o' < page_ticks s \<and> page_nz p o'} - {off}"
    unfolding nz by auto
  then have "pg_occupancy ?p = card {o'. o' < page_ticks s \<and> page_nz ?p o'}"
    using z off occ by simp
  moreover have "0 \<le> lv_qty (pg_levels ?p ! o') \<and> lv_qty (pg_levels ?p ! o') \<le> int64_max" if "o' < page_ticks s" for o'
    using inv that lv lenl off by (auto simp: page_inv_def nth_list_update)
  moreover have "length (pg_mask ?p) = mask_words s" "length (pg_levels ?p) = page_ticks s"
    using lenm lenl by simp_all
  ultimately have "page_inv s ?p" unfolding page_inv_def using bits by blast
  with res show ?thesis by auto
qed

lemma page_inv_keep:
  assumes inv: "page_inv s p" and off: "off < page_ticks s"
    and q: "lv_qty lv \<ge> 0" "lv_qty lv \<le> int64_max" "(lv_qty lv = 0) = (lv_qty (pg_levels p ! off) = 0)"
  shows "page_inv s (p\<lparr> pg_levels := (pg_levels p)[off := lv] \<rparr>)"
proof -
  let ?p = "p\<lparr> pg_levels := (pg_levels p)[off := lv] \<rparr>"
  have lenl: "length (pg_levels p) = page_ticks s" using inv by (simp add: page_inv_def)
  have "page_nz ?p o' = page_nz p o'" for o'
    using q off lenl by (auto simp: page_nz_def nth_list_update)
  moreover have "0 \<le> lv_qty (pg_levels ?p ! o') \<and> lv_qty (pg_levels ?p ! o') \<le> int64_max" if "o' < page_ticks s" for o'
    using inv that q lenl off by (auto simp: page_inv_def nth_list_update)
  ultimately show ?thesis using inv by (simp add: page_inv_def)
qed

lemma page_add_correct:
  assumes inv: "page_inv s p" and off: "off < page_ticks s" and s: "s \<le> 12"
    and q: "0 \<le> lv_qty (pg_levels p ! off) + delta" "lv_qty (pg_levels p ! off) + delta \<le> int64_max"
  shows "\<exists>p'. page_add off delta p = Some p' \<and> page_inv s p' \<and>
     pg_levels p' = (pg_levels p)[off := (pg_levels p ! off)\<lparr> lv_qty := lv_qty (pg_levels p ! off) + delta \<rparr>]"
proof -
  let ?lv = "pg_levels p ! off"
  let ?q = "lv_qty ?lv + delta"
  have f: "fits64 ?q" using q by (simp add: fits64_def)
  have q0: "lv_qty ?lv \<ge> 0" using inv off by (simp add: page_inv_def)
  consider (up) "lv_qty ?lv = 0" "?q > 0" | (down) "lv_qty ?lv \<noteq> 0" "?q = 0"
    | (keep) "(lv_qty ?lv = 0) = (?q = 0)" using q(1) by linarith
  then show ?thesis
  proof cases
    case up
    then show ?thesis
      using page_inv_marked[OF inv off s, of "?lv\<lparr> lv_qty := ?q \<rparr>"] q f
      by (auto simp: page_add_def page_nz_def page_mark_def Let_def)
  next
    case down
    then show ?thesis
      using page_inv_unmarked[OF inv off s, of "?lv\<lparr> lv_qty := ?q \<rparr>"] q f
      by (auto simp: page_add_def page_nz_def Let_def)
  next
    case keep
    then show ?thesis
      using page_inv_keep[OF inv off, of "?lv\<lparr> lv_qty := ?q \<rparr>"] q f
      by (auto simp: page_add_def Let_def)
  qed
qed

lemma empty_page_inv: "page_inv s (empty_page s)"
proof -
  have nz: "\<not> page_nz (empty_page s) off" if "off < page_ticks s" for off
    using that by (simp add: page_nz_def empty_page_def empty_level_def)
  then have "{off. off < page_ticks s \<and> page_nz (empty_page s) off} = {}" by auto
  then show ?thesis
    unfolding page_inv_def using nz by (auto simp: empty_page_def empty_level_def)
qed

end
