(* ===== verification/LadderProofs.thy ===== *)
theory LadderProofs
  imports LadderScan
begin

text \<open>
  The ladder as a function from ticks to levels: applying a quantity changes exactly the level of
  its tick, a store through a level pointer likewise, and the scans return the nearest occupied
  tick on either side.
\<close>

section \<open>Addresses\<close>

definition tick_of :: "ladder \<Rightarrow> nat \<Rightarrow> nat \<Rightarrow> int" where
  "tick_of l d off = ld_lo l + int d * 2 ^ ld_shift l + int off"

lemma lad_slot_div: "lad_slot l t = nat ((t - ld_lo l) div 2 ^ ld_shift l)"
  by (simp add: lad_slot_def drop_bit_eq_div)

lemma lad_offset_mod: "lad_offset l t = nat (t - ld_lo l) mod 2 ^ ld_shift l"
  unfolding lad_offset_def page_ticks_def and_pow2_minus_1[unfolded One_nat_def, symmetric]
  by (simp add: and_pow2_minus_1)

lemma lad_offset_lt [simp]: "lad_offset l t < page_ticks (ld_shift l)"
  by (simp add: lad_offset_mod page_ticks_def)

lemma tick_of_addr:
  assumes "ld_lo l \<le> t"
  shows "tick_of l (lad_slot l t) (lad_offset l t) = t"
proof -
  obtain n where n: "t = ld_lo l + int n" using assms by (metis zle_iff_zadd)
  have "lad_slot l t = n div 2 ^ ld_shift l" unfolding lad_slot_div n
    by (simp add: nat_div_distrib nat_power_eq)
  moreover have "lad_offset l t = n mod 2 ^ ld_shift l" by (simp add: lad_offset_mod n)
  ultimately have "int (lad_slot l t) * 2 ^ ld_shift l + int (lad_offset l t) = int n"
    by (metis div_mult_mod_eq of_nat_add of_nat_mult of_nat_numeral of_nat_power)
  then show ?thesis by (simp add: tick_of_def n)
qed

lemma slot_tick_of [simp]: "off < page_ticks (ld_shift l) \<Longrightarrow> lad_slot l (tick_of l d off) = d"
  by (simp add: lad_slot_div tick_of_def page_ticks_def flip: of_nat_mult of_nat_add)

lemma offset_tick_of [simp]: "off < page_ticks (ld_shift l) \<Longrightarrow> lad_offset l (tick_of l d off) = off"
  by (simp add: lad_offset_mod tick_of_def page_ticks_def nat_add_distrib nat_mult_distrib nat_power_eq)

lemma slot_lt:
  assumes "lad_inv l" and "lad_in_band l t"
  shows "lad_slot l t < ld_dir_len l"
proof -
  let ?P = "(2::nat) ^ ld_shift l"
  obtain n where n: "t = ld_lo l + int n" using assms(2) unfolding lad_in_band_def by (metis zle_iff_zadd)
  have "lad_slot l t = n div ?P" unfolding lad_slot_div n by (simp add: nat_div_distrib nat_power_eq)
  moreover have "n < nat (ld_hi l - ld_lo l)" using assms(2) n by (simp add: lad_in_band_def)
  then have "n + ?P \<le> nat (ld_hi l - ld_lo l) + ?P - 1" by simp
  then have "(n + ?P) div ?P \<le> (nat (ld_hi l - ld_lo l) + ?P - 1) div ?P" by (rule div_le_mono)
  moreover have "ld_dir_len l = (nat (ld_hi l - ld_lo l) + ?P - 1) div ?P"
    using assms(1) by (simp add: lad_inv_def page_ticks_def)
  moreover have "(n + ?P) div ?P = n div ?P + 1" by (rule div_add_self2) simp
  ultimately show ?thesis by linarith
qed

section \<open>Changing a page\<close>

text \<open>What every operation leaves alone.\<close>

definition lad_frame :: "ladder \<Rightarrow> ladder \<Rightarrow> bool" where
  "lad_frame l l' \<longleftrightarrow> ld_shift l' = ld_shift l \<and> ld_lo l' = ld_lo l \<and> ld_hi l' = ld_hi l"

lemma lad_frame_refl [simp]: "lad_frame l l"
  by (simp add: lad_frame_def)

lemma lad_frame_trans: "lad_frame a b \<Longrightarrow> lad_frame b c \<Longrightarrow> lad_frame a c"
  by (simp add: lad_frame_def)

lemma lad_frame_in_band: "lad_frame l l' \<Longrightarrow> lad_in_band l' t = lad_in_band l t"
  by (simp add: lad_frame_def lad_in_band_def)

lemma lad_page_bound:
  assumes "lad_inv l" and "d < ld_dir_len l" and "ld_dir l ! d \<noteq> kNoPage"
  shows "ld_dir l ! d < ld_pool_len l" and "ld_dir l ! d < ld_claimed l"
  using assms by (auto simp: lad_inv_def)

lemma lad_page_inv:
  "lad_inv l \<Longrightarrow> ps < ld_pool_len l \<Longrightarrow> page_inv (ld_shift l) (ld_pages l ! ps)"
  by (simp add: lad_inv_def)

lemma lad_set_page:
  assumes inv: "lad_inv l" and t: "lad_peek l t = Some (ps, off)"
    and p': "page_inv (ld_shift l) p'" "pg_levels p' = (pg_levels (ld_pages l ! ps))[off := lv]"
  defines "l' \<equiv> l\<lparr> ld_pages := (ld_pages l)[ps := p'] \<rparr>"
  shows "lad_inv l'" and "lad_level l' = (lad_level l)(t := lv)" and "lad_get l' (ps, off) = lv"
proof -
  from t have band: "lad_in_band l t" and ps: "ps = ld_dir l ! lad_slot l t" "ps \<noteq> kNoPage"
    and off: "off = lad_offset l t"
    by (auto simp: lad_peek_def Let_def split: if_splits)
  let ?d = "lad_slot l t"
  have d: "?d < ld_dir_len l" using slot_lt inv band by blast
  have psb: "ps < ld_pool_len l" "ps < ld_claimed l" using lad_page_bound[OF inv d] ps by auto
  have lenp: "length (ld_pages l) = ld_pool_len l" using inv by (simp add: lad_inv_def)
  have pg: "ld_pages l' ! q = (if q = ps then p' else ld_pages l ! q)" for q
    using psb lenp by (simp add: l'_def nth_list_update)
  have offl: "off < page_ticks (ld_shift l)" by (simp add: off)
  have lenl: "length (pg_levels (ld_pages l ! ps)) = page_ticks (ld_shift l)"
    using lad_page_inv[OF inv psb(1)] by (simp add: page_inv_def)
  have lvl: "pg_levels p' ! o' = (if o' = off then lv else pg_levels (ld_pages l ! ps) ! o')" for o'
    using p'(2) offl lenl by (simp add: nth_list_update)
  have inj: "e = ?d" if "e < ld_dir_len l" "ld_dir l ! e = ps" for e
    using inv that ps d unfolding lad_inv_def by metis
  have tk: "tick_of l ?d off = t" using tick_of_addr band off by (simp add: lad_in_band_def)
  have last: "tick_of l e o' < ld_hi l" if "e < ld_dir_len l" "o' < page_ticks (ld_shift l)"
    "ld_dir l ! e \<noteq> kNoPage" "page_nz (ld_pages l' ! (ld_dir l ! e)) o'" for e o'
  proof (cases "ld_dir l ! e = ps \<and> o' = off")
    case True
    then show ?thesis using inj[OF that(1)] tk band by (simp add: lad_in_band_def)
  next
    case False
    then have "page_nz (ld_pages l ! (ld_dir l ! e)) o'"
      using that(4) by (auto simp: pg page_nz_def lvl split: if_splits)
    then show ?thesis using inv that unfolding lad_inv_def tick_of_def by blast
  qed
  have pinv: "page_inv (ld_shift l) (ld_pages l' ! q)" if "q < ld_pool_len l" for q
    using lad_page_inv[OF inv that] p'(1) by (simp add: pg)
  have un: "pg_levels (ld_pages l' ! q) ! o' = empty_level"
    if "ld_claimed l \<le> q" "q < ld_pool_len l" "o' < page_ticks (ld_shift l)" for q o'
    using inv that psb unfolding lad_inv_def pg by auto
  have fr: "ld_dir l' = ld_dir l" "ld_dir_len l' = ld_dir_len l" "ld_shift l' = ld_shift l"
    "ld_lo l' = ld_lo l" "ld_hi l' = ld_hi l" "ld_claimed l' = ld_claimed l"
    "ld_pool_len l' = ld_pool_len l" "length (ld_pages l') = length (ld_pages l)"
    by (simp_all add: l'_def)
  show "lad_inv l'"
    using inv pinv un last unfolding lad_inv_def fr tick_of_def by blast
  show get: "lad_get l' (ps, off) = lv" by (simp add: lad_get_def pg lvl)
  have sl: "lad_slot l' x = lad_slot l x" "lad_offset l' x = lad_offset l x"
    "lad_in_band l' x = lad_in_band l x" for x
    by (simp_all add: lad_slot_def lad_offset_def lad_in_band_def fr)
  have "lad_level l' x = ((lad_level l)(t := lv)) x" for x
  proof (cases "x = t")
    case True
    then show ?thesis using band ps off get by (simp add: lad_level_def sl fr)
  next
    case False
    show ?thesis
    proof (cases "lad_in_band l x \<and> ld_dir l ! lad_slot l x = ps \<and> lad_offset l x = off")
      case True
      then have "lad_slot l x = ?d" using inj slot_lt[OF inv] by blast
      then have "x = t" using True tk tick_of_addr[of l x] by (simp add: lad_in_band_def)
      then show ?thesis using False by simp
    next
      case other: False
      then show ?thesis using False by (auto simp: lad_level_def sl fr lad_get_def pg lvl)
    qed
  qed
  then show "lad_level l' = (lad_level l)(t := lv)" by blast
qed

lemma lad_level_peek: "lad_level l t = (case lad_peek l t of None \<Rightarrow> empty_level | Some a \<Rightarrow> lad_get l a)"
  by (simp add: lad_level_def lad_peek_def Let_def)

lemma lad_level_nonneg:
  assumes "lad_inv l"
  shows "0 \<le> lv_qty (lad_level l t) \<and> lv_qty (lad_level l t) \<le> int64_max"
proof (cases "lad_in_band l t \<and> ld_dir l ! lad_slot l t \<noteq> kNoPage")
  case True
  then have "ld_dir l ! lad_slot l t < ld_pool_len l" using lad_page_bound slot_lt assms by blast
  then show ?thesis using True lad_page_inv[OF assms] lad_offset_lt[of l t]
    by (auto simp: lad_level_def lad_get_def page_inv_def)
qed (auto simp: lad_level_def empty_level_def)

section \<open>Claiming a page, applying a quantity, storing a level\<close>

lemma lad_claim_correct:
  assumes inv: "lad_inv l" and band: "lad_in_band l t" and cl: "claimable l t"
  shows "\<exists>ps l'. lad_claim l t = Some (ps, l') \<and> lad_inv l' \<and> lad_peek l' t = Some (ps, lad_offset l t) \<and>
     lad_level l' = lad_level l \<and> lad_frame l l' \<and> (lad_peek l t \<noteq> None \<longrightarrow> l' = l)"
proof (cases "ld_dir l ! lad_slot l t = kNoPage")
  case False
  then show ?thesis using inv band by (auto simp: lad_claim_def lad_peek_def Let_def)
next
  case True
  let ?d = "lad_slot l t" and ?c = "ld_claimed l"
  let ?l = "l\<lparr> ld_claimed := ?c + 1, ld_dir := (ld_dir l)[?d := ?c] \<rparr>"
  have d: "?d < ld_dir_len l" using slot_lt inv band by blast
  have lenD: "length (ld_dir l) = ld_dir_len l" using inv by (simp add: lad_inv_def)
  have c: "?c < ld_pool_len l" using cl True by (simp add: claimable_def)
  then have cn: "?c \<noteq> kNoPage" using inv by (auto simp: lad_inv_def)
  have dir: "ld_dir ?l ! e = (if e = ?d then ?c else ld_dir l ! e)" for e
    using d lenD by (simp add: nth_list_update)
  have em: "pg_levels (ld_pages l ! ?c) ! o' = empty_level" if "o' < page_ticks (ld_shift l)" for o'
    using inv c that unfolding lad_inv_def by blast
  have bnd: "ld_dir l ! e < ?c" if "e < ld_dir_len l" "ld_dir l ! e \<noteq> kNoPage" for e
    using lad_page_bound(2)[OF inv that] .
  have "lad_inv ?l"
    unfolding lad_inv_def
  proof (intro conjI allI impI)
    fix e f assume "e < ld_dir_len ?l" "f < ld_dir_len ?l"
      "ld_dir ?l ! e \<noteq> kNoPage \<and> ld_dir ?l ! e = ld_dir ?l ! f"
    then have ef: "e < ld_dir_len l" "f < ld_dir_len l" "ld_dir ?l ! e \<noteq> kNoPage"
      "ld_dir ?l ! e = ld_dir ?l ! f" by simp_all
    show "e = f"
    proof (cases "e = ?d \<or> f = ?d")
      case True
      then show ?thesis using ef bnd[of e] bnd[of f] dir[of e] dir[of f] by (auto split: if_splits)
    next
      case False
      then have "ld_dir l ! e \<noteq> kNoPage \<and> ld_dir l ! e = ld_dir l ! f"
        using ef dir[of e] dir[of f] by simp
      then show ?thesis using inv ef(1,2) unfolding lad_inv_def by blast
    qed
  next
    fix e off assume a: "e < ld_dir_len ?l" "off < page_ticks (ld_shift ?l)"
      "ld_dir ?l ! e \<noteq> kNoPage \<and> page_nz (ld_pages ?l ! (ld_dir ?l ! e)) off"
    have "e \<noteq> ?d"
    proof
      assume e: "e = ?d"
      have "page_nz (ld_pages l ! ?c) off" using a(3) dir[of e] e by simp
      then show False using em[of off] a(2) by (simp add: page_nz_def empty_level_def)
    qed
    then have "ld_dir l ! e \<noteq> kNoPage \<and> page_nz (ld_pages l ! (ld_dir l ! e)) off"
      using a(3) dir[of e] by simp
    moreover have "e < ld_dir_len l" "off < page_ticks (ld_shift l)" using a by simp_all
    ultimately have "ld_lo l + int e * 2 ^ ld_shift l + int off < ld_hi l"
      using inv unfolding lad_inv_def by blast
    then show "ld_lo ?l + int e * 2 ^ ld_shift ?l + int off < ld_hi ?l" by simp
  next
    fix e assume a: "e < ld_dir_len ?l" "ld_dir ?l ! e \<noteq> kNoPage"
    show "ld_dir ?l ! e < ld_claimed ?l"
    proof (cases "e = ?d")
      case True
      then show ?thesis using dir[of e] by simp
    next
      case False
      then show ?thesis using dir[of e] bnd[of e] a by simp
    qed
  qed (use inv c in \<open>auto simp: lad_inv_def\<close>)
  moreover have "lad_level ?l x = lad_level l x" for x
  proof -
    have s: "lad_slot ?l x = lad_slot l x" "lad_offset ?l x = lad_offset l x"
      "lad_in_band ?l x = lad_in_band l x"
      by (simp_all add: lad_slot_def lad_offset_def lad_in_band_def)
    show ?thesis
    proof (cases "lad_slot l x = ?d")
      case eq: True
      have "lad_get ?l (?c, lad_offset l x) = empty_level" using em by (simp add: lad_get_def)
      then show ?thesis unfolding lad_level_def s dir eq using True by simp
    next
      case False
      then show ?thesis unfolding lad_level_def s dir by (simp add: lad_get_def)
    qed
  qed
  then have "lad_level ?l = lad_level l" by blast
  moreover have "lad_peek ?l t = Some (?c, lad_offset l t)"
  proof -
    have "lad_in_band ?l t" "lad_slot ?l t = ?d" "lad_offset ?l t = lad_offset l t"
      using band by (simp_all add: lad_in_band_def lad_slot_def lad_offset_def)
    then show ?thesis using dir[of ?d] cn by (simp add: lad_peek_def)
  qed
  moreover have "lad_claim l t = Some (?c, ?l)" using True c by (simp add: lad_claim_def Let_def)
  moreover have "lad_peek l t = None" using True by (simp add: lad_peek_def)
  ultimately show ?thesis by (auto simp: lad_frame_def)
qed

lemma lad_peek_bounds:
  assumes "lad_inv l" and "lad_peek l t = Some (ps, off)"
  shows "ps < ld_pool_len l" "off < page_ticks (ld_shift l)" "lad_get l (ps, off) = lad_level l t"
proof -
  from assms(2) have band: "lad_in_band l t" and ps: "ps = ld_dir l ! lad_slot l t" "ps \<noteq> kNoPage"
    and off: "off = lad_offset l t"
    by (auto simp: lad_peek_def Let_def split: if_splits)
  then show "ps < ld_pool_len l" using lad_page_bound(1)[OF assms(1)] slot_lt[OF assms(1)] by blast
  show "off < page_ticks (ld_shift l)" by (simp add: off)
  show "lad_get l (ps, off) = lad_level l t" using assms(2) by (simp add: lad_level_peek)
qed

lemma lad_peek_frame:
  assumes "ld_dir l' = ld_dir l" "ld_claimed l' = ld_claimed l" "ld_pool_len l' = ld_pool_len l"
    "lad_frame l l'"
  shows "lad_peek l' x = lad_peek l x" "claimable l' x = claimable l x"
  using assms
  by (simp_all add: lad_peek_def claimable_def lad_slot_def lad_offset_def lad_in_band_def lad_frame_def Let_def)

lemma lad_put_correct:
  assumes inv: "lad_inv l" and a: "lad_peek l t = Some a" and q: "lv_qty lv = lv_qty (lad_level l t)"
  shows "lad_inv (lad_put a lv l)" "lad_level (lad_put a lv l) = (lad_level l)(t := lv)"
    "lad_get (lad_put a lv l) a = lv" "lad_frame l (lad_put a lv l)"
    "lad_peek (lad_put a lv l) x = lad_peek l x" "claimable (lad_put a lv l) x = claimable l x"
proof -
  obtain ps off where e: "a = (ps, off)" by (cases a)
  note b = lad_peek_bounds[OF inv a[unfolded e]]
  let ?p = "(ld_pages l ! ps)\<lparr> pg_levels := (pg_levels (ld_pages l ! ps))[off := lv] \<rparr>"
  have "lv_qty (pg_levels (ld_pages l ! ps) ! off) = lv_qty lv"
    using b(3) q by (simp add: lad_get_def)
  then have "page_inv (ld_shift l) ?p"
    using page_inv_keep[OF lad_page_inv[OF inv b(1)] b(2), of lv] lad_level_nonneg[OF inv, of t] q by auto
  then show "lad_inv (lad_put a lv l)" "lad_level (lad_put a lv l) = (lad_level l)(t := lv)"
    "lad_get (lad_put a lv l) a = lv"
    using lad_set_page[OF inv a[unfolded e], of ?p lv] by (auto simp: lad_put_def e)
  show fr: "lad_frame l (lad_put a lv l)" by (simp add: lad_frame_def lad_put_def)
  show "lad_peek (lad_put a lv l) x = lad_peek l x" "claimable (lad_put a lv l) x = claimable l x"
    using lad_peek_frame[OF _ _ _ fr] by (simp_all add: lad_put_def)
qed

lemma lad_apply_correct:
  assumes inv: "lad_inv l" and band: "lad_in_band l t" and cl: "claimable l t" and d: "delta \<noteq> 0"
    and q: "0 \<le> lv_qty (lad_level l t) + delta" "lv_qty (lad_level l t) + delta \<le> int64_max"
  defines "lv \<equiv> (lad_level l t)\<lparr> lv_qty := lv_qty (lad_level l t) + delta \<rparr>"
  shows "\<exists>a l'. lad_apply l t delta = Some (a, l') \<and> lad_inv l' \<and> lad_frame l l' \<and>
     lad_peek l' t = Some a \<and> lad_get l' a = lv \<and> lad_level l' = (lad_level l)(t := lv) \<and>
     (lad_peek l t \<noteq> None \<longrightarrow> (\<forall>x. lad_peek l' x = lad_peek l x \<and> claimable l' x = claimable l x))"
proof -
  from lad_claim_correct[OF inv band cl] obtain ps l1 where c: "lad_claim l t = Some (ps, l1)"
    "lad_inv l1" "lad_peek l1 t = Some (ps, lad_offset l t)" "lad_level l1 = lad_level l"
    "lad_frame l l1" "lad_peek l t \<noteq> None \<longrightarrow> l1 = l" by blast
  let ?off = "lad_offset l t"
  have offe: "lad_offset l1 t = ?off" using c(5) by (simp add: lad_offset_def lad_frame_def)
  note b = lad_peek_bounds[OF c(2,3)]
  have lve: "pg_levels (ld_pages l1 ! ps) ! ?off = lad_level l t"
    using b(3) c(4) by (simp add: lad_get_def)
  have s12: "ld_shift l1 \<le> 12" using c(2) by (simp add: lad_inv_def)
  from page_add_correct[OF lad_page_inv[OF c(2) b(1)] b(2) s12, unfolded lve, OF q]
  obtain p' where p': "page_add ?off delta (ld_pages l1 ! ps) = Some p'" "page_inv (ld_shift l1) p'"
    "pg_levels p' = (pg_levels (ld_pages l1 ! ps))[?off := lv]"
    unfolding lv_def by blast
  let ?l = "l1\<lparr> ld_pages := (ld_pages l1)[ps := p'] \<rparr>"
  have "lad_apply l t delta = Some ((ps, ?off), ?l)"
    using d band c(1) p'(1) offe by (simp add: lad_apply_def)
  moreover note lad_set_page[OF c(2,3) p'(2,3)]
  moreover have fr: "lad_frame l1 ?l" by (simp add: lad_frame_def)
  moreover have "lad_peek ?l x = lad_peek l1 x" "claimable ?l x = claimable l1 x" for x
    using lad_peek_frame[OF _ _ _ fr] by simp_all
  ultimately show ?thesis using c lad_frame_trans[OF c(5) fr] by auto
qed

section \<open>Scans\<close>

text \<open>The occupied ticks of one directory slot.\<close>

lemma occupied_slot:
  assumes inv: "lad_inv l" and d: "d < ld_dir_len l" and off: "off < page_ticks (ld_shift l)"
  shows "tick_of l d off \<in> lad_occupied l \<longleftrightarrow>
     ld_dir l ! d \<noteq> kNoPage \<and> page_nz (ld_pages l ! (ld_dir l ! d)) off"
proof -
  have "lad_in_band l (tick_of l d off)"
    if "ld_dir l ! d \<noteq> kNoPage" "page_nz (ld_pages l ! (ld_dir l ! d)) off"
  proof -
    have "tick_of l d off < ld_hi l" using inv d off that unfolding lad_inv_def tick_of_def by blast
    then show ?thesis by (simp add: lad_in_band_def tick_of_def)
  qed
  then show ?thesis using off
    by (auto simp: lad_occupied_def lad_level_def lad_get_def page_nz_def empty_level_def)
qed

lemma occupied_addr:
  assumes inv: "lad_inv l" and t: "t \<in> lad_occupied l"
  shows "lad_in_band l t" "lad_slot l t < ld_dir_len l" "t = tick_of l (lad_slot l t) (lad_offset l t)"
    "t < kNoTick" "t \<noteq> kNoTick"
proof -
  show b: "lad_in_band l t" using t by (auto simp: lad_occupied_def lad_level_def empty_level_def split: if_splits)
  then show "lad_slot l t < ld_dir_len l" "t = tick_of l (lad_slot l t) (lad_offset l t)"
    using slot_lt[OF inv] tick_of_addr[of l t] by (auto simp: lad_in_band_def)
  show "t < kNoTick" "t \<noteq> kNoTick" using b inv by (auto simp: lad_in_band_def lad_inv_def kNoTick_def)
qed

lemma tick_of_less:
  assumes "off < page_ticks (ld_shift l)" "off' < page_ticks (ld_shift l)"
  shows "tick_of l d off < tick_of l d' off' \<longleftrightarrow> d < d' \<or> (d = d' \<and> off < off')"
proof -
  let ?P = "2 ^ ld_shift l :: int"
  have lt: "tick_of l a x < tick_of l b y"
    if "a < b" "x < page_ticks (ld_shift l)" for a b x y
  proof -
    have "(int a + 1) * ?P \<le> int b * ?P" using that(1) by (intro mult_right_mono) auto
    moreover have "int x < ?P" using that(2) by (simp add: page_ticks_def)
    ultimately show ?thesis
      unfolding tick_of_def distrib_right using of_nat_0_le_iff[of y] by linarith
  qed
  show ?thesis
    using lt[of d d' off off'] lt[of d' d off' off] assms
    by (cases d d' rule: linorder_cases) (auto simp: tick_of_def)
qed

lemma page_empty_occupancy:
  "page_inv s p \<Longrightarrow> pg_occupancy p = 0 \<Longrightarrow> off < page_ticks s \<Longrightarrow> \<not> page_nz p off"
  by (auto simp: page_inv_def)

lemma slot_search_up:
  assumes inv: "lad_inv l" and d: "d < ld_dir_len l" and o: "start_o < page_ticks (ld_shift l)"
  shows "(if ld_dir l ! d = kNoPage \<or> pg_occupancy (ld_pages l ! (ld_dir l ! d)) = 0 then None
          else page_first_above (ld_shift l) (ld_pages l ! (ld_dir l ! d)) start_o)
     = find (\<lambda>off. tick_of l d off \<in> lad_occupied l) [start_o..<page_ticks (ld_shift l)]"
proof (cases "ld_dir l ! d = kNoPage \<or> pg_occupancy (ld_pages l ! (ld_dir l ! d)) = 0")
  case True
  have "\<not> page_nz (ld_pages l ! (ld_dir l ! d)) off"
    if "ld_dir l ! d \<noteq> kNoPage" "off < page_ticks (ld_shift l)" for off
    using page_empty_occupancy[OF lad_page_inv[OF inv] _ that(2)] lad_page_bound(1)[OF inv d that(1)]
      True that(1) by blast
  then have "find (\<lambda>off. tick_of l d off \<in> lad_occupied l) [start_o..<page_ticks (ld_shift l)] = None"
    unfolding find_None_iff using occupied_slot[OF inv d] by auto
  then show ?thesis using True by simp
next
  case False
  then have "page_inv (ld_shift l) (ld_pages l ! (ld_dir l ! d))"
    using lad_page_inv[OF inv] lad_page_bound(1)[OF inv d] by blast
  then have "page_first_above (ld_shift l) (ld_pages l ! (ld_dir l ! d)) start_o =
      find (page_nz (ld_pages l ! (ld_dir l ! d))) [start_o..<page_ticks (ld_shift l)]"
    by (rule page_first_above_find[OF _ o])
  also have "\<dots> = find (\<lambda>off. tick_of l d off \<in> lad_occupied l) [start_o..<page_ticks (ld_shift l)]"
    by (rule find_cong) (use occupied_slot[OF inv d] False in auto)
  finally show ?thesis using False by simp
qed

lemma slot_search_down:
  assumes inv: "lad_inv l" and d: "d < ld_dir_len l"
    and o: "start_o < page_ticks (ld_shift l)"
    and s: "start_o = (if d = d0 then o0 else page_ticks (ld_shift l) - 1)"
  shows "below_at l d0 o0 d =
     map_option (tick_of l d) (find (\<lambda>off. tick_of l d off \<in> lad_occupied l) (rev [0..<Suc start_o]))"
proof (cases "ld_dir l ! d = kNoPage \<or> pg_occupancy (ld_pages l ! (ld_dir l ! d)) = 0")
  case True
  have "\<not> page_nz (ld_pages l ! (ld_dir l ! d)) off"
    if "ld_dir l ! d \<noteq> kNoPage" "off < page_ticks (ld_shift l)" for off
    using page_empty_occupancy[OF lad_page_inv[OF inv] _ that(2)] lad_page_bound(1)[OF inv d that(1)]
      True that(1) by blast
  then have "find (\<lambda>off. tick_of l d off \<in> lad_occupied l) (rev [0..<Suc start_o]) = None"
    unfolding find_None_iff using occupied_slot[OF inv d] o by auto
  then show ?thesis using True by (auto simp: below_at_def Let_def)
next
  case False
  then have "page_inv (ld_shift l) (ld_pages l ! (ld_dir l ! d))"
    using lad_page_inv[OF inv] lad_page_bound(1)[OF inv d] by blast
  then have "page_first_below (ld_pages l ! (ld_dir l ! d)) start_o =
      find (page_nz (ld_pages l ! (ld_dir l ! d))) (rev [0..<Suc start_o])"
    by (rule page_first_below_find[OF _ o])
  also have "\<dots> = find (\<lambda>off. tick_of l d off \<in> lad_occupied l) (rev [0..<Suc start_o])"
    by (rule find_cong) (use occupied_slot[OF inv d] False o in auto)
  finally show ?thesis using False s
    by (auto simp: below_at_def Let_def tick_of_def push_bit_eq_mult intro!: option.map_cong)
qed

end
