(* ===== verification/LadderBest.thy ===== *)
theory LadderBest
  imports LadderProofs
begin

text \<open>
  The two scans across pages return the nearest occupied tick, and the level walk visits
  the occupied ticks in ascending order.
\<close>

definition least_tick :: "int \<Rightarrow> int set \<Rightarrow> bool" where
  "least_tick r S \<longleftrightarrow> (S = {} \<and> r = kNoTick) \<or> (r \<in> S \<and> (\<forall>t\<in>S. r \<le> t))"

definition greatest_tick :: "int \<Rightarrow> int set \<Rightarrow> bool" where
  "greatest_tick r S \<longleftrightarrow> (S = {} \<and> r = kNoTick) \<or> (r \<in> S \<and> (\<forall>t\<in>S. t \<le> r))"

lemma least_tick_unique: "least_tick a S \<Longrightarrow> least_tick b S \<Longrightarrow> a = b"
  by (fastforce simp: least_tick_def)

lemma greatest_tick_unique: "greatest_tick a S \<Longrightarrow> greatest_tick b S \<Longrightarrow> a = b"
  by (fastforce simp: greatest_tick_def)

lemma first_above_loop_correct:
  assumes inv: "lad_inv l" and o0: "o0 < page_ticks (ld_shift l)"
  shows "k \<le> ld_dir_len l \<Longrightarrow> d0 \<le> k \<Longrightarrow>
     least_tick (first_above_loop l d0 o0 [k..<ld_dir_len l])
       {t \<in> lad_occupied l. tick_of l k (if k = d0 then o0 else 0) \<le> t}"
proof (induction "ld_dir_len l - k" arbitrary: k)
  case 0
  then have k: "k = ld_dir_len l" by simp
  have "{t \<in> lad_occupied l. tick_of l k (if k = d0 then o0 else 0) \<le> t} = {}"
  proof (rule ccontr)
    assume "\<not> ?thesis"
    then obtain t where t: "t \<in> lad_occupied l" "tick_of l k (if k = d0 then o0 else 0) \<le> t" by blast
    note a = occupied_addr[OF inv t(1)]
    have "t < tick_of l k (if k = d0 then o0 else 0)"
      by (subst a(3), subst tick_of_less) (use a(2) k o0 in auto)
    then show False using t(2) by simp
  qed
  then show ?case by (simp add: k least_tick_def)
next
  case (Suc n)
  let ?st = "if k = d0 then o0 else 0"
  let ?S = "{t \<in> lad_occupied l. tick_of l k ?st \<le> t}"
  let ?f = "find (\<lambda>off. tick_of l k off \<in> lad_occupied l) [?st..<page_ticks (ld_shift l)]"
  from Suc have k: "k < ld_dir_len l" by simp
  have st: "?st < page_ticks (ld_shift l)" using o0 by simp
  have up: "[k..<ld_dir_len l] = k # [Suc k..<ld_dir_len l]" using k by (rule upt_conv_Cons)
  have loop: "first_above_loop l d0 o0 [k..<ld_dir_len l] =
      (case ?f of Some off \<Rightarrow> tick_of l k off | None \<Rightarrow> first_above_loop l d0 o0 [Suc k..<ld_dir_len l])"
    unfolding up slot_search_up[OF inv k st, symmetric]
    by (auto simp: Let_def tick_of_def push_bit_eq_mult split: option.splits)
  have cmp: "tick_of l k ?st \<le> t \<longleftrightarrow> k < lad_slot l t \<or> (k = lad_slot l t \<and> ?st \<le> lad_offset l t)"
    if "t \<in> lad_occupied l" for t
    using tick_of_less[OF lad_offset_lt[of l t] st, of "lad_slot l t" k] occupied_addr(3)[OF inv that] by auto
  show ?case
  proof (cases ?f)
    case (Some off)
    then have off: "?st \<le> off" "off < page_ticks (ld_shift l)" "tick_of l k off \<in> lad_occupied l"
      and least: "\<And>m. ?st \<le> m \<Longrightarrow> m < off \<Longrightarrow> tick_of l k m \<notin> lad_occupied l"
      unfolding find_upt_Some by auto
    have "tick_of l k off \<le> t" if t: "t \<in> lad_occupied l" "tick_of l k ?st \<le> t" for t
    proof (rule ccontr)
      assume "\<not> tick_of l k off \<le> t"
      then have "tick_of l (lad_slot l t) (lad_offset l t) < tick_of l k off"
        using occupied_addr(3)[OF inv t(1)] by simp
      then have "lad_slot l t = k" "lad_offset l t < off"
        using tick_of_less[OF lad_offset_lt[of l t] off(2), of "lad_slot l t" k] cmp[OF t(1)] t(2) by auto
      then show False using least[of "lad_offset l t"] cmp[OF t(1)] t occupied_addr(3)[OF inv t(1)] by auto
    qed
    moreover have "tick_of l k ?st \<le> tick_of l k off" using off(1) by (simp add: tick_of_def)
    ultimately show ?thesis unfolding loop Some using off(3) by (simp add: least_tick_def)
  next
    case None
    have "?S = {t \<in> lad_occupied l. tick_of l (Suc k) (if Suc k = d0 then o0 else 0) \<le> t}"
    proof (intro Collect_cong conj_cong refl)
      fix t assume t: "t \<in> lad_occupied l"
      have "\<not> (k = lad_slot l t \<and> ?st \<le> lad_offset l t)"
      proof
        assume a: "k = lad_slot l t \<and> ?st \<le> lad_offset l t"
        then have "lad_offset l t \<in> set [?st..<page_ticks (ld_shift l)]" by (simp split: if_splits)
        moreover have "tick_of l k (lad_offset l t) \<in> lad_occupied l"
          using a t occupied_addr(3)[OF inv t] by simp
        ultimately show False using None unfolding find_None_iff by blast
      qed
      then have "tick_of l k ?st \<le> t \<longleftrightarrow> Suc k \<le> lad_slot l t" using cmp[OF t] by auto
      also have "\<dots> \<longleftrightarrow> tick_of l (Suc k) 0 \<le> t"
        using tick_of_less[OF lad_offset_lt[of l t] page_ticks_pos, of "lad_slot l t" "Suc k"]
          occupied_addr(3)[OF inv t] by auto
      finally show "tick_of l k ?st \<le> t \<longleftrightarrow> tick_of l (Suc k) (if Suc k = d0 then o0 else 0) \<le> t"
        using Suc.prems(2) by simp
    qed
    moreover have "least_tick (first_above_loop l d0 o0 [Suc k..<ld_dir_len l])
       {t \<in> lad_occupied l. tick_of l (Suc k) (if Suc k = d0 then o0 else 0) \<le> t}"
      using Suc.hyps(1)[of "Suc k"] Suc.hyps(2) Suc.prems k by simp
    ultimately show ?thesis unfolding loop None by simp
  qed
qed

lemma first_above_least:
  assumes inv: "lad_inv l"
  shows "least_tick (first_above l x) {t \<in> lad_occupied l. x < t}"
proof (cases "x \<ge> ld_hi l - 1")
  case True
  then have "{t \<in> lad_occupied l. x < t} = {}"
    using occupied_addr(1)[OF inv] by (fastforce simp: lad_in_band_def)
  then show ?thesis using True by (simp add: first_above_def least_tick_def)
next
  case False
  let ?s = "if x < ld_lo l then ld_lo l else x + 1"
  have b: "lad_in_band l ?s" using False inv by (auto simp: lad_in_band_def lad_inv_def)
  then have e: "tick_of l (lad_slot l ?s) (lad_offset l ?s) = ?s"
    using tick_of_addr by (simp add: lad_in_band_def)
  have "x < t \<longleftrightarrow> ?s \<le> t" if "t \<in> lad_occupied l" for t
    using occupied_addr(1)[OF inv that] by (auto simp: lad_in_band_def)
  then have "{t \<in> lad_occupied l. x < t} = {t \<in> lad_occupied l. ?s \<le> t}" by blast
  moreover have "first_above l x =
      first_above_loop l (lad_slot l ?s) (lad_offset l ?s) [lad_slot l ?s..<ld_dir_len l]"
    using False by (simp only: first_above_def Let_def if_False)
  ultimately show ?thesis
    using first_above_loop_correct[OF inv lad_offset_lt, of "lad_slot l ?s" "lad_slot l ?s" ?s]
      slot_lt[OF inv b] e by simp
qed

lemma below_at_correct:
  fixes d0 :: nat
  assumes inv: "lad_inv l" and d: "d < ld_dir_len l" and o0: "o0 < page_ticks (ld_shift l)"
  defines "st \<equiv> if d = d0 then o0 else page_ticks (ld_shift l) - 1"
  shows "below_at l d0 o0 d = Some r \<Longrightarrow> greatest_tick r {t \<in> lad_occupied l. t \<le> tick_of l d st}"
    and "below_at l d0 o0 d = None \<Longrightarrow> t \<in> lad_occupied l \<Longrightarrow> t \<le> tick_of l d st \<longleftrightarrow> lad_slot l t < d"
proof -
  have st: "st < page_ticks (ld_shift l)" using o0 by (simp add: st_def)
  note at = slot_search_down[OF inv d st st_def[THEN meta_eq_to_obj_eq]]
  have cmp: "t \<le> tick_of l d st \<longleftrightarrow> lad_slot l t < d \<or> (lad_slot l t = d \<and> lad_offset l t \<le> st)"
    if "t \<in> lad_occupied l" for t
    using tick_of_less[OF st lad_offset_lt[of l t], of d "lad_slot l t"] occupied_addr(3)[OF inv that]
    by auto
  show "greatest_tick r {t \<in> lad_occupied l. t \<le> tick_of l d st}" if r: "below_at l d0 o0 d = Some r"
  proof -
    from r obtain off where "r = tick_of l d off"
      and f: "find (\<lambda>off. tick_of l d off \<in> lad_occupied l) (rev [0..<Suc st]) = Some off"
      unfolding at map_option_eq_Some by blast
    with f[unfolded find_rev_upt_Some]
    have off: "off \<le> st" "tick_of l d off \<in> lad_occupied l" "r = tick_of l d off"
      and most: "\<And>m. off < m \<Longrightarrow> m \<le> st \<Longrightarrow> tick_of l d m \<notin> lad_occupied l"
      by auto
    have "t \<le> tick_of l d off" if t: "t \<in> lad_occupied l" "t \<le> tick_of l d st" for t
    proof (rule ccontr)
      assume "\<not> t \<le> tick_of l d off"
      then have "tick_of l d off < tick_of l (lad_slot l t) (lad_offset l t)"
        using occupied_addr(3)[OF inv t(1)] by simp
      moreover have "off < page_ticks (ld_shift l)" using off(1) st by simp
      ultimately have "lad_slot l t = d" "off < lad_offset l t"
        using tick_of_less[OF _ lad_offset_lt[of l t], of off d "lad_slot l t"] cmp[OF t(1)] t(2) by auto
      then show False using most[of "lad_offset l t"] cmp[OF t(1)] t occupied_addr(3)[OF inv t(1)] by auto
    qed
    moreover have "tick_of l d off \<le> tick_of l d st" using off(1) by (simp add: tick_of_def)
    ultimately show ?thesis using off by (simp add: greatest_tick_def)
  qed
  show "t \<le> tick_of l d st \<longleftrightarrow> lad_slot l t < d"
    if "below_at l d0 o0 d = None" and t: "t \<in> lad_occupied l"
  proof -
    have "\<not> (lad_slot l t = d \<and> lad_offset l t \<le> st)"
    proof
      assume a: "lad_slot l t = d \<and> lad_offset l t \<le> st"
      then have "lad_offset l t \<in> set (rev [0..<Suc st])" by auto
      moreover have "tick_of l d (lad_offset l t) \<in> lad_occupied l"
        using a t occupied_addr(3)[OF inv t] by simp
      ultimately show False using that(1) unfolding at option.map_disc_iff find_None_iff by blast
    qed
    then show ?thesis using cmp[OF t] by auto
  qed
qed

lemma first_below_loop_correct:
  assumes inv: "lad_inv l" and o0: "o0 < page_ticks (ld_shift l)"
  shows "d < ld_dir_len l \<Longrightarrow> d \<le> d0 \<Longrightarrow>
     greatest_tick (first_below_loop l d0 o0 d)
       {t \<in> lad_occupied l. t \<le> tick_of l d (if d = d0 then o0 else page_ticks (ld_shift l) - 1)}"
proof (induction d)
  case 0
  note at = below_at_correct[OF inv 0(1) o0, of d0]
  show ?case
  proof (cases "below_at l d0 o0 0")
    case None
    then show ?thesis using at(2)[OF None] by (auto simp: greatest_tick_def)
  next
    case (Some r)
    then show ?thesis using at(1)[OF Some] by simp
  qed
next
  case (Suc d)
  let ?P = "page_ticks (ld_shift l)"
  note at = below_at_correct[OF inv Suc(2) o0, of d0]
  show ?case
  proof (cases "below_at l d0 o0 (Suc d)")
    case None
    have "t \<le> tick_of l (Suc d) (if Suc d = d0 then o0 else ?P - 1) \<longleftrightarrow>
        t \<le> tick_of l d (if d = d0 then o0 else ?P - 1)" if t: "t \<in> lad_occupied l" for t
    proof -
      have last: "?P - 1 < ?P" by simp
      have "lad_slot l t < Suc d \<longleftrightarrow> \<not> tick_of l d (?P - 1) < t"
        using tick_of_less[OF last lad_offset_lt[of l t], of d "lad_slot l t"] lad_offset_lt[of l t]
          occupied_addr(3)[OF inv t] by linarith
      then show ?thesis using at(2)[OF None t] Suc.prems(2) by auto
    qed
    then have "{t \<in> lad_occupied l. t \<le> tick_of l (Suc d) (if Suc d = d0 then o0 else ?P - 1)} =
        {t \<in> lad_occupied l. t \<le> tick_of l d (if d = d0 then o0 else ?P - 1)}" by blast
    then show ?thesis using None Suc.IH Suc.prems by simp
  next
    case (Some r)
    then show ?thesis using at(1)[OF Some] by simp
  qed
qed

lemma first_below_greatest:
  assumes inv: "lad_inv l"
  shows "greatest_tick (first_below l x) {t \<in> lad_occupied l. t < x}"
proof (cases "x \<le> ld_lo l")
  case True
  then have "{t \<in> lad_occupied l. t < x} = {}"
    using occupied_addr(1)[OF inv] by (fastforce simp: lad_in_band_def)
  then show ?thesis using True by (simp add: first_below_def greatest_tick_def)
next
  case False
  let ?s = "if x > ld_hi l then ld_hi l - 1 else x - 1"
  have b: "lad_in_band l ?s" using False inv by (auto simp: lad_in_band_def lad_inv_def)
  then have e: "tick_of l (lad_slot l ?s) (lad_offset l ?s) = ?s"
    using tick_of_addr by (simp add: lad_in_band_def)
  have "t < x \<longleftrightarrow> t \<le> ?s" if "t \<in> lad_occupied l" for t
    using occupied_addr(1)[OF inv that] by (auto simp: lad_in_band_def)
  then have "{t \<in> lad_occupied l. t < x} = {t \<in> lad_occupied l. t \<le> ?s}" by blast
  moreover have "first_below l x = first_below_loop l (lad_slot l ?s) (lad_offset l ?s) (lad_slot l ?s)"
    using False by (simp only: first_below_def Let_def if_False)
  ultimately show ?thesis
    using first_below_loop_correct[OF inv lad_offset_lt[of l ?s] slot_lt[OF inv b], of "lad_slot l ?s"] e
    by simp
qed

section \<open>The level walk\<close>

definition walk_ticks :: "ladder \<Rightarrow> nat \<Rightarrow> int list" where
  "walk_ticks l n = concat (map (\<lambda>d. map (tick_of l d)
     (filter (\<lambda>off. tick_of l d off \<in> lad_occupied l) [0..<page_ticks (ld_shift l)])) [0..<n])"

lemma walk_ticks_Suc:
  "walk_ticks l (Suc n) = walk_ticks l n @
     map (tick_of l n) (filter (\<lambda>off. tick_of l n off \<in> lad_occupied l) [0..<page_ticks (ld_shift l)])"
  by (simp add: walk_ticks_def)

lemma walk_ticks_set:
  "t \<in> set (walk_ticks l n) \<longleftrightarrow>
     (\<exists>d<n. \<exists>off<page_ticks (ld_shift l). t = tick_of l d off \<and> t \<in> lad_occupied l)"
  by (auto simp: walk_ticks_def)

lemma walk_ticks_sorted: "sorted_wrt (<) (walk_ticks l n)"
proof (induction n)
  case (Suc n)
  have "sorted_wrt (<) (map (tick_of l n) (filter (\<lambda>off. tick_of l n off \<in> lad_occupied l)
      [0..<page_ticks (ld_shift l)]))"
    unfolding sorted_wrt_map tick_of_def
    by (rule sorted_wrt_filter) (simp add: sorted_wrt_iff_nth_less)
  then show ?case
    using Suc by (auto simp: walk_ticks_Suc sorted_wrt_append walk_ticks_set tick_of_less)
qed (simp add: walk_ticks_def)

lemma lad_occupied_finite:
  assumes "lad_inv l"
  shows "finite (lad_occupied l)"
proof (rule finite_subset)
  show "lad_occupied l \<subseteq> {ld_lo l..<ld_hi l}"
    using occupied_addr(1)[OF assms] by (auto simp: lad_in_band_def)
qed simp

lemma walk_ticks_all:
  assumes inv: "lad_inv l"
  shows "walk_ticks l (ld_dir_len l) = sorted_list_of_set (lad_occupied l)"
proof -
  have "set (walk_ticks l (ld_dir_len l)) = lad_occupied l"
    unfolding set_eq_iff walk_ticks_set using occupied_addr(2,3)[OF inv] lad_offset_lt by blast
  then show ?thesis
    using walk_ticks_sorted[of l "ld_dir_len l"] lad_occupied_finite[OF inv]
    by (metis distinct_sorted_list_of_set sorted_list_of_set.idem_if_sorted_distinct
        strict_sorted_iff)
qed

lemma fold_filter: "fold (\<lambda>x st. if P x then f x st else st) xs st = fold f (filter P xs) st"
  by (induction xs arbitrary: st) auto

lemma for_each_level_prefix:
  assumes inv: "lad_inv l" and n: "n \<le> ld_dir_len l"
  shows "fold (\<lambda>d st. let ps = ld_dir l ! d in
             if ps = kNoPage then st
             else fold (\<lambda>off st. let lv = pg_levels (ld_pages l ! ps) ! off in
                          if lv_qty lv \<noteq> 0
                          then fn (ld_lo l + push_bit (ld_shift l) (int d) + int off) lv st else st)
                    [0..<page_ticks (ld_shift l)] st) [0..<n] st
     = fold (\<lambda>t. fn t (lad_level l t)) (walk_ticks l n) st"
  using n
proof (induction n)
  case (Suc n)
  let ?g = "\<lambda>off. tick_of l n off \<in> lad_occupied l"
  have n: "n < ld_dir_len l" using Suc.prems by simp
  have lev: "lad_level l (tick_of l n off) = pg_levels (ld_pages l ! (ld_dir l ! n)) ! off"
    if "off < page_ticks (ld_shift l)" "?g off" for off
    using that occupied_slot[OF inv n that(1)] occupied_addr(1)[OF inv that(2)]
    by (simp add: lad_level_def lad_get_def)
  have "(let ps = ld_dir l ! n in if ps = kNoPage then s
      else fold (\<lambda>off st. let lv = pg_levels (ld_pages l ! ps) ! off in
             if lv_qty lv \<noteq> 0 then fn (ld_lo l + push_bit (ld_shift l) (int n) + int off) lv st else st)
           [0..<page_ticks (ld_shift l)] s)
     = fold (\<lambda>t. fn t (lad_level l t)) (map (tick_of l n) (filter ?g [0..<page_ticks (ld_shift l)])) s"
    for s
  proof (cases "ld_dir l ! n = kNoPage")
    case True
    then have "filter ?g [0..<page_ticks (ld_shift l)] = []"
      using occupied_slot[OF inv n] by (auto simp: filter_empty_conv)
    then show ?thesis using True by (simp add: Let_def)
  next
    case False
    have "fold (\<lambda>off st. let lv = pg_levels (ld_pages l ! (ld_dir l ! n)) ! off in
             if lv_qty lv \<noteq> 0 then fn (ld_lo l + push_bit (ld_shift l) (int n) + int off) lv st else st)
           [0..<page_ticks (ld_shift l)] s
        = fold (\<lambda>off st. if ?g off then fn (tick_of l n off) (lad_level l (tick_of l n off)) st else st)
           [0..<page_ticks (ld_shift l)] s"
    proof (rule fold_cong[OF refl refl], rule ext)
      fix off st assume "off \<in> set [0..<page_ticks (ld_shift l)]"
      then have o: "off < page_ticks (ld_shift l)" by simp
      show "(let lv = pg_levels (ld_pages l ! (ld_dir l ! n)) ! off in
             if lv_qty lv \<noteq> 0 then fn (ld_lo l + push_bit (ld_shift l) (int n) + int off) lv st else st)
          = (if ?g off then fn (tick_of l n off) (lad_level l (tick_of l n off)) st else st)"
        using lev[OF o] occupied_slot[OF inv n o] False
        by (simp add: Let_def page_nz_def tick_of_def push_bit_eq_mult)
    qed
    then show ?thesis using False by (simp add: fold_filter fold_map comp_def)
  qed
  then show ?case using Suc by (simp add: walk_ticks_Suc)
qed (simp add: walk_ticks_def)

lemma for_each_level_sorted:
  assumes "lad_inv l"
  shows "for_each_level l fn st =
     fold (\<lambda>t. fn t (lad_level l t)) (sorted_list_of_set (lad_occupied l)) st"
  unfolding for_each_level_def using for_each_level_prefix[OF assms le_refl] walk_ticks_all[OF assms] by simp

section \<open>Construction\<close>

lemma ladder_new_correct:
  assumes "4 \<le> s" "s \<le> 12" "lo < hi" "int64_min \<le> lo" "hi \<le> int64_max" "pool > 0" "pool \<le> kNoPage"
  shows "\<exists>l. ladder_new s lo hi pool = Some l \<and> lad_inv l \<and> lad_level l = (\<lambda>_. empty_level) \<and>
     ld_lo l = lo \<and> ld_hi l = hi \<and> (\<forall>t. claimable l t)"
proof -
  let ?n = "(nat (hi - lo) + page_ticks s - 1) div 2 ^ s"
  let ?l = "\<lparr> ld_shift = s, ld_lo = lo, ld_hi = hi, ld_dir_len = ?n, ld_pool_len = pool,
            ld_claimed = 0, ld_dir = replicate ?n kNoPage, ld_pages = replicate pool (empty_page s) \<rparr>"
  have "ladder_new s lo hi pool = Some ?l"
    using assms by (simp add: ladder_new_def validated_dir_len_def)
  moreover have inv: "lad_inv ?l"
    using assms empty_page_inv[of s] by (auto simp: lad_inv_def empty_page_def)
  moreover have "lad_level ?l t = empty_level" for t
    using slot_lt[OF inv, of t] by (auto simp: lad_level_def)
  moreover have "claimable ?l t" for t using assms by (simp add: claimable_def)
  ultimately show ?thesis by auto
qed

end
