(* ===== verification/BookInv.thy ===== *)
theory BookInv
  imports BookQueue LadderBest
begin

text \<open>
  The invariant of the order book. A ghost function \<open>Q\<close> gives the arena indices queued at every
  side and tick. The invariant says that each level of the two ladders is the head of its queue
  and carries the sum of its quantities, that the reference table and the live slots of the arena
  correspond one to one, that every live order is queued somewhere, and that the cached best prices
  are the extreme occupied ticks. Forgetting the indices gives the abstract book: FIFO queues of
  references and quantities per side and price.
\<close>

type_synonym queues = "side \<Rightarrow> int \<Rightarrow> nat list"
type_synonym abook = "side \<Rightarrow> int \<Rightarrow> (u64 \<times> int) list"

section \<open>Queues with their data\<close>

definition entry_of :: "store \<Rightarrow> nat \<Rightarrow> u64 \<times> int" where
  "entry_of m i = (case m i of Some (g, ord) \<Rightarrow> (o_ref ord, o_qty ord) | None \<Rightarrow> (0, 0))"

definition queue_ok :: "store \<Rightarrow> side \<Rightarrow> int \<Rightarrow> level \<Rightarrow> nat list \<Rightarrow> bool" where
  "queue_ok m s t lv xs \<longleftrightarrow>
     fifo m lv xs \<and>
     (\<forall>i\<in>set xs. \<exists>g ord. m i = Some (g, ord) \<and> o_price ord = t \<and> o_side ord = to_wire s \<and> 0 < o_qty ord) \<and>
     lv_qty lv = (\<Sum>i\<leftarrow>xs. snd (entry_of m i))"

lemma entry_of_same_data: "same_data m m' \<Longrightarrow> entry_of m' i = entry_of m i"
  using same_data_Some[of m m' i] same_data_Some[of m' m i] same_data_sym[of m m']
  by (cases "m i"; cases "m' i") (auto simp: entry_of_def)

lemma queue_ok_cong:
  assumes "\<And>i. i \<in> set xs \<Longrightarrow> m' i = m i"
  shows "queue_ok m' s t lv xs = queue_ok m s t lv xs"
proof -
  have "fifo m' lv xs = fifo m lv xs"
    using dll_cong[of xs m' m] assms by (simp add: fifo_def)
  moreover have "(\<Sum>i\<leftarrow>xs. snd (entry_of m' i)) = (\<Sum>i\<leftarrow>xs. snd (entry_of m i))"
    using assms by (intro arg_cong[of _ _ sum_list] map_cong) (auto simp: entry_of_def)
  ultimately show ?thesis using assms by (simp add: queue_ok_def)
qed

lemma queue_ok_qty:
  assumes "queue_ok m s t lv xs"
  shows "lv_qty lv = 0 \<longleftrightarrow> xs = []" and "i \<in> set xs \<Longrightarrow> m i = Some (g, ord) \<Longrightarrow> o_qty ord \<le> lv_qty lv"
    and "0 \<le> lv_qty lv"
proof -
  have q: "lv_qty lv = (\<Sum>i\<leftarrow>xs. snd (entry_of m i))" using assms by (simp add: queue_ok_def)
  have pos: "0 < snd (entry_of m i)" if "i \<in> set xs" for i
    using assms that by (fastforce simp: queue_ok_def entry_of_def)
  show nn: "0 \<le> lv_qty lv" unfolding q using pos by (intro sum_list_nonneg) (auto simp: less_imp_le)
  show "lv_qty lv = 0 \<longleftrightarrow> xs = []"
  proof
    assume z: "lv_qty lv = 0"
    show "xs = []"
    proof (rule ccontr)
      assume "xs \<noteq> []"
      then obtain x ys where xs: "xs = x # ys" by (cases xs) auto
      have "0 \<le> (\<Sum>i\<leftarrow>ys. snd (entry_of m i))" using pos xs by (intro sum_list_nonneg) (auto simp: less_imp_le)
      then show False using z q pos[of x] xs by simp
    qed
  qed (simp add: q)
  show "o_qty ord \<le> lv_qty lv" if "i \<in> set xs" "m i = Some (g, ord)"
  proof -
    have "snd (entry_of m i) \<le> (\<Sum>i\<leftarrow>xs. snd (entry_of m i))"
      using that(1) pos by (intro member_le_sum_list) (auto simp: less_imp_le)
    then show ?thesis using that(2) q by (simp add: entry_of_def)
  qed
qed

section \<open>References and handles\<close>

definition ids_ok :: "(u64 \<rightharpoonup> gen_handle) \<Rightarrow> store \<Rightarrow> bool" where
  "ids_ok ids m \<longleftrightarrow>
     (\<forall>ref h. ids ref = Some h \<longrightarrow>
        (\<exists>ord. m (h_index h) = Some (h_generation h, ord) \<and> o_ref ord = ref)) \<and>
     (\<forall>i g ord. m i = Some (g, ord) \<longrightarrow> ids (o_ref ord) = Some \<lparr> h_index = i, h_generation = g \<rparr>)"

lemma ids_ok_handle: "ids_ok ids m \<Longrightarrow> m i = Some (g, ord) \<Longrightarrow> ids (o_ref ord) = Some \<lparr> h_index = i, h_generation = g \<rparr>"
  by (auto simp: ids_ok_def)

lemma ids_ok_ref:
  "ids_ok ids m \<Longrightarrow> ids ref = Some h \<Longrightarrow> \<exists>ord. m (h_index h) = Some (h_generation h, ord) \<and> o_ref ord = ref"
  by (auto simp: ids_ok_def)

lemma ids_ok_inj:
  "ids_ok ids m \<Longrightarrow> m i = Some (g, ord) \<Longrightarrow> m j = Some (g', ord') \<Longrightarrow> o_ref ord = o_ref ord' \<Longrightarrow> i = j"
  using ids_ok_handle[of ids m i g ord] ids_ok_handle[of ids m j g' ord'] by simp

lemma ids_ok_same_data:
  assumes "ids_ok ids m" and "same_data m m'"
  shows "ids_ok ids m'"
  unfolding ids_ok_def
proof (intro conjI allI impI)
  fix ref h assume "ids ref = Some h"
  then obtain ord where "m (h_index h) = Some (h_generation h, ord)" "o_ref ord = ref"
    using ids_ok_ref[OF assms(1)] by blast
  then show "\<exists>ord. m' (h_index h) = Some (h_generation h, ord) \<and> o_ref ord = ref"
    using same_data_Some[OF assms(2)] by metis
next
  fix i g ord assume "m' i = Some (g, ord)"
  then obtain ord' where "m i = Some (g, ord')" "o_ref ord' = o_ref ord"
    using same_data_Some[OF same_data_sym[OF assms(2)]] by metis
  then show "ids (o_ref ord) = Some \<lparr> h_index = i, h_generation = g \<rparr>"
    using ids_ok_handle[OF assms(1)] by metis
qed

lemma ids_ok_insert:
  assumes ok: "ids_ok ids m" and i: "m i = None" and r: "ids (o_ref ord) = None"
  shows "ids_ok (ids(o_ref ord \<mapsto> \<lparr> h_index = i, h_generation = g \<rparr>)) (m(i \<mapsto> (g, ord)))"
  unfolding ids_ok_def
proof (intro conjI allI impI)
  fix ref h assume a: "(ids(o_ref ord \<mapsto> \<lparr> h_index = i, h_generation = g \<rparr>)) ref = Some h"
  show "\<exists>ord'. (m(i \<mapsto> (g, ord))) (h_index h) = Some (h_generation h, ord') \<and> o_ref ord' = ref"
  proof (cases "ref = o_ref ord")
    case True
    then show ?thesis using a by auto
  next
    case False
    then obtain ord' where o: "m (h_index h) = Some (h_generation h, ord')" "o_ref ord' = ref"
      using a ids_ok_ref[OF ok] by (metis fun_upd_other)
    then have "h_index h \<noteq> i" using i by auto
    then show ?thesis using o by simp
  qed
next
  fix j g' ord' assume a: "(m(i \<mapsto> (g, ord))) j = Some (g', ord')"
  show "(ids(o_ref ord \<mapsto> \<lparr> h_index = i, h_generation = g \<rparr>)) (o_ref ord') = Some \<lparr> h_index = j, h_generation = g' \<rparr>"
  proof (cases "j = i")
    case False
    then have "ids (o_ref ord') = Some \<lparr> h_index = j, h_generation = g' \<rparr>"
      using a ids_ok_handle[OF ok] by simp
    then show ?thesis using r by auto
  qed (use a in auto)
qed

lemma ids_ok_erase:
  assumes ok: "ids_ok ids m" and i: "m i = Some (g, ord)"
  shows "ids_ok (ids(o_ref ord := None)) (m(i := None))"
  unfolding ids_ok_def
proof (intro conjI allI impI)
  fix ref h assume a: "(ids(o_ref ord := None)) ref = Some h"
  then have n: "ref \<noteq> o_ref ord" "ids ref = Some h" by (auto split: if_splits)
  then obtain ord' where o: "m (h_index h) = Some (h_generation h, ord')" "o_ref ord' = ref"
    using ids_ok_ref[OF ok] by blast
  then have "h_index h \<noteq> i" using i n by auto
  then show "\<exists>ord'. (m(i := None)) (h_index h) = Some (h_generation h, ord') \<and> o_ref ord' = ref"
    using o by simp
next
  fix j g' ord' assume "(m(i := None)) j = Some (g', ord')"
  then have j: "j \<noteq> i" "m j = Some (g', ord')" by (auto split: if_splits)
  then have "o_ref ord' \<noteq> o_ref ord" using ids_ok_inj[OF ok j(2) i] by blast
  then show "(ids(o_ref ord := None)) (o_ref ord') = Some \<lparr> h_index = j, h_generation = g' \<rparr>"
    using ids_ok_handle[OF ok j(2)] by simp
qed

section \<open>The invariant\<close>

definition bk_store :: "book \<Rightarrow> store" where
  "bk_store bk = arena_map (bk_arena bk)"

definition queues_ok :: "store \<Rightarrow> book \<Rightarrow> queues \<Rightarrow> bool" where
  "queues_ok m bk Q \<longleftrightarrow>
     (\<forall>s t. s \<noteq> BadSide \<longrightarrow> queue_ok m s t (lad_level (ladder_for s bk) t) (Q s t)) \<and>
     (\<forall>t. Q BadSide t = []) \<and>
     (\<forall>i \<in> dom m. \<exists>s t. i \<in> set (Q s t))"

definition best_ok :: "book \<Rightarrow> bool" where
  "best_ok bk \<longleftrightarrow> greatest_tick (bk_best_bid bk) (lad_occupied (bk_bid bk)) \<and>
     least_tick (bk_best_ask bk) (lad_occupied (bk_ask bk))"

definition book_inv :: "book \<Rightarrow> queues \<Rightarrow> bool" where
  "book_inv bk Q \<longleftrightarrow>
     arena_inv (bk_arena bk) \<and> lad_inv (bk_bid bk) \<and> lad_inv (bk_ask bk) \<and> id_inv (bk_ids bk) \<and>
     ld_lo (bk_ask bk) = ld_lo (bk_bid bk) \<and> ld_hi (bk_ask bk) = ld_hi (bk_bid bk) \<and>
     ids_ok (id_map (bk_ids bk)) (bk_store bk) \<and>
     it_size (bk_ids bk) = ar_live (bk_arena bk) \<and>
     ar_capacity (bk_arena bk) * 2 \<le> it_cap (bk_ids bk) \<and>
     queues_ok (bk_store bk) bk Q \<and> best_ok bk"

definition abs_book :: "store \<Rightarrow> queues \<Rightarrow> abook" where
  "abs_book m Q s t = map (entry_of m) (Q s t)"

text \<open>A concrete book represents an abstract one.\<close>

definition book_rel :: "book \<Rightarrow> abook \<Rightarrow> bool" where
  "book_rel bk A \<longleftrightarrow> (\<exists>Q. book_inv bk Q \<and> A = abs_book (bk_store bk) Q)"

lemma book_inv_dests [wf_dests]:
  assumes "book_inv bk Q"
  shows "arena_inv (bk_arena bk)" "lad_inv (bk_bid bk)" "lad_inv (bk_ask bk)" "id_inv (bk_ids bk)"
    "lad_inv (ladder_for s bk)" "ids_ok (id_map (bk_ids bk)) (bk_store bk)"
    "queues_ok (bk_store bk) bk Q" "best_ok bk"
  using assms by (auto simp: book_inv_def ladder_for_def)

lemma queues_ok_queue:
  "queues_ok m bk Q \<Longrightarrow> s \<noteq> BadSide \<Longrightarrow> queue_ok m s t (lad_level (ladder_for s bk) t) (Q s t)"
  by (simp add: queues_ok_def)

lemma to_wire_eq [simp]: "to_wire s = to_wire s' \<longleftrightarrow> s = s'"
  by (cases s; cases s') auto

text \<open>Every queued order knows its side and price, so the queues are disjoint.\<close>

lemma queued_order:
  assumes "queues_ok m bk Q" and "i \<in> set (Q s t)"
  shows "s \<noteq> BadSide \<and> (\<exists>g ord. m i = Some (g, ord) \<and> o_price ord = t \<and> o_side ord = to_wire s \<and> 0 < o_qty ord)"
proof -
  have "s \<noteq> BadSide" using assms by (auto simp: queues_ok_def)
  with queues_ok_queue[OF assms(1) this, of t] assms(2) show ?thesis by (auto simp: queue_ok_def)
qed

lemma queued_disjoint:
  assumes "queues_ok m bk Q" and "i \<in> set (Q s t)" and "i \<in> set (Q s' t')"
  shows "s = s' \<and> t = t'"
  using queued_order[OF assms(1,2)] queued_order[OF assms(1,3)] by auto

lemma queued_at:
  assumes "queues_ok m bk Q" and "m i = Some (g, ord)"
  shows "\<exists>s. s \<noteq> BadSide \<and> o_side ord = to_wire s \<and> i \<in> set (Q s (o_price ord)) \<and> 0 < o_qty ord \<and>
     (if o_side ord = ch_B then Buy else Sell) = s"
proof -
  from assms obtain s t where "i \<in> set (Q s t)" unfolding queues_ok_def by (metis domI)
  with queued_order[OF assms(1) this] assms(2) show ?thesis by (cases s) auto
qed

lemma occupied_iff:
  assumes "queues_ok m bk Q" and "s \<noteq> BadSide"
  shows "t \<in> lad_occupied (ladder_for s bk) \<longleftrightarrow> Q s t \<noteq> []"
  using queue_ok_qty(1)[OF queues_ok_queue[OF assms, of t]] by (simp add: lad_occupied_def)

text \<open>A queue determines the list of its indices.\<close>

lemma dll_unique:
  assumes "dll m p xs n" "dll m p' ys n'" "hd_or n xs = hd_or n' ys" "n \<notin> dom m" "n' \<notin> dom m" "n = n'"
  shows "xs = ys"
  using assms
proof (induction xs arbitrary: p p' ys)
  case Nil
  then show ?case by (cases ys) auto
next
  case (Cons x xs)
  then obtain y ys' where "ys = y # ys'" by (cases ys) auto
  with Cons.prems have "y = x" "dll m x xs n" "dll m x ys' n'" "hd_or n xs = hd_or n' ys'" by auto
  with Cons \<open>ys = y # ys'\<close> show ?case by auto
qed

lemma fifo_unique:
  "fifo m lv xs \<Longrightarrow> fifo m lv ys \<Longrightarrow> kNullIndex \<notin> dom m \<Longrightarrow> xs = ys"
  by (auto simp: fifo_def intro: dll_unique)

section \<open>The abstract operations\<close>

definition spec_add :: "side \<Rightarrow> int \<Rightarrow> u64 \<Rightarrow> int \<Rightarrow> abook \<Rightarrow> abook" where
  "spec_add s t ref qty A = A(s := (A s)(t := A s t @ [(ref, qty)]))"

fun reduce_entry :: "u64 \<Rightarrow> int \<Rightarrow> (u64 \<times> int) list \<Rightarrow> (u64 \<times> int) list" where
  "reduce_entry ref qty [] = []"
| "reduce_entry ref qty ((r, q) # xs) =
     (if r = ref then (if q = qty then xs else (r, q - qty) # xs)
      else (r, q) # reduce_entry ref qty xs)"

definition spec_reduce :: "side \<Rightarrow> int \<Rightarrow> u64 \<Rightarrow> int \<Rightarrow> abook \<Rightarrow> abook" where
  "spec_reduce s t ref qty A = A(s := (A s)(t := reduce_entry ref qty (A s t)))"

lemma reduce_entry_append:
  "ref \<notin> fst ` set xs \<Longrightarrow> reduce_entry ref qty (xs @ (ref, q) # ys) =
     xs @ (if q = qty then ys else (ref, q - qty) # ys)"
  by (induction xs) auto

text \<open>Total quantity and best prices of the abstract book.\<close>

definition level_qty :: "abook \<Rightarrow> side \<Rightarrow> int \<Rightarrow> int" where
  "level_qty A s t = (\<Sum>(r, q)\<leftarrow>A s t. q)"

lemma abs_level_qty:
  assumes "book_inv bk Q" and "s \<noteq> BadSide"
  shows "lv_qty (lad_level (ladder_for s bk) t) = level_qty (abs_book (bk_store bk) Q) s t"
  using queues_ok_queue[OF book_inv_dests(7)[OF assms(1)] assms(2), of t]
  by (simp add: queue_ok_def level_qty_def abs_book_def comp_def split_beta)

end
