(* ===== verification/BookOps.thy ===== *)
theory BookOps
  imports BookInv
begin

text \<open>
  The mutating operations of the book against the abstract book: an accepted order joins the tail
  of its queue, an execution or removal reduces one entry in place, everything else stays, no
  contract fails and the invariant holds again.
\<close>

section \<open>Deltas and lookups\<close>

definition delta_room :: "deltas \<Rightarrow> bool" where
  "delta_room ds \<longleftrightarrow> (case ds of None \<Rightarrow> True | Some xs \<Rightarrow> length xs < 3)"

definition with_delta :: "level_delta \<Rightarrow> deltas \<Rightarrow> deltas" where
  "with_delta d ds = map_option (\<lambda>xs. xs @ [d]) ds"

lemma emit_delta_room: "delta_room ds \<Longrightarrow> emit_delta d ds = Some (with_delta d ds)"
  by (simp add: emit_delta_def with_delta_def delta_room_def split: option.splits)

definition mk_delta :: "int \<Rightarrow> int \<Rightarrow> side \<Rightarrow> level_delta" where
  "mk_delta t q s = \<lparr> ld_price_ticks = t, ld_qty_delta = to_int32 q, ld_side = to_wire s \<rparr>"

text \<open>A reference rests at a side and tick with a remaining quantity.\<close>

definition resting :: "abook \<Rightarrow> u64 \<Rightarrow> side \<Rightarrow> int \<Rightarrow> int \<Rightarrow> bool" where
  "resting A ref s t q \<longleftrightarrow> (ref, q) \<in> set (A s t)"

definition refs_of :: "abook \<Rightarrow> u64 set" where
  "refs_of A = {r. \<exists>s t q. resting A r s t q}"

lemma refs_of_iff:
  assumes inv: "book_inv bk Q"
  shows "r \<in> refs_of (abs_book (bk_store bk) Q) \<longleftrightarrow> id_map (bk_ids bk) r \<noteq> None"
proof
  assume "r \<in> refs_of (abs_book (bk_store bk) Q)"
  then obtain s t i where i: "i \<in> set (Q s t)" "r = fst (entry_of (bk_store bk) i)"
    by (auto simp: refs_of_def resting_def abs_book_def) (metis fst_conv)
  from queued_order[OF book_inv_dests(7)[OF inv] i(1)] obtain g ord where o: "bk_store bk i = Some (g, ord)"
    by blast
  then show "id_map (bk_ids bk) r \<noteq> None"
    using i(2) ids_ok_handle[OF book_inv_dests(6)[OF inv] o] by (simp add: entry_of_def)
next
  assume "id_map (bk_ids bk) r \<noteq> None"
  then obtain h where h: "id_map (bk_ids bk) r = Some h" by blast
  from ids_ok_ref[OF book_inv_dests(6)[OF inv] h] obtain ord where
    o: "bk_store bk (h_index h) = Some (h_generation h, ord)" "o_ref ord = r" by blast
  from queued_at[OF book_inv_dests(7)[OF inv] o(1)] obtain s where
    "h_index h \<in> set (Q s (o_price ord))" by blast
  then have "(r, o_qty ord) \<in> set (abs_book (bk_store bk) Q s (o_price ord))"
    using o by (force simp: abs_book_def entry_of_def)
  then show "r \<in> refs_of (abs_book (bk_store bk) Q)" by (auto simp: refs_of_def resting_def)
qed

lemma resting_order:
  assumes inv: "book_inv bk Q" and r: "resting (abs_book (bk_store bk) Q) ref s t q"
  shows "\<exists>i g ord. bk_store bk i = Some (g, ord) \<and> i \<in> set (Q s t) \<and> o_ref ord = ref \<and> o_qty ord = q \<and>
     o_price ord = t \<and> o_side ord = to_wire s \<and> s \<noteq> BadSide \<and> 0 < q \<and>
     id_map (bk_ids bk) ref = Some \<lparr> h_index = i, h_generation = g \<rparr>"
proof -
  from r obtain i where i: "i \<in> set (Q s t)" "entry_of (bk_store bk) i = (ref, q)"
    by (auto simp: resting_def abs_book_def)
  from queued_order[OF book_inv_dests(7)[OF inv] i(1)] obtain g ord where
    o: "s \<noteq> BadSide" "bk_store bk i = Some (g, ord)" "o_price ord = t" "o_side ord = to_wire s" "0 < o_qty ord"
    by blast
  then show ?thesis using i ids_ok_handle[OF book_inv_dests(6)[OF inv] o(2)]
    by (auto simp: entry_of_def)
qed

lemma resting_unique:
  assumes inv: "book_inv bk Q" and "resting (abs_book (bk_store bk) Q) ref s t q"
    "resting (abs_book (bk_store bk) Q) ref s' t' q'"
  shows "s = s'" "t = t'" "q = q'"
proof -
  from resting_order[OF inv assms(2)] obtain i g ord where a: "bk_store bk i = Some (g, ord)"
    "i \<in> set (Q s t)" "o_ref ord = ref" "o_qty ord = q" by blast
  from resting_order[OF inv assms(3)] obtain j g' ord' where b: "bk_store bk j = Some (g', ord')"
    "j \<in> set (Q s' t')" "o_ref ord' = ref" "o_qty ord' = q'" by blast
  have "i = j" using ids_ok_inj[OF book_inv_dests(6)[OF inv] a(1) b(1)] a(3) b(3) by simp
  then show "s = s'" "t = t'" "q = q'"
    using a b queued_disjoint[OF book_inv_dests(7)[OF inv] a(2)] by auto
qed

section \<open>Adding an order\<close>

lemma set_ladder_simps [simp]:
  "bk_arena (set_ladder s l bk) = bk_arena bk" "bk_ids (set_ladder s l bk) = bk_ids bk"
  "bk_best_bid (set_ladder s l bk) = bk_best_bid bk" "bk_best_ask (set_ladder s l bk) = bk_best_ask bk"
  "bk_bid (set_ladder s l bk) = (if s = Buy then l else bk_bid bk)"
  "bk_ask (set_ladder s l bk) = (if s = Buy then bk_ask bk else l)"
  by (simp_all add: set_ladder_def)

lemma greatest_tick_insert:
  assumes "greatest_tick r S" "kNoTick \<notin> S" "t \<noteq> kNoTick"
  shows "greatest_tick (if r = kNoTick \<or> t > r then t else r) (insert t S)"
  using assms by (auto simp: greatest_tick_def)

lemma least_tick_insert:
  assumes "least_tick r S" "kNoTick \<notin> S" "t \<noteq> kNoTick"
  shows "least_tick (if r = kNoTick \<or> t < r then t else r) (insert t S)"
  using assms by (auto simp: least_tick_def)

lemma knotick_unoccupied: "lad_inv l \<Longrightarrow> kNoTick \<notin> lad_occupied l"
  using occupied_addr(5)[of l kNoTick] by blast

lemma in_band_knotick:
  assumes "lad_inv l" and "lad_in_band l t"
  shows "t \<noteq> kNoTick"
proof -
  have "ld_hi l \<le> int64_max" using assms(1) unfolding lad_inv_def by blast
  then show ?thesis using assms(2) by (simp add: lad_in_band_def kNoTick_def)
qed

lemma occupied_upd:
  "lad_level l' = (lad_level l)(t := lv) \<Longrightarrow>
     lad_occupied l' = (if lv_qty lv \<noteq> 0 then insert t (lad_occupied l) else lad_occupied l - {t})"
  by (auto simp: lad_occupied_def split: if_splits)

text \<open>Replacing one ladder level and one queue, the store changing only at that queue.\<close>

lemma queues_ok_update:
  assumes q: "queues_ok m bk Q" and s: "s \<noteq> BadSide"
    and lev: "lad_level (ladder_for s bk') = (lad_level (ladder_for s bk))(t := lv)"
    and other: "\<And>s'. s' \<noteq> s \<Longrightarrow> s' \<noteq> BadSide \<Longrightarrow> lad_level (ladder_for s' bk') = lad_level (ladder_for s' bk)"
    and new: "queue_ok m' s t lv xs"
    and outside: "\<And>i s' t'. i \<in> set (Q s' t') \<Longrightarrow> (s', t') \<noteq> (s, t) \<Longrightarrow> m' i = m i"
    and cover: "dom m' \<subseteq> (dom m - set (Q s t)) \<union> set xs"
  shows "queues_ok m' bk' (Q(s := (Q s)(t := xs)))"
  unfolding queues_ok_def
proof (intro conjI allI impI ballI)
  fix s' t' assume s': "s' \<noteq> BadSide"
  show "queue_ok m' s' t' (lad_level (ladder_for s' bk') t') ((Q(s := (Q s)(t := xs))) s' t')"
  proof (cases "(s', t') = (s, t)")
    case True
    then show ?thesis using new lev by simp
  next
    case False
    have "queue_ok m' s' t' (lad_level (ladder_for s' bk) t') (Q s' t')"
      using queue_ok_cong[of "Q s' t'" m' m] outside[OF _ False] queues_ok_queue[OF q s'] by blast
    moreover have "lad_level (ladder_for s' bk') t' = lad_level (ladder_for s' bk) t'"
      using lev other[of s'] s' False by (cases "s' = s") auto
    ultimately show ?thesis using False by auto
  qed
next
  fix t' show "(Q(s := (Q s)(t := xs))) BadSide t' = []" using q s by (auto simp: queues_ok_def)
next
  fix i assume "i \<in> dom m'"
  then consider "i \<in> set xs" | "i \<in> dom m" "i \<notin> set (Q s t)" using cover by blast
  then show "\<exists>s' t'. i \<in> set ((Q(s := (Q s)(t := xs))) s' t')"
  proof cases
    case 1
    then show ?thesis by (intro exI[of _ s] exI[of _ t]) simp
  next
    case 2
    then obtain s' t' where "i \<in> set (Q s' t')" using q unfolding queues_ok_def by blast
    with 2 show ?thesis by (intro exI[of _ s'] exI[of _ t']) auto
  qed
qed

lemma abs_book_update:
  assumes outside: "\<And>i s' t'. i \<in> set (Q s' t') \<Longrightarrow> (s', t') \<noteq> (s, t) \<Longrightarrow> m' i = m i"
  shows "abs_book m' (Q(s := (Q s)(t := xs))) =
     (abs_book m Q)(s := (abs_book m Q s)(t := map (entry_of m') xs))"
proof (intro ext)
  fix s' t'
  show "abs_book m' (Q(s := (Q s)(t := xs))) s' t' =
     ((abs_book m Q)(s := (abs_book m Q s)(t := map (entry_of m') xs))) s' t'"
    using outside[of _ s' t'] by (auto simp: abs_book_def entry_of_def)
qed

text \<open>The best price after a level changed, by side.\<close>

definition better_best :: "side \<Rightarrow> int \<Rightarrow> book \<Rightarrow> book" where
  "better_best s price bk =
     (if s = Buy
      then (if bk_best_bid bk = kNoTick \<or> price > bk_best_bid bk then bk\<lparr> bk_best_bid := price \<rparr> else bk)
      else (if bk_best_ask bk = kNoTick \<or> price < bk_best_ask bk then bk\<lparr> bk_best_ask := price \<rparr> else bk))"

lemma better_best_simps [simp]:
  "bk_arena (better_best s p bk) = bk_arena bk" "bk_ids (better_best s p bk) = bk_ids bk"
  "bk_bid (better_best s p bk) = bk_bid bk" "bk_ask (better_best s p bk) = bk_ask bk"
  by (simp_all add: better_best_def)

definition add_accepted :: "book \<Rightarrow> abook \<Rightarrow> u64 \<Rightarrow> side \<Rightarrow> int \<Rightarrow> int \<Rightarrow> bool" where
  "add_accepted bk A ref s qty price \<longleftrightarrow>
     ref \<noteq> 0 \<and> 0 < qty \<and> book_in_band bk price \<and> claimable (ladder_for s bk) price \<and>
     ref \<notin> refs_of A \<and> live_orders bk < ar_capacity (bk_arena bk)"

lemma book_add_correct:
  assumes inv: "book_inv bk Q" and s: "s \<noteq> BadSide"
    and acc: "add_accepted bk (abs_book (bk_store bk) Q) ref s qty price"
    and fits: "level_qty (abs_book (bk_store bk) Q) s price + qty \<le> int64_max"
    and ds: "delta_room ds"
  shows "\<exists>bk' Q'. book_add ref s qty price ds bk =
       Some (book_event Added price qty s, with_delta (mk_delta price qty s) ds, bk') \<and>
     book_inv bk' Q' \<and>
     abs_book (bk_store bk') Q' = spec_add s price ref qty (abs_book (bk_store bk) Q) \<and>
     live_orders bk' = live_orders bk + 1 \<and> ar_capacity (bk_arena bk') = ar_capacity (bk_arena bk) \<and>
     book_in_band bk' = book_in_band bk"
proof -
  let ?m = "bk_store bk" and ?l = "ladder_for s bk" and ?xs = "Q s price"
  note d = book_inv_dests[OF inv]
  from acc have r0: "ref \<noteq> 0" and q0: "0 < qty" and band: "book_in_band bk price"
    and cl: "claimable ?l price" and fresh: "ref \<notin> refs_of (abs_book ?m Q)"
    and room: "ar_live (bk_arena bk) < ar_capacity (bk_arena bk)"
    by (auto simp: add_accepted_def live_orders_def)
  have band': "lad_in_band ?l price"
    using band inv by (auto simp: book_in_band_def lad_in_band_def ladder_for_def book_inv_def)
  have none: "id_map (bk_ids bk) ref = None" using fresh refs_of_iff[OF inv] by blast
  from idt.find_absent[OF d(4) r0 none] obtain slot where
    slot: "id_find_slot (bk_ids bk) ref = Some (slot, null_handle)" by blast
  let ?ord = "\<lparr> o_ref = ref, o_qty = qty, o_price = price, o_prev = kNullIndex, o_next = kNullIndex,
               o_side = to_wire s \<rparr>"
  obtain h ar1 where acq: "arena_acquire ?ord (bk_arena bk) = (h, ar1)" by (cases "arena_acquire ?ord (bk_arena bk)")
  note aq = arena_acquire_room[OF d(1) room acq]
  let ?i = "h_index h" and ?g = "h_generation h"
  have ih: "?i \<noteq> kNullIndex" using aq d(1) by (auto simp: arena_inv_def)
  have m1: "arena_map ar1 = ?m(?i \<mapsto> (?g, ?ord))" "?m ?i = None"
    using aq by (auto simp: bk_store_def)
  have size: "(it_size (bk_ids bk) + 1) * 2 \<le> it_cap (bk_ids bk)"
    using inv room by (auto simp: book_inv_def)
  from idt.insert_law[OF d(4) r0 slot none size ih] obtain ids' where
    ids': "id_insert_at (bk_ids bk) slot ref h = Some ids'" "id_inv ids'"
    "id_map ids' = (id_map (bk_ids bk))(ref \<mapsto> h)" "it_size ids' = it_size (bk_ids bk) + 1"
    "it_cap ids' = it_cap (bk_ids bk)" by blast
  have qok: "queue_ok ?m s price (lad_level ?l price) ?xs" using queues_ok_queue[OF d(7) s] .
  have lq: "lv_qty (lad_level ?l price) = level_qty (abs_book ?m Q) s price" using abs_level_qty[OF inv s] .
  have "0 \<le> lv_qty (lad_level ?l price) + qty" "lv_qty (lad_level ?l price) + qty \<le> int64_max" "qty \<noteq> 0"
    using queue_ok_qty(3)[OF qok] q0 fits lq by auto
  from lad_apply_correct[OF d(5) band' cl this(3,1,2)] obtain a l1 where
    ap: "lad_apply ?l price qty = Some (a, l1)" "lad_inv l1" "lad_frame ?l l1" "lad_peek l1 price = Some a"
    "lad_get l1 a = (lad_level ?l price)\<lparr> lv_qty := lv_qty (lad_level ?l price) + qty \<rparr>"
    "lad_level l1 = (lad_level ?l)(price := lad_get l1 a)" by metis
  let ?lv1 = "lad_get l1 a"
  have notin: "?i \<notin> set ?xs" using qok m1(2) by (fastforce simp: queue_ok_def)
  have "fifo (arena_map ar1) ?lv1 ?xs"
  proof -
    have "fifo ?m ?lv1 ?xs" using qok by (simp add: queue_ok_def fifo_def ap(5))
    moreover have "dll (arena_map ar1) kNullIndex ?xs kNullIndex = dll ?m kNullIndex ?xs kNullIndex"
      using notin by (intro dll_cong) (auto simp: m1)
    ultimately show ?thesis by (simp add: fifo_def)
  qed
  moreover have "arena_map ar1 ?i = Some (?g, ?ord)" by (simp add: m1)
  ultimately obtain lv2 ar2 where pt: "push_tail ?lv1 ?i ar1 = Some (lv2, ar2)" "arena_inv ar2"
    "ar_capacity ar2 = ar_capacity ar1" "ar_live ar2 = ar_live ar1"
    "fifo (arena_map ar2) lv2 (?xs @ [?i])" "lv_qty lv2 = lv_qty ?lv1"
    "same_data (arena_map ar1) (arena_map ar2)"
    "\<forall>j. j \<notin> insert ?i (set ?xs) \<longrightarrow> arena_map ar2 j = arena_map ar1 j"
    using push_tail_correct[OF conjunct1[OF aq] _ _ notin] by metis
  have lvq: "lv_qty lv2 = lv_qty (lad_level l1 price)" using pt(6) ap(6) by simp
  note put = lad_put_correct[OF ap(2,4) lvq]
  let ?l2 = "lad_put a lv2 l1" and ?m2 = "arena_map ar2"
  let ?bk1 = "(set_ladder s ?l2 bk)\<lparr> bk_arena := ar2, bk_ids := ids' \<rparr>"
  let ?bk2 = "better_best s price ?bk1"
  let ?Q = "Q(s := (Q s)(price := ?xs @ [?i]))"
  have res: "book_add ref s qty price ds bk =
      Some (book_event Added price qty s, with_delta (mk_delta price qty s) ds, ?bk2)"
    using r0 q0 band cl slot acq ih ids'(1) ap(1) pt(1) emit_delta_room[OF ds]
    by (simp add: book_add_def null_handle_def is_null_def better_best_def mk_delta_def Let_def)
  have store2: "bk_store ?bk2 = ?m2" by (simp add: bk_store_def)
  have lad2: "lad_level (ladder_for s ?bk2) = (lad_level ?l)(price := lv2)"
    using put(2) ap(6) by (auto simp: ladder_for_def)
  have lad2': "ladder_for s' ?bk2 = ladder_for s' bk" if "s' \<noteq> s" "s' \<noteq> BadSide" for s'
    using that s by (cases s; cases s') (auto simp: ladder_for_def)
  have e2: "entry_of ?m2 j = entry_of (?m(?i \<mapsto> (?g, ?ord))) j" for j
    using entry_of_same_data[OF pt(7)] by (simp add: m1)
  have ents: "map (entry_of ?m2) (?xs @ [?i]) = map (entry_of ?m) ?xs @ [(ref, qty)]"
    unfolding e2 using notin by (auto simp: entry_of_def)
  have outside: "?m2 j = ?m j" if "j \<in> set (Q s' t')" "(s', t') \<noteq> (s, price)" for j s' t'
  proof -
    have "j \<notin> set ?xs" using queued_disjoint[OF d(7) that(1), of s price] that(2) by auto
    moreover have "j \<noteq> ?i" using queued_order[OF d(7) that(1)] m1(2) by auto
    ultimately show ?thesis using pt(8) by (simp add: m1)
  qed
  have newq: "queue_ok ?m2 s price lv2 (?xs @ [?i])"
    unfolding queue_ok_def
  proof (intro conjI ballI)
    show "fifo ?m2 lv2 (?xs @ [?i])" by (rule pt(5))
    have "map (\<lambda>j. snd (entry_of ?m2 j)) (?xs @ [?i]) = map snd (map (entry_of ?m2) (?xs @ [?i]))"
      by (simp add: comp_def)
    also have "\<dots> = map snd (map (entry_of ?m) ?xs @ [(ref, qty)])" unfolding ents ..
    finally have "(\<Sum>j\<leftarrow>?xs @ [?i]. snd (entry_of ?m2 j)) = sum_list (map snd (map (entry_of ?m) ?xs @ [(ref, qty)]))"
      by (rule arg_cong)
    then show "lv_qty lv2 = (\<Sum>j\<leftarrow>?xs @ [?i]. snd (entry_of ?m2 j))"
      using pt(6) ap(5) qok by (simp add: queue_ok_def comp_def)
    fix j assume j: "j \<in> set (?xs @ [?i])"
    have "\<exists>g ord. arena_map ar1 j = Some (g, ord) \<and> o_price ord = price \<and> o_side ord = to_wire s \<and> 0 < o_qty ord"
      using j qok q0 by (cases "j = ?i") (auto simp: m1 queue_ok_def)
    then show "\<exists>g ord. ?m2 j = Some (g, ord) \<and> o_price ord = price \<and> o_side ord = to_wire s \<and> 0 < o_qty ord"
      using same_data_Some[OF pt(7)] by metis
  qed
  have "dom ?m2 \<subseteq> (dom ?m - set ?xs) \<union> set (?xs @ [?i])"
    unfolding same_data_dom[OF pt(7)] m1 by auto
  then have qs: "queues_ok ?m2 ?bk2 ?Q"
    using queues_ok_update[OF d(7) s lad2 _ newq outside] lad2' by simp
  have ab: "abs_book ?m2 ?Q = spec_add s price ref qty (abs_book ?m Q)"
  proof -
    have "abs_book ?m2 ?Q = (abs_book ?m Q)(s := (abs_book ?m Q s)(price := map (entry_of ?m2) (?xs @ [?i])))"
      by (rule abs_book_update) (rule outside)
    then show ?thesis unfolding ents spec_add_def by (simp add: abs_book_def)
  qed
  have idok: "ids_ok (id_map ids') ?m2"
  proof -
    have hs: "\<lparr> h_index = ?i, h_generation = ?g \<rparr> = h" by (cases h) simp
    show ?thesis
      using ids_ok_same_data[OF ids_ok_insert[OF d(6) m1(2), of ?ord ?g] pt(7)[unfolded m1]] none
      by (simp add: ids'(3) hs)
  qed
  have occ: "lad_occupied (ladder_for s ?bk2) = insert price (lad_occupied ?l)"
    using occupied_upd[OF lad2] lvq ap(5,6) queue_ok_qty(3)[OF qok] q0 by simp
  have pnt: "price \<noteq> kNoTick" using in_band_knotick[OF d(5) band'] .
  have best: "best_ok ?bk2"
  proof (cases "s = Buy")
    case True
    have "greatest_tick (bk_best_bid ?bk2) (insert price (lad_occupied (bk_bid bk)))"
      using greatest_tick_insert[of "bk_best_bid bk", OF _ knotick_unoccupied[OF d(2)] pnt] d(8) True
      by (auto simp: better_best_def best_ok_def split: if_splits)
    then show ?thesis using True d(8) occ by (auto simp: best_ok_def better_best_def ladder_for_def)
  next
    case False
    have "least_tick (bk_best_ask ?bk2) (insert price (lad_occupied (bk_ask bk)))"
      using least_tick_insert[of "bk_best_ask bk", OF _ knotick_unoccupied[OF d(3)] pnt] d(8) False
      by (auto simp: better_best_def best_ok_def split: if_splits)
    then show ?thesis using False d(8) occ by (auto simp: best_ok_def better_best_def ladder_for_def)
  qed
  have fr: "lad_frame ?l ?l2" using lad_frame_trans[OF ap(3) put(4)] .
  have "book_inv ?bk2 ?Q"
    unfolding book_inv_def store2
    using inv put(1) pt aq ids' qs best idok fr
    by (auto simp: book_inv_def lad_frame_def ladder_for_def split: if_splits)
  moreover have "book_in_band ?bk2 = book_in_band bk"
    using fr by (auto simp: book_in_band_def lad_in_band_def lad_frame_def ladder_for_def fun_eq_iff)
  ultimately show ?thesis using res ab pt(3,4) aq store2
    by (intro exI[of _ ?bk2] exI[of _ ?Q]) (simp add: live_orders_def)
qed

end
