(* ===== verification/BookReduce.thy ===== *)
theory BookReduce
  imports BookOps
begin

text \<open>
  \<open>reduce\<close>, the one place where quantity leaves the book: a partial reduction rewrites the order,
  a full one unlinks it, frees its slot and erases its reference. Either way the queue changes by
  \<open>reduce_entry\<close>, and the best price moves to the next occupied tick when the level drained.
\<close>

lemma peek_claimable: "lad_peek l t = Some a \<Longrightarrow> lad_in_band l t \<and> claimable l t"
  by (auto simp: lad_peek_def claimable_def Let_def split: if_splits)

lemma erase_by_hint:
  assumes inv: "id_inv t" and v: "id_map t ref = Some h"
    and hint: "hint = kNullIndex \<or> (\<exists>f. id_find_slot t ref = Some (hint, f))"
  shows "\<exists>t'. (if hint \<noteq> kNullIndex then id_erase_at t hint else id_erase t ref) = Some t' \<and> id_inv t' \<and>
     id_map t' = (id_map t)(ref := None) \<and> it_size t' + 1 = it_size t \<and> it_cap t' = it_cap t"
proof (cases "hint = kNullIndex")
  case True
  from idt.find_present[OF inv v] obtain s where s: "id_find_slot t ref = Some (s, h)" by blast
  have "id_erase t ref = id_erase_at t s" using s idt.view_null[OF inv v] by (simp add: id_erase_def)
  then show ?thesis using True idt.erase_law[OF inv s v] by simp
next
  case False
  then obtain f where "id_find_slot t ref = Some (hint, f)" using hint by blast
  from idt.erase_law[OF inv this v] False show ?thesis by simp
qed

text \<open>What the body of \<open>reduce\<close> leaves behind, before deltas and best prices.\<close>

definition reduce_post ::
  "book \<Rightarrow> queues \<Rightarrow> side \<Rightarrow> int \<Rightarrow> u64 \<Rightarrow> int \<Rightarrow> level_addr \<Rightarrow> nat list \<Rightarrow> ladder \<Rightarrow> order arena \<Rightarrow> id_table \<Rightarrow> bool"
where
  "reduce_post bk Q s t ref qty a xs' l2 ar2 ids2 \<longleftrightarrow>
     lad_inv l2 \<and> lad_frame (ladder_for s bk) l2 \<and>
     (\<forall>x. claimable l2 x = claimable (ladder_for s bk) x) \<and>
     lad_level l2 = (lad_level (ladder_for s bk))(t := lad_get l2 a) \<and>
     lv_qty (lad_get l2 a) = lv_qty (lad_level (ladder_for s bk) t) - qty \<and>
     arena_inv ar2 \<and> ar_capacity ar2 = ar_capacity (bk_arena bk) \<and>
     id_inv ids2 \<and> it_cap ids2 = it_cap (bk_ids bk) \<and> it_size ids2 = ar_live ar2 \<and>
     ids_ok (id_map ids2) (arena_map ar2) \<and>
     queue_ok (arena_map ar2) s t (lad_get l2 a) xs' \<and>
     (\<forall>j. j \<notin> set (Q s t) \<longrightarrow> arena_map ar2 j = bk_store bk j) \<and>
     dom (arena_map ar2) \<subseteq> (dom (bk_store bk) - set (Q s t)) \<union> set xs' \<and>
     map (entry_of (arena_map ar2)) xs' = reduce_entry ref qty (map (entry_of (bk_store bk)) (Q s t))"

text \<open>The queue read as entries, split at the order.\<close>

lemma split_entries:
  assumes inv: "book_inv bk Q" and o: "bk_store bk i = Some (g, ord)"
    and xs: "Q s t = ys @ i # zs"
  shows "reduce_entry (o_ref ord) qty (map (entry_of (bk_store bk)) (Q s t)) =
     map (entry_of (bk_store bk)) ys @
       (if o_qty ord = qty then [] else [(o_ref ord, o_qty ord - qty)]) @ map (entry_of (bk_store bk)) zs"
    and "i \<notin> set ys" "i \<notin> set zs" "distinct (ys @ zs)"
proof -
  note d = book_inv_dests[OF inv]
  have s: "s \<noteq> BadSide" using xs d(7) by (auto simp: queues_ok_def)
  have dis: "distinct (Q s t)"
    using queues_ok_queue[OF d(7) s, of t] by (simp add: queue_ok_def fifo_def)
  then show iy: "i \<notin> set ys" and "i \<notin> set zs" "distinct (ys @ zs)" using xs by auto
  have "o_ref ord \<notin> fst ` set (map (entry_of (bk_store bk)) ys)"
  proof
    assume "o_ref ord \<in> fst ` set (map (entry_of (bk_store bk)) ys)"
    then obtain j where j: "j \<in> set ys" "o_ref ord = fst (entry_of (bk_store bk) j)" by auto
    then have "j \<in> set (Q s t)" using xs by simp
    from queued_order[OF d(7) this] obtain g' ord' where o': "bk_store bk j = Some (g', ord')" by blast
    have "o_ref ord' = o_ref ord" using j(2) o' by (simp add: entry_of_def)
    then have "j = i" by (rule ids_ok_inj[OF d(6) o' o])
    then show False using j(1) iy by simp
  qed
  note app = reduce_entry_append[OF this, of qty "o_qty ord" "map (entry_of (bk_store bk)) zs"]
  have "entry_of (bk_store bk) i = (o_ref ord, o_qty ord)" using o by (simp add: entry_of_def)
  then have "map (entry_of (bk_store bk)) (Q s t) =
      map (entry_of (bk_store bk)) ys @ (o_ref ord, o_qty ord) # map (entry_of (bk_store bk)) zs"
    unfolding xs by simp
  then show "reduce_entry (o_ref ord) qty (map (entry_of (bk_store bk)) (Q s t)) =
     map (entry_of (bk_store bk)) ys @
       (if o_qty ord = qty then [] else [(o_ref ord, o_qty ord - qty)]) @ map (entry_of (bk_store bk)) zs"
    using app by simp
qed

lemma reduce_partial:
  assumes inv: "book_inv bk Q" and o: "bk_store bk i = Some (g, ord)"
    and xs: "Q s t = ys @ i # zs" and q: "0 < qty" "qty < o_qty ord"
    and put: "arena_put i (ord\<lparr> o_qty := o_qty ord - qty \<rparr>) (bk_arena bk) = Some ar1"
    and l1: "lad_inv l1" "lad_frame (ladder_for s bk) l1" "\<forall>x. claimable l1 x = claimable (ladder_for s bk) x"
      "lad_get l1 a = (lad_level (ladder_for s bk) t)\<lparr> lv_qty := lv_qty (lad_level (ladder_for s bk) t) - qty \<rparr>"
      "lad_level l1 = (lad_level (ladder_for s bk))(t := lad_get l1 a)"
  shows "reduce_post bk Q s t (o_ref ord) qty a (Q s t) l1 ar1 (bk_ids bk) \<and>
     ar_live ar1 = live_orders bk"
proof -
  note d = book_inv_dests[OF inv]
  let ?m = "bk_store bk" and ?ord = "ord\<lparr> o_qty := o_qty ord - qty \<rparr>"
  have s: "s \<noteq> BadSide" using xs d(7) by (auto simp: queues_ok_def)
  have qok: "queue_ok ?m s t (lad_level (ladder_for s bk) t) (Q s t)" using queues_ok_queue[OF d(7) s] .
  from arena_put_correct[OF d(1) o[unfolded bk_store_def], of ?ord] put
  have ar1: "arena_inv ar1" "arena_map ar1 = ?m(i \<mapsto> (g, ?ord))"
    "ar_capacity ar1 = ar_capacity (bk_arena bk)" "ar_live ar1 = ar_live (bk_arena bk)"
    by (auto simp: bk_store_def)
  note sp = split_entries[OF inv o xs]
  have e: "entry_of (arena_map ar1) j = (if j = i then (o_ref ord, o_qty ord - qty) else entry_of ?m j)" for j
    by (simp add: ar1(2) entry_of_def)
  have ents: "map (entry_of (arena_map ar1)) (Q s t) = reduce_entry (o_ref ord) qty (map (entry_of ?m) (Q s t))"
    unfolding sp(1) using q sp(2,3) by (auto simp: xs e)
  have "fifo (arena_map ar1) (lad_get l1 a) (Q s t)"
  proof -
    have "dll (arena_map ar1) kNullIndex (Q s t) kNullIndex = dll ?m kNullIndex (Q s t) kNullIndex"
      by (rule dll_links_cong) (auto simp: ar1(2) o)
    then show ?thesis using qok by (simp add: queue_ok_def fifo_def l1(4))
  qed
  moreover have "\<forall>j\<in>set (Q s t). \<exists>g ord. arena_map ar1 j = Some (g, ord) \<and> o_price ord = t \<and>
      o_side ord = to_wire s \<and> 0 < o_qty ord"
  proof
    fix j assume j: "j \<in> set (Q s t)"
    from queued_order[OF d(7) j] obtain g' ord' where "?m j = Some (g', ord')" "o_price ord' = t"
      "o_side ord' = to_wire s" "0 < o_qty ord'" by blast
    then show "\<exists>g ord. arena_map ar1 j = Some (g, ord) \<and> o_price ord = t \<and> o_side ord = to_wire s \<and> 0 < o_qty ord"
      using q o by (cases "j = i") (auto simp: ar1(2))
  qed
  moreover have "(\<Sum>j\<leftarrow>Q s t. snd (entry_of (arena_map ar1) j)) = lv_qty (lad_get l1 a)"
  proof -
    have "lv_qty (lad_level (ladder_for s bk) t) = (\<Sum>j\<leftarrow>Q s t. snd (entry_of ?m j))"
      using qok by (simp add: queue_ok_def)
    moreover have "map (\<lambda>j. snd (entry_of (arena_map ar1) j)) ys = map (\<lambda>j. snd (entry_of ?m j)) ys"
      "map (\<lambda>j. snd (entry_of (arena_map ar1) j)) zs = map (\<lambda>j. snd (entry_of ?m j)) zs"
      using sp(2,3) by (auto simp: e)
    then have "(\<Sum>j\<leftarrow>ys. snd (entry_of (arena_map ar1) j)) = (\<Sum>j\<leftarrow>ys. snd (entry_of ?m j))"
      "(\<Sum>j\<leftarrow>zs. snd (entry_of (arena_map ar1) j)) = (\<Sum>j\<leftarrow>zs. snd (entry_of ?m j))"
      by (simp_all only:)
    moreover have "snd (entry_of ?m i) = o_qty ord" using o by (simp add: entry_of_def)
    moreover have "snd (entry_of (arena_map ar1) i) = o_qty ord - qty" by (simp add: e)
    ultimately show ?thesis unfolding xs by (simp add: l1(4))
  qed
  ultimately have newq: "queue_ok (arena_map ar1) s t (lad_get l1 a) (Q s t)" by (simp add: queue_ok_def)
  have "ids_ok (id_map (bk_ids bk)) (arena_map ar1)"
    unfolding ids_ok_def
  proof (intro conjI allI impI)
    fix ref h assume "id_map (bk_ids bk) ref = Some h"
    from ids_ok_ref[OF d(6) this] show
      "\<exists>ord. arena_map ar1 (h_index h) = Some (h_generation h, ord) \<and> o_ref ord = ref"
      using o by (auto simp: ar1(2))
  next
    fix j g' ord' assume "arena_map ar1 j = Some (g', ord')"
    then show "id_map (bk_ids bk) (o_ref ord') = Some \<lparr> h_index = j, h_generation = g' \<rparr>"
      using ids_ok_handle[OF d(6)] o by (auto simp: ar1(2) split: if_splits)
  qed
  moreover have "it_size (bk_ids bk) = ar_live ar1" using inv ar1(4) by (simp add: book_inv_def)
  moreover have "dom (arena_map ar1) \<subseteq> (dom ?m - set (Q s t)) \<union> set (Q s t)"
    using o by (auto simp: ar1(2))
  moreover have "\<forall>j. j \<notin> set (Q s t) \<longrightarrow> arena_map ar1 j = ?m j" by (auto simp: ar1(2) xs)
  moreover have "lv_qty (lad_get l1 a) = lv_qty (lad_level (ladder_for s bk) t) - qty" by (simp add: l1(4))
  ultimately have "reduce_post bk Q s t (o_ref ord) qty a (Q s t) l1 ar1 (bk_ids bk)"
    unfolding reduce_post_def using l1(1-3,5) ar1(1,3) d(4) newq ents by blast
  then show ?thesis using ar1(4) by (simp add: live_orders_def)
qed

lemma reduce_emptied:
  assumes inv: "book_inv bk Q" and o: "bk_store bk i = Some (g, ord)"
    and xs: "Q s t = ys @ i # zs" and q: "0 < qty" "qty = o_qty ord"
    and put: "arena_put i (ord\<lparr> o_qty := o_qty ord - qty \<rparr>) (bk_arena bk) = Some ar1"
    and l1: "lad_inv l1" "lad_frame (ladder_for s bk) l1" "\<forall>x. claimable l1 x = claimable (ladder_for s bk) x"
      "lad_peek l1 t = Some a"
      "lad_get l1 a = (lad_level (ladder_for s bk) t)\<lparr> lv_qty := lv_qty (lad_level (ladder_for s bk) t) - qty \<rparr>"
      "lad_level l1 = (lad_level (ladder_for s bk))(t := lad_get l1 a)"
    and hint: "hint = kNullIndex \<or> (\<exists>f. id_find_slot (bk_ids bk) (o_ref ord) = Some (hint, f))"
  shows "\<exists>lv arU ar2 ids2. unlink (lad_get l1 a) i ar1 = Some (lv, arU) \<and>
     arena_release \<lparr> h_index = i, h_generation = g \<rparr> arU = Some ar2 \<and>
     (if hint \<noteq> kNullIndex then id_erase_at (bk_ids bk) hint else id_erase (bk_ids bk) (o_ref ord)) = Some ids2 \<and>
     reduce_post bk Q s t (o_ref ord) qty a (ys @ zs) (lad_put a lv l1) ar2 ids2 \<and>
     ar_live ar2 + 1 = live_orders bk"
proof -
  note d = book_inv_dests[OF inv]
  let ?m = "bk_store bk" and ?ord = "ord\<lparr> o_qty := o_qty ord - qty \<rparr>" and ?l = "ladder_for s bk"
  have s: "s \<noteq> BadSide" using xs d(7) by (auto simp: queues_ok_def)
  have qok: "queue_ok ?m s t (lad_level ?l t) (Q s t)" using queues_ok_queue[OF d(7) s] .
  from arena_put_correct[OF d(1) o[unfolded bk_store_def], of ?ord] put
  have ar1: "arena_inv ar1" "arena_map ar1 = ?m(i \<mapsto> (g, ?ord))"
    "ar_capacity ar1 = ar_capacity (bk_arena bk)" "ar_live ar1 = ar_live (bk_arena bk)"
    by (auto simp: bk_store_def)
  note sp = split_entries[OF inv o xs]
  have "dll (arena_map ar1) kNullIndex (ys @ i # zs) kNullIndex = dll ?m kNullIndex (ys @ i # zs) kNullIndex"
    by (rule dll_links_cong) (auto simp: ar1(2) o)
  then have "fifo (arena_map ar1) (lad_get l1 a) (ys @ i # zs)"
    using qok unfolding xs by (simp add: queue_ok_def fifo_def l1(5))
  from unlink_correct[OF ar1(1) this] obtain lv arU where
    u: "unlink (lad_get l1 a) i ar1 = Some (lv, arU)" "arena_inv arU" "ar_capacity arU = ar_capacity ar1"
      "ar_live arU = ar_live ar1" "fifo (arena_map arU) lv (ys @ zs)" "lv_qty lv = lv_qty (lad_get l1 a)"
      "same_data (arena_map ar1) (arena_map arU)"
      "\<forall>j. j \<notin> set (ys @ zs) \<longrightarrow> arena_map arU j = arena_map ar1 j" by blast
  have ui: "arena_map arU i = Some (g, ?ord)" using u(8) sp(2,3) by (simp add: ar1(2))
  from arena_release_correct[OF u(2) ui] obtain ar2 where
    r: "arena_release \<lparr> h_index = i, h_generation = g \<rparr> arU = Some ar2" "arena_inv ar2"
      "arena_map ar2 = (arena_map arU)(i := None)" "ar_capacity ar2 = ar_capacity arU"
      "ar_live ar2 + 1 = ar_live arU" by blast
  from erase_by_hint[OF d(4) ids_ok_handle[OF d(6) o] hint] obtain ids2 where
    e: "(if hint \<noteq> kNullIndex then id_erase_at (bk_ids bk) hint else id_erase (bk_ids bk) (o_ref ord)) = Some ids2"
      "id_inv ids2" "id_map ids2 = (id_map (bk_ids bk))(o_ref ord := None)"
      "it_size ids2 + 1 = it_size (bk_ids bk)" "it_cap ids2 = it_cap (bk_ids bk)" by blast
  have lvq: "lv_qty lv = lv_qty (lad_level l1 t)" using u(6) l1(6) by simp
  note put2 = lad_put_correct[OF l1(1,4) lvq]
  let ?l2 = "lad_put a lv l1"
  have m2: "arena_map ar2 j = arena_map arU j" if "j \<in> set (ys @ zs)" for j
    using that sp(2,3) by (auto simp: r(3))
  have ent: "entry_of (arena_map ar2) j = entry_of ?m j" if "j \<in> set (ys @ zs)" for j
  proof -
    have "j \<noteq> i" using that sp(2,3) by auto
    have "entry_of (arena_map ar2) j = entry_of (arena_map arU) j" using m2[OF that] by (simp add: entry_of_def)
    also have "\<dots> = entry_of (arena_map ar1) j" by (rule entry_of_same_data[OF u(7)])
    also have "\<dots> = entry_of ?m j" using \<open>j \<noteq> i\<close> by (simp add: ar1(2) entry_of_def)
    finally show ?thesis .
  qed
  have ents: "map (entry_of (arena_map ar2)) (ys @ zs) = reduce_entry (o_ref ord) qty (map (entry_of ?m) (Q s t))"
    unfolding sp(1) using q(2) ent by simp
  have ff: "fifo (arena_map ar2) lv (ys @ zs)"
  proof -
    have "dll (arena_map ar2) kNullIndex (ys @ zs) kNullIndex = dll (arena_map arU) kNullIndex (ys @ zs) kNullIndex"
      by (rule dll_cong) (rule m2)
    then show ?thesis using u(5) unfolding fifo_def by blast
  qed
  have dat: "\<forall>j\<in>set (ys @ zs). \<exists>g ord. arena_map ar2 j = Some (g, ord) \<and> o_price ord = t \<and>
      o_side ord = to_wire s \<and> 0 < o_qty ord"
  proof
    fix j assume j: "j \<in> set (ys @ zs)"
    then have "j \<in> set (Q s t)" "j \<noteq> i" using xs sp(2,3) by auto
    with queued_order[OF d(7) this(1)] obtain g' ord' where "arena_map ar1 j = Some (g', ord')" "o_price ord' = t"
      "o_side ord' = to_wire s" "0 < o_qty ord'" by (auto simp: ar1(2))
    then show "\<exists>g ord. arena_map ar2 j = Some (g, ord) \<and> o_price ord = t \<and> o_side ord = to_wire s \<and> 0 < o_qty ord"
      using same_data_Some[OF u(7)] m2[OF j] by metis
  qed
  have qs: "lv_qty lv = (\<Sum>j\<leftarrow>ys @ zs. snd (entry_of (arena_map ar2) j))"
  proof -
    have "map (\<lambda>j. snd (entry_of (arena_map ar2) j)) (ys @ zs) = map (\<lambda>j. snd (entry_of ?m j)) (ys @ zs)"
      using ent by simp
    then have "(\<Sum>j\<leftarrow>ys @ zs. snd (entry_of (arena_map ar2) j)) = (\<Sum>j\<leftarrow>ys @ zs. snd (entry_of ?m j))"
      by (rule arg_cong)
    moreover have "lv_qty (lad_level ?l t) = (\<Sum>j\<leftarrow>ys @ i # zs. snd (entry_of ?m j))"
      using qok unfolding xs queue_ok_def by blast
    moreover have "snd (entry_of ?m i) = o_qty ord" using o by (simp add: entry_of_def)
    ultimately show ?thesis using u(6) q(2) by (simp add: l1(5))
  qed
  have "ids_ok (id_map ids2) (arena_map ar2)"
  proof -
    have "ids_ok (id_map (bk_ids bk)) (?m(i \<mapsto> (g, ?ord)))"
      unfolding ids_ok_def
    proof (intro conjI allI impI)
      fix ref h assume "id_map (bk_ids bk) ref = Some h"
      from ids_ok_ref[OF d(6) this] show
        "\<exists>ord'. (?m(i \<mapsto> (g, ?ord))) (h_index h) = Some (h_generation h, ord') \<and> o_ref ord' = ref"
        using o by auto
    next
      fix j g' ord' assume "(?m(i \<mapsto> (g, ?ord))) j = Some (g', ord')"
      then show "id_map (bk_ids bk) (o_ref ord') = Some \<lparr> h_index = j, h_generation = g' \<rparr>"
        using ids_ok_handle[OF d(6)] o by (auto split: if_splits)
    qed
    then have "ids_ok (id_map (bk_ids bk)) (arena_map arU)"
      using ids_ok_same_data[OF _ u(7)] by (simp add: ar1(2))
    from ids_ok_erase[OF this ui] show ?thesis by (simp add: e(3) r(3))
  qed
  moreover have "it_size ids2 = ar_live ar2"
    using e(4) r(5) u(4) ar1(4) inv by (simp add: book_inv_def)
  moreover have "dom (arena_map ar2) \<subseteq> (dom ?m - set (Q s t)) \<union> set (ys @ zs)"
    using same_data_dom[OF u(7)] by (auto simp: r(3) ar1(2) xs)
  moreover have "\<forall>j. j \<notin> set (Q s t) \<longrightarrow> arena_map ar2 j = ?m j"
    using u(8) by (auto simp: r(3) ar1(2) xs)
  moreover have "lad_level ?l2 = (lad_level ?l)(t := lad_get ?l2 a)" using put2(2,3) l1(6) by simp
  moreover have "queue_ok (arena_map ar2) s t (lad_get ?l2 a) (ys @ zs)"
    using ff dat qs by (simp add: queue_ok_def put2(3))
  moreover have "lv_qty (lad_get ?l2 a) = lv_qty (lad_level ?l t) - qty"
    using put2(3) u(6) l1(5) by simp
  ultimately have "reduce_post bk Q s t (o_ref ord) qty a (ys @ zs) ?l2 ar2 ids2"
    unfolding reduce_post_def
    using put2(1,6) lad_frame_trans[OF l1(2) put2(4)] l1(3) r(2,4) u(3) ar1(3) e(2,5) ents by simp
  then show ?thesis using u(1) r(1,5) e(1) u(4) ar1(4) by (auto simp: live_orders_def)
qed

end
