(* ===== verification/BookRefine.thy ===== *)
theory BookRefine
  imports BookReduce
begin

text \<open>
  The book refines the abstract book of FIFO queues: every operation, accepted or rejected, returns
  the tick the abstract operation prescribes, moves to a book that represents the abstract result,
  and never fails a contract.
\<close>

section \<open>Reducing an order\<close>

definition drained_best :: "bool \<Rightarrow> side \<Rightarrow> int \<Rightarrow> ladder \<Rightarrow> book \<Rightarrow> book" where
  "drained_best level_empty s ticks l bk =
     (if level_empty then
        (if s = Buy \<and> bk_best_bid bk = ticks
         then bk\<lparr> bk_best_bid := first_below l (bk_best_bid bk) \<rparr>
         else if s = Sell \<and> bk_best_ask bk = ticks
         then bk\<lparr> bk_best_ask := first_above l (bk_best_ask bk) \<rparr>
         else bk)
      else bk)"

lemma drained_best_simps [simp]:
  "bk_arena (drained_best e s t l bk) = bk_arena bk" "bk_ids (drained_best e s t l bk) = bk_ids bk"
  "bk_bid (drained_best e s t l bk) = bk_bid bk" "bk_ask (drained_best e s t l bk) = bk_ask bk"
  by (simp_all add: drained_best_def)

lemma best_bid_drain:
  assumes inv: "lad_inv l" and g: "greatest_tick b S" and occ: "lad_occupied l = (if e then S - {t} else S)"
    and t: "t \<in> S"
  shows "greatest_tick (if e \<and> b = t then first_below l b else b) (lad_occupied l)"
proof (cases "e \<and> b = t")
  case True
  then have "lad_occupied l = {x \<in> lad_occupied l. x < t}"
    using g occ t by (auto simp: greatest_tick_def)
  then show ?thesis using first_below_greatest[OF inv, of t] True by simp
next
  case False
  then show ?thesis using g occ t by (auto simp: greatest_tick_def)
qed

lemma best_ask_drain:
  assumes inv: "lad_inv l" and g: "least_tick b S" and occ: "lad_occupied l = (if e then S - {t} else S)"
    and t: "t \<in> S"
  shows "least_tick (if e \<and> b = t then first_above l b else b) (lad_occupied l)"
proof (cases "e \<and> b = t")
  case True
  then have "lad_occupied l = {x \<in> lad_occupied l. t < x}"
    using g occ t by (auto simp: least_tick_def)
  then show ?thesis using first_above_least[OF inv, of t] True by simp
next
  case False
  then show ?thesis using g occ t by (auto simp: least_tick_def)
qed

text \<open>From the state the body of \<open>reduce\<close> leaves to the invariant.\<close>

lemma reduce_post_inv:
  assumes inv: "book_inv bk Q" and s: "s \<noteq> BadSide" and ne: "Q s t \<noteq> []"
    and post: "reduce_post bk Q s t ref qty a xs' l2 ar2 ids2"
  defines "bk1 \<equiv> (set_ladder s l2 bk)\<lparr> bk_arena := ar2, bk_ids := ids2 \<rparr>"
  defines "bk2 \<equiv> drained_best (lv_qty (lad_get l2 a) = 0) s t l2 bk1"
  defines "Q' \<equiv> Q(s := (Q s)(t := xs'))"
  shows "book_inv bk2 Q'" and "abs_book (bk_store bk2) Q' = spec_reduce s t ref qty (abs_book (bk_store bk) Q)"
    and "ar_capacity (bk_arena bk2) = ar_capacity (bk_arena bk)" and "book_in_band bk2 = book_in_band bk"
    and "\<And>s' x. s' \<noteq> BadSide \<Longrightarrow> claimable (ladder_for s' bk2) x = claimable (ladder_for s' bk) x"
    and "live_orders bk2 = ar_live ar2"
proof -
  note d = book_inv_dests[OF inv]
  note p = post[unfolded reduce_post_def]
  let ?m = "bk_store bk" and ?m2 = "arena_map ar2" and ?l = "ladder_for s bk"
  have st2: "bk_store bk2 = ?m2" by (simp add: bk2_def bk1_def bk_store_def)
  have lf: "ladder_for s bk2 = l2" using s by (cases s) (auto simp: ladder_for_def bk2_def bk1_def)
  have lf': "ladder_for s' bk2 = ladder_for s' bk" if "s' \<noteq> s" "s' \<noteq> BadSide" for s'
    using that s by (cases s; cases s') (auto simp: ladder_for_def bk2_def bk1_def)
  have outside: "?m2 j = ?m j" if "j \<in> set (Q s' t')" "(s', t') \<noteq> (s, t)" for j s' t'
  proof -
    have "j \<notin> set (Q s t)" using queued_disjoint[OF d(7) that(1), of s t] that(2) by auto
    then show ?thesis using p by blast
  qed
  have lev: "lad_level (ladder_for s bk2) = (lad_level ?l)(t := lad_get l2 a)" using p by (simp add: lf)
  have "queues_ok ?m2 bk2 Q'"
    unfolding Q'_def
  proof (rule queues_ok_update[OF d(7) s lev])
    show "queue_ok ?m2 s t (lad_get l2 a) xs'" "dom ?m2 \<subseteq> (dom ?m - set (Q s t)) \<union> set xs'"
      using p by auto
  qed (use lf' outside in auto)
  moreover have "best_ok bk2"
  proof -
    have tS: "t \<in> lad_occupied ?l" using occupied_iff[OF d(7) s] ne by simp
    have occ: "lad_occupied l2 = (if lv_qty (lad_get l2 a) = 0 then lad_occupied ?l - {t} else lad_occupied ?l)"
      using occupied_upd[OF lev] tS by (auto simp: lf)
    have i2: "lad_inv l2" using p by simp
    show ?thesis
    proof (cases "s = Buy")
      case True
      then show ?thesis
        using best_bid_drain[OF i2 _ occ tS, of "bk_best_bid bk"] d(8)
        by (auto simp: best_ok_def ladder_for_def bk2_def bk1_def drained_best_def split: if_splits)
    next
      case False
      then have "s = Sell" using s by (cases s) auto
      then show ?thesis
        using best_ask_drain[OF i2 _ occ tS, of "bk_best_ask bk"] d(8)
        by (auto simp: best_ok_def ladder_for_def bk2_def bk1_def drained_best_def split: if_splits)
    qed
  qed
  ultimately show "book_inv bk2 Q'"
    using inv p unfolding book_inv_def st2
    by (auto simp: bk2_def bk1_def lad_frame_def ladder_for_def split: if_splits)
  have "abs_book ?m2 Q' = (abs_book ?m Q)(s := (abs_book ?m Q s)(t := map (entry_of ?m2) xs'))"
    unfolding Q'_def by (rule abs_book_update) (rule outside)
  then show "abs_book (bk_store bk2) Q' = spec_reduce s t ref qty (abs_book ?m Q)"
    using p by (simp add: st2 spec_reduce_def) (simp add: abs_book_def)
  show "ar_capacity (bk_arena bk2) = ar_capacity (bk_arena bk)" "live_orders bk2 = ar_live ar2"
    using p by (simp_all add: bk2_def bk1_def live_orders_def)
  show "book_in_band bk2 = book_in_band bk"
    using p by (auto simp: book_in_band_def lad_in_band_def bk2_def bk1_def lad_frame_def ladder_for_def fun_eq_iff)
  show "claimable (ladder_for s' bk2) x = claimable (ladder_for s' bk) x" if "s' \<noteq> BadSide" for s' x
    using p lf lf' that by (cases "s' = s") auto
qed

lemma book_reduce_correct:
  assumes inv: "book_inv bk Q" and o: "bk_store bk i = Some (g, ord)"
    and q: "0 < qty" "qty \<le> o_qty ord" and ds: "delta_room ds"
    and hint: "hint = kNullIndex \<or> (\<exists>f. id_find_slot (bk_ids bk) (o_ref ord) = Some (hint, f))"
    and s: "o_side ord = to_wire s"
  shows "\<exists>bk' Q'. book_reduce \<lparr> h_index = i, h_generation = g \<rparr> qty kind ds hint bk =
       Some (book_event (if qty = o_qty ord then Removed else kind) (o_price ord) qty s,
             with_delta (mk_delta (o_price ord) (- qty) s) ds, bk') \<and>
     book_inv bk' Q' \<and>
     abs_book (bk_store bk') Q' = spec_reduce s (o_price ord) (o_ref ord) qty (abs_book (bk_store bk) Q) \<and>
     ar_capacity (bk_arena bk') = ar_capacity (bk_arena bk) \<and> book_in_band bk' = book_in_band bk \<and>
     (\<forall>s' x. s' \<noteq> BadSide \<longrightarrow> claimable (ladder_for s' bk') x = claimable (ladder_for s' bk) x) \<and>
     live_orders bk' = (if qty = o_qty ord then live_orders bk - 1 else live_orders bk)"
proof -
  note d = book_inv_dests[OF inv]
  let ?t = "o_price ord" and ?m = "bk_store bk" and ?l = "ladder_for s bk"
  from queued_at[OF d(7) o] s have sb: "s \<noteq> BadSide" and iQ: "i \<in> set (Q s ?t)"
    and side: "(if o_side ord = ch_B then Buy else Sell) = s" by auto
  from iQ obtain ys zs where xs: "Q s ?t = ys @ i # zs" by (meson split_list)
  have qok: "queue_ok ?m s ?t (lad_level ?l ?t) (Q s ?t)" using queues_ok_queue[OF d(7) sb] .
  have lvl: "o_qty ord \<le> lv_qty (lad_level ?l ?t)" using queue_ok_qty(2)[OF qok iQ o] .
  then have "lad_peek ?l ?t \<noteq> None"
    using q by (auto simp: lad_level_peek empty_level_def split: option.splits)
  then obtain a0 where pk: "lad_peek ?l ?t = Some a0" by blast
  note bc = peek_claimable[OF pk]
  let ?ord = "ord\<lparr> o_qty := o_qty ord - qty \<rparr>"
  from arena_put_correct[OF d(1) o[unfolded bk_store_def], of ?ord] obtain ar1 where
    put: "arena_put i ?ord (bk_arena bk) = Some ar1" by blast
  have bnd: "lv_qty (lad_level ?l ?t) \<le> int64_max"
    using lad_level_nonneg[OF d(5)] by blast
  have pre: "- qty \<noteq> 0" "0 \<le> lv_qty (lad_level ?l ?t) + - qty" "lv_qty (lad_level ?l ?t) + - qty \<le> int64_max"
    using q lvl bnd by auto
  from lad_apply_correct[OF d(5)[of s] conjunct1[OF bc] conjunct2[OF bc] pre] pk obtain a l1 where
    ap: "lad_apply ?l ?t (- qty) = Some (a, l1)" "lad_inv l1" "lad_frame ?l l1" "lad_peek l1 ?t = Some a"
    "lad_get l1 a = (lad_level ?l ?t)\<lparr> lv_qty := lv_qty (lad_level ?l ?t) - qty \<rparr>"
    "lad_level l1 = (lad_level ?l)(?t := lad_get l1 a)" "\<forall>x. claimable l1 x = claimable ?l x"
    by auto
  have norm: "(if to_wire s = ch_B then Buy else Sell) = s" using side s by simp
  note step = book_reduce_def Let_def arena_map_access(1)[OF d(1) o[unfolded bk_store_def]]
    gen_handle.select_convs Option.bind.simps s norm put
  show ?thesis
  proof (cases "qty = o_qty ord")
    case False
    then have lt: "qty < o_qty ord" using q by simp
    from reduce_partial[OF inv o xs q(1) lt put ap(2,3,7,5,6)]
    have post: "reduce_post bk Q s ?t (o_ref ord) qty a (Q s ?t) l1 ar1 (bk_ids bk)"
      and live: "ar_live ar1 = live_orders bk" by auto
    have nz: "lv_qty (lad_get l1 a) \<noteq> 0" using ap(5) lvl lt by simp
    let ?bk1 = "(set_ladder s l1 bk)\<lparr> bk_arena := ar1, bk_ids := bk_ids bk \<rparr>"
    let ?bk2 = "drained_best (lv_qty (lad_get l1 a) = 0) s ?t l1 ?bk1"
    have "book_reduce \<lparr> h_index = i, h_generation = g \<rparr> qty kind ds hint bk =
        Some (book_event kind ?t qty s, with_delta (mk_delta ?t (- qty) s) ds, ?bk2)"
      unfolding step
      using q lt ap(1) nz emit_delta_room[OF ds, of "mk_delta ?t (- qty) s", unfolded mk_delta_def]
      by (simp add: drained_best_def mk_delta_def)
    then show ?thesis
      using reduce_post_inv[OF inv sb _ post] xs False live
      by (intro exI[of _ ?bk2] exI[of _ "Q(s := (Q s)(?t := Q s ?t))"]) simp
  next
    case True
    from reduce_emptied[OF inv o xs q(1) True put ap(2,3,7,4,5,6) hint]
    obtain lv arU ar2 ids2 where e: "unlink (lad_get l1 a) i ar1 = Some (lv, arU)"
      "arena_release \<lparr> h_index = i, h_generation = g \<rparr> arU = Some ar2"
      "(if hint \<noteq> kNullIndex then id_erase_at (bk_ids bk) hint else id_erase (bk_ids bk) (o_ref ord)) = Some ids2"
      and post: "reduce_post bk Q s ?t (o_ref ord) qty a (ys @ zs) (lad_put a lv l1) ar2 ids2"
      and live: "ar_live ar2 + 1 = live_orders bk" by blast
    let ?l2 = "lad_put a lv l1"
    let ?bk1 = "(set_ladder s ?l2 bk)\<lparr> bk_arena := ar2, bk_ids := ids2 \<rparr>"
    let ?bk2 = "drained_best (lv_qty (lad_get ?l2 a) = 0) s ?t ?l2 ?bk1"
    have "book_reduce \<lparr> h_index = i, h_generation = g \<rparr> qty kind ds hint bk =
        Some (book_event Removed ?t qty s, with_delta (mk_delta ?t (- qty) s) ds, ?bk2)"
      unfolding step
      using q True ap(1) e emit_delta_room[OF ds, of "mk_delta ?t (- qty) s", unfolded mk_delta_def]
      by (simp add: drained_best_def mk_delta_def)
    then show ?thesis
      using reduce_post_inv[OF inv sb _ post] xs True live
      by (intro exI[of _ ?bk2] exI[of _ "Q(s := (Q s)(?t := ys @ zs))"]) simp
  qed
qed

end
