(* ===== verification/BookClient.thy ===== *)
theory BookClient
  imports BookRefine
begin

text \<open>
  The public operations of the book in terms of the abstract book: each branch of
  \<open>add\<close>, \<open>execute\<close>, \<open>cancel\<close>, \<open>execute_front\<close>, \<open>remove\<close> and \<open>replace\<close>.
\<close>

lemma book_relE:
  assumes "book_rel bk A"
  obtains Q where "book_inv bk Q" and "A = abs_book (bk_store bk) Q"
  using assms by (auto simp: book_rel_def)

lemma book_relI: "book_inv bk Q \<Longrightarrow> abs_book (bk_store bk) Q = A \<Longrightarrow> book_rel bk A"
  by (auto simp: book_rel_def)

section \<open>Lookups\<close>

lemma lookup_resting:
  assumes rel: "book_rel bk A" and r: "resting A ref s t q"
  shows "\<exists>slot i g ord. id_find_slot (bk_ids bk) ref = Some (slot, \<lparr> h_index = i, h_generation = g \<rparr>) \<and>
     i \<noteq> kNullIndex \<and> bk_store bk i = Some (g, ord) \<and>
     arena_at (bk_arena bk) \<lparr> h_index = i, h_generation = g \<rparr> = Some ord \<and>
     arena_valid (bk_arena bk) \<lparr> h_index = i, h_generation = g \<rparr> \<and>
     o_ref ord = ref \<and> o_qty ord = q \<and> o_price ord = t \<and> o_side ord = to_wire s \<and> s \<noteq> BadSide \<and> 0 < q"
proof -
  from rel obtain Q where inv: "book_inv bk Q" and A: "A = abs_book (bk_store bk) Q" by (rule book_relE)
  note d = book_inv_dests[OF inv]
  from resting_order[OF inv r[unfolded A]] obtain i g ord where
    o: "bk_store bk i = Some (g, ord)" "i \<in> set (Q s t)" "o_ref ord = ref" "o_qty ord = q"
     "o_price ord = t" "o_side ord = to_wire s" "s \<noteq> BadSide" "0 < q"
     "id_map (bk_ids bk) ref = Some \<lparr> h_index = i, h_generation = g \<rparr>" by blast
  from idt.find_present[OF d(4) o(9)] obtain slot where
    "id_find_slot (bk_ids bk) ref = Some (slot, \<lparr> h_index = i, h_generation = g \<rparr>)" by blast
  with o arena_map_access(2,3)[OF d(1) o(1)[unfolded bk_store_def]]
    arena_inv_index(2)[OF d(1) o(1)[unfolded bk_store_def]]
  show ?thesis by blast
qed

lemma lookup_absent:
  assumes rel: "book_rel bk A" and r: "ref \<notin> refs_of A" "ref \<noteq> 0"
  shows "\<exists>slot. id_find_slot (bk_ids bk) ref = Some (slot, null_handle)"
proof -
  from rel obtain Q where inv: "book_inv bk Q" and A: "A = abs_book (bk_store bk) Q" by (rule book_relE)
  have "id_map (bk_ids bk) ref = None" using refs_of_iff[OF inv] r A by blast
  then show ?thesis using idt.find_absent[OF book_inv_dests(4)[OF inv] r(2)] by blast
qed

lemma null_handle_index [simp]: "h_index null_handle = kNullIndex"
  by (simp add: null_handle_def)

lemma resting_in_refs: "resting A ref s t q \<Longrightarrow> ref \<in> refs_of A"
  by (auto simp: refs_of_def)

lemma in_refs_resting: "ref \<in> refs_of A \<Longrightarrow> \<exists>s t q. resting A ref s t q"
  by (auto simp: refs_of_def)

lemma resting_nonzero:
  assumes "book_rel bk A" and "resting A ref s t q"
  shows "ref \<noteq> 0"
  using lookup_resting[OF assms] by (auto simp: id_find_slot_def bind_mog_pre_eq)

lemma resting_functional:
  "book_rel bk A \<Longrightarrow> resting A ref s t q \<Longrightarrow> resting A ref s' t' q' \<Longrightarrow> s = s' \<and> t = t' \<and> q = q'"
  by (metis book_relE resting_unique)

section \<open>Execute, cancel, remove\<close>

lemma book_execute_accepts:
  assumes rel: "book_rel bk A" and r: "resting A ref s t r" and q: "0 < qty" "qty \<le> r"
    and ds: "delta_room ds"
  shows "\<exists>bk'. book_execute ref qty ds bk =
       Some (book_event (if qty = r then Removed else Reduced) t qty s,
             with_delta (mk_delta t (- qty) s) ds, bk') \<and>
     book_rel bk' (spec_reduce s t ref qty A)"
proof -
  from rel obtain Q where inv: "book_inv bk Q" and A: "A = abs_book (bk_store bk) Q" by (rule book_relE)
  from lookup_resting[OF rel r] obtain slot i g ord where l:
    "id_find_slot (bk_ids bk) ref = Some (slot, \<lparr> h_index = i, h_generation = g \<rparr>)"
    "i \<noteq> kNullIndex" "bk_store bk i = Some (g, ord)"
    "arena_at (bk_arena bk) \<lparr> h_index = i, h_generation = g \<rparr> = Some ord"
    "o_ref ord = ref" "o_qty ord = r" "o_price ord = t" "o_side ord = to_wire s" by blast
  from book_reduce_correct[OF inv l(3) q(1) _ ds _ l(8), of slot Reduced] l q A
  show ?thesis by (auto simp: book_execute_def intro: book_relI)
qed

lemma book_remove_accepts:
  assumes rel: "book_rel bk A" and r: "resting A ref s t r" and ds: "delta_room ds"
  shows "\<exists>bk'. book_remove ref ds bk =
       Some (book_event Removed t r s, with_delta (mk_delta t (- r) s) ds, bk') \<and>
     book_rel bk' (spec_reduce s t ref r A) \<and>
     ar_capacity (bk_arena bk') = ar_capacity (bk_arena bk) \<and> book_in_band bk' = book_in_band bk \<and>
     (\<forall>s' x. s' \<noteq> BadSide \<longrightarrow> claimable (ladder_for s' bk') x = claimable (ladder_for s' bk) x) \<and>
     live_orders bk' + 1 = live_orders bk"
proof -
  from rel obtain Q where inv: "book_inv bk Q" and A: "A = abs_book (bk_store bk) Q" by (rule book_relE)
  from lookup_resting[OF rel r] obtain slot i g ord where l:
    "id_find_slot (bk_ids bk) ref = Some (slot, \<lparr> h_index = i, h_generation = g \<rparr>)"
    "i \<noteq> kNullIndex" "bk_store bk i = Some (g, ord)"
    "arena_at (bk_arena bk) \<lparr> h_index = i, h_generation = g \<rparr> = Some ord"
    "o_ref ord = ref" "o_qty ord = r" "o_price ord = t" "o_side ord = to_wire s" "0 < r" by blast
  have "live_orders bk > 0"
  proof -
    have "i \<in> dom (arena_map (bk_arena bk))" using l(3) by (auto simp: bk_store_def)
    then have "card (dom (arena_map (bk_arena bk))) > 0" by (auto simp: card_gt_0_iff)
    then show ?thesis using book_inv_dests(1)[OF inv] by (simp add: live_orders_def arena_inv_def)
  qed
  with book_reduce_correct[OF inv l(3) _ _ ds _ l(8), of r slot Removed] l A
  show ?thesis by (auto simp: book_remove_def intro: book_relI)
qed

lemma book_execute_rejects:
  assumes rel: "book_rel bk A"
  shows "qty \<le> 0 \<Longrightarrow> book_execute ref qty ds bk = Some (tick_error BadQty, ds, bk)"
    and "0 < qty \<Longrightarrow> ref \<noteq> 0 \<Longrightarrow> ref \<notin> refs_of A \<Longrightarrow>
      book_execute ref qty ds bk = Some (tick_error UnknownOrder, ds, bk)"
    and "resting A ref s t r \<Longrightarrow> 0 < qty \<Longrightarrow> r < qty \<Longrightarrow>
      book_execute ref qty ds bk = Some (tick_error OverExecute, ds, bk)"
    and "0 < qty \<Longrightarrow> book_execute 0 qty ds bk = None"
proof -
  show "qty \<le> 0 \<Longrightarrow> book_execute ref qty ds bk = Some (tick_error BadQty, ds, bk)"
    by (simp add: book_execute_def)
  show "0 < qty \<Longrightarrow> ref \<noteq> 0 \<Longrightarrow> ref \<notin> refs_of A \<Longrightarrow>
      book_execute ref qty ds bk = Some (tick_error UnknownOrder, ds, bk)"
    using lookup_absent[OF rel] by (fastforce simp: book_execute_def)
  show "book_execute ref qty ds bk = Some (tick_error OverExecute, ds, bk)"
    if "resting A ref s t r" "0 < qty" "r < qty"
    using lookup_resting[OF rel that(1)] that by (auto simp: book_execute_def)
  show "0 < qty \<Longrightarrow> book_execute 0 qty ds bk = None"
    by (simp add: book_execute_def id_find_slot_def)
qed

lemma book_remove_rejects:
  assumes rel: "book_rel bk A"
  shows "ref \<noteq> 0 \<Longrightarrow> ref \<notin> refs_of A \<Longrightarrow> book_remove ref ds bk = Some (tick_error UnknownOrder, ds, bk)"
    and "book_remove 0 ds bk = None"
  using lookup_absent[OF rel] by (fastforce simp: book_remove_def) (simp add: book_remove_def id_find_slot_def)

section \<open>Add\<close>

lemma book_add_accepts:
  assumes rel: "book_rel bk A" and s: "s \<noteq> BadSide" and acc: "add_accepted bk A ref s qty price"
    and fits: "level_qty A s price + qty \<le> int64_max" and ds: "delta_room ds"
  shows "\<exists>bk'. book_add ref s qty price ds bk =
       Some (book_event Added price qty s, with_delta (mk_delta price qty s) ds, bk') \<and>
     book_rel bk' (spec_add s price ref qty A) \<and> live_orders bk' = live_orders bk + 1 \<and>
     ar_capacity (bk_arena bk') = ar_capacity (bk_arena bk) \<and> book_in_band bk' = book_in_band bk"
proof -
  from rel obtain Q where inv: "book_inv bk Q" and A: "A = abs_book (bk_store bk) Q" by (rule book_relE)
  from book_add_correct[OF inv s acc[unfolded A] fits[unfolded A] ds] show ?thesis
    unfolding book_rel_def A by metis
qed

text \<open>The rejections of \<open>add\<close>, in the order the code tests them.\<close>

definition add_error :: "book \<Rightarrow> abook \<Rightarrow> u64 \<Rightarrow> side \<Rightarrow> int \<Rightarrow> int \<Rightarrow> book_error option" where
  "add_error bk A ref s qty price =
     (if ref = 0 then Some ZeroRef
      else if qty \<le> 0 then Some BadQty
      else if \<not> book_in_band bk price then Some OutOfBand
      else if \<not> claimable (ladder_for s bk) price then Some PageExhausted
      else if ref \<in> refs_of A then Some DuplicateRef
      else if live_orders bk = ar_capacity (bk_arena bk) then Some ArenaFull
      else None)"

lemma book_add_rejects:
  assumes rel: "book_rel bk A" and e: "add_error bk A ref s qty price = Some e"
  shows "book_add ref s qty price ds bk = Some (tick_error e, ds, bk)"
proof -
  from rel obtain Q where inv: "book_inv bk Q" by (rule book_relE)
  consider (early) "ref = 0 \<or> qty \<le> 0 \<or> \<not> book_in_band bk price \<or> \<not> claimable (ladder_for s bk) price"
    | (dup) "ref \<noteq> 0" "0 < qty" "book_in_band bk price" "claimable (ladder_for s bk) price" "ref \<in> refs_of A"
    | (full) "ref \<noteq> 0" "0 < qty" "book_in_band bk price" "claimable (ladder_for s bk) price" "ref \<notin> refs_of A"
    by fastforce
  then show ?thesis
  proof cases
    case early
    then show ?thesis using e by (auto simp: book_add_def add_error_def split: if_splits)
  next
    case dup
    then obtain s' t q where "resting A ref s' t q" using in_refs_resting by blast
    from lookup_resting[OF rel this] dup e show ?thesis
      by (auto simp: book_add_def add_error_def)
  next
    case full
    then have "live_orders bk = ar_capacity (bk_arena bk)" "e = ArenaFull"
      using e by (auto simp: add_error_def split: if_splits)
    moreover from lookup_absent[OF rel full(5,1)] obtain slot where
      "id_find_slot (bk_ids bk) ref = Some (slot, null_handle)" by blast
    ultimately show ?thesis
      using full arena_acquire_full[OF book_inv_dests(1)[OF inv]]
      by (simp add: book_add_def live_orders_def is_null_def)
  qed
qed

lemma add_error_None:
  assumes "book_rel bk A" and "add_error bk A ref s qty price = None"
  shows "add_accepted bk A ref s qty price"
proof -
  from assms(1) obtain Q where "book_inv bk Q" by (rule book_relE)
  then have "ar_live (bk_arena bk) \<le> ar_capacity (bk_arena bk)"
    using arena_full_iff(1) book_inv_dests(1) by blast
  then show ?thesis
    using assms(2) by (auto simp: add_error_def add_accepted_def live_orders_def split: if_splits)
qed

text \<open>An occupied level already owns its page.\<close>

lemma claimable_priced:
  assumes rel: "book_rel bk A" and s: "s \<noteq> BadSide" and t: "A s t \<noteq> []"
  shows "claimable (ladder_for s bk) t"
proof -
  from rel obtain Q where inv: "book_inv bk Q" and A: "A = abs_book (bk_store bk) Q" by (rule book_relE)
  have "t \<in> lad_occupied (ladder_for s bk)"
    using occupied_iff[OF book_inv_dests(7)[OF inv] s] t by (simp add: A abs_book_def)
  then have "lad_peek (ladder_for s bk) t \<noteq> None"
    by (auto simp: lad_occupied_def lad_level_peek empty_level_def split: option.splits)
  then show ?thesis using peek_claimable by blast
qed

section \<open>Matching at the front of a level\<close>

lemma level_head:
  assumes rel: "book_rel bk A" and s: "s \<noteq> BadSide"
  shows "(case lad_peek (ladder_for s bk) t of None \<Rightarrow> kNullIndex | Some a \<Rightarrow> lv_head (lad_get (ladder_for s bk) a)) = kNullIndex
      \<longleftrightarrow> A s t = []"
    and "A s t = (ref, q) # rest \<Longrightarrow>
      \<exists>a i g ord. lad_peek (ladder_for s bk) t = Some a \<and> lv_head (lad_get (ladder_for s bk) a) = i \<and>
        i \<noteq> kNullIndex \<and> bk_store bk i = Some (g, ord) \<and> o_ref ord = ref \<and> o_qty ord = q"
proof -
  from rel obtain Q where inv: "book_inv bk Q" and A: "A = abs_book (bk_store bk) Q" by (rule book_relE)
  note d = book_inv_dests[OF inv]
  have lv: "lv_head (lad_level (ladder_for s bk) t) = hd_or kNullIndex (Q s t)"
    using queues_ok_queue[OF d(7) s, of t] by (simp add: queue_ok_def fifo_def)
  have hd: "(case lad_peek (ladder_for s bk) t of None \<Rightarrow> kNullIndex | Some a \<Rightarrow> lv_head (lad_get (ladder_for s bk) a)) =
      lv_head (lad_level (ladder_for s bk) t)"
    by (simp add: lad_level_peek empty_level_def split: option.splits)
  have nn: "x \<noteq> kNullIndex" if "x \<in> set (Q s t)" for x
    using queued_order[OF d(7) that] arena_null_unmapped[OF d(1)] by (auto simp: bk_store_def)
  show "(case lad_peek (ladder_for s bk) t of None \<Rightarrow> kNullIndex | Some a \<Rightarrow> lv_head (lad_get (ladder_for s bk) a)) = kNullIndex
      \<longleftrightarrow> A s t = []"
    unfolding hd lv using nn by (cases "Q s t") (auto simp: A abs_book_def)
  show "\<exists>a i g ord. lad_peek (ladder_for s bk) t = Some a \<and> lv_head (lad_get (ladder_for s bk) a) = i \<and>
        i \<noteq> kNullIndex \<and> bk_store bk i = Some (g, ord) \<and> o_ref ord = ref \<and> o_qty ord = q"
    if "A s t = (ref, q) # rest"
  proof -
    from that obtain i zs where iz: "Q s t = i # zs" "entry_of (bk_store bk) i = (ref, q)"
      by (cases "Q s t") (auto simp: A abs_book_def)
    then have i: "i \<in> set (Q s t)" by simp
    from queued_order[OF d(7) i] obtain g ord where o: "bk_store bk i = Some (g, ord)" by blast
    have h: "lv_head (lad_level (ladder_for s bk) t) = i" using lv iz by simp
    then have "lad_peek (ladder_for s bk) t \<noteq> None" using nn[OF i]
      by (cases "lad_peek (ladder_for s bk) t") (auto simp: lad_level_peek empty_level_def)
    then show ?thesis using h nn[OF i] o iz(2) by (auto simp: lad_level_peek entry_of_def)
  qed
qed

lemma book_execute_front_accepts:
  assumes rel: "book_rel bk A" and s: "s \<noteq> BadSide" and hd: "A s t = (ref, r) # rest"
    and q: "0 < qty" "qty \<le> r" and ds: "delta_room ds"
  shows "\<exists>bk'. book_execute_front s t qty ds bk =
       Some (Some ref, book_event (if qty = r then Removed else Reduced) t qty s,
             with_delta (mk_delta t (- qty) s) ds, bk') \<and>
     book_rel bk' (A(s := (A s)(t := (if qty = r then rest else (ref, r - qty) # rest))))"
proof -
  from rel obtain Q where inv: "book_inv bk Q" and A: "A = abs_book (bk_store bk) Q" by (rule book_relE)
  have rst: "resting A ref s t r" by (simp add: resting_def hd)
  from level_head(2)[OF rel s hd] obtain a i g ord where h: "lad_peek (ladder_for s bk) t = Some a"
    "lv_head (lad_get (ladder_for s bk) a) = i" "i \<noteq> kNullIndex" "bk_store bk i = Some (g, ord)"
    "o_ref ord = ref" "o_qty ord = r" by blast
  from lookup_resting[OF rel rst] obtain slot j g' ord' where l:
    "id_find_slot (bk_ids bk) ref = Some (slot, \<lparr> h_index = j, h_generation = g' \<rparr>)"
    "bk_store bk j = Some (g', ord')" "o_ref ord' = ref" "o_price ord' = t" "o_side ord' = to_wire s" by blast
  have "i = j" using ids_ok_inj[OF book_inv_dests(6)[OF inv] h(4) l(2)] h(5) l(3) by simp
  then have e: "i = j" "g' = g" "ord' = ord" using h(4) l(2) by auto
  note acc = arena_map_access[OF book_inv_dests(1)[OF inv] h(4)[unfolded bk_store_def]]
  from acc(4) obtain sl where sl: "arena_slot (bk_arena bk) i = Some sl" "s_generation sl = g" by blast
  have re: "reduce_entry ref qty (A s t) = (if qty = r then rest else (ref, r - qty) # rest)"
    by (simp add: hd)
  have pre: "0 < qty" "qty \<le> o_qty ord" using q h(6) by auto
  from book_reduce_correct[OF inv h(4) pre ds, of kNullIndex s Reduced] l(4,5) e h(5,6) A re
  obtain bk' where b: "book_reduce \<lparr> h_index = i, h_generation = g \<rparr> qty Reduced ds kNullIndex bk =
       Some (book_event (if qty = r then Removed else Reduced) t qty s,
             with_delta (mk_delta t (- qty) s) ds, bk')"
     "book_rel bk' (A(s := (A s)(t := (if qty = r then rest else (ref, r - qty) # rest))))"
    by (auto simp: spec_reduce_def intro: book_relI)
  have "book_execute_front s t qty ds bk =
       Some (Some ref, book_event (if qty = r then Removed else Reduced) t qty s,
             with_delta (mk_delta t (- qty) s) ds, bk')"
    using q h acc(1,2) sl l(1) e b(1) by (simp add: book_execute_front_def)
  with b(2) show ?thesis by blast
qed

lemma book_execute_front_rejects:
  assumes rel: "book_rel bk A" and s: "s \<noteq> BadSide"
  shows "qty \<le> 0 \<Longrightarrow> book_execute_front s t qty ds bk = Some (None, tick_error BadQty, ds, bk)"
    and "0 < qty \<Longrightarrow> A s t = [] \<Longrightarrow> book_execute_front s t qty ds bk = Some (None, tick_error EmptyLevel, ds, bk)"
    and "A s t = (ref, r) # rest \<Longrightarrow> 0 < qty \<Longrightarrow> r < qty \<Longrightarrow> book_execute_front s t qty ds bk = None"
proof -
  show "qty \<le> 0 \<Longrightarrow> book_execute_front s t qty ds bk = Some (None, tick_error BadQty, ds, bk)"
    by (simp add: book_execute_front_def)
  show "book_execute_front s t qty ds bk = Some (None, tick_error EmptyLevel, ds, bk)"
    if "0 < qty" "A s t = []"
    using level_head(1)[OF rel s, of t] that by (auto simp: book_execute_front_def split: option.splits)
  show "book_execute_front s t qty ds bk = None"
    if hd: "A s t = (ref, r) # rest" and q: "0 < qty" "r < qty"
  proof -
    from rel obtain Q where inv: "book_inv bk Q" by (rule book_relE)
    from level_head(2)[OF rel s hd] obtain a i g ord where h: "lad_peek (ladder_for s bk) t = Some a"
      "lv_head (lad_get (ladder_for s bk) a) = i" "i \<noteq> kNullIndex" "bk_store bk i = Some (g, ord)"
      "o_ref ord = ref" "o_qty ord = r" by blast
    note acc = arena_map_access[OF book_inv_dests(1)[OF inv] h(4)[unfolded bk_store_def]]
    have "book_reduce \<lparr> h_index = i, h_generation = g' \<rparr> qty Reduced ds kNullIndex bk = None" for g'
      using acc(1) h(6) q by (simp add: book_reduce_def)
    then show ?thesis using h q by (simp add: book_execute_front_def Let_def split: bind_splits)
  qed
qed

end
