(* ===== verification/BookReplace.thy ===== *)
theory BookReplace
  imports BookClient
begin

text \<open>
  \<open>replace\<close>: remove and add as one operation, atomic when it is rejected by its own checks; and the
  read-only queries of the book.
\<close>

section \<open>Replace\<close>

lemma spec_reduce_all_refs:
  assumes rel: "book_rel bk A" and r: "resting A ref s t r"
  shows "refs_of (spec_reduce s t ref r A) = refs_of A - {ref}"
proof -
  from rel obtain Q where inv: "book_inv bk Q" and A: "A = abs_book (bk_store bk) Q" by (rule book_relE)
  have mem: "(r', q') \<in> set (reduce_entry ref r xs) \<longleftrightarrow> (r', q') \<in> set xs \<and> r' \<noteq> ref"
    if "distinct (map fst xs)" "(ref, r) \<in> set xs" for xs r' q'
    using that by (induction xs) (auto simp: image_iff, force)
  from resting_order[OF inv r[unfolded A]] obtain i g ord where "i \<in> set (Q s t)" "s \<noteq> BadSide" by blast
  have dist: "distinct (map fst (A s t))"
  proof -
    have d0: "distinct (Q s t)"
      using queues_ok_queue[OF book_inv_dests(7)[OF inv] \<open>s \<noteq> BadSide\<close>, of t] by (simp add: queue_ok_def fifo_def)
    have "inj_on (\<lambda>j. fst (entry_of (bk_store bk) j)) (set (Q s t))"
    proof (rule inj_onI)
      fix j k assume jk: "j \<in> set (Q s t)" "k \<in> set (Q s t)"
        "fst (entry_of (bk_store bk) j) = fst (entry_of (bk_store bk) k)"
      from queued_order[OF book_inv_dests(7)[OF inv] jk(1)] queued_order[OF book_inv_dests(7)[OF inv] jk(2)]
      obtain g1 o1 g2 o2 where "bk_store bk j = Some (g1, o1)" "bk_store bk k = Some (g2, o2)" by blast
      then show "j = k" using ids_ok_inj[OF book_inv_dests(6)[OF inv]] jk(3) by (simp add: entry_of_def)
    qed
    then show ?thesis using d0 by (simp add: A abs_book_def distinct_map comp_def)
  qed
  have other: "r' \<noteq> ref" if "resting A r' s' t' q'" "(s', t') \<noteq> (s, t)" for r' s' t' q'
    using resting_functional[OF rel r] that by blast
  show ?thesis
  proof (intro set_eqI iffI)
    fix x assume "x \<in> refs_of (spec_reduce s t ref r A)"
    then obtain s' t' q' where x: "(x, q') \<in> set (spec_reduce s t ref r A s' t')"
      by (auto simp: refs_of_def resting_def)
    show "x \<in> refs_of A - {ref}"
    proof (cases "(s', t') = (s, t)")
      case True
      then have "(x, q') \<in> set (reduce_entry ref r (A s t))" using x by (simp add: spec_reduce_def)
      then have "(x, q') \<in> set (A s t) \<and> x \<noteq> ref" using mem[OF dist] r by (simp add: resting_def)
      then show ?thesis by (auto simp: refs_of_def resting_def)
    next
      case False
      then have "(x, q') \<in> set (A s' t')" using x by (auto simp: spec_reduce_def split: if_splits)
      then have "resting A x s' t' q'" by (simp add: resting_def)
      then show ?thesis using other[OF _ False] by (auto simp: refs_of_def)
    qed
  next
    fix x assume "x \<in> refs_of A - {ref}"
    then obtain s' t' q' where x: "(x, q') \<in> set (A s' t')" "x \<noteq> ref" by (auto simp: refs_of_def resting_def)
    have "(x, q') \<in> set (spec_reduce s t ref r A s' t')"
      using x mem[OF dist, of x q'] r by (auto simp: spec_reduce_def resting_def)
    then show "x \<in> refs_of (spec_reduce s t ref r A)" by (auto simp: refs_of_def resting_def)
  qed
qed

definition replace_error :: "book \<Rightarrow> abook \<Rightarrow> u64 \<Rightarrow> u64 \<Rightarrow> int \<Rightarrow> int \<Rightarrow> side \<Rightarrow> book_error option" where
  "replace_error bk A orig new qty price s =
     (if qty \<le> 0 then Some BadQty
      else if \<not> book_in_band bk price then Some OutOfBand
      else if orig \<notin> refs_of A then Some UnknownOrder
      else if \<not> claimable (ladder_for s bk) price then Some PageExhausted
      else if orig \<noteq> new \<and> new \<in> refs_of A then Some DuplicateRef
      else None)"

lemma id_find_resting:
  assumes "book_rel bk A" and "resting A ref s t r"
  shows "\<exists>h ord. id_find (bk_ids bk) ref = Some h \<and> h_index h \<noteq> kNullIndex \<and>
     arena_at (bk_arena bk) h = Some ord \<and> arena_valid (bk_arena bk) h \<and> o_ref ord = ref \<and> o_qty ord = r \<and>
     o_side ord = to_wire s \<and> (if o_side ord = ch_B then Buy else Sell) = s"
proof -
  from lookup_resting[OF assms] obtain slot i g ord where l:
    "id_find_slot (bk_ids bk) ref = Some (slot, \<lparr> h_index = i, h_generation = g \<rparr>)" "i \<noteq> kNullIndex"
    "arena_at (bk_arena bk) \<lparr> h_index = i, h_generation = g \<rparr> = Some ord"
    "arena_valid (bk_arena bk) \<lparr> h_index = i, h_generation = g \<rparr>"
    "o_ref ord = ref" "o_qty ord = r" "o_side ord = to_wire s" "s \<noteq> BadSide" by blast
  have "(if o_side ord = ch_B then Buy else Sell) = s" using l(7,8) by (cases s) auto
  with l show ?thesis
    by (intro exI[of _ "\<lparr> h_index = i, h_generation = g \<rparr>"] exI[of _ ord]) (simp add: id_find_def)
qed

lemma id_find_absent:
  "book_rel bk A \<Longrightarrow> ref \<notin> refs_of A \<Longrightarrow> ref \<noteq> 0 \<Longrightarrow> id_find (bk_ids bk) ref = Some null_handle"
  using lookup_absent by (fastforce simp: id_find_def)

lemma book_replace_rejects:
  assumes rel: "book_rel bk A" and nz: "orig \<noteq> 0" "new \<noteq> 0"
    and s: "orig \<in> refs_of A \<Longrightarrow> \<exists>t r. resting A orig s t r"
    and e: "replace_error bk A orig new qty price s = Some e"
  shows "book_replace orig new qty price ds bk = Some (tick_error e, ds, bk)"
proof -
  consider (early) "qty \<le> 0 \<or> \<not> book_in_band bk price"
    | (absent) "0 < qty" "book_in_band bk price" "orig \<notin> refs_of A"
    | (present) "0 < qty" "book_in_band bk price" "orig \<in> refs_of A" by fastforce
  then show ?thesis
  proof cases
    case early
    then show ?thesis using e by (auto simp: book_replace_def replace_error_def split: if_splits)
  next
    case absent
    then show ?thesis using e id_find_absent[OF rel absent(3) nz(1)]
      by (simp add: book_replace_def replace_error_def)
  next
    case present
    from s[OF present(3)] obtain t r where rst: "resting A orig s t r" by blast
    from id_find_resting[OF rel rst] obtain h ord where f: "id_find (bk_ids bk) orig = Some h"
      "h_index h \<noteq> kNullIndex" "arena_at (bk_arena bk) h = Some ord"
      "(if o_side ord = ch_B then Buy else Sell) = s" by blast
    show ?thesis
    proof (cases "claimable (ladder_for s bk) price")
      case False
      then show ?thesis using e present f by (simp add: book_replace_def replace_error_def Let_def)
    next
      case True
      then have dup: "orig \<noteq> new" "new \<in> refs_of A" "e = DuplicateRef"
        using e present by (auto simp: replace_error_def split: if_splits)
      then obtain s' t' r' where "resting A new s' t' r'" using in_refs_resting by blast
      from id_find_resting[OF rel this] obtain h' where "id_find (bk_ids bk) new = Some h'"
        "h_index h' \<noteq> kNullIndex" by blast
      then show ?thesis using dup True present f by (simp add: book_replace_def Let_def)
    qed
  qed
qed

definition delta_room2 :: "deltas \<Rightarrow> bool" where
  "delta_room2 ds \<longleftrightarrow> (case ds of None \<Rightarrow> True | Some xs \<Rightarrow> length xs < 2)"

lemma book_replace_accepts:
  assumes rel: "book_rel bk A" and r: "resting A orig s t r" and new: "new \<noteq> 0"
    and e: "replace_error bk A orig new qty price s = None"
    and fits: "level_qty (spec_reduce s t orig r A) s price + qty \<le> int64_max"
    and ds: "delta_room2 ds"
  shows "\<exists>bk'. book_replace orig new qty price ds bk =
       Some (book_event Replaced price qty s,
             with_delta (mk_delta price qty s) (with_delta (mk_delta t (- r) s) ds), bk') \<and>
     book_rel bk' (spec_add s price new qty (spec_reduce s t orig r A))"
proof -
  let ?A1 = "spec_reduce s t orig r A"
  from e have e': "0 < qty" "book_in_band bk price" "claimable (ladder_for s bk) price"
    "orig = new \<or> new \<notin> refs_of A"
    using resting_in_refs[OF r] by (auto simp: replace_error_def split: if_splits)
  from id_find_resting[OF rel r] obtain h ord where f: "id_find (bk_ids bk) orig = Some h"
    "h_index h \<noteq> kNullIndex" "arena_at (bk_arena bk) h = Some ord"
    "(if o_side ord = ch_B then Buy else Sell) = s" by blast
  have s: "s \<noteq> BadSide" using lookup_resting[OF rel r] by blast
  have "delta_room (Some [])" by (simp add: delta_room_def)
  from book_remove_accepts[OF rel r this] obtain bk1 where rm:
    "book_remove orig (Some []) bk =
       Some (book_event Removed t r s, with_delta (mk_delta t (- r) s) (Some []), bk1)"
    "book_rel bk1 ?A1" "ar_capacity (bk_arena bk1) = ar_capacity (bk_arena bk)"
    "book_in_band bk1 = book_in_band bk"
    "\<forall>s' x. s' \<noteq> BadSide \<longrightarrow> claimable (ladder_for s' bk1) x = claimable (ladder_for s' bk) x"
    "live_orders bk1 + 1 = live_orders bk" by blast
  from rel obtain Q where inv: "book_inv bk Q" by (rule book_relE)
  have room: "live_orders bk1 < ar_capacity (bk_arena bk1)"
    using rm(3,6) arena_full_iff(1)[OF book_inv_dests(1)[OF inv]] by (simp add: live_orders_def)
  have "new \<notin> refs_of ?A1" using e'(4) spec_reduce_all_refs[OF rel r] by auto
  then have acc: "add_accepted bk1 ?A1 new s qty price"
    using new e' rm(4,5) room s by (simp add: add_accepted_def)
  have ds1: "delta_room (with_delta (mk_delta t (- r) s) ds)" and ds0: "delta_room ds"
    using ds by (auto simp: delta_room_def delta_room2_def with_delta_def split: option.splits)
  from book_add_accepts[OF rm(2) s acc fits ds1] obtain bk2 where ad:
    "book_add new s qty price (with_delta (mk_delta t (- r) s) ds) bk1 =
       Some (book_event Added price qty s, with_delta (mk_delta price qty s) (with_delta (mk_delta t (- r) s) ds), bk2)"
    "book_rel bk2 (spec_add s price new qty ?A1)" by blast
  have dup: "(if orig \<noteq> new then map_option (\<lambda>h. h_index h \<noteq> kNullIndex) (id_find (bk_ids bk) new)
      else Some False) = Some False"
    using e'(4) id_find_absent[OF rel _ new] by auto
  have push: "push_deltas [mk_delta t (- r) s] ds = Some (with_delta (mk_delta t (- r) s) ds)"
    using emit_delta_room[OF ds0] by simp
  have "book_replace orig new qty price ds bk =
       Some (book_event Replaced price qty s,
             with_delta (mk_delta price qty s) (with_delta (mk_delta t (- r) s) ds), bk2)"
    unfolding book_replace_def Let_def
    using e' f rm(1) ad(1) push dup
    by (simp add: with_delta_def[of _ "Some []"] tick_ok_def book_event_def kTickError_def)
  with ad(2) show ?thesis by blast
qed

text \<open>
  A replacement by the reference zero is not rejected: the original is gone when the addition
  fails, and the assertion after it stops the process.
\<close>

lemma book_replace_zero_aborts:
  assumes rel: "book_rel bk A" and r: "resting A orig s t r"
    and q: "0 < qty" "book_in_band bk price" "claimable (ladder_for s bk) price"
  shows "book_replace orig 0 qty price ds bk = None"
proof -
  from id_find_resting[OF rel r] obtain h ord where f: "id_find (bk_ids bk) orig = Some h"
    "h_index h \<noteq> kNullIndex" "arena_at (bk_arena bk) h = Some ord"
    "(if o_side ord = ch_B then Buy else Sell) = s" by blast
  have "id_find (bk_ids bk) 0 = None" by (simp add: id_find_def id_find_slot_def)
  then show ?thesis using q f resting_nonzero[OF rel r] by (simp add: book_replace_def Let_def)
qed

section \<open>Queries\<close>

lemma qty_at_correct:
  assumes rel: "book_rel bk A" and s: "s \<noteq> BadSide"
  shows "qty_at bk s t = level_qty A s t"
proof -
  from rel obtain Q where inv: "book_inv bk Q" and A: "A = abs_book (bk_store bk) Q" by (rule book_relE)
  have "qty_at bk s t = lv_qty (lad_level (ladder_for s bk) t)"
    by (simp add: qty_at_def lad_level_peek empty_level_def split: option.splits)
  then show ?thesis using abs_level_qty[OF inv s] by (simp add: A)
qed

lemma remaining_of_correct:
  assumes rel: "book_rel bk A"
  shows "resting A ref s t r \<Longrightarrow> remaining_of bk ref = Some r \<and> side_of bk ref = Some (to_wire s)"
    and "ref \<noteq> 0 \<Longrightarrow> ref \<notin> refs_of A \<Longrightarrow> remaining_of bk ref = Some 0 \<and> side_of bk ref = Some ch_qmark"
proof -
  show "remaining_of bk ref = Some r \<and> side_of bk ref = Some (to_wire s)" if "resting A ref s t r"
    using id_find_resting[OF rel that] by (auto simp: remaining_of_def side_of_def)
  show "remaining_of bk ref = Some 0 \<and> side_of bk ref = Some ch_qmark" if "ref \<noteq> 0" "ref \<notin> refs_of A"
    using id_find_absent[OF rel that(2,1)] by (simp add: remaining_of_def side_of_def)
qed

lemma front_ref_correct:
  assumes rel: "book_rel bk A" and s: "s \<noteq> BadSide"
  shows "front_ref bk s t = Some (case A s t of [] \<Rightarrow> 0 | (r, q) # _ \<Rightarrow> r)"
proof (cases "A s t")
  case Nil
  then show ?thesis using level_head(1)[OF rel s, of t] by (auto simp: front_ref_def split: option.splits)
next
  case (Cons x xs)
  obtain r q where x: "x = (r, q)" by (cases x)
  from rel obtain Q where inv: "book_inv bk Q" by (rule book_relE)
  from level_head(2)[OF rel s Cons[unfolded x]] obtain a i g ord where h: "lad_peek (ladder_for s bk) t = Some a"
    "lv_head (lad_get (ladder_for s bk) a) = i" "i \<noteq> kNullIndex" "bk_store bk i = Some (g, ord)" "o_ref ord = r"
    by blast
  then show ?thesis using arena_map_access(1)[OF book_inv_dests(1)[OF inv] h(4)[unfolded bk_store_def]]
    by (simp add: front_ref_def Cons x)
qed

lemma level_walk_dll:
  assumes inv: "arena_inv ar" and d: "dll (arena_map ar) p xs kNullIndex"
  shows "level_walk ar fn (hd_or kNullIndex xs) st =
     Some (fold (\<lambda>i st. fn i (snd (the (arena_map ar i))) st) xs st)"
  using d
proof (induction xs arbitrary: p st)
  case Nil
  then show ?case by (simp add: level_walk.simps)
next
  case (Cons x xs)
  then obtain g ord where x: "arena_map ar x = Some (g, ord)" "o_next ord = hd_or kNullIndex xs"
    "dll (arena_map ar) x xs kNullIndex" by auto
  have xn: "x \<noteq> kNullIndex" using arena_inv_index(2)[OF inv x(1)] by simp
  have "level_walk ar fn x st = level_walk ar fn (hd_or kNullIndex xs) (fn x ord st)"
    using xn arena_map_access(1)[OF inv x(1)] x(2) by (simp add: level_walk.simps[of ar fn x st])
  also have "\<dots> = Some (fold (\<lambda>i st. fn i (snd (the (arena_map ar i))) st) xs (fn x ord st))"
    by (rule Cons.IH[OF x(3)])
  finally show ?case using x(1) by simp
qed

lemma for_each_in_level_correct:
  assumes rel: "book_rel bk A" and s: "s \<noteq> BadSide"
  shows "for_each_in_level bk s t fn st = Some (fold (\<lambda>(r, q). fn r q) (A s t) st)"
proof -
  from rel obtain Q where inv: "book_inv bk Q" and A: "A = abs_book (bk_store bk) Q" by (rule book_relE)
  note d = book_inv_dests[OF inv]
  have ff: "fifo (bk_store bk) (lad_level (ladder_for s bk) t) (Q s t)"
    using queues_ok_queue[OF d(7) s, of t] by (simp add: queue_ok_def)
  have w: "level_walk (bk_arena bk) (\<lambda>_ ord. fn (o_ref ord) (o_qty ord)) (lv_head (lad_level (ladder_for s bk) t)) st =
      Some (fold (\<lambda>i st. fn (o_ref (snd (the (bk_store bk i)))) (o_qty (snd (the (bk_store bk i)))) st) (Q s t) st)"
    using level_walk_dll[OF d(1), of kNullIndex "Q s t"] ff by (simp add: fifo_def bk_store_def)
  have ent: "entry_of (bk_store bk) i = (o_ref (snd (the (bk_store bk i))), o_qty (snd (the (bk_store bk i))))"
    if "i \<in> set (Q s t)" for i
    using queued_order[OF d(7) that] by (auto simp: entry_of_def)
  have f: "fold (\<lambda>i st. fn (o_ref (snd (the (bk_store bk i)))) (o_qty (snd (the (bk_store bk i)))) st) (Q s t) st =
      fold (\<lambda>(r, q). fn r q) (A s t) st"
    unfolding A abs_book_def fold_map comp_def
    by (rule fold_cong[OF refl refl]) (simp add: ent)
  show ?thesis
  proof (cases "lad_peek (ladder_for s bk) t")
    case None
    then have "Q s t = []"
      using queue_ok_qty(1)[OF queues_ok_queue[OF d(7) s, of t]] by (simp add: lad_level_peek empty_level_def)
    then show ?thesis using None by (simp add: for_each_in_level_def A abs_book_def)
  next
    case (Some a)
    then have "lad_level (ladder_for s bk) t = lad_get (ladder_for s bk) a" by (simp add: lad_level_peek)
    then show ?thesis using w f Some by (simp add: for_each_in_level_def)
  qed
qed

section \<open>Best prices\<close>

definition priced :: "abook \<Rightarrow> side \<Rightarrow> int set" where
  "priced A s = {t. A s t \<noteq> []}"

lemma priced_occupied:
  assumes "book_inv bk Q" and "s \<noteq> BadSide"
  shows "lad_occupied (ladder_for s bk) = priced (abs_book (bk_store bk) Q) s"
  using occupied_iff[OF book_inv_dests(7)[OF assms(1)] assms(2)] by (auto simp: priced_def abs_book_def)

lemma best_prices:
  assumes rel: "book_rel bk A"
  shows "greatest_tick (bk_best_bid bk) (priced A Buy)" and "least_tick (bk_best_ask bk) (priced A Sell)"
proof -
  from rel obtain Q where inv: "book_inv bk Q" and A: "A = abs_book (bk_store bk) Q" by (rule book_relE)
  show "greatest_tick (bk_best_bid bk) (priced A Buy)" "least_tick (bk_best_ask bk) (priced A Sell)"
    using book_inv_dests(8)[OF inv] priced_occupied[OF inv, of Buy] priced_occupied[OF inv, of Sell]
    by (auto simp: best_ok_def A ladder_for_def)
qed

lemma next_prices:
  assumes rel: "book_rel bk A" and s: "s \<noteq> BadSide"
  shows "greatest_tick (next_price_below bk s x) {t \<in> priced A s. t < x}"
    and "least_tick (next_price_above bk s x) {t \<in> priced A s. x < t}"
proof -
  from rel obtain Q where inv: "book_inv bk Q" and A: "A = abs_book (bk_store bk) Q" by (rule book_relE)
  show "greatest_tick (next_price_below bk s x) {t \<in> priced A s. t < x}"
    "least_tick (next_price_above bk s x) {t \<in> priced A s. x < t}"
    using first_below_greatest[OF book_inv_dests(5)[OF inv], of s x]
      first_above_least[OF book_inv_dests(5)[OF inv], of s x] priced_occupied[OF inv s]
    by (simp_all add: next_price_below_def next_price_above_def A)
qed

end
