(* ===== verification/BookAudit.thy ===== *)
theory BookAudit
  imports BookReplace
begin

text \<open>
  Construction, the self-check \<open>audit\<close>, and runs: a book built by the constructor and driven by any
  sequence of operations within their documented domain never fails a contract, simulates the
  abstract book step by step, and passes its audit at every point.
\<close>

section \<open>Construction\<close>

lemma book_new_correct:
  assumes "0 < capacity" "capacity < kNullIndex" "capacity \<le> length raw"
    and "4 \<le> s" "s \<le> 12" "lo < hi" "int64_min \<le> lo" "hi \<le> int32_max" "0 < pool" "pool \<le> kNoPage"
  shows "\<exists>bk. book_new capacity raw s lo hi pool = Some bk \<and> book_rel bk (\<lambda>_ _. []) \<and>
     live_orders bk = 0 \<and> ar_capacity (bk_arena bk) = capacity \<and>
     book_in_band bk = (\<lambda>t. lo \<le> t \<and> t < hi) \<and> (\<forall>s t. claimable (ladder_for s bk) t)"
proof -
  have hi: "hi \<le> int64_max" using assms(8) by (simp add: int32_max_def)
  from ladder_new_correct[OF assms(4-7) hi assms(9,10)] obtain l where
    l: "ladder_new s lo hi pool = Some l" "lad_inv l" "lad_level l = (\<lambda>_. empty_level)" "ld_lo l = lo" "ld_hi l = hi"
    "\<forall>t. claimable l t" by blast
  from id_new_correct[OF assms(1)] obtain t where
    t: "id_new capacity = Some t" "id_inv t" "id_map t = Map.empty" "it_size t = 0" "capacity * 2 \<le> it_cap t" by blast
  obtain ar where ar: "arena_new capacity raw = Some ar" using assms(1,2) by (simp add: arena_new_def)
  note ai = arena_new_inv[OF ar assms(3)]
  have arf: "ar_capacity ar = capacity" "ar_live ar = 0" using ar by (auto simp: arena_new_def bind_mog_pre_eq split: if_splits)
  let ?bk = "\<lparr> bk_arena = ar, bk_bid = l, bk_ask = l, bk_ids = t, bk_best_bid = kNoTick, bk_best_ask = kNoTick \<rparr>"
  have n: "book_new capacity raw s lo hi pool = Some ?bk"
    using ar l(1) t(1) assms(8) by (simp add: book_new_def)
  have occ: "lad_occupied l = {}" by (simp add: lad_occupied_def l(3) empty_level_def)
  have "book_inv ?bk (\<lambda>_ _. [])"
    using ai l t arf occ
    by (auto simp: book_inv_def ids_ok_def bk_store_def queues_ok_def queue_ok_def fifo_def
        ladder_for_def empty_level_def best_ok_def greatest_tick_def least_tick_def)
  then have "book_rel ?bk (\<lambda>_ _. [])"
    by (rule book_relI) (simp add: abs_book_def fun_eq_iff)
  with n arf l(4-6) show ?thesis
    by (auto simp: live_orders_def book_in_band_def lad_in_band_def ladder_for_def fun_eq_iff)
qed

section \<open>The audit passes on every represented book\<close>

lemma check_walk_dll:
  assumes inv: "arena_inv ar"
  shows "dll (arena_map ar) p xs kNullIndex \<Longrightarrow>
     (\<forall>i\<in>set xs. \<exists>g ord. arena_map ar i = Some (g, ord) \<and> o_price ord = t \<and> o_side ord = sc \<and> 0 < o_qty ord) \<Longrightarrow>
     walked + length xs \<le> ar_capacity ar \<Longrightarrow>
     check_walk ar sc t (hd_or kNullIndex xs) p qsum walked ok =
       Some (last_or p xs, qsum + (\<Sum>i\<leftarrow>xs. snd (entry_of (arena_map ar) i)), walked + length xs, ok)"
proof (induction xs arbitrary: p qsum walked ok)
  case Nil
  then show ?case by (simp add: check_walk.simps)
next
  case (Cons x xs)
  then obtain g ord where x: "arena_map ar x = Some (g, ord)" "o_prev ord = p" "o_next ord = hd_or kNullIndex xs"
    "o_price ord = t" "o_side ord = sc" "0 < o_qty ord"
    by fastforce
  have xn: "x \<noteq> kNullIndex" using arena_inv_index(2)[OF inv x(1)] by simp
  have "check_walk ar sc t x p qsum walked ok =
      check_walk ar sc t (hd_or kNullIndex xs) x (qsum + o_qty ord) (walked + 1) ok"
    using xn arena_map_access(1)[OF inv x(1)] x Cons.prems(3)
    by (simp add: check_walk.simps[of ar sc t x] Let_def)
  also have "\<dots> = Some (last_or x xs, qsum + o_qty ord + (\<Sum>i\<leftarrow>xs. snd (entry_of (arena_map ar) i)),
      walked + 1 + length xs, ok)"
    using Cons by (intro Cons.IH) auto
  finally show ?case using x(1) by (simp add: entry_of_def)
qed

lemma check_fifos_correct:
  assumes inv: "book_inv bk Q" and s: "s \<noteq> BadSide"
  shows "check_fifos bk s = Some True"
proof -
  note d = book_inv_dests[OF inv]
  have lvl: "check_level (bk_arena bk) (to_wire s) t (lad_level (ladder_for s bk) t) True = Some True"
    if "t \<in> lad_occupied (ladder_for s bk)" for t
  proof -
    let ?xs = "Q s t" and ?lv = "lad_level (ladder_for s bk) t"
    have q: "queue_ok (bk_store bk) s t ?lv ?xs" using queues_ok_queue[OF d(7) s] .
    have "set ?xs \<subseteq> {..<ar_capacity (bk_arena bk)}"
    proof
      fix i assume "i \<in> set ?xs"
      from queued_order[OF d(7) this] show "i \<in> {..<ar_capacity (bk_arena bk)}"
        using arena_inv_index(1)[OF d(1)] by (auto simp: bk_store_def)
    qed
    then have "card (set ?xs) \<le> ar_capacity (bk_arena bk)" using card_mono[of "{..<ar_capacity (bk_arena bk)}"] by simp
    then have len: "0 + length ?xs \<le> ar_capacity (bk_arena bk)"
      using q by (simp add: queue_ok_def fifo_def distinct_card)
    have pos: "lv_qty ?lv > 0"
      using that queue_ok_qty(3)[OF q] by (simp add: lad_occupied_def)
    have w: "check_walk (bk_arena bk) (to_wire s) t (hd_or kNullIndex ?xs) kNullIndex 0 0 True =
      Some (last_or kNullIndex ?xs, 0 + (\<Sum>i\<leftarrow>?xs. snd (entry_of (bk_store bk) i)), 0 + length ?xs, True)"
      unfolding bk_store_def
      by (rule check_walk_dll[OF d(1) _ _ len]) (use q in \<open>auto simp: queue_ok_def fifo_def bk_store_def\<close>)
    have lv: "lv_head ?lv = hd_or kNullIndex ?xs" "lv_tail ?lv = last_or kNullIndex ?xs"
      "lv_count ?lv = length ?xs" "lv_qty ?lv = (\<Sum>i\<leftarrow>?xs. snd (entry_of (bk_store bk) i))"
      using q by (simp_all add: queue_ok_def fifo_def)
    show ?thesis using w pos by (simp add: check_level_def lv)
  qed
  have "fold (\<lambda>t st. Option.bind st (check_level (bk_arena bk) (to_wire s) t (lad_level (ladder_for s bk) t))) ts
      (Some True) = Some True" if "set ts \<subseteq> lad_occupied (ladder_for s bk)" for ts
    using that by (induction ts) (auto simp: lvl)
  then show ?thesis
    unfolding check_fifos_def for_each_level_sorted[OF d(5)]
    using lad_occupied_finite[OF d(5)] by simp
qed

lemma brute_best_correct:
  assumes inv: "lad_inv (ladder_for s bk)"
  shows "s = Buy \<Longrightarrow> greatest_tick (brute_best bk s) (lad_occupied (ladder_for s bk))"
    and "s \<noteq> Buy \<Longrightarrow> least_tick (brute_best bk s) (lad_occupied (ladder_for s bk))"
proof -
  let ?S = "lad_occupied (ladder_for s bk)"
  have nt: "t \<noteq> kNoTick" if "t \<in> ?S" for t using occupied_addr(5)[OF inv that] .
  have g: "greatest_tick (fold (\<lambda>t b. if b = kNoTick \<or> t > b then t else b) ts b) (set ts \<union> T)"
    if "greatest_tick b T" "kNoTick \<notin> T" "kNoTick \<notin> set ts" for ts b T
    using that
  proof (induction ts arbitrary: b T)
    case (Cons t ts)
    have "greatest_tick (if b = kNoTick \<or> t > b then t else b) (insert t T)"
      using Cons.prems by (intro greatest_tick_insert) auto
    from Cons.IH[OF this] Cons.prems show ?case by simp
  qed simp
  have l: "least_tick (fold (\<lambda>t b. if b = kNoTick \<or> t < b then t else b) ts b) (set ts \<union> T)"
    if "least_tick b T" "kNoTick \<notin> T" "kNoTick \<notin> set ts" for ts b T
    using that
  proof (induction ts arbitrary: b T)
    case (Cons t ts)
    have "least_tick (if b = kNoTick \<or> t < b then t else b) (insert t T)"
      using Cons.prems by (intro least_tick_insert) auto
    from Cons.IH[OF this] Cons.prems show ?case by simp
  qed simp
  show "greatest_tick (brute_best bk s) ?S" if "s = Buy"
    using g[of kNoTick "{}" "sorted_list_of_set ?S"] that nt lad_occupied_finite[OF inv]
    unfolding brute_best_def for_each_level_sorted[OF inv] by (auto simp: greatest_tick_def)
  show "least_tick (brute_best bk s) ?S" if "s \<noteq> Buy"
    using l[of kNoTick "{}" "sorted_list_of_set ?S"] that nt lad_occupied_finite[OF inv]
    unfolding brute_best_def for_each_level_sorted[OF inv] by (auto simp: least_tick_def)
qed

lemma audit_table_correct:
  assumes "\<And>ref h. (ref, h) \<in> set es \<Longrightarrow> ref \<noteq> 0 \<Longrightarrow> arena_valid ar h \<and> map_option o_ref (arena_at ar h) = Some ref"
  shows "audit_table ar es n = Some (n + occupied es)"
  using assms
proof (induction es arbitrary: n)
  case (Cons e es)
  obtain ref h where e: "e = (ref, h)" by (cases e)
  have ih: "audit_table ar es k = Some (k + occupied es)" for k
    using Cons by (intro Cons.IH) (metis list.set_intros(2))
  show ?case using Cons.prems[of ref h] ih by (auto simp: e occupied_def)
qed (simp add: occupied_def)

lemma book_audit_correct:
  assumes rel: "book_rel bk A"
  shows "book_audit bk = Some True"
proof -
  from rel obtain Q where inv: "book_inv bk Q" by (rule book_relE)
  note d = book_inv_dests[OF inv]
  have b: "bk_best_bid bk = brute_best bk Buy" "bk_best_ask bk = brute_best bk Sell"
    using brute_best_correct(1)[OF d(5), of Buy] brute_best_correct(2)[OF d(5), of Sell] d(8)
      greatest_tick_unique least_tick_unique
    by (auto simp: best_ok_def ladder_for_def)
  let ?es = "it_entries (bk_ids bk)"
  have ti: "tbl_inv (probe_start (it_shift (bk_ids bk))) (it_cap (bk_ids bk)) ?es"
    and sz: "it_size (bk_ids bk) = occupied ?es" using d(4) by (simp_all add: id_inv_def)
  then have len: "length ?es = it_cap (bk_ids bk)" and kd: "keys_distinct (it_cap (bk_ids bk)) ?es {}"
    by (simp_all add: tbl_inv_def)
  have "arena_valid (bk_arena bk) h \<and> map_option o_ref (arena_at (bk_arena bk) h) = Some ref"
    if e: "(ref, h) \<in> set ?es" "ref \<noteq> 0" for ref h
  proof -
    have "id_map (bk_ids bk) ref = Some h"
      unfolding id_map_def tbl_map_Some[OF len kd e(2)] using e(1) len by (metis in_set_conv_nth)
    from ids_ok_ref[OF d(6) this] obtain ord where
      o: "arena_map (bk_arena bk) (h_index h) = Some (h_generation h, ord)" "o_ref ord = ref"
      by (auto simp: bk_store_def)
    have "\<lparr> h_index = h_index h, h_generation = h_generation h \<rparr> = h" by (cases h) simp
    with arena_map_access(2,3)[OF d(1) o(1)] o(2) show ?thesis by simp
  qed
  then have "audit_table (bk_arena bk) ?es 0 = Some (occupied ?es)" using audit_table_correct[of ?es] by simp
  moreover have "occupied ?es = ar_live (bk_arena bk)" using inv sz by (simp add: book_inv_def)
  ultimately show ?thesis
    using check_fifos_correct[OF inv] b by (simp add: book_audit_def)
qed

section \<open>Runs\<close>

datatype book_op =
    OpAdd u64 side int int
  | OpExecute u64 int
  | OpExecuteFront side int int
  | OpRemove u64
  | OpReplace u64 u64 int int

fun run_op :: "book_op \<Rightarrow> book \<Rightarrow> (book_tick \<times> book) option" where
  "run_op (OpAdd ref s qty price) bk = map_option (\<lambda>(t, _, b). (t, b)) (book_add ref s qty price None bk)"
| "run_op (OpExecute ref qty) bk = map_option (\<lambda>(t, _, b). (t, b)) (book_execute ref qty None bk)"
| "run_op (OpExecuteFront s price qty) bk =
     map_option (\<lambda>(_, t, _, b). (t, b)) (book_execute_front s price qty None bk)"
| "run_op (OpRemove ref) bk = map_option (\<lambda>(t, _, b). (t, b)) (book_remove ref None bk)"
| "run_op (OpReplace orig new qty price) bk =
     map_option (\<lambda>(t, _, b). (t, b)) (book_replace orig new qty price None bk)"

text \<open>
  When an operation may be refused. Only an order that takes a new place in the book can be refused
  for a reason outside the abstract state (band, page pool, arena).
\<close>

fun reject_reason :: "abook \<Rightarrow> book_op \<Rightarrow> book_error \<Rightarrow> bool" where
  "reject_reason A (OpAdd ref s qty price) e \<longleftrightarrow>
     (e = ZeroRef \<and> ref = 0) \<or> (e = BadQty \<and> qty \<le> 0) \<or> (e = DuplicateRef \<and> ref \<in> refs_of A) \<or>
     e = OutOfBand \<or> e = PageExhausted \<or> e = ArenaFull"
| "reject_reason A (OpExecute ref qty) e \<longleftrightarrow>
     (e = BadQty \<and> qty \<le> 0) \<or> (e = UnknownOrder \<and> ref \<notin> refs_of A) \<or>
     (e = OverExecute \<and> (\<exists>s t r. resting A ref s t r \<and> r < qty))"
| "reject_reason A (OpExecuteFront s price qty) e \<longleftrightarrow>
     (e = BadQty \<and> qty \<le> 0) \<or> (e = EmptyLevel \<and> A s price = [])"
| "reject_reason A (OpRemove ref) e \<longleftrightarrow> e = UnknownOrder \<and> ref \<notin> refs_of A"
| "reject_reason A (OpReplace orig new qty price) e \<longleftrightarrow>
     (e = BadQty \<and> qty \<le> 0) \<or> (e = UnknownOrder \<and> orig \<notin> refs_of A) \<or>
     (e = DuplicateRef \<and> orig \<noteq> new \<and> new \<in> refs_of A) \<or> e = OutOfBand \<or> e = PageExhausted"

text \<open>
  The steps of the abstract book: a rejection changes nothing, the others are those of a
  price-time priority book.
\<close>

inductive abook_step :: "abook \<Rightarrow> book_op \<Rightarrow> book_tick \<Rightarrow> abook \<Rightarrow> bool" where
  rejected: "reject_reason A x e \<Longrightarrow> abook_step A x (tick_error e) A"
| added: "0 < qty \<Longrightarrow> ref \<noteq> 0 \<Longrightarrow> ref \<notin> refs_of A \<Longrightarrow>
    abook_step A (OpAdd ref s qty price) (book_event Added price qty s) (spec_add s price ref qty A)"
| executed: "resting A ref s t r \<Longrightarrow> 0 < qty \<Longrightarrow> qty \<le> r \<Longrightarrow>
    abook_step A (OpExecute ref qty) (book_event (if qty = r then Removed else Reduced) t qty s)
      (spec_reduce s t ref qty A)"
| matched: "A s t = (ref, r) # rest \<Longrightarrow> 0 < qty \<Longrightarrow> qty \<le> r \<Longrightarrow>
    abook_step A (OpExecuteFront s t qty) (book_event (if qty = r then Removed else Reduced) t qty s)
      (spec_reduce s t ref qty A)"
| removed: "resting A ref s t r \<Longrightarrow>
    abook_step A (OpRemove ref) (book_event Removed t r s) (spec_reduce s t ref r A)"
| replaced: "resting A orig s t r \<Longrightarrow> 0 < qty \<Longrightarrow> new = orig \<or> new \<notin> refs_of A \<Longrightarrow> new \<noteq> 0 \<Longrightarrow>
    abook_step A (OpReplace orig new qty price) (book_event Replaced price qty s)
      (spec_add s price new qty (spec_reduce s t orig r A))"

text \<open>
  The domain of an operation: no reference zero where the table is probed, a side of the two, a
  match clamped to the head order, and no level total beyond 64 bits.
\<close>

fun op_safe :: "abook \<Rightarrow> book_op \<Rightarrow> bool" where
  "op_safe A (OpAdd ref s qty price) \<longleftrightarrow> s \<noteq> BadSide \<and> level_qty A s price + qty \<le> int64_max"
| "op_safe A (OpExecute ref qty) \<longleftrightarrow> ref \<noteq> 0"
| "op_safe A (OpExecuteFront s price qty) \<longleftrightarrow>
     s \<noteq> BadSide \<and> (case A s price of [] \<Rightarrow> True | (r, q) # _ \<Rightarrow> qty \<le> q)"
| "op_safe A (OpRemove ref) \<longleftrightarrow> ref \<noteq> 0"
| "op_safe A (OpReplace orig new qty price) \<longleftrightarrow> orig \<noteq> 0 \<and> new \<noteq> 0 \<and>
     (\<forall>s t r. resting A orig s t r \<longrightarrow> level_qty (spec_reduce s t orig r A) s price + qty \<le> int64_max)"

lemma run_op_simulates:
  assumes rel: "book_rel bk A" and safe: "op_safe A x"
  shows "\<exists>tick bk' A'. run_op x bk = Some (tick, bk') \<and> abook_step A x tick A' \<and> book_rel bk' A'"
proof -
  have room: "delta_room None" "delta_room2 None" by (simp_all add: delta_room_def delta_room2_def)
  have rej: ?thesis if "run_op x bk = Some (tick_error e, bk)" "reject_reason A x e" for e
    using that rel abook_step.rejected by blast
  show ?thesis
  proof (cases x)
    case (OpAdd ref s qty price)
    show ?thesis
    proof (cases "add_error bk A ref s qty price")
      case None
      note acc = add_error_None[OF rel None]
      from book_add_accepts[OF rel _ acc _ room(1)] safe OpAdd obtain bk' where
        "book_add ref s qty price None bk =
           Some (book_event Added price qty s, with_delta (mk_delta price qty s) None, bk')"
        "book_rel bk' (spec_add s price ref qty A)" by auto
      then show ?thesis using acc OpAdd abook_step.added[of qty ref A s price]
        by (auto simp: add_accepted_def)
    next
      case (Some e)
      then have "reject_reason A x e" by (auto simp: add_error_def OpAdd split: if_splits)
      then show ?thesis using rej OpAdd book_add_rejects[OF rel Some] by simp
    qed
  next
    case (OpExecute ref qty)
    show ?thesis
    proof (cases "0 < qty \<and> ref \<in> refs_of A")
      case True
      then obtain s t r where rst: "resting A ref s t r" using in_refs_resting by blast
      show ?thesis
      proof (cases "qty \<le> r")
        case le: True
        from book_execute_accepts[OF rel rst _ le room(1)] True le abook_step.executed[OF rst, of qty]
        show ?thesis by (fastforce simp: OpExecute)
      next
        case False
        then have "reject_reason A x OverExecute" using rst
          by (simp add: OpExecute) (metis linorder_not_le)
        then show ?thesis using rej book_execute_rejects(3)[OF rel rst] True False OpExecute by simp
      qed
    next
      case False
      then show ?thesis
        using rej[of BadQty] rej[of UnknownOrder] book_execute_rejects(1,2)[OF rel] safe OpExecute
        by (cases "0 < qty") auto
    qed
  next
    case (OpExecuteFront s price qty)
    show ?thesis
    proof (cases "0 < qty \<and> A s price \<noteq> []")
      case True
      then obtain ref r rest where hd: "A s price = (ref, r) # rest" by (metis list.exhaust prod.exhaust)
      have le: "qty \<le> r" and s: "s \<noteq> BadSide" using safe hd OpExecuteFront by auto
      have sp: "A(s := (A s)(price := (if qty = r then rest else (ref, r - qty) # rest))) =
          spec_reduce s price ref qty A" by (simp add: spec_reduce_def hd)
      from book_execute_front_accepts[OF rel s hd _ le room(1)] True le hd abook_step.matched[of A s price ref r rest qty] sp
      show ?thesis by (fastforce simp: OpExecuteFront)
    next
      case False
      then show ?thesis
        using rej[of BadQty] rej[of EmptyLevel] book_execute_front_rejects(1,2)[OF rel] safe OpExecuteFront
        by (cases "0 < qty") auto
    qed
  next
    case (OpRemove ref)
    show ?thesis
    proof (cases "ref \<in> refs_of A")
      case True
      then obtain s t r where rst: "resting A ref s t r" using in_refs_resting by blast
      from book_remove_accepts[OF rel rst room(1)] abook_step.removed[OF rst]
      show ?thesis by (fastforce simp: OpRemove)
    next
      case False
      then show ?thesis using rej[of UnknownOrder] book_remove_rejects(1)[OF rel] safe OpRemove by simp
    qed
  next
    case (OpReplace orig new qty price)
    have nz: "orig \<noteq> 0" "new \<noteq> 0" using safe OpReplace by auto
    obtain s where s: "orig \<in> refs_of A \<Longrightarrow> \<exists>t r. resting A orig s t r"
      using in_refs_resting[of orig A] by blast
    show ?thesis
    proof (cases "replace_error bk A orig new qty price s")
      case (Some e)
      then have "reject_reason A x e" by (auto simp: replace_error_def OpReplace split: if_splits)
      then show ?thesis using rej book_replace_rejects[OF rel nz s Some] OpReplace by simp
    next
      case None
      then have p: "orig \<in> refs_of A" "0 < qty" "new = orig \<or> new \<notin> refs_of A"
        by (auto simp: replace_error_def split: if_splits)
      from s[OF p(1)] obtain t r where rst: "resting A orig s t r" by blast
      have "level_qty (spec_reduce s t orig r A) s price + qty \<le> int64_max" using safe rst OpReplace by simp
      from book_replace_accepts[OF rel rst nz(2) None this room(2)] abook_step.replaced[OF rst p(2) p(3) nz(2), of price]
      show ?thesis by (fastforce simp: OpReplace)
    qed
  qed
qed

fun run_ops :: "book_op list \<Rightarrow> book \<Rightarrow> book option" where
  "run_ops [] bk = Some bk"
| "run_ops (x # xs) bk = Option.bind (run_op x bk) (\<lambda>(_, bk). run_ops xs bk)"

text \<open>Sequences of abstract steps, and the sequences of operations that stay in the domain.\<close>

inductive abook_run :: "abook \<Rightarrow> book_op list \<Rightarrow> abook \<Rightarrow> bool" where
  finished: "abook_run A [] A"
| step: "abook_step A x tick A1 \<Longrightarrow> abook_run A1 xs A2 \<Longrightarrow> abook_run A (x # xs) A2"

fun safe_run :: "abook \<Rightarrow> book_op list \<Rightarrow> bool" where
  "safe_run A [] \<longleftrightarrow> True"
| "safe_run A (x # xs) \<longleftrightarrow> op_safe A x \<and> (\<forall>tick A'. abook_step A x tick A' \<longrightarrow> safe_run A' xs)"

lemma run_ops_simulates:
  "book_rel bk A \<Longrightarrow> safe_run A xs \<Longrightarrow>
     \<exists>bk' A'. run_ops xs bk = Some bk' \<and> abook_run A xs A' \<and> book_rel bk' A'"
proof (induction xs arbitrary: bk A)
  case Nil
  then show ?case using abook_run.finished by auto
next
  case (Cons x xs)
  from run_op_simulates[OF Cons.prems(1), of x] Cons.prems(2) obtain tick bk1 A1 where
    s: "run_op x bk = Some (tick, bk1)" "abook_step A x tick A1" "book_rel bk1 A1" by auto
  from Cons.IH[OF s(3)] Cons.prems(2) s(2) obtain bk2 A2 where
    "run_ops xs bk1 = Some bk2" "abook_run A1 xs A2" "book_rel bk2 A2" by auto
  then show ?case using s abook_run.step by fastforce
qed

end
