(* ===== verification/BookProps.thy ===== *)
theory BookProps
  imports BookAudit
begin

text \<open>
  The properties of the order book, each followed by a witness: the theorem at a small concrete
  book, built by the constructor with four arena slots over the band 0 to 64.
\<close>

section \<open>A concrete book\<close>

definition demo_raw :: "order slot list" where
  "demo_raw = replicate 4 \<lparr> s_value = \<lparr> o_ref = 0, o_qty = 0, o_price = 0, o_prev = 0, o_next = 0, o_side = 0 \<rparr>,
     s_generation = 0, s_free_next = 0, s_live = False \<rparr>"

definition demo_one :: abook where
  "demo_one = spec_add Buy 20 1 10 (\<lambda>_ _. [])"

definition demo_two :: abook where
  "demo_two = spec_add Buy 20 2 5 demo_one"

lemma demo_one_eval: "demo_one s t = (if s = Buy \<and> t = 20 then [(1, 10)] else [])"
  by (simp add: demo_one_def spec_add_def)

lemma demo_two_eval: "demo_two s t = (if s = Buy \<and> t = 20 then [(1, 10), (2, 5)] else [])"
  by (simp add: demo_two_def spec_add_def demo_one_eval)

lemma demo_refs: "refs_of (\<lambda>_ _. []) = {}" "refs_of demo_one = {1}" "refs_of demo_two = {1, 2}"
  by (auto simp: refs_of_def resting_def demo_one_eval demo_two_eval)

lemma demo_new: "\<exists>bk. book_new 4 demo_raw 4 0 64 2 = Some bk \<and> book_rel bk (\<lambda>_ _. []) \<and>
   live_orders bk = 0 \<and> ar_capacity (bk_arena bk) = 4 \<and>
   book_in_band bk = (\<lambda>t. 0 \<le> t \<and> t < 64) \<and> (\<forall>s t. claimable (ladder_for s bk) t)"
  by (rule book_new_correct) (auto simp: kNullIndex_def demo_raw_def int32_max_def kNoPage_def)

lemma demo_book_one: "\<exists>bk. book_rel bk demo_one \<and> live_orders bk = 1 \<and> ar_capacity (bk_arena bk) = 4 \<and>
   book_in_band bk = (\<lambda>t. 0 \<le> t \<and> t < 64)"
proof -
  from demo_new obtain bk where b: "book_rel bk (\<lambda>_ _. [])" "live_orders bk = 0"
    "ar_capacity (bk_arena bk) = 4" "book_in_band bk = (\<lambda>t. 0 \<le> t \<and> t < 64)"
    "\<forall>s t. claimable (ladder_for s bk) t" by blast
  then have "add_accepted bk (\<lambda>_ _. []) 1 Buy 10 20" by (simp add: add_accepted_def demo_refs)
  from book_add_accepts[OF b(1) _ this, of None] b show ?thesis
    by (auto simp: level_qty_def delta_room_def demo_one_def)
qed

lemma demo_book_two: "\<exists>bk. book_rel bk demo_two \<and> live_orders bk = 2 \<and> ar_capacity (bk_arena bk) = 4 \<and>
   book_in_band bk = (\<lambda>t. 0 \<le> t \<and> t < 64)"
proof -
  from demo_book_one obtain bk where b: "book_rel bk demo_one" "live_orders bk = 1"
    "ar_capacity (bk_arena bk) = 4" "book_in_band bk = (\<lambda>t. 0 \<le> t \<and> t < 64)" by blast
  have "claimable (ladder_for Buy bk) 20"
    by (rule claimable_priced[OF b(1)]) (simp_all add: demo_one_eval)
  with b have "add_accepted bk demo_one 2 Buy 5 20" by (simp add: add_accepted_def demo_refs)
  from book_add_accepts[OF b(1) _ this, of None] b show ?thesis
    by (auto simp: level_qty_def delta_room_def demo_two_def demo_one_eval)
qed

lemma demo_resting: "resting demo_two 1 Buy 20 10" "resting demo_two 2 Buy 20 5"
  by (simp_all add: resting_def demo_two_eval)

lemma delta_room_None: "delta_room None" "delta_room2 None"
  by (simp_all add: delta_room_def delta_room2_def)

section \<open>Runs\<close>

text \<open>C1: A book driven by any sequence of adds, executions, front matches, removals and
  replacements within their domain never fails a contract and never diverges. The final book is
  the one the abstract price-time priority book reaches by the same sequence, each refusal is
  justified by the abstract book, and the self-check \<open>audit\<close> returns true.\<close>

theorem book_run_refines:
  assumes "book_rel bk A" and "safe_run A xs"
  shows "\<exists>bk' A'. run_ops xs bk = Some bk' \<and> abook_run A xs A' \<and> book_rel bk' A' \<and>
    book_audit bk' = Some True"
proof -
  from run_ops_simulates[OF assms] obtain bk' A' where
    "run_ops xs bk = Some bk'" "abook_run A xs A'" "book_rel bk' A'" by blast
  then show ?thesis using book_audit_correct by blast
qed

lemma demo_safe_run: "safe_run demo_two [OpExecute 1 4, OpRemove 2]"
  by simp

lemma book_run_refines_witness:
  "\<exists>bk bk' A'. run_ops [OpExecute 1 4, OpRemove 2] bk = Some bk' \<and>
     abook_run demo_two [OpExecute 1 4, OpRemove 2] A' \<and> book_audit bk' = Some True"
  using demo_book_two book_run_refines[OF _ demo_safe_run] by metis

section \<open>Operations\<close>

text \<open>C12: Executing (or cancelling) part or all of a resting order takes the quantity from exactly
  that entry of its queue, keeps its time priority, removes it when it reaches zero, and reports
  the price, quantity, side and kind of the change.\<close>

theorem book_execute_refines:
  assumes "book_rel bk A" and "resting A ref s t r" and "0 < qty" and "qty \<le> r" and "delta_room ds"
  shows "\<exists>bk'. book_execute ref qty ds bk =
       Some (book_event (if qty = r then Removed else Reduced) t qty s,
             with_delta (mk_delta t (- qty) s) ds, bk') \<and>
     book_rel bk' (spec_reduce s t ref qty A) \<and> book_cancel ref qty ds bk = book_execute ref qty ds bk"
  using book_execute_accepts[OF assms] by (auto simp: book_cancel_def)

lemma book_execute_refines_witness:
  "\<exists>bk bk'. book_execute 1 4 None bk = Some (book_event Reduced 20 4 Buy, None, bk') \<and>
     book_rel bk' (spec_reduce Buy 20 1 4 demo_two)"
proof -
  from demo_book_two obtain bk where "book_rel bk demo_two" by blast
  from book_execute_refines[OF this demo_resting(1), of 4 None] show ?thesis
    by (auto simp: delta_room_None with_delta_def)
qed

text \<open>An accepted order joins the tail of the FIFO queue of its side and price, and no other
  queue changes.\<close>

theorem book_add_refines:
  assumes "book_rel bk A" and "s \<noteq> BadSide" and "add_error bk A ref s qty price = None"
    and "level_qty A s price + qty \<le> int64_max" and "delta_room ds"
  shows "\<exists>bk'. book_add ref s qty price ds bk =
       Some (book_event Added price qty s, with_delta (mk_delta price qty s) ds, bk') \<and>
     book_rel bk' (A(s := (A s)(price := A s price @ [(ref, qty)])))"
  using book_add_accepts[OF assms(1,2) add_error_None[OF assms(1,3)] assms(4,5)]
  by (auto simp: spec_add_def)

lemma book_add_refines_witness:
  "\<exists>bk bk'. book_add 3 Buy 7 20 None bk = Some (book_event Added 20 7 Buy, None, bk') \<and>
     book_rel bk' (demo_two(Buy := (demo_two Buy)(20 := [(1, 10), (2, 5), (3, 7)])))"
proof -
  from demo_book_two obtain bk where b: "book_rel bk demo_two" "live_orders bk = 2"
    "ar_capacity (bk_arena bk) = 4" "book_in_band bk = (\<lambda>t. 0 \<le> t \<and> t < 64)" by blast
  have "claimable (ladder_for Buy bk) 20"
    by (rule claimable_priced[OF b(1)]) (simp_all add: demo_two_eval)
  then have "add_error bk demo_two 3 Buy 7 20 = None" using b by (simp add: add_error_def demo_refs)
  from book_add_refines[OF b(1) _ this, of None] show ?thesis
    by (auto simp: delta_room_None with_delta_def level_qty_def demo_two_eval)
qed

text \<open>A refused \<open>add\<close> reports the first failing check in the order reference, quantity, band,
  page pool, duplicate, arena, and leaves the book and the deltas as they were.\<close>

theorem book_add_refuses:
  assumes "book_rel bk A" and "add_error bk A ref s qty price = Some e"
  shows "book_add ref s qty price ds bk = Some (tick_error e, ds, bk)"
  by (rule book_add_rejects[OF assms])

lemma book_add_refuses_witness:
  "\<exists>bk. book_add 2 Buy 7 20 None bk = Some (tick_error DuplicateRef, None, bk)"
proof -
  from demo_book_two obtain bk where b: "book_rel bk demo_two"
    "book_in_band bk = (\<lambda>t. 0 \<le> t \<and> t < 64)" by blast
  have "claimable (ladder_for Buy bk) 20"
    by (rule claimable_priced[OF b(1)]) (simp_all add: demo_two_eval)
  then have "add_error bk demo_two 2 Buy 7 20 = Some DuplicateRef" using b by (simp add: add_error_def demo_refs)
  from book_add_refuses[OF b(1) this] show ?thesis by blast
qed

text \<open>An accepted replacement removes the original and queues the new reference at the tail of
  the new price on the original side, in one operation that reports both deltas, even when it
  reuses the reference or the book was full.\<close>

theorem book_replace_refines:
  assumes "book_rel bk A" and "resting A orig s t r" and "new \<noteq> 0"
    and "replace_error bk A orig new qty price s = None"
    and "level_qty (spec_reduce s t orig r A) s price + qty \<le> int64_max" and "delta_room2 ds"
  shows "\<exists>bk'. book_replace orig new qty price ds bk =
       Some (book_event Replaced price qty s,
             with_delta (mk_delta price qty s) (with_delta (mk_delta t (- r) s) ds), bk') \<and>
     book_rel bk' (spec_add s price new qty (spec_reduce s t orig r A))"
  by (rule book_replace_accepts[OF assms])

lemma book_replace_refines_witness:
  "\<exists>bk bk'. book_replace 1 9 3 20 None bk = Some (book_event Replaced 20 3 Buy, None, bk') \<and>
     book_rel bk' (spec_add Buy 20 9 3 (spec_reduce Buy 20 1 10 demo_two))"
proof -
  from demo_book_two obtain bk where b: "book_rel bk demo_two"
    "book_in_band bk = (\<lambda>t. 0 \<le> t \<and> t < 64)" by blast
  have "claimable (ladder_for Buy bk) 20"
    by (rule claimable_priced[OF b(1)]) (simp_all add: demo_two_eval)
  then have "replace_error bk demo_two 1 9 3 20 Buy = None"
    using b by (simp add: replace_error_def demo_refs)
  from book_replace_refines[OF b(1) demo_resting(1) _ this, of None] show ?thesis
    by (auto simp: delta_room_None with_delta_def level_qty_def spec_reduce_def demo_two_eval)
qed

text \<open>A replacement refused by its own checks leaves both orders and the whole book untouched.\<close>

theorem book_replace_refuses:
  assumes "book_rel bk A" and "orig \<noteq> 0" and "new \<noteq> 0" and "resting A orig s t r"
    and "replace_error bk A orig new qty price s = Some e"
  shows "book_replace orig new qty price ds bk = Some (tick_error e, ds, bk)"
  by (rule book_replace_rejects[OF assms(1-3) _ assms(5)]) (use assms(4) in blast)

lemma book_replace_refuses_witness:
  "\<exists>bk. book_replace 1 2 3 20 None bk = Some (tick_error DuplicateRef, None, bk)"
proof -
  from demo_book_two obtain bk where b: "book_rel bk demo_two"
    "book_in_band bk = (\<lambda>t. 0 \<le> t \<and> t < 64)" by blast
  have "claimable (ladder_for Buy bk) 20"
    by (rule claimable_priced[OF b(1)]) (simp_all add: demo_two_eval)
  then have "replace_error bk demo_two 1 2 3 20 Buy = Some DuplicateRef"
    using b by (simp add: replace_error_def demo_refs)
  from book_replace_refuses[OF b(1) _ _ demo_resting(1) this] show ?thesis by auto
qed

text \<open>C30: A replacement by the reference zero, which the checks of \<open>replace\<close> let through, always
  aborts on a contract although the comment promises that a rejected replace leaves both orders
  untouched.\<close>

theorem book_replace_zero_ref:
  assumes "book_rel bk A" and "resting A orig s t r"
    and "0 < qty" and "book_in_band bk price" and "claimable (ladder_for s bk) price"
  shows "book_replace orig 0 qty price ds bk = None"
  by (rule book_replace_zero_aborts[OF assms])

lemma book_replace_zero_ref_witness: "\<exists>bk. book_rel bk demo_two \<and> book_replace 1 0 3 20 None bk = None"
proof -
  from demo_book_two obtain bk where b: "book_rel bk demo_two"
    "book_in_band bk = (\<lambda>t. 0 \<le> t \<and> t < 64)" by blast
  have "claimable (ladder_for Buy bk) 20"
    by (rule claimable_priced[OF b(1)]) (simp_all add: demo_two_eval)
  with book_replace_zero_ref[OF b(1) demo_resting(1)] b show ?thesis by auto
qed

text \<open>Matching at a level hits its oldest order and reports that order's reference; the rest of
  the queue keeps its order. A quantity larger than the head order aborts, whatever the level holds
  behind it.\<close>

theorem book_execute_front_fifo:
  assumes "book_rel bk A" and "s \<noteq> BadSide" and "A s t = (ref, r) # rest" and "0 < qty" and "delta_room ds"
  shows "if qty \<le> r
     then \<exists>bk'. book_execute_front s t qty ds bk =
         Some (Some ref, book_event (if qty = r then Removed else Reduced) t qty s,
               with_delta (mk_delta t (- qty) s) ds, bk') \<and>
       book_rel bk' (A(s := (A s)(t := (if qty = r then rest else (ref, r - qty) # rest))))
     else book_execute_front s t qty ds bk = None"
proof (cases "qty \<le> r")
  case True
  then show ?thesis using book_execute_front_accepts[OF assms(1-4) True assms(5)] by simp
next
  case False
  then show ?thesis using book_execute_front_rejects(3)[OF assms(1-4)] by simp
qed

lemma book_execute_front_fifo_witness:
  "\<exists>bk bk'. book_execute_front Buy 20 10 None bk =
       Some (Some 1, book_event Removed 20 10 Buy, None, bk') \<and>
     book_rel bk' (demo_two(Buy := (demo_two Buy)(20 := [(2, 5)]))) \<and>
     book_execute_front Buy 20 12 None bk = None"
proof -
  from demo_book_two obtain bk where b: "book_rel bk demo_two" by blast
  have h: "demo_two Buy 20 = (1, 10) # [(2, 5)]" by (simp add: demo_two_eval)
  show ?thesis
    using book_execute_front_fifo[OF b _ h, of 10 None] book_execute_front_fifo[OF b _ h, of 12 None]
    by (auto simp: delta_room_None with_delta_def)
qed

section \<open>Queries\<close>

text \<open>C28: The cached best bid and ask are the highest and lowest prices with a resting order, or the
  sentinel when there is none, and the next price queries return the nearest such price on
  either side of any tick.\<close>

theorem book_best_prices:
  assumes "book_rel bk A"
  shows "greatest_tick (bk_best_bid bk) {t. A Buy t \<noteq> []} \<and> least_tick (bk_best_ask bk) {t. A Sell t \<noteq> []} \<and>
    greatest_tick (next_price_below bk Buy x) {t. A Buy t \<noteq> [] \<and> t < x} \<and>
    least_tick (next_price_above bk Sell x) {t. A Sell t \<noteq> [] \<and> x < t}"
  using best_prices[OF assms] next_prices[OF assms, of Buy x] next_prices[OF assms, of Sell x]
  by (simp add: priced_def)

lemma book_best_prices_witness:
  "\<exists>bk. bk_best_bid bk = 20 \<and> bk_best_ask bk = kNoTick \<and> next_price_below bk Buy 30 = 20"
proof -
  from demo_book_two obtain bk where b: "book_rel bk demo_two" by blast
  have e: "{t. demo_two Buy t \<noteq> []} = {20}" "{t. demo_two Sell t \<noteq> []} = {}"
    "{t. demo_two Buy t \<noteq> [] \<and> t < 30} = {20}" by (auto simp: demo_two_eval)
  from book_best_prices[OF b, of 30] show ?thesis
    unfolding e by (intro exI[of _ bk]) (simp add: greatest_tick_def least_tick_def)
qed

text \<open>Walking a level visits exactly its resting orders in time priority, and its aggregate is
  the sum of their quantities; \<open>front_ref\<close> is the oldest reference.\<close>

theorem book_level_queries:
  assumes "book_rel bk A" and "s \<noteq> BadSide"
  shows "for_each_in_level bk s t fn st = Some (fold (\<lambda>(r, q). fn r q) (A s t) st) \<and>
    qty_at bk s t = sum_list (map snd (A s t)) \<and>
    front_ref bk s t = Some (case A s t of [] \<Rightarrow> 0 | x # _ \<Rightarrow> fst x)"
proof -
  have "(\<lambda>(r :: u64, q :: int). q) = snd" by auto
  then show ?thesis
    using for_each_in_level_correct[OF assms, of t fn st] qty_at_correct[OF assms, of t]
      front_ref_correct[OF assms, of t]
    by (cases "A s t") (auto simp: level_qty_def)
qed

lemma book_level_queries_witness:
  "\<exists>bk. for_each_in_level bk Buy 20 (\<lambda>r q st. st @ [(r, q)]) [] = Some [(1, 10), (2, 5)] \<and>
     qty_at bk Buy 20 = 15 \<and> front_ref bk Buy 20 = Some 1"
proof -
  from demo_book_two obtain bk where b: "book_rel bk demo_two" by blast
  from book_level_queries[OF b, of Buy 20 "\<lambda>r q st. st @ [(r, q)]" "[]"] show ?thesis
    by (intro exI[of _ bk]) (simp add: demo_two_eval)
qed

text \<open>The remaining quantity and side of a reference are those of its resting entry, zero and
  the question mark when it rests nowhere.\<close>

theorem book_reference_queries:
  assumes "book_rel bk A" and "ref \<noteq> 0"
  shows "if ref \<in> refs_of A
     then \<exists>s t r. resting A ref s t r \<and> remaining_of bk ref = Some r \<and> side_of bk ref = Some (to_wire s)
     else remaining_of bk ref = Some 0 \<and> side_of bk ref = Some ch_qmark"
  using remaining_of_correct[OF assms(1)] assms(2) in_refs_resting by fastforce

lemma book_reference_queries_witness:
  "\<exists>bk. book_rel bk demo_two \<and> remaining_of bk 7 = Some 0 \<and> side_of bk 7 = Some ch_qmark"
proof -
  from demo_book_two obtain bk where b: "book_rel bk demo_two" by blast
  from book_reference_queries[OF b, of 7] b show ?thesis by (auto simp: demo_refs)
qed

text \<open>C31: The constructor yields an empty book for every admissible configuration, whatever the
  arena memory contains.\<close>

theorem book_new_empty:
  assumes "0 < capacity" "capacity < kNullIndex" "capacity \<le> length raw"
    and "4 \<le> s" "s \<le> 12" "lo < hi" "int64_min \<le> lo" "hi \<le> int32_max" "0 < pool" "pool \<le> kNoPage"
  shows "\<exists>bk. book_new capacity raw s lo hi pool = Some bk \<and> book_rel bk (\<lambda>_ _. []) \<and> live_orders bk = 0"
  using book_new_correct[OF assms] by blast

lemma book_new_empty_witness:
  "\<exists>bk. book_new 4 demo_raw 4 0 64 2 = Some bk \<and> book_rel bk (\<lambda>_ _. []) \<and> live_orders bk = 0"
  by (rule book_new_empty) (auto simp: kNullIndex_def demo_raw_def int32_max_def kNoPage_def)

end
