(* ===== verification/ItchRoundtrip.thy ===== *)
theory ItchRoundtrip
  imports ItchCodec
begin

text \<open>
  Correctness of the reference codecs: the exact accept and reject conditions of every decoder,
  decode after encode, and encode after decode.
\<close>

section \<open>Fields on a little-endian host\<close>

lemma swap_raw_field:
  "k + 2 \<le> length bs \<Longrightarrow> swap16 (raw_field True k 2 bs) = load_be16 le (drop k bs)"
  "k + 4 \<le> length bs \<Longrightarrow> swap32 (raw_field True k 4 bs) = load_be32 le (drop k bs)"
  "k + 8 \<le> length bs \<Longrightarrow> swap64 (raw_field True k 8 bs) = load_be64 le (drop k bs)"
  by (simp_all add: raw_field_def mem_load_def swap16_def swap32_def swap64_def
      byteswap_le_word load_be_values)

lemma mem_bytes_swap:
  "mem_bytes True 2 (swap16 v2) = store_be16 True v2"
  "mem_bytes True 4 (swap32 v4) = store_be32 True v4"
  "mem_bytes True 8 (swap64 v8) = store_be64 True v8"
  by (simp_all add: store_be16_def store_be32_def store_be64_def)

lemma load_be48_take: "6 \<le> length p \<Longrightarrow> load_be48 le (take 6 p) = load_be48 le' p"
  by (simp add: load_be48_value)

definition header_at :: "bool \<Rightarrow> byte list \<Rightarrow> itch_header" where
  "header_at le p =
     \<lparr>h_locate = load_be16 le (drop 1 p), h_tracking = load_be16 le (drop 3 p),
      h_ts_ns = load_be48 le (drop 5 p)\<rparr>"

lemma decode_header_at:
  "11 \<le> length bs \<Longrightarrow> decode_header True (read_header True bs) = header_at le bs"
  by (simp add: decode_header_def read_header_def header_at_def swap_raw_field
      load_be48_take)

section \<open>Well-formed messages\<close>

text \<open>
  The messages the wire can carry: unsigned 32-bit quantities and prices, 48-bit timestamps,
  real sides, and full-width character arrays.
\<close>

definition fits_u32 :: "int \<Rightarrow> bool" where
  "fits_u32 v \<longleftrightarrow> 0 \<le> v \<and> v < 2 ^ 32"

definition header_wf :: "itch_header \<Rightarrow> bool" where
  "header_wf h \<longleftrightarrow> h_ts_ns h < 2 ^ 48"

fun message_wf :: "message \<Rightarrow> bool" where
  "message_wf (AddOrder v) \<longleftrightarrow> header_wf (ao_header v) \<and> ao_side v \<noteq> BadSide \<and>
     fits_u32 (ao_shares v) \<and> length (ao_stock v) = 8 \<and> fits_u32 (ao_price v)"
| "message_wf (AddOrderAttribution v) \<longleftrightarrow> header_wf (af_header v) \<and> af_side v \<noteq> BadSide \<and>
     fits_u32 (af_shares v) \<and> length (af_stock v) = 8 \<and> fits_u32 (af_price v) \<and>
     length (af_attribution v) = 4"
| "message_wf (OrderExecuted v) \<longleftrightarrow> header_wf (oe_header v) \<and> fits_u32 (oe_executed_shares v)"
| "message_wf (OrderExecutedWithPrice v) \<longleftrightarrow> header_wf (oc_header v) \<and>
     fits_u32 (oc_executed_shares v) \<and> fits_u32 (oc_execution_price v)"
| "message_wf (OrderCancel v) \<longleftrightarrow> header_wf (ox_header v) \<and> fits_u32 (ox_cancelled_shares v)"
| "message_wf (OrderDelete v) \<longleftrightarrow> header_wf (od_header v)"
| "message_wf (OrderReplace v) \<longleftrightarrow> header_wf (ou_header v) \<and> fits_u32 (ou_shares v) \<and>
     fits_u32 (ou_price v)"

fun message_size :: "message \<Rightarrow> nat" where
  "message_size (AddOrder _) = 36"
| "message_size (AddOrderAttribution _) = 40"
| "message_size (OrderExecuted _) = 31"
| "message_size (OrderExecutedWithPrice _) = 36"
| "message_size (OrderCancel _) = 23"
| "message_size (OrderDelete _) = 19"
| "message_size (OrderReplace _) = 35"

lemma fits_u32_uint [simp]: "fits_u32 (uint (w :: u32))"
  using uint_lt2p[of w] by (simp add: fits_u32_def)

lemma uint_word_of_int_u32 [simp]: "fits_u32 v \<Longrightarrow> uint (word_of_int v :: u32) = v"
  by (simp add: fits_u32_def uint_word_of_int take_bit_int_eq_self_iff)

lemma side_from_to_wire [simp]: "side_from_wire (to_wire s) = s"
  by (cases s) (auto simp: side_from_wire_def)

lemma to_wire_side_from: "c = ch_B \<or> c = ch_S \<Longrightarrow> to_wire (side_from_wire c) = c"
  by (auto simp: side_from_wire_def)

lemma to_wire_real: "s \<noteq> BadSide \<Longrightarrow> to_wire s = ch_B \<or> to_wire s = ch_S"
  by (cases s) auto

lemma load_be48_bound: "6 \<le> length p \<Longrightarrow> load_be48 le p < 2 ^ 48"
proof -
  assume l: "6 \<le> length p"
  have "take_bit 48 (load_be48 le p) = load_be48 le p"
    using l by (intro bit_word_eqI) (auto simp: load_be48_value bit_take_bit_iff bit_le_word)
  then have "unat (load_be48 le p) = take_bit 48 (unat (load_be48 le p))"
    by (metis unsigned_take_bit_eq)
  also have "\<dots> < 2 ^ 48" by (rule take_bit_nat_less_exp)
  finally show ?thesis by (simp add: word_less_nat_alt)
qed

section \<open>What a decoder reads, offset by offset\<close>

definition add_order_at :: "bool \<Rightarrow> byte list \<Rightarrow> add_order_msg" where
  "add_order_at le p =
     \<lparr>ao_header = header_at le p, ao_order_ref = load_be64 le (drop 11 p),
      ao_side = side_from_wire (p ! 19), ao_shares = uint (load_be32 le (drop 20 p)),
      ao_stock = take 8 (drop 24 p), ao_price = uint (load_be32 le (drop 32 p))\<rparr>"

definition add_order_attribution_at :: "bool \<Rightarrow> byte list \<Rightarrow> add_order_attribution_msg" where
  "add_order_attribution_at le p =
     \<lparr>af_header = header_at le p, af_order_ref = load_be64 le (drop 11 p),
      af_side = side_from_wire (p ! 19), af_shares = uint (load_be32 le (drop 20 p)),
      af_stock = take 8 (drop 24 p), af_price = uint (load_be32 le (drop 32 p)),
      af_attribution = take 4 (drop 36 p)\<rparr>"

definition order_executed_at :: "bool \<Rightarrow> byte list \<Rightarrow> order_executed_msg" where
  "order_executed_at le p =
     \<lparr>oe_header = header_at le p, oe_order_ref = load_be64 le (drop 11 p),
      oe_executed_shares = uint (load_be32 le (drop 19 p)),
      oe_match_number = load_be64 le (drop 23 p)\<rparr>"

definition order_executed_with_price_at :: "bool \<Rightarrow> byte list \<Rightarrow> order_executed_with_price_msg" where
  "order_executed_with_price_at le p =
     \<lparr>oc_header = header_at le p, oc_order_ref = load_be64 le (drop 11 p),
      oc_executed_shares = uint (load_be32 le (drop 19 p)),
      oc_match_number = load_be64 le (drop 23 p), oc_printable = (p ! 31 = ch_Y),
      oc_execution_price = uint (load_be32 le (drop 32 p))\<rparr>"

definition order_cancel_at :: "bool \<Rightarrow> byte list \<Rightarrow> order_cancel_msg" where
  "order_cancel_at le p =
     \<lparr>ox_header = header_at le p, ox_order_ref = load_be64 le (drop 11 p),
      ox_cancelled_shares = uint (load_be32 le (drop 19 p))\<rparr>"

definition order_delete_at :: "bool \<Rightarrow> byte list \<Rightarrow> order_delete_msg" where
  "order_delete_at le p =
     \<lparr>od_header = header_at le p, od_order_ref = load_be64 le (drop 11 p)\<rparr>"

definition order_replace_at :: "bool \<Rightarrow> byte list \<Rightarrow> order_replace_msg" where
  "order_replace_at le p =
     \<lparr>ou_header = header_at le p, ou_original_order_ref = load_be64 le (drop 11 p),
      ou_new_order_ref = load_be64 le (drop 19 p), ou_shares = uint (load_be32 le (drop 27 p)),
      ou_price = uint (load_be32 le (drop 31 p))\<rparr>"

lemmas at_defs = add_order_at_def add_order_attribution_at_def order_executed_at_def
  order_executed_with_price_at_def order_cancel_at_def order_delete_at_def order_replace_at_def

text \<open>The expected outcome of decoding a buffer, as a table over the type byte.\<close>

definition frame_need :: "byte \<Rightarrow> nat option" where
  "frame_need t =
     (if t = ch_A then Some 36 else if t = ch_F then Some 40 else if t = ch_E then Some 31
      else if t = ch_C then Some 36 else if t = ch_X then Some 23 else if t = ch_D then Some 19
      else if t = ch_U then Some 35 else None)"

definition message_at :: "bool \<Rightarrow> byte list \<Rightarrow> message" where
  "message_at le p =
     (let t = p ! 0
      in if t = ch_A then AddOrder (add_order_at le p)
         else if t = ch_F then AddOrderAttribution (add_order_attribution_at le p)
         else if t = ch_E then OrderExecuted (order_executed_at le p)
         else if t = ch_C then OrderExecutedWithPrice (order_executed_with_price_at le p)
         else if t = ch_X then OrderCancel (order_cancel_at le p)
         else if t = ch_D then OrderDelete (order_delete_at le p)
         else OrderReplace (order_replace_at le p))"

definition bad_side_at :: "byte list \<Rightarrow> bool" where
  "bad_side_at p \<longleftrightarrow> (p ! 0 = ch_A \<or> p ! 0 = ch_F) \<and> p ! 19 \<noteq> ch_B \<and> p ! 19 \<noteq> ch_S"

definition decode_spec :: "bool \<Rightarrow> byte list \<Rightarrow> decode_error + message" where
  "decode_spec le p =
     (if length p < 11 then Inl Truncated
      else case frame_need (p ! 0) of
             None \<Rightarrow> Inl UnknownType
           | Some n \<Rightarrow> if length p < n then Inl Truncated
                       else if bad_side_at p then Inl InvalidSide
                       else Inr (message_at le p))"

lemma decode_at:
  "36 \<le> length p \<Longrightarrow> decode_add_order True p =
     (if p ! 19 = ch_B \<or> p ! 19 = ch_S then Inr (add_order_at le p) else Inl InvalidSide)"
  "40 \<le> length p \<Longrightarrow> decode_add_order_attribution True p =
     (if p ! 19 = ch_B \<or> p ! 19 = ch_S then Inr (add_order_attribution_at le p)
      else Inl InvalidSide)"
  "31 \<le> length p \<Longrightarrow> decode_order_executed True p = Inr (order_executed_at le p)"
  "36 \<le> length p \<Longrightarrow> decode_order_executed_with_price True p = Inr (order_executed_with_price_at le p)"
  "23 \<le> length p \<Longrightarrow> decode_order_cancel True p = Inr (order_cancel_at le p)"
  "19 \<le> length p \<Longrightarrow> decode_order_delete True p = Inr (order_delete_at le p)"
  "35 \<le> length p \<Longrightarrow> decode_order_replace True p = Inr (order_replace_at le p)"
  by (simp_all add: decode_defs check_and_wrap_def wire_sizes read_add_order_def
      read_add_order_attribution_def read_order_executed_def read_order_executed_with_price_def
      read_order_cancel_def read_order_delete_def read_order_replace_def add_order_at_def
      add_order_attribution_at_def order_executed_at_def order_executed_with_price_at_def
      order_cancel_at_def order_delete_at_def order_replace_at_def
      decode_header_at[of p le] swap_raw_field[where le = le] Let_def)

lemma decode_short:
  "length p < 36 \<Longrightarrow> decode_add_order le p = Inl Truncated"
  "length p < 40 \<Longrightarrow> decode_add_order_attribution le p = Inl Truncated"
  "length p < 31 \<Longrightarrow> decode_order_executed le p = Inl Truncated"
  "length p < 36 \<Longrightarrow> decode_order_executed_with_price le p = Inl Truncated"
  "length p < 23 \<Longrightarrow> decode_order_cancel le p = Inl Truncated"
  "length p < 19 \<Longrightarrow> decode_order_delete le p = Inl Truncated"
  "length p < 35 \<Longrightarrow> decode_order_replace le p = Inl Truncated"
  by (simp_all add: decode_defs wire_sizes)

text \<open>
  The seven type bytes, one case each: the rule behind every statement about all frames.
\<close>

lemma type_byte_cases:
  fixes t :: byte
  obtains "t = ch_A" | "t = ch_F" | "t = ch_E" | "t = ch_C" | "t = ch_X" | "t = ch_D" | "t = ch_U"
    | "frame_need t = None" "t \<noteq> ch_A" "t \<noteq> ch_F" "t \<noteq> ch_E" "t \<noteq> ch_C" "t \<noteq> ch_X" "t \<noteq> ch_D"
      "t \<noteq> ch_U"
  unfolding frame_need_def by (auto split: if_splits)

lemma decode_message_spec: "decode_message True p = decode_spec le p"
proof (cases "length p < 11")
  case True
  then show ?thesis by (simp add: decode_message_def decode_spec_def wire_sizes)
next
  case False
  note d = decode_message_def decode_spec_def wire_sizes frame_need_def message_at_def
    bad_side_at_def Let_def decode_short decode_at[where le = le]
  show ?thesis
  proof (cases "p ! 0" rule: type_byte_cases)
    case 1
    with False show ?thesis by (cases "length p < 36") (auto simp: d)
  next
    case 2
    with False show ?thesis by (cases "length p < 40") (auto simp: d)
  next
    case 3
    with False show ?thesis by (cases "length p < 31") (auto simp: d)
  next
    case 4
    with False show ?thesis by (cases "length p < 36") (auto simp: d)
  next
    case 5
    with False show ?thesis by (cases "length p < 23") (auto simp: d)
  next
    case 6
    with False show ?thesis by (cases "length p < 19") (auto simp: d)
  next
    case 7
    with False show ?thesis by (cases "length p < 35") (auto simp: d)
  next
    case 8
    with False show ?thesis by (simp add: decode_message_def decode_spec_def wire_sizes)
  qed
qed

section \<open>Decode after encode\<close>

lemma header_at_store:
  assumes "header_wf h"
  shows "header_at le (write_header True (store_header True t h) @ rest) = h"
  using assms by (simp add: header_at_def write_header_def store_header_def mem_bytes_swap
      header_wf_def byte_simps)

lemma length_write_header [simp]: "length (write_header True (store_header True t h)) = 11"
  by (simp add: write_header_def store_header_def)

lemma length_encode_message [simp]:
  assumes "message_wf m"
  shows "length (encode_message True m) = message_size m"
  using assms by (cases m) (simp_all add: encode_defs write_defs store_header_def)

lemma encode_message_type: "(encode_message True m @ rest) ! 0 = msg_type m"
  by (cases m) (simp_all add: encode_defs write_defs store_header_def)

lemma frame_need_msg_type: "frame_need (msg_type m) = Some (message_size m)"
  by (cases m) (simp_all add: frame_need_def)

lemma message_at_encode:
  assumes "message_wf m"
  shows "message_at le (encode_message True m @ rest) = m"
  using assms encode_message_type[of m rest]
    by (cases m) (simp_all add: message_at_def encode_defs Let_def write_add_order_def
        write_add_order_attribution_def write_order_executed_def
        write_order_executed_with_price_def write_order_cancel_def write_order_delete_def
        write_order_replace_def add_order_at_def add_order_attribution_at_def order_executed_at_def
        order_executed_with_price_at_def order_cancel_at_def order_delete_at_def
        order_replace_at_def header_at_store mem_bytes_swap load_store_be64 load_store_be32
        nth_append)

lemma bad_side_encode:
  assumes "message_wf m"
  shows "\<not> bad_side_at (encode_message True m @ rest)"
  using assms encode_message_type[of m rest]
  by (cases m) (auto simp: bad_side_at_def encode_defs write_add_order_def
      write_add_order_attribution_def nth_append dest: to_wire_real)

lemma decode_encode_message:
  assumes "message_wf m"
  shows "decode_message True (encode_message True m @ rest) = Inr m"
proof -
  let ?p = "encode_message True m @ rest"
  have "?p ! 0 = msg_type m" by (rule encode_message_type)
  moreover have "length ?p = message_size m + length rest" using assms by simp
  moreover have "11 \<le> message_size m" by (cases m) auto
  ultimately show ?thesis
    using bad_side_encode[OF assms, of rest] message_at_encode[OF assms, of True rest]
    by (simp add: decode_message_spec[of _ True] decode_spec_def frame_need_msg_type)
qed

section \<open>Encode after decode\<close>

text \<open>
  Re-encoding a decoded frame gives its bytes back, except that the decoder keeps only
  whether the printable flag of an Order Executed With Price message is Y.
\<close>

definition canonical_frame :: "byte list \<Rightarrow> byte list" where
  "canonical_frame p =
     (if p ! 0 = ch_C then p[31 := (if p ! 31 = ch_Y then ch_Y else ch_N)] else p)"

lemma header_at_wf: "11 \<le> length p \<Longrightarrow> header_wf (header_at le p)"
  using load_be48_bound[of "drop 5 p" le] by (simp add: header_at_def header_wf_def)

lemma write_header_at:
  assumes "11 \<le> length p" and "t = p ! 0"
  shows "write_header True (store_header True t (header_at le p)) = take 11 p"
proof -
  have "take 11 p = take 1 p @ take 2 (drop 1 p) @ take 2 (drop 3 p) @ take 6 (drop 5 p)"
    using take_add[of 1 10 p] take_add[of 2 8 "drop 1 p"] take_add[of 2 6 "drop 3 p"] by simp
  moreover have "take 1 p = [p ! 0]" using assms by (cases p) auto
  ultimately show ?thesis using assms
    by (simp add: write_header_def store_header_def header_at_def mem_bytes_swap byte_simps)
qed

lemma split_take: "k \<le> n \<Longrightarrow> take n p = take k p @ take (n - k) (drop k p)"
  by (metis le_add_diff_inverse take_add)

lemma take_1_drop: "k < length p \<Longrightarrow> take (Suc 0) (drop k p) = [p ! k]"
  by (simp add: take_Suc_conv_app_nth[of 0, simplified] hd_drop_conv_nth)

lemmas encode_at_simps = encode_defs write_add_order_def write_add_order_attribution_def
  write_order_executed_def write_order_executed_with_price_def write_order_cancel_def
  write_order_delete_def write_order_replace_def mem_bytes_swap byte_simps write_header_at
  to_wire_side_from

lemma encode_add_order_at:
  assumes "36 \<le> length p" "p ! 0 = ch_A" "p ! 19 = ch_B \<or> p ! 19 = ch_S"
  shows "encode_add_order True (add_order_at le p) = take 36 p"
proof -
  have "take 36 p = take 11 p @ take 8 (drop 11 p) @ take 1 (drop 19 p) @ take 4 (drop 20 p) @
      take 8 (drop 24 p) @ take 4 (drop 32 p)"
    using split_take[of 11 36 p] split_take[of 8 25 "drop 11 p"] split_take[of 1 17 "drop 19 p"]
      split_take[of 4 16 "drop 20 p"] split_take[of 8 12 "drop 24 p"] by simp
  with assms show ?thesis by (simp add: encode_at_simps add_order_at_def take_1_drop)
qed

lemma encode_add_order_attribution_at:
  assumes "40 \<le> length p" "p ! 0 = ch_F" "p ! 19 = ch_B \<or> p ! 19 = ch_S"
  shows "encode_add_order_attribution True (add_order_attribution_at le p) = take 40 p"
proof -
  have "take 40 p = take 11 p @ take 8 (drop 11 p) @ take 1 (drop 19 p) @ take 4 (drop 20 p) @
      take 8 (drop 24 p) @ take 4 (drop 32 p) @ take 4 (drop 36 p)"
    using split_take[of 11 40 p] split_take[of 8 29 "drop 11 p"] split_take[of 1 21 "drop 19 p"]
      split_take[of 4 20 "drop 20 p"] split_take[of 8 16 "drop 24 p"]
      split_take[of 4 8 "drop 32 p"] by simp
  with assms show ?thesis by (simp add: encode_at_simps add_order_attribution_at_def take_1_drop)
qed

lemma encode_order_executed_at:
  assumes "31 \<le> length p" "p ! 0 = ch_E"
  shows "encode_order_executed True (order_executed_at le p) = take 31 p"
proof -
  have "take 31 p = take 11 p @ take 8 (drop 11 p) @ take 4 (drop 19 p) @ take 8 (drop 23 p)"
    using split_take[of 11 31 p] split_take[of 8 20 "drop 11 p"] split_take[of 4 12 "drop 19 p"]
    by simp
  with assms show ?thesis by (simp add: encode_at_simps order_executed_at_def)
qed

lemma encode_order_executed_with_price_at:
  assumes "36 \<le> length p" "p ! 0 = ch_C"
  shows "encode_order_executed_with_price True (order_executed_with_price_at le p) =
         canonical_frame (take 36 p)"
proof -
  have t: "take 36 p = take 31 p @ p ! 31 # take 4 (drop 32 p)"
    using split_take[of 31 36 p] split_take[of 1 5 "drop 31 p"] assms(1)
    by (simp add: take_1_drop)
  have "take 31 p = take 11 p @ take 8 (drop 11 p) @ take 4 (drop 19 p) @ take 8 (drop 23 p)"
    using split_take[of 11 31 p] split_take[of 8 20 "drop 11 p"] split_take[of 4 12 "drop 19 p"]
    by simp
  moreover have "canonical_frame (take 36 p) =
      take 31 p @ (if p ! 31 = ch_Y then ch_Y else ch_N) # take 4 (drop 32 p)"
    using assms by (simp add: canonical_frame_def) (simp add: t list_update_append)
  ultimately show ?thesis using assms
    by (simp add: encode_at_simps order_executed_with_price_at_def)
qed

lemma encode_order_cancel_at:
  assumes "23 \<le> length p" "p ! 0 = ch_X"
  shows "encode_order_cancel True (order_cancel_at le p) = take 23 p"
proof -
  have "take 23 p = take 11 p @ take 8 (drop 11 p) @ take 4 (drop 19 p)"
    using split_take[of 11 23 p] split_take[of 8 12 "drop 11 p"] by simp
  with assms show ?thesis by (simp add: encode_at_simps order_cancel_at_def)
qed

lemma encode_order_delete_at:
  assumes "19 \<le> length p" "p ! 0 = ch_D"
  shows "encode_order_delete True (order_delete_at le p) = take 19 p"
  using assms split_take[of 11 19 p] by (simp add: encode_at_simps order_delete_at_def)

lemma encode_order_replace_at:
  assumes "35 \<le> length p" "p ! 0 = ch_U"
  shows "encode_order_replace True (order_replace_at le p) = take 35 p"
proof -
  have "take 35 p = take 11 p @ take 8 (drop 11 p) @ take 8 (drop 19 p) @ take 4 (drop 27 p) @
      take 4 (drop 31 p)"
    using split_take[of 11 35 p] split_take[of 8 24 "drop 11 p"] split_take[of 8 16 "drop 19 p"]
      split_take[of 4 8 "drop 27 p"] by simp
  with assms show ?thesis by (simp add: encode_at_simps order_replace_at_def)
qed

lemma decode_spec_InrD:
  assumes "decode_spec le p = Inr m"
  obtains n where "frame_need (p ! 0) = Some n" "n \<le> length p" "11 \<le> length p"
    "\<not> bad_side_at p" "m = message_at le p"
  using assms by (auto simp: decode_spec_def split: if_splits option.splits)

lemma encode_message_at:
  assumes "frame_need (p ! 0) = Some n" "n \<le> length p" "\<not> bad_side_at p"
  shows "encode_message True (message_at le p) = canonical_frame (take n p)"
    and "message_wf (message_at le p)" and "message_size (message_at le p) = n"
proof -
  have h: "11 \<le> n" using assms(1) by (auto simp: frame_need_def split: if_splits)
  have hw: "header_wf (header_at le p)" using h assms(2) by (simp add: header_at_wf)
  show "encode_message True (message_at le p) = canonical_frame (take n p)"
    using assms h
    by (auto simp: frame_need_def message_at_def bad_side_at_def Let_def split: if_splits)
      (auto simp: canonical_frame_def encode_add_order_at encode_add_order_attribution_at
        encode_order_executed_at encode_order_cancel_at encode_order_delete_at
        encode_order_replace_at encode_order_executed_with_price_at)
  show "message_wf (message_at le p)"
    using assms hw
    by (auto simp: frame_need_def message_at_def bad_side_at_def Let_def at_defs
        side_from_wire_def split: if_splits)
  show "message_size (message_at le p) = n"
    using assms(1) by (auto simp: frame_need_def message_at_def Let_def split: if_splits)
qed

lemma encode_decode_message:
  assumes "decode_message True p = Inr m"
  shows "message_wf m" and "message_size m \<le> length p"
    and "encode_message True m = canonical_frame (take (message_size m) p)"
proof -
  from assms have "decode_spec True p = Inr m" by (simp add: decode_message_spec[of p True])
  then obtain n where n: "frame_need (p ! 0) = Some n" "n \<le> length p" "\<not> bad_side_at p"
    and m: "m = message_at True p" by (auto elim: decode_spec_InrD)
  from encode_message_at[OF n, of True] n(2)
  show "message_wf m" "message_size m \<le> length p"
    "encode_message True m = canonical_frame (take (message_size m) p)" by (simp_all add: m)
qed

end
