(* ===== verification/ItchParser.thy ===== *)
theory ItchParser
  imports ItchRoundtrip
begin

text \<open>
  The zero-copy stream parser of \<open>include/mog/ITCHParser.hpp\<close>: frame tables, the fast
  single-message kernel, the strict and session-tolerant stream loops, and the FNV trace hash.
  The template parameter \<open>Isa\<close> selects one of three instantiations of the same kernel body,
  so a kernel is a function argument of the loops; \<open>Sink\<close> and \<open>SkipListener\<close> are
  functions on the caller's state. A buffer from \<open>buf + off\<close> of length \<open>len - off\<close> is
  \<open>drop off buf\<close>.
\<close>

section \<open>Frame tables\<close>

record parse_error =
  pe_code :: decode_error
  pe_offset :: nat

definition kFrame :: "byte \<Rightarrow> nat" where
  "kFrame = (\<lambda>_. 0)
     (ch_A := kAddOrderSize, ch_F := kAddOrderAttributionSize, ch_E := kOrderExecutedSize,
      ch_C := kOrderExecutedWithPriceSize, ch_X := kOrderCancelSize, ch_D := kOrderDeleteSize,
      ch_U := kOrderReplaceSize)"

text \<open>S R H Y L V W K I N Q P B J O h, in the order of the source.\<close>

definition kSessionFrame :: "byte \<Rightarrow> nat" where
  "kSessionFrame = kFrame
     (0x53 := 12, 0x52 := 39, 0x48 := 25, 0x59 := 20, 0x4C := 26, 0x56 := 35, 0x57 := 12,
      0x4B := 28, 0x49 := 50, 0x4E := 20, 0x51 := 40, 0x50 := 44, 0x42 := 19, 0x4A := 35,
      0x4F := 48, 0x68 := 21)"

record session_stats =
  ss_decoded :: nat
  ss_skipped :: nat
  ss_skipped_by_type :: "byte \<Rightarrow> nat"

definition empty_stats :: session_stats where
  "empty_stats = \<lparr>ss_decoded = 0, ss_skipped = 0, ss_skipped_by_type = (\<lambda>_. 0)\<rparr>"

section \<open>The fast kernel\<close>

definition load_header :: "bool \<Rightarrow> byte list \<Rightarrow> itch_header" where
  "load_header le p =
     (let lt = load_be32 le (drop 1 p)
      in \<lparr>h_locate = ucast (drop_bit 16 lt), h_tracking = ucast (lt AND 0xFFFF),
          h_ts_ns = load_be48 le (drop 5 p)\<rparr>)"

definition swar_load64 :: "bool \<Rightarrow> byte list \<Rightarrow> u64" where
  "swar_load64 le p = mem_load le (take 8 p)"

definition swar_store64 :: "bool \<Rightarrow> u64 \<Rightarrow> byte list" where
  "swar_store64 le v = mem_bytes le 8 v"

definition load_symbol :: "bool \<Rightarrow> byte list \<Rightarrow> symbol" where
  "load_symbol le p = swar_store64 le (swar_load64 le p)"

definition parse_one :: "bool \<Rightarrow> byte list \<Rightarrow> message option" where
  "parse_one le buf =
     (if length buf < kHeaderSize then None
      else let type = buf ! 0; need = kFrame type
           in if need = 0 \<or> length buf < need then None
           else if type = ch_A then
             (if buf ! 19 \<noteq> ch_B \<and> buf ! 19 \<noteq> ch_S then None
              else Some (AddOrder
                \<lparr>ao_header = load_header le buf, ao_order_ref = load_be64 le (drop 11 buf),
                 ao_side = side_from_wire (buf ! 19),
                 ao_shares = uint (load_be32 le (drop 20 buf)),
                 ao_stock = load_symbol le (drop 24 buf),
                 ao_price = uint (load_be32 le (drop 32 buf))\<rparr>))
           else if type = ch_F then
             (if buf ! 19 \<noteq> ch_B \<and> buf ! 19 \<noteq> ch_S then None
              else Some (AddOrderAttribution
                \<lparr>af_header = load_header le buf, af_order_ref = load_be64 le (drop 11 buf),
                 af_side = side_from_wire (buf ! 19),
                 af_shares = uint (load_be32 le (drop 20 buf)),
                 af_stock = load_symbol le (drop 24 buf),
                 af_price = uint (load_be32 le (drop 32 buf)),
                 af_attribution = [buf ! 36, buf ! 37, buf ! 38, buf ! 39]\<rparr>))
           else if type = ch_E then
             Some (OrderExecuted
                \<lparr>oe_header = load_header le buf, oe_order_ref = load_be64 le (drop 11 buf),
                 oe_executed_shares = uint (load_be32 le (drop 19 buf)),
                 oe_match_number = load_be64 le (drop 23 buf)\<rparr>)
           else if type = ch_C then
             Some (OrderExecutedWithPrice
                \<lparr>oc_header = load_header le buf, oc_order_ref = load_be64 le (drop 11 buf),
                 oc_executed_shares = uint (load_be32 le (drop 19 buf)),
                 oc_match_number = load_be64 le (drop 23 buf),
                 oc_printable = (buf ! 31 = ch_Y),
                 oc_execution_price = uint (load_be32 le (drop 32 buf))\<rparr>)
           else if type = ch_X then
             Some (OrderCancel
                \<lparr>ox_header = load_header le buf, ox_order_ref = load_be64 le (drop 11 buf),
                 ox_cancelled_shares = uint (load_be32 le (drop 19 buf))\<rparr>)
           else if type = ch_D then
             Some (OrderDelete
                \<lparr>od_header = load_header le buf, od_order_ref = load_be64 le (drop 11 buf)\<rparr>)
           else if type = ch_U then
             Some (OrderReplace
                \<lparr>ou_header = load_header le buf,
                 ou_original_order_ref = load_be64 le (drop 11 buf),
                 ou_new_order_ref = load_be64 le (drop 19 buf),
                 ou_shares = uint (load_be32 le (drop 27 buf)),
                 ou_price = uint (load_be32 le (drop 31 buf))\<rparr>)
           else None)"

definition classify_stream_error :: "byte list \<Rightarrow> decode_error" where
  "classify_stream_error msg =
     (if length msg < kHeaderSize then Truncated
      else let need = kFrame (msg ! 0)
           in if need = 0 then UnknownType
              else if length msg < need then Truncated
              else if (msg ! 0 = ch_A \<or> msg ! 0 = ch_F) \<and> msg ! 19 \<noteq> ch_B \<and> msg ! 19 \<noteq> ch_S
              then InvalidSide
              else Truncated)"

section \<open>Trace hash\<close>

definition kFnvPrime :: u64 where
  "kFnvPrime = 0x100000001b3"

definition fnv_offset :: u64 where
  "fnv_offset = 0xcbf29ce484222325"

definition hash_fold :: "u64 \<Rightarrow> u64 \<Rightarrow> u64" where
  "hash_fold h value = (h XOR value) * kFnvPrime"

fun hash_fold_bytes :: "u64 \<Rightarrow> byte list \<Rightarrow> u64" where
  "hash_fold_bytes h [] = h"
| "hash_fold_bytes h (b # data) = hash_fold_bytes ((h XOR ucast b) * kFnvPrime) data"

definition hash_header :: "u64 \<Rightarrow> itch_header \<Rightarrow> u64" where
  "hash_header h hdr =
     hash_fold (hash_fold (hash_fold h (ucast (h_locate hdr))) (ucast (h_tracking hdr)))
       (h_ts_ns hdr)"

fun trace_hash :: "message \<Rightarrow> u64 \<Rightarrow> u64" where
  "trace_hash (AddOrder v) seed =
     (let h = hash_header (hash_fold seed (ucast ch_A)) (ao_header v);
          h = hash_fold h (ao_order_ref v);
          h = hash_fold h (ucast (to_wire (ao_side v)));
          h = hash_fold h (word_of_int (ao_shares v));
          h = hash_fold_bytes h (ao_stock v)
      in hash_fold h (word_of_int (ao_price v)))"
| "trace_hash (AddOrderAttribution v) seed =
     (let h = hash_header (hash_fold seed (ucast ch_F)) (af_header v);
          h = hash_fold h (af_order_ref v);
          h = hash_fold h (ucast (to_wire (af_side v)));
          h = hash_fold h (word_of_int (af_shares v));
          h = hash_fold_bytes h (af_stock v);
          h = hash_fold h (word_of_int (af_price v))
      in hash_fold_bytes h (af_attribution v))"
| "trace_hash (OrderExecuted v) seed =
     (let h = hash_header (hash_fold seed (ucast ch_E)) (oe_header v);
          h = hash_fold h (oe_order_ref v);
          h = hash_fold h (word_of_int (oe_executed_shares v))
      in hash_fold h (oe_match_number v))"
| "trace_hash (OrderExecutedWithPrice v) seed =
     (let h = hash_header (hash_fold seed (ucast ch_C)) (oc_header v);
          h = hash_fold h (oc_order_ref v);
          h = hash_fold h (word_of_int (oc_executed_shares v));
          h = hash_fold h (oc_match_number v);
          h = hash_fold h (if oc_printable v then 1 else 0)
      in hash_fold h (word_of_int (oc_execution_price v)))"
| "trace_hash (OrderCancel v) seed =
     (let h = hash_header (hash_fold seed (ucast ch_X)) (ox_header v);
          h = hash_fold h (ox_order_ref v)
      in hash_fold h (word_of_int (ox_cancelled_shares v)))"
| "trace_hash (OrderDelete v) seed =
     (let h = hash_header (hash_fold seed (ucast ch_D)) (od_header v)
      in hash_fold h (od_order_ref v))"
| "trace_hash (OrderReplace v) seed =
     (let h = hash_header (hash_fold seed (ucast ch_U)) (ou_header v);
          h = hash_fold h (ou_original_order_ref v);
          h = hash_fold h (ou_new_order_ref v);
          h = hash_fold h (word_of_int (ou_shares v))
      in hash_fold h (word_of_int (ou_price v)))"

section \<open>Stream loops\<close>

type_synonym kernel = "byte list \<Rightarrow> message option"
type_synonym 's sink = "'s \<Rightarrow> message \<Rightarrow> 's"
type_synonym 's listener = "'s \<Rightarrow> byte \<Rightarrow> byte list \<Rightarrow> nat \<Rightarrow> 's"

function parse_itch_loop ::
  "kernel \<Rightarrow> 's sink \<Rightarrow> byte list \<Rightarrow> nat \<Rightarrow> 's \<Rightarrow> (parse_error + nat) \<times> 's" where
  "parse_itch_loop parse1 sink buf off s =
     (if off < length buf then
        (case parse1 (drop off buf) of
           None \<Rightarrow> (Inl \<lparr>pe_code = classify_stream_error (drop off buf), pe_offset = off\<rparr>, s)
         | Some msg \<Rightarrow>
             (let s' = sink s msg; msg_len = kFrame (msg_type msg)
              in if msg_len = 0 then (Inl \<lparr>pe_code = UnknownType, pe_offset = off\<rparr>, s')
                 else parse_itch_loop parse1 sink buf (off + msg_len) s'))
      else (Inr off, s))"
  by pat_completeness auto
termination
  by (relation "measure (\<lambda>(_, _, buf, off, _). length buf - off)") auto

declare parse_itch_loop.simps [simp del]

definition parse_itch_as ::
  "kernel \<Rightarrow> 's sink \<Rightarrow> byte list \<Rightarrow> 's \<Rightarrow> (parse_error + nat) \<times> 's" where
  "parse_itch_as parse1 sink buf s = parse_itch_loop parse1 sink buf 0 s"

definition parse_itch :: "bool \<Rightarrow> 's sink \<Rightarrow> byte list \<Rightarrow> 's \<Rightarrow> (parse_error + nat) \<times> 's" where
  "parse_itch le sink buf s = parse_itch_loop (parse_one le) sink buf 0 s"

function session_loop ::
  "kernel \<Rightarrow> 's sink \<Rightarrow> 's listener \<Rightarrow> byte list \<Rightarrow> nat \<Rightarrow> session_stats \<Rightarrow> 's
     \<Rightarrow> (parse_error + session_stats) \<times> 's" where
  "session_loop parse1 sink listen buf off stats s =
     (if off < length buf then
        (let type = buf ! off; need = kSessionFrame type
         in if need = 0 then (Inl \<lparr>pe_code = UnknownType, pe_offset = off\<rparr>, s)
            else if length buf - off < need then
              (Inl \<lparr>pe_code = Truncated, pe_offset = off\<rparr>, s)
            else if kFrame type = 0 then
              session_loop parse1 sink listen buf (off + need)
                (stats\<lparr>ss_skipped := ss_skipped stats + 1,
                       ss_skipped_by_type :=
                         (ss_skipped_by_type stats)(type := ss_skipped_by_type stats type + 1)\<rparr>)
                (listen s type (drop off buf) need)
            else
              (case parse1 (drop off buf) of
                 None \<Rightarrow> (Inl \<lparr>pe_code = classify_stream_error (drop off buf), pe_offset = off\<rparr>, s)
               | Some msg \<Rightarrow>
                   session_loop parse1 sink listen buf (off + need)
                     (stats\<lparr>ss_decoded := ss_decoded stats + 1\<rparr>) (sink s msg)))
      else (Inr stats, s))"
  by pat_completeness auto
termination
  by (relation "measure (\<lambda>(_, _, _, buf, off, _). length buf - off)") auto

declare session_loop.simps [simp del]

definition parse_itch_session_as ::
  "kernel \<Rightarrow> 's sink \<Rightarrow> byte list \<Rightarrow> 's \<Rightarrow> (parse_error + session_stats) \<times> 's" where
  "parse_itch_session_as parse1 sink buf s =
     session_loop parse1 sink (\<lambda>s _ _ _. s) buf 0 empty_stats s"

definition parse_itch_session_listen_as ::
  "kernel \<Rightarrow> 's sink \<Rightarrow> 's listener \<Rightarrow> byte list \<Rightarrow> 's \<Rightarrow> (parse_error + session_stats) \<times> 's" where
  "parse_itch_session_listen_as parse1 sink listen buf s =
     session_loop parse1 sink listen buf 0 empty_stats s"

section \<open>The kernel agrees with the reference codec\<close>

lemma kFrame_need: "kFrame t = (case frame_need t of None \<Rightarrow> 0 | Some n \<Rightarrow> n)"
  by (cases t rule: type_byte_cases) (simp_all add: kFrame_def frame_need_def wire_sizes)

lemma load_header_at: "11 \<le> length p \<Longrightarrow> load_header le p = header_at le' p"
  using ucast_load_be32_high[of "drop 1 p" le le'] ucast_load_be32_low[of "drop 1 p" le le']
  by (simp add: load_header_def header_at_def Let_def load_be48_value)

lemma load_symbol_copy: "8 \<le> length p \<Longrightarrow> load_symbol le p = take 8 p"
  by (simp add: load_symbol_def swar_load64_def swar_store64_def mem_load_def mem_bytes_def
      le_bytes_le_word)

lemma take_4_drop:
  assumes "k + 4 \<le> length p"
  shows "take 4 (drop k p) = [p ! k, p ! (k + 1), p ! (k + 2), p ! (k + 3)]"
  using assms by (intro nth_equalityI) (auto simp: less_Suc_eq numeral_eq_Suc nth_Cons')

lemma frame_need_ge: "frame_need t = Some n \<Longrightarrow> 19 \<le> n \<and> n \<le> 40"
  by (auto simp: frame_need_def split: if_splits)

lemma parse_one_spec:
  "parse_one le p = (case decode_spec le' p of Inl _ \<Rightarrow> None | Inr m \<Rightarrow> Some m)"
proof (cases "length p < 11")
  case True
  then show ?thesis by (simp add: parse_one_def decode_spec_def wire_sizes)
next
  case False
  then have h: "load_header le p = header_at le' p" by (simp add: load_header_at)
  note d = parse_one_def decode_spec_def message_at_def bad_side_at_def kFrame_need wire_sizes
    Let_def h load_be_values load_symbol_copy take_4_drop at_defs
  show ?thesis
  proof (cases "p ! 0" rule: type_byte_cases)
    case 8
    with False show ?thesis by (simp add: parse_one_def decode_spec_def kFrame_need wire_sizes)
  qed (use False in \<open>auto simp: d frame_need_def\<close>)
qed

lemma classify_spec:
  assumes "decode_spec le p = Inl e"
  shows "classify_stream_error p = e"
  using assms
  by (auto simp: decode_spec_def classify_stream_error_def bad_side_at_def kFrame_need wire_sizes
      Let_def split: if_splits option.splits dest: frame_need_ge)

lemma parse_one_decode:
  "parse_one le p = (case decode_message True p of Inl _ \<Rightarrow> None | Inr m \<Rightarrow> Some m)"
  using parse_one_spec[of le p True] by (simp add: decode_message_spec[of p True])

lemma classify_decode: "decode_message True p = Inl e \<Longrightarrow> classify_stream_error p = e"
  using classify_spec[of True p e] by (simp add: decode_message_spec[of p True])

end
