(* ===== verification/ItchStream.thy ===== *)
theory ItchStream
  imports ItchParser
begin

text \<open>
  What the stream loops deliver: the strict parser consumes exactly a sequence of decodable
  frames and stops at the first frame the reference codec rejects, with that codec's error;
  the session-tolerant parser accounts for every byte; the trace hash never forgets.
\<close>

section \<open>The strict loop\<close>

text \<open>
  \<open>stream_prefix buf ms n\<close>: the first \<open>n\<close> bytes of \<open>buf\<close> are frames that decode, in
  order, to \<open>ms\<close>.
\<close>

fun stream_prefix :: "byte list \<Rightarrow> message list \<Rightarrow> nat \<Rightarrow> bool" where
  "stream_prefix buf [] n \<longleftrightarrow> n = 0"
| "stream_prefix buf (m # ms) n \<longleftrightarrow>
     decode_message True buf = Inr m \<and> message_size m \<le> n \<and>
     stream_prefix (drop (message_size m) buf) ms (n - message_size m)"

lemma message_size_pos: "19 \<le> message_size m \<and> message_size m \<le> 40"
  by (cases m) auto

lemma kFrame_msg_type [simp]: "kFrame (msg_type m) = message_size m"
  by (simp add: kFrame_need frame_need_msg_type)

lemma parse_itch_loop_step:
  assumes "off < length buf" and "decode_message True (drop off buf) = Inr m"
  shows "parse_itch_loop (parse_one le) sink buf off s =
         parse_itch_loop (parse_one le) sink buf (off + message_size m) (sink s m)"
  using assms message_size_pos[of m]
  by (subst parse_itch_loop.simps) (simp add: parse_one_decode)

lemma parse_itch_loop_error:
  assumes "off < length buf" and "decode_message True (drop off buf) = Inl e"
  shows "parse_itch_loop (parse_one le) sink buf off s =
         (Inl \<lparr>pe_code = e, pe_offset = off\<rparr>, s)"
  using assms by (subst parse_itch_loop.simps) (simp add: parse_one_decode classify_decode)

lemma parse_itch_loop_end:
  "length buf \<le> off \<Longrightarrow> parse_itch_loop k sink buf off s = (Inr off, s)"
  by (subst parse_itch_loop.simps) simp

lemma parse_itch_loop_result:
  assumes "parse_itch_loop (parse_one le) sink buf off s = (r, s')" and "off \<le> length buf"
  shows "\<exists>ms n. s' = foldl sink s ms \<and> stream_prefix (drop off buf) ms n \<and>
           (case r of
              Inr consumed \<Rightarrow> consumed = length buf \<and> off + n = length buf
            | Inl e \<Rightarrow> pe_offset e = off + n \<and> off + n < length buf \<and>
                decode_message True (drop (off + n) buf) = Inl (pe_code e))"
  using assms
proof (induction "length buf - off" arbitrary: off s rule: less_induct)
  case less
  show ?case
  proof (cases "off < length buf")
    case False
    with less.prems show ?thesis
      by (intro exI[of _ "[]"] exI[of _ 0]) (auto simp: parse_itch_loop_end)
  next
    case True
    show ?thesis
    proof (cases "decode_message True (drop off buf)")
      case (Inl e)
      with less.prems True show ?thesis
        by (intro exI[of _ "[]"] exI[of _ 0]) (auto simp: parse_itch_loop_error)
    next
      case (Inr m)
      let ?off = "off + message_size m"
      from Inr encode_decode_message(2)[OF Inr] True have le: "?off \<le> length buf" by simp
      from True Inr less.prems(1)
      have run: "parse_itch_loop (parse_one le) sink buf ?off (sink s m) = (r, s')"
        by (simp add: parse_itch_loop_step)
      have lt: "length buf - ?off < length buf - off" using True message_size_pos[of m] by arith
      from less.hyps[OF lt run le]
      obtain ms n where ih: "s' = foldl sink (sink s m) ms" "stream_prefix (drop ?off buf) ms n"
        "case r of Inr consumed \<Rightarrow> consumed = length buf \<and> ?off + n = length buf
         | Inl e \<Rightarrow> pe_offset e = ?off + n \<and> ?off + n < length buf \<and>
             decode_message True (drop (?off + n) buf) = Inl (pe_code e)"
        by blast
      then show ?thesis using Inr
        by (intro exI[of _ "m # ms"] exI[of _ "message_size m + n"])
          (auto simp: add.commute add.left_commute split: sum.splits)
    qed
  qed
qed

lemma parse_itch_loop_encoded:
  assumes "list_all message_wf ms"
  shows "parse_itch_loop (parse_one le) sink (pre @ concat (map (encode_message True) ms)) (length pre) s
         = (Inr (length pre + sum_list (map message_size ms)), foldl sink s ms)"
  using assms
proof (induction ms arbitrary: pre s)
  case Nil
  then show ?case by (simp add: parse_itch_loop_end)
next
  case (Cons m ms)
  let ?rest = "concat (map (encode_message True) ms)"
  let ?buf = "pre @ encode_message True m @ ?rest"
  from Cons.prems have wf: "message_wf m" by simp
  have "decode_message True (drop (length pre) ?buf) = Inr m"
    using wf by (simp add: decode_encode_message)
  moreover have "length pre < length ?buf"
    using wf message_size_pos[of m] by simp
  ultimately have "parse_itch_loop (parse_one le) sink ?buf (length pre) s =
      parse_itch_loop (parse_one le) sink ?buf (length pre + message_size m) (sink s m)"
    by (simp add: parse_itch_loop_step)
  also have "\<dots> = (Inr (length pre + message_size m + sum_list (map message_size ms)),
      foldl sink (sink s m) ms)"
    using Cons.IH[of "pre @ encode_message True m" "sink s m"] Cons.prems wf by simp
  finally show ?case by simp
qed

section \<open>The session-tolerant loop\<close>

datatype session_event = Decoded message | Skipped byte "byte list" nat

fun deliver :: "'s sink \<Rightarrow> 's listener \<Rightarrow> 's \<Rightarrow> session_event \<Rightarrow> 's" where
  "deliver sink listen s (Decoded m) = sink s m"
| "deliver sink listen s (Skipped t p n) = listen s t p n"

fun event_size :: "session_event \<Rightarrow> nat" where
  "event_size (Decoded m) = message_size m"
| "event_size (Skipped t p n) = n"

fun is_decoded :: "session_event \<Rightarrow> bool" where
  "is_decoded (Decoded m) = True"
| "is_decoded (Skipped t p n) = False"

fun skips :: "byte \<Rightarrow> session_event \<Rightarrow> bool" where
  "skips t (Decoded m) = False"
| "skips t (Skipped t' p n) = (t = t')"

text \<open>The counters after a sequence of events, starting from given counters.\<close>

definition stats_after :: "session_stats \<Rightarrow> session_event list \<Rightarrow> session_stats" where
  "stats_after st evs =
     \<lparr>ss_decoded = ss_decoded st + length (filter is_decoded evs),
      ss_skipped = ss_skipped st + length (filter (\<lambda>e. \<not> is_decoded e) evs),
      ss_skipped_by_type = (\<lambda>t. ss_skipped_by_type st t + length (filter (skips t) evs))\<rparr>"

text \<open>
  \<open>session_prefix buf evs n\<close>: the first \<open>n\<close> bytes of \<open>buf\<close> are frames, each decoded if its
  type is of the core subset and skipped with its standard length otherwise.
\<close>

fun session_prefix :: "byte list \<Rightarrow> session_event list \<Rightarrow> nat \<Rightarrow> bool" where
  "session_prefix buf [] n \<longleftrightarrow> n = 0"
| "session_prefix buf (e # evs) n \<longleftrightarrow>
     (case e of
        Decoded m \<Rightarrow> decode_message True buf = Inr m
      | Skipped t p k \<Rightarrow> buf \<noteq> [] \<and> t = buf ! 0 \<and> p = buf \<and> k = kSessionFrame t \<and> 0 < k \<and>
          k \<le> length buf \<and> kFrame t = 0) \<and>
     event_size e \<le> n \<and> session_prefix (drop (event_size e) buf) evs (n - event_size e)"

lemma kSessionFrame_core: "frame_need t = Some n \<Longrightarrow> kSessionFrame t = n"
  by (auto simp: kSessionFrame_def kFrame_need frame_need_def split: if_splits)

lemma kSessionFrame_le: "kSessionFrame t \<le> 50"
  by (auto simp: kSessionFrame_def kFrame_def wire_sizes)

lemma session_loop_end:
  "length buf \<le> off \<Longrightarrow> session_loop k sink listen buf off st s = (Inr st, s)"
  by (subst session_loop.simps) simp

lemma decode_size:
  assumes "decode_message True p = Inr m"
  shows "kSessionFrame (p ! 0) = message_size m" and "kFrame (p ! 0) = message_size m"
    and "message_size m \<le> length p" and "p \<noteq> []"
proof -
  from assms have "decode_spec True p = Inr m" by (simp add: decode_message_spec[of p True])
  then obtain n where n: "frame_need (p ! 0) = Some n" "n \<le> length p" "11 \<le> length p"
    "\<not> bad_side_at p" and m: "m = message_at True p"
    by (auto elim: decode_spec_InrD)
  have sz: "message_size m = n" using encode_message_at(3)[OF n(1,2,4)] m by simp
  from n sz show "kSessionFrame (p ! 0) = message_size m" "kFrame (p ! 0) = message_size m"
    "message_size m \<le> length p" "p \<noteq> []"
    by (auto simp: kSessionFrame_core kFrame_need)
qed

lemma session_loop_decoded:
  assumes "off < length buf" and "decode_message True (drop off buf) = Inr m"
  shows "session_loop (parse_one le) sink listen buf off st s =
         session_loop (parse_one le) sink listen buf (off + message_size m)
           (st\<lparr>ss_decoded := ss_decoded st + 1\<rparr>) (sink s m)"
proof -
  note d = decode_size[OF assms(2)]
  from assms(1) have "drop off buf ! 0 = buf ! off" by simp
  with d assms message_size_pos[of m] show ?thesis
    by (subst session_loop.simps) (simp add: parse_one_decode Let_def)
qed

lemma stats_after_skipped:
  "stats_after st [Skipped t p n] =
     st\<lparr>ss_skipped := ss_skipped st + 1,
        ss_skipped_by_type := (ss_skipped_by_type st)(t := ss_skipped_by_type st t + 1)\<rparr>"
  by (cases st) (auto simp: stats_after_def fun_eq_iff)

lemma session_loop_skipped:
  assumes "off < length buf" and "kFrame (buf ! off) = 0" and "kSessionFrame (buf ! off) = n"
    and "0 < n" and "off + n \<le> length buf"
  shows "session_loop (parse_one le) sink listen buf off st s =
         session_loop (parse_one le) sink listen buf (off + n)
           (stats_after st [Skipped (buf ! off) (drop off buf) n])
           (listen s (buf ! off) (drop off buf) n)"
proof -
  have "\<not> length buf - off < n" "drop off buf \<noteq> []" using assms by auto
  with assms(1-4) show ?thesis
    by (subst session_loop.simps) (simp add: stats_after_skipped Let_def)
qed

lemma session_loop_stops:
  assumes "off < length buf"
    and "\<And>m. decode_message True (drop off buf) \<noteq> Inr m"
    and "\<not> (kFrame (buf ! off) = 0 \<and> 0 < kSessionFrame (buf ! off) \<and>
            off + kSessionFrame (buf ! off) \<le> length buf)"
  shows "\<exists>e. session_loop (parse_one le) sink listen buf off st s = (Inl e, s) \<and> pe_offset e = off"
proof (cases "decode_message True (drop off buf)")
  case (Inl e)
  then show ?thesis using assms
    by (subst session_loop.simps) (auto simp: parse_one_decode Let_def)
qed (use assms(2) in auto)

lemma stats_after_Nil [simp]: "stats_after st [] = st"
  by (simp add: stats_after_def)

lemma stats_after_Cons: "stats_after st (e # evs) = stats_after (stats_after st [e]) evs"
  by (cases e) (auto simp: stats_after_def)

lemma session_loop_result:
  assumes "session_loop (parse_one le) sink listen buf off st s = (r, s')" and "off \<le> length buf"
  shows "\<exists>evs n. s' = foldl (deliver sink listen) s evs \<and> session_prefix (drop off buf) evs n \<and>
           (case r of
              Inr st' \<Rightarrow> st' = stats_after st evs \<and> off + n = length buf
            | Inl e \<Rightarrow> pe_offset e = off + n \<and> off + n < length buf)"
  using assms
proof (induction "length buf - off" arbitrary: off st s rule: less_induct)
  case less
  let ?d = "drop off buf"
  consider (fin) "length buf \<le> off"
    | (dec) m where "off < length buf" "decode_message True ?d = Inr m"
    | (skip) "off < length buf" "kFrame (buf ! off) = 0" "0 < kSessionFrame (buf ! off)"
        "off + kSessionFrame (buf ! off) \<le> length buf"
    | (stop) "off < length buf" "\<And>m. decode_message True ?d \<noteq> Inr m"
        "\<not> (kFrame (buf ! off) = 0 \<and> 0 < kSessionFrame (buf ! off) \<and>
            off + kSessionFrame (buf ! off) \<le> length buf)"
    by (meson not_le)
  then show ?case
  proof cases
    case fin
    with less.prems show ?thesis
      by (intro exI[of _ "[]"] exI[of _ 0]) (auto simp: session_loop_end)
  next
    case stop
    from session_loop_stops[OF stop, of le sink listen st s] less.prems(1)
    obtain e where "r = Inl e" "s' = s" "pe_offset e = off" by auto
    with stop show ?thesis by (intro exI[of _ "[]"] exI[of _ 0]) auto
  next
    case dec
    let ?off = "off + message_size m" and ?st = "st\<lparr>ss_decoded := ss_decoded st + 1\<rparr>"
    have lt: "length buf - ?off < length buf - off" using dec message_size_pos[of m] by arith
    have le: "?off \<le> length buf" using decode_size(3)[OF dec(2)] dec(1) by simp
    have run: "session_loop (parse_one le) sink listen buf ?off ?st (sink s m) = (r, s')"
      using less.prems(1) by (simp only: session_loop_decoded[OF dec])
    from less.hyps[OF lt run le] obtain evs n where ih:
      "s' = foldl (deliver sink listen) (sink s m) evs" "session_prefix (drop ?off buf) evs n"
      "case r of Inr st' \<Rightarrow> st' = stats_after ?st evs \<and> ?off + n = length buf
        | Inl e \<Rightarrow> pe_offset e = ?off + n \<and> ?off + n < length buf"
      by blast
    moreover have "stats_after ?st evs = stats_after st (Decoded m # evs)"
      by (subst stats_after_Cons) (simp add: stats_after_def)
    ultimately show ?thesis using dec
      by (intro exI[of _ "Decoded m # evs"] exI[of _ "message_size m + n"])
        (auto simp: add.commute add.left_commute split: sum.splits)
  next
    case skip
    let ?k = "kSessionFrame (buf ! off)"
    let ?e = "Skipped (buf ! off) ?d ?k"
    have lt: "length buf - (off + ?k) < length buf - off" using skip by arith
    have run: "session_loop (parse_one le) sink listen buf (off + ?k) (stats_after st [?e])
        (listen s (buf ! off) ?d ?k) = (r, s')"
      using less.prems(1) by (simp only: session_loop_skipped[OF skip(1,2) refl skip(3,4)])
    from less.hyps[OF lt run skip(4)] obtain evs n where ih:
      "s' = foldl (deliver sink listen) (listen s (buf ! off) ?d ?k) evs"
      "session_prefix (drop (off + ?k) buf) evs n"
      "case r of Inr st' \<Rightarrow> st' = stats_after (stats_after st [?e]) evs \<and> off + ?k + n = length buf
        | Inl e \<Rightarrow> pe_offset e = off + ?k + n \<and> off + ?k + n < length buf"
      by blast
    then show ?thesis using skip
      by (intro exI[of _ "?e # evs"] exI[of _ "?k + n"])
        (auto simp: stats_after_Cons[of st ?e evs] add.commute add.left_commute split: sum.splits)
  qed
qed

text \<open>On a stream the strict parser accepts, the tolerant one behaves identically.\<close>

lemma session_loop_strict:
  assumes "parse_itch_loop (parse_one le) sink buf off s = (Inr n, s')" and "off \<le> length buf"
  shows "\<exists>k. session_loop (parse_one le) sink listen buf off st s =
           (Inr (st\<lparr>ss_decoded := ss_decoded st + k\<rparr>), s')"
  using assms
proof (induction "length buf - off" arbitrary: off st s rule: less_induct)
  case less
  show ?case
  proof (cases "off < length buf")
    case False
    with less.prems show ?thesis
      by (intro exI[of _ 0]) (simp add: session_loop_end parse_itch_loop_end)
  next
    case True
    show ?thesis
    proof (cases "decode_message True (drop off buf)")
      case (Inl e)
      with True less.prems show ?thesis by (simp add: parse_itch_loop_error)
    next
      case (Inr m)
      let ?off = "off + message_size m" and ?st = "st\<lparr>ss_decoded := ss_decoded st + 1\<rparr>"
      have lt: "length buf - ?off < length buf - off" using True message_size_pos[of m] by arith
      have le: "?off \<le> length buf" using decode_size(3)[OF Inr] True by simp
      have run: "parse_itch_loop (parse_one le) sink buf ?off (sink s m) = (Inr n, s')"
        using less.prems(1) by (simp only: parse_itch_loop_step[OF True Inr])
      from less.hyps[OF lt run le, of ?st] obtain k where
        "session_loop (parse_one le) sink listen buf ?off ?st (sink s m) =
           (Inr (?st\<lparr>ss_decoded := ss_decoded ?st + k\<rparr>), s')" by blast
      then show ?thesis
        by (intro exI[of _ "k + 1"]) (simp add: session_loop_decoded[OF True Inr])
    qed
  qed
qed

section \<open>The trace hash\<close>

lemma kFnvPrime_inverse: "kFnvPrime * 0xce965057aff6957b = 1"
  by (simp add: kFnvPrime_def)

lemma kFnvPrime_cancel: "x * kFnvPrime = y * kFnvPrime \<longleftrightarrow> x = y"
proof
  assume "x * kFnvPrime = y * kFnvPrime"
  then have "x * (kFnvPrime * 0xce965057aff6957b) = y * (kFnvPrime * 0xce965057aff6957b)"
    by (simp only: mult.assoc[symmetric])
  then show "x = y" by (simp add: kFnvPrime_inverse)
qed simp

lemma xor_right_cancel: "(x :: 'a::len word) XOR v = y XOR v \<longleftrightarrow> x = y"
  by (metis xor.assoc xor_self_eq xor.right_neutral)

lemma hash_fold_inj: "hash_fold h v = hash_fold h' v \<longleftrightarrow> h = h'"
  by (simp add: hash_fold_def kFnvPrime_cancel xor_right_cancel)

lemma hash_fold_value_inj: "hash_fold h v = hash_fold h v' \<longleftrightarrow> v = v'"
  by (metis hash_fold_def kFnvPrime_cancel xor.commute xor_right_cancel)

lemma hash_fold_bytes_inj: "hash_fold_bytes h bs = hash_fold_bytes h' bs \<longleftrightarrow> h = h'"
  by (induction bs arbitrary: h h') (simp_all add: kFnvPrime_cancel xor_right_cancel)

lemma trace_hash_inj: "trace_hash m seed = trace_hash m seed' \<longleftrightarrow> seed = seed'"
  by (cases m) (simp_all add: hash_header_def Let_def hash_fold_inj hash_fold_bytes_inj)

lemma foldl_trace_hash_inj:
  "foldl (\<lambda>h m. trace_hash m h) h ms = foldl (\<lambda>h m. trace_hash m h) h' ms \<longleftrightarrow> h = h'"
  by (induction ms arbitrary: h h') (simp_all add: trace_hash_inj)

end
