(* ===== verification/CodecProps.thy ===== *)
theory CodecProps
  imports ItchStream FixedPoint
begin

text \<open>
  The properties of the codecs, the stream parsers, the trace hash and the fixed-point arithmetic.
\<close>

section \<open>Messages of the examples\<close>

definition demo_delete :: message where
  "demo_delete = OrderDelete \<lparr> od_header = \<lparr> h_locate = 1, h_tracking = 2, h_ts_ns = 3 \<rparr>, od_order_ref = 9 \<rparr>"

lemma demo_delete_wf: "message_wf demo_delete" "message_size demo_delete = 19"
  by (simp_all add: demo_delete_def header_wf_def)

section \<open>Codecs\<close>

text \<open>C9: Decoding an encoded message gives the message back, whatever follows it in the buffer.\<close>

theorem decode_after_encode:
  assumes "message_wf m"
  shows "decode_message True (encode_message True m @ rest) = Inr m"
  by (rule decode_encode_message[OF assms])

lemma decode_after_encode_witness:
  "decode_message True (encode_message True demo_delete @ [0, 1]) = Inr demo_delete"
  by (rule decode_after_encode[OF demo_delete_wf(1)])

text \<open>C10: Encoding a decoded message rebuilds the bytes it was decoded from, up to the printable
  flag, which is normalised to Y or N; a decoded message is always well formed.\<close>

theorem encode_after_decode:
  assumes "decode_message True p = Inr m"
  shows "message_wf m \<and> message_size m \<le> length p \<and>
    encode_message True m = canonical_frame (take (message_size m) p)"
  using encode_decode_message[OF assms] by blast

lemma encode_after_decode_witness:
  "message_wf demo_delete \<and> message_size demo_delete \<le> length (encode_message True demo_delete @ [7]) \<and>
    encode_message True demo_delete =
      canonical_frame (take (message_size demo_delete) (encode_message True demo_delete @ [7]))"
  by (rule encode_after_decode[OF decode_encode_message[OF demo_delete_wf(1)]])

lemma reference_wants_little_endian:
  "decode_message False (encode_message True demo_delete) \<noteq> decode_message True (encode_message True demo_delete)"
  by code_simp

text \<open>C8: On a host of either byte order the fast one-pass parser accepts exactly the frames the
  reference codec accepts on a little-endian host, with the same message, and the error it
  reports for the others is the reference codec's. On a little-endian host the two therefore agree on
  every buffer. On a big-endian host they do not: the reference codec reads its fields as words and swaps them whatever
  the host, so there is a frame the fast parser accepts with another result than the reference codec.\<close>

theorem parse_one_equals_reference:
  "(case decode_message True p of
     Inl e \<Rightarrow> parse_one le p = None \<and> classify_stream_error p = e
   | Inr m \<Rightarrow> parse_one le p = Some m) \<and>
   (\<exists>frame m. parse_one False frame = Some m \<and> decode_message False frame \<noteq> Inr m)"
proof
  show "case decode_message True p of
     Inl e \<Rightarrow> parse_one le p = None \<and> classify_stream_error p = e
   | Inr m \<Rightarrow> parse_one le p = Some m"
    using parse_one_decode[of le p] classify_decode[of p] by (auto split: sum.splits)
  let ?frame = "encode_message True demo_delete"
  have d: "decode_message True ?frame = Inr demo_delete"
    using decode_encode_message[OF demo_delete_wf(1), of "[]"] by simp
  then show "\<exists>frame m. parse_one False frame = Some m \<and> decode_message False frame \<noteq> Inr m"
    using parse_one_decode[of False ?frame] reference_wants_little_endian
    by (intro exI[of _ ?frame] exI[of _ demo_delete]) auto
qed

section \<open>Streams\<close>

text \<open>C11: The strict stream parser hands the sink exactly the messages of the longest decodable
  prefix, in order. It succeeds only when that prefix is the whole buffer, and an error carries the
  offset and the reason of the first frame that does not decode.\<close>

theorem parse_itch_exact:
  assumes "parse_itch le sink buf s = (r, s')"
  shows "\<exists>ms n. s' = foldl sink s ms \<and> stream_prefix buf ms n \<and>
     (case r of
        Inr consumed \<Rightarrow> consumed = length buf \<and> n = length buf
      | Inl e \<Rightarrow> pe_offset e = n \<and> n < length buf \<and> decode_message True (drop n buf) = Inl (pe_code e))"
  using parse_itch_loop_result[OF assms[unfolded parse_itch_def]] by (simp only: add_0 drop_0 le0 simp_thms)

lemma parse_itch_exact_witness:
  "\<exists>ms n. (9::nat) = foldl (\<lambda>k m. k + 1) 9 ms \<and> stream_prefix [] ms n \<and> n = 0"
proof -
  have "parse_itch True (\<lambda>k m. k + 1) [] (9::nat) = (Inr 0, 9)"
    by (simp add: parse_itch_def parse_itch_loop_end)
  from parse_itch_exact[OF this] show ?thesis by auto
qed

text \<open>A buffer of encoded messages parses to those messages, all of it consumed.\<close>

theorem parse_itch_encoded:
  assumes "list_all message_wf ms"
  shows "parse_itch le sink (concat (map (encode_message True) ms)) s =
    (Inr (sum_list (map message_size ms)), foldl sink s ms)"
  using parse_itch_loop_encoded[OF assms, of le sink "[]" s] by (simp add: parse_itch_def)

lemma parse_itch_encoded_witness:
  "parse_itch True (\<lambda>k m. k + 1) (concat (map (encode_message True) [demo_delete, demo_delete])) (0::nat) =
    (Inr 38, 2)"
  using parse_itch_encoded[of "[demo_delete, demo_delete]" True "\<lambda>k m. k + 1" "0::nat"]
  by (simp add: demo_delete_wf)

text \<open>The session-tolerant parser delivers every frame in order, decoded messages to the sink and
  frames of the other known types to the listener. Its counters are the numbers of the frames it
  delivered, and an error carries the offset where the delivered frames end.\<close>

theorem parse_session_exact:
  assumes "parse_itch_session_listen_as (parse_one le) sink listen buf s = (r, s')"
  shows "\<exists>evs n. s' = foldl (deliver sink listen) s evs \<and> session_prefix buf evs n \<and>
     (case r of
        Inr st \<Rightarrow> st = stats_after empty_stats evs \<and> n = length buf
      | Inl e \<Rightarrow> pe_offset e = n \<and> n < length buf)"
  using session_loop_result[OF assms[unfolded parse_itch_session_listen_as_def]]
  by (simp only: add_0 drop_0 le0 simp_thms)

lemma parse_session_exact_witness:
  "\<exists>evs n. (5::nat) = foldl (deliver (\<lambda>k m. k + 1) (\<lambda>k t p n. k)) 5 evs \<and> session_prefix [] evs n \<and>
     empty_stats = stats_after empty_stats evs"
proof -
  have "parse_itch_session_listen_as (parse_one True) (\<lambda>k m. k + 1) (\<lambda>k t p n. k) [] (5::nat) =
      (Inr empty_stats, 5)"
    by (simp add: parse_itch_session_listen_as_def session_loop_end)
  from parse_session_exact[OF this] show ?thesis by auto
qed

text \<open>The session parser is a conservative extension: on every buffer the strict parser accepts
  it delivers the same messages and skips nothing.\<close>

theorem parse_session_conservative:
  assumes "parse_itch le sink buf s = (Inr n, s')"
  shows "\<exists>k. parse_itch_session_as (parse_one le) sink buf s = (Inr (empty_stats\<lparr>ss_decoded := ss_decoded empty_stats + k\<rparr>), s')"
  unfolding parse_itch_session_as_def
  by (rule session_loop_strict[OF assms[unfolded parse_itch_def]]) simp

lemma parse_session_conservative_witness:
  "\<exists>k. parse_itch_session_as (parse_one True) (\<lambda>k m. k + 1) (encode_message True demo_delete) (0::nat) =
     (Inr (empty_stats\<lparr>ss_decoded := ss_decoded empty_stats + k\<rparr>), 1)"
proof -
  have "parse_itch True (\<lambda>k m. k + 1) (encode_message True demo_delete) (0::nat) = (Inr 19, 1)"
    using parse_itch_loop_encoded[of "[demo_delete]" True "\<lambda>k m. k + 1" "[]" "0::nat"]
    by (simp add: demo_delete_wf parse_itch_def)
  from parse_session_conservative[OF this] show ?thesis .
qed

text \<open>The trace hash never forgets: two runs that fold the same messages agree only if they
  started from the same hash, and two values folded into one hash never collide.\<close>

theorem trace_hash_injective:
  "(foldl (\<lambda>h m. trace_hash m h) h ms = foldl (\<lambda>h m. trace_hash m h) h' ms \<longleftrightarrow> h = h') \<and>
   (hash_fold h v = hash_fold h v' \<longleftrightarrow> v = v')"
  using foldl_trace_hash_inj hash_fold_value_inj by blast

section \<open>Bytes and numbers\<close>

text \<open>What one host stores any other host loads, and loading then storing restores the bytes:
  the wire helpers do not depend on the byte order of the host.\<close>

theorem wire_host_independent:
  "load_be16 le (store_be16 le' v2 @ rest) = v2 \<and> load_be32 le (store_be32 le' v4 @ rest) = v4 \<and>
   load_be64 le (store_be64 le' v8 @ rest) = v8 \<and>
   (length p < 8 \<or> (store_be64 le (load_be64 le' p) = take 8 p \<and> store_be32 le (load_be32 le' p) = take 4 p \<and>
      store_be16 le (load_be16 le' p) = take 2 p \<and> store_be48 le (load_be48 le' p) = take 6 p))"
  by (auto simp: byte_simps)

text \<open>The saturating operations clamp the mathematical result to the 64-bit range, on every
  branch of their overflow handling.\<close>

theorem saturating_clamps:
  assumes "fits64 a" and "fits64 b"
  shows "add_sat a b = clamp64 (a + b) \<and> sub_sat a b = clamp64 (a - b) \<and> mul_sat a b = clamp64 (a * b)"
  using add_sat_clamp[OF assms] sub_sat_clamp[OF assms] mul_sat_clamp[OF assms] by blast

lemma saturating_clamps_witness:
  "add_sat int64_max 5 = clamp64 (int64_max + 5) \<and> sub_sat int64_max 5 = clamp64 (int64_max - 5) \<and>
   mul_sat int64_max 5 = clamp64 (int64_max * 5)"
  by (rule saturating_clamps) (simp_all add: fits64_def)

text \<open>Whenever the contract of an unchecked price operation admits its operands, the sum or
  difference does not overflow and equals the saturating one.\<close>

theorem price_raw_exact:
  assumes "price_raw_add a b = Some r" and "price_raw_sub a b = Some r'"
  shows "fits64 r \<and> r = price_add a b \<and> r = a + b \<and> fits64 r' \<and> r' = price_sub a b \<and> r' = a - b"
  using price_raw_add_fits[OF assms(1)] price_raw_sub_fits[OF assms(2)] by blast

lemma price_raw_exact_witness:
  "fits64 (12::int) \<and> 12 = price_add 7 5 \<and> 12 = 7 + (5::int) \<and> fits64 2 \<and> 2 = price_sub 7 5 \<and> 2 = 7 - (5::int)"
  by (rule price_raw_exact) (simp_all add: price_raw_add_def price_raw_sub_def kValueLimit_def)

end
