(* ===== verification/StructProps.thy ===== *)
theory StructProps
  imports LadderBest IdTable
begin

text \<open>
  The properties of the data structures under the book: the paged ladder, the order-reference
  table and the generational arena.
\<close>

section \<open>The ladder\<close>

text \<open>C19: The word-at-a-time scans across pages return the nearest tick with quantity strictly above
  and strictly below any tick, or the sentinel when there is none.\<close>

theorem ladder_scans_nearest:
  assumes "lad_inv l"
  shows "least_tick (first_above l x) {t. lv_qty (lad_level l t) \<noteq> 0 \<and> x < t} \<and>
    greatest_tick (first_below l x) {t. lv_qty (lad_level l t) \<noteq> 0 \<and> t < x}"
  using first_above_least[OF assms, of x] first_below_greatest[OF assms, of x]
  by (simp add: lad_occupied_def)

lemma demo_ladder: "\<exists>l. ladder_new 6 100 300 2 = Some l \<and> lad_inv l \<and> lad_level l = (\<lambda>_. empty_level) \<and>
   ld_lo l = 100 \<and> ld_hi l = 300 \<and> (\<forall>t. claimable l t)"
  by (rule ladder_new_correct) (auto simp: kNoPage_def)

lemma ladder_scans_nearest_witness:
  "\<exists>l. lad_inv l \<and> first_above l 150 = kNoTick \<and> first_below l 150 = kNoTick"
proof -
  from demo_ladder obtain l where l: "lad_inv l" "lad_level l = (\<lambda>_. empty_level)" by blast
  from ladder_scans_nearest[OF l(1), of 150] l show ?thesis
    by (auto simp: least_tick_def greatest_tick_def empty_level_def)
qed

text \<open>Applying a quantity to a tick in the band changes the total of that tick alone, claims at
  most one page, keeps the bits, counts and page directory consistent, and fails no contract as
  long as the total stays between zero and the 64-bit maximum.\<close>

theorem ladder_apply_exact:
  assumes "lad_inv l" and "lad_in_band l t" and "claimable l t" and "delta \<noteq> 0"
    and "0 \<le> lv_qty (lad_level l t) + delta" and "lv_qty (lad_level l t) + delta \<le> int64_max"
  shows "\<exists>a l'. lad_apply l t delta = Some (a, l') \<and> lad_inv l' \<and> lad_peek l' t = Some a \<and>
     lad_level l' = (lad_level l)(t := (lad_level l t)\<lparr> lv_qty := lv_qty (lad_level l t) + delta \<rparr>)"
  using lad_apply_correct[OF assms] by blast

lemma ladder_apply_exact_witness:
  "\<exists>l a l'. lad_apply l 170 25 = Some (a, l') \<and> lad_inv l' \<and> lad_peek l' 170 = Some a \<and>
     lv_qty (lad_level l' 170) = 25"
proof -
  from demo_ladder obtain l where l: "lad_inv l" "lad_level l = (\<lambda>_. empty_level)" "ld_lo l = 100" "ld_hi l = 300"
    "claimable l 170" by blast
  have "lad_in_band l 170" using l by (simp add: lad_in_band_def)
  from ladder_apply_exact[OF l(1) this l(5), of 25] l(2) show ?thesis
    by (force simp: empty_level_def)
qed

text \<open>The level walk visits the occupied ticks in ascending order, each once, with its level.\<close>

theorem ladder_walk_ascending:
  assumes "lad_inv l"
  shows "for_each_level l fn st =
    fold (\<lambda>t. fn t (lad_level l t)) (sorted_list_of_set {t. lv_qty (lad_level l t) \<noteq> 0}) st"
  using for_each_level_sorted[OF assms] by (simp add: lad_occupied_def)

lemma ladder_walk_ascending_witness:
  "\<exists>l. lad_inv l \<and> for_each_level l (\<lambda>t lv n. n + 1) (0::nat) = 0"
proof -
  from demo_ladder obtain l where l: "lad_inv l" "lad_level l = (\<lambda>_. empty_level)" by blast
  from ladder_walk_ascending[OF l(1), of "\<lambda>t lv n. n + 1" "0::nat"] l show ?thesis
    by (auto simp: empty_level_def)
qed

section \<open>The reference table\<close>

text \<open>C18: Looking up a reference in the open-addressed table returns the handle the table maps it to,
  and null otherwise. Erasing it with backward shifts removes exactly that reference: every
  other probe chain still finds its entry.\<close>

theorem id_table_find_erase:
  assumes "id_inv t" and "r \<noteq> 0"
  shows "\<exists>s. id_find_slot t r = Some (s, case id_map t r of Some h \<Rightarrow> h | None \<Rightarrow> null_handle) \<and>
    (id_map t r = None \<or> (\<exists>t'. id_erase_at t s = Some t' \<and> id_erase t r = Some t' \<and> id_inv t' \<and>
       id_map t' = (id_map t)(r := None) \<and> it_size t' + 1 = it_size t))"
proof (cases "id_map t r")
  case None
  then show ?thesis using idt.find_absent[OF assms None] by auto
next
  case (Some h)
  from idt.find_present[OF assms(1) Some] obtain s where s: "id_find_slot t r = Some (s, h)" by blast
  from idt.erase_law[OF assms(1) s Some] s Some idt.view_null[OF assms(1) Some] show ?thesis
    by (auto simp: id_erase_def)
qed

lemma demo_table: "\<exists>t. id_new 4 = Some t \<and> id_inv t \<and> id_map t = Map.empty \<and> it_size t = 0 \<and> 4 * 2 \<le> it_cap t"
  by (rule id_new_correct) simp

lemma id_table_find_erase_witness: "\<exists>t s. id_inv t \<and> id_find_slot t 5 = Some (s, null_handle)"
proof -
  from demo_table obtain t where t: "id_inv t" "id_map t = Map.empty" by blast
  from id_table_find_erase[OF t(1), of 5] t show ?thesis by auto
qed

text \<open>Inserting at the slot a failed lookup returned adds exactly that reference and keeps the
  table at most half full; erasing it again restores the map.\<close>

theorem id_table_insert_erase:
  assumes "id_inv t" and "r \<noteq> 0" and "id_map t r = None" and "(it_size t + 1) * 2 \<le> it_cap t"
    and "h_index h \<noteq> kNullIndex"
  shows "\<exists>t1 t2. id_insert t r h = Some t1 \<and> id_inv t1 \<and> id_map t1 = (id_map t)(r \<mapsto> h) \<and>
    id_erase t1 r = Some t2 \<and> id_inv t2 \<and> id_map t2 = id_map t"
proof -
  from idt.find_absent[OF assms(1-3)] obtain s where s: "id_find_slot t r = Some (s, null_handle)" by blast
  from idt.insert_law[OF assms(1,2) s assms(3-5)] obtain t1 where t1: "id_insert_at t s r h = Some t1"
    "id_inv t1" "id_map t1 = (id_map t)(r \<mapsto> h)" by blast
  have v: "id_map t1 r = Some h" using t1(3) by simp
  from idt.find_present[OF t1(2) v] obtain s' where s': "id_find_slot t1 r = Some (s', h)" by blast
  from idt.erase_law[OF t1(2) s' v] obtain t2 where t2: "id_erase_at t1 s' = Some t2" "id_inv t2"
    "id_map t2 = (id_map t1)(r := None)" by blast
  have "id_insert t r h = Some t1" using s t1(1) by (simp add: id_insert_def null_handle_def)
  moreover have "id_erase t1 r = Some t2" using s' t2(1) assms(5) by (simp add: id_erase_def)
  ultimately show ?thesis using t1 t2 assms(3) by (auto simp: fun_upd_idem)
qed

lemma id_table_insert_erase_witness:
  "\<exists>t t1. id_insert t 5 \<lparr> h_index = 2, h_generation = 7 \<rparr> = Some t1 \<and>
     id_map t1 = [5 \<mapsto> \<lparr> h_index = 2, h_generation = 7 \<rparr>]"
proof -
  from demo_table obtain t where t: "id_inv t" "id_map t = Map.empty" "it_size t = 0" "8 \<le> it_cap t" by auto
  from id_table_insert_erase[OF t(1), of 5 "\<lparr> h_index = 2, h_generation = 7 \<rparr>"] t show ?thesis
    by (auto simp: kNullIndex_def)
qed

section \<open>The arena\<close>

text \<open>An acquisition hands out a slot nobody holds, with the slot's current generation, and
  touches no other live slot; it returns the null handle exactly when every slot is live.\<close>

theorem arena_acquire_exact:
  assumes "arena_inv a"
  shows "if ar_live a = ar_capacity a then arena_acquire v a = (null_handle, a)
    else \<exists>h a'. arena_acquire v a = (h, a') \<and> arena_inv a' \<and> arena_map a (h_index h) = None \<and>
      arena_map a' = (arena_map a)(h_index h \<mapsto> (h_generation h, v)) \<and> arena_valid a' h \<and>
      ar_live a' = ar_live a + 1"
proof (cases "ar_live a = ar_capacity a")
  case True
  then show ?thesis using arena_acquire_full[OF assms] by simp
next
  case False
  then have room: "ar_live a < ar_capacity a" using arena_full_iff(1)[OF assms] by simp
  obtain h a' where acq: "arena_acquire v a = (h, a')" by (cases "arena_acquire v a")
  note r = arena_acquire_room[OF assms room acq]
  have hs: "\<lparr> h_index = h_index h, h_generation = h_generation h \<rparr> = h" by (cases h) simp
  have m: "arena_map a' (h_index h) = Some (h_generation h, v)" using r by simp
  have "arena_valid a' h" using arena_map_access(3)[OF conjunct1[OF r] m] unfolding hs .
  with r acq False show ?thesis by simp
qed

lemma demo_arena: "\<exists>a :: int arena. arena_inv a \<and> ar_live a = 0 \<and> ar_capacity a = 2 \<and> arena_map a = Map.empty"
proof -
  let ?raw = "replicate 2 \<lparr> s_value = 0 :: int, s_generation = 0, s_free_next = 0, s_live = True \<rparr>"
  let ?a = "\<lparr> ar_capacity = 2, ar_live = 0, ar_watermark = 0, ar_free_head = kNullIndex, ar_slots = ?raw \<rparr>"
  have "arena_new 2 ?raw = Some ?a" by (simp add: arena_new_def kNullIndex_def)
  from arena_new_inv[OF this] show ?thesis by (intro exI[of _ ?a]) simp
qed

lemma arena_acquire_exact_witness:
  "\<exists>(a :: int arena) h a'. arena_acquire 42 a = (h, a') \<and> arena_map a' = [h_index h \<mapsto> (h_generation h, 42)]"
proof -
  from demo_arena obtain a :: "int arena" where a: "arena_inv a" "ar_live a = 0" "ar_capacity a = 2"
    "arena_map a = Map.empty" by blast
  from arena_acquire_exact[OF a(1), of 42] a show ?thesis by auto
qed

text \<open>C29: A handle never validates after its release until its slot has been released another
  \<open>2 ^ 32 - 1\<close> times, whatever acquisitions and releases happen in between.\<close>

theorem arena_stale_handle:
  assumes "arena_inv a" and "h_index h < ar_watermark a" and "ga.run (Release h # os) a = Some a'"
    and "ga.releases (h_index h) os + 1 < 2 ^ 32"
  shows "\<not> (\<exists>v. arena_map a' (h_index h) = Some (h_generation h, v))"
proof -
  have "arena_gen a' (h_index h) \<noteq> h_generation h"
    using ga.released_stays_stale[OF assms(1) _ assms(3,4)] assms(2) by simp
  then show ?thesis by (auto simp: arena_gen_def arena_map_def split: if_splits)
qed

lemma arena_stale_handle_witness:
  "\<exists>(a :: int arena) h a'. arena_valid a h \<and> ga.run [Release h] a = Some a' \<and>
     \<not> (\<exists>v. arena_map a' (h_index h) = Some (h_generation h, v))"
proof -
  from demo_arena obtain a :: "int arena" where a: "arena_inv a" "ar_live a < ar_capacity a" by fastforce
  obtain h b where acq: "arena_acquire 42 a = (h, b)" by (cases "arena_acquire 42 a")
  note r = arena_acquire_room[OF a acq]
  have h: "\<lparr> h_index = h_index h, h_generation = h_generation h \<rparr> = h" by (cases h) simp
  have m: "arena_map b (h_index h) = Some (h_generation h, 42)" using r by simp
  have inv: "arena_inv b" using r by blast
  note w = arena_inv_index(3)[OF inv m]
  from arena_release_correct[OF inv m] h obtain c where c: "arena_release h b = Some c" by auto
  then have run: "ga.run [Release h] b = Some c" using w by simp
  from arena_stale_handle[OF inv w run] run arena_map_access(3)[OF inv m] h
  show ?thesis by (intro exI[of _ b] exI[of _ h] exI[of _ c]) simp
qed

end
