(* ===== verification/BinHeap.thy ===== *)
theory BinHeap
  imports Main
begin

text \<open>
  Binary heaps in a list: the entry at index \<open>i\<close> has its parent at \<open>(i - 1) div 2\<close>. The lemmas
  follow one exchange of a sift and hold for any key into a linear order, so they know nothing of
  the scheduler that uses them.
\<close>

definition parent :: "nat \<Rightarrow> nat" where
  "parent i = (i - 1) div 2"

definition list_swap :: "nat \<Rightarrow> nat \<Rightarrow> 'a list \<Rightarrow> 'a list" where
  "list_swap a b xs = xs[a := xs ! b, b := xs ! a]"

definition heap_ok :: "('a \<Rightarrow> 'k::linorder) \<Rightarrow> 'a list \<Rightarrow> bool" where
  "heap_ok f xs \<longleftrightarrow> (\<forall>i. 0 < i \<and> i < length xs \<longrightarrow> f (xs ! parent i) \<le> f (xs ! i))"

text \<open>A heap but for the links of index \<open>k\<close>: to its parent and children (\<open>hole_ok\<close>), to its parent
  (\<open>up_ok\<close>), to its children (\<open>down_ok\<close>). Its parent is below its children in each.\<close>

definition bridged :: "('a \<Rightarrow> 'k::linorder) \<Rightarrow> 'a list \<Rightarrow> nat \<Rightarrow> bool" where
  "bridged f xs k \<longleftrightarrow> (\<forall>i. 0 < k \<and> 0 < i \<and> i < length xs \<and> parent i = k \<longrightarrow> f (xs ! parent k) \<le> f (xs ! i))"

definition hole_ok :: "('a \<Rightarrow> 'k::linorder) \<Rightarrow> 'a list \<Rightarrow> nat \<Rightarrow> bool" where
  "hole_ok f xs k \<longleftrightarrow> bridged f xs k \<and>
     (\<forall>i. 0 < i \<and> i < length xs \<and> i \<noteq> k \<and> parent i \<noteq> k \<longrightarrow> f (xs ! parent i) \<le> f (xs ! i))"

definition up_ok :: "('a \<Rightarrow> 'k::linorder) \<Rightarrow> 'a list \<Rightarrow> nat \<Rightarrow> bool" where
  "up_ok f xs k \<longleftrightarrow> bridged f xs k \<and>
     (\<forall>i. 0 < i \<and> i < length xs \<and> i \<noteq> k \<longrightarrow> f (xs ! parent i) \<le> f (xs ! i))"

definition down_ok :: "('a \<Rightarrow> 'k::linorder) \<Rightarrow> 'a list \<Rightarrow> nat \<Rightarrow> bool" where
  "down_ok f xs k \<longleftrightarrow> bridged f xs k \<and>
     (\<forall>i. 0 < i \<and> i < length xs \<and> parent i \<noteq> k \<longrightarrow> f (xs ! parent i) \<le> f (xs ! i))"

lemma parent_iff: "0 < i \<Longrightarrow> parent i = k \<longleftrightarrow> i = 2 * k + 1 \<or> i = 2 * k + 2"
  by (auto simp: parent_def)

lemma parent_less [simp]: "0 < i \<Longrightarrow> parent i < i"
  by (auto simp: parent_def)

lemma length_list_swap [simp]: "length (list_swap a b xs) = length xs"
  by (simp add: list_swap_def)

lemma nth_list_swap:
  "a < length xs \<Longrightarrow> b < length xs \<Longrightarrow>
     list_swap a b xs ! i = (if i = b then xs ! a else if i = a then xs ! b else xs ! i)"
  by (auto simp: list_swap_def nth_list_update)

lemma set_list_swap [simp]:
  "a < length xs \<Longrightarrow> b < length xs \<Longrightarrow> set (list_swap a b xs) = set xs"
  by (simp add: list_swap_def)

lemma heap_ok_root:
  assumes "heap_ok f xs" and "i < length xs"
  shows "f (xs ! 0) \<le> f (xs ! i)"
  using assms(2)
proof (induction i rule: less_induct)
  case (less i)
  show ?case
  proof (cases "i = 0")
    case False
    then have "parent i < i" by simp
    with less have "f (xs ! 0) \<le> f (xs ! parent i)" by simp
    also have "\<dots> \<le> f (xs ! i)" using assms(1) False less.prems by (simp add: heap_ok_def)
    finally show ?thesis .
  qed simp
qed

lemma up_ok_stop: "up_ok f xs k \<Longrightarrow> k = 0 \<or> f (xs ! parent k) \<le> f (xs ! k) \<Longrightarrow> heap_ok f xs"
  unfolding up_ok_def heap_ok_def by (metis less_irrefl)

lemma down_ok_stop:
  "down_ok f xs k \<Longrightarrow> (\<And>c. c < length xs \<Longrightarrow> 0 < c \<Longrightarrow> parent c = k \<Longrightarrow> f (xs ! k) \<le> f (xs ! c)) \<Longrightarrow> heap_ok f xs"
  unfolding down_ok_def heap_ok_def by metis

lemma up_ok_step:
  assumes up: "up_ok f xs k" and k: "0 < k" "k < length xs" and lt: "f (xs ! k) < f (xs ! parent k)"
  shows "up_ok f (list_swap k (parent k) xs) (parent k)"
proof -
  let ?p = "parent k"
  have p: "?p < k" using k by simp
  then have pl: "?p < length xs" using k(2) by (rule less_trans)
  note n = nth_list_swap[OF k(2) pl]
  have br: "f (xs ! ?p) \<le> f (xs ! i)" if "0 < i" "i < length xs" "parent i = k" for i
    using up that k by (auto simp: up_ok_def bridged_def)
  have par: "f (xs ! parent i) \<le> f (xs ! i)" if "0 < i" "i < length xs" "i \<noteq> k" for i
    using up that by (auto simp: up_ok_def)
  have "f (list_swap k ?p xs ! parent i) \<le> f (list_swap k ?p xs ! i)"
    if i: "0 < i" "i < length xs" "i \<noteq> ?p" for i
  proof -
    consider "i = k" | "i \<noteq> k" "parent i = k" | "i \<noteq> k" "parent i = ?p" | "i \<noteq> k" "parent i \<noteq> k" "parent i \<noteq> ?p"
      by blast
    then show ?thesis
    proof cases
      case 1 then show ?thesis using lt p by (simp add: n)
    next
      case 2 then show ?thesis using br i p by (simp add: n)
    next
      case 3
      then have "f (xs ! ?p) \<le> f (xs ! i)" using par[OF i(1,2)] by simp
      then show ?thesis using 3 i lt by (simp add: n)
    next
      case 4 then show ?thesis using par[OF i(1,2)] i by (simp add: n)
    qed
  qed
  moreover have "f (list_swap k ?p xs ! parent ?p) \<le> f (list_swap k ?p xs ! i)"
    if i: "0 < ?p" "0 < i" "i < length xs" "parent i = ?p" for i
  proof -
    have a: "parent ?p < ?p" using i by simp
    have b: "f (xs ! parent ?p) \<le> f (xs ! ?p)" using par[of ?p] i p pl by simp
    have ip: "i \<noteq> ?p" using i parent_less[OF i(2)] by auto
    show ?thesis
    proof (cases "i = k")
      case True then show ?thesis using a b p by (simp add: n)
    next
      case False
      then have "f (xs ! ?p) \<le> f (xs ! i)" using par[OF i(2,3)] i(4) by simp
      then show ?thesis using a b p False ip by (simp add: n) 
    qed
  qed
  ultimately show ?thesis by (simp add: up_ok_def bridged_def)
qed

lemma down_ok_step:
  assumes dn: "down_ok f xs k" and c: "0 < c" "c < length xs" "parent c = k"
    and lt: "f (xs ! c) < f (xs ! k)"
    and best: "\<And>d. 0 < d \<Longrightarrow> d < length xs \<Longrightarrow> parent d = k \<Longrightarrow> f (xs ! c) \<le> f (xs ! d)"
  shows "down_ok f (list_swap k c xs) c"
proof -
  have kc: "k < c" using c parent_less by metis
  then have kl: "k < length xs" using c by simp
  note n = nth_list_swap[OF kl c(2)]
  have br: "f (xs ! parent k) \<le> f (xs ! i)" if "0 < k" "0 < i" "i < length xs" "parent i = k" for i
    using dn that by (auto simp: down_ok_def bridged_def)
  have par: "f (xs ! parent i) \<le> f (xs ! i)" if "0 < i" "i < length xs" "parent i \<noteq> k" for i
    using dn that by (auto simp: down_ok_def)
  have "f (list_swap k c xs ! parent i) \<le> f (list_swap k c xs ! i)"
    if i: "0 < i" "i < length xs" "parent i \<noteq> c" for i
  proof -
    consider "i = c" | "i = k" | "i \<noteq> c" "parent i = k" | "i \<noteq> c" "i \<noteq> k" "parent i \<noteq> k" by blast
    then show ?thesis
    proof cases
      case 1 then show ?thesis using lt c kc by (simp add: n)
    next
      case 2
      have "parent k < k" using 2 i by simp
      then show ?thesis using 2 br[OF _ c] i kc by (simp add: n)
    next
      case 3
      then have "i \<noteq> k" using parent_less[OF i(1)] by auto
      then show ?thesis using 3 best[OF i(1,2)] kc by (simp add: n)
    next
      case 4 then show ?thesis using par[OF i(1,2)] i by (simp add: n)
    qed
  qed
  moreover have "f (list_swap k c xs ! parent c) \<le> f (list_swap k c xs ! i)"
    if i: "0 < i" "i < length xs" "parent i = c" for i
  proof -
    have "c < i" using i parent_less by metis
    then have "i \<noteq> c" "i \<noteq> k" using kc by auto
    then show ?thesis using par[OF i(1,2)] i(3) c kc by (simp add: n)
  qed
  ultimately show ?thesis by (simp add: down_ok_def bridged_def)
qed

lemma hole_ok_up: "hole_ok f xs k \<Longrightarrow> 0 < k \<Longrightarrow> f (xs ! k) < f (xs ! parent k) \<Longrightarrow> up_ok f xs k"
  unfolding hole_ok_def up_ok_def bridged_def by (metis less_imp_le order_trans)

lemma hole_ok_down: "hole_ok f xs k \<Longrightarrow> k = 0 \<or> f (xs ! parent k) \<le> f (xs ! k) \<Longrightarrow> down_ok f xs k"
  unfolding hole_ok_def down_ok_def by (metis less_irrefl)

lemma heap_ok_hole:
  assumes h: "heap_ok f xs" and eq: "length ys \<le> length xs" "\<And>i. i < length ys \<Longrightarrow> i \<noteq> k \<Longrightarrow> ys ! i = xs ! i"
  shows "hole_ok f ys k"
proof -
  have p: "f (xs ! parent i) \<le> f (xs ! i)" if "0 < i" "i < length ys" for i
    using h that eq(1) by (simp add: heap_ok_def)
  have "f (ys ! parent k) \<le> f (ys ! i)" if i: "0 < k" "0 < i" "i < length ys" "parent i = k" for i
  proof -
    have k: "k < i" "parent k < k" using i parent_less by auto
    have "f (xs ! parent k) \<le> f (xs ! k)" using p[of k] i k by simp
    also have "\<dots> \<le> f (xs ! i)" using p[of i] i by simp
    finally show ?thesis using i k by (simp add: eq(2))
  qed
  moreover have "f (ys ! parent i) \<le> f (ys ! i)"
    if i: "0 < i" "i < length ys" "i \<noteq> k" "parent i \<noteq> k" for i
    using p[OF i(1,2)] i parent_less[OF i(1)] by (simp add: eq(2))
  ultimately show ?thesis by (simp add: hole_ok_def bridged_def)
qed

lemma heap_ok_snoc:
  assumes "heap_ok f xs"
  shows "up_ok f (xs @ [x]) (length xs)"
proof -
  have "f ((xs @ [x]) ! parent i) \<le> f ((xs @ [x]) ! i)" if i: "0 < i" "i < length xs" for i
  proof -
    have "parent i < length xs" using parent_less[OF i(1)] i(2) by simp
    then show ?thesis using assms i by (simp add: heap_ok_def nth_append)
  qed
  moreover have "\<not> (0 < i \<and> i < length (xs @ [x]) \<and> parent i = length xs)" for i
  proof
    assume a: "0 < i \<and> i < length (xs @ [x]) \<and> parent i = length xs"
    then have "parent i < i" by (intro parent_less) simp
    with a show False by (metis length_append_singleton not_less_eq)
  qed
  ultimately show ?thesis unfolding up_ok_def bridged_def by (metis length_append_singleton less_SucE)
qed

end
