(* ===== verification/Scheduler.thy ===== *)
theory Scheduler
  imports Arena BinHeap
begin

text \<open>
  The discrete-event scheduler of \<open>include/mog/Scheduler.hpp\<close>: a binary heap of (timestamp,
  sequence, slot) entries over generational slots, each slot holding its heap position. Positions
  are 32-bit in the code, so the child indices of \<open>sift_down\<close> wrap at \<open>2 ^ 32\<close> in the model too.
  The memory above the watermark is the argument \<open>raw\<close> of the constructor.
\<close>

section \<open>State\<close>

record heap_entry =
  he_ts :: u64
  he_seq :: u64
  he_slot :: nat

record 'a event_slot =
  es_value :: 'a
  es_seq :: u64
  es_generation :: u32
  es_heap_pos :: nat
  es_free_next :: nat
  es_live :: bool

record 'a scheduler =
  sc_capacity :: nat
  sc_slots :: "'a event_slot list"
  sc_watermark :: nat
  sc_free_head :: nat
  sc_next_seq :: u64
  sc_heap :: "heap_entry list"

definition fresh_slot :: "'a \<Rightarrow> 'a event_slot" where
  "fresh_slot v = \<lparr> es_value = v, es_seq = 0, es_generation = 0, es_heap_pos = 0,
     es_free_next = kNullIndex, es_live = False \<rparr>"

definition sched_new :: "nat \<Rightarrow> 'a event_slot list \<Rightarrow> 'a scheduler option" where
  "sched_new capacity raw = do {
     mog_pre (capacity > 0 \<and> capacity < kNullIndex);
     Some \<lparr> sc_capacity = capacity, sc_slots = take capacity raw, sc_watermark = 0,
            sc_free_head = kNullIndex, sc_next_seq = 0, sc_heap = [] \<rparr>
   }"

definition sched_size :: "'a scheduler \<Rightarrow> nat" where
  "sched_size q = length (sc_heap q)"

definition sched_empty :: "'a scheduler \<Rightarrow> bool" where
  "sched_empty q = (sc_heap q = [])"

section \<open>Heap maintenance\<close>

definition entry_less :: "heap_entry \<Rightarrow> heap_entry \<Rightarrow> bool" where
  "entry_less a b = (he_ts a < he_ts b \<or> (he_ts a = he_ts b \<and> he_seq a < he_seq b))"

definition swap_entries :: "nat \<Rightarrow> nat \<Rightarrow> 'a scheduler \<Rightarrow> 'a scheduler" where
  "swap_entries a b q =
     (let tmp = sc_heap q ! a;
          heap = (sc_heap q)[a := sc_heap q ! b];
          heap = heap[b := tmp];
          sa = he_slot (heap ! a);
          slots = (sc_slots q)[sa := (sc_slots q ! sa)\<lparr> es_heap_pos := a \<rparr>];
          sb = he_slot (heap ! b);
          slots = slots[sb := (slots ! sb)\<lparr> es_heap_pos := b \<rparr>]
      in q\<lparr> sc_heap := heap, sc_slots := slots \<rparr>)"

function sift_up :: "nat \<Rightarrow> 'a scheduler \<Rightarrow> 'a scheduler" where
  "sift_up i q =
     (if i > 0 \<and> entry_less (sc_heap q ! i) (sc_heap q ! ((i - 1) div 2))
      then sift_up ((i - 1) div 2) (swap_entries i ((i - 1) div 2) q) else q)"
  by pat_completeness auto
termination
  by (relation "measure fst") auto

declare sift_up.simps [simp del]

partial_function (option) sift_down :: "nat \<Rightarrow> 'a scheduler \<Rightarrow> 'a scheduler option" where
  [code]: "sift_down i q =
     (let n = length (sc_heap q);
          l = (2 * i + 1) mod 2 ^ 32;
          r = (2 * i + 2) mod 2 ^ 32;
          best = i;
          best = (if l < n \<and> entry_less (sc_heap q ! l) (sc_heap q ! best) then l else best);
          best = (if r < n \<and> entry_less (sc_heap q ! r) (sc_heap q ! best) then r else best)
      in if best = i then Some q else sift_down best (swap_entries i best q))"

definition remove_at :: "nat \<Rightarrow> 'a scheduler \<Rightarrow> 'a scheduler option" where
  "remove_at pos q =
     (let last = length (sc_heap q) - 1;
          q = swap_entries pos last q;
          q = q\<lparr> sc_heap := butlast (sc_heap q) \<rparr>
      in if pos \<ge> length (sc_heap q) then Some q
         else if pos > 0 \<and> entry_less (sc_heap q ! pos) (sc_heap q ! ((pos - 1) div 2))
              then Some (sift_up pos q)
              else sift_down pos q)"

definition free_slot :: "nat \<Rightarrow> 'a scheduler \<Rightarrow> 'a scheduler" where
  "free_slot idx q =
     (let s = sc_slots q ! idx
      in q\<lparr> sc_slots := (sc_slots q)[idx := s\<lparr> es_live := False,
              es_generation := es_generation s + 1, es_free_next := sc_free_head q \<rparr>],
            sc_free_head := idx \<rparr>)"

section \<open>Operations\<close>

text \<open>Claims a slot: the next one above the watermark, constructed on the spot, or the free head.\<close>

definition claim_slot :: "'a \<Rightarrow> 'a scheduler \<Rightarrow> (nat \<times> 'a scheduler) option" where
  "claim_slot v q =
     (let idx = sc_free_head q
      in if idx = kNullIndex then do {
           mog_pre (sc_watermark q < sc_capacity q);
           let idx = sc_watermark q;
           Some (idx, q\<lparr> sc_watermark := idx + 1, sc_slots := (sc_slots q)[idx := fresh_slot v] \<rparr>)
         }
         else Some (idx, q\<lparr> sc_free_head := es_free_next (sc_slots q ! idx) \<rparr>))"

definition sched_push :: "u64 \<Rightarrow> 'a \<Rightarrow> 'a scheduler \<Rightarrow> (gen_handle \<times> 'a scheduler) option" where
  "sched_push ts v q = do {
     mog_pre (length (sc_heap q) < sc_capacity q);
     (idx, q) \<leftarrow> claim_slot v q;
     let s = (sc_slots q ! idx)\<lparr> es_value := v, es_seq := sc_next_seq q, es_live := True,
                                 es_heap_pos := length (sc_heap q) \<rparr>;
     let q = q\<lparr> sc_slots := (sc_slots q)[idx := s], sc_next_seq := sc_next_seq q + 1,
                sc_heap := sc_heap q @ [\<lparr> he_ts = ts, he_seq = es_seq s, he_slot = idx \<rparr>] \<rparr>;
     Some (\<lparr> h_index = idx, h_generation = es_generation s \<rparr>, sift_up (es_heap_pos s) q)
   }"

definition sched_cancel :: "gen_handle \<Rightarrow> 'a scheduler \<Rightarrow> (bool \<times> 'a scheduler) option" where
  "sched_cancel h q =
     (if h_index h \<ge> sc_capacity q then Some (False, q)
      else let s = sc_slots q ! h_index h
           in if \<not> es_live s \<or> es_generation s \<noteq> h_generation h then Some (False, q)
              else do {
                q \<leftarrow> remove_at (es_heap_pos s) q;
                Some (True, free_slot (h_index h) q)
              })"

definition peek_min :: "'a scheduler \<Rightarrow> 'a option" where
  "peek_min q = do {
     mog_pre (sc_heap q \<noteq> []);
     Some (es_value (sc_slots q ! he_slot (sc_heap q ! 0)))
   }"

definition peek_min_ts :: "'a scheduler \<Rightarrow> u64 option" where
  "peek_min_ts q = do { mog_pre (sc_heap q \<noteq> []); Some (he_ts (sc_heap q ! 0)) }"

definition pop_min :: "'a scheduler \<Rightarrow> ('a \<times> 'a scheduler) option" where
  "pop_min q = do {
     mog_pre (sc_heap q \<noteq> []);
     let root = sc_heap q ! 0;
     let out = es_value (sc_slots q ! he_slot root);
     q \<leftarrow> remove_at 0 q;
     let q = free_slot (he_slot root) q;
     mog_pre (sc_heap q = [] \<or> \<not> entry_less (sc_heap q ! 0) root);
     Some (out, q)
   }"

definition cleared_slot :: "nat \<Rightarrow> nat \<Rightarrow> 'a event_slot \<Rightarrow> 'a event_slot" where
  "cleared_slot capacity i s =
     s\<lparr> es_generation := (if es_live s then es_generation s + 1 else es_generation s),
        es_live := False,
        es_free_next := (if i + 1 < capacity then i + 1 else kNullIndex) \<rparr>"

definition sched_clear :: "'a \<Rightarrow> 'a scheduler \<Rightarrow> 'a scheduler" where
  "sched_clear dflt q =
     (let wm = sc_watermark q;
          slots = map (\<lambda>i. if wm \<le> i then fresh_slot dflt else sc_slots q ! i) [0..<sc_capacity q]
      in q\<lparr> sc_watermark := sc_capacity q, sc_heap := [],
            sc_slots := map (\<lambda>i. cleared_slot (sc_capacity q) i (slots ! i)) [0..<sc_capacity q],
            sc_free_head := 0, sc_next_seq := 0 \<rparr>)"

section \<open>Self-check\<close>

definition audit_entry :: "'a scheduler \<Rightarrow> nat \<Rightarrow> bool" where
  "audit_entry q i =
     (let e = sc_heap q ! i; s = sc_slots q ! he_slot e
      in he_slot e < sc_capacity q \<and> es_live s \<and> es_heap_pos s = i \<and> es_seq s = he_seq e \<and>
         (i = 0 \<or> \<not> entry_less e (sc_heap q ! ((i - 1) div 2))))"

text \<open>The walk of the free list; \<open>None\<close> is a cycle, \<open>Some None\<close> a malformed list.\<close>

partial_function (option) audit_free :: "'a scheduler \<Rightarrow> nat \<Rightarrow> nat \<Rightarrow> nat option option" where
  [code]: "audit_free q cursor n =
     (if cursor = kNullIndex then Some (Some n)
      else if cursor \<ge> sc_capacity q \<or> es_live (sc_slots q ! cursor) then Some None
      else audit_free q (es_free_next (sc_slots q ! cursor)) (n + 1))"

definition sched_audit :: "'a scheduler \<Rightarrow> bool option" where
  "sched_audit q =
     (if length (sc_heap q) > sc_capacity q then Some False
      else if \<not> (\<forall>i\<in>{..<length (sc_heap q)}. audit_entry q i) then Some False
      else do {
        r \<leftarrow> audit_free q (sc_free_head q) 0;
        Some (case r of None \<Rightarrow> False
              | Some free_len \<Rightarrow>
                  free_len + (sc_capacity q - sc_watermark q) = sc_capacity q - length (sc_heap q))
      })"

end
