(* ===== verification/SchedHeap.thy ===== *)
theory SchedHeap
  imports Scheduler "HOL-Library.Multiset"
begin

text \<open>
  The heap side of the scheduler: the position backlinks survive every exchange, the sifts restore
  the heap order, and \<open>remove_at\<close> detaches exactly one entry. \<open>sched_links q X\<close> says that the heap
  entries and the live slots outside \<open>X\<close> point at each other; \<open>sched_frame\<close> that two states agree
  but for the heap and the positions.
\<close>

section \<open>Keys, links, frame\<close>

definition entry_key :: "heap_entry \<Rightarrow> nat" where
  "entry_key e = unat (he_ts e) * 2 ^ 64 + unat (he_seq e)"

lemma entry_less_key: "entry_less a b \<longleftrightarrow> entry_key a < entry_key b"
proof -
  have s: "unat (he_seq e) < 2 ^ 64" for e
  proof -
    have "unat (he_seq e) < 2 ^ LENGTH(64)" by (rule unsigned_less)
    then show ?thesis by simp
  qed
  have e: "he_ts a = he_ts b \<longleftrightarrow> unat (he_ts a) = unat (he_ts b)" by (simp add: word_unat_eq_iff)
  show ?thesis
    unfolding entry_less_def entry_key_def e word_less_nat_alt using s[of a] s[of b] by auto
qed

lemma entry_key_inj: "entry_key a = entry_key b \<Longrightarrow> he_ts a = he_ts b \<and> he_seq a = he_seq b"
  using entry_less_key[of a b] entry_less_key[of b a] by (auto simp: entry_less_def)

definition sched_links :: "'a scheduler \<Rightarrow> nat set \<Rightarrow> bool" where
  "sched_links q X \<longleftrightarrow>
     (\<forall>p < length (sc_heap q). he_slot (sc_heap q ! p) < sc_watermark q \<and> he_slot (sc_heap q ! p) \<notin> X \<and>
        es_live (sc_slots q ! he_slot (sc_heap q ! p)) \<and>
        es_heap_pos (sc_slots q ! he_slot (sc_heap q ! p)) = p \<and>
        es_seq (sc_slots q ! he_slot (sc_heap q ! p)) = he_seq (sc_heap q ! p)) \<and>
     (\<forall>s < sc_watermark q. es_live (sc_slots q ! s) \<and> s \<notin> X \<longrightarrow>
        es_heap_pos (sc_slots q ! s) < length (sc_heap q) \<and>
        he_slot (sc_heap q ! es_heap_pos (sc_slots q ! s)) = s)"

definition sched_frame :: "'a scheduler \<Rightarrow> 'a scheduler \<Rightarrow> bool" where
  "sched_frame q q' \<longleftrightarrow>
     sc_capacity q' = sc_capacity q \<and> sc_watermark q' = sc_watermark q \<and>
     sc_free_head q' = sc_free_head q \<and> sc_next_seq q' = sc_next_seq q \<and>
     length (sc_slots q') = length (sc_slots q) \<and>
     (\<forall>s. es_live (sc_slots q' ! s) = es_live (sc_slots q ! s) \<and>
        es_generation (sc_slots q' ! s) = es_generation (sc_slots q ! s) \<and>
        es_value (sc_slots q' ! s) = es_value (sc_slots q ! s) \<and>
        es_seq (sc_slots q' ! s) = es_seq (sc_slots q ! s) \<and>
        es_free_next (sc_slots q' ! s) = es_free_next (sc_slots q ! s))"

lemma sched_frame_refl [simp]: "sched_frame q q"
  by (simp add: sched_frame_def)

lemma sched_frame_trans: "sched_frame q q' \<Longrightarrow> sched_frame q' q'' \<Longrightarrow> sched_frame q q''"
  by (simp add: sched_frame_def)

lemma sched_links_pos:
  assumes "sched_links q X" and "p < length (sc_heap q)"
  shows "he_slot (sc_heap q ! p) < sc_watermark q" "he_slot (sc_heap q ! p) \<notin> X"
    "es_live (sc_slots q ! he_slot (sc_heap q ! p))"
    "es_heap_pos (sc_slots q ! he_slot (sc_heap q ! p)) = p"
    "es_seq (sc_slots q ! he_slot (sc_heap q ! p)) = he_seq (sc_heap q ! p)"
  using assms by (auto simp: sched_links_def)

lemma sched_links_slot:
  assumes "sched_links q X" and "s < sc_watermark q" "es_live (sc_slots q ! s)" "s \<notin> X"
  shows "es_heap_pos (sc_slots q ! s) < length (sc_heap q)"
    "he_slot (sc_heap q ! es_heap_pos (sc_slots q ! s)) = s"
  using assms by (auto simp: sched_links_def)

lemma sched_links_inj:
  assumes "sched_links q X" and "p < length (sc_heap q)" "r < length (sc_heap q)"
    and "he_slot (sc_heap q ! p) = he_slot (sc_heap q ! r)"
  shows "p = r"
  using sched_links_pos(4)[OF assms(1,2)] sched_links_pos(4)[OF assms(1,3)] assms(4) by metis

section \<open>One exchange\<close>

lemma swap_entries_correct:
  assumes l: "sched_links q X" and a: "a < length (sc_heap q)" and b: "b < length (sc_heap q)"
    and w: "sc_watermark q \<le> length (sc_slots q)"
  shows "sched_links (swap_entries a b q) X" "sched_frame q (swap_entries a b q)"
    "sc_heap (swap_entries a b q) = list_swap a b (sc_heap q)"
proof -
  let ?h = "sc_heap q" and ?q = "swap_entries a b q"
  let ?sa = "he_slot (?h ! a)" and ?sb = "he_slot (?h ! b)"
  show h: "sc_heap ?q = list_swap a b ?h"
    by (simp add: swap_entries_def list_swap_def Let_def)
  have lt: "?sa < length (sc_slots q)" "?sb < length (sc_slots q)"
    using sched_links_pos(1)[OF l a] sched_links_pos(1)[OF l b] w by auto
  have sl: "sc_slots ?q ! s = (if s = ?sa then (sc_slots q ! s)\<lparr>es_heap_pos := b\<rparr>
      else if s = ?sb then (sc_slots q ! s)\<lparr>es_heap_pos := a\<rparr> else sc_slots q ! s)" for s
    using a b lt by (auto simp: swap_entries_def Let_def nth_list_update)
  have len: "length (sc_slots ?q) = length (sc_slots q)"
    by (simp add: swap_entries_def Let_def)
  have core: "sc_capacity ?q = sc_capacity q" "sc_watermark ?q = sc_watermark q"
    "sc_free_head ?q = sc_free_head q" "sc_next_seq ?q = sc_next_seq q"
    by (simp_all add: swap_entries_def Let_def)
  show "sched_frame q ?q" by (simp add: sched_frame_def core len sl)
  have n: "list_swap a b ?h ! i = (if i = b then ?h ! a else if i = a then ?h ! b else ?h ! i)" for i
    by (rule nth_list_swap[OF a b])
  show "sched_links ?q X"
    unfolding sched_links_def
  proof (intro conjI allI impI, goal_cases)
    case (6 s)
    with core sl[of s] have s: "s < sc_watermark q" "es_live (sc_slots q ! s)" "s \<notin> X" by (auto split: if_splits)
    show ?case using sched_links_slot(1)[OF l s] a b by (auto simp: h sl)
  next
    case (7 s)
    with core sl[of s] have s: "s < sc_watermark q" "es_live (sc_slots q ! s)" "s \<notin> X" by (auto split: if_splits)
    show ?case
      using sched_links_slot[OF l s] sched_links_pos(4)[OF l a] sched_links_pos(4)[OF l b]
      by (auto simp: h sl n)
  next
    case (4 p)
    then have p: "p < length ?h" by (simp add: h)
    show ?case
      using sched_links_inj[OF l p a] sched_links_inj[OF l p b] sched_links_inj[OF l a b]
        sched_links_pos(4)[OF l p]
      by (auto simp: h sl n)
  next
    case (5 p)
    then have p: "p < length ?h" by (simp add: h)
    show ?case
      using sched_links_inj[OF l p a] sched_links_inj[OF l p b] sched_links_inj[OF l a b]
        sched_links_pos(5)[OF l p] sched_links_pos(5)[OF l a] sched_links_pos(5)[OF l b]
      by (auto simp: h sl n)
  qed (use sched_links_pos[OF l] a b in \<open>auto simp: h sl n core\<close>)
qed

section \<open>Sifts\<close>

definition sifted :: "'a scheduler \<Rightarrow> nat set \<Rightarrow> 'a scheduler \<Rightarrow> bool" where
  "sifted q X q' \<longleftrightarrow> sched_links q' X \<and> sched_frame q q' \<and> heap_ok entry_key (sc_heap q') \<and>
     mset (sc_heap q') = mset (sc_heap q)"

lemma mset_list_swap: "a < length xs \<Longrightarrow> b < length xs \<Longrightarrow> mset (list_swap a b xs) = mset xs"
  by (simp add: list_swap_def mset_swap)

lemma sifted_step:
  assumes "sched_frame q q1" and "mset (sc_heap q1) = mset (sc_heap q)" and "sifted q1 X q'"
  shows "sifted q X q'"
  using assms sched_frame_trans by (auto simp: sifted_def)

lemma sift_up_correct:
  assumes "sched_links q X" and "up_ok entry_key (sc_heap q) i" and "i < length (sc_heap q)"
    and "sc_watermark q \<le> length (sc_slots q)"
  shows "sifted q X (sift_up i q)"
  using assms
proof (induction i q rule: sift_up.induct)
  case (1 i q)
  note p = parent_def[of i, symmetric]
  show ?case
  proof (cases "i > 0 \<and> entry_less (sc_heap q ! i) (sc_heap q ! parent i)")
    case True
    let ?q = "swap_entries i (parent i) q"
    have pl: "parent i < length (sc_heap q)" using parent_less[of i] True 1(4) by linarith
    note s = swap_entries_correct[OF 1(2,4) pl 1(5)]
    have w: "sc_watermark ?q \<le> length (sc_slots ?q)" using s(2) 1(5) by (simp add: sched_frame_def)
    have "up_ok entry_key (sc_heap ?q) (parent i)"
      using up_ok_step[OF 1(3) _ 1(4)] True by (simp add: s(3) entry_less_key)
    with 1(1)[unfolded p, OF True s(1)] pl w have "sifted ?q X (sift_up (parent i) ?q)" by (simp add: s(3))
    with True show ?thesis
      by (subst sift_up.simps, unfold p) (simp add: sifted_step[OF s(2)] s(3) mset_list_swap[OF 1(4) pl])
  next
    case False
    then have "heap_ok entry_key (sc_heap q)"
      using up_ok_stop[OF 1(3)] by (auto simp: entry_less_key)
    with False 1(2) show ?thesis by (subst sift_up.simps, unfold p) (auto simp: sifted_def)
  qed
qed

lemma sift_down_correct:
  assumes "sched_links q X" and "down_ok entry_key (sc_heap q) i" and "i < length (sc_heap q)"
    and "sc_watermark q \<le> length (sc_slots q)" and "length (sc_heap q) < 2 ^ 31"
  shows "\<exists>q'. sift_down i q = Some q' \<and> sifted q X q'"
  using assms
proof (induction "length (sc_heap q) - i" arbitrary: i q rule: less_induct)
  case less
  let ?h = "sc_heap q" and ?l = "2 * i + 1" and ?r = "2 * i + 2"
  have m: "?l mod 2 ^ 32 = ?l" "?r mod 2 ^ 32 = ?r" using less.prems(3,5) by auto
  define b1 where "b1 = (if ?l < length ?h \<and> entry_less (?h ! ?l) (?h ! i) then ?l else i)"
  define b where "b = (if ?r < length ?h \<and> entry_less (?h ! ?r) (?h ! b1) then ?r else b1)"
  have ev: "sift_down i q = (if b = i then Some q else sift_down b (swap_entries i b q))"
    unfolding b_def b1_def by (subst sift_down.simps) (simp only: Let_def m)
  have le: "entry_key (?h ! b) \<le> entry_key (?h ! i)"
    "?l < length ?h \<longrightarrow> entry_key (?h ! b) \<le> entry_key (?h ! ?l)"
    "?r < length ?h \<longrightarrow> entry_key (?h ! b) \<le> entry_key (?h ! ?r)"
    by (auto simp: b_def b1_def entry_less_key)
  show ?case
  proof (cases "b = i")
    case True
    have "heap_ok entry_key ?h"
      using le True by (intro down_ok_stop[OF less.prems(2)]) (auto simp: parent_iff)
    then show ?thesis using True less.prems(1) ev by (simp add: sifted_def)
  next
    case False
    have b: "b < length ?h" "parent b = i" "i < b" "entry_key (?h ! b) < entry_key (?h ! i)"
      using False by (auto simp: b_def b1_def entry_less_key parent_def split: if_splits)
    let ?q = "swap_entries i b q"
    note s = swap_entries_correct[OF less.prems(1,3) b(1) less.prems(4)]
    have w: "sc_watermark ?q \<le> length (sc_slots ?q)" using s(2) less.prems(4) by (simp add: sched_frame_def)
    have "down_ok entry_key (sc_heap ?q) b"
      unfolding s(3)
      by (rule down_ok_step[OF less.prems(2) _ b(1,2,4)]) (use b(3) le parent_iff in auto)
    moreover have "length (sc_heap ?q) - b < length ?h - i" using b(1,3) by (simp add: s(3) diff_less_mono2)
    ultimately obtain q' where "sift_down b ?q = Some q'" "sifted ?q X q'"
      using less.hyps[OF _ s(1) _ _ w] b(1) less.prems(5) by (auto simp: s(3))
    with False show ?thesis
      by (auto simp: ev intro!: sifted_step[OF s(2)] simp: s(3) mset_list_swap[OF less.prems(3) b(1)])
  qed
qed

section \<open>Removal\<close>

lemma remove_at_correct:
  assumes l: "sched_links q X" and h: "heap_ok entry_key (sc_heap q)" and p: "pos < length (sc_heap q)"
    and w: "sc_watermark q \<le> length (sc_slots q)" and cap: "length (sc_heap q) < 2 ^ 31"
  shows "\<exists>q'. remove_at pos q = Some q' \<and> sched_links q' (insert (he_slot (sc_heap q ! pos)) X) \<and>
     sched_frame q q' \<and> heap_ok entry_key (sc_heap q') \<and>
     mset (sc_heap q') + {# sc_heap q ! pos #} = mset (sc_heap q)"
proof -
  let ?h = "sc_heap q"
  define last where "last = length (sc_heap q) - 1"
  let ?X = "insert (he_slot (?h ! pos)) X"
  have lt: "last < length ?h" using p by (simp add: last_def)
  note s = swap_entries_correct[OF l p lt w]
  define q1 where "q1 = (swap_entries pos last q)\<lparr>sc_heap := butlast (sc_heap (swap_entries pos last q))\<rparr>"
  have h1: "sc_heap q1 = butlast (list_swap pos last ?h)" by (simp add: q1_def s(3))
  have len1: "length (sc_heap q1) = last" by (simp add: h1 last_def)
  have nth1: "i < last \<Longrightarrow> sc_heap q1 ! i = list_swap pos last ?h ! i" for i
    by (simp add: h1 nth_butlast last_def)
  have ls: "list_swap pos last ?h ! last = ?h ! pos" using p lt by (simp add: nth_list_swap)
  have nz: "list_swap pos last ?h \<noteq> []" using p by (auto simp: list_swap_def)
  have "List.last (list_swap pos last ?h) = ?h ! pos" using ls nz by (simp add: last_conv_nth last_def)
  then have "list_swap pos last ?h = sc_heap q1 @ [?h ! pos]"
    using append_butlast_last_id[OF nz] h1 by metis
  then have ms: "mset (sc_heap q1) + {# ?h ! pos #} = mset ?h"
    using mset_list_swap[OF p lt] by (metis mset_append mset_single_iff mset.simps)
  have f1: "sched_frame q q1" using s(2) by (simp add: q1_def sched_frame_def)
  have w1: "sc_watermark q1 \<le> length (sc_slots q1)" using f1 w by (simp add: sched_frame_def)
  have l1: "sched_links q1 ?X"
  proof -
    let ?q = "swap_entries pos last q"
    have eq: "sc_slots q1 = sc_slots ?q" "sc_watermark q1 = sc_watermark ?q" by (simp_all add: q1_def)
    have lenq: "length (sc_heap ?q) = length ?h" by (simp add: s(3))
    have lastq: "last < length (sc_heap ?q)" using lt lenq by simp
    have top: "sc_heap ?q ! last = ?h ! pos" using ls by (simp add: s(3))
    have nq: "i < last \<Longrightarrow> sc_heap q1 ! i = sc_heap ?q ! i" for i by (simp add: nth1 s(3))
    note pos = sched_links_pos[OF s(1)] and slot = sched_links_slot[OF s(1)]
    show ?thesis
      unfolding sched_links_def
    proof (intro conjI allI impI, goal_cases)
      case (2 i)
      then have i: "i < last" by (simp add: len1)
      then have "he_slot (sc_heap ?q ! i) \<noteq> he_slot (sc_heap ?q ! last)"
        using sched_links_inj[OF s(1) _ lastq, of i] lenq lt by force
      then show ?case using i pos(2)[of i] lenq top lt by (simp add: nq)
    next
      case (6 i)
      then have i: "es_heap_pos (sc_slots ?q ! i) < length ?h" "he_slot (sc_heap ?q ! es_heap_pos (sc_slots ?q ! i)) = i"
        using slot[of i] lenq by (auto simp: eq)
      have "es_heap_pos (sc_slots ?q ! i) \<noteq> last" using 6 i(2) top by auto
      then show ?case using i(1) lt by (simp add: len1 eq last_def)
    next
      case (7 i)
      then have i: "es_heap_pos (sc_slots ?q ! i) < length ?h" "he_slot (sc_heap ?q ! es_heap_pos (sc_slots ?q ! i)) = i"
        using slot[of i] lenq by (auto simp: eq)
      have "es_heap_pos (sc_slots ?q ! i) \<noteq> last" using 7 i(2) top by auto
      then show ?case using i lt by (simp add: nq eq last_def)
    qed (use pos lenq lt in \<open>auto simp: len1 nq eq\<close>)
  qed
  have rm: "remove_at pos q = (if pos \<ge> length (sc_heap q1) then Some q1
      else if pos > 0 \<and> entry_less (sc_heap q1 ! pos) (sc_heap q1 ! parent pos)
      then Some (sift_up pos q1) else sift_down pos q1)"
    by (simp add: remove_at_def q1_def last_def Let_def parent_def)
  have keep: "sc_heap q1 ! i = ?h ! i" if "i < length (sc_heap q1)" "i \<noteq> pos" for i
    using that p lt by (simp add: nth1 len1 nth_list_swap)
  have hole: "hole_ok entry_key (sc_heap q1) pos"
    by (rule heap_ok_hole[OF h _ keep]) (simp_all add: len1 last_def)
  have fin: ?thesis if "remove_at pos q = Some q'" "sifted q1 ?X q'" for q'
    using that ms sched_frame_trans[OF f1] by (auto simp: sifted_def)
  show ?thesis
  proof (cases "pos < length (sc_heap q1)")
    case False
    then have "pos = last" using p len1 by (simp add: last_def)
    have same: "sc_heap q1 ! i = ?h ! i" if "i < length (sc_heap q1)" for i
      using keep that \<open>pos = last\<close> len1 by auto
    have "entry_key (sc_heap q1 ! parent i) \<le> entry_key (sc_heap q1 ! i)" if i: "0 < i" "i < length (sc_heap q1)" for i
    proof -
      have "parent i < length (sc_heap q1)" using parent_less[OF i(1)] i(2) by (rule less_trans)
      then show ?thesis using h i len1 lt same by (simp add: heap_ok_def)
    qed
    then have "heap_ok entry_key (sc_heap q1)" by (simp add: heap_ok_def)
    then show ?thesis using fin[of q1] False l1 by (simp add: rm sifted_def)
  next
    case True
    show ?thesis
    proof (cases "pos > 0 \<and> entry_less (sc_heap q1 ! pos) (sc_heap q1 ! parent pos)")
      case up: True
      then have "up_ok entry_key (sc_heap q1) pos"
        using hole_ok_up[OF hole] by (simp add: entry_less_key)
      from sift_up_correct[OF l1 this True w1] show ?thesis using fin True up by (simp add: rm)
    next
      case down: False
      then have "down_ok entry_key (sc_heap q1) pos"
        using hole_ok_down[OF hole] by (auto simp: entry_less_key)
      moreover have "length (sc_heap q1) < 2 ^ 31" using cap len1 lt by simp
      ultimately obtain q' where q': "sift_down pos q1 = Some q'" "sifted q1 ?X q'"
        using sift_down_correct[OF l1 _ True w1] by blast
      then have "remove_at pos q = Some q'" using True down by (auto simp: rm)
      then show ?thesis using q'(2) by (rule fin)
    qed
  qed
qed

end
