(* ===== verification/SchedProofs.thy ===== *)
theory SchedProofs
  imports SchedHeap
begin

text \<open>
  The scheduler as a map from pending slots to (generation, timestamp, sequence, event):
  the invariant, and each operation on every branch.
\<close>

section \<open>Invariant and abstraction\<close>

fun event_free_path :: "'a event_slot list \<Rightarrow> nat \<Rightarrow> nat list \<Rightarrow> bool" where
  "event_free_path sl i [] \<longleftrightarrow> i = kNullIndex"
| "event_free_path sl i (x # xs) \<longleftrightarrow> i = x \<and> x \<noteq> kNullIndex \<and> event_free_path sl (es_free_next (sl ! x)) xs"

definition free_events :: "'a scheduler \<Rightarrow> nat set" where
  "free_events q = {i. i < sc_watermark q \<and> \<not> es_live (sc_slots q ! i)}"

definition slots_wf :: "'a scheduler \<Rightarrow> bool" where
  "slots_wf q \<longleftrightarrow> sc_capacity q < 2 ^ 31 \<and> length (sc_slots q) = sc_capacity q \<and>
     sc_watermark q \<le> sc_capacity q \<and>
     (\<exists>fs. event_free_path (sc_slots q) (sc_free_head q) fs \<and> distinct fs \<and> set fs = free_events q)"

definition seqs_wf :: "'a scheduler \<Rightarrow> bool" where
  "seqs_wf q \<longleftrightarrow> (\<forall>e \<in> set (sc_heap q). he_seq e < sc_next_seq q) \<and> distinct (map he_seq (sc_heap q))"

definition sched_inv :: "'a scheduler \<Rightarrow> bool" where
  "sched_inv q \<longleftrightarrow> slots_wf q \<and> seqs_wf q \<and> sched_links q {} \<and> heap_ok entry_key (sc_heap q)"

definition pending_but :: "'a scheduler \<Rightarrow> nat set \<Rightarrow> nat \<rightharpoonup> u32 \<times> u64 \<times> u64 \<times> 'a" where
  "pending_but q X s =
     (if s < sc_watermark q \<and> es_live (sc_slots q ! s) \<and> s \<notin> X
      then let sl = sc_slots q ! s
           in Some (es_generation sl, he_ts (sc_heap q ! es_heap_pos sl), es_seq sl, es_value sl)
      else None)"

definition pending :: "'a scheduler \<Rightarrow> nat \<rightharpoonup> u32 \<times> u64 \<times> u64 \<times> 'a" where
  "pending q = pending_but q {}"

lemma event_free_path_cong:
  "(\<And>x. x \<in> set xs \<Longrightarrow> es_free_next (sl ! x) = es_free_next (sl' ! x)) \<Longrightarrow>
     event_free_path sl i xs = event_free_path sl' i xs"
  by (induction xs arbitrary: i) auto

lemma sched_invD [wf_dests]:
  assumes "sched_inv q"
  shows "slots_wf q" "seqs_wf q" "sched_links q {}" "heap_ok entry_key (sc_heap q)"
  using assms by (simp_all add: sched_inv_def)

lemma slots_wfD:
  assumes "slots_wf q"
  shows "sc_capacity q < 2 ^ 31" "length (sc_slots q) = sc_capacity q" "sc_watermark q \<le> sc_capacity q"
    "sc_watermark q \<le> length (sc_slots q)" "sc_capacity q < kNullIndex"
  using assms by (simp_all add: slots_wf_def kNullIndex_def)

lemma heap_slots:
  assumes "sched_links q {}"
  shows "distinct (map he_slot (sc_heap q))"
    "he_slot ` set (sc_heap q) = {s. s < sc_watermark q \<and> es_live (sc_slots q ! s)}"
proof -
  show "distinct (map he_slot (sc_heap q))"
    using sched_links_inj[OF assms] by (auto simp: distinct_conv_nth)
  have "s \<in> he_slot ` set (sc_heap q)" if "s < sc_watermark q" "es_live (sc_slots q ! s)" for s
    using sched_links_slot[OF assms that] by (metis empty_iff image_eqI nth_mem)
  then show "he_slot ` set (sc_heap q) = {s. s < sc_watermark q \<and> es_live (sc_slots q ! s)}"
    using sched_links_pos(1,3)[OF assms] by (auto simp: in_set_conv_nth)
qed

lemma heap_size_le:
  assumes "sched_links q {}"
  shows "length (sc_heap q) = card {s. s < sc_watermark q \<and> es_live (sc_slots q ! s)}"
    "length (sc_heap q) \<le> sc_watermark q"
proof -
  show l: "length (sc_heap q) = card {s. s < sc_watermark q \<and> es_live (sc_slots q ! s)}"
    using heap_slots[OF assms] distinct_card[of "map he_slot (sc_heap q)"] by simp
  have "card {s. s < sc_watermark q \<and> es_live (sc_slots q ! s)} \<le> card {..<sc_watermark q}"
    by (intro card_mono) auto
  then show "length (sc_heap q) \<le> sc_watermark q" using l by simp
qed

lemma heap_small:
  assumes "sched_inv q"
  shows "length (sc_heap q) < 2 ^ 31"
  using heap_size_le(2)[OF sched_invD(3)[OF assms]] slots_wfD[OF sched_invD(1)[OF assms]] by linarith

lemma pending_entry:
  assumes "sched_links q X" and "e \<in> set (sc_heap q)"
  shows "pending_but q X (he_slot e) =
     Some (es_generation (sc_slots q ! he_slot e), he_ts e, he_seq e, es_value (sc_slots q ! he_slot e))"
proof -
  from assms(2) obtain p where p: "p < length (sc_heap q)" "e = sc_heap q ! p" by (auto simp: in_set_conv_nth)
  show ?thesis using sched_links_pos[OF assms(1) p(1)] p(2) by (simp add: pending_but_def Let_def)
qed

lemma pending_has_entry:
  assumes "sched_links q {}" and "pending q s = Some (g, ts, sq, v)"
  shows "\<lparr> he_ts = ts, he_seq = sq, he_slot = s \<rparr> \<in> set (sc_heap q)"
    "s < sc_watermark q" "es_live (sc_slots q ! s)" "es_generation (sc_slots q ! s) = g"
    "es_value (sc_slots q ! s) = v" "es_heap_pos (sc_slots q ! s) < length (sc_heap q)"
    "sc_heap q ! es_heap_pos (sc_slots q ! s) = \<lparr> he_ts = ts, he_seq = sq, he_slot = s \<rparr>"
proof -
  have s: "s < sc_watermark q" "es_live (sc_slots q ! s)"
    and d: "es_generation (sc_slots q ! s) = g" "es_value (sc_slots q ! s) = v" "es_seq (sc_slots q ! s) = sq"
      "he_ts (sc_heap q ! es_heap_pos (sc_slots q ! s)) = ts"
    using assms(2) by (auto simp: pending_def pending_but_def Let_def split: if_splits)
  let ?e = "sc_heap q ! es_heap_pos (sc_slots q ! s)"
  note l = sched_links_slot[OF assms(1) s, simplified]
  have "he_seq ?e = sq" using sched_links_pos(5)[OF assms(1) l(1)] l(2) d by simp
  then have e: "?e = \<lparr> he_ts = ts, he_seq = sq, he_slot = s \<rparr>" using d l(2) by (cases ?e) simp
  then show "\<lparr> he_ts = ts, he_seq = sq, he_slot = s \<rparr> \<in> set (sc_heap q)" using l(1) nth_mem by metis
  from s d l e show "s < sc_watermark q" "es_live (sc_slots q ! s)" "es_generation (sc_slots q ! s) = g"
    "es_value (sc_slots q ! s) = v" "es_heap_pos (sc_slots q ! s) < length (sc_heap q)"
    "?e = \<lparr> he_ts = ts, he_seq = sq, he_slot = s \<rparr>" by simp_all
qed

section \<open>Frames\<close>

lemma pending_frame:
  assumes l: "sched_links q X" "sched_links q' X'" and f: "sched_frame q q'"
    and sub: "set (sc_heap q') \<subseteq> set (sc_heap q)" and X: "X \<subseteq> X'"
  shows "pending_but q' X' = (pending_but q X) |` (- X')"
proof
  fix s
  show "pending_but q' X' s = ((pending_but q X) |` (- X')) s"
  proof (cases "s < sc_watermark q' \<and> es_live (sc_slots q' ! s) \<and> s \<notin> X'")
    case True
    note p = sched_links_slot[OF l(2), of s]
    let ?e = "sc_heap q' ! es_heap_pos (sc_slots q' ! s)"
    have e: "?e \<in> set (sc_heap q')" "he_slot ?e = s" using p True by auto
    then have "pending_but q' X' (he_slot ?e) = pending_but q X (he_slot ?e)"
      using pending_entry[OF l(2) e(1)] pending_entry[OF l(1), of ?e] sub f
      by (auto simp: sched_frame_def)
    then show ?thesis using e(2) True by simp
  next
    case False
    then show ?thesis using f X by (auto simp: pending_but_def sched_frame_def restrict_map_def)
  qed
qed

lemma slots_wf_frame:
  assumes "slots_wf q" and f: "sched_frame q q'"
  shows "slots_wf q'"
proof -
  have "free_events q' = free_events q" using f by (auto simp: free_events_def sched_frame_def)
  moreover have "event_free_path (sc_slots q') i fs = event_free_path (sc_slots q) i fs" for i fs
    using f by (intro event_free_path_cong) (simp add: sched_frame_def)
  ultimately show ?thesis using assms by (simp add: slots_wf_def sched_frame_def)
qed

lemma seqs_wf_subset:
  assumes "seqs_wf q" and "sc_next_seq q' = sc_next_seq q"
    and "mset (sc_heap q') + {# e #} = mset (sc_heap q)"
  shows "seqs_wf q'"
proof -
  have m: "mset (e # sc_heap q') = mset (sc_heap q)" using assms(3) by simp
  have "distinct (map he_seq (e # sc_heap q')) = distinct (map he_seq (sc_heap q))"
    by (rule mset_eq_imp_distinct_iff) (simp only: mset_map m)
  moreover have "set (sc_heap q') \<subseteq> set (sc_heap q)" using mset_eq_setD[OF m] by auto
  ultimately show ?thesis using assms by (auto simp: seqs_wf_def)
qed

section \<open>Removing an event\<close>

lemma free_slot_correct:
  assumes wf: "slots_wf q" "seqs_wf q" and l: "sched_links q {s}" and h: "heap_ok entry_key (sc_heap q)"
    and s: "s < sc_watermark q" "es_live (sc_slots q ! s)"
  shows "sched_inv (free_slot s q)" "pending (free_slot s q) = pending_but q {s}"
proof -
  let ?q = "free_slot s q"
  from wf obtain fs where fs: "event_free_path (sc_slots q) (sc_free_head q) fs" "distinct fs"
    "set fs = free_events q" by (auto simp: slots_wf_def)
  note w = slots_wfD[OF wf(1)]
  have sl: "sc_slots ?q ! t = (if t = s then (sc_slots q ! s)\<lparr> es_live := False,
      es_generation := es_generation (sc_slots q ! s) + 1, es_free_next := sc_free_head q \<rparr> else sc_slots q ! t)" for t
    using s w by (simp add: free_slot_def Let_def nth_list_update)
  have core: "sc_capacity ?q = sc_capacity q" "sc_watermark ?q = sc_watermark q" "sc_heap ?q = sc_heap q"
    "sc_next_seq ?q = sc_next_seq q" "sc_free_head ?q = s" "length (sc_slots ?q) = length (sc_slots q)"
    by (simp_all add: free_slot_def Let_def)
  have nf: "s \<notin> set fs" using fs(3) s by (simp add: free_events_def)
  have "free_events ?q = insert s (free_events q)" using s by (auto simp: free_events_def core sl)
  moreover have "event_free_path (sc_slots ?q) i fs = event_free_path (sc_slots q) i fs" for i
    using nf by (intro event_free_path_cong) (auto simp: sl)
  moreover have "s \<noteq> kNullIndex" using s w by simp
  ultimately have "slots_wf ?q" using w fs nf by (auto simp: slots_wf_def core sl intro!: exI[of _ "s # fs"])
  moreover have "sched_links ?q {}"
    using sched_links_pos[OF l] sched_links_slot[OF l] by (auto simp: sched_links_def core sl split: if_splits)
  ultimately show "sched_inv ?q" using wf(2) h by (simp add: sched_inv_def seqs_wf_def core)
  show "pending ?q = pending_but q {s}"
    by (auto simp: pending_def pending_but_def core sl fun_eq_iff)
qed

lemma remove_event:
  assumes inv: "sched_inv q" and p: "pos < length (sc_heap q)"
  shows "\<exists>q1. remove_at pos q = Some q1 \<and> sc_next_seq q1 = sc_next_seq q \<and>
     sched_inv (free_slot (he_slot (sc_heap q ! pos)) q1) \<and>
     pending (free_slot (he_slot (sc_heap q ! pos)) q1) = (pending q)(he_slot (sc_heap q ! pos) := None) \<and>
     set (sc_heap q1) \<subseteq> set (sc_heap q) \<and> length (sc_heap q1) + 1 = length (sc_heap q)"
proof -
  note i = sched_invD[OF inv]
  let ?s = "he_slot (sc_heap q ! pos)"
  from remove_at_correct[OF i(3,4) p slots_wfD(4)[OF i(1)] heap_small[OF inv]]
  obtain q1 where q1: "remove_at pos q = Some q1" "sched_links q1 {?s}" "sched_frame q q1"
    "heap_ok entry_key (sc_heap q1)" "mset (sc_heap q1) + {# sc_heap q ! pos #} = mset (sc_heap q)" by auto
  have sub: "set (sc_heap q1) \<subseteq> set (sc_heap q)" using q1(5) by (metis mset_subset_eq_add_left set_mset_mono set_mset_mset)
  have len: "length (sc_heap q1) + 1 = length (sc_heap q)"
    using arg_cong[OF q1(5), of size] by simp
  have next': "sc_next_seq q1 = sc_next_seq q" using q1(3) by (simp add: sched_frame_def)
  note s = sched_links_pos(1,3)[OF i(3) p]
  have s1: "?s < sc_watermark q1" "es_live (sc_slots q1 ! ?s)" using s q1(3) by (simp_all add: sched_frame_def)
  note f = free_slot_correct[OF slots_wf_frame[OF i(1) q1(3)] seqs_wf_subset[OF i(2) next' q1(5)] q1(2,4) s1]
  have "pending_but q1 {?s} = (pending q)(?s := None)"
    using pending_frame[OF i(3) q1(2,3) sub] by (auto simp: pending_def restrict_map_def fun_eq_iff)
  with f q1(1) sub len next' show ?thesis by auto
qed

section \<open>Pop and cancel\<close>

lemma pop_min_correct:
  assumes inv: "sched_inv q" and ne: "pending q s = Some (g, ts, sq, v)"
    and least: "\<And>s' g' ts' sq' v'. pending q s' = Some (g', ts', sq', v') \<Longrightarrow> ts < ts' \<or> (ts = ts' \<and> sq \<le> sq')"
  shows "\<exists>q'. pop_min q = Some (v, q') \<and> sched_inv q' \<and> pending q' = (pending q)(s := None) \<and>
     peek_min_ts q = Some ts \<and> peek_min q = Some v \<and> sc_next_seq q' = sc_next_seq q"
proof -
  note i = sched_invD[OF inv]
  note e = pending_has_entry[OF i(3) ne]
  let ?e = "\<lparr> he_ts = ts, he_seq = sq, he_slot = s \<rparr>"
  let ?r = "sc_heap q ! 0"
  have len: "0 < length (sc_heap q)" using e(6) by linarith
  have rs: "?r \<in> set (sc_heap q)" using len by simp
  have "entry_key ?r \<le> entry_key ?e" using heap_ok_root[OF i(4) e(6)] e(7) by simp
  moreover have "\<not> entry_less ?r ?e"
    using least pending_entry[OF i(3) rs] by (fastforce simp: entry_less_def pending_def)
  ultimately have "entry_key ?r = entry_key ?e" by (simp add: entry_less_key)
  then have "he_seq ?r = sq" using entry_key_inj by fastforce
  then have r: "?r = ?e"
    using i(2) rs e(1) by (auto simp: seqs_wf_def distinct_map inj_on_def)
  from remove_event[OF inv len] r obtain q1 where q1: "remove_at 0 q = Some q1"
    "sched_inv (free_slot s q1)" "pending (free_slot s q1) = (pending q)(s := None)"
    "set (sc_heap q1) \<subseteq> set (sc_heap q)" "sc_next_seq q1 = sc_next_seq q" by auto
  have h: "sc_heap (free_slot s q1) = sc_heap q1" "sc_next_seq (free_slot s q1) = sc_next_seq q1"
    by (simp_all add: free_slot_def Let_def)
  have "\<not> entry_less (sc_heap q1 ! 0) ?e" if "sc_heap q1 \<noteq> []"
  proof -
    have "sc_heap q1 ! 0 \<in> set (sc_heap q)" using q1(4) that by auto
    then obtain k where "k < length (sc_heap q)" "sc_heap q1 ! 0 = sc_heap q ! k" by (auto simp: in_set_conv_nth)
    then show ?thesis using heap_ok_root[OF i(4), of k] r by (simp add: entry_less_key)
  qed
  then show ?thesis
    using len q1 e(5) by (auto simp: pop_min_def peek_min_def peek_min_ts_def r h Let_def bind_mog_pre_eq)
qed

lemma sched_cancel_live:
  assumes inv: "sched_inv q" and p: "pending q (h_index h) = Some (h_generation h, ts, sq, v)"
  shows "\<exists>q'. sched_cancel h q = Some (True, q') \<and> sched_inv q' \<and> pending q' = (pending q)(h_index h := None) \<and>
    sc_next_seq q' = sc_next_seq q"
proof -
  note i = sched_invD[OF inv]
  note e = pending_has_entry[OF i(3) p]
  from remove_event[OF inv e(6)] e(7) obtain q1 where "remove_at (es_heap_pos (sc_slots q ! h_index h)) q = Some q1"
    "sched_inv (free_slot (h_index h) q1)" "pending (free_slot (h_index h) q1) = (pending q)(h_index h := None)"
    "sc_next_seq q1 = sc_next_seq q"
    by auto
  moreover have "sc_next_seq (free_slot (h_index h) q1) = sc_next_seq q1" by (simp add: free_slot_def Let_def)
  moreover have "h_index h < sc_capacity q" using e(2) slots_wfD(3)[OF i(1)] by simp
  ultimately show ?thesis using e(3,4) by (simp add: sched_cancel_def Let_def)
qed

lemma sched_cancel_stale:
  assumes inv: "sched_inv q" and "h_index h < sc_watermark q \<or> sc_capacity q \<le> h_index h"
    and p: "\<not> (\<exists>ts sq v. pending q (h_index h) = Some (h_generation h, ts, sq, v))"
  shows "sched_cancel h q = Some (False, q)"
  using assms by (auto simp: sched_cancel_def pending_def pending_but_def Let_def split: if_splits)

section \<open>Push\<close>

text \<open>What \<open>claim_slot\<close> leaves behind: a slot outside the heap and off the free list.\<close>

lemma claim_slot_correct:
  assumes inv: "sched_inv q" and room: "length (sc_heap q) < sc_capacity q"
  shows "\<exists>i q1 fs. claim_slot v q = Some (i, q1) \<and> i < sc_watermark q1 \<and> sc_watermark q1 \<le> sc_capacity q \<and>
     \<not> es_live (sc_slots q1 ! i) \<and> pending q i = None \<and>
     sc_heap q1 = sc_heap q \<and> sc_next_seq q1 = sc_next_seq q \<and> sc_capacity q1 = sc_capacity q \<and>
     length (sc_slots q1) = length (sc_slots q) \<and>
     (\<forall>s < sc_watermark q1. s \<noteq> i \<longrightarrow> s < sc_watermark q \<and> sc_slots q1 ! s = sc_slots q ! s) \<and>
     sc_watermark q \<le> sc_watermark q1 \<and>
     event_free_path (sc_slots q1) (sc_free_head q1) fs \<and> distinct fs \<and> set fs = free_events q1 - {i}"
proof -
  note i = sched_invD[OF inv]
  note w = slots_wfD[OF i(1)]
  from i(1) obtain fs where fs: "event_free_path (sc_slots q) (sc_free_head q) fs" "distinct fs"
    "set fs = free_events q" by (auto simp: slots_wf_def)
  show ?thesis
  proof (cases fs)
    case Nil
    then have hd: "sc_free_head q = kNullIndex" using fs by simp
    let ?i = "sc_watermark q"
    have "{s. s < ?i \<and> es_live (sc_slots q ! s)} = {..<?i}" using Nil fs(3) by (auto simp: free_events_def)
    then have wc: "?i < sc_capacity q" using heap_size_le(1)[OF i(3)] room by simp
    let ?q = "q\<lparr> sc_watermark := ?i + 1, sc_slots := (sc_slots q)[?i := fresh_slot v] \<rparr>"
    have "claim_slot v q = Some (?i, ?q)" using hd wc by (simp add: claim_slot_def Let_def)
    moreover have "free_events ?q - {?i} = {}"
      using Nil fs(3) wc w by (auto simp: free_events_def nth_list_update less_Suc_eq)
    ultimately show ?thesis
      using wc w hd by (intro exI[of _ ?i] exI[of _ ?q] exI[of _ "[]"])
        (auto simp: fresh_slot_def pending_def pending_but_def nth_list_update)
  next
    case (Cons x fs')
    let ?q = "q\<lparr> sc_free_head := es_free_next (sc_slots q ! x) \<rparr>"
    have x: "x < sc_watermark q" "\<not> es_live (sc_slots q ! x)" using Cons fs(3) by (auto simp: free_events_def)
    have hd: "sc_free_head q = x" "x \<noteq> kNullIndex" using Cons fs(1) by auto
    then have "claim_slot v q = Some (x, ?q)" by (simp add: claim_slot_def Let_def)
    moreover have "set fs' = free_events ?q - {x}" using Cons fs(2,3) by (auto simp: free_events_def)
    ultimately show ?thesis
      using x w Cons fs by (intro exI[of _ x] exI[of _ ?q] exI[of _ fs'])
        (auto simp: pending_def pending_but_def)
  qed
qed

lemma sched_push_correct:
  assumes inv: "sched_inv q" and room: "length (sc_heap q) < sc_capacity q"
    and seq: "sc_next_seq q \<noteq> - 1"
  shows "\<exists>h q'. sched_push ts v q = Some (h, q') \<and> sched_inv q' \<and> pending q (h_index h) = None \<and>
     pending q' = (pending q)(h_index h \<mapsto> (h_generation h, ts, sc_next_seq q, v)) \<and>
     sc_next_seq q' = sc_next_seq q + 1 \<and> sc_capacity q' = sc_capacity q \<and>
     length (sc_heap q') = length (sc_heap q) + 1"
proof -
  note inv' = sched_invD[OF inv]
  note w = slots_wfD[OF inv'(1)]
  from claim_slot_correct[OF inv room, of v] obtain i q1 fs where c: "claim_slot v q = Some (i, q1)"
    and i: "i < sc_watermark q1" "sc_watermark q1 \<le> sc_capacity q" "\<not> es_live (sc_slots q1 ! i)" "pending q i = None"
    and same: "sc_heap q1 = sc_heap q" "sc_next_seq q1 = sc_next_seq q" "sc_capacity q1 = sc_capacity q"
      "length (sc_slots q1) = length (sc_slots q)"
    and old: "\<And>s. s < sc_watermark q1 \<Longrightarrow> s \<noteq> i \<Longrightarrow> s < sc_watermark q \<and> sc_slots q1 ! s = sc_slots q ! s"
    and grow: "sc_watermark q \<le> sc_watermark q1"
    and fs: "event_free_path (sc_slots q1) (sc_free_head q1) fs" "distinct fs" "set fs = free_events q1 - {i}"
    by blast
  let ?n = "length (sc_heap q)"
  define s where "s = (sc_slots q1 ! i)\<lparr> es_value := v, es_seq := sc_next_seq q, es_live := True, es_heap_pos := ?n \<rparr>"
  define e where "e = \<lparr> he_ts = ts, he_seq = sc_next_seq q, he_slot = i \<rparr>"
  define q2 where "q2 = q1\<lparr> sc_slots := (sc_slots q1)[i := s], sc_next_seq := sc_next_seq q + 1,
      sc_heap := sc_heap q @ [e] \<rparr>"
  have push: "sched_push ts v q = Some (\<lparr> h_index = i, h_generation = es_generation s \<rparr>, sift_up ?n q2)"
    using room by (simp add: sched_push_def c Let_def same q2_def s_def e_def)
  have q2: "sc_heap q2 = sc_heap q @ [e]" "sc_watermark q2 = sc_watermark q1" "sc_capacity q2 = sc_capacity q"
    "sc_free_head q2 = sc_free_head q1" "sc_next_seq q2 = sc_next_seq q + 1"
    "length (sc_slots q2) = length (sc_slots q)"
    by (simp_all add: q2_def same)
  have sl: "sc_slots q2 ! t = (if t = i then s else sc_slots q1 ! t)" for t
    using i w same by (simp add: q2_def nth_list_update)
  have notin: "he_slot x \<noteq> i" if "x \<in> set (sc_heap q)" for x
    using pending_entry[OF inv'(3) that] i(4) by (auto simp: pending_def)
  have slot: "he_slot (sc_heap q ! p) < sc_watermark q1 \<and> he_slot (sc_heap q ! p) \<noteq> i \<and>
      sc_slots q1 ! he_slot (sc_heap q ! p) = sc_slots q ! he_slot (sc_heap q ! p)" if "p < ?n" for p
    using sched_links_pos(1)[OF inv'(3) that] grow old[of "he_slot (sc_heap q ! p)"] notin[of "sc_heap q ! p"] that
    by auto
  have links: "sched_links q2 {}"
    unfolding sched_links_def
  proof (intro conjI allI impI, goal_cases)
    case (6 t)
    then show ?case using old[of t] sched_links_slot(1)[OF inv'(3), of t] by (auto simp: q2 sl s_def less_Suc_eq)
  next
    case (7 t)
    then show ?case
      using old[of t] sched_links_slot[OF inv'(3), of t]
      by (auto simp: q2 sl s_def e_def nth_append)
  qed (use slot sched_links_pos[OF inv'(3)] i in \<open>auto simp: q2 sl s_def e_def nth_append less_Suc_eq\<close>)
  have seqs: "seqs_wf q2"
  proof -
    have "sc_next_seq q < sc_next_seq q + 1" using seq inc_less_eq_self_iff_eq[of "sc_next_seq q"] by (simp add: not_le[symmetric])
    then show ?thesis using inv'(2) by (fastforce simp: seqs_wf_def q2 e_def)
  qed
  have slots: "slots_wf q2"
  proof -
    have "free_events q2 = free_events q1 - {i}"
      using i by (auto simp: free_events_def q2 sl s_def)
    moreover have "event_free_path (sc_slots q2) j fs = event_free_path (sc_slots q1) j fs" for j
      using fs(3) by (intro event_free_path_cong) (auto simp: sl)
    ultimately show ?thesis using w i fs by (auto simp: slots_wf_def q2)
  qed
  have "up_ok entry_key (sc_heap q2) ?n" unfolding q2 by (rule heap_ok_snoc[OF inv'(4)])
  from sift_up_correct[OF links this _ slots_wfD(4)[OF slots]]
  have sift: "sifted q2 {} (sift_up ?n q2)" by (simp add: q2)
  then have f: "sched_frame q2 (sift_up ?n q2)" and l: "sched_links (sift_up ?n q2) {}"
    and m: "mset (sc_heap (sift_up ?n q2)) = mset (sc_heap q2)" by (simp_all add: sifted_def)
  have next': "sc_next_seq (sift_up ?n q2) = sc_next_seq q2" using f by (simp add: sched_frame_def)
  have "seqs_wf (sift_up ?n q2)"
    using seqs mset_eq_setD[OF m] mset_eq_imp_distinct_iff[of "map he_seq (sc_heap (sift_up ?n q2))" "map he_seq (sc_heap q2)"] m
    by (simp add: seqs_wf_def next')
  then have inv2: "sched_inv (sift_up ?n q2)"
    using slots_wf_frame[OF slots f] l sift by (simp add: sched_inv_def sifted_def)
  have "pending (sift_up ?n q2) = pending q2"
    using pending_frame[OF links l f] mset_eq_setD[OF m] by (simp add: pending_def restrict_map_def)
  moreover have "pending q2 t = ((pending q)(i \<mapsto> (es_generation s, ts, sc_next_seq q, v))) t" for t
  proof (cases "t = i")
    case True
    then show ?thesis using i by (simp add: pending_def pending_but_def q2 sl s_def e_def)
  next
    case False
    show ?thesis
      using old[of t] grow False sched_links_slot(1)[OF inv'(3), of t]
      by (auto simp: pending_def pending_but_def q2 sl Let_def nth_append)
  qed
  moreover have "length (sc_heap (sift_up ?n q2)) = ?n + 1" using arg_cong[OF m, of size] by (simp add: q2)
  ultimately show ?thesis using push inv2 i(4) next' f by (auto simp: fun_eq_iff q2 sched_frame_def)
qed

end
