(* ===== verification/EventQueue.thy ===== *)
theory EventQueue
  imports SchedProofs
begin

text \<open>
  What the simulator relies on: an event queue pops its events in the order of their keys, whatever
  pushes and cancellations came before. The locale states the contract over a multiset of keyed
  events; the scheduler provides it with the key (timestamp, sequence number). The rest of the
  theory covers the constructor, \<open>clear\<close> and the self-check.
\<close>

section \<open>The contract of an event queue\<close>

locale event_queue =
  fixes inv :: "'q \<Rightarrow> bool"
    and events :: "'q \<Rightarrow> (nat \<times> 'v) multiset"
    and pop :: "'q \<Rightarrow> ('v \<times> 'q) option"
  assumes pop_least: "inv q \<Longrightarrow> events q \<noteq> {#} \<Longrightarrow>
      \<exists>k v q'. pop q = Some (v, q') \<and> inv q' \<and> events q = add_mset (k, v) (events q') \<and>
        (\<forall>x \<in># events q'. k < fst x)"
begin

fun pops :: "nat \<Rightarrow> 'q \<Rightarrow> ('v list \<times> 'q) option" where
  "pops 0 q = Some ([], q)"
| "pops (Suc n) q = (case pop q of None \<Rightarrow> None
     | Some (v, q') \<Rightarrow> (case pops n q' of None \<Rightarrow> None | Some (vs, q'') \<Rightarrow> Some (v # vs, q'')))"

lemma pops_sorted:
  assumes "inv q" and "n \<le> size (events q)"
  shows "\<exists>ps q'. pops n q = Some (map snd ps, q') \<and> inv q' \<and> length ps = n \<and>
     events q = mset ps + events q' \<and> sorted_wrt (<) (map fst ps) \<and>
     (\<forall>p \<in> set ps. \<forall>x \<in># events q'. fst p < fst x)"
  using assms
proof (induction n arbitrary: q)
  case 0
  then show ?case by (intro exI[of _ "[]"] exI[of _ q]) simp
next
  case (Suc n)
  then have "events q \<noteq> {#}" by auto
  from pop_least[OF Suc.prems(1) this] obtain k v q1 where p: "pop q = Some (v, q1)" "inv q1"
    "events q = add_mset (k, v) (events q1)" and lt: "\<forall>x \<in># events q1. k < fst x" by blast
  have "n \<le> size (events q1)" using Suc.prems(2) p(3) by simp
  from Suc.IH[OF p(2) this] obtain ps q' where ps: "pops n q1 = Some (map snd ps, q')" "inv q'" "length ps = n"
    "events q1 = mset ps + events q'" "sorted_wrt (<) (map fst ps)"
    "\<forall>p \<in> set ps. \<forall>x \<in># events q'. fst p < fst x" by blast
  have "\<forall>x \<in> set ps. k < fst x" "\<forall>x \<in># events q'. k < fst x" using lt ps(4) by auto
  with p ps show ?case by (intro exI[of _ "(k, v) # ps"] exI[of _ q']) auto
qed

end

section \<open>The scheduler provides it\<close>

definition event_key :: "u64 \<Rightarrow> u64 \<Rightarrow> nat" where
  "event_key ts sq = unat ts * 2 ^ 64 + unat sq"

definition keyed_event :: "u32 \<times> u64 \<times> u64 \<times> 'a \<Rightarrow> nat \<times> 'a" where
  "keyed_event e = (case e of (g, ts, sq, v) \<Rightarrow> (event_key ts sq, v))"

definition sched_events :: "'a scheduler \<Rightarrow> (nat \<times> 'a) multiset" where
  "sched_events q = image_mset (\<lambda>s. keyed_event (the (pending q s))) (mset_set (dom (pending q)))"

lemma event_key_less: "event_key ts sq < event_key ts' sq' \<longleftrightarrow> ts < ts' \<or> (ts = ts' \<and> sq < sq')"
  using entry_less_key[of "\<lparr> he_ts = ts, he_seq = sq, he_slot = 0 \<rparr>" "\<lparr> he_ts = ts', he_seq = sq', he_slot = 0 \<rparr>"]
  by (simp add: entry_less_def entry_key_def event_key_def)

lemma finite_pending [simp, intro]: "finite (dom (pending q))"
  by (rule finite_subset[of _ "{..<sc_watermark q}"]) (auto simp: pending_def pending_but_def split: if_splits)

lemma pending_dom_heap:
  assumes "sched_inv q"
  shows "card (dom (pending q)) = length (sc_heap q)"
proof -
  have "dom (pending q) = {s. s < sc_watermark q \<and> es_live (sc_slots q ! s)}"
    by (auto simp: pending_def pending_but_def Let_def split: if_splits)
  then show ?thesis using heap_size_le(1)[OF sched_invD(3)[OF assms]] by simp
qed

lemma pending_seq_inj:
  assumes "sched_inv q" and "pending q s = Some (g, ts, sq, v)" and "pending q s' = Some (g', ts', sq, v')"
  shows "s = s'"
proof -
  note i = sched_invD[OF assms(1)]
  have "inj_on he_seq (set (sc_heap q))" using i(2) by (simp add: seqs_wf_def distinct_map)
  from inj_onD[OF this _ pending_has_entry(1)[OF i(3) assms(2)] pending_has_entry(1)[OF i(3) assms(3)]]
  show ?thesis by simp
qed

lemma least_pending:
  assumes inv: "sched_inv q" and ne: "dom (pending q) \<noteq> {}"
  shows "\<exists>s g ts sq v. pending q s = Some (g, ts, sq, v) \<and>
     (\<forall>s' g' ts' sq' v'. pending q s' = Some (g', ts', sq', v') \<longrightarrow> s' \<noteq> s \<longrightarrow> event_key ts sq < event_key ts' sq')"
proof -
  let ?k = "\<lambda>s. fst (keyed_event (the (pending q s)))"
  obtain s where s: "s \<in> dom (pending q)" "\<And>t. t \<in> dom (pending q) \<Longrightarrow> ?k s \<le> ?k t"
    using arg_min_least[OF finite_pending ne] arg_min_if_finite(1)[OF finite_pending ne] by meson
  then obtain g ts sq v where p: "pending q s = Some (g, ts, sq, v)" by auto
  have "event_key ts sq < event_key ts' sq'" if "pending q s' = Some (g', ts', sq', v')" "s' \<noteq> s" for s' g' ts' sq' v'
  proof -
    have "event_key ts sq \<le> event_key ts' sq'" using s(2)[of s'] that p by (auto simp: keyed_event_def)
    moreover have "sq \<noteq> sq'" using pending_seq_inj[OF inv p, of s'] that by auto
    then have "event_key ts sq < event_key ts' sq' \<or> event_key ts' sq' < event_key ts sq"
      unfolding event_key_less by auto
    ultimately show ?thesis by simp
  qed
  with p show ?thesis by blast
qed

lemma pop_min_removes:
  assumes p: "pending q s = Some (g, ts, sn, v)" and q': "pending q' = (pending q)(s := None)"
  shows "sched_events q = add_mset (event_key ts sn, v) (sched_events q')"
proof -
  have "dom (pending q) = insert s (dom (pending q'))" "s \<notin> dom (pending q')" using p q' by auto
  then have "sched_events q = add_mset (event_key ts sn, v)
      (image_mset (\<lambda>t. keyed_event (the (pending q t))) (mset_set (dom (pending q'))))"
    by (simp add: sched_events_def p keyed_event_def)
  also have "image_mset (\<lambda>t. keyed_event (the (pending q t))) (mset_set (dom (pending q'))) = sched_events q'"
    unfolding sched_events_def by (intro image_mset_cong) (auto simp: q' split: if_splits)
  finally show ?thesis .
qed

text \<open>The time of an event is the upper part of its key.\<close>

definition key_time :: "nat \<Rightarrow> nat" where
  "key_time k = k div 2 ^ 64"

lemma event_key_time: "key_time (event_key ts sq) = unat ts"
proof -
  have "unat sq < 2 ^ 64" using unsigned_less[of sq] by simp
  then show ?thesis by (simp add: key_time_def event_key_def)
qed

lemma key_time_mono: "k \<le> l \<Longrightarrow> key_time k \<le> key_time l"
  by (simp add: key_time_def div_le_mono)

text \<open>The next event: its key is the least, and \<open>peek_min_ts\<close> shows its time.\<close>

lemma pop_min_peek:
  assumes inv: "sched_inv q" and ne: "sched_events q \<noteq> {#}"
  shows "\<exists>k ev w ts. pop_min q = Some (ev, w) \<and> sched_inv w \<and> sched_events q = add_mset (k, ev) (sched_events w) \<and>
     (\<forall>x \<in># sched_events w. k < fst x) \<and> peek_min_ts q = Some ts \<and> unat ts = key_time k"
proof -
  have "dom (pending q) \<noteq> {}" using ne by (auto simp: sched_events_def)
  from least_pending[OF inv this] obtain s g ts sn v where p: "pending q s = Some (g, ts, sn, v)"
    and lt: "\<And>s' g' ts' sq' v'. pending q s' = Some (g', ts', sq', v') \<Longrightarrow> s' \<noteq> s \<Longrightarrow> event_key ts sn < event_key ts' sq'"
    by blast
  have le: "ts < ts' \<or> ts = ts' \<and> sn \<le> sq'" if "pending q s' = Some (g', ts', sq', v')" for s' g' ts' sq' v'
    using lt[OF that] that p by (cases "s' = s") (auto simp: event_key_less)
  have "\<exists>q'. pop_min q = Some (v, q') \<and> sched_inv q' \<and> pending q' = (pending q)(s := None) \<and>
      peek_min_ts q = Some ts \<and> peek_min q = Some v \<and> sc_next_seq q' = sc_next_seq q"
    by (rule pop_min_correct[OF inv p]) (rule le)
  then obtain w where w: "pop_min q = Some (v, w)" "sched_inv w" "pending w = (pending q)(s := None)"
    "peek_min_ts q = Some ts" by blast
  from pop_min_removes[OF p w(3)] have e: "sched_events q = add_mset (event_key ts sn, v) (sched_events w)" .
  have "event_key ts sn < fst x" if "x \<in># sched_events w" for x
  proof -
    from that obtain t where t: "t \<in> dom (pending w)" "x = keyed_event (the (pending w t))"
      by (auto simp: sched_events_def)
    then have "t \<noteq> s" "\<exists>g' ts' sq' v'. pending q t = Some (g', ts', sq', v')" using w(3) by (auto split: if_splits)
    then show ?thesis using lt[of t] t(2) w(3) by (auto simp: keyed_event_def)
  qed
  with w e event_key_time[of ts sn] show ?thesis by metis
qed

lemma pop_min_least:
  assumes "sched_inv q" and "sched_events q \<noteq> {#}"
  shows "\<exists>k v q'. pop_min q = Some (v, q') \<and> sched_inv q' \<and> sched_events q = add_mset (k, v) (sched_events q') \<and>
     (\<forall>x \<in># sched_events q'. k < fst x)"
  using pop_min_peek[OF assms] by blast

interpretation sq: event_queue sched_inv sched_events pop_min
  by unfold_locales (rule pop_min_least)

lemma size_sched_events: "sched_inv q \<Longrightarrow> size (sched_events q) = length (sc_heap q)"
  by (simp add: sched_events_def pending_dom_heap)

lemma push_adds:
  assumes inv: "sched_inv q" and room: "length (sc_heap q) < sc_capacity q" and sq: "sc_next_seq q \<noteq> - 1"
  shows "\<exists>h q'. sched_push ts v q = Some (h, q') \<and> sched_inv q' \<and>
     sched_events q' = add_mset (event_key ts (sc_next_seq q), v) (sched_events q)"
proof -
  from sched_push_correct[OF inv room sq] obtain h q' where
    p: "sched_push ts v q = Some (h, q')" "sched_inv q'" "pending q (h_index h) = None"
      "pending q' = (pending q)(h_index h \<mapsto> (h_generation h, ts, sc_next_seq q, v))" by blast
  then have "pending q' (h_index h) = Some (h_generation h, ts, sc_next_seq q, v)"
    "pending q = (pending q')(h_index h := None)" by (auto simp: fun_eq_iff)
  from pop_min_removes[OF this] p(1,2) show ?thesis by blast
qed

section \<open>Constructor, clear, self-check\<close>

lemma sched_new_correct:
  assumes "0 < capacity" and "capacity < 2 ^ 31" and "capacity \<le> length raw"
  shows "\<exists>q. sched_new capacity raw = Some q \<and> sched_inv q \<and> pending q = Map.empty \<and> sc_capacity q = capacity \<and>
    sc_next_seq q = 0 \<and> sc_heap q = []"
  using assms
  by (auto simp: sched_new_def kNullIndex_def sched_inv_def slots_wf_def seqs_wf_def sched_links_def heap_ok_def
      free_events_def pending_def pending_but_def fun_eq_iff intro: exI[of _ "[]"])

lemma free_path_upt:
  assumes "i < n" and "n < kNullIndex"
    and "\<And>j. j < n \<Longrightarrow> es_free_next (sl ! j) = (if j + 1 < n then j + 1 else kNullIndex)"
  shows "event_free_path sl i [i..<n]"
  using assms(1)
proof (induction "n - i" arbitrary: i)
  case (Suc k)
  then show ?case
    using assms(2,3) by (cases "i + 1 < n") (auto simp: upt_conv_Cons)
qed simp

lemma sched_clear_correct:
  assumes "sched_inv q" and "0 < sc_capacity q"
  shows "sched_inv (sched_clear d q)" "pending (sched_clear d q) = Map.empty"
proof -
  note w = slots_wfD[OF sched_invD(1)[OF assms(1)]]
  let ?q = "sched_clear d q"
  have n: "es_live (sc_slots ?q ! i) = False \<and>
      es_free_next (sc_slots ?q ! i) = (if i + 1 < sc_capacity q then i + 1 else kNullIndex)"
    if "i < sc_capacity q" for i
    using that by (simp add: sched_clear_def Let_def cleared_slot_def)
  have c: "sc_capacity ?q = sc_capacity q" "sc_watermark ?q = sc_capacity q" "sc_heap ?q = []"
    "sc_free_head ?q = 0" "length (sc_slots ?q) = sc_capacity q"
    by (simp_all add: sched_clear_def Let_def)
  show "pending ?q = Map.empty" using n by (auto simp: pending_def pending_but_def c fun_eq_iff)
  have "event_free_path (sc_slots ?q) 0 [0..<sc_capacity q]"
    using assms(2) w n by (intro free_path_upt) auto
  moreover have "free_events ?q = {..<sc_capacity q}" using n by (auto simp: free_events_def c)
  ultimately have "event_free_path (sc_slots ?q) (sc_free_head ?q) [0..<sc_capacity q] \<and>
      distinct [0..<sc_capacity q] \<and> set [0..<sc_capacity q] = free_events ?q"
    by (simp add: c atLeast0LessThan)
  then have "slots_wf ?q" unfolding slots_wf_def c using w(1) by blast
  moreover have "sched_links ?q {}" unfolding sched_links_def c using n by simp
  ultimately show "sched_inv ?q" by (simp add: sched_inv_def seqs_wf_def heap_ok_def c)
qed

lemma audit_free_path:
  assumes "event_free_path (sc_slots q) i fs" and "\<And>x. x \<in> set fs \<Longrightarrow> x < sc_capacity q \<and> \<not> es_live (sc_slots q ! x)"
  shows "audit_free q i n = Some (Some (n + length fs))"
  using assms
proof (induction fs arbitrary: i n)
  case Nil
  then show ?case by (subst audit_free.simps) simp
next
  case (Cons x fs)
  have x: "i = x" "x \<noteq> kNullIndex" "event_free_path (sc_slots q) (es_free_next (sc_slots q ! x)) fs"
    using Cons.prems(1) by auto
  have "x < sc_capacity q \<and> \<not> es_live (sc_slots q ! x)" by (rule Cons.prems(2)) simp
  then have "audit_free q i n = audit_free q (es_free_next (sc_slots q ! x)) (n + 1)"
    using x by (subst audit_free.simps) simp
  also have "\<dots> = Some (Some (n + 1 + length fs))"
    by (rule Cons.IH[OF x(3)]) (rule Cons.prems(2), simp)
  finally show ?case by simp
qed

lemma sched_audit_correct:
  assumes "sched_inv q"
  shows "sched_audit q = Some True"
proof -
  note i = sched_invD[OF assms]
  note w = slots_wfD[OF i(1)]
  from i(1) obtain fs where fs: "event_free_path (sc_slots q) (sc_free_head q) fs" "distinct fs"
    "set fs = free_events q" by (auto simp: slots_wf_def)
  have "audit_free q (sc_free_head q) 0 = Some (Some (0 + length fs))"
    using fs w by (intro audit_free_path) (auto simp: free_events_def)
  moreover have "length fs + length (sc_heap q) = sc_watermark q"
  proof -
    let ?L = "{s. s < sc_watermark q \<and> es_live (sc_slots q ! s)}"
    have "card (free_events q \<union> ?L) = card (free_events q) + card ?L"
      by (rule card_Un_disjoint) (auto simp: free_events_def)
    moreover have "free_events q \<union> ?L = {..<sc_watermark q}" by (auto simp: free_events_def)
    ultimately show ?thesis using fs distinct_card[OF fs(2)] heap_size_le(1)[OF i(3)] by simp
  qed
  moreover have "audit_entry q p" if "p < length (sc_heap q)" for p
  proof -
    have "p = 0 \<or> \<not> entry_less (sc_heap q ! p) (sc_heap q ! parent p)"
      using i(4) that by (auto simp: heap_ok_def entry_less_key not_less)
    then show ?thesis
      using sched_links_pos[OF i(3) that] w by (auto simp: audit_entry_def Let_def parent_def)
  qed
  moreover have "length (sc_heap q) \<le> sc_capacity q" using heap_size_le(2)[OF i(3)] w by simp
  ultimately show ?thesis using w by (auto simp: sched_audit_def)
qed

end
