(* ===== verification/MoldUdp.thy ===== *)
theory MoldUdp
  imports Wire
begin

text \<open>
  MoldUDP64 framing with sequence continuity, \<open>include/mog/MoldUdp.hpp\<close>. The sink receives each
  payload with its sequence number; the payload pointer and length are the list of the payload's
  bytes. Sequence numbers are 64-bit words and wrap.
\<close>

section \<open>Data\<close>

definition kSessionSize :: nat where "kSessionSize = 10"
definition kPacketHeaderSize :: nat where "kPacketHeaderSize = kSessionSize + 8 + 2"
definition kHeartbeatCount :: u16 where "kHeartbeatCount = 0xFFFF"
definition kEndSessionCount :: u16 where "kEndSessionCount = 0x0000"

datatype mold_error = TruncatedHeader | TruncatedMessage | BadMessageLength | SequenceGap
  | SequenceRegression | TrailingBytes

fun mold_error_text :: "mold_error \<Rightarrow> string" where
  "mold_error_text TruncatedHeader = ''truncated_header''"
| "mold_error_text TruncatedMessage = ''truncated_message''"
| "mold_error_text BadMessageLength = ''bad_message_length''"
| "mold_error_text SequenceGap = ''sequence_gap''"
| "mold_error_text SequenceRegression = ''sequence_regression''"
| "mold_error_text TrailingBytes = ''trailing_bytes''"

record gap_info =
  gi_expected_seq :: u64
  gi_got_seq :: u64
  gi_offset :: nat
  gi_session :: "byte list"

definition no_gap :: gap_info where
  "no_gap = \<lparr> gi_expected_seq = 0, gi_got_seq = 0, gi_offset = 0, gi_session = replicate kSessionSize 0 \<rparr>"

record mold_error_info =
  me_code :: mold_error
  me_offset :: nat
  me_gap :: gap_info

definition mold_fault :: "mold_error \<Rightarrow> nat \<Rightarrow> mold_error_info" where
  "mold_fault e off = \<lparr> me_code = e, me_offset = off, me_gap = no_gap \<rparr>"

record packet_view =
  pv_session :: "byte list"
  pv_sequence :: u64
  pv_count :: u16

definition load_packet_header :: "bool \<Rightarrow> byte list \<Rightarrow> packet_view" where
  "load_packet_header le p = \<lparr> pv_session = take kSessionSize p,
     pv_sequence = load_be64 le (drop kSessionSize p),
     pv_count = load_be16 le (drop (kSessionSize + 8) p) \<rparr>"

definition make_gap :: "u64 \<Rightarrow> u64 \<Rightarrow> nat \<Rightarrow> byte list \<Rightarrow> gap_info" where
  "make_gap expected got off session =
     (let n = (if length session < kSessionSize then length session else kSessionSize)
      in \<lparr> gi_expected_seq = expected, gi_got_seq = got, gi_offset = off,
           gi_session = take n session @ replicate (kSessionSize - n) 0 \<rparr>)"

definition sequence_fault :: "u64 \<Rightarrow> packet_view \<Rightarrow> nat \<Rightarrow> mold_error_info" where
  "sequence_fault expected hdr pkt_off =
     \<lparr> me_code = (if pv_sequence hdr > expected then SequenceGap else SequenceRegression),
       me_offset = pkt_off,
       me_gap = make_gap expected (pv_sequence hdr) pkt_off (pv_session hdr) \<rparr>"

section \<open>The parser\<close>

record mold_state =
  ms_established :: bool
  ms_expected_seq :: u64
  ms_session :: "byte list"

definition mold_init :: mold_state where
  "mold_init = \<lparr> ms_established = False, ms_expected_seq = 0, ms_session = replicate kSessionSize 0 \<rparr>"

type_synonym 's mold_sink = "'s \<Rightarrow> byte list \<Rightarrow> u64 \<Rightarrow> 's"

text \<open>The checks of one packet header against the running session.\<close>

definition mold_admit :: "packet_view \<Rightarrow> nat \<Rightarrow> mold_state \<Rightarrow> mold_error_info + mold_state" where
  "mold_admit hdr pkt_off st =
     (if \<not> ms_established st then
        Inr (st\<lparr> ms_established := True, ms_expected_seq := pv_sequence hdr, ms_session := pv_session hdr \<rparr>)
      else if pv_count hdr \<noteq> kEndSessionCount then
        (if pv_session hdr \<noteq> ms_session st then
           Inr (st\<lparr> ms_expected_seq := pv_sequence hdr, ms_session := pv_session hdr \<rparr>)
         else if pv_sequence hdr \<noteq> ms_expected_seq st \<and> pv_count hdr \<noteq> kHeartbeatCount then
           Inl (sequence_fault (ms_expected_seq st) hdr pkt_off)
         else Inr st)
      else Inr st)"

text \<open>The message blocks of one packet: \<open>n\<close> are left, the next one starts at \<open>off\<close>.\<close>

fun mold_messages :: "bool \<Rightarrow> 's mold_sink \<Rightarrow> byte list \<Rightarrow> nat \<Rightarrow> nat \<Rightarrow> u64 \<Rightarrow> 's
    \<Rightarrow> (mold_error_info + nat \<times> u64) \<times> 's" where
  "mold_messages le sink buf 0 off sq s = (Inr (off, sq), s)"
| "mold_messages le sink buf (Suc n) off sq s =
     (if length buf - off < 2 then (Inl (mold_fault TruncatedMessage off), s)
      else let msg_len = unat (load_be16 le (drop off buf)); off = off + 2
           in if msg_len = 0 then (Inl (mold_fault BadMessageLength off), s)
              else if length buf - off < msg_len then (Inl (mold_fault TruncatedMessage off), s)
              else mold_messages le sink buf n (off + msg_len) (sq + 1)
                     (sink s (take msg_len (drop off buf)) sq))"

lemma mold_messages_advance:
  "mold_messages le sink buf n off sq s = (Inr (off', sq'), s') \<Longrightarrow> off \<le> off'"
  by (induction n arbitrary: off sq s) (fastforce simp: Let_def split: if_splits)+

function mold_loop :: "bool \<Rightarrow> 's mold_sink \<Rightarrow> byte list \<Rightarrow> nat \<Rightarrow> mold_state \<Rightarrow> 's
    \<Rightarrow> (mold_error_info + nat) \<times> 's" where
  "mold_loop le sink buf off st s =
     (if off < length buf then
        (if length buf - off < kPacketHeaderSize then (Inl (mold_fault TruncatedHeader off), s)
         else
           (let pkt_off = off; hdr = load_packet_header le (drop off buf); off = off + kPacketHeaderSize
            in case mold_admit hdr pkt_off st of
                 Inl e \<Rightarrow> (Inl e, s)
               | Inr st \<Rightarrow>
                   (if pv_count hdr = kEndSessionCount then
                      (if off \<noteq> length buf then (Inl (mold_fault TrailingBytes off), s) else (Inr off, s))
                    else if pv_count hdr = kHeartbeatCount then
                      (if pv_sequence hdr \<noteq> ms_expected_seq st
                       then (Inl (sequence_fault (ms_expected_seq st) hdr pkt_off), s)
                       else mold_loop le sink buf off st s)
                    else
                      (case mold_messages le sink buf (unat (pv_count hdr)) off (ms_expected_seq st) s of
                         (Inl e, s) \<Rightarrow> (Inl e, s)
                       | (Inr (off, sq), s) \<Rightarrow>
                           mold_loop le sink buf off (st\<lparr> ms_expected_seq := sq \<rparr>) s))))
      else (Inr off, s))"
  by pat_completeness auto
termination
  by (relation "measure (\<lambda>(_, _, buf, off, _, _). length buf - off)")
    (auto simp: kPacketHeaderSize_def dest!: mold_messages_advance[OF sym])

declare mold_loop.simps [simp del]

definition parse_moldudp64 :: "bool \<Rightarrow> 's mold_sink \<Rightarrow> byte list \<Rightarrow> 's \<Rightarrow> (mold_error_info + nat) \<times> 's" where
  "parse_moldudp64 le sink buf s = mold_loop le sink buf 0 mold_init s"

section \<open>Packets as data\<close>

datatype mold_packet = DataPacket "byte list" u64 "byte list list" | Heartbeat "byte list" u64
  | EndSession "byte list" u64

definition message_block :: "byte list \<Rightarrow> byte list" where
  "message_block m = store_be16 True (of_nat (length m)) @ m"

definition header_bytes :: "byte list \<Rightarrow> u64 \<Rightarrow> u16 \<Rightarrow> byte list" where
  "header_bytes session sq n = session @ store_be64 True sq @ store_be16 True n"

fun packet_bytes :: "mold_packet \<Rightarrow> byte list" where
  "packet_bytes (DataPacket session sq ms) =
     header_bytes session sq (of_nat (length ms)) @ concat (map message_block ms)"
| "packet_bytes (Heartbeat session sq) = header_bytes session sq kHeartbeatCount"
| "packet_bytes (EndSession session sq) = header_bytes session sq kEndSessionCount"

definition message_ok :: "byte list \<Rightarrow> bool" where
  "message_ok m \<longleftrightarrow> 0 < length m \<and> length m < 2 ^ 16"

fun packet_ok :: "mold_packet \<Rightarrow> bool" where
  "packet_ok (DataPacket session sq ms) \<longleftrightarrow>
     length session = kSessionSize \<and> 0 < length ms \<and> length ms < 2 ^ 16 - 1 \<and> (\<forall>m \<in> set ms. message_ok m)"
| "packet_ok (Heartbeat session sq) \<longleftrightarrow> length session = kSessionSize"
| "packet_ok (EndSession session sq) \<longleftrightarrow> length session = kSessionSize"

text \<open>The continuity rule over packets: the running session is \<open>None\<close> before the first packet, then
  the session with its next sequence number. Only the last packet may end the session.\<close>

fun mold_next :: "(byte list \<times> u64) option \<Rightarrow> mold_packet \<Rightarrow> (byte list \<times> u64) option" where
  "mold_next run (DataPacket session sq ms) = Some (session, sq + of_nat (length ms))"
| "mold_next run (Heartbeat session sq) = Some (session, sq)"
| "mold_next run (EndSession session sq) = (case run of None \<Rightarrow> Some (session, sq) | Some r \<Rightarrow> Some r)"

definition in_sequence :: "(byte list \<times> u64) option \<Rightarrow> byte list \<Rightarrow> u64 \<Rightarrow> bool" where
  "in_sequence run session sq \<longleftrightarrow> (case run of None \<Rightarrow> True | Some (se, e) \<Rightarrow> session \<noteq> se \<or> sq = e)"

fun continuous :: "(byte list \<times> u64) option \<Rightarrow> mold_packet list \<Rightarrow> bool" where
  "continuous run [] \<longleftrightarrow> True"
| "continuous run (EndSession session sq # ps) \<longleftrightarrow> ps = []"
| "continuous run (DataPacket session sq ms # ps) \<longleftrightarrow>
     in_sequence run session sq \<and> continuous (mold_next run (DataPacket session sq ms)) ps"
| "continuous run (Heartbeat session sq # ps) \<longleftrightarrow>
     in_sequence run session sq \<and> continuous (mold_next run (Heartbeat session sq)) ps"

fun number_from :: "u64 \<Rightarrow> byte list list \<Rightarrow> (byte list \<times> u64) list" where
  "number_from sq [] = []"
| "number_from sq (m # ms) = (m, sq) # number_from (sq + 1) ms"

fun packet_messages :: "mold_packet \<Rightarrow> (byte list \<times> u64) list" where
  "packet_messages (DataPacket session sq ms) = number_from sq ms"
| "packet_messages (Heartbeat session sq) = []"
| "packet_messages (EndSession session sq) = []"

end
