(* ===== verification/MoldProofs.thy ===== *)
theory MoldProofs
  imports MoldUdp
begin

text \<open>
  The parser against packets as data: one packet at a time, then whole streams in both directions.
\<close>

definition deliver_mold :: "'s mold_sink \<Rightarrow> (byte list \<times> u64) list \<Rightarrow> 's \<Rightarrow> 's" where
  "deliver_mold sink ms s = foldl (\<lambda>s (m, sq). sink s m sq) s ms"

definition running :: "mold_state \<Rightarrow> (byte list \<times> u64) option" where
  "running st = (if ms_established st then Some (ms_session st, ms_expected_seq st) else None)"

lemma deliver_mold_simps [simp]:
  "deliver_mold sink [] s = s"
  "deliver_mold sink ((m, sq) # ms) s = deliver_mold sink ms (sink s m sq)"
  "deliver_mold sink (xs @ ys) s = deliver_mold sink ys (deliver_mold sink xs s)"
  by (simp_all add: deliver_mold_def)

lemmas mold_sizes = kSessionSize_def kPacketHeaderSize_def

lemma drop_drop_comm: "drop (a + b) xs = drop b (drop a xs)"
  by (simp add: add.commute)

section \<open>Headers\<close>

lemma length_header_bytes [simp]: "length (header_bytes session sq n) = length session + 10"
  by (simp add: header_bytes_def)

lemma load_header_bytes:
  assumes "length session = kSessionSize"
  shows "load_packet_header le (header_bytes session sq n @ rest) =
    \<lparr> pv_session = session, pv_sequence = sq, pv_count = n \<rparr>"
  using assms
  by (simp add: load_packet_header_def header_bytes_def load_store_be64 load_store_be16[of le True n rest, simplified])

lemma header_bytes_load:
  assumes "kPacketHeaderSize \<le> length p" and "load_packet_header le p = hdr"
  shows "p = header_bytes (pv_session hdr) (pv_sequence hdr) (pv_count hdr) @ drop kPacketHeaderSize p"
    and "length (pv_session hdr) = kSessionSize"
proof -
  have "store_be64 True (load_be64 le (drop 10 p)) = take 8 (drop 10 p)"
    "store_be16 True (load_be16 le (drop 18 p)) = take 2 (drop 18 p)"
    using assms(1) by (simp_all add: byte_simps mold_sizes)
  moreover have "p = take 10 p @ take 8 (drop 10 p) @ take 2 (drop 18 p) @ drop 20 p"
    using drop_drop_comm[of 10 8 p] drop_drop_comm[of 18 2 p] append_take_drop_id[of 10 p]
      append_take_drop_id[of 8 "drop 10 p"] append_take_drop_id[of 2 "drop 18 p"]
    by simp
  ultimately show "p = header_bytes (pv_session hdr) (pv_sequence hdr) (pv_count hdr) @ drop kPacketHeaderSize p"
    using assms(2) by (auto simp: header_bytes_def load_packet_header_def mold_sizes)
  show "length (pv_session hdr) = kSessionSize"
    using assms by (auto simp: load_packet_header_def mold_sizes)
qed

section \<open>Message blocks\<close>

lemma unat_of_nat_small: "n < 2 ^ 16 \<Longrightarrow> unat (of_nat n :: u16) = n"
  by (simp add: unat_of_nat take_bit_nat_eq_self)

lemma mold_messages_forward:
  assumes "drop off buf = concat (map message_block ms) @ rest" and "\<forall>m \<in> set ms. message_ok m"
  shows "mold_messages le sink buf (length ms) off sq s =
    (Inr (off + length (concat (map message_block ms)), sq + of_nat (length ms)),
     deliver_mold sink (number_from sq ms) s)"
  using assms
proof (induction ms arbitrary: off sq s)
  case (Cons m ms)
  have m: "0 < length m" "length m < 2 ^ 16" using Cons.prems(2) by (simp_all add: message_ok_def)
  have d: "drop off buf = store_be16 True (of_nat (length m)) @ m @ concat (map message_block ms) @ rest"
    using Cons.prems(1) by (simp add: message_block_def[of m])
  have len: "length buf - off = 2 + length m + length (concat (map message_block ms) @ rest)"
    using arg_cong[OF d, of length] by simp
  have ml: "unat (load_be16 le (drop off buf)) = length m"
    using m by (simp add: d load_store_be16 unat_of_nat_small)
  have d2: "drop (off + 2) buf = m @ concat (map message_block ms) @ rest"
    using drop_drop_comm[of off 2 buf] d by simp
  have d3: "drop (off + 2 + length m) buf = concat (map message_block ms) @ rest"
    unfolding drop_drop_comm[of "off + 2" "length m" buf] d2 by simp
  have t: "take (length m) (drop (off + 2) buf) = m" unfolding d2 by simp
  have r: "\<not> length buf - off < 2" "\<not> length buf - (off + 2) < length m" using len by linarith+
  have "mold_messages le sink buf (Suc (length ms)) off sq s =
      mold_messages le sink buf (length ms) (off + 2 + length m) (sq + 1) (sink s m sq)"
    using m r by (simp only: mold_messages.simps Let_def ml t if_False) simp
  also have "\<dots> = (Inr (off + 2 + length m + length (concat (map message_block ms)), sq + 1 + of_nat (length ms)),
      deliver_mold sink (number_from (sq + 1) ms) (sink s m sq))"
    using Cons.IH[OF d3] Cons.prems(2) by simp
  finally show ?case by (simp add: message_block_def[of m] add.assoc)
qed simp

lemma mold_messages_inverse:
  assumes "mold_messages le sink buf n off sq s = (Inr (off', sq'), s')" and "off \<le> length buf"
  shows "\<exists>ms. length ms = n \<and> (\<forall>m \<in> set ms. message_ok m) \<and> off' \<le> length buf \<and>
    drop off buf = concat (map message_block ms) @ drop off' buf \<and>
    off' = off + length (concat (map message_block ms)) \<and> sq' = sq + of_nat n \<and>
    s' = deliver_mold sink (number_from sq ms) s"
  using assms
proof (induction n arbitrary: off sq s)
  case 0
  then show ?case by (intro exI[of _ "[]"]) simp
next
  case (Suc n)
  let ?w = "load_be16 le (drop off buf)"
  let ?m = "take (unat ?w) (drop (off + 2) buf)"
  from Suc.prems have c: "2 \<le> length buf - off" "unat ?w \<noteq> 0" "unat ?w \<le> length buf - (off + 2)"
    and r: "mold_messages le sink buf n (off + 2 + unat ?w) (sq + 1) (sink s ?m sq) = (Inr (off', sq'), s')"
    by (auto simp: Let_def split: if_splits)
  have b: "off + 2 + unat ?w \<le> length buf" using c by linarith
  from Suc.IH[OF r b] obtain ms where ms: "length ms = n" "\<forall>m \<in> set ms. message_ok m" "off' \<le> length buf"
    "drop (off + 2 + unat ?w) buf = concat (map message_block ms) @ drop off' buf"
    "off' = off + 2 + unat ?w + length (concat (map message_block ms))" "sq' = sq + 1 + of_nat n"
    "s' = deliver_mold sink (number_from (sq + 1) ms) (sink s ?m sq)" by blast
  have lm: "length ?m = unat ?w" using c by simp
  have "unat ?w < 2 ^ LENGTH(16)" by (rule unsigned_less)
  then have ok: "message_ok ?m" using c(2) lm by (simp add: message_ok_def)
  have "store_be16 True ?w = take 2 (drop off buf)" using c(1) by (simp add: byte_simps)
  then have blk: "message_block ?m = take 2 (drop off buf) @ ?m" using lm by (simp add: message_block_def)
  have "drop off buf = take 2 (drop off buf) @ ?m @ drop (off + 2 + unat ?w) buf"
    by (metis append_take_drop_id drop_drop add.commute)
  then have "drop off buf = message_block ?m @ concat (map message_block ms) @ drop off' buf"
    using blk ms(4) by simp
  moreover have "off' = off + length (concat (map message_block (?m # ms)))"
    using ms(5) blk lm c(1) by simp
  moreover have "s' = deliver_mold sink (number_from sq (?m # ms)) s" using ms(7) by simp
  moreover have "\<forall>m \<in> set (?m # ms). message_ok m" using ms(2) ok by simp
  ultimately show ?case
    using ms(1,3,6) by (intro exI[of _ "?m # ms"]) (simp add: add.assoc)
qed

section \<open>One packet\<close>

lemma unat_count:
  assumes "0 < n" and "n < 2 ^ 16 - 1"
  shows "unat (of_nat n :: u16) = n" "(of_nat n :: u16) \<noteq> kEndSessionCount" "(of_nat n :: u16) \<noteq> kHeartbeatCount"
proof -
  show u: "unat (of_nat n :: u16) = n" using assms by (simp add: unat_of_nat_small)
  show "(of_nat n :: u16) \<noteq> kEndSessionCount" using assms u by (auto simp: kEndSessionCount_def)
  show "(of_nat n :: u16) \<noteq> kHeartbeatCount"
  proof
    assume "(of_nat n :: u16) = kHeartbeatCount"
    then have "unat (of_nat n :: u16) = unat kHeartbeatCount" by simp
    then show False using assms u by (simp add: kHeartbeatCount_def)
  qed
qed

lemma mold_loop_header:
  assumes "drop off buf = header_bytes session sq n @ rest" and "length session = kSessionSize"
  shows "mold_loop le sink buf off st s =
    (case mold_admit \<lparr> pv_session = session, pv_sequence = sq, pv_count = n \<rparr> off st of
       Inl e \<Rightarrow> (Inl e, s)
     | Inr st \<Rightarrow>
         (if n = kEndSessionCount then
            (if rest \<noteq> [] then (Inl (mold_fault TrailingBytes (off + 20)), s) else (Inr (off + 20), s))
          else if n = kHeartbeatCount then
            (if sq \<noteq> ms_expected_seq st
             then (Inl (sequence_fault (ms_expected_seq st) \<lparr> pv_session = session, pv_sequence = sq, pv_count = n \<rparr> off), s)
             else mold_loop le sink buf (off + 20) st s)
          else
            (case mold_messages le sink buf (unat n) (off + 20) (ms_expected_seq st) s of
               (Inl e, s) \<Rightarrow> (Inl e, s)
             | (Inr (off, sq), s) \<Rightarrow> mold_loop le sink buf off (st\<lparr> ms_expected_seq := sq \<rparr>) s)))"
proof -
  have "length buf - off = 20 + length rest"
    using arg_cong[OF assms(1), of length] assms(2) by (simp add: mold_sizes)
  then have "length buf = off + 20 + length rest" by arith
  then have "off < length buf" "\<not> length buf - off < 20" "off + 20 \<noteq> length buf \<longleftrightarrow> rest \<noteq> []" by auto
  then show ?thesis
    using assms
    by (subst mold_loop.simps, cases "mold_admit \<lparr> pv_session = session, pv_sequence = sq, pv_count = n \<rparr> off st")
      (simp_all add: load_header_bytes mold_sizes Let_def)
qed

lemma mold_admit_in_sequence:
  assumes "in_sequence (running st) session sq" and "n \<noteq> kEndSessionCount"
  shows "\<exists>st1. mold_admit \<lparr> pv_session = session, pv_sequence = sq, pv_count = n \<rparr> off st = Inr st1 \<and>
    ms_established st1 \<and> ms_session st1 = session \<and> ms_expected_seq st1 = sq"
  using assms by (auto simp: mold_admit_def running_def in_sequence_def split: if_splits)

text \<open>A packet in sequence is consumed and the session moves on.\<close>

lemma mold_loop_packet:
  assumes "drop off buf = packet_bytes p @ rest" and "packet_ok p"
    and "case p of DataPacket session sq ms \<Rightarrow> in_sequence (running st) session sq
      | Heartbeat session sq \<Rightarrow> in_sequence (running st) session sq | EndSession session sq \<Rightarrow> False"
  shows "\<exists>st'. running st' = mold_next (running st) p \<and>
    mold_loop le sink buf off st s =
      mold_loop le sink buf (off + length (packet_bytes p)) st' (deliver_mold sink (packet_messages p) s)"
proof (cases p)
  case (DataPacket session sq ms)
  let ?n = "of_nat (length ms) :: u16"
  let ?hdr = "\<lparr> pv_session = session, pv_sequence = sq, pv_count = ?n \<rparr>"
  have ok: "length session = kSessionSize" "0 < length ms" "length ms < 2 ^ 16 - 1" "\<forall>m \<in> set ms. message_ok m"
    using assms(2) DataPacket by auto
  note u = unat_count[OF ok(2,3)]
  obtain st1 where st1: "mold_admit ?hdr off st = Inr st1" "ms_established st1" "ms_session st1 = session"
    "ms_expected_seq st1 = sq"
    using assms(3) mold_admit_in_sequence[OF _ u(2), of st session sq off] unfolding DataPacket by auto
  have d: "drop off buf = header_bytes session sq ?n @ concat (map message_block ms) @ rest"
    using assms(1) DataPacket by simp
  have d2: "drop (off + 20) buf = concat (map message_block ms) @ rest"
    using drop_drop_comm[of off 20 buf] d ok(1) by (simp add: mold_sizes)
  show ?thesis
    using mold_loop_header[OF d ok(1), of le sink st s] st1 u mold_messages_forward[OF d2 ok(4), of le sink sq s] DataPacket ok(1)
    by (intro exI[of _ "st1\<lparr> ms_expected_seq := sq + of_nat (length ms) \<rparr>"])
      (simp add: running_def mold_sizes add.assoc)
next
  case (Heartbeat session sq)
  let ?hdr = "\<lparr> pv_session = session, pv_sequence = sq, pv_count = kHeartbeatCount \<rparr>"
  have ok: "length session = kSessionSize" using assms(2) Heartbeat by simp
  have ne: "kHeartbeatCount \<noteq> kEndSessionCount" by (simp add: kHeartbeatCount_def kEndSessionCount_def)
  obtain st1 where st1: "mold_admit ?hdr off st = Inr st1" "ms_established st1" "ms_session st1 = session"
    "ms_expected_seq st1 = sq"
    using assms(3) mold_admit_in_sequence[OF _ ne, of st session sq off] unfolding Heartbeat by auto
  have d: "drop off buf = header_bytes session sq kHeartbeatCount @ rest" using assms(1) Heartbeat by simp
  show ?thesis
    using mold_loop_header[OF d ok, of le sink st s] st1 ne Heartbeat ok
    by (intro exI[of _ st1]) (simp add: running_def mold_sizes)
next
  case (EndSession session sq)
  then show ?thesis using assms(3) by simp
qed

lemma mold_loop_end:
  assumes "drop off buf = packet_bytes (EndSession session sq)" and "length session = kSessionSize"
  shows "mold_loop le sink buf off st s = (Inr (length buf), s)"
proof -
  have d: "drop off buf = header_bytes session sq kEndSessionCount @ []" using assms(1) by simp
  have "\<exists>st1. mold_admit \<lparr> pv_session = session, pv_sequence = sq, pv_count = kEndSessionCount \<rparr> off st = Inr st1"
    by (simp add: mold_admit_def)
  moreover have "off + 20 = length buf"
    using arg_cong[OF d, of length] assms(2) by (simp add: mold_sizes)
  ultimately show ?thesis
    using mold_loop_header[OF d assms(2), of le sink st s] by auto
qed

section \<open>Streams\<close>

definition all_messages :: "mold_packet list \<Rightarrow> (byte list \<times> u64) list" where
  "all_messages ps = concat (map packet_messages ps)"

lemma mold_loop_done: "length buf \<le> off \<Longrightarrow> mold_loop le sink buf off st s = (Inr off, s)"
  by (subst mold_loop.simps) simp

lemma continuous_cases:
  assumes "continuous run (p # ps)"
  shows "(\<exists>session sq. p = EndSession session sq \<and> ps = []) \<or>
    (continuous (mold_next run p) ps \<and>
     (case p of DataPacket session sq ms \<Rightarrow> in_sequence run session sq
      | Heartbeat session sq \<Rightarrow> in_sequence run session sq | EndSession session sq \<Rightarrow> False))"
  using assms by (cases p) auto

lemma mold_loop_forward:
  assumes "drop off buf = concat (map packet_bytes ps)" and "\<forall>p \<in> set ps. packet_ok p"
    and "continuous (running st) ps" and "off \<le> length buf"
  shows "mold_loop le sink buf off st s = (Inr (length buf), deliver_mold sink (all_messages ps) s)"
  using assms
proof (induction ps arbitrary: off st s)
  case Nil
  then show ?case by (simp add: mold_loop_done all_messages_def)
next
  case (Cons p ps)
  from continuous_cases[OF Cons.prems(3)] show ?case
  proof
    assume "\<exists>session sq. p = EndSession session sq \<and> ps = []"
    then obtain session sq where p: "p = EndSession session sq" "ps = []" by blast
    with Cons.prems show ?thesis
      using mold_loop_end[of off buf session sq] by (simp add: all_messages_def)
  next
    assume c: "continuous (mold_next (running st) p) ps \<and>
     (case p of DataPacket session sq ms \<Rightarrow> in_sequence (running st) session sq
      | Heartbeat session sq \<Rightarrow> in_sequence (running st) session sq | EndSession session sq \<Rightarrow> False)"
    have d: "drop off buf = packet_bytes p @ concat (map packet_bytes ps)" using Cons.prems(1) by simp
    have ok: "packet_ok p" using Cons.prems(2) by simp
    from mold_loop_packet[OF d ok conjunct2[OF c], of le sink s] obtain st' where
      st': "running st' = mold_next (running st) p" and
      eq: "mold_loop le sink buf off st s =
        mold_loop le sink buf (off + length (packet_bytes p)) st' (deliver_mold sink (packet_messages p) s)" by blast
    have d': "drop (off + length (packet_bytes p)) buf = concat (map packet_bytes ps)"
      using drop_drop_comm[of off "length (packet_bytes p)" buf] d by simp
    have len: "off + length (packet_bytes p) \<le> length buf"
      using arg_cong[OF d, of length] Cons.prems(4) by simp
    show ?thesis
      using Cons.IH[OF d' _ _ len, of st'] Cons.prems(2) c st' by (simp add: eq all_messages_def)
  qed
qed

lemma mold_admitted:
  assumes "mold_admit \<lparr> pv_session = session, pv_sequence = sq, pv_count = n \<rparr> off st = Inr st1"
    and "n \<noteq> kEndSessionCount" and "n = kHeartbeatCount \<longrightarrow> sq = ms_expected_seq st1"
  shows "in_sequence (running st) session sq" "running st1 = Some (session, sq)" "ms_expected_seq st1 = sq"
  using assms by (auto simp: mold_admit_def running_def in_sequence_def split: if_splits)

lemma mold_loop_inverse:
  assumes "mold_loop le sink buf off st s = (Inr n, s')" and "off \<le> length buf"
  shows "\<exists>ps. drop off buf = concat (map packet_bytes ps) \<and> (\<forall>p \<in> set ps. packet_ok p) \<and>
    continuous (running st) ps \<and> n = length buf \<and> s' = deliver_mold sink (all_messages ps) s"
  using assms
proof (induction "length buf - off" arbitrary: off st s rule: less_induct)
  case less
  show ?case
  proof (cases "off < length buf")
    case False
    then show ?thesis
      using less.prems mold_loop_done[of buf off le sink st s]
      by (intro exI[of _ "[]"]) (simp add: all_messages_def)
  next
    case True
    then have long: "kPacketHeaderSize \<le> length (drop off buf)"
      using less.prems(1) by (subst (asm) mold_loop.simps) (auto split: if_splits)
    obtain session sq cnt where hdr: "load_packet_header le (drop off buf) =
        \<lparr> pv_session = session, pv_sequence = sq, pv_count = cnt \<rparr>" by (metis packet_view.cases)
    let ?hdr = "\<lparr> pv_session = session, pv_sequence = sq, pv_count = cnt \<rparr>"
    let ?rest = "drop (off + 20) buf"
    have d: "drop off buf = header_bytes session sq cnt @ ?rest" and sl: "length session = kSessionSize"
      using header_bytes_load[OF long hdr] by (simp_all add: mold_sizes add.commute)
    have off20: "off + 20 \<le> length buf" using long by (simp add: mold_sizes)
    note eq = mold_loop_header[OF d sl, of le sink st s]
    obtain st1 where st1: "mold_admit ?hdr off st = Inr st1"
      using eq less.prems(1) by (cases "mold_admit ?hdr off st") auto
    show ?thesis
    proof (cases "cnt = kEndSessionCount")
      case True
      then have r: "?rest = []" "n = off + 20" "s' = s" using eq less.prems(1) st1 by (auto split: if_splits)
      show ?thesis
        using d r sl True off20 by (intro exI[of _ "[EndSession session sq]"]) (auto simp: all_messages_def)
    next
      case nend: False
      show ?thesis
      proof (cases "cnt = kHeartbeatCount")
        case True
        then have h: "sq = ms_expected_seq st1" "mold_loop le sink buf (off + 20) st1 s = (Inr n, s')"
          using eq less.prems(1) st1 nend by (auto split: if_splits)
        note a = mold_admitted[OF st1 nend] 
        have "length buf - (off + 20) < length buf - off" using \<open>off < length buf\<close> by linarith
        from less.hyps[OF this h(2) off20] obtain ps where
          ps: "?rest = concat (map packet_bytes ps)" "\<forall>p \<in> set ps. packet_ok p" "continuous (running st1) ps"
            "n = length buf" "s' = deliver_mold sink (all_messages ps) s" by blast
        show ?thesis
          using ps d sl True a h(1) by (intro exI[of _ "Heartbeat session sq # ps"]) (auto simp: all_messages_def)
      next
        case nhb: False
        obtain off2 sq2 s2 where m: "mold_messages le sink buf (unat cnt) (off + 20) (ms_expected_seq st1) s = (Inr (off2, sq2), s2)"
          and l: "mold_loop le sink buf off2 (st1\<lparr> ms_expected_seq := sq2 \<rparr>) s2 = (Inr n, s')"
          using eq less.prems(1) st1 nend nhb by (auto split: sum.splits prod.splits)
        have a: "in_sequence (running st) session sq" "running st1 = Some (session, sq)" "ms_expected_seq st1 = sq"
          using mold_admitted[OF st1 nend] nhb by auto
        from mold_messages_inverse[OF m off20] obtain ms where ms: "length ms = unat cnt" "\<forall>m \<in> set ms. message_ok m"
          "off2 \<le> length buf" "?rest = concat (map message_block ms) @ drop off2 buf"
          "off2 = off + 20 + length (concat (map message_block ms))" "sq2 = sq + of_nat (unat cnt)"
          "s2 = deliver_mold sink (number_from sq ms) s" unfolding a(3) by blast
        have run2: "running (st1\<lparr> ms_expected_seq := sq2 \<rparr>) = Some (session, sq2)"
          using a(2) by (auto simp: running_def split: if_splits)
        have "length buf - off2 < length buf - off" using ms(5) \<open>off < length buf\<close> by linarith
        from less.hyps[OF this l ms(3)] obtain ps where
          ps: "drop off2 buf = concat (map packet_bytes ps)" "\<forall>p \<in> set ps. packet_ok p"
            "continuous (Some (session, sq2)) ps" "n = length buf" "s' = deliver_mold sink (all_messages ps) s2"
          unfolding run2 by blast
        have cnt: "of_nat (length ms) = cnt" using ms(1) by simp
        have "unat cnt \<noteq> 0" using nend by (auto simp: kEndSessionCount_def unat_eq_0)
        moreover have "unat cnt < 2 ^ 16 - 1"
        proof -
          have "unat cnt < 2 ^ LENGTH(16)" by (rule unsigned_less)
          moreover have "unat cnt \<noteq> unat kHeartbeatCount" using nhb by (simp add: word_unat_eq_iff)
          ultimately show ?thesis by (simp add: kHeartbeatCount_def)
        qed
        ultimately have ok: "packet_ok (DataPacket session sq ms)" using ms sl by simp
        show ?thesis
          using ps d ms a(1) cnt ok
          by (intro exI[of _ "DataPacket session sq ms # ps"]) (auto simp: all_messages_def)
      qed
    qed
  qed
qed

section \<open>Faults of sequence\<close>

fun is_end :: "mold_packet \<Rightarrow> bool" where
  "is_end (EndSession session sq) \<longleftrightarrow> True"
| "is_end _ \<longleftrightarrow> False"

lemma mold_loop_prefix:
  assumes "drop off buf = concat (map packet_bytes ps) @ rest" and "\<forall>p \<in> set ps. packet_ok p \<and> \<not> is_end p"
    and "continuous (running st) ps"
  shows "\<exists>st'. running st' = foldl mold_next (running st) ps \<and>
    mold_loop le sink buf off st s =
      mold_loop le sink buf (off + length (concat (map packet_bytes ps))) st' (deliver_mold sink (all_messages ps) s)"
  using assms
proof (induction ps arbitrary: off st s)
  case Nil
  then show ?case by (intro exI[of _ st]) (simp add: all_messages_def)
next
  case (Cons p ps)
  have c: "continuous (mold_next (running st) p) ps \<and>
     (case p of DataPacket session sq ms \<Rightarrow> in_sequence (running st) session sq
      | Heartbeat session sq \<Rightarrow> in_sequence (running st) session sq | EndSession session sq \<Rightarrow> False)"
    using continuous_cases[OF Cons.prems(3)] Cons.prems(2) by auto
  have d: "drop off buf = packet_bytes p @ concat (map packet_bytes ps) @ rest" using Cons.prems(1) by simp
  have ok: "packet_ok p" using Cons.prems(2) by simp
  from mold_loop_packet[OF d ok conjunct2[OF c], of le sink s] obtain st1 where
    st1: "running st1 = mold_next (running st) p" and
    eq: "mold_loop le sink buf off st s =
      mold_loop le sink buf (off + length (packet_bytes p)) st1 (deliver_mold sink (packet_messages p) s)" by blast
  have d': "drop (off + length (packet_bytes p)) buf = concat (map packet_bytes ps) @ rest"
    using drop_drop_comm[of off "length (packet_bytes p)" buf] d by simp
  have c1: "continuous (running st1) ps" using c st1 by simp
  from Cons.IH[OF d' _ c1, of "deliver_mold sink (packet_messages p) s"] Cons.prems(2) obtain st' where
    "running st' = foldl mold_next (running st1) ps"
    "mold_loop le sink buf (off + length (packet_bytes p)) st1 (deliver_mold sink (packet_messages p) s) =
      mold_loop le sink buf (off + length (packet_bytes p) + length (concat (map packet_bytes ps))) st'
        (deliver_mold sink (all_messages ps) (deliver_mold sink (packet_messages p) s))" by auto
  then show ?case using st1 eq by (intro exI[of _ st']) (simp add: all_messages_def add.assoc)
qed

lemma mold_loop_out_of_sequence:
  assumes "drop off buf = header_bytes session sq n @ rest" and "length session = kSessionSize"
    and "running st = Some (session, e)" and "sq \<noteq> e" and "n \<noteq> kEndSessionCount"
  shows "mold_loop le sink buf off st s =
    (Inl (sequence_fault e \<lparr> pv_session = session, pv_sequence = sq, pv_count = n \<rparr> off), s)"
proof -
  have r: "ms_established st" "ms_session st = session" "ms_expected_seq st = e"
    using assms(3) by (auto simp: running_def split: if_splits)
  then have "mold_admit \<lparr> pv_session = session, pv_sequence = sq, pv_count = n \<rparr> off st =
      (if n \<noteq> kHeartbeatCount
       then Inl (sequence_fault e \<lparr> pv_session = session, pv_sequence = sq, pv_count = n \<rparr> off) else Inr st)"
    using assms by (simp add: mold_admit_def)
  then show ?thesis
    using mold_loop_header[OF assms(1,2), of le sink st s] assms(4,5) r by (cases "n = kHeartbeatCount") simp_all
qed

end
