(* ===== verification/Session.thy ===== *)
theory Session
  imports Wire "HOL-Library.AList"
begin

text \<open>
  The session model of \<open>include/mog/Session.hpp\<close> and the frame decoding that feeds it,
  \<open>include/mog/SessionFeed.hpp\<close>: market phases, halt windows, imbalance snapshots, crosses and
  short-sale restrictions. The unordered maps are association lists with distinct keys; the code
  sorts the keys wherever it iterates, so their order never shows.
\<close>

section \<open>State\<close>

datatype phase = Idle | MessagesStarted | SystemHours | MarketOpen | MarketClosed | SystemClosed | Ended

record halt_window =
  hw_locate :: u32
  hw_start_ns :: u64
  hw_end_ns :: u64
  hw_reason :: "byte list"

record noii_snapshot =
  ns_ts_ns :: u64
  ns_locate :: u32
  ns_paired_shares :: u64
  ns_imbalance_shares :: u64
  ns_direction :: byte
  ns_near_price_ticks :: int
  ns_reference_price_ticks :: int

datatype cross_type = OpeningCross | ClosingCross | HaltIpoCross

record cross_record =
  cr_locate :: u32
  cr_price_ticks :: int
  cr_qty :: int
  cr_direction :: byte
  cr_type :: cross_type

record session_model =
  sm_phase :: phase
  sm_system_events :: nat
  sm_trading_actions :: nat
  sm_noii_updates :: nat
  sm_reg_sho_events :: nat
  sm_open_ts :: u64
  sm_close_ts :: u64
  sm_windows :: "halt_window list"
  sm_locate_to_windows :: "(u32 \<times> nat list) list"
  sm_open_crosses :: "cross_record list"
  sm_close_crosses :: "cross_record list"
  sm_halt_crosses :: "cross_record list"
  sm_latest :: "(u32 \<times> noii_snapshot) list"
  sm_informative :: "(u32 \<times> noii_snapshot) list"
  sm_sho :: "(u32 \<times> byte) list"

definition session_init :: session_model where
  "session_init = \<lparr> sm_phase = Idle, sm_system_events = 0, sm_trading_actions = 0, sm_noii_updates = 0,
     sm_reg_sho_events = 0, sm_open_ts = 0, sm_close_ts = 0, sm_windows = [], sm_locate_to_windows = [],
     sm_open_crosses = [], sm_close_crosses = [], sm_halt_crosses = [], sm_latest = [],
     sm_informative = [], sm_sho = [] \<rparr>"

section \<open>Crosses\<close>

text \<open>The sum of the two unsigned quantities wraps, then is read as a signed integer.\<close>

definition cross_of :: "cross_type \<Rightarrow> u32 \<Rightarrow> noii_snapshot \<Rightarrow> cross_record" where
  "cross_of ct locate snap = \<lparr> cr_locate = locate, cr_price_ticks = ns_near_price_ticks snap,
     cr_qty = sint (ns_paired_shares snap + ns_imbalance_shares snap),
     cr_direction = ns_direction snap, cr_type = ct \<rparr>"

definition crosses_of :: "cross_type \<Rightarrow> (u32 \<times> noii_snapshot) list \<Rightarrow> cross_record list" where
  "crosses_of ct snaps =
     (let keys = sort (map fst snaps) in map (\<lambda>locate. cross_of ct locate (the (map_of snaps locate))) keys)"

definition compute_open_cross :: "session_model \<Rightarrow> session_model" where
  "compute_open_cross m = m\<lparr> sm_open_crosses := crosses_of OpeningCross (sm_informative m) \<rparr>"

definition compute_close_cross :: "session_model \<Rightarrow> session_model" where
  "compute_close_cross m = m\<lparr> sm_close_crosses := crosses_of ClosingCross (sm_informative m) \<rparr>"

definition compute_halt_cross :: "u32 \<Rightarrow> session_model \<Rightarrow> session_model" where
  "compute_halt_cross locate m =
     (case map_of (sm_informative m) locate of
        None \<Rightarrow> m
      | Some snap \<Rightarrow> m\<lparr> sm_halt_crosses := sm_halt_crosses m @ [cross_of HaltIpoCross locate snap] \<rparr>)"

section \<open>Queries\<close>

definition is_halted :: "session_model \<Rightarrow> u32 \<Rightarrow> bool" where
  "is_halted m locate =
     (case map_of (sm_locate_to_windows m) locate of
        None \<Rightarrow> False
      | Some idxs \<Rightarrow> (\<exists>idx \<in> set idxs. hw_end_ns (sm_windows m ! idx) = 0))"

definition was_halted_at :: "session_model \<Rightarrow> u32 \<Rightarrow> u64 \<Rightarrow> bool" where
  "was_halted_at m locate ts =
     (case map_of (sm_locate_to_windows m) locate of
        None \<Rightarrow> False
      | Some idxs \<Rightarrow> (\<exists>idx \<in> set idxs. let w = sm_windows m ! idx
          in hw_start_ns w \<le> ts \<and> (hw_end_ns w = 0 \<or> ts < hw_end_ns w)))"

definition latest_noii :: "session_model \<Rightarrow> u32 \<Rightarrow> noii_snapshot option" where
  "latest_noii m locate = map_of (sm_latest m) locate"

section \<open>Events\<close>

definition on_system_event :: "byte \<Rightarrow> u64 \<Rightarrow> session_model \<Rightarrow> session_model" where
  "on_system_event c ts m =
     (let m = (if c = 0x4F then m\<lparr> sm_phase := MessagesStarted \<rparr>
               else if c = 0x53 then m\<lparr> sm_phase := SystemHours \<rparr>
               else if c = 0x51 then compute_open_cross (m\<lparr> sm_phase := MarketOpen, sm_open_ts := ts \<rparr>)
               else if c = 0x4D then compute_close_cross (m\<lparr> sm_phase := MarketClosed, sm_close_ts := ts \<rparr>)
               else if c = 0x45 then m\<lparr> sm_phase := SystemClosed \<rparr>
               else if c = 0x43 then m\<lparr> sm_phase := Ended \<rparr>
               else m)
      in m\<lparr> sm_system_events := sm_system_events m + 1 \<rparr>)"

text \<open>Every open window among the indices is closed at \<open>ts\<close>.\<close>

definition close_windows :: "u64 \<Rightarrow> nat list \<Rightarrow> halt_window list \<Rightarrow> halt_window list" where
  "close_windows ts idxs ws =
     fold (\<lambda>idx ws. if hw_end_ns (ws ! idx) = 0 then ws[idx := (ws ! idx)\<lparr> hw_end_ns := ts \<rparr>] else ws) idxs ws"

definition on_trading_action :: "u32 \<Rightarrow> byte \<Rightarrow> byte list \<Rightarrow> u64 \<Rightarrow> session_model \<Rightarrow> session_model" where
  "on_trading_action locate state reason ts m =
     (let m = (if state = 0x48 \<or> state = 0x50 then
                 (if \<not> is_halted m locate then
                    (let w = \<lparr> hw_locate = locate, hw_start_ns = ts, hw_end_ns = 0,
                               hw_reason = take 4 reason @ [0] \<rparr>;
                         idx = length (sm_windows m);
                         old = (case map_of (sm_locate_to_windows m) locate of None \<Rightarrow> [] | Some xs \<Rightarrow> xs)
                     in m\<lparr> sm_windows := sm_windows m @ [w],
                           sm_locate_to_windows := AList.update locate (old @ [idx]) (sm_locate_to_windows m) \<rparr>)
                  else m)
               else if state = 0x54 then
                 (case map_of (sm_locate_to_windows m) locate of
                    None \<Rightarrow> m
                  | Some idxs \<Rightarrow>
                      compute_halt_cross locate (m\<lparr> sm_windows := close_windows ts idxs (sm_windows m) \<rparr>))
               else m)
      in m\<lparr> sm_trading_actions := sm_trading_actions m + 1 \<rparr>)"

definition on_noii :: "noii_snapshot \<Rightarrow> session_model \<Rightarrow> session_model" where
  "on_noii snap m =
     (let m = m\<lparr> sm_latest := AList.update (ns_locate snap) snap (sm_latest m) \<rparr>;
          m = (if ns_paired_shares snap > 0 \<or> ns_imbalance_shares snap > 0
               then m\<lparr> sm_informative := AList.update (ns_locate snap) snap (sm_informative m) \<rparr> else m)
      in m\<lparr> sm_noii_updates := sm_noii_updates m + 1 \<rparr>)"

definition on_reg_sho :: "u32 \<Rightarrow> byte \<Rightarrow> session_model \<Rightarrow> session_model" where
  "on_reg_sho locate action m =
     m\<lparr> sm_sho := AList.update locate action (sm_sho m), sm_reg_sho_events := sm_reg_sho_events m + 1 \<rparr>"

section \<open>Frames\<close>

definition frame_ts :: "bool \<Rightarrow> byte list \<Rightarrow> u64" where
  "frame_ts le p = load_be48 le (drop 5 p)"

definition feed_frame :: "bool \<Rightarrow> byte \<Rightarrow> byte list \<Rightarrow> nat \<Rightarrow> session_model \<Rightarrow> bool \<times> session_model" where
  "feed_frame le type p len m =
     (if type = 0x53 then
        (if len < 12 then (False, m) else (True, on_system_event (p ! 11) (frame_ts le p) m))
      else if type = 0x48 then
        (if len < 25 then (False, m)
         else let locate = ucast (load_be16 le (drop 1 p))
              in (True, on_trading_action locate (p ! 19) (drop 21 p) (frame_ts le p) m))
      else if type = 0x49 then
        (if len < 50 then (False, m)
         else let s = \<lparr> ns_ts_ns = frame_ts le p, ns_locate = ucast (load_be16 le (drop 1 p)),
                        ns_paired_shares = load_be64 le (drop 11 p),
                        ns_imbalance_shares = load_be64 le (drop 19 p),
                        ns_direction = p ! 27,
                        ns_near_price_ticks = uint (load_be32 le (drop 40 p)),
                        ns_reference_price_ticks = uint (load_be32 le (drop 44 p)) \<rparr>
              in (True, on_noii s m))
      else if type = 0x59 then
        (if len < 20 then (False, m)
         else let locate = ucast (load_be16 le (drop 1 p)) in (True, on_reg_sho locate (p ! 19) m))
      else (False, m))"

end
