(* ===== verification/SessionProofs.thy ===== *)
theory SessionProofs
  imports Session
begin

text \<open>
  The session model against its event history: halts are the intervals between the halt and resume
  actions of a stock, a snapshot is informative until a later informative one, crosses are one per
  informative stock in ascending order.
\<close>

section \<open>Windows and their index\<close>

definition window_index_ok :: "session_model \<Rightarrow> bool" where
  "window_index_ok m \<longleftrightarrow>
     (\<forall>locate idx. (\<exists>idxs. map_of (sm_locate_to_windows m) locate = Some idxs \<and> idx \<in> set idxs) \<longleftrightarrow>
        idx < length (sm_windows m) \<and> hw_locate (sm_windows m ! idx) = locate)"

definition windows_of :: "session_model \<Rightarrow> u32 \<Rightarrow> halt_window set" where
  "windows_of m locate = {w \<in> set (sm_windows m). hw_locate w = locate}"

lemma windows_of_index:
  assumes "window_index_ok m"
  shows "windows_of m locate =
    (case map_of (sm_locate_to_windows m) locate of None \<Rightarrow> {} | Some idxs \<Rightarrow> (\<lambda>i. sm_windows m ! i) ` set idxs)"
proof -
  have "w \<in> windows_of m locate \<longleftrightarrow>
      (\<exists>i idxs. map_of (sm_locate_to_windows m) locate = Some idxs \<and> i \<in> set idxs \<and> w = sm_windows m ! i)" for w
    using assms unfolding windows_of_def window_index_ok_def by (auto simp: in_set_conv_nth) metis+
  then show ?thesis by (auto split: option.splits)
qed

lemma halted_queries:
  assumes "window_index_ok m"
  shows "is_halted m locate \<longleftrightarrow> (\<exists>w \<in> windows_of m locate. hw_end_ns w = 0)"
    "was_halted_at m locate ts \<longleftrightarrow>
       (\<exists>w \<in> windows_of m locate. hw_start_ns w \<le> ts \<and> (hw_end_ns w = 0 \<or> ts < hw_end_ns w))"
  by (auto simp: windows_of_index[OF assms] is_halted_def was_halted_at_def Let_def split: option.splits)

definition closed_at :: "u64 \<Rightarrow> halt_window \<Rightarrow> halt_window" where
  "closed_at ts w = (if hw_end_ns w = 0 then w\<lparr> hw_end_ns := ts \<rparr> else w)"

lemma close_windows_nth:
  assumes "\<forall>i \<in> set idxs. i < length ws"
  shows "length (close_windows ts idxs ws) = length ws"
    "j < length ws \<Longrightarrow> close_windows ts idxs ws ! j = (if j \<in> set idxs then closed_at ts (ws ! j) else ws ! j)"
  using assms
proof (induction idxs arbitrary: ws)
  case (Cons i idxs)
  { case 1 then show ?case using Cons.IH(1) by (simp add: close_windows_def) }
  { case 2
    let ?ws = "if hw_end_ns (ws ! i) = 0 then ws[i := (ws ! i)\<lparr> hw_end_ns := ts \<rparr>] else ws"
    have eq: "close_windows ts (i # idxs) ws = close_windows ts idxs ?ws" by (simp add: close_windows_def)
    have n: "?ws ! j = (if j = i then closed_at ts (ws ! j) else ws ! j)"
      using 2 by (auto simp: closed_at_def nth_list_update)
    have "close_windows ts idxs ?ws ! j = (if j \<in> set idxs then closed_at ts (?ws ! j) else ?ws ! j)"
      using 2 by (intro Cons.IH(2)) auto
    then show ?case unfolding eq n by (auto simp: closed_at_def) }
qed (simp_all add: close_windows_def)

section \<open>One trading action\<close>

lemma trading_action_windows:
  assumes ok: "window_index_ok m" and m': "m' = on_trading_action locate state reason ts m"
  shows "window_index_ok m'"
    "windows_of m' l =
       (if l \<noteq> locate then windows_of m l
        else if state = 0x48 \<or> state = 0x50 then
          (if is_halted m locate then windows_of m l
           else insert \<lparr> hw_locate = locate, hw_start_ns = ts, hw_end_ns = 0, hw_reason = take 4 reason @ [0] \<rparr>
                  (windows_of m l))
        else if state = 0x54 then closed_at ts ` windows_of m l
        else windows_of m l)"
proof -
  define w where "w = \<lparr> hw_locate = locate, hw_start_ns = ts, hw_end_ns = 0, hw_reason = take 4 reason @ [0] \<rparr>"
  consider (halt) "state = 0x48 \<or> state = 0x50" "\<not> is_halted m locate"
    | (stay) "(state = 0x48 \<or> state = 0x50) \<and> is_halted m locate \<or> (state \<noteq> 0x48 \<and> state \<noteq> 0x50 \<and> state \<noteq> 0x54)"
    | (absent) "state = 0x54" "map_of (sm_locate_to_windows m) locate = None"
    | (resume) idxs where "state = 0x54" "map_of (sm_locate_to_windows m) locate = Some idxs"
    by fastforce
  note cs = this
  define W where "W l = (if l \<noteq> locate then windows_of m l
        else if state = 0x48 \<or> state = 0x50 then
          (if is_halted m locate then windows_of m l else insert w (windows_of m l))
        else if state = 0x54 then closed_at ts ` windows_of m l else windows_of m l)" for l
  from cs have "window_index_ok m' \<and> windows_of m' l = W l"
  proof cases
    case halt
    then have s: "sm_windows m' = sm_windows m @ [w]"
      "sm_locate_to_windows m' = AList.update locate
         ((case map_of (sm_locate_to_windows m) locate of None \<Rightarrow> [] | Some xs \<Rightarrow> xs) @ [length (sm_windows m)])
         (sm_locate_to_windows m)"
      by (simp_all add: m' on_trading_action_def Let_def w_def)
    have "(\<exists>idxs. map_of (sm_locate_to_windows m') l = Some idxs \<and> idx \<in> set idxs) \<longleftrightarrow>
        idx < length (sm_windows m') \<and> hw_locate (sm_windows m' ! idx) = l" for l idx
      using ok[unfolded window_index_ok_def, rule_format, of l idx]
      by (auto simp: s update_conv' nth_append w_def less_Suc_eq split: option.splits)
    moreover have "windows_of m' l = W l" using halt by (auto simp: windows_of_def W_def s w_def)
    ultimately show ?thesis by (simp add: window_index_ok_def)
  next
    case stay
    then have "sm_windows m' = sm_windows m" "sm_locate_to_windows m' = sm_locate_to_windows m"
      by (auto simp: m' on_trading_action_def Let_def)
    then show ?thesis using ok stay by (auto simp: window_index_ok_def windows_of_def W_def)
  next
    case absent
    then have "sm_windows m' = sm_windows m" "sm_locate_to_windows m' = sm_locate_to_windows m"
      by (auto simp: m' on_trading_action_def Let_def)
    then show ?thesis
      using ok absent windows_of_index[OF ok, of locate] by (auto simp: window_index_ok_def windows_of_def W_def)
  next
    case (resume idxs)
    then have s: "sm_windows m' = close_windows ts idxs (sm_windows m)"
      "sm_locate_to_windows m' = sm_locate_to_windows m"
      by (auto simp: m' on_trading_action_def Let_def compute_halt_cross_def split: option.splits)
    have b: "\<forall>i \<in> set idxs. i < length (sm_windows m)"
      using ok resume by (auto simp: window_index_ok_def)
    note cw = close_windows_nth(1)[OF b, of ts] close_windows_nth(2)[OF b, of _ ts]
    have ix: "i \<in> set idxs \<longleftrightarrow> hw_locate (sm_windows m ! i) = locate" if "i < length (sm_windows m)" for i
      using ok[unfolded window_index_ok_def, rule_format, of locate i] resume that by auto
    have n: "sm_windows m' ! i = (if hw_locate (sm_windows m ! i) = locate
        then closed_at ts (sm_windows m ! i) else sm_windows m ! i)" if "i < length (sm_windows m)" for i
      using cw(2)[OF that] ix[OF that] by (simp add: s)
    have hl: "hw_locate (closed_at ts x) = hw_locate x" for x by (simp add: closed_at_def)
    have len: "length (sm_windows m') = length (sm_windows m)" using cw(1) by (simp add: s)
    have "hw_locate (sm_windows m' ! i) = hw_locate (sm_windows m ! i)" if "i < length (sm_windows m)" for i
      using n[OF that] hl by simp
    then have i: "window_index_ok m'" using ok len by (auto simp: window_index_ok_def s)
    have "sm_windows m' = map (\<lambda>x. if hw_locate x = locate then closed_at ts x else x) (sm_windows m)"
      using n len by (intro nth_equalityI) auto
    then have "windows_of m' l = W l" using resume by (auto simp: windows_of_def W_def hl)
    with i show ?thesis ..
  qed
  then show "window_index_ok m'" "windows_of m' l =
       (if l \<noteq> locate then windows_of m l
        else if state = 0x48 \<or> state = 0x50 then
          (if is_halted m locate then windows_of m l
           else insert \<lparr> hw_locate = locate, hw_start_ns = ts, hw_end_ns = 0, hw_reason = take 4 reason @ [0] \<rparr>
                  (windows_of m l))
        else if state = 0x54 then closed_at ts ` windows_of m l
        else windows_of m l)"
    by (simp_all add: W_def w_def)
qed

section \<open>Histories\<close>

datatype market_event = SystemEvent byte u64 | TradingAction u32 byte "byte list" u64
  | Noii noii_snapshot | RegSho u32 byte

fun session_step :: "market_event \<Rightarrow> session_model \<Rightarrow> session_model" where
  "session_step (SystemEvent c ts) m = on_system_event c ts m"
| "session_step (TradingAction locate state reason ts) m = on_trading_action locate state reason ts m"
| "session_step (Noii snap) m = on_noii snap m"
| "session_step (RegSho locate action) m = on_reg_sho locate action m"

definition session_run :: "market_event list \<Rightarrow> session_model" where
  "session_run evs = fold session_step evs session_init"

text \<open>The halt and resume actions of a stock: (timestamp, halts).\<close>

fun halt_actions :: "u32 \<Rightarrow> market_event list \<Rightarrow> (u64 \<times> bool) list" where
  "halt_actions l [] = []"
| "halt_actions l (TradingAction locate state reason ts # evs) =
     (if locate = l \<and> (state = 0x48 \<or> state = 0x50) then (ts, True) # halt_actions l evs
      else if locate = l \<and> state = 0x54 then (ts, False) # halt_actions l evs
      else halt_actions l evs)"
| "halt_actions l (SystemEvent c ts # evs) = halt_actions l evs"
| "halt_actions l (Noii snap # evs) = halt_actions l evs"
| "halt_actions l (RegSho locate action # evs) = halt_actions l evs"

definition halted_spec :: "(u64 \<times> bool) list \<Rightarrow> u64 \<Rightarrow> bool" where
  "halted_spec acts t = (let past = filter (\<lambda>a. fst a \<le> t) acts in past \<noteq> [] \<and> snd (last past))"

fun informative_of :: "u32 \<Rightarrow> market_event list \<Rightarrow> noii_snapshot list" where
  "informative_of l [] = []"
| "informative_of l (Noii snap # evs) =
     (if ns_locate snap = l \<and> (ns_paired_shares snap > 0 \<or> ns_imbalance_shares snap > 0)
      then snap # informative_of l evs else informative_of l evs)"
| "informative_of l (SystemEvent c ts # evs) = informative_of l evs"
| "informative_of l (TradingAction locate state reason ts # evs) = informative_of l evs"
| "informative_of l (RegSho locate action # evs) = informative_of l evs"

lemma halt_actions_append [simp]: "halt_actions l (xs @ ys) = halt_actions l xs @ halt_actions l ys"
  by (induction l xs rule: halt_actions.induct) auto

lemma informative_of_append [simp]: "informative_of l (xs @ ys) = informative_of l xs @ informative_of l ys"
  by (induction l xs rule: informative_of.induct) auto

lemma session_run_snoc [simp]: "session_run (evs @ [e]) = session_step e (session_run evs)"
  by (simp add: session_run_def)

lemma windows_unchanged:
  "sm_windows (on_system_event c ts m) = sm_windows m" "sm_windows (on_noii snap m) = sm_windows m"
  "sm_windows (on_reg_sho locate action m) = sm_windows m"
  "sm_locate_to_windows (on_system_event c ts m) = sm_locate_to_windows m"
  "sm_locate_to_windows (on_noii snap m) = sm_locate_to_windows m"
  "sm_locate_to_windows (on_reg_sho locate action m) = sm_locate_to_windows m"
  by (simp_all add: on_system_event_def on_noii_def on_reg_sho_def compute_open_cross_def compute_close_cross_def Let_def)

definition halts_track :: "session_model \<Rightarrow> u32 \<Rightarrow> (u64 \<times> bool) list \<Rightarrow> bool" where
  "halts_track m l acts \<longleftrightarrow>
     (is_halted m l \<longleftrightarrow> acts \<noteq> [] \<and> snd (last acts)) \<and> (\<forall>t. was_halted_at m l t \<longleftrightarrow> halted_spec acts t) \<and>
     (\<forall>w \<in> windows_of m l. \<exists>a \<in> set acts. hw_start_ns w \<le> fst a \<and> hw_end_ns w \<le> fst a)"

lemma tracks_cong:
  assumes "sm_windows m' = sm_windows m" and "sm_locate_to_windows m' = sm_locate_to_windows m"
  shows "window_index_ok m' = window_index_ok m" "halts_track m' l acts = halts_track m l acts"
  unfolding window_index_ok_def halts_track_def is_halted_def was_halted_at_def windows_of_def assms by (rule refl)+

lemma halted_spec_snoc:
  "halted_spec (acts @ [(ts, b)]) t = (if ts \<le> t then b else halted_spec acts t)"
  by (simp add: halted_spec_def Let_def)

lemma halts_track_step:
  assumes ok: "window_index_ok m" and h: "halts_track m l acts"
    and ts: "\<forall>a \<in> set acts. fst a \<le> ts" and act: "state = 0x48 \<or> state = 0x50 \<or> (state = 0x54 \<and> ts \<noteq> 0)"
  shows "halts_track (on_trading_action l state reason ts m) l (acts @ [(ts, state \<noteq> 0x54)])"
proof -
  let ?m = "on_trading_action l state reason ts m"
  note w = trading_action_windows[OF ok refl, of l state reason ts]
  note q = halted_queries[OF ok] and q' = halted_queries[OF w(1)]
  have b: "hw_start_ns x \<le> ts" "hw_end_ns x \<le> ts" if "x \<in> windows_of m l" for x
    using h that ts unfolding halts_track_def by (meson order_trans)+
  have spec: "(\<exists>x \<in> windows_of m l. hw_start_ns x \<le> t \<and> (hw_end_ns x = 0 \<or> t < hw_end_ns x)) \<longleftrightarrow> halted_spec acts t"
    for t using h q(2) by (simp add: halts_track_def)
  show ?thesis
  proof (cases "state = 0x54")
    case True
    then have ws: "windows_of ?m l = closed_at ts ` windows_of m l" using w(2)[of l] by simp
    have ne: "hw_end_ns (closed_at ts x) \<noteq> 0" for x using True act by (auto simp: closed_at_def)
    have "was_halted_at ?m l t \<longleftrightarrow> (if ts \<le> t then False else halted_spec acts t)" for t
    proof (cases "ts \<le> t")
      case le: True
      have "\<not> (t < hw_end_ns (closed_at ts x))" if "x \<in> windows_of m l" for x
        using b[OF that] le by (auto simp: closed_at_def)
      then show ?thesis using le ne by (auto simp: q' ws)
    next
      case False
      have "hw_start_ns (closed_at ts x) = hw_start_ns x"
        "(hw_end_ns (closed_at ts x) = 0 \<or> t < hw_end_ns (closed_at ts x)) = (hw_end_ns x = 0 \<or> t < hw_end_ns x)" for x
        using False True act by (auto simp: closed_at_def)
      then show ?thesis using False unfolding spec[symmetric] q' ws by simp
    qed
    moreover have "\<not> is_halted ?m l" using ne by (auto simp: q' ws)
    moreover have "\<forall>w \<in> windows_of ?m l. hw_start_ns w \<le> ts \<and> hw_end_ns w \<le> ts"
      unfolding ws using b by (auto simp: closed_at_def)
    ultimately show ?thesis unfolding halts_track_def halted_spec_snoc using True by auto
  next
    case False
    then have st: "state = 0x48 \<or> state = 0x50" using act by auto
    show ?thesis
    proof (cases "is_halted m l")
      case True
      then have ws: "windows_of ?m l = windows_of m l" using w(2)[of l] st by auto
      have "was_halted_at ?m l t \<longleftrightarrow> (if ts \<le> t then True else halted_spec acts t)" for t
      proof (cases "ts \<le> t")
        case le: True
        obtain x where "x \<in> windows_of m l" "hw_end_ns x = 0" using True q(1) by auto
        then show ?thesis using b le by (auto simp: q' ws intro: order_trans)
      next
        case gt: False
        then show ?thesis unfolding spec[symmetric] q' ws by simp
      qed
      then show ?thesis
        using h True q' q False by (auto simp: halts_track_def halted_spec_snoc ws)
    next
      case nh: False
      let ?w = "\<lparr> hw_locate = l, hw_start_ns = ts, hw_end_ns = 0, hw_reason = take 4 reason @ [0] \<rparr>"
      have ws: "windows_of ?m l = insert ?w (windows_of m l)" using w(2)[of l] st nh by auto
      have "was_halted_at ?m l t \<longleftrightarrow> (if ts \<le> t then True else halted_spec acts t)" for t
        unfolding spec[symmetric] q' ws by auto
      then show ?thesis
        using h False q' by (auto simp: halts_track_def halted_spec_snoc ws)
    qed
  qed
qed

fun event_times_ok :: "market_event list \<Rightarrow> bool" where
  "event_times_ok evs \<longleftrightarrow> (\<forall>l. sorted (map fst (halt_actions l evs)) \<and> (0, False) \<notin> set (halt_actions l evs))"

lemma session_run_tracks:
  assumes "event_times_ok evs"
  shows "window_index_ok (session_run evs) \<and> (\<forall>l. halts_track (session_run evs) l (halt_actions l evs))"
  using assms
proof (induction evs rule: rev_induct)
  case Nil
  show ?case
    by (simp add: session_run_def session_init_def window_index_ok_def halts_track_def is_halted_def was_halted_at_def
        halted_spec_def windows_of_def)
next
  case (snoc e evs)
  then have IH: "window_index_ok (session_run evs)" "\<And>l. halts_track (session_run evs) l (halt_actions l evs)"
    by (auto simp: sorted_append)
  show ?case
  proof (cases e)
    case (TradingAction locate state reason ts)
    note w = trading_action_windows[OF IH(1) refl, of locate state reason ts]
    note q = halted_queries[OF IH(1)] and q' = halted_queries[OF w(1)]
    have "halts_track (session_run (evs @ [e])) l (halt_actions l (evs @ [e]))" for l
    proof (cases "l = locate \<and> (state = 0x48 \<or> state = 0x50 \<or> state = 0x54)")
      case True
      then have eq: "halt_actions l (evs @ [e]) = halt_actions l evs @ [(ts, state \<noteq> 0x54)]"
        by (auto simp: TradingAction)
      have "sorted (map fst (halt_actions l (evs @ [e])))" "(0, False) \<notin> set (halt_actions l (evs @ [e]))"
        using snoc.prems unfolding event_times_ok.simps by blast+
      then have "\<forall>a \<in> set (halt_actions l evs). fst a \<le> ts" "state = 0x54 \<longrightarrow> ts \<noteq> 0"
        unfolding eq by (auto simp: sorted_append)
      then show ?thesis
        using halts_track_step[OF IH(1,2), of l ts state reason] True unfolding eq by (auto simp: TradingAction)
    next
      case False
      then have eq: "halt_actions l (evs @ [e]) = halt_actions l evs" by (auto simp: TradingAction)
      have "windows_of (on_trading_action locate state reason ts (session_run evs)) l = windows_of (session_run evs) l"
        using False w(2)[of l] by auto
      then show ?thesis
        using IH(2)[of l] unfolding eq by (simp add: TradingAction halts_track_def q q')
    qed
    then show ?thesis using w(1) by (simp add: TradingAction)
  qed (use IH in \<open>simp_all add: tracks_cong[OF windows_unchanged(1,4)] tracks_cong[OF windows_unchanged(2,5)]
      tracks_cong[OF windows_unchanged(3,6)]\<close>)
qed

section \<open>Crosses\<close>

lemma informative_step:
  "map_of (sm_informative (session_step e m)) l =
     (case e of Noii snap \<Rightarrow> if ns_locate snap = l \<and> (ns_paired_shares snap > 0 \<or> ns_imbalance_shares snap > 0)
        then Some snap else map_of (sm_informative m) l | _ \<Rightarrow> map_of (sm_informative m) l)"
  "distinct (map fst (sm_informative m)) \<Longrightarrow> distinct (map fst (sm_informative (session_step e m)))"
  by (cases e; auto simp: on_system_event_def on_trading_action_def on_noii_def on_reg_sho_def compute_open_cross_def
      compute_close_cross_def compute_halt_cross_def Let_def update_conv' distinct_update split: option.splits)+

lemma session_run_informative:
  "distinct (map fst (sm_informative (session_run evs)))"
  "map_of (sm_informative (session_run evs)) l =
     (if informative_of l evs = [] then None else Some (last (informative_of l evs)))"
proof (induction evs rule: rev_induct)
  case Nil
  { case 1 show ?case by (simp add: session_run_def session_init_def) }
  { case 2 show ?case by (simp add: session_run_def session_init_def) }
next
  case (snoc e evs)
  { case 1 show ?case using snoc(1) informative_step(2) by simp }
  { case 2 show ?case unfolding session_run_snoc informative_step(1) using snoc(2) by (cases e) auto }
qed

lemma crosses_of_sorted:
  assumes "distinct (map fst snaps)"
  shows "crosses_of ct snaps =
    map (\<lambda>l. cross_of ct l (the (map_of snaps l))) (sorted_list_of_set (dom (map_of snaps)))"
proof -
  have "sorted_list_of_set (set (map fst snaps)) = sort (map fst snaps)"
    using assms by (simp only: sorted_list_of_set_sort_remdups distinct_remdups_id[OF assms])
  then show ?thesis by (simp add: crosses_of_def dom_map_of_conv_image_fst)
qed

end
