(* ===== verification/DeltaRing.thy ===== *)
theory DeltaRing
  imports OrderBook
begin

text \<open>
  The ring of level deltas of \<open>include/mog/SnapshotRing.hpp\<close>: a power-of-two buffer that overwrites
  its oldest entry, with sequence numbers and a count of the entries lost. The capacity is
  \<open>2 ^ k\<close>; positions are masked as in the code.
\<close>

record transition =
  tr_seq :: u64
  tr_delta :: level_delta

record delta_ring =
  dr_slots :: "transition list"
  dr_head :: nat
  dr_size :: nat
  dr_next_seq :: u64
  dr_dropped :: u64

definition kZeroTransition :: transition where
  "kZeroTransition = \<lparr> tr_seq = 0, tr_delta = \<lparr> ld_price_ticks = 0, ld_qty_delta = 0, ld_side = 0 \<rparr> \<rparr>"

definition ring_new :: "nat \<Rightarrow> delta_ring" where
  "ring_new k = \<lparr> dr_slots = replicate (2 ^ k) kZeroTransition, dr_head = 0, dr_size = 0,
     dr_next_seq = 0, dr_dropped = 0 \<rparr>"

definition ring_push :: "nat \<Rightarrow> level_delta \<Rightarrow> delta_ring \<Rightarrow> delta_ring option" where
  "ring_push k d r = do {
     mog_pre (ld_qty_delta d \<noteq> 0);
     let slots = (dr_slots r)[dr_head r := \<lparr> tr_seq = dr_next_seq r, tr_delta = d \<rparr>];
     let r = r\<lparr> dr_slots := slots, dr_head := (dr_head r + 1) AND (2 ^ k - 1) \<rparr>;
     let r = (if dr_size r < 2 ^ k then r\<lparr> dr_size := dr_size r + 1 \<rparr>
              else r\<lparr> dr_dropped := dr_dropped r + 1 \<rparr>);
     Some (r\<lparr> dr_next_seq := dr_next_seq r + 1 \<rparr>)
   }"

definition ring_for_each :: "nat \<Rightarrow> delta_ring \<Rightarrow> (transition \<Rightarrow> 's \<Rightarrow> 's) \<Rightarrow> 's \<Rightarrow> 's" where
  "ring_for_each k r fn s =
     (let base = (if dr_size r < 2 ^ k then 0 else dr_head r)
      in fold (\<lambda>i. fn (dr_slots r ! ((base + i) AND (2 ^ k - 1)))) [0..<dr_size r] s)"

section \<open>The ring holds the latest deltas\<close>

definition ring_inv :: "nat \<Rightarrow> delta_ring \<Rightarrow> bool" where
  "ring_inv k r \<longleftrightarrow> length (dr_slots r) = 2 ^ k \<and> dr_head r < 2 ^ k \<and> dr_size r \<le> 2 ^ k \<and>
     (dr_size r < 2 ^ k \<longrightarrow> dr_head r = dr_size r)"

definition ring_base :: "nat \<Rightarrow> delta_ring \<Rightarrow> nat" where
  "ring_base k r = (if dr_size r < 2 ^ k then 0 else dr_head r)"

definition ring_list :: "nat \<Rightarrow> delta_ring \<Rightarrow> transition list" where
  "ring_list k r = map (\<lambda>i. dr_slots r ! ((ring_base k r + i) mod 2 ^ k)) [0..<dr_size r]"

lemma ring_new_inv: "ring_inv k (ring_new k)" "ring_list k (ring_new k) = []"
  by (simp_all add: ring_inv_def ring_new_def ring_list_def)

lemma ring_for_each_list: "ring_for_each k r fn s = fold fn (ring_list k r) s"
  by (simp add: ring_for_each_def ring_list_def ring_base_def fold_map comp_def Let_def and_pow2_minus_1[unfolded One_nat_def])

lemma ring_push_correct:
  assumes inv: "ring_inv k r" and d: "ld_qty_delta d \<noteq> 0"
  shows "\<exists>r'. ring_push k d r = Some r' \<and> ring_inv k r' \<and> dr_next_seq r' = dr_next_seq r + 1 \<and>
    ring_list k r' = (if length (ring_list k r) < 2 ^ k then ring_list k r else tl (ring_list k r)) @
      [\<lparr> tr_seq = dr_next_seq r, tr_delta = d \<rparr>] \<and>
    dr_dropped r' = (if length (ring_list k r) < 2 ^ k then dr_dropped r else dr_dropped r + 1)"
proof -
  let ?c = "2 ^ k :: nat" and ?h = "dr_head r" and ?t = "\<lparr> tr_seq = dr_next_seq r, tr_delta = d \<rparr>"
  note i = inv[unfolded ring_inv_def]
  have len: "length (ring_list k r) = dr_size r" by (simp add: ring_list_def)
  show ?thesis
  proof (cases "dr_size r < ?c")
    case True
    let ?r = "r\<lparr> dr_slots := (dr_slots r)[?h := ?t], dr_head := (?h + 1) mod ?c, dr_size := dr_size r + 1,
        dr_next_seq := dr_next_seq r + 1 \<rparr>"
    have h: "?h = dr_size r" using True i by simp
    have p: "ring_push k d r = Some ?r" using d True by (simp add: ring_push_def Let_def and_pow2_minus_1[unfolded One_nat_def])
    have wrap: "(dr_size r + 1) mod ?c = (if dr_size r + 1 < ?c then dr_size r + 1 else 0)"
      using True by (simp add: mod_if)
    have inv': "ring_inv k ?r" using i h True wrap by (auto simp: ring_inv_def)
    have base: "ring_base k ?r = 0" using h wrap True by (simp add: ring_base_def)
    have "ring_list k ?r = ring_list k r @ [?t]"
    proof (rule nth_equalityI)
      show "length (ring_list k ?r) = length (ring_list k r @ [?t])" by (simp add: ring_list_def)
    next
      fix j assume "j < length (ring_list k ?r)"
      then have j: "j < dr_size r + 1" by (simp add: ring_list_def)
      then have "ring_list k ?r ! j = (dr_slots r)[?h := ?t] ! j"
        unfolding ring_list_def base using True by (simp del: upt_Suc)
      also have "\<dots> = (ring_list k r @ [?t]) ! j"
        using j True i h len by (auto simp: nth_append ring_list_def ring_base_def nth_list_update less_Suc_eq)
      finally show "ring_list k ?r ! j = (ring_list k r @ [?t]) ! j" .
    qed
    with p inv' True len show ?thesis by simp
  next
    case False
    then have sz: "dr_size r = ?c" using i by simp
    let ?r = "r\<lparr> dr_slots := (dr_slots r)[?h := ?t], dr_head := (?h + 1) mod ?c, dr_dropped := dr_dropped r + 1,
        dr_next_seq := dr_next_seq r + 1 \<rparr>"
    have p: "ring_push k d r = Some ?r" using d False by (simp add: ring_push_def Let_def and_pow2_minus_1[unfolded One_nat_def])
    have inv': "ring_inv k ?r" using i sz by (simp add: ring_inv_def)
    have b: "ring_base k r = ?h" "ring_base k ?r = (?h + 1) mod ?c" using sz by (simp_all add: ring_base_def)
    have "ring_list k ?r = tl (ring_list k r) @ [?t]"
    proof (rule nth_equalityI)
      show "length (ring_list k ?r) = length (tl (ring_list k r) @ [?t])"
        using sz by (simp add: ring_list_def)
    next
      fix j assume "j < length (ring_list k ?r)"
      then have j: "j < ?c" using sz by (simp add: ring_list_def)
      let ?m = "(?h + 1 + j) mod ?c"
      have l: "ring_list k ?r ! j = (dr_slots r)[?h := ?t] ! ?m"
        unfolding ring_list_def b(2) using j sz by (simp add: mod_add_left_eq del: upt_Suc)
      show "ring_list k ?r ! j = (tl (ring_list k r) @ [?t]) ! j"
      proof (cases "j = ?c - 1")
        case True
        then have "?m = ?h" using i by simp
        then show ?thesis using l True i sz by (simp add: nth_append ring_list_def)
      next
        case False
        then have j1: "j + 1 < ?c" using j by simp
        have "?m \<noteq> ?h"
        proof (cases "?h + 1 + j < ?c")
          case False
          moreover have "?h + 1 + j - ?c < ?c" using i j by linarith
          ultimately have "?m = ?h + 1 + j - ?c" by (simp add: le_mod_geq)
          then show ?thesis using j1 False by linarith
        qed simp
        then show ?thesis
          using l j1 sz i by (simp add: nth_append nth_tl ring_list_def b add.assoc)
      qed
    qed
    with p inv' False len show ?thesis by simp
  qed
qed

end
