(* ===== verification/FeedProps.thy ===== *)
theory FeedProps
  imports EventQueue MoldProofs SessionProofs DeltaRing CodecProps
begin

text \<open>
  The properties of the event scheduler, of the framing and session layers around the parser, and of
  the ring of level deltas.
\<close>

section \<open>Event scheduler\<close>

lemma demo_raw_slots: "(2::nat) \<le> length (replicate 2 (fresh_slot (0::nat)))" by simp

text \<open>A queue with one event, for the witnesses.\<close>

lemma demo_scheduler:
  "\<exists>q (h :: gen_handle). sched_inv q \<and> length (sc_heap q) = 1 \<and> sc_capacity q = 2 \<and> sc_next_seq q = 1 \<and>
     pending q (h_index h) = Some (h_generation h, 5, 0, 7 :: nat)"
proof -
  from sched_new_correct[of 2 "replicate 2 (fresh_slot (0::nat))"] obtain q0 :: "nat scheduler"
    where q0: "sched_inv q0" "pending q0 = Map.empty" "sc_capacity q0 = 2" "sc_next_seq q0 = 0" "sc_heap q0 = []"
    by auto
  have "length (sc_heap q0) < sc_capacity q0" "sc_next_seq q0 \<noteq> - 1" using q0 by simp_all
  from sched_push_correct[OF q0(1) this, of 5 7] obtain h :: gen_handle and q' where
    "sched_inv q'" "length (sc_heap q') = length (sc_heap q0) + 1" "sc_capacity q' = sc_capacity q0"
      "sc_next_seq q' = sc_next_seq q0 + 1"
      "pending q' = (pending q0)(h_index h \<mapsto> (h_generation h, 5, sc_next_seq q0, 7))" by blast
  then show ?thesis using q0 by (intro exI[of _ q'] exI[of _ h]) simp
qed

lemma sched_cancel_twice:
  assumes "sched_cancel h q = Some (True, q')" and "sched_inv q'"
  shows "sched_cancel h q' = Some (False, q')"
proof -
  from assms(1) obtain q1 where "q' = free_slot (h_index h) q1"
    by (auto simp: sched_cancel_def Let_def split: if_splits option.splits bind_splits)
  then have "es_live (sc_slots q' ! h_index h) = False" if "h_index h < sc_capacity q'"
    using that slots_wfD[OF sched_invD(1)[OF assms(2)]] by (simp add: free_slot_def Let_def)
  then show ?thesis by (simp add: sched_cancel_def Let_def)
qed

text \<open>C16: From any reachable queue, \<open>n\<close> pops succeed as long as \<open>n\<close> events are scheduled; they
  return the events in strictly ascending order of timestamp and, at one timestamp, of scheduling,
  and everything left in the queue comes after them.\<close>

theorem scheduler_pops_sorted:
  assumes "sched_inv q" and "n \<le> sched_size q"
  shows "\<exists>ps q'. sq.pops n q = Some (map snd ps, q') \<and> sched_inv q' \<and> length ps = n \<and>
     sched_events q = mset ps + sched_events q' \<and> sorted_wrt (<) (map fst ps) \<and>
     (\<forall>p \<in> set ps. \<forall>x \<in># sched_events q'. fst p < fst x)"
  using sq.pops_sorted[OF assms(1)] assms size_sched_events[OF assms(1)] by (simp add: sched_size_def)

lemma scheduler_pops_sorted_witness:
  "\<exists>q ps q'. sched_inv (q :: nat scheduler) \<and> sched_size q = 1 \<and> sq.pops 1 q = Some (map snd ps, q') \<and>
     length ps = 1 \<and> sched_events q = mset ps + sched_events q'"
proof -
  from demo_scheduler obtain q :: "nat scheduler" where q: "sched_inv q" "length (sc_heap q) = 1" by blast
  then have "1 \<le> sched_size q" by (simp add: sched_size_def)
  from scheduler_pops_sorted[OF q(1) this] q show ?thesis unfolding sched_size_def by blast
qed

text \<open>Scheduling an event adds exactly it, under a handle that was free, with the next sequence
  number; cancelling through that handle removes exactly it, and cancelling a handle whose event is
  gone changes nothing.\<close>

theorem scheduler_push_cancel:
  assumes "sched_inv q" and "sched_size q < sc_capacity q" and "sc_next_seq q \<noteq> - 1"
  shows "\<exists>h q' q''. sched_push ts v q = Some (h, q') \<and> sched_inv q' \<and> pending q (h_index h) = None \<and>
     pending q' = (pending q)(h_index h \<mapsto> (h_generation h, ts, sc_next_seq q, v)) \<and>
     sched_cancel h q' = Some (True, q'') \<and> sched_inv q'' \<and> pending q'' = pending q \<and>
     sched_cancel h q'' = Some (False, q'')"
proof -
  from sched_push_correct[OF assms(1) assms(2)[unfolded sched_size_def] assms(3)] obtain h q' where
    p: "sched_push ts v q = Some (h, q')" "sched_inv q'" "pending q (h_index h) = None"
      "pending q' = (pending q)(h_index h \<mapsto> (h_generation h, ts, sc_next_seq q, v))" by blast
  then have live: "pending q' (h_index h) = Some (h_generation h, ts, sc_next_seq q, v)" by simp
  from sched_cancel_live[OF p(2) live] obtain q'' where
    c: "sched_cancel h q' = Some (True, q'')" "sched_inv q''" "pending q'' = (pending q')(h_index h := None)"
    by blast
  have "pending q'' = pending q" using p(3,4) c(3) by (auto simp: fun_eq_iff)
  then show ?thesis using p c sched_cancel_twice[OF c(1,2)] by blast
qed

lemma scheduler_push_cancel_witness:
  "\<exists>q h q' q''. sched_inv (q :: nat scheduler) \<and> sched_push 9 3 q = Some (h, q') \<and>
     sched_cancel h q' = Some (True, q'') \<and> pending q'' = pending q"
proof -
  from demo_scheduler obtain q :: "nat scheduler" where q: "sched_inv q" "length (sc_heap q) = 1"
    "sc_capacity q = 2" "sc_next_seq q = 1" by blast
  then have "sched_size q < sc_capacity q" "sc_next_seq q \<noteq> - 1" by (simp_all add: sched_size_def)
  from scheduler_push_cancel[OF q(1) this, of 9 3] q(1) show ?thesis by blast
qed

text \<open>The self-check holds of every reachable queue and always returns; clearing releases every
  event and leaves a valid queue.\<close>

theorem scheduler_audit_clear:
  assumes "sched_inv q" and "0 < sc_capacity q"
  shows "sched_audit q = Some True \<and> sched_inv (sched_clear d q) \<and> sched_empty (sched_clear d q) \<and>
     pending (sched_clear d q) = Map.empty \<and> sched_audit (sched_clear d q) = Some True"
proof -
  note c = sched_clear_correct[OF assms, of d]
  have "sched_empty (sched_clear d q)" by (simp add: sched_empty_def sched_clear_def Let_def)
  with c sched_audit_correct[OF assms(1)] sched_audit_correct[OF c(1)] show ?thesis by blast
qed

lemma scheduler_audit_clear_witness:
  "\<exists>q. sched_size (q :: nat scheduler) = 1 \<and> sched_audit q = Some True \<and> sched_audit (sched_clear 0 q) = Some True"
proof -
  from demo_scheduler obtain q :: "nat scheduler" where q: "sched_inv q" "length (sc_heap q) = 1"
    "sc_capacity q = 2" by blast
  then have "0 < sc_capacity q" by simp
  from scheduler_audit_clear[OF q(1) this, of 0] q show ?thesis by (auto simp: sched_size_def)
qed

section \<open>MoldUDP64 framing\<close>

text \<open>C20: The framing parser accepts a buffer exactly when it is a sequence of well-formed packets
  whose sequence numbers continue each other within every session and which nothing follows after an
  end of session; it then consumes all of it and delivers every payload with its number, in order.\<close>

theorem mold_exact:
  "parse_moldudp64 le sink buf s = (Inr n, s') \<longleftrightarrow>
     n = length buf \<and>
     (\<exists>ps. buf = concat (map packet_bytes ps) \<and> list_all packet_ok ps \<and> continuous None ps \<and>
        s' = deliver_mold sink (all_messages ps) s)" (is "?L \<longleftrightarrow> ?R")
proof
  have r: "running mold_init = None" by (simp add: running_def mold_init_def)
  {
    assume ?L
    from mold_loop_inverse[OF this[unfolded parse_moldudp64_def]] show ?R by (auto simp: r list_all_iff)
  next
    assume ?R
    then obtain ps where "buf = concat (map packet_bytes ps)" "list_all packet_ok ps" "continuous None ps"
      "s' = deliver_mold sink (all_messages ps) s" "n = length buf" by blast
    then show ?L
      using mold_loop_forward[of 0 buf ps mold_init le sink s]
      by (simp add: parse_moldudp64_def r list_all_iff)
  }
qed

text \<open>A data packet or heartbeat of the running session whose number is not the expected one
  stops the parser: everything before it is delivered, nothing of it is, and the error tells a gap
  from a regression with the expected and received numbers and the packet's offset.\<close>

theorem mold_gap:
  assumes "\<forall>p \<in> set ps. packet_ok p \<and> \<not> is_end p" and "continuous None ps"
    and "foldl mold_next None ps = Some (session, e)" and "length session = kSessionSize"
    and "sq \<noteq> e" and "n \<noteq> kEndSessionCount"
  shows "parse_moldudp64 le sink (concat (map packet_bytes ps) @ header_bytes session sq n @ rest) s =
    (Inl \<lparr> me_code = (if sq > e then SequenceGap else SequenceRegression),
           me_offset = length (concat (map packet_bytes ps)),
           me_gap = \<lparr> gi_expected_seq = e, gi_got_seq = sq, gi_offset = length (concat (map packet_bytes ps)),
                      gi_session = session \<rparr> \<rparr>,
     deliver_mold sink (all_messages ps) s)"
proof -
  let ?pre = "concat (map packet_bytes ps)" let ?buf = "?pre @ header_bytes session sq n @ rest"
  have r: "running mold_init = None" by (simp add: running_def mold_init_def)
  from mold_loop_prefix[of 0 ?buf ps "header_bytes session sq n @ rest" mold_init le sink s] assms(1,2) r
  obtain st where st: "running st = Some (session, e)"
    "mold_loop le sink ?buf 0 mold_init s = mold_loop le sink ?buf (length ?pre) st (deliver_mold sink (all_messages ps) s)"
    using assms(3) by auto
  have d: "drop (length ?pre) ?buf = header_bytes session sq n @ rest" by simp
  show ?thesis
    unfolding parse_moldudp64_def st(2) mold_loop_out_of_sequence[OF d assms(4) st(1) assms(5,6)]
    using assms(4) by (simp add: sequence_fault_def make_gap_def)
qed

definition demo_packet :: mold_packet where
  "demo_packet = DataPacket (replicate 10 0x41) 7 [[1, 2]]"

lemma demo_packet_facts:
  "packet_ok demo_packet" "\<not> is_end demo_packet" "continuous None [demo_packet]"
  "mold_next None demo_packet = Some (replicate 10 0x41, 8)" "length (packet_bytes demo_packet) = 24"
  "packet_messages demo_packet = [([1, 2], 7)]"
  by (simp_all add: demo_packet_def kSessionSize_def message_ok_def in_sequence_def message_block_def header_bytes_def)

lemma mold_gap_witness:
  "parse_moldudp64 True (\<lambda>k m sq. k + 1)
     (concat (map packet_bytes [demo_packet]) @ header_bytes (replicate 10 0x41) 9 1 @ []) (0::nat) =
   (Inl \<lparr> me_code = SequenceGap, me_offset = 24,
          me_gap = \<lparr> gi_expected_seq = 8, gi_got_seq = 9, gi_offset = 24, gi_session = replicate 10 0x41 \<rparr> \<rparr>, 1)"
  by (subst mold_gap[of _ "replicate 10 0x41" 8])
    (simp_all add: demo_packet_facts kSessionSize_def kEndSessionCount_def all_messages_def)

section \<open>Session model\<close>

text \<open>Whatever else the session sees, a stock counts as halted at a time exactly when the last
  halt or resume action for it up to that time was a halt, and as halted now when its last action
  was; times are non-decreasing and a resume is never at time zero.\<close>

theorem session_halts:
  assumes "event_times_ok evs"
  shows "was_halted_at (session_run evs) l t = halted_spec (halt_actions l evs) t \<and>
    is_halted (session_run evs) l = (halt_actions l evs \<noteq> [] \<and> snd (last (halt_actions l evs)))"
  using session_run_tracks[OF assms] by (simp add: halts_track_def)

lemma session_halts_witness:
  "was_halted_at (session_run [TradingAction 3 0x48 [] 10, TradingAction 3 0x54 [] 20, TradingAction 3 0x50 [] 30]) 3 15 \<and>
   \<not> was_halted_at (session_run [TradingAction 3 0x48 [] 10, TradingAction 3 0x54 [] 20, TradingAction 3 0x50 [] 30]) 3 25 \<and>
   is_halted (session_run [TradingAction 3 0x48 [] 10, TradingAction 3 0x54 [] 20, TradingAction 3 0x50 [] 30]) 3"
  using session_halts[of "[TradingAction 3 0x48 [] 10, TradingAction 3 0x54 [] 20, TradingAction 3 0x50 [] 30]" 3 15]
    session_halts[of "[TradingAction 3 0x48 [] 10, TradingAction 3 0x54 [] 20, TradingAction 3 0x50 [] 30]" 3 25]
  by (simp add: halted_spec_def)

text \<open>At the open and at the close the session records one cross per stock that ever had an
  informative imbalance snapshot, in ascending order of the stock, each computed from the last
  informative snapshot.\<close>

theorem session_crosses:
  "sm_open_crosses (session_run (evs @ [SystemEvent 0x51 ts])) =
     map (\<lambda>l. cross_of OpeningCross l (last (informative_of l evs))) (sorted_list_of_set {l. informative_of l evs \<noteq> []}) \<and>
   sm_close_crosses (session_run (evs @ [SystemEvent 0x4D ts])) =
     map (\<lambda>l. cross_of ClosingCross l (last (informative_of l evs))) (sorted_list_of_set {l. informative_of l evs \<noteq> []})"
proof -
  note i = session_run_informative[of evs]
  have d: "dom (map_of (sm_informative (session_run evs))) = {l. informative_of l evs \<noteq> []}"
    unfolding dom_def i(2) by simp
  have "crosses_of ct (sm_informative (session_run evs)) =
      map (\<lambda>l. cross_of ct l (last (informative_of l evs))) (sorted_list_of_set {l. informative_of l evs \<noteq> []})" for ct
    unfolding crosses_of_sorted[OF i(1)] d by (rule map_cong) (auto simp: i(2) d[symmetric])
  then show ?thesis
    by (simp add: on_system_event_def compute_open_cross_def compute_close_cross_def Let_def)
qed

text \<open>The session parser's listener that feeds the session model, and the event a frame stands for.\<close>

definition feed_listener :: "bool \<Rightarrow> session_model \<Rightarrow> byte \<Rightarrow> byte list \<Rightarrow> nat \<Rightarrow> session_model" where
  "feed_listener le m t p n = snd (feed_frame le t p n m)"

definition frame_event :: "bool \<Rightarrow> byte \<Rightarrow> byte list \<Rightarrow> market_event option" where
  "frame_event le t p =
     (if t = 0x53 then Some (SystemEvent (p ! 11) (load_be48 le (drop 5 p)))
      else if t = 0x48 then
        Some (TradingAction (ucast (load_be16 le (drop 1 p))) (p ! 19) (drop 21 p) (load_be48 le (drop 5 p)))
      else if t = 0x49 then
        Some (Noii \<lparr> ns_ts_ns = load_be48 le (drop 5 p), ns_locate = ucast (load_be16 le (drop 1 p)),
               ns_paired_shares = load_be64 le (drop 11 p), ns_imbalance_shares = load_be64 le (drop 19 p),
               ns_direction = p ! 27, ns_near_price_ticks = uint (load_be32 le (drop 40 p)),
               ns_reference_price_ticks = uint (load_be32 le (drop 44 p)) \<rparr>)
      else if t = 0x59 then Some (RegSho (ucast (load_be16 le (drop 1 p))) (p ! 19))
      else None)"

fun market_events :: "bool \<Rightarrow> session_event list \<Rightarrow> market_event list" where
  "market_events le [] = []"
| "market_events le (Decoded m # evs) = market_events le evs"
| "market_events le (Skipped t p n # evs) =
     (case frame_event le t p of None \<Rightarrow> market_events le evs | Some e \<Rightarrow> e # market_events le evs)"

lemma feed_frame_event:
  "n = kSessionFrame t \<Longrightarrow> feed_frame le t p n m =
     (case frame_event le t p of None \<Rightarrow> (False, m) | Some e \<Rightarrow> (True, session_step e m))"
  by (auto simp: feed_frame_def frame_event_def kSessionFrame_def kFrame_def frame_ts_def Let_def)

lemma feed_session_prefix:
  "session_prefix buf evs n \<Longrightarrow>
     foldl (deliver (\<lambda>m msg. m) (feed_listener le)) m evs = fold session_step (market_events le evs) m"
  by (induction evs arbitrary: buf n m)
    (auto simp: feed_listener_def feed_frame_event split: session_event.splits option.splits)

text \<open>Parsing a session stream with the session model as the listener of the skipped frames never
  meets a short frame: the model it ends in is the run of the market events of the frames in the
  consumed prefix, so its halt queries answer for exactly those events.\<close>

theorem session_stream_feeds_model:
  assumes "parse_itch_session_listen_as (parse_one le) (\<lambda>m msg. m) (feed_listener le) buf session_init = (r, m)"
  shows "\<exists>evs n. session_prefix buf evs n \<and> m = session_run (market_events le evs) \<and>
     (\<forall>st. r = Inr st \<longrightarrow> n = length buf) \<and>
     (event_times_ok (market_events le evs) \<longrightarrow>
        (\<forall>l t. was_halted_at m l t = halted_spec (halt_actions l (market_events le evs)) t))"
proof -
  from session_loop_result[OF assms[unfolded parse_itch_session_listen_as_def]] obtain evs n where
    e: "session_prefix buf evs n" "m = foldl (deliver (\<lambda>m msg. m) (feed_listener le)) session_init evs"
      "\<forall>st. r = Inr st \<longrightarrow> n = length buf"
    by (cases r) auto
  then have "m = session_run (market_events le evs)" by (simp add: feed_session_prefix session_run_def)
  with e(1,3) session_run_tracks[of "market_events le evs"] show ?thesis
    unfolding halts_track_def by blast
qed

definition demo_halt_frame :: "byte list" where
  "demo_halt_frame = [0x48, 0, 3, 0, 0, 0, 0, 0, 0, 0, 10, 65, 65, 65, 65, 65, 65, 65, 65, 0x48, 0, 84, 49, 32, 32]"

lemma session_stream_feeds_model_witness:
  "\<exists>evs. session_prefix demo_halt_frame evs 25 \<and>
     snd (parse_itch_session_listen_as (parse_one True) (\<lambda>m msg. m) (feed_listener True) demo_halt_frame session_init) =
       session_run (market_events True evs)"
proof -
  have "fst (parse_itch_session_listen_as (parse_one True) (\<lambda>m msg. m) (feed_listener True) demo_halt_frame session_init) =
      Inr (stats_after empty_stats [Skipped 0x48 demo_halt_frame 25])"
    unfolding parse_itch_session_listen_as_def
    by (subst session_loop_skipped[of 0 _ 25])
      (simp_all add: demo_halt_frame_def kFrame_def kSessionFrame_def session_loop_end)
  then obtain m where m: "parse_itch_session_listen_as (parse_one True) (\<lambda>m msg. m) (feed_listener True)
      demo_halt_frame session_init = (Inr (stats_after empty_stats [Skipped 0x48 demo_halt_frame 25]), m)"
    by (metis prod.collapse)
  have "length demo_halt_frame = 25" by (simp add: demo_halt_frame_def)
  with session_stream_feeds_model[OF m] m show ?thesis by (metis snd_conv)
qed

section \<open>Delta ring\<close>

fun ring_pushes :: "nat \<Rightarrow> level_delta list \<Rightarrow> delta_ring \<Rightarrow> delta_ring option" where
  "ring_pushes k [] r = Some r"
| "ring_pushes k (d # ds) r = (case ring_push k d r of None \<Rightarrow> None | Some r' \<Rightarrow> ring_pushes k ds r')"

fun numbered :: "u64 \<Rightarrow> level_delta list \<Rightarrow> transition list" where
  "numbered n [] = []"
| "numbered n (d # ds) = \<lparr> tr_seq = n, tr_delta = d \<rparr> # numbered (n + 1) ds"

lemma length_numbered [simp]: "length (numbered n ds) = length ds"
  by (induction ds arbitrary: n) auto

lemma tl_last_part: "n \<le> length xs \<Longrightarrow> 0 < n \<Longrightarrow> tl (drop (length xs - n) xs) @ ys = drop (length xs + 1 - n) xs @ ys"
  by (simp add: drop_Suc[symmetric] tl_drop Suc_diff_le)

lemma ring_pushes_correct:
  assumes "ring_inv k r" and "\<forall>d \<in> set ds. ld_qty_delta d \<noteq> 0"
  shows "\<exists>r'. ring_pushes k ds r = Some r' \<and> ring_inv k r' \<and> dr_next_seq r' = dr_next_seq r + of_nat (length ds) \<and>
    (let L = ring_list k r @ numbered (dr_next_seq r) ds
     in ring_list k r' = drop (length L - 2 ^ k) L \<and> dr_dropped r' = dr_dropped r + of_nat (length L - 2 ^ k))"
  using assms
proof (induction ds arbitrary: r)
  case Nil
  then have "length (ring_list k r) \<le> 2 ^ k" by (simp add: ring_list_def ring_inv_def)
  with Nil show ?case by (simp add: Let_def)
next
  case (Cons d ds)
  let ?L = "ring_list k r" and ?t = "\<lparr> tr_seq = dr_next_seq r, tr_delta = d \<rparr>"
  have le: "length ?L \<le> 2 ^ k" using Cons.prems(1) by (simp add: ring_list_def ring_inv_def)
  from ring_push_correct[OF Cons.prems(1), of d] Cons.prems(2) obtain r1 where
    r1: "ring_push k d r = Some r1" "ring_inv k r1" "dr_next_seq r1 = dr_next_seq r + 1"
      "ring_list k r1 = (if length ?L < 2 ^ k then ?L else tl ?L) @ [?t]"
      "dr_dropped r1 = (if length ?L < 2 ^ k then dr_dropped r else dr_dropped r + 1)" by auto
  from Cons.IH[OF r1(2)] Cons.prems(2) obtain r' where
    r': "ring_pushes k ds r1 = Some r'" "ring_inv k r'" "dr_next_seq r' = dr_next_seq r1 + of_nat (length ds)"
      "ring_list k r' = drop (length (ring_list k r1 @ numbered (dr_next_seq r1) ds) - 2 ^ k)
         (ring_list k r1 @ numbered (dr_next_seq r1) ds)"
      "dr_dropped r' = dr_dropped r1 + of_nat (length (ring_list k r1 @ numbered (dr_next_seq r1) ds) - 2 ^ k)"
    by (auto simp: Let_def)
  show ?case
  proof (cases "length ?L < 2 ^ k")
    case True
    then show ?thesis using r1 r' by (simp add: Let_def add.assoc)
  next
    case False
    then have len: "length ?L = 2 ^ k" using le by simp
    then obtain x xs where x: "?L = x # xs" by (cases ?L) auto
    then have c: "(2::nat) ^ k = Suc (length xs)" using len by simp
    have "drop (length ds + 1) (x # xs @ ?t # numbered (dr_next_seq r + 1) ds) =
        drop (length ds) (xs @ ?t # numbered (dr_next_seq r + 1) ds)" by simp
    then show ?thesis using r1 r' x by (simp add: Let_def c add.assoc)
  qed
qed

text \<open>After any sequence of pushes the ring lists exactly the latest deltas, up to its capacity,
  each with the number of its push, and counts exactly the ones it lost.\<close>

theorem ring_keeps_latest:
  assumes "\<forall>d \<in> set ds. ld_qty_delta d \<noteq> 0"
  shows "\<exists>r. ring_pushes k ds (ring_new k) = Some r \<and> dr_next_seq r = of_nat (length ds) \<and>
    dr_dropped r = of_nat (length ds - 2 ^ k) \<and>
    ring_for_each k r fn s = fold fn (drop (length ds - 2 ^ k) (numbered 0 ds)) s"
proof -
  have z: "dr_next_seq (ring_new k) = 0" "dr_dropped (ring_new k) = 0" by (simp_all add: ring_new_def)
  from ring_pushes_correct[OF ring_new_inv(1)[of k] assms]
  show ?thesis by (auto simp: Let_def z ring_new_inv(2) ring_for_each_list)
qed

definition demo_delta :: "int \<Rightarrow> level_delta" where
  "demo_delta q = \<lparr> ld_price_ticks = 5, ld_qty_delta = q, ld_side = 0 \<rparr>"

lemma ring_keeps_latest_witness:
  "\<exists>r. ring_pushes 1 [demo_delta 1, demo_delta 2, demo_delta 3] (ring_new 1) = Some r \<and>
     dr_dropped r = 1 \<and> ring_for_each 1 r (\<lambda>t n. n + unat (tr_seq t)) 0 = 3"
proof -
  have "\<forall>d \<in> set [demo_delta 1, demo_delta 2, demo_delta 3]. ld_qty_delta d \<noteq> 0" by (simp add: demo_delta_def)
  from ring_keeps_latest[OF this, of 1 "\<lambda>t n. n + unat (tr_seq t)" 0] obtain r where
    "ring_pushes 1 [demo_delta 1, demo_delta 2, demo_delta 3] (ring_new 1) = Some r"
    "dr_dropped r = 1"
    "ring_for_each 1 r (\<lambda>t n. n + unat (tr_seq t)) 0 = fold (\<lambda>t n. n + unat (tr_seq t))
       (drop 1 (numbered 0 [demo_delta 1, demo_delta 2, demo_delta 3])) 0"
    by (auto simp del: ring_pushes.simps numbered.simps)
  then show ?thesis by (intro exI[of _ r]) simp
qed
end
