(* ===== verification/SimTypes.thy ===== *)
theory SimTypes
  imports OrderBook Scheduler
begin

text \<open>
  Types and state of the execution simulator, \<open>include/mog/Simulate.hpp\<close>. Signed 64-bit members are
  integers and unsigned ones words. What the double-valued configuration and the random generator
  decide is the argument \<open>sim_env\<close> of the operations: draws, the excitement state and the weights of
  a depletion sweep. The bytes fed to the determinism digest are kept in order in \<open>si_trace\<close>.
\<close>

section \<open>Orders, configuration, records\<close>

datatype sim_order_type = DayLimit | Market | Ioc | PostOnly | MidpointPeg | PrimaryPeg | MarketPeg

datatype jitter_kind = JitterNone | JitterUniform | JitterExponential | JitterNormal

datatype stp_mode = StpNone | CancelNewest | CancelOldest | Decrement

datatype peg = PegNone | PegMid | PegBid | PegAsk

record sim_config =
  cf_parse_latency_ns :: u32
  cf_decision_latency_ns :: u32
  cf_wire_latency_ns :: u32
  cf_jitter_max_ns :: u32
  cf_jitter_kind :: jitter_kind
  cf_external_ref_limit :: u64
  cf_maker_fee_bps :: int
  cf_taker_fee_bps :: int
  cf_depth_depletion_levels :: u32

definition fee_bps_of :: "u64 \<Rightarrow> int \<Rightarrow> int" where
  "fee_bps_of notional_ticks bps =
     (let mag = notional_ticks * (if bps < 0 then word_of_int (- bps) else word_of_int bps) div 10000
      in if bps < 0 then - sint mag else sint mag)"

record sim_fill_report =
  fr_visible_ts :: u64
  fr_ref :: u64
  fr_price_ticks :: int
  fr_qty :: u32
  fr_seq :: u64
  fr_side :: byte
  fr_fee :: int

record sim_trade =
  st_ts :: u64
  st_seq :: u64
  st_px_ticks :: int
  st_qty :: u32
  st_aggressor_buy :: byte

datatype decision_kind = Rested | Filled | PartialThenRest | PartialThenCancelled
  | RejectedWouldCross | RejectedStp | RejectedUnknown

fun decision_code :: "decision_kind \<Rightarrow> byte" where
  "decision_code Rested = 0"
| "decision_code Filled = 1"
| "decision_code PartialThenRest = 2"
| "decision_code PartialThenCancelled = 3"
| "decision_code RejectedWouldCross = 4"
| "decision_code RejectedStp = 5"
| "decision_code RejectedUnknown = 6"

record sim_decision =
  dc_kind :: decision_kind
  dc_filled_qty :: u32
  dc_cancelled_qty :: u32
  dc_filled_notional :: u64
  dc_visible_ts :: u64
  dc_decision_ts :: u64
  dc_ref :: u64
  dc_side :: byte
  dc_seq :: u64
  dc_fee :: int

definition decision_of :: "decision_kind \<Rightarrow> sim_decision" where
  "decision_of k = \<lparr> dc_kind = k, dc_filled_qty = 0, dc_cancelled_qty = 0, dc_filled_notional = 0,
     dc_visible_ts = 0, dc_decision_ts = 0, dc_ref = 0, dc_side = ch_B, dc_seq = 0, dc_fee = 0 \<rparr>"

record sim_inbound =
  in_ref :: u64
  in_side :: side
  in_qty :: int
  in_price :: int
  in_type :: sim_order_type
  in_peg :: peg
  in_peg_offset_ticks :: int
  in_non_displayed :: bool

record iceberg_spec =
  sp_ref :: u64
  sp_side :: side
  sp_price :: int
  sp_display :: int
  sp_total :: int

record sim_event =
  ev_visible_ts :: u64
  ev_order :: sim_inbound

record tracked =
  tk_ref :: u64
  tk_price_ticks :: int
  tk_qty_remaining :: int
  tk_qty_ahead :: int
  tk_side :: byte
  tk_live :: bool
  tk_level_linked :: bool
  tk_level_next :: nat
  tk_level_prev :: nat

definition no_tracked :: tracked where
  "no_tracked = \<lparr> tk_ref = 0, tk_price_ticks = 0, tk_qty_remaining = 0, tk_qty_ahead = 0, tk_side = ch_B,
     tk_live = False, tk_level_linked = False, tk_level_next = kNullIndex, tk_level_prev = kNullIndex \<rparr>"

record iceberg =
  ic_ref :: u64
  ic_side :: side
  ic_price_ticks :: int
  ic_display :: int
  ic_hidden :: int

record track_level =
  tl_price :: int
  tl_head :: nat
  tl_count :: nat
  tl_occupied :: bool

definition no_track_level :: track_level where
  "no_track_level = \<lparr> tl_price = 0, tl_head = kNullIndex, tl_count = 0, tl_occupied = False \<rparr>"

definition kLevelMapSize :: nat where "kLevelMapSize = 4096"
definition kLevelMapMask :: nat where "kLevelMapMask = kLevelMapSize - 1"
definition kConservationFullEvery :: u64 where "kConservationFullEvery = 512"

record hidden_order =
  hd_ref :: u64
  hd_side :: side
  hd_price_ticks :: int
  hd_qty_remaining :: int
  hd_peg :: peg
  hd_peg_offset :: int
  hd_pegged :: bool

section \<open>State and environment\<close>

record 'd sim =
  si_cfg :: sim_config
  si_book :: book
  si_wheel :: "sim_event scheduler"
  si_tracked :: "tracked list"
  si_live_tracked :: "nat list"
  si_dirty :: "nat list"
  si_conservation_checks :: u64
  si_level_maps :: "side \<Rightarrow> track_level list"
  si_fallback_levels :: "side \<Rightarrow> int list"
  si_recent_sync :: "nat list"
  si_icebergs :: "iceberg list"
  si_trace :: "byte list"
  si_driver :: 'd
  si_total_filled_notional :: u64
  si_total_fees :: int
  si_fill_count :: nat
  si_halted :: bool
  si_hidden :: "hidden_order list"
  si_reports :: "sim_fill_report list"
  si_decisions :: "sim_decision list"
  si_stp :: stp_mode
  si_naive_filled :: u64
  si_model_filled :: u64
  si_aggressive_filled :: u64
  si_now_hint :: u64
  si_ext_now :: u64
  si_seq_counter :: u64
  si_trades :: "sim_trade list"
  si_momentum_state :: int
  si_momentum_ts :: u64

text \<open>
  The parameters: the host byte order; the draws of the standard library's generator and
  distributions on the state \<open>'d\<close>, which also holds the excitement; the two depletion intensities of
  type \<open>'f\<close> at a time step, as functions of the step, the momentum sign, the current time and the
  momentum's time; a Poisson draw; and the units a sweep takes at its \<open>n\<close>-th level.
\<close>

record ('d, 'f) sim_env =
  en_le :: bool
  en_uniform :: "u32 \<Rightarrow> 'd \<Rightarrow> u64 \<times> 'd"
  en_exponential :: "'d \<Rightarrow> u64 \<times> 'd"
  en_normal :: "'d \<Rightarrow> u64 \<times> 'd"
  en_excite :: "'d \<Rightarrow> 'd"
  en_decay :: "u64 \<Rightarrow> 'd \<Rightarrow> 'd"
  en_intensities :: "u64 \<Rightarrow> int \<Rightarrow> u64 \<Rightarrow> u64 \<Rightarrow> 'd \<Rightarrow> 'f \<times> 'f"
  en_poisson :: "'f \<Rightarrow> 'd \<Rightarrow> u64 \<times> 'd"
  en_alpha_zero :: bool
  en_depth_target :: "u64 \<Rightarrow> u32 \<Rightarrow> int"

definition draw_jitter :: "('d, 'f) sim_env \<Rightarrow> 'd sim \<Rightarrow> u64 \<times> 'd sim" where
  "draw_jitter E sm =
     (let (j, d) = (case cf_jitter_kind (si_cfg sm) of
                      JitterNone \<Rightarrow> (0, si_driver sm)
                    | JitterExponential \<Rightarrow> en_exponential E (si_driver sm)
                    | JitterNormal \<Rightarrow> en_normal E (si_driver sm)
                    | JitterUniform \<Rightarrow>
                        (if cf_jitter_max_ns (si_cfg sm) = 0 then (0, si_driver sm)
                         else en_uniform E (cf_jitter_max_ns (si_cfg sm)) (si_driver sm)))
      in (j, sm\<lparr> si_driver := d \<rparr>))"

text \<open>\<open>trace_.update(&v, sizeof(v))\<close> for the members the code traces.\<close>

definition trace_bytes :: "byte list \<Rightarrow> 'd sim \<Rightarrow> 'd sim" where
  "trace_bytes bs sm = sm\<lparr> si_trace := si_trace sm @ bs \<rparr>"

definition trace_u64 :: "bool \<Rightarrow> u64 \<Rightarrow> 'd sim \<Rightarrow> 'd sim" where
  "trace_u64 le v = trace_bytes (mem_bytes le 8 v)"

definition trace_u32 :: "bool \<Rightarrow> u32 \<Rightarrow> 'd sim \<Rightarrow> 'd sim" where
  "trace_u32 le v = trace_bytes (mem_bytes le 4 v)"

definition trace_i64 :: "bool \<Rightarrow> int \<Rightarrow> 'd sim \<Rightarrow> 'd sim" where
  "trace_i64 le v = trace_u64 le (word_of_int v)"

text \<open>\<open>++seq_counter_\<close> and its new value.\<close>

definition next_seq :: "'d sim \<Rightarrow> u64 \<times> 'd sim" where
  "next_seq sm = (let n = si_seq_counter sm + 1 in (n, sm\<lparr> si_seq_counter := n \<rparr>))"

definition push_decision :: "('d, 'f) sim_env \<Rightarrow> sim_decision \<Rightarrow> u64 \<Rightarrow> u64 \<Rightarrow> byte \<Rightarrow> 'd sim \<Rightarrow> 'd sim" where
  "push_decision E d vis ref sd sm =
     (let (n, sm) = next_seq sm;
          d = d\<lparr> dc_ref := ref, dc_visible_ts := vis, dc_side := sd, dc_seq := n \<rparr>;
          sm = sm\<lparr> si_total_filled_notional := si_total_filled_notional sm + dc_filled_notional d,
                   si_total_fees := si_total_fees sm + dc_fee d,
                   si_fill_count := (if dc_filled_qty d > 0 then si_fill_count sm + 1 else si_fill_count sm),
                   si_decisions := si_decisions sm @ [d] \<rparr>;
          sm = trace_u64 (en_le E) vis sm;
          sm = trace_bytes [decision_code (dc_kind d)] sm;
          sm = trace_u32 (en_le E) (dc_filled_qty d) sm
      in trace_u32 (en_le E) (dc_cancelled_qty d) sm)"

definition emit_fill :: "('d, 'f) sim_env \<Rightarrow> nat \<Rightarrow> int \<Rightarrow> int \<Rightarrow> u64 \<Rightarrow> 'd sim \<Rightarrow> 'd sim" where
  "emit_fill E idx price qty base_ts sm =
     (let t = si_tracked sm ! idx;
          (j, sm) = draw_jitter E sm;
          vis = base_ts + ucast (cf_wire_latency_ns (si_cfg sm)) + j;
          notional = word_of_int price * word_of_int qty;
          fee = fee_bps_of notional (cf_maker_fee_bps (si_cfg sm));
          (n, sm) = next_seq sm;
          r = \<lparr> fr_visible_ts = vis, fr_ref = tk_ref t, fr_price_ticks = price, fr_qty = word_of_int qty,
                fr_seq = n, fr_side = tk_side t, fr_fee = fee \<rparr>;
          sm = sm\<lparr> si_reports := si_reports sm @ [r],
                   si_total_filled_notional := si_total_filled_notional sm + notional,
                   si_total_fees := si_total_fees sm + fee,
                   si_fill_count := si_fill_count sm + 1,
                   si_model_filled := si_model_filled sm + word_of_int qty \<rparr>;
          sm = trace_u64 (en_le E) vis sm;
          sm = trace_u64 (en_le E) (tk_ref t) sm;
          sm = trace_i64 (en_le E) price sm
      in trace_u32 (en_le E) (word_of_int qty) sm)"

definition emit_trade :: "side \<Rightarrow> int \<Rightarrow> int \<Rightarrow> 'd sim \<Rightarrow> 'd sim" where
  "emit_trade s price qty sm =
     (let (n, sm) = next_seq sm
      in sm\<lparr> si_trades := si_trades sm @ [\<lparr> st_ts = si_now_hint sm, st_seq = n, st_px_ticks = price,
               st_qty = word_of_int qty, st_aggressor_buy = (if s = Sell then 1 else 0) \<rparr>] \<rparr>)"

definition mid_price :: "'d sim \<Rightarrow> int" where
  "mid_price sm =
     (let b = bk_best_bid (si_book sm); a = bk_best_ask (si_book sm)
      in if b = kNoTick then (if a = kNoTick then 0 else 2 * a)
         else if a = kNoTick then 2 * b
         else b + a)"

definition update_momentum :: "int \<Rightarrow> 'd sim \<Rightarrow> 'd sim" where
  "update_momentum mid_before sm =
     (let mid_after = mid_price sm
      in if mid_after = mid_before then sm
         else sm\<lparr> si_momentum_ts := si_ext_now sm, si_momentum_state := (if mid_after > mid_before then 1 else -1) \<rparr>)"

definition mark_dirty :: "nat \<Rightarrow> 'd sim \<Rightarrow> 'd sim" where
  "mark_dirty idx sm = sm\<lparr> si_dirty := si_dirty sm @ [idx] \<rparr>"

definition set_tracked :: "nat \<Rightarrow> tracked \<Rightarrow> 'd sim \<Rightarrow> 'd sim" where
  "set_tracked idx t sm = sm\<lparr> si_tracked := (si_tracked sm)[idx := t] \<rparr>"

end
