(* ===== verification/SimLedger.thy ===== *)
theory SimLedger
  imports SimTypes "HOL-Library.Signed_Division"
begin

text \<open>
  The simulator's ledger of non-displayed orders, \<open>include/mog/Simulate.hpp\<close>: peg references,
  repegging, and consumption in insertion order at one exact price. Prices are 64-bit integers and
  the mid divides truncating toward zero.
\<close>

definition hidden_reference :: "'d sim \<Rightarrow> peg \<Rightarrow> int \<Rightarrow> int" where
  "hidden_reference sm p off =
     (let b = bk_best_bid (si_book sm); a = bk_best_ask (si_book sm)
      in case p of
           PegBid \<Rightarrow> (if b = kNoTick then kNoTick else b + off)
         | PegAsk \<Rightarrow> (if a = kNoTick then kNoTick else a + off)
         | PegMid \<Rightarrow> (if b = kNoTick \<or> a = kNoTick then kNoTick else (b + a) sdiv 2 + off)
         | PegNone \<Rightarrow> kNoTick)"

definition repeg_hidden :: "'d sim \<Rightarrow> 'd sim" where
  "repeg_hidden sm = sm\<lparr> si_hidden := map (\<lambda>h.
     if \<not> hd_pegged h then h
     else let px = hidden_reference sm (hd_peg h) (hd_peg_offset h)
          in if px \<noteq> kNoTick then h\<lparr> hd_price_ticks := px \<rparr> else h) (si_hidden sm) \<rparr>"

definition hidden_qty_at :: "'d sim \<Rightarrow> side \<Rightarrow> int \<Rightarrow> int" where
  "hidden_qty_at sm s price =
     foldl (\<lambda>acc h. if hd_side h = s \<and> hd_price_ticks h = price then acc + hd_qty_remaining h else acc) 0
       (si_hidden sm)"

definition best_hidden_price :: "'d sim \<Rightarrow> side \<Rightarrow> int" where
  "best_hidden_price sm opp =
     foldl (\<lambda>best h.
       if hd_side h \<noteq> opp \<or> hd_qty_remaining h = 0 then best
       else if best = kNoTick then hd_price_ticks h
       else if opp = Buy \<and> hd_price_ticks h > best then hd_price_ticks h
       else if opp = Sell \<and> hd_price_ticks h < best then hd_price_ticks h
       else best) kNoTick (si_hidden sm)"

definition trace_hidden_fill :: "bool \<Rightarrow> u64 \<Rightarrow> int \<Rightarrow> int \<Rightarrow> 'd sim \<Rightarrow> 'd sim" where
  "trace_hidden_fill le ref px qty sm =
     (let sm = trace_u64 le (si_now_hint sm) sm;
          sm = trace_u64 le ref sm;
          sm = trace_i64 le px sm
      in trace_i64 le qty sm)"

definition trace_hidden_cancel :: "bool \<Rightarrow> u64 \<Rightarrow> 'd sim \<Rightarrow> 'd sim" where
  "trace_hidden_cancel le ref sm =
     (let sm = trace_u64 le (si_now_hint sm) sm;
          sm = trace_bytes [0xC1] sm
      in trace_u64 le ref sm)"

text \<open>The trace, report and totals of one hidden fill.\<close>

definition report_hidden_fill :: "('d, 'f) sim_env \<Rightarrow> side \<Rightarrow> int \<Rightarrow> u64 \<Rightarrow> int \<Rightarrow> 'd sim \<Rightarrow> 'd sim" where
  "report_hidden_fill E s price ref tk sm =
     (let sm = trace_hidden_fill (en_le E) ref price tk sm;
          notional = word_of_int tk * word_of_int price;
          fee = fee_bps_of notional (cf_maker_fee_bps (si_cfg sm));
          (n, sm) = next_seq sm;
          r = \<lparr> fr_visible_ts = si_now_hint sm, fr_ref = ref, fr_price_ticks = price, fr_qty = word_of_int tk,
                fr_seq = n, fr_side = (if s = Buy then 0x42 else 0x53), fr_fee = fee \<rparr>
      in sm\<lparr> si_reports := si_reports sm @ [r],
             si_total_filled_notional := si_total_filled_notional sm + notional,
             si_total_fees := si_total_fees sm + fee,
             si_fill_count := si_fill_count sm + 1,
             si_model_filled := si_model_filled sm + word_of_int tk \<rparr>)"

definition erase_nth :: "nat \<Rightarrow> 'a list \<Rightarrow> 'a list" where
  "erase_nth i xs = take i xs @ drop (i + 1) xs"

lemmas sim_simps = trace_bytes_def trace_u64_def trace_u32_def trace_i64_def next_seq_def

lemma report_hidden_fill_hidden [simp]: "si_hidden (report_hidden_fill E s price ref tk sm) = si_hidden sm"
  by (simp add: report_hidden_fill_def trace_hidden_fill_def sim_simps Let_def)

text \<open>The loop of \<open>tap_hidden\<close> from index \<open>i\<close>: the quantity filled, what remains, the notional.\<close>

function tap_hidden_loop :: "('d, 'f) sim_env \<Rightarrow> side \<Rightarrow> int \<Rightarrow> nat \<Rightarrow> int \<Rightarrow> int \<Rightarrow> u64 \<Rightarrow> 'd sim
    \<Rightarrow> int \<times> int \<times> u64 \<times> 'd sim" where
  "tap_hidden_loop E s price i filled remaining notional_out sm =
     (if remaining > 0 \<and> i < length (si_hidden sm) then
        (let h = si_hidden sm ! i
         in if hd_side h \<noteq> s \<or> hd_price_ticks h \<noteq> price
            then tap_hidden_loop E s price (i + 1) filled remaining notional_out sm
            else (let tk = min remaining (hd_qty_remaining h);
                      h = h\<lparr> hd_qty_remaining := hd_qty_remaining h - tk \<rparr>;
                      sm = sm\<lparr> si_hidden := (si_hidden sm)[i := h] \<rparr>;
                      notional_out = notional_out + word_of_int tk * word_of_int price;
                      sm = report_hidden_fill E s price (hd_ref h) tk sm
                  in if hd_qty_remaining h = 0
                     then tap_hidden_loop E s price i (filled + tk) (remaining - tk) notional_out
                            (sm\<lparr> si_hidden := erase_nth i (si_hidden sm) \<rparr>)
                     else tap_hidden_loop E s price (i + 1) (filled + tk) (remaining - tk) notional_out sm))
      else (filled, remaining, notional_out, sm))"
  by pat_completeness auto
termination
  by (relation "measure (\<lambda>(_, _, _, i, _, _, _, sm). length (si_hidden sm) - i)") (auto simp: erase_nth_def Let_def)

declare tap_hidden_loop.simps [simp del]

definition tap_hidden :: "('d, 'f) sim_env \<Rightarrow> side \<Rightarrow> int \<Rightarrow> int \<Rightarrow> u64 \<Rightarrow> 'd sim \<Rightarrow> int \<times> int \<times> u64 \<times> 'd sim" where
  "tap_hidden E s price remaining notional_out sm = tap_hidden_loop E s price 0 0 remaining notional_out sm"

text \<open>
  The simulator's tracker of strategy orders, \<open>include/mog/Simulate.hpp\<close>: one entry per arena slot,
  the per-level lists of tracked orders behind an open-addressed map of levels, the exact walk that
  recomputes queue positions, and the conservation check against the book.
\<close>

section \<open>Level map\<close>

definition level_hash :: "int \<Rightarrow> nat" where
  "level_hash price =
     (let z = (word_of_int price :: u64) + 0x9e3779b97f4a7c15;
          z = (z XOR drop_bit 30 z) * 0xbf58476d1ce4e5b9;
          z = (z XOR drop_bit 27 z) * 0x94d049bb133111eb
      in unat (z XOR drop_bit 31 z) AND kLevelMapMask)"

fun level_scan :: "track_level list \<Rightarrow> nat \<Rightarrow> int \<Rightarrow> nat list \<Rightarrow> nat option" where
  "level_scan lm h price [] = None"
| "level_scan lm h price (n # ns) =
     (let i = (h + n) AND kLevelMapMask
      in if \<not> tl_occupied (lm ! i) then None
         else if tl_price (lm ! i) = price then Some i
         else level_scan lm h price ns)"

definition level_find :: "'d sim \<Rightarrow> side \<Rightarrow> int \<Rightarrow> nat option" where
  "level_find sm s price = level_scan (si_level_maps sm s) (level_hash price) price [0..<kLevelMapSize]"

text \<open>The full scan of \<open>level_get\<close>: the entry of the price, or the first empty entry.\<close>

fun level_claim :: "track_level list \<Rightarrow> nat \<Rightarrow> int \<Rightarrow> nat list \<Rightarrow> nat option \<Rightarrow> nat + nat option" where
  "level_claim lm h price [] vacant = Inr vacant"
| "level_claim lm h price (n # ns) vacant =
     (let i = (h + n) AND kLevelMapMask
      in if tl_occupied (lm ! i)
         then (if tl_price (lm ! i) = price then Inl i else level_claim lm h price ns vacant)
         else level_claim lm h price ns (if vacant = None then Some i else vacant))"

definition set_level :: "side \<Rightarrow> nat \<Rightarrow> track_level \<Rightarrow> 'd sim \<Rightarrow> 'd sim" where
  "set_level s i e sm = sm\<lparr> si_level_maps := (si_level_maps sm)(s := (si_level_maps sm s)[i := e]) \<rparr>"

definition level_get :: "side \<Rightarrow> int \<Rightarrow> 'd sim \<Rightarrow> nat option \<times> 'd sim" where
  "level_get s price sm =
     (case level_claim (si_level_maps sm s) (level_hash price) price [0..<kLevelMapSize] None of
        Inl i \<Rightarrow> (Some i, sm)
      | Inr None \<Rightarrow>
          (None, sm\<lparr> si_fallback_levels := (si_fallback_levels sm)(s := si_fallback_levels sm s @ [price]) \<rparr>)
      | Inr (Some i) \<Rightarrow>
          (Some i, set_level s i ((si_level_maps sm s ! i)\<lparr> tl_occupied := True, tl_price := price \<rparr>) sm))"

definition is_fallback_level :: "'d sim \<Rightarrow> side \<Rightarrow> int \<Rightarrow> bool" where
  "is_fallback_level sm s price = (price \<in> set (si_fallback_levels sm s))"

section \<open>Level membership\<close>

definition link_tracked :: "nat \<Rightarrow> side \<Rightarrow> int \<Rightarrow> 'd sim \<Rightarrow> 'd sim" where
  "link_tracked idx s price sm =
     (case level_get s price sm of
        (None, sm) \<Rightarrow> sm
      | (Some li, sm) \<Rightarrow>
          (let e = si_level_maps sm s ! li;
               sm = set_tracked idx ((si_tracked sm ! idx)\<lparr> tk_level_next := tl_head e, tk_level_prev := kNullIndex \<rparr>) sm;
               sm = (if tl_head e \<noteq> kNullIndex
                     then set_tracked (tl_head e) ((si_tracked sm ! tl_head e)\<lparr> tk_level_prev := idx \<rparr>) sm else sm);
               sm = set_level s li (e\<lparr> tl_head := idx, tl_count := tl_count e + 1 \<rparr>) sm
           in set_tracked idx ((si_tracked sm ! idx)\<lparr> tk_level_linked := True \<rparr>) sm))"

definition unlink_tracked :: "nat \<Rightarrow> 'd sim \<Rightarrow> 'd sim" where
  "unlink_tracked idx sm =
     (let t = si_tracked sm ! idx
      in if \<not> tk_level_linked t then sm
         else
           (let s = side_from_wire (tk_side t);
                found = level_find sm s (tk_price_ticks t);
                sm = set_tracked idx (t\<lparr> tk_level_linked := False \<rparr>) sm
            in case found of
                 None \<Rightarrow> sm
               | Some li \<Rightarrow>
                   (let e = si_level_maps sm s ! li;
                        (e, sm) =
                          (if tk_level_prev t \<noteq> kNullIndex
                           then (e, set_tracked (tk_level_prev t)
                                  ((si_tracked sm ! tk_level_prev t)\<lparr> tk_level_next := tk_level_next t \<rparr>) sm)
                           else (e\<lparr> tl_head := tk_level_next t \<rparr>, sm));
                        sm = (if tk_level_next t \<noteq> kNullIndex
                              then set_tracked (tk_level_next t)
                                     ((si_tracked sm ! tk_level_next t)\<lparr> tk_level_prev := tk_level_prev t \<rparr>) sm
                              else sm);
                        e = (if tl_count e > 0 then e\<lparr> tl_count := tl_count e - 1 \<rparr> else e)
                    in set_level s li e sm)))"

section \<open>Queue positions\<close>

text \<open>The visitor of the walk: the quantity seen so far and the tracker.\<close>

definition position_visit :: "nat \<Rightarrow> u64 \<Rightarrow> int \<Rightarrow> int \<times> tracked list \<Rightarrow> int \<times> tracked list" where
  "position_visit idx ref rm = (\<lambda>(cum, tk).
     (cum + rm, if idx < length tk \<and> tk_live (tk ! idx) then tk[idx := (tk ! idx)\<lparr> tk_qty_ahead := cum \<rparr>] else tk))"

definition recompute_positions :: "side \<Rightarrow> int \<Rightarrow> 'd sim \<Rightarrow> 'd sim option" where
  "recompute_positions s price sm = do {
     (_, tk) \<leftarrow> for_each_in_level_idx (si_book sm) s price position_visit (0, si_tracked sm);
     Some (sm\<lparr> si_tracked := tk \<rparr>)
   }"

text \<open>The walk of a level's list of tracked orders: members outside \<open>skip\<close> lose \<open>amount\<close>.\<close>

partial_function (option) subtract_walk :: "nat list \<Rightarrow> int \<Rightarrow> nat \<Rightarrow> tracked list \<Rightarrow> tracked list option" where
  [code]: "subtract_walk skip amount i tk =
     (if i \<noteq> kNullIndex then
        subtract_walk skip amount (tk_level_next (tk ! i))
          (if i \<in> set skip then tk else tk[i := (tk ! i)\<lparr> tk_qty_ahead := tk_qty_ahead (tk ! i) - amount \<rparr>])
      else Some tk)"

definition subtract_level :: "side \<Rightarrow> int \<Rightarrow> int \<Rightarrow> bool \<Rightarrow> 'd sim \<Rightarrow> 'd sim option" where
  "subtract_level s price amount skip_synced sm =
     (case level_find sm s price of
        None \<Rightarrow> (if is_fallback_level sm s price then recompute_positions s price sm else Some sm)
      | Some li \<Rightarrow> do {
          tk \<leftarrow> subtract_walk (if skip_synced then si_recent_sync sm else []) amount
                  (tl_head (si_level_maps sm s ! li)) (si_tracked sm);
          Some (sm\<lparr> si_tracked := tk \<rparr>)
        })"

fun recompute_levels :: "side \<Rightarrow> track_level list \<Rightarrow> 'd sim \<Rightarrow> 'd sim option" where
  "recompute_levels s [] sm = Some sm"
| "recompute_levels s (e # es) sm =
     (if tl_occupied e \<and> tl_count e > 0
      then Option.bind (recompute_positions s (tl_price e) sm) (recompute_levels s es)
      else recompute_levels s es sm)"

fun recompute_prices :: "side \<Rightarrow> int list \<Rightarrow> 'd sim \<Rightarrow> 'd sim option" where
  "recompute_prices s [] sm = Some sm"
| "recompute_prices s (p # ps) sm = Option.bind (recompute_positions s p sm) (recompute_prices s ps)"

definition recompute_side :: "side \<Rightarrow> 'd sim \<Rightarrow> 'd sim option" where
  "recompute_side s sm = do {
     sm \<leftarrow> recompute_levels s (si_level_maps sm s) sm;
     recompute_prices s (si_fallback_levels sm s) sm
   }"

definition recompute_all_tracked :: "'d sim \<Rightarrow> 'd sim option" where
  "recompute_all_tracked sm = Option.bind (recompute_side Buy sm) (recompute_side Sell)"

section \<open>Tracking\<close>

definition tracked_index_of :: "'d sim \<Rightarrow> u64 \<Rightarrow> nat option" where
  "tracked_index_of sm ref = do {
     h \<leftarrow> id_find (bk_ids (si_book sm)) ref;
     Some (if h_index h = kNullIndex then kNullIndex
           else if tk_live (si_tracked sm ! h_index h) then h_index h else kNullIndex)
   }"

definition track_resting :: "u64 \<Rightarrow> side \<Rightarrow> int \<Rightarrow> int \<Rightarrow> 'd sim \<Rightarrow> 'd sim option" where
  "track_resting ref s qty price sm = do {
     h \<leftarrow> id_find (bk_ids (si_book sm)) ref;
     mog_pre (h_index h \<noteq> kNullIndex);
     let t = (si_tracked sm ! h_index h)\<lparr> tk_ref := ref, tk_side := to_wire s, tk_price_ticks := price,
               tk_qty_remaining := qty, tk_live := True \<rparr>;
     let sm = set_tracked (h_index h) t sm;
     let sm = sm\<lparr> si_live_tracked := si_live_tracked sm @ [h_index h] \<rparr>;
     let sm = mark_dirty (h_index h) sm;
     let sm = set_tracked (h_index h)
                ((si_tracked sm ! h_index h)\<lparr> tk_qty_ahead := qty_at (si_book sm) s price - qty \<rparr>) sm;
     Some (link_tracked (h_index h) s price sm)
   }"

definition queue_ahead_of :: "'d sim \<Rightarrow> u64 \<Rightarrow> int option" where
  "queue_ahead_of sm ref = do {
     idx \<leftarrow> tracked_index_of sm ref;
     Some (if idx = kNullIndex then -1 else tk_qty_ahead (si_tracked sm ! idx))
   }"

section \<open>Conservation\<close>

definition verify_one :: "'d sim \<Rightarrow> nat \<Rightarrow> bool option" where
  "verify_one sm i =
     (let t = si_tracked sm ! i
      in if \<not> tk_live t then Some True
         else do {
           rm \<leftarrow> remaining_of (si_book sm) (tk_ref t);
           Some (rm = tk_qty_remaining t \<and> tk_qty_ahead t \<ge> 0)
         })"

fun verify_all :: "'d sim \<Rightarrow> nat list \<Rightarrow> bool \<Rightarrow> bool option" where
  "verify_all sm [] good = Some good"
| "verify_all sm (i # is) good = Option.bind (verify_one sm i) (\<lambda>v. verify_all sm is (v \<and> good))"

definition check_conservation :: "'d sim \<Rightarrow> (bool \<times> 'd sim) option" where
  "check_conservation sm = do {
     good \<leftarrow> verify_all sm (si_live_tracked sm) True;
     Some (good, sm\<lparr> si_live_tracked := filter (\<lambda>i. tk_live (si_tracked sm ! i)) (si_live_tracked sm) \<rparr>)
   }"

text \<open>With contracts enforced the check is active.\<close>

definition conservation_ok :: "'d sim \<Rightarrow> (bool \<times> 'd sim) option" where
  "conservation_ok sm = do {
     good \<leftarrow> verify_all sm (si_dirty sm) True;
     let sm = sm\<lparr> si_dirty := [], si_conservation_checks := si_conservation_checks sm + 1 \<rparr>;
     if si_conservation_checks sm mod kConservationFullEvery = 0 then do {
       (ok, sm) \<leftarrow> check_conservation sm;
       Some (ok \<and> good, sm)
     } else Some (good, sm)
   }"

end
