(* ===== verification/Simulator.thy ===== *)
theory Simulator
  imports SimLedger
begin

text \<open>
  The execution simulator of \<open>include/mog/Simulate.hpp\<close>: seeding, submission, decisions, crossing
  with self-trade prevention, external flow, cancels and replaces. A contract that fails is \<open>None\<close>.
  The book is the one of \<open>OrderBook\<close> and the event queue the one of \<open>Scheduler\<close>.
\<close>

section \<open>Seeding\<close>

definition sim_new :: "sim_config \<Rightarrow> book \<Rightarrow> sim_event scheduler \<Rightarrow> 'd \<Rightarrow> 'd sim" where
  "sim_new cfg bk wheel driver = \<lparr> si_cfg = cfg, si_book = bk, si_wheel = wheel,
     si_tracked = replicate (ar_capacity (bk_arena bk)) no_tracked, si_live_tracked = [], si_dirty = [],
     si_conservation_checks = 0, si_level_maps = (\<lambda>_. replicate kLevelMapSize no_track_level),
     si_fallback_levels = (\<lambda>_. []), si_recent_sync = [], si_icebergs = [], si_trace = [], si_driver = driver,
     si_total_filled_notional = 0, si_total_fees = 0, si_fill_count = 0, si_halted = False, si_hidden = [],
     si_reports = [], si_decisions = [], si_stp = StpNone, si_naive_filled = 0, si_model_filled = 0,
     si_aggressive_filled = 0, si_now_hint = 0, si_ext_now = 0, si_seq_counter = 0, si_trades = [],
     si_momentum_state = 0, si_momentum_ts = 0 \<rparr>"

definition seed_external :: "u64 \<Rightarrow> side \<Rightarrow> int \<Rightarrow> int \<Rightarrow> 'd sim \<Rightarrow> (book_tick \<times> 'd sim) option" where
  "seed_external ref s qty price sm = do {
     mog_pre (ref < cf_external_ref_limit (si_cfg sm));
     (t, _, bk) \<leftarrow> book_add ref s qty price None (si_book sm);
     Some (t, sm\<lparr> si_book := bk \<rparr>)
   }"

definition seed_iceberg :: "iceberg_spec \<Rightarrow> 'd sim \<Rightarrow> (book_tick \<times> 'd sim) option" where
  "seed_iceberg spec sm = do {
     mog_pre (sp_ref spec < cf_external_ref_limit (si_cfg sm));
     mog_pre (sp_display spec > 0 \<and> sp_total spec \<ge> sp_display spec);
     (t, _, bk) \<leftarrow> book_add (sp_ref spec) (sp_side spec) (sp_display spec) (sp_price spec) None (si_book sm);
     let sm = sm\<lparr> si_book := bk \<rparr>;
     Some (t, if \<not> tick_ok t then sm
              else sm\<lparr> si_icebergs := si_icebergs sm @ [\<lparr> ic_ref = sp_ref spec, ic_side = sp_side spec,
                       ic_price_ticks = sp_price spec, ic_display = sp_display spec,
                       ic_hidden = sp_total spec - sp_display spec \<rparr>] \<rparr>)
   }"

definition iceberg_index_of :: "'d sim \<Rightarrow> u64 \<Rightarrow> nat" where
  "iceberg_index_of sm ref =
     (case find (\<lambda>i. ic_ref (si_icebergs sm ! i) = ref) [0..<length (si_icebergs sm)] of
        None \<Rightarrow> kNullIndex | Some i \<Rightarrow> i)"

definition iceberg_hidden :: "'d sim \<Rightarrow> u64 \<Rightarrow> int" where
  "iceberg_hidden sm ref =
     (let i = iceberg_index_of sm ref in if i = kNullIndex then -1 else ic_hidden (si_icebergs sm ! i))"

section \<open>Executions\<close>

definition reduce_and_sync :: "('d, 'f) sim_env \<Rightarrow> side \<Rightarrow> u64 \<Rightarrow> int \<Rightarrow> int \<Rightarrow> bool \<Rightarrow> gen_handle \<Rightarrow> 'd sim
    \<Rightarrow> 'd sim option" where
  "reduce_and_sync E s head price tk via_execute_front hh sm = do {
     let pre_idx = (if h_index hh < length (si_tracked sm) \<and> tk_live (si_tracked sm ! h_index hh)
                    then h_index hh else kNullIndex);
     (victim, tick, bk) \<leftarrow>
       (if via_execute_front then do {
          (v, tick, _, bk) \<leftarrow> book_execute_front s price tk None (si_book sm);
          Some (case v of None \<Rightarrow> head | Some r \<Rightarrow> r, tick, bk)
        } else do {
          (tick, _, bk) \<leftarrow> book_execute head tk None (si_book sm);
          Some (head, tick, bk)
        });
     let sm = sm\<lparr> si_book := bk \<rparr>;
     mog_pre (tick_ok tick);
     if pre_idx = kNullIndex \<or> victim \<noteq> head then Some sm
     else do {
       let sm = mark_dirty pre_idx sm;
       let sm = sm\<lparr> si_recent_sync := si_recent_sync sm @ [pre_idx] \<rparr>;
       rm \<leftarrow> remaining_of (si_book sm) head;
       let t = si_tracked sm ! pre_idx;
       let sm = (if rm = 0 then unlink_tracked pre_idx (set_tracked pre_idx (t\<lparr> tk_live := False \<rparr>) sm)
                 else set_tracked pre_idx (t\<lparr> tk_qty_remaining := rm, tk_qty_ahead := 0 \<rparr>) sm);
       Some (emit_fill E pre_idx price tk (si_now_hint sm) sm)
     }
   }"

definition apply_to_head :: "('d, 'f) sim_env \<Rightarrow> side \<Rightarrow> u64 \<Rightarrow> int \<Rightarrow> int \<Rightarrow> gen_handle \<Rightarrow> 'd sim \<Rightarrow> 'd sim option" where
  "apply_to_head E s head price tk hh sm = reduce_and_sync E s head price tk True hh sm"

definition drop_iceberg :: "nat \<Rightarrow> 'd sim \<Rightarrow> 'd sim" where
  "drop_iceberg idx sm =
     sm\<lparr> si_icebergs := butlast ((si_icebergs sm)[idx := last (si_icebergs sm)]) \<rparr>"

definition replenish_if_iceberg :: "u64 \<Rightarrow> 'd sim \<Rightarrow> 'd sim option" where
  "replenish_if_iceberg head sm =
     (let idx = iceberg_index_of sm head
      in if idx = kNullIndex \<or> ic_hidden (si_icebergs sm ! idx) = 0 then Some sm
         else do {
           let ib = si_icebergs sm ! idx;
           h \<leftarrow> id_find (bk_ids (si_book sm)) head;
           if h_index h \<noteq> kNullIndex then Some sm
           else do {
             let slice = min (ic_display ib) (ic_hidden ib);
             mog_pre (slice > 0);
             (t, _, bk) \<leftarrow> book_add (ic_ref ib) (ic_side ib) slice (ic_price_ticks ib) None (si_book sm);
             mog_pre (tick_ok t);
             let ib = ib\<lparr> ic_hidden := ic_hidden ib - slice \<rparr>;
             let sm = sm\<lparr> si_book := bk, si_icebergs := (si_icebergs sm)[idx := ib] \<rparr>;
             Some (if ic_hidden ib = 0 then drop_iceberg idx sm else sm)
           }
         })"

section \<open>External flow\<close>

partial_function (option) consume_loop :: "('d, 'f) sim_env \<Rightarrow> side \<Rightarrow> int \<Rightarrow> int \<Rightarrow> int \<Rightarrow> 'd sim
    \<Rightarrow> (int \<times> 'd sim) option" where
  [code]: "consume_loop E s price q applied sm =
     (if applied < q then do {
        head \<leftarrow> front_ref (si_book sm) s price;
        if head = 0 then Some (applied, sm)
        else do {
          hh \<leftarrow> id_find (bk_ids (si_book sm)) head;
          mog_pre (h_index hh \<noteq> kNullIndex);
          rm \<leftarrow> remaining_of_handle (si_book sm) hh;
          let tk = min (q - applied) rm;
          mog_pre (tk > 0);
          sm \<leftarrow> apply_to_head E s head price tk hh sm;
          sm \<leftarrow> replenish_if_iceberg head sm;
          consume_loop E s price q (applied + tk) sm
        }
      } else Some (applied, sm))"

definition consume_level :: "('d, 'f) sim_env \<Rightarrow> side \<Rightarrow> int \<Rightarrow> int \<Rightarrow> 'd sim \<Rightarrow> 'd sim option" where
  "consume_level E s price q sm = do {
     let mid_before = mid_price sm;
     let sm = sm\<lparr> si_recent_sync := [] \<rparr>;
     sm \<leftarrow> subtract_level s price q False sm;
     (applied, sm) \<leftarrow> consume_loop E s price q 0 sm;
     let sm = (if applied > 0 then
                 (let sm = sm\<lparr> si_driver := en_excite E (si_driver sm) \<rparr>;
                      sm = update_momentum mid_before sm
                  in emit_trade s price applied sm)
               else sm);
     (_, sm) \<leftarrow> conservation_ok sm;
     Some sm
   }"

definition apply_external :: "('d, 'f) sim_env \<Rightarrow> side \<Rightarrow> int \<Rightarrow> int \<Rightarrow> 'd sim \<Rightarrow> 'd sim option" where
  "apply_external E s price qty sm = do {
     mog_pre (qty > 0);
     if si_halted sm then Some sm
     else do {
       let sm = repeg_hidden sm;
       let avail = qty_at (si_book sm) s price;
       sm \<leftarrow> consume_level E s price (min qty avail) sm;
       Some (if qty > avail
             then (case tap_hidden E s price (qty - avail) 0 sm of (_, _, _, sm) \<Rightarrow> sm)
             else sm)
     }
   }"

fun depletion_loop :: "('d, 'f) sim_env \<Rightarrow> side \<Rightarrow> nat \<Rightarrow> u32 \<Rightarrow> int \<Rightarrow> u64 \<Rightarrow> 'd sim \<Rightarrow> 'd sim option" where
  "depletion_loop E s 0 lvl tick rem_qty sm = Some sm"
| "depletion_loop E s (Suc n) lvl tick rem_qty sm =
     (if tick \<noteq> kNoTick \<and> rem_qty > 0 then do {
        let avail = qty_at (si_book sm) s tick;
        (rem_qty, sm) \<leftarrow>
          (if avail > 0 then do {
             let target = max 1 (en_depth_target E rem_qty lvl);
             let applied = min target avail;
             if applied > 0 then do {
               sm \<leftarrow> consume_level E s tick applied sm;
               Some (if rem_qty \<ge> word_of_int applied then rem_qty - word_of_int applied else 0, sm)
             } else Some (rem_qty, sm)
           } else Some (rem_qty, sm));
        let tick = (if s = Buy then next_price_below (si_book sm) s tick
                    else next_price_above (si_book sm) s tick);
        depletion_loop E s n (lvl + 1) tick rem_qty sm
      } else Some sm)"

definition apply_depletion :: "('d, 'f) sim_env \<Rightarrow> side \<Rightarrow> u64 \<Rightarrow> 'd sim \<Rightarrow> 'd sim option" where
  "apply_depletion E s qty sm =
     (if qty = 0 then Some sm
      else
        (let touch = (if s = Buy then bk_best_bid (si_book sm) else bk_best_ask (si_book sm))
         in if cf_depth_depletion_levels (si_cfg sm) \<le> 1 \<or> en_alpha_zero E then
              (if touch = kNoTick then Some sm
               else
                 (let avail = qty_at (si_book sm) s touch;
                      applied = min (sint qty) avail
                  in if applied \<le> 0 then Some sm else consume_level E s touch applied sm))
            else if touch = kNoTick then Some sm
            else depletion_loop E s (unat (cf_depth_depletion_levels (si_cfg sm))) 0 touch qty sm))"

definition advance_time :: "('d, 'f) sim_env \<Rightarrow> u64 \<Rightarrow> 'd sim \<Rightarrow> 'd sim option" where
  "advance_time E dt_ns sm =
     (if dt_ns = 0 \<or> si_halted sm then Some sm
      else do {
        let sm = sm\<lparr> si_driver := en_decay E dt_ns (si_driver sm) \<rparr>;
        let sm = sm\<lparr> si_ext_now := si_ext_now sm + dt_ns \<rparr>;
        let sm = sm\<lparr> si_now_hint := si_ext_now sm \<rparr>;
        let (bid, ask) = en_intensities E dt_ns (si_momentum_state sm) (si_ext_now sm) (si_momentum_ts sm) (si_driver sm);
        let (n, d) = en_poisson E bid (si_driver sm);
        sm \<leftarrow> apply_depletion E Buy n (sm\<lparr> si_driver := d \<rparr>);
        let (n, d) = en_poisson E ask (si_driver sm);
        sm \<leftarrow> apply_depletion E Sell n (sm\<lparr> si_driver := d \<rparr>);
        (_, sm) \<leftarrow> conservation_ok sm;
        Some sm
      })"

section \<open>Crossing\<close>

text \<open>The takes of a sweep per touched level: eight levels and one pending overflow level.\<close>

record sweep_note =
  nt_touched :: "(int \<times> int) list"
  nt_pending :: int
  nt_pending_take :: int
  nt_has_pending :: bool

definition no_note :: sweep_note where
  "no_note = \<lparr> nt_touched = [], nt_pending = 0, nt_pending_take = 0, nt_has_pending = False \<rparr>"

text \<open>The pending level is overwritten before it is compared, as in the code.\<close>

definition note_take :: "side \<Rightarrow> int \<Rightarrow> int \<Rightarrow> sweep_note \<Rightarrow> 'd sim \<Rightarrow> (sweep_note \<times> 'd sim) option" where
  "note_take opp touch qty nt sm =
     (case find (\<lambda>i. fst (nt_touched nt ! i) = touch) [0..<length (nt_touched nt)] of
        Some i \<Rightarrow> Some (nt\<lparr> nt_touched := (nt_touched nt)[i := (touch, snd (nt_touched nt ! i) + qty)] \<rparr>, sm)
      | None \<Rightarrow>
          if length (nt_touched nt) < 8
          then Some (nt\<lparr> nt_touched := nt_touched nt @ [(touch, qty)] \<rparr>, sm)
          else do {
            sm \<leftarrow> (if nt_has_pending nt \<and> nt_pending nt \<noteq> touch
                   then subtract_level opp (nt_pending nt) (nt_pending_take nt) True sm else Some sm);
            let nt = nt\<lparr> nt_pending := touch \<rparr>;
            let nt = nt\<lparr> nt_pending_take := (if nt_has_pending nt \<and> nt_pending nt = touch
                                            then nt_pending_take nt + qty else qty) \<rparr>;
            Some (nt\<lparr> nt_has_pending := True \<rparr>, sm)
          })"

record cross_state =
  cs_remaining :: int
  cs_filled :: int
  cs_notional :: u64
  cs_note :: sweep_note

datatype cross_next = CrossContinue | CrossBreak | CrossStop

text \<open>One match against the order at the head of the opposite queue.\<close>

definition cross_head :: "('d, 'f) sim_env \<Rightarrow> side \<Rightarrow> int \<Rightarrow> u64 \<Rightarrow> cross_state \<Rightarrow> 'd sim
    \<Rightarrow> (cross_next \<times> cross_state \<times> 'd sim) option" where
  "cross_head E opp touch head cs sm = do {
     hh \<leftarrow> id_find (bk_ids (si_book sm)) head;
     mog_pre (h_index hh \<noteq> kNullIndex);
     head_rem \<leftarrow> remaining_of_handle (si_book sm) hh;
     let victim_tracked = (h_index hh < length (si_tracked sm) \<and> tk_live (si_tracked sm ! h_index hh));
     if victim_tracked \<and> si_stp sm \<noteq> StpNone then
       (if si_stp sm = CancelNewest then Some (CrossStop, cs, sm)
        else if si_stp sm = CancelOldest then do {
          (_, _, bk) \<leftarrow> book_remove head None (si_book sm);
          let sm = sm\<lparr> si_book := bk \<rparr>;
          let sm = set_tracked (h_index hh) ((si_tracked sm ! h_index hh)\<lparr> tk_live := False \<rparr>) sm;
          let sm = mark_dirty (h_index hh) sm;
          let sm = unlink_tracked (h_index hh) sm;
          (nt, sm) \<leftarrow> note_take opp touch head_rem (cs_note cs) sm;
          Some (CrossContinue, cs\<lparr> cs_note := nt \<rparr>, sm)
        } else do {
          let d = min head_rem (cs_remaining cs);
          sm \<leftarrow> reduce_and_sync E opp head touch d False hh sm;
          (nt, sm) \<leftarrow> note_take opp touch d (cs_note cs) sm;
          sm \<leftarrow> replenish_if_iceberg head sm;
          Some (CrossContinue, \<lparr> cs_remaining = cs_remaining cs - d, cs_filled = cs_filled cs + d,
                  cs_notional = cs_notional cs + word_of_int d * word_of_int touch, cs_note = nt \<rparr>, sm)
        })
     else do {
       let tk = min (cs_remaining cs) head_rem;
       mog_pre (tk > 0);
       (nt, sm) \<leftarrow> note_take opp touch tk (cs_note cs) sm;
       sm \<leftarrow> apply_to_head E opp head touch tk hh sm;
       sm \<leftarrow> replenish_if_iceberg head sm;
       let cs = \<lparr> cs_remaining = cs_remaining cs - tk, cs_filled = cs_filled cs + tk,
                  cs_notional = cs_notional cs + word_of_int tk * word_of_int touch, cs_note = nt \<rparr>;
       if cs_remaining cs > 0 then
         (case tap_hidden E opp touch (cs_remaining cs) (cs_notional cs) sm of
            (f, r, n, sm) \<Rightarrow>
              Some (CrossContinue, cs\<lparr> cs_filled := cs_filled cs + f, cs_remaining := r, cs_notional := n \<rparr>, sm))
       else Some (CrossContinue, cs, sm)
     }
   }"

text \<open>One turn of the sweep: hidden liquidity at a better price first, then the touch.\<close>

definition cross_step :: "('d, 'f) sim_env \<Rightarrow> sim_inbound \<Rightarrow> cross_state \<Rightarrow> 'd sim
    \<Rightarrow> (cross_next \<times> cross_state \<times> 'd sim) option" where
  "cross_step E ord cs sm =
     (let buy = (in_side ord = Buy);
          opp = (if buy then Sell else Buy);
          h_best = best_hidden_price sm opp;
          touch = (if buy then bk_best_ask (si_book sm) else bk_best_bid (si_book sm));
          h_better = (h_best \<noteq> kNoTick \<and> (touch = kNoTick \<or> (if buy then h_best < touch else h_best > touch)))
      in if h_better then
           (if in_type ord \<noteq> Market \<and> (if buy then h_best > in_price ord else h_best < in_price ord)
            then Some (CrossBreak, cs, sm)
            else (case tap_hidden E opp h_best (cs_remaining cs) (cs_notional cs) sm of
                    (f, r, n, sm) \<Rightarrow>
                      Some (CrossContinue, cs\<lparr> cs_filled := cs_filled cs + f, cs_remaining := r, cs_notional := n \<rparr>, sm)))
         else if touch = kNoTick then Some (CrossBreak, cs, sm)
         else if in_type ord \<noteq> Market \<and> (if buy then touch > in_price ord else touch < in_price ord)
         then Some (CrossBreak, cs, sm)
         else do {
           head \<leftarrow> front_ref (si_book sm) opp touch;
           if head = 0 then Some (CrossBreak, cs, sm)
           else cross_head E opp touch head cs sm
         })"

text \<open>The loop; the flag is \<open>stp_stop\<close>.\<close>

partial_function (option) cross_loop :: "('d, 'f) sim_env \<Rightarrow> sim_inbound \<Rightarrow> cross_state \<Rightarrow> 'd sim
    \<Rightarrow> (bool \<times> cross_state \<times> 'd sim) option" where
  [code]: "cross_loop E ord cs sm =
     (if cs_remaining cs > 0 then do {
        (nxt, cs, sm) \<leftarrow> cross_step E ord cs sm;
        (case nxt of CrossBreak \<Rightarrow> Some (False, cs, sm)
         | CrossStop \<Rightarrow> Some (True, cs, sm)
         | CrossContinue \<Rightarrow> cross_loop E ord cs sm)
      } else Some (False, cs, sm))"

fun subtract_touched :: "side \<Rightarrow> (int \<times> int) list \<Rightarrow> 'd sim \<Rightarrow> 'd sim option" where
  "subtract_touched opp [] sm = Some sm"
| "subtract_touched opp ((p, q) # ts) sm =
     Option.bind (subtract_level opp p q True sm) (subtract_touched opp ts)"

text \<open>Returns what was filled, \<open>stp_stop\<close> and \<open>notional_out\<close>, which a stop leaves at its old value.\<close>

definition cross :: "('d, 'f) sim_env \<Rightarrow> sim_inbound \<Rightarrow> int \<Rightarrow> u64 \<Rightarrow> 'd sim
    \<Rightarrow> (int \<times> bool \<times> u64 \<times> 'd sim) option" where
  "cross E ord remaining notional_out sm = do {
     let sm = sm\<lparr> si_recent_sync := [] \<rparr>;
     (stop, cs, sm) \<leftarrow> cross_loop E ord
        \<lparr> cs_remaining = remaining, cs_filled = 0, cs_notional = 0, cs_note = no_note \<rparr> sm;
     if stop then Some (cs_filled cs, True, notional_out, sm)
     else do {
       let opp = (if in_side ord = Buy then Sell else Buy);
       let nt = cs_note cs;
       sm \<leftarrow> (if nt_has_pending nt then subtract_level opp (nt_pending nt) (nt_pending_take nt) True sm else Some sm);
       sm \<leftarrow> subtract_touched opp (nt_touched nt) sm;
       Some (cs_filled cs, False, cs_notional cs, sm)
     }
   }"

end
