(* ===== verification/SimDecide.thy ===== *)
theory SimDecide
  imports Simulator
begin

text \<open>
  Submission, decisions, cancels, replaces and the self-check of the execution simulator,
  \<open>include/mog/Simulate.hpp\<close>.
\<close>

section \<open>Submission\<close>

definition sim_submit :: "('d, 'f) sim_env \<Rightarrow> sim_inbound \<Rightarrow> u64 \<Rightarrow> 'd sim \<Rightarrow> (u64 \<times> 'd sim) option" where
  "sim_submit E ord arrival_ts sm = do {
     mog_pre (in_ref ord \<ge> cf_external_ref_limit (si_cfg sm));
     let (jitter, sm) = draw_jitter E sm;
     let decision_ts = arrival_ts + ucast (cf_parse_latency_ns (si_cfg sm)) +
           ucast (cf_decision_latency_ns (si_cfg sm)) + jitter;
     (_, w) \<leftarrow> sched_push decision_ts \<lparr> ev_visible_ts = decision_ts, ev_order = ord \<rparr> (si_wheel sm);
     Some (decision_ts, sm\<lparr> si_wheel := w \<rparr>)
   }"

section \<open>Decisions\<close>

text \<open>The peg that an order type implies.\<close>

definition resolve_peg_type :: "sim_inbound \<Rightarrow> sim_inbound" where
  "resolve_peg_type ord =
     (if in_type ord = MidpointPeg then ord\<lparr> in_peg := PegMid, in_non_displayed := True \<rparr>
      else if in_type ord = PrimaryPeg then
        ord\<lparr> in_peg := (if in_side ord = Buy then PegBid else PegAsk), in_non_displayed := True \<rparr>
      else if in_type ord = MarketPeg then
        ord\<lparr> in_peg := (if in_side ord = Buy then PegAsk else PegBid), in_non_displayed := True \<rparr>
      else ord)"

definition order_crosses :: "sim_inbound \<Rightarrow> 'd sim \<Rightarrow> bool" where
  "order_crosses ord sm =
     (let buy = (in_side ord = Buy);
          touch = (if buy then bk_best_ask (si_book sm) else bk_best_bid (si_book sm));
          touches = (touch \<noteq> kNoTick \<and> (if buy then touch \<le> in_price ord else touch \<ge> in_price ord))
      in \<not> si_halted sm \<and>
         (in_type ord = Market \<or>
          (touches \<and> (in_type ord = Ioc \<or> in_type ord = DayLimit \<or> in_type ord = PostOnly))))"

text \<open>The aggressive leg: what remains, the decision so far, and whether self-trade prevention stopped it.\<close>

definition decide_cross :: "('d, 'f) sim_env \<Rightarrow> sim_inbound \<Rightarrow> sim_decision \<Rightarrow> 'd sim
    \<Rightarrow> (bool \<times> int \<times> sim_decision \<times> 'd sim) option" where
  "decide_cross E ord out sm = do {
     (got, stp_stop, notional, sm) \<leftarrow> cross E ord (in_qty ord) 0 sm;
     let remaining = in_qty ord - got;
     let out = out\<lparr> dc_filled_qty := word_of_int got, dc_filled_notional := notional,
                    dc_fee := fee_bps_of notional (cf_taker_fee_bps (si_cfg sm)) \<rparr>;
     let sm = sm\<lparr> si_naive_filled := si_naive_filled sm + word_of_int (in_qty ord),
                  si_model_filled := si_model_filled sm + word_of_int got,
                  si_aggressive_filled := si_aggressive_filled sm + word_of_int got \<rparr>;
     Some (stp_stop, remaining, out, sm)
   }"

text \<open>The passive leg: the remainder rests in the book or the ledger, or is cancelled.\<close>

definition got_any :: "sim_decision \<Rightarrow> bool" where
  "got_any d \<longleftrightarrow> dc_filled_qty d > 0"

definition type_rests :: "sim_order_type \<Rightarrow> bool" where
  "type_rests t \<longleftrightarrow> t \<in> {DayLimit, PostOnly, MidpointPeg, PrimaryPeg, MarketPeg}"

definition decide_rest :: "('d, 'f) sim_env \<Rightarrow> sim_inbound \<Rightarrow> int \<Rightarrow> sim_decision \<Rightarrow> u64 \<Rightarrow> byte \<Rightarrow> 'd sim
    \<Rightarrow> 'd sim option" where
  "decide_rest E ord remaining out vis wire_side sm =
     (let rests = (type_rests (in_type ord) \<and> remaining > 0);
          goes_hidden = (in_non_displayed ord \<or> in_peg ord \<noteq> PegNone);
          rest_kind = (if got_any out then PartialThenRest else Rested)
      in if rests \<and> \<not> goes_hidden then do {
           (t, _, bk) \<leftarrow> book_add (in_ref ord) (in_side ord) remaining (in_price ord) None (si_book sm);
           let sm = sm\<lparr> si_book := bk \<rparr>;
           if \<not> tick_ok t then Some (push_decision E (out\<lparr> dc_kind := RejectedUnknown \<rparr>) vis (in_ref ord) wire_side sm)
           else do {
             sm \<leftarrow> track_resting (in_ref ord) (in_side ord) remaining (in_price ord) sm;
             Some (push_decision E (out\<lparr> dc_kind := rest_kind \<rparr>) vis (in_ref ord) wire_side sm)
           }
         }
         else if rests then
           (let h = \<lparr> hd_ref = in_ref ord, hd_side = in_side ord, hd_price_ticks = in_price ord,
                      hd_qty_remaining = remaining, hd_peg = in_peg ord, hd_peg_offset = in_peg_offset_ticks ord,
                      hd_pegged = (in_peg ord \<noteq> PegNone) \<rparr>;
                sm = sm\<lparr> si_hidden := si_hidden sm @ [h] \<rparr>
            in Some (push_decision E (out\<lparr> dc_kind := rest_kind \<rparr>) vis (in_ref ord) wire_side sm))
         else
           (let out = (if remaining > 0 then out\<lparr> dc_cancelled_qty := word_of_int remaining \<rparr> else out);
                fully = (dc_cancelled_qty out = 0 \<and> remaining = 0);
                out = out\<lparr> dc_kind := (if dc_filled_qty out > 0 \<and> fully then Filled else PartialThenCancelled) \<rparr>
            in Some (push_decision E out vis (in_ref ord) wire_side sm)))"

definition decide :: "('d, 'f) sim_env \<Rightarrow> sim_inbound \<Rightarrow> u64 \<Rightarrow> 'd sim \<Rightarrow> 'd sim option" where
  "decide E in0 decision_ts sm =
     (let sm = repeg_hidden (sm\<lparr> si_now_hint := decision_ts \<rparr>);
          ord = resolve_peg_type in0;
          wire_side = (if in_side ord = Buy then 0x42 else 0x53 :: byte);
          px = hidden_reference sm (in_peg ord) (in_peg_offset_ticks ord)
      in if in_peg ord \<noteq> PegNone \<and> px = kNoTick then
           (let (j, sm) = draw_jitter E sm;
                vis = decision_ts + ucast (cf_wire_latency_ns (si_cfg sm)) + j
            in Some (push_decision E (decision_of RejectedUnknown) vis (in_ref ord) wire_side sm))
         else do {
           let ord = (if in_peg ord \<noteq> PegNone then ord\<lparr> in_price := px \<rparr> else ord);
           let (j, sm) = draw_jitter E sm;
           let vis = decision_ts + ucast (cf_wire_latency_ns (si_cfg sm)) + j;
           h \<leftarrow> id_find (bk_ids (si_book sm)) (in_ref ord);
           if h_index h \<noteq> kNullIndex
           then Some (push_decision E (decision_of RejectedUnknown) vis (in_ref ord) wire_side sm)
           else do {
             let crosses = order_crosses ord sm;
             if in_type ord = PostOnly \<and> crosses
             then Some (push_decision E (decision_of RejectedWouldCross) vis (in_ref ord) wire_side sm)
             else do {
               let out = (decision_of RejectedUnknown)\<lparr> dc_decision_ts := decision_ts \<rparr>;
               (stp_stop, remaining, out, sm) \<leftarrow>
                 (if crosses \<and> in_qty ord > 0 then decide_cross E ord out sm
                  else Some (False, in_qty ord, out, sm));
               if stp_stop
               then Some (push_decision E (out\<lparr> dc_kind := RejectedStp, dc_cancelled_qty := word_of_int remaining \<rparr>)
                            vis (in_ref ord) wire_side sm)
               else decide_rest E ord remaining out vis wire_side sm
             }
           }
         })"

partial_function (option) run_until :: "('d, 'f) sim_env \<Rightarrow> u64 \<Rightarrow> 'd sim \<Rightarrow> 'd sim option" where
  [code]: "run_until E until_ts sm =
     (if sched_empty (si_wheel sm) then Some sm
      else Option.bind (peek_min_ts (si_wheel sm)) (\<lambda>ts.
        if ts \<le> until_ts then
          Option.bind (pop_min (si_wheel sm)) (\<lambda>(ev, w).
            Option.bind (decide E (ev_order ev) (ev_visible_ts ev) (sm\<lparr> si_wheel := w \<rparr>))
              (run_until E until_ts))
        else Some sm))"

definition sim_drain :: "('d, 'f) sim_env \<Rightarrow> 'd sim \<Rightarrow> 'd sim option" where
  "sim_drain E sm = run_until E (- 1) sm"

section \<open>Cancel and replace\<close>

text \<open>The first hidden order with a reference.\<close>

definition hidden_index :: "'d sim \<Rightarrow> u64 \<Rightarrow> nat option" where
  "hidden_index sm ref = find (\<lambda>i. hd_ref (si_hidden sm ! i) = ref) [0..<length (si_hidden sm)]"

definition cancel_strategy :: "('d, 'f) sim_env \<Rightarrow> u64 \<Rightarrow> 'd sim \<Rightarrow> (bool \<times> 'd sim) option" where
  "cancel_strategy E ref sm = do {
     idx \<leftarrow> tracked_index_of sm ref;
     if idx = kNullIndex then
       (case hidden_index sm ref of
          Some i \<Rightarrow>
            (let sm = sm\<lparr> si_hidden := erase_nth i (si_hidden sm) \<rparr>;
                 sm = sm\<lparr> si_seq_counter := si_seq_counter sm + 1 \<rparr>
             in Some (True, trace_hidden_cancel (en_le E) ref sm))
        | None \<Rightarrow> Some (False, sm))
     else do {
       (t, _, bk) \<leftarrow> book_remove ref None (si_book sm);
       let sm = sm\<lparr> si_book := bk \<rparr>;
       if \<not> tick_ok t then Some (False, sm)
       else do {
         let rs = side_from_wire (tk_side (si_tracked sm ! idx));
         let rp = tk_price_ticks (si_tracked sm ! idx);
         let sm = set_tracked idx ((si_tracked sm ! idx)\<lparr> tk_live := False \<rparr>) sm;
         let sm = unlink_tracked idx (mark_dirty idx sm);
         sm \<leftarrow> recompute_positions rs rp sm;
         Some (True, sm)
       }
     }
   }"

text \<open>\<open>BookTick{}\<close>: every member at its default.\<close>

definition default_tick :: book_tick where
  "default_tick = \<lparr> bt_price_ticks = 0, bt_qty = 0, bt_kind = event_code Added, bt_side = ch_B, bt_error = 0 \<rparr>"

definition replace_strategy :: "('d, 'f) sim_env \<Rightarrow> u64 \<Rightarrow> u64 \<Rightarrow> int \<Rightarrow> int \<Rightarrow> 'd sim
    \<Rightarrow> (book_tick \<times> 'd sim) option" where
  "replace_strategy E orig fresh qty price sm = do {
     mog_pre (fresh \<ge> cf_external_ref_limit (si_cfg sm));
     side_c \<leftarrow> side_of (si_book sm) orig;
     idx \<leftarrow> tracked_index_of sm orig;
     if idx = kNullIndex then
       (case hidden_index sm orig of
          Some i \<Rightarrow>
            (let h = si_hidden sm ! i;
                 sm = sm\<lparr> si_hidden := (si_hidden sm)[i := h\<lparr> hd_ref := fresh, hd_price_ticks := price,
                            hd_qty_remaining := qty \<rparr>] \<rparr>;
                 sm = sm\<lparr> si_seq_counter := si_seq_counter sm + 1 \<rparr>
             in Some (\<lparr> bt_price_ticks = price, bt_qty = word_of_int qty, bt_kind = event_code Replaced,
                        bt_side = to_wire (hd_side h), bt_error = 0 \<rparr>, trace_hidden_cancel (en_le E) orig sm))
        | None \<Rightarrow> Some (default_tick, sm))
     else if side_c \<noteq> 0x42 \<and> side_c \<noteq> 0x53 then Some (default_tick, sm)
     else do {
       let old_px = tk_price_ticks (si_tracked sm ! idx);
       (t, _, bk) \<leftarrow> book_replace orig fresh qty price None (si_book sm);
       let sm = sm\<lparr> si_book := bk \<rparr>;
       if \<not> tick_ok t then Some (t, sm)
       else do {
         let sm = set_tracked idx ((si_tracked sm ! idx)\<lparr> tk_live := False \<rparr>) sm;
         let sm = unlink_tracked idx (mark_dirty idx sm);
         sm \<leftarrow> track_resting fresh (side_from_wire side_c) qty price sm;
         sm \<leftarrow> (if old_px \<noteq> price then recompute_positions (side_from_wire side_c) old_px sm else Some sm);
         Some (t, sm)
       }
     }
   }"

section \<open>Housekeeping\<close>

definition set_halted :: "bool \<Rightarrow> 'd sim \<Rightarrow> 'd sim" where
  "set_halted h sm = sm\<lparr> si_halted := h \<rparr>"

definition set_stp_mode :: "stp_mode \<Rightarrow> 'd sim \<Rightarrow> 'd sim" where
  "set_stp_mode m sm = sm\<lparr> si_stp := m \<rparr>"

definition clear_reports :: "'d sim \<Rightarrow> 'd sim" where
  "clear_reports sm = sm\<lparr> si_reports := [] \<rparr>"

definition clear_events :: "'d sim \<Rightarrow> 'd sim" where
  "clear_events sm = sm\<lparr> si_reports := [], si_decisions := [], si_trades := [] \<rparr>"

definition pending_decisions :: "'d sim \<Rightarrow> nat" where
  "pending_decisions sm = sched_size (si_wheel sm)"

definition sim_audit :: "'d sim \<Rightarrow> (bool \<times> 'd sim) option" where
  "sim_audit sm = do {
     sm \<leftarrow> recompute_all_tracked sm;
     b \<leftarrow> book_audit (si_book sm);
     w \<leftarrow> (if b then sched_audit (si_wheel sm) else Some False);
     if b \<and> w then check_conservation sm else Some (False, sm)
   }"

end
