(* ===== verification/SimHidden.thy ===== *)
theory SimHidden
  imports SimDecide
begin

text \<open>
  The ledger of non-displayed orders: consumption at a price is first in, first out, and takes
  exactly the smaller of what is asked and what is there; the best hidden price is the extremal one
  of the orders with quantity.
\<close>

section \<open>Consumption\<close>

fun tap_spec :: "side \<Rightarrow> int \<Rightarrow> int \<Rightarrow> hidden_order list \<Rightarrow> (u64 \<times> int) list \<times> hidden_order list" where
  "tap_spec s p r [] = ([], [])"
| "tap_spec s p r (h # hs) =
     (if r \<le> 0 then ([], h # hs)
      else if hd_side h \<noteq> s \<or> hd_price_ticks h \<noteq> p then (case tap_spec s p r hs of (fs, hs') \<Rightarrow> (fs, h # hs'))
      else (let tk = min r (hd_qty_remaining h)
            in case tap_spec s p (r - tk) hs of (fs, hs') \<Rightarrow>
                 ((hd_ref h, tk) # fs,
                  if hd_qty_remaining h = tk then hs' else h\<lparr> hd_qty_remaining := hd_qty_remaining h - tk \<rparr> # hs')))"

definition fills_total :: "(u64 \<times> int) list \<Rightarrow> int" where
  "fills_total fs = sum_list (map snd fs)"

lemma fills_total_simps [simp]: "fills_total [] = 0" "fills_total ((ref, tk) # fs) = tk + fills_total fs"
  by (simp_all add: fills_total_def)

definition report_fills :: "('d, 'f) sim_env \<Rightarrow> side \<Rightarrow> int \<Rightarrow> (u64 \<times> int) list \<Rightarrow> 'd sim \<Rightarrow> 'd sim" where
  "report_fills E s p fs sm = foldl (\<lambda>sm (ref, tk). report_hidden_fill E s p ref tk sm) sm fs"

lemma report_hidden_fill_update:
  "report_hidden_fill E s p ref tk (sm\<lparr> si_hidden := hs \<rparr>) = (report_hidden_fill E s p ref tk sm)\<lparr> si_hidden := hs \<rparr>"
  by (simp add: report_hidden_fill_def trace_hidden_fill_def sim_simps Let_def)

lemma report_fills_simps [simp]:
  "report_fills E s p [] sm = sm"
  "report_fills E s p ((ref, tk) # fs) sm = report_fills E s p fs (report_hidden_fill E s p ref tk sm)"
  by (simp_all add: report_fills_def)

lemma report_fills_update:
  "report_fills E s p fs (sm\<lparr> si_hidden := hs \<rparr>) = (report_fills E s p fs sm)\<lparr> si_hidden := hs \<rparr>"
  by (induction fs arbitrary: sm) (auto simp: report_hidden_fill_update)

lemma tap_loop_spec:
  assumes "si_hidden sm = pre @ hs" and "tap_spec s p r hs = (fs, hs')"
  shows "tap_hidden_loop E s p (length pre) filled r n sm =
    (filled + fills_total fs, r - fills_total fs, n + word_of_int (fills_total fs) * word_of_int p,
     (report_fills E s p fs sm)\<lparr> si_hidden := pre @ hs' \<rparr>)"
  using assms
proof (induction hs arbitrary: pre sm r filled n fs hs')
  case Nil
  then show ?case by (subst tap_hidden_loop.simps) (simp add: fills_total_def)
next
  case (Cons h hs)
  consider (stop) "r \<le> 0" | (other) "r > 0" "hd_side h \<noteq> s \<or> hd_price_ticks h \<noteq> p"
    | (hit) "r > 0" "hd_side h = s" "hd_price_ticks h = p" by fastforce
  then show ?case
  proof cases
    case stop
    then show ?thesis using Cons.prems by (subst tap_hidden_loop.simps) (simp add: fills_total_def)
  next
    case other
    obtain hs1 where t: "tap_spec s p r hs = (fs, hs1)" "hs' = h # hs1"
      using Cons.prems(2) other by (auto split: prod.splits)
    have "tap_hidden_loop E s p (length pre) filled r n sm = tap_hidden_loop E s p (length (pre @ [h])) filled r n sm"
      using other Cons.prems(1) by (subst tap_hidden_loop.simps) (auto simp: Let_def)
    then show ?thesis using Cons.IH[of sm "pre @ [h]" r fs hs1 filled n] Cons.prems(1) t by simp
  next
    case hit
    define tk where "tk = min r (hd_qty_remaining h)"
    let ?h = "h\<lparr> hd_qty_remaining := hd_qty_remaining h - tk \<rparr>"
    let ?n = "n + word_of_int tk * word_of_int p"
    obtain fs1 hs1 where t: "tap_spec s p (r - tk) hs = (fs1, hs1)" by fastforce
    have r: "fs = (hd_ref h, tk) # fs1" "hs' = (if hd_qty_remaining h = tk then hs1 else ?h # hs1)"
      using Cons.prems(2) hit t by (simp_all add: Let_def flip: tk_def)
    have tot: "fills_total fs = tk + fills_total fs1" by (simp add: fills_total_def r)
    let ?sm = "report_hidden_fill E s p (hd_ref h) tk (sm\<lparr> si_hidden := pre @ ?h # hs \<rparr>)"
    have e: "tap_hidden_loop E s p (length pre) filled r n sm =
        (if hd_qty_remaining ?h = 0
         then tap_hidden_loop E s p (length pre) (filled + tk) (r - tk) ?n (?sm\<lparr> si_hidden := pre @ hs \<rparr>)
         else tap_hidden_loop E s p (length (pre @ [?h])) (filled + tk) (r - tk) ?n ?sm)"
      using hit Cons.prems(1) by (subst tap_hidden_loop.simps) (simp add: Let_def erase_nth_def tk_def)
    have w: "?n + word_of_int (fills_total fs1) * word_of_int p = n + word_of_int (fills_total fs) * word_of_int p"
      by (simp add: tot algebra_simps)
    show ?thesis
    proof (cases "hd_qty_remaining h = tk")
      case True
      from Cons.IH[of "?sm\<lparr> si_hidden := pre @ hs \<rparr>" pre "r - tk" fs1 hs1 "filled + tk" ?n] t
      show ?thesis using e True w by (simp add: tot r report_hidden_fill_update report_fills_update)
    next
      case False
      from Cons.IH[of ?sm "pre @ [?h]" "r - tk" fs1 hs1 "filled + tk" ?n] t
      show ?thesis using e False w by (simp add: tot r report_hidden_fill_update report_fills_update)
    qed
  qed
qed

lemma tap_hidden_spec:
  assumes "tap_spec s p r (si_hidden sm) = (fs, hs')"
  shows "tap_hidden E s p r n sm =
    (fills_total fs, r - fills_total fs, n + word_of_int (fills_total fs) * word_of_int p,
     (report_fills E s p fs sm)\<lparr> si_hidden := hs' \<rparr>)"
  using tap_loop_spec[of sm "[]" "si_hidden sm" s p r fs hs' E 0 n] assms by (simp add: tap_hidden_def)

section \<open>Quantities\<close>

definition hidden_ok :: "hidden_order list \<Rightarrow> bool" where
  "hidden_ok hs \<longleftrightarrow> (\<forall>h \<in> set hs. hd_qty_remaining h > 0)"

definition hidden_total :: "side \<Rightarrow> int \<Rightarrow> hidden_order list \<Rightarrow> int" where
  "hidden_total s p hs = sum_list (map hd_qty_remaining (filter (\<lambda>h. hd_side h = s \<and> hd_price_ticks h = p) hs))"

lemma hidden_qty_at_total: "hidden_qty_at sm s p = hidden_total s p (si_hidden sm)"
proof -
  have "foldl (\<lambda>acc h. if hd_side h = s \<and> hd_price_ticks h = p then acc + hd_qty_remaining h else acc) a hs =
      a + hidden_total s p hs" for a hs
    by (induction hs arbitrary: a) (auto simp: hidden_total_def)
  from this[of 0] show ?thesis by (simp add: hidden_qty_at_def)
qed

lemma hidden_total_nonneg: "hidden_ok hs \<Longrightarrow> 0 \<le> hidden_total s p hs"
  by (induction hs) (auto simp: hidden_total_def hidden_ok_def)

lemma tap_spec_total:
  assumes "hidden_ok hs" and "tap_spec s p r hs = (fs, hs')"
  shows "fills_total fs = max 0 (min r (hidden_total s p hs)) \<and> hidden_ok hs' \<and>
    hidden_total s p hs' = hidden_total s p hs - fills_total fs \<and>
    (\<forall>s' p'. (s', p') \<noteq> (s, p) \<longrightarrow> hidden_total s' p' hs' = hidden_total s' p' hs) \<and>
    (\<forall>x \<in> set fs. 0 < snd x)"
  using assms
proof (induction hs arbitrary: r fs hs')
  case Nil
  then show ?case by (simp add: fills_total_def hidden_total_def)
next
  case (Cons h hs)
  have ok: "hidden_ok hs" "0 < hd_qty_remaining h" using Cons.prems(1) by (auto simp: hidden_ok_def)
  note nn = hidden_total_nonneg[OF ok(1), of s p]
  have t: "hidden_total s' p' (h # hs) = (if hd_side h = s' \<and> hd_price_ticks h = p' then hd_qty_remaining h else 0) +
      hidden_total s' p' hs" for s' p' by (simp add: hidden_total_def)
  consider (stop) "r \<le> 0" | (other) "r > 0" "hd_side h \<noteq> s \<or> hd_price_ticks h \<noteq> p"
    | (hit) "r > 0" "hd_side h = s" "hd_price_ticks h = p" by fastforce
  then show ?case
  proof cases
    case stop
    then show ?thesis using Cons.prems nn t[of s p] ok by (auto simp: fills_total_def)
  next
    case other
    then obtain hs1 where "tap_spec s p r hs = (fs, hs1)" "hs' = h # hs1"
      using Cons.prems(2) by (auto split: prod.splits)
    with Cons.IH[OF ok(1)] show ?thesis using other ok(2) by (auto simp: t hidden_ok_def hidden_total_def)
  next
    case hit
    let ?tk = "min r (hd_qty_remaining h)"
    obtain fs1 hs1 where t1: "tap_spec s p (r - ?tk) hs = (fs1, hs1)" by fastforce
    have r: "fs = (hd_ref h, ?tk) # fs1"
      "hs' = (if hd_qty_remaining h = ?tk then hs1 else h\<lparr> hd_qty_remaining := hd_qty_remaining h - ?tk \<rparr> # hs1)"
      using Cons.prems(2) hit t1 by (simp_all add: Let_def)
    have IH: "fills_total fs1 = max 0 (min (r - ?tk) (hidden_total s p hs))" "hidden_ok hs1"
      "hidden_total s p hs1 = hidden_total s p hs - fills_total fs1"
      "\<And>s' p'. (s', p') \<noteq> (s, p) \<Longrightarrow> hidden_total s' p' hs1 = hidden_total s' p' hs"
      "\<forall>x \<in> set fs1. 0 < snd x"
      using Cons.IH[OF ok(1) t1] by blast+
    have tot: "fills_total fs = ?tk + fills_total fs1" by (simp add: fills_total_def r)
    have sum: "fills_total fs = max 0 (min r (hidden_total s p (h # hs)))"
      unfolding tot IH(1) t using hit nn ok(2) by (auto simp: min_def max_def)
    have own: "hidden_total s p hs' = hidden_total s p (h # hs) - fills_total fs"
      using IH(3) hit by (auto simp: r tot hidden_total_def)
    have others: "hidden_total s' p' hs' = hidden_total s' p' (h # hs)" if "(s', p') \<noteq> (s, p)" for s' p'
      using IH(4)[OF that] that hit by (auto simp: r hidden_total_def)
    have "hidden_ok hs'" using IH(2) ok(2) by (auto simp: r hidden_ok_def min_def split: if_splits)
    moreover have "\<forall>x \<in> set fs. 0 < snd x" using IH(5) hit ok(2) by (simp add: r)
    ultimately show ?thesis using sum own others by blast
  qed
qed

end
