(* ===== verification/SimFrame.thy ===== *)
theory SimFrame
  imports SimHidden
begin

text \<open>
  What the operations of the simulator leave alone, as locales over a view of the state. \<open>sim_quiet\<close>
  is a view that does not show the trace, the totals, the draws and the tracker; \<open>sim_below\<close> also hides the
  counter of occurrences, the reports and the trades; \<open>sim_deep\<close> also
  hides the market (book, ledger, icebergs) and survives a whole sweep; \<open>sim_frame\<close> also hides the
  decisions. The views: the configuration with the event queue and the policy flags, the decisions,
  and the market.
\<close>

section \<open>Walks keep the length of the tracker\<close>

lemma level_walk_inv:
  assumes "level_walk ar fn idx st = Some st'" and "\<And>i ord st. P st \<Longrightarrow> P (fn i ord st)" and "P st"
  shows "P st'"
  using assms
proof (induct ar fn idx st st' rule: level_walk.raw_induct[rotated, consumes 1, case_names turn])
  case (turn walk ar fn idx st st')
  show ?case
  proof (cases "idx \<noteq> kNullIndex")
    case True
    then obtain ord where "walk ar fn (o_next ord) (fn idx ord st) = Some st'"
      using turn(2) by (auto split: bind_splits)
    then show ?thesis by (rule turn(1)) (use turn(3,4) in auto)
  qed (use turn(2,4) in simp)
qed

lemma subtract_walk_length: "subtract_walk skip n i tr = Some tr' \<Longrightarrow> length tr' = length tr"
proof (induct skip n i tr tr' rule: subtract_walk.raw_induct[rotated, consumes 1, case_names turn])
  case (turn walk skip n i tr tr')
  from turn(2) show ?case by (cases "i \<noteq> kNullIndex") (auto dest: turn(1) split: if_splits)
qed

lemma recompute_length:
  assumes "recompute_positions s p sm = Some sm'"
  shows "length (si_tracked sm') = length (si_tracked sm)"
proof -
  have w: "length (snd st') = length (snd st)"
    if "level_walk ar (\<lambda>idx ord. position_visit idx (o_ref ord) (o_qty ord)) h st = Some st'" for ar h st st'
    by (rule level_walk_inv[OF that, of "\<lambda>x. length (snd x) = length (snd st)"])
      (auto simp: position_visit_def split: prod.splits)
  from assms obtain c tr where "for_each_in_level_idx (si_book sm) s p position_visit (0, si_tracked sm) = Some (c, tr)"
    "sm' = sm\<lparr> si_tracked := tr \<rparr>" by (auto simp: recompute_positions_def split: bind_splits)
  then show ?thesis using w[of _ _ "(0, si_tracked sm)" "(c, tr)"]
    by (auto simp: for_each_in_level_idx_def split: option.splits)
qed

text \<open>The loop of the sweep as an induction over its turns.\<close>

lemma cross_loop_induct [consumes 1, case_names exhausted ended stopped turned]:
  assumes "cross_loop E ord cs sm = Some (st, cs', sm')"
    and "\<And>cs sm. cs_remaining cs \<le> 0 \<Longrightarrow> P cs sm False cs sm"
    and "\<And>cs sm cs' sm'. cs_remaining cs > 0 \<Longrightarrow> cross_step E ord cs sm = Some (CrossBreak, cs', sm') \<Longrightarrow>
       P cs sm False cs' sm'"
    and "\<And>cs sm cs' sm'. cs_remaining cs > 0 \<Longrightarrow> cross_step E ord cs sm = Some (CrossStop, cs', sm') \<Longrightarrow>
       P cs sm True cs' sm'"
    and "\<And>cs sm cs1 sm1 st cs' sm'. cs_remaining cs > 0 \<Longrightarrow> cross_step E ord cs sm = Some (CrossContinue, cs1, sm1) \<Longrightarrow>
       P cs1 sm1 st cs' sm' \<Longrightarrow> P cs sm st cs' sm'"
  shows "P cs sm st cs' sm'"
proof -
  have "E0 = E \<longrightarrow> ord0 = ord \<longrightarrow> P cs sm (fst r) (fst (snd r)) (snd (snd r))"
    if "cross_loop E0 ord0 cs sm = Some r" for E0 ord0 cs sm r
    using that
  proof (induct E0 ord0 cs sm r rule: cross_loop.raw_induct[rotated, consumes 1, case_names turn])
    case (turn loop E0 ord0 cs sm r)
    show ?case
    proof (intro impI)
      assume eq: "E0 = E" "ord0 = ord"
      show "P cs sm (fst r) (fst (snd r)) (snd (snd r))"
      proof (cases "cs_remaining cs > 0")
        case True
        then have b: "cross_step E ord cs sm \<bind> (\<lambda>(nx, cs, sm). case nx of CrossBreak \<Rightarrow> Some (False, cs, sm)
            | CrossStop \<Rightarrow> Some (True, cs, sm) | CrossContinue \<Rightarrow> loop E ord cs sm) = Some r"
          using turn(2)[unfolded eq] by (simp add: case_prod_unfold)
        then obtain nx cs1 sm1 where s: "cross_step E ord cs sm = Some (nx, cs1, sm1)"
          "(case nx of CrossBreak \<Rightarrow> Some (False, cs1, sm1) | CrossStop \<Rightarrow> Some (True, cs1, sm1)
            | CrossContinue \<Rightarrow> loop E ord cs1 sm1) = Some r" by (cases "cross_step E ord cs sm") auto
        show ?thesis
        proof (cases nx)
          case CrossContinue
          with s have st: "cross_step E ord cs sm = Some (CrossContinue, cs1, sm1)" "loop E ord cs1 sm1 = Some r" by simp_all
          from turn(1)[OF st(2)] have "P cs1 sm1 (fst r) (fst (snd r)) (snd (snd r))" by simp
          then show ?thesis by (rule assms(5)[OF True st(1)])
        next
          case CrossBreak
          with s have "cross_step E ord cs sm = Some (CrossBreak, cs1, sm1)" "r = (False, cs1, sm1)" by simp_all
          then show ?thesis using assms(3)[OF True] by simp
        next
          case CrossStop
          with s have "cross_step E ord cs sm = Some (CrossStop, cs1, sm1)" "r = (True, cs1, sm1)" by simp_all
          then show ?thesis using assms(4)[OF True] by simp
        qed
      next
        case False
        with turn(2) have "r = (False, cs, sm)" by simp
        then show ?thesis using assms(2)[of cs sm] False by simp
      qed
    qed
  qed
  from this[OF assms(1)] show ?thesis by simp
qed

section \<open>Views\<close>

text \<open>\<open>sim_quiet\<close>: a view of the market, the event queue, the configuration and the numbered occurrences.\<close>

locale sim_quiet =
  fixes view :: "'d sim \<Rightarrow> 'v"
  assumes frame_sync: "view (sm\<lparr> si_recent_sync := rs \<rparr>) = view sm"
    and frame_driver: "view (sm\<lparr> si_driver := dr \<rparr>) = view sm"
    and frame_live: "view (sm\<lparr> si_live_tracked := rs \<rparr>) = view sm"
    and frame_now: "view (sm\<lparr> si_now_hint := n \<rparr>) = view sm"
    and frame_naive: "view (sm\<lparr> si_naive_filled := n \<rparr>) = view sm"
    and frame_model: "view (sm\<lparr> si_model_filled := n \<rparr>) = view sm"
    and frame_aggressive: "view (sm\<lparr> si_aggressive_filled := n \<rparr>) = view sm"
    and frame_maps: "view (sm\<lparr> si_level_maps := lm \<rparr>) = view sm"
    and frame_fallback: "view (sm\<lparr> si_fallback_levels := fl \<rparr>) = view sm"
    and frame_count: "view (sm\<lparr> si_fill_count := fc \<rparr>) = view sm"
    and frame_fees: "view (sm\<lparr> si_total_fees := x \<rparr>) = view sm"
    and frame_notional: "view (sm\<lparr> si_total_filled_notional := n \<rparr>) = view sm"
    and frame_trace: "view (sm\<lparr> si_trace := bs \<rparr>) = view sm"
    and frame_dirty: "view (sm\<lparr> si_dirty := rs \<rparr>) = view sm"
    and frame_checks: "view (sm\<lparr> si_conservation_checks := n \<rparr>) = view sm"
    and frame_momentum: "view (sm\<lparr> si_momentum_ts := n, si_momentum_state := x \<rparr>) = view sm"
    and frame_tracked: "length tr = length (si_tracked sm) \<Longrightarrow> view (sm\<lparr> si_tracked := tr \<rparr>) = view sm"
begin

lemmas frames [simp] = frame_sync frame_driver frame_live frame_now frame_naive frame_model
  frame_aggressive frame_maps frame_fallback frame_count frame_fees
  frame_notional frame_trace frame_dirty frame_checks frame_momentum frame_tracked

lemma view_writes [simp]:
  "view (mark_dirty i sm) = view sm"
  "view (set_tracked i tr sm) = view sm"
  "view (set_level s i e sm) = view sm"
  "view (trace_bytes bs sm) = view sm"
  "view (trace_u64 le v sm) = view sm"
  "view (trace_u32 le w sm) = view sm"
  "view (trace_i64 le x sm) = view sm"
  "view (update_momentum x sm) = view sm"
  by (simp_all add: mark_dirty_def set_tracked_def set_level_def update_momentum_def sim_simps Let_def)

lemma jitter: "draw_jitter E sm = (j, sm') \<Longrightarrow> view sm' = view sm"
  by (auto simp: draw_jitter_def Let_def split: prod.splits)

lemma link [simp]: "view (link_tracked i s p sm) = view sm"
  by (auto simp: link_tracked_def level_get_def Let_def split: prod.splits option.splits sum.splits if_splits)

lemma unlink [simp]: "view (unlink_tracked i sm) = view sm"
  by (auto simp: unlink_tracked_def Let_def split: prod.splits option.splits if_splits)

lemma recompute: "recompute_positions s p sm = Some sm' \<Longrightarrow> view sm' = view sm"
  using recompute_length[of s p sm sm'] by (auto simp: recompute_positions_def split: bind_splits)

lemma subtract: "subtract_level s p n sk sm = Some sm' \<Longrightarrow> view sm' = view sm"
  by (auto simp: subtract_level_def dest: subtract_walk_length recompute split: option.splits bind_splits if_splits)

lemma track: "track_resting ref s q p sm = Some sm' \<Longrightarrow> view sm' = view sm"
  by (auto simp: track_resting_def Let_def split: bind_splits)

lemma noted: "note_take opp touch q nt sm = Some (nt', sm') \<Longrightarrow> view sm' = view sm"
  by (auto simp: note_take_def Let_def dest: subtract split: bind_splits if_splits option.splits)

lemma touched: "subtract_touched opp ts sm = Some sm' \<Longrightarrow> view sm' = view sm"
  by (induction opp ts sm rule: subtract_touched.induct) (auto split: bind_splits dest!: subtract)

lemma conservation: "conservation_ok sm = Some (ok, sm') \<Longrightarrow> view sm' = view sm"
  by (auto simp: conservation_ok_def check_conservation_def Let_def split: bind_splits if_splits prod.splits)

end

text \<open>\<open>sim_below\<close>: a view that does not show the counter of occurrences, the fill reports and the trades either.\<close>

locale sim_below = sim_quiet +
  assumes frame_seq: "view (sm\<lparr> si_seq_counter := n \<rparr>) = view sm"
    and frame_reports: "view (sm\<lparr> si_reports := rp \<rparr>) = view sm"
    and frame_trades: "view (sm\<lparr> si_trades := ts \<rparr>) = view sm"
begin

lemmas occurrence_frames [simp] = frame_seq frame_reports frame_trades

lemma emit_trade [simp]: "view (emit_trade s p q sm) = view sm"
  by (simp add: emit_trade_def next_seq_def Let_def)

lemma emit_fill [simp]: "view (emit_fill E idx price qty ts sm) = view sm"
  by (auto simp: emit_fill_def Let_def next_seq_def dest: jitter split: prod.splits)

lemma report_hidden [simp]: "view (report_hidden_fill E s p ref tk sm) = view sm"
  by (simp add: report_hidden_fill_def trace_hidden_fill_def Let_def next_seq_def)

lemma report_fills [simp]: "view (report_fills E s p fs sm) = view sm"
  by (induction fs arbitrary: sm) auto

end

section \<open>Views that hide the market\<close>

text \<open>A view that does not show the book, the ledger or the icebergs survives a whole sweep.\<close>

locale sim_deep = sim_below +
  assumes frame_book: "view (sm\<lparr> si_book := bk \<rparr>) = view sm"
    and frame_hidden: "view (sm\<lparr> si_hidden := hs \<rparr>) = view sm"
    and frame_icebergs: "view (sm\<lparr> si_icebergs := ibs \<rparr>) = view sm"
begin

lemmas market_frames [simp] = frame_book frame_hidden frame_icebergs

lemma market_writes [simp]: "view (drop_iceberg i sm) = view sm" "view (repeg_hidden sm) = view sm"
  by (simp_all add: drop_iceberg_def repeg_hidden_def)

lemma tap: "tap_hidden E s p r n sm = (f, r', n', sm') \<Longrightarrow> view sm' = view sm"
  by (cases "tap_spec s p r (si_hidden sm)") (auto simp: tap_hidden_spec)

lemma reduce: "reduce_and_sync E s head p tk via hh sm = Some sm' \<Longrightarrow> view sm' = view sm"
  by (auto simp: reduce_and_sync_def Let_def split: bind_splits if_splits prod.splits option.splits)

lemma replenish: "replenish_if_iceberg head sm = Some sm' \<Longrightarrow> view sm' = view sm"
  by (auto simp: replenish_if_iceberg_def Let_def split: bind_splits if_splits prod.splits)

lemma head: "cross_head E opp touch head cs sm = Some (nx, cs', sm') \<Longrightarrow> view sm' = view sm"
  by (auto simp: cross_head_def apply_to_head_def Let_def split: bind_splits if_splits prod.splits
      dest!: noted reduce replenish tap)

lemma turn: "cross_step E ord cs sm = Some (nx, cs', sm') \<Longrightarrow> view sm' = view sm"
  by (auto simp: cross_step_def Let_def split: bind_splits if_splits prod.splits dest!: tap head)

lemma loop: "cross_loop E ord cs sm = Some (st, cs', sm') \<Longrightarrow> view sm' = view sm"
  by (induct rule: cross_loop_induct) (auto dest: turn)

lemma crossed: "cross E ord q n sm = Some (f, st, n', sm') \<Longrightarrow> view sm' = view sm"
  by (auto simp: cross_def Let_def split: bind_splits if_splits prod.splits dest!: loop subtract touched)

lemma decided: "decide_cross E ord out sm = Some (st, q, out', sm') \<Longrightarrow> view sm' = view sm"
  by (auto simp: decide_cross_def Let_def split: bind_splits prod.splits dest!: crossed)

end

section \<open>Views that hide the decisions\<close>

locale sim_frame = sim_below +
  assumes frame_decisions: "view (sm\<lparr> si_decisions := ds \<rparr>) = view sm"
begin

lemma push_decision [simp]: "view (push_decision E d vis ref sd sm) = view sm"
  by (simp add: push_decision_def Let_def next_seq_def frame_decisions)

end

section \<open>The configuration\<close>

definition sim_core :: "'d sim \<Rightarrow> sim_config \<times> sim_event scheduler \<times> stp_mode \<times> bool \<times> u64 \<times> nat" where
  "sim_core sm = (si_cfg sm, si_wheel sm, si_stp sm, si_halted sm, si_ext_now sm, length (si_tracked sm))"

interpretation core: sim_frame sim_core
  by unfold_locales (simp_all add: sim_core_def)

interpretation core: sim_deep sim_core
  by unfold_locales (simp_all add: sim_core_def)

lemma core_decide_rest: "decide_rest E ord q out vis sd sm = Some sm' \<Longrightarrow> sim_core sm' = sim_core sm"
  by (auto simp: decide_rest_def Let_def split: bind_splits if_splits prod.splits dest!: core.track)

lemma core_decide: "decide E ord ts sm = Some sm' \<Longrightarrow> sim_core sm' = sim_core sm"
  by (auto simp: decide_def Let_def split: bind_splits if_splits prod.splits
      dest!: core.jitter core.decided core_decide_rest)

section \<open>The market\<close>

definition sim_market :: "'d sim \<Rightarrow> book \<times> hidden_order list \<times> iceberg list" where
  "sim_market sm = (si_book sm, si_hidden sm, si_icebergs sm)"

text \<open>Sweeps add no decision.\<close>

interpretation decisions: sim_deep si_decisions
  by unfold_locales simp_all

interpretation market: sim_frame sim_market
  by unfold_locales (simp_all add: sim_market_def)

lemma market_eqD:
  assumes "sim_market a = sim_market b"
  shows "si_book a = si_book b" "si_hidden a = si_hidden b" "si_icebergs a = si_icebergs b"
  using assms by (simp_all add: sim_market_def)

end
