(* ===== verification/SimRun.thy ===== *)
theory SimRun
  imports SimFrame EventQueue
begin

text \<open>
  The run of the event loop, \<open>run_until\<close> of \<open>include/mog/Simulate.hpp\<close>: it ends, it decides the due
  events in the order of their keys, and it leaves only later ones.
\<close>

section \<open>The event loop\<close>

definition with_wheel :: "sim_event scheduler \<Rightarrow> 'd sim \<Rightarrow> 'd sim" where
  "with_wheel w sm = sm\<lparr> si_wheel := w \<rparr>"

text \<open>\<open>sim_steps\<close>: a run of the loop that decides the listed keyed events.\<close>

inductive sim_steps :: "('d, 'f) sim_env \<Rightarrow> 'd sim \<Rightarrow> (nat \<times> sim_event) list \<Rightarrow> 'd sim \<Rightarrow> bool" for E where
  idle: "sim_steps E sm [] sm"
| decided: "pop_min (si_wheel sm) = Some (ev, w) \<Longrightarrow>
    sched_events (si_wheel sm) = add_mset (k, ev) (sched_events w) \<Longrightarrow>
    decide E (ev_order ev) (ev_visible_ts ev) (with_wheel w sm) = Some sm1 \<Longrightarrow>
    sim_steps E sm1 evs sm2 \<Longrightarrow> sim_steps E sm ((k, ev) # evs) sm2"

inductive_cases sim_steps_ConsE: "sim_steps E sm (x # evs) sm2"

lemma sched_empty_events: "sched_inv q \<Longrightarrow> sched_empty q \<longleftrightarrow> sched_events q = {#}"
  using size_sched_events[of q] by (auto simp: sched_empty_def)

lemma sim_core_wheel: "sim_core a = sim_core b \<Longrightarrow> si_wheel a = si_wheel b"
  by (simp add: sim_core_def)

text \<open>What a bounded run must have done: \<open>evs\<close> are the decided events, in order.\<close>

definition ran_until :: "('d, 'f) sim_env \<Rightarrow> u64 \<Rightarrow> 'd sim \<Rightarrow> (nat \<times> sim_event) list \<Rightarrow> 'd sim \<Rightarrow> bool" where
  "ran_until E t sm evs sm1 \<longleftrightarrow> sim_steps E sm evs sm1 \<and> sched_inv (si_wheel sm1) \<and>
     sorted_wrt (\<lambda>a b. fst a < fst b) evs \<and> (\<forall>x \<in> set evs. key_time (fst x) \<le> unat t) \<and>
     (\<forall>x \<in> set evs. \<forall>y \<in># sched_events (si_wheel sm1). fst x < fst y) \<and>
     sched_events (si_wheel sm) = mset evs + sched_events (si_wheel sm1)"

text \<open>Where a bounded run may stop: nothing due is left, or the decision of the next due event aborts.\<close>

definition run_stops :: "('d, 'f) sim_env \<Rightarrow> u64 \<Rightarrow> 'd sim \<Rightarrow> 'd sim option \<Rightarrow> bool" where
  "run_stops E t sm1 r \<longleftrightarrow>
     r = Some sm1 \<and> (\<forall>y \<in># sched_events (si_wheel sm1). unat t < key_time (fst y)) \<or>
     r = None \<and> (\<exists>ev w. pop_min (si_wheel sm1) = Some (ev, w) \<and>
       decide E (ev_order ev) (ev_visible_ts ev) (with_wheel w sm1) = None)"

lemma ran_nothing: "sched_inv (si_wheel sm) \<Longrightarrow> ran_until E t sm [] sm"
  by (simp add: ran_until_def sim_steps.idle)

lemma run_empty:
  assumes "sched_inv (si_wheel sm)" "sched_empty (si_wheel sm)"
  shows "run_stops E t sm (run_until E t sm)"
  using assms sched_empty_events[OF assms(1)] by (simp add: run_stops_def run_until.simps)

lemma ran_more:
  assumes pop: "pop_min (si_wheel sm) = Some (ev, w)"
    and ev: "sched_events (si_wheel sm) = add_mset (k, ev) (sched_events w)"
    and least: "\<forall>x \<in># sched_events w. k < fst x" and due: "key_time k \<le> unat t"
    and d: "decide E (ev_order ev) (ev_visible_ts ev) (with_wheel w sm) = Some sm1" and wh: "si_wheel sm1 = w"
    and r: "ran_until E t sm1 evs sm2"
  shows "ran_until E t sm ((k, ev) # evs) sm2"
proof -
  have w: "sched_events w = mset evs + sched_events (si_wheel sm2)" using r wh by (simp add: ran_until_def)
  have "k < fst x" if "x \<in> set evs \<or> x \<in># sched_events (si_wheel sm2)" for x
    using least that unfolding w by auto
  then show ?thesis
    using sim_steps.decided[OF pop ev d] r ev due w by (auto simp: ran_until_def)
qed

theorem run_until_correct:
  assumes "sched_inv (si_wheel sm)"
  shows "\<exists>evs sm1. ran_until E t sm evs sm1 \<and> run_stops E t sm1 (run_until E t sm)"
  using assms
proof (induction "length (sc_heap (si_wheel sm))" arbitrary: sm rule: less_induct)
  case less
  show ?case
  proof (cases "sched_empty (si_wheel sm)")
    case True
    with run_empty[OF less.prems] ran_nothing[OF less.prems] show ?thesis by blast
  next
    case False
    then have "sched_events (si_wheel sm) \<noteq> {#}" using sched_empty_events[OF less.prems] by simp
    from pop_min_peek[OF less.prems this] obtain k ev w ts where
      q: "pop_min (si_wheel sm) = Some (ev, w)" "sched_inv w"
        "sched_events (si_wheel sm) = add_mset (k, ev) (sched_events w)"
        "\<forall>x \<in># sched_events w. k < fst x" "peek_min_ts (si_wheel sm) = Some ts" "unat ts = key_time k" by blast
    have run: "run_until E t sm = (if ts \<le> t then Option.bind
        (decide E (ev_order ev) (ev_visible_ts ev) (with_wheel w sm)) (run_until E t) else Some sm)"
      using False q by (simp add: run_until.simps[of E t sm] with_wheel_def)
    show ?thesis
    proof (cases "ts \<le> t")
      case later: False
      have "k \<le> fst y" if "y \<in># sched_events (si_wheel sm)" for y using that q(3,4) by auto
      then have "unat t < key_time (fst y)" if "y \<in># sched_events (si_wheel sm)" for y
        using later that q(6) key_time_mono[of k "fst y"] by (fastforce simp: word_le_nat_alt)
      with run later have "run_stops E t sm (run_until E t sm)" by (simp add: run_stops_def)
      with ran_nothing[OF less.prems] show ?thesis by blast
    next
      case True
      then have due: "key_time k \<le> unat t" using q(6) by (simp add: word_le_nat_alt)
      show ?thesis
      proof (cases "decide E (ev_order ev) (ev_visible_ts ev) (with_wheel w sm)")
        case None
        with run True q(1) have "run_stops E t sm (run_until E t sm)" by (simp add: run_stops_def)
        with ran_nothing[OF less.prems] show ?thesis by blast
      next
        case (Some sm1)
        from core_decide[OF Some] have wh: "si_wheel sm1 = w"
          using sim_core_wheel by (fastforce simp: with_wheel_def)
        have "length (sc_heap (si_wheel sm1)) < length (sc_heap (si_wheel sm))"
          using size_sched_events[OF less.prems] size_sched_events[OF q(2)] q(3) wh by simp
        from less.hyps[OF this] q(2) wh obtain evs sm2 where
          "ran_until E t sm1 evs sm2" "run_stops E t sm2 (run_until E t sm1)" by auto
        with ran_more[OF q(1,3,4) due Some wh] run True Some show ?thesis by auto
      qed
    qed
  qed
qed

end
