(* ===== verification/SimSweep.thy ===== *)
theory SimSweep
  imports SimFrame BookAudit
begin

text \<open>
  The market the simulator sees, over the abstract book: the touch of a side is its best resting
  price, an order is marketable against a price within its limit.
\<close>

section \<open>Touch and limit\<close>

definition opposite :: "side \<Rightarrow> side" where
  "opposite s = (if s = Buy then Sell else Buy)"

definition sim_touch :: "book \<Rightarrow> side \<Rightarrow> int" where
  "sim_touch bk s = (if s = Buy then bk_best_bid bk else bk_best_ask bk)"

text \<open>\<open>better s p q\<close>: a resting price \<open>p\<close> of side \<open>s\<close> is strictly more aggressive than \<open>q\<close>.\<close>

definition better :: "side \<Rightarrow> int \<Rightarrow> int \<Rightarrow> bool" where
  "better s p q \<longleftrightarrow> (if s = Buy then q < p else p < q)"

definition best_price :: "abook \<Rightarrow> side \<Rightarrow> int \<Rightarrow> bool" where
  "best_price A s t \<longleftrightarrow> A s t \<noteq> [] \<and> (\<forall>u. A s u \<noteq> [] \<longrightarrow> \<not> better s u t)"

text \<open>A resting price of the other side within the limit of an incoming order.\<close>

definition marketable :: "sim_inbound \<Rightarrow> int \<Rightarrow> bool" where
  "marketable ord p \<longleftrightarrow> in_type ord = Market \<or> \<not> better (opposite (in_side ord)) (in_price ord) p"

lemma opposite_simps [simp]: "opposite Buy = Sell" "opposite Sell = Buy" "opposite s \<noteq> BadSide"
  "s = Buy \<or> s = Sell \<Longrightarrow> opposite (opposite s) = s"
  by (auto simp: opposite_def)

lemma knotick_empty:
  assumes "book_rel bk A" and "s \<noteq> BadSide"
  shows "A s kNoTick = []"
proof -
  from assms(1) obtain Q where inv: "book_inv bk Q" and A: "A = abs_book (bk_store bk) Q" by (rule book_relE)
  have "kNoTick \<notin> priced A s"
    using priced_occupied[OF inv assms(2)] knotick_unoccupied[OF book_inv_dests(5)[OF inv]] A by auto
  then show ?thesis by (simp add: priced_def)
qed

lemma touch_best:
  assumes "book_rel bk A" and "s \<noteq> BadSide" and "sim_touch bk s \<noteq> kNoTick"
  shows "best_price A s (sim_touch bk s)"
  using best_prices[OF assms(1)] assms(2,3)
  by (cases s) (auto simp: sim_touch_def best_price_def better_def greatest_tick_def least_tick_def priced_def)

lemma touch_none:
  assumes "book_rel bk A" and "s \<noteq> BadSide"
  shows "sim_touch bk s = kNoTick \<longleftrightarrow> (\<forall>t. A s t = [])"
proof -
  have "priced A s \<noteq> {} \<Longrightarrow> sim_touch bk s \<in> priced A s"
    using best_prices[OF assms(1)] assms(2)
    by (cases s) (auto simp: sim_touch_def greatest_tick_def least_tick_def)
  moreover have "priced A s = {} \<Longrightarrow> sim_touch bk s = kNoTick"
    using best_prices[OF assms(1)] assms(2)
    by (cases s) (auto simp: sim_touch_def greatest_tick_def least_tick_def)
  ultimately show ?thesis using knotick_empty[OF assms] unfolding priced_def by fastforce
qed

lemma best_price_unique:
  "best_price A s t \<Longrightarrow> best_price A s u \<Longrightarrow> t = u"
  by (cases "s = Buy") (auto simp: best_price_def better_def, (meson linorder_neqE)+)

text \<open>The touch is within the limit exactly when some resting price is.\<close>

lemma touch_marketable:
  assumes "book_rel bk A" and "in_side ord \<noteq> BadSide"
  shows "sim_touch bk (opposite (in_side ord)) \<noteq> kNoTick \<and> marketable ord (sim_touch bk (opposite (in_side ord))) \<longleftrightarrow>
    (\<exists>t. A (opposite (in_side ord)) t \<noteq> [] \<and> marketable ord t)"
  (is "?l \<longleftrightarrow> ?r")
proof
  assume ?l
  with touch_best[OF assms(1), of "opposite (in_side ord)"] show ?r by (auto simp: best_price_def)
next
  assume ?r
  then have nt: "sim_touch bk (opposite (in_side ord)) \<noteq> kNoTick"
    using touch_none[OF assms(1), of "opposite (in_side ord)"] by auto
  with touch_best[OF assms(1), of "opposite (in_side ord)"] \<open>?r\<close> show ?l
    by (cases "in_side ord") (fastforce simp: best_price_def better_def marketable_def)+
qed

lemma order_crosses_market:
  assumes "book_rel (si_book sm) A" and "in_side ord \<noteq> BadSide"
  shows "order_crosses ord sm \<longleftrightarrow> \<not> si_halted sm \<and>
    (in_type ord = Market \<or>
     in_type ord \<in> {Ioc, DayLimit, PostOnly} \<and> (\<exists>t. A (opposite (in_side ord)) t \<noteq> [] \<and> marketable ord t))"
  using touch_marketable[OF assms] assms(2)
  by (cases "in_side ord") (auto simp: order_crosses_def Let_def sim_touch_def marketable_def better_def not_less)

text \<open>
  The sweep of an incoming order against the resting liquidity of the other side, as an abstract
  matching relation over the abstract book and the hidden ledger, and the proof that \<open>cross\<close>
  implements it when no strategy order rests at the levels it meets and no iceberg is registered.
\<close>

section \<open>Hidden prices\<close>

definition hidden_at :: "hidden_order list \<Rightarrow> side \<Rightarrow> int \<Rightarrow> bool" where
  "hidden_at hs s p \<longleftrightarrow> (\<exists>h \<in> set hs. hd_side h = s \<and> hd_price_ticks h = p)"

definition hidden_best :: "hidden_order list \<Rightarrow> side \<Rightarrow> int \<Rightarrow> bool" where
  "hidden_best hs s p \<longleftrightarrow> hidden_at hs s p \<and> (\<forall>q. hidden_at hs s q \<longrightarrow> \<not> better s q p)"

text \<open>Every hidden order has quantity left and a price that is not the sentinel.\<close>

definition hidden_wf :: "hidden_order list \<Rightarrow> bool" where
  "hidden_wf hs \<longleftrightarrow> hidden_ok hs \<and> (\<forall>h \<in> set hs. hd_price_ticks h \<noteq> kNoTick)"

lemma hidden_at_Cons: "hidden_at (h # hs) s p \<longleftrightarrow> hd_side h = s \<and> hd_price_ticks h = p \<or> hidden_at hs s p"
  by (auto simp: hidden_at_def)

definition hidden_pick :: "side \<Rightarrow> int \<Rightarrow> hidden_order \<Rightarrow> int" where
  "hidden_pick s best h =
     (if hd_side h \<noteq> s \<or> hd_qty_remaining h = 0 then best
      else if best = kNoTick then hd_price_ticks h
      else if s = Buy \<and> hd_price_ticks h > best then hd_price_ticks h
      else if s = Sell \<and> hd_price_ticks h < best then hd_price_ticks h
      else best)"

lemma best_hidden_fold: "best_hidden_price sm s = foldl (hidden_pick s) kNoTick (si_hidden sm)"
  unfolding best_hidden_price_def by (rule arg_cong[where f = "\<lambda>f. foldl f _ _"]) (simp add: fun_eq_iff hidden_pick_def)

lemma not_better_trans: "\<not> better s x y \<Longrightarrow> \<not> better s y z \<Longrightarrow> \<not> better s x z"
  by (auto simp: better_def)

lemma hidden_pick_some:
  assumes "a \<noteq> kNoTick" and "hidden_wf hs" and "s \<noteq> BadSide"
  shows "foldl (hidden_pick s) a hs \<noteq> kNoTick \<and>
    (foldl (hidden_pick s) a hs = a \<or> hidden_at hs s (foldl (hidden_pick s) a hs)) \<and>
    \<not> better s a (foldl (hidden_pick s) a hs) \<and> (\<forall>q. hidden_at hs s q \<longrightarrow> \<not> better s q (foldl (hidden_pick s) a hs))"
  using assms(1,2)
proof (induction hs arbitrary: a)
  case Nil
  then show ?case by (simp add: hidden_at_def better_def)
next
  case (Cons h hs)
  have h: "hd_price_ticks h \<noteq> kNoTick" "0 < hd_qty_remaining h" "hidden_wf hs"
    using Cons.prems(2) by (auto simp: hidden_wf_def hidden_ok_def)
  let ?b = "hidden_pick s a h"
  have b: "?b \<noteq> kNoTick" "?b = a \<or> hd_side h = s \<and> hd_price_ticks h = ?b" "\<not> better s a ?b"
    "hd_side h = s \<Longrightarrow> \<not> better s (hd_price_ticks h) ?b"
    using Cons.prems(1) h assms(3) by (cases s; auto simp: hidden_pick_def better_def)+
  let ?f = "foldl (hidden_pick s) ?b hs"
  from Cons.IH[OF b(1) h(3)] have i: "?f \<noteq> kNoTick" "?f = ?b \<or> hidden_at hs s ?f" "\<not> better s ?b ?f"
    "\<And>q. hidden_at hs s q \<Longrightarrow> \<not> better s q ?f" by blast+
  have "?f = a \<or> hidden_at (h # hs) s ?f" using i(2) b(2) unfolding hidden_at_Cons by metis
  moreover have "\<not> better s q ?f" if "hidden_at (h # hs) s q" for q
    using that not_better_trans[OF b(4) i(3)] i(4) unfolding hidden_at_Cons by blast
  ultimately show ?case using i(1) not_better_trans[OF b(3) i(3)] by simp
qed

lemma hidden_pick_fold:
  assumes "hidden_wf hs" and "s \<noteq> BadSide"
  shows "foldl (hidden_pick s) kNoTick hs = kNoTick \<and> (\<forall>q. \<not> hidden_at hs s q) \<or>
    foldl (hidden_pick s) kNoTick hs \<noteq> kNoTick \<and> hidden_best hs s (foldl (hidden_pick s) kNoTick hs)"
  using assms(1)
proof (induction hs)
  case Nil
  then show ?case by (simp add: hidden_at_def)
next
  case (Cons h hs)
  have h: "hd_price_ticks h \<noteq> kNoTick" "0 < hd_qty_remaining h" "hidden_wf hs"
    using Cons.prems by (auto simp: hidden_wf_def hidden_ok_def)
  show ?case
  proof (cases "hd_side h = s")
    case True
    with h(2) have "hidden_pick s kNoTick h = hd_price_ticks h" by (simp add: hidden_pick_def)
    with hidden_pick_some[OF h(1,3) assms(2)] True show ?thesis
      by (auto simp: hidden_best_def hidden_at_Cons)
  next
    case False
    then have "hidden_pick s kNoTick h = kNoTick" by (simp add: hidden_pick_def)
    with Cons.IH[OF h(3)] False show ?thesis by (simp add: hidden_best_def hidden_at_Cons)
  qed
qed

lemma best_hidden_correct:
  assumes "hidden_wf (si_hidden sm)" and "s \<noteq> BadSide"
  shows "best_hidden_price sm s = kNoTick \<longleftrightarrow> (\<forall>q. \<not> hidden_at (si_hidden sm) s q)"
    and "best_hidden_price sm s \<noteq> kNoTick \<Longrightarrow> hidden_best (si_hidden sm) s (best_hidden_price sm s)"
  using hidden_pick_fold[OF assms] by (auto simp: best_hidden_fold hidden_best_def)

lemma tap_spec_wf:
  assumes "hidden_wf hs" and "tap_spec s p r hs = (fs, hs')"
  shows "hidden_wf hs'"
proof -
  have "hidden_ok hs'" using tap_spec_total[OF _ assms(2)] assms(1) by (simp add: hidden_wf_def)
  moreover have "x \<in> set hs' \<Longrightarrow> \<exists>y \<in> set hs. hd_price_ticks x = hd_price_ticks y" for x
    using assms(2)
  proof (induction hs arbitrary: r fs hs')
    case (Cons h hs)
    obtain fs1 hs1 where t: "tap_spec s p r hs = (fs1, hs1)" by fastforce
    obtain fs2 hs2 where t2: "tap_spec s p (r - min r (hd_qty_remaining h)) hs = (fs2, hs2)" by fastforce
    show ?case
      using Cons.prems Cons.IH[OF _ t] Cons.IH[OF _ t2] by (auto simp: Let_def t t2 split: if_splits)
  qed auto
  ultimately show ?thesis using assms(1) by (fastforce simp: hidden_wf_def)
qed

lemma tap_spec_pos:
  assumes "hidden_wf hs" and "hidden_at hs s p" and "0 < r" and "tap_spec s p r hs = (fs, hs')"
  shows "0 < fills_total fs"
proof -
  have ok: "hidden_ok hs" using assms(1) by (simp add: hidden_wf_def)
  from assms(2) obtain h where h: "h \<in> set hs" "hd_side h = s" "hd_price_ticks h = p" by (auto simp: hidden_at_def)
  from split_list[OF h(1)] obtain xs ys where e: "hs = xs @ h # ys" by blast
  have "hidden_total s p hs = hidden_total s p xs + hd_qty_remaining h + hidden_total s p ys"
    using h by (simp add: e hidden_total_def)
  moreover have "0 < hd_qty_remaining h" "hidden_ok xs" "hidden_ok ys" using ok e by (auto simp: hidden_ok_def)
  ultimately have "0 < hidden_total s p hs" using hidden_total_nonneg[of xs s p] hidden_total_nonneg[of ys s p] by simp
  then show ?thesis using tap_spec_total[OF ok assms(4)] assms(3) by simp
qed

section \<open>The matching relation\<close>

definition at_price :: "int \<Rightarrow> (u64 \<times> int) list \<Rightarrow> (u64 \<times> int \<times> int) list" where
  "at_price p fs = map (\<lambda>(ref, k). (ref, p, k)) fs"

text \<open>The head of a queue gives up \<open>k\<close> of its \<open>q\<close>.\<close>

definition take_head :: "side \<Rightarrow> int \<Rightarrow> int \<Rightarrow> abook \<Rightarrow> abook" where
  "take_head s t k A = A(s := (A s)(t := (case A s t of [] \<Rightarrow> []
     | (ref, q) # rest \<Rightarrow> if k = q then rest else (ref, q - k) # rest)))"

text \<open>
  \<open>sweeps s ok r A hs fs A' hs'\<close>: taking \<open>r\<close> from side \<open>s\<close> at prices that are \<open>ok\<close> yields the fills
  \<open>fs\<close> (reference, price, quantity) in this order. A hidden price strictly better than the book goes
  first; otherwise the oldest order at the touch, and after it the hidden orders at that price.
\<close>

inductive sweeps :: "side \<Rightarrow> (int \<Rightarrow> bool) \<Rightarrow> int \<Rightarrow> abook \<Rightarrow> hidden_order list \<Rightarrow> (u64 \<times> int \<times> int) list
    \<Rightarrow> abook \<Rightarrow> hidden_order list \<Rightarrow> bool" for s ok where
  filled: "r \<le> 0 \<Longrightarrow> sweeps s ok r A hs [] A hs"
| exhausted: "(\<And>p. A s p \<noteq> [] \<or> hidden_at hs s p \<Longrightarrow> \<not> ok p) \<Longrightarrow> sweeps s ok r A hs [] A hs"
| dark: "0 < r \<Longrightarrow> hidden_best hs s p \<Longrightarrow> ok p \<Longrightarrow> (\<And>t. A s t \<noteq> [] \<Longrightarrow> better s p t) \<Longrightarrow>
    tap_spec s p r hs = (fs, hs1) \<Longrightarrow> sweeps s ok (r - fills_total fs) A hs1 gs A' hs' \<Longrightarrow>
    sweeps s ok r A hs (at_price p fs @ gs) A' hs'"
| lit: "0 < r \<Longrightarrow> best_price A s t \<Longrightarrow> ok t \<Longrightarrow> (\<And>p. hidden_at hs s p \<Longrightarrow> \<not> better s p t) \<Longrightarrow>
    A s t = (ref, q) # rest \<Longrightarrow> k = min r q \<Longrightarrow> tap_spec s t (r - k) hs = (fs, hs1) \<Longrightarrow>
    sweeps s ok (r - k - fills_total fs) (take_head s t k A) hs1 gs A' hs' \<Longrightarrow>
    sweeps s ok r A hs ((ref, t, k) # at_price t fs @ gs) A' hs'"

definition fills_qty :: "(u64 \<times> int \<times> int) list \<Rightarrow> int" where
  "fills_qty fs = sum_list (map (\<lambda>(ref, p, k). k) fs)"

definition fills_notional :: "(u64 \<times> int \<times> int) list \<Rightarrow> u64" where
  "fills_notional fs = sum_list (map (\<lambda>(ref, p, k). word_of_int k * word_of_int p) fs)"

lemma fills_qty_simps [simp]: "fills_qty [] = 0" "fills_qty ((ref, p, k) # fs) = k + fills_qty fs"
  "fills_qty (at_price p gs @ fs) = fills_total gs + fills_qty fs"
  by (auto simp: fills_qty_def fills_total_def at_price_def o_def case_prod_unfold)

lemma fills_notional_simps [simp]: "fills_notional [] = 0"
  "fills_notional ((ref, p, k) # fs) = word_of_int k * word_of_int p + fills_notional fs"
  "fills_notional (at_price p gs @ fs) = word_of_int (fills_total gs) * word_of_int p + fills_notional fs"
proof -
  show "fills_notional (at_price p gs @ fs) = word_of_int (fills_total gs) * word_of_int p + fills_notional fs"
    by (induction gs) (auto simp: fills_notional_def at_price_def fills_total_def algebra_simps)
qed (auto simp: fills_notional_def)

section \<open>Turns of the loop\<close>

text \<open>\<open>calm\<close>: no tracked level, no iceberg; \<open>external_only\<close>: and no live strategy order.\<close>

definition calm :: "'d sim \<Rightarrow> bool" where
  "calm sm \<longleftrightarrow> (\<forall>s p. level_find sm s p = None) \<and> (\<forall>s. si_fallback_levels sm s = []) \<and> si_icebergs sm = []"

definition external_only :: "'d sim \<Rightarrow> bool" where
  "external_only sm \<longleftrightarrow> calm sm \<and> (\<forall>i < length (si_tracked sm). \<not> tk_live (si_tracked sm ! i))"

definition tracks :: "'d sim \<Rightarrow> nat \<Rightarrow> bool" where
  "tracks sm i \<longleftrightarrow> i < length (si_tracked sm) \<and> tk_live (si_tracked sm ! i)"

lemma calm_updates [simp]:
  "calm (sm\<lparr> si_book := bk \<rparr>) = calm sm" "calm (sm\<lparr> si_hidden := hs \<rparr>) = calm sm"
  "calm (sm\<lparr> si_recent_sync := rs \<rparr>) = calm sm"
  by (simp_all add: calm_def level_find_def)

lemma external_updates [simp]:
  "external_only (sm\<lparr> si_book := bk \<rparr>) = external_only sm"
  "external_only (sm\<lparr> si_hidden := hs \<rparr>) = external_only sm"
  "external_only (sm\<lparr> si_recent_sync := rs \<rparr>) = external_only sm"
  by (simp_all add: external_only_def)

lemma external_calm: "external_only sm \<Longrightarrow> calm sm"
  by (simp add: external_only_def)

lemma external_tracks: "external_only sm \<Longrightarrow> \<not> tracks sm i"
  by (auto simp: external_only_def tracks_def)

lemma report_fills_tracker [simp]:
  "si_book (report_fills E s p fs sm) = si_book sm"
  "si_icebergs (report_fills E s p fs sm) = si_icebergs sm"
  "si_tracked (report_fills E s p fs sm) = si_tracked sm"
  "si_level_maps (report_fills E s p fs sm) = si_level_maps sm"
  "si_fallback_levels (report_fills E s p fs sm) = si_fallback_levels sm"
  by (induction fs arbitrary: sm) (auto simp: report_hidden_fill_def trace_hidden_fill_def sim_simps Let_def)

lemma external_report [simp]: "external_only (report_fills E s p fs sm) = external_only sm"
  by (simp add: external_only_def calm_def level_find_def)

lemma subtract_calm: "calm sm \<Longrightarrow> subtract_level s p n sk sm = Some sm"
  by (simp add: subtract_level_def calm_def is_fallback_level_def)

lemma note_calm: "calm sm \<Longrightarrow> \<exists>nt'. note_take s t k nt sm = Some (nt', sm)"
  by (auto simp: note_take_def Let_def subtract_calm split: option.splits)

lemma replenish_calm: "calm sm \<Longrightarrow> replenish_if_iceberg ref sm = Some sm"
  by (simp add: replenish_if_iceberg_def iceberg_index_of_def calm_def Let_def)

lemma tick_ok_event [simp]: "tick_ok (book_event k p q s)"
  by (cases k) (simp_all add: tick_ok_def book_event_def kTickError_def)

lemma head_external:
  assumes rel: "book_rel (si_book sm) A" and s: "s \<noteq> BadSide" and hd: "A s t = (ref, q) # rest"
    and ext: "calm sm" and dead: "\<And>h. id_find (bk_ids (si_book sm)) ref = Some h \<Longrightarrow> \<not> tracks sm (h_index h)"
    and r: "0 < cs_remaining cs" and k: "k = min (cs_remaining cs) q"
    and tap: "tap_spec s t (cs_remaining cs - k) (si_hidden sm) = (fs, hs)"
  shows "\<exists>bk nt. cross_head E s t ref cs sm = Some (CrossContinue,
       \<lparr> cs_remaining = cs_remaining cs - k - fills_total fs, cs_filled = cs_filled cs + k + fills_total fs,
         cs_notional = cs_notional cs + word_of_int k * word_of_int t + word_of_int (fills_total fs) * word_of_int t,
         cs_note = nt \<rparr>, (report_fills E s t fs (sm\<lparr> si_book := bk \<rparr>))\<lparr> si_hidden := hs \<rparr>) \<and>
     book_rel bk (take_head s t k A)"
proof -
  have rst: "resting A ref s t q" by (simp add: resting_def hd)
  then have q: "0 < q" using lookup_resting[OF rel] by blast
  from id_find_resting[OF rel rst] obtain h ord where h: "id_find (bk_ids (si_book sm)) ref = Some h"
    "h_index h \<noteq> kNullIndex" "arena_at (bk_arena (si_book sm)) h = Some ord"
    "arena_valid (bk_arena (si_book sm)) h" "o_qty ord = q" by blast
  then have rm: "remaining_of_handle (si_book sm) h = Some q" by (simp add: remaining_of_handle_def)
  have dead: "(h_index h < length (si_tracked sm) \<and> tk_live (si_tracked sm ! h_index h)) = False"
    using dead[OF h(1)] by (simp add: tracks_def)
  have kk: "0 < k" "k \<le> q" using r q k by auto
  from book_execute_front_accepts[OF rel s hd kk, of None] obtain bk where
    bk: "book_execute_front s t k None (si_book sm) =
       Some (Some ref, book_event (if k = q then Removed else Reduced) t k s, None, bk)"
     "book_rel bk (take_head s t k A)"
    by (auto simp: delta_room_def with_delta_def take_head_def hd)
  have red: "reduce_and_sync E s ref t k True h sm = Some (sm\<lparr> si_book := bk \<rparr>)"
    using bk(1) by (simp add: reduce_and_sync_def Let_def dead)
  from note_calm[OF ext, of s t k "cs_note cs"] obtain nt where
    nt: "note_take s t k (cs_note cs) sm = Some (nt, sm)" by blast
  have rep: "replenish_if_iceberg ref (sm\<lparr> si_book := bk \<rparr>) = Some (sm\<lparr> si_book := bk \<rparr>)"
    by (rule replenish_calm) (simp add: ext)
  let ?sm = "sm\<lparr> si_book := bk \<rparr>"
  have run: "cross_head E s t ref cs sm =
     (let cs = \<lparr> cs_remaining = cs_remaining cs - k, cs_filled = cs_filled cs + k,
                 cs_notional = cs_notional cs + word_of_int k * word_of_int t, cs_note = nt \<rparr>
      in if cs_remaining cs > 0 then
           (case tap_hidden E s t (cs_remaining cs) (cs_notional cs) ?sm of
              (f, r, n, sm) \<Rightarrow>
                Some (CrossContinue, cs\<lparr> cs_filled := cs_filled cs + f, cs_remaining := r, cs_notional := n \<rparr>, sm))
         else Some (CrossContinue, cs, ?sm))"
  proof -
    have mk: "min (cs_remaining cs) q = k" "min q (cs_remaining cs) = k" by (simp_all add: k min.commute)
    have "\<not> h_index h < length (si_tracked sm) \<or> \<not> tk_live (si_tracked sm ! h_index h)" using dead by blast
    then show ?thesis
      by (elim disjE)
        (simp_all add: cross_head_def apply_to_head_def h(1,2) rm mk kk(1) nt red rep Let_def del: min_less_iff_conj)
  qed
  show ?thesis
  proof (cases "cs_remaining cs - k > 0")
    case True
    have "tap_spec s t (cs_remaining cs - k) (si_hidden ?sm) = (fs, hs)" using tap by simp
    from tap_hidden_spec[OF this, of E] True bk(2) show ?thesis
      by (intro exI[of _ bk] exI[of _ nt]) (simp add: run Let_def)
  next
    case False
    then have "fs = [] \<and> hs = si_hidden sm" using tap by (cases "si_hidden sm") auto
    with False bk(2) show ?thesis by (intro exI[of _ bk] exI[of _ nt]) (simp add: run Let_def)
  qed
qed

lemma sim_touch_simps: "sim_touch bk Buy = bk_best_bid bk" "sim_touch bk Sell = bk_best_ask bk"
  by (simp_all add: sim_touch_def)

lemma cross_step_sides:
  assumes "in_side ord = Buy \<and> s = Sell \<or> in_side ord = Sell \<and> s = Buy"
  shows "cross_step E ord cs sm =
      (if best_hidden_price sm s \<noteq> kNoTick \<and>
          (sim_touch (si_book sm) s = kNoTick \<or> better s (best_hidden_price sm s) (sim_touch (si_book sm) s)) then
         (if \<not> marketable ord (best_hidden_price sm s) then Some (CrossBreak, cs, sm)
          else (case tap_hidden E s (best_hidden_price sm s) (cs_remaining cs) (cs_notional cs) sm of
                  (f, r, n, sm) \<Rightarrow>
                    Some (CrossContinue, cs\<lparr> cs_filled := cs_filled cs + f, cs_remaining := r, cs_notional := n \<rparr>, sm)))
       else if (sim_touch (si_book sm) s) = kNoTick \<or> \<not> marketable ord (sim_touch (si_book sm) s) then Some (CrossBreak, cs, sm)
       else do {
         head \<leftarrow> front_ref (si_book sm) s (sim_touch (si_book sm) s);
         if head = 0 then Some (CrossBreak, cs, sm) else cross_head E s (sim_touch (si_book sm) s) head cs sm
       })"
  using assms
  by (elim disjE conjE; hypsubst; unfold sim_touch_simps)
    (simp_all add: cross_step_def better_def marketable_def Let_def not_less)

text \<open>One turn, by the case of the relation it follows.\<close>

lemma cross_turn:
  fixes sm :: "'d sim" and E :: "('d, 'f) sim_env"
  assumes rel: "book_rel (si_book sm) A" and wf: "hidden_wf (si_hidden sm)" and ext: "external_only sm"
    and s: "in_side ord \<noteq> BadSide" and r: "0 < cs_remaining cs" and s_def: "s = opposite (in_side ord)"
  obtains (ended) "\<And>p. A s p \<noteq> [] \<or> hidden_at (si_hidden sm) s p \<Longrightarrow> \<not> marketable ord p"
      "cross_step E ord cs sm = Some (CrossBreak, cs, sm)"
  | (dark) p fs hs where "hidden_best (si_hidden sm) s p" "marketable ord p" "\<And>t. A s t \<noteq> [] \<Longrightarrow> better s p t"
      "tap_spec s p (cs_remaining cs) (si_hidden sm) = (fs, hs)"
      "cross_step E ord cs sm = Some (CrossContinue,
         cs\<lparr> cs_remaining := cs_remaining cs - fills_total fs, cs_filled := cs_filled cs + fills_total fs,
             cs_notional := cs_notional cs + word_of_int (fills_total fs) * word_of_int p \<rparr>,
         (report_fills E s p fs sm)\<lparr> si_hidden := hs \<rparr>)"
  | (lit) t ref q rest k fs hs bk nt where "best_price A s t" "marketable ord t"
      "\<And>p. hidden_at (si_hidden sm) s p \<Longrightarrow> \<not> better s p t" "A s t = (ref, q) # rest"
      "k = min (cs_remaining cs) q" "tap_spec s t (cs_remaining cs - k) (si_hidden sm) = (fs, hs)"
      "book_rel bk (take_head s t k A)"
      "cross_step E ord cs sm = Some (CrossContinue,
         \<lparr> cs_remaining = cs_remaining cs - k - fills_total fs, cs_filled = cs_filled cs + k + fills_total fs,
           cs_notional = cs_notional cs + word_of_int k * word_of_int t + word_of_int (fills_total fs) * word_of_int t,
           cs_note = nt \<rparr>, (report_fills E s t fs (sm\<lparr> si_book := bk \<rparr>))\<lparr> si_hidden := hs \<rparr>)"
proof -
  have sb: "s \<noteq> BadSide" by (simp add: s_def)
  have sides: "in_side ord = Buy \<and> s = Sell \<or> in_side ord = Sell \<and> s = Buy"
    using s by (cases "in_side ord") (simp_all add: s_def)
  let ?h = "best_hidden_price sm s" and ?t = "sim_touch (si_book sm) s"
  let ?hb = "?h \<noteq> kNoTick \<and> (?t = kNoTick \<or> better s ?h ?t)"
  note step = cross_step_sides[OF sides, of E cs sm]
  note hid = best_hidden_correct[OF wf sb] and tn = touch_none[OF rel sb] and tb = touch_best[OF rel sb]
  have better_market: "marketable ord p \<Longrightarrow> \<not> better s p q \<Longrightarrow> marketable ord q" for p q
    using not_better_trans by (auto simp: marketable_def s_def)
  show ?thesis
  proof (cases ?hb)
    case hb: True
    have all: "better s ?h t" if "A s t \<noteq> []" for t
    proof -
      have "?t \<noteq> kNoTick" using tn that by blast
      then have "better s ?h ?t" "\<not> better s t ?t" using hb tb that by (auto simp: best_price_def)
      then show ?thesis by (auto simp: better_def split: if_splits)
    qed
    show ?thesis
    proof (cases "marketable ord ?h")
      case True
      obtain fs hs where tap: "tap_spec s ?h (cs_remaining cs) (si_hidden sm) = (fs, hs)" by fastforce
      show ?thesis
        by (rule dark[OF _ True all tap]) (use hb hid(2) True in \<open>simp_all add: step tap_hidden_spec[OF tap]\<close>)
    next
      case False
      have "\<not> better s p ?h" if "A s p \<noteq> [] \<or> hidden_at (si_hidden sm) s p" for p
        using that all[of p] hid(2) hb by (auto simp: hidden_best_def better_def split: if_splits)
      then have "\<not> marketable ord p" if "A s p \<noteq> [] \<or> hidden_at (si_hidden sm) s p" for p
        using that False better_market by blast
      then show ?thesis by (rule ended) (use False hb in \<open>simp_all add: step\<close>)
    qed
  next
    case nhb: False
    have better_none: "\<not> better s p ?t" if "hidden_at (si_hidden sm) s p" for p
    proof -
      have h: "?h \<noteq> kNoTick" using that hid(1) by blast
      then have "\<not> better s p ?h" using that hid(2) by (simp add: hidden_best_def)
      moreover have "\<not> better s ?h ?t" using nhb h by blast
      ultimately show ?thesis by (rule not_better_trans)
    qed
    show ?thesis
    proof (cases "?t = kNoTick \<or> \<not> marketable ord ?t")
      case True
      have "\<not> marketable ord p" if p: "A s p \<noteq> [] \<or> hidden_at (si_hidden sm) s p" for p
      proof -
        have "?t \<noteq> kNoTick" using p nhb tn hid(1) by auto
        moreover from this have "\<not> better s p ?t" using p better_none tb by (auto simp: best_price_def)
        ultimately show ?thesis using True better_market by blast
      qed
      moreover have "cross_step E ord cs sm = Some (CrossBreak, cs, sm)"
        unfolding step if_not_P[OF nhb] if_P[OF True] by (rule refl)
      ultimately show ?thesis by (rule ended)
    next
      case False
      then have bp: "best_price A s ?t" using tb by blast
      then obtain ref q rest where hd: "A s ?t = (ref, q) # rest" by (cases "A s ?t") (auto simp: best_price_def)
      have "resting A ref s ?t q" by (simp add: resting_def hd)
      then have nz: "ref \<noteq> 0" by (rule resting_nonzero[OF rel])
      let ?k = "min (cs_remaining cs) q"
      obtain fs hs where tap: "tap_spec s ?t (cs_remaining cs - ?k) (si_hidden sm) = (fs, hs)" by fastforce
      from head_external[OF rel sb hd external_calm[OF ext] external_tracks[OF ext] r refl tap, of E] obtain bk nt where
        b: "cross_head E s ?t ref cs sm = Some (CrossContinue,
           \<lparr> cs_remaining = cs_remaining cs - ?k - fills_total fs, cs_filled = cs_filled cs + ?k + fills_total fs,
             cs_notional = cs_notional cs + word_of_int ?k * word_of_int ?t + word_of_int (fills_total fs) * word_of_int ?t,
             cs_note = nt \<rparr>, (report_fills E s ?t fs (sm\<lparr> si_book := bk \<rparr>))\<lparr> si_hidden := hs \<rparr>)"
        "book_rel bk (take_head s ?t ?k A)" by blast
      show ?thesis
        by (rule lit[OF bp _ better_none hd refl tap b(2)])
          (unfold step if_not_P[OF nhb] if_not_P[OF False],
            use hd nz b(1) False front_ref_correct[OF rel sb, of ?t] in simp_all)
    qed
  qed
qed

section \<open>The sweep\<close>

text \<open>What a sweep does to the accounting and to the state: \<open>gs\<close> are its fills.\<close>

definition swept :: "sim_inbound \<Rightarrow> cross_state \<Rightarrow> 'd sim \<Rightarrow> abook \<Rightarrow> (u64 \<times> int \<times> int) list \<Rightarrow> cross_state
    \<Rightarrow> 'd sim \<Rightarrow> abook \<Rightarrow> bool" where
  "swept ord cs sm A gs cs' sm' A' \<longleftrightarrow>
     sweeps (opposite (in_side ord)) (marketable ord) (cs_remaining cs) A (si_hidden sm) gs A' (si_hidden sm') \<and>
     cs_remaining cs' = cs_remaining cs - fills_qty gs \<and> cs_filled cs' = cs_filled cs + fills_qty gs \<and>
     cs_notional cs' = cs_notional cs + fills_notional gs \<and>
     book_rel (si_book sm') A' \<and> hidden_wf (si_hidden sm') \<and> external_only sm' \<and> sim_core sm' = sim_core sm"

lemma sweep_loop:
  assumes "book_rel (si_book sm) A" and "hidden_wf (si_hidden sm)" and "external_only sm" and "in_side ord \<noteq> BadSide"
  shows "\<exists>gs cs' sm' A'. cross_loop E ord cs sm = Some (False, cs', sm') \<and> swept ord cs sm A gs cs' sm' A'"
  using assms(1-3)
proof (induction "nat (cs_remaining cs)" arbitrary: cs sm A rule: less_induct)
  case less
  let ?s = "opposite (in_side ord)"
  have ok: "hidden_ok (si_hidden sm)" using less.prems(2) by (simp add: hidden_wf_def)
  show ?case
  proof (cases "cs_remaining cs > 0")
    case False
    then show ?thesis using less.prems
      by (intro exI[of _ "[]"] exI[of _ cs] exI[of _ sm] exI[of _ A])
        (simp add: swept_def cross_loop.simps sweeps.filled)
  next
    case True
    from less.prems assms(4) True refl show ?thesis
    proof (cases rule: cross_turn[where E = E])
      case ended
      have "sweeps ?s (marketable ord) (cs_remaining cs) A (si_hidden sm) [] A (si_hidden sm)"
        by (rule sweeps.exhausted) (rule ended(1))
      then show ?thesis using less.prems True ended(2)
        by (intro exI[of _ "[]"] exI[of _ cs] exI[of _ sm] exI[of _ A]) (simp add: swept_def cross_loop.simps)
    next
      case (dark p fs hs)
      let ?cs = "cs\<lparr> cs_remaining := cs_remaining cs - fills_total fs, cs_filled := cs_filled cs + fills_total fs,
          cs_notional := cs_notional cs + word_of_int (fills_total fs) * word_of_int p \<rparr>"
      let ?sm = "(report_fills E ?s p fs sm)\<lparr> si_hidden := hs \<rparr>"
      have "hidden_at (si_hidden sm) ?s p" using dark(1) by (simp add: hidden_best_def)
      from tap_spec_pos[OF less.prems(2) this True dark(4)]
      have "nat (cs_remaining ?cs) < nat (cs_remaining cs)" using True by simp
      moreover have "book_rel (si_book ?sm) A" using less.prems(1) by simp
      moreover have "hidden_wf (si_hidden ?sm)" using tap_spec_wf[OF less.prems(2) dark(4)] by simp
      moreover have "external_only ?sm" using less.prems(3) by simp
      ultimately obtain gs cs' sm' A' where l: "cross_loop E ord ?cs ?sm = Some (False, cs', sm')"
        "swept ord ?cs ?sm A gs cs' sm' A'" using less.hyps by blast
      then have "sweeps ?s (marketable ord) (cs_remaining cs - fills_total fs) A hs gs A' (si_hidden sm')"
        by (simp add: swept_def)
      from True dark(1,2,3,4) this
      have "sweeps ?s (marketable ord) (cs_remaining cs) A (si_hidden sm) (at_price p fs @ gs) A' (si_hidden sm')"
        by (rule sweeps.dark)
      with l(2) have "swept ord cs sm A (at_price p fs @ gs) cs' sm' A'" by (simp add: swept_def)
      moreover have "cross_loop E ord cs sm = Some (False, cs', sm')"
        using l(1) dark(5) True by (simp add: cross_loop.simps[of E ord cs sm])
      ultimately show ?thesis by blast
    next
      case (lit t ref q rest k fs hs bk nt)
      let ?cs = "\<lparr> cs_remaining = cs_remaining cs - k - fills_total fs, cs_filled = cs_filled cs + k + fills_total fs,
          cs_notional = cs_notional cs + word_of_int k * word_of_int t + word_of_int (fills_total fs) * word_of_int t,
          cs_note = nt \<rparr>"
      let ?sm = "(report_fills E ?s t fs (sm\<lparr> si_book := bk \<rparr>))\<lparr> si_hidden := hs \<rparr>"
      have "0 < q" using lookup_resting[OF less.prems(1), of ref ?s t q] lit(4) by (auto simp: resting_def)
      then have "0 < k" "0 \<le> fills_total fs" using lit(5) True tap_spec_total[OF ok lit(6)] by auto
      then have "nat (cs_remaining ?cs) < nat (cs_remaining cs)" using True by simp
      moreover have "book_rel (si_book ?sm) (take_head ?s t k A)" using lit(7) by simp
      moreover have "hidden_wf (si_hidden ?sm)" using tap_spec_wf[OF less.prems(2) lit(6)] by simp
      moreover have "external_only ?sm" using less.prems(3) by simp
      ultimately obtain gs cs' sm' A' where l: "cross_loop E ord ?cs ?sm = Some (False, cs', sm')"
        "swept ord ?cs ?sm (take_head ?s t k A) gs cs' sm' A'" using less.hyps by blast
      then have "sweeps ?s (marketable ord) (cs_remaining cs - k - fills_total fs) (take_head ?s t k A) hs gs A' (si_hidden sm')"
        by (simp add: swept_def)
      from True lit(1,2,3,4,5,6) this
      have "sweeps ?s (marketable ord) (cs_remaining cs) A (si_hidden sm) ((ref, t, k) # at_price t fs @ gs) A' (si_hidden sm')"
        by (rule sweeps.lit)
      with l(2) have "swept ord cs sm A ((ref, t, k) # at_price t fs @ gs) cs' sm' A'" by (simp add: swept_def)
      moreover have "cross_loop E ord cs sm = Some (False, cs', sm')"
        using l(1) lit(8) True by (simp add: cross_loop.simps[of E ord cs sm])
      ultimately show ?thesis by blast
    qed
  qed
qed

lemma touched_calm: "calm sm \<Longrightarrow> subtract_touched s ts sm = Some sm"
  by (induction s ts sm rule: subtract_touched.induct) (auto simp: subtract_calm)

lemma cross_sweeps:
  assumes "book_rel (si_book sm) A" and "hidden_wf (si_hidden sm)" and "external_only sm" and "in_side ord \<noteq> BadSide"
  shows "\<exists>fs sm' A'. cross E ord q n sm = Some (fills_qty fs, False, fills_notional fs, sm') \<and>
    sweeps (opposite (in_side ord)) (marketable ord) q A (si_hidden sm) fs A' (si_hidden sm') \<and>
    book_rel (si_book sm') A' \<and> hidden_wf (si_hidden sm') \<and> external_only sm' \<and> sim_core sm' = sim_core sm"
proof -
  let ?cs = "\<lparr> cs_remaining = q, cs_filled = 0, cs_notional = 0, cs_note = no_note \<rparr>"
  let ?sm = "sm\<lparr> si_recent_sync := [] \<rparr>"
  from sweep_loop[of ?sm A ord E ?cs] assms obtain fs cs' sm' A' where
    l: "cross_loop E ord ?cs ?sm = Some (False, cs', sm')" "swept ord ?cs ?sm A fs cs' sm' A'" by auto
  then have "calm sm'" by (simp add: swept_def external_only_def)
  then show ?thesis using l
    by (intro exI[of _ fs] exI[of _ sm'] exI[of _ A'])
      (simp add: cross_def swept_def subtract_calm touched_calm Let_def)
qed

section \<open>What the matching relation promises\<close>

definition queues_pos :: "abook \<Rightarrow> side \<Rightarrow> bool" where
  "queues_pos A s \<longleftrightarrow> (\<forall>t. \<forall>(ref, q) \<in> set (A s t). 0 < q)"

lemma book_rel_pos: "book_rel bk A \<Longrightarrow> queues_pos A s"
  using lookup_resting by (fastforce simp: queues_pos_def resting_def)

lemma queues_pos_head: "queues_pos A s \<Longrightarrow> A s t = (ref, q) # rest \<Longrightarrow> 0 < q"
  unfolding queues_pos_def by (drule spec[of _ t]) simp

lemma take_head_pos: "queues_pos A s \<Longrightarrow> A s t = (ref, q) # rest \<Longrightarrow> k \<le> q \<Longrightarrow> queues_pos (take_head s t k A) s"
  unfolding queues_pos_def
proof (intro allI ballI)
  fix u x
  assume a: "\<forall>t. \<forall>(ref, q) \<in> set (A s t). 0 < q" "A s t = (ref, q) # rest" "k \<le> q" "x \<in> set (take_head s t k A s u)"
  have rest: "\<forall>(ref, q) \<in> set (A s u). 0 < q" "\<forall>(ref, q) \<in> set rest. 0 < q"
    using spec[OF a(1), of u] spec[OF a(1), of t] a(2) by auto
  show "case x of (ref, q) \<Rightarrow> 0 < q"
    using a(2-4) rest by (cases "u = t") (auto simp: take_head_def split: if_splits)
qed

text \<open>The fills at one price.\<close>

definition filled_at :: "int \<Rightarrow> (u64 \<times> int \<times> int) list \<Rightarrow> int" where
  "filled_at t fs = sum_list (map (\<lambda>(ref, p, k). if p = t then k else 0) fs)"

lemma filled_at_simps [simp]: "filled_at t [] = 0"
  "filled_at t ((ref, p, k) # fs) = (if p = t then k else 0) + filled_at t fs"
  "filled_at t (at_price p gs @ fs) = (if p = t then fills_total gs else 0) + filled_at t fs"
proof -
  show "filled_at t (at_price p gs @ fs) = (if p = t then fills_total gs else 0) + filled_at t fs"
    by (induction gs) (auto simp: filled_at_def at_price_def fills_total_def)
qed (auto simp: filled_at_def)

text \<open>Quantity is complete: the order is filled or nothing within its limit is left.\<close>

lemma sweeps_complete:
  assumes "sweeps s ok r A hs fs A' hs'" and "hidden_ok hs" and "queues_pos A s" and "0 \<le> r"
  shows "0 \<le> fills_qty fs \<and> fills_qty fs \<le> r \<and> hidden_ok hs' \<and> queues_pos A' s \<and>
    (\<forall>(ref, p, k) \<in> set fs. 0 < k \<and> ok p) \<and>
    (fills_qty fs = r \<or> (\<forall>p. A' s p \<noteq> [] \<or> hidden_at hs' s p \<longrightarrow> \<not> ok p))"
  using assms
proof (induction rule: sweeps.induct)
  case (dark r hs p A fs hs1 gs A' hs')
  note t = tap_spec_total[OF dark.prems(1) dark.hyps(5)]
  then have f: "fills_total fs \<le> r" "0 \<le> fills_total fs" "hidden_ok hs1" using dark.hyps(1) by auto
  from dark.IH[OF f(3) dark.prems(2)] f(1) have I: "0 \<le> fills_qty gs" "fills_qty gs \<le> r - fills_total fs"
    "hidden_ok hs'" "queues_pos A' s" "\<forall>(ref, p, k) \<in> set gs. 0 < k \<and> ok p"
    "fills_qty gs = r - fills_total fs \<or> (\<forall>p. A' s p \<noteq> [] \<or> hidden_at hs' s p \<longrightarrow> \<not> ok p)" by auto
  moreover have "\<forall>(ref, p, k) \<in> set (at_price p fs). 0 < k \<and> ok p" using t dark.hyps(3) by (auto simp: at_price_def)
  moreover have "fills_total fs + fills_qty gs = r \<or> (\<forall>p. A' s p \<noteq> [] \<or> hidden_at hs' s p \<longrightarrow> \<not> ok p)"
    using I(6) by (rule disj_forward) simp_all
  ultimately show ?case using f by (simp add: ball_Un)
next
  case (lit r A t hs ref q rest k fs hs1 gs A' hs')
  note tt = tap_spec_total[OF lit.prems(1) lit.hyps(7)]
  have "0 < q" by (rule queues_pos_head[OF lit.prems(2) lit.hyps(5)])
  then have k: "0 < k" "k \<le> q" "k \<le> r" using lit.hyps(1,6) by auto
  then have f: "fills_total fs \<le> r - k" "0 \<le> fills_total fs" "hidden_ok hs1" using tt by auto
  from lit.IH[OF f(3) take_head_pos[OF lit.prems(2) lit.hyps(5) k(2)]] f(1) have I: "0 \<le> fills_qty gs"
    "fills_qty gs \<le> r - k - fills_total fs" "hidden_ok hs'" "queues_pos A' s" "\<forall>(ref, p, k) \<in> set gs. 0 < k \<and> ok p"
    "fills_qty gs = r - k - fills_total fs \<or> (\<forall>p. A' s p \<noteq> [] \<or> hidden_at hs' s p \<longrightarrow> \<not> ok p)" by auto
  moreover have "\<forall>(ref, p, k) \<in> set (at_price t fs). 0 < k \<and> ok p" using tt lit.hyps(3) by (auto simp: at_price_def)
  moreover have "k + (fills_total fs + fills_qty gs) = r \<or> (\<forall>p. A' s p \<noteq> [] \<or> hidden_at hs' s p \<longrightarrow> \<not> ok p)"
    using I(6) by (rule disj_forward) simp_all
  ultimately show ?case using f k lit.hyps(3) by (simp add: ball_Un)
qed auto

text \<open>Prices never improve from one fill to the next.\<close>

lemma tap_spec_at:
  assumes "tap_spec s p r hs = (fs, hs')"
  shows "hidden_at hs' s' q \<Longrightarrow> hidden_at hs s' q"
  using assms
proof (induction hs arbitrary: r fs hs')
  case (Cons h hs)
  obtain fs1 hs1 where t: "tap_spec s p r hs = (fs1, hs1)" by fastforce
  obtain fs2 hs2 where t2: "tap_spec s p (r - min r (hd_qty_remaining h)) hs = (fs2, hs2)" by fastforce
  show ?case
    using Cons.prems Cons.IH[OF _ t] Cons.IH[OF _ t2]
    by (auto simp: Let_def t t2 hidden_at_Cons split: if_splits)
qed auto

lemma take_head_priced: "take_head s t k A s u \<noteq> [] \<Longrightarrow> A s u \<noteq> []"
  by (auto simp: take_head_def split: if_splits list.splits)

definition fills_within :: "side \<Rightarrow> int \<Rightarrow> (u64 \<times> int \<times> int) list \<Rightarrow> bool" where
  "fills_within s b fs \<longleftrightarrow> (\<forall>x \<in> set fs. \<not> better s (fst (snd x)) b)"

definition fills_sorted :: "side \<Rightarrow> (u64 \<times> int \<times> int) list \<Rightarrow> bool" where
  "fills_sorted s fs \<longleftrightarrow> sorted_wrt (\<lambda>x y. \<not> better s (fst (snd y)) (fst (snd x))) fs"

lemma fills_within_simps [simp]: "fills_within s b (at_price p fs @ gs) \<longleftrightarrow> (fs = [] \<or> \<not> better s p b) \<and> fills_within s b gs"
  "fills_within s b ((ref, p, k) # gs) \<longleftrightarrow> \<not> better s p b \<and> fills_within s b gs"
  by (cases fs) (auto simp: fills_within_def at_price_def)

lemma fills_sorted_at: "fills_within s p gs \<Longrightarrow> fills_sorted s gs \<Longrightarrow> fills_sorted s (at_price p fs @ gs)"
  by (auto simp: fills_sorted_def fills_within_def sorted_wrt_append at_price_def sorted_wrt_map case_prod_unfold better_def)

lemma fills_sorted_Cons: "fills_within s p gs \<Longrightarrow> fills_sorted s gs \<Longrightarrow> fills_sorted s ((ref, p, k) # gs)"
  by (auto simp: fills_sorted_def fills_within_def)

lemma sweeps_monotone:
  assumes "sweeps s ok r A hs fs A' hs'"
  shows "fills_sorted s fs \<and>
    (\<forall>b. (\<forall>p. A s p \<noteq> [] \<or> hidden_at hs s p \<longrightarrow> \<not> better s p b) \<longrightarrow> fills_within s b fs)"
  using assms
proof (induction rule: sweeps.induct)
  case (dark r hs p A fs hs1 gs A' hs')
  have at: "hidden_at hs1 s q \<Longrightarrow> hidden_at hs s q" for q by (rule tap_spec_at[OF dark.hyps(5)])
  have "\<not> better s q p" if "A s q \<noteq> [] \<or> hidden_at hs1 s q" for q
    using that dark.hyps(2,4) at by (fastforce simp: hidden_best_def better_def split: if_splits)
  then have "fills_within s p gs" using dark.IH by blast
  moreover have "fills_within s b gs" if "\<forall>p. A s p \<noteq> [] \<or> hidden_at hs s p \<longrightarrow> \<not> better s p b" for b
    using dark.IH that at by blast
  moreover have "hidden_at hs s p" using dark.hyps(2) by (simp add: hidden_best_def)
  ultimately show ?case using dark.IH fills_sorted_at by simp
next
  case (lit r A t hs ref q rest k fs hs1 gs A' hs')
  have at: "hidden_at hs1 s p \<Longrightarrow> hidden_at hs s p" for p by (rule tap_spec_at[OF lit.hyps(7)])
  have "\<not> better s p t" if "take_head s t k A s p \<noteq> [] \<or> hidden_at hs1 s p" for p
    using that lit.hyps(2,4) at take_head_priced by (fastforce simp: best_price_def)
  then have w: "fills_within s t gs" using lit.IH by blast
  moreover have "fills_within s b gs" if "\<forall>p. A s p \<noteq> [] \<or> hidden_at hs s p \<longrightarrow> \<not> better s p b" for b
    using lit.IH that at take_head_priced by blast
  moreover have "A s t \<noteq> []" using lit.hyps(5) by simp
  moreover have "fills_within s t (at_price t fs @ gs)" using w by (simp add: better_def)
  ultimately show ?case using lit.IH fills_sorted_at fills_sorted_Cons by simp
qed (simp_all add: fills_sorted_def fills_within_def)

text \<open>At each price, what leaves the queues and the ledger is what is filled; nothing else moves.\<close>

lemma take_head_qty:
  assumes "A s t = (ref, q) # rest"
  shows "level_qty (take_head s t k A) s u = level_qty A s u - (if u = t then k else 0)"
  using assms by (simp add: level_qty_def take_head_def)

lemma sweeps_conserve:
  assumes "sweeps s ok r A hs fs A' hs'" and "hidden_ok hs"
  shows "level_qty A s t + hidden_total s t hs = level_qty A' s t + hidden_total s t hs' + filled_at t fs \<and>
    (s' \<noteq> s \<longrightarrow> A' s' = A s' \<and> hidden_total s' t hs' = hidden_total s' t hs)"
  using assms
proof (induction rule: sweeps.induct)
  case (dark r hs p A fs hs1 gs A' hs')
  with tap_spec_total[OF dark.prems dark.hyps(5)] show ?case by (cases "p = t") auto
next
  case (lit r A u hs ref q rest k fs hs1 gs A' hs')
  have "take_head s u k A s' = A s'" if "s' \<noteq> s" using that by (simp add: take_head_def)
  moreover have "level_qty (take_head s u k A) s t = level_qty A s t - (if t = u then k else 0)"
    by (rule take_head_qty) (rule lit.hyps(5))
  ultimately show ?case using lit tap_spec_total[OF lit.prems lit.hyps(7)] by (cases "u = t") auto
qed simp_all

end
