(* ===== verification/SimProps.thy ===== *)
theory SimProps
  imports SimRun SimSweep BookProps
begin

text \<open>
  Properties of the execution simulator, each with a witness on a small concrete market: the
  two-order book of \<open>BookProps\<close>, an empty queue of four events, no jitter.
\<close>

section \<open>A concrete simulator\<close>

definition demo_cfg :: sim_config where
  "demo_cfg = \<lparr> cf_parse_latency_ns = 10, cf_decision_latency_ns = 20, cf_wire_latency_ns = 5,
     cf_jitter_max_ns = 0, cf_jitter_kind = JitterNone, cf_external_ref_limit = 100,
     cf_maker_fee_bps = -2, cf_taker_fee_bps = 30, cf_depth_depletion_levels = 1 \<rparr>"

definition demo_env :: "(unit, unit) sim_env" where
  "demo_env = \<lparr> en_le = True, en_uniform = (\<lambda>m d. (0, d)), en_exponential = (\<lambda>d. (0, d)),
     en_normal = (\<lambda>d. (0, d)), en_excite = (\<lambda>d. d), en_decay = (\<lambda>n d. d),
     en_intensities = (\<lambda>a b c d e. ((), ())), en_poisson = (\<lambda>f d. (0, d)), en_alpha_zero = True,
     en_depth_target = (\<lambda>r l. 1) \<rparr>"

definition demo_sim :: "book \<Rightarrow> sim_event scheduler \<Rightarrow> unit sim" where
  "demo_sim bk w = sim_new demo_cfg bk w ()"

definition demo_order :: "u64 \<Rightarrow> side \<Rightarrow> int \<Rightarrow> int \<Rightarrow> sim_order_type \<Rightarrow> sim_inbound" where
  "demo_order ref s qty price ty = \<lparr> in_ref = ref, in_side = s, in_qty = qty, in_price = price, in_type = ty,
     in_peg = PegNone, in_peg_offset_ticks = 0, in_non_displayed = False \<rparr>"

lemma demo_order_simps [simp]:
  "in_ref (demo_order r s q p ty) = r" "in_side (demo_order r s q p ty) = s" "in_qty (demo_order r s q p ty) = q"
  "in_price (demo_order r s q p ty) = p" "in_type (demo_order r s q p ty) = ty"
  "in_peg (demo_order r s q p ty) = PegNone" "in_non_displayed (demo_order r s q p ty) = False"
  by (simp_all add: demo_order_def)

lemma demo_sim_simps [simp]:
  "si_cfg (demo_sim bk w) = demo_cfg" "si_book (demo_sim bk w) = bk" "si_wheel (demo_sim bk w) = w"
  "si_hidden (demo_sim bk w) = []" "si_halted (demo_sim bk w) = False" "si_icebergs (demo_sim bk w) = []"
  "si_decisions (demo_sim bk w) = []" "si_stp (demo_sim bk w) = StpNone"
  "length (si_tracked (demo_sim bk w)) = ar_capacity (bk_arena bk)"
  "i < ar_capacity (bk_arena bk) \<Longrightarrow> si_tracked (demo_sim bk w) ! i = no_tracked"
  by (simp_all add: demo_sim_def sim_new_def)

definition demo_events :: "sim_event event_slot list" where
  "demo_events = replicate 4 (fresh_slot \<lparr> ev_visible_ts = 0, ev_order = demo_order 0 Buy 0 0 Ioc \<rparr>)"

lemma demo_queue: "\<exists>w. sched_inv (w :: sim_event scheduler) \<and> sched_events w = {#} \<and> sched_size w = 0 \<and>
    sc_capacity w = 4 \<and> sc_next_seq w = 0"
  using sched_new_correct[of 4 demo_events] by (auto simp: demo_events_def sched_events_def sched_size_def)

lemma demo_queue_one: "\<exists>w. sched_inv (w :: sim_event scheduler) \<and> size (sched_events w) = 1"
proof -
  from demo_queue obtain w0 :: "sim_event scheduler" where
    w0: "sched_inv w0" "sched_events w0 = {#}" "sched_size w0 = 0" "sc_capacity w0 = 4" "sc_next_seq w0 = 0" by blast
  then have "length (sc_heap w0) < sc_capacity w0" "sc_next_seq w0 \<noteq> - 1" by (simp_all add: sched_size_def)
  from push_adds[OF w0(1) this, of 30 "\<lparr> ev_visible_ts = 30, ev_order = demo_order 100 Sell 12 20 DayLimit \<rparr>"]
  obtain w where "sched_inv w" "sched_events w = add_mset (event_key 30 (sc_next_seq w0),
      \<lparr> ev_visible_ts = 30, ev_order = demo_order 100 Sell 12 20 DayLimit \<rparr>) (sched_events w0)" by blast
  then show ?thesis using w0(2) by (intro exI[of _ w]) simp
qed

section \<open>The event loop\<close>

text \<open>Submission schedules the decision at arrival plus parse and decision latency plus jitter,
  in 64-bit arithmetic; the queue gains exactly that event, behind every event of the same time.\<close>

theorem submit_schedules:
  assumes "sched_inv (si_wheel sm)" and "sched_size (si_wheel sm) < sc_capacity (si_wheel sm)"
    and "sc_next_seq (si_wheel sm) \<noteq> - 1" and "cf_external_ref_limit (si_cfg sm) \<le> in_ref ord"
  shows "\<exists>ts sm'. sim_submit E ord arrival sm = Some (ts, sm') \<and>
     ts = arrival + ucast (cf_parse_latency_ns (si_cfg sm)) + ucast (cf_decision_latency_ns (si_cfg sm)) +
       fst (draw_jitter E sm) \<and>
     sched_inv (si_wheel sm') \<and> sim_market sm' = sim_market sm \<and>
     sched_events (si_wheel sm') = add_mset
       (event_key ts (sc_next_seq (si_wheel sm)), \<lparr> ev_visible_ts = ts, ev_order = ord \<rparr>) (sched_events (si_wheel sm))"
proof -
  obtain j sm0 where j: "draw_jitter E sm = (j, sm0)" by fastforce
  have c: "si_cfg sm0 = si_cfg sm" "si_wheel sm0 = si_wheel sm" "sim_market sm0 = sim_market sm"
    using core.jitter[OF j] market.jitter[OF j] by (simp_all add: sim_core_def)
  let ?ts = "arrival + ucast (cf_parse_latency_ns (si_cfg sm)) + ucast (cf_decision_latency_ns (si_cfg sm)) + j"
  from push_adds[OF assms(1) assms(2)[unfolded sched_size_def] assms(3), of ?ts "\<lparr> ev_visible_ts = ?ts, ev_order = ord \<rparr>"]
  obtain h w where "sched_push ?ts \<lparr> ev_visible_ts = ?ts, ev_order = ord \<rparr> (si_wheel sm) = Some (h, w)" "sched_inv w"
    "sched_events w = add_mset (event_key ?ts (sc_next_seq (si_wheel sm)), \<lparr> ev_visible_ts = ?ts, ev_order = ord \<rparr>)
       (sched_events (si_wheel sm))" by blast
  then show ?thesis using assms(4) c j by (simp add: sim_submit_def Let_def sim_market_def)
qed

lemma submit_schedules_witness:
  "\<exists>bk w ts sm'. sim_submit demo_env (demo_order 100 Sell 12 20 DayLimit) 1000 (demo_sim bk w) = Some (ts, sm') \<and>
     ts = 1030 \<and> size (sched_events (si_wheel sm')) = 1"
proof -
  from demo_queue obtain w :: "sim_event scheduler" where
    w: "sched_inv w" "sched_events w = {#}" "sched_size w = 0" "sc_capacity w = 4" "sc_next_seq w = 0" by blast
  obtain bk :: book where True by blast
  have "fst (draw_jitter demo_env (demo_sim bk w)) = 0" by (simp add: draw_jitter_def demo_cfg_def)
  with submit_schedules[of "demo_sim bk w" "demo_order 100 Sell 12 20 DayLimit" demo_env 1000] w
  show ?thesis by (intro exI[of _ bk] exI[of _ w]) (auto simp: demo_cfg_def)
qed

text \<open>C7: The event loop ends on every state with a well-formed queue. It decides exactly the pending
  events that are due, one by one in the strict order of time and arrival, and stops when only later
  events are left or at a decision that fails a contract.\<close>

theorem run_until_exact:
  assumes "sched_inv (si_wheel sm)"
  shows "\<exists>evs sm1. sim_steps E sm evs sm1 \<and> sorted_wrt (\<lambda>a b. fst a < fst b) evs \<and>
     (\<forall>x \<in> set evs. key_time (fst x) \<le> unat t) \<and>
     sched_events (si_wheel sm) = mset evs + sched_events (si_wheel sm1) \<and>
     run_stops E t sm1 (run_until E t sm)"
  using run_until_correct[OF assms, of E t] by (auto simp: ran_until_def)

lemma run_until_exact_witness:
  "\<exists>bk w evs sm1. sim_steps demo_env (demo_sim bk w) evs sm1 \<and> size (sched_events w) = 1 \<and>
     sched_events w = mset evs + sched_events (si_wheel sm1) \<and>
     run_stops demo_env 50 sm1 (run_until demo_env 50 (demo_sim bk w))"
proof -
  from demo_queue_one obtain w :: "sim_event scheduler" where w: "sched_inv w" "size (sched_events w) = 1" by blast
  obtain bk :: book where True by blast
  from run_until_exact[of "demo_sim bk w" demo_env 50] w show ?thesis by auto
qed

section \<open>Hidden liquidity\<close>

text \<open>Consumption of hidden liquidity at a price fills the orders of that side and price in
  arrival order, each up to its quantity, exactly the smaller of the quantity asked and the quantity
  there; filled orders leave the ledger, every other order keeps its quantity, the book is not
  touched, and the notional grows by price times quantity.\<close>

theorem tap_hidden_exact:
  assumes "hidden_ok (si_hidden sm)" and "0 \<le> r" and "tap_spec s p r (si_hidden sm) = (fs, hs)"
  shows "\<exists>sm'. tap_hidden E s p r n sm =
       (fills_total fs, r - fills_total fs, n + word_of_int (fills_total fs) * word_of_int p, sm') \<and>
     fills_total fs = min r (hidden_qty_at sm s p) \<and> (\<forall>x \<in> set fs. 0 < snd x) \<and>
     si_hidden sm' = hs \<and> hidden_ok hs \<and> si_book sm' = si_book sm \<and>
     hidden_qty_at sm' s p = hidden_qty_at sm s p - fills_total fs \<and>
     (\<forall>s' q. (s', q) \<noteq> (s, p) \<longrightarrow> hidden_qty_at sm' s' q = hidden_qty_at sm s' q)"
proof -
  note t = tap_spec_total[OF assms(1,3)]
  have "si_book (report_fills E s p fs sm) = si_book sm"
    using market.report_fills market_eqD(1) by metis
  moreover have "0 \<le> hidden_total s p (si_hidden sm)" by (rule hidden_total_nonneg[OF assms(1)])
  ultimately show ?thesis
    using t assms(2) by (simp add: tap_hidden_spec[OF assms(3)] hidden_qty_at_total)
qed

definition demo_hidden :: "hidden_order list" where
  "demo_hidden = map (\<lambda>(r, q). \<lparr> hd_ref = r, hd_side = Buy, hd_price_ticks = 21, hd_qty_remaining = q,
     hd_peg = PegNone, hd_peg_offset = 0, hd_pegged = False \<rparr>) [(101, 4), (102, 6), (103, 5)]"

lemma tap_hidden_exact_witness:
  "\<exists>(sm :: unit sim) sm'. tap_hidden demo_env Buy 21 7 0 (sm\<lparr> si_hidden := demo_hidden \<rparr>) = (7, 0, 147, sm') \<and>
     map hd_ref (si_hidden sm') = [102, 103] \<and> hidden_qty_at sm' Buy 21 = 8"
proof -
  obtain sm :: "unit sim" where True by blast
  let ?sm = "sm\<lparr> si_hidden := demo_hidden \<rparr>"
  have ok: "hidden_ok (si_hidden ?sm)" by (simp add: demo_hidden_def hidden_ok_def)
  have tap: "tap_spec Buy 21 7 (si_hidden ?sm) =
      ([(101, 4), (102, 3)], [(demo_hidden ! 1)\<lparr> hd_qty_remaining := 3 \<rparr>, demo_hidden ! 2])"
    by (simp add: demo_hidden_def)
  have refs: "map hd_ref [(demo_hidden ! 1)\<lparr> hd_qty_remaining := 3 \<rparr>, demo_hidden ! 2] = [102, 103]"
    by (simp add: demo_hidden_def)
  have "hidden_qty_at ?sm Buy 21 = 15" by (simp add: demo_hidden_def hidden_qty_at_def)
  with tap_hidden_exact[OF ok _ tap, of demo_env 0] refs show ?thesis
    by (rule_tac exI[of _ sm]) auto
qed

section \<open>Decisions\<close>

text \<open>A post-only order that would match a resting order of the other side is rejected when the
  market is not halted: nothing trades, the book, the ledger and the icebergs stay as repegging left
  them, and one decision reports the rejection with nothing filled.\<close>

theorem post_only_rejects:
  assumes "book_rel (si_book sm) A" and "\<not> si_halted sm" and "in_type ord = PostOnly" and "in_peg ord = PegNone"
    and "in_side ord \<noteq> BadSide" and "in_ref ord \<noteq> 0" and "in_ref ord \<notin> refs_of A"
    and "A (opposite (in_side ord)) t \<noteq> []" and "marketable ord t"
  shows "\<exists>sm' d. decide E ord ts sm = Some sm' \<and> sim_market sm' = sim_market (repeg_hidden sm) \<and>
     si_tracked sm' = si_tracked sm \<and> si_decisions sm' = si_decisions sm @ [d] \<and>
     dc_kind d = RejectedWouldCross \<and> dc_filled_qty d = 0 \<and> dc_ref d = in_ref ord"
proof -
  let ?sm = "repeg_hidden (sm\<lparr> si_now_hint := ts \<rparr>)"
  obtain j sm1 where j: "draw_jitter E ?sm = (j, sm1)" by fastforce
  have m: "sim_market sm1 = sim_market (repeg_hidden sm)" "si_halted sm1 = si_halted sm"
    using market.jitter[OF j] core.jitter[OF j]
    by (simp_all add: sim_market_def sim_core_def repeg_hidden_def hidden_reference_def)
  have o: "si_tracked sm1 = si_tracked sm" "si_decisions sm1 = si_decisions sm"
    using j by (auto simp: draw_jitter_def repeg_hidden_def Let_def split: prod.splits)
  have b: "si_book sm1 = si_book sm" using m(1) by (simp add: sim_market_def repeg_hidden_def)
  have "order_crosses ord sm1"
    using order_crosses_market[of sm1 A ord] assms b m(2) by auto
  then show ?thesis
    using assms(3,4) id_find_absent[OF assms(1,7,6)] j m(1) o b
    by (simp add: decide_def resolve_peg_type_def Let_def)
      (simp add: push_decision_def decision_of_def Let_def sim_simps sim_market_def)
qed

lemma post_only_rejects_witness:
  "\<exists>bk w sm' d. decide demo_env (demo_order 100 Sell 12 20 PostOnly) 50 (demo_sim bk w) = Some sm' \<and>
     book_rel bk demo_two \<and> si_book sm' = bk \<and> dc_kind d = RejectedWouldCross \<and> si_decisions sm' = [d]"
proof -
  from demo_book_two obtain bk where b: "book_rel bk demo_two" by blast
  obtain w :: "sim_event scheduler" where True by blast
  have "demo_two (opposite Sell) 20 \<noteq> []" by (simp add: demo_two_eval)
  with post_only_rejects[of "demo_sim bk w" demo_two "demo_order 100 Sell 12 20 PostOnly" 20 demo_env 50] b
  show ?thesis
    by (intro exI[of _ bk] exI[of _ w]) (auto simp: demo_refs marketable_def better_def sim_market_def repeg_hidden_def)
qed

lemma sint_small: "uint (w :: u64) < 2 ^ 63 \<Longrightarrow> sint w = uint w"
  unfolding sint_uint by (rule signed_take_bit_int_eq_self) (auto intro: order_trans[OF _ uint_ge_0])

text \<open>A fee is the notional times the rate in basis points, divided by ten thousand and truncated
  toward zero, with the sign of the rate, as long as the product fits 64 bits.\<close>

theorem fee_truncates:
  assumes "uint n * \<bar>bps\<bar> < 2 ^ 64"
  shows "fee_bps_of n bps = (uint n * bps) sdiv 10000"
proof (cases "n = 0 \<or> bps = 0")
  case True
  then show ?thesis by (auto simp: fee_bps_of_def signed_divide_int_def)
next
  case False
  then have n: "0 < uint n" "bps \<noteq> 0" using uint_0_iff[of n] uint_ge_0[of n] by (metis less_le, blast)
  then have "\<bar>bps\<bar> \<le> uint n * \<bar>bps\<bar>" by (simp add: mult_le_cancel_right1)
  then have ab: "\<bar>bps\<bar> < 2 ^ 64" using assms by simp
  let ?w = "if bps < 0 then word_of_int (- bps) else word_of_int bps :: u64"
  have "?w = word_of_int \<bar>bps\<bar>" by simp
  then have w: "uint ?w = \<bar>bps\<bar>" using ab by (simp only: uint_word_of_int) simp
  have prod: "uint (n * ?w) = uint n * \<bar>bps\<bar>"
    using assms by (simp add: uint_word_ariths w del: of_int_minus)
  have m: "uint (n * ?w div 10000) = uint n * \<bar>bps\<bar> div 10000"
    by (simp add: uint_div prod del: of_int_minus)
  have "uint n * \<bar>bps\<bar> div 10000 < 2 ^ 63" using assms by simp
  with m have "uint (n * ?w div 10000) < 2 ^ 63" by simp
  then have "sint (n * ?w div 10000) = uint (n * ?w div 10000)" by (rule sint_small)
  with m have "fee_bps_of n bps = (if bps < 0 then - (uint n * \<bar>bps\<bar> div 10000) else uint n * \<bar>bps\<bar> div 10000)"
    by (simp only: fee_bps_of_def Let_def)
  then show ?thesis using n by (auto simp: signed_divide_int_def sgn_mult abs_mult sgn_if zero_less_mult_iff)
qed

lemma fee_truncates_witness: "fee_bps_of 123456 (- 7) = - 86 \<and> fee_bps_of 123456 7 = 86"
  using fee_truncates[of 123456 "- 7"] fee_truncates[of 123456 7] by (simp add: signed_divide_int_def)

section \<open>Matching\<close>

lemma demo_external: "external_only (demo_sim bk w)"
proof -
  have "level_scan (replicate kLevelMapSize no_track_level) h p (n # ns) = None" for h p n ns
  proof -
    have "(h + n) AND kLevelMapMask = take_bit 12 (h + n)"
      by (simp add: take_bit_eq_mask kLevelMapMask_def kLevelMapSize_def mask_eq_exp_minus_1)
    then have "(h + n) AND kLevelMapMask < kLevelMapSize"
      using take_bit_nat_less_exp[of 12 "h + n"] by (simp add: kLevelMapSize_def)
    then show ?thesis by (simp add: Let_def no_track_level_def)
  qed
  then have "level_scan (replicate kLevelMapSize no_track_level) h p ns = None" for h p ns
    by (cases ns) simp_all
  then show ?thesis
    by (simp add: external_only_def calm_def level_find_def demo_sim_def sim_new_def no_tracked_def)
qed

text \<open>C5: With no strategy order resting and no iceberg registered, the sweep of an incoming order
  returns, and its fills are those of the abstract matching relation on the opposite queues and the
  hidden ledger: best price first, the oldest order first, hidden orders as soon as their price is
  strictly better or the order before them at their price is done. Quantity and notional returned are
  the sums over the fills, and the book left is the one the relation reaches.\<close>

theorem cross_refines_matching:
  assumes "book_rel (si_book sm) A" and "hidden_wf (si_hidden sm)" and "external_only sm" and "in_side ord \<noteq> BadSide"
  shows "\<exists>fs sm' A'. cross E ord q n sm = Some (fills_qty fs, False, fills_notional fs, sm') \<and>
    sweeps (opposite (in_side ord)) (marketable ord) q A (si_hidden sm) fs A' (si_hidden sm') \<and>
    book_rel (si_book sm') A' \<and> hidden_wf (si_hidden sm') \<and> external_only sm'"
  using cross_sweeps[OF assms] by blast

lemma cross_refines_matching_witness:
  "\<exists>bk w fs sm' A'. book_rel bk demo_two \<and>
    cross demo_env (demo_order 100 Sell 12 20 Ioc) 12 0 (demo_sim bk w) =
      Some (fills_qty fs, False, fills_notional fs, sm') \<and>
    sweeps Buy (marketable (demo_order 100 Sell 12 20 Ioc)) 12 demo_two [] fs A' (si_hidden sm')"
proof -
  from demo_book_two obtain bk where b: "book_rel bk demo_two" by blast
  obtain w :: "sim_event scheduler" where True by blast
  have "hidden_wf (si_hidden (demo_sim bk w))" by (simp add: hidden_wf_def hidden_ok_def)
  from cross_refines_matching[of "demo_sim bk w" demo_two "demo_order 100 Sell 12 20 Ioc" demo_env 12 0, OF _ this demo_external]
    b obtain fs sm' A' where
    "cross demo_env (demo_order 100 Sell 12 20 Ioc) 12 0 (demo_sim bk w) =
      Some (fills_qty fs, False, fills_notional fs, sm')"
    "sweeps Buy (marketable (demo_order 100 Sell 12 20 Ioc)) 12 demo_two [] fs A' (si_hidden sm')" by auto
  with b show ?thesis by blast
qed

text \<open>C6: Best execution in an external market: suppose no strategy order rests, no tracked level or iceberg is
  registered (\<open>external_only\<close>), and every hidden order has quantity left and a real price (\<open>hidden_wf\<close>).
  Then a sweep fills at most what was asked, every fill is positive and within the
  limit, prices never improve from one fill to the next, and the order is filled completely unless
  nothing within its limit is left, displayed or hidden. At every price what the queue and the ledger
  lose is what was filled there, and the order's own side is untouched. With strategy orders resting this is
  not claimed: self-trade prevention may stop the sweep early or remove quantity without filling it.\<close>

theorem cross_best_execution:
  assumes "book_rel (si_book sm) A" and "hidden_wf (si_hidden sm)" and "external_only sm" and "in_side ord \<noteq> BadSide"
    and "0 \<le> q"
  shows "\<exists>fs sm' A'. cross E ord q n sm = Some (fills_qty fs, False, fills_notional fs, sm') \<and>
    book_rel (si_book sm') A' \<and> fills_qty fs \<le> q \<and>
    (\<forall>(ref, p, k) \<in> set fs. 0 < k \<and> marketable ord p) \<and> fills_sorted (opposite (in_side ord)) fs \<and>
    (fills_qty fs < q \<longrightarrow>
      (\<forall>p. marketable ord p \<longrightarrow> A' (opposite (in_side ord)) p = [] \<and> \<not> hidden_at (si_hidden sm') (opposite (in_side ord)) p)) \<and>
    (\<forall>p. level_qty A (opposite (in_side ord)) p + hidden_qty_at sm (opposite (in_side ord)) p =
      level_qty A' (opposite (in_side ord)) p + hidden_qty_at sm' (opposite (in_side ord)) p + filled_at p fs) \<and>
    A' (in_side ord) = A (in_side ord)"
proof -
  let ?s = "opposite (in_side ord)"
  from cross_sweeps[OF assms(1-4), of E q n] obtain fs sm' A' where
    c: "cross E ord q n sm = Some (fills_qty fs, False, fills_notional fs, sm')"
      "sweeps ?s (marketable ord) q A (si_hidden sm) fs A' (si_hidden sm')" "book_rel (si_book sm') A'" by blast
  have ok: "hidden_ok (si_hidden sm)" using assms(2) by (simp add: hidden_wf_def)
  have "in_side ord \<noteq> ?s" using assms(4) by (cases "in_side ord") simp_all
  with c sweeps_complete[OF c(2) ok book_rel_pos[OF assms(1)] assms(5)] sweeps_monotone[OF c(2)]
    sweeps_conserve[OF c(2) ok, of _ "in_side ord"]
  show ?thesis
    by (intro exI[of _ fs] exI[of _ sm'] exI[of _ A']) (auto simp: hidden_qty_at_total)
qed

lemma cross_best_execution_witness:
  "\<exists>bk w fs sm' A'. book_rel bk demo_two \<and>
    cross demo_env (demo_order 100 Sell 12 20 Ioc) 12 0 (demo_sim bk w) =
      Some (fills_qty fs, False, fills_notional fs, sm') \<and> book_rel (si_book sm') A' \<and>
    15 = level_qty A' Buy 20 + hidden_qty_at sm' Buy 20 + filled_at 20 fs \<and> A' Sell = demo_two Sell"
proof -
  from demo_book_two obtain bk where b: "book_rel bk demo_two" by blast
  obtain w :: "sim_event scheduler" where True by blast
  have "level_qty demo_two Buy 20 + hidden_qty_at (demo_sim bk w) Buy 20 = 15"
    by (simp add: level_qty_def demo_two_eval hidden_qty_at_def)
  moreover have "hidden_wf (si_hidden (demo_sim bk w))" by (simp add: hidden_wf_def hidden_ok_def)
  from cross_best_execution[of "demo_sim bk w" demo_two "demo_order 100 Sell 12 20 Ioc" 12 demo_env 0, OF _ this demo_external]
    b obtain fs sm' A' where
    "cross demo_env (demo_order 100 Sell 12 20 Ioc) 12 0 (demo_sim bk w) =
      Some (fills_qty fs, False, fills_notional fs, sm')" "book_rel (si_book sm') A'"
    "\<forall>p. level_qty demo_two Buy p + hidden_qty_at (demo_sim bk w) Buy p =
       level_qty A' Buy p + hidden_qty_at sm' Buy p + filled_at p fs" "A' Sell = demo_two Sell" by auto
  ultimately show ?thesis using b by metis
qed

end
