(* ===== verification/SimBehaviour.thy ===== *)
theory SimBehaviour
  imports SimProps
begin

text \<open>
  Decisions of market orders from submission to report, and the corner cases of matching, self-trade
  prevention and replacement, each with a witness on the market of \<open>SimProps\<close>.
\<close>

section \<open>Market orders\<close>


lemma repeg_simps [simp]: "si_book (repeg_hidden sm) = si_book sm" "si_halted (repeg_hidden sm) = si_halted sm"
  "external_only (repeg_hidden sm) = external_only sm" "si_decisions (repeg_hidden sm) = si_decisions sm"
  "si_cfg (repeg_hidden sm) = si_cfg sm"
  by (simp_all add: repeg_hidden_def)


lemma external_driver [simp]:
  "external_only (sm\<lparr> si_driver := d \<rparr>) = external_only sm" "external_only (sm\<lparr> si_now_hint := t \<rparr>) = external_only sm"
  by (simp_all add: external_only_def calm_def level_find_def)

lemma repeg_now [simp]: "repeg_hidden (sm\<lparr> si_now_hint := t \<rparr>) = (repeg_hidden sm)\<lparr> si_now_hint := t \<rparr>"
  by (simp add: repeg_hidden_def hidden_reference_def)






section \<open>Corner cases\<close>

text \<open>C33: Priority at one price in an external market: suppose no strategy order rests, no tracked level or iceberg is
  registered (\<open>external_only\<close>), and every hidden order has quantity left and a real price (\<open>hidden_wf\<close>).
  When the order at the head of the best displayed queue does not suffice, hidden orders at that price are consumed before
  the second displayed order, which keeps its whole quantity although it is displayed and older. With a strategy
  order at the head this is not claimed: the decrement mode of self-trade prevention goes on without looking for hidden orders.\<close>

theorem hidden_before_second:
  assumes "book_rel (si_book sm) A" and "hidden_wf (si_hidden sm)" and "external_only sm" and "in_side ord \<noteq> BadSide"
    and "s = opposite (in_side ord)" and "best_price A s t" and "marketable ord t" and "A s t = (ref, k) # rest"
    and "\<And>p. hidden_at (si_hidden sm) s p \<Longrightarrow> \<not> better s p t"
    and "k < q" and "q \<le> k + hidden_qty_at sm s t"
  shows "\<exists>sm' A'. cross E ord q n sm = Some (q, False, word_of_int q * word_of_int t, sm') \<and>
    book_rel (si_book sm') A' \<and> A' s t = rest \<and> hidden_qty_at sm' s t = hidden_qty_at sm s t - (q - k)"
proof -
  from cross_sweeps[OF assms(1-4), of E q n] obtain fs sm' A' where
    c: "cross E ord q n sm = Some (fills_qty fs, False, fills_notional fs, sm')"
      "sweeps s (marketable ord) q A (si_hidden sm) fs A' (si_hidden sm')" "book_rel (si_book sm') A'"
    unfolding assms(5) by blast
  have ok: "hidden_ok (si_hidden sm)" using assms(2) by (simp add: hidden_wf_def)
  have k: "0 < k" by (rule queues_pos_head[OF book_rel_pos[OF assms(1)] assms(8)])
  obtain gs hs1 where tap: "tap_spec s t (q - k) (si_hidden sm) = (gs, hs1)" by fastforce
  from tap_spec_total[OF ok tap] have g: "fills_total gs = q - k"
    "hidden_total s t hs1 = hidden_total s t (si_hidden sm) - (q - k)"
    using assms(10,11) by (simp_all add: hidden_qty_at_total)
  have f: "fs = (ref, t, k) # at_price t gs @ [] \<and> A' = take_head s t k A \<and> si_hidden sm' = hs1"
    using c(2)
  proof (cases rule: sweeps.cases)
    case filled
    then show ?thesis
      using k assms(10) by simp
  next
    case exhausted
    then show ?thesis
      using assms(7,8) by auto
  next
    case (dark p fs hs1 gs)
    have "better s p t" by (rule dark(5)) (simp add: assms(8))
    moreover have "\<not> better s p t" by (rule assms(9)) (use dark(3) in \<open>simp add: hidden_best_def\<close>)
    ultimately show ?thesis by simp
  next
    case (lit t' ref' q' rest' k' fs' hs1' gs')
    have "t' = t" by (rule best_price_unique[OF lit(3) assms(6)])
    with lit assms(8,10) tap have e: "fs = (ref, t, k) # at_price t gs @ gs'"
      "sweeps s (marketable ord) 0 (take_head s t k A) hs1 gs' A' (si_hidden sm')" by (auto simp: g(1))
    from e(2) have "gs' = [] \<and> A' = take_head s t k A \<and> si_hidden sm' = hs1" by (cases rule: sweeps.cases) auto
    with e(1) show ?thesis by simp
  qed
  have q_eq: "q = k + fills_total gs" using g(1) by simp
  have n: "fills_qty fs = q" "fills_notional fs = word_of_int q * word_of_int t"
    using f g(1) fills_qty_simps(3)[of t gs "[]"] fills_notional_simps(3)[of t gs "[]"]
    by (simp_all add: q_eq algebra_simps)
  show ?thesis
    using c(1,3) f g(2) n assms(8) by (intro exI[of _ sm'] exI[of _ A']) (simp add: take_head_def hidden_qty_at_total)
qed

lemma hidden_before_second_witness:
  "\<exists>(sm :: unit sim) sm' A'. cross demo_env (demo_order 100 Sell 12 20 Ioc) 12 0 sm = Some (12, False, 240, sm') \<and>
     book_rel (si_book sm') A' \<and> A' Buy 20 = [(2, 5)] \<and> hidden_qty_at sm Buy 20 = 4 \<and> hidden_qty_at sm' Buy 20 = 2"
proof -
  from demo_book_two obtain bk where b: "book_rel bk demo_two" by blast
  obtain w :: "sim_event scheduler" where True by blast
  let ?h = "\<lparr> hd_ref = 101, hd_side = Buy, hd_price_ticks = 20, hd_qty_remaining = 4, hd_peg = PegNone,
      hd_peg_offset = 0, hd_pegged = False \<rparr>"
  let ?sm = "(demo_sim bk w)\<lparr> si_hidden := [?h] \<rparr>"
  have wf: "hidden_wf (si_hidden ?sm)" by (simp add: hidden_wf_def hidden_ok_def kNoTick_def)
  have best: "best_price demo_two Buy 20" by (simp add: best_price_def better_def demo_two_eval)
  have qty: "hidden_qty_at ?sm Buy 20 = 4" by (simp add: hidden_qty_at_def)
  have hd: "demo_two Buy 20 = (1, 10) # [(2, 5)]" by (simp add: demo_two_eval)
  have "\<exists>sm' A'. cross demo_env (demo_order 100 Sell 12 20 Ioc) 12 0 ?sm = Some (12, False, word_of_int 12 * word_of_int 20, sm') \<and>
    book_rel (si_book sm') A' \<and> A' Buy 20 = [(2, 5)] \<and> hidden_qty_at sm' Buy 20 = hidden_qty_at ?sm Buy 20 - (12 - 10)"
    by (rule hidden_before_second[OF _ wf _ _ _ best _ hd])
      (use b demo_external qty in \<open>simp_all add: marketable_def better_def hidden_at_def\<close>)
  then show ?thesis using qty by auto
qed



text \<open>Replacing a reference that is neither a resting strategy order nor a hidden one changes
  nothing and yet returns a tick that reads as accepted: its kind is \<open>Added\<close>, not the error kind.\<close>

theorem replace_unknown_accepted:
  assumes "book_rel (si_book sm) A" and "orig \<noteq> 0" and "orig \<notin> refs_of A"
    and "orig \<notin> hd_ref ` set (si_hidden sm)" and "cf_external_ref_limit (si_cfg sm) \<le> fresh"
  shows "\<exists>t. replace_strategy E orig fresh qty price sm = Some (t, sm) \<and> tick_ok t \<and> bt_kind t = event_code Added"
proof -
  have ix: "id_find (bk_ids (si_book sm)) orig = Some null_handle"
    by (rule id_find_absent[OF assms(1,3,2)])
  have "hidden_index sm orig = None"
    using assms(4) by (auto simp: hidden_index_def find_None_iff)
  moreover have "\<exists>c. side_of (si_book sm) orig = Some c"
    using remaining_of_correct(2)[OF assms(1,2,3)] by blast
  ultimately show ?thesis using ix assms(5)
    by (auto simp: replace_strategy_def tracked_index_of_def default_tick_def tick_ok_def kTickError_def)
qed

lemma replace_unknown_accepted_witness:
  "\<exists>bk w t. replace_strategy demo_env 777 101 5 20 (demo_sim bk w) = Some (t, demo_sim bk w) \<and> tick_ok t"
proof -
  from demo_book_two obtain bk where b: "book_rel bk demo_two" by blast
  obtain w :: "sim_event scheduler" where True by blast
  from replace_unknown_accepted[of "demo_sim bk w" demo_two 777 101 demo_env 5 20] b
  show ?thesis by (auto simp: demo_refs demo_cfg_def)
qed

end
