(* ===== verification/Ouch.thy ===== *)
theory Ouch
  imports ItchCodec
begin

text \<open>
  The OUCH 5.0 messages of \<open>include/mog/OUCH.hpp\<close>: packed structs, order tokens, the encoders and
  the frame-length tables. A multi-byte member is the list of its bytes in memory, since the code
  only accesses it through the big-endian loads and stores of \<open>Wire.hpp\<close>; an image is the struct's
  bytes in member order. The two encoders whose names the ITCH codecs use too are renamed
  (\<open>encode_executed_report\<close> is \<open>ouch::encode_order_executed\<close>).
\<close>

section \<open>Packed structs\<close>

record enter_order_wire =
  eow_type :: byte
  eow_order_token :: "byte list"
  eow_buy_sell :: byte
  eow_shares :: "byte list"
  eow_stock :: "byte list"
  eow_price :: "byte list"
  eow_time_in_force :: "byte list"
  eow_firm :: "byte list"
  eow_display :: byte
  eow_capacity :: byte
  eow_intermarket_sweep_eligibility :: byte
  eow_minimum_quantity :: "byte list"
  eow_cross_type :: byte
  eow_customer_type :: byte

record replace_order_wire =
  row_type :: byte
  row_existing_order_token :: "byte list"
  row_replacement_order_token :: "byte list"
  row_shares :: "byte list"
  row_price :: "byte list"
  row_time_in_force :: "byte list"
  row_display :: byte
  row_intermarket_sweep_eligibility :: byte
  row_minimum_quantity :: "byte list"

record cancel_order_wire =
  cow_type :: byte
  cow_order_token :: "byte list"
  cow_shares :: "byte list"

record modify_order_wire =
  mow_type :: byte
  mow_order_token :: "byte list"
  mow_buy_sell :: byte
  mow_shares :: "byte list"

record system_event_wire =
  sew_type :: byte
  sew_timestamp_ns :: "byte list"
  sew_event_code :: byte

record order_accepted_wire =
  oaw_type :: byte
  oaw_timestamp_ns :: "byte list"
  oaw_order_token :: "byte list"
  oaw_buy_sell :: byte
  oaw_shares :: "byte list"
  oaw_stock :: "byte list"
  oaw_price :: "byte list"
  oaw_time_in_force :: "byte list"
  oaw_firm :: "byte list"
  oaw_display :: byte
  oaw_order_reference_number :: "byte list"
  oaw_capacity :: byte
  oaw_intermarket_sweep_eligibility :: byte
  oaw_minimum_quantity :: "byte list"
  oaw_cross_type :: byte
  oaw_order_state :: byte
  oaw_bbo_weight_indicator :: byte

record order_executed_wire =
  oew_type :: byte
  oew_timestamp_ns :: "byte list"
  oew_order_token :: "byte list"
  oew_executed_shares :: "byte list"
  oew_execution_price :: "byte list"
  oew_liquidity_flag :: byte
  oew_match_number :: "byte list"

record order_cancelled_wire =
  ocw_type :: byte
  ocw_timestamp_ns :: "byte list"
  ocw_order_token :: "byte list"
  ocw_decrement_shares :: "byte list"
  ocw_reason :: byte

record order_replaced_wire =
  orw_type :: byte
  orw_timestamp_ns :: "byte list"
  orw_replacement_order_token :: "byte list"
  orw_buy_sell :: byte
  orw_shares :: "byte list"
  orw_stock :: "byte list"
  orw_price :: "byte list"
  orw_time_in_force :: "byte list"
  orw_firm :: "byte list"
  orw_display :: byte
  orw_order_reference_number :: "byte list"
  orw_capacity :: byte
  orw_intermarket_sweep_eligibility :: byte
  orw_minimum_quantity :: "byte list"
  orw_cross_type :: byte
  orw_order_state :: byte
  orw_previous_order_token :: "byte list"
  orw_bbo_weight_indicator :: byte

record order_rejected_wire =
  ojw_type :: byte
  ojw_timestamp_ns :: "byte list"
  ojw_order_token :: "byte list"
  ojw_reason :: byte

record aiq_cancelled_wire =
  aqw_type :: byte
  aqw_timestamp_ns :: "byte list"
  aqw_order_token :: "byte list"
  aqw_decrement_shares :: "byte list"
  aqw_reason :: byte
  aqw_quantity_prevented_from_trading :: "byte list"
  aqw_execution_price :: "byte list"
  aqw_liquidity_flag :: byte

subsection \<open>Memory images\<close>

definition enter_order_image :: "enter_order_wire \<Rightarrow> byte list" where
  "enter_order_image w =
     [eow_type w] @ eow_order_token w @ [eow_buy_sell w] @ eow_shares w @ eow_stock w @
     eow_price w @ eow_time_in_force w @ eow_firm w @ [eow_display w] @ [eow_capacity w] @
     [eow_intermarket_sweep_eligibility w] @ eow_minimum_quantity w @ [eow_cross_type w] @
     [eow_customer_type w]"

definition replace_order_image :: "replace_order_wire \<Rightarrow> byte list" where
  "replace_order_image w =
     [row_type w] @ row_existing_order_token w @ row_replacement_order_token w @ row_shares w @
     row_price w @ row_time_in_force w @ [row_display w] @ [row_intermarket_sweep_eligibility w] @
     row_minimum_quantity w"

definition cancel_order_image :: "cancel_order_wire \<Rightarrow> byte list" where
  "cancel_order_image w =
     [cow_type w] @ cow_order_token w @ cow_shares w"

definition modify_order_image :: "modify_order_wire \<Rightarrow> byte list" where
  "modify_order_image w =
     [mow_type w] @ mow_order_token w @ [mow_buy_sell w] @ mow_shares w"

definition system_event_image :: "system_event_wire \<Rightarrow> byte list" where
  "system_event_image w =
     [sew_type w] @ sew_timestamp_ns w @ [sew_event_code w]"

definition order_accepted_image :: "order_accepted_wire \<Rightarrow> byte list" where
  "order_accepted_image w =
     [oaw_type w] @ oaw_timestamp_ns w @ oaw_order_token w @ [oaw_buy_sell w] @ oaw_shares w @
     oaw_stock w @ oaw_price w @ oaw_time_in_force w @ oaw_firm w @ [oaw_display w] @
     oaw_order_reference_number w @ [oaw_capacity w] @ [oaw_intermarket_sweep_eligibility w] @
     oaw_minimum_quantity w @ [oaw_cross_type w] @ [oaw_order_state w] @
     [oaw_bbo_weight_indicator w]"

definition order_executed_image :: "order_executed_wire \<Rightarrow> byte list" where
  "order_executed_image w =
     [oew_type w] @ oew_timestamp_ns w @ oew_order_token w @ oew_executed_shares w @
     oew_execution_price w @ [oew_liquidity_flag w] @ oew_match_number w"

definition order_cancelled_image :: "order_cancelled_wire \<Rightarrow> byte list" where
  "order_cancelled_image w =
     [ocw_type w] @ ocw_timestamp_ns w @ ocw_order_token w @ ocw_decrement_shares w @
     [ocw_reason w]"

definition order_replaced_image :: "order_replaced_wire \<Rightarrow> byte list" where
  "order_replaced_image w =
     [orw_type w] @ orw_timestamp_ns w @ orw_replacement_order_token w @ [orw_buy_sell w] @
     orw_shares w @ orw_stock w @ orw_price w @ orw_time_in_force w @ orw_firm w @
     [orw_display w] @ orw_order_reference_number w @ [orw_capacity w] @
     [orw_intermarket_sweep_eligibility w] @ orw_minimum_quantity w @ [orw_cross_type w] @
     [orw_order_state w] @ orw_previous_order_token w @ [orw_bbo_weight_indicator w]"

definition order_rejected_image :: "order_rejected_wire \<Rightarrow> byte list" where
  "order_rejected_image w =
     [ojw_type w] @ ojw_timestamp_ns w @ ojw_order_token w @ [ojw_reason w]"

definition aiq_cancelled_image :: "aiq_cancelled_wire \<Rightarrow> byte list" where
  "aiq_cancelled_image w =
     [aqw_type w] @ aqw_timestamp_ns w @ aqw_order_token w @ aqw_decrement_shares w @
     [aqw_reason w] @ aqw_quantity_prevented_from_trading w @ aqw_execution_price w @
     [aqw_liquidity_flag w]"

subsection \<open>Sizes, as asserted in the code\<close>

definition sizeof_enter_order_wire :: nat where "sizeof_enter_order_wire = 49"
definition sizeof_replace_order_wire :: nat where "sizeof_replace_order_wire = 47"
definition sizeof_cancel_order_wire :: nat where "sizeof_cancel_order_wire = 19"
definition sizeof_modify_order_wire :: nat where "sizeof_modify_order_wire = 20"
definition sizeof_system_event_wire :: nat where "sizeof_system_event_wire = 10"
definition sizeof_order_accepted_wire :: nat where "sizeof_order_accepted_wire = 66"
definition sizeof_order_executed_wire :: nat where "sizeof_order_executed_wire = 40"
definition sizeof_order_cancelled_wire :: nat where "sizeof_order_cancelled_wire = 28"
definition sizeof_order_replaced_wire :: nat where "sizeof_order_replaced_wire = 80"
definition sizeof_order_rejected_wire :: nat where "sizeof_order_rejected_wire = 24"
definition sizeof_aiq_cancelled_wire :: nat where "sizeof_aiq_cancelled_wire = 37"

section \<open>Tokens\<close>

type_synonym token = "byte list"

definition token_to_string_view :: "token \<Rightarrow> byte list" where
  "token_to_string_view tok = takeWhile (\<lambda>c. c \<noteq> 0x20 \<and> c \<noteq> 0) tok"

definition make_token :: "byte list \<Rightarrow> token" where
  "make_token s = (let len = min (length s) 14 in take len s @ drop len (replicate 14 0x20))"

text \<open>The text \<open>snprintf\<close> prints for \<open>%014llu\<close>: decimal digits, zero-padded to fourteen. The buffer
  of 16 bytes keeps fifteen of them, and the token the first fourteen.\<close>

fun decimal :: "nat \<Rightarrow> byte list" where
  "decimal n = (if n < 10 then [0x30 + of_nat n] else decimal (n div 10) @ [0x30 + of_nat (n mod 10)])"

declare decimal.simps [simp del]

definition printf_014 :: "nat \<Rightarrow> byte list" where
  "printf_014 n = replicate (14 - length (decimal n)) 0x30 @ decimal n"

definition token_from_id :: "u64 \<Rightarrow> token" where
  "token_from_id ref =
     (let text = printf_014 (unat ref);
          buf = take 15 text;
          n = length text
      in take (min n 14) buf @ drop (min n 14) (replicate 14 0x20))"

definition id_from_token :: "token \<Rightarrow> u64" where
  "id_from_token tok =
     foldl (\<lambda>v c. if 0x30 \<le> c \<and> c \<le> 0x39 then v * 10 + ucast (c - 0x30) else v) 0 tok"

section \<open>Messages and encoders\<close>

record enter_order_msg =
  em_token :: token
  em_side :: side
  em_shares :: u32
  em_stock :: symbol
  em_price_ticks :: int
  em_tif :: u32
  em_display :: byte

record replace_order_msg =
  rm_existing_token :: token
  rm_replacement_token :: token
  rm_shares :: u32
  rm_price_ticks :: int
  rm_tif :: u32
  rm_display :: byte

record cancel_order_msg =
  cm_token :: token
  cm_shares :: u32

definition encode_enter_order :: "bool \<Rightarrow> enter_order_msg \<Rightarrow> enter_order_wire" where
  "encode_enter_order le msg = \<lparr>
     eow_type = 0x4F, eow_order_token = take 14 (em_token msg),
     eow_buy_sell = to_wire (em_side msg), eow_shares = store_be32 le (em_shares msg),
     eow_stock = take 8 (em_stock msg),
     eow_price = store_be32 le (word_of_int (em_price_ticks msg)),
     eow_time_in_force = store_be32 le (em_tif msg), eow_firm = replicate 4 0x20,
     eow_display = em_display msg, eow_capacity = 0x50,
     eow_intermarket_sweep_eligibility = 0x4E, eow_minimum_quantity = store_be32 le 0,
     eow_cross_type = 0x4E, eow_customer_type = 0x4E \<rparr>"

definition encode_cancel_order :: "bool \<Rightarrow> cancel_order_msg \<Rightarrow> cancel_order_wire" where
  "encode_cancel_order le msg = \<lparr>
     cow_type = 0x58, cow_order_token = take 14 (cm_token msg),
     cow_shares = store_be32 le (cm_shares msg) \<rparr>"

definition encode_order_accepted :: "bool \<Rightarrow> u64 \<Rightarrow> token \<Rightarrow> side \<Rightarrow> u32 \<Rightarrow> symbol \<Rightarrow> int \<Rightarrow> u64 \<Rightarrow> order_accepted_wire" where
  "encode_order_accepted le ts tok sd shares stock ticks ref = \<lparr>
     oaw_type = 0x41, oaw_timestamp_ns = store_be64 le ts, oaw_order_token = take 14 tok,
     oaw_buy_sell = to_wire sd, oaw_shares = store_be32 le shares, oaw_stock = take 8 stock,
     oaw_price = store_be32 le (word_of_int ticks), oaw_time_in_force = store_be32 le 0,
     oaw_firm = replicate 4 0x20, oaw_display = 0x59,
     oaw_order_reference_number = store_be64 le ref, oaw_capacity = 0x50,
     oaw_intermarket_sweep_eligibility = 0x4E, oaw_minimum_quantity = store_be32 le 0,
     oaw_cross_type = 0x4E, oaw_order_state = 0x4C, oaw_bbo_weight_indicator = 0x20 \<rparr>"

definition encode_executed_report :: "bool \<Rightarrow> u64 \<Rightarrow> token \<Rightarrow> u32 \<Rightarrow> int \<Rightarrow> byte \<Rightarrow> u64 \<Rightarrow> order_executed_wire" where
  "encode_executed_report le ts tok shares ticks liquidity match = \<lparr>
     oew_type = 0x45, oew_timestamp_ns = store_be64 le ts, oew_order_token = take 14 tok,
     oew_executed_shares = store_be32 le shares,
     oew_execution_price = store_be32 le (word_of_int ticks), oew_liquidity_flag = liquidity,
     oew_match_number = store_be64 le match \<rparr>"

definition encode_order_cancelled :: "bool \<Rightarrow> u64 \<Rightarrow> token \<Rightarrow> u32 \<Rightarrow> byte \<Rightarrow> order_cancelled_wire" where
  "encode_order_cancelled le ts tok shares reason = \<lparr>
     ocw_type = 0x43, ocw_timestamp_ns = store_be64 le ts, ocw_order_token = take 14 tok,
     ocw_decrement_shares = store_be32 le shares, ocw_reason = reason \<rparr>"

definition encode_order_rejected :: "bool \<Rightarrow> u64 \<Rightarrow> token \<Rightarrow> byte \<Rightarrow> order_rejected_wire" where
  "encode_order_rejected le ts tok reason = \<lparr>
     ojw_type = 0x4A, ojw_timestamp_ns = store_be64 le ts, ojw_order_token = take 14 tok,
     ojw_reason = reason \<rparr>"

definition encode_replace_order :: "bool \<Rightarrow> replace_order_msg \<Rightarrow> replace_order_wire" where
  "encode_replace_order le msg = \<lparr>
     row_type = 0x55, row_existing_order_token = take 14 (rm_existing_token msg),
     row_replacement_order_token = take 14 (rm_replacement_token msg),
     row_shares = store_be32 le (rm_shares msg),
     row_price = store_be32 le (word_of_int (rm_price_ticks msg)),
     row_time_in_force = store_be32 le (rm_tif msg), row_display = rm_display msg,
     row_intermarket_sweep_eligibility = 0x4E, row_minimum_quantity = store_be32 le 0 \<rparr>"

definition encode_order_replaced :: "bool \<Rightarrow> u64 \<Rightarrow> token \<Rightarrow> side \<Rightarrow> u32 \<Rightarrow> symbol \<Rightarrow> int \<Rightarrow> u64 \<Rightarrow> token \<Rightarrow> order_replaced_wire" where
  "encode_order_replaced le ts new_tok sd shares stock ticks ref old_tok = \<lparr>
     orw_type = 0x55, orw_timestamp_ns = store_be64 le ts,
     orw_replacement_order_token = take 14 new_tok, orw_buy_sell = to_wire sd,
     orw_shares = store_be32 le shares, orw_stock = take 8 stock,
     orw_price = store_be32 le (word_of_int ticks), orw_time_in_force = store_be32 le 99999,
     orw_firm = replicate 4 0x20, orw_display = 0x59,
     orw_order_reference_number = store_be64 le ref, orw_capacity = 0x4F,
     orw_intermarket_sweep_eligibility = 0x4E, orw_minimum_quantity = store_be32 le 0,
     orw_cross_type = 0x4E, orw_order_state = 0x4C, orw_previous_order_token = take 14 old_tok,
     orw_bbo_weight_indicator = 0x20 \<rparr>"

definition encode_aiq_cancelled :: "bool \<Rightarrow> u64 \<Rightarrow> token \<Rightarrow> u32 \<Rightarrow> byte \<Rightarrow> u32 \<Rightarrow> int \<Rightarrow> byte \<Rightarrow> aiq_cancelled_wire" where
  "encode_aiq_cancelled le ts tok decrement reason prevented ticks liq = \<lparr>
     aqw_type = 0x44, aqw_timestamp_ns = store_be64 le ts, aqw_order_token = take 14 tok,
     aqw_decrement_shares = store_be32 le decrement, aqw_reason = reason,
     aqw_quantity_prevented_from_trading = store_be32 le prevented,
     aqw_execution_price = store_be32 le (word_of_int ticks), aqw_liquidity_flag = liq \<rparr>"

section \<open>Frame lengths\<close>

definition inbound_frame_length :: "byte \<Rightarrow> nat" where
  "inbound_frame_length t =
     (if t = 0x4F then sizeof_enter_order_wire
      else if t = 0x55 then sizeof_replace_order_wire
      else if t = 0x58 then sizeof_cancel_order_wire
      else if t = 0x4D then sizeof_modify_order_wire
      else 0)"

definition outbound_frame_length :: "byte \<Rightarrow> nat" where
  "outbound_frame_length t =
     (if t = 0x53 then sizeof_system_event_wire
      else if t = 0x41 then sizeof_order_accepted_wire
      else if t = 0x45 then sizeof_order_executed_wire
      else if t = 0x43 then sizeof_order_cancelled_wire
      else if t = 0x55 then sizeof_order_replaced_wire
      else if t = 0x44 then sizeof_aiq_cancelled_wire
      else if t = 0x4A then sizeof_order_rejected_wire
      else 0)"

lemmas sizeof_defs = sizeof_enter_order_wire_def sizeof_replace_order_wire_def sizeof_cancel_order_wire_def sizeof_modify_order_wire_def sizeof_system_event_wire_def sizeof_order_accepted_wire_def sizeof_order_executed_wire_def sizeof_order_cancelled_wire_def sizeof_order_replaced_wire_def sizeof_order_rejected_wire_def sizeof_aiq_cancelled_wire_def

lemmas image_defs = enter_order_image_def replace_order_image_def cancel_order_image_def modify_order_image_def system_event_image_def order_accepted_image_def order_executed_image_def order_cancelled_image_def order_replaced_image_def order_rejected_image_def aiq_cancelled_image_def

lemmas encode_defs = encode_enter_order_def encode_cancel_order_def encode_order_accepted_def
  encode_executed_report_def encode_order_cancelled_def encode_order_rejected_def encode_replace_order_def
  encode_order_replaced_def encode_aiq_cancelled_def

end
