(* ===== verification/FlatTable.thy ===== *)
theory FlatTable
  imports ProbeTable Ouch
begin

text \<open>
  The gateway's order table, \<open>FlatOrderTable\<close> of \<open>include/mog/OUCH.hpp\<close>: open addressing with a
  bit-mixing hash, linear probing, backward-shift deletion and doubling. The three operations share
  one probing loop. \<open>grow\<close> and \<open>insert_or_assign\<close> call each other in the code; here the depth of
  calls is an argument, and two are enough because the doubled table is never half full while it is
  refilled.
\<close>

section \<open>State\<close>

record order_meta =
  om_token :: token
  om_shares :: u32
  om_price_ticks :: int
  om_side :: side
  om_stock :: symbol

definition default_meta :: order_meta where
  "default_meta = \<lparr> om_token = replicate 14 0, om_shares = 0, om_price_ticks = 0, om_side = Buy,
     om_stock = replicate 8 0x20 \<rparr>"

record flat_table =
  ft_slots :: "order_meta entry list"
  ft_mask :: nat
  ft_size :: nat

function flat_pow2 :: "nat \<Rightarrow> nat \<Rightarrow> nat" where
  "flat_pow2 cap k = (if 2 ^ k < cap then flat_pow2 cap (k + 1) else 2 ^ k)"
  by pat_completeness auto
termination
proof (relation "measure (\<lambda>(cap, k). cap - k)")
  fix cap k :: nat
  assume "2 ^ k < cap"
  moreover have "k < 2 ^ k" by (rule less_exp)
  ultimately have "k < cap" by (rule less_trans[rotated])
  then show "((cap, k + 1), (cap, k)) \<in> measure (\<lambda>(cap, k). cap - k)" by simp
qed simp

declare flat_pow2.simps [simp del]

text \<open>The constructor doubles from \<open>64 = 2 ^ 6\<close>.\<close>

definition flat_new :: "nat \<Rightarrow> flat_table" where
  "flat_new cap = (let pow2 = flat_pow2 cap 6
     in \<lparr> ft_slots = replicate pow2 (0, default_meta), ft_mask = pow2 - 1, ft_size = 0 \<rparr>)"

section \<open>Operations\<close>

definition flat_hash :: "u64 \<Rightarrow> u64" where
  "flat_hash x =
     (let x = x XOR drop_bit 30 x;
          x = x * 0xbf58476d1ce4e5b9;
          x = x XOR drop_bit 27 x;
          x = x * 0x94d049bb133111eb
      in x XOR drop_bit 31 x)"

definition flat_home :: "nat \<Rightarrow> u64 \<Rightarrow> nat" where
  "flat_home msk ref = unat (flat_hash ref) AND msk"

datatype probe_hit = Found nat | Vacant nat | Exhausted

text \<open>The probes \<open>i, i + 1, \<dots>\<close> of the loop \<open>for (i = 0; i <= mask; ++i)\<close>.\<close>

fun flat_probe :: "order_meta entry list \<Rightarrow> nat \<Rightarrow> u64 \<Rightarrow> nat \<Rightarrow> nat list \<Rightarrow> probe_hit" where
  "flat_probe slots msk ref idx [] = Exhausted"
| "flat_probe slots msk ref idx (i # is) =
     (let pos = (idx + i) AND msk
      in if fst (slots ! pos) = ref then Found pos
         else if fst (slots ! pos) = 0 then Vacant pos
         else flat_probe slots msk ref idx is)"

definition flat_find :: "flat_table \<Rightarrow> u64 \<Rightarrow> order_meta option" where
  "flat_find t ref =
     (if ref = 0 then None
      else case flat_probe (ft_slots t) (ft_mask t) ref (flat_home (ft_mask t) ref) [0..<ft_mask t + 1] of
             Found pos \<Rightarrow> Some (snd (ft_slots t ! pos))
           | _ \<Rightarrow> None)"

text \<open>The loop of \<open>insert_or_assign\<close>, after the table has grown if it had to.\<close>

definition flat_place :: "u64 \<Rightarrow> order_meta \<Rightarrow> flat_table \<Rightarrow> flat_table" where
  "flat_place ref m t =
     (case flat_probe (ft_slots t) (ft_mask t) ref (flat_home (ft_mask t) ref) [0..<ft_mask t + 1] of
        Found pos \<Rightarrow> t\<lparr> ft_slots := (ft_slots t)[pos := (fst (ft_slots t ! pos), m)] \<rparr>
      | Vacant pos \<Rightarrow> t\<lparr> ft_slots := (ft_slots t)[pos := (ref, m)], ft_size := ft_size t + 1 \<rparr>
      | Exhausted \<Rightarrow> t)"

fun fold_option :: "('a \<Rightarrow> 's \<Rightarrow> 's option) \<Rightarrow> 'a list \<Rightarrow> 's \<Rightarrow> 's option" where
  "fold_option f [] s = Some s"
| "fold_option f (x # xs) s = (case f x s of None \<Rightarrow> None | Some s \<Rightarrow> fold_option f xs s)"

definition flat_grow :: "(u64 \<Rightarrow> order_meta \<Rightarrow> flat_table \<Rightarrow> flat_table option) \<Rightarrow> flat_table \<Rightarrow> flat_table option" where
  "flat_grow ins t =
     (let old = ft_slots t;
          slots = replicate (length old * 2) (0, default_meta);
          t = t\<lparr> ft_slots := slots, ft_mask := length slots - 1, ft_size := 0 \<rparr>
      in fold_option (\<lambda>(ref, m) t. if ref \<noteq> 0 then ins ref m t else Some t) old t)"

primrec flat_insert :: "nat \<Rightarrow> u64 \<Rightarrow> order_meta \<Rightarrow> flat_table \<Rightarrow> flat_table option" where
  "flat_insert 0 ref m t = None"
| "flat_insert (Suc depth) ref m t =
     (if ref = 0 then Some t
      else do {
        t \<leftarrow> (if ft_size t * 2 \<ge> length (ft_slots t) then flat_grow (flat_insert depth) t else Some t);
        Some (flat_place ref m t)
      })"

definition insert_or_assign :: "u64 \<Rightarrow> order_meta \<Rightarrow> flat_table \<Rightarrow> flat_table option" where
  "insert_or_assign ref m t = flat_insert 2 ref m t"

definition flat_erase :: "u64 \<Rightarrow> flat_table \<Rightarrow> flat_table option" where
  "flat_erase ref t =
     (if ref = 0 then Some t
      else case flat_probe (ft_slots t) (ft_mask t) ref (flat_home (ft_mask t) ref) [0..<ft_mask t + 1] of
             Found pos \<Rightarrow> do {
               slots \<leftarrow> shift_back (flat_home (ft_mask t)) (ft_mask t + 1) (ft_slots t) pos pos;
               Some (t\<lparr> ft_slots := slots, ft_size := ft_size t - 1 \<rparr>)
             }
           | _ \<Rightarrow> Some t)"

section \<open>Probing\<close>

definition flat_inv :: "flat_table \<Rightarrow> bool" where
  "flat_inv t \<longleftrightarrow> (\<exists>k\<ge>6. ft_mask t + 1 = 2 ^ k) \<and>
     tbl_inv (flat_home (ft_mask t)) (ft_mask t + 1) (ft_slots t) \<and>
     ft_size t = occupied (ft_slots t) \<and> ft_size t * 2 \<le> length (ft_slots t)"

definition flat_map :: "flat_table \<Rightarrow> u64 \<rightharpoonup> order_meta" where
  "flat_map t = tbl_map (ft_slots t)"

lemma flat_home_lt: "flat_home (2 ^ k - 1) ref < 2 ^ k"
  by (simp add: flat_home_def and_pow2_minus_1[unfolded One_nat_def])

interpretation flp: probing "flat_home (2 ^ k - 1)" "2 ^ k" for k :: nat
  by unfold_locales (rule flat_home_lt, rule exI, rule refl)

lemma flat_invE:
  assumes "flat_inv t"
  obtains k where "k \<ge> 6" "ft_mask t = 2 ^ k - 1" "ft_mask t + 1 = 2 ^ k" "length (ft_slots t) = 2 ^ k"
    "tbl_inv (flat_home (2 ^ k - 1)) (2 ^ k) (ft_slots t)" "ft_size t = occupied (ft_slots t)"
    "ft_size t * 2 \<le> 2 ^ k"
proof -
  from assms obtain k where k: "k \<ge> 6" "ft_mask t + 1 = 2 ^ k" by (auto simp: flat_inv_def)
  then have m: "ft_mask t = 2 ^ k - 1" by (metis add_diff_cancel_right')
  have "tbl_inv (flat_home (2 ^ k - 1)) (2 ^ k) (ft_slots t)" using assms k(2) m by (simp add: flat_inv_def)
  with that[of k] k m assms show ?thesis by (auto simp: flat_inv_def tbl_inv_def)
qed

text \<open>The probing loop finds the slot the table invariant promises.\<close>

lemma flat_probe_walk:
  assumes "s < 2 ^ k" and h: "h < 2 ^ k" and "i \<le> cdist (2 ^ k) h s"
    and "\<forall>q<2 ^ k. cdist (2 ^ k) h q < cdist (2 ^ k) h s \<longrightarrow> occ es q \<and> fst (es ! q) \<noteq> ref"
    and s: "fst (es ! s) = ref \<or> \<not> occ es s" and "ref \<noteq> 0"
  shows "flat_probe es (2 ^ k - 1) ref h [i..<2 ^ k] = (if fst (es ! s) = ref then Found s else Vacant s)"
  using assms(3)
proof (induction "cdist (2 ^ k) h s - i" arbitrary: i)
  case 0
  then have i: "i = cdist (2 ^ k) h s" by simp
  then have lt: "i < 2 ^ k" using assms(1) h by (simp add: flp.cdist_lt)
  have "(h + i) mod 2 ^ k = s" using i assms(1) h by (auto simp: cdist_def)
  then have "(h + i) AND (2 ^ k - 1) = s" by (simp add: and_pow2_minus_1[unfolded One_nat_def])
  then show ?case using s assms(6) lt by (subst upt_conv_Cons) (auto simp: occ_def Let_def)
next
  case (Suc n)
  then have "i < cdist (2 ^ k) h s" by simp
  then have lt: "i < 2 ^ k" using flp.cdist_lt[OF h assms(1)] by simp
  define q where "q = (h + i) mod 2 ^ k"
  have q: "q < 2 ^ k" "cdist (2 ^ k) h q = i"
    using h lt by (auto simp: q_def cdist_def mod_if)
  then have "occ es q \<and> fst (es ! q) \<noteq> ref" using assms(4) \<open>i < cdist (2 ^ k) h s\<close> by simp
  moreover have "(h + i) AND (2 ^ k - 1) = q" by (simp add: q_def and_pow2_minus_1[unfolded One_nat_def])
  ultimately have "flat_probe es (2 ^ k - 1) ref h [i..<2 ^ k] = flat_probe es (2 ^ k - 1) ref h [i + 1..<2 ^ k]"
    using lt by (subst upt_conv_Cons) (auto simp: occ_def Let_def)
  also have "\<dots> = (if fst (es ! s) = ref then Found s else Vacant s)"
    by (rule Suc.hyps(1)) (use Suc in simp_all)
  finally show ?case .
qed

lemma flat_probe_correct:
  assumes "tbl_inv (flat_home (2 ^ k - 1)) (2 ^ k) es" and "ref \<noteq> 0"
  shows "\<exists>s<2 ^ k. flat_probe es (2 ^ k - 1) ref (flat_home (2 ^ k - 1) ref) [0..<2 ^ k] =
      (if tbl_map es ref = None then Vacant s else Found s) \<and>
     (tbl_map es ref = None \<longrightarrow> \<not> occ es s) \<and>
     (tbl_map es ref \<noteq> None \<longrightarrow> es ! s = (ref, the (tbl_map es ref))) \<and>
     (\<forall>q<2 ^ k. cdist (2 ^ k) (flat_home (2 ^ k - 1) ref) q < cdist (2 ^ k) (flat_home (2 ^ k - 1) ref) s \<longrightarrow> occ es q)"
proof -
  from flp.probe_scan_correct[OF assms] obtain s where s: "s < 2 ^ k"
    "tbl_map es ref = None \<longrightarrow> \<not> occ es s" "tbl_map es ref \<noteq> None \<longrightarrow> fst (es ! s) = ref"
    "\<forall>q<2 ^ k. cdist (2 ^ k) (flat_home (2 ^ k - 1) ref) q < cdist (2 ^ k) (flat_home (2 ^ k - 1) ref) s \<longrightarrow>
       occ es q \<and> fst (es ! q) \<noteq> ref" by (elim exE conjE) (rule that, assumption+)
  have hit: "fst (es ! s) = ref \<longleftrightarrow> tbl_map es ref \<noteq> None" using s(2,3) assms(2) unfolding occ_def by metis
  have stop: "fst (es ! s) = ref \<or> \<not> occ es s" using s(2,3) by blast
  have pr: "flat_probe es (2 ^ k - 1) ref (flat_home (2 ^ k - 1) ref) [0..<2 ^ k] =
      (if fst (es ! s) = ref then Found s else Vacant s)"
    by (rule flat_probe_walk[OF s(1) flat_home_lt le0 s(4) stop assms(2)])
  have at: "es ! s = (ref, the (tbl_map es ref))" if "tbl_map es ref \<noteq> None"
  proof -
    have "length es = 2 ^ k" "keys_distinct (2 ^ k) es {}" using assms(1) by (auto simp: tbl_inv_def)
    from tbl_map_Some[OF this assms(2)] s(1,3) that show ?thesis by (metis option.sel prod.collapse)
  qed
  have "flat_probe es (2 ^ k - 1) ref (flat_home (2 ^ k - 1) ref) [0..<2 ^ k] =
      (if tbl_map es ref = None then Vacant s else Found s)"
    using pr hit by (cases "tbl_map es ref = None") (simp_all only: if_True if_False simp_thms)
  with s(1,2,4) at show ?thesis by meson
qed

text \<open>Overwriting the value of a present key.\<close>

lemma assign_correct:
  assumes inv: "tbl_inv home cap es" and s: "s < cap" "es ! s = (k, v0)" and k: "k \<noteq> 0"
  shows "tbl_inv home cap (es[s := (k, v)])" "tbl_map (es[s := (k, v)]) = (tbl_map es)(k \<mapsto> v)"
    "occupied (es[s := (k, v)]) = occupied es"
proof -
  let ?es = "es[s := (k, v)]"
  have len: "length es = cap" and kd: "keys_distinct cap es {}" using inv by (simp_all add: tbl_inv_def)
  have f: "fst (?es ! p) = fst (es ! p)" for p using s len by (cases "p = s") (auto simp: nth_list_update_if)
  then have o: "occ ?es p = occ es p" for p by (simp add: occ_def)
  have kd': "keys_distinct cap ?es {}" using kd by (simp add: keys_distinct_def f o)
  then show "tbl_inv home cap ?es" using inv by (simp add: tbl_inv_def chain_ok_def f o)
  have uniq: "p = s" if "p < cap" "fst (es ! p) = k" for p
    using kd that s k by (auto simp: keys_distinct_def occ_def)
  have "tbl_map ?es r = ((tbl_map es)(k \<mapsto> v)) r" for r
  proof (cases "r = 0")
    case False
    show ?thesis
    proof (rule option_eq_all)
      fix w
      have "tbl_map ?es r = Some w \<longleftrightarrow> (\<exists>p<cap. ?es ! p = (r, w))"
        using tbl_map_Some[OF _ kd' False] len by simp
      also have "\<dots> \<longleftrightarrow> (if r = k then w = v else \<exists>p<cap. es ! p = (r, w))"
      proof (cases "r = k")
        case True
        have "p = s" if "p < cap" "?es ! p = (k, w)" for p
          using uniq[OF that(1)] f[of p] that(2) by simp
        moreover have "?es ! s = (k, v)" using s len by simp
        ultimately show ?thesis using True s(1) by (metis prod.inject)
      next
        case r: False
        have "?es ! p = (r, w) \<longleftrightarrow> es ! p = (r, w)" if "p < cap" for p
          using that r s len by (cases "p = s") auto
        then show ?thesis using r by auto
      qed
      also have "\<dots> \<longleftrightarrow> ((tbl_map es)(k \<mapsto> v)) r = Some w"
        using tbl_map_Some[OF len kd False] by auto
      finally show "tbl_map ?es r = Some w \<longleftrightarrow> ((tbl_map es)(k \<mapsto> v)) r = Some w" .
    qed
  qed (use k in simp)
  then show "tbl_map ?es = (tbl_map es)(k \<mapsto> v)" by (rule ext)
  show "occupied ?es = occupied es" using occupied_overwrite[of s es "(k, v)"] s k len by simp
qed

lemma flat_probe_inv:
  assumes "flat_inv t" and "ref \<noteq> 0"
  shows "\<exists>s<ft_mask t + 1. flat_probe (ft_slots t) (ft_mask t) ref (flat_home (ft_mask t) ref) [0..<ft_mask t + 1] =
      (if flat_map t ref = None then Vacant s else Found s) \<and>
     (flat_map t ref = None \<longrightarrow> \<not> occ (ft_slots t) s) \<and>
     (flat_map t ref \<noteq> None \<longrightarrow> ft_slots t ! s = (ref, the (flat_map t ref))) \<and>
     (\<forall>q<ft_mask t + 1. cdist (ft_mask t + 1) (flat_home (ft_mask t) ref) q <
        cdist (ft_mask t + 1) (flat_home (ft_mask t) ref) s \<longrightarrow> occ (ft_slots t) q)"
proof -
  from assms(1) obtain k where k: "ft_mask t = 2 ^ k - 1" "ft_mask t + 1 = 2 ^ k"
    "tbl_inv (flat_home (2 ^ k - 1)) (2 ^ k) (ft_slots t)" by (rule flat_invE)
  show ?thesis unfolding k(2) unfolding k(1) flat_map_def by (rule flat_probe_correct[OF k(3) assms(2)])
qed

lemma flat_find_map:
  assumes "flat_inv t"
  shows "flat_find t ref = flat_map t ref"
proof (cases "ref = 0")
  case False
  from flat_probe_inv[OF assms False] show ?thesis
    using False by (cases "flat_map t ref") (auto simp: flat_find_def simp del: upt_Suc)
qed (simp add: flat_find_def flat_map_def)

lemma slots_length: "flat_inv t \<Longrightarrow> length (ft_slots t) = ft_mask t + 1"
  by (auto elim: flat_invE)

text \<open>Assigning below half load keeps the invariant and updates one reference.\<close>

lemma flat_place_correct:
  assumes inv: "flat_inv t" and ref: "ref \<noteq> 0" and load: "ft_size t * 2 < length (ft_slots t)"
  shows "flat_inv (flat_place ref m t) \<and> flat_map (flat_place ref m t) = (flat_map t)(ref \<mapsto> m) \<and>
     ft_mask (flat_place ref m t) = ft_mask t \<and>
     ft_size (flat_place ref m t) = (if flat_map t ref = None then ft_size t + 1 else ft_size t)"
proof -
  note len = slots_length[OF inv]
  from inv obtain k where k: "k \<ge> 6" "ft_mask t = 2 ^ k - 1" "ft_mask t + 1 = 2 ^ k" "length (ft_slots t) = 2 ^ k"
    "tbl_inv (flat_home (2 ^ k - 1)) (2 ^ k) (ft_slots t)" "ft_size t = occupied (ft_slots t)"
    by (rule flat_invE)
  from flat_probe_inv[OF inv ref] obtain s where s: "s < ft_mask t + 1"
    "flat_probe (ft_slots t) (ft_mask t) ref (flat_home (ft_mask t) ref) [0..<ft_mask t + 1] =
      (if flat_map t ref = None then Vacant s else Found s)"
    "flat_map t ref = None \<Longrightarrow> \<not> occ (ft_slots t) s"
    "flat_map t ref \<noteq> None \<Longrightarrow> ft_slots t ! s = (ref, the (flat_map t ref))"
    "\<forall>q<ft_mask t + 1. cdist (ft_mask t + 1) (flat_home (ft_mask t) ref) q <
        cdist (ft_mask t + 1) (flat_home (ft_mask t) ref) s \<longrightarrow> occ (ft_slots t) q" by auto
  let ?es = "(ft_slots t)[s := (ref, m)]"
  have sl: "s < length (ft_slots t)" using s(1) len by simp
  show ?thesis
  proof (cases "flat_map t ref")
    case None
    then have vac: "\<not> occ (ft_slots t) s" "tbl_map (ft_slots t) ref = None" using s(3) by (simp_all add: flat_map_def)
    have e: "flat_place ref m t = t\<lparr> ft_slots := ?es, ft_size := ft_size t + 1 \<rparr>"
      using s(2) None by (simp add: flat_place_def)
    have "(2::nat) ^ 6 \<le> 2 ^ k" using k(1) by (intro power_increasing) auto
    then have "occupied (ft_slots t) + 1 < 2 ^ k" using load k(4,6) by simp
    have half: "(occupied (ft_slots t) + 1) * 2 \<le> 2 ^ k" using load k(1,4,6) by (cases k) auto
    from \<open>occupied (ft_slots t) + 1 < 2 ^ k\<close> have room: "\<exists>p<2 ^ k. p \<noteq> s \<and> \<not> occ (ft_slots t) p" by (rule flp.room_of_load[OF k(4)])
    from flp.insert_correct[OF k(5) ref vac(2) _ vac(1) _ room, of m] s(1,5) k(2,3)
    have "tbl_inv (flat_home (2 ^ k - 1)) (2 ^ k) ?es" "tbl_map ?es = (tbl_map (ft_slots t))(ref \<mapsto> m)" by auto
    moreover have "occupied ?es = occupied (ft_slots t) + 1" by (rule flp.occupied_insert[OF sl vac(1) ref])
    ultimately show ?thesis using e None k half by (auto simp: flat_inv_def flat_map_def)
  next
    case (Some m0)
    then have at: "ft_slots t ! s = (ref, m0)" using s(4) by simp
    have e: "flat_place ref m t = t\<lparr> ft_slots := ?es \<rparr>" using s(2) Some at by (simp add: flat_place_def)
    from assign_correct[OF k(5) _ at ref, of m] s(1) k
    have "tbl_inv (flat_home (2 ^ k - 1)) (2 ^ k) ?es" "tbl_map ?es = (tbl_map (ft_slots t))(ref \<mapsto> m)"
      "occupied ?es = occupied (ft_slots t)" by auto
    then show ?thesis using e Some k inv by (auto simp: flat_inv_def flat_map_def)
  qed
qed

section \<open>Growing, erasing\<close>

lemma tbl_map_fold:
  assumes "length es = cap" and "keys_distinct cap es {}"
  shows "fold (\<lambda>(r, m) f. if r \<noteq> 0 then f(r \<mapsto> m) else f) es Map.empty = tbl_map es"
proof -
  have d: "distinct (map fst (filter (\<lambda>e. fst e \<noteq> 0) es))"
    using assms
  proof (induction es arbitrary: cap)
    case (Cons e es)
    have kd: "p = q" if "p < length (e # es)" "q < length (e # es)" "fst ((e # es) ! p) \<noteq> 0"
      "fst ((e # es) ! p) = fst ((e # es) ! q)" for p q
      using Cons.prems that by (auto simp: keys_distinct_def occ_def)
    have "keys_distinct (length es) es {}"
      unfolding keys_distinct_def occ_def using kd[of "Suc _" "Suc _"] by fastforce
    then have IH: "distinct (map fst (filter (\<lambda>e. fst e \<noteq> 0) es))" using Cons.IH by simp
    have "fst e \<notin> fst ` set es" if "fst e \<noteq> 0"
      using kd[of 0 "Suc _"] that by (force simp: in_set_conv_nth)
    then show ?case using IH by auto
  qed simp
  have fold_filter: "fold (\<lambda>(r, m) f. if r \<noteq> 0 then f(r \<mapsto> m) else f) es g =
      g ++ map_of (rev (filter (\<lambda>e. fst e \<noteq> 0) es))" for g
    by (induction es arbitrary: g) (auto simp: map_add_def fun_eq_iff split: option.splits)
  have "map_of (rev (filter (\<lambda>e. fst e \<noteq> 0) es)) = map_of (filter (\<lambda>e. fst e \<noteq> 0) es)"
    using d by (subst map_of_inject_set) (simp_all add: rev_map[symmetric])
  moreover have "map_of (filter (\<lambda>e. fst e \<noteq> 0) es) r = tbl_map es r" for r
    by (induction es) (auto simp: tbl_map_def)
  ultimately show ?thesis using fold_filter[of Map.empty] by (simp add: fun_eq_iff)
qed


definition load_ok :: "flat_table \<Rightarrow> bool" where
  "load_ok t \<longleftrightarrow> ft_size t * 2 < length (ft_slots t)"

lemma flat_insert_simple:
  assumes "flat_inv t" and "ref \<noteq> 0" and "load_ok t"
  shows "flat_insert (Suc d) ref m t = Some (flat_place ref m t)"
  using assms by (simp add: load_ok_def)

lemma occupied_le: "occupied es \<le> length es"
  by (simp add: occupied_def)

lemma occupied_Cons: "occupied (e # es) = (if fst e \<noteq> 0 then 1 else 0) + occupied es"
  by (simp add: occupied_def)

text \<open>Refilling: with room for everything that is left, every insertion is a plain one.\<close>

lemma refill_correct:
  assumes "flat_inv t" and "(ft_size t + occupied es) * 2 \<le> length (ft_slots t)"
  shows "\<exists>t'. fold_option (\<lambda>(ref, m) t. if ref \<noteq> 0 then flat_insert (Suc d) ref m t else Some t) es t = Some t' \<and>
     flat_inv t' \<and> ft_mask t' = ft_mask t \<and> ft_size t' \<le> ft_size t + occupied es \<and>
     flat_map t' = fold (\<lambda>(r, m) f. if r \<noteq> 0 then f(r \<mapsto> m) else f) es (flat_map t)"
  using assms
proof (induction es arbitrary: t)
  case (Cons e es)
  obtain r m where e: "e = (r, m)" by (cases e)
  show ?case
  proof (cases "r = 0")
    case True
    then show ?thesis using Cons e by (simp add: occupied_Cons)
  next
    case False
    have o: "occupied (e # es) = occupied es + 1" using False e by (simp add: occupied_Cons)
    have load: "ft_size t * 2 < length (ft_slots t)" using Cons.prems(2) o by simp
    note p = flat_place_correct[OF Cons.prems(1) False load, of m]
    have len: "length (ft_slots (flat_place r m t)) = length (ft_slots t)"
      using p slots_length Cons.prems(1) by metis
    have sz: "ft_size (flat_place r m t) \<le> ft_size t + 1" using p by simp
    have "flat_insert (Suc d) r m t = Some (flat_place r m t)"
      by (rule flat_insert_simple[OF Cons.prems(1) False]) (simp add: load_ok_def load)
    moreover have "(ft_size (flat_place r m t) + occupied es) * 2 \<le> length (ft_slots (flat_place r m t))"
      using Cons.prems(2) o sz len by simp
    from Cons.IH[OF conjunct1[OF p] this] obtain t' where
      "fold_option (\<lambda>(ref, m) t. if ref \<noteq> 0 then flat_insert (Suc d) ref m t else Some t) es (flat_place r m t) = Some t'"
      "flat_inv t'" "ft_mask t' = ft_mask (flat_place r m t)" "ft_size t' \<le> ft_size (flat_place r m t) + occupied es"
      "flat_map t' = fold (\<lambda>(r, m) f. if r \<noteq> 0 then f(r \<mapsto> m) else f) es (flat_map (flat_place r m t))" by blast
    ultimately show ?thesis using p o e False sz by (simp del: flat_insert.simps)
  qed
qed simp

lemma empty_table:
  assumes "k \<ge> 6"
  shows "flat_inv \<lparr> ft_slots = replicate (2 ^ k) (0, m), ft_mask = 2 ^ k - 1, ft_size = 0 \<rparr>"
    "flat_map \<lparr> ft_slots = replicate (2 ^ k) (0, m), ft_mask = 2 ^ k - 1, ft_size = 0 \<rparr> = Map.empty"
proof -
  have "occupied (replicate n (0, m)) = 0" for n by (simp add: occupied_def)
  moreover have "(2::nat) ^ k - 1 + 1 = 2 ^ k" by simp
  moreover have "tbl_inv (flat_home (2 ^ k - 1)) (2 ^ k) (replicate (2 ^ k) (0, m))"
    by (auto simp: tbl_inv_def keys_distinct_def occ_def intro!: exI[of _ 0])
  ultimately show "flat_inv \<lparr> ft_slots = replicate (2 ^ k) (0, m), ft_mask = 2 ^ k - 1, ft_size = 0 \<rparr>"
    using assms unfolding flat_inv_def by auto
  have "map_of (replicate n (0, m)) r = None" if "r \<noteq> 0" for n r using that by (induction n) auto
  then show "flat_map \<lparr> ft_slots = replicate (2 ^ k) (0, m), ft_mask = 2 ^ k - 1, ft_size = 0 \<rparr> = Map.empty"
    by (auto simp: flat_map_def tbl_map_def fun_eq_iff)
qed

lemma flat_grow_correct:
  assumes "flat_inv t"
  shows "\<exists>t'. flat_grow (flat_insert (Suc d)) t = Some t' \<and> flat_inv t' \<and> flat_map t' = flat_map t \<and> load_ok t'"
proof -
  from assms obtain k where k: "k \<ge> 6" "length (ft_slots t) = 2 ^ k"
    "tbl_inv (flat_home (2 ^ k - 1)) (2 ^ k) (ft_slots t)" "ft_size t = occupied (ft_slots t)" "ft_size t * 2 \<le> 2 ^ k"
    by (rule flat_invE)
  let ?e = "\<lparr> ft_slots = replicate (2 ^ (k + 1)) (0, default_meta), ft_mask = 2 ^ (k + 1) - 1, ft_size = 0 \<rparr>"
  have e: "t\<lparr> ft_slots := replicate (length (ft_slots t) * 2) (0, default_meta),
       ft_mask := length (replicate (length (ft_slots t) * 2) (0, default_meta)) - 1, ft_size := 0 \<rparr> = ?e"
    using k(2) by (simp add: mult.commute)
  have i: "flat_inv ?e" "flat_map ?e = Map.empty" using k(1) by (intro empty_table; simp)+
  have "(ft_size ?e + occupied (ft_slots t)) * 2 \<le> length (ft_slots ?e)" using k(4,5) by simp
  from refill_correct[OF i(1) this, of d] obtain t' where t': "flat_inv t'" "ft_mask t' = ft_mask ?e"
    "fold_option (\<lambda>(ref, m) t. if ref \<noteq> 0 then flat_insert (Suc d) ref m t else Some t) (ft_slots t) ?e = Some t'"
    "ft_size t' \<le> occupied (ft_slots t)"
    "flat_map t' = fold (\<lambda>(r, m) f. if r \<noteq> 0 then f(r \<mapsto> m) else f) (ft_slots t) Map.empty"
    unfolding i(2) by auto
  have "keys_distinct (2 ^ k) (ft_slots t) {}" using k(3) by (simp add: tbl_inv_def)
  from tbl_map_fold[OF k(2) this] have map': "flat_map t' = flat_map t" using t'(5) by (simp add: flat_map_def)
  have grow: "flat_grow (flat_insert (Suc d)) t = Some t'"
    unfolding flat_grow_def Let_def e using t'(3) .
  have "length (ft_slots t') = 2 ^ (k + 1)" using slots_length[OF t'(1)] t'(2) by simp
  moreover have "ft_size t' * 2 \<le> 2 ^ k" using t'(4) k(4,5) by linarith
  ultimately have "load_ok t'" unfolding load_ok_def by (simp add: order_le_less_trans)
  then show ?thesis using t'(1) map' grow by blast
qed

lemma insert_or_assign_correct:
  assumes "flat_inv t"
  shows "\<exists>t'. insert_or_assign ref m t = Some t' \<and> flat_inv t' \<and>
     flat_map t' = (if ref = 0 then flat_map t else (flat_map t)(ref \<mapsto> m))"
proof (cases "ref = 0")
  case False
  show ?thesis
  proof (cases "load_ok t")
    case True
    then have load: "ft_size t * 2 < length (ft_slots t)" by (simp add: load_ok_def)
    have "insert_or_assign ref m t = Some (flat_place ref m t)"
      unfolding insert_or_assign_def numeral_2_eq_2 by (rule flat_insert_simple[OF assms False True])
    then show ?thesis using flat_place_correct[OF assms False load, of m] False by auto
  next
    case full: False
    from flat_grow_correct[OF assms, of 0] obtain t' where t': "flat_grow (flat_insert (Suc 0)) t = Some t'"
      "flat_inv t'" "flat_map t' = flat_map t" "load_ok t'" by blast
    have "flat_insert (Suc (Suc 0)) ref m t =
        Option.bind (if ft_size t * 2 \<ge> length (ft_slots t) then flat_grow (flat_insert (Suc 0)) t else Some t)
          (\<lambda>t. Some (flat_place ref m t))" using False by (subst flat_insert.simps) simp
    then have "insert_or_assign ref m t = Some (flat_place ref m t')"
      using full t'(1) by (simp add: insert_or_assign_def numeral_2_eq_2 load_ok_def not_less del: flat_insert.simps)
    then show ?thesis
      using flat_place_correct[OF t'(2) False t'(4)[unfolded load_ok_def], of m] False t'(3) by auto
  qed
qed (use assms in \<open>simp add: insert_or_assign_def numeral_2_eq_2\<close>)

lemma flat_erase_correct:
  assumes "flat_inv t"
  shows "\<exists>t'. flat_erase ref t = Some t' \<and> flat_inv t' \<and> flat_map t' = (flat_map t)(ref := None)"
proof (cases "ref = 0")
  case True
  then show ?thesis using assms by (auto simp: flat_erase_def flat_map_def fun_eq_iff)
next
  case False
  from flat_probe_inv[OF assms False] obtain s where s: "s < ft_mask t + 1"
    "flat_probe (ft_slots t) (ft_mask t) ref (flat_home (ft_mask t) ref) [0..<ft_mask t + 1] =
      (if flat_map t ref = None then Vacant s else Found s)"
    "flat_map t ref \<noteq> None \<Longrightarrow> ft_slots t ! s = (ref, the (flat_map t ref))" by auto
  show ?thesis
  proof (cases "flat_map t ref")
    case None
    then show ?thesis using s(2) False assms by (auto simp: flat_erase_def fun_eq_iff simp del: upt_Suc)
  next
    case (Some m)
    from assms obtain k where k: "k \<ge> 6" "ft_mask t = 2 ^ k - 1" "ft_mask t + 1 = 2 ^ k"
      "tbl_inv (flat_home (2 ^ k - 1)) (2 ^ k) (ft_slots t)" "ft_size t = occupied (ft_slots t)"
      "ft_size t * 2 \<le> 2 ^ k" by (rule flat_invE)
    have "s < 2 ^ k" "ft_slots t ! s = (ref, m)" using s k(3) Some by auto
    from flp.erase_correct[OF k(4) this False] obtain es where es:
      "shift_back (flat_home (2 ^ k - 1)) (2 ^ k) (ft_slots t) s s = Some es" "tbl_inv (flat_home (2 ^ k - 1)) (2 ^ k) es"
      "tbl_map es = (tbl_map (ft_slots t))(ref := None)" "occupied es + 1 = occupied (ft_slots t)" by blast
    have "shift_back (flat_home (ft_mask t)) (ft_mask t + 1) (ft_slots t) s s = Some es"
      unfolding k(3) unfolding k(2) by (rule es(1))
    then have "flat_erase ref t = Some (t\<lparr> ft_slots := es, ft_size := ft_size t - 1 \<rparr>)"
      using s(2) Some False by (simp add: flat_erase_def del: upt_Suc)
    moreover have "length es = 2 ^ k" using es(2) by (simp add: tbl_inv_def)
    then have "flat_inv (t\<lparr> ft_slots := es, ft_size := ft_size t - 1 \<rparr>)"
      unfolding flat_inv_def using k(1,5,6) es(2,4)
      by (simp add: k(3)) (simp add: k(2) exI[of _ k], linarith)
    ultimately show ?thesis using es(3) by (auto simp: flat_map_def)
  qed
qed

lemma flat_pow2_exp: "\<exists>j\<ge>k. flat_pow2 cap k = 2 ^ j"
  by (induction cap k rule: flat_pow2.induct) (subst flat_pow2.simps, force)

lemma flat_new_correct: "flat_inv (flat_new cap)" "flat_map (flat_new cap) = Map.empty"
proof -
  from flat_pow2_exp[of 6 cap] obtain j where j: "j \<ge> 6" "flat_pow2 cap 6 = 2 ^ j" by blast
  show "flat_inv (flat_new cap)" "flat_map (flat_new cap) = Map.empty"
    unfolding flat_new_def Let_def j(2) using empty_table[OF j(1)] by auto
qed

section \<open>The table as the gateway sees it\<close>

datatype 'v table_op = Assign u64 'v | Erase u64

fun op_map :: "'v table_op \<Rightarrow> (u64 \<rightharpoonup> 'v) \<Rightarrow> (u64 \<rightharpoonup> 'v)" where
  "op_map (Assign r v) f = (if r = 0 then f else f(r \<mapsto> v))"
| "op_map (Erase r) f = f(r := None)"

locale assign_table =
  fixes inv :: "'t \<Rightarrow> bool" and view :: "'t \<Rightarrow> u64 \<rightharpoonup> 'v"
    and find :: "'t \<Rightarrow> u64 \<Rightarrow> 'v option"
    and assign :: "u64 \<Rightarrow> 'v \<Rightarrow> 't \<Rightarrow> 't option" and erase :: "u64 \<Rightarrow> 't \<Rightarrow> 't option"
  assumes find_view: "inv t \<Longrightarrow> find t r = view t r"
    and assign_view: "inv t \<Longrightarrow> \<exists>t'. assign r v t = Some t' \<and> inv t' \<and>
      view t' = (if r = 0 then view t else (view t)(r \<mapsto> v))"
    and erase_view: "inv t \<Longrightarrow> \<exists>t'. erase r t = Some t' \<and> inv t' \<and> view t' = (view t)(r := None)"
begin

fun run_op :: "'v table_op \<Rightarrow> 't \<Rightarrow> 't option" where
  "run_op (Assign r v) t = assign r v t"
| "run_op (Erase r) t = erase r t"

lemma run_op_view: "inv t \<Longrightarrow> \<exists>t'. run_op x t = Some t' \<and> inv t' \<and> view t' = op_map x (view t)"
  using assign_view erase_view by (cases x) auto

lemma run_ops_view:
  assumes "inv t"
  shows "\<exists>t'. fold_option run_op ops t = Some t' \<and> inv t' \<and> (\<forall>r. find t' r = fold op_map ops (view t) r)"
  using assms
proof (induction ops arbitrary: t)
  case (Cons x ops)
  from run_op_view[OF Cons.prems] obtain t1 where "run_op x t = Some t1" "inv t1" "view t1 = op_map x (view t)"
    by blast
  with Cons.IH[of t1] show ?case by auto
qed (simp add: find_view)

end

interpretation flt: assign_table flat_inv flat_map flat_find insert_or_assign flat_erase
  by unfold_locales (simp_all add: flat_find_map insert_or_assign_correct flat_erase_correct)

end
