(* ===== verification/Gateway.thy ===== *)
theory Gateway
  imports SimDecide FlatTable
begin

text \<open>
  The OUCH gateway of \<open>include/mog/OUCH.hpp\<close>: inbound frames become simulator calls, decisions,
  replacements and fills become outbound frames. The gateway refers to the simulator it was built on;
  its operations take and return that simulator.
\<close>

record replaced_event =
  re_replacement_token :: token
  re_previous_token :: token
  re_side :: side
  re_shares :: u32
  re_stock :: symbol
  re_price_ticks :: int
  re_ref :: u64
  re_ts_ns :: u64

record gateway =
  gw_default_symbol :: symbol
  gw_orders :: flat_table
  gw_replaced_events :: "replaced_event list"
  gw_last_decision_idx :: nat
  gw_last_replaced_idx :: nat
  gw_last_report_idx :: nat
  gw_hash :: u64

definition gateway_new :: "symbol \<Rightarrow> gateway" where
  "gateway_new default_symbol = \<lparr> gw_default_symbol = default_symbol, gw_orders = flat_new 2048,
     gw_replaced_events = [], gw_last_decision_idx = 0, gw_last_replaced_idx = 0, gw_last_report_idx = 0,
     gw_hash = 0xcbf29ce484222325 \<rparr>"

text \<open>The type byte is a signed character: its conversion to 64 bits extends the sign.\<close>

definition fold_gateway_hash :: "byte \<Rightarrow> u64 \<Rightarrow> u64 \<Rightarrow> int \<Rightarrow> gateway \<Rightarrow> gateway" where
  "fold_gateway_hash t ref qty px gw =
     (let h = gw_hash gw XOR word_of_int (sint t);
          h = (h * 0xbf58476d1ce4e5b9) XOR ref;
          h = (h * 0xbf58476d1ce4e5b9) XOR qty;
          h = (h * 0xbf58476d1ce4e5b9) XOR word_of_int px
      in gw\<lparr> gw_hash := h \<rparr>)"

definition submit_enter :: "('d, 'f) sim_env \<Rightarrow> enter_order_wire \<Rightarrow> u64 \<Rightarrow> gateway \<times> 'd sim
    \<Rightarrow> (u64 \<times> gateway \<times> 'd sim) option" where
  "submit_enter E w arrival_ts = (\<lambda>(gw, sm). do {
     let tok = take 14 (eow_order_token w);
     let ref = id_from_token tok;
     let s = side_from_wire (eow_buy_sell w);
     let shares = load_be32 (en_le E) (eow_shares w);
     let price = uint (load_be32 (en_le E) (eow_price w));
     let tif = load_be32 (en_le E) (eow_time_in_force w);
     let stock = take 8 (eow_stock w);
     orders \<leftarrow> insert_or_assign ref \<lparr> om_token = tok, om_shares = shares, om_price_ticks = price,
                om_side = s, om_stock = stock \<rparr> (gw_orders gw);
     let gw = gw\<lparr> gw_orders := orders \<rparr>;
     let typ = (if tif = 99999 then Ioc else DayLimit);
     let ord = \<lparr> in_ref = ref, in_side = s, in_qty = uint shares, in_price = price, in_type = typ,
                 in_peg = PegNone, in_peg_offset_ticks = 0, in_non_displayed = False \<rparr>;
     let gw = fold_gateway_hash (eow_type w) ref (ucast shares) price gw;
     (ts, sm) \<leftarrow> sim_submit E ord arrival_ts sm;
     Some (ts, gw, sm)
   })"

definition submit_replace :: "('d, 'f) sim_env \<Rightarrow> replace_order_wire \<Rightarrow> u64 \<Rightarrow> gateway \<times> 'd sim
    \<Rightarrow> (bool \<times> gateway \<times> 'd sim) option" where
  "submit_replace E w arrival_ts = (\<lambda>(gw, sm). do {
     let old_tok = take 14 (row_existing_order_token w);
     let new_tok = take 14 (row_replacement_order_token w);
     let old_ref = id_from_token old_tok;
     let new_ref = id_from_token new_tok;
     let shares = load_be32 (en_le E) (row_shares w);
     let price = uint (load_be32 (en_le E) (row_price w));
     let meta = flat_find (gw_orders gw) old_ref;
     let s = (case meta of Some m \<Rightarrow> om_side m | None \<Rightarrow> Buy);
     let stock = (case meta of Some m \<Rightarrow> om_stock m | None \<Rightarrow> gw_default_symbol gw);
     (tick, sm) \<leftarrow> replace_strategy E old_ref new_ref (uint shares) price sm;
     if \<not> tick_ok tick then Some (False, gw, sm)
     else do {
       orders \<leftarrow> insert_or_assign new_ref \<lparr> om_token = new_tok, om_shares = shares, om_price_ticks = price,
                  om_side = s, om_stock = stock \<rparr> (gw_orders gw);
       let gw = gw\<lparr> gw_orders := orders, gw_replaced_events := gw_replaced_events gw @
                  [\<lparr> re_replacement_token = new_tok, re_previous_token = old_tok, re_side = s, re_shares = shares,
                     re_stock = stock, re_price_ticks = price, re_ref = new_ref, re_ts_ns = arrival_ts \<rparr>] \<rparr>;
       Some (True, fold_gateway_hash (row_type w) new_ref (ucast shares) price gw, sm)
     }
   })"

definition submit_cancel :: "('d, 'f) sim_env \<Rightarrow> cancel_order_wire \<Rightarrow> gateway \<times> 'd sim
    \<Rightarrow> (bool \<times> gateway \<times> 'd sim) option" where
  "submit_cancel E w = (\<lambda>(gw, sm). do {
     let tok = take 14 (cow_order_token w);
     let ref = id_from_token tok;
     let gw = fold_gateway_hash (cow_type w) ref 0 0 gw;
     (ok, sm) \<leftarrow> cancel_strategy E ref sm;
     Some (ok, gw, sm)
   })"

section \<open>Outbound frames\<close>

text \<open>The frame of one decision, if its kind has one.\<close>

definition decision_frame :: "bool \<Rightarrow> gateway \<Rightarrow> sim_decision \<Rightarrow> byte list option" where
  "decision_frame le gw d =
     (let tok = token_from_id (dc_ref d);
          meta = flat_find (gw_orders gw) (dc_ref d);
          orig_shares = (case meta of Some m \<Rightarrow> om_shares m | None \<Rightarrow> dc_filled_qty d);
          orig_price = (case meta of Some m \<Rightarrow> om_price_ticks m | None \<Rightarrow> 0);
          stock = (case meta of Some m \<Rightarrow> om_stock m | None \<Rightarrow> gw_default_symbol gw)
      in case dc_kind d of
           Rested \<Rightarrow> Some (order_accepted_image (encode_order_accepted le (dc_visible_ts d) tok
                       (side_from_wire (dc_side d)) orig_shares stock orig_price (dc_ref d)))
         | Filled \<Rightarrow> Some (order_accepted_image (encode_order_accepted le (dc_visible_ts d) tok
                       (side_from_wire (dc_side d)) orig_shares stock orig_price (dc_ref d)))
         | PartialThenRest \<Rightarrow> Some (order_accepted_image (encode_order_accepted le (dc_visible_ts d) tok
                       (side_from_wire (dc_side d)) orig_shares stock orig_price (dc_ref d)))
         | RejectedStp \<Rightarrow> Some (aiq_cancelled_image (encode_aiq_cancelled le (dc_visible_ts d) tok
                       (dc_cancelled_qty d) 0x51 (dc_cancelled_qty d) orig_price 0x4E))
         | RejectedWouldCross \<Rightarrow> Some (order_rejected_image (encode_order_rejected le (dc_visible_ts d) tok 0x54))
         | RejectedUnknown \<Rightarrow> Some (order_rejected_image (encode_order_rejected le (dc_visible_ts d) tok 0x54))
         | PartialThenCancelled \<Rightarrow> Some (order_cancelled_image (encode_order_cancelled le (dc_visible_ts d) tok
                       (dc_cancelled_qty d) 0x55)))"

definition replaced_frame :: "bool \<Rightarrow> replaced_event \<Rightarrow> byte list" where
  "replaced_frame le r = order_replaced_image (encode_order_replaced le (re_ts_ns r) (re_replacement_token r)
     (re_side r) (re_shares r) (re_stock r) (re_price_ticks r) (re_ref r) (re_previous_token r))"

definition report_frame :: "bool \<Rightarrow> sim_fill_report \<Rightarrow> byte list" where
  "report_frame le r = order_executed_image (encode_executed_report le (fr_visible_ts r) (token_from_id (fr_ref r))
     (fr_qty r) (fr_price_ticks r) 0x41 (fr_seq r))"

text \<open>The loop over a list from a cursor: the cursor advances to the end; a cursor beyond the end (the
  simulator's events were cleared) stays where it is.\<close>

function drain_loop :: "('e \<Rightarrow> 's \<Rightarrow> 's) \<Rightarrow> 'e list \<Rightarrow> nat \<Rightarrow> 's \<Rightarrow> 's \<times> nat" where
  "drain_loop f es idx st = (if idx < length es then drain_loop f es (idx + 1) (f (es ! idx) st) else (st, idx))"
  by pat_completeness auto
termination
  by (relation "measure (\<lambda>(_, es, idx, _). length es - idx)") auto

declare drain_loop.simps [simp del]

definition drain_outbound_stream :: "('d, 'f) sim_env \<Rightarrow> ('s \<Rightarrow> byte list \<Rightarrow> 's) \<Rightarrow> 's \<Rightarrow> gateway \<times> 'd sim
    \<Rightarrow> 's \<times> gateway" where
  "drain_outbound_stream E sink st = (\<lambda>(gw, sm).
     (let (st, idx) = drain_loop (\<lambda>d st. case decision_frame (en_le E) gw d of None \<Rightarrow> st | Some f \<Rightarrow> sink st f)
                        (si_decisions sm) (gw_last_decision_idx gw) st;
          gw = gw\<lparr> gw_last_decision_idx := idx \<rparr>;
          (st, idx) = drain_loop (\<lambda>r st. sink st (replaced_frame (en_le E) r))
                        (gw_replaced_events gw) (gw_last_replaced_idx gw) st;
          gw = gw\<lparr> gw_last_replaced_idx := idx \<rparr>;
          (st, idx) = drain_loop (\<lambda>r st. sink st (report_frame (en_le E) r)) (si_reports sm) (gw_last_report_idx gw) st
      in (st, gw\<lparr> gw_last_report_idx := idx \<rparr>)))"

definition drain_outbound :: "('d, 'f) sim_env \<Rightarrow> byte list list \<Rightarrow> gateway \<times> 'd sim \<Rightarrow> byte list list \<times> gateway" where
  "drain_outbound E out_packets = drain_outbound_stream E (\<lambda>st f. st @ [f]) out_packets"

definition drain_outbound_contiguous :: "('d, 'f) sim_env \<Rightarrow> byte list \<times> nat list \<Rightarrow> gateway \<times> 'd sim
    \<Rightarrow> (byte list \<times> nat list) \<times> gateway" where
  "drain_outbound_contiguous E out =
     drain_outbound_stream E (\<lambda>(bytes, offsets) f. (bytes @ f, offsets @ [length bytes])) out"

end
