(* ===== verification/OuchProps.thy ===== *)
theory OuchProps
  imports Gateway Ouch
begin

text \<open>
  OUCH frames and tokens: every encoder writes a frame of its table length whose fields sit at the
  offsets the code asserts, and a token gives back the reference it was made from up to \<open>10 ^ 14\<close>.
\<close>

section \<open>Tokens\<close>

definition is_digit :: "byte \<Rightarrow> bool" where
  "is_digit c \<longleftrightarrow> 0x30 \<le> c \<and> c \<le> 0x39"

fun digits_value :: "nat \<Rightarrow> byte list \<Rightarrow> nat" where
  "digits_value v [] = v"
| "digits_value v (c # cs) = digits_value (if is_digit c then v * 10 + unat (c - 0x30) else v) cs"

lemma digits_value_append [simp]: "digits_value v (xs @ ys) = digits_value (digits_value v xs) ys"
  by (induction v xs rule: digits_value.induct) auto

lemma digit_small: "is_digit c \<Longrightarrow> unat (c - 0x30) < 10"
  unfolding is_digit_def by (auto simp: word_le_nat_alt unat_sub)

lemma id_from_token_value: "id_from_token tok = of_nat (digits_value 0 tok)"
proof -
  have "foldl (\<lambda>v c. if 0x30 \<le> c \<and> c \<le> 0x39 then v * 10 + ucast (c - 0x30) else v) (of_nat n :: u64) tok =
      of_nat (digits_value n tok)" for n
  proof (induction tok arbitrary: n)
    case (Cons c cs)
    have "(of_nat n * 10 + ucast (c - 0x30) :: u64) = of_nat (n * 10 + unat (c - 0x30))" by simp
    then show ?case using Cons[of n] Cons[of "n * 10 + unat (c - 0x30)"]
      by (cases "is_digit c") (simp_all only: foldl_Cons digits_value.simps is_digit_def if_True if_False simp_thms)
  qed simp
  from this[of 0] show ?thesis by (simp add: id_from_token_def)
qed

lemma digits_value_less: "digits_value v tok < (v + 1) * 10 ^ length tok"
proof (induction v tok rule: digits_value.induct)
  case (2 v c cs)
  let ?v = "if is_digit c then v * 10 + unat (c - 0x30) else v"
  have "?v + 1 \<le> (v + 1) * 10" using digit_small[of c] by auto
  then have "(?v + 1) * 10 ^ length cs \<le> (v + 1) * 10 * 10 ^ length cs" by (rule mult_right_mono) simp
  with 2 show ?case by (simp only: digits_value.simps length_Cons power_Suc mult.assoc)
qed simp

lemma digit_byte:
  assumes "d < 10"
  shows "is_digit (0x30 + of_nat d)" "unat ((0x30 + of_nat d :: byte) - 0x30) = d"
proof -
  have d: "unat (of_nat d :: byte) = d" using assms by (simp add: unat_of_nat take_bit_nat_eq_self)
  have "(0x30 + of_nat d :: byte) = of_nat (48 + d)" by simp
  then have "unat (0x30 + of_nat d :: byte) = 48 + d"
    using assms by (simp only: unat_of_nat) (simp add: take_bit_nat_eq_self)
  then show "is_digit (0x30 + of_nat d)" using assms by (simp add: is_digit_def word_le_nat_alt)
  show "unat ((0x30 + of_nat d :: byte) - 0x30) = d" using d by simp
qed

lemma decimal_correct:
  "digits_value 0 (decimal n) = n" "0 < k \<Longrightarrow> length (decimal n) \<le> k \<longleftrightarrow> n < 10 ^ k" "decimal n \<noteq> []"
proof (induction n arbitrary: k rule: decimal.induct)
  case (1 n)
  { case 1 show ?case
      using "1.IH"(1) digit_byte[of "n mod 10"] digit_byte[of n]
      by (subst decimal.simps) auto }
  { case 2
    show ?case
    proof (cases "n < 10")
      case True
      have "(10::nat) ^ 1 \<le> 10 ^ k" using 2 by (intro power_increasing) auto
      then show ?thesis using True 2 by (subst decimal.simps) simp
    next
      case False
      then have ne: "decimal (n div 10) \<noteq> []" using "1.IH"(3) by simp
      show ?thesis
      proof (cases "k = 1")
        case True
        then show ?thesis using False ne by (subst decimal.simps) simp
      next
        case k: False
        then have "length (decimal n) \<le> k \<longleftrightarrow> length (decimal (n div 10)) \<le> k - 1"
          using False 2 by (subst decimal.simps) auto
        also have "\<dots> \<longleftrightarrow> n div 10 < 10 ^ (k - 1)" using "1.IH"(2)[OF False] k 2 by simp
        also have "\<dots> \<longleftrightarrow> n < 10 ^ (k - 1) * 10" by (simp add: less_mult_imp_div_less div_less_iff_less_mult)
        finally show ?thesis using 2 by (cases k) (simp_all add: mult.commute)
      qed
    qed }
  { case 3 show ?case by (subst decimal.simps) simp }
qed

lemma digits_value_zeros [simp]: "digits_value 0 (replicate n 0x30) = 0"
  by (induction n) (auto simp: is_digit_def)

lemma token_from_id_length: "length (token_from_id ref) = 14"
  by (simp add: token_from_id_def printf_014_def Let_def)

lemma token_round_trip: "id_from_token (token_from_id ref) = ref \<longleftrightarrow> unat ref < 10 ^ 14"
proof
  assume "unat ref < 10 ^ 14"
  then have len: "length (decimal (unat ref)) \<le> 14" using decimal_correct(2) by simp
  then have "token_from_id ref = printf_014 (unat ref)" by (simp add: token_from_id_def printf_014_def Let_def)
  then show "id_from_token (token_from_id ref) = ref"
    by (simp add: id_from_token_value printf_014_def decimal_correct(1))
next
  assume eq: "id_from_token (token_from_id ref) = ref"
  let ?v = "digits_value 0 (token_from_id ref)"
  have v: "?v < 10 ^ 14" using digits_value_less[of 0 "token_from_id ref"] by (simp add: token_from_id_length)
  then have "unat (of_nat ?v :: u64) = ?v" by (simp add: unat_of_nat take_bit_nat_eq_self)
  then show "unat ref < 10 ^ 14" using eq v by (simp add: id_from_token_value)
qed

lemma token_view_make:
  assumes "length s \<le> 14" and "\<forall>c \<in> set s. c \<noteq> 0x20 \<and> c \<noteq> 0"
  shows "token_to_string_view (make_token s) = s"
proof -
  have "make_token s = s @ replicate (14 - length s) 0x20" using assms(1) by (simp add: make_token_def Let_def)
  then show ?thesis using assms(2) by (cases "14 - length s") (simp_all add: token_to_string_view_def takeWhile_append)
qed

section \<open>Frames\<close>

lemma load_stored32 [byte_simps]: "load_be32 le (store_be32 le' v) = v"
  using load_store_be32[of le le' v "[]"] by simp

lemma load_stored64 [byte_simps]: "load_be64 le (store_be64 le' v) = v"
  using load_store_be64[of le le' v "[]"] by simp

text \<open>The image of each struct has the size the code asserts; the encoders agree with the frame tables.\<close>

lemma encoded_lengths:
  assumes "length tok = 14" and "length stock = 8" and "length tok' = 14"
  shows "length (order_accepted_image (encode_order_accepted le ts tok sd shares stock ticks ref)) = outbound_frame_length 0x41"
    "length (order_executed_image (encode_executed_report le ts tok shares ticks liq match)) = outbound_frame_length 0x45"
    "length (order_cancelled_image (encode_order_cancelled le ts tok shares reason)) = outbound_frame_length 0x43"
    "length (order_rejected_image (encode_order_rejected le ts tok reason)) = outbound_frame_length 0x4A"
    "length (order_replaced_image (encode_order_replaced le ts tok sd shares stock ticks ref tok')) = outbound_frame_length 0x55"
    "length (aiq_cancelled_image (encode_aiq_cancelled le ts tok shares reason prevented ticks liq)) = outbound_frame_length 0x44"
  using assms by (simp_all add: image_defs encode_defs outbound_frame_length_def sizeof_defs)

lemma split_at: "length xs = n \<Longrightarrow> drop n (xs @ ys) = ys" "length xs = n \<Longrightarrow> take n (xs @ ys) = xs"
  by simp_all

lemma accepted_fields:
  assumes "length tok = 14" and "length stock = 8"
  shows "let bs = order_accepted_image (encode_order_accepted le ts tok sd shares stock ticks ref) in
     bs ! 0 = 0x41 \<and> load_be64 le' (drop 1 bs) = ts \<and> take 14 (drop 9 bs) = tok \<and> bs ! 23 = to_wire sd \<and>
     load_be32 le' (drop 24 bs) = shares \<and> take 8 (drop 28 bs) = stock \<and>
     load_be32 le' (drop 36 bs) = word_of_int ticks \<and> load_be64 le' (drop 49 bs) = ref \<and> bs ! 64 = 0x4C"
  using assms by (simp add: Let_def image_defs encode_defs byte_simps nth_append)

lemma executed_fields:
  assumes "length tok = 14"
  shows "let bs = order_executed_image (encode_executed_report le ts tok shares ticks liq match) in
     bs ! 0 = 0x45 \<and> load_be64 le' (drop 1 bs) = ts \<and> take 14 (drop 9 bs) = tok \<and>
     load_be32 le' (drop 23 bs) = shares \<and> load_be32 le' (drop 27 bs) = word_of_int ticks \<and> bs ! 31 = liq \<and>
     load_be64 le' (drop 32 bs) = match"
  using assms by (simp add: Let_def image_defs encode_defs byte_simps nth_append)

text \<open>
  Properties of the OUCH codecs, the order table and the gateway's outbound stream, each with a
  witness where it has a hypothesis.
\<close>

section \<open>Tokens and frames\<close>

text \<open>Formatting a reference as a client token of fourteen digits and reading it back is the
  identity exactly on the references below ten to the fourteenth; above, digits are lost.\<close>

theorem client_token_round_trip: "id_from_token (token_from_id ref) = ref \<longleftrightarrow> unat ref < 10 ^ 14"
  by (rule token_round_trip)

text \<open>The frame of an accepted order has the length of the frame table, and reading its bytes at
  the offsets of the protocol, on a host of either byte order, gives back the type, time, token,
  side, shares, stock, price in 32 bits, reference and state it was built from.\<close>

theorem accepted_frame_exact:
  assumes "length tok = 14" and "length stock = 8"
    and "bs = order_accepted_image (encode_order_accepted le ts tok sd shares stock ticks ref)"
  shows "length bs = outbound_frame_length 0x41 \<and> bs ! 0 = 0x41 \<and> load_be64 le' (drop 1 bs) = ts \<and>
     take 14 (drop 9 bs) = tok \<and> bs ! 23 = to_wire sd \<and> load_be32 le' (drop 24 bs) = shares \<and>
     take 8 (drop 28 bs) = stock \<and> load_be32 le' (drop 36 bs) = word_of_int ticks \<and>
     load_be64 le' (drop 49 bs) = ref \<and> bs ! 64 = 0x4C"
  using accepted_fields[OF assms(1,2)] encoded_lengths(1)[OF assms(1,2,1)] assms(3) unfolding Let_def by blast

lemma accepted_frame_exact_witness:
  "\<exists>bs. bs = order_accepted_image (encode_order_accepted True 7 (token_from_id 42) Sell 100 (replicate 8 0x41) 250 42) \<and>
     length bs = 66 \<and> load_be64 False (drop 49 bs) = 42"
  using accepted_frame_exact[of "token_from_id 42" "replicate 8 0x41" _ True 7 Sell 100 250 42 False]
  by (auto simp: token_from_id_length outbound_frame_length_def sizeof_defs)

section \<open>The order table\<close>

text \<open>C17: The gateway's open-addressed table, created with any capacity and driven by any sequence of
  assignments and erasures, never fails and answers every lookup like a finite map in which the
  reference zero is never stored, through growth and backward-shift deletion.\<close>

theorem order_table_is_map:
  "\<exists>t. fold_option flt.run_op ops (flat_new cap) = Some t \<and>
     (\<forall>ref. flat_find t ref = fold op_map ops Map.empty ref)"
  using flt.run_ops_view[OF flat_new_correct(1), of ops cap] by (auto simp: flat_new_correct(2))

section \<open>Draining\<close>

definition drained_frames :: "bool \<Rightarrow> gateway \<Rightarrow> 'd sim \<Rightarrow> byte list list" where
  "drained_frames le gw sm =
     List.map_filter (decision_frame le gw) (drop (gw_last_decision_idx gw) (si_decisions sm)) @
     map (replaced_frame le) (drop (gw_last_replaced_idx gw) (gw_replaced_events gw)) @
     map (report_frame le) (drop (gw_last_report_idx gw) (si_reports sm))"

definition drained_gateway :: "gateway \<Rightarrow> 'd sim \<Rightarrow> gateway" where
  "drained_gateway gw sm = gw\<lparr> gw_last_decision_idx := max (gw_last_decision_idx gw) (length (si_decisions sm)),
     gw_last_replaced_idx := max (gw_last_replaced_idx gw) (length (gw_replaced_events gw)),
     gw_last_report_idx := max (gw_last_report_idx gw) (length (si_reports sm)) \<rparr>"

lemma foldl_map_sink: "foldl (\<lambda>st r. sink st (f r)) st xs = foldl sink st (map f xs)"
  by (induction xs arbitrary: st) auto

lemma foldl_filter_sink:
  "foldl (\<lambda>st d. case g d of None \<Rightarrow> st | Some f \<Rightarrow> sink st f) st ds = foldl sink st (List.map_filter g ds)"
  by (induction ds arbitrary: st) (auto simp: map_filter_simps split: option.splits)

lemma drain_loop_foldl: "drain_loop f es idx st = (foldl (\<lambda>st e. f e st) st (drop idx es), max idx (length es))"
proof (induction f es idx st rule: drain_loop.induct)
  case (1 f es idx st)
  then show ?case by (subst drain_loop.simps) (auto simp flip: Cons_nth_drop_Suc)
qed

lemma drain_stream_frames:
  "drain_outbound_stream E sink st (gw, sm) = (foldl sink st (drained_frames (en_le E) gw sm), drained_gateway gw sm)"
  by (simp add: drain_outbound_stream_def drained_frames_def drained_gateway_def drain_loop_foldl foldl_map_sink foldl_filter_sink)

lemma foldl_snoc: "foldl (\<lambda>st f. st @ [f]) st fs = st @ fs"
  by (induction fs arbitrary: st) auto

section \<open>The contiguous form\<close>

fun offsets_from :: "nat \<Rightarrow> byte list list \<Rightarrow> nat list" where
  "offsets_from n [] = []"
| "offsets_from n (f # fs) = n # offsets_from (n + length f) fs"

lemma foldl_contiguous:
  "foldl (\<lambda>(bytes, offsets) f. (bytes @ f, offsets @ [length bytes])) (bs, os) fs =
     (bs @ concat fs, os @ offsets_from (length bs) fs)"
  by (induction fs arbitrary: bs os) auto

lemma offsets_from_nth:
  "i < length fs \<Longrightarrow> take (length (fs ! i)) (drop (offsets_from n fs ! i - n) (concat fs)) = fs ! i \<and> n \<le> offsets_from n fs ! i"
proof (induction n fs arbitrary: i rule: offsets_from.induct)
  case (2 n f fs)
  show ?case
  proof (cases i)
    case (Suc j)
    with 2 have "take (length (fs ! j)) (drop (offsets_from (n + length f) fs ! j - (n + length f)) (concat fs)) = fs ! j"
      "n + length f \<le> offsets_from (n + length f) fs ! j" by simp_all
    moreover from this(2) have "offsets_from (n + length f) fs ! j - n = length f + (offsets_from (n + length f) fs ! j - (n + length f))"
      by simp
    ultimately show ?thesis by (simp add: Suc del: drop_drop)
  qed simp
qed simp

lemma offsets_from_length [simp]: "length (offsets_from n fs) = length fs"
  by (induction n fs rule: offsets_from.induct) auto

text \<open>The contiguous form of draining carries the same frames as the packet form: its buffer is
  their concatenation, it has one offset per frame, and each frame is found at its offset; the cursors
  end up the same.\<close>

theorem drain_contiguous_same:
  "\<exists>frames bytes offsets gw'. drain_outbound E [] (gw, sm) = (frames, gw') \<and>
     drain_outbound_contiguous E ([], []) (gw, sm) = ((bytes, offsets), gw') \<and> bytes = concat frames \<and>
     map2 (\<lambda>off f. take (length f) (drop off bytes)) offsets frames = frames"
proof -
  let ?fs = "drained_frames (en_le E) gw sm"
  have "map2 (\<lambda>off f. take (length f) (drop off (concat ?fs))) (offsets_from 0 ?fs) ?fs = ?fs"
    using offsets_from_nth[of _ ?fs 0] by (intro nth_equalityI) simp_all
  then show ?thesis
    by (simp add: drain_outbound_contiguous_def drain_outbound_def drain_stream_frames foldl_snoc foldl_contiguous)
qed

end
