(* ===== verification/TimingWheel.thy ===== *)
theory TimingWheel
  imports Arena
begin

text \<open>
  The hierarchical timing wheel of \<open>include/mog/TimingWheel.hpp\<close>: 11 levels of 64 buckets, one level
  per base-64 digit of the timestamp. An event waits in the bucket of the highest digit in which its
  timestamp differs from the watermark \<open>tw_now\<close>; \<open>settle\<close> advances the watermark and demotes the
  events whose digit it reached. Buckets are doubly linked lists threaded through the slots. The
  memory above the construction watermark is the argument \<open>raw\<close> of the constructor.
\<close>

section \<open>State\<close>

record 'a wheel_slot =
  ws_value :: 'a
  ws_ts :: u64
  ws_seq :: u64
  ws_generation :: u32
  ws_bucket :: nat
  ws_prev :: nat
  ws_next :: nat
  ws_free_next :: nat
  ws_live :: bool

record wheel_level =
  wl_head :: "nat list"
  wl_tail :: "nat list"
  wl_occupied :: u64
  wl_last_seq :: "u64 list"
  wl_sorted :: "bool list"

record 'a wheel =
  tw_capacity :: nat
  tw_slots :: "'a wheel_slot list"
  tw_watermark :: nat
  tw_free_head :: nat
  tw_live :: nat
  tw_now :: u64
  tw_next_seq :: u64
  tw_levels :: "wheel_level list"

definition kBitsPerLevel :: nat where
  "kBitsPerLevel = 6"

definition kBuckets :: nat where
  "kBuckets = 64"

definition kLevels :: nat where
  "kLevels = 11"

definition fresh_wheel_slot :: "'a \<Rightarrow> 'a wheel_slot" where
  "fresh_wheel_slot v = \<lparr> ws_value = v, ws_ts = 0, ws_seq = 0, ws_generation = 0, ws_bucket = kNullIndex,
     ws_prev = kNullIndex, ws_next = kNullIndex, ws_free_next = kNullIndex, ws_live = False \<rparr>"

definition empty_wheel_level :: wheel_level where
  "empty_wheel_level = \<lparr> wl_head = replicate kBuckets kNullIndex, wl_tail = replicate kBuckets kNullIndex,
     wl_occupied = 0, wl_last_seq = replicate kBuckets 0, wl_sorted = replicate kBuckets False \<rparr>"

definition wheel_new :: "nat \<Rightarrow> 'a wheel_slot list \<Rightarrow> 'a wheel option" where
  "wheel_new capacity raw = do {
     mog_pre (capacity > 0 \<and> capacity < kNullIndex);
     Some \<lparr> tw_capacity = capacity, tw_slots = take capacity raw, tw_watermark = 0, tw_free_head = kNullIndex,
            tw_live = 0, tw_now = 0, tw_next_seq = 0, tw_levels = replicate kLevels empty_wheel_level \<rparr>
   }"

section \<open>Routing\<close>

definition tick_slot :: "u64 \<Rightarrow> nat" where
  "tick_slot now = unat ((ucast now :: u32) AND 63)"

definition wheel_digit :: "u64 \<Rightarrow> nat \<Rightarrow> nat" where
  "wheel_digit ts li = unat (drop_bit (kBitsPerLevel * li) ts AND 63)"

definition route_bucket :: "u64 \<Rightarrow> u64 \<Rightarrow> nat" where
  "route_bucket now ts =
     (let diff = ts XOR now
      in if diff = 0 then tick_slot now
         else let top = 63 - countl_zero diff; level = top div kBitsPerLevel
              in level * kBuckets + wheel_digit ts level)"

definition mask_low_bits :: "nat \<Rightarrow> u64" where
  "mask_low_bits bits = (if bits \<ge> 64 then NOT 0 else push_bit bits 1 - 1)"

section \<open>Buckets\<close>

definition attach :: "nat \<Rightarrow> 'a wheel \<Rightarrow> 'a wheel" where
  "attach idx w =
     (let s = tw_slots w ! idx;
          b = route_bucket (tw_now w) (ws_ts s);
          li = b div kBuckets;
          slot = b mod kBuckets;
          l = tw_levels w ! li;
          first = (wl_head l ! slot = kNullIndex);
          t = wl_tail l ! slot;
          s = s\<lparr> ws_bucket := b, ws_next := kNullIndex, ws_prev := (if first then kNullIndex else t) \<rparr>;
          slots = (tw_slots w)[idx := s];
          slots = (if first then slots else slots[t := (slots ! t)\<lparr> ws_next := idx \<rparr>]);
          l = l\<lparr> wl_head := (if first then (wl_head l)[slot := idx] else wl_head l),
                 wl_tail := (wl_tail l)[slot := idx],
                 wl_occupied := wl_occupied l OR push_bit slot 1 \<rparr>;
          l = (if li = 0
               then l\<lparr> wl_sorted := (wl_sorted l)[slot := (if wl_head l ! slot = idx then True
                          else wl_sorted l ! slot \<and> ws_seq s > wl_last_seq l ! slot)],
                       wl_last_seq := (wl_last_seq l)[slot := ws_seq s] \<rparr>
               else l)
      in w\<lparr> tw_slots := slots, tw_levels := (tw_levels w)[li := l] \<rparr>)"

definition detach :: "nat \<Rightarrow> 'a wheel \<Rightarrow> 'a wheel" where
  "detach idx w =
     (let s = tw_slots w ! idx;
          li = ws_bucket s div kBuckets;
          slot = ws_bucket s mod kBuckets;
          l = tw_levels w ! li;
          p = ws_prev s;
          n = ws_next s;
          slots = (if p \<noteq> kNullIndex then (tw_slots w)[p := (tw_slots w ! p)\<lparr> ws_next := n \<rparr>] else tw_slots w);
          l = (if p \<noteq> kNullIndex then l else l\<lparr> wl_head := (wl_head l)[slot := n] \<rparr>);
          slots = (if n \<noteq> kNullIndex then slots[n := (slots ! n)\<lparr> ws_prev := p \<rparr>] else slots);
          l = (if n \<noteq> kNullIndex then l else l\<lparr> wl_tail := (wl_tail l)[slot := p] \<rparr>);
          l = (if wl_head l ! slot = kNullIndex
               then l\<lparr> wl_occupied := wl_occupied l AND NOT (push_bit slot 1),
                       wl_sorted := (if li = 0 then (wl_sorted l)[slot := False] else wl_sorted l) \<rparr>
               else l);
          slots = slots[idx := (slots ! idx)\<lparr> ws_bucket := kNullIndex \<rparr>]
      in w\<lparr> tw_slots := slots, tw_levels := (tw_levels w)[li := l] \<rparr>)"

definition free_wheel_slot :: "nat \<Rightarrow> 'a wheel \<Rightarrow> 'a wheel" where
  "free_wheel_slot idx w =
     (let s = tw_slots w ! idx
      in w\<lparr> tw_slots := (tw_slots w)[idx := s\<lparr> ws_live := False, ws_generation := ws_generation s + 1,
              ws_free_next := tw_free_head w \<rparr>],
            tw_free_head := idx \<rparr>)"

section \<open>Settling\<close>

text \<open>The nearest boundary at which an occupied bucket of a coarse level becomes due.\<close>

definition bucket_bound :: "u64 \<Rightarrow> nat \<Rightarrow> nat \<Rightarrow> u64" where
  "bucket_bound now li j =
     ((now AND NOT (mask_low_bits (kBitsPerLevel * (li + 1)))) OR push_bit (kBitsPerLevel * li) (of_nat j))"

definition nearest_bound :: "'a wheel \<Rightarrow> u64" where
  "nearest_bound w = fold (\<lambda>li best.
     let occ = wl_occupied (tw_levels w ! li)
     in if occ = 0 then best else min best (bucket_bound (tw_now w) li (countr_zero occ))) [1..<kLevels] (NOT 0)"

text \<open>Re-routes every event of a chain; the successor is read before the event moves.\<close>

partial_function (option) demote_chain :: "nat \<Rightarrow> 'a wheel \<Rightarrow> 'a wheel option" where
  [code]: "demote_chain idx w =
     (if idx = kNullIndex then Some w
      else demote_chain (ws_next (tw_slots w ! idx)) (attach idx (detach idx w)))"

partial_function (option) demote_buckets :: "nat \<Rightarrow> u64 \<Rightarrow> 'a wheel \<Rightarrow> 'a wheel option" where
  [code]: "demote_buckets li to_demote w =
     (if to_demote = 0 then Some w
      else do {
        w \<leftarrow> demote_chain (wl_head (tw_levels w ! li) ! countr_zero to_demote) w;
        demote_buckets li (to_demote AND (to_demote - 1)) w
      })"

definition demote_level :: "nat \<Rightarrow> 'a wheel \<Rightarrow> 'a wheel option" where
  "demote_level li w =
     demote_buckets li (wl_occupied (tw_levels w ! li) AND mask_low_bits (wheel_digit (tw_now w) li + 1)) w"

fun demote_levels :: "nat list \<Rightarrow> 'a wheel \<Rightarrow> 'a wheel option" where
  "demote_levels [] w = Some w"
| "demote_levels (li # lis) w = do { w \<leftarrow> demote_level li w; demote_levels lis w }"

partial_function (option) settle :: "'a wheel \<Rightarrow> 'a wheel option" where
  [code]: "settle w =
     (if tw_live w = 0 then Some w
      else let slot0 = tick_slot (tw_now w); occ0 = wl_occupied (tw_levels w ! 0)
      in if drop_bit slot0 occ0 AND 1 \<noteq> 0 then Some w
      else let later = occ0 AND NOT (mask_low_bits (slot0 + 1))
      in if later \<noteq> 0
         then settle (w\<lparr> tw_now := (tw_now w AND NOT 63) + of_nat (countr_zero later) \<rparr>)
      else let best = nearest_bound w
      in if best = NOT 0 then Some w
         else do {
           w \<leftarrow> demote_levels [1..<kLevels] (w\<lparr> tw_now := best \<rparr>);
           settle w
         })"

section \<open>Operations\<close>

definition claim_wheel_slot :: "'a \<Rightarrow> 'a wheel \<Rightarrow> (nat \<times> 'a wheel) option" where
  "claim_wheel_slot v w =
     (let idx = tw_free_head w
      in if idx = kNullIndex then do {
           mog_pre (tw_watermark w < tw_capacity w);
           let idx = tw_watermark w;
           Some (idx, w\<lparr> tw_watermark := idx + 1, tw_slots := (tw_slots w)[idx := fresh_wheel_slot v] \<rparr>)
         }
         else Some (idx, w\<lparr> tw_free_head := ws_free_next (tw_slots w ! idx) \<rparr>))"

definition wheel_push :: "u64 \<Rightarrow> 'a \<Rightarrow> 'a wheel \<Rightarrow> (gen_handle \<times> 'a wheel) option" where
  "wheel_push ts v w = do {
     mog_pre (tw_live w < tw_capacity w);
     mog_pre (ts \<ge> tw_now w);
     (idx, w) \<leftarrow> claim_wheel_slot v w;
     let w = w\<lparr> tw_slots := (tw_slots w)[idx := (tw_slots w ! idx)\<lparr> ws_value := v, ws_ts := ts,
                  ws_seq := tw_next_seq w, ws_live := True \<rparr>] \<rparr>;
     let w = attach idx w;
     let w = w\<lparr> tw_live := tw_live w + 1, tw_next_seq := tw_next_seq w + 1 \<rparr>;
     Some (\<lparr> h_index = idx, h_generation = ws_generation (tw_slots w ! idx) \<rparr>, w)
   }"

definition wheel_cancel :: "gen_handle \<Rightarrow> 'a wheel \<Rightarrow> bool \<times> 'a wheel" where
  "wheel_cancel h w =
     (if h_index h \<ge> tw_capacity w then (False, w)
      else let s = tw_slots w ! h_index h
           in if \<not> ws_live s \<or> ws_generation s \<noteq> h_generation h then (False, w)
              else let w = free_wheel_slot (h_index h) (detach (h_index h) w)
                   in (True, w\<lparr> tw_live := tw_live w - 1 \<rparr>))"

text \<open>The scan of a bucket for its least sequence number, from \<open>it\<close> on.\<close>

partial_function (option) min_scan :: "'a wheel \<Rightarrow> nat \<Rightarrow> nat \<Rightarrow> nat option" where
  [code]: "min_scan w it best =
     (if it = kNullIndex then Some best
      else min_scan w (ws_next (tw_slots w ! it))
             (if ws_seq (tw_slots w ! it) < ws_seq (tw_slots w ! best) then it else best))"

definition front_of_tick :: "'a wheel \<Rightarrow> nat option" where
  "front_of_tick w =
     (let slot = tick_slot (tw_now w); l = tw_levels w ! 0; head = wl_head l ! slot
      in do {
        mog_pre (head \<noteq> kNullIndex);
        if wl_sorted l ! slot then Some head else min_scan w (ws_next (tw_slots w ! head)) head
      })"

definition wheel_peek_ts :: "'a wheel \<Rightarrow> (u64 \<times> 'a wheel) option" where
  "wheel_peek_ts w = do {
     mog_pre (tw_live w \<noteq> 0);
     w \<leftarrow> settle w;
     Some (tw_now w, w)
   }"

definition wheel_peek :: "'a wheel \<Rightarrow> ('a \<times> 'a wheel) option" where
  "wheel_peek w = do {
     mog_pre (tw_live w \<noteq> 0);
     w \<leftarrow> settle w;
     idx \<leftarrow> front_of_tick w;
     Some (ws_value (tw_slots w ! idx), w)
   }"

definition wheel_pop :: "'a wheel \<Rightarrow> ('a \<times> 'a wheel) option" where
  "wheel_pop w = do {
     mog_pre (tw_live w \<noteq> 0);
     w \<leftarrow> settle w;
     idx \<leftarrow> front_of_tick w;
     let w = detach idx w;
     let out = ws_value (tw_slots w ! idx);
     let w = free_wheel_slot idx w;
     Some (out, w\<lparr> tw_live := tw_live w - 1 \<rparr>)
   }"

definition cleared_wheel_slot :: "nat \<Rightarrow> nat \<Rightarrow> 'a wheel_slot \<Rightarrow> 'a wheel_slot" where
  "cleared_wheel_slot capacity i s =
     s\<lparr> ws_generation := (if ws_live s then ws_generation s + 1 else ws_generation s),
        ws_live := False, ws_bucket := kNullIndex,
        ws_free_next := (if i + 1 < capacity then i + 1 else kNullIndex) \<rparr>"

definition cleared_level :: "wheel_level \<Rightarrow> wheel_level" where
  "cleared_level l = l\<lparr> wl_head := replicate kBuckets kNullIndex, wl_tail := replicate kBuckets kNullIndex,
     wl_occupied := 0 \<rparr>"

definition wheel_clear :: "'a \<Rightarrow> 'a wheel \<Rightarrow> 'a wheel" where
  "wheel_clear dflt w =
     (let wm = tw_watermark w;
          slots = map (\<lambda>i. if wm \<le> i then fresh_wheel_slot dflt else tw_slots w ! i) [0..<tw_capacity w]
      in w\<lparr> tw_watermark := tw_capacity w,
            tw_slots := map (\<lambda>i. cleared_wheel_slot (tw_capacity w) i (slots ! i)) [0..<tw_capacity w],
            tw_levels := map cleared_level (tw_levels w),
            tw_free_head := 0, tw_live := 0, tw_now := 0, tw_next_seq := 0 \<rparr>)"

section \<open>Self-check\<close>

text \<open>
  The walk of one bucket: \<open>Some None\<close> is a failed check, otherwise the number of events and the last
  one. \<open>None\<close> is a walk that does not end, which only the free list allows.
\<close>

definition audit_slot :: "'a wheel \<Rightarrow> nat \<Rightarrow> nat \<Rightarrow> nat \<Rightarrow> 'a wheel_slot \<Rightarrow> bool" where
  "audit_slot w li b prev s =
     (let now = tw_now w; shift = kBitsPerLevel * (li + 1)
      in ws_live s \<and> ws_bucket s = li * kBuckets + b \<and> ws_prev s = prev \<and> \<not> ws_ts s < now \<and>
         (if li > 0
          then \<not> (shift < 64 \<and> drop_bit shift (ws_ts s XOR now) \<noteq> 0) \<and>
               wheel_digit (ws_ts s) li = b \<and> \<not> b \<le> wheel_digit now li
          else drop_bit kBitsPerLevel (ws_ts s) = drop_bit kBitsPerLevel now))"

partial_function (option) audit_chain :: "'a wheel \<Rightarrow> nat \<Rightarrow> nat \<Rightarrow> nat \<Rightarrow> nat \<Rightarrow> nat \<Rightarrow> (nat \<times> nat) option option" where
  [code]: "audit_chain w li b idx prev chain =
     (if idx = kNullIndex then Some (Some (chain, prev))
      else if chain + 1 > tw_capacity w then Some None
      else if \<not> audit_slot w li b prev (tw_slots w ! idx) then Some None
      else audit_chain w li b (ws_next (tw_slots w ! idx)) idx (chain + 1))"

definition audit_bucket :: "'a wheel \<Rightarrow> nat \<Rightarrow> nat \<Rightarrow> nat option option" where
  "audit_bucket w li b =
     (let l = tw_levels w ! li; has_bit = (drop_bit b (wl_occupied l) AND 1 \<noteq> 0); h = wl_head l ! b
      in if has_bit \<noteq> (h \<noteq> kNullIndex) then Some None
         else if has_bit \<and> wl_tail l ! b = kNullIndex then Some None
         else do {
           r \<leftarrow> audit_chain w li b h kNullIndex 0;
           Some (case r of None \<Rightarrow> None
                 | Some (chain, final) \<Rightarrow> if has_bit \<and> wl_tail l ! b \<noteq> final then None else Some chain)
         })"

fun audit_buckets :: "'a wheel \<Rightarrow> (nat \<times> nat) list \<Rightarrow> nat \<Rightarrow> nat option option" where
  "audit_buckets w [] seen = Some (Some seen)"
| "audit_buckets w ((li, b) # bs) seen = do {
     r \<leftarrow> audit_bucket w li b;
     case r of None \<Rightarrow> Some None | Some chain \<Rightarrow> audit_buckets w bs (seen + chain)
   }"

partial_function (option) audit_wheel_free :: "'a wheel \<Rightarrow> nat \<Rightarrow> nat \<Rightarrow> nat option option" where
  [code]: "audit_wheel_free w cursor n =
     (if cursor = kNullIndex then Some (Some n)
      else if cursor \<ge> tw_capacity w \<or> ws_live (tw_slots w ! cursor) then Some None
      else audit_wheel_free w (ws_free_next (tw_slots w ! cursor)) (n + 1))"

definition wheel_audit :: "'a wheel \<Rightarrow> bool option" where
  "wheel_audit w = do {
     r \<leftarrow> audit_buckets w (List.product [0..<kLevels] [0..<kBuckets]) 0;
     case r of None \<Rightarrow> Some False
     | Some seen \<Rightarrow>
         if seen \<noteq> tw_live w then Some False
         else do {
           f \<leftarrow> audit_wheel_free w (tw_free_head w) 0;
           Some (case f of None \<Rightarrow> False
                 | Some free_len \<Rightarrow> free_len + (tw_capacity w - tw_watermark w) + seen = tw_capacity w)
         }
   }"

end
