(* ===== verification/WheelRoute.thy ===== *)
theory WheelRoute
  imports TimingWheel
begin

text \<open>
  The routing arithmetic of the timing wheel on natural numbers. \<open>placed n t b\<close> says that an event
  of time \<open>t\<close> waits in bucket \<open>b\<close> when the watermark is \<open>n\<close>: the digits above the level of \<open>b\<close>
  agree and the bucket is the digit of \<open>t\<close> there. \<open>route_bucket\<close> computes the only such bucket.
\<close>

lemmas wheel_consts = kBitsPerLevel_def kBuckets_def kLevels_def

section \<open>Digits\<close>

lemma unat_and_63: "unat ((w :: 'a::len word) AND 63) = unat w mod 64"
proof -
  have "w AND 63 = take_bit 6 w" by (simp add: take_bit_eq_mask mask_numeral)
  then have "unat (w AND 63) = take_bit 6 (unat w)" by (simp only: unsigned_take_bit_eq)
  then show ?thesis by (simp add: take_bit_eq_mod)
qed

lemma unat_drop: "unat (drop_bit n (w :: 'a::len word)) = unat w div 2 ^ n"
  unfolding unat_drop_bit_eq by (rule drop_bit_eq_div)

lemma pow64: "(2 :: nat) ^ (6 * k) = 64 ^ k"
  by (simp add: power_mult)

lemma wheel_digit_eq: "wheel_digit ts li = (unat ts div 64 ^ li) mod 64"
  by (simp add: wheel_digit_def unat_and_63 unat_drop wheel_consts pow64)

lemma tick_slot_eq: "tick_slot now = unat now mod 64"
proof -
  have "(unat now mod 4294967296) mod 64 = unat now mod 64" by (intro mod_mod_cancel) (simp add: dvd_def)
  then show ?thesis by (simp add: tick_slot_def unat_and_63 unsigned_ucast_eq take_bit_eq_mod)
qed

lemma drop_xor_zero: "drop_bit n ((a :: 'a::len word) XOR b) = 0 \<longleftrightarrow> unat a div 2 ^ n = unat b div 2 ^ n"
proof -
  have "drop_bit n (a XOR b) = 0 \<longleftrightarrow> drop_bit n a XOR drop_bit n b = 0" by (simp only: drop_bit_xor)
  also have "\<dots> \<longleftrightarrow> drop_bit n a = drop_bit n b"
    unfolding bit_eq_iff[of "drop_bit n a XOR drop_bit n b"] bit_eq_iff[of "drop_bit n a"]
    by (simp add: bit_xor_iff)
  finally show ?thesis by (simp add: word_unat_eq_iff unat_drop)
qed

lemma unat_lt64: "unat (w :: u64) < 64 ^ 11"
proof -
  have "unat w < 2 ^ LENGTH(64)" by (rule unsigned_less)
  then show ?thesis by simp
qed

section \<open>Where an event waits\<close>

definition placed :: "nat \<Rightarrow> nat \<Rightarrow> nat \<Rightarrow> bool" where
  "placed n t b \<longleftrightarrow> (let li = b div 64
     in t div 64 ^ (li + 1) = n div 64 ^ (li + 1) \<and> b mod 64 = (t div 64 ^ li) mod 64 \<and>
        (li = 0 \<or> t div 64 ^ li \<noteq> n div 64 ^ li))"

lemma div_agree_up: "(t :: nat) div 64 ^ i = n div 64 ^ i \<Longrightarrow> i \<le> j \<Longrightarrow> t div 64 ^ j = n div 64 ^ j"
  by (metis div_mult2_eq le_add_diff_inverse power_add)

lemma placed_unique:
  assumes "placed n t b" and "placed n t c"
  shows "b = c"
proof -
  have "b div 64 = c div 64"
    using assms div_agree_up[of t "b div 64 + 1" n "c div 64"] div_agree_up[of t "c div 64 + 1" n "b div 64"]
    by (cases "b div 64" "c div 64" rule: linorder_cases) (auto simp: placed_def Let_def)
  moreover have "b mod 64 = c mod 64" using assms \<open>b div 64 = c div 64\<close> by (simp add: placed_def Let_def)
  ultimately show ?thesis by (metis div_mult_mod_eq)
qed

lemma route_placed: "placed (unat now) (unat ts) (route_bucket now ts)"
proof (cases "ts = now")
  case True
  then show ?thesis by (simp add: route_bucket_def tick_slot_eq placed_def)
next
  case False
  let ?d = "ts XOR now"
  from False have d: "?d \<noteq> 0" using drop_xor_zero[of 0 ts now] by (simp add: word_unat_eq_iff)
  define top where "top = 63 - countl_zero ?d"
  define L where "L = top div 6"
  have bt: "bit ?d top" and ab: "\<And>m. top < m \<Longrightarrow> \<not> bit ?d m"
    using countl_zero_spec(2,3)[OF d] by (simp_all add: top_def)
  have r: "route_bucket now ts = L * 64 + wheel_digit ts L"
    using d False by (simp add: route_bucket_def Let_def top_def L_def wheel_consts)
  have w: "wheel_digit ts L < 64" by (simp add: wheel_digit_eq)
  then have dm: "route_bucket now ts div 64 = L" "route_bucket now ts mod 64 = wheel_digit ts L" by (simp_all add: r)
  have "drop_bit (6 * (L + 1)) ?d = 0"
  proof (rule bit_eqI)
    fix k
    have "top < 6 * (L + 1) + k" by (simp add: L_def)
    then show "bit (drop_bit (6 * (L + 1)) ?d) k = bit 0 k" using ab by (simp add: bit_drop_bit_eq del: bit_xor_iff drop_bit_xor)
  qed
  then have up: "unat ts div 64 ^ (L + 1) = unat now div 64 ^ (L + 1)"
    unfolding drop_xor_zero pow64 .
  have "bit (drop_bit (6 * L) ?d) (top - 6 * L)"
    using bt by (simp add: bit_drop_bit_eq L_def del: bit_xor_iff drop_bit_xor)
  then have "drop_bit (6 * L) ?d \<noteq> 0" by (metis bit_0_eq bot_apply bot_bool_def)
  then have ne: "unat ts div 64 ^ L \<noteq> unat now div 64 ^ L" unfolding drop_xor_zero pow64 .
  show ?thesis using up ne dm by (simp add: placed_def Let_def wheel_digit_eq)
qed

lemma placed_route: "placed (unat now) (unat ts) b \<longleftrightarrow> b = route_bucket now ts"
  using route_placed placed_unique by blast

lemma placed_same_time: "placed n t b \<Longrightarrow> b < 64 \<Longrightarrow> t = n div 64 * 64 + b"
  by (simp add: placed_def Let_def) (metis div_mult_mod_eq)

lemma placed_bound:
  assumes p: "placed n t b" and t: "t < 64 ^ 11" and n: "n < 64 ^ 11"
  shows "b < 704"
proof (rule ccontr)
  assume "\<not> b < 704"
  then have li: "11 \<le> b div 64" by simp
  then have b0: "b div 64 \<noteq> 0" by linarith
  have "t div 64 ^ (b div 64 + 1) = n div 64 ^ (b div 64 + 1)" "t div 64 ^ (b div 64) \<noteq> n div 64 ^ (b div 64)"
    using p b0 by (simp_all add: placed_def Let_def del: power_Suc)
  moreover have "x div 64 ^ (b div 64) = 0" if "x < 64 ^ 11" for x :: nat
    using that power_increasing[OF li, of "64 :: nat"] by (intro div_less) linarith
  ultimately show False using t n by metis
qed

lemma window_mod_le: "(n :: nat) \<le> n div 64 * 64 + s \<longleftrightarrow> n mod 64 \<le> s"
  by (metis div_mult_mod_eq nat_add_left_cancel_le)

lemma window_mod_less: "(n :: nat) < n div 64 * 64 + s \<longleftrightarrow> n mod 64 < s"
  by (metis div_mult_mod_eq nat_add_left_cancel_less)

lemma window_after: "(n :: nat) div 64 < t div 64 \<Longrightarrow> n \<le> t"
  using div_le_mono[of t n 64] by (meson le_less_trans less_irrefl nat_le_linear)

section \<open>Boundaries\<close>

text \<open>The boundary of the bucket an event waits in is its time, rounded down to the bucket's digit.\<close>

definition bound_of :: "nat \<Rightarrow> nat \<Rightarrow> nat" where
  "bound_of t li = t div 64 ^ li * 64 ^ li"

lemma bound_of_le: "bound_of t li \<le> t"
  by (simp add: bound_of_def div_times_less_eq_dividend)

lemma bound_of_div: "bound_of t li div 64 ^ li = t div 64 ^ li"
  by (simp add: bound_of_def)

lemma placed_later:
  assumes "placed n t b" and "n \<le> t" and "b div 64 \<noteq> 0"
  shows "n div 64 ^ (b div 64) < t div 64 ^ (b div 64)" "n < bound_of t (b div 64)"
proof -
  have "n div 64 ^ (b div 64) \<noteq> t div 64 ^ (b div 64)" using assms by (simp add: placed_def Let_def)
  moreover have "n div 64 ^ (b div 64) \<le> t div 64 ^ (b div 64)" using assms(2) by (rule div_le_mono)
  ultimately show l: "n div 64 ^ (b div 64) < t div 64 ^ (b div 64)" by simp
  show "n < bound_of t (b div 64)"
    unfolding bound_of_def using l by (simp add: div_less_iff_less_mult)
qed

text \<open>The digit of a coarse bucket is strictly ahead of the watermark's digit.\<close>

lemma placed_digit:
  assumes "placed n t b" and "n \<le> t" and "b div 64 \<noteq> 0"
  shows "(n div 64 ^ (b div 64)) mod 64 < b mod 64"
proof -
  let ?k = "b div 64"
  have e: "t div 64 ^ ?k div 64 = n div 64 ^ ?k div 64" "b mod 64 = (t div 64 ^ ?k) mod 64"
    using assms(1) by (simp_all add: placed_def Let_def div_mult2_eq[symmetric] mult.commute)
  have "n div 64 ^ ?k < t div 64 ^ ?k" by (rule placed_later[OF assms])
  then show ?thesis using e by (metis div_mult_mod_eq nat_add_left_cancel_less)
qed

text \<open>Moving the watermark inside the current window of 64 ticks keeps every place.\<close>

lemma placed_window:
  assumes "n div 64 = n' div 64"
  shows "placed n' t b = placed n t b"
proof -
  have e: "n div 64 ^ i = n' div 64 ^ i" if "i \<noteq> 0" for i
    using div_agree_up[of n 1 n' i] assms that by simp
  show ?thesis using e[of "b div 64 + 1"] e[of "b div 64"] by (cases "b div 64 = 0") (auto simp: placed_def Let_def)
qed

text \<open>
  Moving it to the least boundary of the pending events: the events below the level of that
  boundary do not exist, those above and those of other digits stay where they are.
\<close>

lemma boundary_below:
  assumes t0: "placed n t0 b0" "n \<le> t0" "b0 div 64 = l" "l \<noteq> 0"
    and t: "placed n t b" and le: "bound_of t0 l \<le> t"
  shows "l \<le> b div 64"
proof (rule ccontr)
  assume "\<not> l \<le> b div 64"
  then have "t div 64 ^ l = n div 64 ^ l"
    using div_agree_up[of t "b div 64 + 1" n l] t by (simp add: placed_def Let_def)
  moreover have "n div 64 ^ l < t0 div 64 ^ l" using placed_later(1)[OF t0(1,2)] t0(3,4) by simp
  moreover have "t0 div 64 ^ l \<le> t div 64 ^ l" using div_le_mono[OF le, of "64 ^ l"] by (simp add: bound_of_div)
  ultimately show False by simp
qed

lemma boundary_stays:
  assumes t0: "placed n t0 b0" "b0 div 64 = l"
    and t: "placed n t b" and b: "l \<le> b div 64" "l \<noteq> 0"
    and other: "b div 64 = l \<Longrightarrow> t div 64 ^ l \<noteq> t0 div 64 ^ l"
  shows "placed (bound_of t0 l) t b"
proof -
  let ?n = "bound_of t0 l"
  have up: "?n div 64 ^ j = n div 64 ^ j" if "l < j" for j
  proof -
    have "?n div 64 ^ j = t0 div 64 ^ j"
      using div_agree_up[OF bound_of_div[of t0 l], of j] that by simp
    also have "\<dots> = n div 64 ^ j"
      using div_agree_up[of t0 "l + 1" n j] t0 that by (simp add: placed_def Let_def)
    finally show ?thesis .
  qed
  show ?thesis
  proof (cases "b div 64 = l")
    case True
    then show ?thesis using t up[of "l + 1"] other by (simp add: placed_def Let_def bound_of_div)
  next
    case False
    then show ?thesis using t up[of "b div 64"] up[of "b div 64 + 1"] b by (simp add: placed_def Let_def)
  qed
qed

end
