(* ===== verification/WheelChains.thy ===== *)
theory WheelChains
  imports WheelRoute
begin

text \<open>
  The bucket lists of the timing wheel. \<open>links w ch X\<close> represents the buckets by the lists \<open>ch\<close> of
  their slots, when the live slots of \<open>X\<close> are in none. \<open>attach\<close> appends to the routed bucket,
  \<open>detach\<close> removes from the event's bucket, and neither changes anything but links.
\<close>

section \<open>Doubly linked lists of slots\<close>

fun linked :: "'a wheel_slot list \<Rightarrow> nat \<Rightarrow> nat list \<Rightarrow> nat \<Rightarrow> bool" where
  "linked sl p [] n \<longleftrightarrow> True"
| "linked sl p (x # xs) n \<longleftrightarrow>
     x < length sl \<and> ws_prev (sl ! x) = p \<and> ws_next (sl ! x) = hd_or n xs \<and> linked sl x xs n"

lemma linked_append [simp]:
  "linked sl p (xs @ ys) n \<longleftrightarrow> linked sl p xs (hd_or n ys) \<and> linked sl (last_or p xs) ys n"
  by (induction xs arbitrary: p) auto

lemma linked_cong:
  assumes "length sl' = length sl"
    and "\<And>x. x \<in> set xs \<Longrightarrow> ws_prev (sl' ! x) = ws_prev (sl ! x) \<and> ws_next (sl' ! x) = ws_next (sl ! x)"
  shows "linked sl' p xs n = linked sl p xs n"
  using assms(2) by (induction xs arbitrary: p) (simp_all add: assms(1))

lemma linked_upd: "x \<notin> set xs \<Longrightarrow> linked (sl[x := s]) p xs n = linked sl p xs n"
  by (rule linked_cong) (simp, metis nth_list_update_neq)

lemma linked_set_next:
  assumes "linked sl p (xs @ [x]) n" and "distinct (xs @ [x])"
  shows "linked (sl[x := (sl ! x)\<lparr> ws_next := m \<rparr>]) p (xs @ [x]) m"
  using assms by (simp add: linked_upd)

lemma linked_set_prev:
  assumes "linked sl p (x # xs) n" and "distinct (x # xs)"
  shows "linked (sl[x := (sl ! x)\<lparr> ws_prev := q \<rparr>]) q (x # xs) n"
  using assms by (simp add: linked_upd)

section \<open>The buckets\<close>

definition level_shape :: "wheel_level \<Rightarrow> bool" where
  "level_shape l \<longleftrightarrow> length (wl_head l) = 64 \<and> length (wl_tail l) = 64 \<and>
     length (wl_sorted l) = 64 \<and> length (wl_last_seq l) = 64"

definition wheel_shape :: "'a wheel \<Rightarrow> bool" where
  "wheel_shape w \<longleftrightarrow> length (tw_slots w) = tw_capacity w \<and> tw_watermark w \<le> tw_capacity w \<and>
     tw_capacity w < kNullIndex \<and> length (tw_levels w) = 11 \<and> (\<forall>l \<in> set (tw_levels w). level_shape l)"

definition bucket_ok :: "'a wheel \<Rightarrow> nat \<Rightarrow> nat list \<Rightarrow> bool" where
  "bucket_ok w b xs \<longleftrightarrow> (let l = tw_levels w ! (b div 64); s = b mod 64
     in wl_head l ! s = hd_or kNullIndex xs \<and> wl_tail l ! s = last_or kNullIndex xs \<and>
        (bit (wl_occupied l) s \<longleftrightarrow> xs \<noteq> []) \<and> distinct xs \<and>
        linked (tw_slots w) kNullIndex xs kNullIndex)"

definition links :: "'a wheel \<Rightarrow> (nat \<Rightarrow> nat list) \<Rightarrow> nat set \<Rightarrow> bool" where
  "links w ch X \<longleftrightarrow> wheel_shape w \<and> (\<forall>b < 704. bucket_ok w b (ch b)) \<and>
     (\<forall>b i. i \<in> set (ch b) \<longrightarrow> b < 704 \<and> i < tw_watermark w \<and> i \<notin> X \<and>
        ws_live (tw_slots w ! i) \<and> ws_bucket (tw_slots w ! i) = b) \<and>
     (\<forall>i < tw_watermark w. ws_live (tw_slots w ! i) \<longrightarrow> i \<notin> X \<longrightarrow> i \<in> set (ch (ws_bucket (tw_slots w ! i))))"

text \<open>The data of an event, and states that agree on it.\<close>

definition ws_data :: "'a wheel_slot \<Rightarrow> 'a \<times> u64 \<times> u64 \<times> u32 \<times> nat \<times> bool" where
  "ws_data s = (ws_value s, ws_ts s, ws_seq s, ws_generation s, ws_free_next s, ws_live s)"

definition wheel_same :: "'a wheel \<Rightarrow> 'a wheel \<Rightarrow> bool" where
  "wheel_same w w' \<longleftrightarrow> tw_capacity w' = tw_capacity w \<and> tw_watermark w' = tw_watermark w \<and>
     tw_free_head w' = tw_free_head w \<and> tw_live w' = tw_live w \<and> tw_next_seq w' = tw_next_seq w \<and>
     length (tw_slots w') = length (tw_slots w) \<and>
     (\<forall>i. ws_data (tw_slots w' ! i) = ws_data (tw_slots w ! i))"

lemma wheel_same_refl [simp]: "wheel_same w w"
  by (simp add: wheel_same_def)

lemma wheel_same_trans: "wheel_same w w' \<Longrightarrow> wheel_same w' w'' \<Longrightarrow> wheel_same w w''"
  by (simp add: wheel_same_def)

lemma wheel_sameD:
  assumes "wheel_same w w'"
  shows "ws_value (tw_slots w' ! i) = ws_value (tw_slots w ! i)" "ws_ts (tw_slots w' ! i) = ws_ts (tw_slots w ! i)"
    "ws_seq (tw_slots w' ! i) = ws_seq (tw_slots w ! i)"
    "ws_generation (tw_slots w' ! i) = ws_generation (tw_slots w ! i)"
    "ws_free_next (tw_slots w' ! i) = ws_free_next (tw_slots w ! i)"
    "ws_live (tw_slots w' ! i) = ws_live (tw_slots w ! i)"
    "tw_capacity w' = tw_capacity w" "tw_watermark w' = tw_watermark w" "tw_free_head w' = tw_free_head w"
    "tw_live w' = tw_live w" "tw_next_seq w' = tw_next_seq w" "length (tw_slots w') = length (tw_slots w)"
  using assms by (auto simp: wheel_same_def ws_data_def)

lemma linksD:
  assumes "links w ch X"
  shows "wheel_shape w" "b < 704 \<Longrightarrow> bucket_ok w b (ch b)"
    "i \<in> set (ch b) \<Longrightarrow> b < 704" "i \<in> set (ch b) \<Longrightarrow> i < tw_watermark w" "i \<in> set (ch b) \<Longrightarrow> i \<notin> X"
    "i \<in> set (ch b) \<Longrightarrow> ws_live (tw_slots w ! i)" "i \<in> set (ch b) \<Longrightarrow> ws_bucket (tw_slots w ! i) = b"
    "i < tw_watermark w \<Longrightarrow> ws_live (tw_slots w ! i) \<Longrightarrow> i \<notin> X \<Longrightarrow> i \<in> set (ch (ws_bucket (tw_slots w ! i)))"
  using assms unfolding links_def by blast+

lemma wheel_shapeD:
  assumes "wheel_shape w"
  shows "length (tw_slots w) = tw_capacity w" "tw_watermark w \<le> tw_capacity w" "tw_capacity w < kNullIndex"
    "length (tw_levels w) = 11" "li < 11 \<Longrightarrow> level_shape (tw_levels w ! li)"
  using assms by (auto simp: wheel_shape_def)

lemma links_now [simp]: "links (w\<lparr> tw_now := n \<rparr>) ch X = links w ch X"
  by (simp add: links_def wheel_shape_def bucket_ok_def)

section \<open>Attach\<close>

lemma bit_set_bit: "s < 64 \<Longrightarrow> bit ((occ :: u64) OR 2 ^ s) j \<longleftrightarrow> bit occ j \<or> j = s"
  by (auto simp: bit_or_iff bit_exp_iff)

lemma bit_clear_bit: "bit ((occ :: u64) AND NOT (2 ^ s)) j \<longleftrightarrow> bit occ j \<and> j \<noteq> s"
  by (auto simp: bit_and_iff bit_not_iff bit_exp_iff dest: bit_imp_le_length)

lemma attach_links:
  assumes l: "links w ch {i}" and i: "i < tw_watermark w" "ws_live (tw_slots w ! i)"
    and b: "b = route_bucket (tw_now w) (ws_ts (tw_slots w ! i))" "b < 704"
  shows "links (attach i w) (ch(b := ch b @ [i])) {}" "wheel_same w (attach i w)"
    "tw_now (attach i w) = tw_now w"
    "b < 64 \<Longrightarrow> wl_sorted (tw_levels (attach i w) ! 0) ! b =
       (ch b = [] \<or> wl_sorted (tw_levels w ! 0) ! b \<and> wl_last_seq (tw_levels w ! 0) ! b < ws_seq (tw_slots w ! i))"
    "b < 64 \<Longrightarrow> wl_last_seq (tw_levels (attach i w) ! 0) ! b = ws_seq (tw_slots w ! i)"
    "\<And>s. s < 64 \<Longrightarrow> s \<noteq> b \<Longrightarrow> wl_sorted (tw_levels (attach i w) ! 0) ! s = wl_sorted (tw_levels w ! 0) ! s \<and>
       wl_last_seq (tw_levels (attach i w) ! 0) ! s = wl_last_seq (tw_levels w ! 0) ! s"
proof -
  note sh = wheel_shapeD[OF linksD(1)[OF l]]
  note bo = linksD(2)[OF l b(2)]
  let ?w = "attach i w" and ?li = "b div 64" and ?s = "b mod 64"
  let ?l = "tw_levels w ! ?li"
  let ?t = "last_or kNullIndex (ch b)"
  have li: "?li < 11" using b(2) by simp
  have ls: "level_shape ?l" using sh(5)[OF li] .
  have iN: "i \<noteq> kNullIndex" "i < length (tw_slots w)" using i sh by auto
  have ni: "i \<notin> set (ch c)" for c using linksD(5)[OF l, of i c] by blast
  have hd: "wl_head ?l ! ?s = kNullIndex \<longleftrightarrow> ch b = []" and tl: "wl_tail ?l ! ?s = ?t"
  proof -
    have "hd_or kNullIndex (ch b) = kNullIndex \<Longrightarrow> ch b = []"
      using hd_or_in[of "ch b" kNullIndex] linksD(4)[OF l, of kNullIndex b] sh by fastforce
    then show "wl_head ?l ! ?s = kNullIndex \<longleftrightarrow> ch b = []" "wl_tail ?l ! ?s = ?t"
      using bo by (auto simp: bucket_ok_def Let_def)
  qed
  define sl where "sl = (let sl = (tw_slots w)[i := (tw_slots w ! i)\<lparr> ws_bucket := b, ws_next := kNullIndex,
      ws_prev := (if ch b = [] then kNullIndex else ?t) \<rparr>]
    in if ch b = [] then sl else sl[?t := (sl ! ?t)\<lparr> ws_next := i \<rparr>])"
  define hd' where "hd' = (if ch b = [] then (wl_head ?l)[?s := i] else wl_head ?l)"
  have hdi: "hd' ! ?s = i \<longleftrightarrow> ch b = []"
    using ls ni[of b] hd_or_in[of "ch b" kNullIndex] bo by (auto simp: hd'_def level_shape_def bucket_ok_def Let_def)
  have eq: "?w = w\<lparr> tw_slots := sl, tw_levels := (tw_levels w)[?li := ?l\<lparr> wl_head := hd',
      wl_tail := (wl_tail ?l)[?s := i], wl_occupied := wl_occupied ?l OR push_bit ?s 1,
      wl_sorted := (if ?li = 0 then (wl_sorted ?l)[?s := (ch b = [] \<or> wl_sorted ?l ! ?s \<and>
         wl_last_seq ?l ! ?s < ws_seq (tw_slots w ! i))] else wl_sorted ?l),
      wl_last_seq := (if ?li = 0 then (wl_last_seq ?l)[?s := ws_seq (tw_slots w ! i)] else wl_last_seq ?l) \<rparr>] \<rparr>"
    unfolding attach_def wheel_consts Let_def b(1)[symmetric] hd tl
    using hdi by (cases "ch b = []"; cases "?li = 0") (simp_all add: sl_def hd'_def Let_def)
  have t: "?t \<in> set (ch b)" "?t \<noteq> i" "?t < length (tw_slots w)" if "ch b \<noteq> []"
    using last_or_in[OF that, of kNullIndex] ni[of b] linksD(4)[OF l, of ?t b] sh by auto
  have nt: "?t \<notin> set (ch c)" if "c \<noteq> b" "ch b \<noteq> []" for c
    using linksD(7)[OF l, of ?t] t(1)[OF that(2)] that(1) by metis
  have sl_nth: "sl ! j = (if j = i then (tw_slots w ! i)\<lparr> ws_bucket := b, ws_next := kNullIndex,
      ws_prev := (if ch b = [] then kNullIndex else ?t) \<rparr>
      else if ch b \<noteq> [] \<and> j = ?t then (tw_slots w ! ?t)\<lparr> ws_next := i \<rparr> else tw_slots w ! j)" for j
    using iN t by (auto simp: sl_def Let_def nth_list_update)
  have len: "length sl = length (tw_slots w)" by (simp add: sl_def Let_def)
  show same: "wheel_same w ?w" using len by (auto simp: wheel_same_def eq sl_nth ws_data_def)
  show "tw_now ?w = tw_now w" by (simp add: eq)
  have chain: "linked sl kNullIndex (ch b @ [i]) kNullIndex"
  proof (cases "ch b" rule: rev_cases)
    case Nil
    then show ?thesis using iN by (simp add: sl_def Let_def)
  next
    case (snoc ys y)
    have "linked (tw_slots w) kNullIndex (ys @ [y]) kNullIndex" "distinct (ys @ [y])"
      using bo snoc by (simp_all add: bucket_ok_def Let_def)
    from linked_set_next[OF this, of i] have "linked sl kNullIndex (ys @ [y]) i"
      using snoc ni[of b] by (subst linked_cong[of sl "(tw_slots w)[y := (tw_slots w ! y)\<lparr> ws_next := i \<rparr>]"])
        (auto simp: len sl_nth nth_list_update)
    then show ?thesis using snoc iN len by (simp add: sl_nth)
  qed
  have buckets: "bucket_ok ?w c ((ch(b := ch b @ [i])) c)" if c: "c < 704" for c
  proof (cases "c = b")
    case True
    have "hd' ! ?s = hd_or kNullIndex (ch b @ [i])"
      using ls hd bo by (cases "ch b") (auto simp: hd'_def level_shape_def bucket_ok_def Let_def)
    then show ?thesis
      using chain bo ls li sh(4) ni[of b] True
      by (simp add: bucket_ok_def Let_def eq level_shape_def bit_set_bit)
  next
    case False
    note co = linksD(2)[OF l c]
    have "linked sl kNullIndex (ch c) kNullIndex"
      using co ni[of c] nt[OF False] by (subst linked_cong[of sl "tw_slots w"])
        (auto simp: bucket_ok_def Let_def len sl_nth)
    moreover have "c mod 64 \<noteq> ?s" if "c div 64 = ?li" using False that by (metis div_mult_mod_eq)
    ultimately show ?thesis
      using co False li sh(4) ls by (auto simp: bucket_ok_def Let_def eq nth_list_update bit_set_bit hd'_def level_shape_def)
  qed
  have "level_shape x" if "x \<in> set (tw_levels ?w)" for x
  proof -
    have "\<forall>x \<in> set (tw_levels w). level_shape x" using linksD(1)[OF l] by (simp add: wheel_shape_def)
    with that ls show ?thesis
      by (auto simp: eq level_shape_def hd'_def dest!: set_update_subset_insert[THEN subsetD])
  qed
  then have "wheel_shape ?w" using sh len by (simp add: wheel_shape_def eq)
  moreover have "j \<in> set ((ch(b := ch b @ [i])) c) \<Longrightarrow> c < 704 \<and> j < tw_watermark ?w \<and> j \<notin> {} \<and>
      ws_live (tw_slots ?w ! j) \<and> ws_bucket (tw_slots ?w ! j) = c" for c j
    using linksD(3,4,6,7)[OF l, of j c] i b t ni nt by (auto simp: eq sl_nth split: if_splits)
  moreover have "j \<in> set ((ch(b := ch b @ [i])) (ws_bucket (tw_slots ?w ! j)))"
    if "j < tw_watermark ?w" "ws_live (tw_slots ?w ! j)" for j
    using linksD(8)[OF l, of j] that by (auto simp: eq sl_nth split: if_splits)
  ultimately show "links ?w (ch(b := ch b @ [i])) {}" using buckets unfolding links_def by blast
  have z: "?li = 0 \<longleftrightarrow> b < 64" "b < 64 \<Longrightarrow> ?s = b" by auto
  show "wl_sorted (tw_levels ?w ! 0) ! b = (ch b = [] \<or> wl_sorted (tw_levels w ! 0) ! b \<and>
      wl_last_seq (tw_levels w ! 0) ! b < ws_seq (tw_slots w ! i))"
    "wl_last_seq (tw_levels ?w ! 0) ! b = ws_seq (tw_slots w ! i)" if "b < 64"
    using that ls sh(4) by (simp_all add: eq level_shape_def)
  show "wl_sorted (tw_levels ?w ! 0) ! s = wl_sorted (tw_levels w ! 0) ! s \<and>
      wl_last_seq (tw_levels ?w ! 0) ! s = wl_last_seq (tw_levels w ! 0) ! s" if "s < 64" "s \<noteq> b" for s
    using that ls sh(4) z by (auto simp: eq nth_list_update level_shape_def)
qed

section \<open>Detach\<close>

lemma detach_links:
  assumes l: "links w ch {}" and i: "i \<in> set (ch b)"
  shows "links (detach i w) (ch(b := remove1 i (ch b))) {i}" "wheel_same w (detach i w)"
    "tw_now (detach i w) = tw_now w"
    "b < 64 \<Longrightarrow> remove1 i (ch b) \<noteq> [] \<Longrightarrow> wl_sorted (tw_levels (detach i w) ! 0) ! b = wl_sorted (tw_levels w ! 0) ! b"
    "\<And>s. s < 64 \<Longrightarrow> s \<noteq> b \<Longrightarrow> wl_sorted (tw_levels (detach i w) ! 0) ! s = wl_sorted (tw_levels w ! 0) ! s"
    "\<And>s. wl_last_seq (tw_levels (detach i w) ! 0) ! s = wl_last_seq (tw_levels w ! 0) ! s"
proof -
  note sh = wheel_shapeD[OF linksD(1)[OF l]]
  have b: "b < 704" using linksD(3)[OF l i] .
  note bo = linksD(2)[OF l b]
  let ?w = "detach i w" and ?li = "b div 64" and ?s = "b mod 64"
  let ?l = "tw_levels w ! ?li"
  have li: "?li < 11" using b by simp
  have ls: "level_shape ?l" using sh(5)[OF li] .
  have wb: "ws_bucket (tw_slots w ! i) = b" using linksD(7)[OF l i] .
  obtain ys zs where c: "ch b = ys @ i # zs" using i by (metis split_list)
  have dist: "distinct (ys @ i # zs)" and lk: "linked (tw_slots w) kNullIndex (ys @ i # zs) kNullIndex"
    using bo c by (auto simp: bucket_ok_def Let_def)
  have rm: "remove1 i (ch b) = ys @ zs" using dist by (simp add: c remove1_append)
  let ?p = "last_or kNullIndex ys" and ?n = "hd_or kNullIndex zs"
  have pn: "ws_prev (tw_slots w ! i) = ?p" "ws_next (tw_slots w ! i) = ?n" using lk by simp_all
  have mem: "x < length (tw_slots w) \<and> x \<noteq> kNullIndex" if "x \<in> set (ch b)" for x
    using linksD(4)[OF l that] sh by simp
  have pN: "?p \<noteq> kNullIndex \<longleftrightarrow> ys \<noteq> []" and nN: "?n \<noteq> kNullIndex \<longleftrightarrow> zs \<noteq> []"
    using last_or_in[of ys kNullIndex] hd_or_in[of zs kNullIndex] mem by (fastforce simp: c)+
  have hdy: "hd_or ?n ys = kNullIndex \<longleftrightarrow> ys @ zs = []"
    using hd_or_in[of ys ?n] nN mem by (cases "ys = []") (fastforce simp: c)+
  have hd: "wl_head ?l ! ?s = hd_or i ys" and tl: "wl_tail ?l ! ?s = last_or i zs"
    using bo c by (auto simp: bucket_ok_def Let_def)
  define sl1 where "sl1 = (if ys \<noteq> [] then (tw_slots w)[?p := (tw_slots w ! ?p)\<lparr> ws_next := ?n \<rparr>] else tw_slots w)"
  define sl2 where "sl2 = (if zs \<noteq> [] then sl1[?n := (sl1 ! ?n)\<lparr> ws_prev := ?p \<rparr>] else sl1)"
  define sl where "sl = sl2[i := (sl2 ! i)\<lparr> ws_bucket := kNullIndex \<rparr>]"
  define hd' where "hd' = (if ys \<noteq> [] then wl_head ?l else (wl_head ?l)[?s := ?n])"
  define tl' where "tl' = (if zs \<noteq> [] then wl_tail ?l else (wl_tail ?l)[?s := ?p])"
  have hds: "hd' ! ?s = hd_or ?n ys" and tls: "tl' ! ?s = last_or ?p zs"
    using ls hd tl by (auto simp: hd'_def tl'_def level_shape_def hd_or_def last_or_def)
  define l' where "l' = (if ys @ zs = []
     then ?l\<lparr> wl_head := hd', wl_tail := tl', wl_occupied := wl_occupied ?l AND NOT (2 ^ ?s),
             wl_sorted := (if ?li = 0 then (wl_sorted ?l)[?s := False] else wl_sorted ?l) \<rparr>
     else ?l\<lparr> wl_head := hd', wl_tail := tl' \<rparr>)"
  have eq: "?w = w\<lparr> tw_slots := sl, tw_levels := (tw_levels w)[?li := l'] \<rparr>"
    unfolding detach_def wheel_consts Let_def wb pn pN nN
    using hds hdy by (cases "ys = []"; cases "zs = []") (simp_all add: sl_def sl1_def sl2_def l'_def hd'_def tl'_def)
  have ne: "?p \<noteq> i" "?p \<notin> set zs" if "ys \<noteq> []"
    using last_or_in[OF that, of kNullIndex] dist by auto
  have ne': "?n \<noteq> i" "?n \<notin> set ys" if "zs \<noteq> []"
    using hd_or_in[OF that, of kNullIndex] dist by auto
  have pm: "?p \<in> set (ch b)" if "ys \<noteq> []" using last_or_in[OF that, of kNullIndex] by (simp add: c)
  have nm: "?n \<in> set (ch b)" if "zs \<noteq> []" using hd_or_in[OF that, of kNullIndex] by (simp add: c)
  have pn_ne: "?p \<noteq> ?n" if "ys \<noteq> []" "zs \<noteq> []"
    using ne(2)[OF that(1)] hd_or_in[OF that(2), of kNullIndex] by metis
  have len: "length sl = length (tw_slots w)" "length sl2 = length (tw_slots w)" "length sl1 = length (tw_slots w)"
    by (simp_all add: sl_def sl1_def sl2_def)
  have n1: "sl1 ! j = (if ys \<noteq> [] \<and> j = ?p then (tw_slots w ! ?p)\<lparr> ws_next := ?n \<rparr> else tw_slots w ! j)" for j
    using mem[OF pm] by (simp add: sl1_def nth_list_update)
  have n2: "sl2 ! j = (if zs \<noteq> [] \<and> j = ?n then (sl1 ! ?n)\<lparr> ws_prev := ?p \<rparr> else sl1 ! j)" for j
    using mem[OF nm] by (simp add: sl2_def nth_list_update len)
  have sl_nth: "sl ! j = (if j = i then (tw_slots w ! i)\<lparr> ws_bucket := kNullIndex \<rparr>
      else if ys \<noteq> [] \<and> j = ?p then (tw_slots w ! ?p)\<lparr> ws_next := ?n \<rparr>
      else if zs \<noteq> [] \<and> j = ?n then (tw_slots w ! ?n)\<lparr> ws_prev := ?p \<rparr> else tw_slots w ! j)" for j
    using mem[OF i] ne(1) ne'(1) pn_ne n2[of i] n1[of i] n2[of j] n1[of j] n1[of ?n]
    by (auto simp: sl_def nth_list_update len)
  show "wheel_same w ?w" using len by (auto simp: wheel_same_def eq sl_nth ws_data_def)
  show "tw_now ?w = tw_now w" by (simp add: eq)
  have keep: "ws_live (sl ! j) = ws_live (tw_slots w ! j) \<and> ws_bucket (sl ! j) = ws_bucket (tw_slots w ! j)"
    if "j \<noteq> i" for j using that by (simp add: sl_nth)
  have chain: "linked sl kNullIndex (ys @ zs) kNullIndex"
  proof -
    have y: "linked sl kNullIndex ys ?n"
    proof (cases ys rule: rev_cases)
      case (snoc us u)
      have "linked (tw_slots w) kNullIndex (us @ [u]) i" "distinct (us @ [u])" using lk dist snoc by auto
      from linked_set_next[OF this, of ?n] show ?thesis
        using dist ne'
        by (subst linked_cong[of sl "(tw_slots w)[u := (tw_slots w ! u)\<lparr> ws_next := ?n \<rparr>]"])
          (auto simp: snoc len sl_nth nth_list_update)
    qed simp
    have z: "linked sl ?p zs kNullIndex"
    proof (cases zs)
      case (Cons u us)
      have "linked (tw_slots w) i (u # us) kNullIndex" "distinct (u # us)" using lk dist Cons by auto
      from linked_set_prev[OF this, of ?p] show ?thesis
        using dist ne
        by (subst linked_cong[of sl "(tw_slots w)[u := (tw_slots w ! u)\<lparr> ws_prev := ?p \<rparr>]"])
          (auto simp: Cons len sl_nth nth_list_update)
    qed simp
    from y z show ?thesis by simp
  qed
  have other: "wl_head l' ! s = wl_head ?l ! s \<and> wl_tail l' ! s = wl_tail ?l ! s \<and>
      bit (wl_occupied l') s = bit (wl_occupied ?l) s" if "s \<noteq> ?s" for s
    using that by (simp add: l'_def hd'_def tl'_def bit_clear_bit)
  have buckets: "bucket_ok ?w k ((ch(b := ys @ zs)) k)" if k: "k < 704" for k
  proof (cases "k = b")
    case True
    then show ?thesis
      using chain bo ls li sh(4) dist hds tls c
      by (auto simp: bucket_ok_def Let_def eq l'_def bit_clear_bit)
  next
    case False
    note co = linksD(2)[OF l k]
    have nk: "x \<notin> set (ch k)" if "x \<in> set (ch b)" for x
      using linksD(7)[OF l, of x] that False by metis
    have "linked sl kNullIndex (ch k) kNullIndex"
      using co nk[OF i] nk[OF pm] nk[OF nm] by (subst linked_cong[of sl "tw_slots w"])
        (auto simp: bucket_ok_def Let_def len sl_nth)
    moreover have "k mod 64 \<noteq> ?s" if "k div 64 = ?li" using False that by (metis div_mult_mod_eq)
    ultimately show ?thesis
      using co False li sh(4) other[of "k mod 64"]
      by (cases "k div 64 = ?li") (simp_all add: bucket_ok_def Let_def eq)
  qed
  have "level_shape x" if "x \<in> set (tw_levels ?w)" for x
  proof -
    have "\<forall>x \<in> set (tw_levels w). level_shape x" using linksD(1)[OF l] by (simp add: wheel_shape_def)
    with that ls show ?thesis
      by (auto simp: eq level_shape_def l'_def hd'_def tl'_def dest!: set_update_subset_insert[THEN subsetD])
  qed
  then have "wheel_shape ?w" using sh len by (simp add: wheel_shape_def eq)
  moreover have "j \<in> set ((ch(b := ys @ zs)) k) \<Longrightarrow> k < 704 \<and> j < tw_watermark ?w \<and> j \<notin> {i} \<and>
      ws_live (tw_slots ?w ! j) \<and> ws_bucket (tw_slots ?w ! j) = k" for k j
  proof -
    assume j: "j \<in> set ((ch(b := ys @ zs)) k)"
    then have jk: "j \<in> set (ch k)" by (auto simp: c split: if_splits)
    have "j \<noteq> i" using j dist linksD(7)[OF l jk] wb by (auto split: if_splits)
    with linksD(3,4,6,7)[OF l jk] keep show ?thesis by (simp add: eq)
  qed
  moreover have "j \<in> set ((ch(b := ys @ zs)) (ws_bucket (tw_slots ?w ! j)))"
    if "j < tw_watermark ?w" "ws_live (tw_slots ?w ! j)" "j \<notin> {i}" for j
    using linksD(8)[OF l, of j] that keep[of j]
    by (cases "ws_bucket (tw_slots w ! j) = b") (simp_all add: eq c)
  ultimately show "links ?w (ch(b := remove1 i (ch b))) {i}"
    unfolding rm using buckets unfolding links_def by blast
  have z: "?li = 0 \<longleftrightarrow> b < 64" "b < 64 \<Longrightarrow> ?s = b" by auto
  show "wl_sorted (tw_levels ?w ! 0) ! b = wl_sorted (tw_levels w ! 0) ! b" if "b < 64" "remove1 i (ch b) \<noteq> []"
    using that sh(4) unfolding rm by (auto simp: eq l'_def)
  show "wl_sorted (tw_levels ?w ! 0) ! s = wl_sorted (tw_levels w ! 0) ! s" if "s < 64" "s \<noteq> b" for s
    using that sh(4) z by (auto simp: eq l'_def nth_list_update)
  show "wl_last_seq (tw_levels ?w ! 0) ! s = wl_last_seq (tw_levels w ! 0) ! s" for s
    using sh(4) by (auto simp: eq l'_def nth_list_update)
qed

end
