(* ===== verification/WheelProofs.thy ===== *)
theory WheelProofs
  imports WheelChains
begin

text \<open>
  The invariant of the timing wheel and \<open>settle\<close>. Every pending event waits in the bucket its
  routing names, events of one time wait in the order of their sequence numbers, and the fast-path
  flag of every occupied level-0 bucket is set, so that the scan for the least sequence number is
  never needed. Settling returns, keeps the events and ends with the due events in the current bucket.
\<close>

section \<open>The invariant\<close>

abbreviation at_ts :: "'a wheel \<Rightarrow> nat \<Rightarrow> nat" where
  "at_ts w i \<equiv> unat (ws_ts (tw_slots w ! i))"

abbreviation at_seq :: "'a wheel \<Rightarrow> nat \<Rightarrow> u64" where
  "at_seq w i \<equiv> ws_seq (tw_slots w ! i)"

abbreviation now_of :: "'a wheel \<Rightarrow> nat" where
  "now_of w \<equiv> unat (tw_now w)"

text \<open>The flags, the order inside the buckets, and the places.\<close>

definition flags_ok :: "'a wheel \<Rightarrow> (nat \<Rightarrow> nat list) \<Rightarrow> bool" where
  "flags_ok w ch \<longleftrightarrow> (\<forall>s < 64. ch s \<noteq> [] \<longrightarrow> wl_sorted (tw_levels w ! 0) ! s \<and>
     wl_last_seq (tw_levels w ! 0) ! s < tw_next_seq w)"

definition earlier :: "'a wheel \<Rightarrow> nat \<Rightarrow> nat \<Rightarrow> bool" where
  "earlier w i j \<longleftrightarrow> (at_ts w i = at_ts w j \<longrightarrow> at_seq w i < at_seq w j)"

definition ordered :: "'a wheel \<Rightarrow> (nat \<Rightarrow> nat list) \<Rightarrow> bool" where
  "ordered w ch \<longleftrightarrow> (\<forall>b. sorted_wrt (earlier w) (ch b))"

definition in_place :: "'a wheel \<Rightarrow> (nat \<Rightarrow> nat list) \<Rightarrow> bool" where
  "in_place w ch \<longleftrightarrow> (\<forall>b i. i \<in> set (ch b) \<longrightarrow> now_of w \<le> at_ts w i \<and> placed (now_of w) (at_ts w i) b)"

text \<open>The free list and the counters.\<close>

fun wheel_free_path :: "'a wheel_slot list \<Rightarrow> nat \<Rightarrow> nat list \<Rightarrow> bool" where
  "wheel_free_path sl i [] \<longleftrightarrow> i = kNullIndex"
| "wheel_free_path sl i (x # xs) \<longleftrightarrow> i = x \<and> x \<noteq> kNullIndex \<and> wheel_free_path sl (ws_free_next (sl ! x)) xs"

definition live_slots :: "'a wheel \<Rightarrow> nat set" where
  "live_slots w = {i. i < tw_watermark w \<and> ws_live (tw_slots w ! i)}"

definition counts_ok :: "'a wheel \<Rightarrow> bool" where
  "counts_ok w \<longleftrightarrow> tw_live w = card (live_slots w) \<and> (\<forall>i \<in> live_slots w. at_seq w i < tw_next_seq w) \<and>
     inj_on (at_seq w) (live_slots w) \<and>
     (\<exists>fs. wheel_free_path (tw_slots w) (tw_free_head w) fs \<and> distinct fs \<and>
        set fs = {..<tw_watermark w} - live_slots w)"

definition wheel_ok :: "'a wheel \<Rightarrow> (nat \<Rightarrow> nat list) \<Rightarrow> bool" where
  "wheel_ok w ch \<longleftrightarrow> links w ch {} \<and> flags_ok w ch \<and> ordered w ch \<and> in_place w ch \<and> counts_ok w"

definition wheel_inv :: "'a wheel \<Rightarrow> bool" where
  "wheel_inv w \<longleftrightarrow> (\<exists>ch. wheel_ok w ch)"

lemma wheel_okD [wf_dests]:
  assumes "wheel_ok w ch"
  shows "links w ch {}" "flags_ok w ch" "ordered w ch" "in_place w ch" "counts_ok w"
  using assms by (simp_all add: wheel_ok_def)

lemma flags_okD:
  "flags_ok w ch \<Longrightarrow> s < 64 \<Longrightarrow> ch s \<noteq> [] \<Longrightarrow>
     wl_sorted (tw_levels w ! 0) ! s \<and> wl_last_seq (tw_levels w ! 0) ! s < tw_next_seq w"
  by (simp add: flags_ok_def)

lemma finite_live [simp, intro]: "finite (live_slots w)"
  by (rule finite_subset[of _ "{..<tw_watermark w}"]) (auto simp: live_slots_def)

lemma live_in_bucket:
  assumes "links w ch {}"
  shows "i \<in> live_slots w \<longleftrightarrow> (\<exists>b. i \<in> set (ch b))"
  using linksD(4,6)[OF assms, of i] linksD(8)[OF assms, of i] by (auto simp: live_slots_def)

lemma in_placeD:
  assumes "in_place w ch" and "i \<in> set (ch b)"
  shows "now_of w \<le> at_ts w i" "placed (now_of w) (at_ts w i) b"
    "b = route_bucket (tw_now w) (ws_ts (tw_slots w ! i))"
  using assms by (auto simp: in_place_def placed_route)

lemma same_live: "wheel_same w w' \<Longrightarrow> live_slots w' = live_slots w"
  by (simp add: live_slots_def wheel_sameD)

lemma same_free_path: "wheel_same w w' \<Longrightarrow> wheel_free_path (tw_slots w') i fs = wheel_free_path (tw_slots w) i fs"
  by (induction fs arbitrary: i) (simp_all add: wheel_sameD)

lemma same_counts: "wheel_same w w' \<Longrightarrow> counts_ok w' = counts_ok w"
  unfolding counts_ok_def by (simp add: same_live same_free_path wheel_sameD inj_on_def)

lemma same_earlier: "wheel_same w w' \<Longrightarrow> earlier w' = earlier w"
  by (intro ext) (simp add: earlier_def wheel_sameD)

lemma same_now [simp]: "wheel_same w (w'\<lparr> tw_now := n \<rparr>) = wheel_same w w'"
  by (simp add: wheel_same_def)

section \<open>Demotion\<close>

text \<open>
  Re-routing the whole bucket \<open>b\<close>: its events move, in order, to the ends of the buckets they now
  belong to.
\<close>

definition rerouted :: "'a wheel \<Rightarrow> nat \<Rightarrow> nat list \<Rightarrow> (nat \<Rightarrow> nat list) \<Rightarrow> nat \<Rightarrow> nat list" where
  "rerouted w b xs ch r = (if r = b then []
     else ch r @ filter (\<lambda>i. route_bucket (tw_now w) (ws_ts (tw_slots w ! i)) = r) xs)"

lemma demote_chain_correct:
  assumes "links w ch {}" and "ch b = xs"
    and "\<And>i. i \<in> set xs \<Longrightarrow> route_bucket (tw_now w) (ws_ts (tw_slots w ! i)) \<noteq> b"
    and "flags_ok w ch" and "sorted_wrt (earlier w) xs"
    and "\<And>i. i \<in> set xs \<Longrightarrow> at_seq w i < tw_next_seq w"
    and "\<And>i s. i \<in> set xs \<Longrightarrow> s < 64 \<Longrightarrow> route_bucket (tw_now w) (ws_ts (tw_slots w ! i)) = s \<Longrightarrow> ch s \<noteq> [] \<Longrightarrow>
       wl_last_seq (tw_levels w ! 0) ! s < at_seq w i"
  shows "\<exists>w'. demote_chain (hd_or kNullIndex xs) w = Some w' \<and> links w' (rerouted w b xs ch) {} \<and>
     wheel_same w w' \<and> tw_now w' = tw_now w \<and> flags_ok w' (rerouted w b xs ch)"
  using assms
proof (induction xs arbitrary: w ch)
  case Nil
  have "rerouted w b [] ch = ch" using Nil.prems(2) by (auto simp: rerouted_def)
  then show ?case using Nil.prems by (subst demote_chain.simps) simp
next
  case (Cons x xs)
  let ?r = "\<lambda>w i. route_bucket (tw_now w) (ws_ts (tw_slots w ! i))"
  let ?b = "?r w x"
  note l = Cons.prems(1)
  have x: "x \<in> set (ch b)" using Cons.prems(2) by simp
  have xN: "x \<noteq> kNullIndex" "x < tw_watermark w" "ws_live (tw_slots w ! x)"
    using linksD(4,6)[OF l x] wheel_shapeD[OF linksD(1)[OF l]] by auto
  note bo = linksD(2)[OF l linksD(3)[OF l x]]
  have nx: "ws_next (tw_slots w ! x) = hd_or kNullIndex xs" and dist: "x \<notin> set xs"
    using bo Cons.prems(2) by (auto simp: bucket_ok_def Let_def)
  define w1 where "w1 = detach x w"
  define w2 where "w2 = attach x w1"
  define ch1 where "ch1 = ch(b := xs)"
  define ch2 where "ch2 = ch1(?b := ch1 ?b @ [x])"
  note d = detach_links[OF l x, folded w1_def]
  have ch1: "ch(b := remove1 x (ch b)) = ch1" using Cons.prems(2) by (simp add: ch1_def)
  have l1: "links w1 ch1 {x}" using d(1) unfolding ch1 .
  note s1 = wheel_sameD[OF d(2)]
  have x1: "x < tw_watermark w1" "ws_live (tw_slots w1 ! x)" using xN s1 by simp_all
  have b1: "?b = ?r w1 x" using s1 d(3) by simp
  have "?b < 704" by (rule placed_bound[OF route_placed unat_lt64 unat_lt64])
  note a = attach_links[OF l1 x1 b1 this, folded w2_def ch2_def]
  note s2 = wheel_sameD[OF a(2)]
  have same: "wheel_same w w2" using wheel_same_trans[OF d(2) a(2)] .
  note s = wheel_sameD[OF same]
  have now: "tw_now w2 = tw_now w" using a(3) d(3) by simp
  have ne: "?b \<noteq> b" using Cons.prems(3)[of x] by simp
  have ch1b: "ch1 ?b = ch ?b" using ne by (simp add: ch1_def)
  have srt: "wl_sorted (tw_levels w1 ! 0) ! t = wl_sorted (tw_levels w ! 0) ! t \<and>
      wl_last_seq (tw_levels w1 ! 0) ! t = wl_last_seq (tw_levels w ! 0) ! t" if "t < 64" "ch1 t \<noteq> []" for t
    using d(4,5,6) that Cons.prems(2) by (cases "t = b") (auto simp: ch1_def)
  have f2: "flags_ok w2 ch2"
    unfolding flags_ok_def
  proof (intro allI impI)
    fix t assume t: "t < (64 :: nat)" "ch2 t \<noteq> []"
    show "wl_sorted (tw_levels w2 ! 0) ! t \<and> wl_last_seq (tw_levels w2 ! 0) ! t < tw_next_seq w2"
    proof (cases "t = ?b")
      case True
      have "wl_sorted (tw_levels w1 ! 0) ! t \<and> wl_last_seq (tw_levels w1 ! 0) ! t < at_seq w x" if "ch1 t \<noteq> []"
      proof -
        have c: "ch t \<noteq> []" using that ch1b True by simp
        show ?thesis
          using srt[OF t(1) that] flags_okD[OF Cons.prems(4) t(1) c] Cons.prems(7)[OF _ t(1) True[symmetric] c]
          by simp
      qed
      then show ?thesis using a(4,5) t True s s1 Cons.prems(6)[of x] by auto
    next
      case False
      then have c: "ch1 t \<noteq> []" using t by (simp add: ch2_def)
      then have "ch t \<noteq> []" using Cons.prems(2) by (auto simp: ch1_def split: if_splits)
      then show ?thesis using a(6)[OF t(1) False] srt[OF t(1) c] Cons.prems(4) t s by (simp add: flags_ok_def)
    qed
  qed
  have fresh: "wl_last_seq (tw_levels w2 ! 0) ! t < at_seq w2 i"
    if i: "i \<in> set xs" and t: "t < 64" "?r w2 i = t" "ch2 t \<noteq> []" for i t
  proof (cases "t = ?b")
    case True
    have "?r w i = t" using t(2) now s by simp
    then have "at_ts w i = at_ts w x"
      using placed_same_time[OF route_placed[of "tw_now w" "ws_ts (tw_slots w ! i)"]]
        placed_same_time[OF route_placed[of "tw_now w" "ws_ts (tw_slots w ! x)"]] True t(1) by simp
    then have "at_seq w x < at_seq w i" using Cons.prems(5) i by (auto simp: earlier_def)
    then show ?thesis using a(5) True t(1) s s1 by simp
  next
    case False
    then have c: "ch1 t \<noteq> []" using t by (simp add: ch2_def)
    have tb: "t \<noteq> b" using Cons.prems(3)[of i] i t(2) now s by auto
    then have "ch t \<noteq> []" using c by (simp add: ch1_def)
    then have "wl_last_seq (tw_levels w ! 0) ! t < at_seq w i"
      using Cons.prems(7)[of i t] i t now s by simp
    then show ?thesis using a(6)[OF t(1) False] srt[OF t(1) c] s by simp
  qed
  have "ch2 b = xs" using ne by (simp add: ch2_def ch1_def)
  from Cons.IH[OF a(1) this _ f2 _ _ fresh] obtain w' where
    w': "demote_chain (hd_or kNullIndex xs) w2 = Some w'" "links w' (rerouted w2 b xs ch2) {}"
      "wheel_same w2 w'" "tw_now w' = tw_now w2" "flags_ok w' (rerouted w2 b xs ch2)"
    using Cons.prems(3,5,6) now s same_earlier[OF same] by fastforce
  have "rerouted w2 b xs ch2 = rerouted w b (x # xs) ch"
    using ne by (auto simp: rerouted_def fun_eq_iff ch2_def ch1_def now s)
  moreover have "demote_chain (hd_or kNullIndex (x # xs)) w = demote_chain (hd_or kNullIndex xs) w2"
    using xN nx by (subst demote_chain.simps) (simp add: w2_def w1_def)
  ultimately show ?case using w' wheel_same_trans[OF same w'(3)] now by auto
qed

end
