(* ===== verification/WheelSettle.thy ===== *)
theory WheelSettle
  imports WheelProofs
begin

text \<open>
  \<open>settle\<close> moves the watermark to the time of the earliest pending event and returns. A step inside
  the window of level 0 keeps every place; a step to the nearest coarse boundary empties one bucket,
  whose events all move to a lower level.
\<close>

section \<open>Masks and boundaries as numbers\<close>

lemma mask_low_bits_eq: "mask_low_bits n = mask n"
proof (cases "n \<ge> 64")
  case True
  then have "mask n = (- 1 :: u64)" by (intro bit_eqI) (simp add: bit_mask_iff)
  then show ?thesis using True by (simp add: mask_low_bits_def)
next
  case False
  then show ?thesis by (simp add: mask_low_bits_def mask_eq_decr_exp)
qed

lemma bit_below: "bit (w AND mask_low_bits n) k \<longleftrightarrow> bit (w :: u64) k \<and> k < n"
  by (auto simp: mask_low_bits_eq bit_and_iff bit_mask_iff dest: bit_imp_le_length)

lemma bit_above: "bit (w AND NOT (mask_low_bits n)) k \<longleftrightarrow> bit (w :: u64) k \<and> n \<le> k"
  by (auto simp: mask_low_bits_eq bit_and_iff bit_not_iff bit_mask_iff dest: bit_imp_le_length)

lemma unat_round: "unat (push_bit n (drop_bit n (w :: u64))) = unat w div 2 ^ n * 2 ^ n"
proof -
  have t: "unat (take_bit n w) = unat w mod 2 ^ n" unfolding unsigned_take_bit_eq by (rule take_bit_eq_mod)
  have le: "take_bit n w \<le> w" by (simp only: word_le_nat_alt t) simp
  have "push_bit n (drop_bit n w) = w - take_bit n w" using bits_ident[of n w] by (simp only: eq_diff_eq)
  then have "unat (push_bit n (drop_bit n w)) = unat w - unat w mod 2 ^ n"
    using unat_sub[OF le] t by simp
  then show ?thesis by (simp add: minus_mod_eq_div_mult)
qed

lemma bucket_bound_eq:
  fixes ts :: u64
  assumes p: "placed (unat now) (unat ts) b"
  shows "unat (bucket_bound now (b div 64) (b mod 64)) = bound_of (unat ts) (b div 64)"
proof -
  let ?n = "6 * (b div 64)"
  have up: "drop_bit (?n + 6) ts = drop_bit (?n + 6) now"
    using p pow64[of "b div 64 + 1"] by (simp add: word_unat_eq_iff unat_drop placed_def Let_def add.commute)
  have agree: "bit ts k = bit now k" if "?n + 6 \<le> k" for k
    using arg_cong[OF up, of "\<lambda>w. bit w (k - (?n + 6))"] that by (simp add: bit_drop_bit_eq)
  have d: "(of_nat (b mod 64) :: u64) = drop_bit ?n ts AND mask 6"
  proof -
    have "b mod 64 = unat (drop_bit ?n ts AND 63)"
      using p by (simp add: unat_and_63 unat_drop pow64 placed_def Let_def)
    then show ?thesis by (simp add: mask_numeral)
  qed
  have "bucket_bound now (b div 64) (b mod 64) = push_bit ?n (drop_bit ?n ts)"
  proof (rule bit_eqI)
    fix k assume "possible_bit TYPE(64 word) k"
    then have k: "k < 64" by simp
    have "bit (bucket_bound now (b div 64) (b mod 64)) k \<longleftrightarrow>
        (bit now k \<and> ?n + 6 \<le> k) \<or> (?n \<le> k \<and> k - ?n < 6 \<and> bit ts k)"
      unfolding bucket_bound_def d wheel_consts bit_or_iff bit_above
      using k by (auto simp: bit_push_bit_iff bit_and_iff bit_mask_iff bit_drop_bit_eq)
    also have "\<dots> \<longleftrightarrow> ?n \<le> k \<and> bit ts k"
    proof (cases "?n + 6 \<le> k")
      case False
      then have "k - ?n < 6" by linarith
      with False show ?thesis by simp
    qed (use agree[of k] in auto)
    also have "\<dots> \<longleftrightarrow> bit (push_bit ?n (drop_bit ?n ts)) k"
      using k by (auto simp: bit_push_bit_iff bit_drop_bit_eq)
    finally show "bit (bucket_bound now (b div 64) (b mod 64)) k = bit (push_bit ?n (drop_bit ?n ts)) k" .
  qed
  then show ?thesis by (simp only: unat_round pow64 bound_of_def)
qed

lemma bucket_occupied:
  assumes "links w ch {}" and "li < 11" and "s < 64"
  shows "bit (wl_occupied (tw_levels w ! li)) s \<longleftrightarrow> ch (li * 64 + s) \<noteq> []"
  using linksD(2)[OF assms(1), of "li * 64 + s"] assms(2,3) by (simp add: bucket_ok_def Let_def)

lemma occupied_zero:
  assumes "links w ch {}" and "li < 11"
  shows "wl_occupied (tw_levels w ! li) = 0 \<longleftrightarrow> (\<forall>s < 64. ch (li * 64 + s) = [])"
proof -
  have "wl_occupied (tw_levels w ! li) = 0 \<longleftrightarrow> (\<forall>s < 64. \<not> bit (wl_occupied (tw_levels w ! li)) s)"
    by (auto simp: bit_eq_iff)
  then show ?thesis using bucket_occupied[OF assms] by blast
qed

section \<open>The nearest boundary\<close>

definition least_step :: "(nat \<Rightarrow> bool) \<Rightarrow> (nat \<Rightarrow> u64) \<Rightarrow> nat \<Rightarrow> u64 \<Rightarrow> u64" where
  "least_step P g li best = (if P li then best else min best (g li))"

lemma fold_least_le: "fold (least_step P g) xs r \<le> r"
proof (induction xs arbitrary: r)
  case (Cons x xs)
  have "least_step P g x r \<le> r" by (simp add: least_step_def)
  with Cons[of "least_step P g x r"] show ?case by simp
qed simp

lemma fold_least_bound: "li \<in> set xs \<Longrightarrow> \<not> P li \<Longrightarrow> fold (least_step P g) xs r \<le> g li"
proof (induction xs arbitrary: r)
  case (Cons x xs)
  have "least_step P g li r \<le> g li" using Cons.prems by (simp add: least_step_def)
  then show ?case
    using Cons fold_least_le[of P g xs "least_step P g li r"] by (cases "x = li") (auto intro: order_trans)
qed simp

lemma fold_least_attained:
  "fold (least_step P g) xs r = r \<or> (\<exists>li \<in> set xs. \<not> P li \<and> fold (least_step P g) xs r = g li)"
proof (induction xs arbitrary: r)
  case (Cons x xs)
  show ?case using Cons[of "least_step P g x r"] by (auto simp: least_step_def min_def split: if_splits)
qed simp

lemma lowest_bucket:
  assumes ok: "links w ch {}" "in_place w ch" and li: "li < 11" "wl_occupied (tw_levels w ! li) \<noteq> 0"
  shows "\<exists>i b. i \<in> set (ch b) \<and> b div 64 = li \<and>
     unat (bucket_bound (tw_now w) li (countr_zero (wl_occupied (tw_levels w ! li)))) = bound_of (at_ts w i) li \<and>
     (\<forall>j c. j \<in> set (ch c) \<longrightarrow> c div 64 = li \<longrightarrow> bound_of (at_ts w i) li \<le> bound_of (at_ts w j) li)"
proof -
  let ?occ = "wl_occupied (tw_levels w ! li)"
  let ?s = "countr_zero ?occ"
  have s: "?s < 64" "bit ?occ ?s" "\<And>m. m < ?s \<Longrightarrow> \<not> bit ?occ m" using countr_zero_spec[OF li(2)] by auto
  let ?b = "li * 64 + ?s"
  have b: "?b div 64 = li" "?b mod 64 = ?s" using s(1) by auto
  have "ch ?b \<noteq> []" using bucket_occupied[OF ok(1) li(1) s(1)] s(2) by simp
  then obtain i where i: "i \<in> set (ch ?b)" by (meson list.set_sel(1))
  note p = in_placeD(2)[OF ok(2) i]
  have "unat (bucket_bound (tw_now w) li ?s) = bound_of (at_ts w i) li" using bucket_bound_eq[OF p] b by simp
  moreover have "bound_of (at_ts w i) li \<le> bound_of (at_ts w j) li" if j: "j \<in> set (ch c)" "c div 64 = li" for j c
  proof -
    note q = in_placeD(2)[OF ok(2) j(1)]
    have "?s \<le> c mod 64"
    proof (rule ccontr)
      assume "\<not> ?s \<le> c mod 64"
      then have "\<not> bit ?occ (c mod 64)" by (intro s(3)) simp
      moreover have "li * 64 + c mod 64 = c" using j(2) by (metis div_mult_mod_eq)
      then have "bit ?occ (c mod 64)" using bucket_occupied[OF ok(1) li(1), of "c mod 64"] j(1) by auto
      ultimately show False by simp
    qed
    moreover have "at_ts w i div 64 ^ li div 64 = at_ts w j div 64 ^ li div 64"
      using p q b j(2) by (simp add: placed_def Let_def div_mult2_eq[symmetric] mult.commute)
    moreover have "at_ts w i div 64 ^ li mod 64 = ?s" "at_ts w j div 64 ^ li mod 64 = c mod 64"
      using p q b j(2) by (simp_all add: placed_def Let_def)
    ultimately have "at_ts w i div 64 ^ li \<le> at_ts w j div 64 ^ li"
      by (metis div_mult_mod_eq nat_add_left_cancel_le)
    then show ?thesis by (simp add: bound_of_def)
  qed
  ultimately show ?thesis using i b by blast
qed

lemma nearest_bound_correct:
  assumes ok: "links w ch {}" "in_place w ch" and ne: "i \<in> set (ch b)" and low: "\<And>s. s < 64 \<Longrightarrow> ch s = []"
  shows "\<exists>i0 b0. i0 \<in> set (ch b0) \<and> b0 div 64 \<noteq> 0 \<and>
     unat (nearest_bound w) = bound_of (at_ts w i0) (b0 div 64) \<and>
     (\<forall>j c. j \<in> set (ch c) \<longrightarrow> unat (nearest_bound w) \<le> at_ts w j) \<and> nearest_bound w \<noteq> NOT 0"
proof -
  let ?occ = "\<lambda>li. wl_occupied (tw_levels w ! li)"
  let ?g = "\<lambda>li. bucket_bound (tw_now w) li (countr_zero (?occ li))"
  let ?P = "\<lambda>li. ?occ li = 0"
  have nb: "nearest_bound w = fold (least_step ?P ?g) [1..<11] (NOT 0)"
    by (simp add: nearest_bound_def Let_def wheel_consts least_step_def[abs_def])
  have level: "c div 64 \<noteq> 0 \<and> c div 64 < 11 \<and> ?occ (c div 64) \<noteq> 0" if "j \<in> set (ch c)" for j c
  proof -
    have c: "c < 704" "64 \<le> c" using linksD(3)[OF ok(1) that] low[of c] that by (auto simp: not_less[symmetric])
    then have "c div 64 < 11" "c div 64 \<noteq> 0" "c div 64 * 64 + c mod 64 = c" by auto
    moreover have "bit (?occ (c div 64)) (c mod 64)"
      using bucket_occupied[OF ok(1), of "c div 64" "c mod 64"] calculation that by auto
    then have "?occ (c div 64) \<noteq> 0" by auto
    ultimately show ?thesis by simp
  qed
  have le: "unat (nearest_bound w) \<le> bound_of (at_ts w j) (c div 64)" if j: "j \<in> set (ch c)" for j c
  proof -
    from lowest_bucket[OF ok, of "c div 64"] level[OF j] obtain k where
      "unat (?g (c div 64)) = bound_of (at_ts w k) (c div 64)"
      "bound_of (at_ts w k) (c div 64) \<le> bound_of (at_ts w j) (c div 64)" using j by blast
    moreover have "nearest_bound w \<le> ?g (c div 64)" unfolding nb using level[OF j] by (intro fold_least_bound) auto
    ultimately show ?thesis by (simp add: word_le_nat_alt)
  qed
  have odd: "nearest_bound w \<noteq> NOT 0"
  proof
    assume "nearest_bound w = NOT 0"
    then have "unat (NOT (0 :: u64)) \<le> bound_of (at_ts w i) (b div 64)" using le[OF ne] by simp
    moreover have "bound_of (at_ts w i) (b div 64) \<le> unat (NOT (0 :: u64))"
      using bound_of_le[of "at_ts w i" "b div 64"] word_n1_ge[of "ws_ts (tw_slots w ! i)"]
      by (simp add: word_le_nat_alt)
    ultimately have "unat (NOT (0 :: u64)) = bound_of (at_ts w i) (b div 64)" by simp
    moreover have "2 dvd bound_of (at_ts w i) (b div 64)"
      using level[OF ne] by (cases "b div 64") (auto simp: bound_of_def)
    ultimately have "2 dvd unat (NOT (0 :: u64))" by simp
    then show False by (simp add: unsigned_minus_1_eq_mask mask_eq_exp_minus_1)
  qed
  with fold_least_attained[of ?P ?g "[1..<11]" "NOT 0", folded nb] obtain li where li: "1 \<le> li" "li < 11" "?occ li \<noteq> 0" "nearest_bound w = ?g li" by auto
  from lowest_bucket[OF ok li(2,3)] li(4) obtain i0 b0 where "i0 \<in> set (ch b0)" "b0 div 64 = li"
    "unat (nearest_bound w) = bound_of (at_ts w i0) li" by auto
  moreover have "unat (nearest_bound w) \<le> at_ts w j" if "j \<in> set (ch c)" for j c
    using le[OF that] bound_of_le order_trans by blast
  ultimately show ?thesis using odd li(1) by (intro exI[of _ i0] exI[of _ b0]) auto
qed

section \<open>One coarse step\<close>

lemma demote_noop:
  assumes "links w ch {}" and "li < 11" and "\<And>s. s < 64 \<Longrightarrow> s \<le> wheel_digit (tw_now w) li \<Longrightarrow> ch (li * 64 + s) = []"
  shows "demote_level li w = Some w"
proof -
  have "wl_occupied (tw_levels w ! li) AND mask_low_bits (wheel_digit (tw_now w) li + 1) = 0"
    using bucket_occupied[OF assms(1,2)] assms(3)
    by (intro bit_eqI) (auto simp: bit_below simp del: bit_and_iff)
  then show ?thesis unfolding demote_level_def by (subst demote_buckets.simps) simp
qed

lemma demote_one:
  assumes l: "links w ch {}" and li: "li < 11" and s: "s = wheel_digit (tw_now w) li" "ch (li * 64 + s) \<noteq> []"
    and lower: "\<And>t. t < s \<Longrightarrow> ch (li * 64 + t) = []"
  shows "demote_level li w = demote_chain (hd_or kNullIndex (ch (li * 64 + s))) w"
proof -
  define td where "td = wl_occupied (tw_levels w ! li) AND mask_low_bits (s + 1)"
  have s64: "s < 64" by (simp add: s(1) wheel_digit_eq)
  have bits: "bit td k \<longleftrightarrow> k = s" for k
    using bucket_occupied[OF l li, of k] lower[of k] s s64
    by (auto simp: td_def bit_below less_Suc_eq simp del: bit_and_iff dest: bit_imp_le_length)
  have z: "countr_zero td = s" by (rule countr_zero_eqI; subst bits) auto
  have td: "td = 2 ^ s" using s64 by (intro bit_eqI) (simp add: bits bit_exp_iff)
  have "(2 :: u64) ^ s - 1 = mask s" by (simp add: mask_eq_decr_exp)
  then have "td AND (td - 1) = 0" unfolding td by (intro bit_eqI) (auto simp: bit_and_iff bit_exp_iff bit_mask_iff)
  moreover have "td \<noteq> 0" using bits[of s] by auto
  moreover have "wl_head (tw_levels w ! li) ! s = hd_or kNullIndex (ch (li * 64 + s))"
    using linksD(2)[OF l, of "li * 64 + s"] li s64 by (simp add: bucket_ok_def Let_def)
  ultimately show ?thesis
    unfolding demote_level_def s(1)[symmetric] td_def[symmetric]
    by (subst demote_buckets.simps)
      (cases "demote_chain (hd_or kNullIndex (ch (li * 64 + s))) w"; simp add: z demote_buckets.simps[of _ 0])
qed

lemma demote_levels_append: "demote_levels (xs @ ys) w = Option.bind (demote_levels xs w) (demote_levels ys)"
  by (induction xs arbitrary: w) (auto simp: bind_assoc split: Option.bind_splits)

lemma demote_levels_noop: "(\<And>li. li \<in> set xs \<Longrightarrow> demote_level li w = Some w) \<Longrightarrow> demote_levels xs w = Some w"
  by (induction xs) simp_all

lemma ordered_split:
  assumes "ordered w ch" and "wheel_same w w'" and "\<And>r. ch' r = [] \<or> (\<exists>b P. ch' r = filter P (ch b))"
  shows "ordered w' ch'"
  unfolding ordered_def
proof
  fix r
  from assms(3)[of r] show "sorted_wrt (earlier w') (ch' r)"
    using assms(1) by (auto simp: ordered_def same_earlier[OF assms(2)] sorted_wrt_filter)
qed

lemma coarse_step:
  assumes ok: "wheel_ok w ch" and ne: "i \<in> set (ch b)" and low: "\<And>s. s < 64 \<Longrightarrow> ch s = []"
  shows "nearest_bound w \<noteq> NOT 0" "tw_now w < nearest_bound w"
    "\<exists>w' ch'. demote_levels [1..<kLevels] (w\<lparr> tw_now := nearest_bound w \<rparr>) = Some w' \<and> wheel_ok w' ch' \<and>
       wheel_same w w' \<and> tw_now w' = nearest_bound w"
proof -
  note o = wheel_okD[OF ok]
  from nearest_bound_correct[OF o(1,4) ne low] obtain i0 b0 where
    i0: "i0 \<in> set (ch b0)" "b0 div 64 \<noteq> 0" "unat (nearest_bound w) = bound_of (at_ts w i0) (b0 div 64)"
    and le: "\<And>j c. j \<in> set (ch c) \<Longrightarrow> unat (nearest_bound w) \<le> at_ts w j" and nn: "nearest_bound w \<noteq> NOT 0" by blast
  show "nearest_bound w \<noteq> NOT 0" by (rule nn)
  define l where "l = b0 div 64"
  let ?t0 = "at_ts w i0" and ?N = "unat (nearest_bound w)"
  note p0 = in_placeD(1,2)[OF o(4) i0(1)]
  have b0: "b0 < 704" "l < 11" "l \<noteq> 0" "l * 64 + b0 mod 64 = b0" "b0 mod 64 < 64"
    using linksD(3)[OF o(1) i0(1)] i0(2) by (auto simp: l_def)
  have N: "?N = bound_of ?t0 l" using i0(3) by (simp add: l_def)
  show "tw_now w < nearest_bound w"
    using placed_later(2)[OF p0(2,1) i0(2)] i0(3) by (simp add: word_less_nat_alt)
  define w0 where "w0 = w\<lparr> tw_now := nearest_bound w \<rparr>"
  have d0: "wheel_digit (tw_now w0) l = b0 mod 64"
    using p0(2) by (simp add: w0_def wheel_digit_eq N bound_of_div l_def placed_def Let_def)
  have above: "l \<le> c div 64" if "j \<in> set (ch c)" for j c
    using boundary_below[OF p0(2,1) l_def[symmetric] b0(3) in_placeD(2)[OF o(4) that]] le[OF that] by (simp add: N)
  have moved: "placed ?N (at_ts w j) c" if j: "j \<in> set (ch c)" "c \<noteq> b0" for j c
    unfolding N
  proof (rule boundary_stays[OF p0(2) l_def[symmetric] in_placeD(2)[OF o(4) j(1)] above[OF j(1)] b0(3)])
    assume c: "c div 64 = l"
    then have "c mod 64 \<noteq> b0 mod 64" using j(2) b0(4) by (metis div_mult_mod_eq)
    then show "at_ts w j div 64 ^ l \<noteq> ?t0 div 64 ^ l"
      using in_placeD(2)[OF o(4) j(1)] p0(2) c by (auto simp: placed_def Let_def l_def)
  qed
  have stay_b0: "at_ts w j div 64 ^ l = ?N div 64 ^ l" if j: "j \<in> set (ch b0)" for j
  proof -
    note q = in_placeD(2)[OF o(4) j]
    have "at_ts w j div 64 ^ l div 64 = ?t0 div 64 ^ l div 64" "at_ts w j div 64 ^ l mod 64 = ?t0 div 64 ^ l mod 64"
      using q p0(2) by (simp_all add: placed_def Let_def l_def div_mult2_eq[symmetric] mult.commute)
    then show ?thesis by (simp add: N bound_of_div) (metis div_mult_mod_eq)
  qed
  let ?r = "\<lambda>j. route_bucket (tw_now w0) (ws_ts (tw_slots w0 ! j))"
  have routed: "placed ?N (at_ts w j) (?r j)" for j using route_placed[of "tw_now w0"] by (simp add: w0_def)
  have deeper: "?r j div 64 < l" if j: "j \<in> set (ch b0)" for j
  proof (rule ccontr)
    assume "\<not> ?r j div 64 < l"
    then have "at_ts w j div 64 ^ (?r j div 64) = ?N div 64 ^ (?r j div 64)"
      using div_agree_up[OF stay_b0[OF j]] by simp
    then show False using routed[of j] \<open>\<not> ?r j div 64 < l\<close> b0(3) by (simp add: placed_def Let_def)
  qed
  have l0: "links w0 ch {}" using o(1) by (simp add: w0_def)
  have same0: "wheel_same w w0" by (simp add: w0_def)
  have seqs: "at_seq w j < tw_next_seq w" if "j \<in> set (ch c)" for j c
    using o(5) live_in_bucket[OF o(1)] that by (auto simp: counts_ok_def)
  have "\<exists>w'. demote_chain (hd_or kNullIndex (ch b0)) w0 = Some w' \<and> links w' (rerouted w0 b0 (ch b0) ch) {} \<and>
     wheel_same w0 w' \<and> tw_now w' = tw_now w0 \<and> flags_ok w' (rerouted w0 b0 (ch b0) ch)"
  proof (rule demote_chain_correct[OF l0 refl])
    show "?r j \<noteq> b0" if "j \<in> set (ch b0)" for j using deeper[OF that] by (auto simp: l_def)
    show "flags_ok w0 ch" using o(2) by (simp add: flags_ok_def w0_def)
    show "sorted_wrt (earlier w0) (ch b0)" using o(3) same_earlier[OF same0] by (simp add: ordered_def)
    show "at_seq w0 j < tw_next_seq w0" if "j \<in> set (ch b0)" for j using seqs[OF that] by (simp add: w0_def)
  qed (use low in auto)
  then obtain w' where w': "demote_chain (hd_or kNullIndex (ch b0)) w0 = Some w'"
    "links w' (rerouted w0 b0 (ch b0) ch) {}" "wheel_same w0 w'" "tw_now w' = tw_now w0"
    "flags_ok w' (rerouted w0 b0 (ch b0) ch)" by blast
  let ?ch = "rerouted w0 b0 (ch b0) ch"
  have same: "wheel_same w w'" using wheel_same_trans[OF same0 w'(3)] .
  note s = wheel_sameD[OF same]
  have nw: "now_of w' = ?N" using w'(4) by (simp add: w0_def)
  have lower: "ch c = []" if "c div 64 < l" for c using above[of _ c] that by (cases "ch c") auto
  have ord: "ordered w' ?ch"
  proof (rule ordered_split[OF o(3) same])
    fix r
    have "filter (\<lambda>j. ?r j = r) (ch b0) = []" if "\<not> r div 64 < l" using deeper that by (auto simp: filter_empty_conv)
    then show "?ch r = [] \<or> (\<exists>b P. ?ch r = filter P (ch b))"
    proof (cases "r = b0 \<or> r div 64 < l")
      case True
      then show ?thesis using lower[of r] by (auto simp: rerouted_def)
    next
      case False
      with \<open>\<not> r div 64 < l \<Longrightarrow> _\<close> have "?ch r = filter (\<lambda>_. True) (ch r)" by (simp add: rerouted_def)
      then show ?thesis by blast
    qed
  qed
  have place: "in_place w' ?ch"
    unfolding in_place_def
  proof (intro allI impI)
    fix r j assume "j \<in> set (?ch r)"
    then have j: "r \<noteq> b0" "j \<in> set (ch r) \<or> j \<in> set (ch b0) \<and> ?r j = r" by (auto simp: rerouted_def split: if_splits)
    then show "now_of w' \<le> at_ts w' j \<and> placed (now_of w') (at_ts w' j) r"
      using moved[of j r] routed[of j] le[of j r] le[of j b0] s(2)[of j] nw by auto
  qed
  have "wheel_ok w' ?ch" unfolding wheel_ok_def using w' ord place o(5) same_counts[OF same] by simp
  moreover have "demote_levels [1..<kLevels] w0 = Some w'"
  proof -
    have "[1..<kLevels] = [1..<l] @ l # [l + 1..<11]"
      using b0 upt_add_eq_append[of 1 l "11 - l"] upt_conv_Cons[of l 11] by (simp add: wheel_consts)
    moreover have "demote_levels [1..<l] w0 = Some w0"
    proof (rule demote_levels_noop)
      fix li assume "li \<in> set [1..<l]"
      then show "demote_level li w0 = Some w0"
        using b0(2) lower by (intro demote_noop[OF l0]) simp_all
    qed
    moreover have "demote_level l w0 = Some w'"
    proof -
      have "ch (l * 64 + t) = []" if t: "t < b0 mod 64" for t
      proof (rule ccontr)
        assume "ch (l * 64 + t) \<noteq> []"
        then obtain j where j: "j \<in> set (ch (l * 64 + t))" by (meson list.set_sel(1))
        have "t < 64" using t b0(5) by linarith
        then have c: "(l * 64 + t) div 64 = l" "(l * 64 + t) mod 64 = t" by auto
        then have "l * 64 + t \<noteq> b0" using t by auto
        then have "(?N div 64 ^ l) mod 64 < t"
          using placed_digit[OF moved[OF j] le[OF j]] c b0(3) by simp
        then show False using t d0 by (simp add: w0_def wheel_digit_eq)
      qed
      moreover have "ch (l * 64 + b0 mod 64) \<noteq> []" using i0(1) b0(4) by auto
      ultimately show ?thesis using demote_one[OF l0 b0(2) d0[symmetric]] b0(4) w'(1) by simp
    qed
    moreover have "demote_levels [l + 1..<11] w' = Some w'"
    proof (rule demote_levels_noop)
      fix li assume li: "li \<in> set [l + 1..<11]"
      show "demote_level li w' = Some w'"
      proof (rule demote_noop[OF w'(2)])
        fix t assume t: "t < (64 :: nat)" "t \<le> wheel_digit (tw_now w') li"
        show "?ch (li * 64 + t) = []"
        proof (rule ccontr)
          assume "?ch (li * 64 + t) \<noteq> []"
          then obtain j where j: "j \<in> set (?ch (li * 64 + t))" by (meson list.set_sel(1))
          have "(now_of w' div 64 ^ li) mod 64 < t"
            using placed_digit[OF in_placeD(2,1)[OF place j]] t(1) li by simp
          then show False using t(2) by (simp add: wheel_digit_eq)
        qed
      qed (use li in simp)
    qed
    ultimately show ?thesis by (simp add: demote_levels_append)
  qed
  ultimately show "\<exists>w' ch'. demote_levels [1..<kLevels] (w\<lparr> tw_now := nearest_bound w \<rparr>) = Some w' \<and> wheel_ok w' ch' \<and>
       wheel_same w w' \<and> tw_now w' = nearest_bound w"
    using same w'(4) by (auto simp: w0_def)
qed

section \<open>One step inside the window\<close>

lemma tick_occupied:
  assumes "links w ch {}"
  shows "drop_bit (tick_slot (tw_now w)) (wl_occupied (tw_levels w ! 0)) AND 1 \<noteq> 0 \<longleftrightarrow> ch (now_of w mod 64) \<noteq> []"
proof -
  have "drop_bit n occ AND 1 \<noteq> 0 \<longleftrightarrow> bit occ n" for n and occ :: u64
    by (simp add: and_one_eq bit_iff_odd_drop_bit[symmetric]) (simp add: bit_iff_odd_drop_bit odd_iff_mod_2_eq_one)
  then show ?thesis using bucket_occupied[OF assms, of 0 "now_of w mod 64"] by (simp add: tick_slot_eq)
qed

lemma window_step:
  assumes ok: "wheel_ok w ch" and cur: "ch (now_of w mod 64) = []"
    and later: "later = wl_occupied (tw_levels w ! 0) AND NOT (mask_low_bits (tick_slot (tw_now w) + 1))" "later \<noteq> 0"
    and n: "n = (tw_now w AND NOT 63) + of_nat (countr_zero later)"
  shows "tw_now w < n" "wheel_ok (w\<lparr> tw_now := n \<rparr>) ch"
proof -
  note o = wheel_okD[OF ok]
  let ?j = "countr_zero later"
  have bits: "bit later k \<longleftrightarrow> k < 64 \<and> ch k \<noteq> [] \<and> now_of w mod 64 < k" for k
    using bucket_occupied[OF o(1), of 0 k] bit_imp_le_length[of "wl_occupied (tw_levels w ! 0)" k]
    by (cases "k < 64") (auto simp: later(1) bit_above tick_slot_eq simp del: bit_and_iff)
  have j: "?j < 64" "ch ?j \<noteq> []" "now_of w mod 64 < ?j" "\<And>m. m < ?j \<Longrightarrow> \<not> bit later m"
    using countr_zero_spec[OF later(2)] bits by auto
  obtain i where i: "i \<in> set (ch ?j)" using j(2) by (meson list.set_sel(1))
  have t: "at_ts w i = now_of w div 64 * 64 + ?j"
    by (rule placed_same_time[OF in_placeD(2)[OF o(4) i] j(1)])
  have N: "unat n = now_of w div 64 * 64 + ?j"
  proof -
    have m: "(tw_now w AND NOT 63) = push_bit 6 (drop_bit 6 (tw_now w))"
    proof -
      have e: "NOT (63 :: u64) = NOT (mask 6)" by (simp add: mask_numeral)
      show ?thesis
        unfolding e by (intro bit_eqI) (auto simp: bit_and_iff bit_not_iff bit_mask_iff bit_push_bit_iff bit_drop_bit_eq)
    qed
    have r: "unat (tw_now w AND NOT 63) = now_of w div 64 * 64" using unat_round[of 6 "tw_now w"] by (simp only: m) simp
    have c: "unat (of_nat ?j :: u64) = ?j" using j(1) by (simp add: unat_of_nat)
    have "at_ts w i < 2 ^ LENGTH(64)" by (rule unsigned_less)
    then show ?thesis unfolding n using r c t by (subst unat_plus_simple[THEN iffD1]) (simp_all add: no_olen_add_nat)
  qed
  have win: "now_of w div 64 = unat n div 64" using N j(1) by simp
  show "tw_now w < n" unfolding word_less_nat_alt N using j(3) by (simp only: window_mod_less)
  have "unat n \<le> at_ts w k" if k: "k \<in> set (ch b)" for k b
  proof (cases "b < 64")
    case True
    have e: "at_ts w k = now_of w div 64 * 64 + b" by (rule placed_same_time[OF in_placeD(2)[OF o(4) k] True])
    have "now_of w mod 64 \<le> b" using in_placeD(1)[OF o(4) k] e window_mod_le[of "now_of w" b] by simp
    then have "now_of w mod 64 < b" using cur k by (cases "b = now_of w mod 64") auto
    then have "?j \<le> b" using j(4)[of b] bits[of b] True k by (auto simp: not_less[symmetric])
    then show ?thesis using N e by simp
  next
    case False
    then have "now_of w div 64 < at_ts w k div 64"
      using in_placeD(1,2)[OF o(4) k] div_agree_up[of "at_ts w k" 1 "now_of w" "b div 64"]
        div_le_mono[OF in_placeD(1)[OF o(4) k], of 64]
      by (cases "at_ts w k div 64 = now_of w div 64") (auto simp: placed_def Let_def)
    then show ?thesis using win by (intro window_after) simp
  qed
  then have "in_place (w\<lparr> tw_now := n \<rparr>) ch"
    using placed_window[OF win] in_placeD(2)[OF o(4)] by (simp add: in_place_def)
  moreover have same: "wheel_same w (w\<lparr> tw_now := n \<rparr>)" by simp
  ultimately show "wheel_ok (w\<lparr> tw_now := n \<rparr>) ch"
    using o same_counts[OF same] same_earlier[OF same] by (simp add: wheel_ok_def flags_ok_def ordered_def)
qed

section \<open>Settling\<close>

lemma settle_correct:
  assumes "wheel_ok w ch" and "tw_live w \<noteq> 0"
  shows "\<exists>w' ch'. settle w = Some w' \<and> wheel_ok w' ch' \<and> wheel_same w w' \<and> ch' (now_of w' mod 64) \<noteq> [] \<and>
     tw_now w \<le> tw_now w'"
  using assms
proof (induction "2 ^ 64 - now_of w" arbitrary: w ch rule: less_induct)
  case less
  note ok = less.prems(1)
  note o = wheel_okD[OF ok]
  let ?occ = "wl_occupied (tw_levels w ! 0)"
  let ?later = "?occ AND NOT (mask_low_bits (tick_slot (tw_now w) + 1))"
  have dec: "2 ^ 64 - unat n < 2 ^ 64 - now_of w" if "tw_now w < n" for n
  proof -
    have "unat n < 2 ^ LENGTH(64)" by (rule unsigned_less)
    then show ?thesis using that by (simp add: word_less_nat_alt)
  qed
  show ?case
  proof (cases "ch (now_of w mod 64) = []")
    case False
    then show ?thesis
      using ok less.prems(2) tick_occupied[OF o(1)] by (subst settle.simps) (auto simp: Let_def)
  next
    case cur: True
    show ?thesis
    proof (cases "?later = 0")
      case False
      define n where "n = (tw_now w AND NOT 63) + of_nat (countr_zero ?later)"
      note s = window_step[OF ok cur refl False n_def]
      have "settle w = settle (w\<lparr> tw_now := n \<rparr>)"
        using less.prems(2) tick_occupied[OF o(1)] cur False by (subst settle.simps) (simp add: Let_def n_def)
      moreover have "\<exists>w' ch'. settle (w\<lparr> tw_now := n \<rparr>) = Some w' \<and> wheel_ok w' ch' \<and>
          wheel_same (w\<lparr> tw_now := n \<rparr>) w' \<and> ch' (now_of w' mod 64) \<noteq> [] \<and> tw_now (w\<lparr> tw_now := n \<rparr>) \<le> tw_now w'"
        using dec[OF s(1)] less.prems(2) by (intro less.hyps[OF _ s(2)]) simp_all
      moreover have "tw_now w \<le> tw_now w'" if "n \<le> tw_now w'" for w' :: "'a wheel"
        using s(1) that by (metis order.strict_implies_order order_trans)
      ultimately show ?thesis by (simp add: wheel_same_def) blast
    next
      case True
      have low: "ch s = []" if "s < 64" for s
      proof (rule ccontr)
        assume "ch s \<noteq> []"
        then obtain i where i: "i \<in> set (ch s)" by (meson list.set_sel(1))
        have e: "at_ts w i = now_of w div 64 * 64 + s" by (rule placed_same_time[OF in_placeD(2)[OF o(4) i] that])
        have "now_of w mod 64 \<le> s" using in_placeD(1)[OF o(4) i] e window_mod_le[of "now_of w" s] by simp
        then have "now_of w mod 64 < s" using cur i by (cases "s = now_of w mod 64") auto
        then have "bit ?later s"
          using bucket_occupied[OF o(1), of 0 s] that i by (auto simp: bit_above tick_slot_eq simp del: bit_and_iff)
        then show False using True by simp
      qed
      have "live_slots w \<noteq> {}" using less.prems(2) o(5) by (auto simp: counts_ok_def)
      then obtain i b where i: "i \<in> set (ch b)" using live_in_bucket[OF o(1)] by blast
      note c = coarse_step[OF ok i low]
      from c(3) obtain w1 ch1 where w1: "demote_levels [1..<kLevels] (w\<lparr> tw_now := nearest_bound w \<rparr>) = Some w1"
        "wheel_ok w1 ch1" "wheel_same w w1" "tw_now w1 = nearest_bound w" by blast
      have "settle w = settle w1"
        using less.prems(2) tick_occupied[OF o(1)] cur True c(1) w1(1) by (subst settle.simps) (simp add: Let_def)
      moreover have now: "tw_now w < tw_now w1" using c(2) w1(4) by simp
      moreover have "tw_live w1 \<noteq> 0" using less.prems(2) wheel_sameD(10)[OF w1(3)] by simp
      with less.hyps[OF dec[OF now] w1(2)] obtain w' ch' where "settle w1 = Some w'" "wheel_ok w' ch'"
        "wheel_same w1 w'" "ch' (now_of w' mod 64) \<noteq> []" "tw_now w1 \<le> tw_now w'" by blast
      moreover have "tw_now w \<le> tw_now w'" using now calculation(7) by simp
      ultimately show ?thesis using wheel_same_trans[OF w1(3)] by metis
    qed
  qed
qed

end
