(* ===== verification/WheelQueue.thy ===== *)
theory WheelQueue
  imports WheelSettle EventQueue
begin

text \<open>
  The operations of the timing wheel over its pending events. It provides the contract of an event
  queue, as the heap scheduler does, so the two engines deliver the same events in the same order.
\<close>

section \<open>Pending events\<close>

definition wheel_pending :: "'a wheel \<Rightarrow> nat \<rightharpoonup> u32 \<times> u64 \<times> u64 \<times> 'a" where
  "wheel_pending w i = (if i \<in> live_slots w
     then let s = tw_slots w ! i in Some (ws_generation s, ws_ts s, ws_seq s, ws_value s) else None)"

definition wheel_events :: "'a wheel \<Rightarrow> (nat \<times> 'a) multiset" where
  "wheel_events w = image_mset (\<lambda>i. keyed_event (the (wheel_pending w i))) (mset_set (dom (wheel_pending w)))"

lemma dom_wheel_pending [simp]: "dom (wheel_pending w) = live_slots w"
  by (auto simp: wheel_pending_def Let_def split: if_splits)

lemma wheel_pending_Some:
  "wheel_pending w i = Some (g, ts, sq, v) \<longleftrightarrow> i \<in> live_slots w \<and> ws_generation (tw_slots w ! i) = g \<and>
     ws_ts (tw_slots w ! i) = ts \<and> ws_seq (tw_slots w ! i) = sq \<and> ws_value (tw_slots w ! i) = v"
  by (auto simp: wheel_pending_def Let_def)

lemma same_pending: "wheel_same w w' \<Longrightarrow> wheel_pending w' = wheel_pending w"
  by (intro ext) (simp add: wheel_pending_def same_live wheel_sameD Let_def)

lemma wheel_removes:
  assumes p: "wheel_pending w s = Some (g, ts, sn, v)" and w': "wheel_pending w' = (wheel_pending w)(s := None)"
  shows "wheel_events w = add_mset (event_key ts sn, v) (wheel_events w')"
proof -
  have fin: "finite (dom (wheel_pending w))" by simp
  have "dom (wheel_pending w) = insert s (dom (wheel_pending w'))" "s \<notin> dom (wheel_pending w')"
    using p w' by (auto simp del: dom_wheel_pending)
  then have "wheel_events w = add_mset (event_key ts sn, v)
      (image_mset (\<lambda>t. keyed_event (the (wheel_pending w t))) (mset_set (dom (wheel_pending w'))))"
    by (simp add: wheel_events_def p keyed_event_def)
  also have "image_mset (\<lambda>t. keyed_event (the (wheel_pending w t))) (mset_set (dom (wheel_pending w'))) = wheel_events w'"
    unfolding wheel_events_def using fin
    by (intro image_mset_cong) (auto simp: w' simp del: dom_wheel_pending split: if_splits)
  finally show ?thesis .
qed

lemma size_wheel_events: "wheel_inv w \<Longrightarrow> size (wheel_events w) = tw_live w"
  by (auto simp: wheel_inv_def wheel_ok_def counts_ok_def wheel_events_def)

lemma wheel_free_path_cong:
  "(\<And>x. x \<in> set xs \<Longrightarrow> ws_free_next (sl ! x) = ws_free_next (sl' ! x)) \<Longrightarrow>
     wheel_free_path sl i xs = wheel_free_path sl' i xs"
  by (induction xs arbitrary: i) auto

section \<open>Removing an event\<close>

text \<open>What releasing slot \<open>i\<close> does to the allocator.\<close>

definition wheel_freed :: "'a wheel \<Rightarrow> nat \<Rightarrow> 'a wheel \<Rightarrow> bool" where
  "wheel_freed w i w' \<longleftrightarrow> tw_capacity w' = tw_capacity w \<and> tw_watermark w' = tw_watermark w \<and> tw_free_head w' = i \<and>
     tw_next_seq w' = tw_next_seq w \<and>
     (\<forall>j. ws_generation (tw_slots w' ! j) = ws_generation (tw_slots w ! j) + (if j = i then 1 else 0) \<and>
        ws_free_next (tw_slots w' ! j) = (if j = i then tw_free_head w else ws_free_next (tw_slots w ! j)))"

lemma same_freed: "wheel_same w w1 \<Longrightarrow> wheel_freed w1 i w' = wheel_freed w i w'"
  by (simp add: wheel_freed_def wheel_sameD)

definition drop_event :: "nat \<Rightarrow> 'a wheel \<Rightarrow> 'a wheel" where
  "drop_event i w = (free_wheel_slot i (detach i w))\<lparr> tw_live := tw_live w - 1 \<rparr>"

lemma drop_event_correct:
  assumes ok: "wheel_ok w ch" and i: "i \<in> set (ch b)"
  shows "wheel_ok (drop_event i w) (ch(b := remove1 i (ch b)))"
    "wheel_pending (drop_event i w) = (wheel_pending w)(i := None)"
    "tw_now (drop_event i w) = tw_now w" "tw_next_seq (drop_event i w) = tw_next_seq w"
    "tw_capacity (drop_event i w) = tw_capacity w" "tw_live (drop_event i w) = tw_live w - 1"
    "wheel_freed w i (drop_event i w)"
proof -
  note o = wheel_okD[OF ok]
  let ?w1 = "detach i w" and ?w = "drop_event i w" and ?ch = "ch(b := remove1 i (ch b))"
  note d = detach_links[OF o(1) i]
  note s = wheel_sameD[OF d(2)]
  note sh = wheel_shapeD[OF linksD(1)[OF o(1)]]
  have iw: "i < tw_watermark w" "ws_live (tw_slots w ! i)" using linksD(4,6)[OF o(1) i] .
  have il: "i < length (tw_slots ?w1)" using iw sh s by simp
  have f: "tw_capacity ?w = tw_capacity w" "tw_watermark ?w = tw_watermark w" "tw_now ?w = tw_now w"
    "tw_next_seq ?w = tw_next_seq w" "tw_live ?w = tw_live w - 1" "tw_free_head ?w = i" "tw_levels ?w = tw_levels ?w1"
    "length (tw_slots ?w) = length (tw_slots w)"
    using s d(3) by (simp_all add: drop_event_def free_wheel_slot_def Let_def)
  then show "tw_now ?w = tw_now w" "tw_next_seq ?w = tw_next_seq w" "tw_capacity ?w = tw_capacity w"
    "tw_live ?w = tw_live w - 1" by simp_all
  have sl: "tw_slots ?w ! j = (if j = i then (tw_slots ?w1 ! i)\<lparr> ws_live := False,
      ws_generation := ws_generation (tw_slots w ! i) + 1, ws_free_next := tw_free_head w \<rparr> else tw_slots ?w1 ! j)" for j
    using il s by (simp add: drop_event_def free_wheel_slot_def Let_def nth_list_update)
  show "wheel_freed w i ?w" by (simp add: wheel_freed_def f sl s)
  have live: "live_slots ?w = live_slots w - {i}" by (auto simp: live_slots_def f sl s)
  have il': "i \<in> live_slots w" using iw by (simp add: live_slots_def)
  show "wheel_pending ?w = (wheel_pending w)(i := None)"
    by (auto simp: wheel_pending_def live sl s Let_def fun_eq_iff)
  have lk: "links ?w ?ch {}"
  proof -
    have bo: "bucket_ok ?w c (?ch c)" if "c < 704" for c
    proof -
      have "linked (tw_slots ?w) kNullIndex (?ch c) kNullIndex = linked (tw_slots ?w1) kNullIndex (?ch c) kNullIndex"
        by (rule linked_cong) (auto simp: f s sl)
      then show ?thesis using linksD(2)[OF d(1) that] by (simp add: bucket_ok_def Let_def f)
    qed
    have "wheel_shape ?w" using linksD(1)[OF d(1)] by (simp add: wheel_shape_def f s)
    then show ?thesis
      using bo linksD(3-8)[OF d(1)] by (auto simp: links_def f sl s split: if_splits)
  qed
  have flags: "flags_ok ?w ?ch"
    unfolding flags_ok_def
  proof (intro allI impI)
    fix t assume t: "t < (64 :: nat)" "?ch t \<noteq> []"
    then have "ch t \<noteq> []" by (auto split: if_splits)
    with flags_okD[OF o(2) t(1) this] t d(4-6)
    show "wl_sorted (tw_levels ?w ! 0) ! t \<and> wl_last_seq (tw_levels ?w ! 0) ! t < tw_next_seq ?w"
      by (cases "t = b") (auto simp: f)
  qed
  have sub: "set (?ch r) \<subseteq> set (ch r)" for r using set_remove1_subset[of i "ch b"] by auto
  have at: "ws_ts (tw_slots ?w ! j) = ws_ts (tw_slots w ! j)" "at_seq ?w j = at_seq w j" for j by (simp_all add: sl s)
  have ord: "ordered ?w ?ch"
    unfolding ordered_def
  proof
    fix r
    have "distinct (ch b)" using linksD(2)[OF o(1) linksD(3)[OF o(1) i]] by (simp add: bucket_ok_def Let_def)
    then have "?ch b = filter (\<lambda>j. i \<noteq> j) (ch b)"
      by (simp add: distinct_remove1_removeAll removeAll_filter_not_eq)
    moreover have "earlier ?w = earlier w" by (intro ext) (simp add: earlier_def at)
    ultimately show "sorted_wrt (earlier ?w) (?ch r)" using o(3) by (simp add: ordered_def sorted_wrt_filter)
  qed
  have place: "in_place ?w ?ch" using o(4) sub unfolding in_place_def f at by blast
  from o(5) obtain fs where fs: "wheel_free_path (tw_slots w) (tw_free_head w) fs" "distinct fs"
    "set fs = {..<tw_watermark w} - live_slots w" by (auto simp: counts_ok_def)
  have "wheel_free_path (tw_slots ?w) j fs = wheel_free_path (tw_slots w) j fs" for j
    using fs(3) il' by (intro wheel_free_path_cong) (auto simp: sl s)
  moreover have "set (i # fs) = {..<tw_watermark w} - (live_slots w - {i})" using fs(3) iw by auto
  ultimately have "counts_ok ?w"
    using o(5) fs il' iw sh f unfolding counts_ok_def live f at
    by (auto simp: sl intro!: exI[of _ "i # fs"] intro: inj_on_diff)
  with lk flags ord place show "wheel_ok ?w ?ch" by (simp add: wheel_ok_def)
qed

section \<open>Front, peek and pop\<close>

lemma front_correct:
  assumes ok: "wheel_ok w ch" and ne: "ch (now_of w mod 64) \<noteq> []"
  shows "front_of_tick w = Some (hd (ch (now_of w mod 64)))"
proof -
  note o = wheel_okD[OF ok]
  let ?s = "now_of w mod 64"
  have b: "bucket_ok w ?s (ch ?s)" by (rule linksD(2)[OF o(1)]) simp
  then have h: "wl_head (tw_levels w ! 0) ! ?s = hd (ch ?s)" using ne by (simp add: bucket_ok_def Let_def hd_or_def)
  have "hd (ch ?s) \<noteq> kNullIndex"
    using linksD(4)[OF o(1), of "hd (ch ?s)" ?s] ne wheel_shapeD[OF linksD(1)[OF o(1)]] by auto
  then show ?thesis
    using flags_okD[OF o(2) _ ne] h by (simp add: front_of_tick_def tick_slot_eq Let_def)
qed

text \<open>The head of the current bucket is due now and precedes every other pending event.\<close>

lemma head_least:
  assumes ok: "wheel_ok w ch" and ne: "ch (now_of w mod 64) \<noteq> []" and i: "i = hd (ch (now_of w mod 64))"
  shows "i \<in> set (ch (now_of w mod 64))" "ws_ts (tw_slots w ! i) = tw_now w"
    "j \<in> live_slots w \<Longrightarrow> j \<noteq> i \<Longrightarrow>
       event_key (ws_ts (tw_slots w ! i)) (at_seq w i) < event_key (ws_ts (tw_slots w ! j)) (at_seq w j)"
proof -
  note o = wheel_okD[OF ok]
  let ?s = "now_of w mod 64"
  show m: "i \<in> set (ch ?s)" using ne i by simp
  have "at_ts w i = now_of w div 64 * 64 + ?s" by (rule placed_same_time[OF in_placeD(2)[OF o(4) m]]) simp
  then show t: "ws_ts (tw_slots w ! i) = tw_now w" by (simp add: word_unat_eq_iff)
  show "event_key (ws_ts (tw_slots w ! i)) (at_seq w i) < event_key (ws_ts (tw_slots w ! j)) (at_seq w j)"
    if j: "j \<in> live_slots w" "j \<noteq> i"
  proof -
    obtain c where c: "j \<in> set (ch c)" using j(1) live_in_bucket[OF o(1)] by blast
    have le: "tw_now w \<le> ws_ts (tw_slots w ! j)" using in_placeD(1)[OF o(4) c] by (simp add: word_le_nat_alt)
    have "at_seq w i < at_seq w j" if e: "ws_ts (tw_slots w ! j) = tw_now w"
    proof -
      have "c = ?s" using in_placeD(3)[OF o(4) c] in_placeD(3)[OF o(4) m] e t by simp
      then obtain xs where "ch ?s = i # xs" "j \<in> set xs" using c j(2) i ne by (cases "ch ?s") auto
      then have "earlier w i j" using o(3) by (auto simp: ordered_def dest!: spec[of _ ?s])
      then show ?thesis using e t by (simp add: earlier_def)
    qed
    then show ?thesis unfolding event_key_less t using le by (cases "ws_ts (tw_slots w ! j) = tw_now w") auto
  qed
qed

lemma wheel_pop_correct:
  assumes inv: "wheel_inv w" and ne: "tw_live w \<noteq> 0"
  shows "\<exists>i g ts sn v w'. wheel_pending w i = Some (g, ts, sn, v) \<and> wheel_pop w = Some (v, w') \<and> wheel_inv w' \<and>
     wheel_pending w' = (wheel_pending w)(i := None) \<and> tw_now w' = ts \<and> tw_next_seq w' = tw_next_seq w \<and>
     tw_capacity w' = tw_capacity w \<and> tw_live w' = tw_live w - 1 \<and>
     wheel_freed w i w' \<and> (\<exists>u. wheel_peek w = Some (v, u)) \<and>
     (\<exists>u. wheel_peek_ts w = Some (ts, u) \<and> wheel_inv u \<and> wheel_same w u) \<and>
     (\<forall>x \<in># wheel_events w'. event_key ts sn < fst x)"
proof -
  from inv obtain ch where "wheel_ok w ch" by (auto simp: wheel_inv_def)
  from settle_correct[OF this ne] obtain w1 ch1 where st: "settle w = Some w1" "wheel_ok w1 ch1" "wheel_same w w1"
    "ch1 (now_of w1 mod 64) \<noteq> []" by blast
  let ?i = "hd (ch1 (now_of w1 mod 64))"
  note hl = head_least[OF st(2,4) refl]
  note fr = front_correct[OF st(2,4)]
  note dr = drop_event_correct[OF st(2) hl(1)]
  note s = wheel_sameD[OF st(3)]
  have il: "?i \<in> live_slots w1" using hl(1) live_in_bucket[OF wheel_okD(1)[OF st(2)]] by blast
  have "ws_value (tw_slots (detach ?i w1) ! ?i) = ws_value (tw_slots w1 ! ?i)"
    using detach_links(2)[OF wheel_okD(1)[OF st(2)] hl(1)] by (rule wheel_sameD)
  then have "wheel_pop w = Some (ws_value (tw_slots w1 ! ?i), drop_event ?i w1)"
    using ne st(1) fr by (simp add: wheel_pop_def drop_event_def Let_def free_wheel_slot_def
        wheel_sameD(10)[OF detach_links(2)[OF wheel_okD(1)[OF st(2)] hl(1)]])
  moreover have "wheel_inv (drop_event ?i w1)" using dr(1) by (auto simp: wheel_inv_def)
  moreover have p: "wheel_pending w ?i = Some (ws_generation (tw_slots w1 ! ?i), tw_now w1, at_seq w1 ?i, ws_value (tw_slots w1 ! ?i))"
    using il hl(2) by (simp add: wheel_pending_Some same_pending[OF st(3), symmetric])
  moreover have "wheel_pending (drop_event ?i w1) = (wheel_pending w)(?i := None)"
    using dr(2) same_pending[OF st(3)] by simp
  moreover have "event_key (tw_now w1) (at_seq w1 ?i) < fst x" if "x \<in># wheel_events (drop_event ?i w1)" for x
  proof -
    from that obtain t where t: "t \<in> live_slots (drop_event ?i w1)" "x = keyed_event (the (wheel_pending (drop_event ?i w1) t))"
      by (auto simp: wheel_events_def)
    have "t \<in> dom (wheel_pending (drop_event ?i w1))" using t(1) by simp
    then have ti: "t \<noteq> ?i" "t \<in> dom (wheel_pending w1)" unfolding dr(2) by (auto simp del: dom_wheel_pending split: if_splits)
    then have "wheel_pending (drop_event ?i w1) t = Some (ws_generation (tw_slots w1 ! t), ws_ts (tw_slots w1 ! t),
        at_seq w1 t, ws_value (tw_slots w1 ! t))" using dr(2) by (simp add: wheel_pending_def Let_def)
    then show ?thesis using hl(3)[of t] hl(2) ti t(2) by (simp add: keyed_event_def)
  qed
  moreover have "wheel_peek w = Some (ws_value (tw_slots w1 ! ?i), w1)" "wheel_peek_ts w = Some (tw_now w1, w1)"
    using ne st(1) fr by (simp_all add: wheel_peek_def wheel_peek_ts_def)
  moreover have "wheel_inv w1" using st(2) by (auto simp: wheel_inv_def)
  moreover have "wheel_freed w ?i (drop_event ?i w1)" using dr(7) same_freed[OF st(3)] by simp
  ultimately show ?thesis using dr(3-6) s st(3) by (metis (no_types, lifting))
qed

lemma wheel_pop_least:
  assumes "wheel_inv w" and "wheel_events w \<noteq> {#}"
  shows "\<exists>k v w'. wheel_pop w = Some (v, w') \<and> wheel_inv w' \<and> wheel_events w = add_mset (k, v) (wheel_events w') \<and>
     (\<forall>x \<in># wheel_events w'. k < fst x)"
proof -
  have "tw_live w \<noteq> 0" using size_wheel_events[OF assms(1)] assms(2) by (metis size_eq_0_iff_empty)
  from wheel_pop_correct[OF assms(1) this] wheel_removes show ?thesis by metis
qed

interpretation wq: event_queue wheel_inv wheel_events wheel_pop
  by unfold_locales (rule wheel_pop_least)

section \<open>Cancel\<close>

lemma wheel_cancel_correct:
  assumes inv: "wheel_inv w"
  shows "wheel_pending w (h_index h) = Some (h_generation h, ts, sn, v) \<Longrightarrow>
      \<exists>w'. wheel_cancel h w = (True, w') \<and> wheel_inv w' \<and> wheel_pending w' = (wheel_pending w)(h_index h := None) \<and>
        wheel_freed w (h_index h) w'"
    "h_index h < tw_watermark w \<Longrightarrow> (\<nexists>x. wheel_pending w (h_index h) = Some (h_generation h, x)) \<Longrightarrow>
      wheel_cancel h w = (False, w)"
    "tw_capacity w \<le> h_index h \<Longrightarrow> wheel_cancel h w = (False, w)"
proof -
  from inv obtain ch where ok: "wheel_ok w ch" by (auto simp: wheel_inv_def)
  note o = wheel_okD[OF ok]
  note sh = wheel_shapeD[OF linksD(1)[OF o(1)]]
  let ?i = "h_index h"
  show "\<exists>w'. wheel_cancel h w = (True, w') \<and> wheel_inv w' \<and> wheel_pending w' = (wheel_pending w)(?i := None) \<and>
      wheel_freed w ?i w'"
    if p: "wheel_pending w ?i = Some (h_generation h, ts, sn, v)"
  proof -
    have l: "?i \<in> live_slots w" "ws_generation (tw_slots w ! ?i) = h_generation h" using p by (simp_all add: wheel_pending_Some)
    then obtain b where b: "?i \<in> set (ch b)" using live_in_bucket[OF o(1)] by blast
    note dr = drop_event_correct[OF ok b]
    have "wheel_cancel h w = (True, drop_event ?i w)"
      using l sh wheel_sameD(10)[OF detach_links(2)[OF o(1) b]]
      by (simp add: wheel_cancel_def live_slots_def Let_def drop_event_def free_wheel_slot_def)
    then show ?thesis using dr(1,2,7) by (auto simp: wheel_inv_def)
  qed
  show "wheel_cancel h w = (False, w)" if "?i < tw_watermark w" "\<nexists>x. wheel_pending w ?i = Some (h_generation h, x)"
    using that by (auto simp: wheel_cancel_def wheel_pending_def live_slots_def Let_def)
  show "wheel_cancel h w = (False, w)" if "tw_capacity w \<le> ?i" using that by (simp add: wheel_cancel_def)
qed

end
