(* ===== verification/WheelPush.thy ===== *)
theory WheelPush
  imports WheelQueue
begin

text \<open>
  \<open>push\<close>, construction and \<open>clear\<close> of the timing wheel.
\<close>

section \<open>Push\<close>

text \<open>The slot a push claims, and the state in which the event is filled in but in no bucket.\<close>

definition claimed_index :: "'a wheel \<Rightarrow> nat" where
  "claimed_index w = (if tw_free_head w = kNullIndex then tw_watermark w else tw_free_head w)"

definition claimed_slot :: "'a \<Rightarrow> 'a wheel \<Rightarrow> 'a wheel_slot" where
  "claimed_slot v w = (if tw_free_head w = kNullIndex then fresh_wheel_slot v else tw_slots w ! tw_free_head w)"

definition filled :: "u64 \<Rightarrow> 'a \<Rightarrow> 'a wheel \<Rightarrow> 'a wheel" where
  "filled ts v w =
     (let i = claimed_index w;
          slots = (tw_slots w)[i := (claimed_slot v w)\<lparr> ws_value := v, ws_ts := ts,
              ws_seq := tw_next_seq w, ws_live := True \<rparr>]
      in if tw_free_head w = kNullIndex then w\<lparr> tw_watermark := i + 1, tw_slots := slots \<rparr>
         else w\<lparr> tw_free_head := ws_free_next (tw_slots w ! i), tw_slots := slots \<rparr>)"

lemma claimed_index_correct:
  assumes inv: "wheel_ok w ch" and room: "tw_live w < tw_capacity w"
  shows "claimed_index w < tw_capacity w" "claimed_index w \<notin> live_slots w"
    "tw_free_head w = kNullIndex \<Longrightarrow> tw_watermark w < tw_capacity w \<and> live_slots w = {..<tw_watermark w}"
    "tw_free_head w \<noteq> kNullIndex \<Longrightarrow> tw_free_head w < tw_watermark w"
proof -
  note o = wheel_okD[OF inv]
  note sh = wheel_shapeD[OF linksD(1)[OF o(1)]]
  from o(5) obtain fs where fs: "wheel_free_path (tw_slots w) (tw_free_head w) fs" "distinct fs"
    "set fs = {..<tw_watermark w} - live_slots w" and c: "tw_live w = card (live_slots w)" by (auto simp: counts_ok_def)
  have sub: "live_slots w \<subseteq> {..<tw_watermark w}" by (auto simp: live_slots_def)
  show n: "tw_watermark w < tw_capacity w \<and> live_slots w = {..<tw_watermark w}" if "tw_free_head w = kNullIndex"
  proof -
    have "fs = []" using fs(1) that by (cases fs) auto
    then have "live_slots w = {..<tw_watermark w}" using fs(3) sub by auto
    then show ?thesis using c room sh(2) by simp
  qed
  have h: "tw_free_head w < tw_watermark w \<and> tw_free_head w \<notin> live_slots w" if "tw_free_head w \<noteq> kNullIndex"
  proof -
    have "tw_free_head w \<in> set fs" using fs(1) that by (cases fs) auto
    then show ?thesis using fs(3) by auto
  qed
  then show "tw_free_head w \<noteq> kNullIndex \<Longrightarrow> tw_free_head w < tw_watermark w" by simp
  show "claimed_index w < tw_capacity w" "claimed_index w \<notin> live_slots w"
    using n h sh(2) by (auto simp: claimed_index_def)
qed

lemma filled_fields:
  assumes "claimed_index w < length (tw_slots w)"
  shows "tw_capacity (filled ts v w) = tw_capacity w" "tw_live (filled ts v w) = tw_live w"
    "tw_now (filled ts v w) = tw_now w" "tw_next_seq (filled ts v w) = tw_next_seq w"
    "tw_levels (filled ts v w) = tw_levels w" "length (tw_slots (filled ts v w)) = length (tw_slots w)"
    "tw_slots (filled ts v w) ! j = (if j = claimed_index w
       then (claimed_slot v w)\<lparr> ws_value := v, ws_ts := ts, ws_seq := tw_next_seq w, ws_live := True \<rparr>
       else tw_slots w ! j)"
    "tw_watermark (filled ts v w) = (if tw_free_head w = kNullIndex then tw_watermark w + 1 else tw_watermark w)"
    "tw_free_head (filled ts v w) = (if tw_free_head w = kNullIndex then kNullIndex else ws_free_next (tw_slots w ! tw_free_head w))"
  using assms by (auto simp: filled_def Let_def claimed_index_def nth_list_update)

lemma filled_correct:
  fixes ts :: u64 and v :: 'a
  assumes ok: "wheel_ok w ch" and room: "tw_live w < tw_capacity w"
  defines "i \<equiv> claimed_index w" and "u \<equiv> filled ts v w"
  shows "links u ch {i}" "i < tw_watermark u" "live_slots u = insert i (live_slots w)"
    "\<exists>fs. wheel_free_path (tw_slots u) (tw_free_head u) fs \<and> distinct fs \<and>
       set fs = {..<tw_watermark u} - insert i (live_slots w)"
    "j \<noteq> i \<Longrightarrow> tw_slots u ! j = tw_slots w ! j" "i \<notin> live_slots w" "i < length (tw_slots w)"
proof -
  note o = wheel_okD[OF ok]
  note sh = wheel_shapeD[OF linksD(1)[OF o(1)]]
  note c = claimed_index_correct[OF ok room, folded i_def]
  show il: "i < length (tw_slots w)" "i \<notin> live_slots w" using c sh by simp_all
  note f = filled_fields[OF il(1)[unfolded i_def], of ts v, folded i_def u_def]
  show iu: "i < tw_watermark u" using c(3,4) by (auto simp: f i_def claimed_index_def)
  have wm: "tw_watermark w \<le> tw_watermark u" "tw_watermark u \<le> tw_capacity u"
    "\<And>j. j < tw_watermark u \<Longrightarrow> j \<noteq> i \<Longrightarrow> j < tw_watermark w"
    using c(3) sh(2) by (cases "tw_free_head w = kNullIndex"; simp add: f(1,8) i_def claimed_index_def)+
  show live: "live_slots u = insert i (live_slots w)"
    using iu wm by (auto simp: live_slots_def f(7))
  show "j \<noteq> i \<Longrightarrow> tw_slots u ! j = tw_slots w ! j" by (simp add: f(7))
  have ni: "i \<notin> set (ch b)" for b using live_in_bucket[OF o(1)] il(2) by blast
  show "links u ch {i}"
    unfolding links_def
  proof (intro conjI allI impI)
    show "wheel_shape u" using linksD(1)[OF o(1)] wm by (simp add: wheel_shape_def f)
    show "bucket_ok u b (ch b)" if "b < 704" for b
    proof -
      have "linked (tw_slots u) kNullIndex (ch b) kNullIndex = linked (tw_slots w) kNullIndex (ch b) kNullIndex"
        using ni[of b] by (intro linked_cong) (auto simp: f)
      then show ?thesis using linksD(2)[OF o(1) that] by (simp add: bucket_ok_def Let_def f)
    qed
    show "b < 704" "j < tw_watermark u" "j \<notin> {i}" "ws_live (tw_slots u ! j)" "ws_bucket (tw_slots u ! j) = b"
      if j: "j \<in> set (ch b)" for j b
    proof -
      have "j \<noteq> i" using j ni by auto
      then show "b < 704" "j < tw_watermark u" "j \<notin> {i}" "ws_live (tw_slots u ! j)" "ws_bucket (tw_slots u ! j) = b"
        using linksD(3,4,6,7)[OF o(1) j] wm(1) by (auto simp: f(7))
    qed
    show "j \<in> set (ch (ws_bucket (tw_slots u ! j)))"
      if "j < tw_watermark u" "ws_live (tw_slots u ! j)" "j \<notin> {i}" for j
      using linksD(8)[OF o(1), of j] that wm(3)[of j] by (simp add: f(7))
  qed
  from o(5) obtain fs where fs: "wheel_free_path (tw_slots w) (tw_free_head w) fs" "distinct fs"
    "set fs = {..<tw_watermark w} - live_slots w" by (auto simp: counts_ok_def)
  show "\<exists>fs. wheel_free_path (tw_slots u) (tw_free_head u) fs \<and> distinct fs \<and>
     set fs = {..<tw_watermark u} - insert i (live_slots w)"
  proof (cases fs)
    case Nil
    then have "tw_free_head w = kNullIndex" "i = tw_watermark w" using fs(1) by (simp_all add: i_def claimed_index_def)
    moreover from this have e: "live_slots w = {..<tw_watermark w}" using c(3) by blast
    ultimately show ?thesis unfolding e by (intro exI[of _ "[]"]) (simp add: f(8,9) lessThan_Suc)
  next
    case (Cons x xs)
    then have x: "tw_free_head w = x" "x \<noteq> kNullIndex" "i = x" using fs(1) by (auto simp: i_def claimed_index_def)
    have "wheel_free_path (tw_slots u) j xs = wheel_free_path (tw_slots w) j xs" for j
      using fs(2) Cons x by (intro wheel_free_path_cong) (auto simp: f(7))
    then show ?thesis using fs Cons x by (intro exI[of _ xs]) (auto simp: f(8,9))
  qed
qed

lemma wheel_push_unfold:
  assumes ok: "wheel_ok w ch" and room: "tw_live w < tw_capacity w" and ts: "tw_now w \<le> ts"
  shows "wheel_push ts v w = (let i = claimed_index w; u = attach i (filled ts v w);
      u = u\<lparr> tw_live := tw_live u + 1, tw_next_seq := tw_next_seq u + 1 \<rparr>
    in Some (\<lparr> h_index = i, h_generation = ws_generation (tw_slots u ! i) \<rparr>, u))"
proof -
  have "claimed_index w < length (tw_slots w)" using filled_correct(7)[OF ok room] .
  then show ?thesis
    using room ts claimed_index_correct(3)[OF ok room]
    by (cases "tw_free_head w = kNullIndex")
      (simp_all add: wheel_push_def claim_wheel_slot_def filled_def claimed_index_def claimed_slot_def Let_def)
qed

lemma wheel_push_correct:
  assumes inv: "wheel_inv w" and room: "tw_live w < tw_capacity w" and ts: "tw_now w \<le> ts"
    and seq: "tw_next_seq w \<noteq> - 1"
  shows "\<exists>w'. wheel_push ts v w = Some (\<lparr> h_index = claimed_index w, h_generation = ws_generation (claimed_slot v w) \<rparr>, w') \<and>
     wheel_inv w' \<and> wheel_pending w (claimed_index w) = None \<and>
     wheel_pending w' = (wheel_pending w)(claimed_index w \<mapsto> (ws_generation (claimed_slot v w), ts, tw_next_seq w, v)) \<and>
     tw_next_seq w' = tw_next_seq w + 1 \<and> tw_capacity w' = tw_capacity w \<and> tw_live w' = tw_live w + 1 \<and>
     tw_now w' = tw_now w \<and> wheel_same (filled ts v w) (w'\<lparr> tw_live := tw_live w, tw_next_seq := tw_next_seq w \<rparr>)"
proof -
  from inv obtain ch where ok: "wheel_ok w ch" by (auto simp: wheel_inv_def)
  note o = wheel_okD[OF ok]
  let ?i = "claimed_index w" and ?u = "filled ts v w"
  note fc0 = filled_correct[OF ok room]
  note fc = fc0(1-5)[where ts = ts and v = v] fc0(6,7)
  note f = filled_fields[OF fc(7), of ts v]
  let ?b = "route_bucket (tw_now w) ts"
  have ui: "ws_live (tw_slots ?u ! ?i)" "ws_ts (tw_slots ?u ! ?i) = ts" "at_seq ?u ?i = tw_next_seq w"
    by (simp_all add: f(7))
  have b: "?b = route_bucket (tw_now ?u) (ws_ts (tw_slots ?u ! ?i))" using ui by (simp add: f)
  have b704: "?b < 704" by (rule placed_bound[OF route_placed unat_lt64 unat_lt64])
  note a = attach_links[OF fc(1,2) ui(1) b b704]
  define w' where "w' = (attach ?i ?u)\<lparr> tw_live := tw_live w + 1, tw_next_seq := tw_next_seq w + 1 \<rparr>"
  let ?ch = "ch(?b := ch ?b @ [?i])"
  note s = wheel_sameD[OF a(2)]
  have s': "tw_slots w' = tw_slots (attach ?i ?u)" "tw_levels w' = tw_levels (attach ?i ?u)" "tw_now w' = tw_now w"
    "tw_capacity w' = tw_capacity w" "tw_watermark w' = tw_watermark ?u" "tw_free_head w' = tw_free_head ?u"
    "tw_next_seq w' = tw_next_seq w + 1" "tw_live w' = tw_live w + 1"
    using s a(3) by (simp_all add: w'_def f)
  have push: "wheel_push ts v w = Some (\<lparr> h_index = ?i, h_generation = ws_generation (claimed_slot v w) \<rparr>, w')"
    unfolding wheel_push_unfold[OF ok room ts] by (simp add: Let_def w'_def s f)
  have less: "tw_next_seq w < tw_next_seq w + 1"
    using seq inc_less_eq_self_iff_eq[of "tw_next_seq w"] by (simp add: not_le[symmetric])
  have old: "tw_slots ?u ! j = tw_slots w ! j" if "j \<in> set (ch c)" for j c
  proof (rule fc(5))
    show "j \<noteq> ?i" using that fc(6) live_in_bucket[OF o(1), of j] by auto
  qed
  have seqs: "at_seq w j < tw_next_seq w" if "j \<in> live_slots w" for j
    using o(5) that by (auto simp: counts_ok_def)
  have live: "live_slots w' = insert ?i (live_slots w)"
    using fc(3) s by (simp add: live_slots_def s')
  have lk: "links w' ?ch {}" using a(1) by (simp add: links_def wheel_shape_def bucket_ok_def s' s f)
  have flags: "flags_ok w' ?ch"
    unfolding flags_ok_def
  proof (intro allI impI)
    fix t assume t: "t < (64 :: nat)" "?ch t \<noteq> []"
    show "wl_sorted (tw_levels w' ! 0) ! t \<and> wl_last_seq (tw_levels w' ! 0) ! t < tw_next_seq w'"
    proof (cases "t = ?b")
      case True
      then show ?thesis
        using a(4,5) t(1) flags_okD[OF o(2) t(1)] less ui(3) by (auto simp: s' f)
    next
      case False
      then show ?thesis
        using a(6)[OF t(1)] t(2) flags_okD[OF o(2) t(1)] less by (auto simp: s' f intro: order.strict_trans)
    qed
  qed
  have data: "ws_ts (tw_slots w' ! j) = ws_ts (tw_slots ?u ! j)" "at_seq w' j = at_seq ?u j" for j
    by (simp_all add: s' s)
  have ord: "ordered w' ?ch"
    unfolding ordered_def
  proof
    fix c
    have e: "sorted_wrt (earlier w') (ch c)"
    proof -
      have "sorted_wrt (earlier w) (ch c)" using o(3) by (simp add: ordered_def)
      then show ?thesis
        by (rule sorted_wrt_mono_rel[rotated]) (simp add: earlier_def data old)
    qed
    have "earlier w' j ?i" if "j \<in> set (ch c)" for j
      using seqs[of j] that live_in_bucket[OF o(1)] old[OF that] ui by (auto simp: earlier_def data)
    with e show "sorted_wrt (earlier w') (?ch c)" by (auto simp: sorted_wrt_append)
  qed
  have place: "in_place w' ?ch"
    unfolding in_place_def
  proof (intro allI impI)
    fix c j assume "j \<in> set (?ch c)"
    then have "j \<in> set (ch c) \<or> j = ?i \<and> c = ?b" by (auto split: if_splits)
    then show "now_of w' \<le> at_ts w' j \<and> placed (now_of w') (at_ts w' j) c"
      using in_placeD(1,2)[OF o(4), of j c] old[of j c] ts ui route_placed[of "tw_now w" ts]
      by (auto simp: data s'(3) word_le_nat_alt)
  qed
  have counts: "counts_ok w'"
  proof -
    have e: "at_seq w' j = at_seq w j" if "j \<in> live_slots w" for j
      using fc(5)[of j] fc(6) that by (cases "j = ?i") (auto simp: data)
    have ei: "at_seq w' ?i = tw_next_seq w" using ui by (simp add: data)
    have "inj_on (at_seq w) (live_slots w)" using o(5) by (simp add: counts_ok_def)
    then have "inj_on (at_seq w') (live_slots w)" using e by (simp cong: inj_on_cong)
    moreover have "at_seq w' ?i \<notin> at_seq w' ` (live_slots w - {?i})" using ei e seqs by (auto dest!: seqs)
    ultimately have "inj_on (at_seq w') (insert ?i (live_slots w))" by (simp only: inj_on_insert simp_thms)
    moreover have "\<forall>j \<in> insert ?i (live_slots w). at_seq w' j < tw_next_seq w'"
    proof
      fix j assume "j \<in> insert ?i (live_slots w)"
      then show "at_seq w' j < tw_next_seq w'"
        using e[of j] ei seqs[of j] less by (auto simp: s'(7) intro: order.strict_trans)
    qed
    moreover have "wheel_free_path (tw_slots w') j fs = wheel_free_path (tw_slots ?u) j fs" for j fs
      by (rule wheel_free_path_cong) (simp add: s' s)
    moreover have "tw_live w' = card (insert ?i (live_slots w))"
      using o(5) fc(6) by (simp add: counts_ok_def s')
    ultimately show ?thesis unfolding counts_ok_def live using fc(4) by (simp add: s')
  qed
  have "wheel_inv w'" using lk flags ord place counts by (auto simp: wheel_inv_def wheel_ok_def)
  moreover have "wheel_pending w' = (wheel_pending w)(?i \<mapsto> (ws_generation (claimed_slot v w), ts, tw_next_seq w, v))"
  proof
    fix j
    show "wheel_pending w' j = ((wheel_pending w)(?i \<mapsto> (ws_generation (claimed_slot v w), ts, tw_next_seq w, v))) j"
      unfolding wheel_pending_def live by (auto simp: s' s f(7) Let_def)
  qed
  moreover have "wheel_same ?u (w'\<lparr> tw_live := tw_live w, tw_next_seq := tw_next_seq w \<rparr>)"
    using a(2) by (simp add: wheel_same_def w'_def f)
  ultimately show ?thesis using push fc(6) s' by (auto simp: wheel_pending_def)
qed

section \<open>Construction and clear\<close>

lemma empty_wheel_ok:
  assumes "wheel_shape w" and "live_slots w = {}" and "tw_live w = 0"
    and "\<And>li. li < 11 \<Longrightarrow> wl_head (tw_levels w ! li) = replicate 64 kNullIndex \<and>
      wl_tail (tw_levels w ! li) = replicate 64 kNullIndex \<and> wl_occupied (tw_levels w ! li) = 0"
    and "wheel_free_path (tw_slots w) (tw_free_head w) fs" and "distinct fs" and "set fs = {..<tw_watermark w}"
  shows "wheel_ok w (\<lambda>_. [])"
proof -
  have "bucket_ok w b []" if "b < 704" for b using assms(4)[of "b div 64"] that by (simp add: bucket_ok_def Let_def)
  moreover have "\<not> ws_live (tw_slots w ! i)" if "i < tw_watermark w" for i
    using assms(2) that by (auto simp: live_slots_def)
  ultimately show ?thesis
    using assms(1,2,3,5-7)
    by (auto simp: wheel_ok_def links_def flags_ok_def ordered_def in_place_def counts_ok_def)
qed

lemma wheel_new_correct:
  assumes "0 < capacity" and "capacity < kNullIndex" and "capacity \<le> length raw"
  shows "\<exists>w. wheel_new capacity raw = Some w \<and> wheel_inv w \<and> wheel_pending w = Map.empty \<and> tw_now w = 0 \<and>
    tw_capacity w = capacity \<and> tw_next_seq w = 0 \<and> tw_live w = 0 \<and> tw_watermark w = 0 \<and> tw_free_head w = kNullIndex"
proof -
  obtain w where w: "wheel_new capacity raw = Some w" using assms(1,2) by (simp add: wheel_new_def)
  then have e: "w = \<lparr> tw_capacity = capacity, tw_slots = take capacity raw, tw_watermark = 0, tw_free_head = kNullIndex,
      tw_live = 0, tw_now = 0, tw_next_seq = 0, tw_levels = replicate 11 empty_wheel_level \<rparr>"
    using assms(1,2) by (simp add: wheel_new_def wheel_consts)
  have lv: "live_slots w = {}" by (simp add: live_slots_def e)
  have "wheel_ok w (\<lambda>_. [])"
    by (rule empty_wheel_ok[where fs = "[]"])
      (use assms in \<open>simp_all add: lv, simp_all add: e wheel_shape_def level_shape_def empty_wheel_level_def wheel_consts\<close>)
  then show ?thesis using w lv by (auto simp: wheel_inv_def wheel_pending_def e)
qed

lemma wheel_path_upt:
  assumes "i < n" and "n < kNullIndex"
    and "\<And>j. j < n \<Longrightarrow> ws_free_next (sl ! j) = (if j + 1 < n then j + 1 else kNullIndex)"
  shows "wheel_free_path sl i [i..<n]"
  using assms(1)
proof (induction "n - i" arbitrary: i)
  case (Suc k)
  then show ?case using assms(2,3) by (cases "i + 1 < n") (auto simp: upt_conv_Cons)
qed simp

lemma wheel_clear_correct:
  assumes inv: "wheel_inv w" and cap: "0 < tw_capacity w"
  shows "wheel_inv (wheel_clear d w)" "wheel_pending (wheel_clear d w) = Map.empty"
    "tw_now (wheel_clear d w) = 0" "tw_next_seq (wheel_clear d w) = 0"
proof -
  let ?w = "wheel_clear d w"
  from inv obtain ch where "wheel_ok w ch" by (auto simp: wheel_inv_def)
  note sh = linksD(1)[OF wheel_okD(1)[OF this]]
  note w = wheel_shapeD[OF sh]
  have sl: "\<not> ws_live (tw_slots ?w ! i) \<and> ws_free_next (tw_slots ?w ! i) = (if i + 1 < tw_capacity w then i + 1 else kNullIndex)"
    if "i < tw_capacity w" for i using that by (simp add: wheel_clear_def Let_def cleared_wheel_slot_def)
  have c: "tw_capacity ?w = tw_capacity w" "tw_watermark ?w = tw_capacity w" "tw_free_head ?w = 0" "tw_live ?w = 0"
    "length (tw_slots ?w) = tw_capacity w" "tw_levels ?w = map cleared_level (tw_levels w)"
    by (simp_all add: wheel_clear_def Let_def)
  show "tw_now ?w = 0" "tw_next_seq ?w = 0" by (simp_all add: wheel_clear_def Let_def)
  have lv: "live_slots ?w = {}" using sl by (auto simp: live_slots_def c)
  then show "wheel_pending ?w = Map.empty" by (auto simp: wheel_pending_def)
  have "wheel_ok ?w (\<lambda>_. [])"
  proof (rule empty_wheel_ok[where fs = "[0..<tw_capacity w]"])
    show "wheel_shape ?w"
      using sh by (auto simp: wheel_shape_def c level_shape_def cleared_level_def wheel_consts)
    show "wheel_free_path (tw_slots ?w) (tw_free_head ?w) [0..<tw_capacity w]"
      unfolding c using cap w(3) sl by (intro wheel_path_upt) auto
    show "wl_head (tw_levels ?w ! li) = replicate 64 kNullIndex \<and> wl_tail (tw_levels ?w ! li) = replicate 64 kNullIndex \<and>
        wl_occupied (tw_levels ?w ! li) = 0" if "li < 11" for li
      using that w(4) by (simp add: c cleared_level_def wheel_consts)
  qed (use lv c in \<open>auto simp: atLeast0LessThan\<close>)
  then show "wheel_inv ?w" by (auto simp: wheel_inv_def)
qed

end
