(* ===== verification/WheelAudit.thy ===== *)
theory WheelAudit
  imports WheelPush
begin

text \<open>
  The self-check of the timing wheel: it ends and accepts every state the operations produce. Its
  conditions are the documented invariants I1 to I4: pending times are not before the watermark, a
  coarse bucket is strictly ahead of the watermark's digit, level 0 holds the current window, and
  masks, links and counters agree.
\<close>

lemma audit_slot_correct:
  assumes ok: "wheel_ok w ch" and i: "i \<in> set (ch (li * 64 + b))" and b: "b < 64"
    and p: "ws_prev (tw_slots w ! i) = prev"
  shows "audit_slot w li b prev (tw_slots w ! i)"
proof -
  note o = wheel_okD[OF ok]
  note q = in_placeD(1,2)[OF o(4) i]
  have d: "(li * 64 + b) div 64 = li" "(li * 64 + b) mod 64 = b" using b by auto
  have up: "at_ts w i div 64 ^ (li + 1) = now_of w div 64 ^ (li + 1)" "b = (at_ts w i div 64 ^ li) mod 64"
    using q(2) d by (simp_all add: placed_def Let_def)
  have "drop_bit (6 * (li + 1)) (ws_ts (tw_slots w ! i) XOR tw_now w) = 0"
    unfolding drop_xor_zero pow64 by (rule up(1))
  moreover have "wheel_digit (ws_ts (tw_slots w ! i)) li = b" using up(2) by (simp add: wheel_digit_eq)
  moreover have "\<not> b \<le> wheel_digit (tw_now w) li" if "li > 0"
    using placed_digit[OF q(2,1)] that d by (simp add: wheel_digit_eq)
  moreover have "drop_bit 6 (ws_ts (tw_slots w ! i)) = drop_bit 6 (tw_now w)" if "li = 0"
    using up(1) that by (simp add: word_unat_eq_iff unat_drop)
  moreover have "\<not> ws_ts (tw_slots w ! i) < tw_now w" using q(1) by (simp add: word_less_nat_alt)
  ultimately show ?thesis
    using linksD(6,7)[OF o(1) i] p by (simp add: audit_slot_def Let_def wheel_consts del: drop_bit_xor)
qed

lemma audit_chain_correct:
  assumes "linked (tw_slots w) prev xs kNullIndex" and "n + length xs \<le> tw_capacity w" and "tw_capacity w < kNullIndex"
    and "\<And>x. x \<in> set xs \<Longrightarrow> x \<noteq> kNullIndex"
    and "\<And>x p. x \<in> set xs \<Longrightarrow> ws_prev (tw_slots w ! x) = p \<Longrightarrow> audit_slot w li b p (tw_slots w ! x)"
  shows "audit_chain w li b (hd_or kNullIndex xs) prev n = Some (Some (n + length xs, last_or prev xs))"
  using assms
proof (induction xs arbitrary: prev n)
  case Nil
  then show ?case by (subst audit_chain.simps) simp
next
  case (Cons x xs)
  have "audit_slot w li b prev (tw_slots w ! x)" using Cons.prems(1) by (intro Cons.prems(5)) simp_all
  moreover have "x \<noteq> kNullIndex" using Cons.prems(4) by simp
  moreover have "audit_chain w li b (hd_or kNullIndex xs) x (n + 1) = Some (Some (n + 1 + length xs, last_or x xs))"
    using Cons.prems by (intro Cons.IH) auto
  ultimately show ?case using Cons.prems(1,2) by (subst audit_chain.simps) simp
qed

lemma chain_short:
  assumes "links w ch {}" and "b < 704"
  shows "length (ch b) \<le> tw_capacity w" "distinct (ch b)"
proof -
  show d: "distinct (ch b)" using linksD(2)[OF assms] by (simp add: bucket_ok_def Let_def)
  have "card (set (ch b)) \<le> card {..<tw_watermark w}" using linksD(4)[OF assms(1)] by (intro card_mono) auto
  then show "length (ch b) \<le> tw_capacity w"
    using distinct_card[OF d] wheel_shapeD(2)[OF linksD(1)[OF assms(1)]] by simp
qed

lemma audit_bucket_correct:
  assumes ok: "wheel_ok w ch" and li: "li < 11" and b: "b < 64"
  shows "audit_bucket w li b = Some (Some (length (ch (li * 64 + b))))"
proof -
  note o = wheel_okD[OF ok]
  note sh = wheel_shapeD[OF linksD(1)[OF o(1)]]
  let ?xs = "ch (li * 64 + b)"
  have c: "li * 64 + b < 704" "(li * 64 + b) div 64 = li" "(li * 64 + b) mod 64 = b" using li b by auto
  have bo: "wl_head (tw_levels w ! li) ! b = hd_or kNullIndex ?xs" "wl_tail (tw_levels w ! li) ! b = last_or kNullIndex ?xs"
    "linked (tw_slots w) kNullIndex ?xs kNullIndex"
    using linksD(2)[OF o(1) c(1)] c by (simp_all add: bucket_ok_def Let_def)
  have nn: "x \<noteq> kNullIndex" if "x \<in> set ?xs" for x using linksD(4)[OF o(1) that] sh by simp
  have bit: "drop_bit b (wl_occupied (tw_levels w ! li)) AND 1 \<noteq> 0 \<longleftrightarrow> ?xs \<noteq> []"
    using bucket_occupied[OF o(1) li b]
    by (simp add: and_one_eq bit_iff_odd_drop_bit[symmetric]) (simp add: bit_iff_odd_drop_bit odd_iff_mod_2_eq_one)
  have ends: "hd_or kNullIndex ?xs \<noteq> kNullIndex \<longleftrightarrow> ?xs \<noteq> []" "last_or kNullIndex ?xs \<noteq> kNullIndex \<longleftrightarrow> ?xs \<noteq> []"
    using hd_or_in[of ?xs kNullIndex] last_or_in[of ?xs kNullIndex] nn by auto
  have "audit_chain w li b (hd_or kNullIndex ?xs) kNullIndex 0 = Some (Some (0 + length ?xs, last_or kNullIndex ?xs))"
    using chain_short(1)[OF o(1) c(1)] sh(3) nn bo(3) audit_slot_correct[OF ok _ b]
    by (intro audit_chain_correct) auto
  then show ?thesis using bit ends bo by (simp add: audit_bucket_def Let_def)
qed

lemma audit_buckets_correct:
  assumes "wheel_ok w ch" and "\<And>li b. (li, b) \<in> set bs \<Longrightarrow> li < 11 \<and> b < 64"
  shows "audit_buckets w bs n = Some (Some (n + (\<Sum>(li, b) \<leftarrow> bs. length (ch (li * 64 + b)))))"
  using assms(2)
proof (induction bs arbitrary: n)
  case (Cons p bs)
  obtain li b where p: "p = (li, b)" by (cases p)
  have "li < 11" "b < 64" using Cons.prems[of li b] by (simp_all add: p)
  note b = audit_bucket_correct[OF assms(1) this]
  have "audit_buckets w bs (n + length (ch (li * 64 + b))) =
      Some (Some (n + length (ch (li * 64 + b)) + (\<Sum>(li, b) \<leftarrow> bs. length (ch (li * 64 + b)))))"
    by (rule Cons.IH) (rule Cons.prems, simp)
  then show ?case by (simp add: p b)
qed simp

lemma chains_partition:
  assumes ok: "wheel_ok w ch"
  shows "(\<Sum>(li, b) \<leftarrow> List.product [0..<11] [0..<64]. length (ch (li * 64 + b))) = card (live_slots w)"
proof -
  note o = wheel_okD[OF ok]
  let ?I = "{0..<11} \<times> {0..<64 :: nat}" and ?c = "\<lambda>(li :: nat, b). ch (li * 64 + b)"
  have "(\<Sum>(li, b) \<leftarrow> List.product [0..<11] [0..<64]. length (ch (li * 64 + b))) = (\<Sum>p \<in> ?I. length (?c p))"
    by (subst sum_list_distinct_conv_sum_set) (simp_all add: distinct_product case_prod_beta)
  also have "\<dots> = (\<Sum>p \<in> ?I. card (set (?c p)))"
    using chain_short(2)[OF o(1)] by (intro sum.cong) (auto simp: distinct_card)
  also have "\<dots> = card (\<Union>p \<in> ?I. set (?c p))"
  proof (rule card_UN_disjoint[symmetric])
    show "\<forall>p \<in> ?I. \<forall>q \<in> ?I. p \<noteq> q \<longrightarrow> set (?c p) \<inter> set (?c q) = {}"
    proof (intro ballI impI)
      fix p q :: "nat \<times> nat" assume pq: "p \<in> ?I" "q \<in> ?I" "p \<noteq> q"
      obtain a b c d where e: "p = (a, b)" "q = (c, d)" by fastforce
      have "a * 64 + b \<noteq> c * 64 + d"
      proof
        assume eq: "a * 64 + b = c * 64 + d"
        then have "(a * 64 + b) mod 64 = (c * 64 + d) mod 64" by simp
        then have "b = d" using pq e by simp
        then show False using eq pq(3) e by simp
      qed
      then show "set (?c p) \<inter> set (?c q) = {}"
        using linksD(7)[OF o(1), of _ "a * 64 + b"] linksD(7)[OF o(1), of _ "c * 64 + d"]
        by (simp add: e disjoint_iff) metis
    qed
  qed simp_all
  also have "(\<Union>p \<in> ?I. set (?c p)) = live_slots w"
  proof (intro equalityI subsetI)
    fix i assume "i \<in> live_slots w"
    then obtain b where b: "i \<in> set (ch b)" using live_in_bucket[OF o(1)] by blast
    have "(b div 64, b mod 64) \<in> ?I" using linksD(3)[OF o(1) b] by auto
    then show "i \<in> (\<Union>p \<in> ?I. set (?c p))" using b by (intro UN_I[of "(b div 64, b mod 64)"]) auto
  qed (use live_in_bucket[OF o(1)] in auto)
  finally show ?thesis .
qed

lemma audit_wheel_free_path:
  assumes "wheel_free_path (tw_slots w) i fs" and "\<And>x. x \<in> set fs \<Longrightarrow> x < tw_capacity w \<and> \<not> ws_live (tw_slots w ! x)"
  shows "audit_wheel_free w i n = Some (Some (n + length fs))"
  using assms
proof (induction fs arbitrary: i n)
  case Nil
  then show ?case by (subst audit_wheel_free.simps) simp
next
  case (Cons x fs)
  have x: "i = x" "x \<noteq> kNullIndex" "wheel_free_path (tw_slots w) (ws_free_next (tw_slots w ! x)) fs"
    using Cons.prems(1) by auto
  have "x < tw_capacity w \<and> \<not> ws_live (tw_slots w ! x)" by (rule Cons.prems(2)) simp
  then have "audit_wheel_free w i n = audit_wheel_free w (ws_free_next (tw_slots w ! x)) (n + 1)"
    using x by (subst audit_wheel_free.simps) simp
  also have "\<dots> = Some (Some (n + 1 + length fs))" by (rule Cons.IH[OF x(3)]) (rule Cons.prems(2), simp)
  finally show ?case by simp
qed

lemma wheel_audit_correct:
  assumes "wheel_inv w"
  shows "wheel_audit w = Some True"
proof -
  from assms obtain ch where ok: "wheel_ok w ch" by (auto simp: wheel_inv_def)
  note o = wheel_okD[OF ok]
  note sh = wheel_shapeD[OF linksD(1)[OF o(1)]]
  from o(5) obtain fs where fs: "wheel_free_path (tw_slots w) (tw_free_head w) fs" "distinct fs"
    "set fs = {..<tw_watermark w} - live_slots w" and c: "tw_live w = card (live_slots w)" by (auto simp: counts_ok_def)
  have "audit_buckets w (List.product [0..<kLevels] [0..<kBuckets]) 0 = Some (Some (tw_live w))"
    using audit_buckets_correct[OF ok, of "List.product [0..<11] [0..<64]" 0] chains_partition[OF ok] c
    by (simp add: wheel_consts)
  moreover have "audit_wheel_free w (tw_free_head w) 0 = Some (Some (0 + length fs))"
    using fs sh(2) by (intro audit_wheel_free_path) (auto simp: live_slots_def)
  moreover have "length fs + tw_live w = tw_watermark w"
  proof -
    have "live_slots w \<subseteq> {..<tw_watermark w}" by (auto simp: live_slots_def)
    then have "card ({..<tw_watermark w} - live_slots w) + card (live_slots w) = tw_watermark w"
      using card_mono[of "{..<tw_watermark w}" "live_slots w"] by (simp add: card_Diff_subset)
    then show ?thesis using distinct_card[OF fs(2)] fs(3) c by simp
  qed
  ultimately show ?thesis using sh(2) by (simp add: wheel_audit_def)
qed

end
