(* ===== verification/WheelAgree.thy ===== *)
theory WheelAgree
  imports WheelAudit
begin

text \<open>
  The timing wheel and the heap scheduler are interchangeable: driven by the same calls they return
  the same handles, the same verdicts, times and events. The relation \<open>engines_agree\<close> says that both
  hold the same pending events in the same slots and would hand out the same slots next.
\<close>

section \<open>Calls\<close>

datatype 'a queue_call = Push u64 'a | Cancel gen_handle | Peek_ts | Pop

datatype 'a queue_result = Handle gen_handle | Cancelled bool | At u64 | Event 'a

fun wheel_call :: "'a queue_call \<Rightarrow> 'a wheel \<Rightarrow> ('a queue_result \<times> 'a wheel) option" where
  "wheel_call (Push ts v) w = map_option (apfst Handle) (wheel_push ts v w)"
| "wheel_call (Cancel h) w = Some (apfst Cancelled (wheel_cancel h w))"
| "wheel_call Peek_ts w = map_option (apfst At) (wheel_peek_ts w)"
| "wheel_call Pop w = map_option (apfst Event) (wheel_pop w)"

fun sched_call :: "'a queue_call \<Rightarrow> 'a scheduler \<Rightarrow> ('a queue_result \<times> 'a scheduler) option" where
  "sched_call (Push ts v) q = map_option (apfst Handle) (sched_push ts v q)"
| "sched_call (Cancel h) q = map_option (apfst Cancelled) (sched_cancel h q)"
| "sched_call Peek_ts q = map_option (\<lambda>ts. (At ts, q)) (peek_min_ts q)"
| "sched_call Pop q = map_option (apfst Event) (pop_min q)"

text \<open>
  A handle between the construction watermark and the capacity would read a slot that was never
  constructed, in both engines.
\<close>

fun sound_call :: "'a queue_call \<Rightarrow> 'a wheel \<Rightarrow> bool" where
  "sound_call (Cancel h) w = (h_index h < tw_watermark w \<or> tw_capacity w \<le> h_index h)"
| "sound_call _ w = True"

fun wheel_calls :: "'a queue_call list \<Rightarrow> 'a wheel \<Rightarrow> ('a queue_result list \<times> 'a wheel) option" where
  "wheel_calls [] w = Some ([], w)"
| "wheel_calls (c # cs) w = (if \<not> sound_call c w then None else do {
     (r, w) \<leftarrow> wheel_call c w;
     (rs, w) \<leftarrow> wheel_calls cs w;
     Some (r # rs, w)
   })"

fun sched_calls :: "'a queue_call list \<Rightarrow> 'a scheduler \<Rightarrow> ('a queue_result list \<times> 'a scheduler) option" where
  "sched_calls [] q = Some ([], q)"
| "sched_calls (c # cs) q = do {
     (r, q) \<leftarrow> sched_call c q;
     (rs, q) \<leftarrow> sched_calls cs q;
     Some (r # rs, q)
   }"

section \<open>Agreement\<close>

definition alloc_agree :: "'a wheel \<Rightarrow> 'a scheduler \<Rightarrow> bool" where
  "alloc_agree w q \<longleftrightarrow> tw_capacity w = sc_capacity q \<and> tw_watermark w = sc_watermark q \<and>
     tw_free_head w = sc_free_head q \<and> tw_next_seq w = sc_next_seq q \<and>
     (\<forall>i < tw_watermark w. ws_generation (tw_slots w ! i) = es_generation (sc_slots q ! i) \<and>
        ws_free_next (tw_slots w ! i) = es_free_next (sc_slots q ! i))"

definition engines_agree :: "'a wheel \<Rightarrow> 'a scheduler \<Rightarrow> bool" where
  "engines_agree w q \<longleftrightarrow> wheel_inv w \<and> sched_inv q \<and> wheel_pending w = pending q \<and> alloc_agree w q"

lemma engines_agreeD:
  assumes "engines_agree w q"
  shows "wheel_inv w" "sched_inv q" "wheel_pending w = pending q" "alloc_agree w q"
    "tw_capacity w = sc_capacity q" "tw_watermark w = sc_watermark q" "tw_free_head w = sc_free_head q"
    "tw_next_seq w = sc_next_seq q" "tw_live w = length (sc_heap q)" "wheel_events w = sched_events q"
proof -
  show a: "wheel_inv w" "sched_inv q" "wheel_pending w = pending q" "alloc_agree w q"
    using assms by (simp_all add: engines_agree_def)
  then show "tw_capacity w = sc_capacity q" "tw_watermark w = sc_watermark q" "tw_free_head w = sc_free_head q"
    "tw_next_seq w = sc_next_seq q" by (simp_all add: alloc_agree_def)
  show e: "wheel_events w = sched_events q" using a(3) by (simp add: wheel_events_def sched_events_def)
  show "tw_live w = length (sc_heap q)"
    using size_wheel_events[OF a(1)] size_sched_events[OF a(2)] e by simp
qed

section \<open>What the scheduler does to its allocator\<close>

definition sched_freed :: "'a scheduler \<Rightarrow> nat \<Rightarrow> 'a scheduler \<Rightarrow> bool" where
  "sched_freed q i q' \<longleftrightarrow> sc_capacity q' = sc_capacity q \<and> sc_watermark q' = sc_watermark q \<and> sc_free_head q' = i \<and>
     sc_next_seq q' = sc_next_seq q \<and>
     (\<forall>j. es_generation (sc_slots q' ! j) = es_generation (sc_slots q ! j) + (if j = i then 1 else 0) \<and>
        es_free_next (sc_slots q' ! j) = (if j = i then sc_free_head q else es_free_next (sc_slots q ! j)))"

lemma freed_agree:
  "alloc_agree w q \<Longrightarrow> wheel_freed w i w' \<Longrightarrow> sched_freed q i q' \<Longrightarrow> alloc_agree w' q'"
  by (simp add: alloc_agree_def wheel_freed_def sched_freed_def)

lemma free_slot_freed:
  assumes "sched_frame q q1" and "s < length (sc_slots q)"
  shows "sched_freed q s (free_slot s q1)"
  using assms by (auto simp: sched_freed_def sched_frame_def free_slot_def Let_def nth_list_update)

lemma remove_at_frame:
  assumes inv: "sched_inv q" and p: "pos < length (sc_heap q)" and r: "remove_at pos q = Some q1"
  shows "sched_frame q q1"
proof -
  note i = sched_invD[OF inv]
  from remove_at_correct[OF i(3,4) p slots_wfD(4)[OF i(1)] heap_small[OF inv]] r show ?thesis by auto
qed

lemma heap_slot_in_range:
  assumes inv: "sched_inv q" and p: "pos < length (sc_heap q)"
  shows "he_slot (sc_heap q ! pos) < length (sc_slots q)"
  using sched_links_pos(1)[OF sched_invD(3)[OF inv] p] slots_wfD(4)[OF sched_invD(1)[OF inv]] by simp

lemma pop_min_freed:
  assumes inv: "sched_inv q" and p: "pop_min q = Some (v, q')" and s: "pending q' = (pending q)(s := None)" "s \<in> dom (pending q)"
  shows "sched_freed q s q'"
proof -
  have ne: "sc_heap q \<noteq> []" using p by (auto simp: pop_min_def bind_mog_pre_eq split: if_splits)
  then have l: "0 < length (sc_heap q)" by simp
  let ?r = "he_slot (sc_heap q ! 0)"
  from remove_event[OF inv l] obtain q1 where q1: "remove_at 0 q = Some q1"
    "pending (free_slot ?r q1) = (pending q)(?r := None)" by blast
  have q': "q' = free_slot ?r q1" using p ne q1(1) by (auto simp: pop_min_def Let_def bind_mog_pre_eq split: if_splits)
  have "((pending q)(s := None)) s = ((pending q)(?r := None)) s" using q1(2) s(1) q' by simp
  then have "?r = s" using s(2) by (auto split: if_splits)
  then show ?thesis
    using free_slot_freed[OF remove_at_frame[OF inv l q1(1)] heap_slot_in_range[OF inv l]] q' by simp
qed

lemma sched_cancel_freed:
  assumes inv: "sched_inv q" and p: "pending q (h_index h) = Some (g, ts, sn, v)" and c: "sched_cancel h q = Some (True, q')"
  shows "sched_freed q (h_index h) q'"
proof -
  note e = pending_has_entry[OF sched_invD(3)[OF inv] p]
  let ?pos = "es_heap_pos (sc_slots q ! h_index h)"
  obtain q1 where q1: "remove_at ?pos q = Some q1" "q' = free_slot (h_index h) q1"
    using c by (auto simp: sched_cancel_def Let_def split: if_splits Option.bind_splits)
  then show ?thesis
    using free_slot_freed[OF remove_at_frame[OF inv e(6) q1(1)]] heap_slot_in_range[OF inv e(6)] e(7) by simp
qed

lemma heap_pos_upd:
  "es_live (sl[k := (sl ! k)\<lparr> es_heap_pos := p \<rparr>] ! i) = es_live (sl ! i)"
  "es_generation (sl[k := (sl ! k)\<lparr> es_heap_pos := p \<rparr>] ! i) = es_generation (sl ! i)"
  "es_value (sl[k := (sl ! k)\<lparr> es_heap_pos := p \<rparr>] ! i) = es_value (sl ! i)"
  "es_seq (sl[k := (sl ! k)\<lparr> es_heap_pos := p \<rparr>] ! i) = es_seq (sl ! i)"
  "es_free_next (sl[k := (sl ! k)\<lparr> es_heap_pos := p \<rparr>] ! i) = es_free_next (sl ! i)"
proof -
  have "sl[k := (sl ! k)\<lparr> es_heap_pos := p \<rparr>] ! i = (if k < length sl \<and> i = k then (sl ! i)\<lparr> es_heap_pos := p \<rparr> else sl ! i)"
    by (cases "k < length sl") (auto simp: nth_list_update list_update_beyond)
  then show "es_live (sl[k := (sl ! k)\<lparr> es_heap_pos := p \<rparr>] ! i) = es_live (sl ! i)"
    "es_generation (sl[k := (sl ! k)\<lparr> es_heap_pos := p \<rparr>] ! i) = es_generation (sl ! i)"
    "es_value (sl[k := (sl ! k)\<lparr> es_heap_pos := p \<rparr>] ! i) = es_value (sl ! i)"
    "es_seq (sl[k := (sl ! k)\<lparr> es_heap_pos := p \<rparr>] ! i) = es_seq (sl ! i)"
    "es_free_next (sl[k := (sl ! k)\<lparr> es_heap_pos := p \<rparr>] ! i) = es_free_next (sl ! i)" by simp_all
qed

lemma heap_pos_frame:
  "sched_frame q (q\<lparr> sc_slots := (sc_slots q)[k := (sc_slots q ! k)\<lparr> es_heap_pos := p \<rparr>] \<rparr>)"
  unfolding sched_frame_def by (simp add: heap_pos_upd del: nth_list_update)

lemma swap_entries_frame: "sched_frame q (swap_entries a b q)"
proof -
  define q1 where "q1 = q\<lparr> sc_heap := ((sc_heap q)[a := sc_heap q ! b])[b := sc_heap q ! a] \<rparr>"
  define q2 where "q2 = q1\<lparr> sc_slots := (sc_slots q1)[he_slot (sc_heap q1 ! a) :=
      (sc_slots q1 ! he_slot (sc_heap q1 ! a))\<lparr> es_heap_pos := a \<rparr>] \<rparr>"
  have "sched_frame q q1" by (simp add: q1_def sched_frame_def)
  moreover have "sched_frame q1 q2" unfolding q2_def by (rule heap_pos_frame)
  moreover have "sched_frame q2 (q2\<lparr> sc_slots := (sc_slots q2)[he_slot (sc_heap q2 ! b) :=
      (sc_slots q2 ! he_slot (sc_heap q2 ! b))\<lparr> es_heap_pos := b \<rparr>] \<rparr>)" by (rule heap_pos_frame)
  moreover have "swap_entries a b q = q2\<lparr> sc_slots := (sc_slots q2)[he_slot (sc_heap q2 ! b) :=
      (sc_slots q2 ! he_slot (sc_heap q2 ! b))\<lparr> es_heap_pos := b \<rparr>] \<rparr>"
    by (simp add: swap_entries_def Let_def q2_def q1_def)
  ultimately show ?thesis using sched_frame_trans by metis
qed

lemma sift_up_frame: "sched_frame q (sift_up i q)"
proof (induction i q rule: sift_up.induct)
  case (1 i q)
  then show ?case
    using sched_frame_trans[OF swap_entries_frame] by (subst sift_up.simps) auto
qed

text \<open>The slot a push claims and the allocator afterwards, on both sides.\<close>

lemma sched_push_alloc:
  assumes p: "sched_push ts v q = Some (h, q')" and wf: "length (sc_slots q) = sc_capacity q"
    and fh: "sc_free_head q \<noteq> kNullIndex \<Longrightarrow> sc_free_head q < length (sc_slots q)"
  defines "n \<equiv> sc_free_head q = kNullIndex"
  shows "h_index h = (if n then sc_watermark q else sc_free_head q)"
    "h_generation h = (if n then 0 else es_generation (sc_slots q ! sc_free_head q))"
    "sc_capacity q' = sc_capacity q" "sc_watermark q' = (if n then sc_watermark q + 1 else sc_watermark q)"
    "sc_free_head q' = (if n then kNullIndex else es_free_next (sc_slots q ! sc_free_head q))"
    "sc_next_seq q' = sc_next_seq q + 1"
    "es_generation (sc_slots q' ! j) = (if j = h_index h then h_generation h else es_generation (sc_slots q ! j))"
    "es_free_next (sc_slots q' ! j) = (if n \<and> j = h_index h then kNullIndex else es_free_next (sc_slots q ! j))"
proof -
  have room: "length (sc_heap q) < sc_capacity q" using p by (auto simp: sched_push_def bind_mog_pre_eq split: if_splits)
  have wm: "sc_watermark q < sc_capacity q" if n
    using p that by (auto simp: sched_push_def claim_slot_def bind_mog_pre_eq n_def Let_def split: if_splits)
  define i where "i = (if n then sc_watermark q else sc_free_head q)"
  define s0 where "s0 = (if n then fresh_slot v else sc_slots q ! i)"
  define q1 where "q1 = (if n then q\<lparr> sc_watermark := i + 1, sc_slots := (sc_slots q)[i := fresh_slot v] \<rparr>
    else q\<lparr> sc_free_head := es_free_next (sc_slots q ! i) \<rparr>)"
  define s where "s = s0\<lparr> es_value := v, es_seq := sc_next_seq q, es_live := True, es_heap_pos := length (sc_heap q) \<rparr>"
  have il: "i < length (sc_slots q)" using wm fh wf by (auto simp: i_def n_def)
  have c: "claim_slot v q = Some (i, q1)" using wm by (auto simp: claim_slot_def Let_def i_def n_def q1_def)
  have q1: "sc_slots q1 ! i = s0" "sc_next_seq q1 = sc_next_seq q" "sc_heap q1 = sc_heap q" "sc_capacity q1 = sc_capacity q"
    "length (sc_slots q1) = length (sc_slots q)" using il by (auto simp: q1_def s0_def)
  define q2 where "q2 = q1\<lparr> sc_slots := (sc_slots q1)[i := s], sc_next_seq := sc_next_seq q + 1,
      sc_heap := sc_heap q @ [\<lparr> he_ts = ts, he_seq = sc_next_seq q, he_slot = i \<rparr>] \<rparr>"
  have "sched_push ts v q = Some (\<lparr> h_index = i, h_generation = es_generation s \<rparr>, sift_up (length (sc_heap q)) q2)"
    using room by (simp add: sched_push_def c Let_def q1 q2_def s_def)
  then have h: "h = \<lparr> h_index = i, h_generation = es_generation s \<rparr>" and q': "q' = sift_up (length (sc_heap q)) q2"
    using p by simp_all
  have f: "sched_frame q2 q'" using q' sift_up_frame by simp
  show "h_index h = (if n then sc_watermark q else sc_free_head q)" by (simp add: h i_def)
  show "h_generation h = (if n then 0 else es_generation (sc_slots q ! sc_free_head q))"
    by (simp add: h s_def s0_def fresh_slot_def i_def)
  show "sc_capacity q' = sc_capacity q" "sc_watermark q' = (if n then sc_watermark q + 1 else sc_watermark q)"
    "sc_free_head q' = (if n then kNullIndex else es_free_next (sc_slots q ! sc_free_head q))"
    "sc_next_seq q' = sc_next_seq q + 1"
    using f by (auto simp: sched_frame_def q2_def q1_def i_def n_def)
  have sl: "sc_slots q2 ! j = (if j = i then s else sc_slots q ! j)"
    using il by (auto simp: q2_def q1_def nth_list_update)
  show "es_generation (sc_slots q' ! j) = (if j = h_index h then h_generation h else es_generation (sc_slots q ! j))"
    "es_free_next (sc_slots q' ! j) = (if n \<and> j = h_index h then kNullIndex else es_free_next (sc_slots q ! j))"
    using f by (auto simp: sched_frame_def sl h s_def s0_def fresh_slot_def)
qed

section \<open>Each call preserves agreement\<close>

lemma agree_push:
  assumes a: "engines_agree w q" and p: "wheel_push ts v w = Some (h, w')" and sq: "tw_next_seq w \<noteq> - 1"
  shows "\<exists>q'. sched_push ts v q = Some (h, q') \<and> engines_agree w' q' \<and> tw_next_seq w' = tw_next_seq w + 1"
proof -
  note d = engines_agreeD[OF a]
  have room: "tw_live w < tw_capacity w" and ts: "tw_now w \<le> ts"
    using p by (auto simp: wheel_push_def bind_mog_pre_eq split: if_splits)
  from d(1) obtain ch where ok: "wheel_ok w ch" by (auto simp: wheel_inv_def)
  note ci = claimed_index_correct[OF ok room]
  note len = wheel_shapeD(1)[OF linksD(1)[OF wheel_okD(1)[OF ok]]]
  from wheel_push_correct[OF d(1) room ts sq, of v] p obtain
    w': "h = \<lparr> h_index = claimed_index w, h_generation = ws_generation (claimed_slot v w) \<rparr>" "wheel_inv w'"
      "wheel_pending w' = (wheel_pending w)(claimed_index w \<mapsto> (ws_generation (claimed_slot v w), ts, tw_next_seq w, v))"
      "tw_next_seq w' = tw_next_seq w + 1" "tw_capacity w' = tw_capacity w"
      "wheel_same (filled ts v w) (w'\<lparr> tw_live := tw_live w, tw_next_seq := tw_next_seq w \<rparr>)" by auto
  have "sc_next_seq q \<noteq> - 1" "length (sc_heap q) < sc_capacity q" using d sq room by simp_all
  from sched_push_correct[OF d(2) this(2,1), of ts v] obtain hq q' where
    q': "sched_push ts v q = Some (hq, q')" "sched_inv q'"
      "pending q' = (pending q)(h_index hq \<mapsto> (h_generation hq, ts, sc_next_seq q, v))" by blast
  note w0 = slots_wfD[OF sched_invD(1)[OF d(2)]]
  note al = sched_push_alloc[OF q'(1) w0(2)]
  have fh: "sc_free_head q < length (sc_slots q)" if "sc_free_head q \<noteq> kNullIndex"
    using ci(4) that d w0 by simp
  note al = sched_push_alloc[OF q'(1) w0(2) fh]
  have ag: "i < sc_watermark q \<Longrightarrow> ws_generation (tw_slots w ! i) = es_generation (sc_slots q ! i) \<and>
      ws_free_next (tw_slots w ! i) = es_free_next (sc_slots q ! i)" for i
    using d(4) by (simp add: alloc_agree_def)
  have hq: "hq = h"
    using al(1,2) d(6,7) ag[of "sc_free_head q"] ci(4)
    by (intro gen_handle.equality) (simp_all add: w'(1) claimed_index_def claimed_slot_def fresh_wheel_slot_def)
  have "alloc_agree w' q'"
  proof -
    note f = filled_fields[OF ci(1)[folded len], of ts v]
    note s = wheel_sameD[OF w'(6)]
    have i: "claimed_index w = h_index h" "h_generation h = ws_generation (claimed_slot v w)" by (simp_all add: w'(1))
    show ?thesis
      unfolding alloc_agree_def
    proof (intro conjI allI impI)
      show "tw_capacity w' = sc_capacity q'" "tw_next_seq w' = sc_next_seq q'" using w' al d by simp_all
      show wm: "tw_watermark w' = sc_watermark q'" "tw_free_head w' = sc_free_head q'"
        using s(8,9) al(4,5) d(6,7) ag[of "sc_free_head q"] ci(4) by (auto simp: f)
      fix j assume j: "j < tw_watermark w'"
      have old: "j < sc_watermark q" if "j \<noteq> h_index h"
        using j wm(1) al(4) that d(6,7) i(1) by (auto simp: claimed_index_def split: if_splits)
      show "ws_generation (tw_slots w' ! j) = es_generation (sc_slots q' ! j)"
        using s(4)[of j] al(7)[of j] ag[of j] old i hq by (auto simp: f(7))
      show "ws_free_next (tw_slots w' ! j) = es_free_next (sc_slots q' ! j)"
        using s(5)[of j] al(8)[of j] ag[of j] old i hq d(7) ci(4) d(6)
        by (auto simp: f(7) claimed_slot_def claimed_index_def fresh_wheel_slot_def split: if_splits)
    qed
  qed
  moreover have "wheel_pending w' = pending q'" using w'(1,3) q'(3) hq d(3,8) by auto
  ultimately show ?thesis using q' w' hq by (auto simp: engines_agree_def)
qed

text \<open>An event that precedes all others of the wheel is the scheduler's next one.\<close>

lemma agree_next:
  assumes a: "engines_agree w q" and p: "wheel_pending w i = Some (g, ts, sn, v)"
    and w': "wheel_pending w' = (wheel_pending w)(i := None)" and least: "\<forall>x \<in># wheel_events w'. event_key ts sn < fst x"
  shows "\<exists>q'. pop_min q = Some (v, q') \<and> sched_inv q' \<and> pending q' = (pending q)(i := None) \<and> peek_min_ts q = Some ts"
proof -
  note d = engines_agreeD[OF a]
  have le: "ts < ts' \<or> ts = ts' \<and> sn \<le> sn'" if j: "pending q j = Some (g', ts', sn', v')" for j g' ts' sn' v'
  proof (cases "j = i")
    case False
    then have e: "wheel_pending w' j = Some (g', ts', sn', v')" using j w' d(3) by simp
    then have "j \<in> live_slots w'" by (simp add: wheel_pending_Some)
    then have "keyed_event (the (wheel_pending w' j)) \<in># wheel_events w'" by (simp add: wheel_events_def)
    then have "event_key ts sn < event_key ts' sn'" using least e by (auto simp: keyed_event_def)
    then show ?thesis by (auto simp: event_key_less)
  qed (use j p d(3) in auto)
  have "\<exists>q'. pop_min q = Some (v, q') \<and> sched_inv q' \<and> pending q' = (pending q)(i := None) \<and>
      peek_min_ts q = Some ts \<and> peek_min q = Some v \<and> sc_next_seq q' = sc_next_seq q"
    by (rule pop_min_correct[OF d(2) p[unfolded d(3)]]) (rule le)
  then show ?thesis by blast
qed

lemma agree_pop:
  assumes a: "engines_agree w q" and p: "wheel_pop w = Some (v, w')"
  shows "\<exists>q'. pop_min q = Some (v, q') \<and> engines_agree w' q' \<and> tw_next_seq w' = tw_next_seq w"
proof -
  note d = engines_agreeD[OF a]
  have ne: "tw_live w \<noteq> 0" using p by (auto simp: wheel_pop_def bind_mog_pre_eq split: if_splits)
  from wheel_pop_correct[OF d(1) ne] p obtain i g ts sn where
    w': "wheel_pending w i = Some (g, ts, sn, v)" "wheel_inv w'" "wheel_pending w' = (wheel_pending w)(i := None)"
      "tw_next_seq w' = tw_next_seq w" "wheel_freed w i w'" and
    least: "\<forall>x \<in># wheel_events w'. event_key ts sn < fst x" by auto
  from agree_next[OF a w'(1,3) least] obtain q' where
    q': "pop_min q = Some (v, q')" "sched_inv q'" "pending q' = (pending q)(i := None)" by blast
  have "sched_freed q i q'" by (rule pop_min_freed[OF d(2) q'(1,3)]) (use w'(1) d(3) in auto)
  then have "alloc_agree w' q'" using freed_agree[OF d(4) w'(5)] by simp
  then show ?thesis using q' w' d(3) by (auto simp: engines_agree_def)
qed

lemma agree_same: "engines_agree w q \<Longrightarrow> wheel_inv u \<Longrightarrow> wheel_same w u \<Longrightarrow> engines_agree u q"
  by (simp add: engines_agree_def alloc_agree_def same_pending wheel_sameD)

lemma agree_peek:
  assumes a: "engines_agree w q" and p: "wheel_peek_ts w = Some (ts, u)"
  shows "peek_min_ts q = Some ts" "engines_agree u q" "tw_next_seq u = tw_next_seq w"
proof -
  note d = engines_agreeD[OF a]
  have ne: "tw_live w \<noteq> 0" using p by (auto simp: wheel_peek_ts_def bind_mog_pre_eq split: if_splits)
  from wheel_pop_correct[OF d(1) ne] p obtain i g sn v w' where
    w': "wheel_pending w i = Some (g, ts, sn, v)" "wheel_pending w' = (wheel_pending w)(i := None)"
      "wheel_inv u" "wheel_same w u" and least: "\<forall>x \<in># wheel_events w'. event_key ts sn < fst x" by auto
  from agree_next[OF a w'(1,2) least] show "peek_min_ts q = Some ts" by blast
  show "engines_agree u q" "tw_next_seq u = tw_next_seq w"
    using agree_same[OF a w'(3,4)] wheel_sameD(11)[OF w'(4)] .
qed

lemma agree_cancel:
  assumes a: "engines_agree w q" and h: "h_index h < tw_watermark w \<or> tw_capacity w \<le> h_index h"
    and c: "wheel_cancel h w = (r, w')"
  shows "\<exists>q'. sched_cancel h q = Some (r, q') \<and> engines_agree w' q' \<and> tw_next_seq w' = tw_next_seq w"
proof -
  note d = engines_agreeD[OF a]
  note wc = wheel_cancel_correct[OF d(1), of h]
  show ?thesis
  proof (cases "\<exists>x. wheel_pending w (h_index h) = Some (h_generation h, x)")
    case True
    then obtain ts sn v where p: "wheel_pending w (h_index h) = Some (h_generation h, ts, sn, v)" by (metis prod_cases3)
    from wc(1)[OF p] c have w': "r = True" "wheel_inv w'" "wheel_pending w' = (wheel_pending w)(h_index h := None)"
      "wheel_freed w (h_index h) w'" by auto
    note pq = p[unfolded d(3)]
    from sched_cancel_live[OF d(2) pq] obtain q' where
      q': "sched_cancel h q = Some (True, q')" "sched_inv q'" "pending q' = (pending q)(h_index h := None)" by blast
    have "alloc_agree w' q'" by (rule freed_agree[OF d(4) w'(4) sched_cancel_freed[OF d(2) pq q'(1)]])
    then show ?thesis using q' w' d(3) by (auto simp: engines_agree_def wheel_freed_def)
  next
    case False
    then have w': "r = False" "w' = w" using wc(2,3) h c by auto
    have "sched_cancel h q = Some (False, q)"
    proof (cases "sc_capacity q \<le> h_index h")
      case False
      then have "h_index h < sc_watermark q" using h d by simp
      then show ?thesis
        using \<open>\<nexists>x. _\<close> unfolding d(3) by (auto simp: sched_cancel_def pending_def pending_but_def Let_def)
    qed (simp add: sched_cancel_def)
    then show ?thesis using w' a by simp
  qed
qed

lemma agree_call:
  assumes a: "engines_agree w q" and s: "sound_call c w" and c: "wheel_call c w = Some (r, w')" and sq: "tw_next_seq w \<noteq> - 1"
  shows "\<exists>q'. sched_call c q = Some (r, q') \<and> engines_agree w' q' \<and> unat (tw_next_seq w') \<le> unat (tw_next_seq w) + 1"
proof (cases c)
  case (Push ts v)
  then obtain h where h: "wheel_push ts v w = Some (h, w')" "r = Handle h" using c by auto
  from agree_push[OF a h(1) sq] obtain q' where "sched_push ts v q = Some (h, q')" "engines_agree w' q'"
    "tw_next_seq w' = tw_next_seq w + 1" by blast
  moreover have "unat (x + 1) \<le> unat x + 1" for x :: u64
  proof -
    have "unat (x + 1) = (unat x + 1) mod 2 ^ 64" by (simp add: unat_word_ariths)
    then show ?thesis by (metis mod_less_eq_dividend)
  qed
  ultimately show ?thesis using Push h by auto
next
  case (Cancel h)
  then obtain b where b: "wheel_cancel h w = (b, w')" "r = Cancelled b" using c by (cases "wheel_cancel h w") auto
  with agree_cancel[OF a _ b(1)] s Cancel show ?thesis by auto
next
  case Peek_ts
  then obtain ts where ts: "wheel_peek_ts w = Some (ts, w')" "r = At ts" using c by auto
  with agree_peek[OF a ts(1)] Peek_ts show ?thesis by auto
next
  case Pop
  then obtain v where v: "wheel_pop w = Some (v, w')" "r = Event v" using c by auto
  with agree_pop[OF a v(1)] Pop show ?thesis by auto
qed

lemma agree_calls:
  assumes "engines_agree w q" and "wheel_calls cs w = Some (rs, w')" and "unat (tw_next_seq w) + length cs < 2 ^ 64"
  shows "\<exists>q'. sched_calls cs q = Some (rs, q') \<and> engines_agree w' q'"
  using assms
proof (induction cs arbitrary: w q rs)
  case (Cons c cs)
  from Cons.prems(2) obtain r w1 rs' where c: "sound_call c w" "wheel_call c w = Some (r, w1)"
    "wheel_calls cs w1 = Some (rs', w')" "rs = r # rs'" by (auto split: if_splits Option.bind_splits)
  have "unat (- 1 :: u64) = 2 ^ 64 - 1" by (simp add: unsigned_minus_1_eq_mask mask_eq_exp_minus_1)
  then have "tw_next_seq w \<noteq> - 1" using Cons.prems(3) by auto
  from agree_call[OF Cons.prems(1) c(1,2) this] obtain q1 where q1: "sched_call c q = Some (r, q1)"
    "engines_agree w1 q1" "unat (tw_next_seq w1) \<le> unat (tw_next_seq w) + 1" by blast
  with Cons.IH[OF q1(2) c(3)] Cons.prems(3) obtain q' where "sched_calls cs q1 = Some (rs', q')" "engines_agree w' q'" by auto
  then show ?case using q1(1) c(4) by auto
qed simp

lemma agree_new:
  assumes "wheel_new cap rw = Some w" and "sched_new cap rq = Some q"
    and "cap < 2 ^ 31" and "cap \<le> length rw" and "cap \<le> length rq"
  shows "engines_agree w q"
proof -
  have c: "0 < cap" "cap < kNullIndex" using assms(1,3) by (auto simp: wheel_new_def bind_mog_pre_eq kNullIndex_def split: if_splits)
  from wheel_new_correct[OF c assms(4)] sched_new_correct[OF c(1) assms(3,5)] assms(1,2)
  have "wheel_inv w" "sched_inv q" "wheel_pending w = pending q" by auto
  moreover have "alloc_agree w q"
    using assms(1,2) c by (auto simp: wheel_new_def sched_new_def alloc_agree_def bind_mog_pre_eq split: if_splits)
  ultimately show ?thesis by (simp add: engines_agree_def)
qed

section \<open>Inside the contract every call returns\<close>

text \<open>
  The contract of the wheel, stated on the scheduler that plays the reference: the clock is the time of
  the last event peeked at or popped. A push needs room and must not go back behind the clock, a peek or a
  pop needs an event, and a cancellation needs a handle whose slot was handed out (or the null handle).
\<close>

fun call_allowed :: "'a queue_call \<Rightarrow> u64 \<Rightarrow> 'a scheduler \<Rightarrow> bool" where
  "call_allowed (Push ts v) clock q \<longleftrightarrow> length (sc_heap q) < sc_capacity q \<and> clock \<le> ts"
| "call_allowed (Cancel h) clock q \<longleftrightarrow> h_index h < sc_watermark q \<or> sc_capacity q \<le> h_index h"
| "call_allowed Peek_ts clock q \<longleftrightarrow> sc_heap q \<noteq> []"
| "call_allowed Pop clock q \<longleftrightarrow> sc_heap q \<noteq> []"

fun clock_after :: "'a queue_call \<Rightarrow> u64 \<Rightarrow> 'a scheduler \<Rightarrow> u64" where
  "clock_after Peek_ts clock q = he_ts (hd (sc_heap q))"
| "clock_after Pop clock q = he_ts (hd (sc_heap q))"
| "clock_after _ clock q = clock"

fun in_contract :: "'a queue_call list \<Rightarrow> u64 \<Rightarrow> 'a scheduler \<Rightarrow> bool" where
  "in_contract [] clock q \<longleftrightarrow> True"
| "in_contract (c # cs) clock q \<longleftrightarrow> call_allowed c clock q \<and>
     (case sched_call c q of None \<Rightarrow> True | Some (r, q') \<Rightarrow> in_contract cs (clock_after c clock q) q')"

lemma peek_root: "peek_min_ts q = Some ts \<Longrightarrow> ts = he_ts (hd (sc_heap q))"
  by (auto simp: peek_min_ts_def bind_mog_pre_eq hd_conv_nth split: if_splits)

lemma wheel_cancel_now: "wheel_cancel h w = (r, w') \<Longrightarrow> tw_now w' = tw_now w"
  by (auto simp: wheel_cancel_def detach_def free_wheel_slot_def Let_def split: if_splits)

text \<open>An allowed call returns on the wheel, which then stands at the clock.\<close>

lemma allowed_returns:
  assumes a: "engines_agree w q" and ok: "call_allowed c (tw_now w) q" and sq: "tw_next_seq w \<noteq> - 1"
  shows "sound_call c w \<and> (\<exists>r w'. wheel_call c w = Some (r, w') \<and> tw_now w' = clock_after c (tw_now w) q)"
proof -
  note d = engines_agreeD[OF a]
  have clock: "tw_now w' = he_ts (hd (sc_heap q)) \<and> wheel_peek_ts w = Some (tw_now u, u) \<and> tw_now u = he_ts (hd (sc_heap q))"
    if p: "wheel_pop w = Some (v, w')" "tw_now w' = ts" "wheel_peek_ts w = Some (ts, u)" for v w' ts u
  proof -
    have "tw_now u = ts" using p(3) by (auto simp: wheel_peek_ts_def bind_mog_pre_eq split: if_splits Option.bind_splits)
    moreover have "ts = he_ts (hd (sc_heap q))" by (rule peek_root[OF agree_peek(1)[OF a p(3)]])
    ultimately show ?thesis using p by simp
  qed
  show ?thesis
  proof (cases c)
    case (Push ts v)
    then have "tw_live w < tw_capacity w" "tw_now w \<le> ts" using ok d by simp_all
    from wheel_push_correct[OF d(1) this sq, of v] show ?thesis using Push by auto
  next
    case (Cancel h)
    then show ?thesis
      using ok d wheel_cancel_now[of h w] by (cases "wheel_cancel h w") auto
  next
    case Peek_ts
    then have "tw_live w \<noteq> 0" using ok d by simp
    from wheel_pop_correct[OF d(1) this] clock show ?thesis using Peek_ts by fastforce
  next
    case Pop
    then have "tw_live w \<noteq> 0" using ok d by simp
    from wheel_pop_correct[OF d(1) this] clock show ?thesis using Pop by fastforce
  qed
qed

lemma contract_returns:
  assumes "engines_agree w q" and "in_contract cs (tw_now w) q" and "unat (tw_next_seq w) + length cs < 2 ^ 64"
  shows "wheel_calls cs w \<noteq> None"
  using assms
proof (induction cs arbitrary: w q)
  case (Cons c cs)
  have "unat (- 1 :: u64) = 2 ^ 64 - 1" by (simp add: unsigned_minus_1_eq_mask mask_eq_exp_minus_1)
  then have seq: "tw_next_seq w \<noteq> - 1" using Cons.prems(3) by auto
  have "call_allowed c (tw_now w) q" using Cons.prems(2) by simp
  from allowed_returns[OF Cons.prems(1) this seq] obtain r w1 where
    w1: "sound_call c w" "wheel_call c w = Some (r, w1)" "tw_now w1 = clock_after c (tw_now w) q" by blast
  from agree_call[OF Cons.prems(1) w1(1,2) seq] obtain q1 where
    q1: "sched_call c q = Some (r, q1)" "engines_agree w1 q1" "unat (tw_next_seq w1) \<le> unat (tw_next_seq w) + 1" by blast
  have "in_contract cs (tw_now w1) q1" using Cons.prems(2) q1(1) w1(3) by simp
  from Cons.IH[OF q1(2) this] q1(3) Cons.prems(3) show ?case using w1 by auto
qed simp

lemma wheel_new_now: "wheel_new cap rw = Some w \<Longrightarrow> tw_now w = 0 \<and> tw_next_seq w = 0"
  by (auto simp: wheel_new_def bind_mog_pre_eq split: if_splits)

section \<open>Interchangeable engines\<close>

text \<open>
  The property of the timing wheel that its header promises: it can replace the heap scheduler.
\<close>

text \<open>C3: The timing wheel and the heap scheduler are interchangeable engines. Start both empty with
  the same capacity and make the same calls (pushes, cancellations, peeks, pops) inside the wheel's
  contract: no push without room or behind the time of the last event peeked at or popped, no peek or pop of an
  empty queue, no handle of a slot that was never handed out. Then the wheel returns from every call,
  neither diverging nor aborting, the scheduler returns too, with the same handles, verdicts, times and
  events in the same order; the same events stay pending, and the wheel's self-check accepts its final state.\<close>

theorem engines_interchangeable:
  assumes "wheel_new cap rw = Some w" and "sched_new cap rq = Some q"
    and "cap < 2 ^ 31" and "cap \<le> length rw" and "cap \<le> length rq"
    and "length calls < 2 ^ 64" and "in_contract calls 0 q"
  shows "\<exists>results w' q'. wheel_calls calls w = Some (results, w') \<and> sched_calls calls q = Some (results, q') \<and>
     wheel_events w' = sched_events q' \<and> wheel_audit w' = Some True"
proof -
  note z = wheel_new_now[OF assms(1)] and a = agree_new[OF assms(1-5)]
  have len: "unat (tw_next_seq w) + length calls < 2 ^ 64" using z assms(6) by simp
  from contract_returns[OF a _ len] assms(7) z obtain results w' where r: "wheel_calls calls w = Some (results, w')" by auto
  from agree_calls[OF a r len] obtain q' where q': "sched_calls calls q = Some (results, q')" "engines_agree w' q'" by blast
  then show ?thesis using r engines_agreeD(10) engines_agreeD(1) wheel_audit_correct by blast
qed

text \<open>A demonstration: the event of time 3, pushed second, is popped first.\<close>

definition demo_calls :: "nat queue_call list" where
  "demo_calls = [Push 70 7, Push 3 9, Pop]"

lemma demo_wheel_runs:
  assumes "wheel_new 2 raw = Some w" and "2 \<le> length raw"
  shows "\<exists>h k w'. wheel_calls demo_calls w = Some ([Handle h, Handle k, Event 9], w')"
proof -
  from wheel_new_correct[of 2 raw] assms have w: "wheel_inv w" "wheel_pending w = Map.empty" "tw_now w = 0"
    "tw_capacity w = 2" "tw_next_seq w = 0" "tw_live w = 0" by (auto simp: kNullIndex_def)
  from wheel_push_correct[OF w(1), of 70 7] w obtain w1 where w1:
    "wheel_push 70 7 w = Some (\<lparr> h_index = claimed_index w, h_generation = ws_generation (claimed_slot 7 w) \<rparr>, w1)"
    "wheel_inv w1" "wheel_pending w1 = [claimed_index w \<mapsto> (ws_generation (claimed_slot 7 w), 70, 0, 7)]"
    "tw_next_seq w1 = 1" "tw_capacity w1 = 2" "tw_live w1 = 1" "tw_now w1 = 0" by auto
  from wheel_push_correct[OF w1(2), of 3 9] w1 obtain w2 where w2:
    "wheel_push 3 9 w1 = Some (\<lparr> h_index = claimed_index w1, h_generation = ws_generation (claimed_slot 9 w1) \<rparr>, w2)"
    "wheel_inv w2" "wheel_pending w2 = (wheel_pending w1)(claimed_index w1 \<mapsto> (ws_generation (claimed_slot 9 w1), 3, 1, 9))"
    "wheel_pending w1 (claimed_index w1) = None" "tw_live w2 = 2" by auto
  from wheel_pop_correct[OF w2(2)] w2(5) obtain i g ts sn v w3 where w3:
    "wheel_pending w2 i = Some (g, ts, sn, v)" "wheel_pop w2 = Some (v, w3)"
    "wheel_pending w3 = (wheel_pending w2)(i := None)" "\<forall>x \<in># wheel_events w3. event_key ts sn < fst x" by auto
  have "v = 9"
  proof (rule ccontr)
    assume "v \<noteq> 9"
    then have i: "i = claimed_index w" "ts = 70" "i \<noteq> claimed_index w1"
      using w3(1) w2(3) w1(3) by (auto split: if_splits)
    then have p: "wheel_pending w3 (claimed_index w1) = Some (ws_generation (claimed_slot 9 w1), 3, 1, 9)"
      using w3(3) w2(3) by simp
    then have "claimed_index w1 \<in> live_slots w3" by (simp add: wheel_pending_Some)
    then have "(event_key 3 1, 9) \<in># wheel_events w3" using p by (force simp: wheel_events_def keyed_event_def)
    then have "event_key 70 sn < event_key 3 1" using w3(4) i(2) by fastforce
    then show False by (simp add: event_key_less)
  qed
  then show ?thesis using w1(1) w2(1) w3(2) by (simp add: demo_calls_def)
qed

lemma demo_in_contract:
  assumes "sched_new 2 (replicate 2 (fresh_slot (0 :: nat))) = Some q"
  shows "in_contract demo_calls 0 q"
proof -
  from sched_new_correct[of 2 "replicate 2 (fresh_slot (0 :: nat))"] assms have q: "sched_inv q" by auto
  have e: "sc_heap q = []" "sc_capacity q = 2" "sc_next_seq q = 0" using assms by (auto simp: sched_new_def kNullIndex_def)
  from sched_push_correct[OF q, of 70 7] e obtain h q1 where q1: "sched_push 70 7 q = Some (h, q1)" "sched_inv q1"
    "sc_next_seq q1 = 1" "sc_capacity q1 = 2" "length (sc_heap q1) = 1" by auto
  from sched_push_correct[OF q1(2), of 3 9] q1 obtain k q2 where q2: "sched_push 3 9 q1 = Some (k, q2)" "length (sc_heap q2) = 2"
    by auto
  show ?thesis using e q1 q2 by (auto simp: demo_calls_def split: option.splits)
qed

theorem engines_interchangeable_witness:
  "\<exists>w q h k w' q'. wheel_new 2 (replicate 2 (fresh_wheel_slot (0 :: nat))) = Some w \<and>
     sched_new 2 (replicate 2 (fresh_slot 0)) = Some q \<and>
     wheel_calls demo_calls w = Some ([Handle h, Handle k, Event 9], w') \<and>
     sched_calls demo_calls q = Some ([Handle h, Handle k, Event 9], q')"
proof -
  obtain w where w: "wheel_new 2 (replicate 2 (fresh_wheel_slot (0 :: nat))) = Some w"
    by (simp add: wheel_new_def kNullIndex_def)
  obtain q where q: "sched_new 2 (replicate 2 (fresh_slot (0 :: nat))) = Some q"
    by (simp add: sched_new_def kNullIndex_def)
  obtain h k w' where r: "wheel_calls demo_calls w = Some ([Handle h, Handle k, Event 9], w')"
    using demo_wheel_runs[OF w] by auto
  have "length demo_calls < 2 ^ 64" by (simp add: demo_calls_def)
  from engines_interchangeable[OF w q _ _ _ this demo_in_contract[OF q]] w q r show ?thesis by fastforce
qed

end
