(* ===== verification/Replay.thy ===== *)
theory Replay
  imports OrderBook ItchParser MoldUdp Session
begin

text \<open>
  Replay of a recorded session, \<open>include/mog/Replay.hpp\<close>: the bytes of a file, in one of three
  framings, are parsed into a fresh order book and a session model, and summarised. How the bytes
  came into memory (a mapping or a read) is outside the model. The state of the sink is an
  \<open>option\<close>: \<open>None\<close> is a process that a contract of the book aborted.
\<close>

section \<open>Data\<close>

datatype replay_format = ItchRaw | Moldudp64 | LengthPrefixed

datatype replay_error = IoError | ParseFault | MoldFault | EmptyStream

fun replay_error_text :: "replay_error \<Rightarrow> string" where
  "replay_error_text IoError = ''io_error''"
| "replay_error_text ParseFault = ''parse_error''"
| "replay_error_text MoldFault = ''mold_gap''"
| "replay_error_text EmptyStream = ''empty_stream''"

record replay_options =
  ro_format :: replay_format
  ro_arena_capacity :: nat
  ro_lo :: int
  ro_hi :: int
  ro_page_pool :: nat
  ro_use_mmap :: bool

definition default_options :: replay_options where
  "default_options = \<lparr> ro_format = ItchRaw, ro_arena_capacity = 2 ^ 22, ro_lo = 0, ro_hi = int32_max,
     ro_page_pool = 24576, ro_use_mmap = True \<rparr>"

definition kMinFrame :: nat where "kMinFrame = 12"
definition kMaxArena :: nat where "kMaxArena = 2 ^ 24"

partial_function (option) grow_arena :: "nat \<Rightarrow> nat \<Rightarrow> nat option" where
  [code]: "grow_arena est_msgs cap =
     (if cap < est_msgs * 2 \<and> cap < kMaxArena then grow_arena est_msgs (cap * 2) else Some cap)"

definition sized_for :: "nat \<Rightarrow> replay_options option" where
  "sized_for bytes =
     (let o' = default_options;
          est_msgs = bytes div kMinFrame + 1
      in do {
        cap \<leftarrow> grow_arena est_msgs (2 ^ 12);
        let pool = est_msgs div 64;
        Some (o'\<lparr> ro_arena_capacity := cap,
                  ro_page_pool := (if pool < 2 ^ 8 then 2 ^ 8
                                   else if pool > ro_page_pool o' then ro_page_pool o' else pool) \<rparr>)
      })"

record replay_summary =
  rs_bytes_consumed :: nat
  rs_decoded :: nat
  rs_skipped :: nat
  rs_skipped_by_type :: "byte \<Rightarrow> nat"
  rs_book_events_failed :: nat
  rs_best_bid_ticks :: int
  rs_best_ask_ticks :: int
  rs_live_orders :: nat
  rs_trace_digest :: u64
  rs_first_ts_ns :: u64
  rs_last_ts_ns :: u64
  rs_phase :: phase
  rs_halt_windows :: nat
  rs_noii_updates :: nat
  rs_close_crosses :: "cross_record list"

definition empty_summary :: replay_summary where
  "empty_summary = \<lparr> rs_bytes_consumed = 0, rs_decoded = 0, rs_skipped = 0, rs_skipped_by_type = (\<lambda>_. 0),
     rs_book_events_failed = 0, rs_best_bid_ticks = 0, rs_best_ask_ticks = 0, rs_live_orders = 0,
     rs_trace_digest = fnv_offset, rs_first_ts_ns = 0, rs_last_ts_ns = 0, rs_phase = Idle,
     rs_halt_windows = 0, rs_noii_updates = 0, rs_close_crosses = [] \<rparr>"

text \<open>The two details of a failure are meaningful, and here present, only under their code.\<close>

record replay_failure =
  rf_code :: replay_error
  rf_parse :: "parse_error option"
  rf_mold :: "mold_error_info option"

definition parse_failure :: "parse_error \<Rightarrow> replay_failure" where
  "parse_failure e = \<lparr> rf_code = ParseFault, rf_parse = Some e, rf_mold = None \<rparr>"

definition mold_failure :: "mold_error_info \<Rightarrow> replay_failure" where
  "mold_failure e = \<lparr> rf_code = MoldFault, rf_parse = None, rf_mold = Some e \<rparr>"

definition empty_failure :: replay_failure where
  "empty_failure = \<lparr> rf_code = EmptyStream, rf_parse = None, rf_mold = None \<rparr>"

section \<open>The sink and the listener\<close>

record replay_state =
  rp_book :: book
  rp_out :: replay_summary
  rp_session :: session_model

definition note_ts :: "u64 \<Rightarrow> replay_summary \<Rightarrow> replay_summary" where
  "note_ts ts out =
     (let out = (if rs_first_ts_ns out = 0 \<or> ts < rs_first_ts_ns out then out\<lparr> rs_first_ts_ns := ts \<rparr> else out)
      in if ts > rs_last_ts_ns out then out\<lparr> rs_last_ts_ns := ts \<rparr> else out)"

definition replay_message :: "replay_state \<Rightarrow> message \<Rightarrow> replay_state option" where
  "replay_message r m = do {
     (tick, _, bk) \<leftarrow> book_apply m None (rp_book r);
     let out = rp_out r;
     let out = (if \<not> tick_ok tick then out\<lparr> rs_book_events_failed := rs_book_events_failed out + 1 \<rparr> else out);
     let out = out\<lparr> rs_trace_digest := trace_hash m (rs_trace_digest out) \<rparr>;
     Some (r\<lparr> rp_book := bk, rp_out := note_ts (h_ts_ns (msg_header m)) out \<rparr>)
   }"

definition replay_sink :: "replay_state option \<Rightarrow> message \<Rightarrow> replay_state option" where
  "replay_sink st m = Option.bind st (\<lambda>r. replay_message r m)"

definition replay_listen :: "bool \<Rightarrow> replay_state option \<Rightarrow> byte \<Rightarrow> byte list \<Rightarrow> nat \<Rightarrow> replay_state option" where
  "replay_listen le st t p n =
     map_option (\<lambda>r. r\<lparr> rp_session := snd (feed_frame le t p n (rp_session r)) \<rparr>) st"

section \<open>The three framings\<close>

definition add_stats :: "session_stats \<Rightarrow> session_stats \<Rightarrow> session_stats" where
  "add_stats a b = \<lparr> ss_decoded = ss_decoded a + ss_decoded b, ss_skipped = ss_skipped a + ss_skipped b,
     ss_skipped_by_type = (\<lambda>t. ss_skipped_by_type a t + ss_skipped_by_type b t) \<rparr>"

text \<open>Length-prefixed blocks: two bytes of length, then a block that the session parser must accept.\<close>

function prefixed_loop ::
  "bool \<Rightarrow> 's sink \<Rightarrow> 's listener \<Rightarrow> byte list \<Rightarrow> nat \<Rightarrow> session_stats \<Rightarrow> 's
     \<Rightarrow> (parse_error + nat \<times> session_stats) \<times> 's" where
  "prefixed_loop le sink listen bytes off stats s =
     (if off + 2 \<le> length bytes then
        (let mlen = unat (load_be16 le (drop off bytes)); off = off + 2
         in if mlen = 0 \<or> length bytes - off < mlen
            then (Inl \<lparr> pe_code = Truncated, pe_offset = off - 2 \<rparr>, s)
            else (case parse_itch_session_listen_as (parse_one le) sink listen (take mlen (drop off bytes)) s of
                    (Inl e, s) \<Rightarrow> (Inl e, s)
                  | (Inr res, s) \<Rightarrow> prefixed_loop le sink listen bytes (off + mlen) (add_stats stats res) s))
      else if off \<noteq> length bytes then (Inl \<lparr> pe_code = Truncated, pe_offset = off \<rparr>, s)
      else (Inr (off, stats), s))"
  by pat_completeness auto
termination
  by (relation "measure (\<lambda>(_, _, _, bytes, off, _, _). length bytes - off)") auto

declare prefixed_loop.simps [simp del]

text \<open>The MoldUDP64 sink parses each payload; after a payload that fails it ignores the rest.\<close>

record 's chain =
  cn_state :: 's
  cn_stats :: session_stats
  cn_failed :: "parse_error option"

definition chain_start :: "'s \<Rightarrow> 's chain" where
  "chain_start s = \<lparr> cn_state = s, cn_stats = empty_stats, cn_failed = None \<rparr>"

definition chain_payload :: "bool \<Rightarrow> 's sink \<Rightarrow> 's listener \<Rightarrow> 's chain \<Rightarrow> byte list \<Rightarrow> u64 \<Rightarrow> 's chain" where
  "chain_payload le sink listen c p sq =
     (if cn_failed c \<noteq> None then c
      else case parse_itch_session_listen_as (parse_one le) sink listen p (cn_state c) of
        (Inl e, s) \<Rightarrow> c\<lparr> cn_state := s, cn_failed := Some e \<rparr>
      | (Inr res, s) \<Rightarrow> c\<lparr> cn_state := s, cn_stats := add_stats (cn_stats c) res \<rparr>)"

text \<open>What a run over the bytes yields: the failure, or the bytes consumed and the counters.\<close>

definition ingest :: "bool \<Rightarrow> replay_format \<Rightarrow> 's sink \<Rightarrow> 's listener \<Rightarrow> byte list \<Rightarrow> 's
     \<Rightarrow> (replay_failure + nat \<times> session_stats) \<times> 's" where
  "ingest le fmt sink listen bytes s =
     (case fmt of
        ItchRaw \<Rightarrow>
          (case parse_itch_session_listen_as (parse_one le) sink listen bytes s of
             (Inl e, s) \<Rightarrow> (Inl (parse_failure e), s)
           | (Inr res, s) \<Rightarrow> (Inr (length bytes, res), s))
      | LengthPrefixed \<Rightarrow>
          (case prefixed_loop le sink listen bytes 0 empty_stats s of
             (Inl e, s) \<Rightarrow> (Inl (parse_failure e), s)
           | (Inr (off, res), s) \<Rightarrow> (Inr (off, res), s))
      | Moldudp64 \<Rightarrow>
          (case parse_moldudp64 le (chain_payload le sink listen) bytes (chain_start s) of
             (Inl e, c) \<Rightarrow> (Inl (mold_failure e), cn_state c)
           | (Inr n, c) \<Rightarrow> (case cn_failed c of
                              Some e \<Rightarrow> (Inl (parse_failure e), cn_state c)
                            | None \<Rightarrow> (Inr (n, cn_stats c), cn_state c))))"

section \<open>The run\<close>

text \<open>The book has the default page shift 10; \<open>raw\<close> is the memory of its arena.\<close>

definition replay_start :: "replay_options \<Rightarrow> order slot list \<Rightarrow> replay_state option" where
  "replay_start opts raw = do {
     bk \<leftarrow> book_new (ro_arena_capacity opts) raw 10 (ro_lo opts) (ro_hi opts) (ro_page_pool opts);
     Some \<lparr> rp_book = bk, rp_out = empty_summary, rp_session = session_init \<rparr>
   }"

definition finish_summary :: "nat \<Rightarrow> session_stats \<Rightarrow> replay_state \<Rightarrow> replay_summary" where
  "finish_summary consumed st r =
     (let bk = rp_book r; m = rp_session r
      in (rp_out r)\<lparr> rs_bytes_consumed := consumed, rs_decoded := ss_decoded st, rs_skipped := ss_skipped st,
            rs_skipped_by_type := ss_skipped_by_type st, rs_live_orders := live_orders bk,
            rs_best_bid_ticks := bk_best_bid bk, rs_best_ask_ticks := bk_best_ask bk,
            rs_phase := sm_phase m, rs_halt_windows := length (sm_windows m),
            rs_noii_updates := sm_noii_updates m, rs_close_crosses := sm_close_crosses m \<rparr>)"

definition run_replay :: "bool \<Rightarrow> replay_options \<Rightarrow> order slot list \<Rightarrow> byte list \<Rightarrow> (replay_failure + replay_summary) option" where
  "run_replay le opts raw bytes =
     (if bytes = [] then Some (Inl empty_failure)
      else do {
        r0 \<leftarrow> replay_start opts raw;
        case ingest le (ro_format opts) replay_sink (replay_listen le) bytes (Some r0) of
          (Inl e, st) \<Rightarrow> do { _ \<leftarrow> st; Some (Inl e) }
        | (Inr (n, stats), st) \<Rightarrow> do { r \<leftarrow> st; Some (Inr (finish_summary n stats r)) }
      })"

end
