(* ===== verification/Trades.thy ===== *)
theory Trades
  imports Replay
begin

text \<open>
  Trade reconstruction, \<open>include/mog/Trades.hpp\<close>: every execution message is applied to the book and
  recorded as a print, priced from the book or by the message itself; executions the book rejects are
  counted. The canonical CSV rendering of a print is \<open>print_csv\<close>.
\<close>

section \<open>Data\<close>

record print =
  pr_match_number :: u64
  pr_locate :: u32
  pr_ts_ns :: u64
  pr_price_ticks :: int
  pr_shares :: u32
  pr_printable :: bool
  pr_from_execute_with_price :: bool

record trade_summary =
  ts_bytes_consumed :: nat
  ts_decoded :: nat
  ts_skipped :: nat
  ts_prints :: nat
  ts_unpriced_executions :: nat
  ts_book_events_failed :: nat
  ts_prints_during_halts :: nat
  ts_records :: "print list"

definition empty_trades :: trade_summary where
  "empty_trades = \<lparr> ts_bytes_consumed = 0, ts_decoded = 0, ts_skipped = 0, ts_prints = 0,
     ts_unpriced_executions = 0, ts_book_events_failed = 0, ts_prints_during_halts = 0, ts_records = [] \<rparr>"

record recorder =
  rc_book :: book
  rc_model :: session_model
  rc_summary :: trade_summary

section \<open>Recording\<close>

definition record_print ::
  "itch_header \<Rightarrow> u64 \<Rightarrow> u64 \<Rightarrow> book_tick \<Rightarrow> int \<Rightarrow> bool \<Rightarrow> bool \<Rightarrow> recorder \<Rightarrow> recorder" where
  "record_print hdr match shares tick wire_price printable with_price rc =
     (let s = rc_summary rc
      in if \<not> tick_ok tick
         then rc\<lparr> rc_summary := s\<lparr> ts_unpriced_executions := ts_unpriced_executions s + 1 \<rparr> \<rparr>
         else
           let s = (if was_halted_at (rc_model rc) (ucast (h_locate hdr)) (h_ts_ns hdr)
                    then s\<lparr> ts_prints_during_halts := ts_prints_during_halts s + 1 \<rparr> else s);
               p = \<lparr> pr_match_number = match, pr_locate = ucast (h_locate hdr), pr_ts_ns = h_ts_ns hdr,
                     pr_price_ticks = (if with_price then wire_price else bt_price_ticks tick),
                     pr_shares = ucast shares, pr_printable = printable,
                     pr_from_execute_with_price = with_price \<rparr>
           in rc\<lparr> rc_summary := s\<lparr> ts_prints := ts_prints s + 1, ts_records := ts_records s @ [p] \<rparr> \<rparr>)"

definition recorder_message :: "recorder \<Rightarrow> message \<Rightarrow> recorder option" where
  "recorder_message rc m = do {
     (tick, _, bk) \<leftarrow> book_apply m None (rc_book rc);
     let s = rc_summary rc;
     let rc = rc\<lparr> rc_book := bk,
       rc_summary := (if \<not> tick_ok tick then s\<lparr> ts_book_events_failed := ts_book_events_failed s + 1 \<rparr> else s) \<rparr>;
     Some (case m of
         OrderExecuted e \<Rightarrow>
           record_print (oe_header e) (oe_match_number e) (word_of_int (oe_executed_shares e)) tick 0 True False rc
       | OrderExecutedWithPrice e \<Rightarrow>
           record_print (oc_header e) (oc_match_number e) (word_of_int (oc_executed_shares e)) tick
             (oc_execution_price e) (oc_printable e) True rc
       | _ \<Rightarrow> rc)
   }"

definition recorder_sink :: "recorder option \<Rightarrow> message \<Rightarrow> recorder option" where
  "recorder_sink st m = Option.bind st (\<lambda>rc. recorder_message rc m)"

definition recorder_frame :: "bool \<Rightarrow> recorder option \<Rightarrow> byte \<Rightarrow> byte list \<Rightarrow> nat \<Rightarrow> recorder option" where
  "recorder_frame le st t p n =
     map_option (\<lambda>rc. rc\<lparr> rc_model := snd (feed_frame le t p n (rc_model rc)) \<rparr>) st"

section \<open>The run\<close>

definition recorder_start :: "replay_options \<Rightarrow> order slot list \<Rightarrow> recorder option" where
  "recorder_start opts raw = do {
     bk \<leftarrow> book_new (ro_arena_capacity opts) raw 10 (ro_lo opts) (ro_hi opts) (ro_page_pool opts);
     Some \<lparr> rc_book = bk, rc_model = session_init, rc_summary = empty_trades \<rparr>
   }"

definition run_trades :: "bool \<Rightarrow> replay_options \<Rightarrow> order slot list \<Rightarrow> byte list \<Rightarrow> (replay_failure + trade_summary) option" where
  "run_trades le opts raw bytes =
     (if bytes = [] then Some (Inl empty_failure)
      else do {
        rc0 \<leftarrow> recorder_start opts raw;
        case ingest le (ro_format opts) recorder_sink (recorder_frame le) bytes (Some rc0) of
          (Inl e, st) \<Rightarrow> do { _ \<leftarrow> st; Some (Inl e) }
        | (Inr (n, stats), st) \<Rightarrow> do {
            rc \<leftarrow> st;
            Some (Inr ((rc_summary rc)\<lparr> ts_decoded := ss_decoded stats, ts_skipped := ss_skipped stats,
                         ts_bytes_consumed := n \<rparr>))
          }
      })"

section \<open>The canonical rows\<close>

definition csv_header :: string where
  "csv_header = ''match_number,locate,ts_ns,price_ticks,shares,printable,with_price''"

text \<open>The decimal digits that \<open>printf\<close> writes for an unsigned and a signed number.\<close>

fun digits :: "nat \<Rightarrow> string" where
  "digits n = (if n < 10 then [char_of (48 + n)] else digits (n div 10) @ [char_of (48 + n mod 10)])"

declare digits.simps [simp del]

definition signed_digits :: "int \<Rightarrow> string" where
  "signed_digits i = (if i < 0 then CHR ''-'' # digits (nat (- i)) else digits (nat i))"

definition flag_char :: "bool \<Rightarrow> string" where
  "flag_char b = (if b then ''Y'' else ''N'')"

definition print_csv :: "print \<Rightarrow> string" where
  "print_csv p = digits (unat (pr_match_number p)) @ '','' @ digits (unat (pr_locate p)) @ '','' @
     digits (unat (pr_ts_ns p)) @ '','' @ signed_digits (pr_price_ticks p) @ '','' @
     digits (unat (pr_shares p)) @ '','' @ flag_char (pr_printable p) @ '','' @
     flag_char (pr_from_execute_with_price p)"

end
