(* ===== verification/ReplayProofs.thy ===== *)
theory ReplayProofs
  imports Trades ItchStream MoldProofs
begin

text \<open>
  The three framings deliver the same frames. A frame is a message of standard length; however the
  frames of a session are grouped into blocks or packets, the sink and the listener see the same
  sequence, provided the listener looks no further than the frame, which is the contract of the
  locale \<open>frame_listener\<close>; the session model's listener satisfies it.
\<close>

section \<open>Frames\<close>

definition frame_ok :: "byte list \<Rightarrow> bool" where
  "frame_ok f \<longleftrightarrow> f \<noteq> [] \<and> kSessionFrame (f ! 0) = length f \<and>
     (kFrame (f ! 0) \<noteq> 0 \<longrightarrow> (\<exists>m. decode_message True f = Inr m))"

definition frame_as :: "byte list \<Rightarrow> session_event" where
  "frame_as f = (case decode_message True f of Inr m \<Rightarrow> Decoded m | Inl _ \<Rightarrow> Skipped (f ! 0) f (length f))"

lemma be_word_local:
  "8 \<le> length f \<Longrightarrow> load_be64 le (f @ r) = load_be64 le f"
  "6 \<le> length f \<Longrightarrow> load_be48 le (f @ r) = load_be48 le f"
  "4 \<le> length f \<Longrightarrow> load_be32 le (f @ r) = load_be32 le f"
  "2 \<le> length f \<Longrightarrow> load_be16 le (f @ r) = load_be16 le f"
  by (simp_all add: load_be64_value load_be48_value load_be32_value load_be16_value)

lemma header_at_local: "11 \<le> length f \<Longrightarrow> header_at le (f @ r) = header_at le f"
  by (simp add: header_at_def be_word_local)

lemma message_at_local:
  assumes "frame_need (f ! 0) = Some n" and "n \<le> length f"
  shows "message_at le (f @ r) = message_at le f" "bad_side_at (f @ r) = bad_side_at f"
proof -
  have f0: "(f @ r) ! 0 = f ! 0" using frame_need_ge[OF assms(1)] assms(2) by (cases f) auto
  have nl: "k < length f \<Longrightarrow> (f @ r) ! k = f ! k" for k by (simp add: nth_append)
  note l = message_at_def f0 Let_def at_defs header_at_local be_word_local nl
  have "message_at le (f @ r) = message_at le f \<and> bad_side_at (f @ r) = bad_side_at f"
  proof (cases "f ! 0" rule: type_byte_cases)
    case 8
    then show ?thesis using assms by (simp add: frame_need_def)
  qed (use assms in \<open>simp_all add: frame_need_def l bad_side_at_def\<close>)
  then show "message_at le (f @ r) = message_at le f" "bad_side_at (f @ r) = bad_side_at f" by simp_all
qed

lemma decode_message_local:
  assumes "decode_message True f = Inr m"
  shows "decode_message True (f @ r) = Inr m"
proof -
  from assms have "decode_spec True f = Inr m" by (simp add: decode_message_spec[of f True])
  then obtain n where n: "frame_need (f ! 0) = Some n" "n \<le> length f" "11 \<le> length f" "\<not> bad_side_at f"
    "m = message_at True f" by (auto elim: decode_spec_InrD)
  have f0: "(f @ r) ! 0 = f ! 0" using n(3) by (cases f) auto
  then show ?thesis
    using n message_at_local[OF n(1,2)] by (simp add: decode_message_spec[of _ True] decode_spec_def)
qed

lemma decoded_frame:
  assumes "frame_ok f" and "decode_message True f = Inr m"
  shows "message_size m = length f" "frame_as f = Decoded m"
  using assms decode_size(1)[OF assms(2)] by (simp_all add: frame_ok_def frame_as_def)

lemma skipped_frame:
  assumes "frame_ok f" and "\<And>m. decode_message True f \<noteq> Inr m"
  shows "kFrame (f ! 0) = 0" "frame_as f = Skipped (f ! 0) f (length f)"
  using assms by (auto simp: frame_ok_def frame_as_def split: sum.splits)

section \<open>A listener that stays within its frame\<close>

locale frame_listener =
  fixes listen :: "'s \<Rightarrow> byte \<Rightarrow> byte list \<Rightarrow> nat \<Rightarrow> 's"
  assumes listen_local: "f \<noteq> [] \<Longrightarrow> kSessionFrame (f ! 0) = length f \<Longrightarrow>
    listen s (f ! 0) (f @ r) (length f) = listen s (f ! 0) f (length f)"
begin

lemma session_loop_frames:
  assumes "drop off buf = concat fs" and "\<forall>f \<in> set fs. frame_ok f" and "off \<le> length buf"
  shows "session_loop (parse_one le) sink listen buf off st s =
    (Inr (stats_after st (map frame_as fs)), foldl (deliver sink listen) s (map frame_as fs))"
  using assms
proof (induction fs arbitrary: off st s)
  case Nil
  then show ?case by (simp add: session_loop_end)
next
  case (Cons f fs)
  have ok: "frame_ok f" using Cons.prems(2) by simp
  have d: "drop off buf = f @ concat fs" using Cons.prems(1) by simp
  have ne: "f \<noteq> []" using ok by (simp add: frame_ok_def)
  have off: "off < length buf" using arg_cong[OF d, of length] ne by (cases f) auto
  have b0: "buf ! off = f ! 0" using hd_drop_conv_nth[OF off] d ne by (cases f) auto
  have len: "off + length f \<le> length buf" using arg_cong[OF d, of length] off by simp
  have d2: "drop (off + length f) buf = concat fs" using drop_drop_comm[of off "length f" buf] d by simp
  have IH: "session_loop (parse_one le) sink listen buf (off + length f) st' s' =
      (Inr (stats_after st' (map frame_as fs)), foldl (deliver sink listen) s' (map frame_as fs))" for st' s'
    using Cons.IH[OF d2 _ len] Cons.prems(2) by simp
  show ?case
  proof (cases "\<exists>m. decode_message True f = Inr m")
    case True
    then obtain m where m: "decode_message True f = Inr m" by blast
    note df = decoded_frame[OF ok m]
    have dm: "decode_message True (drop off buf) = Inr m" unfolding d by (rule decode_message_local[OF m])
    have "session_loop (parse_one le) sink listen buf off st s =
        session_loop (parse_one le) sink listen buf (off + length f) (st\<lparr>ss_decoded := ss_decoded st + 1\<rparr>) (sink s m)"
      using session_loop_decoded[OF off dm, of le sink listen st s] by (simp add: df(1))
    moreover have "st\<lparr>ss_decoded := ss_decoded st + 1\<rparr> = stats_after st [frame_as f]"
      using df(2) by (simp add: stats_after_def)
    moreover have "deliver sink listen s (frame_as f) = sink s m" using df(2) by simp
    ultimately show ?thesis
      unfolding IH by (simp add: stats_after_Cons[of st "frame_as f" "map frame_as fs"])
  next
    case False
    note sf = skipped_frame[OF ok]
    have k: "kFrame (buf ! off) = 0" "kSessionFrame (buf ! off) = length f" "0 < length f"
      using False sf(1) ok ne b0 by (auto simp: frame_ok_def)
    have l: "listen s (f ! 0) (f @ concat fs) (length f) = listen s (f ! 0) f (length f)"
      using ok by (intro listen_local) (auto simp: frame_ok_def)
    have "stats_after st [Skipped (f ! 0) p (length f)] = stats_after st [frame_as f]" for p
      using sf(2) False by (auto simp: stats_after_def fun_eq_iff)
    moreover have "session_loop (parse_one le) sink listen buf off st s =
        session_loop (parse_one le) sink listen buf (off + length f)
          (stats_after st [Skipped (f ! 0) (f @ concat fs) (length f)]) (listen s (f ! 0) (f @ concat fs) (length f))"
      using session_loop_skipped[OF off k(1,2,3) len, of le sink listen st s] unfolding b0 d .
    moreover have "deliver sink listen s (frame_as f) = listen s (f ! 0) f (length f)" using sf(2) False by simp
    ultimately show ?thesis
      unfolding IH l by (simp add: stats_after_Cons[of st "frame_as f" "map frame_as fs"])
  qed
qed

lemma session_parse_frames:
  assumes "\<forall>f \<in> set fs. frame_ok f"
  shows "parse_itch_session_listen_as (parse_one le) sink listen (concat fs) s =
    (Inr (stats_after empty_stats (map frame_as fs)), foldl (deliver sink listen) s (map frame_as fs))"
  unfolding parse_itch_session_listen_as_def using assms by (intro session_loop_frames) simp_all

end

lemma add_stats_after: "add_stats (stats_after st a) (stats_after empty_stats b) = stats_after st (a @ b)"
  by (simp add: add_stats_def stats_after_def empty_stats_def fun_eq_iff)

context frame_listener
begin

lemma prefixed_frames:
  assumes "drop off bytes = concat (map (\<lambda>fs. message_block (concat fs)) fss)"
    and "\<forall>fs \<in> set fss. message_ok (concat fs) \<and> (\<forall>f \<in> set fs. frame_ok f)" and "off \<le> length bytes"
  shows "prefixed_loop le sink listen bytes off (stats_after st evs) s =
    (Inr (length bytes, stats_after st (evs @ map frame_as (concat fss))),
     foldl (deliver sink listen) s (map frame_as (concat fss)))"
  using assms
proof (induction fss arbitrary: off evs s)
  case Nil
  then show ?case by (subst prefixed_loop.simps) auto
next
  case (Cons fs fss)
  let ?m = "concat fs" and ?rest = "concat (map (\<lambda>fs. message_block (concat fs)) fss)"
  have ok: "message_ok ?m" "\<forall>f \<in> set fs. frame_ok f" using Cons.prems(2) by auto
  have m: "0 < length ?m" "length ?m < 2 ^ 16" using ok(1) by (simp_all add: message_ok_def)
  have d: "drop off bytes = store_be16 True (of_nat (length ?m)) @ ?m @ ?rest"
    using Cons.prems(1) by (simp add: message_block_def[of ?m])
  have len: "length bytes - off = 2 + length ?m + length ?rest" using arg_cong[OF d, of length] by simp
  have ml: "unat (load_be16 le (drop off bytes)) = length ?m" using m by (simp add: d load_store_be16 unat_of_nat_small)
  have d2: "drop (off + 2) bytes = ?m @ ?rest" using drop_drop_comm[of off 2 bytes] d by simp
  have d3: "drop (off + 2 + length ?m) bytes = ?rest" unfolding drop_drop_comm[of "off + 2"] d2 by simp
  have le: "off + 2 \<le> length bytes" "\<not> length bytes - (off + 2) < length ?m" "off + 2 + length ?m \<le> length bytes"
    using len Cons.prems(3) by linarith+
  have t: "take (length ?m) (drop (off + 2) bytes) = ?m" unfolding d2 by simp
  have "prefixed_loop le sink listen bytes off (stats_after st evs) s =
      prefixed_loop le sink listen bytes (off + 2 + length ?m) (stats_after st (evs @ map frame_as fs))
        (foldl (deliver sink listen) s (map frame_as fs))"
    using m le t by (subst prefixed_loop.simps) (auto simp: Let_def ml session_parse_frames[OF ok(2)] add_stats_after)
  then show ?case using Cons.IH[OF d3 _ le(3)] Cons.prems(2) by simp
qed

lemma chain_payload_frames:
  assumes "\<forall>f \<in> set fs. frame_ok f" and "cn_failed c = None" and "cn_stats c = stats_after empty_stats evs"
  shows "chain_payload le sink listen c (concat fs) sq =
    \<lparr> cn_state = foldl (deliver sink listen) (cn_state c) (map frame_as fs),
      cn_stats = stats_after empty_stats (evs @ map frame_as fs), cn_failed = None \<rparr>"
  using assms by (cases c) (simp add: chain_payload_def session_parse_frames add_stats_after)

lemma chain_payloads_frames:
  assumes "map fst msgs = map concat fss" and "\<forall>fs \<in> set fss. \<forall>f \<in> set fs. frame_ok f"
    and "cn_failed c = None" and "cn_stats c = stats_after empty_stats evs"
  shows "deliver_mold (chain_payload le sink listen) msgs c =
    \<lparr> cn_state = foldl (deliver sink listen) (cn_state c) (map frame_as (concat fss)),
      cn_stats = stats_after empty_stats (evs @ map frame_as (concat fss)), cn_failed = None \<rparr>"
  using assms
proof (induction msgs arbitrary: fss c evs)
  case Nil
  then show ?case by (cases c) simp
next
  case (Cons x msgs)
  obtain p sq where x: "x = (p, sq)" by (cases x)
  from Cons.prems(1) x obtain fs fss' where f: "fss = fs # fss'" "p = concat fs" "map fst msgs = map concat fss'"
    by (cases fss) auto
  have "\<forall>f \<in> set fs. frame_ok f" using Cons.prems(2) f by simp
  from chain_payload_frames[OF this Cons.prems(3,4)] Cons.IH[OF f(3)] Cons.prems(2) f show ?case
    by (simp add: x)
qed

theorem ingest_frames:
  assumes "\<forall>f \<in> set (concat fss). frame_ok f"
  shows "ingest le ItchRaw sink listen (concat (concat fss)) s =
      (Inr (length (concat (concat fss)), stats_after empty_stats (map frame_as (concat fss))),
       foldl (deliver sink listen) s (map frame_as (concat fss)))"
    and "\<forall>fs \<in> set fss. message_ok (concat fs) \<Longrightarrow>
      ingest le LengthPrefixed sink listen (concat (map (\<lambda>fs. message_block (concat fs)) fss)) s =
      (Inr (length (concat (map (\<lambda>fs. message_block (concat fs)) fss)), stats_after empty_stats (map frame_as (concat fss))),
       foldl (deliver sink listen) s (map frame_as (concat fss)))"
    and "list_all packet_ok ps \<Longrightarrow> continuous None ps \<Longrightarrow> map fst (all_messages ps) = map concat fss \<Longrightarrow>
      ingest le Moldudp64 sink listen (concat (map packet_bytes ps)) s =
      (Inr (length (concat (map packet_bytes ps)), stats_after empty_stats (map frame_as (concat fss))),
       foldl (deliver sink listen) s (map frame_as (concat fss)))"
proof -
  have ok: "\<forall>fs \<in> set fss. \<forall>f \<in> set fs. frame_ok f" using assms by auto
  show "ingest le ItchRaw sink listen (concat (concat fss)) s =
      (Inr (length (concat (concat fss)), stats_after empty_stats (map frame_as (concat fss))),
       foldl (deliver sink listen) s (map frame_as (concat fss)))"
    by (simp add: ingest_def session_parse_frames[OF assms])
  show "ingest le LengthPrefixed sink listen (concat (map (\<lambda>fs. message_block (concat fs)) fss)) s =
      (Inr (length (concat (map (\<lambda>fs. message_block (concat fs)) fss)), stats_after empty_stats (map frame_as (concat fss))),
       foldl (deliver sink listen) s (map frame_as (concat fss)))"
    if "\<forall>fs \<in> set fss. message_ok (concat fs)"
  proof -
    have "prefixed_loop le sink listen (concat (map (\<lambda>fs. message_block (concat fs)) fss)) 0 (stats_after empty_stats []) s =
        (Inr (length (concat (map (\<lambda>fs. message_block (concat fs)) fss)), stats_after empty_stats ([] @ map frame_as (concat fss))),
         foldl (deliver sink listen) s (map frame_as (concat fss)))"
      using that ok by (intro prefixed_frames) auto
    then show ?thesis by (simp add: ingest_def)
  qed
  show "ingest le Moldudp64 sink listen (concat (map packet_bytes ps)) s =
      (Inr (length (concat (map packet_bytes ps)), stats_after empty_stats (map frame_as (concat fss))),
       foldl (deliver sink listen) s (map frame_as (concat fss)))"
    if "list_all packet_ok ps" "continuous None ps" "map fst (all_messages ps) = map concat fss"
  proof -
    let ?sink = "chain_payload le sink listen" and ?buf = "concat (map packet_bytes ps)"
    have r: "running mold_init = None" by (simp add: running_def mold_init_def)
    have "parse_moldudp64 le ?sink ?buf (chain_start s) =
        (Inr (length ?buf), deliver_mold ?sink (all_messages ps) (chain_start s))"
      using that(1,2) mold_loop_forward[of 0 ?buf ps mold_init le ?sink "chain_start s"]
      by (simp add: parse_moldudp64_def r list_all_iff)
    moreover have "deliver_mold ?sink (all_messages ps) (chain_start s) =
        \<lparr> cn_state = foldl (deliver sink listen) s (map frame_as (concat fss)),
          cn_stats = stats_after empty_stats (map frame_as (concat fss)), cn_failed = None \<rparr>"
      using chain_payloads_frames[OF that(3) ok, of "chain_start s" "[]"] by (simp add: chain_start_def)
    ultimately show ?thesis by (simp add: ingest_def)
  qed
qed

end

section \<open>The session model's listener\<close>

lemma feed_frame_local:
  assumes "f \<noteq> []" and "kSessionFrame (f ! 0) = length f"
  shows "feed_frame le (f ! 0) (f @ r) (length f) m = feed_frame le (f ! 0) f (length f) m"
proof -
  consider "f ! 0 = 0x53" | "f ! 0 = 0x48" | "f ! 0 = 0x49" | "f ! 0 = 0x59"
    | "f ! 0 \<noteq> 0x53" "f ! 0 \<noteq> 0x48" "f ! 0 \<noteq> 0x49" "f ! 0 \<noteq> 0x59" by blast
  then show ?thesis
  proof cases
    case 1
    with assms(2) have "length f = 12" by (simp add: kSessionFrame_def kFrame_def)
    then show ?thesis using 1 by (simp add: feed_frame_def frame_ts_def be_word_local nth_append)
  next
    case 2
    with assms(2) have "length f = 25" by (simp add: kSessionFrame_def kFrame_def)
    then show ?thesis
      using 2 by (simp add: feed_frame_def frame_ts_def be_word_local nth_append on_trading_action_def Let_def)
  next
    case 3
    with assms(2) have "length f = 50" by (simp add: kSessionFrame_def kFrame_def)
    then show ?thesis using 3 by (simp add: feed_frame_def frame_ts_def be_word_local nth_append Let_def)
  next
    case 4
    with assms(2) have "length f = 20" by (simp add: kSessionFrame_def kFrame_def)
    then show ?thesis using 4 by (simp add: feed_frame_def be_word_local nth_append Let_def)
  qed (simp add: feed_frame_def)
qed

interpretation rl: frame_listener "replay_listen le" for le
  by unfold_locales (simp add: replay_listen_def feed_frame_local)

interpretation tl: frame_listener "recorder_frame le" for le
  by unfold_locales (simp add: recorder_frame_def feed_frame_local)

end
