(* ===== verification/ReplayBook.thy ===== *)
theory ReplayBook
  imports ReplayProofs FeedProps BookReplace BookAudit
begin

text \<open>
  What a replay computes: the messages of the stream drive the abstract price-time priority book, the
  other frames the session model, and the summary reports exactly the state they reach.
\<close>

section \<open>Messages as book operations\<close>

fun msg_op :: "message \<Rightarrow> book_op" where
  "msg_op (AddOrder m) = OpAdd (ao_order_ref m) (ao_side m) (ao_shares m) (ao_price m)"
| "msg_op (AddOrderAttribution m) = OpAdd (af_order_ref m) (af_side m) (af_shares m) (af_price m)"
| "msg_op (OrderExecuted m) = OpExecute (oe_order_ref m) (oe_executed_shares m)"
| "msg_op (OrderExecutedWithPrice m) = OpExecute (oc_order_ref m) (oc_executed_shares m)"
| "msg_op (OrderCancel m) = OpExecute (ox_order_ref m) (ox_cancelled_shares m)"
| "msg_op (OrderDelete m) = OpRemove (od_order_ref m)"
| "msg_op (OrderReplace m) = OpReplace (ou_original_order_ref m) (ou_new_order_ref m) (ou_shares m) (ou_price m)"

lemma run_op_apply: "run_op (msg_op m) bk = map_option (\<lambda>(t, _, b). (t, b)) (book_apply m None bk)"
  by (cases m) (simp_all add: book_cancel_def)

fun decoded_messages :: "session_event list \<Rightarrow> message list" where
  "decoded_messages [] = []"
| "decoded_messages (Decoded m # evs) = m # decoded_messages evs"
| "decoded_messages (Skipped t p n # evs) = decoded_messages evs"

text \<open>The abstract run with the ticks it reports.\<close>

inductive abook_trace :: "abook \<Rightarrow> book_op list \<Rightarrow> book_tick list \<Rightarrow> abook \<Rightarrow> bool" where
  trace_finished: "abook_trace A [] [] A"
| trace_step: "abook_step A x tick A1 \<Longrightarrow> abook_trace A1 xs ticks A2 \<Longrightarrow> abook_trace A (x # xs) (tick # ticks) A2"

lemma live_orders_refs:
  assumes rel: "book_rel bk A"
  shows "live_orders bk = card (refs_of A)"
proof -
  from rel obtain Q where inv: "book_inv bk Q" and A: "A = abs_book (bk_store bk) Q" by (rule book_relE)
  note d = book_inv_dests[OF inv]
  let ?f = "\<lambda>i. o_ref (snd (the (bk_store bk i)))"
  have inj: "inj_on ?f (dom (bk_store bk))"
    using ids_ok_inj[OF d(6)] by (fastforce simp: inj_on_def)
  have "refs_of A = ?f ` dom (bk_store bk)"
  proof (intro equalityI subsetI)
    fix r assume "r \<in> refs_of A"
    then obtain s t q where "(r, q) \<in> set (A s t)" by (auto simp: refs_of_def resting_def)
    then obtain i where i: "i \<in> set (Q s t)" "entry_of (bk_store bk) i = (r, q)" by (auto simp: A abs_book_def)
    from queued_order[OF d(7) i(1)] obtain g ord where "bk_store bk i = Some (g, ord)" by blast
    with i(2) show "r \<in> ?f ` dom (bk_store bk)" by (force simp: entry_of_def)
  next
    fix r assume "r \<in> ?f ` dom (bk_store bk)"
    then obtain i g ord where i: "bk_store bk i = Some (g, ord)" "r = o_ref ord" by auto
    from queued_at[OF d(7) i(1)] obtain s where "i \<in> set (Q s (o_price ord))" by blast
    then show "r \<in> refs_of A" using i by (force simp: refs_of_def resting_def A abs_book_def entry_of_def)
  qed
  then have "card (refs_of A) = card (dom (bk_store bk))" by (simp add: card_image[OF inj])
  then show ?thesis using d(1) by (simp add: live_orders_def arena_inv_def bk_store_def)
qed

section \<open>A client that drives a book with a stream\<close>

text \<open>
  The sink applies each message to its book and notes the tick in the rest of its state; the
  listener only changes the rest. What the rest becomes is \<open>absorb\<close>.
\<close>

fun absorb :: "(message \<Rightarrow> book_tick \<Rightarrow> 'r \<Rightarrow> 'r) \<Rightarrow> (byte \<Rightarrow> byte list \<Rightarrow> nat \<Rightarrow> 'r \<Rightarrow> 'r) \<Rightarrow>
    session_event list \<Rightarrow> book_tick list \<Rightarrow> 'r \<Rightarrow> 'r" where
  "absorb noted framed (Decoded m # evs) (tick # ticks) r = absorb noted framed evs ticks (noted m tick r)"
| "absorb noted framed (Skipped t p n # evs) ticks r = absorb noted framed evs ticks (framed t p n r)"
| "absorb noted framed evs ticks r = r"

locale book_client =
  fixes sink :: "'s option \<Rightarrow> message \<Rightarrow> 's option"
    and listen :: "'s option \<Rightarrow> byte \<Rightarrow> byte list \<Rightarrow> nat \<Rightarrow> 's option"
    and book_of :: "'s \<Rightarrow> book"
    and rest_of :: "'s \<Rightarrow> 'r"
    and noted :: "message \<Rightarrow> book_tick \<Rightarrow> 'r \<Rightarrow> 'r"
    and framed :: "byte \<Rightarrow> byte list \<Rightarrow> nat \<Rightarrow> 'r \<Rightarrow> 'r"
  assumes sink_applies: "book_apply m None (book_of s) = Some (tick, ds, bk) \<Longrightarrow>
      \<exists>s'. sink (Some s) m = Some s' \<and> book_of s' = bk \<and> rest_of s' = noted m tick (rest_of s)"
    and listen_keeps: "\<exists>s'. listen (Some s) t p n = Some s' \<and> book_of s' = book_of s \<and> rest_of s' = framed t p n (rest_of s)"
begin

lemma events_drive_book:
  assumes "book_rel (book_of s) A" and "safe_run A (map msg_op (decoded_messages evs))"
  shows "\<exists>s' A' ticks. foldl (deliver sink listen) (Some s) evs = Some s' \<and>
     abook_trace A (map msg_op (decoded_messages evs)) ticks A' \<and> book_rel (book_of s') A' \<and>
     rest_of s' = absorb noted framed evs ticks (rest_of s)"
  using assms
proof (induction evs arbitrary: s A)
  case Nil
  with trace_finished[of A] show ?case
    by (intro exI[of _ s] exI[of _ A] exI[of _ "[]"]) simp
next
  case (Cons e evs)
  show ?case
  proof (cases e)
    case (Decoded m)
    have safe: "op_safe A (msg_op m)" using Cons.prems(2) Decoded by simp
    from run_op_simulates[OF Cons.prems(1) safe] obtain tick bk A1 where
      r: "run_op (msg_op m) (book_of s) = Some (tick, bk)" "abook_step A (msg_op m) tick A1" "book_rel bk A1" by blast
    then obtain ds where "book_apply m None (book_of s) = Some (tick, ds, bk)" by (auto simp: run_op_apply)
    from sink_applies[OF this] obtain s1 where
      s1: "sink (Some s) m = Some s1" "book_of s1 = bk" "rest_of s1 = noted m tick (rest_of s)" by blast
    have "safe_run A1 (map msg_op (decoded_messages evs))" using Cons.prems(2) Decoded r(2) by simp
    with r(3) s1(2) Cons.IH obtain s' A' ticks where
      ih: "foldl (deliver sink listen) (Some s1) evs = Some s'"
        "abook_trace A1 (map msg_op (decoded_messages evs)) ticks A'" "book_rel (book_of s') A'"
        "rest_of s' = absorb noted framed evs ticks (rest_of s1)" by blast
    then show ?thesis
      using trace_step[OF r(2) ih(2)] s1 Decoded
      by (intro exI[of _ s'] exI[of _ A'] exI[of _ "tick # ticks"]) simp
  next
    case (Skipped t p n)
    from listen_keeps[of s t p n] obtain s1 where
      s1: "listen (Some s) t p n = Some s1" "book_of s1 = book_of s" "rest_of s1 = framed t p n (rest_of s)" by blast
    with Cons.IH[of s1 A] Cons.prems Skipped show ?thesis by auto
  qed
qed

end

lemma abook_trace_length: "abook_trace A xs ticks A' \<Longrightarrow> length ticks = length xs"
  by (induction rule: abook_trace.induct) simp_all

section \<open>The replay's summary\<close>

definition note_summary :: "message \<Rightarrow> book_tick \<Rightarrow> replay_summary \<Rightarrow> replay_summary" where
  "note_summary m tick out =
     (let out = (if \<not> tick_ok tick then out\<lparr> rs_book_events_failed := rs_book_events_failed out + 1 \<rparr> else out)
      in note_ts (h_ts_ns (msg_header m)) (out\<lparr> rs_trace_digest := trace_hash m (rs_trace_digest out) \<rparr>))"

interpretation rb: book_client replay_sink "replay_listen le" rp_book "\<lambda>r. (rp_out r, rp_session r)"
  "\<lambda>m tick (out, md). (note_summary m tick out, md)" "\<lambda>t p n (out, md). (out, snd (feed_frame le t p n md))" for le
  by unfold_locales
    (auto simp: replay_sink_def replay_message_def note_summary_def replay_listen_def Let_def)

definition times_noted :: "u64 list \<Rightarrow> u64 \<times> u64 \<Rightarrow> u64 \<times> u64" where
  "times_noted ts fl = fold (\<lambda>t (f, l). (if f = 0 \<or> t < f then t else f, if t > l then t else l)) ts fl"

lemma note_summary_fields:
  "rs_first_ts_ns (note_summary m tick out) =
     (if rs_first_ts_ns out = 0 \<or> h_ts_ns (msg_header m) < rs_first_ts_ns out then h_ts_ns (msg_header m) else rs_first_ts_ns out)"
  "rs_last_ts_ns (note_summary m tick out) =
     (if h_ts_ns (msg_header m) > rs_last_ts_ns out then h_ts_ns (msg_header m) else rs_last_ts_ns out)"
  "rs_trace_digest (note_summary m tick out) = trace_hash m (rs_trace_digest out)"
  "rs_book_events_failed (note_summary m tick out) = rs_book_events_failed out + (if tick_ok tick then 0 else 1)"
  by (simp_all add: note_summary_def note_ts_def Let_def)

lemma absorbed_summary:
  assumes "session_prefix buf evs n" and "length ticks = length (decoded_messages evs)"
    and "(out', md') = absorb (\<lambda>m tick (out, md). (note_summary m tick out, md))
           (\<lambda>t p n (out, md). (out, snd (feed_frame le t p n md))) evs ticks (out, md)"
  shows "md' = fold session_step (market_events le evs) md \<and>
     rs_book_events_failed out' = rs_book_events_failed out + length (filter (\<lambda>t. \<not> tick_ok t) ticks) \<and>
     rs_trace_digest out' = foldl (\<lambda>h m. trace_hash m h) (rs_trace_digest out) (decoded_messages evs) \<and>
     (rs_first_ts_ns out', rs_last_ts_ns out') =
       times_noted (map (\<lambda>m. h_ts_ns (msg_header m)) (decoded_messages evs)) (rs_first_ts_ns out, rs_last_ts_ns out)"
  using assms
proof (induction evs arbitrary: buf n ticks out md)
  case Nil
  then show ?case by (simp add: times_noted_def)
next
  case (Cons e evs)
  show ?case
  proof (cases e)
    case (Decoded m)
    from Cons.prems(2) Decoded obtain tick ticks' where t: "ticks = tick # ticks'" by (cases ticks) auto
    have pre: "session_prefix (drop (message_size m) buf) evs (n - message_size m)" using Cons.prems(1) Decoded by simp
    have "length ticks' = length (decoded_messages evs)" using Cons.prems(2) Decoded t by simp
    from Cons.IH[OF pre this, of "note_summary m tick out" md] Cons.prems(3) Decoded t show ?thesis
      by (auto simp: note_summary_fields times_noted_def)
  next
    case (Skipped t p k)
    have pre: "session_prefix (drop k buf) evs (n - k)" "k = kSessionFrame t"
      using Cons.prems(1) unfolding Skipped by (fastforce simp: Let_def)+
    have "length ticks = length (decoded_messages evs)" using Cons.prems(2) Skipped by simp
    from Cons.IH[OF pre(1) this, of out "snd (feed_frame le t p k md)"] Cons.prems(3) Skipped show ?thesis
      by (auto simp: feed_frame_event[OF pre(2)] split: option.splits)
  qed
qed

end
