(* ===== verification/ReplayProps.thy ===== *)
theory ReplayProps
  imports ReplayBook BookProps CodecProps
begin

text \<open>
  The properties of a replay: the size of its book, the state its summary reports, the independence
  of the framing. Each is followed by a witness on a small stream.
\<close>

section \<open>Sizing the book\<close>

lemma grow_arena_correct:
  assumes "cap = 2 ^ k" and "k \<le> 24"
  shows "\<exists>j. k \<le> j \<and> j \<le> 24 \<and> grow_arena est cap = Some (2 ^ j) \<and>
     (2 ^ j < est * 2 \<longrightarrow> j = 24) \<and> (\<forall>i. k \<le> i \<and> i < j \<longrightarrow> 2 ^ i < est * 2)"
  using assms
proof (induction "24 - k" arbitrary: k cap)
  case 0
  then have "cap = 2 ^ 24" "k = 24" by simp_all
  then show ?case by (subst grow_arena.simps) (auto simp: kMaxArena_def)
next
  case (Suc n)
  then have k: "k < 24" by simp
  then have le: "(2::nat) ^ k < 2 ^ 24" by (intro power_strict_increasing) simp_all
  show ?case
  proof (cases "2 ^ k < est * 2")
    case False
    then show ?thesis using Suc.prems by (subst grow_arena.simps) (auto intro!: exI[of _ k])
  next
    case True
    have "n = 24 - Suc k" "cap * 2 = 2 ^ Suc k" using Suc.hyps(2) Suc.prems by simp_all
    from Suc.hyps(1)[OF this] k obtain j where j: "Suc k \<le> j" "j \<le> 24" "grow_arena est (cap * 2) = Some (2 ^ j)"
      "2 ^ j < est * 2 \<longrightarrow> j = 24" "\<forall>i. Suc k \<le> i \<and> i < j \<longrightarrow> 2 ^ i < est * 2" by auto
    have "grow_arena est cap = grow_arena est (cap * 2)"
      using True le Suc.prems(1) by (subst grow_arena.simps) (simp add: kMaxArena_def)
    moreover have "2 ^ i < est * 2" if "k \<le> i" "i < j" for i
      using that j(5) True by (cases "i = k") auto
    ultimately show ?thesis using j by (intro exI[of _ j]) auto
  qed
qed

text \<open>C34: Sizing the book from the length of the input always returns: the arena is the least power of two
  from 4096 up that holds twice the estimated messages, or 2 to the 24 when none below does, and
  the page pool lies between 256 and the default. The sizes are ones that the book's constructor
  accepts.\<close>

theorem sized_for_bounds:
  "\<exists>o' j. sized_for bytes = Some o' \<and> ro_arena_capacity o' = 2 ^ j \<and> 12 \<le> j \<and> j \<le> 24 \<and>
     (j < 24 \<longrightarrow> (bytes div 12 + 1) * 2 \<le> 2 ^ j) \<and>
     (12 < j \<longrightarrow> 2 ^ (j - 1) < (bytes div 12 + 1) * 2) \<and>
     256 \<le> ro_page_pool o' \<and> ro_page_pool o' \<le> ro_page_pool default_options \<and>
     ro_arena_capacity o' < kNullIndex \<and> ro_page_pool o' \<le> kNoPage"
proof -
  from grow_arena_correct[of "2 ^ 12" 12 "bytes div 12 + 1"] obtain j where
    j: "12 \<le> j" "j \<le> 24" "grow_arena (bytes div 12 + 1) (2 ^ 12) = Some (2 ^ j)"
      "2 ^ j < (bytes div 12 + 1) * 2 \<longrightarrow> j = 24" "\<forall>i. 12 \<le> i \<and> i < j \<longrightarrow> 2 ^ i < (bytes div 12 + 1) * 2"
    by auto
  have "(2::nat) ^ j \<le> 2 ^ 24" using j(2) by (intro power_increasing) simp_all
  then have cap: "(2::nat) ^ j < kNullIndex" by (simp add: kNullIndex_def)
  have low: "12 < j \<longrightarrow> 2 ^ (j - 1) < (bytes div 12 + 1) * 2" using j(5) by simp
  have high: "j < 24 \<longrightarrow> (bytes div 12 + 1) * 2 \<le> 2 ^ j" using j(4) by linarith
  show ?thesis
    using j cap low high
    by (auto simp: sized_for_def Let_def kMinFrame_def default_options_def kNoPage_def intro!: exI[of _ j])
qed

lemma sized_for_bounds_witness:
  "\<exists>o' j. sized_for 1200000 = Some o' \<and> ro_arena_capacity o' = 2 ^ j \<and> 12 \<le> j \<and> j \<le> 24 \<and>
     (j < 24 \<longrightarrow> (200002::nat) \<le> 2 ^ j) \<and> (12 < j \<longrightarrow> 2 ^ (j - 1) < (200002::nat)) \<and> 256 \<le> ro_page_pool o'"
  using sized_for_bounds[of 1200000] by auto

section \<open>The summary\<close>

text \<open>Options that the book's constructor accepts.\<close>

definition options_ok :: "replay_options \<Rightarrow> order slot list \<Rightarrow> bool" where
  "options_ok opts raw \<longleftrightarrow> 0 < ro_arena_capacity opts \<and> ro_arena_capacity opts < kNullIndex \<and>
     ro_arena_capacity opts \<le> length raw \<and> ro_lo opts < ro_hi opts \<and> int64_min \<le> ro_lo opts \<and>
     ro_hi opts \<le> int32_max \<and> 0 < ro_page_pool opts \<and> ro_page_pool opts \<le> kNoPage"

lemma replay_start_correct:
  assumes "options_ok opts raw"
  shows "\<exists>bk. replay_start opts raw = Some \<lparr> rp_book = bk, rp_out = empty_summary, rp_session = session_init \<rparr> \<and>
     book_rel bk (\<lambda>_ _. [])"
  using assms book_new_correct[of "ro_arena_capacity opts" raw 10 "ro_lo opts" "ro_hi opts" "ro_page_pool opts"]
  by (auto simp: options_ok_def replay_start_def)

lemma decoded_count: "length (filter is_decoded evs) = length (decoded_messages evs)"
  by (induction evs rule: decoded_messages.induct) simp_all

text \<open>The state a summary reports: the abstract book, the ticks of its operations and the events.\<close>

definition reports :: "bool \<Rightarrow> session_event list \<Rightarrow> book_tick list \<Rightarrow> abook \<Rightarrow> replay_summary \<Rightarrow> bool" where
  "reports le evs ticks A s \<longleftrightarrow>
     rs_decoded s = length (decoded_messages evs) \<and>
     rs_skipped s = length evs - length (decoded_messages evs) \<and>
     rs_book_events_failed s = length (filter (\<lambda>t. \<not> tick_ok t) ticks) \<and>
     rs_live_orders s = card (refs_of A) \<and>
     greatest_tick (rs_best_bid_ticks s) (priced A Buy) \<and> least_tick (rs_best_ask_ticks s) (priced A Sell) \<and>
     rs_trace_digest s = foldl (\<lambda>h m. trace_hash m h) fnv_offset (decoded_messages evs) \<and>
     (rs_first_ts_ns s, rs_last_ts_ns s) = times_noted (map (\<lambda>m. h_ts_ns (msg_header m)) (decoded_messages evs)) (0, 0) \<and>
     (let md = session_run (market_events le evs)
      in rs_phase s = sm_phase md \<and> rs_halt_windows s = length (sm_windows md) \<and>
         rs_noii_updates s = sm_noii_updates md \<and> rs_close_crosses s = sm_close_crosses md)"

lemma finish_reports:
  assumes "abook_trace (\<lambda>_ _. []) (map msg_op (decoded_messages evs)) ticks A" and "book_rel (rp_book r) A"
    and "rp_session r = fold session_step (market_events le evs) session_init"
    and "rs_book_events_failed (rp_out r) = length (filter (\<lambda>t. \<not> tick_ok t) ticks)"
    and "rs_trace_digest (rp_out r) = foldl (\<lambda>h m. trace_hash m h) fnv_offset (decoded_messages evs)"
    and "(rs_first_ts_ns (rp_out r), rs_last_ts_ns (rp_out r)) =
       times_noted (map (\<lambda>m. h_ts_ns (msg_header m)) (decoded_messages evs)) (0, 0)"
  shows "reports le evs ticks A (finish_summary n (stats_after empty_stats evs) r)"
proof -
  have "length (filter (\<lambda>e. \<not> is_decoded e) evs) = length evs - length (decoded_messages evs)"
    using sum_length_filter_compl[of is_decoded evs] by (simp add: decoded_count)
  then show ?thesis
    using assms best_prices[OF assms(2)] live_orders_refs[OF assms(2)]
    by (simp add: reports_def finish_summary_def Let_def session_run_def stats_after_def empty_stats_def decoded_count)
qed

text \<open>C2: A replay of a raw stream is the abstract price-time priority book run over the messages of the
  frames the parser delivers: if all bytes are frames, the summary reports the book that run ends in,
  its failed operations, the digest and times of the messages, and the session model's run over
  the other frames; otherwise the failure carries the offset where the frames end. The messages must be
  in the book's domain.\<close>

theorem replay_builds_book:
  assumes "options_ok opts raw" and "ro_format opts = ItchRaw" and "bytes \<noteq> []"
    and "\<forall>evs n. session_prefix bytes evs n \<longrightarrow> safe_run (\<lambda>_ _. []) (map msg_op (decoded_messages evs))"
  shows "\<exists>evs n. session_prefix bytes evs n \<and>
     (if n = length bytes
      then \<exists>s ticks A. run_replay le opts raw bytes = Some (Inr s) \<and> rs_bytes_consumed s = n \<and>
        abook_trace (\<lambda>_ _. []) (map msg_op (decoded_messages evs)) ticks A \<and> reports le evs ticks A s
      else \<exists>e. run_replay le opts raw bytes = Some (Inl (parse_failure e)) \<and> pe_offset e = n \<and> n < length bytes)"
proof -
  from replay_start_correct[OF assms(1)] obtain bk where
    st: "replay_start opts raw = Some \<lparr> rp_book = bk, rp_out = empty_summary, rp_session = session_init \<rparr>"
      (is "_ = Some ?r") and rel: "book_rel bk (\<lambda>_ _. [])" by blast
  obtain x s' where x: "parse_itch_session_listen_as (parse_one le) replay_sink (replay_listen le) bytes (Some ?r) = (x, s')"
    by fastforce
  from session_loop_result[OF x[unfolded parse_itch_session_listen_as_def]] obtain evs n where
    e: "s' = foldl (deliver replay_sink (replay_listen le)) (Some ?r) evs" "session_prefix bytes evs n"
      "case x of Inr st \<Rightarrow> st = stats_after empty_stats evs \<and> n = length bytes
       | Inl e \<Rightarrow> pe_offset e = n \<and> n < length bytes"
    by (simp only: add_0 drop_0 le0 simp_thms) blast
  from rb.events_drive_book[where s = ?r and A = "\<lambda>_ _. []" and le = le, OF _ assms(4)[rule_format, OF e(2)]] rel obtain r' A ticks where
    r: "s' = Some r'" "abook_trace (\<lambda>_ _. []) (map msg_op (decoded_messages evs)) ticks A" "book_rel (rp_book r') A"
    and ab: "(rp_out r', rp_session r') = absorb (\<lambda>m tick (out, md). (note_summary m tick out, md))
           (\<lambda>t p n (out, md). (out, snd (feed_frame le t p n md))) evs ticks (empty_summary, session_init)"
    unfolding e(1) by auto
  have fields: "rp_session r' = fold session_step (market_events le evs) session_init"
    "rs_book_events_failed (rp_out r') = length (filter (\<lambda>t. \<not> tick_ok t) ticks)"
    "rs_trace_digest (rp_out r') = foldl (\<lambda>h m. trace_hash m h) fnv_offset (decoded_messages evs)"
    "(rs_first_ts_ns (rp_out r'), rs_last_ts_ns (rp_out r')) =
       times_noted (map (\<lambda>m. h_ts_ns (msg_header m)) (decoded_messages evs)) (0, 0)"
    using absorbed_summary[OF e(2) _ ab] abook_trace_length[OF r(2)] by (simp_all add: empty_summary_def)
  have run: "run_replay le opts raw bytes = (case x of
      Inl e \<Rightarrow> Some (Inl (parse_failure e)) | Inr stats \<Rightarrow> Some (Inr (finish_summary (length bytes) stats r')))"
    using assms(2,3) st x r(1) by (auto simp: run_replay_def ingest_def split: sum.splits)
  show ?thesis
  proof (cases x)
    case (Inl e0)
    then show ?thesis using e run by (intro exI[of _ evs] exI[of _ n]) auto
  next
    case (Inr stats)
    then have "run_replay le opts raw bytes = Some (Inr (finish_summary (length bytes) (stats_after empty_stats evs) r'))"
      using e run by simp
    moreover have "rs_bytes_consumed (finish_summary (length bytes) (stats_after empty_stats evs) r') = length bytes"
      by (simp add: finish_summary_def Let_def)
    ultimately show ?thesis
      using e(2,3) Inr r(2) finish_reports[OF r(2,3) fields, of "length bytes"]
      by (intro exI[of _ evs] exI[of _ n]) auto
  qed
qed

section \<open>A small stream\<close>

definition demo_add :: message where
  "demo_add = AddOrder \<lparr> ao_header = \<lparr> h_locate = 1, h_tracking = 2, h_ts_ns = 3 \<rparr>, ao_order_ref = 9, ao_side = Buy,
     ao_shares = 10, ao_stock = replicate 8 65, ao_price = 20 \<rparr>"

definition demo_stream :: "byte list" where
  "demo_stream = encode_message True demo_add"

definition demo_options :: replay_options where
  "demo_options = default_options\<lparr> ro_arena_capacity := 4, ro_page_pool := 2 \<rparr>"

lemma demo_add_wf: "message_wf demo_add" "message_size demo_add = 36"
  by (simp_all add: demo_add_def header_wf_def fits_u32_def)

lemma demo_stream_facts:
  "decode_message True demo_stream = Inr demo_add" "length demo_stream = 36" "demo_stream \<noteq> []"
proof -
  show "decode_message True demo_stream = Inr demo_add"
    using decode_encode_message[OF demo_add_wf(1), where rest = "[]"] by (simp add: demo_stream_def)
  show len: "length demo_stream = 36" by (simp add: demo_stream_def demo_add_wf)
  then show "demo_stream \<noteq> []" by auto
qed

lemma demo_frame_ok: "frame_ok demo_stream"
  using decode_size[OF demo_stream_facts(1)] demo_stream_facts demo_add_wf(2) by (auto simp: frame_ok_def)

lemma demo_options_ok: "options_ok demo_options demo_raw"
  by (simp add: options_ok_def demo_options_def default_options_def kNullIndex_def kNoPage_def demo_raw_def int32_max_def)

lemma demo_prefixes:
  assumes "session_prefix demo_stream evs n"
  shows "(evs = [] \<and> n = 0) \<or> (evs = [Decoded demo_add] \<and> n = 36)"
proof (cases evs)
  case Nil
  then show ?thesis using assms by simp
next
  case (Cons e rest)
  have k: "kFrame (demo_stream ! 0) \<noteq> 0" using decode_size(2)[OF demo_stream_facts(1)] demo_add_wf(2) by simp
  then have e: "e = Decoded demo_add" using assms Cons demo_stream_facts(1) by (cases e) auto
  with assms Cons have "session_prefix (drop 36 demo_stream) rest (n - 36)" "36 \<le> n" by (auto simp: demo_add_wf)
  moreover have "drop 36 demo_stream = []" using demo_stream_facts(2) by simp
  ultimately have "rest = []" "n = 36" by (cases rest; auto split: session_event.splits dest: decode_size(4))+
  then show ?thesis using Cons e by simp
qed

lemma demo_safe: "safe_run (\<lambda>_ _. []) [msg_op demo_add]"
  by (simp add: demo_add_def level_qty_def)

lemma demo_parses:
  "run_replay True (demo_options\<lparr> ro_format := ItchRaw \<rparr>) demo_raw demo_stream \<noteq> Some (Inl e)"
proof -
  have "ingest True ItchRaw replay_sink (replay_listen True) demo_stream st =
      (Inr (36, stats_after empty_stats [frame_as demo_stream]), foldl (deliver replay_sink (replay_listen True)) st [frame_as demo_stream])" for st
    using rl.ingest_frames(1)[where fss = "[[demo_stream]]" and le = True and sink = replay_sink and s = st] demo_frame_ok demo_stream_facts(2) by simp
  then show ?thesis
    using demo_stream_facts(3) by (auto simp: run_replay_def bind_eq_Some_conv)
qed

lemma replay_builds_book_witness:
  "\<exists>s ticks A. run_replay True demo_options demo_raw demo_stream = Some (Inr s) \<and> rs_bytes_consumed s = 36 \<and>
     abook_trace (\<lambda>_ _. []) [msg_op demo_add] ticks A \<and> reports True [Decoded demo_add] ticks A s"
proof -
  have o: "ro_format demo_options = ItchRaw" "demo_options\<lparr> ro_format := ItchRaw \<rparr> = demo_options"
    by (simp_all add: demo_options_def default_options_def)
  have "\<forall>evs n. session_prefix demo_stream evs n \<longrightarrow> safe_run (\<lambda>_ _. []) (map msg_op (decoded_messages evs))"
    using demo_prefixes demo_safe by fastforce
  from replay_builds_book[OF demo_options_ok o(1) demo_stream_facts(3) this, where le = True]
  obtain evs n where w: "session_prefix demo_stream evs n"
    "if n = length demo_stream
     then \<exists>s ticks A. run_replay True demo_options demo_raw demo_stream = Some (Inr s) \<and> rs_bytes_consumed s = n \<and>
       abook_trace (\<lambda>_ _. []) (map msg_op (decoded_messages evs)) ticks A \<and> reports True evs ticks A s
     else \<exists>e. run_replay True demo_options demo_raw demo_stream = Some (Inl (parse_failure e)) \<and> pe_offset e = n \<and> n < length demo_stream"
    by blast
  then show ?thesis using demo_prefixes[OF w(1)] demo_stream_facts(2) demo_parses o(2) by (auto split: if_splits)
qed

section \<open>Independence of the framing\<close>

definition same_summary :: "(replay_failure + replay_summary) option \<Rightarrow> (replay_failure + replay_summary) option \<Rightarrow> bool" where
  "same_summary x y \<longleftrightarrow> (case (x, y) of
     (Some (Inr a), Some (Inr b)) \<Rightarrow> a\<lparr> rs_bytes_consumed := 0 \<rparr> = b\<lparr> rs_bytes_consumed := 0 \<rparr>
   | (None, None) \<Rightarrow> True
   | _ \<Rightarrow> False)"

definition same_trades :: "(replay_failure + trade_summary) option \<Rightarrow> (replay_failure + trade_summary) option \<Rightarrow> bool" where
  "same_trades x y \<longleftrightarrow> (case (x, y) of
     (Some (Inr a), Some (Inr b)) \<Rightarrow> a\<lparr> ts_bytes_consumed := 0 \<rparr> = b\<lparr> ts_bytes_consumed := 0 \<rparr>
   | (None, None) \<Rightarrow> True
   | _ \<Rightarrow> False)"

lemma same_runs:
  assumes "bytes1 \<noteq> []" and "bytes2 \<noteq> []"
    and "\<And>st. ingest le f1 replay_sink (replay_listen le) bytes1 st = (Inr (n1, stats), g st)"
    and "\<And>st. ingest le f2 replay_sink (replay_listen le) bytes2 st = (Inr (n2, stats), g st)"
  shows "same_summary (run_replay le (opts\<lparr> ro_format := f1 \<rparr>) raw bytes1) (run_replay le (opts\<lparr> ro_format := f2 \<rparr>) raw bytes2)"
proof (cases "replay_start opts raw")
  case (Some r0)
  then show ?thesis
    using assms by (cases "g (Some r0)") (simp_all add: run_replay_def replay_start_def same_summary_def finish_summary_def Let_def)
qed (use assms in \<open>simp add: run_replay_def replay_start_def same_summary_def\<close>)

lemma same_trade_runs:
  assumes "bytes1 \<noteq> []" and "bytes2 \<noteq> []"
    and "\<And>st. ingest le f1 recorder_sink (recorder_frame le) bytes1 st = (Inr (n1, stats), g st)"
    and "\<And>st. ingest le f2 recorder_sink (recorder_frame le) bytes2 st = (Inr (n2, stats), g st)"
  shows "same_trades (run_trades le (opts\<lparr> ro_format := f1 \<rparr>) raw bytes1) (run_trades le (opts\<lparr> ro_format := f2 \<rparr>) raw bytes2)"
proof (cases "recorder_start opts raw")
  case (Some r0)
  then show ?thesis
    using assms by (cases "g (Some r0)") (simp_all add: run_trades_def recorder_start_def same_trades_def)
qed (use assms in \<open>simp add: run_trades_def recorder_start_def same_trades_def\<close>)

text \<open>C4: The framing of a session does not matter: the same frames as a raw stream, grouped into
  length-prefixed blocks or into the messages of MoldUDP64 packets in sequence, give runs with the
  same summary but for the bytes consumed, for the replay and for the trade reconstruction.\<close>

theorem replay_format_independent:
  assumes "\<forall>f \<in> set fs. frame_ok f" and "fs \<noteq> []"
    and "concat blocks = fs" and "\<forall>b \<in> set blocks. message_ok (concat b)"
    and "concat msgs = fs" and "map fst (all_messages ps) = map concat msgs" and "list_all packet_ok ps" and "continuous None ps"
  defines "raw_bytes \<equiv> concat fs" and "prefixed \<equiv> concat (map (\<lambda>b. message_block (concat b)) blocks)"
    and "packets \<equiv> concat (map packet_bytes ps)"
  shows "same_summary (run_replay le (opts\<lparr> ro_format := ItchRaw \<rparr>) raw raw_bytes) (run_replay le (opts\<lparr> ro_format := LengthPrefixed \<rparr>) raw prefixed) \<and>
     same_summary (run_replay le (opts\<lparr> ro_format := ItchRaw \<rparr>) raw raw_bytes) (run_replay le (opts\<lparr> ro_format := Moldudp64 \<rparr>) raw packets) \<and>
     same_trades (run_trades le (opts\<lparr> ro_format := ItchRaw \<rparr>) raw raw_bytes) (run_trades le (opts\<lparr> ro_format := LengthPrefixed \<rparr>) raw prefixed) \<and>
     same_trades (run_trades le (opts\<lparr> ro_format := ItchRaw \<rparr>) raw raw_bytes) (run_trades le (opts\<lparr> ro_format := Moldudp64 \<rparr>) raw packets)"
proof -
  have ne: "raw_bytes \<noteq> []" "prefixed \<noteq> []" "packets \<noteq> []"
  proof -
    from assms(1,2) obtain f fs' where f: "fs = f # fs'" "f \<noteq> []" by (cases fs) (auto simp: frame_ok_def)
    then show "raw_bytes \<noteq> []" by (simp add: raw_bytes_def)
    from f(1) assms(3) obtain b bs where "blocks = b # bs" by (cases blocks) auto
    then have "2 \<le> length prefixed" by (simp add: prefixed_def message_block_def)
    then show "prefixed \<noteq> []" by auto
    from f(1) assms(5) have "msgs \<noteq> []" by auto
    with assms(6) have "ps \<noteq> []" by (auto simp: all_messages_def)
    then show "packets \<noteq> []" using assms(7) by (cases ps; cases "hd ps") (auto simp: packets_def header_bytes_def kSessionSize_def)
  qed
  have b: "\<forall>f \<in> set (concat blocks). frame_ok f" and m: "\<forall>f \<in> set (concat msgs). frame_ok f"
    using assms(1,3,5) by simp_all
  note raw_run = rl.ingest_frames(1)[OF b, unfolded assms(3)] tl.ingest_frames(1)[OF b, unfolded assms(3)]
  note block_run = rl.ingest_frames(2)[OF b assms(4), unfolded assms(3)] tl.ingest_frames(2)[OF b assms(4), unfolded assms(3)]
  note mold_run = rl.ingest_frames(3)[OF m assms(7,8,6), unfolded assms(5)] tl.ingest_frames(3)[OF m assms(7,8,6), unfolded assms(5)]
  show ?thesis
    using ne unfolding raw_bytes_def prefixed_def packets_def
    by (intro conjI) (rule same_runs[OF _ _ raw_run(1) block_run(1)] same_runs[OF _ _ raw_run(1) mold_run(1)]
      same_trade_runs[OF _ _ raw_run(2) block_run(2)] same_trade_runs[OF _ _ raw_run(2) mold_run(2)]; assumption)+
qed

lemma replay_format_independent_witness:
  "same_summary (run_replay True (demo_options\<lparr> ro_format := ItchRaw \<rparr>) demo_raw (demo_stream @ demo_stream))
     (run_replay True (demo_options\<lparr> ro_format := LengthPrefixed \<rparr>) demo_raw (message_block (demo_stream @ demo_stream)))"
proof -
  let ?ps = "[DataPacket (replicate 10 0x41) 7 [demo_stream, demo_stream]]"
  have ps: "list_all packet_ok ?ps" "continuous None ?ps"
    "map fst (all_messages ?ps) = map concat [[demo_stream], [demo_stream]]"
    using demo_stream_facts(2)
    by (simp_all add: kSessionSize_def message_ok_def in_sequence_def message_block_def header_bytes_def all_messages_def)
  have b: "\<forall>b \<in> set [[demo_stream, demo_stream]]. message_ok (concat b)"
    using demo_stream_facts(2) by (simp add: message_ok_def)
  have f: "\<forall>f \<in> set [demo_stream, demo_stream]. frame_ok f" using demo_frame_ok by simp
  have e: "concat [[demo_stream, demo_stream]] = [demo_stream, demo_stream]"
    "concat [[demo_stream], [demo_stream]] = [demo_stream, demo_stream]" "[demo_stream, demo_stream] \<noteq> []" by simp_all
  from replay_format_independent[OF f e(3) e(1) b e(2) ps(3,1,2), where le = True and opts = demo_options and raw = demo_raw]
  show ?thesis by simp
qed

end
