(* ===== verification/TradeProps.thy ===== *)
theory TradeProps
  imports ReplayProps
begin

text \<open>
  Trade reconstruction: the prints are the executions the abstract book accepts, in stream order, at
  the price of the message or of the order that rested.
\<close>

section \<open>The prints of a stream\<close>

text \<open>The print of an execution, given the price from the book; no print for other messages.\<close>

fun execution_print :: "message \<Rightarrow> int \<Rightarrow> print option" where
  "execution_print (OrderExecuted e) price =
     Some \<lparr> pr_match_number = oe_match_number e, pr_locate = ucast (h_locate (oe_header e)), pr_ts_ns = h_ts_ns (oe_header e),
            pr_price_ticks = price, pr_shares = ucast (word_of_int (oe_executed_shares e) :: u64), pr_printable = True,
            pr_from_execute_with_price = False \<rparr>"
| "execution_print (OrderExecutedWithPrice e) price =
     Some \<lparr> pr_match_number = oc_match_number e, pr_locate = ucast (h_locate (oc_header e)), pr_ts_ns = h_ts_ns (oc_header e),
            pr_price_ticks = oc_execution_price e, pr_shares = ucast (word_of_int (oc_executed_shares e) :: u64),
            pr_printable = oc_printable e, pr_from_execute_with_price = True \<rparr>"
| "execution_print _ price = None"

definition prints_of :: "message list \<Rightarrow> book_tick list \<Rightarrow> print list" where
  "prints_of ms ticks = concat (map (\<lambda>(m, t). if tick_ok t then (case execution_print m (bt_price_ticks t) of
     None \<Rightarrow> [] | Some p \<Rightarrow> [p]) else []) (zip ms ticks))"

definition executions :: "message list \<Rightarrow> message list" where
  "executions ms = filter (\<lambda>m. execution_print m 0 \<noteq> None) ms"

text \<open>The prints that fall into a halt of the session as far as the stream has told it.\<close>

fun halted_prints :: "bool \<Rightarrow> session_event list \<Rightarrow> book_tick list \<Rightarrow> session_model \<Rightarrow> nat" where
  "halted_prints le (Decoded m # evs) (tick # ticks) md =
     length (filter (\<lambda>p. was_halted_at md (pr_locate p) (pr_ts_ns p)) (prints_of [m] [tick])) + halted_prints le evs ticks md"
| "halted_prints le (Skipped t p n # evs) ticks md =
     halted_prints le evs ticks (case frame_event le t p of None \<Rightarrow> md | Some e \<Rightarrow> session_step e md)"
| "halted_prints le evs ticks md = 0"

section \<open>The recorder as a client of the book\<close>

definition note_trade :: "message \<Rightarrow> book_tick \<Rightarrow> session_model \<Rightarrow> trade_summary \<Rightarrow> trade_summary" where
  "note_trade m tick md s =
     (let s = (if tick_ok tick then s else s\<lparr> ts_book_events_failed := ts_book_events_failed s + 1 \<rparr>)
      in case execution_print m (bt_price_ticks tick) of
        None \<Rightarrow> s
      | Some p \<Rightarrow>
          if tick_ok tick
          then s\<lparr> ts_prints_during_halts := ts_prints_during_halts s + (if was_halted_at md (pr_locate p) (pr_ts_ns p) then 1 else 0),
                  ts_prints := ts_prints s + 1, ts_records := ts_records s @ [p] \<rparr>
          else s\<lparr> ts_unpriced_executions := ts_unpriced_executions s + 1 \<rparr>)"

lemma recorder_message_rest:
  assumes "book_apply m None (rc_book rc) = Some (tick, ds, bk)"
  shows "\<exists>rc'. recorder_message rc m = Some rc' \<and> rc_book rc' = bk \<and> rc_model rc' = rc_model rc \<and>
     rc_summary rc' = note_trade m tick (rc_model rc) (rc_summary rc)"
  using assms
  by (cases m) (auto simp: recorder_message_def record_print_def note_trade_def Let_def)

interpretation tb: book_client recorder_sink "recorder_frame le" rc_book "\<lambda>rc. (rc_model rc, rc_summary rc)"
  "\<lambda>m tick (md, s). (md, note_trade m tick md s)" "\<lambda>t p n (md, s). (snd (feed_frame le t p n md), s)" for le
  by unfold_locales
    (auto simp: recorder_sink_def recorder_frame_def dest: recorder_message_rest)

lemma prints_of_Cons: "prints_of (m # ms) (t # ts) = prints_of [m] [t] @ prints_of ms ts"
  by (simp add: prints_of_def)

lemma prints_of_Nil [simp]: "prints_of [] ts = []"
  by (simp add: prints_of_def)

lemma note_trade_fields:
  "ts_records (note_trade m t md s) = ts_records s @ prints_of [m] [t]"
  "ts_prints (note_trade m t md s) = ts_prints s + length (prints_of [m] [t])"
  "ts_unpriced_executions (note_trade m t md s) + length (prints_of [m] [t]) =
     ts_unpriced_executions s + length (executions [m])"
  "ts_book_events_failed (note_trade m t md s) = ts_book_events_failed s + (if tick_ok t then 0 else 1)"
  by (cases m; simp add: note_trade_def prints_of_def executions_def Let_def)+

lemma note_trade_halts:
  "ts_prints_during_halts (note_trade m t md s) = ts_prints_during_halts s +
     length (filter (\<lambda>p. was_halted_at md (pr_locate p) (pr_ts_ns p)) (prints_of [m] [t]))"
  by (cases "execution_print m (bt_price_ticks t)"; cases "tick_ok t") (simp_all add: note_trade_def prints_of_def Let_def)

lemma absorbed_trades:
  assumes "session_prefix buf evs n" and "length ticks = length (decoded_messages evs)"
    and "(md', s') = absorb (\<lambda>m tick (md, s). (md, note_trade m tick md s))
           (\<lambda>t p n (md, s). (snd (feed_frame le t p n md), s)) evs ticks (md, s)"
  shows "ts_records s' = ts_records s @ prints_of (decoded_messages evs) ticks \<and>
     ts_prints s' = ts_prints s + length (prints_of (decoded_messages evs) ticks) \<and>
     ts_unpriced_executions s' + length (prints_of (decoded_messages evs) ticks) =
       ts_unpriced_executions s + length (executions (decoded_messages evs)) \<and>
     ts_book_events_failed s' = ts_book_events_failed s + length (filter (\<lambda>t. \<not> tick_ok t) ticks) \<and>
     ts_prints_during_halts s' = ts_prints_during_halts s + halted_prints le evs ticks md"
  using assms
proof (induction evs arbitrary: buf n ticks md s)
  case Nil
  then show ?case by (simp add: executions_def)
next
  case (Cons e evs)
  show ?case
  proof (cases e)
    case (Decoded m)
    from Cons.prems(2) Decoded obtain tick ticks' where t: "ticks = tick # ticks'" by (cases ticks) auto
    have pre: "session_prefix (drop (message_size m) buf) evs (n - message_size m)" using Cons.prems(1) Decoded by simp
    have "length ticks' = length (decoded_messages evs)" using Cons.prems(2) Decoded t by simp
    from Cons.IH[OF pre this, of md "note_trade m tick md s"] Cons.prems(3) Decoded t
    have ih: "ts_records s' = ts_records (note_trade m tick md s) @ prints_of (decoded_messages evs) ticks'"
      "ts_prints s' = ts_prints (note_trade m tick md s) + length (prints_of (decoded_messages evs) ticks')"
      "ts_unpriced_executions s' + length (prints_of (decoded_messages evs) ticks') =
         ts_unpriced_executions (note_trade m tick md s) + length (executions (decoded_messages evs))"
      "ts_book_events_failed s' = ts_book_events_failed (note_trade m tick md s) + length (filter (\<lambda>t. \<not> tick_ok t) ticks')"
      "ts_prints_during_halts s' = ts_prints_during_halts (note_trade m tick md s) + halted_prints le evs ticks' md"
      by simp_all
    have ex: "length (executions (m # decoded_messages evs)) = length (executions [m]) + length (executions (decoded_messages evs))"
      by (simp add: executions_def)
    show ?thesis
      using ih note_trade_fields[of m tick md s] note_trade_halts[of m tick md s] ex Decoded t prints_of_Cons[of m "decoded_messages evs" tick ticks'] by simp
  next
    case (Skipped t p k)
    have pre: "session_prefix (drop k buf) evs (n - k)" "k = kSessionFrame t"
      using Cons.prems(1) unfolding Skipped by (fastforce simp: Let_def)+
    have "length ticks = length (decoded_messages evs)" using Cons.prems(2) Skipped by simp
    from Cons.IH[OF pre(1) this, of "snd (feed_frame le t p k md)" s] Cons.prems(3) Skipped show ?thesis
      by (auto simp: feed_frame_event[OF pre(2)] split: option.splits)
  qed
qed

lemma recorder_start_correct:
  assumes "options_ok opts raw"
  shows "\<exists>bk. recorder_start opts raw = Some \<lparr> rc_book = bk, rc_model = session_init, rc_summary = empty_trades \<rparr> \<and>
     book_rel bk (\<lambda>_ _. [])"
  using assms book_new_correct[of "ro_arena_capacity opts" raw 10 "ro_lo opts" "ro_hi opts" "ro_page_pool opts"]
  by (auto simp: options_ok_def recorder_start_def)

text \<open>C21: Trade reconstruction over a raw stream of frames records one print for each execution that the
  abstract price-time priority book accepts, in stream order, at the price of the order that rested
  or the price of the message; each other execution is counted as unpriced, none is dropped, and
  the prints during halts are those the session model calls halted at that point of the stream.\<close>

theorem trades_reconstruct:
  assumes "options_ok opts raw" and "ro_format opts = ItchRaw" and "bytes \<noteq> []"
    and "\<forall>evs n. session_prefix bytes evs n \<longrightarrow> safe_run (\<lambda>_ _. []) (map msg_op (decoded_messages evs))"
    and "run_trades le opts raw bytes = Some (Inr s)"
  shows "\<exists>evs ticks A. session_prefix bytes evs (length bytes) \<and>
     abook_trace (\<lambda>_ _. []) (map msg_op (decoded_messages evs)) ticks A \<and>
     ts_records s = prints_of (decoded_messages evs) ticks \<and> ts_prints s = length (ts_records s) \<and>
     ts_prints s + ts_unpriced_executions s = length (executions (decoded_messages evs)) \<and>
     ts_book_events_failed s = length (filter (\<lambda>t. \<not> tick_ok t) ticks) \<and>
     ts_prints_during_halts s = halted_prints le evs ticks session_init"
proof -
  from recorder_start_correct[OF assms(1)] obtain bk where
    st: "recorder_start opts raw = Some \<lparr> rc_book = bk, rc_model = session_init, rc_summary = empty_trades \<rparr>"
      (is "_ = Some ?r") and rel: "book_rel bk (\<lambda>_ _. [])" by blast
  obtain x st' where x: "parse_itch_session_listen_as (parse_one le) recorder_sink (recorder_frame le) bytes (Some ?r) = (x, st')"
    by fastforce
  from session_loop_result[OF x[unfolded parse_itch_session_listen_as_def]] obtain evs n where
    e: "st' = foldl (deliver recorder_sink (recorder_frame le)) (Some ?r) evs" "session_prefix bytes evs n"
      "case x of Inr st \<Rightarrow> st = stats_after empty_stats evs \<and> n = length bytes
       | Inl e \<Rightarrow> pe_offset e = n \<and> n < length bytes"
    by (simp only: add_0 drop_0 le0 simp_thms) blast
  from tb.events_drive_book[where s = ?r and A = "\<lambda>_ _. []" and le = le, OF _ assms(4)[rule_format, OF e(2)]] rel
  obtain r' A ticks where
    r: "st' = Some r'" "abook_trace (\<lambda>_ _. []) (map msg_op (decoded_messages evs)) ticks A"
    and ab: "(rc_model r', rc_summary r') = absorb (\<lambda>m tick (md, s). (md, note_trade m tick md s))
           (\<lambda>t p n (md, s). (snd (feed_frame le t p n md), s)) evs ticks (session_init, empty_trades)"
    unfolding e(1) by auto
  from assms(2,3,5) st x r(1) obtain stats where
    "x = Inr stats" and s: "s = (rc_summary r')\<lparr> ts_decoded := ss_decoded stats, ts_skipped := ss_skipped stats,
       ts_bytes_consumed := length bytes \<rparr>"
    by (auto simp: run_trades_def ingest_def split: sum.splits)
  with e(3) have n: "n = length bytes" by simp
  from absorbed_trades[OF e(2) _ ab] abook_trace_length[OF r(2)] show ?thesis
    using e(2) r(2) unfolding n s
    by (intro exI[of _ evs] exI[of _ ticks] exI[of _ A]) (simp add: empty_trades_def)
qed

lemma demo_prefix_safe:
  "\<forall>evs n. session_prefix demo_stream evs n \<longrightarrow> safe_run (\<lambda>_ _. []) (map msg_op (decoded_messages evs))"
  using demo_prefixes demo_safe by fastforce

lemma demo_trades: "\<exists>s. run_trades True demo_options demo_raw demo_stream = Some (Inr s)"
proof -
  from recorder_start_correct[OF demo_options_ok] obtain bk where
    st: "recorder_start demo_options demo_raw = Some \<lparr> rc_book = bk, rc_model = session_init, rc_summary = empty_trades \<rparr>"
      (is "_ = Some ?r") and rel: "book_rel bk (\<lambda>_ _. [])" by blast
  have f: "frame_as demo_stream = Decoded demo_add" using decoded_frame(2)[OF demo_frame_ok demo_stream_facts(1)] .
  have "ingest True ItchRaw recorder_sink (recorder_frame True) demo_stream (Some ?r) =
      (Inr (36, stats_after empty_stats [Decoded demo_add]), foldl (deliver recorder_sink (recorder_frame True)) (Some ?r) [Decoded demo_add])"
    using tl.ingest_frames(1)[where fss = "[[demo_stream]]" and le = True and sink = recorder_sink and s = "Some ?r"]
      demo_frame_ok demo_stream_facts(2) f by simp
  moreover have "ro_format demo_options = ItchRaw" by (simp add: demo_options_def default_options_def)
  ultimately show ?thesis
    using tb.events_drive_book[where s = ?r and A = "\<lambda>_ _. []" and le = True and evs = "[Decoded demo_add]"] rel demo_safe
      demo_stream_facts(3) st
    by (auto simp: run_trades_def)
qed

lemma trades_reconstruct_witness:
  "\<exists>s evs ticks A. run_trades True demo_options demo_raw demo_stream = Some (Inr s) \<and>
     session_prefix demo_stream evs 36 \<and> abook_trace (\<lambda>_ _. []) (map msg_op (decoded_messages evs)) ticks A \<and>
     ts_records s = prints_of (decoded_messages evs) ticks"
proof -
  from demo_trades obtain s where s: "run_trades True demo_options demo_raw demo_stream = Some (Inr s)" by blast
  have o: "ro_format demo_options = ItchRaw" by (simp add: demo_options_def default_options_def)
  from trades_reconstruct[OF demo_options_ok o demo_stream_facts(3) demo_prefix_safe s] show ?thesis
    using s unfolding demo_stream_facts(2) by blast
qed

end
