(* ===== verification/DiffProps.thy ===== *)
theory DiffProps
  imports Trades
begin

text \<open>
  The trade comparison, \<open>include/mog/TradeDiff.hpp\<close>: a strict parser for the canonical rows and the
  difference of two sets of rows keyed by match number. A \<open>ParsedCsv\<close> is a finite map; the order in
  which the hash map of our rows is traversed is a parameter of \<open>trade_diff\<close>.
\<close>

section \<open>Data\<close>

record diff_row =
  dr_match_number :: u64
  dr_ours_price :: int
  dr_ref_price :: int
  dr_ours_shares :: u32
  dr_ref_shares :: u32

definition no_row :: diff_row where
  "no_row = \<lparr> dr_match_number = 0, dr_ours_price = 0, dr_ref_price = 0, dr_ours_shares = 0, dr_ref_shares = 0 \<rparr>"

record diff_report =
  df_rows_ours :: nat
  df_rows_ref :: nat
  df_matched :: nat
  df_price_mismatch :: nat
  df_shares_mismatch :: nat
  df_first_divergence :: diff_row
  df_has_divergence :: bool

definition clean :: "diff_report \<Rightarrow> bool" where
  "clean r \<longleftrightarrow> df_rows_ours r = df_rows_ref r \<and> df_rows_ref r = df_matched r \<and>
     df_price_mismatch r = 0 \<and> df_shares_mismatch r = 0"

type_synonym trade_rows = "u64 \<rightharpoonup> int \<times> u32"

section \<open>The parser\<close>

text \<open>\<open>std::from_chars\<close> over a whole field: decimal_value digits only, and a value of 64 bits.\<close>

definition decimal_digit :: "char \<Rightarrow> bool" where
  "decimal_digit c \<longleftrightarrow> (48::nat) \<le> of_char c \<and> (of_char c :: nat) \<le> 57"

definition digit_value :: "char \<Rightarrow> nat" where
  "digit_value c = of_char c - 48"

definition decimal_value :: "string \<Rightarrow> nat" where
  "decimal_value ds = foldl (\<lambda>n c. n * 10 + digit_value c) 0 ds"

definition parse_u64 :: "string \<Rightarrow> u64 option" where
  "parse_u64 field =
     (if field = [] then None
      else if \<not> list_all decimal_digit field then None
      else if decimal_value field < 2 ^ 64 then Some (of_nat (decimal_value field))
      else None)"

text \<open>The first \<open>k\<close> fields of a line; each must be followed by a comma.\<close>

fun parse_fields :: "nat \<Rightarrow> string \<Rightarrow> u64 list option" where
  "parse_fields 0 line = Some []"
| "parse_fields (Suc k) line =
     (if CHR '','' \<notin> set line then None
      else do {
        v \<leftarrow> parse_u64 (takeWhile (\<lambda>c. c \<noteq> CHR '','') line);
        vs \<leftarrow> parse_fields k (tl (dropWhile (\<lambda>c. c \<noteq> CHR '','') line));
        Some (v # vs)
      })"

text \<open>One line: a carriage return at its end is dropped; the first line that is not empty is the header.\<close>

definition newline :: char where "newline = CHR 0x0A"
definition carriage_return :: char where "carriage_return = CHR 0x0D"

definition strip_return :: "string \<Rightarrow> string" where
  "strip_return line = (if line \<noteq> [] \<and> last line = carriage_return then butlast line else line)"

definition parse_line :: "string \<Rightarrow> bool \<times> trade_rows \<Rightarrow> (bool \<times> trade_rows) option" where
  "parse_line text = (\<lambda>(first, out).
     (let line = strip_return text
      in if line = [] then Some (first, out)
         else if first then (if line \<noteq> csv_header then None else Some (False, out))
         else do {
           nums \<leftarrow> parse_fields 5 line;
           Some (first, out(nums ! 0 \<mapsto> (sint (nums ! 3), ucast (nums ! 4))))
         }))"

text \<open>Rows read before a bad line stay in the output.\<close>

function parse_lines :: "string \<Rightarrow> bool \<times> trade_rows \<Rightarrow> bool \<times> trade_rows" where
  "parse_lines text st =
     (let line = takeWhile (\<lambda>c. c \<noteq> newline) text;
          rest = dropWhile (\<lambda>c. c \<noteq> newline) text
      in case parse_line line st of
           None \<Rightarrow> (False, snd st)
         | Some (first, out) \<Rightarrow> if rest = [] then (\<not> first, out) else parse_lines (tl rest) (first, out))"
  by pat_completeness auto
termination
proof (relation "measure (\<lambda>(text, _). length text)", simp, goal_cases)
  case (1 input st line rest p first out)
  then have "length rest \<le> length input" "0 < length rest" by (auto simp: length_dropWhile_le)
  then have "length rest - 1 < length input" by linarith
  then show ?case by simp
qed

declare parse_lines.simps [simp del]

definition parse_canonical_csv :: "string \<Rightarrow> trade_rows \<Rightarrow> bool \<times> trade_rows" where
  "parse_canonical_csv text out = parse_lines text (True, out)"

section \<open>The comparison\<close>

definition diff_entry :: "trade_rows \<Rightarrow> trade_rows \<Rightarrow> diff_report \<Rightarrow> u64 \<Rightarrow> diff_report" where
  "diff_entry ours ref r k =
     (case (ours k, ref k) of
        (Some (price, shares), Some (ref_price, ref_shares)) \<Rightarrow>
          let r = r\<lparr> df_matched := df_matched r + 1 \<rparr>;
              price_ok = (price = ref_price);
              shares_ok = (shares = ref_shares);
              r = (if \<not> price_ok then r\<lparr> df_price_mismatch := df_price_mismatch r + 1 \<rparr> else r);
              r = (if \<not> shares_ok then r\<lparr> df_shares_mismatch := df_shares_mismatch r + 1 \<rparr> else r)
          in if (\<not> price_ok \<or> \<not> shares_ok) \<and> \<not> df_has_divergence r
             then r\<lparr> df_has_divergence := True,
                     df_first_divergence := \<lparr> dr_match_number = k, dr_ours_price = price, dr_ref_price = ref_price,
                       dr_ours_shares = shares, dr_ref_shares = ref_shares \<rparr> \<rparr>
             else r
      | _ \<Rightarrow> r)"

text \<open>\<open>order\<close> enumerates the keys of \<open>ours\<close>.\<close>

definition trade_diff :: "trade_rows \<Rightarrow> trade_rows \<Rightarrow> u64 list \<Rightarrow> diff_report" where
  "trade_diff ours ref order =
     foldl (diff_entry ours ref)
       \<lparr> df_rows_ours = card (dom ours), df_rows_ref = card (dom ref), df_matched = 0, df_price_mismatch = 0,
         df_shares_mismatch = 0, df_first_divergence = no_row, df_has_divergence = False \<rparr> order"

section \<open>The command\<close>

text \<open>The file that the command writes, and the rows of the records it compares with a reference.\<close>

definition trades_csv :: "print list \<Rightarrow> string" where
  "trades_csv ps = csv_header @ [newline] @ concat (map (\<lambda>p. print_csv p @ [newline]) ps)"

definition record_rows :: "print list \<Rightarrow> trade_rows" where
  "record_rows ps = foldl (\<lambda>m p. m(pr_match_number p \<mapsto> (pr_price_ticks p, pr_shares p))) Map.empty ps"

text \<open>
  The comparison is exact, and the canonical rows are read back as they were written when no price is negative.
\<close>

section \<open>The comparison\<close>

definition price_differs :: "trade_rows \<Rightarrow> trade_rows \<Rightarrow> u64 \<Rightarrow> bool" where
  "price_differs ours ref k \<longleftrightarrow> k \<in> dom ours \<and> k \<in> dom ref \<and> fst (the (ours k)) \<noteq> fst (the (ref k))"

definition shares_differ :: "trade_rows \<Rightarrow> trade_rows \<Rightarrow> u64 \<Rightarrow> bool" where
  "shares_differ ours ref k \<longleftrightarrow> k \<in> dom ours \<and> k \<in> dom ref \<and> snd (the (ours k)) \<noteq> snd (the (ref k))"

definition row_pair :: "trade_rows \<Rightarrow> trade_rows \<Rightarrow> u64 \<Rightarrow> diff_row" where
  "row_pair ours ref k = \<lparr> dr_match_number = k, dr_ours_price = fst (the (ours k)), dr_ref_price = fst (the (ref k)),
     dr_ours_shares = snd (the (ours k)), dr_ref_shares = snd (the (ref k)) \<rparr>"

lemma diff_entry_fields:
  "df_rows_ours (diff_entry ours ref r k) = df_rows_ours r"
  "df_rows_ref (diff_entry ours ref r k) = df_rows_ref r"
  "df_matched (diff_entry ours ref r k) = df_matched r + (if k \<in> dom ours \<inter> dom ref then 1 else 0)"
  "df_price_mismatch (diff_entry ours ref r k) = df_price_mismatch r + (if price_differs ours ref k then 1 else 0)"
  "df_shares_mismatch (diff_entry ours ref r k) = df_shares_mismatch r + (if shares_differ ours ref k then 1 else 0)"
  "df_has_divergence (diff_entry ours ref r k) \<longleftrightarrow> df_has_divergence r \<or> price_differs ours ref k \<or> shares_differ ours ref k"
  "df_first_divergence (diff_entry ours ref r k) =
     (if \<not> df_has_divergence r \<and> (price_differs ours ref k \<or> shares_differ ours ref k)
      then row_pair ours ref k else df_first_divergence r)"
  by (cases "ours k"; cases "ref k"; auto simp: diff_entry_def price_differs_def shares_differ_def row_pair_def Let_def)+

lemma diff_entries:
  "let r' = foldl (diff_entry ours ref) r ks
   in df_rows_ours r' = df_rows_ours r \<and> df_rows_ref r' = df_rows_ref r \<and>
      df_matched r' = df_matched r + length (filter (\<lambda>k. k \<in> dom ours \<inter> dom ref) ks) \<and>
      df_price_mismatch r' = df_price_mismatch r + length (filter (price_differs ours ref) ks) \<and>
      df_shares_mismatch r' = df_shares_mismatch r + length (filter (shares_differ ours ref) ks) \<and>
      (case find (\<lambda>k. price_differs ours ref k \<or> shares_differ ours ref k) ks of
         None \<Rightarrow> df_has_divergence r' = df_has_divergence r \<and> df_first_divergence r' = df_first_divergence r
       | Some k \<Rightarrow> df_has_divergence r' \<and>
           df_first_divergence r' = (if df_has_divergence r then df_first_divergence r else row_pair ours ref k))"
proof (induction ks arbitrary: r)
  case Nil
  then show ?case by simp
next
  case (Cons k ks)
  from Cons.IH[of "diff_entry ours ref r k"] show ?case
    unfolding Let_def diff_entry_fields by (auto simp: diff_entry_fields split: option.splits)
qed

text \<open>The comparison of two sets of rows counts exactly the match numbers both have and those whose
  price or shares differ, whatever the order in which the hash map is traversed, and shows the first
  differing row of that order; it is clean exactly when the two sets of rows are the same.\<close>

theorem trade_diff_exact:
  assumes "distinct order" and "set order = dom ours" and "finite (dom ref)"
  shows "let r = trade_diff ours ref order
     in df_rows_ours r = card (dom ours) \<and> df_rows_ref r = card (dom ref) \<and>
        df_matched r = card (dom ours \<inter> dom ref) \<and>
        df_price_mismatch r = card {k. price_differs ours ref k} \<and>
        df_shares_mismatch r = card {k. shares_differ ours ref k} \<and>
        (df_has_divergence r \<longleftrightarrow> (\<exists>k. price_differs ours ref k \<or> shares_differ ours ref k)) \<and>
        (df_has_divergence r \<longrightarrow> (\<exists>k. (price_differs ours ref k \<or> shares_differ ours ref k) \<and>
           df_first_divergence r = row_pair ours ref k)) \<and>
        (clean r \<longleftrightarrow> ours = ref)"
proof -
  let ?r = "trade_diff ours ref order"
  have fin: "finite (dom ours)" using assms(2) finite_set[of order] by simp
  have counted: "length (filter P order) = card {k. P k}" if "\<And>k. P k \<Longrightarrow> k \<in> dom ours" for P
  proof -
    have "set (filter P order) = {k. P k}" using that assms(2) by auto
    then show ?thesis using distinct_card[of "filter P order"] assms(1) by simp
  qed
  note e = diff_entries[of ours ref "\<lparr> df_rows_ours = card (dom ours), df_rows_ref = card (dom ref), df_matched = 0,
    df_price_mismatch = 0, df_shares_mismatch = 0, df_first_divergence = no_row, df_has_divergence = False \<rparr>" order,
    folded trade_diff_def]
  have m: "df_matched ?r = card (dom ours \<inter> dom ref)"
    "df_price_mismatch ?r = card {k. price_differs ours ref k}"
    "df_shares_mismatch ?r = card {k. shares_differ ours ref k}"
    using e counted[of "\<lambda>k. k \<in> dom ours \<inter> dom ref"] counted[of "price_differs ours ref"] counted[of "shares_differ ours ref"]
    by (simp_all add: Let_def price_differs_def shares_differ_def Int_def)
  have rows: "df_rows_ours ?r = card (dom ours)" "df_rows_ref ?r = card (dom ref)" using e by (simp_all add: Let_def)
  have dv: "df_has_divergence ?r \<longleftrightarrow> (\<exists>k. price_differs ours ref k \<or> shares_differ ours ref k)"
    "df_has_divergence ?r \<longrightarrow> (\<exists>k. (price_differs ours ref k \<or> shares_differ ours ref k) \<and> df_first_divergence ?r = row_pair ours ref k)"
  proof -
    let ?P = "\<lambda>k. price_differs ours ref k \<or> shares_differ ours ref k"
    have dom: "?P k \<Longrightarrow> k \<in> set order" for k using assms(2) by (auto simp: price_differs_def shares_differ_def)
    have "(df_has_divergence ?r \<longleftrightarrow> (\<exists>k. ?P k)) \<and> (df_has_divergence ?r \<longrightarrow> (\<exists>k. ?P k \<and> df_first_divergence ?r = row_pair ours ref k))"
    proof (cases "find ?P order")
      case None
      then have "\<not> (\<exists>k. ?P k)" using dom by (metis find_None_iff)
      moreover have "\<not> df_has_divergence ?r" using e None by (simp add: Let_def)
      ultimately show ?thesis by blast
    next
      case (Some k)
      then have "?P k" by (metis find_Some_iff)
      moreover have "df_has_divergence ?r" "df_first_divergence ?r = row_pair ours ref k" using e Some by (simp_all add: Let_def)
      ultimately show ?thesis by blast
    qed
    then show "df_has_divergence ?r \<longleftrightarrow> (\<exists>k. ?P k)"
      "df_has_divergence ?r \<longrightarrow> (\<exists>k. ?P k \<and> df_first_divergence ?r = row_pair ours ref k)" by blast+
  qed
  have fins: "finite {k. price_differs ours ref k}" "finite {k. shares_differ ours ref k}"
    by (rule finite_subset[OF _ fin]; auto simp: price_differs_def shares_differ_def)+
  have "clean ?r \<longleftrightarrow> ours = ref"
  proof
    assume c: "clean ?r"
    then have "card (dom ours) = card (dom ref)" "card (dom ref) = card (dom ours \<inter> dom ref)"
      and none: "\<And>k. \<not> price_differs ours ref k" "\<And>k. \<not> shares_differ ours ref k"
      using fins by (auto simp: clean_def rows m)
    then have "card (dom ours \<inter> dom ref) = card (dom ours)" "card (dom ours \<inter> dom ref) = card (dom ref)" by simp_all
    with card_subset_eq[OF fin Int_lower1] card_subset_eq[OF assms(3) Int_lower2]
    have d: "dom ours = dom ref" by metis
    show "ours = ref"
    proof
      fix k
      have iff: "ours k = None \<longleftrightarrow> ref k = None" using d by (metis domIff)
      show "ours k = ref k"
        using none[of k] iff
        by (cases "ours k"; cases "ref k") (simp_all add: price_differs_def shares_differ_def prod_eq_iff domIff)
    qed
  next
    assume eq: "ours = ref"
    then have "{k. price_differs ours ref k} = {}" "{k. shares_differ ours ref k} = {}"
      by (auto simp: price_differs_def shares_differ_def)
    then show "clean ?r" unfolding clean_def rows m using eq by simp
  qed
  then show ?thesis unfolding Let_def using rows m dv by blast
qed

lemma trade_diff_exact_witness:
  "clean (trade_diff [5 \<mapsto> (100, 7)] [5 \<mapsto> (100, 7)] [5]) \<and>
   df_price_mismatch (trade_diff [5 \<mapsto> (100, 7)] [5 \<mapsto> (101, 7)] [5]) = card {k. price_differs [5 \<mapsto> (100, 7)] [5 \<mapsto> (101, 7)] k}"
proof -
  have d: "distinct [5::u64]" "\<And>v. set [5] = dom [5::u64 \<mapsto> v]" "\<And>v. finite (dom [5::u64 \<mapsto> v])" by simp_all
  from trade_diff_exact[OF d(1,2,3)] show ?thesis unfolding Let_def by blast
qed

section \<open>The rows are read back\<close>

lemma decimal_value_append: "decimal_value (xs @ [c]) = decimal_value xs * 10 + digit_value c"
  by (simp add: decimal_value_def)

lemma digit_char: "k < 10 \<Longrightarrow> digit_value (char_of (48 + k)) = k" "k < 10 \<Longrightarrow> decimal_digit (char_of (48 + k))"
  by (simp_all add: digit_value_def decimal_digit_def of_char_of)

lemma digits_read: "digits n \<noteq> [] \<and> list_all decimal_digit (digits n) \<and> decimal_value (digits n) = n"
proof (induction n rule: digits.induct)
  case (1 n)
  show ?case
  proof (cases "n < 10")
    case True
    then show ?thesis using digit_char[of n] by (subst (1 2 3) digits.simps) (simp add: decimal_value_def)
  next
    case False
    have "digits n = digits (n div 10) @ [char_of (48 + n mod 10)]" using False by (subst digits.simps) simp
    then show ?thesis using 1[OF False] digit_char[of "n mod 10"] by (simp add: decimal_value_append)
  qed
qed

lemma parse_u64_digits: "n < 2 ^ 64 \<Longrightarrow> parse_u64 (digits n) = Some (of_nat n)"
  using digits_read[of n] by (simp add: parse_u64_def)

lemma parse_u64_negative: "parse_u64 (CHR ''-'' # ds) = None"
  by (simp add: parse_u64_def decimal_digit_def)

lemma digits_plain: "c \<in> set (digits n) \<Longrightarrow> decimal_digit c"
  using digits_read[of n] by (simp add: list_all_iff)

lemma digits_no_comma: "CHR '','' \<notin> set (digits n)"
  using digits_plain[of "CHR '',''" n] by (auto simp: decimal_digit_def)

lemma field_then_comma:
  assumes "CHR '','' \<notin> set f"
  shows "takeWhile (\<lambda>c. c \<noteq> CHR '','') (f @ CHR '','' # r) = f"
    and "dropWhile (\<lambda>c. c \<noteq> CHR '','') (f @ CHR '','' # r) = CHR '','' # r"
  using assms by (induction f) auto

lemma parse_fields_digits:
  "n < 2 ^ 64 \<Longrightarrow> parse_fields (Suc k) (digits n @ CHR '','' # r) = map_option (Cons (of_nat n)) (parse_fields k r)"
  by (simp add: field_then_comma[OF digits_no_comma] parse_u64_digits)
    (simp add: map_option_case split: option.splits)

text \<open>A print whose price is that of a signed 64-bit integer.\<close>

definition print_wf :: "print \<Rightarrow> bool" where
  "print_wf p \<longleftrightarrow> - (2 ^ 63) \<le> pr_price_ticks p \<and> pr_price_ticks p < 2 ^ 63"

lemma sint_price: "0 \<le> i \<Longrightarrow> i < 2 ^ 63 \<Longrightarrow> sint (of_nat (nat i) :: u64) = i"
  by (simp add: sint_sbintrunc' signed_take_bit_int_eq_self)

lemma unat_parsed:
  "parse_fields (Suc k) (digits (unat (x :: u64)) @ CHR '','' # r) = map_option (Cons x) (parse_fields k r)"
  "parse_fields (Suc k) (digits (unat (y :: u32)) @ CHR '','' # r) = map_option (Cons (ucast y)) (parse_fields k r)"
proof -
  have "unat x < 2 ^ 64" using unsigned_less[of x, where 'a = nat] by simp
  then show "parse_fields (Suc k) (digits (unat x) @ CHR '','' # r) = map_option (Cons x) (parse_fields k r)"
    by (subst parse_fields_digits) simp_all
  have "unat y < 2 ^ 32" using unsigned_less[of y, where 'a = nat] by simp
  then show "parse_fields (Suc k) (digits (unat y) @ CHR '','' # r) = map_option (Cons (ucast y)) (parse_fields k r)"
    by (subst parse_fields_digits) simp_all
qed

lemma negative_field: "parse_fields (Suc k) (CHR ''-'' # digits n @ CHR '','' # r) = None"
proof -
  have "CHR '','' \<notin> set (CHR ''-'' # digits n)" using digits_no_comma[of n] by simp
  from field_then_comma[OF this, of r] show ?thesis by (simp add: parse_u64_negative)
qed

lemma parse_print_fields:
  assumes "print_wf p"
  shows "parse_fields 5 (print_csv p) =
     (if pr_price_ticks p < 0 then None
      else Some [pr_match_number p, ucast (pr_locate p), pr_ts_ns p, of_nat (nat (pr_price_ticks p)), ucast (pr_shares p)])"
proof -
  have n: "5 = Suc (Suc (Suc (Suc (Suc 0))))" by simp
  show ?thesis
  proof (cases "pr_price_ticks p < 0")
    case True
    then show ?thesis by (simp add: n print_csv_def unat_parsed negative_field signed_digits_def del: parse_fields.simps(2))
  next
    case False
    then have "nat (pr_price_ticks p) < 2 ^ 64" using assms by (simp add: print_wf_def)
    from parse_fields_digits[OF this] False show ?thesis
      by (simp add: n print_csv_def unat_parsed signed_digits_def del: parse_fields.simps(2))
  qed
qed

lemma print_csv_line: "newline \<notin> set (print_csv p)" "print_csv p \<noteq> []" "strip_return (print_csv p) = print_csv p"
proof -
  have d: "newline \<notin> set (digits n)" for n using digits_plain[of newline n] by (auto simp: decimal_digit_def newline_def)
  show "newline \<notin> set (print_csv p)"
    using d by (simp add: print_csv_def signed_digits_def flag_char_def newline_def)
  show "print_csv p \<noteq> []" by (simp add: print_csv_def)
  show "strip_return (print_csv p) = print_csv p"
    by (simp add: strip_return_def print_csv_def flag_char_def carriage_return_def)
qed

lemma parse_print_line:
  assumes "print_wf p"
  shows "parse_line (print_csv p) (False, out) =
     (if pr_price_ticks p < 0 then None else Some (False, out(pr_match_number p \<mapsto> (pr_price_ticks p, pr_shares p))))"
proof -
  have narrow: "ucast (ucast y :: u64) = y" for y :: u32 by transfer simp
  then show ?thesis
    using assms sint_price[of "pr_price_ticks p"]
    by (simp add: parse_line_def print_csv_line parse_print_fields print_wf_def narrow Let_def)
qed

lemma line_then_newline:
  assumes "newline \<notin> set l"
  shows "takeWhile (\<lambda>c. c \<noteq> newline) (l @ newline # r) = l" "dropWhile (\<lambda>c. c \<noteq> newline) (l @ newline # r) = newline # r"
  using assms by (induction l) auto

lemma parse_lines_line:
  assumes "newline \<notin> set l"
  shows "parse_lines (l @ newline # r) st = (case parse_line l st of None \<Rightarrow> (False, snd st) | Some st' \<Rightarrow> parse_lines r st')"
  by (subst parse_lines.simps) (simp add: line_then_newline[OF assms] split: option.splits prod.splits)

lemma parse_lines_end: "parse_lines [] (f, out) = (\<not> f, out)"
  by (subst parse_lines.simps) (simp add: parse_line_def strip_return_def)

text \<open>The rows a list of prints leaves in a table, later match numbers over earlier ones.\<close>

definition add_rows :: "print list \<Rightarrow> trade_rows \<Rightarrow> trade_rows" where
  "add_rows ps out = foldl (\<lambda>m p. m(pr_match_number p \<mapsto> (pr_price_ticks p, pr_shares p))) out ps"

lemma parse_print_lines:
  assumes "\<forall>p \<in> set ps. print_wf p"
  shows "parse_lines (concat (map (\<lambda>p. print_csv p @ [newline]) ps)) (False, out) =
     (list_all (\<lambda>p. 0 \<le> pr_price_ticks p) ps, add_rows (takeWhile (\<lambda>p. 0 \<le> pr_price_ticks p) ps) out)"
  using assms
proof (induction ps arbitrary: out)
  case Nil
  then show ?case by (simp add: parse_lines_end add_rows_def)
next
  case (Cons p ps)
  have "print_wf p" using Cons.prems by simp
  from parse_print_line[OF this] Cons show ?case
    by (simp add: parse_lines_line[OF print_csv_line(1)] add_rows_def)
qed

lemma header_line: "newline \<notin> set csv_header" "strip_return csv_header = csv_header" "csv_header \<noteq> []"
  by (simp_all add: csv_header_def newline_def strip_return_def carriage_return_def)

text \<open>C35: The file of canonical rows is read back as the rows of the records, the last record of a match number
  over earlier ones, provided no price is negative; at the first negative price the parser refuses
  the file, keeping the rows before it.\<close>

theorem csv_read_back:
  assumes "\<forall>p \<in> set ps. print_wf p"
  shows "parse_canonical_csv (trades_csv ps) Map.empty =
     (list_all (\<lambda>p. 0 \<le> pr_price_ticks p) ps, record_rows (takeWhile (\<lambda>p. 0 \<le> pr_price_ticks p) ps))"
proof -
  have "parse_line csv_header (True, Map.empty) = Some (False, Map.empty)"
    by (simp add: parse_line_def header_line)
  then show ?thesis
    using parse_print_lines[OF assms]
    by (simp add: parse_canonical_csv_def trades_csv_def parse_lines_line[OF header_line(1)] record_rows_def add_rows_def)
qed

definition demo_print :: "int \<Rightarrow> print" where
  "demo_print price = \<lparr> pr_match_number = 5, pr_locate = 1, pr_ts_ns = 9, pr_price_ticks = price, pr_shares = 7,
     pr_printable = True, pr_from_execute_with_price = False \<rparr>"

lemma csv_read_back_witness:
  "parse_canonical_csv (trades_csv [demo_print 100]) Map.empty = (True, [5 \<mapsto> (100, 7)]) \<and>
   parse_canonical_csv (trades_csv [demo_print 100, demo_print (- 1)]) Map.empty = (False, [5 \<mapsto> (100, 7)])"
proof -
  have w: "\<forall>p \<in> set [demo_print 100]. print_wf p" "\<forall>p \<in> set [demo_print 100, demo_print (- 1)]. print_wf p"
    by (simp_all add: print_wf_def demo_print_def)
  show ?thesis
    using csv_read_back[OF w(1)] csv_read_back[OF w(2)] by (simp add: demo_print_def record_rows_def)
qed

end
