(* ===== verification/Digests.thy ===== *)
theory Digests
  imports Wire
begin

text \<open>
  The determinism digests: \<open>include/mog/Sha256.hpp\<close> and \<open>include/mog/FastDigest.hpp\<close>, streaming
  engines with a block buffer. An update that would not return is \<open>None\<close>.
\<close>

section \<open>SHA-256\<close>

record sha256 =
  sh_h :: "u32 list"
  sh_buf :: "byte list"
  sh_buffered :: nat
  sh_total_bits :: u64

definition sha_initial :: "u32 list" where
  "sha_initial = [0x6a09e667, 0xbb67ae85, 0x3c6ef372, 0xa54ff53a, 0x510e527f, 0x9b05688c, 0x1f83d9ab, 0x5be0cd19]"

definition sha_reset :: "sha256 \<Rightarrow> sha256" where
  "sha_reset s = s\<lparr> sh_h := sha_initial, sh_buffered := 0, sh_total_bits := 0 \<rparr>"

definition sha_new :: sha256 where
  "sha_new = sha_reset \<lparr> sh_h = replicate 8 0, sh_buf = replicate 64 0, sh_buffered = 0, sh_total_bits = 0 \<rparr>"

definition rotr :: "u32 \<Rightarrow> nat \<Rightarrow> u32" where
  "rotr x n = drop_bit n x OR push_bit (32 - n) x"

text \<open>The round constants, in decimal.\<close>

definition kK :: "u32 list" where
  "kK = [1116352408, 1899447441, 3049323471, 3921009573, 961987163, 1508970993, 2453635748, 2870763221,
     3624381080, 310598401, 607225278, 1426881987, 1925078388, 2162078206, 2614888103, 3248222580,
     3835390401, 4022224774, 264347078, 604807628, 770255983, 1249150122, 1555081692, 1996064986,
     2554220882, 2821834349, 2952996808, 3210313671, 3336571891, 3584528711, 113926993, 338241895,
     666307205, 773529912, 1294757372, 1396182291, 1695183700, 1986661051, 2177026350, 2456956037,
     2730485921, 2820302411, 3259730800, 3345764771, 3516065817, 3600352804, 4094571909, 275423344,
     430227734, 506948616, 659060556, 883997877, 958139571, 1322822218, 1537002063, 1747873779,
     1955562222, 2024104815, 2227730452, 2361852424, 2428436474, 2756734187, 3204031479, 3329325298]"

definition sha_word :: "byte list \<Rightarrow> nat \<Rightarrow> u32" where
  "sha_word block i = push_bit 24 (ucast (block ! (4 * i))) OR push_bit 16 (ucast (block ! (4 * i + 1))) OR
     push_bit 8 (ucast (block ! (4 * i + 2))) OR ucast (block ! (4 * i + 3))"

definition sha_extend :: "u32 list \<Rightarrow> nat \<Rightarrow> u32 list" where
  "sha_extend w i =
     (let s0 = rotr (w ! (i - 15)) 7 XOR rotr (w ! (i - 15)) 18 XOR drop_bit 3 (w ! (i - 15));
          s1 = rotr (w ! (i - 2)) 17 XOR rotr (w ! (i - 2)) 19 XOR drop_bit 10 (w ! (i - 2))
      in w @ [w ! (i - 16) + s0 + w ! (i - 7) + s1])"

definition sha_schedule :: "byte list \<Rightarrow> u32 list" where
  "sha_schedule block = foldl sha_extend (map (sha_word block) [0..<16]) [16..<64]"

type_synonym sha_vars = "u32 \<times> u32 \<times> u32 \<times> u32 \<times> u32 \<times> u32 \<times> u32 \<times> u32"

definition sha_round :: "u32 list \<Rightarrow> sha_vars \<Rightarrow> nat \<Rightarrow> sha_vars" where
  "sha_round w = (\<lambda>(a, b, c, d, e, f, g, hh) i.
     (let s1 = rotr e 6 XOR rotr e 11 XOR rotr e 25;
          ch = (e AND f) XOR (NOT e AND g);
          t1 = hh + s1 + ch + kK ! i + w ! i;
          s0 = rotr a 2 XOR rotr a 13 XOR rotr a 22;
          maj = (a AND b) XOR (a AND c) XOR (b AND c);
          t2 = s0 + maj
      in (t1 + t2, a, b, c, d + t1, e, f, g)))"

definition sha_compress :: "u32 list \<Rightarrow> byte list \<Rightarrow> u32 list" where
  "sha_compress h block =
     (let w = sha_schedule block;
          (a, b, c, d, e, f, g, hh) =
            foldl (sha_round w) (h ! 0, h ! 1, h ! 2, h ! 3, h ! 4, h ! 5, h ! 6, h ! 7) [0..<64]
      in [h ! 0 + a, h ! 1 + b, h ! 2 + c, h ! 3 + d, h ! 4 + e, h ! 5 + f, h ! 6 + g, h ! 7 + hh])"

text \<open>\<open>std::memcpy\<close> into a buffer at an offset.\<close>

definition copy_at :: "nat \<Rightarrow> byte list \<Rightarrow> byte list \<Rightarrow> byte list" where
  "copy_at off p buf = take off buf @ p @ drop (off + length p) buf"

partial_function (option) sha_absorb_loop :: "sha256 \<Rightarrow> byte list \<Rightarrow> sha256 option" where
  [code]: "sha_absorb_loop s p =
     (if p = [] then Some s
      else let n = (if 64 - sh_buffered s < length p then 64 - sh_buffered s else length p);
               s = s\<lparr> sh_buf := copy_at (sh_buffered s) (take n p) (sh_buf s), sh_buffered := sh_buffered s + n \<rparr>;
               s = (if sh_buffered s = 64
                    then s\<lparr> sh_h := sha_compress (sh_h s) (sh_buf s), sh_buffered := 0 \<rparr> else s)
           in sha_absorb_loop s (drop n p))"

definition sha_update :: "byte list \<Rightarrow> sha256 \<Rightarrow> sha256 option" where
  "sha_update p s = sha_absorb_loop (s\<lparr> sh_total_bits := sh_total_bits s + of_nat (length p) * 8 \<rparr>) p"

partial_function (option) sha_pad_loop :: "sha256 \<Rightarrow> sha256 option" where
  [code]: "sha_pad_loop s =
     (if sh_buffered s = 56 then Some s else Option.bind (sha_update [0] s) sha_pad_loop)"

definition sha_bytes :: "u32 list \<Rightarrow> byte list" where
  "sha_bytes h = concat (map (\<lambda>i. [ucast (drop_bit 24 (h ! i)), ucast (drop_bit 16 (h ! i)),
     ucast (drop_bit 8 (h ! i)), ucast (h ! i)]) [0..<8])"

definition sha_finish :: "sha256 \<Rightarrow> (byte list \<times> sha256) option" where
  "sha_finish s =
     (let bits = sh_total_bits s
      in do {
        s \<leftarrow> sha_update [0x80] s;
        s \<leftarrow> sha_pad_loop s;
        let tail = map (\<lambda>i. ucast (drop_bit (56 - 8 * i) bits)) [0..<8];
        let s = s\<lparr> sh_buf := copy_at 56 tail (sh_buf s) \<rparr>;
        let s = s\<lparr> sh_h := sha_compress (sh_h s) (sh_buf s), sh_buffered := 0 \<rparr>;
        Some (sha_bytes (sh_h s), s)
      })"

definition kDigits :: string where
  "kDigits = ''0123456789abcdef''"

definition digest_hex :: "byte list \<Rightarrow> string" where
  "digest_hex d = concat (map (\<lambda>b. [kDigits ! unat (drop_bit 4 b), kDigits ! unat (b AND 0xF)]) d)"

section \<open>The fast digest\<close>

definition kPrime0 :: u64 where "kPrime0 = 0x9e3779b97f4a7c15"
definition kPrime1 :: u64 where "kPrime1 = 0xbf58476d1ce4e5b9"
definition kPrime2 :: u64 where "kPrime2 = 0x94d049bb133111eb"
definition kPrime3 :: u64 where "kPrime3 = 0xd6e8feb86659fd93"

record fast_digest =
  fd_h0 :: u64
  fd_h1 :: u64
  fd_total_bytes :: u64
  fd_buffered :: nat
  fd_buf :: "byte list"

definition fast_reset :: "fast_digest \<Rightarrow> fast_digest" where
  "fast_reset s = s\<lparr> fd_h0 := kPrime0, fd_h1 := kPrime1, fd_total_bytes := 0, fd_buffered := 0 \<rparr>"

definition fast_new :: fast_digest where
  "fast_new = fast_reset \<lparr> fd_h0 = kPrime0, fd_h1 = kPrime1, fd_total_bytes = 0, fd_buffered = 0, fd_buf = replicate 16 0 \<rparr>"

text \<open>The words are read from memory in the byte order of the host.\<close>

definition fast_mix :: "bool \<Rightarrow> byte list \<Rightarrow> u64 \<times> u64 \<Rightarrow> u64 \<times> u64" where
  "fast_mix le block = (\<lambda>(h0, h1).
     (let w0 = mem_load le (take 8 block);
          w1 = mem_load le (take 8 (drop 8 block))
      in (word_rotl 31 (h0 + w0 * kPrime0) * kPrime2, word_rotl 27 (h1 + w1 * kPrime1) * kPrime3)))"

definition mix_block :: "bool \<Rightarrow> byte list \<Rightarrow> fast_digest \<Rightarrow> fast_digest" where
  "mix_block le block s =
     (let (h0, h1) = fast_mix le block (fd_h0 s, fd_h1 s) in s\<lparr> fd_h0 := h0, fd_h1 := h1 \<rparr>)"

function mix_blocks :: "bool \<Rightarrow> byte list \<Rightarrow> fast_digest \<Rightarrow> byte list \<times> fast_digest" where
  "mix_blocks le p s =
     (if 16 \<le> length p then mix_blocks le (drop 16 p) (mix_block le (take 16 p) s) else (p, s))"
  by pat_completeness auto
termination
  by (relation "measure (\<lambda>(_, p, _). length p)") auto

declare mix_blocks.simps [simp del]

definition fast_update :: "bool \<Rightarrow> byte list \<Rightarrow> fast_digest \<Rightarrow> fast_digest" where
  "fast_update le p s =
     (let s = s\<lparr> fd_total_bytes := fd_total_bytes s + of_nat (length p) \<rparr>;
          (p, s) =
            (if fd_buffered s > 0
             then let need = 16 - fd_buffered s;
                      n = (if length p < need then length p else need);
                      s = s\<lparr> fd_buf := copy_at (fd_buffered s) (take n p) (fd_buf s), fd_buffered := fd_buffered s + n \<rparr>;
                      s = (if fd_buffered s = 16 then (mix_block le (fd_buf s) s)\<lparr> fd_buffered := 0 \<rparr> else s)
                  in (drop n p, s)
             else (p, s));
          (p, s) = mix_blocks le p s
      in if length p > 0
         then s\<lparr> fd_buf := copy_at (fd_buffered s) p (fd_buf s), fd_buffered := fd_buffered s + length p \<rparr>
         else s)"

definition fast_avalanche :: "bool \<Rightarrow> u64 \<Rightarrow> u64 \<times> u64 \<Rightarrow> byte list" where
  "fast_avalanche le total_bytes = (\<lambda>(f0, f1).
     (let f0 = f0 XOR total_bytes * kPrime0;
          f1 = f1 XOR total_bytes * kPrime1;
          f0 = f0 XOR f1;
          f0 = f0 * kPrime2;
          f0 = f0 XOR drop_bit 33 f0;
          f1 = f1 XOR f0;
          f1 = f1 * kPrime1;
          f1 = f1 XOR drop_bit 33 f1
      in mem_bytes le 8 f0 @ mem_bytes le 8 f1))"

definition fast_finish :: "bool \<Rightarrow> fast_digest \<Rightarrow> byte list" where
  "fast_finish le s =
     fast_avalanche le (fd_total_bytes s)
       (if fd_buffered s > 0
        then let tail = copy_at 0 (take (fd_buffered s) (fd_buf s)) (replicate 16 0);
                 tail = tail[fd_buffered s := 0x80]
             in fast_mix le tail (fd_h0 s, fd_h1 s)
        else (fd_h0 s, fd_h1 s))"

section \<open>The two tiers\<close>

datatype digest_mode = GoldenDigest | FastDigest

record determinism_digest =
  dd_mode :: digest_mode
  dd_sha :: sha256
  dd_fast :: fast_digest

definition digest_reset :: "determinism_digest \<Rightarrow> determinism_digest" where
  "digest_reset d = (case dd_mode d of
     GoldenDigest \<Rightarrow> d\<lparr> dd_sha := sha_reset (dd_sha d) \<rparr>
   | FastDigest \<Rightarrow> d\<lparr> dd_fast := fast_reset (dd_fast d) \<rparr>)"

definition digest_new :: "digest_mode \<Rightarrow> determinism_digest" where
  "digest_new mode = digest_reset \<lparr> dd_mode = mode, dd_sha = sha_new, dd_fast = fast_new \<rparr>"

definition digest_update :: "bool \<Rightarrow> byte list \<Rightarrow> determinism_digest \<Rightarrow> determinism_digest option" where
  "digest_update le p d = (case dd_mode d of
     GoldenDigest \<Rightarrow> map_option (\<lambda>s. d\<lparr> dd_sha := s \<rparr>) (sha_update p (dd_sha d))
   | FastDigest \<Rightarrow> Some (d\<lparr> dd_fast := fast_update le p (dd_fast d) \<rparr>))"

definition finish_sha256 :: "determinism_digest \<Rightarrow> byte list option" where
  "finish_sha256 d = map_option fst (sha_finish (dd_sha d))"

definition finish_fast128 :: "bool \<Rightarrow> determinism_digest \<Rightarrow> byte list" where
  "finish_fast128 le d = fast_finish le (dd_fast d)"

text \<open>
  The streaming engines compute functions of the concatenated input: how it was cut into updates does not
  matter, and the golden digest is SHA-256 of FIPS 180-4.
\<close>

section \<open>Blocks\<close>

definition blocks :: "nat \<Rightarrow> byte list \<Rightarrow> byte list list" where
  "blocks n m = map (\<lambda>i. take n (drop (n * i) m)) [0..<length m div n]"

definition residue :: "nat \<Rightarrow> byte list \<Rightarrow> byte list" where
  "residue n m = drop (n * (length m div n)) m"

lemma length_residue [simp]: "length (residue n m) = length m mod n"
  by (simp add: residue_def minus_mult_div_eq_mod)

lemma residue_Nil [simp]: "residue n [] = []" "blocks n [] = []"
  by (simp_all add: residue_def blocks_def)

lemma blocks_prefix:
  assumes "i < length m div n"
  shows "take n (drop (n * i) (m @ p)) = take n (drop (n * i) m)"
proof -
  have "n * i + n \<le> n * (length m div n)" using assms mult_le_mono2[of "Suc i" "length m div n" n] by simp
  also have "\<dots> \<le> length m" by simp
  finally show ?thesis by simp
qed

lemma append_short:
  assumes "0 < n" and "length m mod n + length p < n"
  shows "blocks n (m @ p) = blocks n m" and "residue n (m @ p) = residue n m @ p"
proof -
  have "length m + length p = n * (length m div n) + (length m mod n + length p)" by simp
  then have d: "(length m + length p) div n = length m div n"
    using assms by (metis div_mult_self4 div_less add.right_neutral less_not_refl2)
  have le: "n * (length m div n) \<le> length m" by simp
  show "residue n (m @ p) = residue n m @ p" using le by (simp add: residue_def d)
  show "blocks n (m @ p) = blocks n m"
    unfolding blocks_def length_append d by (rule map_cong[OF refl]) (rule blocks_prefix, simp)
qed

lemma append_full:
  assumes "0 < n" and "length m mod n + length p = n"
  shows "blocks n (m @ p) = blocks n m @ [residue n m @ p]" and "residue n (m @ p) = []"
proof -
  have "length m + length p = n * (length m div n) + n" using assms(2) by (metis add.assoc mult_div_mod_eq)
  then have len: "length m + length p = n * Suc (length m div n)" by simp
  then have d: "(length m + length p) div n = Suc (length m div n)" using assms(1) by (metis nonzero_mult_div_cancel_left less_not_refl2)
  have le: "n * (length m div n) \<le> length m" by simp
  show "residue n (m @ p) = []" unfolding residue_def length_append d by (rule drop_all) (simp only: len[symmetric] length_append order_refl)
  have "take n (drop (n * (length m div n)) (m @ p)) = residue n m @ p"
    using le assms(2) by (simp add: residue_def minus_mult_div_eq_mod)
  moreover have "map (\<lambda>i. take n (drop (n * i) (m @ p))) [0..<length m div n] = map (\<lambda>i. take n (drop (n * i) m)) [0..<length m div n]"
    by (rule map_cong[OF refl]) (rule blocks_prefix, simp)
  ultimately show "blocks n (m @ p) = blocks n m @ [residue n m @ p]"
    unfolding blocks_def length_append d upt_Suc by (simp del: take_append drop_append)
qed

lemma copy_at_buffer:
  assumes "length buf = n" and "take k buf = r" and "length r = k" and "k + length p \<le> n"
  shows "length (copy_at k p buf) = n" "take (k + length p) (copy_at k p buf) = r @ p"
  using assms by (simp_all add: copy_at_def)

section \<open>SHA-256\<close>

text \<open>The engine after the message \<open>m\<close>, but for the count of bits.\<close>

definition sha_holds :: "sha256 \<Rightarrow> byte list \<Rightarrow> bool" where
  "sha_holds s m \<longleftrightarrow> length (sh_buf s) = 64 \<and> sh_buffered s = length m mod 64 \<and>
     take (sh_buffered s) (sh_buf s) = residue 64 m \<and> sh_h s = foldl sha_compress sha_initial (blocks 64 m)"

lemma absorb_step:
  assumes "sha_holds s m" and "p \<noteq> []"
  shows "\<exists>n s'. 0 < n \<and> n \<le> length p \<and> sha_absorb_loop s p = sha_absorb_loop s' (drop n p) \<and>
     sha_holds s' (m @ take n p) \<and> sh_total_bits s' = sh_total_bits s"
proof -
  let ?k = "sh_buffered s"
  define n where "n = (if 64 - ?k < length p then 64 - ?k else length p)"
  define s1 where "s1 = s\<lparr> sh_buf := copy_at ?k (take n p) (sh_buf s), sh_buffered := ?k + n \<rparr>"
  define s2 where "s2 = (if sh_buffered s1 = 64 then s1\<lparr> sh_h := sha_compress (sh_h s1) (sh_buf s1), sh_buffered := 0 \<rparr> else s1)"
  from assms(1) have k: "?k = length m mod 64" and b: "length (sh_buf s) = 64" "take ?k (sh_buf s) = residue 64 m"
    and h: "sh_h s = foldl sha_compress sha_initial (blocks 64 m)" unfolding sha_holds_def by blast+
  have k64: "?k < 64" by (simp add: k)
  have n: "0 < n" "n \<le> length p" "?k + n \<le> 64" using k64 assms(2) by (auto simp: n_def)
  have lt: "length (take n p) = n" using n by simp
  note c = copy_at_buffer[OF b, of "take n p", unfolded lt, OF _ n(3)]
  have c1: "length (copy_at ?k (take n p) (sh_buf s)) = 64" "take (?k + n) (copy_at ?k (take n p) (sh_buf s)) = residue 64 m @ take n p"
    using c by (simp_all add: k)
  have loop: "sha_absorb_loop s p = sha_absorb_loop s2 (drop n p)"
    using assms(2) by (subst sha_absorb_loop.simps) (simp add: Let_def n_def s1_def s2_def)
  have "sha_holds s2 (m @ take n p)"
  proof (cases "?k + n = 64")
    case True
    have "length m mod 64 + length (take n p) = 64" using True lt k by simp
    note f = append_full[OF _ this, simplified]
    have mod: "(length m + n) mod 64 = 0" using True k by (metis mod_add_left_eq mod_self)
    show ?thesis using True c1 f h mod n by (simp add: sha_holds_def s2_def s1_def)
  next
    case False
    have "length m mod 64 + length (take n p) < 64" using False lt k n(3) by simp
    note f = append_short[OF _ this, simplified]
    have mod: "(length m + n) mod 64 = ?k + n" using False k n(3) by (metis mod_add_left_eq mod_less nat_less_le)
    show ?thesis using False c1 f h mod n by (simp add: sha_holds_def s2_def s1_def)
  qed
  moreover have "sh_total_bits s2 = sh_total_bits s" by (simp add: s2_def s1_def)
  ultimately show ?thesis using n loop by blast
qed

lemma absorb_loop_correct:
  assumes "sha_holds s m"
  shows "\<exists>s'. sha_absorb_loop s p = Some s' \<and> sha_holds s' (m @ p) \<and> sh_total_bits s' = sh_total_bits s"
  using assms
proof (induction "length p" arbitrary: s m p rule: less_induct)
  case less
  show ?case
  proof (cases "p = []")
    case True
    then show ?thesis using less.prems by (subst sha_absorb_loop.simps) simp
  next
    case False
    from absorb_step[OF less.prems False] obtain n s1 where
      s1: "0 < n" "n \<le> length p" "sha_absorb_loop s p = sha_absorb_loop s1 (drop n p)" "sha_holds s1 (m @ take n p)"
        "sh_total_bits s1 = sh_total_bits s" by blast
    then have "length (drop n p) < length p" by simp
    from less.hyps[OF this s1(4)] s1(3,5) show ?thesis by simp
  qed
qed

lemma sha_update_correct:
  assumes "sha_holds s m"
  shows "\<exists>s'. sha_update p s = Some s' \<and> sha_holds s' (m @ p) \<and>
     sh_total_bits s' = sh_total_bits s + of_nat (length p) * 8"
proof -
  have "sha_holds (s\<lparr> sh_total_bits := sh_total_bits s + of_nat (length p) * 8 \<rparr>) m" using assms unfolding sha_holds_def by auto
  from absorb_loop_correct[OF this, of p] show ?thesis by (simp add: sha_update_def)
qed

lemma sha_new_holds: "sha_holds sha_new []" "sh_total_bits sha_new = 0"
  by (simp_all add: sha_holds_def sha_new_def sha_reset_def)

text \<open>The zeros that fill a block up to its last eight bytes, after \<open>n\<close> bytes.\<close>

definition pad_zeros :: "nat \<Rightarrow> nat" where
  "pad_zeros n = (let r = n mod 64 in if r \<le> 56 then 56 - r else 120 - r)"

lemma pad_zeros_Suc: "n mod 64 \<noteq> 56 \<Longrightarrow> pad_zeros n = Suc (pad_zeros (Suc n))"
  using mod_less_divisor[of 64 n] by (auto simp: pad_zeros_def Let_def mod_Suc)

lemma pad_zeros_fill: "(n + pad_zeros n) mod 64 = 56"
proof -
  have "(n + pad_zeros n) mod 64 = (n mod 64 + pad_zeros n) mod 64" by (simp add: mod_add_left_eq)
  moreover have "n mod 64 + pad_zeros n = 56 \<or> n mod 64 + pad_zeros n = 120"
    using mod_less_divisor[of 64 n] by (auto simp: pad_zeros_def Let_def)
  ultimately show ?thesis by auto
qed

lemma sha_pad_loop_correct:
  assumes "sha_holds s m"
  shows "\<exists>s'. sha_pad_loop s = Some s' \<and> sha_holds s' (m @ replicate (pad_zeros (length m)) 0)"
  using assms
proof (induction "pad_zeros (length m)" arbitrary: s m rule: less_induct)
  case less
  have b: "sh_buffered s = length m mod 64" using less.prems by (simp add: sha_holds_def)
  show ?case
  proof (cases "length m mod 64 = 56")
    case True
    then show ?thesis using less.prems b by (subst sha_pad_loop.simps) (simp add: pad_zeros_def)
  next
    case False
    from sha_update_correct[OF less.prems, of "[0]"] obtain s1 where
      s1: "sha_update [0] s = Some s1" "sha_holds s1 (m @ [0])" by blast
    have z: "pad_zeros (length m) = Suc (pad_zeros (length (m @ [0])))" using pad_zeros_Suc[OF False] by simp
    then have "pad_zeros (length (m @ [0])) < pad_zeros (length m)" by simp
    from less.hyps[OF this s1(2)] obtain s2 where
      s2: "sha_pad_loop s1 = Some s2" "sha_holds s2 ((m @ [0]) @ replicate (pad_zeros (length (m @ [0]))) 0)" by blast
    have "sha_pad_loop s = Some s2" using False b s1(1) s2(1) by (subst sha_pad_loop.simps) simp
    moreover have "(m @ [0]) @ replicate (pad_zeros (length (m @ [0]))) 0 = m @ replicate (pad_zeros (length m)) 0"
      unfolding z by simp
    ultimately show ?thesis using s2(2) by metis
  qed
qed

text \<open>FIPS 180-4: one bit, zeros up to the last eight bytes of a block, and the length in bits.\<close>

definition sha_padded :: "byte list \<Rightarrow> byte list" where
  "sha_padded m = m @ [0x80] @ replicate (pad_zeros (length m + 1)) 0 @ be_bytes 8 (of_nat (8 * length m) :: u64)"

definition sha256_of :: "byte list \<Rightarrow> byte list" where
  "sha256_of m = sha_bytes (foldl sha_compress sha_initial (blocks 64 (sha_padded m)))"

lemma length_tail: "map (\<lambda>i. ucast (drop_bit (56 - 8 * i) (w :: u64))) [0..<8] = (be_bytes 8 w :: byte list)"
  by (simp add: upt_rec numeral_eq_Suc drop_bit_drop_bit)

lemma sha_finish_correct:
  assumes "sha_holds s m" and "sh_total_bits s = of_nat (8 * length m)"
  shows "\<exists>s'. sha_finish s = Some (sha256_of m, s')"
proof -
  let ?bits = "of_nat (8 * length m) :: u64"
  from sha_update_correct[OF assms(1), of "[0x80]"] obtain s1 where
    s1: "sha_update [0x80] s = Some s1" "sha_holds s1 (m @ [0x80])" by blast
  from sha_pad_loop_correct[OF s1(2)] obtain s2 where s2: "sha_pad_loop s1 = Some s2"
    "sha_holds s2 ((m @ [0x80]) @ replicate (pad_zeros (length (m @ [0x80]))) 0)" (is "sha_holds _ ?m") by blast
  have b: "length (sh_buf s2) = 64" "take (sh_buffered s2) (sh_buf s2) = residue 64 ?m" "sh_buffered s2 = length ?m mod 64"
    "sh_h s2 = foldl sha_compress sha_initial (blocks 64 ?m)" using s2(2) unfolding sha_holds_def by blast+
  have k: "length ?m mod 64 = 56" using pad_zeros_fill[of "length (m @ [0x80])"] by simp
  have t: "length (be_bytes 8 ?bits) = 8" by simp
  have "take 56 (sh_buf s2) = residue 64 ?m" using b(2,3) k by simp
  then have "copy_at 56 (be_bytes 8 ?bits) (sh_buf s2) = residue 64 ?m @ be_bytes 8 ?bits"
    using b(1) t by (simp add: copy_at_def)
  moreover have "blocks 64 (?m @ be_bytes 8 ?bits) = blocks 64 ?m @ [residue 64 ?m @ be_bytes 8 ?bits]"
    by (rule append_full(1)) (use k t in simp_all)
  moreover have "?m @ be_bytes 8 ?bits = sha_padded m" by (simp add: sha_padded_def)
  ultimately show ?thesis
    using s1(1) s2(1) b(4) by (simp add: sha_finish_def Let_def length_tail assms(2) sha256_of_def)
qed

section \<open>The fast digest\<close>

definition fast_state :: "bool \<Rightarrow> byte list \<Rightarrow> u64 \<times> u64" where
  "fast_state le m = foldl (\<lambda>h b. fast_mix le b h) (kPrime0, kPrime1) (blocks 16 m)"

definition fast_holds :: "bool \<Rightarrow> fast_digest \<Rightarrow> byte list \<Rightarrow> bool" where
  "fast_holds le s m \<longleftrightarrow> length (fd_buf s) = 16 \<and> fd_buffered s = length m mod 16 \<and>
     take (fd_buffered s) (fd_buf s) = residue 16 m \<and> (fd_h0 s, fd_h1 s) = fast_state le m"

lemma mix_block_fields:
  "(fd_h0 (mix_block le b s), fd_h1 (mix_block le b s)) = fast_mix le b (fd_h0 s, fd_h1 s)"
  "fd_buf (mix_block le b s) = fd_buf s" "fd_buffered (mix_block le b s) = fd_buffered s"
  "fd_total_bytes (mix_block le b s) = fd_total_bytes s"
  by (simp_all add: mix_block_def split: prod.splits)

lemma fast_state_full:
  assumes "length m mod 16 + length b = 16"
  shows "fast_state le (m @ b) = fast_mix le (residue 16 m @ b) (fast_state le m)"
  using append_full(1)[OF _ assms] by (simp add: fast_state_def)

lemma mix_blocks_correct:
  assumes "fast_holds le s m" and "fd_buffered s = 0" and "mix_blocks le p s = (p', s')"
  shows "\<exists>q. p = q @ p' \<and> length p' < 16 \<and> fast_holds le s' (m @ q) \<and> fd_buffered s' = 0 \<and>
     fd_total_bytes s' = fd_total_bytes s"
  using assms
proof (induction "length p" arbitrary: p s m rule: less_induct)
  case less
  show ?case
  proof (cases "16 \<le> length p")
    case False
    then have "p' = p" "s' = s" using less.prems(3) by (subst (asm) mix_blocks.simps; simp)+
    then show ?thesis using False less.prems by (intro exI[of _ "[]"]) simp
  next
    case True
    let ?s1 = "mix_block le (take 16 p) s"
    have m0: "length m mod 16 = 0" "residue 16 m = []" using less.prems(1,2) by (auto simp: fast_holds_def)
    have full: "length m mod 16 + length (take 16 p) = 16" using m0 True by simp
    have "fast_holds le ?s1 (m @ take 16 p)"
      using less.prems(1,2) fast_state_full[OF full, of le] append_full(2)[OF _ full] m0 True
      by (simp add: fast_holds_def mix_block_fields min_absorb2)
    moreover have "fd_buffered ?s1 = 0" using less.prems(2) by (simp add: mix_block_fields)
    moreover have "mix_blocks le (drop 16 p) ?s1 = (p', s')" using less.prems(3) True by (subst (asm) mix_blocks.simps) simp
    moreover have "length (drop 16 p) < length p" using True by simp
    ultimately obtain q where q: "drop 16 p = q @ p'" "length p' < 16" "fast_holds le s' ((m @ take 16 p) @ q)"
      "fd_buffered s' = 0" "fd_total_bytes s' = fd_total_bytes ?s1" using less.hyps by blast
    moreover from q(1) have "p = (take 16 p @ q) @ p'" by (metis append.assoc append_take_drop_id)
    ultimately show ?thesis by (intro exI[of _ "take 16 p @ q"]) (simp add: mix_block_fields)
  qed
qed

lemma store_rest:
  assumes "fast_holds le s m" and "fd_buffered s + length p < 16"
  shows "fast_holds le (if length p > 0 then s\<lparr> fd_buf := copy_at (fd_buffered s) p (fd_buf s), fd_buffered := fd_buffered s + length p \<rparr> else s) (m @ p)"
proof -
  have b: "length (fd_buf s) = 16" "take (fd_buffered s) (fd_buf s) = residue 16 m" "fd_buffered s = length m mod 16"
    "(fd_h0 s, fd_h1 s) = fast_state le m" using assms(1) unfolding fast_holds_def by blast+
  have short: "length m mod 16 + length p < 16" using assms(2) b(3) by simp
  have mod: "(length m + length p) mod 16 = length m mod 16 + length p" using short by (metis mod_add_left_eq mod_less)
  note c = copy_at_buffer[OF b(1,2), of p]
  show ?thesis
    using c b append_short[OF _ short] mod short
    by (cases "p = []") (simp_all add: fast_holds_def fast_state_def)
qed

lemma fill_block:
  assumes "fast_holds le s m" and "fd_buffered s + n = 16" and "n \<le> length p"
  shows "fast_holds le ((mix_block le (copy_at (fd_buffered s) (take n p) (fd_buf s))
      (s\<lparr> fd_buf := copy_at (fd_buffered s) (take n p) (fd_buf s), fd_buffered := 16 \<rparr>))\<lparr> fd_buffered := 0 \<rparr>) (m @ take n p)"
proof -
  have b: "length (fd_buf s) = 16" "take (fd_buffered s) (fd_buf s) = residue 16 m" "fd_buffered s = length m mod 16"
    "(fd_h0 s, fd_h1 s) = fast_state le m" using assms(1) unfolding fast_holds_def by blast+
  have lt: "length (take n p) = n" using assms(3) by simp
  have full: "length m mod 16 + length (take n p) = 16" using assms(2) lt b(3) by simp
  note c = copy_at_buffer[OF b(1,2), of "take n p"]
  have cp: "copy_at (fd_buffered s) (take n p) (fd_buf s) = residue 16 m @ take n p"
    "length (copy_at (fd_buffered s) (take n p) (fd_buf s)) = 16"
    using c b(3) lt assms(2) by (simp_all add: copy_at_def b(1))
  have mod: "(length m + n) mod 16 = 0" using full lt by (metis mod_add_left_eq mod_self)
  show ?thesis
    using b(4) fast_state_full[OF full, of le] append_full(2)[OF _ full] mod lt cp
    by (simp add: fast_holds_def mix_block_fields)
qed

lemma fast_update_correct:
  assumes "fast_holds le s m"
  shows "fast_holds le (fast_update le p s) (m @ p) \<and> fd_total_bytes (fast_update le p s) = fd_total_bytes s + of_nat (length p)"
proof -
  let ?s0 = "s\<lparr> fd_total_bytes := fd_total_bytes s + of_nat (length p) \<rparr>" and ?k = "fd_buffered s"
  have h0: "fast_holds le ?s0 m" using assms unfolding fast_holds_def by auto
  have k: "?k < 16" using assms by (simp add: fast_holds_def)
  have aligned: ?thesis
    if a: "fast_holds le s1 m1" "fd_buffered s1 = 0" "m @ p = m1 @ p1" "fd_total_bytes s1 = fd_total_bytes ?s0"
      and u: "fast_update le p s = (let (p, s) = mix_blocks le p1 s1
        in if length p > 0 then s\<lparr> fd_buf := copy_at (fd_buffered s) p (fd_buf s), fd_buffered := fd_buffered s + length p \<rparr> else s)"
    for s1 m1 p1
  proof -
    obtain p' s' where mb: "mix_blocks le p1 s1 = (p', s')" by fastforce
    from mix_blocks_correct[OF a(1,2) mb] obtain q where
      q: "p1 = q @ p'" "length p' < 16" "fast_holds le s' (m1 @ q)" "fd_buffered s' = 0" "fd_total_bytes s' = fd_total_bytes s1" by blast
    have "fast_update le p s = (if length p' > 0 then s'\<lparr> fd_buf := copy_at (fd_buffered s') p' (fd_buf s'),
        fd_buffered := fd_buffered s' + length p' \<rparr> else s')" by (simp add: u mb)
    then show ?thesis using store_rest[OF q(3), of p'] q a(3,4) by simp
  qed
  show ?thesis
  proof (cases "?k = 0")
    case True
    then show ?thesis by (intro aligned[OF h0]) (simp_all add: fast_update_def Let_def)
  next
    case False
    show ?thesis
    proof (cases "16 - ?k \<le> length p")
      case True
      have n: "?k + (16 - ?k) = 16" "fd_buffered ?s0 = ?k" using k by simp_all
      have fb: "fast_holds le ((mix_block le (copy_at ?k (take (16 - ?k) p) (fd_buf s))
          (?s0\<lparr> fd_buf := copy_at ?k (take (16 - ?k) p) (fd_buf s), fd_buffered := 16 \<rparr>))\<lparr> fd_buffered := 0 \<rparr>) (m @ take (16 - ?k) p)"
        using fill_block[OF h0 _ True] n by simp
      have nn: "(if length p < 16 - ?k then length p else 16 - ?k) = 16 - ?k" using True by simp
      have "fast_update le p s = (let (p, s) = mix_blocks le (drop (16 - ?k) p) ((mix_block le (copy_at ?k (take (16 - ?k) p) (fd_buf s))
          (?s0\<lparr> fd_buf := copy_at ?k (take (16 - ?k) p) (fd_buf s), fd_buffered := 16 \<rparr>))\<lparr> fd_buffered := 0 \<rparr>)
        in if length p > 0 then s\<lparr> fd_buf := copy_at (fd_buffered s) p (fd_buf s), fd_buffered := fd_buffered s + length p \<rparr> else s)"
        using False k by (simp add: fast_update_def Let_def nn)
      from aligned[OF fb _ _ _ this] show ?thesis by (simp add: mix_block_fields)
    next
      case short: False
      have "mix_blocks le [] x = ([], x)" for x by (subst mix_blocks.simps) simp
      then have "fast_update le p s = ?s0\<lparr> fd_buf := copy_at ?k p (fd_buf s), fd_buffered := ?k + length p \<rparr>"
        using False short k by (simp add: fast_update_def Let_def)
      moreover have "copy_at ?k [] (fd_buf s) = fd_buf s" by (simp add: copy_at_def)
      ultimately show ?thesis using store_rest[OF h0, of p] short by (cases "p = []") simp_all
    qed
  qed
qed

definition fast128_of :: "bool \<Rightarrow> byte list \<Rightarrow> byte list" where
  "fast128_of le m =
     (let r = residue 16 m
      in fast_avalanche le (of_nat (length m))
        (if r = [] then fast_state le m else fast_mix le (r @ [0x80] @ replicate (15 - length r) 0) (fast_state le m)))"

lemma fast_finish_correct:
  assumes "fast_holds le s m" and "fd_total_bytes s = of_nat (length m)"
  shows "fast_finish le s = fast128_of le m"
proof -
  let ?r = "residue 16 m"
  have b: "length (fd_buf s) = 16" "take (fd_buffered s) (fd_buf s) = ?r" "fd_buffered s = length ?r"
    "(fd_h0 s, fd_h1 s) = fast_state le m" using assms(1) unfolding fast_holds_def by auto
  have lt: "length ?r < 16" by simp
  have "(copy_at 0 ?r (replicate 16 0))[length ?r := 0x80] = ?r @ [0x80] @ replicate (15 - length ?r) (0::byte)"
  proof (rule nth_equalityI)
    show "length ((copy_at 0 ?r (replicate 16 0))[length ?r := 0x80]) = length (?r @ [0x80] @ replicate (15 - length ?r) (0::byte))"
      using lt by (simp add: copy_at_def)
    fix i assume "i < length ((copy_at 0 ?r (replicate 16 0))[length ?r := 0x80])"
    then have "i < 16" using lt by (simp add: copy_at_def)
    then show "(copy_at 0 ?r (replicate 16 0))[length ?r := 0x80] ! i = (?r @ [0x80] @ replicate (15 - length ?r) (0::byte)) ! i"
      using lt by (simp add: copy_at_def nth_list_update nth_append nth_Cons')
  qed
  moreover have "?r = [] \<longleftrightarrow> length m mod 16 = 0" by (metis length_0_conv length_residue)
  ultimately show ?thesis
    using b assms(2) by (simp add: fast_finish_def fast128_of_def Let_def)
qed

lemma fast_new_holds: "fast_holds le fast_new []" "fd_total_bytes fast_new = 0"
  by (simp_all add: fast_holds_def fast_new_def fast_reset_def fast_state_def)

section \<open>Streaming\<close>

text \<open>The engine after a list of updates.\<close>

definition digest_stream :: "bool \<Rightarrow> byte list list \<Rightarrow> digest_mode \<Rightarrow> determinism_digest option" where
  "digest_stream le ps mode = foldl (\<lambda>d p. Option.bind d (digest_update le p)) (Some (digest_new mode)) ps"

lemma digest_stream_snoc: "digest_stream le (ps @ [p]) mode = Option.bind (digest_stream le ps mode) (digest_update le p)"
  by (simp add: digest_stream_def)

lemma golden_stream:
  "\<exists>d. digest_stream le ps GoldenDigest = Some d \<and> dd_mode d = GoldenDigest \<and> sha_holds (dd_sha d) (concat ps) \<and>
     sh_total_bits (dd_sha d) = of_nat (8 * length (concat ps))"
proof (induction ps rule: rev_induct)
  case Nil
  have "sha_reset sha_new = sha_new" by (simp add: sha_new_def sha_reset_def)
  then show ?case using sha_new_holds by (simp add: digest_stream_def digest_new_def digest_reset_def)
next
  case (snoc p ps)
  then obtain d where d: "digest_stream le ps GoldenDigest = Some d" "dd_mode d = GoldenDigest" "sha_holds (dd_sha d) (concat ps)"
    "sh_total_bits (dd_sha d) = of_nat (8 * length (concat ps))" by blast
  from sha_update_correct[OF d(3), of p] d(4) obtain s' where
    "sha_update p (dd_sha d) = Some s'" "sha_holds s' (concat (ps @ [p]))" "sh_total_bits s' = of_nat (8 * length (concat (ps @ [p])))"
    by (auto simp: algebra_simps)
  then show ?case using d by (simp add: digest_stream_snoc digest_update_def)
qed

lemma fast_stream:
  "\<exists>d. digest_stream le ps FastDigest = Some d \<and> dd_mode d = FastDigest \<and> fast_holds le (dd_fast d) (concat ps) \<and>
     fd_total_bytes (dd_fast d) = of_nat (length (concat ps))"
proof (induction ps rule: rev_induct)
  case Nil
  have "fast_reset fast_new = fast_new" by (simp add: fast_new_def fast_reset_def)
  then show ?case using fast_new_holds by (simp add: digest_stream_def digest_new_def digest_reset_def)
next
  case (snoc p ps)
  then obtain d where d: "digest_stream le ps FastDigest = Some d" "dd_mode d = FastDigest" "fast_holds le (dd_fast d) (concat ps)"
    "fd_total_bytes (dd_fast d) = of_nat (length (concat ps))" by blast
  from fast_update_correct[OF d(3), of p] d show ?case by (simp add: digest_stream_snoc digest_update_def)
qed

text \<open>C25: The determinism digest is a function of the bytes it was given, however they were cut into
  updates: every sequence of updates returns, the golden digest of it is SHA-256 of the concatenation,
  padded as FIPS 180-4 says, and the fast digest is its function of the concatenation.\<close>

theorem digest_streaming:
  "(\<exists>d. digest_stream le ps GoldenDigest = Some d \<and> finish_sha256 d = Some (sha256_of (concat ps))) \<and>
   (\<exists>d. digest_stream le ps FastDigest = Some d \<and> finish_fast128 le d = fast128_of le (concat ps))"
proof
  from golden_stream[of le ps] obtain d where d: "digest_stream le ps GoldenDigest = Some d" "sha_holds (dd_sha d) (concat ps)"
    "sh_total_bits (dd_sha d) = of_nat (8 * length (concat ps))" by blast
  from sha_finish_correct[OF d(2,3)] d(1)
  show "\<exists>d. digest_stream le ps GoldenDigest = Some d \<and> finish_sha256 d = Some (sha256_of (concat ps))"
    by (auto simp: finish_sha256_def)
  from fast_stream[of le ps] obtain d' where d': "digest_stream le ps FastDigest = Some d'" "fast_holds le (dd_fast d') (concat ps)"
    "fd_total_bytes (dd_fast d') = of_nat (length (concat ps))" by blast
  from fast_finish_correct[OF d'(2,3)] d'(1)
  show "\<exists>d. digest_stream le ps FastDigest = Some d \<and> finish_fast128 le d = fast128_of le (concat ps)"
    by (auto simp: finish_fast128_def)
qed

text \<open>The test vector of FIPS 180-4 for the three bytes of "abc".\<close>

lemma sha256_abc: "digest_hex (sha256_of [0x61, 0x62, 0x63]) = ''ba7816bf8f01cfea414140de5dae2223b00361a396177a9cb410ff61f20015ad''"
  by code_simp

end
