(* ===== verification/Pcap.thy ===== *)
theory Pcap
  imports Wire
begin

text \<open>
  The capture reader, \<open>include/mog/Pcap.hpp\<close>: the global header with its four magic numbers, the records,
  and the payload of an Ethernet, IPv4 and UDP frame. A span is a list; a packet function is a fold.
\<close>

section \<open>Data\<close>

definition kPcapMagicMicroBE :: u32 where "kPcapMagicMicroBE = 0xa1b2c3d4"
definition kPcapMagicNanoBE :: u32 where "kPcapMagicNanoBE = 0xa1b23c4d"
definition kLinkTypeEthernet :: u32 where "kLinkTypeEthernet = 1"

record pcap_view =
  pv_ts_ns :: u64
  pv_raw_packet :: "byte list"
  pv_payload :: "byte list"
  pv_src_port :: u16
  pv_dst_port :: u16
  pv_protocol :: byte

record pcap_reader =
  pr_buf :: "byte list"
  pr_valid :: bool
  pr_is_swapped :: bool
  pr_is_nanosec :: bool
  pr_link_type :: u32

section \<open>The global header\<close>

definition read32 :: "bool \<Rightarrow> pcap_reader \<Rightarrow> byte list \<Rightarrow> u32" where
  "read32 le r p = (if pr_is_swapped r then load_le32 le p else load_be32 le p)"

definition parse_pcap_header :: "bool \<Rightarrow> pcap_reader \<Rightarrow> pcap_reader" where
  "parse_pcap_header le r =
     (if length (pr_buf r) < 24 then r\<lparr> pr_valid := False \<rparr>
      else let magic = load_be32 le (pr_buf r); magic_le = load_le32 le (pr_buf r);
               r = (if magic = kPcapMagicMicroBE then r\<lparr> pr_is_swapped := False, pr_is_nanosec := False, pr_valid := True \<rparr>
                    else if magic = kPcapMagicNanoBE then r\<lparr> pr_is_swapped := False, pr_is_nanosec := True, pr_valid := True \<rparr>
                    else if magic_le = kPcapMagicMicroBE then r\<lparr> pr_is_swapped := True, pr_is_nanosec := False, pr_valid := True \<rparr>
                    else if magic_le = kPcapMagicNanoBE then r\<lparr> pr_is_swapped := True, pr_is_nanosec := True, pr_valid := True \<rparr>
                    else r\<lparr> pr_valid := False \<rparr>)
           in if pr_valid r then r\<lparr> pr_link_type := read32 le r (drop 20 (pr_buf r)) \<rparr> else r)"

definition pcap_new :: "bool \<Rightarrow> byte list \<Rightarrow> pcap_reader" where
  "pcap_new le buf = parse_pcap_header le \<lparr> pr_buf = buf, pr_valid = False, pr_is_swapped = False, pr_is_nanosec = False,
     pr_link_type = kLinkTypeEthernet \<rparr>"

section \<open>The payload of a packet\<close>

definition udp_payload :: "bool \<Rightarrow> nat \<Rightarrow> byte list \<Rightarrow> pcap_view \<Rightarrow> pcap_view" where
  "udp_payload le l4_offset raw view =
     (let udp = drop l4_offset raw;
          udp_len = unat (load_be16 le (drop 4 udp));
          payload_len = (if udp_len \<ge> 8 \<and> l4_offset + udp_len \<le> length raw then udp_len - 8
                         else length raw - l4_offset - 8)
      in view\<lparr> pv_src_port := load_be16 le udp, pv_dst_port := load_be16 le (drop 2 udp),
               pv_payload := take payload_len (drop (l4_offset + 8) raw) \<rparr>)"

definition ip_payload :: "bool \<Rightarrow> nat \<Rightarrow> byte list \<Rightarrow> pcap_view \<Rightarrow> pcap_view" where
  "ip_payload le l3_offset raw view =
     (let ip = drop l3_offset raw;
          ip_hdr_len = unat (ip ! 0 AND 0x0F) * 4
      in if ip_hdr_len < 20 \<or> length raw < l3_offset + ip_hdr_len
         then view\<lparr> pv_payload := drop l3_offset raw \<rparr>
         else let view = view\<lparr> pv_protocol := ip ! 9 \<rparr>;
                  l4_offset = l3_offset + ip_hdr_len
              in if pv_protocol view = 17 \<and> length raw \<ge> l4_offset + 8
                 then udp_payload le l4_offset raw view
                 else view\<lparr> pv_payload := drop l4_offset raw \<rparr>)"

definition extract_payload :: "bool \<Rightarrow> pcap_reader \<Rightarrow> byte list \<Rightarrow> u64 \<Rightarrow> pcap_view" where
  "extract_payload le r raw ts_ns =
     (let view = \<lparr> pv_ts_ns = ts_ns, pv_raw_packet = raw, pv_payload = [], pv_src_port = 0, pv_dst_port = 0, pv_protocol = 0 \<rparr>
      in if pr_link_type r \<noteq> kLinkTypeEthernet \<or> length raw < 14 then view\<lparr> pv_payload := raw \<rparr>
         else let ether_type = load_be16 le (drop 12 raw);
                  vlan = (ether_type = 0x8100 \<and> length raw \<ge> 18);
                  l3_offset = (if vlan then 18 else 14);
                  ether_type = (if vlan then load_be16 le (drop 16 raw) else ether_type)
              in if ether_type \<noteq> 0x0800 \<or> length raw < l3_offset + 20
                 then view\<lparr> pv_payload := drop l3_offset raw \<rparr>
                 else ip_payload le l3_offset raw view)"

section \<open>The records\<close>

definition record_time :: "pcap_reader \<Rightarrow> u32 \<Rightarrow> u32 \<Rightarrow> u64" where
  "record_time r ts_sec ts_sub =
     ucast ts_sec * 1000000000 + (if pr_is_nanosec r then ucast ts_sub else ucast ts_sub * 1000)"

function pcap_loop :: "bool \<Rightarrow> pcap_reader \<Rightarrow> ('s \<Rightarrow> pcap_view \<Rightarrow> 's) \<Rightarrow> nat \<Rightarrow> nat \<Rightarrow> 's \<Rightarrow> nat \<times> 's" where
  "pcap_loop le r fn offset packet_count s =
     (if offset + 16 \<le> length (pr_buf r) then
        (let p = drop offset (pr_buf r);
             ts_sec = read32 le r p;
             ts_sub = read32 le r (drop 4 p);
             incl_len = unat (read32 le r (drop 8 p));
             offset = offset + 16
         in if offset + incl_len > length (pr_buf r) then (packet_count, s)
            else let raw = take incl_len (drop offset (pr_buf r));
                     view = extract_payload le r raw (record_time r ts_sec ts_sub)
                 in pcap_loop le r fn (offset + incl_len) (packet_count + 1) (fn s view))
      else (packet_count, s))"
  by pat_completeness auto
termination
  by (relation "measure (\<lambda>(_, r, _, offset, _, _). length (pr_buf r) - offset)") auto

declare pcap_loop.simps [simp del]

definition for_each_packet :: "bool \<Rightarrow> pcap_reader \<Rightarrow> ('s \<Rightarrow> pcap_view \<Rightarrow> 's) \<Rightarrow> 's \<Rightarrow> nat \<times> 's" where
  "for_each_packet le r fn s = (if \<not> pr_valid r then (0, s) else pcap_loop le r fn 24 0 s)"

text \<open>A capture of UDP datagrams, in either byte order and either resolution, is read back exactly.\<close>

section \<open>Captures\<close>

definition cap_word :: "bool \<Rightarrow> u32 \<Rightarrow> byte list" where
  "cap_word sw v = (if sw then le_bytes 4 v else be_bytes 4 v)"

record datagram =
  dg_sec :: u32
  dg_sub :: u32
  dg_orig_len :: u32
  dg_mac :: "byte list"
  dg_vlan :: "byte list option"
  dg_ihl :: byte
  dg_ip_head :: "byte list"
  dg_ip_tail :: "byte list"
  dg_src :: u16
  dg_dst :: u16
  dg_checksum :: "byte list"
  dg_payload :: "byte list"
  dg_padding :: "byte list"

definition datagram_ok :: "datagram \<Rightarrow> bool" where
  "datagram_ok d \<longleftrightarrow> length (dg_mac d) = 12 \<and> (\<forall>t. dg_vlan d = Some t \<longrightarrow> length t = 2) \<and>
     length (dg_ip_head d) = 8 \<and> 10 \<le> length (dg_ip_tail d) \<and> length (dg_ip_tail d) \<le> 50 \<and>
     unat (dg_ihl d AND 0x0F) * 4 = 10 + length (dg_ip_tail d) \<and>
     length (dg_checksum d) = 2 \<and> length (dg_payload d) + 8 < 2 ^ 16 \<and> length (dg_padding d) < 2 ^ 16"

definition frame_head :: "datagram \<Rightarrow> byte list" where
  "frame_head d = dg_mac d @ (case dg_vlan d of None \<Rightarrow> [] | Some t \<Rightarrow> [0x81, 0] @ t) @ [8, 0]"

definition ip_header :: "datagram \<Rightarrow> byte list" where
  "ip_header d = dg_ihl d # dg_ip_head d @ 17 # dg_ip_tail d"

definition udp_part :: "datagram \<Rightarrow> byte list" where
  "udp_part d = be_bytes 2 (dg_src d) @ be_bytes 2 (dg_dst d) @
     be_bytes 2 (of_nat (8 + length (dg_payload d)) :: u16) @ dg_checksum d @ dg_payload d @ dg_padding d"

definition ether_frame :: "datagram \<Rightarrow> byte list" where
  "ether_frame d = frame_head d @ ip_header d @ udp_part d"

definition capture_record :: "bool \<Rightarrow> datagram \<Rightarrow> byte list" where
  "capture_record sw d = cap_word sw (dg_sec d) @ cap_word sw (dg_sub d) @
     cap_word sw (of_nat (length (ether_frame d))) @ cap_word sw (dg_orig_len d) @ ether_frame d"

definition capture :: "bool \<Rightarrow> bool \<Rightarrow> byte list \<Rightarrow> datagram list \<Rightarrow> byte list" where
  "capture sw nano hdr ds = cap_word sw (if nano then kPcapMagicNanoBE else kPcapMagicMicroBE) @ hdr @
     cap_word sw kLinkTypeEthernet @ concat (map (capture_record sw) ds)"

text \<open>What the packet function is to see, and a tail that is not a whole record.\<close>

definition datagram_view :: "bool \<Rightarrow> datagram \<Rightarrow> pcap_view" where
  "datagram_view nano d = \<lparr> pv_ts_ns = ucast (dg_sec d) * 1000000000 + (if nano then ucast (dg_sub d) else ucast (dg_sub d) * 1000),
     pv_raw_packet = ether_frame d, pv_payload = dg_payload d, pv_src_port = dg_src d, pv_dst_port = dg_dst d, pv_protocol = 17 \<rparr>"

definition truncated :: "bool \<Rightarrow> byte list \<Rightarrow> bool" where
  "truncated sw rest \<longleftrightarrow> length rest < 16 \<or> (\<exists>d n. n < length (capture_record sw d) \<and> length (ether_frame d) < 2 ^ 32 \<and> rest = take n (capture_record sw d))"

section \<open>The payload\<close>

lemma length_cap_word [simp]: "length (cap_word sw v) = 4"
  by (simp add: cap_word_def)

lemma read_cap_word: "pr_is_swapped r = sw \<Longrightarrow> read32 le r (cap_word sw v @ p) = v"
  by (simp add: read32_def cap_word_def load_le32_value load_be32_value le_word_le_bytes)

lemma be16_read: "load_be16 le (be_bytes 2 (v :: u16) @ p) = v" "load_be16 le (8 # 0 # p) = 0x800" "load_be16 le (0x81 # 0 # p) = 0x8100"
proof -
  show "load_be16 le (be_bytes 2 v @ p) = v" by (simp add: load_be16_value le_word_le_bytes)
  have t: "take 2 (a # b # p) = [a, b]" for a b :: byte by (simp add: take_Cons')
  show "load_be16 le (8 # 0 # p) = 0x800" "load_be16 le (0x81 # 0 # p) = 0x8100"
    using load_be16_value[of "8 # 0 # p" le] load_be16_value[of "0x81 # 0 # p" le] by (simp_all add: t)
qed

lemma unat_u16: "k < 2 ^ 16 \<Longrightarrow> unat (of_nat k :: u16) = k"
  by (simp add: unsigned_of_nat take_bit_nat_eq_self)

lemma unat_u32: "k < 2 ^ 32 \<Longrightarrow> unat (of_nat k :: u32) = k"
  by (simp add: unsigned_of_nat take_bit_nat_eq_self)

lemma udp_payload_exact:
  assumes "datagram_ok d" and "length h = n"
  shows "udp_payload le n (h @ udp_part d) view = view\<lparr> pv_src_port := dg_src d, pv_dst_port := dg_dst d, pv_payload := dg_payload d \<rparr>"
proof -
  let ?len = "of_nat (8 + length (dg_payload d)) :: u16"
  have len: "unat ?len = 8 + length (dg_payload d)" using assms(1) by (intro unat_u16) (simp add: datagram_ok_def)
  have c: "length (dg_checksum d) = 2" using assms(1) by (simp add: datagram_ok_def)
  have d0: "drop n (h @ udp_part d) = udp_part d" using assms(2) by simp
  have d2: "drop 2 (udp_part d) = be_bytes 2 (dg_dst d) @ be_bytes 2 ?len @ dg_checksum d @ dg_payload d @ dg_padding d"
    "drop 4 (udp_part d) = be_bytes 2 ?len @ dg_checksum d @ dg_payload d @ dg_padding d"
    "drop 8 (udp_part d) = dg_payload d @ dg_padding d"
    using c by (simp_all add: udp_part_def)
  have d8: "drop (n + 8) (h @ udp_part d) = dg_payload d @ dg_padding d"
    using d2(3) assms(2) by simp
  have l: "length (h @ udp_part d) = n + 8 + length (dg_payload d) + length (dg_padding d)"
    using assms(2) c by (simp add: udp_part_def)
  have s: "load_be16 le (udp_part d) = dg_src d" by (simp add: udp_part_def be16_read)
  show ?thesis
    unfolding udp_payload_def Let_def d0 d2 be16_read len d8 s l by simp
qed

lemma ip_payload_exact:
  assumes "datagram_ok d" and "length h = n"
  shows "ip_payload le n (h @ ip_header d @ udp_part d) view =
    view\<lparr> pv_protocol := 17, pv_src_port := dg_src d, pv_dst_port := dg_dst d, pv_payload := dg_payload d \<rparr>"
proof -
  have ok: "length (dg_ip_head d) = 8" "10 \<le> length (dg_ip_tail d)" "unat (dg_ihl d AND 0x0F) * 4 = 10 + length (dg_ip_tail d)"
    using assms(1) by (simp_all add: datagram_ok_def)
  have i: "drop n (h @ ip_header d @ udp_part d) = ip_header d @ udp_part d" using assms(2) by simp
  have b: "(ip_header d @ udp_part d) ! 0 = dg_ihl d" "(ip_header d @ udp_part d) ! 9 = 17"
    using ok(1) by (simp_all add: ip_header_def nth_append)
  have len: "length (ip_header d) = 10 + length (dg_ip_tail d)" "8 \<le> length (udp_part d)"
    using ok(1) assms(1) by (simp_all add: ip_header_def udp_part_def datagram_ok_def)
  have u: "udp_payload le (n + (10 + length (dg_ip_tail d))) ((h @ ip_header d) @ udp_part d) v =
      v\<lparr> pv_src_port := dg_src d, pv_dst_port := dg_dst d, pv_payload := dg_payload d \<rparr>" for v
    using len(1) assms(2) by (intro udp_payload_exact[OF assms(1)]) simp
  show ?thesis
    unfolding ip_payload_def Let_def i b ok(3) using ok(2) len assms(2) u by simp
qed

lemma extract_payload_exact:
  assumes "datagram_ok d" and "pr_link_type r = kLinkTypeEthernet"
    and "ts = ucast (dg_sec d) * 1000000000 + (if nano then ucast (dg_sub d) else ucast (dg_sub d) * 1000)"
  shows "extract_payload le r (ether_frame d) ts = datagram_view nano d"
proof -
  have mac: "length (dg_mac d) = 12" and v: "\<And>t. dg_vlan d = Some t \<Longrightarrow> length t = 2" using assms(1) by (auto simp: datagram_ok_def)
  have len: "28 \<le> length (ip_header d @ udp_part d)" using assms(1) by (auto simp: datagram_ok_def ip_header_def udp_part_def)
  let ?n = "length (frame_head d)"
  note ip = ip_payload_exact[OF assms(1), of "frame_head d" ?n le, folded ether_frame_def]
  show ?thesis
  proof (cases "dg_vlan d")
    case None
    have f: "frame_head d = dg_mac d @ [8, 0]" using None by (simp add: frame_head_def)
    have e: "drop 12 (ether_frame d) = 8 # 0 # ip_header d @ udp_part d" using mac by (simp add: ether_frame_def f)
    have l: "length (ether_frame d) = 14 + length (ip_header d @ udp_part d)" "?n = 14" using mac by (simp_all add: ether_frame_def f)
    show ?thesis
      using len ip[unfolded l(2)] assms(2,3)
      by (simp add: extract_payload_def e be16_read l(1) Let_def datagram_view_def)
  next
    case (Some t)
    have t: "length t = 2" using v[OF Some] .
    have f: "frame_head d = dg_mac d @ [0x81, 0] @ t @ [8, 0]" using Some by (simp add: frame_head_def)
    have e: "drop 12 (ether_frame d) = 0x81 # 0 # t @ [8, 0] @ ip_header d @ udp_part d"
      "drop 16 (ether_frame d) = 8 # 0 # ip_header d @ udp_part d" using mac t by (simp_all add: ether_frame_def f)
    have l: "length (ether_frame d) = 18 + length (ip_header d @ udp_part d)" "?n = 18" using mac t by (simp_all add: ether_frame_def f)
    show ?thesis
      using len ip[unfolded l(2)] assms(2,3)
      by (simp add: extract_payload_def e be16_read l(1) Let_def datagram_view_def)
  qed
qed

lemma ether_frame_length: "datagram_ok d \<Longrightarrow> length (ether_frame d) < 2 ^ 32"
  by (auto simp: datagram_ok_def ether_frame_def frame_head_def ip_header_def udp_part_def split: option.splits)

section \<open>The records\<close>

lemma capture_record_read:
  assumes "drop off (pr_buf r) = capture_record sw d @ p" and "pr_is_swapped r = sw" and "length (ether_frame d) < 2 ^ 32"
  shows "read32 le r (drop off (pr_buf r)) = dg_sec d" "read32 le r (drop 4 (drop off (pr_buf r))) = dg_sub d"
    "unat (read32 le r (drop 8 (drop off (pr_buf r)))) = length (ether_frame d)"
    "drop (off + 16) (pr_buf r) = ether_frame d @ p"
proof -
  let ?w = "\<lambda>v. cap_word sw v"
  have d0: "drop off (pr_buf r) = ?w (dg_sec d) @ ?w (dg_sub d) @ ?w (of_nat (length (ether_frame d))) @ ?w (dg_orig_len d) @ ether_frame d @ p"
    using assms(1) by (simp add: capture_record_def)
  show "read32 le r (drop off (pr_buf r)) = dg_sec d" "read32 le r (drop 4 (drop off (pr_buf r))) = dg_sub d"
    using read_cap_word[OF assms(2)] by (simp_all add: d0)
  show "unat (read32 le r (drop 8 (drop off (pr_buf r)))) = length (ether_frame d)"
    using read_cap_word[OF assms(2)] unat_u32[OF assms(3)] by (simp add: d0)
  show "drop (off + 16) (pr_buf r) = ether_frame d @ p"
    unfolding drop_drop[symmetric, of 16 off, simplified add.commute] d0 by simp
qed

lemma pcap_loop_exact:
  assumes "drop off (pr_buf r) = concat (map (capture_record (pr_is_swapped r)) ds) @ rest" and "off \<le> length (pr_buf r)"
    and "\<forall>d \<in> set ds. datagram_ok d" and "pr_link_type r = kLinkTypeEthernet" and "truncated (pr_is_swapped r) rest"
  shows "pcap_loop le r fn off n s = (n + length ds, foldl fn s (map (datagram_view (pr_is_nanosec r)) ds))"
  using assms(1-3)
proof (induction ds arbitrary: off n s)
  case Nil
  then have rest: "drop off (pr_buf r) = rest" "length (pr_buf r) = off + length rest" by auto
  from assms(5) show ?case unfolding truncated_def
  proof (elim disjE exE conjE)
    assume "length rest < 16"
    then show ?thesis using rest by (subst pcap_loop.simps) simp
  next
    fix d m assume m: "m < length (capture_record (pr_is_swapped r) d)" "length (ether_frame d) < 2 ^ 32"
      "rest = take m (capture_record (pr_is_swapped r) d)"
    have l: "length rest = m" "m < 16 + length (ether_frame d)" using m by (simp_all add: capture_record_def)
    have "unat (read32 le r (drop 8 rest)) = length (ether_frame d)" if "16 \<le> m"
    proof -
      have "drop 8 rest = cap_word (pr_is_swapped r) (of_nat (length (ether_frame d))) @ take (m - 12) (cap_word (pr_is_swapped r) (dg_orig_len d) @ ether_frame d)"
        using that by (simp add: m(3) capture_record_def)
      then show ?thesis using read_cap_word[OF refl] unat_u32[OF m(2)] by simp
    qed
    then show ?thesis using rest l by (subst pcap_loop.simps) (auto simp: Let_def)
  qed
next
  case (Cons d ds)
  let ?sw = "pr_is_swapped r" and ?p = "concat (map (capture_record (pr_is_swapped r)) ds) @ rest"
  have ok: "datagram_ok d" using Cons.prems(3) by simp
  note fl = ether_frame_length[OF ok]
  have d: "drop off (pr_buf r) = capture_record ?sw d @ ?p" using Cons.prems(1) by simp
  note rd = capture_record_read[OF d refl fl]
  have len: "length (pr_buf r) = off + (16 + length (ether_frame d)) + length ?p"
    using arg_cong[OF d, of length] Cons.prems(2) by (simp add: capture_record_def)
  have nx: "drop (off + 16 + length (ether_frame d)) (pr_buf r) = ?p"
    using rd(4) drop_drop[of "length (ether_frame d)" "off + 16" "pr_buf r"] by (simp add: add.commute)
  have t: "take (length (ether_frame d)) (drop (off + 16) (pr_buf r)) = ether_frame d" by (simp add: rd(4))
  have ep: "extract_payload le r (ether_frame d) (record_time r (dg_sec d) (dg_sub d)) = datagram_view (pr_is_nanosec r) d"
    by (rule extract_payload_exact[OF ok assms(4)]) (simp add: record_time_def)
  have "pcap_loop le r fn off n s = pcap_loop le r fn (off + 16 + length (ether_frame d)) (n + 1) (fn s (datagram_view (pr_is_nanosec r) d))"
    using len by (subst pcap_loop.simps) (simp add: Let_def rd(1-3) t ep del: drop_drop)
  also have "\<dots> = (n + 1 + length ds, foldl fn (fn s (datagram_view (pr_is_nanosec r) d)) (map (datagram_view (pr_is_nanosec r)) ds))"
    using len Cons.prems(3) by (intro Cons.IH[OF nx]) simp_all
  finally show ?case by simp
qed

lemma magic_bytes:
  "le_word (rev (le_bytes 4 kPcapMagicMicroBE)) = (0xd4c3b2a1 :: u32)"
  "le_word (rev (le_bytes 4 kPcapMagicNanoBE)) = (0x4d3cb2a1 :: u32)"
  by code_simp+

lemma parsed_header:
  assumes "24 \<le> length b" and "\<And>x. pr_is_swapped x = sw \<Longrightarrow> read32 le x (drop 20 b) = kLinkTypeEthernet"
    and "load_be32 le b = (if sw then (if nano then 0x4d3cb2a1 else 0xd4c3b2a1) else if nano then kPcapMagicNanoBE else kPcapMagicMicroBE)"
    and "sw \<Longrightarrow> load_le32 le b = (if nano then kPcapMagicNanoBE else kPcapMagicMicroBE)"
  shows "pcap_new le b = \<lparr> pr_buf = b, pr_valid = True, pr_is_swapped = sw, pr_is_nanosec = nano, pr_link_type = kLinkTypeEthernet \<rparr>"
  using assms unfolding pcap_new_def parse_pcap_header_def Let_def
  by (cases sw; cases nano) (simp_all add: kPcapMagicNanoBE_def kPcapMagicMicroBE_def)

lemma capture_header:
  assumes "length hdr = 16"
  shows "pcap_new le (capture sw nano hdr ds @ rest) = \<lparr> pr_buf = capture sw nano hdr ds @ rest, pr_valid = True,
     pr_is_swapped = sw, pr_is_nanosec = nano, pr_link_type = kLinkTypeEthernet \<rparr>"
proof (rule parsed_header)
  let ?b = "capture sw nano hdr ds @ rest" and ?m = "if nano then kPcapMagicNanoBE else kPcapMagicMicroBE"
  have b: "?b = cap_word sw ?m @ hdr @ cap_word sw kLinkTypeEthernet @ concat (map (capture_record sw) ds) @ rest"
    by (simp add: capture_def)
  show "24 \<le> length ?b" unfolding b using assms by simp
  have "drop 20 ?b = cap_word sw kLinkTypeEthernet @ concat (map (capture_record sw) ds) @ rest"
    unfolding b using assms by simp
  then show "read32 le x (drop 20 ?b) = kLinkTypeEthernet" if "pr_is_swapped x = sw" for x :: pcap_reader
    using read_cap_word[OF that] by metis
  have w: "load_be32 le ?b = be_word (cap_word sw ?m)" "load_le32 le ?b = le_word (cap_word sw ?m)"
    unfolding b by (simp_all add: load_be32_value load_le32_value)
  show "load_be32 le ?b = (if sw then (if nano then 0x4d3cb2a1 else 0xd4c3b2a1) else ?m)" "sw \<Longrightarrow> load_le32 le ?b = ?m"
    unfolding w by (auto simp: cap_word_def le_word_le_bytes magic_bytes)
qed

text \<open>C27: A capture of UDP datagrams over Ethernet and IPv4, in either byte order and resolution, with or
  without VLAN tags, IP options and padding, and cut off anywhere in a last record, is read back exactly:
  the packet function sees one view for each whole record, in order, with its time in nanoseconds, its
  ports and exactly the payload of the datagram.\<close>

theorem pcap_read_back:
  assumes "length hdr = 16" and "\<forall>d \<in> set ds. datagram_ok d" and "truncated sw rest"
  shows "for_each_packet le (pcap_new le (capture sw nano hdr ds @ rest)) fn s =
     (length ds, foldl fn s (map (datagram_view nano) ds))"
proof -
  let ?r = "pcap_new le (capture sw nano hdr ds @ rest)"
  note h = capture_header[OF assms(1), of le sw nano ds rest]
  have "drop 24 (pr_buf ?r) = concat (map (capture_record (pr_is_swapped ?r)) ds) @ rest" "24 \<le> length (pr_buf ?r)"
    unfolding h using assms(1) by (simp_all add: capture_def)
  from pcap_loop_exact[OF this assms(2), of le fn 0 s] assms(3) show ?thesis by (simp add: for_each_packet_def h)
qed

definition demo_datagram :: datagram where
  "demo_datagram = \<lparr> dg_sec = 1, dg_sub = 2, dg_orig_len = 50, dg_mac = replicate 12 7, dg_vlan = Some [0, 5], dg_ihl = 0x45,
     dg_ip_head = replicate 8 0, dg_ip_tail = replicate 10 0, dg_src = 9, dg_dst = 10, dg_checksum = [0, 0], dg_payload = [1, 2, 3],
     dg_padding = [0] \<rparr>"

lemma pcap_read_back_witness:
  "for_each_packet True (pcap_new True (capture True False (replicate 16 0) [demo_datagram, demo_datagram] @ [1, 2])) (\<lambda>vs v. vs @ [pv_payload v]) [] =
     (2, [[1, 2, 3], [1, 2, 3]])"
proof -
  have "\<forall>d \<in> set [demo_datagram, demo_datagram]. datagram_ok d" by (simp add: demo_datagram_def datagram_ok_def)
  moreover have "truncated True [1, 2]" by (simp add: truncated_def)
  ultimately show ?thesis
    by (subst pcap_read_back) (simp_all add: datagram_view_def demo_datagram_def)
qed

end
