(* ===== verification/Calendar.thy ===== *)
theory Calendar
  imports Prelude "HOL-Library.Signed_Division"
begin

text \<open>
  The trading calendar, \<open>include/mog/Calendar.hpp\<close>: civil dates as day counts, weekdays, early closes and
  the state of the session at a time of the day. The division and remainder of signed integers
  truncate toward zero, as in C++; the year of the era is computed in 64-bit words.
\<close>

definition kOpenNs :: int where "kOpenNs = 9 * 3600000000000 + 30 * 60000000000"
definition kCloseNs :: int where "kCloseNs = 16 * 3600000000000"
definition kEarlyCloseNs :: int where "kEarlyCloseNs = 13 * 3600000000000"

definition epoch_day :: "int \<Rightarrow> int \<Rightarrow> int \<Rightarrow> int" where
  "epoch_day y m d =
     (let yy = (if m \<le> 2 then y - 1 else y);
          era = (if yy \<ge> 0 then yy else yy - 399) sdiv 400;
          yoe = word_of_int (yy - era * 400) :: u64;
          doy = (153 * word_of_int (m + (if m > 2 then - 3 else 9)) + 2) div 5 + word_of_int d - 1;
          doe = yoe * 365 + yoe div 4 - yoe div 100 + doy
      in era * 146097 + sint doe - 719468)"

definition weekday :: "int \<Rightarrow> int" where
  "weekday day = (day smod 7 + 7 + 4) smod 7"

record calendar =
  cl_first_day :: int
  cl_last_day :: int
  cl_early_closes :: "bool list"

definition calendar_make :: "int \<times> int \<times> int \<Rightarrow> int \<times> int \<times> int \<Rightarrow> calendar" where
  "calendar_make = (\<lambda>(y0, m0, d0) (y1, m1, d1).
     (let f = epoch_day y0 m0 d0;
          l = epoch_day y1 m1 d1;
          span = (if l \<ge> f then nat (l - f + 1) else 0)
      in \<lparr> cl_first_day = f, cl_last_day = l, cl_early_closes = replicate span False \<rparr>))"

definition add_early_close :: "int \<times> int \<times> int \<Rightarrow> calendar \<Rightarrow> calendar" where
  "add_early_close = (\<lambda>(y, m, d) c.
     (let day = epoch_day y m d
      in if day \<ge> cl_first_day c \<and> day \<le> cl_last_day c
         then let idx = nat (day - cl_first_day c)
              in if idx < length (cl_early_closes c) then c\<lparr> cl_early_closes := (cl_early_closes c)[idx := True] \<rparr> else c
         else c))"

definition trading_day :: "int \<Rightarrow> bool" where
  "trading_day day \<longleftrightarrow> weekday day \<noteq> 0 \<and> weekday day \<noteq> 6"

definition close_ns :: "calendar \<Rightarrow> int \<Rightarrow> int" where
  "close_ns c day =
     (if day < cl_first_day c \<or> day > cl_last_day c then kCloseNs
      else let idx = nat (day - cl_first_day c)
           in if idx \<ge> length (cl_early_closes c) then kCloseNs
              else if cl_early_closes c ! idx then kEarlyCloseNs else kCloseNs)"

datatype session_state = BeforeOpen | InSession | AfterClose | NonTradingDay

definition classify_time :: "calendar \<Rightarrow> int \<Rightarrow> int \<Rightarrow> session_state" where
  "classify_time cal day ns_of_day_et =
     (if \<not> trading_day day then NonTradingDay
      else if ns_of_day_et < kOpenNs then BeforeOpen
      else if ns_of_day_et > close_ns cal day then AfterClose
      else InSession)"

text \<open>The day count steps by one from each civil date to the next, and the marked days close early.\<close>

section \<open>Civil dates\<close>

definition leap_year :: "int \<Rightarrow> bool" where
  "leap_year y \<longleftrightarrow> 4 dvd y \<and> (\<not> 100 dvd y \<or> 400 dvd y)"

definition month_length :: "int \<Rightarrow> int \<Rightarrow> int" where
  "month_length y m = (if m = 2 then (if leap_year y then 29 else 28) else if m \<in> {4, 6, 9, 11} then 30 else 31)"

definition valid_date :: "int \<times> int \<times> int \<Rightarrow> bool" where
  "valid_date = (\<lambda>(y, m, d). 1 \<le> m \<and> m \<le> 12 \<and> 1 \<le> d \<and> d \<le> month_length y m)"

definition next_date :: "int \<times> int \<times> int \<Rightarrow> int \<times> int \<times> int" where
  "next_date = (\<lambda>(y, m, d). if d < month_length y m then (y, m, d + 1)
     else if m < 12 then (y, m + 1, 1) else (y + 1, 1, 1))"

definition day_of :: "int \<times> int \<times> int \<Rightarrow> int" where
  "day_of = (\<lambda>(y, m, d). epoch_day y m d)"

lemma era_floor: "(if yy \<ge> 0 then yy else yy - 399) sdiv 400 = yy div (400 :: int)"
proof (cases "yy \<ge> 0")
  case True
  then show ?thesis by (cases "yy = 0") (simp_all add: signed_divide_int_def)
next
  case False
  have "- ((399 - yy) div 400) = yy div 400" using False by linarith
  then show ?thesis using False by (simp add: signed_divide_int_def)
qed

text \<open>The count of days before the first of March of the year \<open>yy\<close>.\<close>

definition years_days :: "int \<Rightarrow> int" where
  "years_days yy = 365 * yy + (yy div 4 - yy div 100 + yy div 400)"

lemma div_step:
  assumes "0 < (k :: int)"
  shows "y div k = (y - 1) div k + (if k dvd y then 1 else 0)"
proof (cases "k dvd y")
  case True
  then obtain q where q: "y = k * q" by blast
  have "(y - 1) div k = q - 1" by (rule int_div_pos_eq[of _ _ _ "k - 1"]) (use assms q in \<open>simp_all add: algebra_simps\<close>)
  then show ?thesis using q True assms by simp
next
  case False
  then have r: "0 < y mod k" using assms by (metis dvd_eq_mod_eq_0 pos_mod_sign order_le_less)
  have "(y - 1) div k = y div k"
  proof (rule int_div_pos_eq[of _ _ _ "y mod k - 1"])
    show "y - 1 = k * (y div k) + (y mod k - 1)" by simp
    show "0 \<le> y mod k - 1" using r by simp
    show "y mod k - 1 < k" using pos_mod_bound[OF assms, of y] by simp
  qed
  then show ?thesis using False by simp
qed

lemma years_days_step: "years_days y = years_days (y - 1) + (if leap_year y then 366 else 365)"
proof -
  have "4 dvd y" if "100 dvd y" using dvd_trans[of 4 100 y] that by simp
  moreover have "100 dvd y" if "400 dvd y" using dvd_trans[of 100 400 y] that by simp
  ultimately consider "\<not> 4 dvd y" "\<not> 100 dvd y" "\<not> 400 dvd y" | "4 dvd y" "\<not> 100 dvd y" "\<not> 400 dvd y"
    | "4 dvd y" "100 dvd y" "\<not> 400 dvd y" | "4 dvd y" "100 dvd y" "400 dvd y" by blast
  then have "y div 4 - y div 100 + y div 400 = (y - 1) div 4 - (y - 1) div 100 + (y - 1) div 400 + (if leap_year y then 1 else 0)"
    unfolding leap_year_def using div_step[of 4 y] div_step[of 100 y] div_step[of 400 y] by cases simp_all
  moreover have "a = b + (if L then 1 else 0) \<Longrightarrow> 365 * y + a = 365 * (y - 1) + b + (if L then 366 else 365)" for a b L
    by simp
  ultimately show ?thesis unfolding years_days_def by blast
qed

lemma years_days_era: "years_days yy = (yy div 400) * 146097 + 365 * (yy mod 400) + (yy mod 400) div 4 - (yy mod 400) div 100"
proof -
  let ?e = "yy div 400" and ?r = "yy mod 400"
  have yy: "yy = ?r + 4 * (100 * ?e)" "yy = ?r + 100 * (4 * ?e)" by simp_all
  have "(?r + 4 * (100 * ?e)) div 4 = 100 * ?e + ?r div 4" "(?r + 100 * (4 * ?e)) div 100 = 4 * ?e + ?r div 100"
    by (rule div_mult_self2; simp)+
  then have "yy div 4 = 100 * ?e + ?r div 4" "yy div 100 = 4 * ?e + ?r div 100" using yy by metis+
  then show ?thesis using yy(1) unfolding years_days_def by linarith
qed

text \<open>In the range of months and days the words do not wrap.\<close>

lemma uint_small: "0 \<le> x \<Longrightarrow> x < 2 ^ 64 \<Longrightarrow> uint (word_of_int x :: u64) = x"
  by (simp add: uint_word_of_int_eq take_bit_int_eq_self)

lemma word_of_int_div: "0 \<le> x \<Longrightarrow> x < 2 ^ 64 \<Longrightarrow> 0 < k \<Longrightarrow> k < 2 ^ 64 \<Longrightarrow> word_of_int x div word_of_int k = (word_of_int (x div k) :: u64)"
  by (simp add: word_div_def uint_small)

lemma era_days:
  fixes r p d :: int
  assumes "0 \<le> r" and "r < 400" and "0 \<le> p" and "p \<le> 11" and "1 \<le> d" and "d \<le> 31"
  shows "sint (word_of_int r * 365 + word_of_int r div 4 - word_of_int r div 100 +
      ((153 * word_of_int p + 2) div 5 + word_of_int d - 1) :: u64) =
    365 * r + r div 4 - r div 100 + ((153 * p + 2) div 5 + d - 1)"
proof -
  have "word_of_int r div 4 = (word_of_int (r div 4) :: u64)" "word_of_int r div 100 = (word_of_int (r div 100) :: u64)"
    using word_of_int_div[of r 4] word_of_int_div[of r 100] assms(1,2) by simp_all
  moreover have "(153 * word_of_int p + 2) div 5 = (word_of_int ((153 * p + 2) div 5) :: u64)"
    using word_of_int_div[of "153 * p + 2" 5] assms(3,4) by simp
  ultimately have eq: "word_of_int r * 365 + word_of_int r div 4 - word_of_int r div 100 +
      ((153 * word_of_int p + 2) div 5 + word_of_int d - 1) =
    (word_of_int (365 * r + r div 4 - r div 100 + ((153 * p + 2) div 5 + d - 1)) :: u64)" (is "_ = word_of_int ?x")
    by (simp add: mult.commute)
  have "0 \<le> r div 4" "r div 4 \<le> 99" "0 \<le> r div 100" "r div 100 \<le> 3" "0 \<le> (153 * p + 2) div 5" "(153 * p + 2) div 5 \<le> 337"
    using assms(1-4) by linarith+
  moreover have "r div 100 \<le> 365 * r" using assms(1) by linarith
  ultimately have "0 \<le> ?x" "?x < 9223372036854775808" using assms by linarith+
  then have "signed_take_bit 63 ?x = ?x" by (intro signed_take_bit_int_eq_self) simp_all
  moreover have "sint (word_of_int ?x :: u64) = signed_take_bit 63 ?x" by (subst sint_sbintrunc') simp
  ultimately show ?thesis unfolding eq by (rule trans[rotated])
qed

lemma epoch_day_value:
  assumes "1 \<le> m" and "m \<le> 12" and "1 \<le> d" and "d \<le> 31"
  shows "epoch_day y m d = years_days (if m \<le> 2 then y - 1 else y) + (153 * (m + (if m > 2 then - 3 else 9)) + 2) div 5 + d - 1 - 719468"
proof -
  let ?yy = "if m \<le> 2 then y - 1 else y" and ?mp = "m + (if m > 2 then - 3 else 9)"
  have mp: "0 \<le> ?mp" "?mp \<le> 11" using assms by auto
  have "?yy - ?yy div 400 * 400 = ?yy mod 400" by (rule minus_div_mult_eq_mod)
  then have "epoch_day y m d = ?yy div 400 * 146097 + (365 * (?yy mod 400) + ?yy mod 400 div 4 - ?yy mod 400 div 100 +
      ((153 * ?mp + 2) div 5 + d - 1)) - 719468"
    unfolding epoch_day_def Let_def era_floor using era_days[OF _ _ mp assms(3,4), of "?yy mod 400"] by simp
  then show ?thesis unfolding years_days_era[of ?yy] by linarith
qed


lemma epoch_day_first: "epoch_day 1970 1 1 = 0"
  by code_simp

lemma next_day_counts:
  assumes "valid_date (y, m, d)"
  shows "day_of (next_date (y, m, d)) = day_of (y, m, d) + 1"
proof -
  have md: "1 \<le> m" "m \<le> 12" "1 \<le> d" "d \<le> month_length y m" using assms by (simp_all add: valid_date_def)
  have len: "month_length y' m' \<le> 31" "28 \<le> month_length y' m'" for y' m' by (auto simp: month_length_def)
  show ?thesis
  proof (cases "d < month_length y m")
    case True
    then have "d + 1 \<le> 31" using len(1)[of y m] by linarith
    then show ?thesis using True md epoch_day_value[of m d y] epoch_day_value[of m "d + 1" y]
      by (simp add: next_date_def day_of_def)
  next
    case False
    then have d: "d = month_length y m" using md by simp
    have "m = 1 \<or> m = 2 \<or> m = 3 \<or> m = 4 \<or> m = 5 \<or> m = 6 \<or> m = 7 \<or> m = 8 \<or> m = 9 \<or> m = 10 \<or> m = 11 \<or> m = 12"
      using md(1,2) by presburger
    then show ?thesis unfolding d
      by (elim disjE) (simp_all add: next_date_def day_of_def epoch_day_value month_length_def years_days_step[of y])
  qed
qed


lemma weekday_mod: "weekday day = (day + 4) mod 7"
proof -
  obtain q where q: "day smod 7 = day - q * 7" by (metis minus_sdiv_mult_eq_smod)
  have "0 \<le> day smod 7 + 7 + 4" using smod_int_range[of 7 day] by auto
  then have "weekday day = (day smod 7 + 7 + 4) mod 7" unfolding weekday_def by (simp add: smod_mod_positive)
  also have "day smod 7 + 7 + 4 = day + 4 + 7 * (1 - q)" unfolding q by simp
  finally show ?thesis by (simp only: mod_mult_self2)
qed

text \<open>C37: The day number is a calendar. The first of January 1970 has number zero and is a Thursday, and for every valid
  civil date the next civil date has the next number and the next day of the week, across the
  ends of months, of leap and common years and of centuries, before and after 1970.
\<close>

theorem calendar_counts_days:
  assumes "valid_date d"
  shows "day_of (1970, 1, 1) = 0 \<and> weekday 0 = 4 \<and> day_of (next_date d) = day_of d + 1 \<and>
    weekday (day_of (next_date d)) = (weekday (day_of d) + 1) mod 7"
proof (intro conjI)
  obtain y m n where d: "d = (y, m, n)" by (cases d)
  show "day_of (1970, 1, 1) = 0" and "weekday 0 = 4" by (simp_all add: day_of_def epoch_day_first weekday_mod)
  show step: "day_of (next_date d) = day_of d + 1" using next_day_counts assms unfolding d by blast
  show "weekday (day_of (next_date d)) = (weekday (day_of d) + 1) mod 7"
    unfolding step weekday_mod by (simp add: mod_simps add.commute)
qed

lemma calendar_counts_days_witness: "day_of (2000, 3, 1) = day_of (2000, 2, 29) + 1"
proof -
  have "valid_date (2000, 2, 29)" by (simp add: valid_date_def month_length_def leap_year_def)
  from calendar_counts_days[OF this] show ?thesis by (simp add: next_date_def month_length_def leap_year_def)
qed

text \<open>A marked day inside the covered range closes early; a mark outside the range has no effect.\<close>

lemma day_offset: "a \<le> x \<Longrightarrow> x \<le> b \<Longrightarrow> nat (x - a) < nat (b - a + 1)" "a \<le> x \<Longrightarrow> a \<le> y \<Longrightarrow> nat (x - a) = nat (y - a) \<longleftrightarrow> x = y"
  for a b x y :: int
  by auto

lemma early_close_marked:
  assumes "day_of f \<le> day_of d" and "day_of d \<le> day_of l"
  shows "close_ns (add_early_close d (calendar_make f l)) day = (if day = day_of d then kEarlyCloseNs else kCloseNs)"
proof -
  define a b x where "a = day_of f" and "b = day_of l" and "x = day_of d"
  have ab: "a \<le> x" "x \<le> b" using assms by (simp_all add: a_def b_def x_def)
  define cal where "cal = \<lparr> cl_first_day = a, cl_last_day = b, cl_early_closes = replicate (nat (b - a + 1)) False \<rparr>"
  have make: "calendar_make f l = cal"
    using ab by (cases f; cases l) (simp add: calendar_make_def cal_def a_def b_def x_def day_of_def Let_def)
  have idx: "nat (x - a) < nat (b - a + 1)" using day_offset(1) ab .
  have x': "(case d of (y, m, n) \<Rightarrow> epoch_day y m n) = x" by (simp add: x_def day_of_def)
  have mark: "add_early_close d cal = cal\<lparr> cl_early_closes := (replicate (nat (b - a + 1)) False)[nat (x - a) := True] \<rparr>"
    using ab idx x' by (cases d) (simp add: add_early_close_def cal_def Let_def)
  have "close_ns (add_early_close d cal) day = (if day = x then kEarlyCloseNs else kCloseNs)"
  proof (cases "a \<le> day \<and> day \<le> b")
    case True
    define n j k where "n = nat (b - a + 1)" and "j = nat (day - a)" and "k = nat (x - a)"
    have j: "j < n" "j = k \<longleftrightarrow> day = x"
      using True day_offset[of a day] ab(1) unfolding n_def j_def k_def by blast+
    have "close_ns (add_early_close d cal) day = (if (replicate n False)[k := True] ! j then kEarlyCloseNs else kCloseNs)"
      using True j(1) unfolding mark close_ns_def n_def[symmetric] k_def[symmetric] by (simp add: cal_def Let_def flip: j_def)
    moreover have "(replicate n False)[k := True] ! j \<longleftrightarrow> j = k" using j(1) by (cases "j = k") simp_all
    ultimately show ?thesis using j(2) by simp
  next
    case False
    then show ?thesis using ab unfolding mark close_ns_def by (auto simp: cal_def)
  qed
  then show ?thesis unfolding make x_def .
qed

text \<open>Inside the range, a trading day is in session from the open to its close, both included.\<close>

lemma classify_session:
  assumes "day_of f \<le> day_of d" and "day_of d \<le> day_of l" and "trading_day (day_of d)"
  shows "classify_time (add_early_close d (calendar_make f l)) (day_of d) t =
    (if t < kOpenNs then BeforeOpen else if t \<le> kEarlyCloseNs then InSession else AfterClose)"
  using assms by (simp add: classify_time_def early_close_marked)

end
