(* ===== verification/SpscRing.thy ===== *)
theory SpscRing
  imports Prelude "HOL-Library.Sublist"
begin

text \<open>
  The telemetry ring, \<open>include/mog/SpscRing.hpp\<close>: one producer and one consumer thread over two atomic
  cursors and a slot array of \<open>2 ^ k\<close> entries. A step is one access to shared memory by one thread; each
  thread keeps its own view in a program counter. Cursors are 64-bit words. Every shared variable
  has one writer and the slots are handed over by a release store and an acquire load, so the
  interleavings of single accesses are the behaviours, provided no slot is accessed by both threads at once,
  which is proved. The lists \<open>sp_pushed\<close> and \<open>sp_popped\<close> record the values of the calls that
  returned true.
\<close>

section \<open>State\<close>

datatype 'a producer =
    PIdle
  | PLoadTail 'a
  | PLoadHead 'a u64
  | PWrite 'a u64
  | PStoreTail 'a u64

datatype 'a consumer =
    CIdle
  | CLoadHead
  | CLoadTail u64
  | CRead u64
  | CStoreHead 'a u64

record 'a spsc =
  sp_head :: u64
  sp_tail :: u64
  sp_head_cache :: u64
  sp_tail_cache :: u64
  sp_slots :: "'a list"
  sp_producer :: "'a producer"
  sp_consumer :: "'a consumer"
  sp_pushed :: "'a list"
  sp_popped :: "'a list"

definition spsc_new :: "nat \<Rightarrow> 'a \<Rightarrow> 'a spsc" where
  "spsc_new k v = \<lparr> sp_head = 0, sp_tail = 0, sp_head_cache = 0, sp_tail_cache = 0, sp_slots = replicate (2 ^ k) v,
     sp_producer = PIdle, sp_consumer = CIdle, sp_pushed = [], sp_popped = [] \<rparr>"

text \<open>\<open>kCapacity\<close> and the slot of a cursor, \<open>t & kMask\<close>.\<close>

definition kCapacity :: "nat \<Rightarrow> u64" where
  "kCapacity k = of_nat (2 ^ k)"

definition slot_of :: "nat \<Rightarrow> u64 \<Rightarrow> nat" where
  "slot_of k t = unat (t AND (kCapacity k - 1))"

section \<open>The operations, access by access\<close>

definition try_push_access :: "nat \<Rightarrow> 'a spsc \<Rightarrow> 'a spsc option" where
  "try_push_access k s = (case sp_producer s of
     PIdle \<Rightarrow> None
   | PLoadTail v \<Rightarrow>
       let t = sp_tail s
       in Some (s\<lparr> sp_producer := (if t - sp_head_cache s \<ge> kCapacity k then PLoadHead v t else PWrite v t) \<rparr>)
   | PLoadHead v t \<Rightarrow>
       let s = s\<lparr> sp_head_cache := sp_head s \<rparr>
       in Some (s\<lparr> sp_producer := (if t - sp_head_cache s \<ge> kCapacity k then PIdle else PWrite v t) \<rparr>)
   | PWrite v t \<Rightarrow> Some (s\<lparr> sp_slots := (sp_slots s)[slot_of k t := v], sp_producer := PStoreTail v t \<rparr>)
   | PStoreTail v t \<Rightarrow> Some (s\<lparr> sp_tail := t + 1, sp_producer := PIdle, sp_pushed := sp_pushed s @ [v] \<rparr>))"

definition try_pop_access :: "nat \<Rightarrow> 'a spsc \<Rightarrow> 'a spsc option" where
  "try_pop_access k s = (case sp_consumer s of
     CIdle \<Rightarrow> None
   | CLoadHead \<Rightarrow>
       let h = sp_head s
       in Some (s\<lparr> sp_consumer := (if h \<ge> sp_tail_cache s then CLoadTail h else CRead h) \<rparr>)
   | CLoadTail h \<Rightarrow>
       let s = s\<lparr> sp_tail_cache := sp_tail s \<rparr>
       in Some (s\<lparr> sp_consumer := (if h \<ge> sp_tail_cache s then CIdle else CRead h) \<rparr>)
   | CRead h \<Rightarrow> Some (s\<lparr> sp_consumer := CStoreHead (sp_slots s ! slot_of k h) h \<rparr>)
   | CStoreHead x h \<Rightarrow> Some (s\<lparr> sp_head := h + 1, sp_consumer := CIdle, sp_popped := sp_popped s @ [x] \<rparr>))"

definition spsc_size :: "'a spsc \<Rightarrow> nat" where
  "spsc_size s = unat (sp_tail s - sp_head s)"

text \<open>A thread that is idle may call its operation; \<open>push_spin\<close> is a caller that repeats it.\<close>

inductive spsc_step :: "nat \<Rightarrow> 'a spsc \<Rightarrow> 'a spsc \<Rightarrow> bool" for k where
  call_push: "sp_producer s = PIdle \<Longrightarrow> spsc_step k s (s\<lparr> sp_producer := PLoadTail v \<rparr>)"
| push_access: "try_push_access k s = Some s' \<Longrightarrow> spsc_step k s s'"
| call_pop: "sp_consumer s = CIdle \<Longrightarrow> spsc_step k s (s\<lparr> sp_consumer := CLoadHead \<rparr>)"
| pop_access: "try_pop_access k s = Some s' \<Longrightarrow> spsc_step k s s'"

inductive spsc_reach :: "nat \<Rightarrow> 'a \<Rightarrow> 'a spsc \<Rightarrow> bool" for k v where
  reach_new: "spsc_reach k v (spsc_new k v)"
| reach_step: "spsc_reach k v s \<Longrightarrow> spsc_step k s s' \<Longrightarrow> spsc_reach k v s'"

inductive_cases spsc_stepE: "spsc_step k s s'"

section \<open>The invariant\<close>

definition ring_holds :: "nat \<Rightarrow> 'a spsc \<Rightarrow> bool" where
  "ring_holds k s \<longleftrightarrow>
     (let T = length (sp_pushed s); H = length (sp_popped s)
      in length (sp_slots s) = 2 ^ k \<and> H \<le> T \<and> T - H \<le> 2 ^ k \<and>
         sp_tail s = of_nat T \<and> sp_head s = of_nat H \<and> sp_popped s = take H (sp_pushed s) \<and>
         (\<forall>i. H \<le> i \<and> i < T \<longrightarrow> sp_slots s ! (i mod 2 ^ k) = sp_pushed s ! i) \<and>
         unat (sp_head_cache s) \<le> H \<and> unat (sp_tail_cache s) \<le> T)"

definition producer_holds :: "nat \<Rightarrow> 'a spsc \<Rightarrow> bool" where
  "producer_holds k s \<longleftrightarrow>
     (let T = length (sp_pushed s); H = length (sp_popped s)
      in case sp_producer s of
           PIdle \<Rightarrow> True
         | PLoadTail v \<Rightarrow> True
         | PLoadHead v t \<Rightarrow> t = of_nat T
         | PWrite v t \<Rightarrow> t = of_nat T \<and> T - H < 2 ^ k
         | PStoreTail v t \<Rightarrow> t = of_nat T \<and> T - H < 2 ^ k \<and> sp_slots s ! (T mod 2 ^ k) = v)"

definition consumer_holds :: "nat \<Rightarrow> 'a spsc \<Rightarrow> bool" where
  "consumer_holds k s \<longleftrightarrow>
     (let T = length (sp_pushed s); H = length (sp_popped s)
      in case sp_consumer s of
           CIdle \<Rightarrow> True
         | CLoadHead \<Rightarrow> True
         | CLoadTail h \<Rightarrow> h = of_nat H
         | CRead h \<Rightarrow> h = of_nat H \<and> H < T
         | CStoreHead x h \<Rightarrow> h = of_nat H \<and> H < T \<and> x = sp_pushed s ! H)"

definition spsc_inv :: "nat \<Rightarrow> 'a spsc \<Rightarrow> bool" where
  "spsc_inv k s \<longleftrightarrow> ring_holds k s \<and> producer_holds k s \<and> consumer_holds k s"

text \<open>Every interleaving of the two threads keeps the ring's invariant.\<close>

lemma kCapacity_mask: "kCapacity k - 1 = mask k"
  by (simp add: kCapacity_def mask_eq_exp_minus_1)

lemma unat_cursor: "T < 2 ^ 64 \<Longrightarrow> unat (of_nat T :: u64) = T"
  by (simp add: unsigned_of_nat take_bit_nat_eq_self)

lemma slot_of_nat:
  assumes "T < 2 ^ 64"
  shows "slot_of k (of_nat T) = T mod 2 ^ k"
proof -
  have "unat (take_bit k (of_nat T :: u64)) = take_bit k (unat (of_nat T :: u64))" by (simp add: unsigned_take_bit_eq)
  moreover have "unat (of_nat T :: u64) = T" using assms by (simp add: unat_cursor)
  ultimately show ?thesis by (simp add: slot_of_def kCapacity_mask take_bit_eq_mask[symmetric] take_bit_eq_mod)
qed

lemma ring_room:
  assumes "T < 2 ^ 64" and "k < 64" and "unat c \<le> T"
  shows "of_nat T - c \<ge> kCapacity k \<longleftrightarrow> 2 ^ k \<le> T - unat c"
proof -
  have T: "unat (of_nat T :: u64) = T" using assms(1) by (simp add: unat_cursor)
  then have le: "c \<le> of_nat T" using assms(3) by (simp add: word_le_nat_alt)
  have k: "(2::nat) ^ k < 2 ^ 64" using assms(2) by (intro power_strict_increasing) simp_all
  have "unat (kCapacity k) = 2 ^ k" using k unfolding kCapacity_def by (rule unat_cursor)
  moreover have "unat (of_nat T - c) = T - unat c" using unat_sub[OF le] T by simp
  ultimately show ?thesis by (simp add: word_le_nat_alt)
qed

lemma ring_empty:
  assumes "H < 2 ^ 64"
  shows "of_nat H \<ge> (c :: u64) \<longleftrightarrow> unat c \<le> H"
  using assms by (simp add: word_le_nat_alt unat_cursor)

lemma ring_slots_apart:
  assumes "H \<le> i" and "i < T" and "T - H < 2 ^ k"
  shows "i mod 2 ^ k \<noteq> T mod (2 ^ k :: nat)"
proof
  assume "i mod 2 ^ k = T mod 2 ^ k"
  then have "2 ^ k dvd T - i" using assms(2) by (metis mod_eq_dvd_iff_nat less_imp_le)
  moreover have "0 < T - i" "T - i < 2 ^ k" using assms by auto
  ultimately show False using dvd_imp_le by fastforce
qed

lemma ring_holds_dests:
  assumes "ring_holds k s"
  shows "length (sp_slots s) = 2 ^ k" "length (sp_popped s) \<le> length (sp_pushed s)"
    "length (sp_pushed s) - length (sp_popped s) \<le> 2 ^ k" "sp_tail s = of_nat (length (sp_pushed s))"
    "sp_head s = of_nat (length (sp_popped s))" "sp_popped s = take (length (sp_popped s)) (sp_pushed s)"
    "\<And>i. length (sp_popped s) \<le> i \<Longrightarrow> i < length (sp_pushed s) \<Longrightarrow> sp_slots s ! (i mod 2 ^ k) = sp_pushed s ! i"
    "unat (sp_head_cache s) \<le> length (sp_popped s)" "unat (sp_tail_cache s) \<le> length (sp_pushed s)"
  using assms unfolding ring_holds_def Let_def by blast+

text \<open>What each part of the invariant reads.\<close>

lemma consumer_holds_frame [simp]:
  "consumer_holds k (s\<lparr> sp_producer := p \<rparr>) = consumer_holds k s"
  "consumer_holds k (s\<lparr> sp_slots := sl \<rparr>) = consumer_holds k s"
  "consumer_holds k (s\<lparr> sp_tail := t \<rparr>) = consumer_holds k s"
  "consumer_holds k (s\<lparr> sp_head_cache := t \<rparr>) = consumer_holds k s"
  "consumer_holds k (s\<lparr> sp_head := t \<rparr>) = consumer_holds k s"
  "consumer_holds k (s\<lparr> sp_tail_cache := t \<rparr>) = consumer_holds k s"
  by (cases "sp_consumer s"; simp add: consumer_holds_def)+

lemma producer_holds_frame [simp]:
  "producer_holds k (s\<lparr> sp_consumer := c \<rparr>) = producer_holds k s"
  "producer_holds k (s\<lparr> sp_tail := t \<rparr>) = producer_holds k s"
  "producer_holds k (s\<lparr> sp_head_cache := t \<rparr>) = producer_holds k s"
  "producer_holds k (s\<lparr> sp_head := t \<rparr>) = producer_holds k s"
  "producer_holds k (s\<lparr> sp_tail_cache := t \<rparr>) = producer_holds k s"
  by (cases "sp_producer s"; simp add: producer_holds_def)+

lemma ring_holds_frame [simp]:
  "ring_holds k (s\<lparr> sp_consumer := c \<rparr>) = ring_holds k s"
  "ring_holds k (s\<lparr> sp_producer := p \<rparr>) = ring_holds k s"
  by (simp_all add: ring_holds_def)

lemma push_access_inv:
  assumes inv: "spsc_inv k s" and step: "try_push_access k s = Some s'"
    and bound: "length (sp_pushed s') < 2 ^ 64" and k: "k < 64"
  shows "spsc_inv k s'"
proof -
  let ?T = "length (sp_pushed s)" and ?H = "length (sp_popped s)"
  have r: "ring_holds k s" and p: "producer_holds k s" and c: "consumer_holds k s" using inv by (simp_all add: spsc_inv_def)
  note d = ring_holds_dests[OF r]
  have T: "?T < 2 ^ 64" using step bound by (cases "sp_producer s") (auto simp: try_push_access_def Let_def split: if_splits)
  show ?thesis
  proof (cases "sp_producer s")
    case PIdle
    then show ?thesis using step by (simp add: try_push_access_def)
  next
    case (PLoadTail v)
    have "of_nat ?T - sp_head_cache s \<ge> kCapacity k \<longleftrightarrow> 2 ^ k \<le> ?T - unat (sp_head_cache s)"
      using d(2,8) by (intro ring_room[OF T k]) simp
    then show ?thesis
      using PLoadTail step r c d(4,8)
      by (auto simp: try_push_access_def spsc_inv_def producer_holds_def Let_def)
  next
    case (PLoadHead v t)
    have t: "t = of_nat ?T" using p PLoadHead by (simp add: producer_holds_def Let_def)
    have h: "unat (sp_head s) = ?H" using d(2,5) T by (simp add: unat_cursor)
    have "of_nat ?T - sp_head s \<ge> kCapacity k \<longleftrightarrow> 2 ^ k \<le> ?T - ?H"
      using ring_room[OF T k, of "sp_head s"] d(2) h by simp
    moreover have "ring_holds k (s\<lparr> sp_head_cache := sp_head s \<rparr>)" using r h by (simp add: ring_holds_def Let_def)
    ultimately show ?thesis
      using PLoadHead step c t by (auto simp: try_push_access_def spsc_inv_def producer_holds_def Let_def)
  next
    case (PWrite v t)
    have t: "t = of_nat ?T" "?T - ?H < 2 ^ k" using p PWrite by (simp_all add: producer_holds_def Let_def)
    have sl: "slot_of k t = ?T mod 2 ^ k" unfolding t(1) by (rule slot_of_nat[OF T])
    have s': "s' = s\<lparr> sp_slots := (sp_slots s)[?T mod 2 ^ k := v], sp_producer := PStoreTail v t \<rparr>"
      using PWrite step by (simp add: try_push_access_def sl)
    have "(sp_slots s)[?T mod 2 ^ k := v] ! (i mod 2 ^ k) = sp_pushed s ! i" if "?H \<le> i" "i < ?T" for i
      using d(7)[OF that] ring_slots_apart[OF that t(2)] by simp
    then have "ring_holds k s'" using r unfolding s' ring_holds_def Let_def by simp
    moreover have "(sp_slots s)[?T mod 2 ^ k := v] ! (?T mod 2 ^ k) = v" using d(1) by simp
    ultimately show ?thesis using c t by (simp add: s' spsc_inv_def producer_holds_def)
  next
    case (PStoreTail v t)
    have t: "t = of_nat ?T" "?T - ?H < 2 ^ k" "sp_slots s ! (?T mod 2 ^ k) = v" using p PStoreTail by (simp_all add: producer_holds_def Let_def)
    have s': "s' = s\<lparr> sp_tail := of_nat ?T + 1, sp_producer := PIdle, sp_pushed := sp_pushed s @ [v] \<rparr>"
      using PStoreTail step t(1) by (simp add: try_push_access_def)
    have "sp_slots s ! (i mod 2 ^ k) = (sp_pushed s @ [v]) ! i" if "?H \<le> i" "i < Suc ?T" for i
      using d(7)[OF that(1)] that(2) t(3) by (cases "i = ?T") (simp_all add: nth_append)
    then have "ring_holds k s'"
      using d(1-6,8,9) t(2) unfolding s' ring_holds_def Let_def by (simp add: add.commute)
    moreover have "consumer_holds k s'"
      using c unfolding s' consumer_holds_def Let_def by (auto simp: nth_append split: consumer.splits)
    ultimately show ?thesis by (simp add: spsc_inv_def s' producer_holds_def)
  qed
qed

lemma pop_access_inv:
  assumes inv: "spsc_inv k s" and step: "try_pop_access k s = Some s'" and T: "length (sp_pushed s) < 2 ^ 64"
  shows "spsc_inv k s'"
proof -
  let ?T = "length (sp_pushed s)" and ?H = "length (sp_popped s)"
  have r: "ring_holds k s" and p: "producer_holds k s" and c: "consumer_holds k s" using inv by (simp_all add: spsc_inv_def)
  note d = ring_holds_dests[OF r]
  have H: "?H < 2 ^ 64" using d(2) T by simp
  show ?thesis
  proof (cases "sp_consumer s")
    case CIdle
    then show ?thesis using step by (simp add: try_pop_access_def)
  next
    case CLoadHead
    then show ?thesis
      using step r p d(5,9) ring_empty[OF H, of "sp_tail_cache s"]
      by (auto simp: try_pop_access_def spsc_inv_def consumer_holds_def Let_def)
  next
    case (CLoadTail h)
    have h: "h = of_nat ?H" using c CLoadTail by (simp add: consumer_holds_def Let_def)
    have t: "unat (sp_tail s) = ?T" using d(4) T by (simp add: unat_cursor)
    have "ring_holds k (s\<lparr> sp_tail_cache := sp_tail s \<rparr>)" using r t by (simp add: ring_holds_def Let_def)
    then show ?thesis
      using CLoadTail step p h t ring_empty[OF H, of "sp_tail s"]
      by (auto simp: try_pop_access_def spsc_inv_def consumer_holds_def Let_def)
  next
    case (CRead h)
    have h: "h = of_nat ?H" "?H < ?T" using c CRead by (simp_all add: consumer_holds_def Let_def)
    have "slot_of k h = ?H mod 2 ^ k" unfolding h(1) by (rule slot_of_nat[OF H])
    then show ?thesis
      using CRead step r p h d(7)[of ?H] by (auto simp: try_pop_access_def spsc_inv_def consumer_holds_def Let_def)
  next
    case (CStoreHead x h)
    have h: "h = of_nat ?H" "?H < ?T" "x = sp_pushed s ! ?H" using c CStoreHead by (simp_all add: consumer_holds_def Let_def)
    have s': "s' = s\<lparr> sp_head := of_nat ?H + 1, sp_consumer := CIdle, sp_popped := sp_popped s @ [x] \<rparr>"
      using CStoreHead step h(1) by (simp add: try_pop_access_def)
    have "take (Suc ?H) (sp_pushed s) = sp_popped s @ [x]"
      using h(2,3) d(6) by (simp add: take_Suc_conv_app_nth)
    then have "ring_holds k s'"
      using d(1-5,7-9) h(2) unfolding s' ring_holds_def Let_def by (simp add: add.commute)
    moreover have "producer_holds k s'"
      using p unfolding s' producer_holds_def Let_def by (cases "sp_producer s") auto
    ultimately show ?thesis by (simp add: spsc_inv_def s' consumer_holds_def)
  qed
qed

lemma spsc_step_inv:
  assumes "spsc_step k s s'" and "spsc_inv k s" and "length (sp_pushed s') < 2 ^ 64" and "k < 64"
  shows "spsc_inv k s'"
  using assms(1)
proof (cases rule: spsc_step.cases)
  case (call_push v)
  then show ?thesis using assms(2) by (simp add: spsc_inv_def producer_holds_def)
next
  case push_access
  then show ?thesis using push_access_inv assms(2-4) by blast
next
  case call_pop
  then show ?thesis using assms(2) by (simp add: spsc_inv_def consumer_holds_def)
next
  case pop_access
  then have "sp_pushed s' = sp_pushed s" by (auto simp: try_pop_access_def Let_def split: consumer.splits if_splits)
  then show ?thesis using pop_access_inv[OF assms(2) pop_access] assms(3) by simp
qed

lemma pushed_grows:
  assumes "spsc_step k s s'"
  shows "length (sp_pushed s) \<le> length (sp_pushed s')"
  using assms
  by (cases rule: spsc_stepE)
    (auto simp: try_push_access_def try_pop_access_def Let_def split: producer.splits consumer.splits if_splits)

lemma spsc_new_inv: "spsc_inv k (spsc_new k v)"
  by (simp add: spsc_inv_def spsc_new_def ring_holds_def producer_holds_def consumer_holds_def)

lemma spsc_reach_inv:
  "spsc_reach k v s \<Longrightarrow> length (sp_pushed s) < 2 ^ 64 \<Longrightarrow> k < 64 \<Longrightarrow> spsc_inv k s"
proof (induction rule: spsc_reach.induct)
  case reach_new
  then show ?case by (simp add: spsc_new_inv)
next
  case (reach_step s s')
  then show ?case using spsc_step_inv pushed_grows by (metis le_less_trans)
qed

text \<open>C26: In every interleaving of the producer and the consumer, while fewer than 2 to the 64 values were
  pushed: the values popped are the first of the values pushed, in order; the size is the number of
  those between and at most the capacity; no slot is written by the producer while the consumer reads
  it; a push is refused only when the ring holds its capacity and a pop only when it is empty, at the
  access that decides it.\<close>

theorem spsc_fifo:
  assumes "spsc_reach k v s" and "length (sp_pushed s) < 2 ^ 64" and "k < 64"
  shows "prefix (sp_popped s) (sp_pushed s) \<and>
     spsc_size s = length (sp_pushed s) - length (sp_popped s) \<and> spsc_size s \<le> 2 ^ k \<and>
     (\<forall>x t h. sp_producer s = PWrite x t \<and> sp_consumer s = CRead h \<longrightarrow> slot_of k t \<noteq> slot_of k h) \<and>
     (\<forall>x t s'. sp_producer s = PLoadHead x t \<and> try_push_access k s = Some s' \<longrightarrow>
        (sp_producer s' = PIdle \<longleftrightarrow> spsc_size s = 2 ^ k)) \<and>
     (\<forall>h s'. sp_consumer s = CLoadTail h \<and> try_pop_access k s = Some s' \<longrightarrow>
        (sp_consumer s' = CIdle \<longleftrightarrow> spsc_size s = 0))"
proof -
  let ?T = "length (sp_pushed s)" and ?H = "length (sp_popped s)"
  have inv: "ring_holds k s" "producer_holds k s" "consumer_holds k s"
    using spsc_reach_inv[OF assms] by (simp_all add: spsc_inv_def)
  note d = ring_holds_dests[OF inv(1)] and T = assms(2)
  have H: "?H < 2 ^ 64" using d(2) T by simp
  have head: "unat (sp_head s) = ?H" and tail: "unat (sp_tail s) = ?T" using d(4,5) T H by (simp_all add: unat_cursor)
  have le: "sp_head s \<le> sp_tail s" using head tail d(2) by (simp add: word_le_nat_alt)
  have size: "spsc_size s = ?T - ?H" using unat_sub[OF le] head tail by (simp add: spsc_size_def)
  have "prefix (sp_popped s) (sp_pushed s)" using d(6) take_is_prefix by metis
  moreover have "slot_of k t \<noteq> slot_of k h" if "sp_producer s = PWrite x t" "sp_consumer s = CRead h" for x t h
    using that inv(2,3) ring_slots_apart[of ?H ?H ?T k] slot_of_nat[OF T, of k] slot_of_nat[OF H, of k]
    by (auto simp: producer_holds_def consumer_holds_def Let_def)
  moreover have "sp_producer s' = PIdle \<longleftrightarrow> spsc_size s = 2 ^ k"
    if "sp_producer s = PLoadHead x t" "try_push_access k s = Some s'" for x t s'
    using that inv(2) ring_room[OF T assms(3), of "sp_head s"] head d(2,3) size
    by (auto simp: try_push_access_def producer_holds_def Let_def split: if_splits)
  moreover have "sp_consumer s' = CIdle \<longleftrightarrow> spsc_size s = 0"
    if "sp_consumer s = CLoadTail h" "try_pop_access k s = Some s'" for h s'
    using that inv(3) ring_empty[OF H, of "sp_tail s"] tail size
    by (auto simp: try_pop_access_def consumer_holds_def Let_def split: if_splits)
  ultimately show ?thesis using size d(3) by (intro conjI allI impI; (elim conjE)?; simp)
qed

text \<open>A push and a pop interleaved: the producer is about to write its second value while the consumer
  holds the first.\<close>

definition demo_ring :: "nat spsc" where
  "demo_ring = \<lparr> sp_head = 0, sp_tail = 1, sp_head_cache = 0, sp_tail_cache = 1, sp_slots = [7, 0],
     sp_producer = PWrite 8 1, sp_consumer = CRead 0, sp_pushed = [7], sp_popped = [] \<rparr>"

lemma demo_ring_reach: "spsc_reach 1 0 demo_ring"
proof -
  have k: "kCapacity (Suc 0) = 2" by (simp add: kCapacity_def)
  have two_slots: "replicate 2 (0::nat) = [0, 0]" by (simp add: numeral_2_eq_2)
  let ?s1 = "(spsc_new 1 (0::nat))\<lparr> sp_producer := PLoadTail 7 \<rparr>"
  let ?s2 = "?s1\<lparr> sp_producer := PWrite 7 0 \<rparr>"
  let ?s3 = "?s2\<lparr> sp_slots := [7, 0], sp_producer := PStoreTail 7 0 \<rparr>"
  let ?s4 = "?s3\<lparr> sp_tail := 1, sp_producer := PIdle, sp_pushed := [7] \<rparr>"
  let ?s5 = "?s4\<lparr> sp_producer := PLoadTail 8 \<rparr>"
  let ?s6 = "?s5\<lparr> sp_consumer := CLoadHead \<rparr>"
  let ?s7 = "?s6\<lparr> sp_consumer := CLoadTail 0 \<rparr>"
  let ?s8 = "?s7\<lparr> sp_tail_cache := 1, sp_consumer := CRead 0 \<rparr>"
  let ?s9 = "?s8\<lparr> sp_producer := PWrite 8 1 \<rparr>"
  note e = try_push_access_def try_pop_access_def spsc_new_def k slot_of_def word_le_nat_alt two_slots
  have "spsc_reach 1 0 ?s1" by (rule spsc_reach.reach_step[OF spsc_reach.reach_new]) (rule call_push, simp add: spsc_new_def)
  then have "spsc_reach 1 0 ?s2" by (rule spsc_reach.reach_step) (rule push_access, simp add: e)
  then have "spsc_reach 1 0 ?s3" by (rule spsc_reach.reach_step) (rule push_access, simp add: e)
  then have "spsc_reach 1 0 ?s4" by (rule spsc_reach.reach_step) (rule push_access, simp add: e)
  then have "spsc_reach 1 0 ?s5" by (rule spsc_reach.reach_step) (rule call_push, simp)
  then have "spsc_reach 1 0 ?s6" by (rule spsc_reach.reach_step) (rule call_pop, simp add: spsc_new_def)
  then have "spsc_reach 1 0 ?s7" by (rule spsc_reach.reach_step) (rule pop_access, simp add: e)
  then have "spsc_reach 1 0 ?s8" by (rule spsc_reach.reach_step) (rule pop_access, simp add: e)
  then have "spsc_reach 1 0 ?s9" by (rule spsc_reach.reach_step) (rule push_access, simp add: e)
  then show ?thesis by (simp add: demo_ring_def spsc_new_def)
qed

lemma spsc_fifo_witness:
  "prefix (sp_popped demo_ring) (sp_pushed demo_ring) \<and> spsc_size demo_ring = 1 \<and> slot_of 1 1 \<noteq> slot_of 1 0"
  using spsc_fifo[OF demo_ring_reach] by (simp add: demo_ring_def)

end
