(* ===== verification/GridRunner.thy ===== *)
theory GridRunner
  imports SimTypes
begin

text \<open>
  The parallel grid runner, \<open>include/mog/GridRunner.hpp\<close>: worker threads claim task indices from an
  atomic counter and write their results into disjoint slots. A step is one access to shared state by one
  worker; \<open>task_fn\<close> is the caller's function of a task. Joining the threads is waiting until every
  worker is done.
\<close>

section \<open>State\<close>

record grid_task =
  gt_task_id :: nat
  gt_config :: sim_config

record grid_result =
  gr_task_id :: nat
  gr_digest :: u64
  gr_total_fills :: nat
  gr_total_filled_shares :: int
  gr_total_filled_notional :: int
  gr_total_fees :: int

definition no_result :: grid_result where
  "no_result = \<lparr> gr_task_id = 0, gr_digest = 0, gr_total_fills = 0, gr_total_filled_shares = 0,
     gr_total_filled_notional = 0, gr_total_fees = 0 \<rparr>"

datatype worker = WFetch | WRun nat | WTag nat | WDone

record grid =
  gd_next_index :: nat
  gd_results :: "grid_result list"
  gd_workers :: "worker list"

text \<open>\<open>thread_count_\<close> is at least one; with at most one worker the caller's thread runs the loop.\<close>

definition grid_start :: "nat \<Rightarrow> grid_task list \<Rightarrow> grid" where
  "grid_start threads tasks =
     (let workers = min threads (length tasks)
      in \<lparr> gd_next_index = 0, gd_results = replicate (length tasks) no_result,
           gd_workers = replicate (if workers \<le> 1 then 1 else workers) WFetch \<rparr>)"

definition worker_access :: "(grid_task \<Rightarrow> grid_result) \<Rightarrow> grid_task list \<Rightarrow> nat \<Rightarrow> grid \<Rightarrow> grid option" where
  "worker_access task_fn tasks w g = (case gd_workers g ! w of
     WFetch \<Rightarrow>
       let idx = gd_next_index g
       in Some (g\<lparr> gd_next_index := idx + 1,
                   gd_workers := (gd_workers g)[w := if idx \<ge> length tasks then WDone else WRun idx] \<rparr>)
   | WRun idx \<Rightarrow>
       Some (g\<lparr> gd_results := (gd_results g)[idx := task_fn (tasks ! idx)], gd_workers := (gd_workers g)[w := WTag idx] \<rparr>)
   | WTag idx \<Rightarrow>
       Some (g\<lparr> gd_results := (gd_results g)[idx := (gd_results g ! idx)\<lparr> gr_task_id := gt_task_id (tasks ! idx) \<rparr>],
                gd_workers := (gd_workers g)[w := WFetch] \<rparr>)
   | WDone \<Rightarrow> None)"

inductive grid_steps :: "(grid_task \<Rightarrow> grid_result) \<Rightarrow> grid_task list \<Rightarrow> grid \<Rightarrow> nat \<Rightarrow> grid \<Rightarrow> bool"
  for task_fn tasks where
  grid_refl: "grid_steps task_fn tasks g 0 g"
| grid_step: "grid_steps task_fn tasks g n g1 \<Longrightarrow> w < length (gd_workers g1) \<Longrightarrow>
    worker_access task_fn tasks w g1 = Some g2 \<Longrightarrow> grid_steps task_fn tasks g (Suc n) g2"

definition grid_done :: "grid \<Rightarrow> bool" where
  "grid_done g \<longleftrightarrow> list_all (\<lambda>w. w = WDone) (gd_workers g)"

text \<open>The results of an empty grid are returned without any worker.\<close>

definition grid_results :: "grid_task list \<Rightarrow> grid \<Rightarrow> grid_result list" where
  "grid_results tasks g = (if tasks = [] then [] else gd_results g)"

text \<open>The results of the grid do not depend on the schedule, and every schedule ends.\<close>

definition final_result :: "(grid_task \<Rightarrow> grid_result) \<Rightarrow> grid_task \<Rightarrow> grid_result" where
  "final_result task_fn t = (task_fn t)\<lparr> gr_task_id := gt_task_id t \<rparr>"

fun claimed :: "worker \<Rightarrow> nat option" where
  "claimed (WRun i) = Some i"
| "claimed (WTag i) = Some i"
| "claimed _ = None"

fun worker_cost :: "worker \<Rightarrow> nat" where
  "worker_cost WFetch = 1"
| "worker_cost (WRun i) = 3"
| "worker_cost (WTag i) = 2"
| "worker_cost WDone = 0"

definition grid_cost :: "grid_task list \<Rightarrow> grid \<Rightarrow> nat" where
  "grid_cost tasks g = 3 * (length tasks - gd_next_index g) + sum_list (map worker_cost (gd_workers g))"

definition grid_inv :: "(grid_task \<Rightarrow> grid_result) \<Rightarrow> grid_task list \<Rightarrow> grid \<Rightarrow> bool" where
  "grid_inv task_fn tasks g \<longleftrightarrow>
     length (gd_results g) = length tasks \<and>
     (\<forall>w i. w < length (gd_workers g) \<and> claimed (gd_workers g ! w) = Some i \<longrightarrow> i < length tasks \<and> i < gd_next_index g) \<and>
     (\<forall>w v i. w < length (gd_workers g) \<and> v < length (gd_workers g) \<and> claimed (gd_workers g ! w) = Some i \<and>
        claimed (gd_workers g ! v) = Some i \<longrightarrow> w = v) \<and>
     (\<forall>w i. w < length (gd_workers g) \<and> gd_workers g ! w = WTag i \<longrightarrow> gd_results g ! i = task_fn (tasks ! i)) \<and>
     (\<forall>i. i < length tasks \<and> i < gd_next_index g \<and> (\<forall>w < length (gd_workers g). claimed (gd_workers g ! w) \<noteq> Some i) \<longrightarrow>
        gd_results g ! i = final_result task_fn (tasks ! i)) \<and>
     (\<forall>w < length (gd_workers g). gd_workers g ! w = WDone \<longrightarrow> length tasks \<le> gd_next_index g)"

lemma cost_update:
  assumes "w < length ws"
  shows "sum_list (map worker_cost (ws[w := x])) + worker_cost (ws ! w) = sum_list (map worker_cost ws) + worker_cost x"
  using assms by (induction ws arbitrary: w) (auto simp: nth_Cons' less_Suc_eq_0_disj split: nat.splits)

lemma access_cost:
  assumes "w < length (gd_workers g)" and "worker_access task_fn tasks w g = Some g'"
  shows "Suc (grid_cost tasks g') = grid_cost tasks g"
proof (cases "gd_workers g ! w")
  case WFetch
  then show ?thesis
    using assms cost_update[OF assms(1), of "if gd_next_index g \<ge> length tasks then WDone else WRun (gd_next_index g)"]
    by (auto simp: worker_access_def grid_cost_def Let_def split: if_splits)
next
  case (WRun i)
  then show ?thesis
    using assms cost_update[OF assms(1), of "WTag i"] by (auto simp: worker_access_def grid_cost_def)
next
  case (WTag i)
  then show ?thesis
    using assms cost_update[OF assms(1), of WFetch] by (auto simp: worker_access_def grid_cost_def)
next
  case WDone
  then show ?thesis using assms by (simp add: worker_access_def)
qed

lemma grid_inv_dests:
  assumes "grid_inv task_fn tasks g"
  shows "length (gd_results g) = length tasks"
    and "\<And>w i. w < length (gd_workers g) \<Longrightarrow> claimed (gd_workers g ! w) = Some i \<Longrightarrow> i < length tasks \<and> i < gd_next_index g"
    and "\<And>w v i. w < length (gd_workers g) \<Longrightarrow> v < length (gd_workers g) \<Longrightarrow> claimed (gd_workers g ! w) = Some i \<Longrightarrow>
        claimed (gd_workers g ! v) = Some i \<Longrightarrow> w = v"
    and "\<And>w i. w < length (gd_workers g) \<Longrightarrow> gd_workers g ! w = WTag i \<Longrightarrow> gd_results g ! i = task_fn (tasks ! i)"
    and "\<And>i. i < length tasks \<Longrightarrow> i < gd_next_index g \<Longrightarrow> (\<And>w. w < length (gd_workers g) \<Longrightarrow> claimed (gd_workers g ! w) \<noteq> Some i) \<Longrightarrow>
        gd_results g ! i = final_result task_fn (tasks ! i)"
    and "\<And>w. w < length (gd_workers g) \<Longrightarrow> gd_workers g ! w = WDone \<Longrightarrow> length tasks \<le> gd_next_index g"
  using assms unfolding grid_inv_def by blast+

lemma grid_invI:
  assumes "length (gd_results g) = length tasks"
    and "\<And>w i. w < length (gd_workers g) \<Longrightarrow> claimed (gd_workers g ! w) = Some i \<Longrightarrow> i < length tasks \<and> i < gd_next_index g"
    and "\<And>w v i. w < length (gd_workers g) \<Longrightarrow> v < length (gd_workers g) \<Longrightarrow> claimed (gd_workers g ! w) = Some i \<Longrightarrow>
        claimed (gd_workers g ! v) = Some i \<Longrightarrow> w = v"
    and "\<And>w i. w < length (gd_workers g) \<Longrightarrow> gd_workers g ! w = WTag i \<Longrightarrow> gd_results g ! i = task_fn (tasks ! i)"
    and "\<And>i. i < length tasks \<Longrightarrow> i < gd_next_index g \<Longrightarrow> (\<And>w. w < length (gd_workers g) \<Longrightarrow> claimed (gd_workers g ! w) \<noteq> Some i) \<Longrightarrow>
        gd_results g ! i = final_result task_fn (tasks ! i)"
    and "\<And>w. w < length (gd_workers g) \<Longrightarrow> gd_workers g ! w = WDone \<Longrightarrow> length tasks \<le> gd_next_index g"
  shows "grid_inv task_fn tasks g"
  unfolding grid_inv_def using assms by blast

lemma access_inv:
  assumes inv: "grid_inv task_fn tasks g" and w: "w < length (gd_workers g)" and step: "worker_access task_fn tasks w g = Some g'"
  shows "grid_inv task_fn tasks g'"
proof (cases "gd_workers g ! w")
  note d = grid_inv_dests[OF inv]
  case WFetch
  let ?n = "gd_next_index g"
  let ?c = "if ?n \<ge> length tasks then WDone else WRun ?n"
  have g': "g' = g\<lparr> gd_next_index := ?n + 1, gd_workers := (gd_workers g)[w := ?c] \<rparr>"
    using WFetch step by (simp add: worker_access_def Let_def)
  have at: "gd_workers g' ! v = (if v = w then ?c else gd_workers g ! v)" if "v < length (gd_workers g)" for v
    using that by (simp add: g' nth_list_update)
  have fresh: "claimed (gd_workers g ! v) \<noteq> Some ?n" if "v < length (gd_workers g)" for v using d(2)[OF that] by blast
  have mine: "claimed ?c = Some i \<longleftrightarrow> i = ?n \<and> ?n < length tasks" for i by auto
  have len: "length (gd_workers g') = length (gd_workers g)" by (simp add: g')
  show ?thesis
  proof (rule grid_invI, unfold len)
    show "length (gd_results g') = length tasks" using d(1) by (simp add: g')
    show "i < length tasks \<and> i < gd_next_index g'" if "v < length (gd_workers g)" "claimed (gd_workers g' ! v) = Some i" for v i
    proof (cases "v = w")
      case True
      then show ?thesis using that(2) mine[of i] at[OF that(1)] by (simp add: g')
    next
      case False
      then show ?thesis using that(2) d(2)[OF that(1), of i] at[OF that(1)] by (simp add: g')
    qed
    show "u = v" if "u < length (gd_workers g)" "v < length (gd_workers g)" "claimed (gd_workers g' ! u) = Some i"
      "claimed (gd_workers g' ! v) = Some i" for u v i
      using that(3,4) d(3)[OF that(1,2), of i] mine[of i] fresh[OF that(1)] fresh[OF that(2)]
      by (cases "u = w"; cases "v = w") (simp_all add: at[OF that(1)] at[OF that(2)] at[OF w] del: claimed.simps)
    show "gd_results g' ! i = task_fn (tasks ! i)" if "v < length (gd_workers g)" "gd_workers g' ! v = WTag i" for v i
      using that(2) d(4)[OF that(1), of i] unfolding at[OF that(1)] by (cases "v = w") (auto simp: g' split: if_splits)
    show "gd_results g' ! i = final_result task_fn (tasks ! i)"
      if i: "i < length tasks" "i < gd_next_index g'" "\<And>v. v < length (gd_workers g) \<Longrightarrow> claimed (gd_workers g' ! v) \<noteq> Some i" for i
    proof -
      have "i \<noteq> ?n" using i(1) i(3)[OF w] mine[of i] at[OF w] by auto
      then have "i < ?n" using i(2) by (simp add: g')
      moreover have "claimed (gd_workers g ! v) \<noteq> Some i" if "v < length (gd_workers g)" for v
        using i(3)[OF that] WFetch at[OF that] by (cases "v = w") auto
      ultimately show ?thesis using d(5)[OF i(1)] by (simp add: g')
    qed
    show "length tasks \<le> gd_next_index g'" if "v < length (gd_workers g)" "gd_workers g' ! v = WDone" for v
      using that(2) d(6)[OF that(1)] unfolding at[OF that(1)] by (cases "v = w") (auto simp: g' split: if_splits)
  qed
next
  note d = grid_inv_dests[OF inv]
  case (WRun j)
  have g': "g' = g\<lparr> gd_results := (gd_results g)[j := task_fn (tasks ! j)], gd_workers := (gd_workers g)[w := WTag j] \<rparr>"
    using WRun step by (simp add: worker_access_def)
  have j: "j < length tasks" "j < gd_next_index g" using d(2)[OF w] WRun by auto
  have at: "gd_workers g' ! v = (if v = w then WTag j else gd_workers g ! v)" if "v < length (gd_workers g)" for v
    using that by (simp add: g' nth_list_update)
  have same: "claimed (gd_workers g' ! v) = claimed (gd_workers g ! v)" if "v < length (gd_workers g)" for v
    using WRun at[OF that] by (cases "v = w") auto
  have mine: "v = w" if "v < length (gd_workers g)" "claimed (gd_workers g ! v) = Some j" for v
    using d(3)[OF that(1) w that(2)] WRun by simp
  have len: "length (gd_workers g') = length (gd_workers g)" by (simp add: g')
  show ?thesis
  proof (rule grid_invI, unfold len)
    show "length (gd_results g') = length tasks" using d(1) by (simp add: g')
    show "i < length tasks \<and> i < gd_next_index g'" if "v < length (gd_workers g)" "claimed (gd_workers g' ! v) = Some i" for v i
      using that(2) d(2)[OF that(1), of i] unfolding same[OF that(1)] by (simp add: g')
    show "u = v" if "u < length (gd_workers g)" "v < length (gd_workers g)" "claimed (gd_workers g' ! u) = Some i"
      "claimed (gd_workers g' ! v) = Some i" for u v i
      using that(3,4) d(3)[OF that(1,2), of i] unfolding same[OF that(1)] same[OF that(2)] by simp
    show "gd_results g' ! i = task_fn (tasks ! i)" if "v < length (gd_workers g)" "gd_workers g' ! v = WTag i" for v i
    proof (cases "v = w")
      case True
      then show ?thesis using that(2) at[OF that(1)] j(1) d(1) by (simp add: g')
    next
      case False
      then have "gd_workers g ! v = WTag i" using that(2) at[OF that(1)] by simp
      moreover from this have "j \<noteq> i" using mine[OF that(1)] False by auto
      ultimately show ?thesis using d(4)[OF that(1)] by (simp add: g')
    qed
    show "gd_results g' ! i = final_result task_fn (tasks ! i)"
      if i: "i < length tasks" "i < gd_next_index g'" "\<And>v. v < length (gd_workers g) \<Longrightarrow> claimed (gd_workers g' ! v) \<noteq> Some i" for i
    proof -
      have "i \<noteq> j" using i(3)[OF w] at[OF w] by auto
      then show ?thesis using d(5)[OF i(1)] i(2,3) same by (simp add: g')
    qed
    show "length tasks \<le> gd_next_index g'" if "v < length (gd_workers g)" "gd_workers g' ! v = WDone" for v
      using that(2) d(6)[OF that(1)] unfolding at[OF that(1)] by (cases "v = w") (auto simp: g')
  qed
next
  note d = grid_inv_dests[OF inv]
  case (WTag j)
  have g': "g' = g\<lparr> gd_results := (gd_results g)[j := (gd_results g ! j)\<lparr> gr_task_id := gt_task_id (tasks ! j) \<rparr>],
      gd_workers := (gd_workers g)[w := WFetch] \<rparr>"
    using WTag step by (simp add: worker_access_def)
  have j: "j < length tasks" "j < gd_next_index g" using d(2)[OF w] WTag by auto
  have at: "gd_workers g' ! v = (if v = w then WFetch else gd_workers g ! v)" if "v < length (gd_workers g)" for v
    using that by (simp add: g' nth_list_update)
  have mine: "v = w" if "v < length (gd_workers g)" "claimed (gd_workers g ! v) = Some j" for v
    using d(3)[OF that(1) w that(2)] WTag by simp
  have len: "length (gd_workers g') = length (gd_workers g)" by (simp add: g')
  show ?thesis
  proof (rule grid_invI, unfold len)
    show "length (gd_results g') = length tasks" using d(1) by (simp add: g')
    show "i < length tasks \<and> i < gd_next_index g'" if "v < length (gd_workers g)" "claimed (gd_workers g' ! v) = Some i" for v i
      using that(2) d(2)[OF that(1), of i] unfolding at[OF that(1)] by (cases "v = w") (auto simp: g')
    show "u = v" if "u < length (gd_workers g)" "v < length (gd_workers g)" "claimed (gd_workers g' ! u) = Some i"
      "claimed (gd_workers g' ! v) = Some i" for u v i
      using that(3,4) d(3)[OF that(1,2), of i] unfolding at[OF that(1)] at[OF that(2)] by (cases "u = w"; cases "v = w") auto
    show "gd_results g' ! i = task_fn (tasks ! i)" if "v < length (gd_workers g)" "gd_workers g' ! v = WTag i" for v i
    proof -
      have v: "v \<noteq> w" "gd_workers g ! v = WTag i" using that(2) unfolding at[OF that(1)] by (simp_all split: if_splits)
      then have "i \<noteq> j" using mine[OF that(1)] by auto
      then show ?thesis using d(4)[OF that(1) v(2)] by (simp add: g')
    qed
    show "gd_results g' ! i = final_result task_fn (tasks ! i)"
      if i: "i < length tasks" "i < gd_next_index g'" "\<And>v. v < length (gd_workers g) \<Longrightarrow> claimed (gd_workers g' ! v) \<noteq> Some i" for i
    proof (cases "i = j")
      case True
      then show ?thesis using d(1) d(4)[OF w WTag] j by (simp add: g' final_result_def)
    next
      case False
      have "claimed (gd_workers g ! v) \<noteq> Some i" if "v < length (gd_workers g)" for v
        using i(3)[OF that] at[OF that] WTag False by (cases "v = w") auto
      then show ?thesis using d(5)[OF i(1)] i(2) False by (simp add: g')
    qed
    show "length tasks \<le> gd_next_index g'" if "v < length (gd_workers g)" "gd_workers g' ! v = WDone" for v
      using that(2) d(6)[OF that(1)] unfolding at[OF that(1)] by (cases "v = w") (auto simp: g')
  qed
next
  case WDone
  then show ?thesis using step by (simp add: worker_access_def)
qed

lemma grid_start_workers:
  obtains m where "0 < m" and "m \<le> length tasks + 1"
    and "grid_start threads tasks = \<lparr> gd_next_index = 0, gd_results = replicate (length tasks) no_result, gd_workers = replicate m WFetch \<rparr>"
proof -
  let ?m = "if min threads (length tasks) \<le> 1 then 1 else min threads (length tasks)"
  have "0 < ?m" "?m \<le> length tasks + 1" by auto
  then show thesis using that[of ?m] by (simp add: grid_start_def Let_def)
qed

lemma start_inv: "grid_inv task_fn tasks (grid_start threads tasks)"
proof (rule grid_start_workers[of tasks threads])
  fix m assume "grid_start threads tasks = \<lparr> gd_next_index = 0, gd_results = replicate (length tasks) no_result, gd_workers = replicate m WFetch \<rparr>"
  then show ?thesis by (auto simp: grid_inv_def)
qed

lemma steps_inv:
  assumes "grid_steps task_fn tasks g n g'" and "grid_inv task_fn tasks g"
  shows "grid_inv task_fn tasks g' \<and> n + grid_cost tasks g' = grid_cost tasks g \<and>
     length (gd_workers g') = length (gd_workers g)"
  using assms
proof (induction rule: grid_steps.induct)
  case (grid_refl g)
  then show ?case by simp
next
  case (grid_step g n g1 w g2)
  have "length (gd_workers g2) = length (gd_workers g1)"
    using grid_step.hyps(3) by (auto simp: worker_access_def Let_def split: worker.splits)
  then show ?case
    using grid_step access_inv[OF _ grid_step.hyps(2,3)] access_cost[OF grid_step.hyps(2,3)] by simp
qed

lemma start_cost: "grid_cost tasks (grid_start threads tasks) \<le> 4 * length tasks + 1"
proof (rule grid_start_workers[of tasks threads])
  fix m assume "m \<le> length tasks + 1"
    "grid_start threads tasks = \<lparr> gd_next_index = 0, gd_results = replicate (length tasks) no_result, gd_workers = replicate m WFetch \<rparr>"
  then show ?thesis by (simp add: grid_cost_def sum_list_replicate)
qed

text \<open>C36: Whatever the number of threads and the schedule, a grid run makes at most four accesses for each
  task and one more before no worker can continue, a run that cannot continue has all workers done,
  and the results are then those of the tasks in order: the schedule does not show.\<close>

theorem grid_deterministic:
  assumes "grid_steps task_fn tasks (grid_start threads tasks) n g"
  shows "n \<le> 4 * length tasks + 1 \<and>
     (grid_done g \<or> (\<exists>w < length (gd_workers g). \<exists>g'. worker_access task_fn tasks w g = Some g')) \<and>
     (grid_done g \<longrightarrow> grid_results tasks g = map (\<lambda>t. (task_fn t)\<lparr> gr_task_id := gt_task_id t \<rparr>) tasks)"
proof -
  note s = steps_inv[OF assms start_inv]
  note d = grid_inv_dests[OF s[THEN conjunct1]]
  have "n \<le> 4 * length tasks + 1" using s start_cost[of tasks threads] by linarith
  moreover have "grid_done g \<or> (\<exists>w < length (gd_workers g). \<exists>g'. worker_access task_fn tasks w g = Some g')"
  proof (cases "grid_done g")
    case False
    then obtain w where "w < length (gd_workers g)" "gd_workers g ! w \<noteq> WDone"
      by (auto simp: grid_done_def list_all_length)
    then show ?thesis by (cases "gd_workers g ! w") (auto simp: worker_access_def Let_def)
  qed simp
  moreover have "grid_results tasks g = map (\<lambda>t. (task_fn t)\<lparr> gr_task_id := gt_task_id t \<rparr>) tasks" if dn: "grid_done g"
  proof -
    have all: "gd_workers g ! w = WDone" if "w < length (gd_workers g)" for w
      using dn that by (simp add: grid_done_def list_all_length)
    have "0 < length (gd_workers (grid_start threads tasks))" by (rule grid_start_workers[of tasks threads]) simp
    then have "0 < length (gd_workers g)" using s by simp
    then have n: "length tasks \<le> gd_next_index g" using d(6) all by blast
    have "gd_results g ! i = final_result task_fn (tasks ! i)" if "i < length tasks" for i
      using that n all by (intro d(5)) auto
    then show ?thesis using d(1) by (auto simp: grid_results_def final_result_def intro!: nth_equalityI)
  qed
  ultimately show ?thesis by blast
qed

lemma grid_deterministic_witness:
  "\<forall>c. \<exists>g. grid_steps (\<lambda>t. no_result) [\<lparr> gt_task_id = 9, gt_config = c \<rparr>] (grid_start 4 [\<lparr> gt_task_id = 9, gt_config = c \<rparr>]) 4 g \<and>
     grid_done g \<and> grid_results [\<lparr> gt_task_id = 9, gt_config = c \<rparr>] g = [no_result\<lparr> gr_task_id := 9 \<rparr>]"
proof
  fix c
  let ?ts = "[\<lparr> gt_task_id = 9, gt_config = c \<rparr>]" and ?f = "\<lambda>t. no_result"
  let ?r = "no_result\<lparr> gr_task_id := 9 \<rparr>"
  have st: "grid_start 4 ?ts = \<lparr> gd_next_index = 0, gd_results = [no_result], gd_workers = [WFetch] \<rparr>"
    by (simp add: grid_start_def)
  have "grid_steps ?f ?ts (grid_start 4 ?ts) (Suc 0) \<lparr> gd_next_index = 1, gd_results = [no_result], gd_workers = [WRun 0] \<rparr>"
    by (rule grid_step[OF grid_refl, where w = 0]) (simp_all add: st worker_access_def)
  then have "grid_steps ?f ?ts (grid_start 4 ?ts) (Suc (Suc 0)) \<lparr> gd_next_index = 1, gd_results = [no_result], gd_workers = [WTag 0] \<rparr>"
    by (rule grid_step[where w = 0]) (simp_all add: worker_access_def)
  then have "grid_steps ?f ?ts (grid_start 4 ?ts) (Suc (Suc (Suc 0))) \<lparr> gd_next_index = 1, gd_results = [?r], gd_workers = [WFetch] \<rparr>"
    by (rule grid_step[where w = 0]) (simp_all add: worker_access_def)
  then have run: "grid_steps ?f ?ts (grid_start 4 ?ts) (Suc (Suc (Suc (Suc 0)))) \<lparr> gd_next_index = 2, gd_results = [?r], gd_workers = [WDone] \<rparr>"
    by (rule grid_step[where w = 0]) (simp_all add: worker_access_def)
  have n: "Suc (Suc (Suc (Suc 0))) = 4" by simp
  from grid_deterministic[OF run] run show "\<exists>g. grid_steps ?f ?ts (grid_start 4 ?ts) 4 g \<and> grid_done g \<and> grid_results ?ts g = [?r]"
    unfolding n by (intro exI conjI) (assumption, simp_all add: grid_done_def)
qed

end
