(* ===== verification/ScriptRun.thy ===== *)
theory ScriptRun
  imports SimFrame DiffProps Digests
begin

text \<open>
  Scripted runs, \<open>include/mog/SimRun.hpp\<close>: the script parser, the drive of the simulator over its rows, the
  event log and its lines. Undefined signed overflow in the parser and a violated contract of the
  simulator are the outer \<open>None\<close>; a script that is refused is \<open>Inl BadScript\<close>. The trace of the simulator is
  kept as bytes in \<open>si_trace\<close>; its digest is that of \<open>Digests\<close>, in the mode of the configuration.
\<close>

section \<open>Data\<close>

record event_record =
  er_type :: char
  er_ts_ns :: u64
  er_ref :: u64
  er_side :: char
  er_price_ticks :: int
  er_qty :: u32
  er_fee_cash :: int
  er_mid_ticks :: int
  er_ledger :: char
  er_submit_ns :: u64

definition default_event :: event_record where
  "default_event = \<lparr> er_type = CHR ''F'', er_ts_ns = 0, er_ref = 0, er_side = CHR ''B'', er_price_ticks = 0, er_qty = 0,
     er_fee_cash = 0, er_mid_ticks = 0, er_ledger = CHR ''M'', er_submit_ns = 0 \<rparr>"

record run_summary =
  rn_script_rows :: nat
  rn_fills :: nat
  rn_maker_fills :: nat
  rn_taker_fills :: nat
  rn_prints :: nat
  rn_volume_ticks :: int
  rn_fees_paid_cash :: int
  rn_digest_high :: u64
  rn_digest_mode :: digest_mode
  rn_events :: "event_record list"

definition empty_run :: run_summary where
  "empty_run = \<lparr> rn_script_rows = 0, rn_fills = 0, rn_maker_fills = 0, rn_taker_fills = 0, rn_prints = 0,
     rn_volume_ticks = 0, rn_fees_paid_cash = 0, rn_digest_high = 0, rn_digest_mode = GoldenDigest, rn_events = [] \<rparr>"

datatype script_error = BadScript

record script_row =
  sr_kind :: string
  sr_ts :: u64
  sr_side :: char
  sr_price :: int
  sr_qty :: u32
  sr_ref :: u64
  sr_flags :: string

section \<open>The flags of a row\<close>

text \<open>Decimal digits accumulated in a signed 64-bit integer: overflow is undefined.\<close>

fun accumulate :: "string \<Rightarrow> int \<Rightarrow> int option option" where
  "accumulate [] val = Some (Some val)"
| "accumulate (ch # cs) val =
     (if \<not> decimal_digit ch then Some None
      else let v = val * 10 + int (digit_value ch)
           in if v < 2 ^ 63 then accumulate cs v else None)"

text \<open>The offset after the colon: an explicit sign, then at least one digit.\<close>

definition flag_offset :: "string \<Rightarrow> int option option" where
  "flag_offset s =
     (let neg = (s \<noteq> [] \<and> hd s = CHR ''-'');
          num = (if s \<noteq> [] \<and> (hd s = CHR ''-'' \<or> hd s = CHR ''+'') then tl s else s)
      in if num = [] then Some None
         else do {
           r \<leftarrow> accumulate num 0;
           Some (case r of None \<Rightarrow> None | Some off \<Rightarrow> Some (if neg then - off else off))
         })"

definition flag_kind :: "string \<Rightarrow> int \<Rightarrow> sim_inbound \<Rightarrow> bool \<times> sim_inbound" where
  "flag_kind kind off ib =
     (let set_peg = (\<lambda>p. (True, ib\<lparr> in_peg := p, in_peg_offset_ticks := off, in_non_displayed := True,
                             in_type := DayLimit \<rparr>))
      in if kind = ''mid'' then set_peg PegMid
         else if kind = ''bid'' then set_peg PegBid
         else if kind = ''ask'' then set_peg PegAsk
         else if kind = ''nd'' then
           (let ib = ib\<lparr> in_non_displayed := True, in_peg_offset_ticks := off \<rparr>
            in (True, if in_peg ib \<noteq> PegNone then ib\<lparr> in_non_displayed := True, in_type := DayLimit \<rparr> else ib))
         else (False, ib))"

definition apply_flag_column :: "string \<Rightarrow> sim_inbound \<Rightarrow> (bool \<times> sim_inbound) option" where
  "apply_flag_column flags ib =
     (if flags = [] \<or> flags = ''nd'' then Some (True, ib\<lparr> in_non_displayed := (flags = ''nd'') \<rparr>)
      else let kind = takeWhile (\<lambda>c. c \<noteq> CHR '':'') flags
           in if CHR '':'' \<notin> set flags then Some (flag_kind kind 0 ib)
              else do {
                r \<leftarrow> flag_offset (tl (dropWhile (\<lambda>c. c \<noteq> CHR '':'') flags));
                Some (case r of None \<Rightarrow> (False, ib) | Some off \<Rightarrow> flag_kind kind off ib)
              })"

text \<open>\<open>SimInbound{}\<close>.\<close>

definition default_inbound :: sim_inbound where
  "default_inbound = \<lparr> in_ref = 0, in_side = Buy, in_qty = 0, in_price = 0, in_type = DayLimit, in_peg = PegNone,
     in_peg_offset_ticks = 0, in_non_displayed = False \<rparr>"

section \<open>The script\<close>

text \<open>One field from position \<open>p\<close> of a line; past the end the field is empty.\<close>

definition next_field :: "string \<Rightarrow> nat \<Rightarrow> string \<times> nat" where
  "next_field line p =
     (if p > length line then ([], p)
      else let f = takeWhile (\<lambda>c. c \<noteq> CHR '','') (drop p line)
           in (f, if p + length f = length line then length line + 1 else p + length f + 1))"

definition script_num :: "string \<Rightarrow> int option" where
  "script_num v =
     (if v = [] then Some (- 1)
      else do { r \<leftarrow> accumulate v 0; Some (case r of None \<Rightarrow> - 1 | Some val \<Rightarrow> val) })"

definition control_kind :: "string \<Rightarrow> bool" where
  "control_kind k \<longleftrightarrow> k = ''halt'' \<or> k = ''resume''"

definition known_kind :: "string \<Rightarrow> bool" where
  "known_kind k \<longleftrightarrow> control_kind k \<or> k = ''ext_add'' \<or> k = ''trade'' \<or> k = ''strat_limit'' \<or> k = ''strat_ioc'' \<or> k = ''strat_cancel''"

definition parse_script_row :: "string \<Rightarrow> script_row option option" where
  "parse_script_row line =
     (let (kind, p) = next_field line 0;
          (ts_f, p) = next_field line p;
          (side_f, p) = next_field line p;
          (px_f, p) = next_field line p;
          (qty_f, p) = next_field line p;
          (ref_f, p) = next_field line p
      in do {
        ts \<leftarrow> script_num ts_f;
        let control = control_kind kind;
        if \<not> known_kind kind then Some None
        else if ts < 0 then Some None
        else do {
          px \<leftarrow> (if control then Some 0 else script_num px_f);
          qty \<leftarrow> (if control then Some 0 else script_num qty_f);
          ref \<leftarrow> (if control then Some 0 else script_num ref_f);
          if \<not> control \<and> (px < 0 \<or> qty \<le> 0 \<or> ref < 0 \<or> length side_f \<noteq> 1) then Some None
          else if \<not> control \<and> hd side_f \<noteq> CHR ''B'' \<and> hd side_f \<noteq> CHR ''S'' then Some None
          else do {
            let r = \<lparr> sr_kind = kind, sr_ts = word_of_int ts, sr_side = (if side_f = [] then CHR ''B'' else hd side_f),
                      sr_price = px, sr_qty = word_of_int qty, sr_ref = word_of_int ref, sr_flags = [] \<rparr>;
            if p \<le> length line then do {
              let r = r\<lparr> sr_flags := fst (next_field line p) \<rparr>;
              (ok, _) \<leftarrow> apply_flag_column (sr_flags r) default_inbound;
              Some (if ok then Some r else None)
            } else Some (Some r)
          }
        }
      })"

definition script_header :: string where
  "script_header = ''kind,ts_ns,side,price_ticks,qty,ref''"

definition parse_script_line :: "string \<Rightarrow> bool \<times> script_row list \<Rightarrow> (bool \<times> script_row list) option option" where
  "parse_script_line text = (\<lambda>(first, out).
     (let line = strip_return text
      in if line = [] then Some (Some (first, out))
         else if first then
           Some (if line \<noteq> script_header \<and> line \<noteq> script_header @ '',flags'' then None else Some (False, out))
         else do {
           r \<leftarrow> parse_script_row line;
           Some (case r of None \<Rightarrow> None | Some r \<Rightarrow> Some (first, out @ [r]))
         }))"

text \<open>What \<open>find\<close> cuts at each separator, with the piece after the last one; the lines are cut at newlines.\<close>

function pieces :: "char \<Rightarrow> string \<Rightarrow> string list" where
  "pieces c s =
     (let rest = dropWhile (\<lambda>x. x \<noteq> c) s
      in takeWhile (\<lambda>x. x \<noteq> c) s # (if rest = [] then [] else pieces c (tl rest)))"
  by pat_completeness auto
termination
proof (relation "measure (\<lambda>(_, s). length s)", simp, goal_cases)
  case (1 c s rest)
  then have "length rest \<le> length s" "0 < length rest" by (auto simp: length_dropWhile_le)
  then have "length rest - 1 < length s" by linarith
  then show ?case by simp
qed

declare pieces.simps [simp del]

definition text_lines :: "string \<Rightarrow> string list" where
  "text_lines s = pieces newline s"

fun script_lines :: "string list \<Rightarrow> bool \<times> script_row list \<Rightarrow> (bool \<times> script_row list) option" where
  "script_lines [] st = Some (\<not> fst st, snd st)"
| "script_lines (line # lines) st = do {
     r \<leftarrow> parse_script_line line st;
     case r of None \<Rightarrow> Some (False, snd st) | Some st \<Rightarrow> script_lines lines st
   }"

definition parse_script :: "string \<Rightarrow> script_row list \<Rightarrow> (bool \<times> script_row list) option" where
  "parse_script text out = script_lines (text_lines text) (True, out)"

section \<open>The run\<close>

definition mid_of :: "'d sim \<Rightarrow> int" where
  "mid_of sm =
     (let b = bk_best_bid (si_book sm); a = bk_best_ask (si_book sm)
      in if b = kNoTick \<or> a = kNoTick \<or> b \<le> 0 \<or> a \<le> 0 then 0 else (b + a) div 2)"

definition kStratBase :: u64 where "kStratBase = push_bit 62 1"

definition row_side :: "script_row \<Rightarrow> side" where
  "row_side r = (if sr_side r = CHR ''B'' then Buy else Sell)"

text \<open>The action of a row that is not a control row; a trade counts as a print unless trading is halted.\<close>

definition row_inbound :: "script_row \<Rightarrow> sim_inbound" where
  "row_inbound r = \<lparr> in_ref = sr_ref r + kStratBase, in_side = row_side r, in_qty = uint (sr_qty r), in_price = sr_price r,
     in_type = (if sr_kind r = ''strat_limit'' then DayLimit else Ioc), in_peg = PegNone, in_peg_offset_ticks = 0,
     in_non_displayed = False \<rparr>"

definition row_action :: "('d, 'f) sim_env \<Rightarrow> script_row \<Rightarrow> run_summary \<Rightarrow> 'd sim \<Rightarrow> (run_summary \<times> 'd sim) option" where
  "row_action E r out sm =
     (if sr_kind r = ''ext_add'' then do {
        (_, sm) \<leftarrow> seed_external (sr_ref r) (row_side r) (uint (sr_qty r)) (sr_price r) sm;
        Some (out, sm)
      }
      else if sr_kind r = ''trade'' then do {
        let hit = (if sr_side r = CHR ''B'' then Sell else Buy);
        sm \<leftarrow> apply_external E hit (sr_price r) (uint (sr_qty r)) sm;
        Some (if \<not> si_halted sm then out\<lparr> rn_prints := rn_prints out + 1 \<rparr> else out, sm)
      }
      else if sr_kind r = ''strat_cancel'' then do {
        (_, sm) \<leftarrow> cancel_strategy E (sr_ref r + kStratBase) sm;
        Some (out, sm)
      }
      else do {
        (_, inbound) \<leftarrow> apply_flag_column (sr_flags r) (row_inbound r);
        (_, sm) \<leftarrow> sim_submit E inbound (sr_ts r) sm;
        Some (out, sm)
      })"

text \<open>A fill of one of our resting orders, and a crossing fill of ours, as records of the row.\<close>

definition maker_event :: "'d sim \<Rightarrow> u64 \<Rightarrow> sim_fill_report \<Rightarrow> event_record" where
  "maker_event sm row_ts f = default_event\<lparr> er_type := CHR ''F'', er_ts_ns := row_ts, er_ref := fr_ref f,
     er_side := char_of (unat (fr_side f)), er_price_ticks := fr_price_ticks f, er_qty := fr_qty f, er_fee_cash := fr_fee f,
     er_mid_ticks := mid_of sm, er_ledger := CHR ''M'' \<rparr>"

definition maker_fill :: "'d sim \<Rightarrow> u64 \<Rightarrow> run_summary \<Rightarrow> sim_fill_report \<Rightarrow> run_summary" where
  "maker_fill sm row_ts out f = out\<lparr> rn_events := rn_events out @ [maker_event sm row_ts f],
     rn_volume_ticks := rn_volume_ticks out + fr_price_ticks f * uint (fr_qty f),
     rn_fees_paid_cash := rn_fees_paid_cash out + fr_fee f,
     rn_fills := rn_fills out + 1, rn_maker_fills := rn_maker_fills out + 1 \<rparr>"

definition taker_event :: "'d sim \<Rightarrow> u64 \<Rightarrow> sim_decision \<Rightarrow> event_record" where
  "taker_event sm row_ts d = default_event\<lparr> er_type := CHR ''F'', er_ts_ns := row_ts, er_ref := dc_ref d,
     er_side := char_of (unat (dc_side d)),
     er_price_ticks := sint ((dc_filled_notional d + ucast (dc_filled_qty d) div 2) div ucast (dc_filled_qty d)),
     er_qty := dc_filled_qty d, er_fee_cash := fee_bps_of (dc_filled_notional d) (cf_taker_fee_bps (si_cfg sm)),
     er_mid_ticks := mid_of sm, er_ledger := CHR ''T'', er_submit_ns := dc_decision_ts d \<rparr>"

definition taker_fill :: "'d sim \<Rightarrow> u64 \<Rightarrow> run_summary \<Rightarrow> sim_decision \<Rightarrow> run_summary" where
  "taker_fill sm row_ts out d =
     (if dc_filled_qty d = 0 then out
      else let e = taker_event sm row_ts d
           in out\<lparr> rn_events := rn_events out @ [e],
                   rn_volume_ticks := rn_volume_ticks out + sint (dc_filled_notional d),
                   rn_fees_paid_cash := rn_fees_paid_cash out + er_fee_cash e,
                   rn_fills := rn_fills out + 1, rn_taker_fills := rn_taker_fills out + 1 \<rparr>)"

definition print_event :: "'d sim \<Rightarrow> script_row \<Rightarrow> event_record" where
  "print_event sm r = default_event\<lparr> er_type := CHR ''P'', er_ts_ns := sr_ts r, er_side := sr_side r,
     er_price_ticks := sr_price r, er_qty := sr_qty r, er_mid_ticks := mid_of sm \<rparr>"

text \<open>One row, from the advance of external time to the records of its fills.\<close>

definition run_row :: "('d, 'f) sim_env \<Rightarrow> script_row \<Rightarrow> u64 \<times> run_summary \<times> 'd sim \<Rightarrow> (u64 \<times> run_summary \<times> 'd sim) option" where
  "run_row E r = (\<lambda>(prev_ts, out, sm). do {
     let out = out\<lparr> rn_script_rows := rn_script_rows out + 1 \<rparr>;
     sm \<leftarrow> (if sr_ts r > prev_ts then advance_time E (sr_ts r - prev_ts) sm else Some sm);
     if sr_kind r = ''halt'' then Some (sr_ts r, out, set_halted True sm)
     else if sr_kind r = ''resume'' then Some (sr_ts r, out, set_halted False sm)
     else do {
       (out, sm) \<leftarrow> row_action E r out sm;
       let seen_decisions = length (si_decisions sm);
       sm \<leftarrow> sim_drain E sm;
       let out = foldl (maker_fill sm (sr_ts r)) out (si_reports sm);
       let sm = clear_reports sm;
       let out = foldl (taker_fill sm (sr_ts r)) out (drop seen_decisions (si_decisions sm));
       let out = (if sr_kind r = ''trade'' \<and> \<not> si_halted sm then out\<lparr> rn_events := rn_events out @ [print_event sm r] \<rparr> else out);
       Some (sr_ts r, out, sm)
     }
   })"

fun run_rows :: "('d, 'f) sim_env \<Rightarrow> script_row list \<Rightarrow> u64 \<times> run_summary \<times> 'd sim \<Rightarrow> (u64 \<times> run_summary \<times> 'd sim) option" where
  "run_rows E [] st = Some st"
| "run_rows E (r # rs) st = Option.bind (run_row E r st) (run_rows E rs)"

text \<open>The first eight bytes of the digest of the trace, as a host integer.\<close>

definition digest_high :: "bool \<Rightarrow> digest_mode \<Rightarrow> byte list \<Rightarrow> u64 option" where
  "digest_high le mode trace = do {
     d \<leftarrow> digest_update le trace (digest_new mode);
     dg \<leftarrow> (if mode = FastDigest then Some (finish_fast128 le d) else finish_sha256 d);
     Some (mem_load le (take 8 dg))
   }"

text \<open>\<open>sm\<close> is the simulator constructed from the configuration, with the digest in \<open>mode\<close>.\<close>

definition script_run :: "('d, 'f) sim_env \<Rightarrow> digest_mode \<Rightarrow> 'd sim \<Rightarrow> string \<Rightarrow> (script_error + run_summary) option" where
  "script_run E mode sm text = do {
     (ok, rows) \<leftarrow> parse_script text [];
     if \<not> ok then Some (Inl BadScript)
     else do {
       (_, out, sm) \<leftarrow> run_rows E rows (0, empty_run, sm);
       high \<leftarrow> digest_high (en_le E) mode (si_trace sm);
       Some (Inr (out\<lparr> rn_digest_mode := mode, rn_digest_high := high \<rparr>))
     }
   }"

section \<open>The log\<close>

definition events_header :: string where
  "events_header = ''type,ts_ns,ref,side,price_ticks,qty,fee_cash,mid_ticks,ledger,submit_ns''"

definition event_csv :: "event_record \<Rightarrow> string" where
  "event_csv e = [er_type e] @ '','' @ digits (unat (er_ts_ns e)) @ '','' @ digits (unat (er_ref e)) @ '','' @ [er_side e] @ '','' @
     signed_digits (er_price_ticks e) @ '','' @ digits (unat (er_qty e)) @ '','' @ signed_digits (er_fee_cash e) @ '','' @
     signed_digits (er_mid_ticks e) @ '','' @ [er_ledger e] @ '','' @ digits (unat (er_submit_ns e))"

text \<open>The file the command writes.\<close>

definition events_csv :: "event_record list \<Rightarrow> string" where
  "events_csv es = events_header @ [newline] @ concat (map (\<lambda>e. event_csv e @ [newline]) es)"

end
