(* ===== verification/Tearsheet.thy ===== *)
theory Tearsheet
  imports ScriptRun
begin

text \<open>
  The tearsheet, \<open>include/mog/Tearsheet.hpp\<close>: the parser of the event log and the performance report computed
  from its rows alone. The quotients of doubles (hit rate, relative drawdown, mean markouts) are
  represented by their operands: \<open>rp_hits\<close> and \<open>rp_edge_measurable\<close>, the pairs of drops and peaks, and for each
  horizon the fills with the print they are compared to. Undefined signed overflow in the parser is
  \<open>None\<close>; the sums of the report are integers.
\<close>

section \<open>Data\<close>

record log_row =
  lr_type :: char
  lr_ts_ns :: u64
  lr_side :: char
  lr_price_ticks :: int
  lr_qty :: u32
  lr_fee_cash :: int
  lr_mid_ticks :: int
  lr_ledger :: char

record markout =
  mk_horizon_ns :: u64
  mk_measured :: nat
  mk_pairs :: "(log_row \<times> log_row) list"

record report =
  rp_fills :: nat
  rp_prints :: nat
  rp_buy_qty :: nat
  rp_sell_qty :: nat
  rp_volume_ticks :: int
  rp_fees_cash :: int
  rp_fees_maker_cash :: int
  rp_fees_taker_cash :: int
  rp_final_inventory :: int
  rp_final_mid_ticks :: int
  rp_cash_pnl_ticks :: int
  rp_equity_pnl_ticks :: int
  rp_max_drawdown_ticks :: int
  rp_hits :: nat
  rp_edge_measurable :: nat
  rp_drawdowns :: "(int \<times> int) list"
  rp_markouts :: "markout list"

definition empty_report :: report where
  "empty_report = \<lparr> rp_fills = 0, rp_prints = 0, rp_buy_qty = 0, rp_sell_qty = 0, rp_volume_ticks = 0, rp_fees_cash = 0,
     rp_fees_maker_cash = 0, rp_fees_taker_cash = 0, rp_final_inventory = 0, rp_final_mid_ticks = 0,
     rp_cash_pnl_ticks = 0, rp_equity_pnl_ticks = 0, rp_max_drawdown_ticks = 0, rp_hits = 0, rp_edge_measurable = 0,
     rp_drawdowns = [], rp_markouts = [] \<rparr>"

section \<open>The parser\<close>

text \<open>A field; a position past the end is outside the line, where \<open>substr\<close> throws.\<close>

definition log_field :: "string \<Rightarrow> nat \<Rightarrow> (string \<times> nat) option" where
  "log_field line p = (if p > length line then None else Some (next_field line p))"

definition log_num :: "string \<Rightarrow> int option" where
  "log_num v =
     (if v = [] then Some (- 1)
      else let neg = (hd v = CHR ''-'');
               ds = (if neg then tl v else v)
           in do {
             r \<leftarrow> accumulate ds 0;
             Some (case r of None \<Rightarrow> - 1 | Some val \<Rightarrow> if neg then - val else val)
           })"

definition parse_log_row :: "string \<Rightarrow> log_row option option" where
  "parse_log_row line = do {
     (t, p) \<leftarrow> log_field line 0;
     if length t \<noteq> 1 then Some None
     else do {
       (ts_f, p) \<leftarrow> log_field line p;
       ts \<leftarrow> log_num ts_f;
       (_, p) \<leftarrow> log_field line p;
       (side, p) \<leftarrow> log_field line p;
       (px_f, p) \<leftarrow> log_field line p;
       px \<leftarrow> log_num px_f;
       (qty_f, p) \<leftarrow> log_field line p;
       qty \<leftarrow> log_num qty_f;
       (fee_f, p) \<leftarrow> log_field line p;
       fee \<leftarrow> log_num fee_f;
       (mid_f, p) \<leftarrow> log_field line p;
       mid \<leftarrow> log_num mid_f;
       (led, _) \<leftarrow> log_field line p;
       Some (if ts < 0 \<or> px < 0 \<or> qty \<le> 0 \<or> mid < 0 \<or> length side \<noteq> 1 \<or> length led \<noteq> 1 then None
             else Some \<lparr> lr_type = hd t, lr_ts_ns = word_of_int ts, lr_side = hd side, lr_price_ticks = px,
                         lr_qty = word_of_int qty, lr_fee_cash = fee, lr_mid_ticks = mid, lr_ledger = hd led \<rparr>)
     }
   }"

definition log_prefix :: string where
  "log_prefix = ''type,ts_ns,ref,side,price_ticks,qty,fee_cash,mid_ticks''"

definition parse_log_line :: "string \<Rightarrow> bool \<times> log_row list \<Rightarrow> (bool \<times> log_row list) option option" where
  "parse_log_line text = (\<lambda>(first, out).
     (let line = strip_return text
      in if line = [] then Some (Some (first, out))
         else if first then Some (if take (length log_prefix) line \<noteq> log_prefix then None else Some (False, out))
         else do {
           r \<leftarrow> parse_log_row line;
           Some (case r of None \<Rightarrow> None | Some r \<Rightarrow> Some (first, out @ [r]))
         }))"

fun log_lines :: "string list \<Rightarrow> bool \<times> log_row list \<Rightarrow> (bool \<times> log_row list) option" where
  "log_lines [] st = Some (\<not> fst st, snd st)"
| "log_lines (line # lines) st = do {
     r \<leftarrow> parse_log_line line st;
     case r of None \<Rightarrow> Some (False, snd st) | Some st \<Rightarrow> log_lines lines st
   }"

definition parse_log :: "string \<Rightarrow> log_row list \<Rightarrow> (bool \<times> log_row list) option" where
  "parse_log text out = log_lines (text_lines text) (True, out)"

section \<open>The report\<close>

definition signed_qty :: "log_row \<Rightarrow> int" where
  "signed_qty r = (if lr_side r = CHR ''B'' then uint (lr_qty r) else - uint (lr_qty r))"

text \<open>The first pass: cash, inventory and the totals.\<close>

definition tally_row :: "int \<times> int \<times> report \<Rightarrow> log_row \<Rightarrow> int \<times> int \<times> report" where
  "tally_row = (\<lambda>(cash, inv, rep) r.
     (if lr_type r = CHR ''P'' then (cash, inv, rep\<lparr> rp_prints := rp_prints rep + 1 \<rparr>)
      else if lr_type r \<noteq> CHR ''F'' then (cash, inv, rep)
      else let rep = rep\<lparr> rp_fills := rp_fills rep + 1 \<rparr>;
               flow = - signed_qty r * lr_price_ticks r;
               rep = rep\<lparr> rp_volume_ticks := rp_volume_ticks rep + lr_price_ticks r * uint (lr_qty r),
                          rp_fees_cash := rp_fees_cash rep + lr_fee_cash r \<rparr>;
               rep = (if lr_ledger r = CHR ''M'' then rep\<lparr> rp_fees_maker_cash := rp_fees_maker_cash rep + lr_fee_cash r \<rparr>
                      else if lr_ledger r = CHR ''T'' then rep\<lparr> rp_fees_taker_cash := rp_fees_taker_cash rep + lr_fee_cash r \<rparr>
                      else rep);
               rep = rep\<lparr> rp_buy_qty := rp_buy_qty rep + (if lr_side r = CHR ''B'' then unat (lr_qty r) else 0),
                          rp_sell_qty := rp_sell_qty rep + (if lr_side r = CHR ''S'' then unat (lr_qty r) else 0) \<rparr>;
               rep = (if (if lr_side r = CHR ''B'' then lr_mid_ticks r > lr_price_ticks r else lr_mid_ticks r < lr_price_ticks r)
                      then rep\<lparr> rp_hits := rp_hits rep + 1 \<rparr> else rep);
               rep = (if lr_mid_ticks r > 0 \<and> lr_mid_ticks r \<noteq> lr_price_ticks r
                      then rep\<lparr> rp_edge_measurable := rp_edge_measurable rep + 1 \<rparr> else rep)
           in (cash + flow, inv + signed_qty r, rep)))"

text \<open>The second pass: the equity curve, its running peak and the largest drop.\<close>

definition last_mid :: "log_row list \<Rightarrow> int" where
  "last_mid rows = foldl (\<lambda>m r. if lr_mid_ticks r > 0 then lr_mid_ticks r else m) 0 rows"

record curve =
  cv_cash :: int
  cv_inv :: int
  cv_peak :: int
  cv_drop :: int
  cv_drawdowns :: "(int \<times> int) list"

definition curve_row :: "int \<Rightarrow> curve \<Rightarrow> log_row \<Rightarrow> curve" where
  "curve_row lm c r =
     (let c = (if lr_type r = CHR ''F''
               then c\<lparr> cv_cash := cv_cash c + - signed_qty r * lr_price_ticks r, cv_inv := cv_inv c + signed_qty r \<rparr> else c);
          mid = (if lr_mid_ticks r > 0 then lr_mid_ticks r else lm);
          eq = cv_cash c + cv_inv c * mid;
          c = (if eq > cv_peak c then c\<lparr> cv_peak := eq \<rparr> else c);
          c = (if cv_peak c - eq > cv_drop c then c\<lparr> cv_drop := cv_peak c - eq \<rparr> else c)
      in if cv_peak c > 0 then c\<lparr> cv_drawdowns := cv_drawdowns c @ [(cv_peak c - eq, cv_peak c)] \<rparr> else c)"

definition empty_curve :: curve where
  "empty_curve = \<lparr> cv_cash = 0, cv_inv = 0, cv_peak = 0, cv_drop = 0, cv_drawdowns = [] \<rparr>"

definition equity_pass :: "log_row list \<Rightarrow> report \<Rightarrow> report" where
  "equity_pass rows rep =
     (if rows = [] then rep
      else let lm = last_mid rows;
               c = foldl (curve_row lm) empty_curve rows
           in rep\<lparr> rp_final_mid_ticks := lm, rp_max_drawdown_ticks := cv_drop c, rp_drawdowns := cv_drawdowns c,
                   rp_equity_pnl_ticks := cv_cash c + cv_inv c * lm \<rparr>)"

text \<open>Markouts: \<open>it\<close> is the rest of the prints from the cursor; the binary search moves it
  to the first one that is not before the target.\<close>

definition markout_row :: "u64 \<Rightarrow> log_row list \<times> markout \<Rightarrow> log_row \<Rightarrow> log_row list \<times> markout" where
  "markout_row h = (\<lambda>(it, m) r.
     (if lr_type r \<noteq> CHR ''F'' \<or> lr_price_ticks r \<le> 0 then (it, m)
      else let target = lr_ts_ns r + h;
               it = drop (lower_bound (\<lambda>p. lr_ts_ns p < target) it 0 (length it)) it
           in case it of
                [] \<Rightarrow> (it, m)
              | print # _ \<Rightarrow> (it, m\<lparr> mk_pairs := mk_pairs m @ [(r, print)], mk_measured := mk_measured m + 1 \<rparr>)))"

definition kHorizons :: "u64 list" where
  "kHorizons = [1000000, 10000000, 100000000]"

definition markout_prints :: "log_row list \<Rightarrow> log_row list" where
  "markout_prints rows = filter (\<lambda>r. lr_type r = CHR ''P'' \<and> lr_price_ticks r > 0) rows"

definition markout_at :: "log_row list \<Rightarrow> u64 \<Rightarrow> markout" where
  "markout_at rows h =
     snd (foldl (markout_row h) (markout_prints rows, \<lparr> mk_horizon_ns = h, mk_measured = 0, mk_pairs = [] \<rparr>) rows)"

definition compute_report :: "log_row list \<Rightarrow> report" where
  "compute_report rows =
     (let (cash, inv, rep) = foldl tally_row (0, 0, empty_report) rows;
          rep = rep\<lparr> rp_final_inventory := inv, rp_cash_pnl_ticks := cash \<rparr>;
          rep = equity_pass rows rep
      in rep\<lparr> rp_markouts := map (markout_at rows) kHorizons \<rparr>)"

definition compute_from_csv :: "string \<Rightarrow> report \<Rightarrow> (bool \<times> report) option" where
  "compute_from_csv text out = do {
     (ok, rows) \<leftarrow> parse_log text [];
     Some (if ok then (True, compute_report rows) else (False, out))
   }"

end
