(* ===== verification/RunProps.thy ===== *)
theory RunProps
  imports SimBehaviour Tearsheet DiffProps
begin

text \<open>
  The event log: the lines that a run writes are read back by the tearsheet, field by field, and a row
  with too few fields makes its parser throw.
\<close>

section \<open>Pieces\<close>

lemma cut_at:
  assumes "c \<notin> set f"
  shows "takeWhile (\<lambda>x. x \<noteq> c) (f @ c # rest) = f" "dropWhile (\<lambda>x. x \<noteq> c) (f @ c # rest) = c # rest"
proof -
  have "\<forall>x \<in> set f. x \<noteq> c" using assms by blast
  then show "takeWhile (\<lambda>x. x \<noteq> c) (f @ c # rest) = f" "dropWhile (\<lambda>x. x \<noteq> c) (f @ c # rest) = c # rest"
    by (induction f) auto
qed

lemma pieces_cut: "c \<notin> set f \<Longrightarrow> pieces c (f @ c # rest) = f # pieces c rest"
  by (subst pieces.simps) (simp add: cut_at)

lemma pieces_last: "c \<notin> set f \<Longrightarrow> pieces c f = [f]"
  by (subst pieces.simps) (simp add: takeWhile_eq_all_conv dropWhile_eq_Nil_conv)

text \<open>The position of the parser and the pieces that are left; past the last one the position is outside.\<close>

definition left_from :: "string \<Rightarrow> nat \<Rightarrow> string list \<Rightarrow> bool" where
  "left_from line p fs \<longleftrightarrow> (if fs = [] then p > length line else p \<le> length line \<and> pieces CHR '','' (drop p line) = fs)"

lemma left_from_start: "left_from line 0 (pieces CHR '','' line)"
  by (simp add: left_from_def pieces.simps[of _ line] Let_def)

lemma pieces_not_Nil: "pieces c s \<noteq> []"
  by (simp add: pieces.simps[of _ s] Let_def)

lemma next_field_left:
  assumes "left_from line p (f # fs)"
  shows "\<exists>p'. next_field line p = (f, p') \<and> left_from line p' fs"
proof -
  let ?n = "\<lambda>x. x \<noteq> CHR '',''"
  define d where "d = drop p line"
  have p: "p \<le> length line" and d: "pieces CHR '','' d = f # fs" using assms by (simp_all add: left_from_def d_def)
  have f: "takeWhile ?n d = f" and fs: "fs = (if dropWhile ?n d = [] then [] else pieces CHR '','' (tl (dropWhile ?n d)))"
    using d by (simp_all add: pieces.simps[of _ d] Let_def)
  have split: "d = f @ dropWhile ?n d" using f takeWhile_dropWhile_id[of ?n d] by simp
  have len: "length line = p + length d" using p by (simp add: d_def)
  have lend: "length d = length f + length (dropWhile ?n d)" by (subst split) simp
  show ?thesis
  proof (cases "dropWhile ?n d")
    case Nil
    have fn: "fs = []" using fs Nil by simp
    have "length line = p + length f" using len lend Nil by simp
    then have "next_field line p = (f, length line + 1)" using p f by (simp add: next_field_def Let_def d_def)
    then show ?thesis using fn by (simp add: left_from_def)
  next
    case (Cons x r)
    have fr: "fs = pieces CHR '','' r" using fs Cons by simp
    have "drop (Suc (length f)) d = r" by (subst split) (simp add: Cons)
    then have r: "drop (p + length f + 1) line = r" by (simp add: d_def add_ac)
    have lt: "length line = p + length f + 1 + length r" using len lend Cons by simp
    then have "next_field line p = (f, p + length f + 1)" using p f by (simp add: next_field_def Let_def d_def)
    moreover have "left_from line (p + length f + 1) fs"
      using r lt fr pieces_not_Nil[of "CHR '',''" r] unfolding left_from_def by simp
    ultimately show ?thesis by blast
  qed
qed

lemma log_field_bind:
  assumes "left_from line p (f # fs)" and "\<And>p'. left_from line p' fs \<Longrightarrow> g (f, p') = r"
  shows "Option.bind (log_field line p) g = r"
  using assms next_field_left[of line p f fs] by (auto simp: log_field_def left_from_def)

lemma log_field_read:
  assumes "left_from line p fs" and "\<And>f fs' p'. fs = f # fs' \<Longrightarrow> left_from line p' fs' \<Longrightarrow> g (f, p') = None"
  shows "Option.bind (log_field line p) g = None"
proof (cases fs)
  case Nil
  then show ?thesis using assms(1) by (simp add: log_field_def left_from_def)
next
  case (Cons f fs')
  from assms(1)[unfolded Cons] show ?thesis by (rule log_field_bind) (rule assms(2)[OF Cons])
qed

lemma log_field_out: "left_from line p [] \<Longrightarrow> log_field line p = None"
  by (simp add: log_field_def left_from_def)

section \<open>Numbers\<close>

lemma accumulate_digits:
  assumes "list_all decimal_digit ds" and "foldl (\<lambda>n c. n * 10 + digit_value c) v ds < 2 ^ 63"
  shows "accumulate ds (int v) = Some (Some (int (foldl (\<lambda>n c. n * 10 + digit_value c) v ds)))"
  using assms
proof (induction ds arbitrary: v)
  case (Cons c ds)
  have mono: "n \<le> foldl (\<lambda>n c. n * 10 + digit_value c) n xs" for n xs
  proof (induction xs arbitrary: n)
    case (Cons a xs)
    from Cons.IH[of "n * 10 + digit_value a"] show ?case by simp
  qed simp
  from mono[of "v * 10 + digit_value c" ds] Cons.prems(2) have "v * 10 + digit_value c < 2 ^ 63" by simp
  then have "int (v * 10 + digit_value c) < int (2 ^ 63)" by (simp only: of_nat_less_iff)
  then have "int v * 10 + int (digit_value c) < 2 ^ 63" by simp
  with Cons.IH[of "v * 10 + digit_value c"] Cons.prems show ?case by (simp add: Let_def)
qed simp

lemma accumulate_number: "n < 2 ^ 63 \<Longrightarrow> accumulate (digits n) 0 = Some (Some (int n))"
  using accumulate_digits[of "digits n" 0] digits_read[of n] by (simp add: decimal_value_def)

lemma digits_no_minus: "digits n = c # cs \<Longrightarrow> c \<noteq> CHR ''-''"
  using digits_plain[of c n] by (auto simp: decimal_digit_def)

lemma log_num_digits: "n < 2 ^ 63 \<Longrightarrow> log_num (digits n) = Some (int n)"
  using digits_read[of n] digits_no_minus[of n] accumulate_number[of n]
  by (cases "digits n") (simp_all add: log_num_def Let_def)

lemma log_num_signed:
  assumes "\<bar>i\<bar> < 2 ^ 63"
  shows "log_num (signed_digits i) = Some i"
proof (cases "i < 0")
  case True
  then have "nat (- i) < 2 ^ 63" using assms by (simp add: nat_less_iff)
  then show ?thesis using True accumulate_number[of "nat (- i)"] by (simp add: signed_digits_def log_num_def)
next
  case False
  then have "nat i < 2 ^ 63" using assms by (simp add: nat_less_iff)
  then show ?thesis using False by (simp add: signed_digits_def log_num_digits)
qed

section \<open>A row\<close>

text \<open>The row of an event and the events whose fields survive the log.\<close>

definition row_of :: "event_record \<Rightarrow> log_row" where
  "row_of e = \<lparr> lr_type = er_type e, lr_ts_ns = er_ts_ns e, lr_side = er_side e, lr_price_ticks = er_price_ticks e,
     lr_qty = er_qty e, lr_fee_cash = er_fee_cash e, lr_mid_ticks = er_mid_ticks e, lr_ledger = er_ledger e \<rparr>"

definition plain_char :: "char \<Rightarrow> bool" where
  "plain_char c \<longleftrightarrow> c \<noteq> CHR '','' \<and> c \<noteq> newline"

definition loggable :: "event_record \<Rightarrow> bool" where
  "loggable e \<longleftrightarrow> plain_char (er_type e) \<and> plain_char (er_side e) \<and> plain_char (er_ledger e) \<and> unat (er_ts_ns e) < 2 ^ 63 \<and>
     0 \<le> er_price_ticks e \<and> er_price_ticks e < 2 ^ 63 \<and> 0 < er_qty e \<and> \<bar>er_fee_cash e\<bar> < 2 ^ 63 \<and>
     0 \<le> er_mid_ticks e \<and> er_mid_ticks e < 2 ^ 63"

lemma signed_no_comma: "CHR '','' \<notin> set (signed_digits i)"
  using digits_no_comma by (simp add: signed_digits_def)

lemma event_pieces:
  assumes "loggable e"
  shows "pieces CHR '','' (event_csv e) = [[er_type e], digits (unat (er_ts_ns e)), digits (unat (er_ref e)), [er_side e],
    signed_digits (er_price_ticks e), digits (unat (er_qty e)), signed_digits (er_fee_cash e), signed_digits (er_mid_ticks e),
    [er_ledger e], digits (unat (er_submit_ns e))]"
proof -
  have one: "CHR '','' \<notin> set [er_type e]" "CHR '','' \<notin> set [er_side e]" "CHR '','' \<notin> set [er_ledger e]"
    using assms by (auto simp: loggable_def plain_char_def)
  have cut: "pieces CHR '','' (f @ '','' @ rest) = f # pieces CHR '','' rest" if "CHR '','' \<notin> set f" for f rest
    using pieces_cut[OF that] by simp
  show ?thesis unfolding event_csv_def
    by (simp only: cut[OF one(1)] cut[OF one(2)] cut[OF one(3)] cut[OF digits_no_comma] cut[OF signed_no_comma]
        pieces_last[OF digits_no_comma])
qed

lemma event_row:
  assumes "loggable e"
  shows "parse_log_row (event_csv e) = Some (Some (row_of e))"
proof -
  have qty: "unat (er_qty e) < 2 ^ 63" using unsigned_less[of "er_qty e", where ?'a = nat] by simp
  have nums: "log_num (digits (unat (er_ts_ns e))) = Some (uint (er_ts_ns e))" "log_num (digits (unat (er_qty e))) = Some (uint (er_qty e))"
    "log_num (signed_digits (er_price_ticks e)) = Some (er_price_ticks e)" "log_num (signed_digits (er_fee_cash e)) = Some (er_fee_cash e)"
    "log_num (signed_digits (er_mid_ticks e)) = Some (er_mid_ticks e)"
    using assms log_num_digits qty log_num_signed by (simp_all add: loggable_def)
  have "0 < uint (er_qty e)" using assms by (simp add: loggable_def word_less_def)
  then have ok: "\<not> (uint (er_ts_ns e) < 0 \<or> er_price_ticks e < 0 \<or> uint (er_qty e) \<le> 0 \<or> er_mid_ticks e < 0)"
    using assms by (simp add: loggable_def)
  have fields: "left_from (event_csv e) 0 [[er_type e], digits (unat (er_ts_ns e)), digits (unat (er_ref e)), [er_side e],
      signed_digits (er_price_ticks e), digits (unat (er_qty e)), signed_digits (er_fee_cash e), signed_digits (er_mid_ticks e),
      [er_ledger e], digits (unat (er_submit_ns e))]"
    using left_from_start[of "event_csv e"] unfolding event_pieces[OF assms] .
  show ?thesis unfolding parse_log_row_def
    by (rule log_field_bind[OF fields], simp, (erule log_field_bind, simp add: nums)+) (use ok in \<open>simp add: row_of_def\<close>)
qed

section \<open>The file\<close>

lemma digits_no_newline: "newline \<notin> set (digits n)"
  using digits_plain[of newline n] by (auto simp: decimal_digit_def newline_def)

lemma event_line:
  assumes "loggable e"
  shows "newline \<notin> set (event_csv e)" "event_csv e \<noteq> []" "strip_return (event_csv e) = event_csv e"
proof -
  show "newline \<notin> set (event_csv e)" using assms digits_no_newline
    by (auto simp: event_csv_def signed_digits_def loggable_def plain_char_def newline_def)
  show "event_csv e \<noteq> []" by (simp add: event_csv_def)
  let ?d = "digits (unat (er_submit_ns e))"
  have "?d \<noteq> []" using digits_read by blast
  then have "last (event_csv e) = last ?d" by (simp add: event_csv_def)
  moreover have "decimal_digit (last ?d)" using digits_plain last_in_set[OF \<open>?d \<noteq> []\<close>] by blast
  ultimately have "last (event_csv e) \<noteq> carriage_return" by (auto simp: decimal_digit_def carriage_return_def)
  then show "strip_return (event_csv e) = event_csv e" by (simp add: strip_return_def)
qed

lemma log_lines_events:
  "list_all loggable es \<Longrightarrow> log_lines (map event_csv es @ [[]]) (False, out) = Some (True, out @ map row_of es)"
proof (induction es arbitrary: out)
  case Nil
  show ?case by (simp add: parse_log_line_def strip_return_def)
next
  case (Cons e es)
  then have "parse_log_line (event_csv e) (False, out) = Some (Some (False, out @ [row_of e]))"
    using event_row[of e] event_line[of e] by (simp add: parse_log_line_def Let_def)
  then show ?case using Cons by simp
qed

lemma pieces_lines:
  "\<forall>l \<in> set ls. newline \<notin> set l \<Longrightarrow> text_lines (concat (map (\<lambda>l. l @ [newline]) ls)) = ls @ [[]]"
  unfolding text_lines_def by (induction ls) (simp_all add: pieces_last pieces_cut)

lemma events_header_line: "newline \<notin> set events_header" "events_header \<noteq> []" "strip_return events_header = events_header"
  "take (length log_prefix) events_header = log_prefix"
  by (simp_all add: events_header_def newline_def strip_return_def carriage_return_def log_prefix_def)

lemma parse_events_csv:
  assumes "list_all loggable es"
  shows "parse_log (events_csv es) [] = Some (True, map row_of es)"
proof -
  have "events_csv es = concat (map (\<lambda>l. l @ [newline]) (events_header # map event_csv es))"
    by (simp add: events_csv_def comp_def)
  moreover have "\<forall>l \<in> set (events_header # map event_csv es). newline \<notin> set l"
    using assms event_line(1) events_header_line(1) by (auto simp: list_all_iff)
  ultimately have "text_lines (events_csv es) = events_header # map event_csv es @ [[]]"
    using pieces_lines[of "events_header # map event_csv es"] by simp
  moreover have "parse_log_line events_header (True, []) = Some (Some (False, []))"
    using events_header_line by (simp add: parse_log_line_def)
  ultimately show ?thesis using log_lines_events[OF assms, of "[]"] by (simp add: parse_log_def)
qed

section \<open>Short rows\<close>

text \<open>C40: A row of the log with fewer than nine fields is not refused: the ninth read is outside the line and
  throws, whatever the fields are, unless the first of them is refused before.\<close>

theorem short_row_throws:
  assumes "length (pieces CHR '','' line) < 9" and "length (hd (pieces CHR '','' line)) = 1"
  shows "parse_log_row line = None"
proof -
  have num: "Option.bind (log_num s) g = None" if "\<And>v. g v = None" for s and g :: "int \<Rightarrow> log_row option option"
    using that by (cases "log_num s") simp_all
  obtain f fs where fs: "pieces CHR '','' line = f # fs" using pieces_not_Nil[of "CHR '',''" line] by (cases "pieces CHR '','' line") auto
  show ?thesis unfolding parse_log_row_def
    by (rule log_field_read[OF left_from_start])
      (use assms in \<open>auto intro!: num elim!: log_field_read\<close>)
qed

lemma short_row_throws_witness: "parse_log (log_prefix @ [newline] @ ''F,1,2,B'') [] = None"
proof -
  let ?l = "''F,1,2,B''"
  have "pieces CHR '','' ?l = [''F'', ''1'', ''2'', ''B'']" by code_simp
  then have "parse_log_row ?l = None" by (intro short_row_throws) simp_all
  moreover have "text_lines (log_prefix @ [newline] @ ?l) = [log_prefix, ?l]" by code_simp
  moreover have "parse_log_line log_prefix (True, []) = Some (Some (False, []))" by code_simp
  ultimately show ?thesis by (simp add: parse_log_def parse_log_line_def[of ?l] strip_return_def carriage_return_def)
qed

text \<open>
  Scripted runs and their tearsheets: the summary of a run is the count of its event log, and the tearsheet
  computed from the written log alone agrees with it; drawdown and markouts are those of plain
  reference definitions.
\<close>

section \<open>The summary counts the log\<close>

definition fills_of :: "event_record list \<Rightarrow> event_record list" where
  "fills_of es = filter (\<lambda>e. er_type e = CHR ''F'') es"

text \<open>\<open>n\<close> prints are counted whose record is still to be written.\<close>

definition run_exact :: "nat \<Rightarrow> run_summary \<Rightarrow> bool" where
  "run_exact n out \<longleftrightarrow>
     (let fs = fills_of (rn_events out)
      in rn_fills out = length fs \<and>
         rn_maker_fills out = length (filter (\<lambda>e. er_ledger e = CHR ''M'') fs) \<and>
         rn_taker_fills out = length (filter (\<lambda>e. er_ledger e = CHR ''T'') fs) \<and>
         rn_fills out = rn_maker_fills out + rn_taker_fills out \<and>
         list_all (\<lambda>e. er_ledger e = CHR ''M'' \<or> er_ledger e = CHR ''T'') fs \<and>
         rn_prints out = length (filter (\<lambda>e. er_type e = CHR ''P'') (rn_events out)) + n \<and>
         rn_fees_paid_cash out = sum_list (map er_fee_cash fs) \<and>
         (rn_taker_fills out = 0 \<longrightarrow> rn_volume_ticks out = sum_list (map (\<lambda>e. er_price_ticks e * uint (er_qty e)) fs)))"

lemma run_exact_maker: "run_exact n out \<Longrightarrow> run_exact n (maker_fill sm ts out f)"
  by (simp add: run_exact_def fills_of_def maker_fill_def maker_event_def Let_def)

lemma run_exact_taker: "run_exact n out \<Longrightarrow> run_exact n (taker_fill sm ts out d)"
  by (simp add: run_exact_def fills_of_def taker_fill_def taker_event_def Let_def)

lemma run_exact_makers: "run_exact n out \<Longrightarrow> run_exact n (foldl (maker_fill sm ts) out fs)"
  by (induction fs arbitrary: out) (simp_all add: run_exact_maker)

lemma run_exact_takers: "run_exact n out \<Longrightarrow> run_exact n (foldl (taker_fill sm ts) out ds)"
  by (induction ds arbitrary: out) (simp_all add: run_exact_taker)

lemma run_exact_print: "run_exact (Suc 0) out \<Longrightarrow> run_exact 0 (out\<lparr> rn_events := rn_events out @ [print_event sm r] \<rparr>)"
  by (simp add: run_exact_def fills_of_def print_event_def default_event_def Let_def)

lemma run_exact_start: "run_exact 0 empty_run"
  by (simp add: run_exact_def fills_of_def empty_run_def)

lemma run_exact_row: "run_exact n (out\<lparr> rn_script_rows := k \<rparr>) \<longleftrightarrow> run_exact n out"
  by (simp add: run_exact_def)

lemma run_exact_count: "run_exact 0 out \<Longrightarrow> run_exact (Suc 0) (out\<lparr> rn_prints := Suc (rn_prints out) \<rparr>)"
  by (simp add: run_exact_def Let_def)

text \<open>Draining decides orders; it neither halts nor resumes.\<close>

lemma run_until_halted: "run_until E t sm = Some sm' \<Longrightarrow> si_halted sm' = si_halted sm"
proof (induct E t sm sm' rule: run_until.raw_induct[rotated, consumes 1, case_names turn])
  case (turn f E t sm sm')
  then show ?case by (fastforce split: if_splits bind_splits dest!: core_decide simp: sim_core_def)
qed

lemma drain_halted: "sim_drain E sm = Some sm' \<Longrightarrow> si_halted sm' = si_halted sm"
  unfolding sim_drain_def by (rule run_until_halted)

lemma row_action_exact:
  assumes "row_action E r out sm = Some (out', sm')" and "run_exact 0 out"
  shows "run_exact (if sr_kind r = ''trade'' \<and> \<not> si_halted sm' then Suc 0 else 0) out'"
  using assms by (auto simp: row_action_def run_exact_count Let_def split: if_splits bind_splits)

lemma fill_rows [simp]: "rn_script_rows (maker_fill sm ts out f) = rn_script_rows out"
  "rn_script_rows (taker_fill sm ts out d) = rn_script_rows out"
  by (simp_all add: maker_fill_def taker_fill_def Let_def)

lemma fills_rows [simp]: "rn_script_rows (foldl (maker_fill sm ts) out fs) = rn_script_rows out"
  "rn_script_rows (foldl (taker_fill sm ts) out ds) = rn_script_rows out"
  subgoal by (induction fs arbitrary: out) simp_all
  subgoal by (induction ds arbitrary: out) simp_all
  done

lemma row_action_rows: "row_action E r out sm = Some (out', sm') \<Longrightarrow> rn_script_rows out' = rn_script_rows out"
  by (auto simp: row_action_def Let_def split: if_splits bind_splits)

lemma run_row_exact:
  assumes "run_row E r (ts, out, sm) = Some (ts', out', sm')" and "run_exact 0 out"
  shows "run_exact 0 out' \<and> rn_script_rows out' = rn_script_rows out + 1"
proof -
  let ?o = "out\<lparr> rn_script_rows := rn_script_rows out + 1 \<rparr>"
  have o: "run_exact 0 ?o" using assms(2) by (simp add: run_exact_row)
  consider "out' = ?o" | sm0 o1 sm1 sm2 ds where "row_action E r ?o sm0 = Some (o1, sm1)" "sim_drain E sm1 = Some sm2"
    "out' = (let o2 = foldl (taker_fill (clear_reports sm2) (sr_ts r)) (foldl (maker_fill sm2 (sr_ts r)) o1 (si_reports sm2)) ds
       in if sr_kind r = ''trade'' \<and> \<not> si_halted sm2 then o2\<lparr> rn_events := rn_events o2 @ [print_event (clear_reports sm2) r] \<rparr> else o2)"
    using assms(1) by (auto simp: run_row_def Let_def clear_reports_def split: if_splits bind_splits)
  then show ?thesis
  proof cases
    case 1
    then show ?thesis using o by simp
  next
    case 2
    have h: "si_halted sm2 = si_halted sm1" using drain_halted[OF 2(2)] .
    let ?o2 = "foldl (taker_fill (clear_reports sm2) (sr_ts r)) (foldl (maker_fill sm2 (sr_ts r)) o1 (si_reports sm2)) ds"
    have "run_exact (if sr_kind r = ''trade'' \<and> \<not> si_halted sm2 then Suc 0 else 0) ?o2"
      using row_action_exact[OF 2(1) o] unfolding h by (intro run_exact_takers run_exact_makers)
    moreover have "rn_script_rows ?o2 = rn_script_rows out + 1" using row_action_rows[OF 2(1)] by simp
    ultimately show ?thesis using 2(3) run_exact_print by (auto simp: Let_def split: if_splits)
  qed
qed

lemma run_rows_exact:
  "run_rows E rs (ts, out, sm) = Some (ts', out', sm') \<Longrightarrow> run_exact 0 out \<Longrightarrow>
     run_exact 0 out' \<and> rn_script_rows out' = rn_script_rows out + length rs"
proof (induction rs arbitrary: ts out sm)
  case (Cons r rs)
  from Cons.prems(1) obtain ts1 out1 sm1 where 1: "run_row E r (ts, out, sm) = Some (ts1, out1, sm1)"
    and 2: "run_rows E rs (ts1, out1, sm1) = Some (ts', out', sm')"
    by (auto split: bind_splits)
  from run_row_exact[OF 1 Cons.prems(2)] Cons.IH[OF 2] show ?case by simp
qed simp

lemma script_run_exact:
  assumes "script_run E mode sm text = Some (Inr out)"
  shows "run_exact 0 out"
proof -
  obtain rows ts' out' sm' high where "run_rows E rows (0, empty_run, sm) = Some (ts', out', sm')"
    and out: "out = out'\<lparr> rn_digest_mode := mode, rn_digest_high := high \<rparr>"
    using assms by (fastforce simp: script_run_def split: bind_splits if_splits)
  then have "run_exact 0 out'" using run_rows_exact run_exact_start by blast
  then show ?thesis using out by (simp add: run_exact_def)
qed

section \<open>The totals of a tearsheet\<close>

definition fill_rows_of :: "log_row list \<Rightarrow> log_row list" where
  "fill_rows_of rows = filter (\<lambda>r. lr_type r = CHR ''F'') rows"

definition flow_of :: "log_row \<Rightarrow> int" where
  "flow_of r = - signed_qty r * lr_price_ticks r"

definition total :: "(log_row \<Rightarrow> int) \<Rightarrow> log_row list \<Rightarrow> int" where
  "total f rows = sum_list (map f (fill_rows_of rows))"

definition by_ledger :: "char \<Rightarrow> log_row \<Rightarrow> int" where
  "by_ledger c r = (if lr_ledger r = c then lr_fee_cash r else 0)"

lemma total_simps [simp]:
  "total f [] = 0" "total f (rows @ [r]) = total f rows + (if lr_type r = CHR ''F'' then f r else 0)"
  by (simp_all add: total_def fill_rows_of_def)

definition tallied :: "log_row list \<Rightarrow> int \<times> int \<times> report \<Rightarrow> bool" where
  "tallied rows = (\<lambda>(cash, inv, rep). cash = total flow_of rows \<and> inv = total signed_qty rows \<and>
     rp_fills rep = length (fill_rows_of rows) \<and> rp_prints rep = length (filter (\<lambda>r. lr_type r = CHR ''P'') rows) \<and>
     rp_volume_ticks rep = total (\<lambda>r. lr_price_ticks r * uint (lr_qty r)) rows \<and>
     rp_fees_cash rep = total lr_fee_cash rows \<and> rp_fees_maker_cash rep = total (by_ledger CHR ''M'') rows \<and>
     rp_fees_taker_cash rep = total (by_ledger CHR ''T'') rows)"

lemma tally_exact: "tallied rows (foldl tally_row (0, 0, empty_report) rows)"
proof (induction rows rule: rev_induct)
  case Nil
  show ?case by (simp add: tallied_def fill_rows_of_def empty_report_def)
next
  case (snoc r rows)
  obtain cash inv rep where st: "foldl tally_row (0, 0, empty_report) rows = (cash, inv, rep)" by (metis prod_cases3)
  with snoc have t: "tallied rows (cash, inv, rep)" by simp
  show ?case
  proof (cases "lr_type r = CHR ''F''")
    case True
    then show ?thesis using t unfolding foldl_append st
      by (simp add: tallied_def tally_row_def Let_def fill_rows_of_def flow_of_def by_ledger_def)
  next
    case False
    then show ?thesis using t unfolding foldl_append st
      by (simp add: tallied_def tally_row_def fill_rows_of_def)
  qed
qed

section \<open>The equity curve\<close>

text \<open>The equity after the first \<open>k\<close> rows, and the largest drop from a point of the curve to a later one.\<close>

definition row_mid :: "int \<Rightarrow> log_row \<Rightarrow> int" where
  "row_mid lm r = (if lr_mid_ticks r > 0 then lr_mid_ticks r else lm)"

definition equity_after :: "int \<Rightarrow> log_row list \<Rightarrow> nat \<Rightarrow> int" where
  "equity_after lm rows k = total flow_of (take k rows) + total signed_qty (take k rows) * row_mid lm (rows ! (k - 1))"

definition equities :: "int \<Rightarrow> log_row list \<Rightarrow> int list" where
  "equities lm rows = 0 # map (equity_after lm rows) [1..<Suc (length rows)]"

definition largest_drop :: "int list \<Rightarrow> int" where
  "largest_drop es = Max {es ! i - es ! j | i j. i \<le> j \<and> j < length es}"

lemma equities_snoc:
  "equities lm (rows @ [r]) = equities lm rows @
     [total flow_of (rows @ [r]) + total signed_qty (rows @ [r]) * row_mid lm r]"
proof -
  have "map (equity_after lm (rows @ [r])) [1..<Suc (length rows)] = map (equity_after lm rows) [1..<Suc (length rows)]"
    by (rule map_cong[OF refl]) (auto simp: equity_after_def nth_append)
  then show ?thesis by (simp add: equities_def equity_after_def)
qed

lemma drop_values_finite: "finite {es ! i - es ! j | i j. i \<le> j \<and> j < length es}" for es :: "int list"
proof (rule finite_subset)
  show "{es ! i - es ! j | i j. i \<le> j \<and> j < length es} \<subseteq> (\<lambda>(i, j). es ! i - es ! j) ` ({..length es} \<times> {..length es})"
    by force
qed simp

lemma largest_drop_snoc:
  assumes "es \<noteq> []"
  shows "largest_drop (es @ [e]) = max (largest_drop es) (Max (set (es @ [e])) - e)"
proof -
  let ?D = "{es ! i - es ! j | i j. i \<le> j \<and> j < length es}" and ?es = "es @ [e]"
  let ?A = "{?es ! i - ?es ! j | i j. i \<le> j \<and> j < length ?es}"
  have A: "?A = ?D \<union> (\<lambda>x. x - e) ` set ?es"
  proof (intro set_eqI iffI)
    fix x assume "x \<in> ?A"
    then obtain i j where ij: "x = ?es ! i - ?es ! j" "i \<le> j" "j < length ?es" by blast
    show "x \<in> ?D \<union> (\<lambda>x. x - e) ` set ?es"
    proof (cases "j = length es")
      case True
      then show ?thesis using ij nth_mem[of i ?es] by (auto simp: nth_append)
    next
      case False
      then have "j < length es" using ij by simp
      then have "x = es ! i - es ! j" using ij by (simp add: nth_append)
      then show ?thesis using ij(2) \<open>j < length es\<close> by blast
    qed
  next
    fix x assume "x \<in> ?D \<union> (\<lambda>x. x - e) ` set ?es"
    then show "x \<in> ?A"
    proof
      assume "x \<in> ?D"
      then obtain i j where "x = es ! i - es ! j" "i \<le> j" "j < length es" by blast
      then have "x = ?es ! i - ?es ! j" "i \<le> j" "j < length ?es" by (simp_all add: nth_append)
      then show ?thesis by blast
    next
      assume "x \<in> (\<lambda>x. x - e) ` set ?es"
      then obtain y where "y \<in> set ?es" "x = y - e" by blast
      then obtain i where "i < length ?es" "x = ?es ! i - e" using in_set_conv_nth[of y ?es] by blast
      then have "x = ?es ! i - ?es ! length es" "i \<le> length es" "length es < length ?es" by simp_all
      then show ?thesis by blast
    qed
  qed
  have ne: "?D \<noteq> {}" using assms by auto
  have "Max ((\<lambda>x. x - e) ` set ?es) = Max (set ?es) - e"
    by (rule mono_Max_commute[symmetric]) (auto simp: mono_def)
  moreover have "Max (?D \<union> (\<lambda>x. x - e) ` set ?es) = max (Max ?D) (Max ((\<lambda>x. x - e) ` set ?es))"
    using ne drop_values_finite[of es] by (intro Max_Un) auto
  ultimately show ?thesis unfolding largest_drop_def A by simp
qed

lemma curve_exact:
  "let c = foldl (curve_row lm) empty_curve rows; es = equities lm rows
   in cv_cash c = total flow_of rows \<and> cv_inv c = total signed_qty rows \<and> cv_peak c = Max (set es) \<and> cv_drop c = largest_drop es"
proof (induction rows rule: rev_induct)
  case Nil
  have "{[0 :: int] ! i - [0] ! j | i j. i \<le> j \<and> j < length [0 :: int]} = {0}" by auto
  then show ?case by (simp add: equities_def largest_drop_def empty_curve_def)
next
  case (snoc r rows)
  let ?c = "foldl (curve_row lm) empty_curve rows" and ?es = "equities lm rows"
  define e where "e = total flow_of (rows @ [r]) + total signed_qty (rows @ [r]) * row_mid lm r"
  have es: "equities lm (rows @ [r]) = ?es @ [e]" by (simp only: equities_snoc e_def)
  have ne: "?es \<noteq> []" by (simp add: equities_def)
  have peak: "Max (set (?es @ [e])) = max (Max (set ?es)) e"
    using ne by (simp add: Max_insert max.commute)
  let ?m = "row_mid lm r"
  define c1 where "c1 = (if lr_type r = CHR ''F''
      then ?c\<lparr> cv_cash := cv_cash ?c + - signed_qty r * lr_price_ticks r, cv_inv := cv_inv ?c + signed_qty r \<rparr> else ?c)"
  have c1: "cv_cash c1 = total flow_of (rows @ [r])" "cv_inv c1 = total signed_qty (rows @ [r])"
    "cv_peak c1 = Max (set ?es)" "cv_drop c1 = largest_drop ?es"
    using snoc flow_of_def[of r] by (simp_all add: c1_def Let_def)
  have eq: "cv_cash c1 + cv_inv c1 * ?m = e" by (simp add: c1 e_def)
  have "curve_row lm ?c r = (let c = c1\<lparr> cv_peak := max (cv_peak c1) e \<rparr>;
      c = c\<lparr> cv_drop := max (cv_drop c1) (max (cv_peak c1) e - e) \<rparr>
    in if cv_peak c > 0 then c\<lparr> cv_drawdowns := cv_drawdowns c @ [(cv_peak c - e, cv_peak c)] \<rparr> else c)"
    unfolding curve_row_def Let_def row_mid_def[symmetric] c1_def[symmetric] eq by (auto simp: max_def)
  then show ?case unfolding es Let_def using c1 peak largest_drop_snoc[OF ne, of e] by simp
qed

text \<open>C38: The report is the one of the rows: its counts, volumes and fees are those of the fill rows, cash and
  inventory are the sums of their signed flows and quantities, the equity marks the final inventory at
  the last known mid, and the maximal drawdown is the largest drop from any point of the equity curve,
  its start at zero included, to any later one.\<close>

theorem tearsheet_exact:
  "let rep = compute_report rows; lm = last_mid rows
   in rp_fills rep = length (fill_rows_of rows) \<and> rp_prints rep = length (filter (\<lambda>r. lr_type r = CHR ''P'') rows) \<and>
     rp_volume_ticks rep = total (\<lambda>r. lr_price_ticks r * uint (lr_qty r)) rows \<and> rp_fees_cash rep = total lr_fee_cash rows \<and>
     rp_fees_maker_cash rep = total (by_ledger CHR ''M'') rows \<and> rp_fees_taker_cash rep = total (by_ledger CHR ''T'') rows \<and>
     rp_cash_pnl_ticks rep = total flow_of rows \<and> rp_final_inventory rep = total signed_qty rows \<and>
     rp_equity_pnl_ticks rep = total flow_of rows + total signed_qty rows * lm \<and>
     rp_max_drawdown_ticks rep = largest_drop (equities lm rows)"
proof -
  obtain cash inv rep where st: "foldl tally_row (0, 0, empty_report) rows = (cash, inv, rep)" by (metis prod_cases3)
  have t: "tallied rows (cash, inv, rep)" using tally_exact[of rows] st by simp
  have init: "rp_equity_pnl_ticks rep = 0 \<and> rp_max_drawdown_ticks rep = 0" if "rows = []"
    using st that by (auto simp: empty_report_def)
  have nil: "largest_drop (equities 0 []) = 0" using curve_exact[of 0 "[]"] by (simp add: empty_curve_def Let_def)
  show ?thesis
  proof (cases "rows = []")
    case True
    then show ?thesis using t init nil st by (simp add: compute_report_def equity_pass_def tallied_def last_mid_def Let_def)
  next
    case False
    then show ?thesis using t curve_exact[of "last_mid rows" rows] st
      by (simp add: compute_report_def equity_pass_def tallied_def Let_def)
  qed
qed

section \<open>Markouts\<close>

definition measurable :: "log_row \<Rightarrow> bool" where
  "measurable r \<longleftrightarrow> lr_type r = CHR ''F'' \<and> lr_price_ticks r > 0"

text \<open>The first print of the whole log that is not before the target of a fill.\<close>

definition next_print :: "log_row list \<Rightarrow> u64 \<Rightarrow> log_row \<Rightarrow> (log_row \<times> log_row) list" where
  "next_print rows h r = (case find (\<lambda>p. lr_ts_ns r + h \<le> lr_ts_ns p) (markout_prints rows) of None \<Rightarrow> [] | Some p \<Rightarrow> [(r, p)])"

lemma find_dropWhile: "find (\<lambda>p. t \<le> f p) ps = (case dropWhile (\<lambda>p. f p < t) ps of [] \<Rightarrow> None | p # _ \<Rightarrow> Some p)"
  for t :: "'t::linorder"
  by (induction ps) auto

lemma dropWhile_further: "t0 \<le> t \<Longrightarrow> dropWhile (\<lambda>p. f p < t) (dropWhile (\<lambda>p. f p < t0) ps) = dropWhile (\<lambda>p. f p < t) ps"
  for t0 :: "'t::linorder"
  by (induction ps) auto

lemma sorted_dropWhile_map: "sorted (map f xs) \<Longrightarrow> sorted (map f (dropWhile P xs))"
  by (induction xs) auto

text \<open>The cursor has passed only prints before \<open>t0\<close>.\<close>

lemma markout_fold:
  assumes "sorted (t0 # map (\<lambda>r. lr_ts_ns r + h) (filter measurable rs))"
    and "it = dropWhile (\<lambda>p. lr_ts_ns p < t0) (markout_prints rows)" and "sorted (map lr_ts_ns (markout_prints rows))"
  shows "snd (foldl (markout_row h) (it, m) rs) =
    m\<lparr> mk_pairs := mk_pairs m @ concat (map (next_print rows h) (filter measurable rs)),
       mk_measured := mk_measured m + length (concat (map (next_print rows h) (filter measurable rs))) \<rparr>"
  using assms
proof (induction rs arbitrary: t0 it m)
  case (Cons r rs)
  show ?case
  proof (cases "measurable r")
    case False
    then have "markout_row h (it, m) r = (it, m)" by (auto simp: markout_row_def measurable_def)
    then show ?thesis using False Cons.IH[of t0 it m] Cons.prems by simp
  next
    case True
    let ?t = "lr_ts_ns r + h"
    define it' where "it' = dropWhile (\<lambda>p. lr_ts_ns p < ?t) (markout_prints rows)"
    have le: "t0 \<le> ?t" using Cons.prems(1) True by simp
    have srt: "sorted (map lr_ts_ns it)" unfolding Cons.prems(2) using Cons.prems(3) by (rule sorted_dropWhile_map)
    have it: "drop (lower_bound (\<lambda>p. lr_ts_ns p < ?t) it 0 (length it)) it = it'"
      using lower_bound_sorted[OF srt, of ?t] dropWhile_further[OF le, of lr_ts_ns "markout_prints rows"]
      unfolding Cons.prems(2) it'_def by (rule trans)
    have np: "next_print rows h r = (case it' of [] \<Rightarrow> [] | p # _ \<Rightarrow> [(r, p)])"
      unfolding next_print_def find_dropWhile[of ?t lr_ts_ns] it'_def[symmetric] by (cases it') simp_all
    have "markout_row h (it, m) r = (it', m\<lparr> mk_pairs := mk_pairs m @ next_print rows h r,
        mk_measured := mk_measured m + length (next_print rows h r) \<rparr>)"
      using True it np by (auto simp: markout_row_def measurable_def Let_def split: list.splits)
    moreover have "sorted (?t # map (\<lambda>r. lr_ts_ns r + h) (filter measurable rs))" using Cons.prems(1) True by simp
    ultimately show ?thesis using True Cons.IH[OF _ it'_def Cons.prems(3)] by simp
  qed
qed simp

text \<open>C39: In a log in the order of time, each fill with a positive price is compared, at each horizon, with the
  first print of the log at or after its time plus the horizon, and left out when there is none,
  although the search of each fill starts where that of the one before it ended.\<close>

theorem markouts_next_print:
  assumes "sorted (map lr_ts_ns rows)" and "\<forall>r \<in> set rows. unat (lr_ts_ns r) < 2 ^ 63"
  shows "map (\<lambda>m. (mk_horizon_ns m, mk_measured m, mk_pairs m)) (rp_markouts (compute_report rows)) =
    map (\<lambda>h. let ps = concat (map (next_print rows h) (filter measurable rows)) in (h, length ps, ps)) kHorizons"
proof -
  have one: "markout_at rows h = \<lparr> mk_horizon_ns = h, mk_measured = length (concat (map (next_print rows h) (filter measurable rows))),
      mk_pairs = concat (map (next_print rows h) (filter measurable rows)) \<rparr>" if "unat h < 2 ^ 63" for h
  proof -
    have "lr_ts_ns a + h \<le> lr_ts_ns b + h" if "a \<in> set rows" "b \<in> set rows" "lr_ts_ns a \<le> lr_ts_ns b" for a b
    proof -
      have "unat (lr_ts_ns a + h) = unat (lr_ts_ns a) + unat h" "unat (lr_ts_ns b + h) = unat (lr_ts_ns b) + unat h"
        using assms(2) that(1,2) \<open>unat h < 2 ^ 63\<close> by (fastforce intro!: unat_add_lem[THEN iffD1])+
      then show ?thesis using that(3) by (simp add: word_le_nat_alt)
    qed
    then have "sorted (map (\<lambda>r. lr_ts_ns r + h) rows)" using assms(1)
      by (auto simp: sorted_map elim!: sorted_wrt_mono_rel[rotated])
    then have "sorted (0 # map (\<lambda>r. lr_ts_ns r + h) (filter measurable rows))"
      by (simp add: sorted_filter)
    moreover have "sorted (map lr_ts_ns (markout_prints rows))" using assms(1) by (simp add: markout_prints_def sorted_filter)
    moreover have "markout_prints rows = dropWhile (\<lambda>p. lr_ts_ns p < 0) (markout_prints rows)" by (cases "markout_prints rows") auto
    ultimately show ?thesis using markout_fold[of 0 h rows "markout_prints rows" rows] by (simp add: markout_at_def)
  qed
  have "unat h < 2 ^ 63" if "h \<in> set kHorizons" for h using that by (auto simp: kHorizons_def)
  then have "map (markout_at rows) kHorizons = map (\<lambda>h. \<lparr> mk_horizon_ns = h, mk_measured = length (concat (map (next_print rows h) (filter measurable rows))),
      mk_pairs = concat (map (next_print rows h) (filter measurable rows)) \<rparr>) kHorizons"
    using one by simp
  then show ?thesis by (simp add: compute_report_def Let_def comp_def split: prod.split)
qed

section \<open>From the run to its tearsheet\<close>

lemma row_of_simps [simp]:
  "lr_type (row_of e) = er_type e" "lr_ledger (row_of e) = er_ledger e" "lr_fee_cash (row_of e) = er_fee_cash e"
  "lr_price_ticks (row_of e) = er_price_ticks e" "lr_qty (row_of e) = er_qty e"
  by (simp_all add: row_of_def)

lemma fees_split:
  "list_all (\<lambda>e. er_ledger e = CHR ''M'' \<or> er_ledger e = CHR ''T'') es \<Longrightarrow>
    sum_list (map (\<lambda>e. by_ledger CHR ''M'' (row_of e)) es) + sum_list (map (\<lambda>e. by_ledger CHR ''T'' (row_of e)) es) =
    sum_list (map er_fee_cash es)"
  by (induction es) (auto simp: by_ledger_def)

lemma rows_of_fills: "fill_rows_of (map row_of es) = map row_of (fills_of es)"
  by (induction es) (simp_all add: fill_rows_of_def fills_of_def)

lemma total_rows: "total f (map row_of es) = sum_list (map (\<lambda>e. f (row_of e)) (fills_of es))"
  by (simp add: total_def rows_of_fills comp_def)

text \<open>C23: The log is enough: whenever a scripted run returns and the fields of its events are in the range of the log,
  the tearsheet reads the file the run writes, row for row, and reports the fills, the prints and the
  fees of the run, the fees split into the maker and the taker ledger; when no fill of the run took
  liquidity, it reports the volume of the run as well.\<close>

theorem tearsheet_of_run:
  assumes "script_run E mode sm script = Some (Inr out)" and "list_all loggable (rn_events out)"
  shows "\<exists>rep. compute_from_csv (events_csv (rn_events out)) rep0 = Some (True, rep) \<and>
     rep = compute_report (map row_of (rn_events out)) \<and>
     rp_fills rep = rn_fills out \<and> rp_prints rep = rn_prints out \<and> rp_fees_cash rep = rn_fees_paid_cash out \<and>
     rp_fees_maker_cash rep + rp_fees_taker_cash rep = rn_fees_paid_cash out \<and>
     (rn_taker_fills out = 0 \<longrightarrow> rp_volume_ticks rep = rn_volume_ticks out)"
proof -
  let ?es = "rn_events out" and ?rows = "map row_of (rn_events out)"
  have ex: "run_exact 0 out" by (rule script_run_exact[OF assms(1)])
  have read: "compute_from_csv (events_csv ?es) rep0 = Some (True, compute_report ?rows)"
    using parse_events_csv[OF assms(2)] by (simp add: compute_from_csv_def)
  have prints: "length (filter (\<lambda>r. lr_type r = CHR ''P'') ?rows) = length (filter (\<lambda>e. er_type e = CHR ''P'') ?es)"
    by (simp add: filter_map comp_def)
  have led: "list_all (\<lambda>e. er_ledger e = CHR ''M'' \<or> er_ledger e = CHR ''T'') (fills_of ?es)"
    using ex by (simp add: run_exact_def Let_def)
  show ?thesis
    using read ex tearsheet_exact[of ?rows] prints fees_split[OF led]
    by (simp add: run_exact_def Let_def rows_of_fills total_rows comp_def)
qed

section \<open>A concrete run\<close>

definition demo_script :: string where
  "demo_script = script_header @ [newline] @ ''trade,5,B,30,3,1'' @ [newline]"

definition demo_trade :: script_row where
  "demo_trade = \<lparr> sr_kind = ''trade'', sr_ts = 5, sr_side = CHR ''B'', sr_price = 30, sr_qty = 3, sr_ref = 1, sr_flags = [] \<rparr>"

lemma demo_rows: "parse_script demo_script [] = Some (True, [demo_trade])"
  by code_simp

definition demo_seller :: hidden_order where
  "demo_seller = \<lparr> hd_ref = 101, hd_side = Sell, hd_price_ticks = 30, hd_qty_remaining = 4, hd_peg = PegNone,
     hd_peg_offset = 0, hd_pegged = False \<rparr>"

definition quiet :: "book \<Rightarrow> sim_event scheduler \<Rightarrow> unit sim \<Rightarrow> bool" where
  "quiet bk w sm \<longleftrightarrow> si_dirty sm = [] \<and> si_live_tracked sm = [] \<and> \<not> si_halted sm \<and> si_book sm = bk \<and> si_wheel sm = w \<and>
     si_hidden sm = [demo_seller] \<and> si_cfg sm = demo_cfg \<and> si_reports sm = [] \<and> si_decisions sm = [] \<and>
     level_find sm Sell 30 = None \<and> si_fallback_levels sm Sell = []"

lemma conservation_calm:
  "si_dirty sm = [] \<Longrightarrow> si_live_tracked sm = [] \<Longrightarrow>
     conservation_ok sm = Some (True, sm\<lparr> si_conservation_checks := si_conservation_checks sm + 1 \<rparr>)"
  by (cases sm) (simp add: conservation_ok_def check_conservation_def Let_def)

lemma demo_advance: "quiet bk w sm \<Longrightarrow> \<exists>sm1. advance_time demo_env 5 sm = Some sm1 \<and> quiet bk w sm1"
  by (simp add: advance_time_def demo_env_def apply_depletion_def Let_def conservation_calm quiet_def level_find_def)

lemma demo_apply:
  assumes "quiet bk w sm" and "qty_at bk Sell 30 = 0"
  shows "\<exists>sm' f. apply_external demo_env Sell 30 3 sm = Some sm' \<and> si_reports sm' = [f] \<and> fr_price_ticks f = 30 \<and> fr_qty f = 3 \<and>
    fr_fee f = 0 \<and> fr_side f = 0x53 \<and> si_book sm' = bk \<and> si_wheel sm' = w \<and> si_decisions sm' = [] \<and> \<not> si_halted sm'"
proof -
  let ?s = "sm\<lparr> si_recent_sync := [] \<rparr>"
  have b: "conservation_ok ?s = Some (True, ?s\<lparr> si_conservation_checks := si_conservation_checks sm + 1 \<rparr>)"
    using assms(1) by (simp add: conservation_calm quiet_def)
  have pegs: "repeg_hidden sm = sm" using assms by (simp add: repeg_hidden_def demo_seller_def quiet_def)
  have "level_find ?s Sell 30 = None" "\<not> is_fallback_level ?s Sell 30"
    using assms(1) by (simp_all add: level_find_def is_fallback_level_def quiet_def)
  then have "consume_level demo_env Sell 30 0 sm = Some (?s\<lparr> si_conservation_checks := si_conservation_checks sm + 1 \<rparr>)"
    using b by (simp add: consume_level_def subtract_level_def consume_loop.simps Let_def)
  then show ?thesis using assms pegs
    by (simp add: apply_external_def tap_hidden_def tap_hidden_loop.simps demo_seller_def Let_def report_hidden_fill_def
       trace_hidden_fill_def sim_simps fee_bps_of_def quiet_def demo_cfg_def)
qed

lemma demo_script_run:
  assumes "quiet bk w sm" and "qty_at bk Sell 30 = 0" and "sched_size w = 0" and "bk_best_ask bk = kNoTick"
  shows "\<exists>out. script_run demo_env FastDigest sm demo_script = Some (Inr out) \<and> list_all loggable (rn_events out) \<and>
    rn_fills out = 1 \<and> rn_prints out = 1 \<and> rn_taker_fills out = 0 \<and> rn_volume_ticks out = 90"
proof -
  from demo_advance[OF assms(1)] obtain sm1 where 1: "advance_time demo_env 5 sm = Some sm1" "quiet bk w sm1" by blast
  from demo_apply[OF 1(2) assms(2)] obtain sm2 f where 2: "apply_external demo_env Sell 30 3 sm1 = Some sm2" "si_reports sm2 = [f]"
    "fr_price_ticks f = 30" "fr_qty f = 3" "fr_fee f = 0" "fr_side f = 0x53" "si_book sm2 = bk" "si_wheel sm2 = w"
    "si_decisions sm2 = []" "\<not> si_halted sm2" by blast
  have drain: "sim_drain demo_env sm2 = Some sm2" using 2 assms(3) by (simp add: sim_drain_def run_until.simps sched_empty_def sched_size_def)
  have act: "row_action demo_env demo_trade out sm1 = Some (out\<lparr> rn_prints := rn_prints out + 1 \<rparr>, sm2)" for out
    using 2 by (simp add: row_action_def demo_trade_def)
  have row: "sr_kind demo_trade = ''trade''" "sr_ts demo_trade = 5" "sr_side demo_trade = CHR ''B''" "sr_price demo_trade = 30"
    "sr_qty demo_trade = 3" by (simp_all add: demo_trade_def)
  let ?m = "maker_event sm2 5 f" and ?p = "print_event (clear_reports sm2) demo_trade"
  have mid: "mid_of sm2 = 0" "mid_of (clear_reports sm2) = 0" using 2(7) assms(4) by (simp_all add: mid_of_def clear_reports_def)
  have ch: "char_of (0x53 :: nat) = CHR ''S''" by code_simp
  have ok: "loggable ?m" "loggable ?p" using 2 ch
    by (simp_all add: loggable_def maker_event_def print_event_def default_event_def plain_char_def newline_def mid row)
  have "\<exists>out. run_rows demo_env [demo_trade] (0, empty_run, sm) = Some (5, out, clear_reports sm2) \<and> rn_events out = [?m, ?p] \<and>
    rn_fills out = 1 \<and> rn_prints out = 1 \<and> rn_taker_fills out = 0 \<and> rn_volume_ticks out = 90"
    using 1(1) 2(2-5,9,10) drain by (simp add: run_row_def act row Let_def maker_fill_def empty_run_def clear_reports_def)
  then obtain out where "run_rows demo_env [demo_trade] (0, empty_run, sm) = Some (5, out, clear_reports sm2)" "rn_events out = [?m, ?p]"
    "rn_fills out = 1" "rn_prints out = 1" "rn_taker_fills out = 0" "rn_volume_ticks out = 90" by blast
  moreover obtain high where "digest_high (en_le demo_env) FastDigest (si_trace (clear_reports sm2)) = Some high"
    by (simp add: digest_high_def digest_update_def digest_new_def digest_reset_def)
  ultimately have "script_run demo_env FastDigest sm demo_script = Some (Inr (out\<lparr> rn_digest_mode := FastDigest, rn_digest_high := high \<rparr>))"
    by (simp add: script_run_def demo_rows)
  then show ?thesis
    using ok \<open>rn_events out = [?m, ?p]\<close> \<open>rn_fills out = 1\<close> \<open>rn_prints out = 1\<close> \<open>rn_taker_fills out = 0\<close> \<open>rn_volume_ticks out = 90\<close>
    by (intro exI[of _ "out\<lparr> rn_digest_mode := FastDigest, rn_digest_high := high \<rparr>"]) simp
qed

lemma demo_quiet: "quiet bk w ((demo_sim bk w)\<lparr> si_hidden := [demo_seller] \<rparr>)"
proof -
  have "level_find (demo_sim bk w) Sell 30 = None" "si_fallback_levels (demo_sim bk w) Sell = []"
    using demo_external[of bk w] by (simp_all add: external_only_def calm_def)
  then show ?thesis by (simp add: quiet_def level_find_def) (simp add: demo_sim_def sim_new_def)
qed

lemma tearsheet_of_run_witness:
  "\<exists>sm out rep. script_run demo_env FastDigest sm demo_script = Some (Inr out) \<and>
     compute_from_csv (events_csv (rn_events out)) empty_report = Some (True, rep) \<and>
     rp_fills rep = 1 \<and> rp_prints rep = 1 \<and> rp_volume_ticks rep = 90"
proof -
  from demo_book_two obtain bk where b: "book_rel bk demo_two" by blast
  from demo_queue obtain w :: "sim_event scheduler" where w: "sched_size w = 0" by blast
  let ?sm = "(demo_sim bk w)\<lparr> si_hidden := [demo_seller] \<rparr>"
  have q: "qty_at bk Sell 30 = 0" using qty_at_correct[OF b, of Sell 30] by (simp add: level_qty_def demo_two_eval)
  have a: "bk_best_ask bk = kNoTick" using best_prices(2)[OF b] by (simp add: least_tick_def priced_def demo_two_eval)
  from demo_script_run[OF demo_quiet q w a] obtain out where
    out: "script_run demo_env FastDigest ?sm demo_script = Some (Inr out)" "list_all loggable (rn_events out)"
      "rn_fills out = 1" "rn_prints out = 1" "rn_taker_fills out = 0" "rn_volume_ticks out = 90" by blast
  from tearsheet_of_run[OF out(1,2), of empty_report] out show ?thesis by metis
qed

definition demo_fill :: log_row where
  "demo_fill = row_of (default_event\<lparr> er_ts_ns := 5, er_price_ticks := 30, er_qty := 3 \<rparr>)"

definition demo_print :: log_row where
  "demo_print = row_of (default_event\<lparr> er_type := CHR ''P'', er_ts_ns := 2000000, er_price_ticks := 31, er_qty := 3 \<rparr>)"

lemma markouts_next_print_witness:
  "map (\<lambda>m. (mk_horizon_ns m, mk_measured m, mk_pairs m)) (rp_markouts (compute_report [demo_fill, demo_print])) =
     [(1000000, 1, [(demo_fill, demo_print)]), (10000000, 0, []), (100000000, 0, [])]"
proof -
  have d: "lr_ts_ns demo_fill = 5" "lr_ts_ns demo_print = 2000000" "measurable demo_fill" "\<not> measurable demo_print"
    "markout_prints [demo_fill, demo_print] = [demo_print]"
    by (simp_all add: row_of_def demo_fill_def demo_print_def default_event_def measurable_def markout_prints_def)
  have "sorted (map lr_ts_ns [demo_fill, demo_print])" "\<forall>r \<in> set [demo_fill, demo_print]. unat (lr_ts_ns r) < 2 ^ 63"
    by (simp_all add: d)
  from markouts_next_print[OF this] show ?thesis by (simp add: kHorizons_def next_print_def d)
qed

end
