(* ===== verification/StrategyRun.thy ===== *)
theory StrategyRun
  imports RunProps
begin

text \<open>
  The strategy runner, \<open>include/mog/Strategy.hpp\<close>: it drives a simulator for a strategy and delivers trades, fills
  and acknowledgements through the hooks, merged by their global sequence numbers. A strategy is its
  state and four functions on it; a hook that is not overridden is the identity. Reading past the end of
  a list is \<open>None\<close>.
\<close>

section \<open>Records\<close>

record book_update =
  bu_ts :: u64
  bu_bid_px :: int
  bu_bid_qty :: u64
  bu_ask_px :: int
  bu_ask_qty :: u64

record order_ack =
  oa_ts :: u64
  oa_seq :: u64
  oa_ref :: u64
  oa_filled :: u32
  oa_cancelled :: u32
  oa_notional :: u64
  oa_fee :: int
  oa_kind :: byte
  oa_buy :: byte

record order_fill =
  of_ts :: u64
  of_seq :: u64
  of_ref :: u64
  of_px :: int
  of_qty :: u32
  of_fee :: int
  of_buy :: byte

record 's hooks =
  on_order_book_update :: "book_update \<Rightarrow> 's \<Rightarrow> 's"
  on_trade :: "sim_trade \<Rightarrow> 's \<Rightarrow> 's"
  on_order_ack :: "order_ack \<Rightarrow> 's \<Rightarrow> 's"
  on_order_fill :: "order_fill \<Rightarrow> 's \<Rightarrow> 's"

definition no_hooks :: "'s hooks" where
  "no_hooks = \<lparr> on_order_book_update = (\<lambda>_ s. s), on_trade = (\<lambda>_ s. s), on_order_ack = (\<lambda>_ s. s), on_order_fill = (\<lambda>_ s. s) \<rparr>"

record ('d, 's) runner =
  sg_sim :: "'d sim"
  sg_strat :: 's
  sg_clock :: u64
  sg_last_bid :: int
  sg_last_ask :: int
  sg_last_bid_qty :: u64
  sg_last_ask_qty :: u64

definition runner_new :: "'d sim \<Rightarrow> 's \<Rightarrow> ('d, 's) runner" where
  "runner_new sm strat = \<lparr> sg_sim = sm, sg_strat = strat, sg_clock = 0, sg_last_bid = kNoTick, sg_last_ask = kNoTick,
     sg_last_bid_qty = 0, sg_last_ask_qty = 0 \<rparr>"

section \<open>Delivery\<close>

definition fill_of :: "sim_fill_report \<Rightarrow> order_fill" where
  "fill_of r = \<lparr> of_ts = fr_visible_ts r, of_seq = fr_seq r, of_ref = fr_ref r, of_px = fr_price_ticks r, of_qty = fr_qty r,
     of_fee = fr_fee r, of_buy = (if fr_side r = 0x42 then 1 else 0) \<rparr>"

definition ack_of :: "sim_decision \<Rightarrow> order_ack" where
  "ack_of d = \<lparr> oa_ts = dc_visible_ts d, oa_seq = dc_seq d, oa_ref = dc_ref d, oa_filled = dc_filled_qty d,
     oa_cancelled = dc_cancelled_qty d, oa_notional = dc_filled_notional d, oa_fee = dc_fee d,
     oa_kind = decision_code (dc_kind d), oa_buy = (if dc_side d = 0x42 then 1 else 0) \<rparr>"

text \<open>The number of the next element of a list, or the largest number when there is none.\<close>

definition next_seq_of :: "('e \<Rightarrow> u64) \<Rightarrow> 'e list \<Rightarrow> u64" where
  "next_seq_of f es = (case es of [] \<Rightarrow> - 1 | e # _ \<Rightarrow> f e)"

function pump :: "'s hooks \<Rightarrow> sim_trade list \<Rightarrow> sim_fill_report list \<Rightarrow> sim_decision list \<Rightarrow> 's \<Rightarrow> 's option" where
  "pump H trades reports decisions s =
     (if trades = [] \<and> reports = [] \<and> decisions = [] then Some s
      else let st = next_seq_of st_seq trades;
               sr = next_seq_of fr_seq reports;
               sd = next_seq_of dc_seq decisions
           in if st \<le> sr \<and> st \<le> sd then
                (case trades of [] \<Rightarrow> None | t # ts \<Rightarrow> pump H ts reports decisions (on_trade H t s))
              else if sr \<le> sd then
                (case reports of [] \<Rightarrow> None | r # rs \<Rightarrow> pump H trades rs decisions (on_order_fill H (fill_of r) s))
              else
                (case decisions of [] \<Rightarrow> None | d # ds \<Rightarrow> pump H trades reports ds (on_order_ack H (ack_of d) s)))"
  by pat_completeness auto
termination
  by (relation "measure (\<lambda>(_, ts, rs, ds, _). length ts + length rs + length ds)") auto

declare pump.simps [simp del]

definition drain_pump :: "'s hooks \<Rightarrow> ('d, 's) runner \<Rightarrow> ('d, 's) runner option" where
  "drain_pump H rn = do {
     s \<leftarrow> pump H (si_trades (sg_sim rn)) (si_reports (sg_sim rn)) (si_decisions (sg_sim rn)) (sg_strat rn);
     Some (rn\<lparr> sg_strat := s, sg_sim := clear_events (sg_sim rn) \<rparr>)
   }"

definition emit_book_update :: "'s hooks \<Rightarrow> ('d, 's) runner \<Rightarrow> ('d, 's) runner" where
  "emit_book_update H rn =
     (let bk = si_book (sg_sim rn);
          bid_px = bk_best_bid bk;
          ask_px = bk_best_ask bk;
          bid_qty = (if bid_px = kNoTick then 0 else word_of_int (qty_at bk Buy bid_px)) :: u64;
          ask_qty = (if ask_px = kNoTick then 0 else word_of_int (qty_at bk Sell ask_px)) :: u64
      in if bid_px = sg_last_bid rn \<and> ask_px = sg_last_ask rn \<and> bid_qty = sg_last_bid_qty rn \<and> ask_qty = sg_last_ask_qty rn
         then rn
         else let rn = rn\<lparr> sg_last_bid := bid_px, sg_last_ask := ask_px, sg_last_bid_qty := bid_qty, sg_last_ask_qty := ask_qty \<rparr>;
                  u = \<lparr> bu_ts = sg_clock rn, bu_bid_px = sg_last_bid rn, bu_bid_qty = sg_last_bid_qty rn,
                        bu_ask_px = sg_last_ask rn, bu_ask_qty = sg_last_ask_qty rn \<rparr>
              in rn\<lparr> sg_strat := on_order_book_update H u (sg_strat rn) \<rparr>)"

definition runner_submit :: "('d, 'f) sim_env \<Rightarrow> sim_inbound \<Rightarrow> ('d, 's) runner \<Rightarrow> (u64 \<times> ('d, 's) runner) option" where
  "runner_submit E ib rn = do {
     (ts, sm) \<leftarrow> sim_submit E ib (sg_clock rn) (sg_sim rn);
     Some (ts, rn\<lparr> sg_sim := sm \<rparr>)
   }"

definition runner_run_until :: "('d, 'f) sim_env \<Rightarrow> 's hooks \<Rightarrow> u64 \<Rightarrow> ('d, 's) runner \<Rightarrow> ('d, 's) runner option" where
  "runner_run_until E H until_ts rn = do {
     sm \<leftarrow> run_until E until_ts (sg_sim rn);
     drain_pump H (emit_book_update H (rn\<lparr> sg_sim := sm \<rparr>))
   }"

definition runner_advance_time :: "('d, 'f) sim_env \<Rightarrow> 's hooks \<Rightarrow> u64 \<Rightarrow> ('d, 's) runner \<Rightarrow> ('d, 's) runner option" where
  "runner_advance_time E H dt_ns rn = do {
     sm \<leftarrow> advance_time E dt_ns (sg_sim rn);
     let rn = rn\<lparr> sg_sim := sm, sg_clock := sg_clock rn + dt_ns \<rparr>;
     sm \<leftarrow> run_until E (sg_clock rn) (sg_sim rn);
     drain_pump H (emit_book_update H (rn\<lparr> sg_sim := sm \<rparr>))
   }"

section \<open>Causal order\<close>

text \<open>The occurrences a runner delivers, their numbers and the hooks they reach.\<close>

datatype occurrence = TradeOcc sim_trade | FillOcc sim_fill_report | AckOcc sim_decision

fun occ_seq :: "occurrence \<Rightarrow> u64" where
  "occ_seq (TradeOcc t) = st_seq t"
| "occ_seq (FillOcc r) = fr_seq r"
| "occ_seq (AckOcc d) = dc_seq d"

fun deliver :: "'s hooks \<Rightarrow> 's \<Rightarrow> occurrence \<Rightarrow> 's" where
  "deliver H s (TradeOcc t) = on_trade H t s"
| "deliver H s (FillOcc r) = on_order_fill H (fill_of r) s"
| "deliver H s (AckOcc d) = on_order_ack H (ack_of d) s"

definition trades_of :: "occurrence list \<Rightarrow> sim_trade list" where
  "trades_of os = concat (map (\<lambda>x. case x of TradeOcc t \<Rightarrow> [t] | _ \<Rightarrow> []) os)"

definition reports_of :: "occurrence list \<Rightarrow> sim_fill_report list" where
  "reports_of os = concat (map (\<lambda>x. case x of FillOcc r \<Rightarrow> [r] | _ \<Rightarrow> []) os)"

definition decisions_of :: "occurrence list \<Rightarrow> sim_decision list" where
  "decisions_of os = concat (map (\<lambda>x. case x of AckOcc d \<Rightarrow> [d] | _ \<Rightarrow> []) os)"

lemmas streams = trades_of_def reports_of_def decisions_of_def

definition seq_sorted :: "('e \<Rightarrow> u64) \<Rightarrow> 'e list \<Rightarrow> bool" where
  "seq_sorted f es \<longleftrightarrow> sorted (map f es) \<and> - 1 \<notin> f ` set es"

definition merges :: "occurrence list \<Rightarrow> sim_trade list \<Rightarrow> sim_fill_report list \<Rightarrow> sim_decision list \<Rightarrow> bool" where
  "merges os ts rs ds \<longleftrightarrow> sorted (map occ_seq os) \<and> trades_of os = ts \<and> reports_of os = rs \<and> decisions_of os = ds"

lemma next_seq_least: "seq_sorted f es \<Longrightarrow> e \<in> set es \<Longrightarrow> next_seq_of f es \<le> f e"
  by (cases es) (auto simp: seq_sorted_def next_seq_of_def)

lemma merges_members:
  assumes "merges os ts rs ds" and "x \<in> set os"
  shows "(\<exists>t \<in> set ts. occ_seq x = st_seq t) \<or> (\<exists>r \<in> set rs. occ_seq x = fr_seq r) \<or> (\<exists>d \<in> set ds. occ_seq x = dc_seq d)"
  using assms by (cases x) (force simp: merges_def streams)+

text \<open>An occurrence in front of a merge, when its number is the least of the three next ones.\<close>

lemma merges_front:
  assumes "merges os ts rs ds" and "seq_sorted st_seq ts" and "seq_sorted fr_seq rs" and "seq_sorted dc_seq ds"
    and "occ_seq x \<le> next_seq_of st_seq ts" and "occ_seq x \<le> next_seq_of fr_seq rs" and "occ_seq x \<le> next_seq_of dc_seq ds"
  shows "sorted (map occ_seq (x # os))"
proof -
  have "occ_seq x \<le> occ_seq y" if "y \<in> set os" for y
    using merges_members[OF assms(1) that] next_seq_least[OF assms(2)] next_seq_least[OF assms(3)] next_seq_least[OF assms(4)]
      assms(5-7) by (metis order_trans)
  then show ?thesis using assms(1) by (simp add: merges_def)
qed

lemma next_seq_tail: "seq_sorted f (e # es) \<Longrightarrow> seq_sorted f es \<and> f e \<le> next_seq_of f es \<and> f e \<noteq> - 1"
  by (cases es) (auto simp: seq_sorted_def next_seq_of_def)

lemma next_seq_Cons [simp]: "next_seq_of f (e # es) = f e" "next_seq_of f [] = - 1"
  by (simp_all add: next_seq_of_def)

lemma next_seq_none: "seq_sorted f es \<Longrightarrow> next_seq_of f es = - 1 \<longleftrightarrow> es = []"
  by (cases es) (auto simp: seq_sorted_def)

lemma pump_merges:
  assumes "seq_sorted st_seq ts" and "seq_sorted fr_seq rs" and "seq_sorted dc_seq ds"
  shows "\<exists>os. pump H ts rs ds s = Some (foldl (deliver H) s os) \<and> merges os ts rs ds"
  using assms
proof (induction H ts rs ds s rule: pump.induct)
  case (1 H ts rs ds s)
  let ?st = "next_seq_of st_seq ts" and ?sr = "next_seq_of fr_seq rs" and ?sd = "next_seq_of dc_seq ds"
  show ?case
  proof (cases "ts = [] \<and> rs = [] \<and> ds = []")
    case True
    then show ?thesis by (intro exI[of _ "[]"]) (simp add: pump.simps merges_def streams)
  next
    case False
    note none = next_seq_none[OF "1.prems"(1)] next_seq_none[OF "1.prems"(2)] next_seq_none[OF "1.prems"(3)]
    consider (trades) "?st \<le> ?sr" "?st \<le> ?sd" | (fills) "\<not> (?st \<le> ?sr \<and> ?st \<le> ?sd)" "?sr \<le> ?sd"
      | (acks) "\<not> (?st \<le> ?sr \<and> ?st \<le> ?sd)" "\<not> ?sr \<le> ?sd" by blast
    then show ?thesis
    proof cases
      case trades
      have "ts \<noteq> []" using False none trades by (auto simp: word_order.extremum_unique)
      then obtain t ts' where "ts = t # ts'" by (cases ts) auto
      note trade = this trades
      note tl = next_seq_tail[OF "1.prems"(1)[unfolded trade(1)]]
      from "1.IH"(1)[OF False refl refl refl] trade tl "1.prems" obtain os where
        os: "pump H ts' rs ds (on_trade H t s) = Some (foldl (deliver H) (on_trade H t s) os)" "merges os ts' rs ds" by auto
      have "sorted (map occ_seq (TradeOcc t # os))"
        by (rule merges_front[OF os(2)]) (use tl "1.prems" trade in simp_all)
      then have "merges (TradeOcc t # os) ts rs ds" using os(2) trade(1) by (simp add: merges_def streams)
      moreover have "pump H ts rs ds s = pump H ts' rs ds (on_trade H t s)"
        using trade by (subst pump.simps) (simp add: Let_def)
      ultimately show ?thesis using os(1) by (intro exI[of _ "TradeOcc t # os"]) simp
    next
      case fills
      have "?sr \<noteq> - 1"
      proof
        assume sr: "?sr = - 1"
        then have "?sd = - 1" using fills(2) by (simp add: word_order.extremum_unique)
        then show False using fills(1) sr by simp
      qed
      then obtain r rs' where "rs = r # rs'" by (cases rs) auto
      note fill = this fills
      note tl = next_seq_tail[OF "1.prems"(2)[unfolded fill(1)]]
      from "1.IH"(2)[OF False refl refl refl] fill tl "1.prems" obtain os where
        os: "pump H ts rs' ds (on_order_fill H (fill_of r) s) = Some (foldl (deliver H) (on_order_fill H (fill_of r) s) os)"
          "merges os ts rs' ds" by auto
      have "sorted (map occ_seq (FillOcc r # os))"
        by (rule merges_front[OF os(2)]) (use tl "1.prems" fill in \<open>auto simp: not_le\<close>)
      then have "merges (FillOcc r # os) ts rs ds" using os(2) fill(1) by (simp add: merges_def streams)
      moreover have "pump H ts rs ds s = pump H ts rs' ds (on_order_fill H (fill_of r) s)"
        using fill by (subst pump.simps) (auto simp: Let_def)
      ultimately show ?thesis using os(1) by (intro exI[of _ "FillOcc r # os"]) simp
    next
      case acks
      have "?sd \<noteq> - 1" using acks by auto
      then obtain d ds' where "ds = d # ds'" by (cases ds) auto
      note ack = this acks
      note tl = next_seq_tail[OF "1.prems"(3)[unfolded ack(1)]]
      from "1.IH"(3)[OF False refl refl refl] ack tl "1.prems" obtain os where
        os: "pump H ts rs ds' (on_order_ack H (ack_of d) s) = Some (foldl (deliver H) (on_order_ack H (ack_of d) s) os)"
          "merges os ts rs ds'" by auto
      have "sorted (map occ_seq (AckOcc d # os))"
        by (rule merges_front[OF os(2)]) (use tl "1.prems" ack in \<open>auto simp: not_le\<close>)
      then have "merges (AckOcc d # os) ts rs ds" using os(2) ack(1) by (simp add: merges_def streams)
      moreover have "pump H ts rs ds s = pump H ts rs ds' (on_order_ack H (ack_of d) s)"
        using ack by (subst pump.simps) (auto simp: Let_def)
      ultimately show ?thesis using os(1) by (intro exI[of _ "AckOcc d # os"]) simp
    qed
  qed
qed

section \<open>The numbers of a simulation\<close>

text \<open>Every occurrence takes the next number of one counter: an invariant \<open>P\<close> that looks only at the counter and
  the three lists, and that survives appending an occurrence with the next number, survives every run.\<close>

definition stamp_view :: "'d sim \<Rightarrow> u64 \<times> sim_trade list \<times> sim_fill_report list \<times> sim_decision list" where
  "stamp_view sm = (si_seq_counter sm, si_trades sm, si_reports sm, si_decisions sm)"

interpretation stampv: sim_quiet stamp_view
  by unfold_locales (simp_all add: stamp_view_def)

lemma stamp_market [simp]:
  "stamp_view (sm\<lparr> si_book := bk \<rparr>) = stamp_view sm" "stamp_view (sm\<lparr> si_hidden := hs \<rparr>) = stamp_view sm"
  "stamp_view (sm\<lparr> si_icebergs := ibs \<rparr>) = stamp_view sm" "stamp_view (sm\<lparr> si_wheel := w \<rparr>) = stamp_view sm"
  "stamp_view (sm\<lparr> si_ext_now := n \<rparr>) = stamp_view sm"
  "stamp_view (drop_iceberg i sm) = stamp_view sm" "stamp_view (repeg_hidden sm) = stamp_view sm"
  by (simp_all add: stamp_view_def drop_iceberg_def repeg_hidden_def)

lemma stamp_replenish: "replenish_if_iceberg head sm = Some sm' \<Longrightarrow> stamp_view sm' = stamp_view sm"
  by (auto simp: replenish_if_iceberg_def Let_def split: bind_splits if_splits prod.splits)

locale sim_stamp =
  fixes P :: "'d sim \<Rightarrow> bool"
  assumes same: "stamp_view sm' = stamp_view sm \<Longrightarrow> P sm' \<longleftrightarrow> P sm"
    and trade: "P sm \<Longrightarrow> st_seq t = si_seq_counter sm + 1 \<Longrightarrow>
      P (sm\<lparr> si_seq_counter := si_seq_counter sm + 1, si_trades := si_trades sm @ [t] \<rparr>)"
    and report: "P sm \<Longrightarrow> fr_seq r = si_seq_counter sm + 1 \<Longrightarrow>
      P (sm\<lparr> si_seq_counter := si_seq_counter sm + 1, si_reports := si_reports sm @ [r] \<rparr>)"
    and decision: "P sm \<Longrightarrow> dc_seq d = si_seq_counter sm + 1 \<Longrightarrow>
      P (sm\<lparr> si_seq_counter := si_seq_counter sm + 1, si_decisions := si_decisions sm @ [d] \<rparr>)"
begin

lemma keeps: "P sm \<Longrightarrow> stamp_view sm' = stamp_view sm \<Longrightarrow> P sm'"
  using same by blast

lemma emits_trade: "P sm \<Longrightarrow> P (emit_trade s p q sm)"
  by (simp add: emit_trade_def next_seq_def Let_def trade)

lemma emits_fill: 
  assumes "P sm"
  shows "P (emit_fill E idx p q ts sm)"
proof -
  obtain j sm1 where j: "draw_jitter E sm = (j, sm1)" by fastforce
  have "P sm1" using keeps[OF assms stampv.jitter[OF j]] .
  note r = report[OF this, of "\<lparr> fr_visible_ts = ts + ucast (cf_wire_latency_ns (si_cfg sm1)) + j, fr_ref = tk_ref (si_tracked sm ! idx), fr_price_ticks = p,
      fr_qty = word_of_int q, fr_seq = si_seq_counter sm1 + 1, fr_side = tk_side (si_tracked sm ! idx),
      fr_fee = fee_bps_of (word_of_int p * word_of_int q) (cf_maker_fee_bps (si_cfg sm1)) \<rparr>"]
  show ?thesis
    by (rule keeps[OF r]) (simp, simp add: emit_fill_def j sim_simps Let_def stamp_view_def)
qed

lemma emits_hidden: 
  assumes "P sm"
  shows "P (report_hidden_fill E s p ref tk sm)"
proof -
  note r = report[OF assms, of "\<lparr> fr_visible_ts = si_now_hint sm, fr_ref = ref, fr_price_ticks = p, fr_qty = word_of_int tk,
      fr_seq = si_seq_counter sm + 1, fr_side = (if s = Buy then 0x42 else 0x53),
      fr_fee = fee_bps_of (word_of_int tk * word_of_int p) (cf_maker_fee_bps (si_cfg sm)) \<rparr>"]
  show ?thesis
    by (rule keeps[OF r]) (simp_all add: report_hidden_fill_def trace_hidden_fill_def sim_simps Let_def stamp_view_def)
qed

lemma pushes: 
  assumes "P sm"
  shows "P (push_decision E d vis ref sd sm)"
proof -
  note r = decision[OF assms, of "d\<lparr> dc_ref := ref, dc_visible_ts := vis, dc_side := sd, dc_seq := si_seq_counter sm + 1 \<rparr>"]
  show ?thesis
    by (rule keeps[OF r]) (simp_all add: push_decision_def sim_simps Let_def stamp_view_def)
qed

lemma reports_fills: "P sm \<Longrightarrow> P (report_fills E s p fs sm)"
  by (induction fs arbitrary: sm) (auto simp: emits_hidden)

lemma writes [simp]:
  "P (sm\<lparr> si_recent_sync := rs \<rparr>) \<longleftrightarrow> P sm" "P (sm\<lparr> si_driver := dr \<rparr>) \<longleftrightarrow> P sm" "P (sm\<lparr> si_now_hint := n \<rparr>) \<longleftrightarrow> P sm"
  "P (sm\<lparr> si_naive_filled := n1 \<rparr>) \<longleftrightarrow> P sm" "P (sm\<lparr> si_model_filled := n1 \<rparr>) \<longleftrightarrow> P sm"
  "P (sm\<lparr> si_aggressive_filled := n1 \<rparr>) \<longleftrightarrow> P sm" "P (sm\<lparr> si_dirty := rs \<rparr>) \<longleftrightarrow> P sm"
  "P (sm\<lparr> si_book := bk \<rparr>) \<longleftrightarrow> P sm" "P (sm\<lparr> si_hidden := hs \<rparr>) \<longleftrightarrow> P sm" "P (sm\<lparr> si_icebergs := ibs \<rparr>) \<longleftrightarrow> P sm"
  "P (sm\<lparr> si_wheel := w \<rparr>) \<longleftrightarrow> P sm" "P (sm\<lparr> si_ext_now := n2 \<rparr>) \<longleftrightarrow> P sm"
  "P (mark_dirty i sm) \<longleftrightarrow> P sm" "P (set_tracked i tr sm) \<longleftrightarrow> P sm" "P (unlink_tracked i sm) \<longleftrightarrow> P sm"
  "P (drop_iceberg i sm) \<longleftrightarrow> P sm" "P (repeg_hidden sm) \<longleftrightarrow> P sm" "P (update_momentum x sm) \<longleftrightarrow> P sm"
  by (rule same, simp)+

lemma jitters: "draw_jitter E sm = (j, sm') \<Longrightarrow> P sm' \<longleftrightarrow> P sm"
  by (rule same) (rule stampv.jitter)

lemma recomputes: "recompute_positions s p sm = Some sm' \<Longrightarrow> P sm' \<longleftrightarrow> P sm"
  by (rule same) (rule stampv.recompute)

lemma subtracts: "subtract_level s p n sk sm = Some sm' \<Longrightarrow> P sm' \<longleftrightarrow> P sm"
  by (rule same) (rule stampv.subtract)

lemma touches: "subtract_touched opp ts sm = Some sm' \<Longrightarrow> P sm' \<longleftrightarrow> P sm"
  by (rule same) (rule stampv.touched)

lemma notings: "note_take opp touch q nt sm = Some (nt', sm') \<Longrightarrow> P sm' \<longleftrightarrow> P sm"
  by (rule same) (rule stampv.noted)

lemma replenishes: "replenish_if_iceberg head sm = Some sm' \<Longrightarrow> P sm' \<longleftrightarrow> P sm"
  by (rule same) (rule stamp_replenish)

lemma tracks: "track_resting ref s q p sm = Some sm' \<Longrightarrow> P sm' \<longleftrightarrow> P sm"
  by (rule same) (rule stampv.track)

lemma conserves: "conservation_ok sm = Some (ok, sm') \<Longrightarrow> P sm' \<longleftrightarrow> P sm"
  by (rule same) (rule stampv.conservation)

lemma taps: "tap_hidden E s p r n sm = (f, r', n', sm') \<Longrightarrow> P sm \<longrightarrow> P sm'"
  by (cases "tap_spec s p r (si_hidden sm)") (auto simp: tap_hidden_spec reports_fills)

lemma reduces: "reduce_and_sync E s head p tk via hh sm = Some sm' \<Longrightarrow> P sm \<longrightarrow> P sm'"
  by (auto simp: reduce_and_sync_def Let_def emits_fill split: bind_splits if_splits prod.splits option.splits)

lemma heads: "cross_head E opp touch head cs sm = Some (nx, cs', sm') \<Longrightarrow> P sm \<longrightarrow> P sm'"
  by (auto simp: cross_head_def apply_to_head_def Let_def split: bind_splits if_splits prod.splits
      dest!: notings replenishes taps reduces)

lemma turns: "cross_step E ord cs sm = Some (nx, cs', sm') \<Longrightarrow> P sm \<longrightarrow> P sm'"
  by (auto simp: cross_step_def Let_def split: bind_splits if_splits prod.splits dest!: taps heads)

lemma loops: "cross_loop E ord cs sm = Some (st, cs', sm') \<Longrightarrow> P sm \<longrightarrow> P sm'"
  by (induct rule: cross_loop_induct) (auto dest!: turns)

lemma crosses: "cross E ord q n sm = Some (f, st, n', sm') \<Longrightarrow> P sm \<longrightarrow> P sm'"
  by (auto simp: cross_def Let_def split: bind_splits if_splits prod.splits dest!: subtracts touches loops)

lemma decides_cross: "decide_cross E ord out sm = Some (st, q, out', sm') \<Longrightarrow> P sm \<longrightarrow> P sm'"
  by (auto simp: decide_cross_def Let_def split: bind_splits prod.splits dest!: crosses)

lemma decides_rest: "decide_rest E ord q out vis sd sm = Some sm' \<Longrightarrow> P sm \<longrightarrow> P sm'"
  by (auto simp: decide_rest_def Let_def pushes split: bind_splits if_splits prod.splits dest!: tracks)

lemma decides: "decide E ord ts sm = Some sm' \<Longrightarrow> P sm \<longrightarrow> P sm'"
  by (auto simp: decide_def Let_def pushes split: bind_splits if_splits prod.splits dest!: jitters decides_cross decides_rest)

lemma runs: "run_until E t sm = Some sm' \<Longrightarrow> P sm \<Longrightarrow> P sm'"
proof (induct E t sm sm' rule: run_until.raw_induct[rotated, consumes 1, case_names turn])
  case (turn f E t sm sm')
  then show ?case by (fastforce split: if_splits bind_splits dest: decides)
qed

lemma consumes: "consume_loop E s p q n sm = Some (n', sm') \<Longrightarrow> P sm \<longrightarrow> P sm'"
proof -
  have "P sm \<longrightarrow> P (snd r)" if "consume_loop E s p q n sm = Some r" for r
    using that
  proof (induct E s p q n sm r rule: consume_loop.raw_induct[rotated, consumes 1, case_names turn])
    case (turn f E s p q n sm r)
    from turn(2) show ?case
      by (auto simp: apply_to_head_def Let_def split: if_splits bind_splits dest!: turn(1) reduces replenishes)
  qed
  then show "consume_loop E s p q n sm = Some (n', sm') \<Longrightarrow> P sm \<longrightarrow> P sm'" by fastforce
qed

lemma consumes_level: "consume_level E s p q sm = Some sm' \<Longrightarrow> P sm \<longrightarrow> P sm'"
  by (auto simp: consume_level_def Let_def emits_trade split: bind_splits if_splits prod.splits
      dest!: subtracts consumes conserves)

lemma applies: "apply_external E s p q sm = Some sm' \<Longrightarrow> P sm \<longrightarrow> P sm'"
  by (auto simp: apply_external_def Let_def split: bind_splits if_splits prod.splits dest!: consumes_level dest: taps)

lemma depletes_loop: "depletion_loop E s n lvl tick q sm = Some sm' \<Longrightarrow> P sm \<longrightarrow> P sm'"
  by (induction E s n lvl tick q sm rule: depletion_loop.induct)
    (auto simp: Let_def split: bind_splits if_splits dest!: consumes_level)

lemma depletes: "apply_depletion E s q sm = Some sm' \<Longrightarrow> P sm \<longrightarrow> P sm'"
  by (auto simp: apply_depletion_def Let_def split: if_splits dest!: consumes_level depletes_loop)

lemma advances: "advance_time E dt sm = Some sm' \<Longrightarrow> P sm \<longrightarrow> P sm'"
  by (auto simp: advance_time_def Let_def split: bind_splits if_splits prod.splits dest!: depletes conserves)

end

text \<open>The numbers are \<open>b + 1\<close> up to \<open>b\<close> plus the number of occurrences, in order within each list.\<close>

definition occurrences :: "'d sim \<Rightarrow> nat" where
  "occurrences sm = length (si_trades sm) + length (si_reports sm) + length (si_decisions sm)"

definition numbered_by :: "nat \<Rightarrow> ('e \<Rightarrow> u64) \<Rightarrow> 'e list \<Rightarrow> bool" where
  "numbered_by n f es \<longleftrightarrow> (\<exists>ks. sorted ks \<and> list_all (\<lambda>k. k \<le> n) ks \<and> map f es = map of_nat ks)"

definition numbered :: "nat \<Rightarrow> 'd sim \<Rightarrow> bool" where
  "numbered b sm \<longleftrightarrow> (let n = b + occurrences sm
     in si_seq_counter sm = of_nat n \<and> numbered_by n st_seq (si_trades sm) \<and> numbered_by n fr_seq (si_reports sm) \<and>
        numbered_by n dc_seq (si_decisions sm))"

lemma numbered_more: "numbered_by n f es \<Longrightarrow> numbered_by (Suc n) f es"
  by (fastforce simp: numbered_by_def list_all_iff)

lemma numbered_snoc: "numbered_by n f es \<Longrightarrow> f e = of_nat n + 1 \<Longrightarrow> numbered_by (Suc n) f (es @ [e])"
proof -
  assume "numbered_by n f es" and e: "f e = of_nat n + 1"
  then obtain ks where "sorted ks" "list_all (\<lambda>k. k \<le> n) ks" "map f es = map of_nat ks" by (auto simp: numbered_by_def)
  then show "numbered_by (Suc n) f (es @ [e])" unfolding numbered_by_def using e
    by (intro exI[of _ "ks @ [Suc n]"]) (auto simp: sorted_append list_all_iff)
qed

interpretation numbers: sim_stamp "numbered b" for b
proof
  fix sm sm' :: "'a sim"
  assume "stamp_view sm' = stamp_view sm"
  then show "numbered b sm' \<longleftrightarrow> numbered b sm" by (simp add: numbered_def occurrences_def stamp_view_def)
qed (auto simp: numbered_def occurrences_def Let_def intro: numbered_more numbered_snoc)

lemma numbered_start: "si_trades sm = [] \<Longrightarrow> si_reports sm = [] \<Longrightarrow> si_decisions sm = [] \<Longrightarrow> numbered (unat (si_seq_counter sm)) sm"
  by (simp add: numbered_def numbered_by_def occurrences_def)

lemma numbered_sorted:
  assumes "numbered_by n f es" and "n < 2 ^ 64 - 1"
  shows "seq_sorted f es"
proof -
  from assms(1) obtain ks where ks: "sorted ks" "list_all (\<lambda>k. k \<le> n) ks" "map f es = map of_nat ks" by (auto simp: numbered_by_def)
  have small: "unat (of_nat k :: u64) = k" if "k \<in> set ks" for k
  proof -
    have "k < 2 ^ 64" using ks(2) assms(2) that by (auto simp: list_all_iff)
    then show ?thesis by (simp add: unat_of_nat)
  qed
  have "sorted (map (of_nat :: nat \<Rightarrow> u64) ks)"
    using ks(1) small by (auto simp: sorted_map word_le_nat_alt elim!: sorted_wrt_mono_rel[rotated])
  moreover have "- 1 \<notin> f ` set es"
  proof
    assume "- 1 \<in> f ` set es"
    then have "(- 1 :: u64) \<in> set (map of_nat ks)" using ks(3) by (metis list.set_map)
    then obtain k where k: "k \<in> set ks" "of_nat k = (- 1 :: u64)" by auto
    have "unat (- 1 :: u64) = 2 ^ 64 - 1" by (simp add: unsigned_minus_1_eq_mask mask_eq_exp_minus_1)
    then show False using k small[OF k(1)] ks(2) assms(2) by (auto simp: list_all_iff)
  qed
  ultimately show ?thesis using ks(3) by (simp add: seq_sorted_def)
qed

lemma run_sorted:
  assumes "numbered b sm" and "b + occurrences sm < 2 ^ 64 - 1"
  shows "seq_sorted st_seq (si_trades sm)" "seq_sorted fr_seq (si_reports sm)" "seq_sorted dc_seq (si_decisions sm)"
  using assms numbered_sorted by (auto simp: numbered_def Let_def)

section \<open>The runner\<close>

lemma deliver_all:
  assumes "numbered b sm" and "b + occurrences sm < 2 ^ 64 - 1"
  shows "\<exists>os rn'. drain_pump H (emit_book_update H (rn\<lparr> sg_sim := sm \<rparr>)) = Some rn' \<and>
     merges os (si_trades sm) (si_reports sm) (si_decisions sm) \<and>
     sg_strat rn' = foldl (deliver H) (sg_strat (emit_book_update H (rn\<lparr> sg_sim := sm \<rparr>))) os \<and>
     sg_sim rn' = clear_events sm \<and> sg_clock rn' = sg_clock rn"
proof -
  let ?rn = "emit_book_update H (rn\<lparr> sg_sim := sm \<rparr>)"
  have sim: "sg_sim ?rn = sm" "sg_clock ?rn = sg_clock rn" by (simp_all add: emit_book_update_def Let_def)
  from pump_merges[OF run_sorted[OF assms], of H "sg_strat ?rn"] obtain os where
    "pump H (si_trades sm) (si_reports sm) (si_decisions sm) (sg_strat ?rn) = Some (foldl (deliver H) (sg_strat ?rn) os)"
    "merges os (si_trades sm) (si_reports sm) (si_decisions sm)" by blast
  then show ?thesis using sim by (intro exI[of _ os]) (simp add: drain_pump_def)
qed

text \<open>C13: Hooks see the simulation in causal order. When external time advances, the runner returns whenever its
  simulator does, and the strategy then sees every trade, fill and decision of the window exactly once,
  in the order of their global numbers, after at most one update of the book; the simulator keeps none
  of them. This holds from any runner whose occurrences have been delivered, up to two to the 64 numbers.\<close>

theorem runner_causal_order:
  assumes "si_trades (sg_sim rn) = []" and "si_reports (sg_sim rn) = []" and "si_decisions (sg_sim rn) = []"
    and "advance_time E dt (sg_sim rn) = Some sm0" and "run_until E (sg_clock rn + dt) sm0 = Some sm"
    and "unat (si_seq_counter (sg_sim rn)) + occurrences sm < 2 ^ 64 - 1"
  shows "\<exists>rn' os. runner_advance_time E H dt rn = Some rn' \<and>
     sorted (map occ_seq os) \<and> trades_of os = si_trades sm \<and> reports_of os = si_reports sm \<and> decisions_of os = si_decisions sm \<and>
     sg_strat rn' = foldl (deliver H) (sg_strat (emit_book_update H (rn\<lparr> sg_sim := sm, sg_clock := sg_clock rn + dt \<rparr>))) os \<and>
     sg_sim rn' = clear_events sm \<and> sg_clock rn' = sg_clock rn + dt"
proof -
  let ?b = "unat (si_seq_counter (sg_sim rn))"
  have num: "numbered ?b sm"
    using numbered_start[OF assms(1-3)] numbers.advances[OF assms(4), of ?b] numbers.runs[OF assms(5), of ?b] by blast
  have swap: "rn\<lparr> sg_clock := sg_clock rn + dt, sg_sim := sm \<rparr> = rn\<lparr> sg_sim := sm, sg_clock := sg_clock rn + dt \<rparr>" by simp
  from deliver_all[OF num assms(6), of H "rn\<lparr> sg_clock := sg_clock rn + dt \<rparr>", unfolded swap] obtain os rn' where
    "drain_pump H (emit_book_update H (rn\<lparr> sg_sim := sm, sg_clock := sg_clock rn + dt \<rparr>)) = Some rn'"
    "merges os (si_trades sm) (si_reports sm) (si_decisions sm)"
    "sg_strat rn' = foldl (deliver H) (sg_strat (emit_book_update H (rn\<lparr> sg_sim := sm, sg_clock := sg_clock rn + dt \<rparr>))) os"
    "sg_sim rn' = clear_events sm" "sg_clock rn' = sg_clock rn + dt" by auto
  then show ?thesis using assms(4,5)
    by (intro exI[of _ rn'] exI[of _ os]) (simp add: runner_advance_time_def merges_def swap)
qed

lemma demo_quiet_occurrences: "quiet bk w sm \<Longrightarrow> si_trades sm = [] \<Longrightarrow> advance_time demo_env 5 sm = Some sm1 \<Longrightarrow>
    si_trades sm1 = [] \<and> si_reports sm1 = [] \<and> si_decisions sm1 = []"
  by (auto simp: advance_time_def demo_env_def apply_depletion_def Let_def conservation_calm quiet_def level_find_def)

lemma runner_causal_order_witness:
  "\<exists>(rn :: (unit, nat) runner) rn'. runner_advance_time demo_env no_hooks 5 rn = Some rn' \<and> sg_clock rn' = 5 \<and> sg_strat rn' = 7"
proof -
  from demo_book_two obtain bk where b: "book_rel bk demo_two" by blast
  from demo_queue obtain w :: "sim_event scheduler" where w: "sched_size w = 0" by blast
  let ?sm = "(demo_sim bk w)\<lparr> si_hidden := [demo_seller] \<rparr>" and ?H = "no_hooks :: nat hooks"
  let ?rn = "runner_new ?sm (7 :: nat)"
  have q: "quiet bk w ?sm" by (rule demo_quiet)
  from demo_advance[OF q] obtain sm1 where 1: "advance_time demo_env 5 ?sm = Some sm1" "quiet bk w sm1" by blast
  have e: "si_trades ?sm = []" "si_seq_counter ?sm = 0" by (simp_all add: demo_sim_def sim_new_def)
  have occ: "occurrences sm1 = 0" using demo_quiet_occurrences[OF q e(1) 1(1)] by (simp add: occurrences_def)
  have run: "run_until demo_env 5 sm1 = Some sm1" using 1(2) w by (simp add: run_until.simps sched_empty_def sched_size_def quiet_def)
  have "\<exists>rn' os. runner_advance_time demo_env ?H 5 ?rn = Some rn' \<and>
     sorted (map occ_seq os) \<and> trades_of os = si_trades sm1 \<and> reports_of os = si_reports sm1 \<and> decisions_of os = si_decisions sm1 \<and>
     sg_strat rn' = foldl (deliver ?H) (sg_strat (emit_book_update ?H (?rn\<lparr> sg_sim := sm1, sg_clock := sg_clock ?rn + 5 \<rparr>))) os \<and>
     sg_sim rn' = clear_events sm1 \<and> sg_clock rn' = sg_clock ?rn + 5"
    by (rule runner_causal_order) (use q 1 run occ e in \<open>simp_all add: runner_new_def quiet_def\<close>)
  moreover have "deliver ?H s x = s" for s x by (cases x) (simp_all add: no_hooks_def)
  then have "foldl (deliver ?H) s os = s" for s os by (induction os arbitrary: s) simp_all
  moreover have "sg_strat (emit_book_update ?H r) = sg_strat r" for r :: "(unit, nat) runner"
    by (simp add: emit_book_update_def no_hooks_def Let_def)
  ultimately show ?thesis by (auto simp: runner_new_def)
qed

end
