(* ===== verification/GatewayRun.thy ===== *)
theory GatewayRun
  imports StrategyRun OuchProps "HOL-Library.Sublist"
begin

text \<open>
  Sessions of the OUCH gateway: the inbound operations of \<open>include/mog/OUCH.hpp\<close> interleaved with the market the
  simulator replays and with drains. What a frame must say is stated here on its bytes, independently of the
  encoders, and every event of a session is shown to be announced by exactly one frame.
\<close>

section \<open>What a frame announces\<close>

datatype gateway_event = Decided sim_decision | Replacement replaced_event | Executed sim_fill_report

text \<open>The letters of the protocol: accepted, prevented self-trade, rejected, cancelled.\<close>

fun decision_letter :: "decision_kind \<Rightarrow> char" where
  "decision_letter Rested = CHR ''A''"
| "decision_letter Filled = CHR ''A''"
| "decision_letter PartialThenRest = CHR ''A''"
| "decision_letter RejectedStp = CHR ''D''"
| "decision_letter RejectedWouldCross = CHR ''J''"
| "decision_letter RejectedUnknown = CHR ''J''"
| "decision_letter PartialThenCancelled = CHR ''C''"

definition framed :: "char \<Rightarrow> u64 \<Rightarrow> token \<Rightarrow> byte list \<Rightarrow> bool" where
  "framed c ts tok f \<longleftrightarrow> length f = outbound_frame_length (of_char c) \<and> f ! 0 = of_char c \<and>
     (\<forall>le. load_be64 le (drop 1 f) = ts) \<and> take 14 (drop 9 f) = tok"

fun announces :: "gateway_event \<Rightarrow> byte list \<Rightarrow> bool" where
  "announces (Decided d) f \<longleftrightarrow> framed (decision_letter (dc_kind d)) (dc_visible_ts d) (token_from_id (dc_ref d)) f \<and>
     (dc_kind d \<in> {PartialThenCancelled, RejectedStp} \<longrightarrow> (\<forall>le. load_be32 le (drop 23 f) = dc_cancelled_qty d)) \<and>
     (dc_kind d \<in> {Rested, Filled, PartialThenRest} \<longrightarrow> (\<forall>le. load_be64 le (drop 49 f) = dc_ref d))"
| "announces (Replacement r) f \<longleftrightarrow> framed CHR ''U'' (re_ts_ns r) (re_replacement_token r) f \<and>
     (\<forall>le. load_be32 le (drop 24 f) = re_shares r \<and> load_be64 le (drop 49 f) = re_ref r) \<and>
     take 14 (drop 65 f) = re_previous_token r"
| "announces (Executed r) f \<longleftrightarrow> framed CHR ''E'' (fr_visible_ts r) (token_from_id (fr_ref r)) f \<and>
     (\<forall>le. load_be32 le (drop 23 f) = fr_qty r \<and> load_be32 le (drop 27 f) = word_of_int (fr_price_ticks r) \<and>
        load_be64 le (drop 32 f) = fr_seq r)"

text \<open>The members of the packed structs have fixed sizes, and so have the texts the gateway keeps of them.\<close>

definition gateway_ok :: "gateway \<Rightarrow> bool" where
  "gateway_ok gw \<longleftrightarrow> flat_inv (gw_orders gw) \<and> (\<forall>ref m. flat_find (gw_orders gw) ref = Some m \<longrightarrow> length (om_stock m) = 8) \<and>
     length (gw_default_symbol gw) = 8 \<and>
     (\<forall>r \<in> set (gw_replaced_events gw). length (re_replacement_token r) = 14 \<and> length (re_previous_token r) = 14 \<and>
        length (re_stock r) = 8)"

lemma decision_announced:
  assumes "gateway_ok gw"
  shows "\<exists>f. decision_frame le gw d = Some f \<and> announces (Decided d) f"
proof -
  let ?m = "flat_find (gw_orders gw) (dc_ref d)"
  have stock: "length (case ?m of None \<Rightarrow> gw_default_symbol gw | Some m \<Rightarrow> om_stock m) = 8"
    using assms by (auto simp: gateway_ok_def split: option.split)
  note t = token_from_id_length
  show ?thesis
    by (cases "dc_kind d")
      (simp_all add: decision_frame_def Let_def framed_def image_defs encode_defs byte_simps nth_append t stock
        outbound_frame_length_def sizeof_defs of_char_def)
qed

lemma report_announced: "announces (Executed r) (report_frame le r)"
  by (simp add: report_frame_def framed_def image_defs encode_defs byte_simps nth_append token_from_id_length
      outbound_frame_length_def sizeof_defs)

lemma replacement_announced:
  assumes "length (re_replacement_token r) = 14" and "length (re_previous_token r) = 14" and "length (re_stock r) = 8"
  shows "announces (Replacement r) (replaced_frame le r)"
  using assms by (simp add: replaced_frame_def framed_def image_defs encode_defs byte_simps nth_append
      outbound_frame_length_def sizeof_defs)

section \<open>What the simulator does to its lists\<close>

definition sent_view :: "'d sim \<Rightarrow> sim_fill_report list \<times> sim_decision list" where
  "sent_view sm = (si_reports sm, si_decisions sm)"

interpretation sentv: sim_quiet sent_view
  by unfold_locales (simp_all add: sent_view_def)

lemma sent_market [simp]:
  "sent_view (sm\<lparr> si_book := bk \<rparr>) = sent_view sm" "sent_view (sm\<lparr> si_hidden := hs \<rparr>) = sent_view sm"
  "sent_view (sm\<lparr> si_wheel := w \<rparr>) = sent_view sm" "sent_view (sm\<lparr> si_seq_counter := n \<rparr>) = sent_view sm"
  "sent_view (trace_hidden_cancel le ref sm) = sent_view sm"
  by (simp_all add: sent_view_def trace_hidden_cancel_def sim_simps Let_def)

text \<open>Submitting, cancelling and replacing decide nothing; running, advancing and prints only append.\<close>

lemma submit_sends: "sim_submit E ib ts sm = Some (d, sm') \<Longrightarrow> sent_view sm' = sent_view sm"
  by (auto simp: sim_submit_def Let_def bind_mog_pre_eq split: if_splits prod.splits bind_splits dest!: sentv.jitter)

lemma cancel_sends: "cancel_strategy E ref sm = Some (ok, sm') \<Longrightarrow> sent_view sm' = sent_view sm"
  by (auto simp: cancel_strategy_def Let_def split: if_splits option.splits prod.splits bind_splits dest!: sentv.recompute)

lemma replace_sends: "replace_strategy E orig fresh q p sm = Some (t, sm') \<Longrightarrow> sent_view sm' = sent_view sm"
  by (auto simp: replace_strategy_def Let_def bind_mog_pre_eq split: if_splits option.splits prod.splits bind_splits
      dest!: sentv.recompute sentv.track)

definition appends :: "'d sim \<Rightarrow> 'd sim \<Rightarrow> bool" where
  "appends sm sm' \<longleftrightarrow> prefix (si_decisions sm) (si_decisions sm') \<and> prefix (si_reports sm) (si_reports sm')"

lemma appends_refl [simp]: "appends sm sm"
  by (simp add: appends_def)

lemma sent_appends: "sent_view sm' = sent_view sm \<Longrightarrow> appends sm sm'"
  by (simp add: sent_view_def appends_def)

interpretation later: sim_stamp "appends sm0" for sm0
  by unfold_locales (auto simp: appends_def stamp_view_def)

section \<open>Sessions\<close>

datatype gateway_call = Enter enter_order_wire u64 | Replace_order replace_order_wire u64 | Withdraw cancel_order_wire
  | Run u64 | Advance u64 | External side int int | Drain

fun gateway_do :: "('d, 'f) sim_env \<Rightarrow> gateway_call \<Rightarrow> byte list list \<times> gateway \<times> 'd sim
    \<Rightarrow> (byte list list \<times> gateway \<times> 'd sim) option" where
  "gateway_do E (Enter w ts) (out, gw, sm) = map_option (\<lambda>(_, gw, sm). (out, gw, sm)) (submit_enter E w ts (gw, sm))"
| "gateway_do E (Replace_order w ts) (out, gw, sm) = map_option (\<lambda>(_, gw, sm). (out, gw, sm)) (submit_replace E w ts (gw, sm))"
| "gateway_do E (Withdraw w) (out, gw, sm) = map_option (\<lambda>(_, gw, sm). (out, gw, sm)) (submit_cancel E w (gw, sm))"
| "gateway_do E (Run t) (out, gw, sm) = map_option (\<lambda>sm. (out, gw, sm)) (run_until E t sm)"
| "gateway_do E (Advance dt) (out, gw, sm) = map_option (\<lambda>sm. (out, gw, sm)) (advance_time E dt sm)"
| "gateway_do E (External s p q) (out, gw, sm) = map_option (\<lambda>sm. (out, gw, sm)) (apply_external E s p q sm)"
| "gateway_do E Drain (out, gw, sm) = (let (out, gw) = drain_outbound E out (gw, sm) in Some (out, gw, sm))"

fun gateway_calls :: "('d, 'f) sim_env \<Rightarrow> gateway_call list \<Rightarrow> byte list list \<times> gateway \<times> 'd sim
    \<Rightarrow> (byte list list \<times> gateway \<times> 'd sim) option" where
  "gateway_calls E [] s = Some s"
| "gateway_calls E (c # cs) s = do { s \<leftarrow> gateway_do E c s; gateway_calls E cs s }"

text \<open>The arrays of a packed struct have their sizes.\<close>

fun call_sized :: "gateway_call \<Rightarrow> bool" where
  "call_sized (Enter w ts) \<longleftrightarrow> length (eow_order_token w) = 14 \<and> length (eow_stock w) = 8"
| "call_sized (Replace_order w ts) \<longleftrightarrow> length (row_existing_order_token w) = 14 \<and> length (row_replacement_order_token w) = 14"
| "call_sized _ \<longleftrightarrow> True"

text \<open>The events between two drains, and the order in which one drain announces them.\<close>

type_synonym batch = "sim_decision list \<times> replaced_event list \<times> sim_fill_report list"

fun batch_events :: "batch \<Rightarrow> gateway_event list" where
  "batch_events (ds, rs, xs) = map Decided ds @ map Replacement rs @ map Executed xs"

definition session_ok :: "batch list \<Rightarrow> byte list list \<times> gateway \<times> 'd sim \<Rightarrow> bool" where
  "session_ok bs = (\<lambda>(out, gw, sm). gateway_ok gw \<and>
     concat (map fst bs) = take (gw_last_decision_idx gw) (si_decisions sm) \<and>
     concat (map (fst \<circ> snd) bs) = take (gw_last_replaced_idx gw) (gw_replaced_events gw) \<and>
     concat (map (snd \<circ> snd) bs) = take (gw_last_report_idx gw) (si_reports sm) \<and>
     gw_last_decision_idx gw \<le> length (si_decisions sm) \<and> gw_last_replaced_idx gw \<le> length (gw_replaced_events gw) \<and>
     gw_last_report_idx gw \<le> length (si_reports sm) \<and>
     list_all2 announces (concat (map batch_events bs)) out)"

lemma take_prefix: "prefix xs ys \<Longrightarrow> n \<le> length xs \<Longrightarrow> take n ys = take n xs"
  by (auto simp: prefix_def)

lemma session_appends:
  assumes "session_ok bs (out, gw, sm)" and "appends sm sm'" and "gateway_ok gw'"
    and "prefix (gw_replaced_events gw) (gw_replaced_events gw')"
    and "gw_last_decision_idx gw' = gw_last_decision_idx gw" "gw_last_replaced_idx gw' = gw_last_replaced_idx gw"
      "gw_last_report_idx gw' = gw_last_report_idx gw"
  shows "session_ok bs (out, gw', sm')"
  using assms unfolding session_ok_def appends_def prod.case
  by (auto simp: take_prefix dest: prefix_length_le)

lemma fold_hash_ok [simp]: "gateway_ok (fold_gateway_hash t r q p gw) = gateway_ok gw"
  by (simp add: gateway_ok_def fold_gateway_hash_def Let_def)

lemma fold_hash_fields [simp]:
  "gw_replaced_events (fold_gateway_hash t r q p gw) = gw_replaced_events gw"
  "gw_last_decision_idx (fold_gateway_hash t r q p gw) = gw_last_decision_idx gw"
  "gw_last_replaced_idx (fold_gateway_hash t r q p gw) = gw_last_replaced_idx gw"
  "gw_last_report_idx (fold_gateway_hash t r q p gw) = gw_last_report_idx gw"
  by (simp_all add: fold_gateway_hash_def Let_def)

lemma assign_ok:
  assumes "gateway_ok gw" and "insert_or_assign ref m (gw_orders gw) = Some t" and "length (om_stock m) = 8"
  shows "gateway_ok (gw\<lparr> gw_orders := t \<rparr>)"
proof -
  have inv: "flat_inv (gw_orders gw)" using assms(1) by (simp add: gateway_ok_def)
  from insert_or_assign_correct[OF inv, of ref m] assms(2)
  have "flat_inv t" "flat_map t = (if ref = 0 then flat_map (gw_orders gw) else (flat_map (gw_orders gw))(ref \<mapsto> m))" by auto
  then show ?thesis using assms(1,3) inv by (auto simp: gateway_ok_def flat_find_map split: if_splits)
qed

text \<open>Every call but a drain only adds events.\<close>

lemma call_appends:
  assumes c: "gateway_do E c (out, gw, sm) = Some (out', gw', sm')" and nd: "c \<noteq> Drain" and sz: "call_sized c" and ok: "gateway_ok gw"
  shows "out' = out \<and> appends sm sm' \<and> gateway_ok gw' \<and> prefix (gw_replaced_events gw) (gw_replaced_events gw') \<and>
    gw_last_decision_idx gw' = gw_last_decision_idx gw \<and> gw_last_replaced_idx gw' = gw_last_replaced_idx gw \<and>
    gw_last_report_idx gw' = gw_last_report_idx gw"
proof (cases c)
  case (Enter w ts)
  then show ?thesis using c sz ok
    by (auto simp: submit_enter_def Let_def sent_appends submit_sends assign_ok split: bind_splits prod.splits)
next
  case (Replace_order w ts)
  then obtain b where r: "submit_replace E w ts (gw, sm) = Some (b, gw', sm')" "out' = out" using c by auto
  then obtain tick where rs: "replace_strategy E (id_from_token (take 14 (row_existing_order_token w)))
      (id_from_token (take 14 (row_replacement_order_token w))) (uint (load_be32 (en_le E) (row_shares w)))
      (uint (load_be32 (en_le E) (row_price w))) sm = Some (tick, sm')"
    by (auto simp: submit_replace_def Let_def split: bind_splits prod.splits if_splits)
  have "gateway_ok gw' \<and> prefix (gw_replaced_events gw) (gw_replaced_events gw') \<and>
    gw_last_decision_idx gw' = gw_last_decision_idx gw \<and> gw_last_replaced_idx gw' = gw_last_replaced_idx gw \<and>
    gw_last_report_idx gw' = gw_last_report_idx gw"
  proof (cases "tick_ok tick")
    case False
    then have "gw' = gw" using r(1) rs by (auto simp: submit_replace_def Let_def)
    then show ?thesis using ok by simp
  next
    case True
    define stock where "stock = (case flat_find (gw_orders gw) (id_from_token (take 14 (row_existing_order_token w))) of
      None \<Rightarrow> gw_default_symbol gw | Some m \<Rightarrow> om_stock m)"
    define sd where "sd = (case flat_find (gw_orders gw) (id_from_token (take 14 (row_existing_order_token w))) of
      None \<Rightarrow> Buy | Some m \<Rightarrow> om_side m)"
    define ref where "ref = id_from_token (take 14 (row_replacement_order_token w))"
    define m where "m = \<lparr> om_token = take 14 (row_replacement_order_token w), om_shares = load_be32 (en_le E) (row_shares w),
      om_price_ticks = uint (load_be32 (en_le E) (row_price w)), om_side = sd, om_stock = stock \<rparr>"
    define re where "re = \<lparr> re_replacement_token = take 14 (row_replacement_order_token w),
      re_previous_token = take 14 (row_existing_order_token w), re_side = sd, re_shares = load_be32 (en_le E) (row_shares w),
      re_stock = stock, re_price_ticks = uint (load_be32 (en_le E) (row_price w)), re_ref = ref, re_ts_ns = ts \<rparr>"
    from True r(1) rs obtain t where t: "insert_or_assign ref m (gw_orders gw) = Some t"
      "gw' = fold_gateway_hash (row_type w) ref (ucast (load_be32 (en_le E) (row_shares w))) (uint (load_be32 (en_le E) (row_price w)))
        (gw\<lparr> gw_orders := t, gw_replaced_events := gw_replaced_events gw @ [re] \<rparr>)"
      by (auto simp: submit_replace_def Let_def m_def re_def sd_def stock_def ref_def split: bind_splits)
    have len: "length stock = 8" using ok by (auto simp: stock_def gateway_ok_def split: option.split)
    have "gateway_ok (gw\<lparr> gw_orders := t \<rparr>)" by (rule assign_ok[OF ok t(1)]) (simp add: m_def len)
    then have "gateway_ok (gw\<lparr> gw_orders := t, gw_replaced_events := gw_replaced_events gw @ [re] \<rparr>)"
      using sz Replace_order len by (auto simp: gateway_ok_def re_def)
    then show ?thesis by (simp add: t(2))
  qed
  then show ?thesis using r(2) sent_appends[OF replace_sends[OF rs]] by simp
next
  case (Withdraw w)
  then show ?thesis using c ok by (auto simp: submit_cancel_def Let_def sent_appends cancel_sends split: bind_splits prod.splits)
next
  case (Run t)
  then show ?thesis using c ok later.runs[of E t sm sm' sm] by auto
next
  case (Advance dt)
  then show ?thesis using c ok later.advances[of E dt sm sm' sm] by auto
next
  case (External s p q)
  then show ?thesis using c ok later.applies[of E s p q sm sm' sm] by auto
qed (use nd in simp)

text \<open>A drain announces a batch: what the cursors had not passed.\<close>

lemma drain_batch:
  assumes "session_ok bs (out, gw, sm)" and "gateway_do E Drain (out, gw, sm) = Some (out', gw', sm')"
  shows "\<exists>b. session_ok (bs @ [b]) (out', gw', sm') \<and> gw_last_decision_idx gw' = length (si_decisions sm') \<and>
    gw_last_replaced_idx gw' = length (gw_replaced_events gw') \<and> gw_last_report_idx gw' = length (si_reports sm')"
proof -
  let ?ds = "drop (gw_last_decision_idx gw) (si_decisions sm)" and ?rs = "drop (gw_last_replaced_idx gw) (gw_replaced_events gw)"
    and ?xs = "drop (gw_last_report_idx gw) (si_reports sm)"
  have s: "gateway_ok gw" "concat (map fst bs) = take (gw_last_decision_idx gw) (si_decisions sm)"
    "concat (map (fst \<circ> snd) bs) = take (gw_last_replaced_idx gw) (gw_replaced_events gw)"
    "concat (map (snd \<circ> snd) bs) = take (gw_last_report_idx gw) (si_reports sm)"
    "gw_last_decision_idx gw \<le> length (si_decisions sm)" "gw_last_replaced_idx gw \<le> length (gw_replaced_events gw)"
    "gw_last_report_idx gw \<le> length (si_reports sm)" "list_all2 announces (concat (map batch_events bs)) out"
    using assms(1) by (simp_all add: session_ok_def)
  have o: "out' = out @ drained_frames (en_le E) gw sm" "gw' = drained_gateway gw sm" "sm' = sm"
    using assms(2) by (auto simp: drain_outbound_def drain_stream_frames foldl_snoc)
  have "list_all2 announces (map Decided ds) (List.map_filter (decision_frame (en_le E) gw) ds)" for ds
  proof (induction ds)
    case (Cons d ds)
    from decision_announced[OF s(1), of "en_le E" d] obtain f where
      "decision_frame (en_le E) gw d = Some f" "announces (Decided d) f" by blast
    then show ?case using Cons.IH by (simp add: map_filter_simps del: announces.simps)
  qed (simp add: map_filter_simps)
  moreover have "list_all2 announces (map Replacement ?rs) (map (replaced_frame (en_le E)) ?rs)"
  proof (rule list_all2_all_nthI)
    fix i assume "i < length (map Replacement ?rs)"
    then have "?rs ! i \<in> set (gw_replaced_events gw)" by (auto intro: nth_mem)
    then have "announces (Replacement (?rs ! i)) (replaced_frame (en_le E) (?rs ! i))"
      using s(1) by (intro replacement_announced) (auto simp: gateway_ok_def)
    then show "announces (map Replacement ?rs ! i) (map (replaced_frame (en_le E)) ?rs ! i)"
      using \<open>i < _\<close> by (simp only: nth_map length_map)
  qed simp
  moreover have "list_all2 announces (map Executed xs) (map (report_frame (en_le E)) xs)" for xs
    by (induction xs) (simp_all add: report_announced del: announces.simps)
  ultimately have "list_all2 announces (batch_events (?ds, ?rs, ?xs)) (drained_frames (en_le E) gw sm)"
    by (simp add: drained_frames_def list_all2_appendI)
  moreover have "gateway_ok gw'" using s(1) by (simp add: o drained_gateway_def gateway_ok_def)
  ultimately have "session_ok (bs @ [(?ds, ?rs, ?xs)]) (out', gw', sm')"
    using s(2-8) by (simp add: session_ok_def o drained_gateway_def max_def list_all2_appendI del: batch_events.simps)
  then show ?thesis using s(5-7) by (intro exI[of _ "(?ds, ?rs, ?xs)"]) (simp add: o drained_gateway_def max_def)
qed

lemma session_step:
  assumes "session_ok bs s" and "gateway_do E c s = Some s'" and "call_sized c"
  shows "\<exists>bs'. session_ok bs' s'"
proof -
  obtain out gw sm where s: "s = (out, gw, sm)" by (cases s)
  obtain out' gw' sm' where s': "s' = (out', gw', sm')" by (cases s')
  show ?thesis
  proof (cases "c = Drain")
    case True
    from drain_batch[OF assms(1)[unfolded s] assms(2)[unfolded s s' True]] show ?thesis unfolding s' by blast
  next
    case False
    have "gateway_ok gw" using assms(1) by (simp add: s session_ok_def)
    from call_appends[OF assms(2)[unfolded s s'] False assms(3) this] session_appends[OF assms(1)[unfolded s]]
    show ?thesis unfolding s' by blast
  qed
qed

lemma session_run:
  "session_ok bs s \<Longrightarrow> gateway_calls E cs s = Some s' \<Longrightarrow> list_all call_sized cs \<Longrightarrow> \<exists>bs'. session_ok bs' s'"
proof (induction cs arbitrary: bs s)
  case (Cons c cs)
  from Cons.prems(2) obtain s1 where s1: "gateway_do E c s = Some s1" "gateway_calls E cs s1 = Some s'"
    by (cases "gateway_do E c s") simp_all
  have "call_sized c" "list_all call_sized cs" using Cons.prems(3) by simp_all
  from session_step[OF Cons.prems(1) s1(1) this(1)] obtain bs1 where "session_ok bs1 s1" ..
  from Cons.IH[OF this s1(2) \<open>list_all call_sized cs\<close>] show ?case .
qed auto

lemma calls_append: "gateway_calls E (cs @ ds) s = Option.bind (gateway_calls E cs s) (gateway_calls E ds)"
proof (induction cs arbitrary: s)
  case (Cons c cs)
  show ?case by (cases "gateway_do E c s") (simp_all only: append_Cons gateway_calls.simps Option.bind.simps Cons.IH)
qed simp

text \<open>C22: Every event of a gateway session is announced by exactly one frame. Take a new gateway on any simulator, and
  any sequence of orders, replacements, cancellations, market events, runs and drains whose frames have their
  struct sizes and which returns, ending with a drain. Cut the decisions and fills of the simulator and the
  replacements of the gateway into the batches between drains: the frames sent are, drain after drain, one for
  each decision, then each replacement, then each fill of the batch, in order, no event without its frame and none
  sent twice. Each frame has the letter the protocol gives to the outcome, the length of the frame table, and
  on a host of any byte order the time, token, quantities, price and numbers of its event at their offsets.\<close>

theorem drain_exactly_once:
  assumes "gateway_calls E (calls @ [Drain]) ([], gateway_new default_symbol, sm0) = Some (out, gw, sm)"
    and "list_all call_sized calls" and "length default_symbol = 8"
  shows "\<exists>batches. concat (map fst batches) = si_decisions sm \<and>
     concat (map (fst \<circ> snd) batches) = gw_replaced_events gw \<and> concat (map (snd \<circ> snd) batches) = si_reports sm \<and>
     list_all2 announces (concat (map batch_events batches)) out"
proof -
  have "session_ok [] ([], gateway_new default_symbol, sm0)"
    using assms(3) flat_new_correct[of 2048] by (simp add: session_ok_def gateway_ok_def gateway_new_def flat_find_map)
  moreover from assms(1) obtain s1 where s1: "gateway_calls E calls ([], gateway_new default_symbol, sm0) = Some s1"
    "gateway_do E Drain s1 = Some (out, gw, sm)" by (auto simp: calls_append split: bind_splits)
  ultimately obtain bs where bs: "session_ok bs s1" using session_run assms(2) by blast
  obtain out1 gw1 sm1 where "s1 = (out1, gw1, sm1)" by (cases s1)
  from drain_batch[OF bs[unfolded this] s1(2)[unfolded this]] obtain b where
    b: "session_ok (bs @ [b]) (out, gw, sm)" "gw_last_decision_idx gw = length (si_decisions sm)"
      "gw_last_replaced_idx gw = length (gw_replaced_events gw)" "gw_last_report_idx gw = length (si_reports sm)" by blast
  then show ?thesis by (intro exI[of _ "bs @ [b]"]) (simp add: session_ok_def)
qed

lemma drain_exactly_once_witness:
  "\<exists>sm0 out gw sm f. gateway_calls demo_env ([Drain, External Sell 30 3] @ [Drain]) ([], gateway_new (replicate 8 0x20), sm0) =
       Some (out, gw, sm) \<and>
     si_reports sm = [f] \<and> fr_qty f = 3 \<and> fr_price_ticks f = 30 \<and> list_all2 announces [Executed f] out"
proof -
  from demo_book_two obtain bk where b: "book_rel bk demo_two" by blast
  obtain w :: "sim_event scheduler" where True by blast
  let ?sm = "(demo_sim bk w)\<lparr> si_hidden := [demo_seller] \<rparr>" and ?gw = "gateway_new (replicate 8 0x20)"
  have q: "quiet bk w ?sm" by (rule demo_quiet)
  have empty: "si_decisions ?sm = []" "si_reports ?sm = []" using q by (simp_all add: quiet_def)
  have qty: "qty_at bk Sell 30 = 0" using qty_at_correct[OF b, of Sell 30] by (simp add: level_qty_def demo_two_eval)
  from demo_apply[OF q qty] obtain sm f where
    sm: "apply_external demo_env Sell 30 3 ?sm = Some sm" "si_reports sm = [f]" "fr_price_ticks f = 30" "fr_qty f = 3"
      "si_decisions sm = []" by blast
  have d1: "gateway_do demo_env Drain ([], ?gw, ?sm) = Some ([], ?gw, ?sm)"
    by (simp add: drain_outbound_def drain_stream_frames drained_frames_def drained_gateway_def gateway_new_def empty map_filter_simps)
  obtain out gw where d2: "gateway_do demo_env Drain ([], ?gw, sm) = Some (out, gw, sm)" "gw_replaced_events gw = []"
    by (simp add: drain_outbound_def drain_stream_frames drained_gateway_def gateway_new_def)
  have run: "gateway_calls demo_env ([Drain, External Sell 30 3] @ [Drain]) ([], ?gw, ?sm) = Some (out, gw, sm)"
    using d1 d2(1) sm(1) by (simp del: gateway_do.simps(7))
  from drain_exactly_once[OF run] obtain batches where
    bs: "concat (map fst batches) = si_decisions sm" "concat (map (fst \<circ> snd) batches) = gw_replaced_events gw"
      "concat (map (snd \<circ> snd) batches) = si_reports sm" "list_all2 announces (concat (map batch_events batches)) out" by auto
  have "concat (map batch_events bs) = map Executed (concat (map (snd \<circ> snd) bs))"
    if "concat (map fst bs) = []" "concat (map (fst \<circ> snd) bs) = []" for bs :: "batch list"
    using that by (induction bs) auto
  then have "concat (map batch_events batches) = [Executed f]" using bs(1-3) d2(2) sm by simp
  then show ?thesis using run sm bs(4) by (intro exI[of _ ?sm] exI[of _ out] exI[of _ gw] exI[of _ sm] exI[of _ f]) simp
qed

end
