(* ===== verification/Metrics.thy ===== *)
theory Metrics
  imports Prelude "HOL-Library.Multiset" "HOL-Library.Signed_Division"
begin

text \<open>
  Accounting and markouts, \<open>include/mog/Metrics.hpp\<close>: the cash account, the latency histogram and the streaming
  markouts. The sums of doubles are kept as their terms: \<open>mo_terms\<close> holds, for each horizon, the quantities
  added. The atomic cells of the histogram are plain numbers: it has one writer. Cash and inventory are
  integers; the equity of a double mark, the lead-lag correlation and the information shares are not modelled.
\<close>

section \<open>The account\<close>

record account =
  ac_cash :: int
  ac_inventory :: int
  ac_fees :: int

definition account_new :: account where
  "account_new = \<lparr> ac_cash = 0, ac_inventory = 0, ac_fees = 0 \<rparr>"

definition account_fill :: "int \<Rightarrow> int \<Rightarrow> int \<Rightarrow> account \<Rightarrow> account" where
  "account_fill price_ticks qty fee a =
     (let a = a\<lparr> ac_cash := ac_cash a - qty * price_ticks \<rparr>;
          a = a\<lparr> ac_cash := ac_cash a - fee \<rparr>;
          a = a\<lparr> ac_fees := ac_fees a + fee \<rparr>
      in a\<lparr> ac_inventory := ac_inventory a + qty \<rparr>)"

definition account_aggressive_fill :: "u64 \<Rightarrow> int \<Rightarrow> int \<Rightarrow> account \<Rightarrow> account" where
  "account_aggressive_fill notional_ticks qty fee a =
     (let sign = (if qty < 0 then - 1 else 1);
          a = a\<lparr> ac_cash := ac_cash a - sign * sint notional_ticks \<rparr>;
          a = a\<lparr> ac_cash := ac_cash a - fee \<rparr>;
          a = a\<lparr> ac_fees := ac_fees a + fee \<rparr>
      in a\<lparr> ac_inventory := ac_inventory a + qty \<rparr>)"

section \<open>The latency histogram\<close>

record histogram =
  th_counts :: "u64 list"
  th_maxima :: "u64 list"

definition histogram_new :: "nat \<Rightarrow> histogram" where
  "histogram_new buckets = \<lparr> th_counts = replicate buckets 0, th_maxima = replicate buckets 0 \<rparr>"

definition bucket_of :: "nat \<Rightarrow> u64 \<Rightarrow> nat" where
  "bucket_of buckets t =
     (if t < 16 then 0
      else let lz = countl_zero t; b = 63 - lz - 4
           in min b (buckets - 1))"

definition fetch_max :: "u64 \<Rightarrow> u64 \<Rightarrow> u64" where
  "fetch_max value prev = (if value > prev then value else prev)"

definition histogram_record :: "u64 \<Rightarrow> histogram \<Rightarrow> histogram" where
  "histogram_record ticks h =
     (let b = bucket_of (length (th_counts h)) ticks
      in h\<lparr> th_counts := (th_counts h)[b := th_counts h ! b + 1],
            th_maxima := (th_maxima h)[b := fetch_max ticks (th_maxima h ! b)] \<rparr>)"

definition bucket_lo :: "nat \<Rightarrow> u64" where
  "bucket_lo b = push_bit b 16"

section \<open>Markouts\<close>

record mid_sample =
  sa_ts :: u64
  sa_mid2 :: int

record pending_fill =
  pe_ts :: u64
  pe_price :: int
  pe_side :: char
  pe_measured :: byte

record markouts =
  mo_mids :: "mid_sample list"
  mo_pending :: "pending_fill list"
  mo_terms :: "int list list"
  mo_n :: "u64 list"

definition markouts_new :: markouts where
  "markouts_new = \<lparr> mo_mids = [], mo_pending = [], mo_terms = replicate 3 [], mo_n = replicate 3 0 \<rparr>"

definition kMarkoutHorizons :: "u64 list" where "kMarkoutHorizons = [1000, 10000, 100000]"
definition kAllMeasured :: byte where "kAllMeasured = push_bit (length kMarkoutHorizons) 1 - 1"

text \<open>The first sample that is not before a time, by bisection over the samples.\<close>

definition sample_at :: "markouts \<Rightarrow> u64 \<Rightarrow> mid_sample option" where
  "sample_at m ts =
     (let it = lower_bound (\<lambda>s. sa_ts s < ts) (mo_mids m) 0 (length (mo_mids m))
      in if it = length (mo_mids m) then None else Some (mo_mids m ! it))"

definition markout_term :: "int \<Rightarrow> char \<Rightarrow> int \<Rightarrow> int" where
  "markout_term price side mid2 = (if side = CHR ''B'' then mid2 sdiv 2 - price else price - mid2 sdiv 2)"

definition accumulate_markout :: "nat \<Rightarrow> int \<Rightarrow> char \<Rightarrow> int \<Rightarrow> markouts \<Rightarrow> markouts" where
  "accumulate_markout h price side mid2 m =
     m\<lparr> mo_terms := (mo_terms m)[h := mo_terms m ! h @ [markout_term price side mid2]],
        mo_n := (mo_n m)[h := mo_n m ! h + 1] \<rparr>"

definition fill_horizon :: "u64 \<Rightarrow> int \<Rightarrow> char \<Rightarrow> byte \<times> markouts \<Rightarrow> nat \<Rightarrow> byte \<times> markouts" where
  "fill_horizon ts price side = (\<lambda>(measured, m) h.
     (case sample_at m (ts + kMarkoutHorizons ! h) of
        None \<Rightarrow> (measured, m)
      | Some s \<Rightarrow> (measured OR push_bit h 1, accumulate_markout h price side (sa_mid2 s) m)))"

definition add_fill :: "u64 \<Rightarrow> int \<Rightarrow> char \<Rightarrow> markouts \<Rightarrow> markouts" where
  "add_fill ts price side m =
     (let (measured, m) = foldl (fill_horizon ts price side) (0, m) [0..<length kMarkoutHorizons]
      in if measured \<noteq> kAllMeasured
         then m\<lparr> mo_pending := mo_pending m @ [\<lparr> pe_ts = ts, pe_price = price, pe_side = side, pe_measured = measured \<rparr>] \<rparr>
         else m)"

definition pending_horizon :: "pending_fill \<times> markouts \<Rightarrow> nat \<Rightarrow> pending_fill \<times> markouts" where
  "pending_horizon = (\<lambda>(p, m) h.
     (if pe_measured p AND push_bit h 1 \<noteq> 0 then (p, m)
      else case sample_at m (pe_ts p + kMarkoutHorizons ! h) of
        None \<Rightarrow> (p, m)
      | Some s \<Rightarrow> (p\<lparr> pe_measured := pe_measured p OR push_bit h 1 \<rparr>,
                   accumulate_markout h (pe_price p) (pe_side p) (sa_mid2 s) m)))"

lemma accumulate_pending [simp]: "mo_pending (accumulate_markout h price side mid2 m) = mo_pending m"
  by (simp add: accumulate_markout_def)

lemma pending_horizon_pending: "mo_pending (snd (foldl pending_horizon (p, m) hs)) = mo_pending m"
  by (induction hs arbitrary: p m) (auto simp: pending_horizon_def split: option.splits)

text \<open>The pass over the pending fills; a fill that is measured everywhere is replaced by the last one.\<close>

function settle_pending :: "nat \<Rightarrow> markouts \<Rightarrow> markouts" where
  "settle_pending i m =
     (if i < length (mo_pending m) then
        (let (p, m') = foldl pending_horizon (mo_pending m ! i, m) [0..<length kMarkoutHorizons];
             m' = m'\<lparr> mo_pending := (mo_pending m')[i := p] \<rparr>
         in if pe_measured p = kAllMeasured
            then settle_pending i (m'\<lparr> mo_pending := butlast ((mo_pending m')[i := last (mo_pending m')]) \<rparr>)
            else settle_pending (i + 1) m')
      else m)"
  by pat_completeness auto
termination
proof (relation "measure (\<lambda>(i, m). length (mo_pending m) - i)", simp, goal_cases)
  case (1 i m x p m' m'')
  have "mo_pending m' = mo_pending m"
    using pending_horizon_pending[of "mo_pending m ! i" m "[0..<length kMarkoutHorizons]"] 1(2,3) by (metis snd_conv)
  then show ?case using 1 by (simp add: diff_less_mono2)
next
  case (2 i m x p m' m'')
  have "mo_pending m' = mo_pending m"
    using pending_horizon_pending[of "mo_pending m ! i" m "[0..<length kMarkoutHorizons]"] 2(2,3) by (metis snd_conv)
  then show ?case using 2 by (simp add: diff_less_mono2)
qed

declare settle_pending.simps [simp del]

definition add_mid :: "u64 \<Rightarrow> int \<Rightarrow> markouts \<Rightarrow> markouts" where
  "add_mid ts doubled_mid m =
     settle_pending 0 (m\<lparr> mo_mids := mo_mids m @ [\<lparr> sa_ts = ts, sa_mid2 = doubled_mid \<rparr>] \<rparr>)"

definition markout_count :: "nat \<Rightarrow> markouts \<Rightarrow> u64" where
  "markout_count h m = mo_n m ! h"

section \<open>Streaming is batch\<close>

text \<open>What a fill contributes at a horizon once the given samples have arrived, and the horizons it has reached.\<close>

definition first_at :: "mid_sample list \<Rightarrow> u64 \<Rightarrow> mid_sample option" where
  "first_at mids ts = (case dropWhile (\<lambda>s. sa_ts s < ts) mids of [] \<Rightarrow> None | s # _ \<Rightarrow> Some s)"

type_synonym fill = "u64 \<times> int \<times> char"

definition term_at :: "mid_sample list \<Rightarrow> fill \<Rightarrow> nat \<Rightarrow> int list" where
  "term_at mids = (\<lambda>(ts, price, side) h.
     (case first_at mids (ts + kMarkoutHorizons ! h) of None \<Rightarrow> [] | Some s \<Rightarrow> [markout_term price side (sa_mid2 s)]))"

definition reached :: "mid_sample list \<Rightarrow> u64 \<Rightarrow> nat \<Rightarrow> bool" where
  "reached mids ts h \<longleftrightarrow> first_at mids (ts + kMarkoutHorizons ! h) \<noteq> None"

definition mask_of :: "(nat \<Rightarrow> bool) \<Rightarrow> byte" where
  "mask_of f = (if f 0 then 1 else 0) OR (if f 1 then 2 else 0) OR (if f 2 then 4 else 0)"

lemma first_at_more: "first_at mids t = Some s \<Longrightarrow> first_at (mids @ later) t = Some s"
  unfolding first_at_def by (induction mids) (simp_all split: if_splits)

lemma mask_all: "mask_of f = kAllMeasured \<longleftrightarrow> f 0 \<and> f 1 \<and> f 2"
  by (simp add: mask_of_def kAllMeasured_def kMarkoutHorizons_def)

lemma mask_bits: "mask_of f AND push_bit h 1 \<noteq> 0 \<longleftrightarrow> f h" if "h < 3"
proof -
  from that have "h = 0 \<or> h = 1 \<or> h = 2" by auto
  then show ?thesis by (cases "f 0"; cases "f 1"; cases "f 2") (auto simp: mask_of_def)
qed

definition tidy :: "markouts \<Rightarrow> bool" where
  "tidy m \<longleftrightarrow> length (mo_terms m) = 3 \<and> mo_n m = map (\<lambda>t. of_nat (length t)) (mo_terms m) \<and>
     sorted (map sa_ts (mo_mids m))"

definition bump :: "(nat \<Rightarrow> int list) \<Rightarrow> markouts \<Rightarrow> markouts" where
  "bump c m = m\<lparr> mo_terms := map (\<lambda>h. mo_terms m ! h @ c h) [0..<3], mo_n := map (\<lambda>h. mo_n m ! h + of_nat (length (c h))) [0..<3] \<rparr>"

lemma bump_tidy: "tidy m \<Longrightarrow> tidy (bump c m)"
  by (auto simp: tidy_def bump_def intro!: nth_equalityI)

lemma horizons_three: "[0..<length kMarkoutHorizons] = [0, 1, 2]"
  by (simp add: kMarkoutHorizons_def upt_conv_Cons)

lemma tidy_cases: "tidy m \<Longrightarrow> \<exists>a b c. mo_terms m = [a, b, c] \<and> mo_n m = [of_nat (length a), of_nat (length b), of_nat (length c)]"
  by (auto simp: tidy_def length_Suc_conv numeral_3_eq_3)

lemma sample_first:
  assumes "sorted (map sa_ts (mo_mids m))"
  shows "sample_at m ts = first_at (mo_mids m) ts"
proof -
  let ?n = "lower_bound (\<lambda>s. sa_ts s < ts) (mo_mids m) 0 (length (mo_mids m))"
  have d: "drop ?n (mo_mids m) = dropWhile (\<lambda>s. sa_ts s < ts) (mo_mids m)" by (rule lower_bound_sorted[OF assms])
  have le: "?n \<le> length (mo_mids m)"
    by (rule lower_bound_splits[THEN conjunct1]) (use assms in \<open>auto simp: sorted_map elim!: sorted_wrt_mono_rel[rotated]\<close>)
  show ?thesis
  proof (cases "?n = length (mo_mids m)")
    case True
    then show ?thesis using d by (simp add: sample_at_def first_at_def)
  next
    case False
    then have "drop ?n (mo_mids m) = mo_mids m ! ?n # drop (Suc ?n) (mo_mids m)" using le by (simp add: Cons_nth_drop_Suc)
    then have "dropWhile (\<lambda>s. sa_ts s < ts) (mo_mids m) = mo_mids m ! ?n # drop (Suc ?n) (mo_mids m)" by (simp only: d)
    then show ?thesis using False by (simp add: sample_at_def first_at_def)
  qed
qed

lemma accumulate_mids [simp]: "mo_mids (accumulate_markout h price side mid2 m) = mo_mids m"
  by (simp add: accumulate_markout_def)

lemma fill_horizon_step:
  "sorted (map sa_ts (mo_mids m)) \<Longrightarrow> fill_horizon ts price side (measured, m) h =
     (if reached (mo_mids m) ts h
      then (measured OR push_bit h 1,
        m\<lparr> mo_terms := (mo_terms m)[h := mo_terms m ! h @ term_at (mo_mids m) (ts, price, side) h],
           mo_n := (mo_n m)[h := mo_n m ! h + of_nat (length (term_at (mo_mids m) (ts, price, side) h))] \<rparr>)
      else (measured, m))"
  by (simp add: fill_horizon_def sample_first reached_def term_at_def accumulate_markout_def split: option.splits)

lemma term_unreached: "\<not> reached mids ts h \<Longrightarrow> term_at mids (ts, price, side) h = []"
  by (simp add: reached_def term_at_def)

lemma fill_loop:
  assumes "tidy m"
  shows "foldl (fill_horizon ts price side) (0, m) [0..<length kMarkoutHorizons] =
    (mask_of (reached (mo_mids m) ts), bump (term_at (mo_mids m) (ts, price, side)) m)"
proof -
  obtain a b c where m: "mo_terms m = [a, b, c]" "mo_n m = [of_nat (length a), of_nat (length b), of_nat (length c)]" using tidy_cases[OF assms] by blast
  have srt: "sorted (map sa_ts (mo_mids m))" using assms by (simp add: tidy_def)
  have three: "[0..<3] = [0, 1, 2 :: nat]" by (simp add: upt_conv_Cons)
  show ?thesis
    by (cases "reached (mo_mids m) ts 0"; cases "reached (mo_mids m) ts 1"; cases "reached (mo_mids m) ts 2")
      (simp add: horizons_three three fill_horizon_step srt mask_of_def bump_def m term_unreached)+
qed

text \<open>The pass over one pending fill measures the horizons that have arrived since.\<close>

definition fill_of_pending :: "pending_fill \<Rightarrow> fill" where
  "fill_of_pending p = (pe_ts p, pe_price p, pe_side p)"

definition gain :: "mid_sample list \<Rightarrow> mid_sample list \<Rightarrow> fill \<Rightarrow> nat \<Rightarrow> int list" where
  "gain old new f h = (if reached old (fst f) h then [] else term_at new f h)"

lemma fill_of_measured [simp]: "fill_of_pending (p\<lparr> pe_measured := b \<rparr>) = fill_of_pending p"
  by (simp add: fill_of_pending_def)

lemma bump_mids [simp]: "mo_mids (bump c m) = mo_mids m" "mo_pending (bump c m) = mo_pending m"
  by (simp_all add: bump_def)

lemma bump_bump: "bump c (bump d m) = bump (\<lambda>h. d h @ c h) m"
  by (simp add: bump_def)

lemma bump_cong: "c 0 = d 0 \<Longrightarrow> c 1 = d 1 \<Longrightarrow> c 2 = d 2 \<Longrightarrow> bump c m = bump d m"
  by (simp add: bump_def upt_conv_Cons numeral_2_eq_2)

lemma mask_cong: "f 0 = g 0 \<Longrightarrow> f 1 = g 1 \<Longrightarrow> f 2 = g 2 \<Longrightarrow> mask_of f = mask_of g"
  by (simp add: mask_of_def)

lemma mask_set: "h < 3 \<Longrightarrow> mask_of f OR push_bit h 1 = mask_of (f(h := True))"
  using mask_bits[of h f] by (cases "f 0"; cases "f 1"; cases "f 2") (auto simp: mask_of_def numeral_3_eq_3 less_Suc_eq)

lemma bump_none: "tidy m \<Longrightarrow> bump (\<lambda>k. []) m = m"
  using tidy_cases[of m] by (auto simp: bump_def upt_conv_Cons)

lemma bump_one:
  assumes "tidy m" and "h < 3"
  shows "bump (\<lambda>k. if k = h then xs else []) m =
    m\<lparr> mo_terms := (mo_terms m)[h := mo_terms m ! h @ xs], mo_n := (mo_n m)[h := mo_n m ! h + of_nat (length xs)] \<rparr>"
proof -
  obtain a b c where m: "mo_terms m = [a, b, c]" "mo_n m = [of_nat (length a), of_nat (length b), of_nat (length c)]" using tidy_cases[OF assms(1)] by blast
  consider "h = 0" | "h = 1" | "h = 2" using assms(2) by linarith
  then show ?thesis by cases (simp_all add: bump_def m upt_conv_Cons)
qed

lemma pending_step:
  assumes "tidy m" and "pe_measured p = mask_of g" and "h < 3"
  shows "pending_horizon (p, m) h =
    (p\<lparr> pe_measured := mask_of (g(h := g h \<or> reached (mo_mids m) (pe_ts p) h)) \<rparr>,
     bump (\<lambda>k. if k = h then (if g h then [] else term_at (mo_mids m) (fill_of_pending p) h) else []) m)"
proof -
  have srt: "sorted (map sa_ts (mo_mids m))" using assms(1) by (simp add: tidy_def)
  show ?thesis
proof (cases "g h \<or> \<not> reached (mo_mids m) (pe_ts p) h")
  case True
  then have "g(h := g h \<or> reached (mo_mids m) (pe_ts p) h) = g" by (auto simp: fun_eq_iff)
  moreover have "(\<lambda>k. if k = h then (if g h then [] else term_at (mo_mids m) (fill_of_pending p) h) else []) = (\<lambda>k. [])"
    using True by (auto simp: fun_eq_iff fill_of_pending_def term_unreached)
  moreover have "pending_horizon (p, m) h = (p, m)"
    using True assms(2) mask_bits[OF assms(3), of g]
    by (auto simp: pending_horizon_def reached_def sample_first srt split: option.splits)
  ultimately show ?thesis using assms(1,2) by (simp add: bump_none)
next
  case False
  then obtain s where s: "first_at (mo_mids m) (pe_ts p + kMarkoutHorizons ! h) = Some s" by (auto simp: reached_def)
  have "term_at (mo_mids m) (fill_of_pending p) h = [markout_term (pe_price p) (pe_side p) (sa_mid2 s)]"
    using s by (simp add: term_at_def fill_of_pending_def)
  then show ?thesis using False s assms(2) mask_bits[OF assms(3), of g]
    by (simp add: pending_horizon_def sample_first srt bump_one[OF assms(1,3)] accumulate_markout_def mask_set[OF assms(3), symmetric])
qed
qed

lemma pending_loop:
  assumes "tidy m" and "pe_measured p = mask_of g"
  shows "foldl pending_horizon (p, m) [0..<length kMarkoutHorizons] =
    (p\<lparr> pe_measured := mask_of (\<lambda>h. g h \<or> reached (mo_mids m) (pe_ts p) h) \<rparr>,
     bump (\<lambda>h. if g h then [] else term_at (mo_mids m) (fill_of_pending p) h) m)"
proof -
  let ?r = "reached (mo_mids m) (pe_ts p)"
  define c where "c i h = (if h = i then if g i then [] else term_at (mo_mids m) (fill_of_pending p) i else [])" for i h :: nat
  define q where "q f = p\<lparr> pe_measured := mask_of f \<rparr>" for f
  have step: "pending_horizon (q f, n) h = (q (f(h := f h \<or> ?r h)), bump (c h) n)"
    if "h < 3" "tidy n" "f h = g h" "mo_mids n = mo_mids m" for f n h
  proof -
    have f: "fill_of_pending (q f) = fill_of_pending p" and t: "pe_ts (q f) = pe_ts p" and ms: "pe_measured (q f) = mask_of f"
      and u: "\<And>x. q f\<lparr> pe_measured := x \<rparr> = p\<lparr> pe_measured := x \<rparr>" by (simp_all add: q_def)
    show ?thesis
      using pending_step[OF that(2) ms that(1), unfolded that(3) that(4) f t u] by (simp add: q_def[symmetric] c_def[abs_def] that(3))
  qed
  have p: "p = q g" using assms(2) by (cases p) (simp add: q_def)
  have "foldl pending_horizon (q g, m) [0..<length kMarkoutHorizons] =
    (q (g(0 := g 0 \<or> ?r 0, 1 := g 1 \<or> ?r 1, 2 := g 2 \<or> ?r 2)), bump (c 2) (bump (c 1) (bump (c 0) m)))"
    by (simp add: horizons_three step assms(1) bump_tidy)
  also have "q (g(0 := g 0 \<or> ?r 0, 1 := g 1 \<or> ?r 1, 2 := g 2 \<or> ?r 2)) = q (\<lambda>h. g h \<or> ?r h)"
    by (simp add: q_def mask_of_def)
  also have "bump (c 2) (bump (c 1) (bump (c 0) m)) = bump (\<lambda>h. if g h then [] else term_at (mo_mids m) (fill_of_pending p) h) m"
    unfolding bump_bump by (rule bump_cong) (simp_all add: c_def)
  finally show ?thesis unfolding p[symmetric] by (simp only: q_def)
qed

text \<open>Replacing an element by the last one and dropping the last one removes it.\<close>

lemma swap_remove:
  assumes "i < length xs"
  shows "take i (butlast (xs[i := last xs])) = take i xs" "mset (drop i (butlast (xs[i := last xs]))) = mset (drop (Suc i) xs)"
proof -
  obtain ys z where xs: "xs = ys @ [z]" using assms by (cases xs rule: rev_cases) auto
  have "i = length ys \<or> i < length ys" using assms xs by auto
  then show "take i (butlast (xs[i := last xs])) = take i xs" "mset (drop i (butlast (xs[i := last xs]))) = mset (drop (Suc i) xs)"
    by (auto simp: xs list_update_append upd_conv_take_nth_drop butlast_append min_def add.commute)
qed

text \<open>The fills that wait with what they have measured, and those that remain when later samples have arrived.\<close>

definition waits :: "mid_sample list \<Rightarrow> pending_fill \<Rightarrow> bool" where
  "waits mids p \<longleftrightarrow> pe_measured p = mask_of (reached mids (pe_ts p)) \<and> pe_measured p \<noteq> kAllMeasured"

definition open_at :: "mid_sample list \<Rightarrow> fill \<Rightarrow> bool" where
  "open_at mids f \<longleftrightarrow> mask_of (reached mids (fst f)) \<noteq> kAllMeasured"

definition waiting_fills :: "pending_fill list \<Rightarrow> fill multiset" where
  "waiting_fills ps = image_mset fill_of_pending (mset ps)"

definition mids_after :: "mid_sample list \<Rightarrow> mid_sample list \<Rightarrow> bool" where
  "mids_after old new \<longleftrightarrow> (\<forall>ts h. reached old ts h \<longrightarrow> reached new ts h)"

lemma fst_fill_of [simp]: "fst (fill_of_pending p) = pe_ts p"
  by (simp add: fill_of_pending_def)

lemma waiting_split: "waiting_fills ps = waiting_fills (take i ps) + waiting_fills (drop i ps)"
  by (simp add: waiting_fills_def flip: image_mset_union mset_append)

lemma disj_absorb_late: "\<forall>ts h. reached old ts h \<longrightarrow> reached new ts h \<Longrightarrow> (reached old ts h \<or> reached new ts h) = reached new ts h"
  by blast

lemma settle_pending_gains:
  assumes "tidy m" and "\<forall>p \<in> set (take i (mo_pending m)). waits (mo_mids m) p"
    and "\<forall>p \<in> set (drop i (mo_pending m)). waits old p" and "mids_after old (mo_mids m)"
  shows "tidy (settle_pending i m) \<and> mo_mids (settle_pending i m) = mo_mids m \<and>
    (\<forall>p \<in> set (mo_pending (settle_pending i m)). waits (mo_mids m) p) \<and>
    waiting_fills (mo_pending (settle_pending i m)) =
      waiting_fills (take i (mo_pending m)) + filter_mset (open_at (mo_mids m)) (waiting_fills (drop i (mo_pending m))) \<and>
    (\<forall>h < 3. mset (mo_terms (settle_pending i m) ! h) =
      mset (mo_terms m ! h) + (\<Sum>f \<in># waiting_fills (drop i (mo_pending m)). mset (gain old (mo_mids m) f h)))"
  using assms
proof (induction i m rule: settle_pending.induct)
  case (1 i m)
  show ?case
  proof (cases "i < length (mo_pending m)")
    case False
    then show ?thesis using "1.prems" by (simp add: settle_pending.simps[of i m] waiting_fills_def)
  next
    case True
    define p where "p = mo_pending m ! i"
    define q where "q = p\<lparr> pe_measured := mask_of (reached (mo_mids m) (pe_ts p)) \<rparr>"
    define c where "c = gain old (mo_mids m) (fill_of_pending p)"
    define n where "n = (bump c m)\<lparr> mo_pending := (mo_pending (bump c m))[i := q] \<rparr>"
    have drop: "drop i (mo_pending m) = p # drop (Suc i) (mo_pending m)" using True by (simp add: p_def Cons_nth_drop_Suc)
    have "waits old p" using "1.prems"(3) drop by simp
    then have "pe_measured p = mask_of (reached old (pe_ts p))" by (simp add: waits_def)
    from pending_loop[OF "1.prems"(1) this]
    have loop: "foldl pending_horizon (p, m) [0..<length kMarkoutHorizons] = (q, bump c m)"
      using "1.prems"(4) unfolding q_def c_def gain_def[abs_def] mids_after_def by (simp add: disj_absorb_late cong: if_cong)
    let ?ps = "mo_pending m"
    have idq: "fill_of_pending q = fill_of_pending p" "pe_ts q = pe_ts p" by (simp_all add: q_def)
    have len: "i < length (mo_pending n)" using True by (simp add: n_def)
    have n: "tidy n" "mo_mids n = mo_mids m" "take i (mo_pending n) = take i ?ps" "drop (Suc i) (mo_pending n) = drop (Suc i) ?ps"
      "mo_pending n ! i = q" "h < 3 \<Longrightarrow> mset (mo_terms n ! h) = mset (mo_terms m ! h) + mset (c h)" for h
      using True bump_tidy[OF "1.prems"(1), of c] by (simp_all add: n_def tidy_def bump_def)
    have rest: "\<forall>p \<in> set (drop (Suc i) ?ps). waits old p" using "1.prems"(3) drop by simp
    have wf: "waiting_fills (drop i ?ps) = add_mset (fill_of_pending p) (waiting_fills (drop (Suc i) ?ps))"
      using drop by (simp add: waiting_fills_def)
    have op: "open_at (mo_mids m) (fill_of_pending p) \<longleftrightarrow> pe_measured q \<noteq> kAllMeasured" by (simp add: open_at_def q_def)
    show ?thesis
    proof (cases "pe_measured q = kAllMeasured")
      case all: True
      define k where "k = n\<lparr> mo_pending := butlast ((mo_pending n)[i := last (mo_pending n)]) \<rparr>"
      have eq: "settle_pending i m = settle_pending i k"
        using True all loop by (subst settle_pending.simps) (simp add: p_def[symmetric] k_def n_def Let_def)
      note sr = swap_remove[OF len]
      have k: "tidy k" "mo_mids k = mo_mids m" "take i (mo_pending k) = take i ?ps" "mset (drop i (mo_pending k)) = mset (drop (Suc i) ?ps)"
        "h < 3 \<Longrightarrow> mset (mo_terms k ! h) = mset (mo_terms m ! h) + mset (c h)" for h
        using n sr by (simp_all add: k_def tidy_def)
      from k(4) have "set (drop i (mo_pending k)) = set (drop (Suc i) ?ps)" "waiting_fills (drop i (mo_pending k)) = waiting_fills (drop (Suc i) ?ps)"
        by (metis set_mset_mset, simp add: waiting_fills_def)
      note k = k this
      note ih = "1.IH"(1)[OF True refl loop[unfolded p_def, symmetric] refl all, folded n_def, folded k_def, unfolded k(2,3,6,7)]
      from ih[OF k(1) "1.prems"(2) rest "1.prems"(4)] show ?thesis
        unfolding eq using all op wf k(5) by (simp add: c_def add.assoc)
    next
      case some: False
      have eq: "settle_pending i m = settle_pending (Suc i) n"
        using True some loop by (subst settle_pending.simps) (simp add: p_def[symmetric] n_def Let_def)
      have tk: "take (Suc i) (mo_pending n) = take i ?ps @ [q]" using n(3,5) len by (simp add: take_Suc_conv_app_nth)
      have "waits (mo_mids m) q" using some by (simp add: waits_def q_def)
      with "1.prems"(2) have wt: "\<forall>p \<in> set (take i ?ps @ [q]). waits (mo_mids m) p" by auto
      note ih = "1.IH"(2)[OF True refl loop[unfolded p_def, symmetric] refl some, folded n_def, unfolded Suc_eq_plus1[symmetric] n(2,4) tk]
      have "waiting_fills (take i ?ps @ [q]) = waiting_fills (take i ?ps) + {# fill_of_pending p #}" by (simp add: waiting_fills_def idq)
      with ih[OF n(1) wt rest "1.prems"(4)] show ?thesis
        unfolding eq using some op wf n(6) by (simp add: c_def add.assoc)
    qed
  qed
qed

section \<open>Any order of arrival\<close>

text \<open>The samples and the fills arrive interleaved.\<close>

datatype arrival = Mid u64 int | Filled_at u64 int char

fun arrive :: "arrival \<Rightarrow> markouts \<Rightarrow> markouts" where
  "arrive (Mid ts mid2) m = add_mid ts mid2 m"
| "arrive (Filled_at ts price side) m = add_fill ts price side m"

definition mids_of :: "arrival list \<Rightarrow> mid_sample list" where
  "mids_of es = concat (map (\<lambda>e. case e of Mid ts mid2 \<Rightarrow> [\<lparr> sa_ts = ts, sa_mid2 = mid2 \<rparr>] | _ \<Rightarrow> []) es)"

definition arrived_fills :: "arrival list \<Rightarrow> fill list" where
  "arrived_fills es = concat (map (\<lambda>e. case e of Filled_at ts price side \<Rightarrow> [(ts, price, side)] | _ \<Rightarrow> []) es)"

text \<open>The markouts of all fills at a horizon, computed at the end from all samples.\<close>

definition batch_terms :: "mid_sample list \<Rightarrow> fill list \<Rightarrow> nat \<Rightarrow> int multiset" where
  "batch_terms mids fs h = (\<Sum>f \<in># mset fs. mset (term_at mids f h))"

definition streaming_ok :: "mid_sample list \<Rightarrow> fill list \<Rightarrow> markouts \<Rightarrow> bool" where
  "streaming_ok mids fs m \<longleftrightarrow> tidy m \<and> mo_mids m = mids \<and> (\<forall>p \<in> set (mo_pending m). waits mids p) \<and>
     waiting_fills (mo_pending m) = filter_mset (open_at mids) (mset fs) \<and>
     (\<forall>h < 3. mset (mo_terms m ! h) = batch_terms mids fs h)"

lemma reached_append: "mids_after mids (mids @ later)"
  by (auto simp: mids_after_def reached_def dest: first_at_more)

lemma term_append: "reached mids (fst f) h \<Longrightarrow> term_at (mids @ later) f h = term_at mids f h"
  by (cases f) (auto simp: reached_def term_at_def first_at_more)

lemma gain_closes: "mset (term_at mids f h) + mset (gain mids (mids @ later) f h) = mset (term_at (mids @ later) f h)"
proof (cases "reached mids (fst f) h")
  case False
  then have "term_at mids f h = []" by (cases f) (simp add: term_unreached)
  then show ?thesis using False by (simp add: gain_def)
qed (simp add: gain_def term_append)

lemma closed_no_gain: "h < 3 \<Longrightarrow> \<not> open_at mids f \<Longrightarrow> gain mids new f h = []"
  by (auto simp: open_at_def mask_all gain_def less_Suc_eq numeral_3_eq_3 numeral_2_eq_2)

lemma batch_gains:
  assumes "h < 3"
  shows "batch_terms mids fs h + (\<Sum>f \<in># filter_mset (open_at mids) (mset fs). mset (gain mids (mids @ later) f h)) =
    batch_terms (mids @ later) fs h"
proof (induction fs)
  case (Cons f fs)
  have "mset (gain mids (mids @ later) f h) = {#}" if "\<not> open_at mids f" using closed_no_gain[OF assms that] by simp
  then show ?case using Cons gain_closes[of mids f h later]
    by (cases "open_at mids f") (auto simp: batch_terms_def ac_simps)
qed (simp add: batch_terms_def)

lemma add_mid_streams:
  assumes "streaming_ok mids fs m" and "sorted (map sa_ts (mids @ [\<lparr> sa_ts = ts, sa_mid2 = v \<rparr>]))"
  shows "streaming_ok (mids @ [\<lparr> sa_ts = ts, sa_mid2 = v \<rparr>]) fs (add_mid ts v m)"
proof -
  let ?new = "mids @ [\<lparr> sa_ts = ts, sa_mid2 = v \<rparr>]"
  define n where "n = m\<lparr> mo_mids := mo_mids m @ [\<lparr> sa_ts = ts, sa_mid2 = v \<rparr>] \<rparr>"
  have n: "tidy n" "mo_mids n = ?new" "mo_pending n = mo_pending m" "mo_terms n = mo_terms m"
    using assms by (auto simp: n_def streaming_ok_def tidy_def)
  have late: "mids_after mids (mo_mids n)" unfolding n(2) by (rule reached_append)
  have wait: "\<forall>p \<in> set (drop 0 (mo_pending n)). waits mids p" using assms(1) n(3) by (simp add: streaming_ok_def)
  have "waiting_fills (mo_pending m) = filter_mset (open_at mids) (mset fs)" using assms(1) by (simp add: streaming_ok_def)
  moreover have "open_at ?new f \<Longrightarrow> open_at mids f" for f
    using reached_append[of mids] by (auto simp: open_at_def mask_all mids_after_def)
  ultimately have w: "filter_mset (open_at ?new) (waiting_fills (mo_pending m)) = filter_mset (open_at ?new) (mset fs)"
    and p: "waiting_fills (mo_pending m) = filter_mset (open_at mids) (mset fs)"
    by (auto simp: filter_filter_mset intro!: filter_mset_cong)
  have z: "waiting_fills [] = {#}" by (simp add: waiting_fills_def)
  have st: "tidy (settle_pending 0 n)" "mo_mids (settle_pending 0 n) = ?new" "\<forall>p \<in> set (mo_pending (settle_pending 0 n)). waits ?new p"
    "waiting_fills (mo_pending (settle_pending 0 n)) = filter_mset (open_at ?new) (mset fs)"
    "\<forall>h < 3. mset (mo_terms (settle_pending 0 n) ! h) =
      mset (mo_terms m ! h) + (\<Sum>f \<in># filter_mset (open_at mids) (mset fs). mset (gain mids ?new f h))"
    using settle_pending_gains[OF n(1) _ wait late] by (simp_all add: n(2-4) w z) (simp_all add: p)
  have "mset (mo_terms (settle_pending 0 n) ! h) = batch_terms ?new fs h" if "h < 3" for h
  proof -
    have "mset (mo_terms m ! h) = batch_terms mids fs h" using assms(1) that by (simp add: streaming_ok_def)
    then show ?thesis using st(5) that batch_gains[OF that, of mids fs] by simp
  qed
  moreover have "add_mid ts v m = settle_pending 0 n" by (simp add: add_mid_def n_def)
  ultimately show ?thesis using st(1-4) by (simp add: streaming_ok_def)
qed

lemma add_fill_streams:
  assumes "streaming_ok mids fs m"
  shows "streaming_ok mids (fs @ [(ts, price, side)]) (add_fill ts price side m)"
proof -
  have m: "tidy m" "mo_mids m = mids" using assms by (simp_all add: streaming_ok_def)
  have b: "tidy (bump c m)" "mo_terms (bump c m) ! h = mo_terms m ! h @ c h" if "h < 3" for c h
    using bump_tidy[OF m(1)] that by (simp_all add: bump_def)
  show ?thesis
    using assms bump_tidy[OF m(1), of "term_at mids (ts, price, side)"]
    by (auto simp: add_fill_def fill_loop[OF m(1)] m(2) streaming_ok_def batch_terms_def b open_at_def waits_def waiting_fills_def
        fill_of_pending_def tidy_def)
qed

lemma arrivals_stream:
  "sorted (map sa_ts (mids_of es)) \<Longrightarrow> streaming_ok (mids_of es) (arrived_fills es) (fold arrive es markouts_new)"
proof (induction es rule: rev_induct)
  case Nil
  show ?case by (auto simp: streaming_ok_def markouts_new_def tidy_def mids_of_def arrived_fills_def batch_terms_def waiting_fills_def)
next
  case (snoc e es)
  have "sorted (map sa_ts (mids_of es))" using snoc.prems by (simp add: mids_of_def sorted_append)
  note ih = snoc.IH[OF this]
  show ?case
  proof (cases e)
    case (Mid ts v)
    have "sorted (map sa_ts (mids_of es @ [\<lparr> sa_ts = ts, sa_mid2 = v \<rparr>]))" using snoc.prems Mid by (simp add: mids_of_def)
    from add_mid_streams[OF ih this] show ?thesis using Mid by (simp add: mids_of_def arrived_fills_def)
  next
    case (Filled_at ts price side)
    then show ?thesis using add_fill_streams[OF ih, of ts price side] by (simp add: mids_of_def arrived_fills_def)
  qed
qed

text \<open>C14: Streaming markouts are the batch markouts: whatever the order in which fills and mid samples arrive, as long
  as the samples come in the order of their times, every horizon has accumulated exactly the markouts
  of the fills against the first sample at or after the horizon among all samples, each once, has
  counted them, and the fills still pending are those that lack a sample at some horizon.\<close>

theorem markouts_streaming:
  assumes "sorted (map sa_ts (mids_of es))" and "h < 3" and "m = fold arrive es markouts_new"
  shows "mset (mo_terms m ! h) = batch_terms (mids_of es) (arrived_fills es) h \<and>
     markout_count h m = of_nat (size (batch_terms (mids_of es) (arrived_fills es) h)) \<and>
     waiting_fills (mo_pending m) = filter_mset (open_at (mids_of es)) (mset (arrived_fills es))"
proof -
  have s: "streaming_ok (mids_of es) (arrived_fills es) m" using arrivals_stream[OF assms(1)] assms(3) by simp
  then have t: "mset (mo_terms m ! h) = batch_terms (mids_of es) (arrived_fills es) h" using assms(2) by (simp add: streaming_ok_def)
  have "mo_n m ! h = of_nat (length (mo_terms m ! h))" using s assms(2) by (simp add: streaming_ok_def tidy_def)
  then show ?thesis using s t by (simp add: markout_count_def streaming_ok_def flip: t)
qed

lemma markouts_streaming_witness:
  "batch_terms [\<lparr> sa_ts = 500, sa_mid2 = 210 \<rparr>, \<lparr> sa_ts = 2000, sa_mid2 = 220 \<rparr>] [(600, 100, CHR ''B'')] 0 = {# 10 #} \<and>
   mset (mo_terms (fold arrive [Mid 500 210, Filled_at 600 100 CHR ''B'', Mid 2000 220] markouts_new) ! 0) = {# 10 #}"
proof -
  let ?es = "[Mid 500 210, Filled_at 600 100 CHR ''B'', Mid 2000 220]"
  have b: "batch_terms (mids_of ?es) (arrived_fills ?es) 0 = {# 10 #}"
    by (simp add: batch_terms_def mids_of_def arrived_fills_def term_at_def first_at_def kMarkoutHorizons_def markout_term_def)
  have "sorted (map sa_ts (mids_of ?es))" by (simp add: mids_of_def)
  from markouts_streaming[OF this _ refl, of 0] b show ?thesis by (simp add: mids_of_def arrived_fills_def)
qed

end
