(* ===== verification/Orchestrate.thy ===== *)
theory Orchestrate
  imports SimDecide Digests
begin

text \<open>
  The orchestrator, \<open>include/mog/Orchestrate.hpp\<close>: independent simulators behind one facade. An instrument
  holds its simulator, its name, the environment and the digest mode its configuration stands for. An
  operation names its target by index, and a violated contract is \<open>None\<close>. The theorem shows that
  instruments do not interfere: each one sees only its own operations and the broadcasts, in their order.
\<close>

section \<open>State\<close>

record ('d, 'f) instrument =
  it_sim :: "'d sim"
  it_name :: string
  it_env :: "('d, 'f) sim_env"
  it_digest_mode :: digest_mode

type_synonym ('d, 'f) orchestrator = "('d, 'f) instrument list"

definition kMaxInstruments :: nat where "kMaxInstruments = 256"

definition add_instrument :: "('d, 'f) sim_env \<Rightarrow> digest_mode \<Rightarrow> 'd sim \<Rightarrow> string \<Rightarrow> ('d, 'f) orchestrator
    \<Rightarrow> (nat \<times> ('d, 'f) orchestrator) option" where
  "add_instrument E mode fresh name insts = do {
     mog_pre (length insts < kMaxInstruments);
     let idx = length insts;
     Some (idx, insts @ [\<lparr> it_sim = fresh, it_name = name, it_env = E, it_digest_mode = mode \<rparr>])
   }"

definition instrument_at :: "nat \<Rightarrow> ('d, 'f) orchestrator \<Rightarrow> ('d, 'f) instrument option" where
  "instrument_at idx insts = do { mog_pre (idx < length insts); Some (insts ! idx) }"

definition instrument_name :: "nat \<Rightarrow> ('d, 'f) orchestrator \<Rightarrow> string option" where
  "instrument_name idx insts = do { inst \<leftarrow> instrument_at idx insts; Some (it_name inst) }"

section \<open>Routed operations\<close>

definition route :: "nat \<Rightarrow> (('d, 'f) sim_env \<Rightarrow> 'd sim \<Rightarrow> ('r \<times> 'd sim) option) \<Rightarrow> ('d, 'f) orchestrator
    \<Rightarrow> ('r \<times> ('d, 'f) orchestrator) option" where
  "route idx f insts = do {
     inst \<leftarrow> instrument_at idx insts;
     (r, sm) \<leftarrow> f (it_env inst) (it_sim inst);
     Some (r, insts[idx := inst\<lparr> it_sim := sm \<rparr>])
   }"

definition route_quiet :: "nat \<Rightarrow> (('d, 'f) sim_env \<Rightarrow> 'd sim \<Rightarrow> 'd sim option) \<Rightarrow> ('d, 'f) orchestrator
    \<Rightarrow> ('d, 'f) orchestrator option" where
  "route_quiet idx f insts = map_option snd (route idx (\<lambda>E sm. map_option (Pair ()) (f E sm)) insts)"

definition orch_seed_external :: "nat \<Rightarrow> u64 \<Rightarrow> side \<Rightarrow> int \<Rightarrow> int \<Rightarrow> ('d, 'f) orchestrator \<Rightarrow> (book_tick \<times> ('d, 'f) orchestrator) option" where
  "orch_seed_external idx ref s qty price = route idx (\<lambda>E. seed_external ref s qty price)"

definition orch_seed_iceberg :: "nat \<Rightarrow> iceberg_spec \<Rightarrow> ('d, 'f) orchestrator \<Rightarrow> (book_tick \<times> ('d, 'f) orchestrator) option" where
  "orch_seed_iceberg idx spec = route idx (\<lambda>E. seed_iceberg spec)"

definition orch_set_stp_mode :: "nat \<Rightarrow> stp_mode \<Rightarrow> ('d, 'f) orchestrator \<Rightarrow> ('d, 'f) orchestrator option" where
  "orch_set_stp_mode idx m = route_quiet idx (\<lambda>E sm. Some (set_stp_mode m sm))"

definition orch_run_until :: "nat \<Rightarrow> u64 \<Rightarrow> ('d, 'f) orchestrator \<Rightarrow> ('d, 'f) orchestrator option" where
  "orch_run_until idx until_ts = route_quiet idx (\<lambda>E. run_until E until_ts)"

definition orch_drain :: "nat \<Rightarrow> ('d, 'f) orchestrator \<Rightarrow> ('d, 'f) orchestrator option" where
  "orch_drain idx = route_quiet idx sim_drain"

definition orch_submit :: "nat \<Rightarrow> sim_inbound \<Rightarrow> u64 \<Rightarrow> ('d, 'f) orchestrator \<Rightarrow> (u64 \<times> ('d, 'f) orchestrator) option" where
  "orch_submit idx ib arrival_ts = route idx (\<lambda>E. sim_submit E ib arrival_ts)"

definition orch_apply_external :: "nat \<Rightarrow> side \<Rightarrow> int \<Rightarrow> int \<Rightarrow> ('d, 'f) orchestrator \<Rightarrow> ('d, 'f) orchestrator option" where
  "orch_apply_external idx s price qty = route_quiet idx (\<lambda>E. apply_external E s price qty)"

definition orch_advance_time :: "nat \<Rightarrow> u64 \<Rightarrow> ('d, 'f) orchestrator \<Rightarrow> ('d, 'f) orchestrator option" where
  "orch_advance_time idx dt_ns = route_quiet idx (\<lambda>E. advance_time E dt_ns)"

definition orch_cancel_strategy :: "nat \<Rightarrow> u64 \<Rightarrow> ('d, 'f) orchestrator \<Rightarrow> (bool \<times> ('d, 'f) orchestrator) option" where
  "orch_cancel_strategy idx ref = route idx (\<lambda>E. cancel_strategy E ref)"

definition orch_replace_strategy :: "nat \<Rightarrow> u64 \<Rightarrow> u64 \<Rightarrow> int \<Rightarrow> int \<Rightarrow> ('d, 'f) orchestrator \<Rightarrow> (book_tick \<times> ('d, 'f) orchestrator) option" where
  "orch_replace_strategy idx orig fresh qty price = route idx (\<lambda>E. replace_strategy E orig fresh qty price)"

section \<open>Broadcast operations\<close>

text \<open>Every instrument in ascending order of its index.\<close>

fun broadcast :: "(('d, 'f) sim_env \<Rightarrow> 'd sim \<Rightarrow> 'd sim option) \<Rightarrow> ('d, 'f) orchestrator \<Rightarrow> ('d, 'f) orchestrator option" where
  "broadcast f [] = Some []"
| "broadcast f (inst # insts) = do {
     sm \<leftarrow> f (it_env inst) (it_sim inst);
     insts \<leftarrow> broadcast f insts;
     Some (inst\<lparr> it_sim := sm \<rparr> # insts)
   }"

definition drain_all :: "('d, 'f) orchestrator \<Rightarrow> ('d, 'f) orchestrator option" where
  "drain_all = broadcast sim_drain"

definition advance_all :: "u64 \<Rightarrow> ('d, 'f) orchestrator \<Rightarrow> ('d, 'f) orchestrator option" where
  "advance_all dt_ns = broadcast (\<lambda>E. advance_time E dt_ns)"

definition run_until_all :: "u64 \<Rightarrow> ('d, 'f) orchestrator \<Rightarrow> ('d, 'f) orchestrator option" where
  "run_until_all until_ts = broadcast (\<lambda>E. run_until E until_ts)"

section \<open>Queries\<close>

definition orch_queue_ahead_of :: "nat \<Rightarrow> u64 \<Rightarrow> ('d, 'f) orchestrator \<Rightarrow> int option" where
  "orch_queue_ahead_of idx ref insts = do { inst \<leftarrow> instrument_at idx insts; queue_ahead_of (it_sim inst) ref }"

definition orch_pending_decisions :: "nat \<Rightarrow> ('d, 'f) orchestrator \<Rightarrow> nat option" where
  "orch_pending_decisions idx insts = do { inst \<leftarrow> instrument_at idx insts; Some (pending_decisions (it_sim inst)) }"

definition orch_best_bid :: "nat \<Rightarrow> ('d, 'f) orchestrator \<Rightarrow> int option" where
  "orch_best_bid idx insts = do { inst \<leftarrow> instrument_at idx insts; Some (bk_best_bid (si_book (it_sim inst))) }"

definition orch_best_ask :: "nat \<Rightarrow> ('d, 'f) orchestrator \<Rightarrow> int option" where
  "orch_best_ask idx insts = do { inst \<leftarrow> instrument_at idx insts; Some (bk_best_ask (si_book (it_sim inst))) }"

definition orch_total_filled_notional :: "('d, 'f) orchestrator \<Rightarrow> u64" where
  "orch_total_filled_notional insts = foldl (\<lambda>n inst. n + si_total_filled_notional (it_sim inst)) 0 insts"

definition orch_total_fees :: "('d, 'f) orchestrator \<Rightarrow> int" where
  "orch_total_fees insts = foldl (\<lambda>n inst. n + si_total_fees (it_sim inst)) 0 insts"

definition orch_total_fill_count :: "('d, 'f) orchestrator \<Rightarrow> nat" where
  "orch_total_fill_count insts = foldl (\<lambda>n inst. n + si_fill_count (it_sim inst)) 0 insts"

definition global_digest_mode :: "('d, 'f) orchestrator \<Rightarrow> digest_mode" where
  "global_digest_mode insts = (case insts of [] \<Rightarrow> GoldenDigest | inst # _ \<Rightarrow> it_digest_mode inst)"

text \<open>The digest of one instrument in its tier, and the fold over all of them in order.\<close>

definition instrument_digest :: "bool \<Rightarrow> ('d, 'f) instrument \<Rightarrow> byte list option" where
  "instrument_digest le inst = do {
     d \<leftarrow> digest_update le (si_trace (it_sim inst)) (digest_new (it_digest_mode inst));
     if it_digest_mode inst = FastDigest then Some (finish_fast128 le d) else finish_sha256 d
   }"

fun fold_digests :: "bool \<Rightarrow> digest_mode \<Rightarrow> ('d, 'f) orchestrator \<Rightarrow> sha256 \<Rightarrow> sha256 option" where
  "fold_digests le mode [] acc = Some acc"
| "fold_digests le mode (inst # insts) acc = do {
     mog_pre (it_digest_mode inst = mode);
     d \<leftarrow> instrument_digest le inst;
     acc \<leftarrow> sha_update d acc;
     fold_digests le mode insts acc
   }"

definition global_digest :: "bool \<Rightarrow> ('d, 'f) orchestrator \<Rightarrow> byte list option" where
  "global_digest le insts = do {
     acc \<leftarrow> fold_digests le (global_digest_mode insts) insts sha_new;
     map_option fst (sha_finish acc)
   }"

text \<open>The audit stops at the first instrument that fails; it updates the positions of those it audits.\<close>

fun orch_audit :: "('d, 'f) orchestrator \<Rightarrow> (bool \<times> ('d, 'f) orchestrator) option" where
  "orch_audit [] = Some (True, [])"
| "orch_audit (inst # insts) = do {
     (ok, sm) \<leftarrow> sim_audit (it_sim inst);
     let inst = inst\<lparr> it_sim := sm \<rparr>;
     if \<not> ok then Some (False, inst # insts)
     else do { (ok, insts) \<leftarrow> orch_audit insts; Some (ok, inst # insts) }
   }"

section \<open>Isolation\<close>

text \<open>The operations on one simulator, and a portfolio operation: one of them with a target, or a broadcast.\<close>

datatype sim_op = SeedExternal u64 side int int | SeedIceberg iceberg_spec | SetStp stp_mode | RunUntil u64 | DrainSim
  | SubmitOrder sim_inbound u64 | ApplyExternal side int int | AdvanceTime u64 | CancelStrategy u64
  | ReplaceStrategy u64 u64 int int

fun sim_op_run :: "('d, 'f) sim_env \<Rightarrow> sim_op \<Rightarrow> 'd sim \<Rightarrow> 'd sim option" where
  "sim_op_run E (SeedExternal ref s qty price) sm = map_option snd (seed_external ref s qty price sm)"
| "sim_op_run E (SeedIceberg spec) sm = map_option snd (seed_iceberg spec sm)"
| "sim_op_run E (SetStp m) sm = Some (set_stp_mode m sm)"
| "sim_op_run E (RunUntil ts) sm = run_until E ts sm"
| "sim_op_run E DrainSim sm = sim_drain E sm"
| "sim_op_run E (SubmitOrder ib ts) sm = map_option snd (sim_submit E ib ts sm)"
| "sim_op_run E (ApplyExternal s price qty) sm = apply_external E s price qty sm"
| "sim_op_run E (AdvanceTime dt) sm = advance_time E dt sm"
| "sim_op_run E (CancelStrategy ref) sm = map_option snd (cancel_strategy E ref sm)"
| "sim_op_run E (ReplaceStrategy orig fresh qty price) sm = map_option snd (replace_strategy E orig fresh qty price sm)"

datatype orch_op = OnInstrument nat sim_op | DrainAll | AdvanceAll u64 | RunUntilAll u64

fun orch_step :: "orch_op \<Rightarrow> ('d, 'f) orchestrator \<Rightarrow> ('d, 'f) orchestrator option" where
  "orch_step (OnInstrument i (SeedExternal ref s qty price)) insts = map_option snd (orch_seed_external i ref s qty price insts)"
| "orch_step (OnInstrument i (SeedIceberg spec)) insts = map_option snd (orch_seed_iceberg i spec insts)"
| "orch_step (OnInstrument i (SetStp m)) insts = orch_set_stp_mode i m insts"
| "orch_step (OnInstrument i (RunUntil ts)) insts = orch_run_until i ts insts"
| "orch_step (OnInstrument i DrainSim) insts = orch_drain i insts"
| "orch_step (OnInstrument i (SubmitOrder ib ts)) insts = map_option snd (orch_submit i ib ts insts)"
| "orch_step (OnInstrument i (ApplyExternal s price qty)) insts = orch_apply_external i s price qty insts"
| "orch_step (OnInstrument i (AdvanceTime dt)) insts = orch_advance_time i dt insts"
| "orch_step (OnInstrument i (CancelStrategy ref)) insts = map_option snd (orch_cancel_strategy i ref insts)"
| "orch_step (OnInstrument i (ReplaceStrategy orig fresh qty price)) insts =
     map_option snd (orch_replace_strategy i orig fresh qty price insts)"
| "orch_step DrainAll insts = drain_all insts"
| "orch_step (AdvanceAll dt) insts = advance_all dt insts"
| "orch_step (RunUntilAll ts) insts = run_until_all ts insts"

fun orch_run :: "orch_op list \<Rightarrow> ('d, 'f) orchestrator \<Rightarrow> ('d, 'f) orchestrator option" where
  "orch_run [] insts = Some insts"
| "orch_run (op # ops) insts = Option.bind (orch_step op insts) (orch_run ops)"

text \<open>What instrument \<open>i\<close> sees of a sequence, and its run alone.\<close>

fun seen_by :: "nat \<Rightarrow> orch_op \<Rightarrow> sim_op list" where
  "seen_by i (OnInstrument j op) = (if i = j then [op] else [])"
| "seen_by i DrainAll = [DrainSim]"
| "seen_by i (AdvanceAll dt) = [AdvanceTime dt]"
| "seen_by i (RunUntilAll ts) = [RunUntil ts]"

fun run_alone :: "sim_op list \<Rightarrow> ('d, 'f) instrument \<Rightarrow> ('d, 'f) instrument option" where
  "run_alone [] inst = Some inst"
| "run_alone (op # ops) inst = do {
     sm \<leftarrow> sim_op_run (it_env inst) op (it_sim inst);
     run_alone ops (inst\<lparr> it_sim := sm \<rparr>)
   }"

lemma run_alone_append: "run_alone (xs @ ys) inst = Option.bind (run_alone xs inst) (run_alone ys)"
  by (induction xs arbitrary: inst) (auto simp: bind_eq_Some_conv split: bind_splits)

definition on_target :: "nat \<Rightarrow> sim_op \<Rightarrow> ('d, 'f) orchestrator \<Rightarrow> ('d, 'f) orchestrator option" where
  "on_target i op insts =
     (if i < length insts then map_option (\<lambda>inst. insts[i := inst]) (run_alone [op] (insts ! i)) else None)"

lemma route_target:
  "map_option snd (route i f insts) =
     (if i < length insts then map_option (\<lambda>sm. insts[i := (insts ! i)\<lparr> it_sim := sm \<rparr>])
        (map_option snd (f (it_env (insts ! i)) (it_sim (insts ! i)))) else None)"
  by (cases "f (it_env (insts ! i)) (it_sim (insts ! i))") (auto simp: route_def instrument_at_def mog_pre_def)

lemma route_quiet_target:
  "route_quiet i f insts =
     (if i < length insts then map_option (\<lambda>sm. insts[i := (insts ! i)\<lparr> it_sim := sm \<rparr>]) (f (it_env (insts ! i)) (it_sim (insts ! i)))
      else None)"
  unfolding route_quiet_def route_target by (simp add: option.map_comp comp_def)

lemma run_one: "run_alone [op] inst = map_option (\<lambda>sm. inst\<lparr> it_sim := sm \<rparr>) (sim_op_run (it_env inst) op (it_sim inst))"
  by (simp add: map_conv_bind_option comp_def)

lemma step_on_target: "orch_step (OnInstrument i op) insts = on_target i op insts"
  unfolding on_target_def run_one
  by (cases op) (simp_all add: orch_seed_external_def orch_seed_iceberg_def orch_set_stp_mode_def orch_run_until_def
      orch_drain_def orch_submit_def orch_apply_external_def orch_advance_time_def orch_cancel_strategy_def
      orch_replace_strategy_def route_target route_quiet_target option.map_comp comp_def)

lemma those_Some: "those xs = Some ys \<longleftrightarrow> xs = map Some ys"
  by (induction xs arbitrary: ys) (auto split: option.splits)

lemma those_None: "those xs = None \<longleftrightarrow> None \<in> set xs"
  by (induction xs) (auto split: option.splits)

lemma those_bind:
  "Option.bind (those (map f [0..<n])) (\<lambda>ys. those (map (\<lambda>i. g i (ys ! i)) [0..<n])) = those (map (\<lambda>i. Option.bind (f i) (g i)) [0..<n])"
proof (cases "those (map f [0..<n])")
  case None
  then have "None \<in> set (map (\<lambda>i. Option.bind (f i) (g i)) [0..<n])" unfolding those_None by (force simp: image_iff)
  then have "those (map (\<lambda>i. Option.bind (f i) (g i)) [0..<n]) = None" by (simp only: those_None)
  then show ?thesis using None by simp
next
  case (Some ys)
  then have m: "map f [0..<n] = map Some ys" by (simp add: those_Some)
  have f: "f i = Some (ys ! i)" if "i < n" for i
    using arg_cong[OF m, of "\<lambda>l. l ! i"] arg_cong[OF m, of length] that by simp
  have "map (\<lambda>i. g i (ys ! i)) [0..<n] = map (\<lambda>i. Option.bind (f i) (g i)) [0..<n]" by (rule map_cong) (simp_all add: f)
  then show ?thesis unfolding Some by (simp only: bind.bind_lunit)
qed

lemma target_those:
  assumes "i < length insts"
  shows "on_target i op insts = those (map (\<lambda>k. run_alone (seen_by k (OnInstrument i op)) (insts ! k)) [0..<length insts])"
proof (cases "run_alone [op] (insts ! i)")
  case None
  then have "None \<in> set (map (\<lambda>k. run_alone (seen_by k (OnInstrument i op)) (insts ! k)) [0..<length insts])"
    using assms by (force simp: image_iff)
  then have "those (map (\<lambda>k. run_alone (seen_by k (OnInstrument i op)) (insts ! k)) [0..<length insts]) = None" by (simp only: those_None)
  then show ?thesis using None assms by (simp add: on_target_def del: run_alone.simps)
next
  case (Some inst)
  have "map (\<lambda>k. run_alone (seen_by k (OnInstrument i op)) (insts ! k)) [0..<length insts] = map Some (insts[i := inst])"
    using Some assms by (intro nth_equalityI) (auto simp: nth_list_update simp del: run_alone.simps(2))
  then show ?thesis using Some assms by (simp add: on_target_def those_Some[THEN iffD2] del: run_alone.simps)
qed

lemma broadcast_those:
  "broadcast (\<lambda>E. sim_op_run E op) insts = those (map (\<lambda>k. run_alone [op] (insts ! k)) [0..<length insts])"
proof -
  have "broadcast (\<lambda>E. sim_op_run E op) insts = those (map (run_alone [op]) insts)"
    unfolding run_one by (induction insts) (auto split: option.splits bind_splits)
  also have "map (run_alone [op]) insts = map (\<lambda>k. run_alone [op] (insts ! k)) [0..<length insts]"
    by (rule nth_equalityI) simp_all
  finally show ?thesis .
qed

lemma broadcast_ops: "(\<lambda>E. sim_op_run E DrainSim) = sim_drain" "(\<lambda>E. sim_op_run E (AdvanceTime dt)) = (\<lambda>E. advance_time E dt)"
  "(\<lambda>E. sim_op_run E (RunUntil ts)) = (\<lambda>E. run_until E ts)"
  by (simp_all add: fun_eq_iff)

definition op_in_range :: "nat \<Rightarrow> orch_op \<Rightarrow> bool" where
  "op_in_range n op = (case op of OnInstrument i _ \<Rightarrow> i < n | _ \<Rightarrow> True)"

lemma step_those:
  assumes "op_in_range (length insts) op"
  shows "orch_step op insts = those (map (\<lambda>k. run_alone (seen_by k op) (insts ! k)) [0..<length insts])"
proof (cases op)
  case (OnInstrument i sop)
  then show ?thesis using assms target_those[of i insts sop] unfolding OnInstrument step_on_target by (simp add: op_in_range_def)
next
  case DrainAll
  then show ?thesis using broadcast_those[of DrainSim insts] by (simp add: drain_all_def broadcast_ops del: run_alone.simps)
next
  case (AdvanceAll dt)
  then show ?thesis using broadcast_those[of "AdvanceTime dt" insts] by (simp add: advance_all_def broadcast_ops del: run_alone.simps)
next
  case (RunUntilAll ts)
  then show ?thesis using broadcast_those[of "RunUntil ts" insts] by (simp add: run_until_all_def broadcast_ops del: run_alone.simps)
qed

text \<open>C24: Instruments do not interfere. Any sequence of operations with valid targets gives the portfolio of the
  instruments run alone, each on the operations addressed to it and the broadcasts, in the order of the
  sequence; and it aborts exactly when one of them does.\<close>

theorem portfolio_isolated:
  assumes "\<forall>op \<in> set ops. op_in_range (length insts) op"
  shows "orch_run ops insts = those (map (\<lambda>i. run_alone (concat (map (seen_by i) ops)) (insts ! i)) [0..<length insts])"
  using assms
proof (induction ops arbitrary: insts)
  case Nil
  have "map (\<lambda>i. Some (insts ! i)) [0..<length insts] = map Some insts" by (rule nth_equalityI) simp_all
  then show ?case by (simp add: those_Some[THEN iffD2])
next
  case (Cons op ops)
  let ?n = "length insts"
  have rest: "orch_run ops insts' = those (map (\<lambda>i. run_alone (concat (map (seen_by i) ops)) (insts' ! i)) [0..<?n])"
    if "orch_step op insts = Some insts'" for insts'
  proof -
    from that step_those[of insts op] Cons.prems have "length insts' = ?n"
      by (metis length_map length_upt minus_nat.diff_0 those_Some list.set_intros(1))
    then show ?thesis using Cons.IH[of insts'] Cons.prems by simp
  qed
  have "orch_run (op # ops) insts = Option.bind (orch_step op insts)
      (\<lambda>insts'. those (map (\<lambda>i. run_alone (concat (map (seen_by i) ops)) (insts' ! i)) [0..<?n]))"
    using rest by (cases "orch_step op insts") simp_all
  also have "\<dots> = those (map (\<lambda>i. Option.bind (run_alone (seen_by i op) (insts ! i)) (run_alone (concat (map (seen_by i) ops)))) [0..<?n])"
    using step_those[of insts op] Cons.prems those_bind[of "\<lambda>i. run_alone (seen_by i op) (insts ! i)" ?n "\<lambda>i. run_alone (concat (map (seen_by i) ops))"]
    by simp
  finally show ?case by (simp add: run_alone_append)
qed

lemma portfolio_isolated_witness:
  "\<forall>inst :: (unit, unit) instrument. orch_run [OnInstrument 1 (SetStp CancelOldest), OnInstrument 0 (SetStp Decrement)] [inst, inst] =
     Some [inst\<lparr> it_sim := (it_sim inst)\<lparr> si_stp := Decrement \<rparr> \<rparr>, inst\<lparr> it_sim := (it_sim inst)\<lparr> si_stp := CancelOldest \<rparr> \<rparr>]"
  by (intro allI, subst portfolio_isolated) (simp_all add: op_in_range_def set_stp_mode_def numeral_2_eq_2)

end
