(* ===== verification/Spec2Isabelle.thy ===== *)
theory Spec2Isabelle
  imports BookProps CodecProps StructProps FeedProps SimBehaviour OuchProps WheelAgree TradeProps DiffProps
    Digests Pcap Calendar SpscRing GridRunner RunProps StrategyRun GatewayRun Metrics Orchestrate
begin

text \<open>
  A verification development for mog, a limit order book and backtester in C++26. The theories
  model the headers under \<open>src/include/mog/\<close>; each opens with a text naming the code it translates.

  How the program is put together. Market data arrives as NASDAQ ITCH 5.0 bytes. \<open>Wire.hpp\<close> reads
  and writes big-endian fields, \<open>Types.hpp\<close> holds the fixed-point types, the message records and
  the reference codecs, \<open>ITCHParser.hpp\<close> the fast parser that streams messages into a sink. The
  sink applies each message to \<open>OrderBook.hpp\<close>, whose orders live in the slots of \<open>Arena.hpp\<close>,
  whose price levels live in the two paged ladders of \<open>Ladder.hpp\<close>, and whose references are found
  through an open-addressed table. Each level is a FIFO queue threaded through the arena slots.
  \<open>MoldUdp.hpp\<close> frames the packets of the feed and detects gaps, \<open>Session.hpp\<close> and
  \<open>SessionFeed.hpp\<close> follow halts and auctions. \<open>Simulate.hpp\<close> is the backtest engine: strategy
  orders wait in the queue of \<open>Scheduler.hpp\<close> until their decision time, then cross the book and the
  hidden ledger, rest, or are rejected; external flow consumes the same book. \<open>OUCH.hpp\<close> is its
  order-entry gateway: inbound frames become simulator calls, its decisions and fills become frames.

  Conventions of the model. A contract macro (\<open>MOG_PRE\<close>, \<open>MOG_POST\<close>, \<open>MOG_CONTRACT_ASSERT\<close>) is in its
  enforcing mode: an operation that can violate one returns an \<open>option\<close> and \<open>None\<close> is the abort,
  \<open>mog_pre\<close> its guard. Signed 64-bit values are integers, with \<open>fits64\<close> or the bounds written out
  where an addition could overflow; unsigned values whose wrapping or bits matter are words; sizes
  and indices are naturals with \<open>kNullIndex\<close> as the null link. Arrays are lists. A callback is a
  function on the state of its caller. The host byte order is the argument \<open>le\<close>. A loop without a
  structural measure is a \<open>partial_function (option)\<close> and the theorems show it returns.

  The theories and what they show.
    \<^item> Prelude: word and list types, \<open>mog_pre\<close>, bit scans, binary search, shared lemmas.
    \<^item> Wire, FixedPoint: byte order and saturating arithmetic (\<open>Wire.hpp\<close>, \<open>Saturating.hpp\<close>).
    \<^item> ItchCodec, ItchRoundtrip: packed records, decoders, encoders (\<open>Types.hpp\<close>); every decoder
      and encoder pair is inverse on well-formed messages and canonical frames.
    \<^item> ItchParser, ItchStream: the kernel, stream loops and trace hash (\<open>ITCHParser.hpp\<close>); the
      kernel equals the reference decoder and the loops deliver exactly the longest valid prefix.
    \<^item> Arena: slots, free list, generations (\<open>Arena.hpp\<close>); a refinement to a finite map with stale
      handles, through the locale \<open>gen_store\<close>.
    \<^item> ProbeTable, IdTable: linear probing with backward-shift deletion (\<open>OrderBook.hpp\<close>); the
      locale \<open>probing\<close> proves search, insertion and deletion for any hash, the locale
      \<open>ref_table\<close> states the contract the book relies on.
    \<^item> Ladder, LadderScan, LadderProofs, LadderBest: pages, bit masks, scans
      (\<open>Ladder.hpp\<close>); the scans return the nearest occupied tick for every page shift from 4 to 12.
    \<^item> OrderBook: the book's state and operations (\<open>OrderBook.hpp\<close>). BookQueue: doubly linked queues
      in a store. BookInv: the book invariant \<open>book_inv\<close>, the abstraction to one FIFO list of
      (reference, quantity) per side and price, and the relation \<open>book_rel\<close>. BookOps, BookReduce,
      BookRefine, BookClient, BookReplace: each operation on every branch. BookAudit: the
      constructor, the self-check and the simulation of operation sequences, with \<open>abook_step\<close> the
      abstract price-time priority book as an inductive step relation.
    \<^item> BinHeap, Scheduler, SchedHeap, SchedProofs, EventQueue: the binary heap of events with slots
      and handles (\<open>Scheduler.hpp\<close>); pops are sorted by time and arrival, through \<open>event_queue\<close>.
    \<^item> MoldUdp, MoldProofs, Session, SessionProofs, DeltaRing: framing, session model, delta ring.
    \<^item> SimTypes, SimLedger, Simulator, SimDecide: state and operations of the simulator
      (\<open>Simulate.hpp\<close>), with the driver of random and floating-point quantities as the argument
      \<open>sim_env\<close>. SimHidden: the hidden ledger is first in, first out. SimFrame: the locales
      \<open>sim_quiet\<close>, \<open>sim_below\<close>, \<open>sim_deep\<close>, \<open>sim_frame\<close> over views of the state. SimRun: the event loop.
      SimSweep: the matching relation \<open>sweeps\<close> over the abstract book and the ledger, and
      the proof that \<open>cross\<close> implements it.
    \<^item> Ouch, FlatTable, Gateway: frames, tokens, order table, gateway (\<open>OUCH.hpp\<close>); the
      table is a finite map, through the locales \<open>probing\<close> and \<open>assign_table\<close>.
    \<^item> TimingWheel, WheelRoute, WheelChains, WheelProofs, WheelSettle, WheelQueue, WheelPush, WheelAudit: the
      hierarchical wheel (\<open>TimingWheel.hpp\<close>), its routing, chains, cascade and self-check; it meets the
      same contract \<open>event_queue\<close> as the heap. WheelAgree: the two engines side by side; inside
      the wheel's contract, stated on the scheduler as reference, every call of the wheel returns.
    \<^item> Replay, ReplayProofs, ReplayBook: the run over a recorded stream in three framings
      (\<open>Replay.hpp\<close>), through the locales \<open>frame_listener\<close> (a listener that stays within its frame) and
      \<open>book_client\<close> (a client that drives a book with a stream). Trades, DiffProps: reconstruction of
      prints, their canonical rows and the comparison (\<open>Trades.hpp\<close>, \<open>TradeDiff.hpp\<close>).
    \<^item> Digests: SHA-256 and the fast digest (\<open>Sha256.hpp\<close>, \<open>FastDigest.hpp\<close>); streaming in pieces is the
      digest of the whole. Pcap: captures (\<open>Pcap.hpp\<close>). Calendar: civil dates and session bounds
      (\<open>Calendar.hpp\<close>).
    \<^item> SpscRing: the two-thread ring (\<open>SpscRing.hpp\<close>), one shared access a step, with an invariant over all
      interleavings. GridRunner: worker threads over a shared counter (\<open>GridRunner.hpp\<close>).
    \<^item> ScriptRun, Tearsheet: scripted runs with their event log (\<open>SimRun.hpp\<close>) and the report computed from
      the log (\<open>Tearsheet.hpp\<close>). RunProps: the log is read back row for row, the summary of a run
      counts its log, and the report is that of plain reference definitions. Orchestrate: the portfolio of
      simulators (\<open>Orchestrate.hpp\<close>), whose instruments do not interfere.
    \<^item> StrategyRun: the strategy runner (\<open>Strategy.hpp\<close>), with a strategy as a state and four functions; the locale
      \<open>sim_stamp\<close> carries an invariant of the numbered occurrences through every operation of the
      simulator, and hooks see the occurrences in the order of their numbers. GatewayRun: sessions of the
      gateway with its simulator; what a frame announces is stated on its bytes.
    \<^item> Metrics: the cash account, the latency histogram and the streaming markouts (\<open>Metrics.hpp\<close>); streaming
      accumulates what a batch over all samples would.
    \<^item> BookProps, CodecProps, StructProps, FeedProps, SimProps, SimBehaviour, OuchProps, ReplayProps, TradeProps, DiffProps: the
      properties, each with a witness at a concrete input.

  Bounds. The ladder theorems assume the static assertion \<open>4 \<le> page shift \<le> 12\<close>. A book operation
  is in its domain (\<open>op_safe\<close>) when references are not zero, the side is buy or sell and the level
  total stays within 64 bits; outside it the code aborts or has undefined behaviour. A handle may
  validate again only after its slot was released \<open>2 ^ 32\<close> times. The matching theorems assume that no
  strategy order rests at a level and no iceberg is registered (\<open>external_only\<close>) and that hidden
  orders have positive quantity (\<open>hidden_wf\<close>); where strategy orders rest, self-trade prevention may end a
  sweep or remove quantity, and those theorems claim nothing. The reference codecs of \<open>Types.hpp\<close> swap
  whatever the host, so their round trips are those of a little-endian host. The distance of a tick from the low end of a
  ladder and the sums of a tearsheet are unbounded integers, so results hold while they stay within 64 bits. The order table grows by a call of itself; the model
  unfolds it to one level, after which the table has room.

  Doubles are not computed: where the code divides them, as in the hit rate, the relative drawdown and the
  mean markouts of a tearsheet and of the metrics, the model keeps their operands. Signed overflow of a number read by the
  script and log parsers is undefined in the code and \<open>None\<close> in the model.

  Not modelled. Files, memory maps, performance counters and the command line; the floating-point
  statistics of \<open>Impact.hpp\<close> and, in \<open>Metrics.hpp\<close>, the equity at a double mark, the lead-lag correlation and the
  information shares; column storage (\<open>ColumnLog.hpp\<close>, \<open>Arrow.hpp\<close>), which writes
  through memory maps and reflection; time travel (\<open>TimeTravel.hpp\<close>), which forks the process; bindings.
\<close>

end
